(* ===== verification/Prelude.thy ===== *)
theory Prelude
  imports Main "HOL-Library.Word" "HOL-Library.Monad_Syntax"
begin

unbundle bit_operations_syntax

section \<open>Shared types, machine arithmetic and list lemmas\<close>

text \<open>
  What every component theory of the PothosCore development shares.

  \<^item> \<open>size_t\<close>: the 64-bit unsigned integers of the C++ code, as natural numbers together
    with the wrapping operations \<open>sz_add\<close>, \<open>sz_sub\<close>, \<open>sz_mul\<close>. A theorem about code
    that must not wrap derives the bound and then rewrites with \<open>sz_add_small\<close> and its
    companions (collection \<open>sz_simps\<close>).
  \<^item> \<open>and_pow2_mask\<close>: masking with \<open>2^k - 1\<close> is reduction modulo \<open>2^k\<close>, also after the
    64-bit wrap, which is what the index arithmetic of the ring buffer relies on.
  \<^item> generic facts on lists indexed modulo a length.
\<close>

type_synonym size_t = nat

named_theorems sz_simps \<open>rewrite rules for size_t arithmetic that does not wrap\<close>

abbreviation SIZE_MAX1 :: nat where
  "SIZE_MAX1 \<equiv> 18446744073709551616"

definition sz_add :: "size_t \<Rightarrow> size_t \<Rightarrow> size_t" where
  "sz_add a b = (a + b) mod SIZE_MAX1"

definition sz_sub :: "size_t \<Rightarrow> size_t \<Rightarrow> size_t" where
  "sz_sub a b = (a + (SIZE_MAX1 - b mod SIZE_MAX1)) mod SIZE_MAX1"

definition sz_mul :: "size_t \<Rightarrow> size_t \<Rightarrow> size_t" where
  "sz_mul a b = (a * b) mod SIZE_MAX1"

lemma sz_add_small [sz_simps]: "a + b < SIZE_MAX1 \<Longrightarrow> sz_add a b = a + b"
  by (simp add: sz_add_def)

lemma sz_sub_small [sz_simps]:
  assumes "b \<le> a" "a < SIZE_MAX1"
  shows "sz_sub a b = a - b"
proof -
  have "a + (SIZE_MAX1 - b mod SIZE_MAX1) = (a - b) + SIZE_MAX1"
    using assms by simp
  then show ?thesis
    using assms unfolding sz_sub_def by (simp only: mod_add_self2) simp
qed

lemma sz_mul_small [sz_simps]: "a * b < SIZE_MAX1 \<Longrightarrow> sz_mul a b = a * b"
  by (simp add: sz_mul_def)

lemma sz_add_lt [simp]: "sz_add a b < SIZE_MAX1"
  by (simp add: sz_add_def)

lemma sz_sub_lt [simp]: "sz_sub a b < SIZE_MAX1"
  by (simp add: sz_sub_def)

lemma sz_mul_lt [simp]: "sz_mul a b < SIZE_MAX1"
  by (simp add: sz_mul_def)

lemma sz_sub_underflow:
  assumes "a < b" "b < SIZE_MAX1"
  shows "sz_sub a b = SIZE_MAX1 - (b - a)"
  using assms by (simp add: sz_sub_def)

lemma sz_sub_1: "n \<noteq> 0 \<Longrightarrow> sz_sub n (Suc 0) = (n - 1) mod SIZE_MAX1"
proof -
  assume "n \<noteq> 0"
  then have "n + (SIZE_MAX1 - 1) = (n - 1) + SIZE_MAX1" by simp
  moreover have "SIZE_MAX1 - Suc 0 mod SIZE_MAX1 = SIZE_MAX1 - 1" by simp
  ultimately show ?thesis
    unfolding sz_sub_def by (simp only: mod_add_self2)
qed

lemma sz_sub_1_less [simp, termination_simp]: "n \<noteq> 0 \<Longrightarrow> sz_sub n (Suc 0) < n"
  using mod_less_eq_dividend [of "n - 1" SIZE_MAX1] by (simp add: sz_sub_1)

text \<open>Masking with a power of two less one.\<close>

lemma and_pow2_mask:
  fixes i :: nat
  shows "i AND (2 ^ k - 1) = i mod 2 ^ k"
  by (simp only: mask_eq_exp_minus_1 [symmetric] take_bit_eq_mask [symmetric] take_bit_eq_mod)

lemma mod_SIZE_MAX1_mod_pow2:
  assumes "k \<le> 64"
  shows "(i mod SIZE_MAX1) mod 2 ^ k = (i :: nat) mod 2 ^ k"
proof -
  have "(2::nat) ^ k dvd 2 ^ 64"
    using assms by (rule le_imp_power_dvd)
  then have "(2::nat) ^ k dvd SIZE_MAX1"
    by simp
  then show ?thesis
    by (simp add: mod_mod_cancel)
qed

text \<open>Indices modulo a length.\<close>

lemma mod_add_left_inj:
  fixes f i j n :: nat
  assumes "i < n" "j < n" "(f + i) mod n = (f + j) mod n"
  shows "i = j"
proof -
  obtain q1 q2 where "f + i + n * q1 = f + j + n * q2"
    using assms(3) by (auto simp: nat_mod_eq_iff)
  then have "i mod n = j mod n"
    by (auto simp: nat_mod_eq_iff)
  then show ?thesis using assms by simp
qed

lemma mod_rel_iff:
  fixes i j n nxt :: nat
  assumes "i < n" "j < n" "nxt < n"
  shows "(i + (n - nxt)) mod n = j \<longleftrightarrow> i = (nxt + j) mod n"
proof
  assume "(i + (n - nxt)) mod n = j"
  then have "(nxt + j) mod n = (nxt + (i + (n - nxt))) mod n" by (metis mod_add_right_eq)
  also have "nxt + (i + (n - nxt)) = i + n" using assms by simp
  finally show "i = (nxt + j) mod n" using assms by simp
next
  assume "i = (nxt + j) mod n"
  then have "(i + (n - nxt)) mod n = ((nxt + j) + (n - nxt)) mod n" by (metis mod_add_left_eq)
  also have "(nxt + j) + (n - nxt) = j + n" using assms by simp
  finally show "(i + (n - nxt)) mod n = j" using assms by simp
qed

lemma length_filter_update_less:
  assumes "i < length xs" "P (xs ! i)" "\<not> P y"
  shows "length (filter P (xs[i := y])) < length (filter P xs)"
proof -
  have "filter P xs = filter P (take i xs) @ xs ! i # filter P (drop (Suc i) xs)"
    using assms by (subst id_take_nth_drop [OF assms(1)]) simp
  moreover have "filter P (xs[i := y]) = filter P (take i xs) @ filter P (drop (Suc i) xs)"
    using assms by (simp add: upd_conv_take_nth_drop)
  ultimately show ?thesis by simp
qed

text \<open>A loop over a list whose body may fail.\<close>

primrec fold_opt :: "('x \<Rightarrow> 's \<Rightarrow> 's option) \<Rightarrow> 'x list \<Rightarrow> 's \<Rightarrow> 's option" where
  "fold_opt f [] s = Some s"
| "fold_opt f (x # xs) s = do { s \<leftarrow> f x s; fold_opt f xs s }"

lemma fold_opt_append [simp]:
  "fold_opt f (xs @ ys) s = do { s \<leftarrow> fold_opt f xs s; fold_opt f ys s }"
  by (induction xs arbitrary: s) (auto simp: Option.bind_assoc)

lemma count_list_update:
  "i < length xs \<Longrightarrow>
   count_list (xs[i := y]) z = count_list xs z + (if y = z then 1 else 0) - (if xs ! i = z then 1 else 0)"
proof (induction xs arbitrary: i)
  case (Cons x xs)
  have "xs ! k = z \<Longrightarrow> k < length xs \<Longrightarrow> 0 < count_list xs z" for k
    by (metis count_list_0_iff gr0I nth_mem)
  then show ?case using Cons by (cases i) auto
qed simp

lemma count_list_nth_pos: "i < length xs \<Longrightarrow> 0 < count_list xs (xs ! i)"
  by (metis count_list_0_iff gr0I nth_mem)

text \<open>Sequencing of calls that return a value or throw.\<close>

definition rbind :: "'e + 'a \<Rightarrow> ('a \<Rightarrow> 'e + 'b) \<Rightarrow> 'e + 'b" where
  "rbind m f = (case m of Inl e \<Rightarrow> Inl e | Inr x \<Rightarrow> f x)"

definition of_opt :: "'e \<Rightarrow> 'a option \<Rightarrow> 'e + 'a" where
  "of_opt e m = (case m of None \<Rightarrow> Inl e | Some x \<Rightarrow> Inr x)"

lemma rbind_simps [simp]:
  "rbind (Inl e) f = Inl e" "rbind (Inr x) f = f x"
  "of_opt e None = Inl e" "of_opt e (Some x) = Inr x"
  by (simp_all add: rbind_def of_opt_def)

lemma rbind_Inr_conv: "rbind m f = Inr y \<longleftrightarrow> (\<exists>x. m = Inr x \<and> f x = Inr y)"
  by (cases m) simp_all

text \<open>A counted loop \<open>for (i = a; i < b; i++)\<close> whose body may throw.\<close>

primrec for_loop :: "(nat \<Rightarrow> 's \<Rightarrow> 'e + 's) \<Rightarrow> nat list \<Rightarrow> 's \<Rightarrow> 'e + 's" where
  "for_loop f [] s = Inr s"
| "for_loop f (i # is) s = rbind (f i s) (for_loop f is)"

lemma for_loop_inv:
  assumes "P 0 s" "\<And>i s. i < n \<Longrightarrow> P i s \<Longrightarrow> \<exists>s'. f i s = Inr s' \<and> P (Suc i) s'"
  shows "\<exists>s'. for_loop f [0..<n] s = Inr s' \<and> P n s'"
proof -
  have "k \<le> n \<Longrightarrow> P k s \<Longrightarrow> \<exists>s'. for_loop f [k..<n] s = Inr s' \<and> P n s'" for k s
  proof (induction "n - k" arbitrary: k s)
    case (Suc d)
    have "k < n" using Suc.hyps(2) by linarith
    then obtain s1 where "f k s = Inr s1" "P (Suc k) s1" using assms(2) [of k s] Suc.prems by auto
    moreover have "[k..<n] = k # [Suc k..<n]" using Suc by (simp add: upt_conv_Cons)
    ultimately show ?case using Suc by auto
  qed simp
  then show ?thesis using assms(1) by simp
qed

end
