(* ===== verification/RingDeque.thy ===== *)
theory RingDeque
  imports Prelude
begin

unbundle bit_operations_syntax

section \<open>The ring deque of include/Pothos/Util/RingDeque.hpp\<close>

text \<open>
  \<open>Pothos::Util::RingDeque\<close> is the queue under every other queue of the framework: the
  ready queue of the buffer managers, the queue of the buffer accumulator and the message,
  slot and label queues of the ports. The record \<open>RingDeque\<close> has the members of the class.
  The storage \<open>rd_container\<close> is the raw memory behind \<open>_container\<close>: a cell is \<open>Some x\<close>
  between the placement new that constructs \<open>x\<close> and the destructor call, \<open>None\<close> otherwise;
  \<open>[]\<close> is the null pointer a moved-from deque holds. The indices are \<open>size_t\<close> and wrap.

  The asserts of the class are compiled out of release builds, so they are not part of the
  operations; the invariant \<open>rd_inv\<close> and the preconditions of the lemmas are what they check.
  Reading a raw cell is undefined behaviour in C++ and the value \<open>None\<close> here. An operation
  that constructs a deque returns an option because \<open>nextPow2\<close> does not return for a
  capacity above \<open>2 ^ 63\<close>.

  The section ends with the interface \<open>deque\<close> that the client components use: what each
  operation does to the list of elements. It is interpreted on the ring deque.
\<close>

subsection \<open>State\<close>

record 'a RingDeque =
  rd_mask :: size_t
  rd_capacity :: size_t
  rd_frontIndex :: size_t
  rd_numElements :: size_t
  rd_container :: "'a option list"

subsection \<open>Operations\<close>

text \<open>\<open>Detail::nextPow2\<close>: the left shift drops the top bit.\<close>

partial_function (option) nextPow2_loop :: "size_t \<Rightarrow> size_t \<Rightarrow> size_t option" where
  "nextPow2_loop out inp =
     (if out < inp then nextPow2_loop (sz_mul out 2) inp else Some out)"

definition nextPow2 :: "size_t \<Rightarrow> size_t option" where
  "nextPow2 inp = nextPow2_loop 1 inp"

definition RingDeque_new :: "size_t \<Rightarrow> 'a RingDeque option" where
  "RingDeque_new capacity =
     (case nextPow2 capacity of
        None \<Rightarrow> None
      | Some p \<Rightarrow> Some \<lparr>rd_mask = sz_sub p 1, rd_capacity = capacity, rd_frontIndex = 0,
                        rd_numElements = 0,
                        rd_container = replicate (sz_add (sz_sub p 1) 1) None\<rparr>)"

definition RingDeque_cell :: "'a RingDeque \<Rightarrow> size_t \<Rightarrow> nat" where
  "RingDeque_cell d offset = sz_add (rd_frontIndex d) offset AND rd_mask d"

definition RingDeque_at :: "'a RingDeque \<Rightarrow> size_t \<Rightarrow> 'a option" where
  "RingDeque_at d offset =
     (if RingDeque_cell d offset < length (rd_container d)
      then rd_container d ! RingDeque_cell d offset else None)"

definition RingDeque_front :: "'a RingDeque \<Rightarrow> 'a option" where
  "RingDeque_front d = RingDeque_at d 0"

definition RingDeque_back :: "'a RingDeque \<Rightarrow> 'a option" where
  "RingDeque_back d = RingDeque_at d (sz_sub (rd_numElements d) 1)"

definition RingDeque_empty :: "'a RingDeque \<Rightarrow> bool" where
  "RingDeque_empty d \<longleftrightarrow> rd_numElements d = 0"

definition RingDeque_full :: "'a RingDeque \<Rightarrow> bool" where
  "RingDeque_full d \<longleftrightarrow> rd_numElements d = rd_capacity d"

text \<open>Assignment through the reference that \<open>operator[]\<close> returns.\<close>

definition RingDeque_set :: "'a RingDeque \<Rightarrow> size_t \<Rightarrow> 'a \<Rightarrow> 'a RingDeque" where
  "RingDeque_set d offset x =
     d\<lparr>rd_container := (rd_container d)[RingDeque_cell d offset := Some x]\<rparr>"

definition RingDeque_emplace_front :: "'a RingDeque \<Rightarrow> 'a \<Rightarrow> 'a RingDeque" where
  "RingDeque_emplace_front d x =
     (let d1 = d\<lparr>rd_frontIndex := sz_sub (rd_frontIndex d) 1,
                  rd_numElements := sz_add (rd_numElements d) 1\<rparr>
      in d1\<lparr>rd_container := (rd_container d1)[RingDeque_cell d1 0 := Some x]\<rparr>)"

definition RingDeque_push_front :: "'a RingDeque \<Rightarrow> 'a \<Rightarrow> 'a RingDeque" where
  "RingDeque_push_front d x = RingDeque_emplace_front d x"

definition RingDeque_pop_front :: "'a RingDeque \<Rightarrow> 'a RingDeque" where
  "RingDeque_pop_front d =
     d\<lparr>rd_container := (rd_container d)[RingDeque_cell d 0 := None],
       rd_frontIndex := sz_add (rd_frontIndex d) 1,
       rd_numElements := sz_sub (rd_numElements d) 1\<rparr>"

definition RingDeque_emplace_back :: "'a RingDeque \<Rightarrow> 'a \<Rightarrow> 'a RingDeque" where
  "RingDeque_emplace_back d x =
     (let d1 = d\<lparr>rd_numElements := sz_add (rd_numElements d) 1\<rparr>
      in d1\<lparr>rd_container :=
              (rd_container d1)[RingDeque_cell d1 (sz_sub (rd_numElements d1) 1) := Some x]\<rparr>)"

definition RingDeque_push_back :: "'a RingDeque \<Rightarrow> 'a \<Rightarrow> 'a RingDeque" where
  "RingDeque_push_back d x = RingDeque_emplace_back d x"

definition RingDeque_pop_back :: "'a RingDeque \<Rightarrow> 'a RingDeque" where
  "RingDeque_pop_back d =
     d\<lparr>rd_container := (rd_container d)[RingDeque_cell d (sz_sub (rd_numElements d) 1) := None],
       rd_numElements := sz_sub (rd_numElements d) 1\<rparr>"

function RingDeque_clear :: "'a RingDeque \<Rightarrow> 'a RingDeque" where
  "RingDeque_clear d = (if RingDeque_empty d then d else RingDeque_clear (RingDeque_pop_front d))"
  by pat_completeness auto
termination
  by (relation "measure rd_numElements") (auto simp: RingDeque_empty_def RingDeque_pop_front_def)

declare RingDeque_clear.simps [simp del]

text \<open>The move constructor and the move assignment: the new value and what is left of \<open>other\<close>.\<close>

definition RingDeque_moved_from :: "'a RingDeque \<Rightarrow> 'a RingDeque" where
  "RingDeque_moved_from other =
     other\<lparr>rd_numElements := 0, rd_capacity := 0, rd_container := []\<rparr>"

definition RingDeque_move_new :: "'a RingDeque \<Rightarrow> 'a RingDeque \<times> 'a RingDeque" where
  "RingDeque_move_new other = (other, RingDeque_moved_from other)"

definition RingDeque_move_assign ::
    "'a RingDeque \<Rightarrow> 'a RingDeque \<Rightarrow> 'a RingDeque \<times> 'a RingDeque" where
  "RingDeque_move_assign this other =
     (let cleared = RingDeque_clear this
      in (cleared\<lparr>rd_mask := rd_mask other, rd_capacity := rd_capacity other,
                  rd_frontIndex := rd_frontIndex other, rd_numElements := rd_numElements other,
                  rd_container := rd_container other\<rparr>,
          RingDeque_moved_from other))"

text \<open>The loop of \<open>set_capacity\<close>: \<open>newRing.push_back(std::move(front())); pop_front()\<close>.\<close>

function RingDeque_drain ::
    "'a RingDeque \<Rightarrow> 'a RingDeque \<Rightarrow> ('a RingDeque \<times> 'a RingDeque) option" where
  "RingDeque_drain this newRing =
     (if RingDeque_empty this then Some (this, newRing)
      else case RingDeque_front this of
             None \<Rightarrow> None
           | Some x \<Rightarrow> RingDeque_drain (RingDeque_pop_front this) (RingDeque_push_back newRing x))"
  by pat_completeness auto
termination
  by (relation "measure (rd_numElements \<circ> fst)")
    (auto simp: RingDeque_empty_def RingDeque_pop_front_def)

declare RingDeque_drain.simps [simp del]

definition RingDeque_set_capacity :: "'a RingDeque \<Rightarrow> size_t \<Rightarrow> 'a RingDeque option" where
  "RingDeque_set_capacity this capacity =
     (if rd_numElements this > capacity then Some this
      else do { newRing \<leftarrow> RingDeque_new capacity;
                (this', newRing') \<leftarrow> RingDeque_drain this newRing;
                Some (fst (RingDeque_move_assign this' newRing')) })"

text \<open>The loop \<open>for (i = 0; i < other.size(); i++) push_back(other[i])\<close>, over the indices.\<close>

fun RingDeque_append_from :: "'a RingDeque \<Rightarrow> 'a RingDeque \<Rightarrow> size_t list \<Rightarrow> 'a RingDeque option" where
  "RingDeque_append_from this other [] = Some this"
| "RingDeque_append_from this other (i # is) =
     (case RingDeque_at other i of
        None \<Rightarrow> None
      | Some x \<Rightarrow> RingDeque_append_from (RingDeque_push_back this x) other is)"

definition RingDeque_copy_new :: "'a RingDeque \<Rightarrow> 'a RingDeque option" where
  "RingDeque_copy_new other =
     RingDeque_append_from
       \<lparr>rd_mask = rd_mask other, rd_capacity = rd_capacity other, rd_frontIndex = 0,
        rd_numElements = 0, rd_container = replicate (sz_add (rd_mask other) 1) None\<rparr>
       other [0..<rd_numElements other]"

definition RingDeque_copy_assign :: "'a RingDeque \<Rightarrow> 'a RingDeque \<Rightarrow> 'a RingDeque option" where
  "RingDeque_copy_assign this other =
     do { t \<leftarrow> RingDeque_set_capacity (RingDeque_clear this) (rd_capacity other);
          RingDeque_append_from t other [0..<rd_numElements other] }"

text \<open>The same operator with \<open>&other == this\<close>: every read of \<open>other\<close> reads the deque being changed.\<close>

definition RingDeque_self_assign :: "'a RingDeque \<Rightarrow> 'a RingDeque option" where
  "RingDeque_self_assign this =
     do { let cleared = RingDeque_clear this;
          t \<leftarrow> RingDeque_set_capacity cleared (rd_capacity cleared);
          RingDeque_append_from t t [0..<rd_numElements t] }"

text \<open>The destructor: the storage after it (null for a moved-from deque, all raw otherwise).\<close>

definition RingDeque_delete :: "'a RingDeque \<Rightarrow> 'a option list" where
  "RingDeque_delete this =
     (if rd_container this = [] then [] else rd_container (RingDeque_clear this))"

subsection \<open>Rounding up to a power of two\<close>

lemma nextPow2_loop_Some:
  assumes "j \<le> 63" "inp \<le> 2 ^ 63" "j = 0 \<or> 2 ^ (j - 1) < inp"
  shows "\<exists>k \<le> 63. nextPow2_loop (2 ^ j) inp = Some (2 ^ k) \<and> inp \<le> 2 ^ k \<and> (k = 0 \<or> 2 ^ (k - 1) < inp)"
  using assms
proof (induction "63 - j" arbitrary: j)
  case 0
  then have "j = 63" by simp
  with 0 show ?case by (intro exI [of _ 63]) (simp add: nextPow2_loop.simps)
next
  case (Suc m)
  show ?case
  proof (cases "2 ^ j < inp")
    case True
    have j: "j \<le> 62" using Suc by simp
    have "(2::nat) ^ (j + 1) \<le> 2 ^ 63" using j by (intro power_increasing) auto
    then have "sz_mul (2 ^ j) 2 = 2 ^ (j + 1)" by (simp add: sz_mul_small)
    then have "nextPow2_loop (2 ^ j) inp = nextPow2_loop (2 ^ (j + 1)) inp"
      using True by (subst nextPow2_loop.simps) simp
    moreover have "m = 63 - (j + 1)" using Suc by simp
    ultimately show ?thesis using Suc(1) [of "j + 1"] Suc.prems True j by simp
  next
    case False
    with Suc.prems show ?thesis by (intro exI [of _ j]) (simp add: nextPow2_loop.simps)
  qed
qed

text \<open>The loop returns the least power of two that is at least the argument.\<close>

lemma nextPow2_Some:
  assumes "inp \<le> 2 ^ 63"
  obtains k where "k \<le> 63" "nextPow2 inp = Some (2 ^ k)" "inp \<le> 2 ^ k" "k = 0 \<or> 2 ^ (k - 1) < inp"
  using nextPow2_loop_Some [of 0 inp] assms by (auto simp: nextPow2_def)

lemma nextPow2_le: "inp \<le> 2 ^ 63 \<Longrightarrow> nextPow2 inp = Some p \<Longrightarrow> inp \<le> p"
  by (erule nextPow2_Some) auto

lemma nextPow2_loop_pow2_or_0:
  assumes "nextPow2_loop out inp = Some r" "out \<in> {2 ^ j | j. j \<le> 63} \<or> out = 0"
  shows "inp \<le> r \<and> (r \<in> {2 ^ j | j. j \<le> 63} \<or> r = 0)"
proof -
  have step: "sz_mul out 2 \<in> {2 ^ j | j. j \<le> 63} \<or> sz_mul out 2 = 0"
    if "out \<in> {2 ^ j | j. j \<le> 63} \<or> out = 0" for out :: nat
  proof (cases "out = 0 \<or> out = 2 ^ 63")
    case True
    then show ?thesis by (auto simp: sz_mul_def)
  next
    case False
    with that obtain j where "out = 2 ^ j" "j < 63" by (auto simp: le_less)
    moreover from \<open>j < 63\<close> have "(2::nat) ^ (j + 1) \<le> 2 ^ 63" by (intro power_increasing) auto
    ultimately have "sz_mul out 2 = 2 ^ (j + 1)" by (simp add: sz_mul_small)
    with \<open>j < 63\<close> show ?thesis by (metis (mono_tags, lifting) Suc_eq_plus1 Suc_leI mem_Collect_eq)
  qed
  show ?thesis
    using assms
  proof (rule nextPow2_loop.raw_induct [where P = "\<lambda>out inp r.
      out \<in> {2 ^ j | j. j \<le> 63} \<or> out = 0 \<longrightarrow> inp \<le> r \<and> (r \<in> {2 ^ j | j. j \<le> 63} \<or> r = 0)",
      rule_format, rotated -2])
    fix f :: "nat \<Rightarrow> nat \<Rightarrow> nat option" and out inp r :: nat
    assume IH: "\<And>out inp r. f out inp = Some r \<Longrightarrow> out \<in> {2 ^ j | j. j \<le> 63} \<or> out = 0 \<Longrightarrow>
        inp \<le> r \<and> (r \<in> {2 ^ j | j. j \<le> 63} \<or> r = 0)"
      and eq: "(if out < inp then f (sz_mul out 2) inp else Some out) = Some r"
      and out: "out \<in> {2 ^ j | j. j \<le> 63} \<or> out = 0"
    show "inp \<le> r \<and> (r \<in> {2 ^ j | j. j \<le> 63} \<or> r = 0)"
      using eq IH [of "sz_mul out 2" inp r] step [OF out] out by (cases "out < inp") auto
  qed
qed

text \<open>Above \<open>2 ^ 63\<close> the shifted value becomes 0 and the loop does not end.\<close>

lemma nextPow2_None:
  assumes "2 ^ 63 < inp"
  shows "nextPow2 inp = None"
proof (cases "nextPow2 inp")
  case (Some r)
  have one: "(1::nat) \<in> {2 ^ j | j. j \<le> 63} \<or> (1::nat) = 0" by (auto intro: exI [of _ 0])
  have "inp \<le> r" and "r \<in> {2 ^ j | j. j \<le> 63} \<or> r = 0"
    using nextPow2_loop_pow2_or_0 [OF Some [unfolded nextPow2_def] one] by auto
  moreover have "(2::nat) ^ j \<le> 2 ^ 63" if "j \<le> 63" for j using that by (intro power_increasing) auto
  ultimately have "r \<le> 2 ^ 63" by auto
  with \<open>inp \<le> r\<close> assms show ?thesis by simp
qed

subsection \<open>Invariant and abstraction\<close>

text \<open>
  The storage has a power of two cells, and exactly the \<open>numElements\<close> cells from the front
  index on hold constructed elements.
\<close>

definition rd_inv :: "'a RingDeque \<Rightarrow> bool" where
  "rd_inv d \<longleftrightarrow>
     (\<exists>k \<in> {..<64}. rd_mask d = 2 ^ k - 1) \<and>
     length (rd_container d) = rd_mask d + 1 \<and>
     rd_capacity d \<le> rd_mask d + 1 \<and>
     rd_numElements d \<le> rd_capacity d \<and>
     rd_frontIndex d < SIZE_MAX1 \<and>
     (\<forall>i \<in> {..<rd_mask d + 1}. (RingDeque_at d i \<noteq> None) = (i < rd_numElements d))"

definition rd_list :: "'a RingDeque \<Rightarrow> 'a list" where
  "rd_list d = map (\<lambda>i. the (RingDeque_at d i)) [0..<rd_numElements d]"

lemma length_rd_list [simp]: "length (rd_list d) = rd_numElements d"
  by (simp add: rd_list_def)

lemma rd_list_Nil_iff: "rd_list d = [] \<longleftrightarrow> rd_numElements d = 0"
  by (simp add: rd_list_def)

lemma cell_mod:
  assumes "k < 64" "rd_mask d = 2 ^ k - 1"
  shows "RingDeque_cell d i = (rd_frontIndex d + i) mod 2 ^ k"
  unfolding RingDeque_cell_def assms(2) and_pow2_mask sz_add_def
  using assms(1) by (intro mod_SIZE_MAX1_mod_pow2) simp

lemma rd_inv_cellD:
  assumes "rd_inv d"
  obtains k where "k < 64" "rd_mask d + 1 = 2 ^ k" "length (rd_container d) = 2 ^ k"
    "(2::nat) ^ k \<le> 2 ^ 63" "\<And>i. RingDeque_cell d i = (rd_frontIndex d + i) mod 2 ^ k"
proof -
  obtain k where k: "k < 64" "rd_mask d = 2 ^ k - 1" using assms by (auto simp: rd_inv_def)
  then have m: "rd_mask d + 1 = 2 ^ k" by simp
  moreover have "length (rd_container d) = 2 ^ k" using assms m by (simp add: rd_inv_def)
  moreover have "(2::nat) ^ k \<le> 2 ^ 63" using k by (intro power_increasing) auto
  moreover have "RingDeque_cell d i = (rd_frontIndex d + i) mod 2 ^ k" for i
    using k by (rule cell_mod)
  ultimately show ?thesis using that k(1) by blast
qed

lemma rd_inv_bounds:
  assumes "rd_inv d"
  shows "rd_numElements d \<le> rd_capacity d" "rd_capacity d \<le> rd_mask d + 1" "rd_mask d + 1 \<le> 2 ^ 63"
    "rd_capacity d < SIZE_MAX1" "rd_numElements d < SIZE_MAX1"
proof -
  obtain k where "rd_mask d + 1 = 2 ^ k" "(2::nat) ^ k \<le> 2 ^ 63" using assms by (rule rd_inv_cellD)
  then show m: "rd_mask d + 1 \<le> 2 ^ 63" by simp
  show n: "rd_numElements d \<le> rd_capacity d" and c: "rd_capacity d \<le> rd_mask d + 1"
    using assms by (auto simp: rd_inv_def)
  have "(2::nat) ^ 63 < SIZE_MAX1" by simp
  then show "rd_capacity d < SIZE_MAX1" "rd_numElements d < SIZE_MAX1" using m n c by linarith+
qed

lemma rd_inv_at: "rd_inv d \<Longrightarrow> i < rd_numElements d \<Longrightarrow> RingDeque_at d i = Some (rd_list d ! i)"
  using rd_inv_bounds [of d] by (auto simp: rd_inv_def rd_list_def)

text \<open>
  An operation that changes one cell and moves the front keeps the invariant when its effect
  on \<open>RingDeque_at\<close> is known; this is the one proof the four push and pop operations share.
\<close>

lemma rd_inv_intro:
  assumes "rd_inv d" "rd_mask d' = rd_mask d" "rd_capacity d' = rd_capacity d"
    "length (rd_container d') = length (rd_container d)"
    "rd_numElements d' \<le> rd_capacity d" "rd_frontIndex d' < SIZE_MAX1"
    "\<And>i. i < rd_mask d + 1 \<Longrightarrow> (RingDeque_at d' i \<noteq> None) = (i < rd_numElements d')"
  shows "rd_inv d'"
  using assms by (auto simp: rd_inv_def)

lemma rd_list_intro:
  assumes "length xs = rd_numElements d"
    "\<And>i. i < rd_numElements d \<Longrightarrow> RingDeque_at d i = Some (xs ! i)"
  shows "rd_list d = xs"
  using assms by (intro nth_equalityI) (auto simp: rd_list_def)

text \<open>Effect of an update of the cell at offset \<open>j\<close> on what \<open>operator[]\<close> returns.\<close>

lemma at_update:
  assumes "rd_inv d" "i < rd_mask d + 1" "j < rd_mask d + 1"
    "rd_mask d' = rd_mask d" "rd_frontIndex d' = rd_frontIndex d"
    "rd_container d' = (rd_container d)[RingDeque_cell d j := v]"
  shows "RingDeque_at d' i = (if i = j then v else RingDeque_at d i)"
proof -
  obtain k where k: "rd_mask d + 1 = 2 ^ k" "length (rd_container d) = 2 ^ k"
    "\<And>i. RingDeque_cell d i = (rd_frontIndex d + i) mod 2 ^ k"
    using assms(1) by (rule rd_inv_cellD) blast
  have "RingDeque_cell d' i = RingDeque_cell d i"
    using assms(4,5) by (simp add: RingDeque_cell_def)
  moreover have "RingDeque_cell d i = RingDeque_cell d j \<longleftrightarrow> i = j"
    using assms(2,3) k mod_add_left_inj by auto
  moreover have "RingDeque_cell d i < length (rd_container d)" using k by simp
  ultimately show ?thesis using assms(6) by (auto simp: RingDeque_at_def nth_list_update)
qed

text \<open>Moving the front index by one shifts every offset.\<close>

lemma cell_shift:
  assumes "rd_inv d" "rd_mask d' = rd_mask d" "rd_frontIndex d' = sz_add (rd_frontIndex d) 1"
  shows "RingDeque_cell d' i = RingDeque_cell d (i + 1)"
  using assms by (simp add: RingDeque_cell_def sz_add_def ac_simps mod_simps)

lemma cell_wrap:
  assumes "rd_inv d" shows "RingDeque_cell d (rd_mask d + 1) = RingDeque_cell d 0"
  using assms by (rule rd_inv_cellD) simp

subsection \<open>Each operation on the list of elements\<close>

lemmas rd_update_defs =
  RingDeque_push_back_def RingDeque_emplace_back_def RingDeque_push_front_def
  RingDeque_emplace_front_def RingDeque_pop_front_def RingDeque_pop_back_def RingDeque_set_def Let_def

lemma push_back_at:
  assumes "rd_inv d" "rd_numElements d < rd_capacity d" "i < rd_mask d + 1"
  shows "RingDeque_at (RingDeque_push_back d x) i
           = (if i = rd_numElements d then Some x else RingDeque_at d i)"
proof -
  note b = rd_inv_bounds [OF assms(1)]
  have n: "sz_add (rd_numElements d) 1 = rd_numElements d + 1"
    "sz_sub (rd_numElements d + 1) 1 = rd_numElements d"
    using b assms(2) by (simp_all add: sz_simps)
  show ?thesis
    using assms b by (intro at_update [OF assms(1,3)])
      (auto simp: rd_update_defs n [simplified] RingDeque_cell_def)
qed

lemma push_back_inv:
  assumes "rd_inv d" "rd_numElements d < rd_capacity d"
  shows "rd_inv (RingDeque_push_back d x)"
    and "rd_list (RingDeque_push_back d x) = rd_list d @ [x]"
    and "rd_capacity (RingDeque_push_back d x) = rd_capacity d"
    and "rd_numElements (RingDeque_push_back d x) = rd_numElements d + 1"
proof -
  note b = rd_inv_bounds [OF assms(1)]
  let ?d = "RingDeque_push_back d x"
  show n: "rd_numElements ?d = rd_numElements d + 1"
    using b assms(2) by (simp add: rd_update_defs sz_simps)
  show "rd_capacity ?d = rd_capacity d"
    by (simp add: rd_update_defs)
  show "rd_inv ?d"
  proof (rule rd_inv_intro [OF assms(1)])
    fix i assume "i < rd_mask d + 1"
    then show "(RingDeque_at ?d i \<noteq> None) = (i < rd_numElements ?d)"
      using assms b by (auto simp: push_back_at n rd_inv_def)
  qed (use assms b n in \<open>simp_all add: rd_update_defs rd_inv_def\<close>)
  show "rd_list ?d = rd_list d @ [x]"
    by (rule rd_list_intro)
      (use assms b n in \<open>auto simp: push_back_at nth_append rd_inv_at\<close>)
qed

lemma push_front_at:
  assumes "rd_inv d" "i < rd_mask d + 1"
  shows "RingDeque_at (RingDeque_push_front d x) i
           = (if i = 0 then Some x else RingDeque_at d (i - 1))"
proof -
  obtain k where k: "k < 64" "rd_mask d + 1 = 2 ^ k" "length (rd_container d) = 2 ^ k"
    "\<And>i. RingDeque_cell d i = (rd_frontIndex d + i) mod 2 ^ k"
    using assms(1) by (rule rd_inv_cellD) blast
  let ?d = "RingDeque_push_front d x"
  have f: "sz_add (sz_sub (rd_frontIndex d) 1) 1 = rd_frontIndex d"
  proof (cases "rd_frontIndex d = 0")
    case True then show ?thesis by (simp add: sz_sub_def sz_add_def)
  next
    case False
    have "rd_frontIndex d < SIZE_MAX1" using assms(1) by (simp add: rd_inv_def)
    with False show ?thesis by (simp add: sz_simps)
  qed
  have shift: "RingDeque_cell ?d (j + 1) = RingDeque_cell d j" for j
  proof -
    have "sz_add (sz_sub (rd_frontIndex d) 1) (j + 1)
            = sz_add (sz_add (sz_sub (rd_frontIndex d) 1) 1) j"
      by (simp add: sz_add_def mod_simps ac_simps)
    then show ?thesis using f by (simp add: RingDeque_cell_def rd_update_defs)
  qed
  have c0: "RingDeque_cell ?d 0 = RingDeque_cell d (rd_mask d)"
  proof -
    have "rd_mask ?d = 2 ^ k - 1" using k(2) by (simp add: rd_update_defs)
    then have "RingDeque_cell ?d 0 = RingDeque_cell ?d (rd_mask d + 1)"
      unfolding k(2) using k(1) by (simp add: cell_mod)
    then show ?thesis using shift by simp
  qed
  have lt: "RingDeque_cell d j < length (rd_container d)" for j using k by simp
  have cont: "rd_container ?d = (rd_container d)[RingDeque_cell d (rd_mask d) := Some x]"
    using c0 by (simp add: rd_update_defs RingDeque_cell_def)
  show ?thesis
  proof (cases i)
    case 0
    then show ?thesis using lt c0 cont by (simp add: RingDeque_at_def)
  next
    case (Suc j)
    have "RingDeque_cell d j \<noteq> RingDeque_cell d (rd_mask d)"
      using mod_add_left_inj [of j "2 ^ k" "rd_mask d"] assms(2) k Suc by auto
    then show ?thesis using Suc shift [of j] lt cont by (simp add: RingDeque_at_def)
  qed
qed

lemma push_front_inv:
  assumes "rd_inv d" "rd_numElements d < rd_capacity d"
  shows "rd_inv (RingDeque_push_front d x)"
    and "rd_list (RingDeque_push_front d x) = x # rd_list d"
    and "rd_capacity (RingDeque_push_front d x) = rd_capacity d"
    and "rd_numElements (RingDeque_push_front d x) = rd_numElements d + 1"
proof -
  note b = rd_inv_bounds [OF assms(1)]
  let ?d = "RingDeque_push_front d x"
  show n: "rd_numElements ?d = rd_numElements d + 1"
    using b assms(2) by (simp add: rd_update_defs sz_simps)
  show "rd_capacity ?d = rd_capacity d" by (simp add: rd_update_defs)
  show "rd_inv ?d"
  proof (rule rd_inv_intro [OF assms(1)])
    fix i assume "i < rd_mask d + 1"
    then show "(RingDeque_at ?d i \<noteq> None) = (i < rd_numElements ?d)"
      using assms b by (cases i) (auto simp: push_front_at n rd_inv_def)
  qed (use assms b n in \<open>simp_all add: rd_update_defs rd_inv_def\<close>)
  show "rd_list ?d = x # rd_list d"
    by (rule rd_list_intro)
      (use assms b n in \<open>auto simp: push_front_at nth_Cons' rd_inv_at\<close>)
qed

lemma pop_front_at:
  assumes "rd_inv d" "i < rd_mask d + 1"
  shows "RingDeque_at (RingDeque_pop_front d) i
           = (if i = rd_mask d then None else RingDeque_at d (i + 1))"
proof -
  let ?e = "d\<lparr>rd_container := (rd_container d)[RingDeque_cell d 0 := None]\<rparr>"
  have c: "RingDeque_cell (RingDeque_pop_front d) i = RingDeque_cell ?e (i + 1)"
    using cell_shift [OF assms(1), of "RingDeque_pop_front d" i]
    by (simp add: RingDeque_pop_front_def RingDeque_cell_def)
  have e: "RingDeque_at (RingDeque_pop_front d) i = RingDeque_at ?e (i + 1)"
    using c by (simp add: RingDeque_at_def RingDeque_pop_front_def)
  show ?thesis
  proof (cases "i = rd_mask d")
    case True
    have "RingDeque_at ?e (rd_mask d + 1) = RingDeque_at ?e 0"
      using cell_wrap [OF assms(1)] by (simp add: RingDeque_at_def RingDeque_cell_def)
    also have "\<dots> = None"
      by (subst at_update [OF assms(1), of 0 0 ?e None]) simp_all
    finally show ?thesis using e True by simp
  next
    case False
    then have "RingDeque_at ?e (i + 1) = RingDeque_at d (i + 1)"
      using assms(2) by (subst at_update [OF assms(1), of "i + 1" 0 ?e None]) simp_all
    then show ?thesis using e False by simp
  qed
qed

lemma pop_front_inv:
  assumes "rd_inv d" "rd_numElements d \<noteq> 0"
  shows "rd_inv (RingDeque_pop_front d)"
    and "rd_list (RingDeque_pop_front d) = tl (rd_list d)"
    and "rd_capacity (RingDeque_pop_front d) = rd_capacity d"
    and "rd_numElements (RingDeque_pop_front d) = rd_numElements d - 1"
proof -
  note b = rd_inv_bounds [OF assms(1)]
  let ?d = "RingDeque_pop_front d"
  show n: "rd_numElements ?d = rd_numElements d - 1"
    using b assms(2) by (simp add: rd_update_defs sz_simps)
  show "rd_capacity ?d = rd_capacity d" by (simp add: rd_update_defs)
  show "rd_inv ?d"
  proof (rule rd_inv_intro [OF assms(1)])
    fix i assume "i < rd_mask d + 1"
    then show "(RingDeque_at ?d i \<noteq> None) = (i < rd_numElements ?d)"
      using assms b by (auto simp: pop_front_at n rd_inv_def)
  qed (use assms b n in \<open>simp_all add: rd_update_defs rd_inv_def\<close>)
  show "rd_list ?d = tl (rd_list d)"
    by (rule rd_list_intro)
      (use assms b n in \<open>auto simp: pop_front_at nth_tl rd_inv_at\<close>)
qed

lemma pop_back_inv:
  assumes "rd_inv d" "rd_numElements d \<noteq> 0"
  shows "rd_inv (RingDeque_pop_back d)"
    and "rd_list (RingDeque_pop_back d) = butlast (rd_list d)"
    and "rd_capacity (RingDeque_pop_back d) = rd_capacity d"
    and "rd_numElements (RingDeque_pop_back d) = rd_numElements d - 1"
proof -
  note b = rd_inv_bounds [OF assms(1)]
  let ?d = "RingDeque_pop_back d"
  have s: "sz_sub (rd_numElements d) 1 = rd_numElements d - 1"
    using b assms(2) by (simp add: sz_simps)
  show n: "rd_numElements ?d = rd_numElements d - 1"
    using s by (simp add: rd_update_defs)
  show "rd_capacity ?d = rd_capacity d" by (simp add: rd_update_defs)
  have at: "RingDeque_at ?d i = (if i = rd_numElements d - 1 then None else RingDeque_at d i)"
    if "i < rd_mask d + 1" for i
    using assms b that s
    by (intro at_update [OF assms(1) that]) (simp_all add: RingDeque_pop_back_def)
  show "rd_inv ?d"
  proof (rule rd_inv_intro [OF assms(1)])
    fix i assume "i < rd_mask d + 1"
    then show "(RingDeque_at ?d i \<noteq> None) = (i < rd_numElements ?d)"
      using assms b by (auto simp: at n rd_inv_def)
  qed (use assms b n in \<open>simp_all add: rd_update_defs rd_inv_def\<close>)
  show "rd_list ?d = butlast (rd_list d)"
    by (rule rd_list_intro)
      (use assms b n in \<open>auto simp: at nth_butlast rd_inv_at\<close>)
qed

lemma set_inv:
  assumes "rd_inv d" "j < rd_numElements d"
  shows "rd_inv (RingDeque_set d j x)"
    and "rd_list (RingDeque_set d j x) = (rd_list d)[j := x]"
    and "rd_capacity (RingDeque_set d j x) = rd_capacity d"
    and "rd_numElements (RingDeque_set d j x) = rd_numElements d"
proof -
  note b = rd_inv_bounds [OF assms(1)]
  let ?d = "RingDeque_set d j x"
  show "rd_capacity ?d = rd_capacity d" and n: "rd_numElements ?d = rd_numElements d"
    by (simp_all add: rd_update_defs)
  have at: "RingDeque_at ?d i = (if i = j then Some x else RingDeque_at d i)"
    if "i < rd_mask d + 1" for i
    using assms b that by (intro at_update [OF assms(1) that]) (simp_all add: RingDeque_set_def)
  show "rd_inv ?d"
  proof (rule rd_inv_intro [OF assms(1)])
    fix i assume "i < rd_mask d + 1"
    then show "(RingDeque_at ?d i \<noteq> None) = (i < rd_numElements ?d)"
      using assms b by (auto simp: at n rd_inv_def)
  qed (use assms b n in \<open>simp_all add: rd_update_defs rd_inv_def\<close>)
  show "rd_list ?d = (rd_list d)[j := x]"
    by (rule rd_list_intro)
      (use assms b n in \<open>auto simp: at nth_list_update rd_inv_at\<close>)
qed

lemma clear_inv:
  assumes "rd_inv d"
  shows "rd_inv (RingDeque_clear d) \<and> rd_list (RingDeque_clear d) = []
     \<and> rd_capacity (RingDeque_clear d) = rd_capacity d \<and> rd_numElements (RingDeque_clear d) = 0"
  using assms
proof (induction d rule: RingDeque_clear.induct)
  case (1 d)
  show ?case
  proof (cases "RingDeque_empty d")
    case True
    then show ?thesis
      using 1 by (simp add: RingDeque_clear.simps [of d] RingDeque_empty_def rd_list_Nil_iff)
  next
    case False
    then have "rd_numElements d \<noteq> 0" by (simp add: RingDeque_empty_def)
    then show ?thesis
      using 1 False pop_front_inv [of d] by (simp add: RingDeque_clear.simps [of d])
  qed
qed

lemma new_inv:
  assumes "capacity \<le> 2 ^ 63"
  obtains d where "RingDeque_new capacity = Some d" "rd_inv d" "rd_list d = []"
    "rd_capacity d = capacity" "rd_numElements d = 0"
proof -
  obtain k where k: "k \<le> 63" "nextPow2 capacity = Some (2 ^ k)" "capacity \<le> 2 ^ k"
    using assms by (rule nextPow2_Some)
  have le: "(2::nat) ^ k \<le> 2 ^ 63" using k by (intro power_increasing) auto
  then have s: "sz_sub (2 ^ k) 1 = 2 ^ k - 1" "sz_add (2 ^ k - 1) 1 = 2 ^ k"
    by (simp_all add: sz_simps)
  let ?d = "\<lparr>rd_mask = 2 ^ k - 1, rd_capacity = capacity, rd_frontIndex = 0, rd_numElements = 0,
             rd_container = replicate (2 ^ k) None\<rparr>"
  have "RingDeque_new capacity = Some ?d"
    using k s by (simp add: RingDeque_new_def)
  moreover have "rd_inv ?d"
    using k unfolding rd_inv_def RingDeque_at_def
    by (auto intro!: bexI [of _ k])
  ultimately show ?thesis by (rule that) (simp_all add: rd_list_def)
qed

lemma drain_inv:
  assumes "rd_inv this" "rd_inv newRing" "rd_numElements newRing + rd_numElements this \<le> rd_capacity newRing"
  shows "\<exists>this' newRing'. RingDeque_drain this newRing = Some (this', newRing')
     \<and> rd_inv this' \<and> rd_numElements this' = 0 \<and> rd_inv newRing'
     \<and> rd_list newRing' = rd_list newRing @ rd_list this \<and> rd_capacity newRing' = rd_capacity newRing"
  using assms
proof (induction this newRing rule: RingDeque_drain.induct)
  case (1 this newRing)
  show ?case
  proof (cases "RingDeque_empty this")
    case True
    then show ?thesis
      using 1 by (simp add: RingDeque_drain.simps [of this] RingDeque_empty_def rd_list_def)
  next
    case False
    then have n: "rd_numElements this \<noteq> 0" by (simp add: RingDeque_empty_def)
    obtain x xs where x: "rd_list this = x # xs" using n by (cases "rd_list this") (auto simp: rd_list_def)
    have f: "RingDeque_front this = Some x"
      using rd_inv_at [of this 0] 1 n x by (simp add: RingDeque_front_def)
    note pf = pop_front_inv [OF "1.prems"(1) n]
    have full: "rd_numElements newRing < rd_capacity newRing" using 1 n by simp
    note pb = push_back_inv [OF "1.prems"(2) full, of x]
    show ?thesis
      using "1.IH" [OF False f pf(1) pb(1)] f False pf pb "1.prems" n x
      by (auto simp: RingDeque_drain.simps [of this])
  qed
qed

text \<open>
  \<open>set_capacity\<close> keeps the elements in order and sets the new capacity, unless more elements
  are held than the new capacity allows: then nothing changes.
\<close>

lemma set_capacity_inv:
  fixes d :: "'a RingDeque"
  assumes "rd_inv d" "capacity \<le> 2 ^ 63"
  obtains d' where "RingDeque_set_capacity d capacity = Some d'" "rd_inv d'"
    "rd_list d' = rd_list d"
    "rd_capacity d' = (if rd_numElements d \<le> capacity then capacity else rd_capacity d)"
    "rd_numElements d' = rd_numElements d"
proof (cases "rd_numElements d \<le> capacity")
  case False
  then show ?thesis
    by (intro that [of d]) (use assms in \<open>simp_all add: RingDeque_set_capacity_def\<close>)
next
  case True
  obtain n :: "'a RingDeque" where n: "RingDeque_new capacity = Some n" "rd_inv n" "rd_list n = []"
    "rd_capacity n = capacity" "rd_numElements n = 0"
    using assms(2) by (rule new_inv)
  obtain d1 n1 where dr: "RingDeque_drain d n = Some (d1, n1)" "rd_inv n1"
    "rd_list n1 = rd_list d" "rd_capacity n1 = capacity"
    using drain_inv [OF assms(1) n(2)] True unfolding n(3-5) by auto
  have num: "rd_numElements n1 = rd_numElements d" by (metis dr(3) length_rd_list)
  have eq: "fst (RingDeque_move_assign d1 n1) = n1"
    by (simp add: RingDeque_move_assign_def Let_def)
  show ?thesis
    by (rule that [of n1]) (use True n dr num eq in \<open>simp_all add: RingDeque_set_capacity_def\<close>)
qed

lemma append_from_inv:
  assumes "rd_inv this" "rd_inv other" "\<forall>i \<in> set is. i < rd_numElements other"
    "rd_numElements this + length is \<le> rd_capacity this"
  shows "\<exists>d. RingDeque_append_from this other is = Some d \<and> rd_inv d
     \<and> rd_list d = rd_list this @ map ((!) (rd_list other)) is \<and> rd_capacity d = rd_capacity this"
  using assms
proof (induction "is" arbitrary: this)
  case Nil
  then show ?case by simp
next
  case (Cons i "is")
  have "rd_numElements this < rd_capacity this" using Cons.prems by simp
  note pb = push_back_inv [OF Cons.prems(1) this, of "rd_list other ! i"]
  show ?case
    using Cons.IH [OF pb(1)] Cons.prems pb by (auto simp: rd_inv_at)
qed

lemma copy_assign_inv:
  assumes "rd_inv this" "rd_inv other"
  obtains d where "RingDeque_copy_assign this other = Some d" "rd_inv d"
    "rd_list d = rd_list other" "rd_capacity d = rd_capacity other"
proof -
  note b = rd_inv_bounds [OF assms(2)]
  note c = clear_inv [OF assms(1)]
  obtain t where t: "RingDeque_set_capacity (RingDeque_clear this) (rd_capacity other) = Some t"
    "rd_inv t" "rd_list t = []" "rd_capacity t = rd_capacity other" "rd_numElements t = 0"
    using set_capacity_inv [of "RingDeque_clear this" "rd_capacity other"] c b by auto
  obtain d where "RingDeque_append_from t other [0..<rd_numElements other] = Some d" "rd_inv d"
    "rd_list d = map ((!) (rd_list other)) [0..<rd_numElements other]" "rd_capacity d = rd_capacity t"
    using append_from_inv [OF t(2) assms(2), of "[0..<rd_numElements other]"] t b by auto
  moreover have "map ((!) (rd_list other)) [0..<rd_numElements other] = rd_list other"
    by (metis length_rd_list map_nth)
  ultimately show ?thesis
    by (intro that [of d]) (simp_all add: RingDeque_copy_assign_def t)
qed

lemma copy_new_inv:
  assumes "rd_inv other"
  obtains d where "RingDeque_copy_new other = Some d" "rd_inv d"
    "rd_list d = rd_list other" "rd_capacity d = rd_capacity other"
proof -
  note b = rd_inv_bounds [OF assms]
  obtain k where k: "k < 64" "rd_mask other + 1 = 2 ^ k" "(2::nat) ^ k \<le> 2 ^ 63"
    using assms by (rule rd_inv_cellD) blast
  let ?t = "\<lparr>rd_mask = rd_mask other, rd_capacity = rd_capacity other, rd_frontIndex = 0,
        rd_numElements = 0, rd_container = replicate (sz_add (rd_mask other) 1) None\<rparr> :: 'a RingDeque"
  have "sz_add (rd_mask other) 1 = rd_mask other + 1"
    using k by (simp add: sz_simps)
  then have t: "rd_inv ?t" "rd_numElements ?t = 0" "rd_list ?t = []"
    using k b assms by (auto simp: rd_inv_def RingDeque_at_def rd_list_def)
  obtain d where "RingDeque_append_from ?t other [0..<rd_numElements other] = Some d" "rd_inv d"
    "rd_list d = map ((!) (rd_list other)) [0..<rd_numElements other]" "rd_capacity d = rd_capacity ?t"
    using append_from_inv [OF t(1) assms, of "[0..<rd_numElements other]"] t b by auto
  moreover have "map ((!) (rd_list other)) [0..<rd_numElements other] = rd_list other"
    by (metis length_rd_list map_nth)
  ultimately show ?thesis
    by (intro that [of d]) (simp_all add: RingDeque_copy_new_def)
qed

subsection \<open>The interface the client components use\<close>

text \<open>A first-in first-out queue with a bounded capacity, over the list of its elements.\<close>

locale fifo =
  fixes inv :: "'d \<Rightarrow> bool" and elems :: "'d \<Rightarrow> 'a list" and cap :: "'d \<Rightarrow> nat"
    and push_back :: "'d \<Rightarrow> 'a \<Rightarrow> 'd" and pop_front :: "'d \<Rightarrow> 'd"
    and front :: "'d \<Rightarrow> 'a option"
  assumes elems_le_cap: "inv d \<Longrightarrow> length (elems d) \<le> cap d"
    and inv_push_back: "inv d \<Longrightarrow> length (elems d) < cap d \<Longrightarrow> inv (push_back d x)"
    and elems_push_back: "inv d \<Longrightarrow> length (elems d) < cap d \<Longrightarrow> elems (push_back d x) = elems d @ [x]"
    and cap_push_back: "inv d \<Longrightarrow> length (elems d) < cap d \<Longrightarrow> cap (push_back d x) = cap d"
    and inv_pop_front: "inv d \<Longrightarrow> elems d \<noteq> [] \<Longrightarrow> inv (pop_front d)"
    and elems_pop_front: "inv d \<Longrightarrow> elems d \<noteq> [] \<Longrightarrow> elems (pop_front d) = tl (elems d)"
    and cap_pop_front: "inv d \<Longrightarrow> elems d \<noteq> [] \<Longrightarrow> cap (pop_front d) = cap d"
    and front_elems: "inv d \<Longrightarrow> elems d \<noteq> [] \<Longrightarrow> front d = Some (hd (elems d))"
begin

lemmas push_laws = inv_push_back elems_push_back cap_push_back
lemmas pop_laws = inv_pop_front elems_pop_front cap_pop_front front_elems

text \<open>Pushing a whole list, as the loops over posted labels and buffers do.\<close>

lemma push_all:
  assumes "inv d" "length (elems d) + length xs \<le> cap d"
  shows "inv (foldl push_back d xs)" "elems (foldl push_back d xs) = elems d @ xs"
    "cap (foldl push_back d xs) = cap d"
proof -
  have "inv (foldl push_back d xs) \<and> elems (foldl push_back d xs) = elems d @ xs
    \<and> cap (foldl push_back d xs) = cap d"
    using assms by (induction xs arbitrary: d) (auto simp: push_laws)
  then show "inv (foldl push_back d xs)" "elems (foldl push_back d xs) = elems d @ xs"
    "cap (foldl push_back d xs) = cap d" by auto
qed

lemma pop_funpow:
  assumes "inv d" "n \<le> length (elems d)"
  shows "inv ((pop_front ^^ n) d) \<and> elems ((pop_front ^^ n) d) = drop n (elems d)
    \<and> cap ((pop_front ^^ n) d) = cap d"
  using assms
proof (induction n)
  case (Suc n)
  then have "inv ((pop_front ^^ n) d)" "elems ((pop_front ^^ n) d) = drop n (elems d)"
    "cap ((pop_front ^^ n) d) = cap d" "elems ((pop_front ^^ n) d) \<noteq> []" by auto
  then show ?case by (simp add: pop_laws tl_drop drop_Suc)
qed simp

end

text \<open>The full deque: both ends, indexed access, and a capacity that can be changed.\<close>

locale deque = fifo +
  fixes push_front :: "'a \<Rightarrow> 'b \<Rightarrow> 'a" and pop_back :: "'a \<Rightarrow> 'a"
    and at :: "'a \<Rightarrow> nat \<Rightarrow> 'b option" and set_at :: "'a \<Rightarrow> nat \<Rightarrow> 'b \<Rightarrow> 'a"
    and set_capacity :: "'a \<Rightarrow> nat \<Rightarrow> 'a option" and clear :: "'a \<Rightarrow> 'a"
  assumes inv_push_front: "inv d \<Longrightarrow> length (elems d) < cap d \<Longrightarrow> inv (push_front d x)"
    and elems_push_front: "inv d \<Longrightarrow> length (elems d) < cap d \<Longrightarrow> elems (push_front d x) = x # elems d"
    and cap_push_front: "inv d \<Longrightarrow> length (elems d) < cap d \<Longrightarrow> cap (push_front d x) = cap d"
    and inv_pop_back: "inv d \<Longrightarrow> elems d \<noteq> [] \<Longrightarrow> inv (pop_back d)"
    and elems_pop_back: "inv d \<Longrightarrow> elems d \<noteq> [] \<Longrightarrow> elems (pop_back d) = butlast (elems d)"
    and cap_pop_back: "inv d \<Longrightarrow> elems d \<noteq> [] \<Longrightarrow> cap (pop_back d) = cap d"
    and at_elems: "inv d \<Longrightarrow> i < length (elems d) \<Longrightarrow> at d i = Some (elems d ! i)"
    and inv_set_at: "inv d \<Longrightarrow> i < length (elems d) \<Longrightarrow> inv (set_at d i x)"
    and elems_set_at: "inv d \<Longrightarrow> i < length (elems d) \<Longrightarrow> elems (set_at d i x) = (elems d)[i := x]"
    and cap_set_at: "inv d \<Longrightarrow> i < length (elems d) \<Longrightarrow> cap (set_at d i x) = cap d"
    and set_capacity_law: "inv d \<Longrightarrow> c \<le> 2 ^ 63 \<Longrightarrow> \<exists>d'. set_capacity d c = Some d' \<and> inv d'
          \<and> elems d' = elems d \<and> cap d' = (if length (elems d) \<le> c then c else cap d)"
    and inv_clear: "inv d \<Longrightarrow> inv (clear d)"
    and elems_clear: "inv d \<Longrightarrow> elems (clear d) = []"
    and cap_clear: "inv d \<Longrightarrow> cap (clear d) = cap d"
begin

lemmas push_front_laws = inv_push_front elems_push_front cap_push_front
lemmas pop_back_laws = inv_pop_back elems_pop_back cap_pop_back
lemmas set_at_laws = inv_set_at elems_set_at cap_set_at at_elems
lemmas clear_laws = inv_clear elems_clear cap_clear

text \<open>
  The growth idiom of the ports and of the accumulator: double the capacity of a full queue,
  then push. It always finds room.
\<close>

lemma grow_when_full:
  assumes "inv d" "0 < cap d" "cap d \<le> 2 ^ 62"
  obtains d' where "(if length (elems d) = cap d then set_capacity d (2 * cap d) else Some d) = Some d'"
    "inv d'" "elems d' = elems d" "length (elems d) < cap d'" "cap d' \<le> 2 * cap d"
proof (cases "length (elems d) = cap d")
  case True
  obtain d' where d': "set_capacity d (2 * cap d) = Some d'" "inv d'" "elems d' = elems d"
    "cap d' = 2 * cap d"
    using set_capacity_law [of d "2 * cap d"] assms True by auto
  show ?thesis by (rule that [of d']) (use True d' assms in simp_all)
next
  case False
  then have "length (elems d) < cap d" using elems_le_cap [OF assms(1)] by simp
  then show ?thesis by (intro that [of d]) (use False assms in simp_all)
qed

end

interpretation rd: deque rd_inv rd_list rd_capacity RingDeque_push_back RingDeque_pop_front
  RingDeque_front RingDeque_push_front RingDeque_pop_back RingDeque_at RingDeque_set
  RingDeque_set_capacity RingDeque_clear
proof (unfold_locales, goal_cases)
  case (8 d)
  then show ?case
    using rd_inv_at [of d 0] by (simp add: RingDeque_front_def rd_list_Nil_iff hd_conv_nth)
next
  case (19 d c)
  then show ?case by (auto elim: set_capacity_inv [of d c])
qed (simp_all add: rd_inv_bounds push_back_inv push_front_inv pop_front_inv pop_back_inv set_inv
    rd_list_Nil_iff rd_inv_at clear_inv)

subsection \<open>Abstract specification and refinement\<close>

text \<open>
  A client's calls as data, the same calls on the specification (a capacity and a list; a call
  whose assert would fail is rejected with \<open>None\<close>), and their run on the ring deque.
\<close>

datatype 'a deque_op =
  PushBack 'a | PushFront 'a | PopFront | PopBack | SetAt nat 'a | SetCapacity nat | Clear

fun deque_spec_step :: "'a deque_op \<Rightarrow> nat \<times> 'a list \<Rightarrow> (nat \<times> 'a list) option" where
  "deque_spec_step (PushBack x) (c, xs) = (if length xs < c then Some (c, xs @ [x]) else None)"
| "deque_spec_step (PushFront x) (c, xs) = (if length xs < c then Some (c, x # xs) else None)"
| "deque_spec_step PopFront (c, xs) = (if xs \<noteq> [] then Some (c, tl xs) else None)"
| "deque_spec_step PopBack (c, xs) = (if xs \<noteq> [] then Some (c, butlast xs) else None)"
| "deque_spec_step (SetAt i x) (c, xs) = (if i < length xs then Some (c, xs[i := x]) else None)"
| "deque_spec_step (SetCapacity n) (c, xs) =
     (if 2 ^ 63 < n then None else if length xs \<le> n then Some (n, xs) else Some (c, xs))"
| "deque_spec_step Clear (c, xs) = Some (c, [])"

fun deque_impl_step :: "'a deque_op \<Rightarrow> 'a RingDeque \<Rightarrow> 'a RingDeque option" where
  "deque_impl_step (PushBack x) d = Some (RingDeque_push_back d x)"
| "deque_impl_step (PushFront x) d = Some (RingDeque_push_front d x)"
| "deque_impl_step PopFront d = Some (RingDeque_pop_front d)"
| "deque_impl_step PopBack d = Some (RingDeque_pop_back d)"
| "deque_impl_step (SetAt i x) d = Some (RingDeque_set d i x)"
| "deque_impl_step (SetCapacity n) d = RingDeque_set_capacity d n"
| "deque_impl_step Clear d = Some (RingDeque_clear d)"

fun deque_spec_run :: "'a deque_op list \<Rightarrow> nat \<times> 'a list \<Rightarrow> (nat \<times> 'a list) option" where
  "deque_spec_run [] s = Some s"
| "deque_spec_run (x # xs) s = do { t \<leftarrow> deque_spec_step x s; deque_spec_run xs t }"

fun deque_impl_run :: "'a deque_op list \<Rightarrow> 'a RingDeque \<Rightarrow> 'a RingDeque option" where
  "deque_impl_run [] d = Some d"
| "deque_impl_run (x # xs) d = do { e \<leftarrow> deque_impl_step x d; deque_impl_run xs e }"

lemma deque_step_refines:
  assumes "rd_inv d" "deque_spec_step x (rd_capacity d, rd_list d) = Some (c, ys)"
  shows "\<exists>d'. deque_impl_step x d = Some d' \<and> rd_inv d' \<and> rd_list d' = ys \<and> rd_capacity d' = c"
proof (cases x)
  case (SetCapacity n)
  then show ?thesis
    using assms rd.set_capacity_law [of d n] by (fastforce split: if_splits)
qed (use assms in \<open>auto simp: rd.push_laws rd.pop_laws rd.push_front_laws rd.pop_back_laws
        rd.set_at_laws rd.clear_laws split: if_splits\<close>)

lemma deque_run_refines:
  assumes "rd_inv d" "deque_spec_run xs (rd_capacity d, rd_list d) = Some (c, ys)"
  shows "\<exists>d'. deque_impl_run xs d = Some d' \<and> rd_inv d' \<and> rd_list d' = ys \<and> rd_capacity d' = c"
  using assms
proof (induction xs arbitrary: d)
  case (Cons x xs)
  then obtain c1 zs where s: "deque_spec_step x (rd_capacity d, rd_list d) = Some (c1, zs)"
    "deque_spec_run xs (c1, zs) = Some (c, ys)" by (auto simp: bind_eq_Some_conv)
  obtain e where "deque_impl_step x d = Some e" "rd_inv e" "rd_list e = zs" "rd_capacity e = c1"
    using deque_step_refines [OF Cons.prems(1) s(1)] by auto
  then show ?case using Cons.IH [of e] s(2) by auto
qed auto

subsection \<open>Properties\<close>

text \<open>
  C1. Refinement: from a deque of capacity \<open>cap\<close>, every sequence of calls whose asserts hold
  (as the list specification says) returns, and leaves exactly the elements and the capacity
  of the specification. The index arithmetic wraps at \<open>2 ^ 64\<close> and under the mask, and
  \<open>set_capacity\<close> reallocates; none of it is visible.
\<close>

theorem ring_deque_refines_list:
  assumes "cap \<le> 2 ^ 63" "deque_spec_run calls (cap, []) = Some (c, xs)"
  shows "\<exists>d d'. RingDeque_new cap = Some d \<and> deque_impl_run calls d = Some d'
     \<and> rd_list d' = xs \<and> rd_capacity d' = c \<and> rd_numElements d' = length xs"
proof -
  obtain d :: "'a RingDeque" where d: "RingDeque_new cap = Some d" "rd_inv d" "rd_list d = []"
    "rd_capacity d = cap"
    using assms(1) by (rule new_inv)
  then show ?thesis
    using deque_run_refines [OF d(2), of calls c xs] assms(2) by (metis length_rd_list)
qed

theorem ring_deque_refines_list_witness:
  "\<exists>d d'. RingDeque_new 2 = Some d
     \<and> deque_impl_run [PushFront (1::nat), PushFront 2, PopBack, SetCapacity 3, PushBack 7] d = Some d'
     \<and> rd_list d' = [2, 7] \<and> rd_capacity d' = 3 \<and> rd_numElements d' = length [2, 7 :: nat]"
  by (rule ring_deque_refines_list) simp_all

text \<open>
  \<open>nextPow2\<close> returns exactly for arguments up to \<open>2 ^ 63\<close>, and then returns the least
  power of two that is not below its argument. For a larger argument the shifted value wraps
  to zero and the loop never ends.
\<close>

theorem nextPow2_correct:
  "(\<exists>p. nextPow2 n = Some p) = (n \<le> 2 ^ 63) \<and>
   (\<forall>p. nextPow2 n = Some p \<longrightarrow> (\<exists>k \<le> 63. p = 2 ^ k) \<and> n \<le> p \<and> (\<forall>j. n \<le> 2 ^ j \<longrightarrow> p \<le> 2 ^ j))"
proof (cases "n \<le> 2 ^ 63")
  case True
  then obtain k where k: "k \<le> 63" "nextPow2 n = Some (2 ^ k)" "n \<le> 2 ^ k" "k = 0 \<or> 2 ^ (k - 1) < n"
    by (rule nextPow2_Some)
  have "(2::nat) ^ k \<le> 2 ^ j" if "n \<le> 2 ^ j" for j
  proof (cases "k = 0")
    case False
    with k that have "(2::nat) ^ (k - 1) < 2 ^ j" by linarith
    then have "k - 1 < j" by simp
    with False have "k \<le> j" by simp
    then show ?thesis by (intro power_increasing) auto
  qed simp
  then show ?thesis using k True by auto
next
  case False
  then show ?thesis using nextPow2_None [of n] by simp
qed

theorem nextPow2_correct_witness:
  "nextPow2 5 = Some 8 \<and> 5 \<le> (8::nat)"
proof -
  have "nextPow2 5 = Some 8" by (simp add: nextPow2_def nextPow2_loop.simps sz_mul_def)
  moreover from this have "5 \<le> (8::nat)" using nextPow2_correct [of 5] by blast
  ultimately show ?thesis by simp
qed

text \<open>
  Self assignment of a ring deque: \<open>operator=(const RingDeque &)\<close> has no check for
  \<open>&other == this\<close>, clears the deque first, and so returns it empty; assignment from a
  different deque copies the elements.
\<close>

theorem ring_deque_self_assign_loses_elements:
  assumes "rd_inv d"
  shows "(\<exists>e. RingDeque_self_assign d = Some e \<and> rd_list e = [] \<and> rd_capacity e = rd_capacity d) \<and>
     (\<forall>d1. rd_inv d1 \<longrightarrow> (\<exists>e. RingDeque_copy_assign d1 d = Some e \<and> rd_list e = rd_list d))"
proof -
  note c = clear_inv [OF assms] and b = rd_inv_bounds [OF assms]
  obtain t where t: "RingDeque_set_capacity (RingDeque_clear d) (rd_capacity (RingDeque_clear d)) = Some t"
    "rd_list t = []" "rd_capacity t = rd_capacity d" "rd_numElements t = 0"
    by (rule set_capacity_inv [of "RingDeque_clear d" "rd_capacity (RingDeque_clear d)"])
      (use c b in auto)
  then have "RingDeque_self_assign d = Some t" by (simp add: RingDeque_self_assign_def Let_def)
  with t show ?thesis using copy_assign_inv [OF _ assms] by metis
qed

theorem ring_deque_self_assign_loses_elements_witness:
  "\<exists>d e. rd_list d = [5 :: nat] \<and> RingDeque_self_assign d = Some e \<and> rd_list e = []"
proof -
  obtain d :: "nat RingDeque" where d: "rd_inv d" "rd_list d = []" "rd_capacity d = 1"
    by (rule new_inv [of 1]) auto
  let ?d = "RingDeque_push_back d 5"
  have "rd_inv ?d" "rd_list ?d = [5]" using d by (simp_all add: rd.push_laws)
  then show ?thesis using ring_deque_self_assign_loses_elements [of ?d] by blast
qed

end
