(* ===== verification/OrderedQueue.thy ===== *)
theory OrderedQueue
  imports RingDeque
begin

section \<open>The ordered queue of include/Pothos/Util/OrderedQueue.hpp\<close>

text \<open>
  \<open>Pothos::Util::OrderedQueue\<close> takes elements that carry a slot index, in any order, and gives
  them out in cyclic index order. The record has the members of the class: the index expected
  next, the vector of early arrivals with their flags, and the ring deque of ready elements.
  \<open>T()\<close>, the default element of a vector slot, is the parameter \<open>dflt\<close>; the slot keeps its value
  after the move, where C++ leaves it unspecified, and the code never reads it again.
  Indexing the vector out of range is undefined behaviour: \<open>None\<close>.

  The specification \<open>oq_next\<close>, \<open>oq_held\<close> is a cursor and a partial map: the element of slot
  \<open>i\<close>, if the queue holds it. The queue is empty exactly when the slot at the cursor is not
  held, and a pop takes that slot and advances the cursor by one, modulo the capacity.
\<close>

subsection \<open>State and operations\<close>

record 'a OrderedQueue =
  oq_indexToAck :: size_t
  oq_pushedElems :: "('a \<times> bool) list"
  oq_readyElems :: "'a RingDeque"

definition OrderedQueue_default :: "'a OrderedQueue option" where
  "OrderedQueue_default =
     do { r \<leftarrow> RingDeque_new 1;
          Some \<lparr>oq_indexToAck = 0, oq_pushedElems = [], oq_readyElems = r\<rparr> }"

definition OrderedQueue_new :: "'a \<Rightarrow> size_t \<Rightarrow> 'a OrderedQueue option" where
  "OrderedQueue_new dflt capacity =
     do { r \<leftarrow> RingDeque_new capacity;
          Some \<lparr>oq_indexToAck = 0, oq_pushedElems = replicate capacity (dflt, False),
                oq_readyElems = r\<rparr> }"

definition OrderedQueue_empty :: "'a OrderedQueue \<Rightarrow> bool" where
  "OrderedQueue_empty q = RingDeque_empty (oq_readyElems q)"

definition OrderedQueue_wrapIndex :: "'a OrderedQueue \<Rightarrow> 'a OrderedQueue" where
  "OrderedQueue_wrapIndex q =
     (let i = sz_add (oq_indexToAck q) 1
      in q\<lparr>oq_indexToAck := (if i = length (oq_pushedElems q) then 0 else i)\<rparr>)"

text \<open>One iteration of the while loop of \<open>push\<close>, and the loop.\<close>

definition OrderedQueue_take :: "'a OrderedQueue \<Rightarrow> 'a OrderedQueue" where
  "OrderedQueue_take q =
     (let (x, _) = oq_pushedElems q ! oq_indexToAck q
      in OrderedQueue_wrapIndex
           (q\<lparr>oq_readyElems := RingDeque_push_back (oq_readyElems q) x,
              oq_pushedElems := (oq_pushedElems q)[oq_indexToAck q := (x, False)]\<rparr>))"

function OrderedQueue_flush :: "'a OrderedQueue \<Rightarrow> 'a OrderedQueue option" where
  "OrderedQueue_flush q =
     (if oq_indexToAck q < length (oq_pushedElems q) then
        (if snd (oq_pushedElems q ! oq_indexToAck q)
         then OrderedQueue_flush (OrderedQueue_take q) else Some q)
      else None)"
  by pat_completeness auto

termination
proof (relation "measure (\<lambda>q. length (filter snd (oq_pushedElems q)))")
  fix q :: "'a OrderedQueue"
  assume "oq_indexToAck q < length (oq_pushedElems q)" "snd (oq_pushedElems q ! oq_indexToAck q)"
  then show "(OrderedQueue_take q, q) \<in> measure (\<lambda>q. length (filter snd (oq_pushedElems q)))"
    by (auto simp: OrderedQueue_take_def OrderedQueue_wrapIndex_def Let_def split_beta
        intro!: length_filter_update_less)
qed simp

declare OrderedQueue_flush.simps [simp del]

definition OrderedQueue_push :: "'a OrderedQueue \<Rightarrow> 'a \<Rightarrow> size_t \<Rightarrow> 'a OrderedQueue option" where
  "OrderedQueue_push q elem index =
     (if index = oq_indexToAck q
      then OrderedQueue_flush
             (OrderedQueue_wrapIndex
                (q\<lparr>oq_readyElems := RingDeque_push_back (oq_readyElems q) elem\<rparr>))
      else if index < length (oq_pushedElems q)
      then OrderedQueue_flush
             (q\<lparr>oq_pushedElems := (oq_pushedElems q)[index := (elem, True)]\<rparr>)
      else None)"

definition OrderedQueue_front :: "'a OrderedQueue \<Rightarrow> 'a option" where
  "OrderedQueue_front q = RingDeque_front (oq_readyElems q)"

text \<open>Assignment through the reference \<open>front()\<close> returns.\<close>

definition OrderedQueue_set_front :: "'a OrderedQueue \<Rightarrow> 'a \<Rightarrow> 'a OrderedQueue" where
  "OrderedQueue_set_front q x = q\<lparr>oq_readyElems := RingDeque_set (oq_readyElems q) 0 x\<rparr>"

definition OrderedQueue_pop :: "'a OrderedQueue \<Rightarrow> 'a OrderedQueue" where
  "OrderedQueue_pop q = q\<lparr>oq_readyElems := RingDeque_pop_front (oq_readyElems q)\<rparr>"

definition OrderedQueue_capacity :: "'a OrderedQueue \<Rightarrow> size_t" where
  "OrderedQueue_capacity q = rd_capacity (oq_readyElems q)"

subsection \<open>Specification: a cursor and the held slots\<close>

abbreviation oq_size :: "'a OrderedQueue \<Rightarrow> nat" where
  "oq_size q \<equiv> length (oq_pushedElems q)"

abbreviation oq_ready :: "'a OrderedQueue \<Rightarrow> 'a list" where
  "oq_ready q \<equiv> rd_list (oq_readyElems q)"

definition oq_next :: "'a OrderedQueue \<Rightarrow> nat" where
  "oq_next q = (oq_indexToAck q + (oq_size q - length (oq_ready q))) mod oq_size q"

definition oq_held :: "'a OrderedQueue \<Rightarrow> nat \<Rightarrow> 'a option" where
  "oq_held q i =
     (if i < oq_size q then
        (let j = (i + (oq_size q - oq_next q)) mod oq_size q
         in if j < length (oq_ready q) then Some (oq_ready q ! j)
            else if snd (oq_pushedElems q ! i) then Some (fst (oq_pushedElems q ! i)) else None)
      else None)"

text \<open>The invariant inside the loop of \<open>push\<close>, and the one between calls.\<close>

definition oq_loop_inv :: "'a OrderedQueue \<Rightarrow> bool" where
  "oq_loop_inv q \<longleftrightarrow>
     rd_inv (oq_readyElems q) \<and> 0 < oq_size q \<and> rd_capacity (oq_readyElems q) = oq_size q \<and>
     oq_indexToAck q < oq_size q \<and>
     (\<forall>j \<in> {..<length (oq_ready q)}. \<not> snd (oq_pushedElems q ! ((oq_next q + j) mod oq_size q)))"

definition oq_inv :: "'a OrderedQueue \<Rightarrow> bool" where
  "oq_inv q \<longleftrightarrow> oq_loop_inv q \<and> \<not> snd (oq_pushedElems q ! oq_indexToAck q)"

subsection \<open>Proofs\<close>

lemma oq_loop_inv_facts:
  assumes "oq_loop_inv q"
  shows "oq_next q < oq_size q" "length (oq_ready q) \<le> oq_size q" "oq_size q \<le> 2 ^ 63"
    "(oq_next q + length (oq_ready q)) mod oq_size q = oq_indexToAck q"
proof -
  let ?n = "oq_size q" and ?l = "length (oq_ready q)"
  have inv: "rd_inv (oq_readyElems q)" "0 < ?n" "rd_capacity (oq_readyElems q) = ?n" "oq_indexToAck q < ?n"
    using assms by (auto simp: oq_loop_inv_def)
  show l: "?l \<le> ?n" using rd_inv_bounds [OF inv(1)] inv(3) by simp
  show "?n \<le> 2 ^ 63" using rd_inv_bounds [OF inv(1)] inv(3) by simp
  show "oq_next q < ?n" using inv(2) by (simp add: oq_next_def)
  have "(oq_next q + ?l) mod ?n = (oq_indexToAck q + (?n - ?l) + ?l) mod ?n"
    unfolding oq_next_def by (rule mod_add_left_eq)
  also have "oq_indexToAck q + (?n - ?l) + ?l = oq_indexToAck q + ?n" using l by simp
  finally show "(oq_next q + ?l) mod ?n = oq_indexToAck q" using inv(4) by simp
qed

text \<open>The held slots seen from the cursor: the ready elements come first.\<close>

lemma oq_held_offset:
  assumes "oq_loop_inv q" "j < oq_size q"
  shows "oq_held q ((oq_next q + j) mod oq_size q) =
     (if j < length (oq_ready q) then Some (oq_ready q ! j)
      else let e = oq_pushedElems q ! ((oq_next q + j) mod oq_size q)
           in if snd e then Some (fst e) else None)"
proof -
  let ?n = "oq_size q" and ?i = "(oq_next q + j) mod oq_size q"
  note f = oq_loop_inv_facts [OF assms(1)]
  have lt: "?i < ?n" by (rule mod_less_divisor, rule le_less_trans [OF le0 assms(2)])
  then have "(?i + (?n - oq_next q)) mod ?n = j"
    using mod_rel_iff [OF lt assms(2) f(1)] by simp
  then show ?thesis using lt by (simp add: oq_held_def)
qed

lemma oq_slot_offset:
  assumes "oq_loop_inv q" "i < oq_size q"
  obtains j where "j < oq_size q" "i = (oq_next q + j) mod oq_size q"
  using mod_rel_iff [OF assms(2) _ oq_loop_inv_facts(1) [OF assms(1)]] assms(2)
  by (metis mod_less_divisor not_less_zero gr0I)

text \<open>
  Two queues with the same cursor hold the same slots when they agree on every offset from it.
\<close>

lemma oq_held_eqI:
  assumes "oq_loop_inv q" "oq_loop_inv q'" "oq_size q' = oq_size q" "oq_next q' = oq_next q"
    "\<And>j. j < oq_size q \<Longrightarrow> oq_held q' ((oq_next q + j) mod oq_size q) = h ((oq_next q + j) mod oq_size q)"
    "\<And>i. oq_size q \<le> i \<Longrightarrow> h i = None"
  shows "oq_held q' = h"
proof
  fix i
  show "oq_held q' i = h i"
  proof (cases "i < oq_size q")
    case True
    with assms show ?thesis by (metis oq_slot_offset [OF assms(1)])
  next
    case False
    then show ?thesis using assms(3,6) by (simp add: oq_held_def)
  qed
qed

text \<open>
  The move of the slot at the acknowledge index into the ready queue, which both the in-order
  branch of \<open>push\<close> and an iteration of its loop perform, keeps the cursor.
\<close>

lemma oq_accept:
  fixes q :: "'a OrderedQueue" and x :: 'a
  assumes "oq_loop_inv q" "length (oq_ready q) < oq_size q"
    and ps: "length ps = oq_size q" "\<And>i. i \<noteq> oq_indexToAck q \<Longrightarrow> ps ! i = oq_pushedElems q ! i"
      "\<not> snd (ps ! oq_indexToAck q)"
  defines "q' \<equiv> OrderedQueue_wrapIndex
     (q\<lparr>oq_readyElems := RingDeque_push_back (oq_readyElems q) x, oq_pushedElems := ps\<rparr>)"
  shows "oq_loop_inv q'" "oq_next q' = oq_next q" "oq_ready q' = oq_ready q @ [x]"
    "oq_held q' = (oq_held q)(oq_indexToAck q \<mapsto> x)"
proof -
  let ?n = "oq_size q" and ?l = "length (oq_ready q)" and ?a = "oq_indexToAck q"
  note f = oq_loop_inv_facts [OF assms(1)]
  have inv: "rd_inv (oq_readyElems q)" "0 < ?n" "rd_capacity (oq_readyElems q) = ?n" "?a < ?n"
    using assms by (auto simp: oq_loop_inv_def)
  have pb: "rd_inv (RingDeque_push_back (oq_readyElems q) x)"
    "rd_list (RingDeque_push_back (oq_readyElems q) x) = oq_ready q @ [x]"
    "rd_capacity (RingDeque_push_back (oq_readyElems q) x) = ?n"
    using rd.push_laws [OF inv(1)] inv(3) assms(2) by auto
  have q': "oq_size q' = ?n" "oq_readyElems q' = RingDeque_push_back (oq_readyElems q) x"
    "oq_pushedElems q' = ps" and ack: "oq_indexToAck q' = (?a + 1) mod ?n"
    using inv f ps by (simp_all add: q'_def OrderedQueue_wrapIndex_def Let_def sz_simps mod_Suc)
  show r: "oq_ready q' = oq_ready q @ [x]" using q' pb by simp
  have "oq_next q' = ((?a + 1) mod ?n + (?n - (?l + 1))) mod ?n"
    by (simp add: oq_next_def q' ack pb ps(1))
  also have "\<dots> = ((?a + 1) + (?n - (?l + 1))) mod ?n" by (rule mod_add_left_eq)
  also have "(?a + 1) + (?n - (?l + 1)) = ?a + (?n - ?l)" using assms(2) by simp
  finally show next': "oq_next q' = oq_next q" by (simp add: oq_next_def)
  have off: "(oq_next q + j) mod ?n = ?a \<longleftrightarrow> j = ?l" if "j < ?n" for j
    using f(4) that assms(2) mod_add_left_inj [of j ?n ?l "oq_next q"] by auto
  show loop': "oq_loop_inv q'"
    unfolding oq_loop_inv_def q' next' ack
  proof (intro conjI ballI)
    fix j assume "j \<in> {..<length (rd_list (RingDeque_push_back (oq_readyElems q) x))}"
    then have j: "j \<le> ?l" using pb(2) by simp
    show "\<not> snd (ps ! ((oq_next q + j) mod length ps))"
    proof (cases "j = ?l")
      case True
      then show ?thesis unfolding ps(1) using f(4) ps(3) by simp
    next
      case False
      then have "(oq_next q + j) mod ?n \<noteq> ?a" using j off assms(2) by auto
      then show ?thesis
        unfolding ps(1) using ps(2) assms(1) j False by (simp add: oq_loop_inv_def)
    qed
  qed (use inv pb ps(1) in auto)
  show "oq_held q' = (oq_held q)(?a \<mapsto> x)"
  proof (rule oq_held_eqI [OF assms(1) loop' q'(1) next'])
    fix j assume j: "j < ?n"
    show "oq_held q' ((oq_next q + j) mod ?n) = ((oq_held q)(?a \<mapsto> x)) ((oq_next q + j) mod ?n)"
      using oq_held_offset [OF loop', of j] oq_held_offset [OF assms(1) j] j off [OF j] ps(2)
      unfolding q'(3) ps(1) next' by (auto simp: q' pb nth_append Let_def ps(1))
  next
    fix i assume "?n \<le> i"
    then show "((oq_held q)(?a \<mapsto> x)) i = None" using inv(4) by (simp add: oq_held_def)
  qed
qed

lemma oq_take_inv:
  assumes "oq_loop_inv q" "snd (oq_pushedElems q ! oq_indexToAck q)"
  shows "oq_loop_inv (OrderedQueue_take q)" "oq_next (OrderedQueue_take q) = oq_next q"
    "oq_held (OrderedQueue_take q) = oq_held q" "oq_size (OrderedQueue_take q) = oq_size q"
proof -
  let ?n = "oq_size q" and ?a = "oq_indexToAck q" and ?l = "length (oq_ready q)"
  let ?x = "fst (oq_pushedElems q ! ?a)"
  note f = oq_loop_inv_facts [OF assms(1)]
  have a: "?a < ?n" using assms(1) by (simp add: oq_loop_inv_def)
  have free: "?l < ?n"
  proof (rule ccontr)
    assume "\<not> ?l < ?n"
    then have l: "?l = ?n" using f(2) by simp
    have "(oq_next q + 0) mod ?n = ?a" using f(4) f(1) l by simp
    moreover have "0 < ?l" using l a by linarith
    ultimately have "\<not> snd (oq_pushedElems q ! ?a)"
      using assms(1) unfolding oq_loop_inv_def by (metis lessThan_iff)
    with assms(2) show False by simp
  qed
  have t: "OrderedQueue_take q = OrderedQueue_wrapIndex
     (q\<lparr>oq_readyElems := RingDeque_push_back (oq_readyElems q) ?x,
        oq_pushedElems := (oq_pushedElems q)[?a := (?x, False)]\<rparr>)"
    by (simp add: OrderedQueue_take_def split_beta Let_def)
  note acc = oq_accept [OF assms(1) free, of "(oq_pushedElems q)[?a := (?x, False)]" ?x, folded t]
  have held: "oq_held q ?a = Some ?x"
    using oq_held_offset [OF assms(1) free] f(4) assms(2) by (simp add: Let_def)
  show "oq_loop_inv (OrderedQueue_take q)" "oq_next (OrderedQueue_take q) = oq_next q"
    using acc a by simp_all
  show "oq_held (OrderedQueue_take q) = oq_held q"
    using acc(4) a held by (simp add: fun_upd_idem)
  show "oq_size (OrderedQueue_take q) = oq_size q"
    by (simp add: t OrderedQueue_wrapIndex_def Let_def)
qed

lemma oq_flush_inv:
  assumes "oq_loop_inv q"
  shows "\<exists>q'. OrderedQueue_flush q = Some q' \<and> oq_inv q' \<and> oq_next q' = oq_next q
     \<and> oq_held q' = oq_held q \<and> oq_size q' = oq_size q"
  using assms
proof (induction q rule: OrderedQueue_flush.induct)
  case (1 q)
  have a: "oq_indexToAck q < oq_size q" using 1 by (simp add: oq_loop_inv_def)
  show ?case
  proof (cases "snd (oq_pushedElems q ! oq_indexToAck q)")
    case True
    note t = oq_take_inv [OF "1.prems" True]
    show ?thesis using "1.IH" [OF a True t(1)] a True t(2-) by (simp add: OrderedQueue_flush.simps [of q])
  next
    case False
    then show ?thesis using a 1 by (simp add: OrderedQueue_flush.simps [of q] oq_inv_def)
  qed
qed

text \<open>\<open>push\<close> of a free slot: it always returns, and the slot is then held.\<close>

lemma oq_push_inv:
  assumes "oq_inv q" "index < oq_size q" "oq_held q index = None"
  obtains q' where "OrderedQueue_push q x index = Some q'" "oq_inv q'" "oq_next q' = oq_next q"
    "oq_held q' = (oq_held q)(index \<mapsto> x)" "oq_size q' = oq_size q"
proof -
  let ?n = "oq_size q" and ?a = "oq_indexToAck q" and ?l = "length (oq_ready q)"
  have loop: "oq_loop_inv q" and na: "\<not> snd (oq_pushedElems q ! ?a)"
    using assms(1) by (auto simp: oq_inv_def)
  note f = oq_loop_inv_facts [OF loop]
  obtain j where j: "j < ?n" "index = (oq_next q + j) mod ?n"
    using loop assms(2) by (rule oq_slot_offset)
  then have jl: "?l \<le> j" using assms(3) oq_held_offset [OF loop j(1)] by (auto split: if_splits)
  then have free: "?l < ?n" using j by simp
  obtain r where r: "OrderedQueue_push q x index = OrderedQueue_flush r" "oq_loop_inv r"
    "oq_next r = oq_next q" "oq_held r = (oq_held q)(index \<mapsto> x)" "oq_size r = oq_size q"
  proof (cases "index = ?a")
    case True
    let ?r = "OrderedQueue_wrapIndex
       (q\<lparr>oq_readyElems := RingDeque_push_back (oq_readyElems q) x, oq_pushedElems := oq_pushedElems q\<rparr>)"
    note acc = oq_accept [OF loop free, of "oq_pushedElems q" x]
    have "oq_size ?r = ?n" by (simp add: OrderedQueue_wrapIndex_def Let_def)
    then show ?thesis
      by (intro that [of ?r]) (use acc na True in \<open>simp_all add: OrderedQueue_push_def\<close>)
  next
    case False
    let ?r = "q\<lparr>oq_pushedElems := (oq_pushedElems q)[index := (x, True)]\<rparr>"
    have nx: "oq_next ?r = oq_next q" by (simp add: oq_next_def)
    have off: "(oq_next q + i) mod ?n = index \<longleftrightarrow> i = j" if "i < ?n" for i
      using j that mod_add_left_inj [of i ?n j "oq_next q"] by auto
    have lr: "oq_loop_inv ?r"
      unfolding oq_loop_inv_def nx
    proof (intro conjI ballI)
      fix i assume "i \<in> {..<length (oq_ready ?r)}"
      then have i: "i < ?l" by simp
      then have "(oq_next q + i) mod ?n \<noteq> index" using off [of i] jl f(2) by simp
      then show "\<not> snd (oq_pushedElems ?r ! ((oq_next q + i) mod oq_size ?r))"
        using loop i by (simp add: oq_loop_inv_def)
    qed (use loop in \<open>simp_all add: oq_loop_inv_def\<close>)
    have "oq_held ?r = (oq_held q)(index \<mapsto> x)"
    proof (rule oq_held_eqI [OF loop lr _ nx])
      fix i assume i: "i < ?n"
      show "oq_held ?r ((oq_next q + i) mod ?n) = ((oq_held q)(index \<mapsto> x)) ((oq_next q + i) mod ?n)"
        using oq_held_offset [OF lr, of i] oq_held_offset [OF loop i] i off [OF i] jl assms(2)
        by (auto simp: nx Let_def nth_list_update)
    next
      fix i assume "?n \<le> i"
      then show "((oq_held q)(index \<mapsto> x)) i = None" using assms(2) by (simp add: oq_held_def)
    qed simp
    then show ?thesis
      by (intro that [of ?r]) (use nx lr False assms(2) in \<open>simp_all add: OrderedQueue_push_def\<close>)
  qed
  then show ?thesis using oq_flush_inv [OF r(2)] that by auto
qed

lemma oq_empty_iff:
  assumes "oq_inv q"
  shows "OrderedQueue_empty q \<longleftrightarrow> oq_held q (oq_next q) = None"
    and "OrderedQueue_front q = oq_held q (oq_next q) \<or> OrderedQueue_empty q"
proof -
  have loop: "oq_loop_inv q" using assms by (simp add: oq_inv_def)
  note f = oq_loop_inv_facts [OF loop]
  have n0: "0 < oq_size q" and inv: "rd_inv (oq_readyElems q)" using loop by (auto simp: oq_loop_inv_def)
  have h: "oq_held q (oq_next q) = (if 0 < length (oq_ready q) then Some (oq_ready q ! 0)
      else let e = oq_pushedElems q ! oq_next q in if snd e then Some (fst e) else None)"
    using oq_held_offset [OF loop n0] f(1) by simp
  have "oq_next q = oq_indexToAck q" if "oq_ready q = []" using f(1,4) that by simp
  then show "OrderedQueue_empty q \<longleftrightarrow> oq_held q (oq_next q) = None"
    using h assms by (auto simp: OrderedQueue_empty_def RingDeque_empty_def oq_inv_def Let_def rd_list_Nil_iff)
  show "OrderedQueue_front q = oq_held q (oq_next q) \<or> OrderedQueue_empty q"
    using h rd_inv_at [OF inv, of 0]
    by (auto simp: OrderedQueue_front_def RingDeque_front_def OrderedQueue_empty_def RingDeque_empty_def)
qed

lemma oq_pop_inv:
  assumes "oq_inv q" "\<not> OrderedQueue_empty q"
  shows "oq_inv (OrderedQueue_pop q)" "oq_next (OrderedQueue_pop q) = (oq_next q + 1) mod oq_size q"
    "oq_held (OrderedQueue_pop q) = (oq_held q)(oq_next q := None)"
    "oq_size (OrderedQueue_pop q) = oq_size q"
proof -
  let ?n = "oq_size q" and ?a = "oq_indexToAck q" and ?l = "length (oq_ready q)" and ?q = "OrderedQueue_pop q"
  have loop: "oq_loop_inv q" and na: "\<not> snd (oq_pushedElems q ! ?a)" using assms(1) by (auto simp: oq_inv_def)
  note f = oq_loop_inv_facts [OF loop]
  have inv: "rd_inv (oq_readyElems q)" "0 < ?n" "rd_capacity (oq_readyElems q) = ?n" "?a < ?n"
    using loop by (auto simp: oq_loop_inv_def)
  have ne: "oq_ready q \<noteq> []"
    using assms(2) by (simp add: OrderedQueue_empty_def RingDeque_empty_def rd_list_Nil_iff)
  have pf: "rd_inv (oq_readyElems ?q)" "oq_ready ?q = tl (oq_ready q)" "rd_capacity (oq_readyElems ?q) = ?n"
    using rd.pop_laws [OF inv(1) ne] inv(3) by (simp_all add: OrderedQueue_pop_def)
  show size: "oq_size ?q = ?n" by (simp add: OrderedQueue_pop_def)
  have other: "oq_pushedElems ?q = oq_pushedElems q" "oq_indexToAck ?q = ?a"
    by (simp_all add: OrderedQueue_pop_def)
  have l: "0 < ?l" using ne by (cases "oq_ready q") (simp_all del: length_rd_list)
  have "oq_next ?q = (?a + (?n - (?l - 1))) mod ?n" by (simp add: oq_next_def other pf(2) ne)
  also have "?n - (?l - 1) = ?n - ?l + 1" using l f(2) by linarith
  finally show next': "oq_next ?q = (oq_next q + 1) mod ?n" by (simp add: oq_next_def mod_simps)
  have shift: "(oq_next ?q + j) mod ?n = (oq_next q + (j + 1)) mod ?n" for j
    by (simp add: next' mod_simps)
  have loop': "oq_loop_inv ?q"
    unfolding oq_loop_inv_def other size
  proof (intro conjI ballI)
    fix j assume "j \<in> {..<length (oq_ready ?q)}"
    then have "j + 1 \<in> {..<?l}" using pf(2) by auto
    then show "\<not> snd (oq_pushedElems q ! ((oq_next ?q + j) mod ?n))"
      unfolding shift using loop unfolding oq_loop_inv_def by blast
  qed (use inv pf in auto)
  then show "oq_inv ?q" using na by (simp add: oq_inv_def other)
  have off: "(oq_next ?q + j) mod ?n = oq_next q \<longleftrightarrow> j = ?n - 1" if "j < ?n" for j
  proof -
    show ?thesis
    proof (cases "j + 1 = ?n")
      case True
      then show ?thesis unfolding shift using f(1) by auto
    next
      case False
      then have "(oq_next q + (j + 1)) mod ?n \<noteq> (oq_next q + 0) mod ?n"
        using that inv(2) mod_add_left_inj [of "j + 1" ?n 0 "oq_next q"] by auto
      then show ?thesis unfolding shift using f(1) False that by auto
    qed
  qed
  show "oq_held ?q = (oq_held q)(oq_next q := None)"
  proof (rule oq_held_eqI [OF loop' loop'])
    fix j assume "j < oq_size ?q"
    then have j: "j < ?n" using size by simp
    show "oq_held ?q ((oq_next ?q + j) mod oq_size ?q)
        = ((oq_held q)(oq_next q := None)) ((oq_next ?q + j) mod oq_size ?q)"
    proof (cases "j = ?n - 1")
      case True
      then have "\<not> j < length (oq_ready ?q)" using pf(2) f(2) l inv(2) by auto
      moreover have "(oq_next ?q + j) mod ?n = oq_next q" using off [OF j] True by simp
      moreover have "\<not> snd (oq_pushedElems q ! oq_next q)"
        using loop l f(1) unfolding oq_loop_inv_def by (metis add_0_right lessThan_iff mod_less)
      ultimately show ?thesis
        using oq_held_offset [OF loop', of j] j by (simp add: size other Let_def)
    next
      case False
      then have j1: "j + 1 < ?n" using j by simp
      show ?thesis
        using oq_held_offset [OF loop', of j] oq_held_offset [OF loop j1] off [OF j] False j
        by (auto simp: size other pf(2) shift nth_tl Let_def)
    qed
  next
    fix i assume "oq_size ?q \<le> i"
    then show "((oq_held q)(oq_next q := None)) i = None" using size by (simp add: oq_held_def)
  qed simp_all
qed

lemma oq_set_front_inv:
  assumes "oq_inv q" "\<not> OrderedQueue_empty q"
  shows "oq_inv (OrderedQueue_set_front q x)" "oq_next (OrderedQueue_set_front q x) = oq_next q"
    "oq_held (OrderedQueue_set_front q x) = (oq_held q)(oq_next q \<mapsto> x)"
    "oq_size (OrderedQueue_set_front q x) = oq_size q"
proof -
  let ?n = "oq_size q" and ?q = "OrderedQueue_set_front q x"
  have loop: "oq_loop_inv q" using assms(1) by (auto simp: oq_inv_def)
  note f = oq_loop_inv_facts [OF loop]
  have inv: "rd_inv (oq_readyElems q)" "0 < ?n" "rd_capacity (oq_readyElems q) = ?n" "oq_indexToAck q < ?n"
    using loop by (auto simp: oq_loop_inv_def)
  have l: "0 < length (oq_ready q)"
    using assms(2) by (simp add: OrderedQueue_empty_def RingDeque_empty_def)
  have st: "rd_inv (oq_readyElems ?q)" "oq_ready ?q = (oq_ready q)[0 := x]" "rd_capacity (oq_readyElems ?q) = ?n"
    using rd.set_at_laws [OF inv(1) l] inv(3) by (simp_all add: OrderedQueue_set_front_def)
  have other: "oq_pushedElems ?q = oq_pushedElems q" "oq_indexToAck ?q = oq_indexToAck q"
    by (simp_all add: OrderedQueue_set_front_def)
  show size: "oq_size ?q = ?n" by (simp add: other)
  show nx: "oq_next ?q = oq_next q" by (simp add: oq_next_def other st(2) del: length_rd_list)
  have loop': "oq_loop_inv ?q"
    using loop st unfolding oq_loop_inv_def nx other by (simp del: length_rd_list)
  then show "oq_inv ?q" using assms(1) by (simp add: oq_inv_def other)
  show "oq_held ?q = (oq_held q)(oq_next q \<mapsto> x)"
  proof (rule oq_held_eqI [OF loop loop' size nx])
    fix j assume j: "j < ?n"
    have "(oq_next q + j) mod ?n = oq_next q \<longleftrightarrow> j = 0"
      using mod_add_left_inj [of j ?n 0 "oq_next q"] j f(1) inv(2) by auto
    then show "oq_held ?q ((oq_next q + j) mod ?n) = ((oq_held q)(oq_next q \<mapsto> x)) ((oq_next q + j) mod ?n)"
      using oq_held_offset [OF loop', of j] oq_held_offset [OF loop j] j l
      by (auto simp: nx other st(2) nth_list_update simp del: length_rd_list)
  next
    fix i assume "?n \<le> i"
    then show "((oq_held q)(oq_next q \<mapsto> x)) i = None" using f(1) by (simp add: oq_held_def)
  qed
qed

lemma oq_new_inv:
  fixes dflt :: 'a
  assumes "0 < capacity" "capacity \<le> 2 ^ 63"
  obtains q where "OrderedQueue_new dflt capacity = Some q" "oq_inv q" "oq_next q = 0"
    "oq_held q = Map.empty" "oq_size q = capacity" "OrderedQueue_capacity q = capacity"
proof -
  obtain r :: "'a RingDeque" where r: "RingDeque_new capacity = Some r" "rd_inv r" "rd_list r = []"
    "rd_capacity r = capacity" "rd_numElements r = 0"
    using assms(2) by (rule new_inv)
  let ?q = "\<lparr>oq_indexToAck = 0, oq_pushedElems = replicate capacity (dflt, False), oq_readyElems = r\<rparr>"
  have "oq_inv ?q" using r assms(1) by (simp add: oq_inv_def oq_loop_inv_def)
  moreover have "oq_held ?q = Map.empty" using r by (simp add: oq_held_def fun_eq_iff Let_def)
  ultimately show ?thesis
    by (intro that [of ?q])
      (use r in \<open>simp_all add: OrderedQueue_new_def oq_next_def OrderedQueue_capacity_def\<close>)
qed

lemma oq_capacity_size: "oq_inv q \<Longrightarrow> OrderedQueue_capacity q = oq_size q"
  by (simp add: OrderedQueue_capacity_def oq_inv_def oq_loop_inv_def)

subsection \<open>The interface of the buffer managers\<close>

text \<open>
  What a buffer manager relies on: slots are given out in cyclic order, however they come back.
\<close>

locale slot_queue =
  fixes inv :: "'q \<Rightarrow> bool" and size :: "'q \<Rightarrow> nat" and cursor :: "'q \<Rightarrow> nat"
    and held :: "'q \<Rightarrow> nat \<Rightarrow> 'a option" and is_empty :: "'q \<Rightarrow> bool" and front :: "'q \<Rightarrow> 'a option"
    and push :: "'q \<Rightarrow> 'a \<Rightarrow> nat \<Rightarrow> 'q option" and pop :: "'q \<Rightarrow> 'q" and set_front :: "'q \<Rightarrow> 'a \<Rightarrow> 'q"
  assumes cursor_less: "inv q \<Longrightarrow> cursor q < size q"
    and held_bound: "inv q \<Longrightarrow> held q i \<noteq> None \<Longrightarrow> i < size q"
    and empty_iff: "inv q \<Longrightarrow> is_empty q \<longleftrightarrow> held q (cursor q) = None"
    and front_held: "inv q \<Longrightarrow> \<not> is_empty q \<Longrightarrow> front q = held q (cursor q)"
    and push_law: "inv q \<Longrightarrow> i < size q \<Longrightarrow> held q i = None \<Longrightarrow>
          \<exists>q'. push q x i = Some q' \<and> inv q' \<and> cursor q' = cursor q \<and> held q' = (held q)(i \<mapsto> x) \<and> size q' = size q"
    and pop_law: "inv q \<Longrightarrow> \<not> is_empty q \<Longrightarrow>
          inv (pop q) \<and> cursor (pop q) = (cursor q + 1) mod size q
            \<and> held (pop q) = (held q)(cursor q := None) \<and> size (pop q) = size q"
    and set_front_law: "inv q \<Longrightarrow> \<not> is_empty q \<Longrightarrow>
          inv (set_front q x) \<and> cursor (set_front q x) = cursor q
            \<and> held (set_front q x) = (held q)(cursor q \<mapsto> x) \<and> size (set_front q x) = size q"
begin

text \<open>Returning the slot at the cursor makes the queue non-empty; returning another one never does.\<close>

lemma push_wakes_iff:
  assumes "inv q" "is_empty q" "i < size q" "held q i = None" "push q x i = Some q'"
  shows "\<not> is_empty q' \<longleftrightarrow> i = cursor q"
  using push_law [OF assms(1,3,4), of x] assms empty_iff by auto

text \<open>A queue that holds every slot gives out \<open>size q\<close> elements, each slot once, in order.\<close>

lemma pop_all:
  assumes "inv q" "\<forall>j < k. held q ((cursor q + j) mod size q) \<noteq> None" "k \<le> size q"
  shows "inv ((pop ^^ k) q) \<and> cursor ((pop ^^ k) q) = (cursor q + k) mod size q
    \<and> size ((pop ^^ k) q) = size q
    \<and> (\<forall>j < size q - k. held ((pop ^^ k) q) ((cursor q + (k + j)) mod size q) = held q ((cursor q + (k + j)) mod size q))"
  using assms(2,3)
proof (induction k)
  case 0
  then show ?case using assms(1) cursor_less by simp
next
  case (Suc k)
  let ?q = "(pop ^^ k) q" and ?n = "size q"
  have IH: "inv ?q" "cursor ?q = (cursor q + k) mod ?n" "size ?q = ?n"
    "\<And>j. j < ?n - k \<Longrightarrow> held ?q ((cursor q + (k + j)) mod ?n) = held q ((cursor q + (k + j)) mod ?n)"
    using Suc by auto
  have "held ?q (cursor ?q) \<noteq> None" using IH(4) [of 0] IH(2) Suc.prems by simp
  then have ne: "\<not> is_empty ?q" using empty_iff [OF IH(1)] by simp
  note p = pop_law [OF IH(1) ne]
  have "held (pop ?q) ((cursor q + (Suc k + j)) mod ?n) = held q ((cursor q + (Suc k + j)) mod ?n)"
    if "j < ?n - Suc k" for j
  proof -
    have "(cursor q + (k + Suc j)) mod ?n \<noteq> (cursor q + k) mod ?n"
      using mod_add_left_inj [of "Suc j" ?n 0 "cursor q + k"] that
      by (auto simp: ac_simps less_diff_conv)
    then show ?thesis using p IH(2) IH(4) [of "Suc j"] that by simp
  qed
  then show ?case using p IH by (simp add: mod_simps)
qed

end

interpretation oq: slot_queue oq_inv oq_size oq_next oq_held OrderedQueue_empty OrderedQueue_front
  OrderedQueue_push OrderedQueue_pop OrderedQueue_set_front
proof (unfold_locales, goal_cases)
  case (1 q) then show ?case using oq_loop_inv_facts(1) by (auto simp: oq_inv_def)
next
  case (2 q i) then show ?case by (auto simp: oq_held_def split: if_splits)
next
  case (3 q) then show ?case by (rule oq_empty_iff(1))
next
  case (4 q) then show ?case using oq_empty_iff(2) by blast
next
  case (5 q i x) then show ?case by (metis oq_push_inv)
qed (simp_all add: oq_pop_inv oq_set_front_inv)

subsection \<open>Properties\<close>

text \<open>Calls on the queue as data, on the specification and on the implementation.\<close>

datatype 'a oq_call = OqPush 'a nat | OqPop

fun oq_spec_step :: "nat \<Rightarrow> 'a oq_call \<Rightarrow> nat \<times> (nat \<rightharpoonup> 'a) \<Rightarrow> (nat \<times> (nat \<rightharpoonup> 'a)) option" where
  "oq_spec_step n (OqPush x i) (c, h) = (if i < n \<and> h i = None then Some (c, h(i \<mapsto> x)) else None)"
| "oq_spec_step n OqPop (c, h) = (if h c \<noteq> None then Some ((c + 1) mod n, h(c := None)) else None)"

fun oq_spec_run :: "nat \<Rightarrow> 'a oq_call list \<Rightarrow> nat \<times> (nat \<rightharpoonup> 'a) \<Rightarrow> (nat \<times> (nat \<rightharpoonup> 'a)) option" where
  "oq_spec_run n [] s = Some s"
| "oq_spec_run n (x # xs) s = do { t \<leftarrow> oq_spec_step n x s; oq_spec_run n xs t }"

fun oq_impl_step :: "'a oq_call \<Rightarrow> 'a OrderedQueue \<Rightarrow> 'a OrderedQueue option" where
  "oq_impl_step (OqPush x i) q = OrderedQueue_push q x i"
| "oq_impl_step OqPop q = Some (OrderedQueue_pop q)"

fun oq_impl_run :: "'a oq_call list \<Rightarrow> 'a OrderedQueue \<Rightarrow> 'a OrderedQueue option" where
  "oq_impl_run [] q = Some q"
| "oq_impl_run (x # xs) q = do { r \<leftarrow> oq_impl_step x q; oq_impl_run xs r }"

lemma oq_run_refines:
  assumes "oq_inv q" "oq_spec_run (oq_size q) calls (oq_next q, oq_held q) = Some (c, h)"
  shows "\<exists>q'. oq_impl_run calls q = Some q' \<and> oq_inv q' \<and> oq_next q' = c \<and> oq_held q' = h"
  using assms
proof (induction calls arbitrary: q)
  case (Cons x xs)
  obtain s where s: "oq_spec_step (oq_size q) x (oq_next q, oq_held q) = Some s"
    "oq_spec_run (oq_size q) xs s = Some (c, h)" using Cons.prems by (auto simp: bind_eq_Some_conv)
  obtain r where "oq_impl_step x q = Some r" "oq_inv r" "s = (oq_next r, oq_held r)" "oq_size r = oq_size q"
  proof (cases x)
    case (OqPush y i)
    then show ?thesis using oq.push_law [OF Cons.prems(1), of i y] s(1) that by (auto split: if_splits)
  next
    case OqPop
    then show ?thesis
      using oq.pop_law [OF Cons.prems(1)] oq.empty_iff [OF Cons.prems(1)] s(1) that by (auto split: if_splits)
  qed
  then show ?case using Cons.IH [of r] s(2) by auto
qed auto

text \<open>
  C4. Refinement: the ordered queue delivers in cyclic slot order. Any sequence of pushes (each to
  a slot that is not held) and pops that the cursor-and-slots specification accepts returns, the
  queue is empty exactly when the slot at the cursor is not held, and otherwise its front is
  the element of that slot, however out of order the pushes came.
\<close>

theorem ordered_queue_refines_slots:
  assumes "0 < n" "n \<le> 2 ^ 63" "oq_spec_run n calls (0, Map.empty) = Some (c, h)"
  shows "\<exists>q q'. OrderedQueue_new dflt n = Some q \<and> oq_impl_run calls q = Some q'
     \<and> OrderedQueue_empty q' = (h c = None) \<and> (h c \<noteq> None \<longrightarrow> OrderedQueue_front q' = h c)"
proof -
  obtain q where q: "OrderedQueue_new dflt n = Some q" "oq_inv q" "oq_next q = 0"
    "oq_held q = Map.empty" "oq_size q = n"
    using assms(1,2) by (rule oq_new_inv)
  obtain q' where "oq_impl_run calls q = Some q'" "oq_inv q'" "oq_next q' = c" "oq_held q' = h"
    using oq_run_refines [OF q(2), of calls c h] assms(3) q(3-5) by auto
  then show ?thesis using q(1) oq.empty_iff oq.front_held by metis
qed

theorem ordered_queue_refines_slots_witness:
  "\<exists>q q'. OrderedQueue_new CHR ''-'' 3 = Some q
     \<and> oq_impl_run [OqPush CHR ''c'' 2, OqPush CHR ''a'' 0, OqPop, OqPush CHR ''b'' 1] q = Some q'
     \<and> OrderedQueue_empty q' = False \<and> OrderedQueue_front q' = Some CHR ''b''"
  using ordered_queue_refines_slots [of 3 "[OqPush CHR ''c'' 2, OqPush CHR ''a'' 0, OqPop, OqPush CHR ''b'' 1]"
      1 "[2 \<mapsto> CHR ''c'', 1 \<mapsto> CHR ''b'']" "CHR ''-''"]
  by (auto simp: fun_eq_iff)

end
