(* ===== verification/SharedBuffer.thy ===== *)
theory SharedBuffer
  imports Prelude
begin

section \<open>Shared buffers: lib/Framework/SharedBuffer.cpp\<close>

text \<open>
  \<open>Pothos::SharedBuffer\<close>: an address, a length, the alias address of a circular buffer (0 for a
  plain one) and the container that owns the memory. The container is a \<open>shared_ptr\<close>, here its
  identity, \<open>None\<close> for the null pointer. Address arithmetic is \<open>size_t\<close> and wraps.

  The allocation \<open>makeCircUnprotected\<close> of \<open>SharedBufferUnix.cpp\<close> and
  \<open>SharedBufferWindows.cpp\<close> is a sequence of system calls: \<open>makeCirc\<close> takes the outcomes of its
  calls, one per attempt, as the parameter \<open>unprotected\<close>.
\<close>

datatype sb_error = SharedBufferError string

record SharedBuffer =
  sb_address :: size_t
  sb_length :: size_t
  sb_alias :: size_t
  sb_container :: "nat option"

definition SharedBuffer_null :: SharedBuffer where
  "SharedBuffer_null = \<lparr>sb_address = 0, sb_length = 0, sb_alias = 0, sb_container = None\<rparr>"

definition SharedBuffer_new :: "size_t \<Rightarrow> size_t \<Rightarrow> nat option \<Rightarrow> SharedBuffer" where
  "SharedBuffer_new address len container =
     \<lparr>sb_address = address, sb_length = len, sb_alias = 0, sb_container = container\<rparr>"

definition SharedBuffer_getEnd :: "SharedBuffer \<Rightarrow> size_t" where
  "SharedBuffer_getEnd b = sz_add (sb_address b) (sb_length b)"

definition SharedBuffer_getAliasOffset :: "SharedBuffer \<Rightarrow> size_t" where
  "SharedBuffer_getAliasOffset b = (if sb_alias b \<noteq> 0 then sz_sub (sb_alias b) (sb_address b) else 0)"

definition SharedBuffer_bool :: "SharedBuffer \<Rightarrow> bool" where
  "SharedBuffer_bool b \<longleftrightarrow> sb_container b \<noteq> None"

definition SharedBuffer_eq :: "SharedBuffer \<Rightarrow> SharedBuffer \<Rightarrow> bool" where
  "SharedBuffer_eq a b \<longleftrightarrow> sb_container a = sb_container b"

text \<open>The sub-buffer constructor with its bounds check.\<close>

definition SharedBuffer_sub :: "size_t \<Rightarrow> size_t \<Rightarrow> SharedBuffer \<Rightarrow> sb_error + SharedBuffer" where
  "SharedBuffer_sub address len buffer =
     (let alias = (if sb_alias buffer \<noteq> 0
                   then sz_add (sb_alias buffer) (sz_sub address (sb_address buffer)) else 0);
          beginInRange = (sb_address buffer \<le> address);
          endInRange = (sz_add address len
                          \<le> sz_add (max (sb_alias buffer) (sb_address buffer)) (sb_length buffer))
      in if \<not> beginInRange \<or> \<not> endInRange then Inl (SharedBufferError ''not a subset'')
         else Inr \<lparr>sb_address = address, sb_length = len, sb_alias = alias,
                   sb_container = sb_container buffer\<rparr>)"

text \<open>The retry loop of \<open>makeCirc\<close>, from attempt \<open>i\<close> on.\<close>

definition numRetries :: nat where [simp]: "numRetries = 7"

function makeCirc_from :: "(nat \<Rightarrow> sb_error + SharedBuffer) \<Rightarrow> nat \<Rightarrow> sb_error + SharedBuffer" where
  "makeCirc_from unprotected i =
     (if i < numRetries then
        (case unprotected i of
           Inr buff \<Rightarrow> Inr (buff\<lparr>sb_alias := sz_add (sb_address buff) (sb_length buff)\<rparr>)
         | Inl ex \<Rightarrow> if i = numRetries - 1 then Inl ex else makeCirc_from unprotected (i + 1))
      else Inl (SharedBufferError ''invalid code path''))"
  by pat_completeness auto
termination
  by (relation "measure (\<lambda>(u, i). numRetries - i)") auto

declare makeCirc_from.simps [simp del]

definition SharedBuffer_makeCirc :: "(nat \<Rightarrow> sb_error + SharedBuffer) \<Rightarrow> sb_error + SharedBuffer" where
  "SharedBuffer_makeCirc unprotected = makeCirc_from unprotected 0"

subsection \<open>Lemmas\<close>

text \<open>A circular buffer as \<open>makeCirc\<close> returns it: the mapping is twice the length
  and lies at least one length below the top of the address space.\<close>

definition circular :: "SharedBuffer \<Rightarrow> bool" where
  "circular b \<longleftrightarrow> 0 < sb_length b \<and> sb_alias b = sb_address b + sb_length b
     \<and> sb_address b + 3 * sb_length b < SIZE_MAX1"

lemma sub_circular:
  assumes "circular b" "address + len < SIZE_MAX1"
  shows "SharedBuffer_sub address len b =
     (if sb_address b \<le> address \<and> address + len \<le> sb_address b + 2 * sb_length b
      then Inr \<lparr>sb_address = address, sb_length = len, sb_alias = address + sb_length b,
                sb_container = sb_container b\<rparr>
      else Inl (SharedBufferError ''not a subset''))"
proof (cases "sb_address b \<le> address \<and> address + len \<le> sb_address b + 2 * sb_length b")
  case True
  have m: "max (sb_alias b) (sb_address b) = sb_address b + sb_length b"
    using assms by (simp add: circular_def)
  have a: "sz_add (sb_alias b) (sz_sub address (sb_address b)) = address + sb_length b"
    using assms True by (auto simp: circular_def sz_simps)
  show ?thesis
    using True assms m a by (auto simp: SharedBuffer_sub_def Let_def circular_def sz_simps)
next
  case False
  then show ?thesis
    using assms by (auto simp: SharedBuffer_sub_def Let_def circular_def sz_simps max_def)
qed

lemma sub_plain:
  assumes "sb_alias b = 0" "address + len < SIZE_MAX1" "sb_address b + sb_length b < SIZE_MAX1"
  shows "SharedBuffer_sub address len b =
     (if sb_address b \<le> address \<and> address + len \<le> sb_address b + sb_length b
      then Inr \<lparr>sb_address = address, sb_length = len, sb_alias = 0, sb_container = sb_container b\<rparr>
      else Inl (SharedBufferError ''not a subset''))"
  using assms by (auto simp: SharedBuffer_sub_def Let_def sz_simps)

lemma makeCirc_from_result:
  assumes "i < numRetries"
  shows "makeCirc_from u i =
     (case find (\<lambda>j. case u j of Inr _ \<Rightarrow> True | Inl _ \<Rightarrow> False) [i..<numRetries] of
        Some j \<Rightarrow> (case u j of Inr b \<Rightarrow> Inr (b\<lparr>sb_alias := SharedBuffer_getEnd b\<rparr>) | Inl e \<Rightarrow> Inl e)
      | None \<Rightarrow> (case u 6 of Inl e \<Rightarrow> Inl e | Inr b \<Rightarrow> Inr b))"
  using assms
proof (induction u i rule: makeCirc_from.induct)
  case (1 u i)
  have "[i..<numRetries] = i # [i + 1..<numRetries]" using 1 by (simp add: upt_rec)
  moreover have "i < 6 \<or> i = 6" using 1 by auto
  ultimately show ?case
    using 1 by (auto simp: makeCirc_from.simps [of u i] SharedBuffer_getEnd_def split: sum.splits)
qed

subsection \<open>Properties\<close>

text \<open>
  Bounds of a sub-buffer. For a request that does not wrap the address space, the constructor
  succeeds exactly when the requested range lies inside the memory of the buffer (the double
  mapping of a circular buffer), throws otherwise, and the sub-buffer of a circular buffer keeps
  the alias offset and the container.
\<close>

theorem sub_buffer_in_bounds:
  assumes "address + len < SIZE_MAX1"
    and "circular b \<or> (sb_alias b = 0 \<and> sb_address b + sb_length b < SIZE_MAX1)"
  defines "memEnd \<equiv> sb_address b + (if circular b then 2 * sb_length b else sb_length b)"
  shows "(\<exists>s. SharedBuffer_sub address len b = Inr s) = (sb_address b \<le> address \<and> address + len \<le> memEnd)
    \<and> (\<forall>s. SharedBuffer_sub address len b = Inr s \<longrightarrow>
         sb_address s = address \<and> sb_length s = len \<and> sb_container s = sb_container b \<and>
         SharedBuffer_getAliasOffset s = SharedBuffer_getAliasOffset b)"
proof (cases "circular b")
  case True
  then have "SharedBuffer_getAliasOffset b = sb_length b"
    by (auto simp: SharedBuffer_getAliasOffset_def circular_def sz_simps)
  moreover have "sz_sub (address + sb_length b) address = sb_length b"
    if "address + len \<le> sb_address b + 2 * sb_length b" "sb_address b \<le> address"
  proof -
    have "address + sb_length b + 2 ^ 64 - address = sb_length b + SIZE_MAX1" by simp
    then show ?thesis using True that assms(1) by (simp add: sz_sub_def circular_def)
  qed
  ultimately show ?thesis
    using True assms(1) unfolding memEnd_def sub_circular [OF True assms(1)]
    by (auto simp: SharedBuffer_getAliasOffset_def circular_def)
next
  case False
  then show ?thesis
    using assms sub_plain [of b address len] by (auto simp: SharedBuffer_getAliasOffset_def)
qed

theorem sub_buffer_in_bounds_witness:
  "\<exists>s. SharedBuffer_sub 4120 32 \<lparr>sb_address = 4096, sb_length = 32, sb_alias = 4128, sb_container = Some 1\<rparr> = Inr s"
  using sub_buffer_in_bounds [of 4120 32 "\<lparr>sb_address = 4096, sb_length = 32, sb_alias = 4128, sb_container = Some 1\<rparr>"]
  by (simp add: circular_def)

text \<open>
  The bounds check overflows: for every plain buffer at a non-zero address there is a length for
  which the sum of address and length wraps, the check passes, and the constructor returns a
  sub-buffer that is longer than the buffer it was taken from.
\<close>

theorem sub_buffer_overflow_accepted:
  assumes "sb_alias b = 0" "0 < sb_address b" "sb_address b + sb_length b < SIZE_MAX1"
  shows "\<exists>s. SharedBuffer_sub (sb_address b) (SIZE_MAX1 - sb_address b) b = Inr s
     \<and> sb_length b < sb_length s"
  using assms by (auto simp: SharedBuffer_sub_def Let_def sz_add_def)

theorem sub_buffer_overflow_accepted_witness:
  "\<exists>s. SharedBuffer_sub 4096 (SIZE_MAX1 - 4096) (SharedBuffer_new 4096 64 (Some 0)) = Inr s \<and> 64 < sb_length s"
  using sub_buffer_overflow_accepted [of "SharedBuffer_new 4096 64 (Some 0)"]
  by (simp add: SharedBuffer_new_def)

text \<open>
  \<open>makeCirc\<close> returns the buffer of the first successful attempt among the seven, with the alias
  set to its end address; when all seven fail it throws the error of the last one.
\<close>

theorem makeCirc_first_success:
  "SharedBuffer_makeCirc u =
     (case find (\<lambda>j. case u j of Inr _ \<Rightarrow> True | Inl _ \<Rightarrow> False) [0..<7] of
        Some j \<Rightarrow> (case u j of Inr b \<Rightarrow> Inr (b\<lparr>sb_alias := SharedBuffer_getEnd b\<rparr>) | Inl e \<Rightarrow> Inl e)
      | None \<Rightarrow> (case u 6 of Inl e \<Rightarrow> Inl e | Inr b \<Rightarrow> Inr b))"
  using makeCirc_from_result [of 0 u] by (simp add: SharedBuffer_makeCirc_def)

end
