(* ===== verification/ManagedBuffer.thy ===== *)
theory ManagedBuffer
  imports SharedBuffer
begin

section \<open>Reference-counted buffers: ManagedBuffer.hpp and lib/Framework/ManagedBuffer.cpp\<close>

text \<open>
  A \<open>ManagedBuffer\<close> is a pointer to an \<open>Impl\<close> object that carries a reference counter, a weak
  pointer to the manager, the memory, a slab index and a non-owning pointer to the next buffer of
  the slab. The \<open>Impl\<close> objects live in an explicit heap (addresses are numbers, \<open>None\<close> is the null
  pointer), so that dereferencing a deleted object is visible: every operation returns \<open>None\<close> then.

  \<^item> \<open>hp_alive\<close> tells which managers still exist, that is, whether \<open>weakManager.lock()\<close> succeeds;
  \<^item> \<open>hp_home\<close> lists the references that managers hold on buffers returned with \<open>pushExternal\<close>
    (the callback of \<open>OutputPort\<close> pushes a copy into the manager's queue).

  The counter is an integer that does not wrap: it would take \<open>2^31\<close> simultaneous references.

  The second half is the accounting invariant (each counter is the number of references, and an
  object exists exactly while it is referenced), its laws as the locale \<open>ref_counting\<close>, the
  interpretation on \<open>Impl_incr\<close> and \<open>Impl_decr\<close>, and the safety theorem for arbitrary sequences of
  operations on \<open>ManagedBuffer\<close> variables.
\<close>

record Impl =
  im_counter :: int
  im_weakManager :: "nat option"
  im_buffer :: SharedBuffer
  im_slabIndex :: size_t
  im_nextBuffer :: "nat option"

record Heap =
  hp_impl :: "nat \<Rightarrow> Impl option"
  hp_fresh :: nat
  hp_alive :: "nat \<Rightarrow> bool"
  hp_home :: "(nat \<times> nat) list"

definition Impl_new :: Impl where
  "Impl_new = \<lparr>im_counter = 1, im_weakManager = None, im_buffer = SharedBuffer_null,
               im_slabIndex = 0, im_nextBuffer = None\<rparr>"

text \<open>\<open>new Impl()\<close>, a write to an existing object, and \<open>delete\<close>.\<close>

definition heap_new :: "Heap \<Rightarrow> nat \<times> Heap" where
  "heap_new h = (hp_fresh h, h\<lparr>hp_impl := (hp_impl h)(hp_fresh h \<mapsto> Impl_new), hp_fresh := Suc (hp_fresh h)\<rparr>)"

definition heap_modify :: "nat \<Rightarrow> (Impl \<Rightarrow> Impl) \<Rightarrow> Heap \<Rightarrow> Heap option" where
  "heap_modify p f h =
     (case hp_impl h p of None \<Rightarrow> None | Some im \<Rightarrow> Some (h\<lparr>hp_impl := (hp_impl h)(p \<mapsto> f im)\<rparr>))"

definition heap_delete :: "nat \<Rightarrow> Heap \<Rightarrow> Heap" where
  "heap_delete p h = h\<lparr>hp_impl := (hp_impl h)(p := None)\<rparr>"

definition Impl_incr :: "nat \<Rightarrow> Heap \<Rightarrow> Heap option" where
  "Impl_incr p = heap_modify p (\<lambda>im. im\<lparr>im_counter := im_counter im + 1\<rparr>)"

text \<open>\<open>pushExternal\<close>: the receiver copies the temporary handle that \<open>cleanup\<close> passes.\<close>

definition pushExternal :: "nat \<Rightarrow> nat \<Rightarrow> Heap \<Rightarrow> Heap option" where
  "pushExternal m p h = do {
     h \<leftarrow> Impl_incr p h;
     Some (h\<lparr>hp_home := hp_home h @ [(m, p)]\<rparr>) }"

definition weak_lock :: "Heap \<Rightarrow> Impl \<Rightarrow> nat option" where
  "weak_lock h im = (case im_weakManager im of None \<Rightarrow> None | Some m \<Rightarrow> if hp_alive h m then Some m else None)"

definition Impl_cleanup :: "nat \<Rightarrow> Heap \<Rightarrow> Heap option" where
  "Impl_cleanup p h =
     (case hp_impl h p of
        None \<Rightarrow> None
      | Some im \<Rightarrow> (case weak_lock h im of
                    Some m \<Rightarrow> pushExternal m p h
                  | None \<Rightarrow> Some (heap_delete p h)))"

definition Impl_decr :: "nat \<Rightarrow> Heap \<Rightarrow> Heap option" where
  "Impl_decr p h =
     (case hp_impl h p of
        None \<Rightarrow> None
      | Some im \<Rightarrow> do {
          h \<leftarrow> heap_modify p (\<lambda>im. im\<lparr>im_counter := im_counter im - 1\<rparr>) h;
          if im_counter im = 1 then Impl_cleanup p h else Some h })"

subsection \<open>The ManagedBuffer class\<close>

type_synonym ManagedBuffer = "nat option"

definition ManagedBuffer_null :: ManagedBuffer where
  "ManagedBuffer_null = None"

definition ManagedBuffer_new :: "SharedBuffer \<Rightarrow> Heap \<Rightarrow> (ManagedBuffer \<times> Heap) option" where
  "ManagedBuffer_new buff h = do {
     let (p, h) = heap_new h;
     h \<leftarrow> heap_modify p (\<lambda>im. im\<lparr>im_buffer := buff\<rparr>) h;
     Some (Some p, h) }"

definition ManagedBuffer_from_impl :: "nat option \<Rightarrow> Heap \<Rightarrow> (ManagedBuffer \<times> Heap) option" where
  "ManagedBuffer_from_impl impl h =
     (case impl of None \<Rightarrow> Some (None, h) | Some p \<Rightarrow> do { h \<leftarrow> Impl_incr p h; Some (Some p, h) })"

definition ManagedBuffer_delete :: "ManagedBuffer \<Rightarrow> Heap \<Rightarrow> Heap option" where
  "ManagedBuffer_delete mb h = (case mb of None \<Rightarrow> Some h | Some p \<Rightarrow> Impl_decr p h)"

definition ManagedBuffer_reset :: "ManagedBuffer \<Rightarrow> Heap \<Rightarrow> (ManagedBuffer \<times> Heap) option" where
  "ManagedBuffer_reset mb h = do { h \<leftarrow> ManagedBuffer_delete mb h; Some (None, h) }"

definition ManagedBuffer_reset_manager ::
  "ManagedBuffer \<Rightarrow> nat \<Rightarrow> SharedBuffer \<Rightarrow> size_t \<Rightarrow> Heap \<Rightarrow> (ManagedBuffer \<times> Heap) option" where
  "ManagedBuffer_reset_manager mb manager buff slabIndex h = do {
     let (p, h) = (case mb of None \<Rightarrow> heap_new h | Some p \<Rightarrow> (p, h));
     h \<leftarrow> heap_modify p (\<lambda>im. im\<lparr>im_buffer := buff, im_slabIndex := slabIndex,
                                im_weakManager := Some manager\<rparr>) h;
     Some (Some p, h) }"

definition ManagedBuffer_copy :: "ManagedBuffer \<Rightarrow> Heap \<Rightarrow> (ManagedBuffer \<times> Heap) option" where
  "ManagedBuffer_copy obj h = ManagedBuffer_from_impl obj h"

text \<open>The move constructor and the move assignment return the new values of both handles.\<close>

definition ManagedBuffer_move :: "ManagedBuffer \<Rightarrow> ManagedBuffer \<times> ManagedBuffer" where
  "ManagedBuffer_move obj = (obj, None)"

text \<open>
  The assignments work on variables, so that assigning a variable to itself is covered: \<open>xs\<close> is the
  list of all handle variables, \<open>i\<close> the index of \<open>*this\<close> and \<open>j\<close> the index of \<open>obj\<close>.
\<close>

definition ManagedBuffer_assign ::
  "nat \<Rightarrow> nat \<Rightarrow> ManagedBuffer list \<times> Heap \<Rightarrow> (ManagedBuffer list \<times> Heap) option" where
  "ManagedBuffer_assign i j = (\<lambda>(xs, h). do {
     h \<leftarrow> ManagedBuffer_delete (xs ! i) h;
     let xs = xs[i := xs ! j];
     h \<leftarrow> (case xs ! i of None \<Rightarrow> Some h | Some p \<Rightarrow> Impl_incr p h);
     Some (xs, h) })"

definition ManagedBuffer_move_assign ::
  "nat \<Rightarrow> nat \<Rightarrow> ManagedBuffer list \<times> Heap \<Rightarrow> (ManagedBuffer list \<times> Heap) option" where
  "ManagedBuffer_move_assign i j = (\<lambda>(xs, h). do {
     h \<leftarrow> ManagedBuffer_delete (xs ! i) h;
     let xs = xs[i := xs ! j];
     let xs = xs[j := None];
     Some (xs, h) })"

definition ManagedBuffer_setNextBuffer :: "ManagedBuffer \<Rightarrow> ManagedBuffer \<Rightarrow> Heap \<Rightarrow> Heap option" where
  "ManagedBuffer_setNextBuffer mb next h =
     (case mb of None \<Rightarrow> None | Some p \<Rightarrow> heap_modify p (\<lambda>im. im\<lparr>im_nextBuffer := next\<rparr>) h)"

definition ManagedBuffer_getNextBuffer :: "ManagedBuffer \<Rightarrow> Heap \<Rightarrow> (ManagedBuffer \<times> Heap) option" where
  "ManagedBuffer_getNextBuffer mb h = do {
     p \<leftarrow> mb;
     im \<leftarrow> hp_impl h p;
     ManagedBuffer_from_impl (im_nextBuffer im) h }"

definition ManagedBuffer_getBuffer :: "ManagedBuffer \<Rightarrow> Heap \<Rightarrow> SharedBuffer option" where
  "ManagedBuffer_getBuffer mb h =
     (case mb of None \<Rightarrow> Some SharedBuffer_null | Some p \<Rightarrow> map_option im_buffer (hp_impl h p))"

definition ManagedBuffer_getSlabIndex :: "ManagedBuffer \<Rightarrow> Heap \<Rightarrow> size_t option" where
  "ManagedBuffer_getSlabIndex mb h = do { p \<leftarrow> mb; map_option im_slabIndex (hp_impl h p) }"

definition ManagedBuffer_getBufferManager :: "ManagedBuffer \<Rightarrow> Heap \<Rightarrow> nat option option" where
  "ManagedBuffer_getBufferManager mb h = do { p \<leftarrow> mb; map_option (weak_lock h) (hp_impl h p) }"

definition ManagedBuffer_useCount :: "ManagedBuffer \<Rightarrow> Heap \<Rightarrow> size_t option" where
  "ManagedBuffer_useCount mb h =
     (case mb of None \<Rightarrow> Some 0 | Some p \<Rightarrow> map_option (\<lambda>im. nat (im_counter im)) (hp_impl h p))"

definition ManagedBuffer_unique :: "ManagedBuffer \<Rightarrow> Heap \<Rightarrow> bool option" where
  "ManagedBuffer_unique mb h =
     (case mb of None \<Rightarrow> Some False | Some p \<Rightarrow> map_option (\<lambda>im. im_counter im = 1) (hp_impl h p))"

subsection \<open>Accounting\<close>

definition home_count :: "Heap \<Rightarrow> nat \<Rightarrow> nat" where
  "home_count h p = length (filter (\<lambda>x. snd x = p) (hp_home h))"

lemma home_count_upd [simp]:
  "home_count (h\<lparr>hp_impl := f\<rparr>) = home_count h" "home_count (h\<lparr>hp_fresh := n\<rparr>) = home_count h"
  by (simp_all add: home_count_def fun_eq_iff)

text \<open>\<open>held p\<close> references are outside the managers; the managers hold \<open>home_count h p\<close> more.\<close>

definition accounts :: "Heap \<Rightarrow> (nat \<Rightarrow> nat) \<Rightarrow> bool" where
  "accounts h held \<longleftrightarrow>
     (\<forall>p. hp_fresh h \<le> p \<longrightarrow> hp_impl h p = None)
     \<and> (\<forall>p. hp_impl h p = None \<longrightarrow> held p + home_count h p = 0)
     \<and> (\<forall>p im. hp_impl h p = Some im \<longrightarrow>
          im_counter im = int (held p + home_count h p) \<and> 0 < held p + home_count h p)"

text \<open>What an object holds besides its counter, and whether it exists.\<close>

definition impl_shape :: "Heap \<Rightarrow> nat \<Rightarrow> Impl option" where
  "impl_shape h p = map_option (\<lambda>im. im\<lparr>im_counter := 0\<rparr>) (hp_impl h p)"

abbreviation exists_impl :: "Heap \<Rightarrow> nat \<Rightarrow> bool" where
  "exists_impl h p \<equiv> impl_shape h p \<noteq> None"

lemma impl_shape_upd [simp]:
  "impl_shape (h\<lparr>hp_home := x\<rparr>) = impl_shape h"
  "impl_shape (h\<lparr>hp_fresh := n\<rparr>) = impl_shape h"
  "impl_shape (h\<lparr>hp_impl := (hp_impl h)(p := None)\<rparr>) = (impl_shape h)(p := None)"
  "impl_shape (h\<lparr>hp_impl := (hp_impl h)(p \<mapsto> im)\<rparr>) = (impl_shape h)(p \<mapsto> im\<lparr>im_counter := 0\<rparr>)"
  by (auto simp: impl_shape_def)

lemma exists_implD:
  assumes "impl_shape h p \<noteq> None"
  obtains im where "hp_impl h p = Some im" "impl_shape h p = Some (im\<lparr>im_counter := 0\<rparr>)"
  using assms by (auto simp: impl_shape_def)

lemma accountsD:
  assumes "accounts h held"
  shows "hp_impl h p = Some im \<Longrightarrow> im_counter im = int (held p + home_count h p)"
    and "0 < held p + home_count h p \<longleftrightarrow> exists_impl h p"
    and "hp_fresh h \<le> p \<Longrightarrow> hp_impl h p = None"
  using assms unfolding accounts_def impl_shape_def by (metis, metis not_None_eq less_irrefl option.map_disc_iff, metis)

lemma accounts_held: "accounts h held \<Longrightarrow> 0 < held p \<Longrightarrow> exists_impl h p"
  using accountsD(2) by (metis add_gr_0)

lemma accounts_modify:
  assumes "accounts h held" "exists_impl h p"
    and "\<And>im. im_counter (f im) = im_counter im + int n"
  shows "\<exists>h' im. heap_modify p f h = Some h' \<and> accounts h' (held(p := held p + n))
    \<and> hp_impl h p = Some im \<and> impl_shape h' = (impl_shape h)(p \<mapsto> (f im)\<lparr>im_counter := 0\<rparr>)
    \<and> hp_home h' = hp_home h \<and> hp_alive h' = hp_alive h"
proof -
  from assms(2) obtain im where im: "hp_impl h p = Some im" by (rule exists_implD)
  have pos: "held p = 0 \<Longrightarrow> home_count h p = 0 \<Longrightarrow> False"
    using accountsD(2) [OF assms(1), of p] assms(2) by simp
  have "accounts (h\<lparr>hp_impl := (hp_impl h)(p \<mapsto> f im)\<rparr>) (held(p := held p + n))"
    using assms(1,3) im unfolding accounts_def by (auto dest: pos)
  then show ?thesis using im by (auto simp: heap_modify_def)
qed

lemma accounts_incr:
  assumes "accounts h held" "exists_impl h p"
  shows "\<exists>h'. Impl_incr p h = Some h' \<and> accounts h' (held(p := Suc (held p)))
    \<and> impl_shape h' = impl_shape h \<and> hp_home h' = hp_home h \<and> hp_alive h' = hp_alive h"
proof -
  obtain h' im where h': "Impl_incr p h = Some h'" "accounts h' (held(p := held p + 1))"
    "hp_impl h p = Some im" "impl_shape h' = (impl_shape h)(p \<mapsto> im\<lparr>im_counter := 0\<rparr>)"
    "hp_home h' = hp_home h" "hp_alive h' = hp_alive h"
    using accounts_modify [OF assms, of "\<lambda>im. im\<lparr>im_counter := im_counter im + 1\<rparr>" 1]
    by (auto simp: Impl_incr_def)
  moreover have "impl_shape h' = impl_shape h"
    using h'(3,4) by (auto simp: impl_shape_def fun_eq_iff)
  ultimately show ?thesis by simp
qed

lemma accounts_decr:
  assumes "accounts h held" "0 < held p"
  shows "\<exists>h'. Impl_decr p h = Some h' \<and> accounts h' (held(p := held p - 1))
    \<and> (\<forall>q. impl_shape h' q = impl_shape h q \<or> q = p \<and> impl_shape h' q = None)
    \<and> hp_alive h' = hp_alive h"
proof -
  obtain im where im: "hp_impl h p = Some im" "impl_shape h p = Some (im\<lparr>im_counter := 0\<rparr>)"
    using accounts_held [OF assms] by (rule exists_implD)
  note c = accountsD(1) [OF assms(1) im(1)]
  have wl: "weak_lock (h\<lparr>hp_impl := f\<rparr>) (im\<lparr>im_counter := x\<rparr>) = weak_lock h im" for f x
    by (simp add: weak_lock_def cong: option.case_cong)
  show ?thesis
  proof (cases "held p + home_count h p = 1")
    case False
    have "accounts (h\<lparr>hp_impl := (hp_impl h)(p \<mapsto> im\<lparr>im_counter := im_counter im - 1\<rparr>)\<rparr>) (held(p := held p - 1))"
      using assms c im False unfolding accounts_def home_count_def by auto
    then show ?thesis
      using im c False assms(2) by (auto simp: Impl_decr_def heap_modify_def)
  next
    case True
    then have one: "im_counter im = 1" "held p = 1" "home_count h p = 0" using c assms(2) by auto
    show ?thesis
    proof (cases "weak_lock h im")
      case None
      have "accounts (h\<lparr>hp_impl := (hp_impl h)(p := None)\<rparr>) (held(p := held p - 1))"
        using assms im one unfolding accounts_def home_count_def by auto
      then show ?thesis
        using im one None by (auto simp: Impl_decr_def heap_modify_def Impl_cleanup_def heap_delete_def wl)
    next
      case (Some m)
      have "accounts (h\<lparr>hp_impl := (hp_impl h)(p \<mapsto> im\<lparr>im_counter := 1\<rparr>), hp_home := hp_home h @ [(m, p)]\<rparr>)
              (held(p := held p - 1))"
        using assms im one unfolding accounts_def home_count_def by auto
      then show ?thesis
        using im one Some by (auto simp: Impl_decr_def heap_modify_def Impl_cleanup_def pushExternal_def
            Impl_incr_def wl)
    qed
  qed
qed

lemma accounts_new:
  assumes "accounts h held" "heap_new h = (p, h')"
  shows "accounts h' (held(p := Suc (held p)))" "exists_impl h' p" "held p = 0"
    "hp_home h' = hp_home h" "impl_shape h' = (impl_shape h)(p \<mapsto> Impl_new\<lparr>im_counter := 0\<rparr>)"
proof -
  have p: "p = hp_fresh h" "h' = h\<lparr>hp_impl := (hp_impl h)(p \<mapsto> Impl_new), hp_fresh := Suc p\<rparr>"
    using assms(2) by (auto simp: heap_new_def)
  have n: "hp_impl h p = None" using assms p by (auto simp: accounts_def)
  then have z: "held p + home_count h p = 0" using assms by (auto simp: accounts_def)
  then show "accounts h' (held(p := Suc (held p)))"
    using assms(1) n p unfolding accounts_def home_count_def Impl_new_def by auto
  show "exists_impl h' p" "held p = 0" "hp_home h' = hp_home h"
    "impl_shape h' = (impl_shape h)(p \<mapsto> Impl_new\<lparr>im_counter := 0\<rparr>)"
    using z p by simp_all
qed

subsection \<open>The contract a client of the counters relies on\<close>

locale ref_counting =
  fixes acc :: "'h \<Rightarrow> (nat \<Rightarrow> nat) \<Rightarrow> bool"
    and shape :: "'h \<Rightarrow> nat \<Rightarrow> 'i option"
    and incr :: "nat \<Rightarrow> 'h \<Rightarrow> 'h option"
    and decr :: "nat \<Rightarrow> 'h \<Rightarrow> 'h option"
  assumes held_exists: "acc h held \<Longrightarrow> 0 < held p \<Longrightarrow> shape h p \<noteq> None"
    and incr_law: "acc h held \<Longrightarrow> shape h p \<noteq> None \<Longrightarrow>
      \<exists>h'. incr p h = Some h' \<and> acc h' (held(p := Suc (held p))) \<and> shape h' = shape h"
    and decr_law: "acc h held \<Longrightarrow> 0 < held p \<Longrightarrow>
      \<exists>h'. decr p h = Some h' \<and> acc h' (held(p := held p - 1))
         \<and> (\<forall>q. shape h' q = shape h q \<or> q = p \<and> shape h' q = None)"
begin

lemma incr_all:
  assumes "acc h held" "\<forall>p \<in> set ps. shape h p \<noteq> None"
  shows "\<exists>h'. fold_opt incr ps h = Some h' \<and> acc h' (\<lambda>p. held p + count_list ps p) \<and> shape h' = shape h"
  using assms
proof (induction ps arbitrary: h held)
  case (Cons p ps)
  obtain h1 where h1: "incr p h = Some h1" "acc h1 (held(p := Suc (held p)))" "shape h1 = shape h"
    using incr_law [OF Cons.prems(1), of p] Cons.prems(2) by auto
  obtain h2 where h2: "fold_opt incr ps h1 = Some h2"
    "acc h2 (\<lambda>q. (held(p := Suc (held p))) q + count_list ps q)" "shape h2 = shape h1"
    using Cons.IH [OF h1(2)] Cons.prems(2) h1(3) by auto
  have "(\<lambda>q. (held(p := Suc (held p))) q + count_list ps q) = (\<lambda>q. held q + count_list (p # ps) q)"
    by auto
  then show ?case using h1 h2 by auto
qed simp

lemma decr_all:
  assumes "acc h held" "\<And>p. count_list ps p \<le> held p"
  shows "\<exists>h'. fold_opt decr ps h = Some h' \<and> acc h' (\<lambda>p. held p - count_list ps p)
    \<and> (\<forall>q. shape h' q = shape h q \<or> shape h' q = None)"
  using assms
proof (induction ps arbitrary: h held)
  case (Cons p ps)
  have "0 < held p" using Cons.prems(2) [of p] by simp
  then obtain h1 where h1: "decr p h = Some h1" "acc h1 (held(p := held p - 1))"
    "\<forall>q. shape h1 q = shape h q \<or> q = p \<and> shape h1 q = None"
    using decr_law [OF Cons.prems(1), of p] by auto
  have "count_list ps q \<le> (held(p := held p - 1)) q" for q
    using Cons.prems(2) [of q] by (auto split: if_splits)
  then obtain h2 where h2: "fold_opt decr ps h1 = Some h2"
    "acc h2 (\<lambda>q. (held(p := held p - 1)) q - count_list ps q)"
    "\<forall>q. shape h2 q = shape h1 q \<or> shape h2 q = None"
    using Cons.IH [OF h1(2)] by auto
  have "(\<lambda>q. (held(p := held p - 1)) q - count_list ps q) = (\<lambda>q. held q - count_list (p # ps) q)"
    by auto
  moreover have "shape h2 q = shape h q \<or> shape h2 q = None" for q
    using h1(3) h2(3) by metis
  ultimately show ?case using h1 h2 by auto
qed simp

lemma decr_all_keeps:
  assumes "acc h held" "\<And>p. count_list ps p \<le> held p" "fold_opt decr ps h = Some h'"
    and "count_list ps q < held q"
  shows "shape h' q = shape h q"
proof -
  have "acc h' (\<lambda>p. held p - count_list ps p)" "shape h' q = shape h q \<or> shape h' q = None"
    using decr_all [OF assms(1,2)] assms(3) by auto
  then show ?thesis using held_exists [of h' "\<lambda>p. held p - count_list ps p" q] assms(4) by auto
qed

lemma incr_decr_all:
  assumes "acc h held" "\<forall>p \<in> set ps. shape h p \<noteq> None" "fold_opt incr ps h = Some h1"
  shows "\<exists>h2. fold_opt decr ps h1 = Some h2 \<and> acc h2 held"
proof -
  have "acc h1 (\<lambda>p. held p + count_list ps p)" using incr_all [OF assms(1,2)] assms(3) by auto
  from decr_all [OF this, of ps] show ?thesis by auto
qed

end

interpretation rc: ref_counting accounts impl_shape Impl_incr Impl_decr
proof
  fix h held p
  assume a: "accounts h held"
  show "0 < held p \<Longrightarrow> impl_shape h p \<noteq> None" by (rule accounts_held [OF a])
  show "impl_shape h p \<noteq> None \<Longrightarrow> \<exists>h'. Impl_incr p h = Some h' \<and> accounts h' (held(p := Suc (held p))) \<and> impl_shape h' = impl_shape h"
    using accounts_incr [OF a] by blast
  show "0 < held p \<Longrightarrow> \<exists>h'. Impl_decr p h = Some h' \<and> accounts h' (held(p := held p - 1))
      \<and> (\<forall>q. impl_shape h' q = impl_shape h q \<or> q = p \<and> impl_shape h' q = None)"
    using accounts_decr [OF a] by blast
qed

subsection \<open>Programs over ManagedBuffer variables\<close>

text \<open>
  One step per member function. A constructor call initialises variable \<open>i\<close> through a temporary
  that is moved into it. \<open>MbTake\<close> is a manager handing out a buffer that came home to it, when
  there is one, and \<open>MbGone\<close> the destruction of a manager.
\<close>

datatype mb_op =
    MbNew nat SharedBuffer
  | MbReset nat
  | MbResetManager nat nat SharedBuffer size_t
  | MbCopy nat nat
  | MbAssign nat nat
  | MbMove nat nat
  | MbSetNext nat nat
  | MbGetNext nat nat
  | MbTake nat nat
  | MbGone nat

type_synonym mb_state = "ManagedBuffer list \<times> Heap"

definition mb_store :: "nat \<Rightarrow> ManagedBuffer list \<Rightarrow> ManagedBuffer \<times> Heap \<Rightarrow> mb_state option" where
  "mb_store i xs = (\<lambda>(mb, h). do { h \<leftarrow> ManagedBuffer_delete (xs ! i) h; Some (xs[i := mb], h) })"

fun mb_step :: "mb_op \<Rightarrow> mb_state \<Rightarrow> mb_state option" where
  "mb_step (MbNew i buff) (xs, h) = do { r \<leftarrow> ManagedBuffer_new buff h; mb_store i xs r }"
| "mb_step (MbReset i) (xs, h) = do { (mb, h) \<leftarrow> ManagedBuffer_reset (xs ! i) h; Some (xs[i := mb], h) }"
| "mb_step (MbResetManager i m buff k) (xs, h) =
     do { (mb, h) \<leftarrow> ManagedBuffer_reset_manager (xs ! i) m buff k h; Some (xs[i := mb], h) }"
| "mb_step (MbCopy i j) (xs, h) = do { r \<leftarrow> ManagedBuffer_copy (xs ! j) h; mb_store i xs r }"
| "mb_step (MbAssign i j) (xs, h) = ManagedBuffer_assign i j (xs, h)"
| "mb_step (MbMove i j) (xs, h) = ManagedBuffer_move_assign i j (xs, h)"
| "mb_step (MbSetNext i j) (xs, h) =
     do { h \<leftarrow> ManagedBuffer_setNextBuffer (xs ! i) (xs ! j) h; Some (xs, h) }"
| "mb_step (MbGetNext i j) (xs, h) = do { r \<leftarrow> ManagedBuffer_getNextBuffer (xs ! j) h; mb_store i xs r }"
| "mb_step (MbTake i n) (xs, h) =
     (if n < length (hp_home h)
      then mb_store i xs (Some (snd (hp_home h ! n)), h\<lparr>hp_home := take n (hp_home h) @ drop (Suc n) (hp_home h)\<rparr>)
      else Some (xs, h))"
| "mb_step (MbGone m) (xs, h) = Some (xs, h\<lparr>hp_alive := (hp_alive h)(m := False)\<rparr>)"

text \<open>
  The variables of an operation, and the calls that are undefined: \<open>setNextBuffer\<close> and \<open>getNextBuffer\<close>
  on a null handle (an assertion in the code), \<open>getNextBuffer\<close> when the (non-owning) next pointer dangles,
  and the assignment to itself of a variable with the last reference to a buffer without a living manager.
\<close>

fun mb_vars :: "mb_op \<Rightarrow> nat set" where
  "mb_vars (MbNew i buff) = {i}"
| "mb_vars (MbReset i) = {i}"
| "mb_vars (MbResetManager i m buff k) = {i}"
| "mb_vars (MbCopy i j) = {i, j}"
| "mb_vars (MbAssign i j) = {i, j}"
| "mb_vars (MbMove i j) = {i, j}"
| "mb_vars (MbSetNext i j) = {i, j}"
| "mb_vars (MbGetNext i j) = {i, j}"
| "mb_vars (MbTake i n) = {i}"
| "mb_vars (MbGone m) = {}"

definition mb_last_orphan :: "ManagedBuffer \<Rightarrow> Heap \<Rightarrow> bool" where
  "mb_last_orphan mb h =
     (case mb of None \<Rightarrow> False
      | Some p \<Rightarrow> (case hp_impl h p of None \<Rightarrow> True
                   | Some im \<Rightarrow> im_counter im = 1 \<and> weak_lock h im = None))"

definition mb_next_ok :: "ManagedBuffer \<Rightarrow> Heap \<Rightarrow> bool" where
  "mb_next_ok mb h =
     (case mb of None \<Rightarrow> False
      | Some p \<Rightarrow> (case hp_impl h p of None \<Rightarrow> False
                   | Some im \<Rightarrow> (case im_nextBuffer im of None \<Rightarrow> True | Some q \<Rightarrow> hp_impl h q \<noteq> None)))"

fun mb_faults :: "mb_op \<Rightarrow> mb_state \<Rightarrow> bool" where
  "mb_faults (MbAssign i j) (xs, h) \<longleftrightarrow> i = j \<and> mb_last_orphan (xs ! i) h"
| "mb_faults (MbSetNext i j) (xs, h) \<longleftrightarrow> xs ! i = None"
| "mb_faults (MbGetNext i j) (xs, h) \<longleftrightarrow> \<not> mb_next_ok (xs ! j) h"
| "mb_faults _ _ \<longleftrightarrow> False"

fun mb_run :: "mb_op list \<Rightarrow> mb_state \<Rightarrow> mb_state option" where
  "mb_run [] st = Some st"
| "mb_run (x # xs) st = do { st \<leftarrow> mb_step x st; mb_run xs st }"

abbreviation held :: "ManagedBuffer list \<Rightarrow> nat \<Rightarrow> nat" where
  "held xs \<equiv> \<lambda>p. count_list xs (Some p)"

definition mb_inv :: "mb_state \<Rightarrow> bool" where
  "mb_inv = (\<lambda>(xs, h). accounts h (held xs))"

lemma accounts_cong: "accounts h f \<Longrightarrow> (\<And>p. f p = g p) \<Longrightarrow> accounts h g"
  by (metis ext)

lemma mb_delete_ok:
  assumes "accounts h f" "\<And>p. mb = Some p \<Longrightarrow> 0 < f p"
  shows "\<exists>h'. ManagedBuffer_delete mb h = Some h' \<and> accounts h' (\<lambda>p. f p - (if mb = Some p then 1 else 0))
    \<and> (\<forall>q. impl_shape h' q = impl_shape h q \<or> mb = Some q \<and> impl_shape h' q = None)"
proof (cases mb)
  case (Some p)
  then show ?thesis
    using accounts_decr [OF assms(1), of p] assms(2) [of p]
    by (auto simp: ManagedBuffer_delete_def elim!: accounts_cong)
qed (use assms in \<open>simp add: ManagedBuffer_delete_def\<close>)

lemma mb_from_impl_ok:
  assumes "accounts h f" "\<And>p. impl = Some p \<Longrightarrow> exists_impl h p"
  shows "\<exists>h'. ManagedBuffer_from_impl impl h = Some (impl, h') \<and>
    accounts h' (\<lambda>p. f p + (if impl = Some p then 1 else 0)) \<and> impl_shape h' = impl_shape h"
proof (cases impl)
  case (Some p)
  then show ?thesis
    using accounts_incr [OF assms(1), of p] assms(2) [of p]
    by (auto simp: ManagedBuffer_from_impl_def elim!: accounts_cong)
qed (use assms in \<open>simp add: ManagedBuffer_from_impl_def\<close>)

lemma mb_store_ok:
  assumes "accounts h (\<lambda>p. held xs p + (if mb = Some p then 1 else 0))" "i < length xs"
  shows "\<exists>h'. mb_store i xs (mb, h) = Some (xs[i := mb], h') \<and> mb_inv (xs[i := mb], h')"
proof -
  have "xs ! i = Some p \<Longrightarrow> 0 < held xs p" for p
    using count_list_nth_pos [OF assms(2)] by simp
  then show ?thesis
    using mb_delete_ok [OF assms(1), of "xs ! i"] assms(2)
    by (auto simp: mb_store_def mb_inv_def count_list_update elim!: accounts_cong)
qed

lemma held_exists_nth: "accounts h (held xs) \<Longrightarrow> i < length xs \<Longrightarrow> xs ! i = Some p \<Longrightarrow> exists_impl h p"
  using accounts_held count_list_nth_pos by metis

lemma mb_new_ok:
  assumes "accounts h f"
  shows "\<exists>p h'. ManagedBuffer_new buff h = Some (Some p, h') \<and> accounts h' (f(p := Suc (f p)))"
proof -
  obtain p h1 where p: "heap_new h = (p, h1)" by fastforce
  note n = accounts_new [OF assms p]
  show ?thesis
    using accounts_modify [OF n(1,2), of "\<lambda>im. im\<lparr>im_buffer := buff\<rparr>" 0] p
    by (auto simp: ManagedBuffer_new_def)
qed

lemma mb_reset_manager_ok:
  assumes "accounts h (held xs)" "i < length xs"
  shows "\<exists>mb h'. ManagedBuffer_reset_manager (xs ! i) m buff k h = Some (mb, h') \<and> mb_inv (xs[i := mb], h')"
proof (cases "xs ! i")
  case None
  obtain p h1 where p: "heap_new h = (p, h1)" by fastforce
  note n = accounts_new [OF assms(1) p]
  have e: "(\<lambda>q. held (xs[i := Some p]) q) = (\<lambda>q. held xs q)(p := Suc (held xs p))"
    using assms(2) None by (auto simp: count_list_update fun_eq_iff)
  show ?thesis
    using accounts_modify [OF n(1,2), of "\<lambda>im. im\<lparr>im_buffer := buff, im_slabIndex := k, im_weakManager := Some m\<rparr>" 0]
      p None by (auto simp: ManagedBuffer_reset_manager_def mb_inv_def e)
next
  case (Some p)
  have e: "xs[i := Some p] = xs" using Some by (metis list_update_id)
  show ?thesis
    using accounts_modify [OF assms(1) held_exists_nth [OF assms Some],
        of "\<lambda>im. im\<lparr>im_buffer := buff, im_slabIndex := k, im_weakManager := Some m\<rparr>" 0]
      Some by (auto simp: ManagedBuffer_reset_manager_def mb_inv_def e elim!: accounts_cong)
qed

lemma mb_assign_ok:
  assumes "accounts h (held xs)" "i < length xs" "j < length xs" "i = j \<longrightarrow> \<not> mb_last_orphan (xs ! i) h"
  shows "\<exists>h'. ManagedBuffer_assign i j (xs, h) = Some (xs[i := xs ! j], h') \<and> mb_inv (xs[i := xs ! j], h')"
proof -
  have pos: "xs ! i = Some p \<Longrightarrow> 0 < held xs p" for p
    using count_list_nth_pos [OF assms(2)] by simp
  then obtain h1 where h1: "ManagedBuffer_delete (xs ! i) h = Some h1"
    "accounts h1 (\<lambda>p. held xs p - (if xs ! i = Some p then 1 else 0))"
    using mb_delete_ok [OF assms(1), of "xs ! i"] by auto
  have ex: "exists_impl h1 q" if q: "xs ! j = Some q" for q
  proof (cases "i = j")
    case True
    then obtain im where im: "hp_impl h q = Some im" "im_counter im \<noteq> 1 \<or> weak_lock h im \<noteq> None"
      using assms(4) q by (auto simp: mb_last_orphan_def split: option.splits)
    then show ?thesis using h1(1) q True
      by (fastforce simp: ManagedBuffer_delete_def Impl_decr_def heap_modify_def Impl_cleanup_def weak_lock_def
          pushExternal_def Impl_incr_def impl_shape_def split: if_splits option.splits)
  next
    case False
    have "0 < held (xs[i := None]) q"
      using False q assms(3) by (metis count_list_nth_pos length_list_update nth_list_update_neq)
    then have "0 < held xs q - (if xs ! i = Some q then 1 else 0)"
      using assms(2) by (simp add: count_list_update)
    then show ?thesis using accounts_held [OF h1(2)] by blast
  qed
  have cnt: "held xs p - (if xs ! i = Some p then 1 else 0) + (if xs ! j = Some p then 1 else 0)
      = held (xs[i := xs ! j]) p" for p
    using pos [of p] assms(2) by (auto simp: count_list_update)
  from mb_from_impl_ok [OF h1(2), of "xs ! j"] ex
  show ?thesis
    using h1 assms(2) unfolding cnt by (auto simp: ManagedBuffer_assign_def mb_inv_def ManagedBuffer_from_impl_def
        Let_def split: option.splits bind_splits)
qed

lemma mb_move_ok:
  assumes "accounts h (held xs)" "i < length xs" "j < length xs"
  shows "\<exists>st'. ManagedBuffer_move_assign i j (xs, h) = Some st' \<and> mb_inv st' \<and> length (fst st') = length xs"
proof -
  have pos: "k < length xs \<Longrightarrow> xs ! k = Some p \<Longrightarrow> 0 < held xs p" for k p
    using count_list_nth_pos [of k xs] by simp
  then obtain h1 where h1: "ManagedBuffer_delete (xs ! i) h = Some h1"
    "accounts h1 (\<lambda>p. held xs p - (if xs ! i = Some p then 1 else 0))"
    using mb_delete_ok [OF assms(1), of "xs ! i"] assms(2) by auto
  have "held (xs[i := xs ! j, j := None]) p = held xs p - (if xs ! i = Some p then 1 else 0)" for p
    using assms(2,3) pos [OF assms(3), of p] by (cases "i = j") (auto simp: count_list_update nth_list_update)
  then show ?thesis
    using h1 by (auto simp: ManagedBuffer_move_assign_def mb_inv_def Let_def elim!: accounts_cong)
qed

lemma accounts_shift:
  assumes "accounts h f" "hp_impl h' = hp_impl h" "hp_fresh h' = hp_fresh h"
    and "\<And>p. g p + home_count h' p = f p + home_count h p"
  shows "accounts h' g"
  using assms unfolding accounts_def by (simp del: add_gr_0 add_is_0 of_nat_add)

lemma mb_take_ok:
  assumes "accounts h (held xs)" "n < length (hp_home h)" "i < length xs"
  shows "\<exists>h'. mb_step (MbTake i n) (xs, h) = Some (xs[i := Some (snd (hp_home h ! n))], h')
    \<and> mb_inv (xs[i := Some (snd (hp_home h ! n))], h')"
proof -
  let ?h = "h\<lparr>hp_home := take n (hp_home h) @ drop (Suc n) (hp_home h)\<rparr>"
  let ?p = "snd (hp_home h ! n)"
  have "home_count h q = home_count ?h q + (if q = ?p then 1 else 0)" for q
    unfolding home_count_def by (subst id_take_nth_drop [OF assms(2)]) auto
  then have "accounts ?h (\<lambda>q. held xs q + (if Some ?p = Some q then 1 else 0))"
    by (intro accounts_shift [OF assms(1)]) auto
  from mb_store_ok [OF this assms(3)] show ?thesis using assms(2) by simp
qed

lemma mb_step_ok:
  assumes "mb_inv (xs, h)" "mb_vars op \<subseteq> {..<length xs}" "\<not> mb_faults op (xs, h)"
  shows "\<exists>st'. mb_step op (xs, h) = Some st' \<and> mb_inv st' \<and> length (fst st') = length xs"
proof -
  have a: "accounts h (held xs)" using assms(1) by (simp add: mb_inv_def)
  show ?thesis
  proof (cases op)
    case (MbNew i buff)
    obtain p h' where "ManagedBuffer_new buff h = Some (Some p, h')" "accounts h' ((held xs)(p := Suc (held xs p)))"
      using mb_new_ok [OF a] by blast
    moreover from this have "accounts h' (\<lambda>q. held xs q + (if Some p = Some q then 1 else 0))"
      by (auto elim!: accounts_cong)
    ultimately show ?thesis
      using mb_store_ok [of h' xs "Some p" i] assms(2,3) MbNew by auto
  next
    case (MbReset i)
    then show ?thesis
      using mb_store_ok [of h xs None i] a assms(2,3) by (auto simp: ManagedBuffer_reset_def mb_store_def split: bind_splits)
  next
    case (MbResetManager i m buff k)
    then show ?thesis using mb_reset_manager_ok [OF a, of i m buff k] assms(2,3) by auto
  next
    case (MbCopy i j)
    then show ?thesis
      using mb_from_impl_ok [OF a, of "xs ! j"] held_exists_nth [OF a, of j] mb_store_ok [of _ xs "xs ! j" i] assms(2,3)
      by (fastforce simp: ManagedBuffer_copy_def)
  next
    case (MbAssign i j)
    then show ?thesis using mb_assign_ok [OF a, of i j] assms(2,3) by auto
  next
    case (MbMove i j)
    then show ?thesis using mb_move_ok [OF a, of i j] assms(2,3) by auto
  next
    case (MbSetNext i j)
    then obtain p where p: "xs ! i = Some p" "exists_impl h p"
      using assms(2,3) held_exists_nth [OF a, of i] by auto
    then show ?thesis
      using accounts_modify [OF a p(2), of "\<lambda>im. im\<lparr>im_nextBuffer := xs ! j\<rparr>" 0] MbSetNext
      by (auto simp: ManagedBuffer_setNextBuffer_def mb_inv_def elim!: accounts_cong)
  next
    case (MbGetNext i j)
    then have "\<exists>p im. xs ! j = Some p \<and> hp_impl h p = Some im
        \<and> (\<forall>q. im_nextBuffer im = Some q \<longrightarrow> exists_impl h q)"
      using assms(2,3) by (auto simp: mb_next_ok_def impl_shape_def split: option.splits)
    then obtain p im where p: "xs ! j = Some p" "hp_impl h p = Some im"
      "\<And>q. im_nextBuffer im = Some q \<Longrightarrow> exists_impl h q" by auto
    then show ?thesis
      using mb_from_impl_ok [OF a, of "im_nextBuffer im"] mb_store_ok [of _ xs "im_nextBuffer im" i] assms(2,3) MbGetNext
      by (fastforce simp: ManagedBuffer_getNextBuffer_def)
  next
    case (MbTake i n)
    then show ?thesis using mb_take_ok [OF a, of n i] assms by (cases "n < length (hp_home h)") auto
  next
    case (MbGone m)
    then show ?thesis using assms(1) by (auto simp: mb_inv_def accounts_def home_count_def)
  qed
qed

text \<open>The copy assignment drops the old reference before it takes the new one, without a check for self-assignment.\<close>

lemma self_assign_use_after_free:
  assumes "i < length xs" "xs ! i = Some p" "hp_impl h p = Some im"
    and "im_counter im = 1" "weak_lock h im = None"
  shows "ManagedBuffer_assign i i (xs, h) = None"
proof -
  have "weak_lock (h\<lparr>hp_impl := f\<rparr>) (im\<lparr>im_counter := x\<rparr>) = None" for f x
    using assms(5) by (simp add: weak_lock_def cong: option.case_cong)
  then show ?thesis
    using assms by (simp add: ManagedBuffer_assign_def ManagedBuffer_delete_def Impl_decr_def heap_modify_def
        Impl_cleanup_def heap_delete_def Impl_incr_def)
qed

lemma self_assign_fault:
  assumes "accounts h (held xs)" "i < length xs" "mb_last_orphan (xs ! i) h"
  shows "ManagedBuffer_assign i i (xs, h) = None"
proof -
  obtain p where p: "xs ! i = Some p" using assms(3) by (auto simp: mb_last_orphan_def split: option.splits)
  obtain im where im: "hp_impl h p = Some im" using held_exists_nth [OF assms(1,2) p] by (rule exists_implD)
  then show ?thesis using self_assign_use_after_free [OF assms(2) p im] assms(3) p by (simp add: mb_last_orphan_def)
qed

lemma mb_step_fault:
  assumes "mb_inv (xs, h)" "mb_vars op \<subseteq> {..<length xs}" "mb_faults op (xs, h)"
  shows "mb_step op (xs, h) = None"
proof -
  have a: "accounts h (held xs)" using assms(1) by (simp add: mb_inv_def)
  show ?thesis
  proof (cases op)
    case (MbAssign i j)
    then show ?thesis using self_assign_fault [OF a, of i] assms(2,3) by auto
  next
    case (MbSetNext i j)
    then show ?thesis using assms(3) by (simp add: ManagedBuffer_setNextBuffer_def)
  next
    case (MbGetNext i j)
    then show ?thesis using assms(3)
      by (auto simp: mb_next_ok_def ManagedBuffer_getNextBuffer_def ManagedBuffer_from_impl_def Impl_incr_def heap_modify_def
          split: option.splits)
  qed (use assms(3) in simp_all)
qed

text \<open>A run fails exactly at the first call that is undefined, and otherwise keeps the invariant.\<close>

lemma mb_run_cases:
  assumes "mb_inv (xs, h)" "\<forall>op \<in> set ops. mb_vars op \<subseteq> {..<length xs}"
  shows "(mb_run ops (xs, h) = None \<longleftrightarrow>
      (\<exists>before op after st. ops = before @ op # after \<and> mb_run before (xs, h) = Some st \<and> mb_faults op st))
    \<and> (\<forall>st. mb_run ops (xs, h) = Some st \<longrightarrow> mb_inv st)"
  using assms
proof (induction ops arbitrary: xs h)
  case (Cons op ops)
  have vars: "mb_vars op \<subseteq> {..<length xs}" using Cons.prems(2) by simp
  show ?case
  proof (cases "mb_faults op (xs, h)")
    case True
    then have "\<exists>before x after st. op # ops = before @ x # after \<and> mb_run before (xs, h) = Some st \<and> mb_faults x st"
      by (intro exI [of _ "[]"] exI [of _ op] exI [of _ ops] exI [of _ "(xs, h)"]) simp
    moreover have "mb_run (op # ops) (xs, h) = None" using mb_step_fault [OF Cons.prems(1) vars True] by simp
    ultimately show ?thesis by simp
  next
    case False
    obtain ys k where s: "mb_step op (xs, h) = Some (ys, k)" "mb_inv (ys, k)" "length ys = length xs"
      using mb_step_ok [OF Cons.prems(1) vars False] by auto
    have "(\<exists>before x after st. op # ops = before @ x # after \<and> mb_run before (xs, h) = Some st \<and> mb_faults x st) \<longleftrightarrow>
        (\<exists>before x after st. ops = before @ x # after \<and> mb_run before (ys, k) = Some st \<and> mb_faults x st)" (is "?l \<longleftrightarrow> ?r")
    proof
      assume ?l
      then obtain before x after st where l: "op # ops = before @ x # after" "mb_run before (xs, h) = Some st" "mb_faults x st" by blast
      then obtain tl where "before = op # tl" using False by (cases before) auto
      with l s(1) show ?r by (intro exI [of _ tl] exI [of _ x] exI [of _ after] exI [of _ st]) simp
    next
      assume ?r
      then obtain before x after st where r: "ops = before @ x # after" "mb_run before (ys, k) = Some st" "mb_faults x st" by blast
      then show ?l using s(1) by (intro exI [of _ "op # before"] exI [of _ x] exI [of _ after] exI [of _ st]) simp
    qed
    then show ?thesis using Cons.IH [OF s(2)] Cons.prems(2) s by simp
  qed
qed simp

definition heap_empty :: Heap where
  "heap_empty = \<lparr>hp_impl = (\<lambda>_. None), hp_fresh = 0, hp_alive = (\<lambda>_. True), hp_home = []\<rparr>"

lemma mb_inv_init: "mb_inv (replicate n None, heap_empty)"
  by (auto simp: mb_inv_def accounts_def heap_empty_def home_count_def count_list_0_iff)

subsection \<open>Properties\<close>

text \<open>
  C10. Reference counting, for any sequence of constructions, copies, moves, assignments, resets and changes of the next
  pointer on ManagedBuffer variables, with managers that take buffers back, hand them out again and are destroyed. A run that
  gets to its end leaves in every counter the number of references to the object (in variables and in managers), and an object
  exists exactly while there is one. A run does not get to its end, as it touches a deleted object or a null handle, exactly when
  it reaches one of three calls: the assignment to itself of a variable with the last reference to a buffer whose manager is gone
  (a use after free of the copy assignment, which drops the reference before it takes the new one), \<open>getNextBuffer\<close> of a
  buffer whose next buffer is deleted, and \<open>setNextBuffer\<close> or \<open>getNextBuffer\<close> of a null handle.
\<close>

theorem managed_buffer_counts_references:
  assumes "\<forall>op \<in> set ops. mb_vars op \<subseteq> {..<n}"
  shows "(\<forall>xs h. mb_run ops (replicate n None, heap_empty) = Some (xs, h) \<longrightarrow>
        (\<forall>p im. hp_impl h p = Some im \<longrightarrow> im_counter im = int (count_list xs (Some p) + home_count h p))
      \<and> (\<forall>p. hp_impl h p \<noteq> None \<longleftrightarrow> Some p \<in> set xs \<or> p \<in> snd ` set (hp_home h)))
    \<and> (mb_run ops (replicate n None, heap_empty) = None \<longleftrightarrow>
        (\<exists>before op after xs h. ops = before @ op # after \<and> mb_run before (replicate n None, heap_empty) = Some (xs, h) \<and>
          (case op of
             MbAssign i j \<Rightarrow> i = j \<and> mb_last_orphan (xs ! i) h
           | MbSetNext i j \<Rightarrow> xs ! i = None
           | MbGetNext i j \<Rightarrow> \<not> mb_next_ok (xs ! j) h
           | _ \<Rightarrow> False)))"
proof -
  note run = mb_run_cases [OF mb_inv_init, of ops n, simplified, OF assms [simplified]]
  have "\<forall>p im. hp_impl h p = Some im \<longrightarrow> im_counter im = int (count_list xs (Some p) + home_count h p)"
      "\<forall>p. hp_impl h p \<noteq> None \<longleftrightarrow> Some p \<in> set xs \<or> p \<in> snd ` set (hp_home h)"
    if "mb_run ops (replicate n None, heap_empty) = Some (xs, h)" for xs h
  proof -
    have a: "accounts h (held xs)" using run that by (simp add: mb_inv_def)
    show "\<forall>p im. hp_impl h p = Some im \<longrightarrow> im_counter im = int (count_list xs (Some p) + home_count h p)"
      using accountsD(1) [OF a] by blast
    have "0 < held xs p + home_count h p \<longleftrightarrow> Some p \<in> set xs \<or> p \<in> snd ` set (hp_home h)" for p
      by (auto simp: home_count_def filter_empty_conv count_list_0_iff neq0_conv [symmetric] simp del: neq0_conv)
    then show "\<forall>p. hp_impl h p \<noteq> None \<longleftrightarrow> Some p \<in> set xs \<or> p \<in> snd ` set (hp_home h)"
      using accountsD(2) [OF a] by (simp add: impl_shape_def)
  qed
  moreover have "mb_faults op (xs, h) \<longleftrightarrow> (case op of
             MbAssign i j \<Rightarrow> i = j \<and> mb_last_orphan (xs ! i) h
           | MbSetNext i j \<Rightarrow> xs ! i = None
           | MbGetNext i j \<Rightarrow> \<not> mb_next_ok (xs ! j) h
           | _ \<Rightarrow> False)" for op xs h
    by (cases op) simp_all
  ultimately show ?thesis using run by simp
qed

theorem managed_buffer_counts_references_witness:
  "(\<exists>xs h im. mb_run [MbNew 0 SharedBuffer_null, MbAssign 1 0] ([None, None], heap_empty) = Some (xs, h)
      \<and> hp_impl h 0 = Some im \<and> im_counter im = 2)
   \<and> mb_run [MbNew 0 SharedBuffer_null, MbAssign 0 0] ([None, None], heap_empty) = None"
proof -
  let ?new = "MbNew 0 SharedBuffer_null" and ?st = "([None, None], heap_empty) :: mb_state"
  let ?xs = "[Some 0, None] :: ManagedBuffer list"
  let ?h = "heap_empty\<lparr>hp_impl := [0 \<mapsto> Impl_new\<lparr>im_buffer := SharedBuffer_null\<rparr>], hp_fresh := 1\<rparr>"
  have two: "replicate 2 None = [None, None]" by (simp add: numeral_2_eq_2)
  have new: "mb_run [?new] ?st = Some (?xs, ?h)"
    by (simp add: ManagedBuffer_new_def mb_store_def heap_new_def heap_empty_def heap_modify_def ManagedBuffer_delete_def)
  have "mb_last_orphan (?xs ! 0) ?h" by (simp add: mb_last_orphan_def Impl_new_def weak_lock_def)
  then have "\<exists>before op after xs h. [?new, MbAssign 0 0] = before @ op # after \<and> mb_run before ?st = Some (xs, h) \<and>
      (case op of MbAssign i j \<Rightarrow> i = j \<and> mb_last_orphan (xs ! i) h | MbSetNext i j \<Rightarrow> xs ! i = None
       | MbGetNext i j \<Rightarrow> \<not> mb_next_ok (xs ! j) h | _ \<Rightarrow> False)"
    using new by (intro exI [of _ "[?new]"] exI [of _ "MbAssign 0 0"] exI [of _ "[]"] exI [of _ ?xs] exI [of _ ?h]) simp
  then have fault: "mb_run [?new, MbAssign 0 0] ?st = None"
    using managed_buffer_counts_references [of "[?new, MbAssign 0 0]" 2] unfolding two by simp
  let ?k = "?h\<lparr>hp_impl := [0 \<mapsto> Impl_new\<lparr>im_buffer := SharedBuffer_null, im_counter := 2\<rparr>]\<rparr>"
  have two_refs: "mb_run [?new, MbAssign 1 0] ?st = Some ([Some 0, Some 0], ?k)"
    by (simp add: ManagedBuffer_new_def mb_store_def heap_new_def heap_empty_def heap_modify_def ManagedBuffer_delete_def
        ManagedBuffer_assign_def Impl_incr_def Impl_new_def)
  have vars: "\<forall>op \<in> set [?new, MbAssign 1 0]. mb_vars op \<subseteq> {..<2}" by simp
  have "\<forall>p im. hp_impl ?k p = Some im \<longrightarrow> im_counter im = int (count_list [Some 0, Some 0] (Some p) + home_count ?k p)"
    using conjunct1 [OF managed_buffer_counts_references [OF vars], unfolded two] two_refs by blast
  moreover have "home_count ?k 0 = 0" by (simp add: home_count_def heap_empty_def)
  ultimately show ?thesis using two_refs fault by auto
qed

text \<open>
  A buffer goes home exactly when its last reference is dropped. Dropping a reference that is
  not the last one changes nothing but the counter; dropping the last one hands the buffer to its
  manager when the manager still exists (the object survives with the manager's one reference) and
  deletes the object otherwise.
\<close>

theorem last_reference_returns_buffer:
  assumes "hp_impl h p = Some im" "Impl_decr p h = Some h'"
  shows "hp_home h' = hp_home h @ (case weak_lock h im of Some m \<Rightarrow> if im_counter im = 1 then [(m, p)] else [] | None \<Rightarrow> [])
    \<and> hp_impl h' = (hp_impl h)(p :=
        (if im_counter im \<noteq> 1 then Some (im\<lparr>im_counter := im_counter im - 1\<rparr>)
         else if weak_lock h im \<noteq> None then Some im else None))"
proof -
  have wl: "weak_lock (h\<lparr>hp_impl := f\<rparr>) (im\<lparr>im_counter := x\<rparr>) = weak_lock h im" for f x
    by (simp add: weak_lock_def cong: option.case_cong)
  show ?thesis
  proof (cases "im_counter im = 1")
    case True
    then have "im\<lparr>im_counter := 1\<rparr> = im" by (metis Impl.surjective Impl.update_convs(1))
    then show ?thesis
      using assms True by (auto simp: Impl_decr_def heap_modify_def Impl_cleanup_def wl pushExternal_def
          Impl_incr_def heap_delete_def split: option.splits)
  next
    case False
    then show ?thesis using assms by (auto simp: Impl_decr_def heap_modify_def split: option.splits)
  qed
qed

theorem last_reference_returns_buffer_witness:
  "hp_home (the (Impl_decr 5 (heap_empty\<lparr>hp_impl := [5 \<mapsto> Impl_new\<lparr>im_weakManager := Some 2\<rparr>]\<rparr>))) = [(2, 5)]"
  using last_reference_returns_buffer
    [of "heap_empty\<lparr>hp_impl := [5 \<mapsto> Impl_new\<lparr>im_weakManager := Some 2\<rparr>]\<rparr>" 5 "Impl_new\<lparr>im_weakManager := Some 2\<rparr>"]
  by (auto simp: Impl_decr_def heap_modify_def Impl_cleanup_def pushExternal_def Impl_incr_def
      weak_lock_def heap_empty_def Impl_new_def)

end
