(* ===== verification/CppStrings.thy ===== *)
theory CppStrings
  imports Prelude
begin

section \<open>Numbers in strings: the standard library functions the framework calls\<close>

text \<open>
  \<open>std::to_string\<close> for unsigned integers, and \<open>std::stoull\<close> and \<open>std::stoi\<close> in base ten: leading
  white space is skipped, an optional sign is taken, then the longest run of digits. Without a
  digit they throw \<open>std::invalid_argument\<close>, out of the range of the result they throw
  \<open>std::out_of_range\<close>; text after the digits is ignored. \<open>stoull\<close> accepts a minus sign and
  negates modulo \<open>2 ^ 64\<close>.

  \<open>DType::toMarkup\<close> and the markup constructor, and the index of a port name, rest on the round
  trip \<open>stoull_to_string\<close>.
\<close>

datatype num_error = InvalidArgument | OutOfRange

definition is_digit :: "char \<Rightarrow> bool" where
  "is_digit c \<longleftrightarrow> (48 :: nat) \<le> of_char c \<and> of_char c \<le> (57 :: nat)"

definition is_space :: "char \<Rightarrow> bool" where
  "is_space c \<longleftrightarrow> of_char c = (32 :: nat) \<or> (9 \<le> (of_char c :: nat) \<and> of_char c \<le> (13 :: nat))"

definition digit_char :: "nat \<Rightarrow> char" where
  "digit_char n = char_of (48 + n)"

definition digit_val :: "char \<Rightarrow> nat" where
  "digit_val c = of_char c - 48"

fun to_string :: "nat \<Rightarrow> string" where
  "to_string n = (if n < 10 then [digit_char n] else to_string (n div 10) @ [digit_char (n mod 10)])"

declare to_string.simps [simp del]

definition digits_val :: "string \<Rightarrow> nat" where
  "digits_val s = foldl (\<lambda>a c. 10 * a + digit_val c) 0 s"

definition strto :: "string \<Rightarrow> (bool \<times> nat) option" where
  "strto s =
     (let s1 = dropWhile is_space s;
          neg = (s1 \<noteq> [] \<and> hd s1 = CHR ''-'');
          s2 = (if s1 \<noteq> [] \<and> (hd s1 = CHR ''-'' \<or> hd s1 = CHR ''+'') then tl s1 else s1);
          ds = takeWhile is_digit s2
      in if ds = [] then None else Some (neg, digits_val ds))"

definition stoull :: "string \<Rightarrow> num_error + nat" where
  "stoull s =
     (case strto s of
        None \<Rightarrow> Inl InvalidArgument
      | Some (neg, n) \<Rightarrow>
          if n < SIZE_MAX1 then Inr (if neg then sz_sub 0 n else n) else Inl OutOfRange)"

definition stoi :: "string \<Rightarrow> num_error + int" where
  "stoi s =
     (case strto s of
        None \<Rightarrow> Inl InvalidArgument
      | Some (neg, n) \<Rightarrow>
          (let v = (if neg then - int n else int n)
           in if - (2 ^ 31) \<le> v \<and> v < 2 ^ 31 then Inr v else Inl OutOfRange))"

subsection \<open>Round trips\<close>

lemma of_char_digit: "n < 10 \<Longrightarrow> of_char (digit_char n) = 48 + n"
  by (simp add: digit_char_def)

lemma digit_char_props [simp]:
  assumes "n < 10"
  shows "is_digit (digit_char n)" "digit_val (digit_char n) = n" "\<not> is_space (digit_char n)"
    "digit_char n \<noteq> CHR ''-''" "digit_char n \<noteq> CHR ''+''"
proof -
  note o = of_char_digit [OF assms]
  show "is_digit (digit_char n)" "digit_val (digit_char n) = n" "\<not> is_space (digit_char n)"
    using assms o by (simp_all add: is_digit_def digit_val_def is_space_def)
  have "of_char (CHR ''-'') = (45 :: nat)" "of_char (CHR ''+'') = (43 :: nat)" by simp_all
  then show "digit_char n \<noteq> CHR ''-''" "digit_char n \<noteq> CHR ''+''" using o by auto
qed

lemma to_string_digits: "c \<in> set (to_string n) \<Longrightarrow> is_digit c \<and> \<not> is_space c \<and> c \<noteq> CHR ''-'' \<and> c \<noteq> CHR ''+''"
proof (induction n rule: to_string.induct)
  case (1 n)
  then show ?case
    by (cases "n < 10") (auto simp: to_string.simps [of n])
qed

lemma to_string_not_Nil [simp]: "to_string n \<noteq> []"
  by (subst to_string.simps) simp

lemma digits_val_to_string [simp]: "digits_val (to_string n) = n"
proof (induction n rule: to_string.induct)
  case (1 n)
  then show ?case
    by (cases "n < 10") (auto simp: to_string.simps [of n] digits_val_def)
qed

lemma strto_to_string:
  assumes "\<forall>c \<in> set ws. is_space c"
  shows "strto (ws @ to_string n) = Some (False, n)"
proof -
  let ?s = "to_string n"
  have hd: "hd ?s \<in> set ?s" by simp
  have "dropWhile is_space (ws @ ?s) = ?s"
    using assms to_string_digits [OF hd] by (simp add: dropWhile_append3 dropWhile_eq_self_iff)
  moreover have "takeWhile is_digit ?s = ?s"
    using to_string_digits by (simp add: takeWhile_eq_all_conv)
  ultimately show ?thesis
    using to_string_digits [OF hd] by (simp add: strto_def Let_def del: takeWhile_eq_all_conv)
qed

lemma stoull_to_string: "n < SIZE_MAX1 \<Longrightarrow> stoull (to_string n) = Inr n"
  using strto_to_string [of "[]" n] by (simp add: stoull_def)

lemma stoi_to_string: "n < 2 ^ 31 \<Longrightarrow> stoi (to_string n) = Inr (int n)"
  using strto_to_string [of "[]" n] by (simp add: stoi_def Let_def)

lemma to_string_inj: "to_string m = to_string n \<Longrightarrow> m = n"
  by (metis digits_val_to_string)

end
