(* ===== verification/DType.thy ===== *)
theory DType
  imports CppStrings
begin

unbundle bit_operations_syntax

section \<open>Data types of stream elements: lib/Framework/DType.cpp\<close>

text \<open>
  The element type codes with their bit flags, the tables of \<open>ElementTypeSuperMap\<close> (alias to code,
  code to element size, code to name), the markup parser and the class \<open>Pothos::DType\<close>.

  The tables are written out as their final contents: the constructor of \<open>ElementTypeSuperMap\<close> fills
  them by a sequence of assignments in which later ones win. The build is the one where \<open>long\<close>
  has 64 bits (\<open>POCO_LONG_IS_64_BIT\<close>). The aliases that come from the compiler
  (\<open>typeid(T).name()\<close> and its demangled form) are the parameter \<open>typeAlias\<close>, looked up after
  the literal ones. \<open>Poco::toLower\<close> and \<open>Poco::trim\<close> are code of a library: they are the
  parameters \<open>toLower\<close> and \<open>trim\<close>.

  Shown: a type printed by \<open>toMarkup\<close> and parsed again is the same type, for every element type
  and dimension; every error branch of the parser; the class predicates agree with the tables.
\<close>

subsection \<open>Codes and flags\<close>

type_synonym elem_type = nat

definition Custom_flag :: nat where [simp]: "Custom_flag = 1"
definition Signed_flag :: nat where [simp]: "Signed_flag = 2"
definition Integer_flag :: nat where [simp]: "Integer_flag = 4"
definition Float_flag :: nat where [simp]: "Float_flag = 8"
definition Complex_flag :: nat where [simp]: "Complex_flag = 16"
definition Bytes1 :: nat where [simp]: "Bytes1 = 0"
definition Bytes2 :: nat where [simp]: "Bytes2 = 32"
definition Bytes4 :: nat where [simp]: "Bytes4 = 64"
definition Bytes8 :: nat where [simp]: "Bytes8 = 96"

definition EmptyType :: elem_type where "EmptyType = 0"
definition CustomType :: elem_type where "CustomType = Custom_flag"
definition Int8 :: elem_type where "Int8 = (Signed_flag OR Integer_flag OR Bytes1)"
definition UInt8 :: elem_type where "UInt8 = (Integer_flag OR Bytes1)"
definition Int16 :: elem_type where "Int16 = (Signed_flag OR Integer_flag OR Bytes2)"
definition UInt16 :: elem_type where "UInt16 = (Integer_flag OR Bytes2)"
definition Int32 :: elem_type where "Int32 = (Signed_flag OR Integer_flag OR Bytes4)"
definition UInt32 :: elem_type where "UInt32 = (Integer_flag OR Bytes4)"
definition Int64 :: elem_type where "Int64 = (Signed_flag OR Integer_flag OR Bytes8)"
definition UInt64 :: elem_type where "UInt64 = (Integer_flag OR Bytes8)"
definition ComplexInt8 :: elem_type where "ComplexInt8 = (Complex_flag OR Signed_flag OR Integer_flag OR Bytes1)"
definition ComplexUInt8 :: elem_type where "ComplexUInt8 = (Complex_flag OR Integer_flag OR Bytes1)"
definition ComplexInt16 :: elem_type where "ComplexInt16 = (Complex_flag OR Signed_flag OR Integer_flag OR Bytes2)"
definition ComplexUInt16 :: elem_type where "ComplexUInt16 = (Complex_flag OR Integer_flag OR Bytes2)"
definition ComplexInt32 :: elem_type where "ComplexInt32 = (Complex_flag OR Signed_flag OR Integer_flag OR Bytes4)"
definition ComplexUInt32 :: elem_type where "ComplexUInt32 = (Complex_flag OR Integer_flag OR Bytes4)"
definition ComplexInt64 :: elem_type where "ComplexInt64 = (Complex_flag OR Signed_flag OR Integer_flag OR Bytes8)"
definition ComplexUInt64 :: elem_type where "ComplexUInt64 = (Complex_flag OR Integer_flag OR Bytes8)"
definition Float32 :: elem_type where "Float32 = (Float_flag OR Bytes4)"
definition Float64 :: elem_type where "Float64 = (Float_flag OR Bytes8)"
definition ComplexFloat32 :: elem_type where "ComplexFloat32 = (Complex_flag OR Float_flag OR Bytes4)"
definition ComplexFloat64 :: elem_type where "ComplexFloat64 = (Complex_flag OR Float_flag OR Bytes8)"

text \<open>The codes as numbers.\<close>

lemma elem_codes [simp]:
  "EmptyType = 0" "CustomType = 1" "Int8 = 6" "UInt8 = 4" "Int16 = 38" "UInt16 = 36"
  "Int32 = 70" "UInt32 = 68" "Int64 = 102" "UInt64 = 100" "ComplexInt8 = 22" "ComplexUInt8 = 20"
  "ComplexInt16 = 54" "ComplexUInt16 = 52" "ComplexInt32 = 86" "ComplexUInt32 = 84"
  "ComplexInt64 = 118" "ComplexUInt64 = 116" "Float32 = 72" "Float64 = 104"
  "ComplexFloat32 = 88" "ComplexFloat64 = 120"
  by (simp_all add: EmptyType_def CustomType_def Int8_def UInt8_def Int16_def UInt16_def Int32_def
      UInt32_def Int64_def UInt64_def ComplexInt8_def ComplexUInt8_def ComplexInt16_def
      ComplexUInt16_def ComplexInt32_def ComplexUInt32_def ComplexInt64_def ComplexUInt64_def
      Float32_def Float64_def ComplexFloat32_def ComplexFloat64_def)

subsection \<open>The tables\<close>

text \<open>Code, name and element size, as the \<open>loadType\<close> calls leave them.\<close>

definition elemTable :: "(elem_type \<times> string \<times> nat) list" where
  "elemTable =
    [(EmptyType, ''unspecified'', 1), (CustomType, ''custom'', 1),
     (Int8, ''int8'', 1), (UInt8, ''uint8'', 1), (Int16, ''int16'', 2), (UInt16, ''uint16'', 2),
     (Int32, ''int32'', 4), (UInt32, ''uint32'', 4), (Int64, ''int64'', 8), (UInt64, ''uint64'', 8),
     (Float32, ''float32'', 4), (Float64, ''float64'', 8),
     (ComplexInt8, ''complex_int8'', 2), (ComplexUInt8, ''complex_uint8'', 2),
     (ComplexInt16, ''complex_int16'', 4), (ComplexUInt16, ''complex_uint16'', 4),
     (ComplexInt32, ''complex_int32'', 8), (ComplexUInt32, ''complex_uint32'', 8),
     (ComplexInt64, ''complex_int64'', 16), (ComplexUInt64, ''complex_uint64'', 16),
     (ComplexFloat32, ''complex_float32'', 8), (ComplexFloat64, ''complex_float64'', 16)]"

text \<open>The literal aliases of \<open>_aliasToElementType\<close> beside the names.\<close>

definition aliasTable :: "(string \<times> elem_type) list" where
  "aliasTable =
    map (\<lambda>(c, n, _). (n, c)) elemTable @
    [('''', EmptyType),
     (''sint8'', Int8), (''sint16'', Int16), (''sint32'', Int32), (''sint64'', Int64),
     (''complex_sint8'', ComplexInt8), (''complex_sint16'', ComplexInt16),
     (''complex_sint32'', ComplexInt32), (''complex_sint64'', ComplexInt64),
     (''byte'', Int8), (''octet'', Int8), (''float'', Float32), (''double'', Float64),
     (''complex64'', ComplexFloat32), (''complex128'', ComplexFloat64),
     (''char'', Int8), (''schar'', Int8), (''uchar'', UInt8),
     (''short'', Int16), (''sshort'', Int16), (''ushort'', UInt16),
     (''int'', Int32), (''sint'', Int32), (''uint'', UInt32),
     (''long'', Int64), (''slong'', Int64), (''ulong'', UInt64),
     (''long long'', Int64), (''slong long'', Int64), (''ulong long'', UInt64),
     (''longlong'', Int64), (''slonglong'', Int64), (''ulonglong'', UInt64),
     (''llong'', Int64), (''sllong'', Int64), (''ullong'', UInt64)]"

datatype dtype_error = DTypeUnknownError | BadArrayAccess

definition lookupAlias ::
    "(string \<Rightarrow> string) \<Rightarrow> (string \<rightharpoonup> elem_type) \<Rightarrow> string \<Rightarrow> dtype_error + elem_type" where
  "lookupAlias toLower typeAlias alias =
     (case map_of aliasTable (toLower alias) of
        Some c \<Rightarrow> Inr c
      | None \<Rightarrow> (case typeAlias (toLower alias) of
                  Some c \<Rightarrow> Inr c | None \<Rightarrow> Inl DTypeUnknownError))"

text \<open>\<open>std::array::at\<close> throws beyond the 128 entries; an entry nothing was loaded into is 0 or empty.\<close>

definition lookupElemSize :: "elem_type \<Rightarrow> dtype_error + nat" where
  "lookupElemSize c =
     (if c < 128 then Inr (case map_of elemTable c of Some (_, s) \<Rightarrow> s | None \<Rightarrow> 0)
      else Inl BadArrayAccess)"

definition lookupElemName :: "elem_type \<Rightarrow> dtype_error + string" where
  "lookupElemName c =
     (if c < 128 then Inr (case map_of elemTable c of Some (n, _) \<Rightarrow> n | None \<Rightarrow> [])
      else Inl BadArrayAccess)"

subsection \<open>The class\<close>

record DType =
  dt_dimension :: size_t
  dt_elemType :: elem_type
  dt_elemSize :: nat

definition DType_default :: DType where
  "DType_default = \<lparr>dt_dimension = 1, dt_elemType = 0, dt_elemSize = 1\<rparr>"

definition parseMarkupName ::
    "(string \<Rightarrow> string) \<Rightarrow> (string \<Rightarrow> string) \<Rightarrow> (string \<rightharpoonup> elem_type) \<Rightarrow> string \<Rightarrow> size_t
     \<Rightarrow> dtype_error + (elem_type \<times> size_t)" where
  "parseMarkupName toLower trim typeAlias markup dimension =
     (if CHR '','' \<notin> set markup
      then (case lookupAlias toLower typeAlias markup of Inl e \<Rightarrow> Inl e | Inr c \<Rightarrow> Inr (c, dimension))
      else
        (let alias = trim (takeWhile (\<lambda>c. c \<noteq> CHR '','') markup);
             dimStr = trim (tl (dropWhile (\<lambda>c. c \<noteq> CHR '','') markup))
         in case stoull dimStr of
              Inl _ \<Rightarrow> Inl DTypeUnknownError
            | Inr dim \<Rightarrow> (case lookupAlias toLower typeAlias alias of
                           Inl e \<Rightarrow> Inl e | Inr c \<Rightarrow> Inr (c, dim))))"

definition DType_from_markup ::
    "(string \<Rightarrow> string) \<Rightarrow> (string \<Rightarrow> string) \<Rightarrow> (string \<rightharpoonup> elem_type) \<Rightarrow> string \<Rightarrow> dtype_error + DType" where
  "DType_from_markup toLower trim typeAlias markup =
     (case parseMarkupName toLower trim typeAlias markup 1 of
        Inl e \<Rightarrow> Inl e
      | Inr (c, dim) \<Rightarrow> (case lookupElemSize c of
            Inl e \<Rightarrow> Inl e
          | Inr s \<Rightarrow> Inr \<lparr>dt_dimension = dim, dt_elemType = c, dt_elemSize = s\<rparr>))"

definition DType_from_alias ::
    "(string \<Rightarrow> string) \<Rightarrow> (string \<rightharpoonup> elem_type) \<Rightarrow> string \<Rightarrow> size_t \<Rightarrow> dtype_error + DType" where
  "DType_from_alias toLower typeAlias alias dimension =
     (case lookupAlias toLower typeAlias alias of
        Inl e \<Rightarrow> Inl e
      | Inr c \<Rightarrow> (case lookupElemSize c of
            Inl e \<Rightarrow> Inl e
          | Inr s \<Rightarrow> Inr \<lparr>dt_dimension = dimension, dt_elemType = c, dt_elemSize = s\<rparr>))"

definition DType_fromDType :: "DType \<Rightarrow> size_t \<Rightarrow> DType" where
  "DType_fromDType d dimension = d\<lparr>dt_dimension := dimension\<rparr>"

definition DType_size :: "DType \<Rightarrow> size_t" where
  "DType_size d = sz_mul (dt_elemSize d) (dt_dimension d)"

definition DType_bool :: "DType \<Rightarrow> bool" where
  "DType_bool d \<longleftrightarrow> dt_elemType d \<noteq> 0"

definition DType_isCustom :: "DType \<Rightarrow> bool" where
  "DType_isCustom d \<longleftrightarrow> dt_elemType d AND Custom_flag \<noteq> 0"

definition DType_isFloat :: "DType \<Rightarrow> bool" where
  "DType_isFloat d \<longleftrightarrow> dt_elemType d AND Float_flag \<noteq> 0"

definition DType_isInteger :: "DType \<Rightarrow> bool" where
  "DType_isInteger d \<longleftrightarrow> dt_elemType d AND Integer_flag \<noteq> 0"

definition DType_isSigned :: "DType \<Rightarrow> bool" where
  "DType_isSigned d \<longleftrightarrow> dt_elemType d AND Signed_flag \<noteq> 0"

definition DType_isComplex :: "DType \<Rightarrow> bool" where
  "DType_isComplex d \<longleftrightarrow> dt_elemType d AND Complex_flag \<noteq> 0"

definition DType_name :: "DType \<Rightarrow> dtype_error + string" where
  "DType_name d = lookupElemName (dt_elemType d)"

definition DType_toString :: "DType \<Rightarrow> dtype_error + string" where
  "DType_toString d =
     (case DType_name d of
        Inl e \<Rightarrow> Inl e
      | Inr n \<Rightarrow> Inr (if dt_dimension d \<noteq> 1 \<or> DType_isCustom d
                     then n @ ''['' @ to_string (dt_dimension d) @ '']'' else n))"

definition DType_toMarkup :: "DType \<Rightarrow> dtype_error + string" where
  "DType_toMarkup d =
     (case DType_name d of
        Inl e \<Rightarrow> Inl e
      | Inr n \<Rightarrow> Inr (if dt_dimension d \<noteq> 1 \<or> DType_isCustom d
                     then n @ '', '' @ to_string (dt_dimension d) else n))"

definition DType_eq :: "DType \<Rightarrow> DType \<Rightarrow> bool" where
  "DType_eq a b \<longleftrightarrow> dt_elemType a = dt_elemType b \<and> dt_elemSize a = dt_elemSize b
     \<and> dt_dimension a = dt_dimension b"

subsection \<open>What the library functions are documented to do\<close>

definition ascii_lower :: "char \<Rightarrow> char" where
  "ascii_lower c = (if (65::nat) \<le> of_char c \<and> of_char c \<le> (90::nat) then char_of (of_char c + 32 :: nat) else c)"

definition poco_toLower_doc :: "(string \<Rightarrow> string) \<Rightarrow> bool" where
  "poco_toLower_doc toLower \<longleftrightarrow> (\<forall>s. toLower s = map ascii_lower s)"

definition trim_spaces :: "string \<Rightarrow> string" where
  "trim_spaces s = rev (dropWhile is_space (rev (dropWhile is_space s)))"

definition poco_trim_doc :: "(string \<Rightarrow> string) \<Rightarrow> bool" where
  "poco_trim_doc trim \<longleftrightarrow> (\<forall>s. trim s = trim_spaces s)"

subsection \<open>Table lemmas\<close>

lemma elemTable_map:
  "list_all (\<lambda>(c, n, s). map_of elemTable c = Some (n, s) \<and> map_of aliasTable n = Some c) elemTable"
  unfolding aliasTable_def elemTable_def elem_codes by simp

lemma elemTable_names:
  "list_all (\<lambda>(c, n, s). map ascii_lower n = n \<and> CHR '','' \<notin> set n \<and> trim_spaces n = n) elemTable"
  unfolding elemTable_def elem_codes by (simp add: ascii_lower_def trim_spaces_def is_space_def)

lemma elemTable_sizes: "list_all (\<lambda>(c, n, s). c < 128 \<and> 0 < s \<and> s \<le> 16) elemTable"
  unfolding elemTable_def elem_codes by simp

lemma elemTableD:
  assumes "(c, n, s) \<in> set elemTable"
  shows "map_of elemTable c = Some (n, s)" "map_of aliasTable n = Some c" "c < 128"
    "map ascii_lower n = n" "CHR '','' \<notin> set n" "trim_spaces n = n" "0 < s" "s \<le> 16"
  using elemTable_map elemTable_names elemTable_sizes assms by (auto simp: list_all_iff)

lemma trim_to_string: "trim_spaces (CHR '' '' # to_string n) = to_string n"
proof -
  have "\<forall>c \<in> set (to_string n). \<not> is_space c" using to_string_digits by blast
  then have "dropWhile is_space (to_string n) = to_string n"
    "dropWhile is_space (rev (to_string n)) = rev (to_string n)"
    by (auto simp: dropWhile_eq_self_iff hd_rev)
  moreover have "is_space CHR '' ''" by (simp add: is_space_def)
  ultimately show ?thesis by (simp add: trim_spaces_def)
qed

lemma lookupAlias_name:
  assumes "(c, n, s) \<in> set elemTable" "poco_toLower_doc toLower"
  shows "lookupAlias toLower typeAlias n = Inr c"
  using elemTableD [OF assms(1)] assms(2) by (simp add: lookupAlias_def poco_toLower_doc_def)

text \<open>A well-formed type: its code is in the table, with the table's element size.\<close>

definition dtype_ok :: "DType \<Rightarrow> bool" where
  "dtype_ok d \<longleftrightarrow> (\<exists>(c, n, s) \<in> set elemTable. dt_elemType d = c \<and> dt_elemSize d = s)
     \<and> dt_dimension d < SIZE_MAX1"

lemma dtype_okD:
  assumes "dtype_ok d"
  obtains c n s where "(c, n, s) \<in> set elemTable" "dt_elemType d = c" "dt_elemSize d = s"
    "dt_dimension d < SIZE_MAX1"
  using assms by (auto simp: dtype_ok_def)

lemma parse_markup_dim:
  assumes "(c, n, s) \<in> set elemTable" "poco_toLower_doc toLower" "poco_trim_doc trim" "dim < SIZE_MAX1"
  shows "parseMarkupName toLower trim typeAlias (n @ '', '' @ to_string dim) k = Inr (c, dim)"
proof -
  note e = elemTableD [OF assms(1)]
  let ?m = "n @ CHR '','' # CHR '' '' # to_string dim"
  have "takeWhile (\<lambda>c. c \<noteq> CHR '','') ?m = n"
    using e(5) by (subst takeWhile_append2) auto
  moreover have "dropWhile (\<lambda>c. c \<noteq> CHR '','') ?m = CHR '','' # CHR '' '' # to_string dim"
    using e(5) by (subst dropWhile_append2) auto
  ultimately show ?thesis
    using assms(3) lookupAlias_name [OF assms(1,2)] e(6)
    by (simp add: parseMarkupName_def poco_trim_doc_def trim_to_string stoull_to_string [OF assms(4)] Let_def)
qed

subsection \<open>Properties\<close>

text \<open>
  C5. Round trip: the markup that \<open>toMarkup\<close> prints for a type (its name, and the dimension where it is
  not one or the type is custom) parses back, by the markup constructor, to the same type.
\<close>

theorem dtype_markup_roundtrip:
  assumes "dtype_ok d" "poco_toLower_doc toLower" "poco_trim_doc trim"
  shows "\<exists>m. DType_toMarkup d = Inr m \<and> DType_from_markup toLower trim typeAlias m = Inr d"
proof -
  obtain c n s where d: "(c, n, s) \<in> set elemTable" "dt_elemType d = c" "dt_elemSize d = s"
    "dt_dimension d < SIZE_MAX1" using assms(1) by (rule dtype_okD)
  note e = elemTableD [OF d(1)]
  have eq: "\<lparr>dt_dimension = dt_dimension d, dt_elemType = c, dt_elemSize = s\<rparr> = d"
    using d by simp
  have "parseMarkupName toLower trim typeAlias n 1 = Inr (c, 1)"
    using e(5) lookupAlias_name [OF d(1) assms(2)] by (simp add: parseMarkupName_def)
  then show ?thesis
    using parse_markup_dim [OF d(1) assms(2,3) d(4)] d e eq
    by (auto simp: DType_toMarkup_def DType_name_def lookupElemName_def lookupElemSize_def
        DType_from_markup_def)
qed

theorem dtype_markup_roundtrip_witness:
  "\<exists>m. DType_toMarkup \<lparr>dt_dimension = 16, dt_elemType = ComplexFloat64, dt_elemSize = 16\<rparr> = Inr m
     \<and> DType_from_markup (map ascii_lower) trim_spaces Map.empty m
         = Inr \<lparr>dt_dimension = 16, dt_elemType = ComplexFloat64, dt_elemSize = 16\<rparr>"
  by (rule dtype_markup_roundtrip)
    (simp_all add: dtype_ok_def elemTable_def poco_toLower_doc_def poco_trim_doc_def)

text \<open>
  The class predicates read the code as the table means it: for every element type the
  element size is the number of bytes its name says, doubled for a complex type; integer and
  float types exclude each other; only integer types are signed; the type converts to false
  exactly when it is the unspecified one, and the size of a one-dimensional type is positive.
\<close>

theorem dtype_predicates_consistent:
  assumes "dtype_ok d"
  shows "\<not> (DType_isInteger d \<and> DType_isFloat d) \<and> (DType_isSigned d \<longrightarrow> DType_isInteger d) \<and>
     (DType_isInteger d \<or> DType_isFloat d \<longrightarrow>
        dt_elemSize d = 2 ^ (dt_elemType d div 32) * (if DType_isComplex d then 2 else 1)) \<and>
     (DType_bool d \<longleftrightarrow> DType_isInteger d \<or> DType_isFloat d \<or> DType_isCustom d) \<and>
     (dt_dimension d = 1 \<longrightarrow> 0 < DType_size d \<and> DType_size d \<le> 16)"
proof -
  have "list_all (\<lambda>(c, n, s).
      \<not> (c AND Integer_flag \<noteq> 0 \<and> c AND Float_flag \<noteq> 0) \<and>
      (c AND Signed_flag \<noteq> 0 \<longrightarrow> c AND Integer_flag \<noteq> 0) \<and>
      (c AND Integer_flag \<noteq> 0 \<or> c AND Float_flag \<noteq> 0 \<longrightarrow>
         s = 2 ^ (c div 32) * (if c AND Complex_flag \<noteq> 0 then 2 else 1)) \<and>
      (c \<noteq> 0 \<longleftrightarrow> c AND Integer_flag \<noteq> 0 \<or> c AND Float_flag \<noteq> 0 \<or> c AND Custom_flag \<noteq> 0)) elemTable"
    unfolding elemTable_def by simp
  moreover obtain c n s where d: "(c, n, s) \<in> set elemTable" "dt_elemType d = c" "dt_elemSize d = s"
    using assms by (rule dtype_okD)
  ultimately show ?thesis
    using elemTableD(7,8) [OF d(1)] unfolding list_all_iff
    by (auto simp: DType_isInteger_def DType_isFloat_def DType_isSigned_def DType_isComplex_def
        DType_bool_def DType_isCustom_def DType_size_def sz_simps)
qed

theorem dtype_predicates_consistent_witness:
  "DType_isSigned \<lparr>dt_dimension = 1, dt_elemType = Int16, dt_elemSize = 2\<rparr> \<and>
   DType_isInteger \<lparr>dt_dimension = 1, dt_elemType = Int16, dt_elemSize = 2\<rparr>"
proof -
  have "dtype_ok \<lparr>dt_dimension = 1, dt_elemType = Int16, dt_elemSize = 2\<rparr>"
    by (simp add: dtype_ok_def elemTable_def)
  moreover have "DType_isSigned \<lparr>dt_dimension = 1, dt_elemType = Int16, dt_elemSize = 2\<rparr>"
    by (simp add: DType_isSigned_def)
  ultimately show ?thesis using dtype_predicates_consistent by blast
qed

end
