(* ===== verification/BufferChunk.thy ===== *)
theory BufferChunk
  imports ManagedBuffer DType
begin

section \<open>Buffer chunks: BufferChunk.hpp and lib/Framework/BufferChunk.cpp\<close>

text \<open>
  A \<open>BufferChunk\<close> is an address range with a data type and a reference to a managed buffer. A chunk
  that accumulates several contiguous buffers of a slab refers to the first one and holds, in
  addition, one reference on each of the following \<open>_nextBuffers\<close> buffers of the chain of next
  pointers, taken by \<open>_incrNextBuffers\<close> and dropped by \<open>_decrNextBuffers\<close>.

  Member functions thread the heap of \<open>ManagedBuffer\<close>; \<open>None\<close> is undefined behaviour (a null or
  deleted object is dereferenced, or an integer is divided by zero). \<open>append\<close> also threads the bytes of
  the memory; \<open>SharedBuffer::make\<close>, the system allocator, is the parameter \<open>sbMake\<close>.
\<close>

record BufferChunk =
  bc_address :: size_t
  bc_length :: size_t
  bc_dtype :: DType
  bc_managed :: ManagedBuffer
  bc_nextBuffers :: size_t

definition BufferChunk_null :: BufferChunk where
  "BufferChunk_null = \<lparr>bc_address = 0, bc_length = 0, bc_dtype = DType_default,
                       bc_managed = None, bc_nextBuffers = 0\<rparr>"

definition BufferChunk_bool :: "BufferChunk \<Rightarrow> bool" where
  "BufferChunk_bool c \<longleftrightarrow> bc_managed c \<noteq> None"

definition BufferChunk_getBuffer :: "BufferChunk \<Rightarrow> Heap \<Rightarrow> SharedBuffer option" where
  "BufferChunk_getBuffer c h = ManagedBuffer_getBuffer (bc_managed c) h"

definition BufferChunk_getEnd :: "BufferChunk \<Rightarrow> size_t" where
  "BufferChunk_getEnd c = sz_add (bc_address c) (bc_length c)"

text \<open>\<open>getAlias\<close>, as a function of the chunk's address and the buffer it refers to.\<close>

definition alias_of :: "size_t \<Rightarrow> SharedBuffer \<Rightarrow> size_t" where
  "alias_of address buffer =
     (if sb_alias buffer = 0 then 0
      else if sb_alias buffer < address then sz_sub address (SharedBuffer_getAliasOffset buffer)
      else sz_add address (SharedBuffer_getAliasOffset buffer))"

definition BufferChunk_getAlias :: "BufferChunk \<Rightarrow> Heap \<Rightarrow> size_t option" where
  "BufferChunk_getAlias c h = map_option (alias_of (bc_address c)) (BufferChunk_getBuffer c h)"

definition BufferChunk_elements :: "BufferChunk \<Rightarrow> size_t option" where
  "BufferChunk_elements c =
     (if DType_size (bc_dtype c) = 0 then None else Some (bc_length c div DType_size (bc_dtype c)))"

definition BufferChunk_setElements :: "BufferChunk \<Rightarrow> size_t \<Rightarrow> BufferChunk" where
  "BufferChunk_setElements c n = c\<lparr>bc_length := sz_mul n (DType_size (bc_dtype c))\<rparr>"

definition BufferChunk_eq :: "BufferChunk \<Rightarrow> BufferChunk \<Rightarrow> Heap \<Rightarrow> bool option" where
  "BufferChunk_eq a b h = do {
     x \<leftarrow> BufferChunk_getBuffer a h;
     y \<leftarrow> BufferChunk_getBuffer b h;
     Some (bc_address a = bc_address b \<and> bc_length a = bc_length b \<and> SharedBuffer_eq x y) }"

definition BufferChunk_unique :: "BufferChunk \<Rightarrow> Heap \<Rightarrow> bool option" where
  "BufferChunk_unique c h = ManagedBuffer_unique (bc_managed c) h"

definition BufferChunk_useCount :: "BufferChunk \<Rightarrow> Heap \<Rightarrow> size_t option" where
  "BufferChunk_useCount c h = ManagedBuffer_useCount (bc_managed c) h"

subsection \<open>References on the following buffers\<close>

text \<open>Conversion to \<open>int\<close>: the value modulo \<open>2^32\<close>, read as signed.\<close>

definition to_int32 :: "int \<Rightarrow> int" where
  "to_int32 x = (x + 2 ^ 31) mod 2 ^ 32 - 2 ^ 31"

partial_function (option) incrNext_loop :: "nat \<Rightarrow> int \<Rightarrow> size_t \<Rightarrow> Heap \<Rightarrow> (size_t \<times> Heap) option" where
  "incrNext_loop mb lengthRemain n h =
     (if lengthRemain > 0 then
        (case hp_impl h mb of
           None \<Rightarrow> None
         | Some im \<Rightarrow>
             (case im_nextBuffer im of
                None \<Rightarrow> Some (n, h)
              | Some mb \<Rightarrow>
                  (case Impl_incr mb h of
                     None \<Rightarrow> None
                   | Some h \<Rightarrow>
                       (case hp_impl h mb of
                          None \<Rightarrow> None
                        | Some im \<Rightarrow>
                            incrNext_loop mb (to_int32 (lengthRemain - int (sb_length (im_buffer im)))) (sz_add n 1) h))))
      else Some (n, h))"

definition BufferChunk_incrNextBuffers :: "BufferChunk \<Rightarrow> Heap \<Rightarrow> (BufferChunk \<times> Heap) option" where
  "BufferChunk_incrNextBuffers c h =
     (let c = c\<lparr>bc_nextBuffers := 0\<rparr> in
      case bc_managed c of
        None \<Rightarrow> Some (c, h)
      | Some mb \<Rightarrow> do {
          buffer \<leftarrow> BufferChunk_getBuffer c h;
          let lengthRemain = to_int32 (int (sz_sub (BufferChunk_getEnd c) (SharedBuffer_getEnd buffer)));
          (n, h) \<leftarrow> incrNext_loop mb lengthRemain 0 h;
          Some (c\<lparr>bc_nextBuffers := n\<rparr>, h) })"

fun decrNext_loop :: "nat option \<Rightarrow> size_t \<Rightarrow> Heap \<Rightarrow> Heap option" where
  "decrNext_loop next 0 h = Some h"
| "decrNext_loop next (Suc n) h = do {
     mb \<leftarrow> next;
     im \<leftarrow> hp_impl h mb;
     h \<leftarrow> Impl_decr mb h;
     decrNext_loop (im_nextBuffer im) n h }"

definition BufferChunk_decrNextBuffers :: "BufferChunk \<Rightarrow> Heap \<Rightarrow> (BufferChunk \<times> Heap) option" where
  "BufferChunk_decrNextBuffers c h =
     (case bc_managed c of
        None \<Rightarrow> Some (c, h)
      | Some mb \<Rightarrow> do {
          im \<leftarrow> hp_impl h mb;
          h \<leftarrow> decrNext_loop (im_nextBuffer im) (bc_nextBuffers c) h;
          Some (c\<lparr>bc_nextBuffers := 0\<rparr>, h) })"

subsection \<open>Constructors, assignments, destructor\<close>

definition BufferChunk_from_managed :: "ManagedBuffer \<Rightarrow> DType \<Rightarrow> Heap \<Rightarrow> (BufferChunk \<times> Heap) option" where
  "BufferChunk_from_managed buffer dtype h = do {
     b \<leftarrow> ManagedBuffer_getBuffer buffer h;
     (mb, h) \<leftarrow> ManagedBuffer_copy buffer h;
     Some (\<lparr>bc_address = sb_address b, bc_length = sb_length b, bc_dtype = dtype,
            bc_managed = mb, bc_nextBuffers = 0\<rparr>, h) }"

definition BufferChunk_from_shared :: "SharedBuffer \<Rightarrow> DType \<Rightarrow> Heap \<Rightarrow> (BufferChunk \<times> Heap) option" where
  "BufferChunk_from_shared buffer dtype h = do {
     (mb, h) \<leftarrow> ManagedBuffer_new buffer h;
     Some (\<lparr>bc_address = sb_address buffer, bc_length = sb_length buffer, bc_dtype = dtype,
            bc_managed = mb, bc_nextBuffers = 0\<rparr>, h) }"

definition BufferChunk_new :: "(size_t \<Rightarrow> SharedBuffer) \<Rightarrow> size_t \<Rightarrow> Heap \<Rightarrow> (BufferChunk \<times> Heap) option" where
  "BufferChunk_new sbMake numBytes h = do {
     (mb, h) \<leftarrow> ManagedBuffer_new (sbMake numBytes) h;
     Some (\<lparr>bc_address = sb_address (sbMake numBytes), bc_length = numBytes, bc_dtype = DType_default,
            bc_managed = mb, bc_nextBuffers = 0\<rparr>, h) }"

definition BufferChunk_new_dtype ::
  "(size_t \<Rightarrow> SharedBuffer) \<Rightarrow> DType \<Rightarrow> size_t \<Rightarrow> Heap \<Rightarrow> (BufferChunk \<times> Heap) option" where
  "BufferChunk_new_dtype sbMake dtype numElems h = do {
     let len = sz_mul (DType_size dtype) numElems;
     (mb, h) \<leftarrow> ManagedBuffer_new (sbMake len) h;
     Some (\<lparr>bc_address = sb_address (sbMake len), bc_length = len, bc_dtype = dtype,
            bc_managed = mb, bc_nextBuffers = 0\<rparr>, h) }"

definition BufferChunk_copy :: "BufferChunk \<Rightarrow> Heap \<Rightarrow> (BufferChunk \<times> Heap) option" where
  "BufferChunk_copy other h = do {
     (mb, h) \<leftarrow> ManagedBuffer_copy (bc_managed other) h;
     BufferChunk_incrNextBuffers (other\<lparr>bc_managed := mb\<rparr>) h }"

text \<open>What the move constructor and the move assignment leave in the chunk they move from.\<close>

definition BufferChunk_moved_from :: "BufferChunk \<Rightarrow> BufferChunk" where
  "BufferChunk_moved_from other = other\<lparr>bc_address := 0, bc_length := 0, bc_managed := None, bc_nextBuffers := 0\<rparr>"

definition BufferChunk_move :: "BufferChunk \<Rightarrow> BufferChunk \<times> BufferChunk" where
  "BufferChunk_move other = (other, BufferChunk_moved_from other)"

definition BufferChunk_delete :: "BufferChunk \<Rightarrow> Heap \<Rightarrow> Heap option" where
  "BufferChunk_delete c h = do {
     (c, h) \<leftarrow> BufferChunk_decrNextBuffers c h;
     ManagedBuffer_delete (bc_managed c) h }"

definition BufferChunk_assign :: "BufferChunk \<Rightarrow> BufferChunk \<Rightarrow> Heap \<Rightarrow> (BufferChunk \<times> Heap) option" where
  "BufferChunk_assign c other h = do {
     (c, h) \<leftarrow> BufferChunk_decrNextBuffers c h;
     (xs, h) \<leftarrow> ManagedBuffer_assign 0 1 ([bc_managed c, bc_managed other], h);
     BufferChunk_incrNextBuffers
       (c\<lparr>bc_address := bc_address other, bc_length := bc_length other,
          bc_dtype := bc_dtype other, bc_managed := xs ! 0\<rparr>) h }"

definition BufferChunk_move_assign ::
  "BufferChunk \<Rightarrow> BufferChunk \<Rightarrow> Heap \<Rightarrow> (BufferChunk \<times> BufferChunk \<times> Heap) option" where
  "BufferChunk_move_assign c other h = do {
     (c, h) \<leftarrow> BufferChunk_decrNextBuffers c h;
     (xs, h) \<leftarrow> ManagedBuffer_move_assign 0 1 ([bc_managed c, bc_managed other], h);
     Some (c\<lparr>bc_address := bc_address other, bc_length := bc_length other, bc_dtype := bc_dtype other,
            bc_managed := xs ! 0, bc_nextBuffers := bc_nextBuffers other\<rparr>,
           other\<lparr>bc_address := 0, bc_length := 0, bc_managed := xs ! 1, bc_nextBuffers := 0\<rparr>, h) }"

definition BufferChunk_clear :: "BufferChunk \<Rightarrow> Heap \<Rightarrow> (BufferChunk \<times> Heap) option" where
  "BufferChunk_clear c h = do {
     (c, h) \<leftarrow> BufferChunk_decrNextBuffers c h;
     (mb, h) \<leftarrow> ManagedBuffer_reset (bc_managed c) h;
     Some (c\<lparr>bc_address := 0, bc_length := 0, bc_dtype := DType_default, bc_managed := mb,
             bc_nextBuffers := 0\<rparr>, h) }"

subsection \<open>Append\<close>

type_synonym Mem = "nat \<Rightarrow> 8 word"

definition memcpy :: "size_t \<Rightarrow> size_t \<Rightarrow> size_t \<Rightarrow> Mem \<Rightarrow> Mem" where
  "memcpy dst src n m = (\<lambda>a. if dst \<le> a \<and> a < dst + n then m (src + (a - dst)) else m a)"

definition BufferChunk_append ::
  "(size_t \<Rightarrow> SharedBuffer) \<Rightarrow> BufferChunk \<Rightarrow> BufferChunk \<Rightarrow> Heap \<times> Mem \<Rightarrow> (BufferChunk \<times> Heap \<times> Mem) option" where
  "BufferChunk_append sbMake this other = (\<lambda>(h, mem).
     if \<not> BufferChunk_bool this then do {
       buffer \<leftarrow> BufferChunk_getBuffer other h;
       if BufferChunk_getEnd other \<le> SharedBuffer_getEnd buffer then do {
         (this, h) \<leftarrow> BufferChunk_assign this other h;
         Some (this, h, mem) }
       else do {
         n \<leftarrow> BufferChunk_elements other;
         (tmp, h) \<leftarrow> BufferChunk_new_dtype sbMake (bc_dtype other) n h;
         (this, tmp, h) \<leftarrow> BufferChunk_move_assign this tmp h;
         Some (this, h, memcpy (bc_address this) (bc_address other) (bc_length this) mem) } }
     else do {
       (accumulator, h) \<leftarrow> BufferChunk_new sbMake (sz_add (bc_length this) (bc_length other)) h;
       let accumulator = accumulator\<lparr>bc_dtype := bc_dtype this\<rparr>;
       let mem = memcpy (bc_address accumulator) (bc_address this) (bc_length this) mem;
       let mem = memcpy (sz_add (bc_address accumulator) (bc_length this)) (bc_address other) (bc_length other) mem;
       (this, h) \<leftarrow> BufferChunk_assign this accumulator h;
       h \<leftarrow> BufferChunk_delete accumulator h;
       Some (this, h, mem) })"

definition bytes :: "Mem \<Rightarrow> size_t \<Rightarrow> size_t \<Rightarrow> 8 word list" where
  "bytes m a n = map m [a..<a + n]"

subsection \<open>The chain of next pointers\<close>

text \<open>The first \<open>n\<close> buffers of the chain that starts at a next pointer.\<close>

fun next_chain :: "(nat \<Rightarrow> Impl option) \<Rightarrow> nat option \<Rightarrow> nat \<Rightarrow> nat list option" where
  "next_chain s q 0 = Some []"
| "next_chain s None (Suc n) = None"
| "next_chain s (Some p) (Suc n) =
     (case s p of None \<Rightarrow> None | Some im \<Rightarrow> map_option ((#) p) (next_chain s (im_nextBuffer im) n))"

definition buf_length :: "Heap \<Rightarrow> nat \<Rightarrow> nat" where
  "buf_length h p = (case hp_impl h p of None \<Rightarrow> 0 | Some im \<Rightarrow> sb_length (im_buffer im))"

definition next_of :: "Heap \<Rightarrow> nat \<Rightarrow> nat option" where
  "next_of h p = (case hp_impl h p of None \<Rightarrow> None | Some im \<Rightarrow> im_nextBuffer im)"

text \<open>Next pointers do not dangle, and the buffers they lead to are neither empty nor larger than an \<open>int\<close>.\<close>

definition next_closed :: "Heap \<Rightarrow> bool" where
  "next_closed h \<longleftrightarrow> (\<forall>p q. next_of h p = Some q \<longrightarrow>
     hp_impl h q \<noteq> None \<and> 0 < buf_length h q \<and> buf_length h q < 2 ^ 31)"

lemma impl_shape_eq: "impl_shape h' = impl_shape h \<Longrightarrow> next_of h' = next_of h \<and> buf_length h' = buf_length h
    \<and> (\<forall>p. (hp_impl h' p = None) = (hp_impl h p = None))"
proof -
  assume e: "impl_shape h' = impl_shape h"
  have s: "map_option g (impl_shape k p) = map_option g (hp_impl k p)"
    if "\<And>im x. g (im\<lparr>im_counter := x\<rparr>) = g im" for g :: "Impl \<Rightarrow> 'x" and k p
    using that by (simp add: impl_shape_def option.map_comp comp_def)
  have "next_of h' p = next_of h p \<and> buf_length h' p = buf_length h p \<and> (hp_impl h' p = None) = (hp_impl h p = None)" for p
  proof -
    have "map_option im_nextBuffer (hp_impl h' p) = map_option im_nextBuffer (hp_impl h p)"
      "map_option im_buffer (hp_impl h' p) = map_option im_buffer (hp_impl h p)"
      using s [of im_nextBuffer h' p] s [of im_nextBuffer h p] s [of im_buffer h' p] s [of im_buffer h p] e by simp_all
    then show ?thesis
      by (cases "hp_impl h p"; cases "hp_impl h' p") (simp_all add: next_of_def buf_length_def)
  qed
  then show ?thesis by blast
qed

lemma next_closed_shape: "impl_shape h' = impl_shape h \<Longrightarrow> next_closed h' = next_closed h"
  using impl_shape_eq [of h' h] by (simp add: next_closed_def)

lemma next_chain_shape: "next_chain (impl_shape h) q n = next_chain (hp_impl h) q n"
proof (induction n arbitrary: q)
  case (Suc n)
  then show ?case by (cases q) (auto simp: impl_shape_def split: option.splits)
qed simp

lemma next_chain_SucE:
  assumes "next_chain (impl_shape h) q (Suc n) = Some ps"
  obtains p im ps' where "q = Some p" "hp_impl h p = Some im" "ps = p # ps'"
    "next_chain (impl_shape h) (im_nextBuffer im) n = Some ps'"
proof (cases q)
  case (Some p)
  then obtain im where im: "hp_impl h p = Some im"
    using assms by (auto simp: impl_shape_def split: option.splits)
  then have "map_option ((#) p) (next_chain (impl_shape h) (im_nextBuffer im) n) = Some ps"
    using assms Some by (simp add: impl_shape_def)
  then obtain ps' where "next_chain (impl_shape h) (im_nextBuffer im) n = Some ps'" "ps = p # ps'" by blast
  then show thesis using that Some im by blast
qed (use assms in simp)

lemma to_int32_small: "- (2 ^ 31) \<le> x \<Longrightarrow> x < 2 ^ 31 \<Longrightarrow> to_int32 x = x"
  by (simp add: to_int32_def)

lemma incrNext_loop_ok:
  assumes "accounts h f" "next_closed h" "hp_impl h mb \<noteq> None"
    and "lr < 2 ^ 31" "n + nat lr < SIZE_MAX1"
  shows "\<exists>k ps h'. incrNext_loop mb lr n h = Some (n + k, h')
    \<and> next_chain (impl_shape h) (next_of h mb) k = Some ps
    \<and> accounts h' (\<lambda>p. f p + count_list ps p) \<and> impl_shape h' = impl_shape h
    \<and> (lr \<le> int (sum_list (map (buf_length h) ps)) \<or> next_of h (last (mb # ps)) = None)"
  using assms
proof (induction "nat lr" arbitrary: lr n mb h f rule: less_induct)
  case less
  show ?case
  proof (cases "0 < lr")
    case False
    then have "incrNext_loop mb lr n h = Some (n + 0, h)" by (simp add: incrNext_loop.simps)
    then show ?thesis using less.prems(1) False by (intro exI [of _ 0] exI [of _ "[]"] exI [of _ h]) simp
  next
    case True
    obtain im where im: "hp_impl h mb = Some im" using less.prems(3) by blast
    show ?thesis
    proof (cases "im_nextBuffer im")
      case None
      then have "incrNext_loop mb lr n h = Some (n + 0, h)" "next_of h mb = None"
        using True im by (simp_all add: incrNext_loop.simps next_of_def)
      then show ?thesis using less.prems(1) by (intro exI [of _ 0] exI [of _ "[]"] exI [of _ h]) simp
    next
      case (Some q)
      then have nq: "next_of h mb = Some q" using im by (simp add: next_of_def)
      with less.prems(2) have q: "hp_impl h q \<noteq> None" "0 < buf_length h q" "buf_length h q < 2 ^ 31"
        by (auto simp: next_closed_def)
      then obtain h1 where h1: "Impl_incr q h = Some h1" "accounts h1 (f(q := Suc (f q)))" "impl_shape h1 = impl_shape h"
        using accounts_incr [OF less.prems(1), of q] by (auto simp: impl_shape_def)
      note sh = impl_shape_eq [OF h1(3)]
      obtain im1 where im1: "hp_impl h1 q = Some im1" using sh q(1) by fastforce
      have len: "sb_length (im_buffer im1) = buf_length h q" using sh im1 by (metis buf_length_def option.simps(5))
      let ?lr = "lr - int (buf_length h q)"
      have lr: "to_int32 ?lr = ?lr" using True q(3) less.prems(4) by (intro to_int32_small) auto
      have n1: "sz_add n 1 = n + 1" using less.prems(5) True by (simp add: sz_add_def)
      have step: "incrNext_loop mb lr n h = incrNext_loop q ?lr (n + 1) h1"
        using True im Some h1(1) im1 len lr n1
        by (subst incrNext_loop.simps) simp
      have nc: "next_closed h1" using less.prems(2) next_closed_shape [OF h1(3)] by simp
      have pre: "nat ?lr < nat lr" "?lr < 2 ^ 31" "n + 1 + nat ?lr < SIZE_MAX1"
        using less.prems(4,5) q(2) True by linarith+
      obtain k ps h' where r: "incrNext_loop q ?lr (n + 1) h1 = Some (n + 1 + k, h')"
        "next_chain (impl_shape h1) (next_of h1 q) k = Some ps"
        "accounts h' (\<lambda>p. (f(q := Suc (f q))) p + count_list ps p)" "impl_shape h' = impl_shape h1"
        "?lr \<le> int (sum_list (map (buf_length h1) ps)) \<or> next_of h1 (last (q # ps)) = None"
        using less.hyps [OF pre(1) h1(2) nc _ pre(2,3), of q] im1 by (auto simp del: fun_upd_apply)
      have chain: "next_chain (impl_shape h) (next_of h mb) (Suc k) = Some (q # ps)"
        using r(2) h1(3) sh q(1) nq by (auto simp: impl_shape_def next_of_def split: option.splits)
      have acc: "accounts h' (\<lambda>p. f p + count_list (q # ps) p)"
        using r(3) by (rule accounts_cong) auto
      have cov: "lr \<le> int (sum_list (map (buf_length h) (q # ps))) \<or> next_of h (last (mb # q # ps)) = None"
        using r(5) sh by auto
      show ?thesis
        using step r(1,4) h1(3) chain acc cov by (intro exI [of _ "Suc k"] exI [of _ "q # ps"] exI [of _ h']) simp
    qed
  qed
qed

lemma next_chain_cong:
  assumes "next_chain s q n = Some ps" "\<And>p. p \<in> set ps \<Longrightarrow> s' p = s p"
  shows "next_chain s' q n = Some ps"
  using assms
proof (induction n arbitrary: q ps)
  case (Suc n)
  then obtain p im ps' where p: "q = Some p" "s p = Some im" "ps = p # ps'"
    "next_chain s (im_nextBuffer im) n = Some ps'"
    by (cases q) (auto split: option.splits)
  then show ?case using Suc.IH [OF p(4)] Suc.prems(2) by simp
qed simp

lemma decrNext_loop_ok:
  assumes "accounts h f" "next_chain (impl_shape h) q n = Some ps" "\<And>p. count_list ps p \<le> f p"
  shows "\<exists>h'. decrNext_loop q n h = Some h' \<and> accounts h' (\<lambda>p. f p - count_list ps p)
    \<and> (\<forall>p. impl_shape h' p = impl_shape h p \<or> impl_shape h' p = None)"
  using assms
proof (induction n arbitrary: q ps h f)
  case (Suc n)
  obtain p im ps' where p: "q = Some p" "hp_impl h p = Some im" "ps = p # ps'"
    "next_chain (impl_shape h) (im_nextBuffer im) n = Some ps'"
    using Suc.prems(2) by (rule next_chain_SucE)
  have "0 < f p" using Suc.prems(3) [of p] p(3) by simp
  then obtain h1 where h1: "Impl_decr p h = Some h1" "accounts h1 (f(p := f p - 1))"
    "\<forall>r. impl_shape h1 r = impl_shape h r \<or> r = p \<and> impl_shape h1 r = None"
    using accounts_decr [OF Suc.prems(1)] by blast
  have c: "count_list ps' r \<le> (f(p := f p - 1)) r" for r
    using Suc.prems(3) [of r] p(3) by (auto split: if_splits)
  have "impl_shape h1 r = impl_shape h r" if "r \<in> set ps'" for r
  proof -
    have "0 < count_list ps' r" using that by (metis count_list_0_iff gr0I)
    then have "impl_shape h1 r \<noteq> None" using c [of r] by (intro accounts_held [OF h1(2)]) linarith
    then show ?thesis using h1(3) [rule_format, of r] by auto
  qed
  then have "next_chain (impl_shape h1) (im_nextBuffer im) n = Some ps'"
    using p(4) by (rule next_chain_cong [rotated])
  from Suc.IH [OF h1(2) this c] obtain h' where h': "decrNext_loop (im_nextBuffer im) n h1 = Some h'"
    "accounts h' (\<lambda>r. (f(p := f p - 1)) r - count_list ps' r)"
    "\<forall>r. impl_shape h' r = impl_shape h1 r \<or> impl_shape h' r = None" by blast
  have "accounts h' (\<lambda>r. f r - count_list ps r)"
    using h'(2) by (rule accounts_cong) (auto simp: p(3))
  moreover have "impl_shape h' r = impl_shape h r \<or> impl_shape h' r = None" for r
    using h'(3) [rule_format, of r] h1(3) [rule_format, of r] by auto
  ultimately show ?case using p h1(1) h'(1) by auto
qed simp

subsection \<open>The references of a chunk\<close>

definition chunk_refs :: "Heap \<Rightarrow> BufferChunk \<Rightarrow> nat list option" where
  "chunk_refs h c =
     (case bc_managed c of
        None \<Rightarrow> Some []
      | Some p \<Rightarrow> map_option ((#) p) (next_chain (impl_shape h) (next_of h p) (bc_nextBuffers c)))"

text \<open>
  A chunk whose reference can be taken: its buffer exists, no end address wraps, and the distance
  between the end of the chunk and the end of its first buffer fits an \<open>int\<close>.
\<close>

definition chunk_fits :: "Heap \<Rightarrow> BufferChunk \<Rightarrow> bool" where
  "chunk_fits h c =
     (case bc_managed c of
        None \<Rightarrow> True
      | Some p \<Rightarrow> (case hp_impl h p of
           None \<Rightarrow> False
         | Some im \<Rightarrow>
             (let cend = bc_address c + bc_length c;
                  bend = sb_address (im_buffer im) + sb_length (im_buffer im)
              in cend < SIZE_MAX1 \<and> bend < SIZE_MAX1 \<and> cend < bend + 2 ^ 31 \<and> bend \<le> cend + 2 ^ 31)))"

definition buf_end :: "Heap \<Rightarrow> nat \<Rightarrow> nat" where
  "buf_end h p = (case hp_impl h p of None \<Rightarrow> 0 | Some im \<Rightarrow> sb_address (im_buffer im) + sb_length (im_buffer im))"

lemma to_int32_distance:
  assumes "a < SIZE_MAX1" "b < SIZE_MAX1" "a < b + 2 ^ 31" "b \<le> a + 2 ^ 31"
  shows "to_int32 (int (sz_sub a b)) = int a - int b"
proof -
  have "int (sz_sub a b) = (int a - int b) mod 2 ^ 64"
  proof -
    have "int (sz_sub a b) = (int a + 2 ^ 64 - int b) mod 2 ^ 64"
      using assms(2) by (simp add: sz_sub_def of_nat_mod of_nat_diff)
    also have "\<dots> = ((int a - int b) + 2 ^ 64) mod 2 ^ 64" by (simp only: algebra_simps)
    also have "\<dots> = (int a - int b) mod 2 ^ 64" by (rule mod_add_self2)
    finally show ?thesis .
  qed
  moreover have "((x mod 2 ^ 64) + 2 ^ 31) mod 2 ^ 32 = (x + 2 ^ 31) mod 2 ^ 32" for x :: int
  proof -
    have "x mod 2 ^ 64 mod 2 ^ 32 = x mod 2 ^ 32"
      by (rule mod_mod_cancel) (rule le_imp_power_dvd, simp)
    then show ?thesis using mod_add_left_eq [of "x mod 2 ^ 64" "2 ^ 32" "2 ^ 31"] mod_add_left_eq [of x "2 ^ 32" "2 ^ 31"]
      by (simp only:)
  qed
  ultimately have "to_int32 (int (sz_sub a b)) = to_int32 (int a - int b)"
    unfolding to_int32_def by metis
  also have "\<dots> = int a - int b" using assms(3,4) by (intro to_int32_small) auto
  finally show ?thesis .
qed

lemma incrNextBuffers_ok:
  assumes "accounts h f" "next_closed h" "chunk_fits h c"
  shows "\<exists>k ps h'. BufferChunk_incrNextBuffers c h = Some (c\<lparr>bc_nextBuffers := k\<rparr>, h')
    \<and> accounts h' (\<lambda>p. f p + count_list ps p) \<and> impl_shape h' = impl_shape h
    \<and> (case bc_managed c of None \<Rightarrow> k = 0 \<and> ps = []
       | Some p \<Rightarrow> next_chain (impl_shape h) (next_of h p) k = Some ps
           \<and> (bc_address c + bc_length c \<le> buf_end h p + sum_list (map (buf_length h) ps)
              \<or> next_of h (last (p # ps)) = None))"
proof (cases "bc_managed c")
  case None
  then show ?thesis
    using assms(1) by (intro exI [of _ 0] exI [of _ "[]"] exI [of _ h]) (simp add: BufferChunk_incrNextBuffers_def)
next
  case (Some p)
  then obtain im where im: "hp_impl h p = Some im" using assms(3) by (auto simp: chunk_fits_def split: option.splits)
  let ?c = "bc_address c + bc_length c" and ?b = "sb_address (im_buffer im) + sb_length (im_buffer im)"
  have fit: "?c < SIZE_MAX1" "?b < SIZE_MAX1" "?c < ?b + 2 ^ 31" "?b \<le> ?c + 2 ^ 31"
    using assms(3) Some im by (auto simp: chunk_fits_def Let_def)
  have lr: "to_int32 (int (sz_sub (BufferChunk_getEnd c) (SharedBuffer_getEnd (im_buffer im)))) = int ?c - int ?b"
    using to_int32_distance [OF fit] fit(1,2) by (simp add: BufferChunk_getEnd_def SharedBuffer_getEnd_def sz_simps)
  have "int ?c - int ?b < 2 ^ 31" "0 + nat (int ?c - int ?b) < SIZE_MAX1" using fit by auto
  from incrNext_loop_ok [OF assms(1,2) _ this, of p] im
  obtain k ps h' where r: "incrNext_loop p (int ?c - int ?b) 0 h = Some (k, h')"
    "next_chain (impl_shape h) (next_of h p) k = Some ps" "accounts h' (\<lambda>p. f p + count_list ps p)"
    "impl_shape h' = impl_shape h"
    "int ?c - int ?b \<le> int (sum_list (map (buf_length h) ps)) \<or> next_of h (last (p # ps)) = None"
    by auto
  have "BufferChunk_incrNextBuffers c h = Some (c\<lparr>bc_nextBuffers := k\<rparr>, h')"
    using Some im r(1) lr by (simp add: BufferChunk_incrNextBuffers_def BufferChunk_getBuffer_def
        ManagedBuffer_getBuffer_def BufferChunk_getEnd_def)
  moreover have "?c \<le> buf_end h p + sum_list (map (buf_length h) ps) \<or> next_of h (last (p # ps)) = None"
    using r(5) im by (auto simp: buf_end_def)
  ultimately show ?thesis using r Some by (intro exI [of _ k] exI [of _ ps] exI [of _ h']) simp
qed

lemma decrNextBuffers_ok:
  assumes "accounts h f" "chunk_refs h c = Some ps" "\<And>p. count_list ps p \<le> f p"
  shows "\<exists>h'. BufferChunk_decrNextBuffers c h
        = Some ((case bc_managed c of None \<Rightarrow> c | Some p \<Rightarrow> c\<lparr>bc_nextBuffers := 0\<rparr>), h')
    \<and> accounts h' (\<lambda>p. f p - count_list (tl ps) p)
    \<and> (\<forall>p. impl_shape h' p = impl_shape h p \<or> impl_shape h' p = None)"
proof (cases "bc_managed c")
  case None
  then show ?thesis using assms by (auto simp: BufferChunk_decrNextBuffers_def chunk_refs_def)
next
  case (Some p)
  then obtain qs where qs: "next_chain (impl_shape h) (next_of h p) (bc_nextBuffers c) = Some qs" "ps = p # qs"
    using assms(2) by (auto simp: chunk_refs_def)
  have "0 < f p" using assms(3) [of p] qs(2) by simp
  then obtain im where im: "hp_impl h p = Some im" using accounts_held [OF assms(1)] by (auto simp: impl_shape_def)
  have "count_list qs r \<le> f r" for r using assms(3) [of r] qs(2) by (auto split: if_splits)
  from decrNext_loop_ok [OF assms(1) qs(1) this] show ?thesis
    using Some im qs(2) by (auto simp: BufferChunk_decrNextBuffers_def next_of_def)
qed

lemma BufferChunk_delete_ok:
  assumes "accounts h f" "chunk_refs h c = Some ps" "\<And>p. count_list ps p \<le> f p"
  shows "\<exists>h'. BufferChunk_delete c h = Some h' \<and> accounts h' (\<lambda>p. f p - count_list ps p)
    \<and> (\<forall>p. impl_shape h' p = impl_shape h p \<or> impl_shape h' p = None)"
proof (cases "bc_managed c")
  case None
  then show ?thesis
    using assms by (auto simp: BufferChunk_delete_def BufferChunk_decrNextBuffers_def chunk_refs_def ManagedBuffer_delete_def)
next
  case (Some p)
  then obtain qs where qs: "ps = p # qs" using assms(2) by (auto simp: chunk_refs_def)
  obtain h1 where h1: "BufferChunk_decrNextBuffers c h = Some (c\<lparr>bc_nextBuffers := 0\<rparr>, h1)"
    "accounts h1 (\<lambda>p. f p - count_list qs p)"
    "\<forall>p. impl_shape h1 p = impl_shape h p \<or> impl_shape h1 p = None"
    using decrNextBuffers_ok [OF assms] Some qs by auto
  have "0 < f p - count_list qs p" using assms(3) [of p] qs by simp
  then obtain h2 where h2: "Impl_decr p h1 = Some h2"
    "accounts h2 ((\<lambda>r. f r - count_list qs r)(p := f p - count_list qs p - 1))"
    "\<forall>r. impl_shape h2 r = impl_shape h1 r \<or> r = p \<and> impl_shape h2 r = None"
    using accounts_decr [OF h1(2)] by blast
  have "impl_shape h2 r = impl_shape h r \<or> impl_shape h2 r = None" for r
    using h1(3) [rule_format, of r] h2(3) [rule_format, of r] by auto
  moreover from h2(2) have "accounts h2 (\<lambda>r. f r - count_list ps r)"
    by (rule accounts_cong) (auto simp: qs)
  ultimately show ?thesis using h1(1) h2(1) Some by (simp add: BufferChunk_delete_def ManagedBuffer_delete_def)
qed

lemma BufferChunk_copy_ok:
  assumes "accounts h f" "next_closed h" "chunk_fits h c"
  shows "\<exists>k ps h'. BufferChunk_copy c h = Some (c\<lparr>bc_nextBuffers := k\<rparr>, h')
    \<and> accounts h' (\<lambda>p. f p + count_list ps p) \<and> impl_shape h' = impl_shape h
    \<and> chunk_refs h' (c\<lparr>bc_nextBuffers := k\<rparr>) = Some ps
    \<and> (\<forall>p. bc_managed c = Some p \<longrightarrow>
         bc_address c + bc_length c \<le> buf_end h p + sum_list (map (buf_length h) (tl ps)) \<or> next_of h (last ps) = None)"
proof (cases "bc_managed c")
  case None
  have e: "c\<lparr>bc_managed := None\<rparr> = c" using None by (metis BufferChunk.surjective BufferChunk.update_convs(4))
  show ?thesis
    using incrNextBuffers_ok [OF assms] None
    by (auto simp: e BufferChunk_copy_def ManagedBuffer_copy_def ManagedBuffer_from_impl_def chunk_refs_def)
next
  case (Some p)
  have e: "c\<lparr>bc_managed := Some p\<rparr> = c" using Some by (metis BufferChunk.surjective BufferChunk.update_convs(4))
  obtain im where "hp_impl h p = Some im" using assms(3) Some by (auto simp: chunk_fits_def split: option.splits)
  then obtain h1 where h1: "Impl_incr p h = Some h1" "accounts h1 (f(p := Suc (f p)))" "impl_shape h1 = impl_shape h"
    using accounts_incr [OF assms(1), of p] by (auto simp: impl_shape_def)
  note sh = impl_shape_eq [OF h1(3)]
  have "chunk_fits h1 c" "buf_end h1 p = buf_end h p"
    using assms(3) Some h1(1) by (auto simp: chunk_fits_def buf_end_def Impl_incr_def heap_modify_def split: option.splits)
  moreover have "next_closed h1" using assms(2) next_closed_shape [OF h1(3)] by simp
  ultimately obtain k ps h' where r: "BufferChunk_incrNextBuffers c h1 = Some (c\<lparr>bc_nextBuffers := k\<rparr>, h')"
    "accounts h' (\<lambda>q. (f(p := Suc (f p))) q + count_list ps q)" "impl_shape h' = impl_shape h1"
    "next_chain (impl_shape h1) (next_of h1 p) k = Some ps"
    "bc_address c + bc_length c \<le> buf_end h p + sum_list (map (buf_length h1) ps) \<or> next_of h1 (last (p # ps)) = None"
    using incrNextBuffers_ok [OF h1(2), of c] Some by auto
  have acc: "accounts h' (\<lambda>q. f q + count_list (p # ps) q)" using r(2) by (rule accounts_cong) auto
  have "chunk_refs h' (c\<lparr>bc_nextBuffers := k\<rparr>) = Some (p # ps)"
    using Some r(3,4) impl_shape_eq [OF r(3)] by (simp add: chunk_refs_def)
  then show ?thesis
    using acc r h1 sh Some
    by (intro exI [of _ k] exI [of _ "p # ps"] exI [of _ h'])
       (simp add: e BufferChunk_copy_def ManagedBuffer_copy_def ManagedBuffer_from_impl_def)
qed

subsection \<open>Contents\<close>

lemma length_bytes [simp]: "length (bytes m a n) = n"
  by (simp add: bytes_def)

lemma nth_bytes [simp]: "i < n \<Longrightarrow> bytes m a n ! i = m (a + i)"
  by (simp add: bytes_def)

definition disjoint_range :: "nat \<Rightarrow> nat \<Rightarrow> nat \<Rightarrow> nat \<Rightarrow> bool" where
  "disjoint_range a n b k \<longleftrightarrow> a + n \<le> b \<or> b + k \<le> a"

lemma bytes_memcpy: "bytes (memcpy d s n m) d n = bytes m s n"
  by (rule nth_equalityI) (simp_all add: memcpy_def)

lemma bytes_memcpy_other: "disjoint_range d n a k \<Longrightarrow> bytes (memcpy d s n m) a k = bytes m a k"
  by (rule nth_equalityI) (auto simp: memcpy_def disjoint_range_def)

lemma bytes_split: "bytes m a (n + k) = bytes m a n @ bytes m (a + n) k"
  by (rule nth_equalityI) (auto simp: nth_append)

lemma bytes_two_copies:
  assumes "disjoint_range d (n + k) s n" "disjoint_range d (n + k) t k"
  shows "bytes (memcpy (d + n) t k (memcpy d s n m)) d (n + k) = bytes m s n @ bytes m t k"
proof -
  have "bytes (memcpy (d + n) t k (memcpy d s n m)) d n = bytes m s n"
    using bytes_memcpy [of d s n m] bytes_memcpy_other [of "d + n" k d n t "memcpy d s n m"]
    by (simp add: disjoint_range_def)
  moreover have "bytes (memcpy (d + n) t k (memcpy d s n m)) (d + n) k = bytes m t k"
    using bytes_memcpy [of "d + n" t k "memcpy d s n m"] bytes_memcpy_other [of d n t k s m] assms(2)
    by (auto simp: disjoint_range_def)
  ultimately show ?thesis by (simp add: bytes_split)
qed

lemma ManagedBuffer_new_ok:
  assumes "accounts h f"
  shows "\<exists>p h'. ManagedBuffer_new buff h = Some (Some p, h') \<and> accounts h' (f(p := Suc (f p))) \<and> f p = 0
    \<and> hp_impl h' p = Some (Impl_new\<lparr>im_buffer := buff\<rparr>) \<and> impl_shape h p = None \<and> (\<forall>q. q \<noteq> p \<longrightarrow> hp_impl h' q = hp_impl h q)"
proof -
  obtain p h1 where p: "heap_new h = (p, h1)" by fastforce
  note n = accounts_new [OF assms p]
  have "impl_shape h p = None" using p assms by (auto simp: heap_new_def impl_shape_def accounts_def)
  moreover have "hp_impl h1 p = Some Impl_new" "\<And>q. q \<noteq> p \<Longrightarrow> hp_impl h1 q = hp_impl h q"
    using p by (auto simp: heap_new_def)
  ultimately show ?thesis
    using accounts_modify [OF n(1,2), of "\<lambda>im. im\<lparr>im_buffer := buff\<rparr>" 0] p n(3)
    by (auto simp: ManagedBuffer_new_def heap_modify_def)
qed

text \<open>Replacing a chunk by one that lies inside its own single buffer.\<close>

lemma BufferChunk_assign_fresh:
  assumes "accounts h f" "chunk_refs h c = Some ps" "\<And>p. count_list ps p \<le> (f(q := 0)) p" "0 < f q"
    and "bc_managed other = Some q" "hp_impl h q = Some im"
    and "bc_address other + bc_length other = sb_address (im_buffer im) + sb_length (im_buffer im)"
    and "bc_address other + bc_length other < SIZE_MAX1"
  shows "\<exists>h'. BufferChunk_assign c other h = Some (other\<lparr>bc_nextBuffers := 0\<rparr>, h')
    \<and> accounts h' (\<lambda>p. (f(q := Suc (f q))) p - count_list ps p)"
proof -
  have cnt: "count_list ps p \<le> f p" for p using assms(3) [of p] by (auto split: if_splits)
  have q0: "count_list ps q = 0" using assms(3) [of q] by simp
  obtain h1 where h1: "BufferChunk_delete c h = Some h1" "accounts h1 (\<lambda>p. f p - count_list ps p)"
    "impl_shape h1 q = impl_shape h q \<or> impl_shape h1 q = None"
    using BufferChunk_delete_ok [OF assms(1,2) cnt] by blast
  obtain c1 h0 where c1: "BufferChunk_decrNextBuffers c h = Some (c1, h0)" "ManagedBuffer_delete (bc_managed c1) h0 = Some h1"
    using h1(1) by (auto simp: BufferChunk_delete_def split: bind_splits)
  have ex: "impl_shape h1 q \<noteq> None" using accounts_held [OF h1(2), of q] q0 assms(4) by simp
  then obtain h2 where h2: "Impl_incr q h1 = Some h2" "accounts h2 ((\<lambda>p. f p - count_list ps p)(q := Suc (f q)))"
    "impl_shape h2 = impl_shape h1"
    using accounts_incr [OF h1(2), of q] q0 by auto
  have "impl_shape h2 q = impl_shape h q" using h1(3) h2(3) ex by auto
  then obtain im2 where im2: "hp_impl h2 q = Some im2" "im_buffer im2 = im_buffer im"
    using assms(6) by (auto simp: impl_shape_def) (metis Impl.select_convs(3) Impl.surjective Impl.update_convs(1))
  have inc: "BufferChunk_incrNextBuffers (c1\<lparr>bc_address := bc_address other, bc_length := bc_length other,
          bc_dtype := bc_dtype other, bc_managed := Some q\<rparr>) h2 = Some (other\<lparr>bc_nextBuffers := 0\<rparr>, h2)"
    using assms(5,7,8) im2
    by (simp add: BufferChunk_incrNextBuffers_def BufferChunk_getBuffer_def ManagedBuffer_getBuffer_def
        BufferChunk_getEnd_def SharedBuffer_getEnd_def sz_sub_def sz_add_def to_int32_def incrNext_loop.simps)
  have "accounts h2 (\<lambda>p. (f(q := Suc (f q))) p - count_list ps p)"
    using h2(2) by (rule accounts_cong) (use q0 in auto)
  then show ?thesis
    using c1 h2(1) inc assms(5) by (simp add: BufferChunk_assign_def ManagedBuffer_assign_def Let_def)
qed

lemma chunk_refs_cong:
  assumes "chunk_refs h c = Some ps" "\<And>p. p \<in> set ps \<Longrightarrow> hp_impl h' p = hp_impl h p"
  shows "chunk_refs h' c = Some ps"
proof (cases "bc_managed c")
  case None
  then show ?thesis using assms(1) by (simp add: chunk_refs_def)
next
  case (Some p)
  then obtain qs where qs: "next_chain (impl_shape h) (next_of h p) (bc_nextBuffers c) = Some qs" "ps = p # qs"
    using assms(1) by (auto simp: chunk_refs_def)
  have "next_chain (impl_shape h') (next_of h p) (bc_nextBuffers c) = Some qs"
    using qs(1) by (rule next_chain_cong) (use assms(2) qs(2) in \<open>simp add: impl_shape_def\<close>)
  moreover have "next_of h' p = next_of h p" using assms(2) [of p] qs(2) by (simp add: next_of_def)
  ultimately show ?thesis using Some qs(2) by (simp add: chunk_refs_def)
qed

subsection \<open>Properties\<close>

text \<open>
  C13. Copying a chunk keeps all of its memory alive. When the next pointers do not dangle, the
  copy takes one reference on the chunk's buffer and on each following buffer up to the end of the
  chunk (unless the chain ends before), terminates, and changes nothing else on the heap;
  destroying the copy gives exactly these references back.
\<close>

theorem chunk_copy_holds_its_buffers:
  assumes "accounts h f" "next_closed h" "chunk_fits h c"
  shows "\<exists>k ps h'. BufferChunk_copy c h = Some (c\<lparr>bc_nextBuffers := k\<rparr>, h')
    \<and> chunk_refs h' (c\<lparr>bc_nextBuffers := k\<rparr>) = Some ps
    \<and> accounts h' (\<lambda>p. f p + count_list ps p) \<and> impl_shape h' = impl_shape h
    \<and> (\<forall>p. bc_managed c = Some p \<longrightarrow>
         bc_address c + bc_length c \<le> buf_end h p + sum_list (map (buf_length h) (tl ps)) \<or> next_of h (last ps) = None)
    \<and> (\<exists>h''. BufferChunk_delete (c\<lparr>bc_nextBuffers := k\<rparr>) h' = Some h'' \<and> accounts h'' f)"
proof -
  obtain k ps h' where r: "BufferChunk_copy c h = Some (c\<lparr>bc_nextBuffers := k\<rparr>, h')"
    "accounts h' (\<lambda>p. f p + count_list ps p)" "impl_shape h' = impl_shape h"
    "chunk_refs h' (c\<lparr>bc_nextBuffers := k\<rparr>) = Some ps"
    "\<forall>p. bc_managed c = Some p \<longrightarrow>
       bc_address c + bc_length c \<le> buf_end h p + sum_list (map (buf_length h) (tl ps)) \<or> next_of h (last ps) = None"
    using BufferChunk_copy_ok [OF assms] by blast
  obtain h'' where "BufferChunk_delete (c\<lparr>bc_nextBuffers := k\<rparr>) h' = Some h''"
    "accounts h'' (\<lambda>p. f p + count_list ps p - count_list ps p)"
    using BufferChunk_delete_ok [OF r(2,4)] by auto
  then show ?thesis using r by auto
qed

theorem chunk_copy_holds_its_buffers_witness:
  "\<exists>k h'. BufferChunk_copy (BufferChunk_null\<lparr>bc_address := 100, bc_length := 12, bc_managed := Some 0\<rparr>)
     (heap_empty\<lparr>hp_fresh := 2, hp_impl := [0 \<mapsto> Impl_new\<lparr>im_buffer := SharedBuffer_new 100 8 None, im_nextBuffer := Some 1\<rparr>,
                  1 \<mapsto> Impl_new\<lparr>im_buffer := SharedBuffer_new 108 8 None\<rparr>]\<rparr>)
   = Some (BufferChunk_null\<lparr>bc_address := 100, bc_length := 12, bc_managed := Some 0, bc_nextBuffers := k\<rparr>, h')"
proof -
  let ?h = "heap_empty\<lparr>hp_fresh := 2, hp_impl := [0 \<mapsto> Impl_new\<lparr>im_buffer := SharedBuffer_new 100 8 None, im_nextBuffer := Some 1\<rparr>,
                  1 \<mapsto> Impl_new\<lparr>im_buffer := SharedBuffer_new 108 8 None\<rparr>]\<rparr>"
  let ?c = "BufferChunk_null\<lparr>bc_address := 100, bc_length := 12, bc_managed := Some 0\<rparr>"
  have a: "accounts ?h (\<lambda>p. if p < 2 then 1 else 0)"
    by (auto simp: accounts_def heap_empty_def home_count_def Impl_new_def)
  have b: "next_closed ?h"
    by (auto simp: next_closed_def next_of_def buf_length_def Impl_new_def SharedBuffer_new_def heap_empty_def split: if_splits)
  have c: "chunk_fits ?h ?c"
    by (simp add: chunk_fits_def Let_def SharedBuffer_new_def BufferChunk_null_def)
  from chunk_copy_holds_its_buffers [OF a b c] show ?thesis by blast
qed

text \<open>
  Appending to a non-null chunk. The result refers to fresh memory that holds the bytes of
  the chunk followed by the bytes of the other one, keeps the data type of the first, and the
  references the chunk held on its old buffers are given back. The allocator is assumed to return
  a buffer of the requested size apart from both chunks.
\<close>

theorem chunk_append_concatenates:
  assumes acc: "accounts h f" "chunk_refs h this = Some ps" "\<And>p. count_list ps p \<le> f p" "bc_managed this \<noteq> None"
    and n_def: "n = bc_length this + bc_length other"
    and mk: "sb_length (sbMake n) = n" "sb_address (sbMake n) + n < SIZE_MAX1"
    "disjoint_range (sb_address (sbMake n)) n (bc_address this) (bc_length this)"
    "disjoint_range (sb_address (sbMake n)) n (bc_address other) (bc_length other)"
  shows "\<exists>r h' mem' p. BufferChunk_append sbMake this other (h, mem) = Some (r, h', mem')
    \<and> bytes mem' (bc_address r) (bc_length r)
        = bytes mem (bc_address this) (bc_length this) @ bytes mem (bc_address other) (bc_length other)
    \<and> bc_dtype r = bc_dtype this \<and> bc_managed r = Some p
    \<and> accounts h' ((\<lambda>q. f q - count_list ps q)(p := 1))"
proof -
  let ?b = "sbMake n"
  obtain p h1 where h1: "ManagedBuffer_new ?b h = Some (Some p, h1)" "accounts h1 (f(p := Suc (f p)))" "f p = 0"
    "hp_impl h1 p = Some (Impl_new\<lparr>im_buffer := ?b\<rparr>)" "\<forall>q. q \<noteq> p \<longrightarrow> hp_impl h1 q = hp_impl h q"
    using ManagedBuffer_new_ok [OF acc(1), of ?b] by auto
  let ?acc = "\<lparr>bc_address = sb_address ?b, bc_length = n, bc_dtype = bc_dtype this, bc_managed = Some p, bc_nextBuffers = 0\<rparr>"
  have p0: "count_list ps p = 0" using acc(3) [of p] h1(3) by simp
  then have "p \<notin> set ps" by (simp add: count_list_0_iff)
  then have "hp_impl h1 q = hp_impl h q" if "q \<in> set ps" for q
    using h1(5) that by auto
  then have refs: "chunk_refs h1 this = Some ps"
    by (rule chunk_refs_cong [OF acc(2)])
  have c: "count_list ps q \<le> ((f(p := Suc (f p)))(p := 0)) q" for q using acc(3) [of q] p0 by auto
  obtain h2 where h2: "BufferChunk_assign this ?acc h1 = Some (?acc, h2)"
    "accounts h2 (\<lambda>q. ((f(p := Suc (f p)))(p := Suc (Suc (f p)))) q - count_list ps q)"
    using BufferChunk_assign_fresh [OF h1(2) refs c, of ?acc "Impl_new\<lparr>im_buffer := ?b\<rparr>"] h1(4) mk(1,2) by auto
  have "chunk_refs h2 ?acc = Some [p]" by (simp add: chunk_refs_def)
  moreover have "count_list [p] q \<le> ((f(p := Suc (f p)))(p := Suc (Suc (f p)))) q - count_list ps q" for q
    using p0 by auto
  ultimately obtain h3 where h3: "BufferChunk_delete ?acc h2 = Some h3"
    "accounts h3 (\<lambda>q. ((f(p := Suc (f p)))(p := Suc (Suc (f p)))) q - count_list ps q - count_list [p] q)"
    using BufferChunk_delete_ok [OF h2(2)] by blast
  have fin: "accounts h3 ((\<lambda>q. f q - count_list ps q)(p := 1))"
    using h3(2) by (rule accounts_cong) (use p0 h1(3) in auto)
  have sums: "sz_add (bc_length this) (bc_length other) = n" "sz_add (sb_address ?b) (bc_length this) = sb_address ?b + bc_length this"
    using mk(2) unfolding n_def by (simp_all add: sz_simps)
  have "BufferChunk_append sbMake this other (h, mem) = Some (?acc, h3,
      memcpy (sb_address ?b + bc_length this) (bc_address other) (bc_length other)
        (memcpy (sb_address ?b) (bc_address this) (bc_length this) mem))"
    using acc(4) h1(1) h2(1) h3(1) sums by (simp add: BufferChunk_append_def BufferChunk_bool_def BufferChunk_new_def Let_def)
  moreover have "bytes (memcpy (sb_address ?b + bc_length this) (bc_address other) (bc_length other)
        (memcpy (sb_address ?b) (bc_address this) (bc_length this) mem)) (sb_address ?b) n
      = bytes mem (bc_address this) (bc_length this) @ bytes mem (bc_address other) (bc_length other)"
    using mk(3,4) unfolding n_def by (rule bytes_two_copies)
  ultimately show ?thesis
    using fin by (intro exI [of _ ?acc] exI [of _ h3] exI conjI) (rule refl | assumption | simp)+
qed

theorem chunk_append_concatenates_witness:
  "\<exists>r h' mem' p. BufferChunk_append (\<lambda>n. SharedBuffer_new 4096 n (Some 9))
      (BufferChunk_null\<lparr>bc_address := 100, bc_length := 2, bc_managed := Some 0\<rparr>)
      (BufferChunk_null\<lparr>bc_address := 200, bc_length := 3\<rparr>)
      (heap_empty\<lparr>hp_fresh := 1, hp_impl := [0 \<mapsto> Impl_new]\<rparr>, \<lambda>a. of_nat a) = Some (r, h', mem')
    \<and> bytes mem' (bc_address r) (bc_length r) = bytes (\<lambda>a. of_nat a) 100 2 @ bytes (\<lambda>a. of_nat a) 200 3"
proof -
  let ?h = "heap_empty\<lparr>hp_fresh := 1, hp_impl := [0 \<mapsto> Impl_new]\<rparr>"
  let ?t = "BufferChunk_null\<lparr>bc_address := 100, bc_length := 2, bc_managed := Some 0\<rparr>"
  have "accounts ?h (\<lambda>p. if p = 0 then 1 else 0)"
    by (auto simp: accounts_def heap_empty_def home_count_def Impl_new_def)
  moreover have "chunk_refs ?h ?t = Some [0]" by (simp add: chunk_refs_def BufferChunk_null_def)
  moreover have r: "count_list [0] p \<le> (if p = (0 :: nat) then 1 else 0)" for p by simp
  ultimately show ?thesis
    using chunk_append_concatenates [of ?h "\<lambda>p. if p = 0 then 1 else 0" ?t "[0]" 5
        "BufferChunk_null\<lparr>bc_address := 200, bc_length := 3\<rparr>" "\<lambda>n. SharedBuffer_new 4096 n (Some 9)" "\<lambda>a. of_nat a"] r
    by (auto simp: BufferChunk_null_def SharedBuffer_new_def disjoint_range_def)
qed

end
