(* ===== verification/BufferManager.thy ===== *)
theory BufferManager
  imports OrderedQueue BufferChunk
begin

section \<open>Buffer managers: BufferManager.cpp, GenericBufferManager.cpp, CircularBufferManager.cpp\<close>

text \<open>
  A buffer manager cuts one slab into buffers, hands out the front one piece by piece with \<open>pop\<close>, and
  takes buffers back with \<open>push\<close>, in any order. Both managers are built on \<open>OrderedQueue\<close>; the
  operations below are whole member functions. They read and write the \<open>Impl\<close> objects of the heap
  (slab index and memory); the counters are the subject of \<open>ManagedBuffer\<close> and are left alone
  here. The allocator is the parameter \<open>alloc\<close>.

  The contract that both implement, the locale \<open>buffer_manager\<close>, is a cursor that walks the slab in
  cyclic order, the set of available buffers and the offset into the front buffer.
\<close>

datatype bm_error = AlreadyInitialized | SharedBufferThrow sb_error | UndefinedBehaviour

record BufferManagerArgs =
  numBuffers :: size_t
  bufferSize :: size_t
  nodeAffinity :: int

definition BufferManagerArgs_default :: BufferManagerArgs where
  "BufferManagerArgs_default = \<lparr>numBuffers = 4, bufferSize = 8 * 1024, nodeAffinity = - 1\<rparr>"

text \<open>The implicit conversion of a managed buffer to a chunk in \<open>setFrontBuffer(buff)\<close>.\<close>

definition managed_chunk :: "ManagedBuffer \<Rightarrow> SharedBuffer \<Rightarrow> BufferChunk" where
  "managed_chunk mb b = \<lparr>bc_address = sb_address b, bc_length = sb_length b, bc_dtype = DType_default,
                         bc_managed = mb, bc_nextBuffers = 0\<rparr>"

text \<open>The base class: \<open>BufferManager::init\<close>.\<close>

definition BufferManager_init :: "bool \<Rightarrow> bm_error + bool" where
  "BufferManager_init initialized = (if initialized then Inl AlreadyInitialized else Inr True)"

subsection \<open>The generic manager\<close>

record GenericBufferManager =
  gm_initialized :: bool
  gm_frontBuffer :: BufferChunk
  gm_bufferSize :: size_t
  gm_bytesPopped :: size_t
  gm_readyBuffs :: "ManagedBuffer OrderedQueue"

definition GenericBufferManager_new :: "GenericBufferManager option" where
  "GenericBufferManager_new = do {
     q \<leftarrow> OrderedQueue_default;
     Some \<lparr>gm_initialized = False, gm_frontBuffer = BufferChunk_null, gm_bufferSize = 0,
           gm_bytesPopped = 0, gm_readyBuffs = q\<rparr> }"

definition Generic_empty :: "GenericBufferManager \<Rightarrow> bool" where
  "Generic_empty m = OrderedQueue_empty (gm_readyBuffs m)"

definition Generic_push :: "GenericBufferManager \<Rightarrow> ManagedBuffer \<Rightarrow> Heap \<Rightarrow> GenericBufferManager option" where
  "Generic_push m buff h = do {
     b \<leftarrow> ManagedBuffer_getBuffer buff h;
     i \<leftarrow> ManagedBuffer_getSlabIndex buff h;
     let m = (if OrderedQueue_empty (gm_readyBuffs m) then m\<lparr>gm_frontBuffer := managed_chunk buff b\<rparr> else m);
     q \<leftarrow> OrderedQueue_push (gm_readyBuffs m) buff i;
     Some (m\<lparr>gm_readyBuffs := q\<rparr>) }"

definition Generic_pop :: "GenericBufferManager \<Rightarrow> size_t \<Rightarrow> Heap \<Rightarrow> GenericBufferManager option" where
  "Generic_pop m numBytes h =
     (let m = m\<lparr>gm_bytesPopped := sz_add (gm_bytesPopped m) numBytes\<rparr> in
      if sz_mul (gm_bytesPopped m) 2 < gm_bufferSize m then
        (let buff = gm_frontBuffer m;
             buff = buff\<lparr>bc_address := sz_add (bc_address buff) numBytes, bc_length := sz_sub (bc_length buff) numBytes\<rparr>
         in Some (m\<lparr>gm_frontBuffer := buff\<rparr>))
      else
        (let m = m\<lparr>gm_bytesPopped := 0, gm_readyBuffs := OrderedQueue_pop (gm_readyBuffs m)\<rparr> in
         if OrderedQueue_empty (gm_readyBuffs m) then Some (m\<lparr>gm_frontBuffer := BufferChunk_null\<rparr>)
         else do {
           mb \<leftarrow> OrderedQueue_front (gm_readyBuffs m);
           b \<leftarrow> ManagedBuffer_getBuffer mb h;
           Some (m\<lparr>gm_frontBuffer := managed_chunk mb b\<rparr>) }))"

text \<open>
  \<open>init\<close>: the state of the loops is the manager, the vector of managed buffers and the heap;
  \<open>self\<close> is the identity of the manager. The second loop sets the next pointers.
\<close>

definition Generic_init_body ::
  "nat \<Rightarrow> BufferManagerArgs \<Rightarrow> SharedBuffer \<Rightarrow> nat
     \<Rightarrow> GenericBufferManager \<times> ManagedBuffer list \<times> Heap
     \<Rightarrow> bm_error + GenericBufferManager \<times> ManagedBuffer list \<times> Heap" where
  "Generic_init_body self args commonSlab i = (\<lambda>(m, mbs, h).
     let addr = sz_add (sb_address commonSlab) (sz_mul (bufferSize args) i) in
     case SharedBuffer_sub addr (bufferSize args) commonSlab of
       Inl e \<Rightarrow> Inl (SharedBufferThrow e)
     | Inr sharedBuff \<Rightarrow> of_opt UndefinedBehaviour (do {
         (mb, h) \<leftarrow> ManagedBuffer_reset_manager (mbs ! i) self sharedBuff i h;
         m \<leftarrow> Generic_push m mb h;
         Some (m, mbs[i := mb], h) }))"

definition set_next_body :: "ManagedBuffer list \<Rightarrow> nat \<Rightarrow> Heap \<Rightarrow> bm_error + Heap" where
  "set_next_body mbs i h =
     (if Suc i < length mbs
      then of_opt UndefinedBehaviour (ManagedBuffer_setNextBuffer (mbs ! i) (mbs ! Suc i) h)
      else Inl UndefinedBehaviour)"

definition Generic_init ::
  "nat \<Rightarrow> BufferManagerArgs \<Rightarrow> (BufferManagerArgs \<Rightarrow> SharedBuffer) \<Rightarrow> GenericBufferManager \<times> Heap
     \<Rightarrow> bm_error + GenericBufferManager \<times> ManagedBuffer list \<times> Heap" where
  "Generic_init self args alloc = (\<lambda>(m, h).
     rbind (BufferManager_init (gm_initialized m)) (\<lambda>ini.
     rbind (of_opt UndefinedBehaviour (OrderedQueue_new None (numBuffers args))) (\<lambda>q.
       let m = m\<lparr>gm_initialized := ini, gm_bufferSize := bufferSize args, gm_readyBuffs := q\<rparr>;
           commonSlab = alloc args in
     rbind (for_loop (Generic_init_body self args commonSlab) [0..<numBuffers args]
              (m, replicate (numBuffers args) None, h)) (\<lambda>(m, mbs, h).
     rbind (if length mbs = 0 then Inl UndefinedBehaviour
            else for_loop (set_next_body mbs) [0..<length mbs - 1] h) (\<lambda>h.
     Inr (m, mbs, h))))))"

subsection \<open>The circular manager\<close>

record CircularBufferManager =
  cm_initialized :: bool
  cm_frontBuffer :: BufferChunk
  cm_frontAddress :: size_t
  cm_bufferSize :: size_t
  cm_bytesToPop :: size_t
  cm_circBuff :: SharedBuffer
  cm_readyBuffs :: "ManagedBuffer OrderedQueue"
  cm_self :: nat

definition CircularBufferManager_new :: "nat \<Rightarrow> CircularBufferManager option" where
  "CircularBufferManager_new self = do {
     q \<leftarrow> OrderedQueue_default;
     Some \<lparr>cm_initialized = False, cm_frontBuffer = BufferChunk_null, cm_frontAddress = 0, cm_bufferSize = 0,
           cm_bytesToPop = 0, cm_circBuff = SharedBuffer_null, cm_readyBuffs = q, cm_self = self\<rparr> }"

definition Circular_empty :: "CircularBufferManager \<Rightarrow> bool" where
  "Circular_empty m = OrderedQueue_empty (cm_readyBuffs m)"

text \<open>
  \<open>setCircFrontBuffer\<close> is called with a reference to the front of the queue; resetting a non-null
  handle changes the object it points to and not the handle.
\<close>

definition setCircFrontBuffer ::
  "ManagedBuffer \<Rightarrow> CircularBufferManager \<times> Heap \<Rightarrow> bm_error + CircularBufferManager \<times> Heap" where
  "setCircFrontBuffer buff = (\<lambda>(m, h).
     case SharedBuffer_sub (cm_frontAddress m) (cm_bufferSize m) (cm_circBuff m) of
       Inl e \<Rightarrow> Inl (SharedBufferThrow e)
     | Inr sbuff \<Rightarrow> of_opt UndefinedBehaviour (do {
         i \<leftarrow> ManagedBuffer_getSlabIndex buff h;
         (mb, h) \<leftarrow> ManagedBuffer_reset_manager buff (cm_self m) sbuff i h;
         b \<leftarrow> ManagedBuffer_getBuffer mb h;
         Some (m\<lparr>cm_frontBuffer := managed_chunk mb b\<rparr>, h) }))"

definition Circular_push ::
  "ManagedBuffer \<Rightarrow> CircularBufferManager \<times> Heap \<Rightarrow> bm_error + CircularBufferManager \<times> Heap" where
  "Circular_push buff = (\<lambda>(m, h).
     rbind (of_opt UndefinedBehaviour (ManagedBuffer_getSlabIndex buff h)) (\<lambda>i.
       let wasEmpty = OrderedQueue_empty (cm_readyBuffs m) in
     rbind (of_opt UndefinedBehaviour (OrderedQueue_push (cm_readyBuffs m) buff i)) (\<lambda>q.
       let m = m\<lparr>cm_readyBuffs := q\<rparr> in
       if \<not> OrderedQueue_empty q \<and> wasEmpty
       then rbind (of_opt UndefinedBehaviour (OrderedQueue_front q)) (\<lambda>buff. setCircFrontBuffer buff (m, h))
       else Inr (m, h))))"

definition Circular_pop ::
  "size_t \<Rightarrow> CircularBufferManager \<times> Heap \<Rightarrow> bm_error + CircularBufferManager \<times> Heap" where
  "Circular_pop numBytes = (\<lambda>(m, h).
     let m = m\<lparr>cm_bytesToPop := sz_add (cm_bytesToPop m) numBytes\<rparr> in
     if sz_mul (cm_bytesToPop m) 2 < cm_bufferSize m then
       (let buff = cm_frontBuffer m;
            buff = buff\<lparr>bc_address := sz_add (bc_address buff) numBytes, bc_length := sz_sub (bc_length buff) numBytes\<rparr>
        in Inr (m\<lparr>cm_frontBuffer := buff\<rparr>, h))
     else
       (let m = m\<lparr>cm_readyBuffs := OrderedQueue_pop (cm_readyBuffs m)\<rparr>;
            m = m\<lparr>cm_frontAddress := sz_add (cm_frontAddress m) (cm_bytesToPop m), cm_bytesToPop := 0\<rparr>;
            m = (if SharedBuffer_getEnd (cm_circBuff m) \<le> cm_frontAddress m
                 then m\<lparr>cm_frontAddress := sz_sub (cm_frontAddress m) (sb_length (cm_circBuff m))\<rparr> else m)
        in if OrderedQueue_empty (cm_readyBuffs m) then Inr (m\<lparr>cm_frontBuffer := BufferChunk_null\<rparr>, h)
           else rbind (of_opt UndefinedBehaviour (OrderedQueue_front (cm_readyBuffs m)))
                  (\<lambda>buff. setCircFrontBuffer buff (m, h))))"

definition Circular_init_body ::
  "nat \<Rightarrow> CircularBufferManager \<times> ManagedBuffer list \<times> Heap
     \<Rightarrow> bm_error + CircularBufferManager \<times> ManagedBuffer list \<times> Heap" where
  "Circular_init_body i = (\<lambda>(m, mbs, h).
     rbind (of_opt UndefinedBehaviour (ManagedBuffer_reset_manager (mbs ! i) (cm_self m) (cm_circBuff m) i h)) (\<lambda>(mb, h).
     rbind (Circular_push mb (m, h)) (\<lambda>(m, h).
     Inr (m, mbs[i := mb], h))))"

definition Circular_init ::
  "BufferManagerArgs \<Rightarrow> (BufferManagerArgs \<Rightarrow> SharedBuffer) \<Rightarrow> CircularBufferManager \<times> Heap
     \<Rightarrow> bm_error + CircularBufferManager \<times> ManagedBuffer list \<times> Heap" where
  "Circular_init args alloc = (\<lambda>(m, h).
     rbind (BufferManager_init (cm_initialized m)) (\<lambda>ini.
       let circ = alloc args in
     rbind (of_opt UndefinedBehaviour (OrderedQueue_new None (numBuffers args))) (\<lambda>q.
       let m = m\<lparr>cm_initialized := ini, cm_circBuff := circ, cm_frontAddress := sb_address circ,
                 cm_bufferSize := bufferSize args, cm_readyBuffs := q\<rparr> in
     rbind (for_loop Circular_init_body [0..<numBuffers args] (m, replicate (numBuffers args) None, h)) (\<lambda>(m, mbs, h).
     rbind (if length mbs = 0 then Inl UndefinedBehaviour
            else for_loop (set_next_body mbs) [0..<length mbs - 1] h) (\<lambda>h.
     rbind (of_opt UndefinedBehaviour (ManagedBuffer_setNextBuffer (last mbs) (hd mbs) h)) (\<lambda>h.
     Inr (m, mbs, h)))))))"

subsection \<open>The contract of a buffer manager\<close>

datatype bm_call = BmPop nat | BmPush nat

text \<open>Specification: cursor, available slots, bytes already used of the front buffer.\<close>

fun bm_spec_step :: "nat \<Rightarrow> nat \<Rightarrow> bm_call \<Rightarrow> nat \<times> nat set \<times> nat \<Rightarrow> (nat \<times> nat set \<times> nat) option" where
  "bm_spec_step N B (BmPop n) (c, A, off) =
     (if c \<in> A \<and> n \<le> B - off then
        (if (off + n) * 2 < B then Some (c, A, off + n) else Some ((c + 1) mod N, A - {c}, 0))
      else None)"
| "bm_spec_step N B (BmPush i) (c, A, off) = (if i < N \<and> i \<notin> A then Some (c, insert i A, off) else None)"

fun bm_spec_run :: "nat \<Rightarrow> nat \<Rightarrow> bm_call list \<Rightarrow> nat \<times> nat set \<times> nat \<Rightarrow> (nat \<times> nat set \<times> nat) option" where
  "bm_spec_run N B [] s = Some s"
| "bm_spec_run N B (x # xs) s = do { s \<leftarrow> bm_spec_step N B x s; bm_spec_run N B xs s }"

fun bm_impl_step :: "(nat \<Rightarrow> 's \<Rightarrow> 's option) \<Rightarrow> (nat \<Rightarrow> 's \<Rightarrow> 's option) \<Rightarrow> bm_call \<Rightarrow> 's \<Rightarrow> 's option" where
  "bm_impl_step pop push (BmPop n) s = pop n s"
| "bm_impl_step pop push (BmPush i) s = push i s"

fun bm_impl_run :: "(nat \<Rightarrow> 's \<Rightarrow> 's option) \<Rightarrow> (nat \<Rightarrow> 's \<Rightarrow> 's option) \<Rightarrow> bm_call list \<Rightarrow> 's \<Rightarrow> 's option" where
  "bm_impl_run pop push [] s = Some s"
| "bm_impl_run pop push (x # xs) s = do { s \<leftarrow> bm_impl_step pop push x s; bm_impl_run pop push xs s }"

fun bm_bytes :: "bm_call list \<Rightarrow> nat" where
  "bm_bytes [] = 0"
| "bm_bytes (BmPop n # xs) = n + bm_bytes xs"
| "bm_bytes (BmPush i # xs) = bm_bytes xs"

locale buffer_manager =
  fixes inv :: "'s \<Rightarrow> bool" and N :: nat and B :: nat and abs :: "'s \<Rightarrow> nat \<times> nat set \<times> nat"
    and pop :: "nat \<Rightarrow> 's \<Rightarrow> 's option" and push :: "nat \<Rightarrow> 's \<Rightarrow> 's option"
  assumes step_law: "inv s \<Longrightarrow> bm_spec_step N B call (abs s) = Some a \<Longrightarrow>
      \<exists>s'. bm_impl_step pop push call s = Some s' \<and> inv s' \<and> abs s' = a"
begin

lemma run_refines:
  "inv s \<Longrightarrow> bm_spec_run N B calls (abs s) = Some a \<Longrightarrow>
     \<exists>s'. bm_impl_run pop push calls s = Some s' \<and> inv s' \<and> abs s' = a"
proof (induction calls arbitrary: s)
  case (Cons x xs)
  then obtain b where b: "bm_spec_step N B x (abs s) = Some b" "bm_spec_run N B xs b = Some a"
    by (auto simp: bind_eq_Some_conv)
  then obtain s1 where "bm_impl_step pop push x s = Some s1" "inv s1" "abs s1 = b"
    using step_law [OF Cons.prems(1)] by blast
  then show ?case using Cons.IH [of s1] b(2) by auto
qed simp

end

text \<open>A manager over circular memory also promises where in memory the front buffer is.\<close>

locale circular_manager = buffer_manager +
  fixes pos :: "'a \<Rightarrow> nat" and L :: nat
  assumes pos_law: "inv s \<Longrightarrow> bm_spec_step N B call (abs s) \<noteq> None \<Longrightarrow> bm_impl_step pop push call s = Some s' \<Longrightarrow>
      pos s' = (pos s + bm_bytes [call]) mod L"
    and pos_less: "inv s \<Longrightarrow> pos s < L"
begin

lemma run_position:
  "inv s \<Longrightarrow> bm_spec_run N B calls (abs s) \<noteq> None \<Longrightarrow> bm_impl_run pop push calls s = Some s' \<Longrightarrow>
     pos s' = (pos s + bm_bytes calls) mod L"
proof (induction calls arbitrary: s)
  case (Cons x xs)
  then obtain b where b: "bm_spec_step N B x (abs s) = Some b" "bm_spec_run N B xs b \<noteq> None"
    by (auto simp: bind_eq_Some_conv)
  then obtain s1 where s1: "bm_impl_step pop push x s = Some s1" "inv s1" "abs s1 = b"
    using step_law [OF Cons.prems(1)] by blast
  have "pos s' = (pos s1 + bm_bytes xs) mod L" using Cons.IH [OF s1(2)] b(2) s1 Cons.prems(3) by auto
  moreover have "pos s1 = (pos s + bm_bytes [x]) mod L" using pos_law [OF Cons.prems(1) _ s1(1)] b(1) by simp
  moreover have "bm_bytes (x # xs) = bm_bytes [x] + bm_bytes xs" by (cases x) auto
  ultimately show ?case by (simp add: mod_simps ac_simps)
qed (simp add: pos_less)

end

subsection \<open>The generic manager keeps the contract\<close>

definition slab_ok :: "nat \<Rightarrow> nat list \<Rightarrow> nat \<Rightarrow> Heap \<Rightarrow> bool" where
  "slab_ok base ids B h \<longleftrightarrow> (\<forall>i < length ids. \<exists>im. hp_impl h (ids ! i) = Some im \<and> im_slabIndex im = i
     \<and> sb_address (im_buffer im) = base + i * B \<and> sb_length (im_buffer im) = B)"

definition gm_inv :: "nat \<Rightarrow> nat list \<Rightarrow> nat \<Rightarrow> GenericBufferManager \<times> Heap \<Rightarrow> bool" where
  "gm_inv base ids B = (\<lambda>(m, h). let q = gm_readyBuffs m; c = oq_next q in
     oq_inv q \<and> oq_size q = length ids \<and> gm_bufferSize m = B
     \<and> base + length ids * B < SIZE_MAX1 \<and> 2 * B < SIZE_MAX1 \<and> slab_ok base ids B h
     \<and> (\<forall>i x. oq_held q i = Some x \<longrightarrow> x = Some (ids ! i))
     \<and> (gm_bytesPopped m = 0 \<or> 2 * gm_bytesPopped m < B)
     \<and> (oq_held q c = None \<longrightarrow> gm_bytesPopped m = 0)
     \<and> (oq_held q c \<noteq> None \<longrightarrow> gm_frontBuffer m =
          \<lparr>bc_address = base + c * B + gm_bytesPopped m, bc_length = B - gm_bytesPopped m,
           bc_dtype = DType_default, bc_managed = Some (ids ! c), bc_nextBuffers = 0\<rparr>))"

definition gm_abs :: "GenericBufferManager \<times> Heap \<Rightarrow> nat \<times> nat set \<times> nat" where
  "gm_abs = (\<lambda>(m, h). (oq_next (gm_readyBuffs m), dom (oq_held (gm_readyBuffs m)), gm_bytesPopped m))"

definition gm_pop :: "nat \<Rightarrow> GenericBufferManager \<times> Heap \<Rightarrow> (GenericBufferManager \<times> Heap) option" where
  "gm_pop n = (\<lambda>(m, h). map_option (\<lambda>m. (m, h)) (Generic_pop m n h))"

definition gm_push :: "nat list \<Rightarrow> nat \<Rightarrow> GenericBufferManager \<times> Heap \<Rightarrow> (GenericBufferManager \<times> Heap) option" where
  "gm_push ids i = (\<lambda>(m, h). map_option (\<lambda>m. (m, h)) (Generic_push m (Some (ids ! i)) h))"

lemma slab_chunk:
  assumes "slab_ok base ids B h" "i < length ids"
  obtains b where "ManagedBuffer_getBuffer (Some (ids ! i)) h = Some b" "ManagedBuffer_getSlabIndex (Some (ids ! i)) h = Some i"
    "managed_chunk mb b = \<lparr>bc_address = base + i * B, bc_length = B, bc_dtype = DType_default, bc_managed = mb, bc_nextBuffers = 0\<rparr>"
proof -
  from assms obtain im where "hp_impl h (ids ! i) = Some im" "im_slabIndex im = i"
    "sb_address (im_buffer im) = base + i * B" "sb_length (im_buffer im) = B" by (auto simp: slab_ok_def)
  then show thesis by (intro that [of "im_buffer im"]) (simp_all add: ManagedBuffer_getBuffer_def ManagedBuffer_getSlabIndex_def managed_chunk_def)
qed

lemma gm_push_step:
  assumes "gm_inv base ids B (m, h)" "i < length ids" "i \<notin> dom (oq_held (gm_readyBuffs m))"
  shows "\<exists>s'. gm_push ids i (m, h) = Some s' \<and> gm_inv base ids B s'
    \<and> gm_abs s' = (oq_next (gm_readyBuffs m), insert i (dom (oq_held (gm_readyBuffs m))), gm_bytesPopped m)"
proof -
  let ?q = "gm_readyBuffs m"
  have I: "oq_inv ?q" "oq_size ?q = length ids" "slab_ok base ids B h" using assms(1) by (auto simp: gm_inv_def Let_def)
  obtain b where b: "ManagedBuffer_getBuffer (Some (ids ! i)) h = Some b" "ManagedBuffer_getSlabIndex (Some (ids ! i)) h = Some i"
    "managed_chunk (Some (ids ! i)) b = \<lparr>bc_address = base + i * B, bc_length = B, bc_dtype = DType_default, bc_managed = Some (ids ! i), bc_nextBuffers = 0\<rparr>"
    using slab_chunk [OF I(3) assms(2)] by blast
  obtain q' where q': "OrderedQueue_push ?q (Some (ids ! i)) i = Some q'" "oq_inv q'" "oq_next q' = oq_next ?q"
    "oq_held q' = (oq_held ?q)(i \<mapsto> Some (ids ! i))" "oq_size q' = oq_size ?q"
    using oq.push_law [OF I(1), of i "Some (ids ! i)"] assms(2,3) I(2) by auto
  let ?m = "(if OrderedQueue_empty ?q then m\<lparr>gm_frontBuffer := managed_chunk (Some (ids ! i)) b\<rparr> else m)\<lparr>gm_readyBuffs := q'\<rparr>"
  have step: "gm_push ids i (m, h) = Some (?m, h)"
    using b(1,2) q'(1) by (simp add: gm_push_def Generic_push_def Let_def)
  have "gm_inv base ids B (?m, h)"
    using assms q' oq.empty_iff [OF I(1)] by (auto simp: gm_inv_def Let_def b(3))
  moreover have "gm_abs (?m, h) = (oq_next ?q, insert i (dom (oq_held ?q)), gm_bytesPopped m)"
    using q' by (simp add: gm_abs_def)
  ultimately show ?thesis using step by blast
qed

lemma gm_pop_step:
  assumes "gm_inv base ids B (m, h)" "oq_held (gm_readyBuffs m) (oq_next (gm_readyBuffs m)) \<noteq> None"
    and "n \<le> B - gm_bytesPopped m"
  shows "\<exists>s'. gm_pop n (m, h) = Some s' \<and> gm_inv base ids B s'
    \<and> gm_abs s' = (if (gm_bytesPopped m + n) * 2 < B
         then (oq_next (gm_readyBuffs m), dom (oq_held (gm_readyBuffs m)), gm_bytesPopped m + n)
         else ((oq_next (gm_readyBuffs m) + 1) mod length ids,
               dom (oq_held (gm_readyBuffs m)) - {oq_next (gm_readyBuffs m)}, 0))"
proof -
  let ?q = "gm_readyBuffs m" let ?c = "oq_next ?q" and ?p = "gm_bytesPopped m"
  have I: "oq_inv ?q" "oq_size ?q = length ids" "slab_ok base ids B h" "base + length ids * B < SIZE_MAX1"
    "2 * B < SIZE_MAX1" "gm_bufferSize m = B" "?p = 0 \<or> 2 * ?p < B"
    "gm_frontBuffer m = \<lparr>bc_address = base + ?c * B + ?p, bc_length = B - ?p,
           bc_dtype = DType_default, bc_managed = Some (ids ! ?c), bc_nextBuffers = 0\<rparr>"
    using assms(1,2) by (auto simp: gm_inv_def Let_def)
  have ne: "\<not> OrderedQueue_empty ?q" using oq.empty_iff [OF I(1)] assms(2) by simp
  have c: "?c < length ids" using oq.cursor_less [OF I(1)] I(2) by simp
  have pB: "?p + n \<le> B" "?p \<le> B" using assms(3) I(7) by auto
  have sums: "sz_add ?p n = ?p + n" "sz_mul (?p + n) 2 = (?p + n) * 2" using I(5) pB by (auto simp: sz_add_def sz_mul_def)
  show ?thesis
  proof (cases "(?p + n) * 2 < B")
    case True
    have "?c * B + B \<le> length ids * B" using c by (metis Suc_leI add.commute mult_Suc mult_le_mono1)
    then have a: "sz_add (base + ?c * B + ?p) n = base + ?c * B + (?p + n)" "sz_sub (B - ?p) n = B - (?p + n)"
      using I(4,5) pB sz_sub_small [of n "B - ?p"] by (auto simp: sz_add_def)
    let ?m = "m\<lparr>gm_bytesPopped := ?p + n, gm_frontBuffer := \<lparr>bc_address = base + ?c * B + (?p + n), bc_length = B - (?p + n),
           bc_dtype = DType_default, bc_managed = Some (ids ! ?c), bc_nextBuffers = 0\<rparr>\<rparr>"
    have "gm_pop n (m, h) = Some (?m, h)"
      using True sums a I(6,8) by (simp add: gm_pop_def Generic_pop_def Let_def)
    moreover have "gm_inv base ids B (?m, h)" using assms(1,2) True by (auto simp: gm_inv_def Let_def)
    ultimately show ?thesis using True by (auto simp: gm_abs_def)
  next
    case False
    let ?q' = "OrderedQueue_pop ?q" let ?c' = "oq_next ?q'"
    have p: "oq_inv ?q'" "?c' = (?c + 1) mod length ids" "oq_held ?q' = (oq_held ?q)(?c := None)" "oq_size ?q' = length ids"
      using oq.pop_law [OF I(1) ne] I(2) by auto
    let ?m = "m\<lparr>gm_bytesPopped := 0, gm_readyBuffs := ?q'\<rparr>"
    have c': "?c' < length ids" using oq.cursor_less [OF p(1)] p(4) by simp
    show ?thesis
    proof (cases "OrderedQueue_empty ?q'")
      case True
      have "gm_pop n (m, h) = Some (?m\<lparr>gm_frontBuffer := BufferChunk_null\<rparr>, h)"
        using False sums I(6) True by (simp add: gm_pop_def Generic_pop_def Let_def)
      moreover have "gm_inv base ids B (?m\<lparr>gm_frontBuffer := BufferChunk_null\<rparr>, h)"
        using assms(1) p oq.empty_iff [OF p(1)] True by (auto simp: gm_inv_def Let_def)
      ultimately show ?thesis using False p by (auto simp: gm_abs_def)
    next
      case ne': False
      then obtain x where x: "OrderedQueue_front ?q' = Some x" "oq_held ?q' ?c' = Some x"
        using oq.front_held [OF p(1)] oq.empty_iff [OF p(1)] by auto
      have "oq_held ?q ?c' = Some x" using x(2) p(3) by (auto split: if_splits)
      then have xi: "x = Some (ids ! ?c')" using assms(1) by (auto simp: gm_inv_def Let_def)
      obtain b where b: "ManagedBuffer_getBuffer x h = Some b"
        "managed_chunk x b = \<lparr>bc_address = base + ?c' * B, bc_length = B, bc_dtype = DType_default, bc_managed = x, bc_nextBuffers = 0\<rparr>"
        using slab_chunk [OF I(3) c'] xi by blast
      have "gm_pop n (m, h) = Some (?m\<lparr>gm_frontBuffer := managed_chunk x b\<rparr>, h)"
        using False sums I(6) ne' x(1) b(1) by (simp add: gm_pop_def Generic_pop_def Let_def)
      moreover have "gm_inv base ids B (?m\<lparr>gm_frontBuffer := managed_chunk x b\<rparr>, h)"
        using assms(1) p x(2) xi b(2) by (auto simp: gm_inv_def Let_def split: if_splits)
      ultimately show ?thesis using False p by (auto simp: gm_abs_def)
    qed
  qed
qed

interpretation gm: buffer_manager "gm_inv base ids B" "length ids" B gm_abs gm_pop "gm_push ids"
  for base ids B
proof
  fix s call a
  assume I: "gm_inv base ids B s" and st: "bm_spec_step (length ids) B call (gm_abs s) = Some a"
  obtain m h where s: "s = (m, h)" by fastforce
  show "\<exists>s'. bm_impl_step gm_pop (gm_push ids) call s = Some s' \<and> gm_inv base ids B s' \<and> gm_abs s' = a"
  proof (cases call)
    case (BmPop n)
    then show ?thesis using gm_pop_step [of base ids B m h n] I st s by (auto simp: gm_abs_def split: if_splits)
  next
    case (BmPush i)
    then show ?thesis using gm_push_step [of base ids B m h i] I st s by (auto simp: gm_abs_def split: if_splits)
  qed
qed

text \<open>The loops of \<open>init\<close>.\<close>

definition gm_init_inv :: "nat \<Rightarrow> nat \<Rightarrow> nat \<Rightarrow> nat list \<Rightarrow> GenericBufferManager \<Rightarrow> Heap \<Rightarrow> bool" where
  "gm_init_inv base N B ids m h \<longleftrightarrow> (let q = gm_readyBuffs m in
     oq_inv q \<and> oq_size q = N \<and> oq_next q = 0 \<and> gm_bufferSize m = B \<and> gm_bytesPopped m = 0
     \<and> gm_initialized m \<and> slab_ok base ids B h \<and> distinct ids \<and> (\<forall>p \<in> set ids. p < hp_fresh h)
     \<and> oq_held q = (\<lambda>j. if j < length ids then Some (Some (ids ! j)) else None)
     \<and> (ids \<noteq> [] \<longrightarrow> gm_frontBuffer m =
          \<lparr>bc_address = base, bc_length = B, bc_dtype = DType_default, bc_managed = Some (ids ! 0), bc_nextBuffers = 0\<rparr>))"

lemma slab_ok_append:
  assumes "slab_ok base ids B h" "\<forall>p \<in> set ids. hp_impl h' p = hp_impl h p"
    and "hp_impl h' p = Some im" "im_slabIndex im = length ids"
    and "sb_address (im_buffer im) = base + length ids * B" "sb_length (im_buffer im) = B"
  shows "slab_ok base (ids @ [p]) B h'"
  using assms unfolding slab_ok_def by (auto simp: nth_append less_Suc_eq)

lemma gm_init_body_ok:
  assumes I: "gm_init_inv base N B ids m h" and len: "length ids = i" "i < N"
    and slab: "sb_alias slab = 0" "sb_address slab = base" "N * B \<le> sb_length slab" "base + sb_length slab < SIZE_MAX1"
    and args: "bufferSize args = B"
  shows "\<exists>p m' h'. Generic_init_body self args slab i (m, map Some ids @ replicate (N - i) None, h)
       = Inr (m', map Some (ids @ [p]) @ replicate (N - Suc i) None, h') \<and> gm_init_inv base N B (ids @ [p]) m' h'"
proof -
  let ?q = "gm_readyBuffs m"
  have iB: "i * B + B \<le> N * B" using len(2) by (metis Suc_leI add.commute mult_Suc mult_le_mono1)
  have a: "sz_add base (sz_mul B i) = base + i * B"
    using iB slab(3,4) by (simp add: sz_add_def sz_mul_def mult.commute)
  let ?b = "\<lparr>sb_address = base + i * B, sb_length = B, sb_alias = 0, sb_container = sb_container slab\<rparr>"
  have sub: "SharedBuffer_sub (base + i * B) B slab = Inr ?b"
    using sub_plain [of slab "base + i * B" B] slab iB by auto
  let ?p = "hp_fresh h"
  let ?im = "Impl_new\<lparr>im_buffer := ?b, im_slabIndex := i, im_weakManager := Some self\<rparr>"
  let ?h = "h\<lparr>hp_impl := (hp_impl h)(?p \<mapsto> ?im), hp_fresh := Suc ?p\<rparr>"
  have nth: "(map Some ids @ replicate (N - i) None) ! i = None" using len by (simp add: nth_append)
  have rs: "ManagedBuffer_reset_manager None self ?b i h = Some (Some ?p, ?h)"
    by (simp add: ManagedBuffer_reset_manager_def heap_new_def heap_modify_def)
  have J: "oq_inv ?q" "oq_size ?q = N" "oq_next ?q = 0" "slab_ok base ids B h" "\<forall>p \<in> set ids. p < ?p"
    "oq_held ?q = (\<lambda>j. if j < length ids then Some (Some (ids ! j)) else None)"
    using I by (auto simp: gm_init_inv_def Let_def)
  obtain q' where q': "OrderedQueue_push ?q (Some ?p) i = Some q'" "oq_inv q'" "oq_next q' = oq_next ?q"
    "oq_held q' = (oq_held ?q)(i \<mapsto> Some ?p)" "oq_size q' = oq_size ?q"
    using oq.push_law [OF J(1), of i "Some ?p"] J(2,6) len by auto
  let ?c = "managed_chunk (Some ?p) ?b"
  let ?m = "(if OrderedQueue_empty ?q then m\<lparr>gm_frontBuffer := ?c\<rparr> else m)\<lparr>gm_readyBuffs := q'\<rparr>"
  have push: "Generic_push m (Some ?p) ?h = Some ?m"
    using q'(1) by (simp add: Generic_push_def ManagedBuffer_getBuffer_def ManagedBuffer_getSlabIndex_def Let_def)
  have upd: "(map Some ids @ replicate (N - i) None)[i := Some ?p] = map Some (ids @ [?p]) @ replicate (N - Suc i) None"
  proof -
    have "replicate (N - i) None = (None :: ManagedBuffer) # replicate (N - Suc i) None"
      using len(2) by (metis Suc_diff_Suc replicate_Suc)
    then show ?thesis using len(1) by (simp add: list_update_append)
  qed
  have body: "Generic_init_body self args slab i (m, map Some ids @ replicate (N - i) None, h)
      = Inr (?m, map Some (ids @ [?p]) @ replicate (N - Suc i) None, ?h)"
    using nth rs push sub a slab(2) args upd by (simp add: Generic_init_body_def Let_def)
  have "slab_ok base (ids @ [?p]) B ?h"
    using J(4,5) len by (intro slab_ok_append [of base ids B h _ _ ?im]) auto
  moreover have "OrderedQueue_empty ?q \<longleftrightarrow> ids = []" using oq.empty_iff [OF J(1)] J(3,6) by auto
  ultimately have "gm_init_inv base N B (ids @ [?p]) ?m ?h"
    using I q' J len
    by (auto simp: gm_init_inv_def Let_def fun_eq_iff nth_append managed_chunk_def less_Suc_eq)
  then show ?thesis using body by blast
qed

lemma gm_init_loop_ok:
  assumes I: "gm_init_inv base N B [] m h"
    and slab: "sb_alias slab = 0" "sb_address slab = base" "N * B \<le> sb_length slab" "base + sb_length slab < SIZE_MAX1"
    and args: "bufferSize args = B"
  shows "\<exists>ids m' h'. for_loop (Generic_init_body self args slab) [0..<N] (m, replicate N None, h)
     = Inr (m', map Some ids, h') \<and> length ids = N \<and> gm_init_inv base N B ids m' h'"
proof -
  let ?P = "\<lambda>i s. \<exists>ids. length ids = i \<and> fst (snd s) = map Some ids @ replicate (N - i) None
    \<and> gm_init_inv base N B ids (fst s) (snd (snd s))"
  have "\<exists>s'. for_loop (Generic_init_body self args slab) [0..<N] (m, replicate N None, h) = Inr s' \<and> ?P N s'"
  proof (rule for_loop_inv [where P = ?P])
    show "?P 0 (m, replicate N None, h)" using I by simp
  next
    fix i s assume i: "i < N" "?P i s"
    then obtain m1 h1 ids where s: "s = (m1, map Some ids @ replicate (N - i) None, h1)" "length ids = i"
      "gm_init_inv base N B ids m1 h1" by (cases s) auto
    from gm_init_body_ok [OF s(3,2) i(1) slab args, of self]
    obtain p m2 h2 where r: "Generic_init_body self args slab i s = Inr (m2, map Some (ids @ [p]) @ replicate (N - Suc i) None, h2)"
      "gm_init_inv base N B (ids @ [p]) m2 h2" unfolding s(1) by blast
    show "\<exists>s'. Generic_init_body self args slab i s = Inr s' \<and> ?P (Suc i) s'"
      by (intro exI conjI) (rule r(1), use r(2) s(2) in \<open>auto intro!: exI [of _ "ids @ [p]"]\<close>)
  qed
  then show ?thesis by fastforce
qed

definition next_linked :: "nat list \<Rightarrow> nat \<Rightarrow> Heap \<Rightarrow> bool" where
  "next_linked ids n h \<longleftrightarrow> (\<forall>j < n. next_of h (ids ! j) = Some (ids ! Suc j))"

text \<open>What changing next pointers leaves alone.\<close>

definition same_but_next :: "Heap \<Rightarrow> Heap \<Rightarrow> bool" where
  "same_but_next h h' \<longleftrightarrow> (\<forall>p. map_option (\<lambda>im. im\<lparr>im_nextBuffer := None\<rparr>) (hp_impl h' p) = map_option (\<lambda>im. im\<lparr>im_nextBuffer := None\<rparr>) (hp_impl h p))"

lemma slab_ok_same_but_next:
  assumes "slab_ok base ids B h" "same_but_next h h'"
  shows "slab_ok base ids B h'"
  unfolding slab_ok_def
proof (intro allI impI)
  fix i assume "i < length ids"
  then obtain im where im: "hp_impl h (ids ! i) = Some im" "im_slabIndex im = i"
    "sb_address (im_buffer im) = base + i * B" "sb_length (im_buffer im) = B" using assms(1) by (auto simp: slab_ok_def)
  then obtain im' where im': "hp_impl h' (ids ! i) = Some im'" "im'\<lparr>im_nextBuffer := None\<rparr> = im\<lparr>im_nextBuffer := None\<rparr>"
    using assms(2) [unfolded same_but_next_def, rule_format, of "ids ! i"]
    by (cases "hp_impl h' (ids ! i)") auto
  have "im_slabIndex im' = im_slabIndex im" "im_buffer im' = im_buffer im"
    using arg_cong [OF im'(2), of im_slabIndex] arg_cong [OF im'(2), of im_buffer] by simp_all
  then show "\<exists>im. hp_impl h' (ids ! i) = Some im \<and> im_slabIndex im = i \<and> sb_address (im_buffer im) = base + i * B \<and> sb_length (im_buffer im) = B"
    using im im'(1) by simp
qed

lemma setNext_ok:
  assumes "hp_impl h p \<noteq> None"
  shows "\<exists>h'. ManagedBuffer_setNextBuffer (Some p) q h = Some h' \<and> same_but_next h h'
    \<and> (\<forall>r. next_of h' r = (if r = p then q else next_of h r))"
  using assms by (auto simp: ManagedBuffer_setNextBuffer_def heap_modify_def same_but_next_def next_of_def)

lemma set_next_loop_ok:
  assumes "\<forall>p \<in> set ids. hp_impl h p \<noteq> None" "distinct ids" "ids \<noteq> []"
  shows "\<exists>h'. for_loop (set_next_body (map Some ids)) [0..<length ids - 1] h = Inr h'
    \<and> same_but_next h h' \<and> next_linked ids (length ids - 1) h'"
proof -
  let ?P = "\<lambda>i h'. same_but_next h h' \<and> next_linked ids i h'"
  have "\<exists>s'. for_loop (set_next_body (map Some ids)) [0..<length ids - 1] h = Inr s' \<and> ?P (length ids - 1) s'"
  proof (rule for_loop_inv [where P = ?P])
    show "?P 0 h" by (simp add: same_but_next_def next_linked_def)
  next
    fix i h1 assume i: "i < length ids - 1" "?P i h1"
    have "ids ! i \<in> set ids" using i(1) by (intro nth_mem) linarith
    then have "map_option (\<lambda>im. im\<lparr>im_nextBuffer := None\<rparr>) (hp_impl h1 (ids ! i)) \<noteq> None"
      using assms(1) i(2) by (auto simp: same_but_next_def)
    then have "hp_impl h1 (ids ! i) \<noteq> None" by auto
    then obtain h2 where h2: "ManagedBuffer_setNextBuffer (Some (ids ! i)) (Some (ids ! Suc i)) h1 = Some h2" "same_but_next h1 h2"
      "\<forall>r. next_of h2 r = (if r = ids ! i then Some (ids ! Suc i) else next_of h1 r)"
      using setNext_ok by blast
    have "next_linked ids (Suc i) h2"
      using i h2(3) assms(2) by (auto simp: next_linked_def less_Suc_eq nth_eq_iff_index_eq)
    moreover have "same_but_next h h2" using i(2) h2(2) by (simp add: same_but_next_def)
    moreover have "Suc i < length ids" "i < length ids" using i(1) by auto
    ultimately show "\<exists>s'. set_next_body (map Some ids) i h1 = Inr s' \<and> ?P (Suc i) s'"
      using h2(1) by (simp add: set_next_body_def)
  qed
  then show ?thesis by blast
qed

lemma generic_init_ok:
  assumes "0 < N" "N \<le> 2 ^ 63" "2 * B < SIZE_MAX1" "\<not> gm_initialized m" "gm_bytesPopped m = 0"
    and slab: "sb_alias slab = 0" "sb_address slab = base" "N * B \<le> sb_length slab" "base + sb_length slab < SIZE_MAX1"
    and args: "numBuffers args = N" "bufferSize args = B" "alloc args = slab"
  shows "\<exists>ids m' h'. Generic_init self args alloc (m, h) = Inr (m', map Some ids, h') \<and> length ids = N \<and> distinct ids
     \<and> gm_inv base ids B (m', h') \<and> gm_abs (m', h') = (0, {..<N}, 0) \<and> next_linked ids (N - 1) h'"
proof -
  obtain q :: "ManagedBuffer OrderedQueue" where q: "OrderedQueue_new None N = Some q" "oq_inv q" "oq_next q = 0"
    "oq_held q = Map.empty" "oq_size q = N"
    using assms(1,2) by (rule oq_new_inv)
  let ?m = "m\<lparr>gm_initialized := True, gm_bufferSize := B, gm_readyBuffs := q\<rparr>"
  have "gm_init_inv base N B [] ?m h"
    using q assms(5) by (simp add: gm_init_inv_def Let_def slab_ok_def)
  then obtain ids m' h1 where l: "for_loop (Generic_init_body self args slab) [0..<N] (?m, replicate N None, h)
     = Inr (m', map Some ids, h1)" "length ids = N" "gm_init_inv base N B ids m' h1"
    using gm_init_loop_ok [OF _ slab args(2)] by blast
  have J: "slab_ok base ids B h1" "distinct ids" "ids \<noteq> []" using l(2,3) assms(1) by (auto simp: gm_init_inv_def Let_def)
  have "\<forall>p \<in> set ids. hp_impl h1 p \<noteq> None" using J(1) by (fastforce simp: slab_ok_def in_set_conv_nth)
  then obtain h2 where h2: "for_loop (set_next_body (map Some ids)) [0..<length ids - 1] h1 = Inr h2"
    "same_but_next h1 h2" "next_linked ids (length ids - 1) h2"
    using set_next_loop_ok J by blast
  have "Generic_init self args alloc (m, h) = Inr (m', map Some ids, h2)"
    using assms(4) args q(1) l(1,2) h2(1) J(3) by (simp add: Generic_init_def BufferManager_init_def Let_def)
  moreover have "base + N * B < SIZE_MAX1" using slab by linarith
  then have "gm_inv base ids B (m', h2)"
    using l(2,3) J(3) slab_ok_same_but_next [OF J(1) h2(2)] assms(1,3) by (auto simp: gm_init_inv_def gm_inv_def Let_def split: if_splits)
  moreover have "gm_abs (m', h2) = (0, {..<N}, 0)"
    using l(2,3) by (auto simp: gm_init_inv_def gm_abs_def Let_def dom_def)
  ultimately show ?thesis using l(2) J(2) h2(3) by auto
qed

subsection \<open>The circular manager keeps the contract\<close>

definition slots_ok :: "nat list \<Rightarrow> Heap \<Rightarrow> bool" where
  "slots_ok ids h \<longleftrightarrow> (\<forall>i < length ids. \<exists>im. hp_impl h (ids ! i) = Some im \<and> im_slabIndex im = i)"

definition cm_inv :: "SharedBuffer \<Rightarrow> nat list \<Rightarrow> nat \<Rightarrow> CircularBufferManager \<times> Heap \<Rightarrow> bool" where
  "cm_inv circ ids B = (\<lambda>(m, h). let q = cm_readyBuffs m; c = oq_next q in
     oq_inv q \<and> oq_size q = length ids \<and> cm_bufferSize m = B \<and> cm_circBuff m = circ
     \<and> circular circ \<and> B \<le> sb_length circ \<and> slots_ok ids h
     \<and> sb_address circ \<le> cm_frontAddress m \<and> cm_frontAddress m < sb_address circ + sb_length circ
     \<and> (\<forall>i x. oq_held q i = Some x \<longrightarrow> x = Some (ids ! i))
     \<and> (cm_bytesToPop m = 0 \<or> 2 * cm_bytesToPop m < B)
     \<and> (oq_held q c = None \<longrightarrow> cm_bytesToPop m = 0)
     \<and> (oq_held q c \<noteq> None \<longrightarrow> cm_frontBuffer m =
          \<lparr>bc_address = cm_frontAddress m + cm_bytesToPop m, bc_length = B - cm_bytesToPop m,
           bc_dtype = DType_default, bc_managed = Some (ids ! c), bc_nextBuffers = 0\<rparr>))"

definition cm_abs :: "CircularBufferManager \<times> Heap \<Rightarrow> nat \<times> nat set \<times> nat" where
  "cm_abs = (\<lambda>(m, h). (oq_next (cm_readyBuffs m), dom (oq_held (cm_readyBuffs m)), cm_bytesToPop m))"

definition cm_pos :: "SharedBuffer \<Rightarrow> CircularBufferManager \<times> Heap \<Rightarrow> nat" where
  "cm_pos circ = (\<lambda>(m, h). (cm_frontAddress m - sb_address circ + cm_bytesToPop m) mod sb_length circ)"

definition sum_opt :: "'e + 'a \<Rightarrow> 'a option" where
  "sum_opt r = (case r of Inl _ \<Rightarrow> None | Inr x \<Rightarrow> Some x)"

lemma sum_opt_simps [simp]: "sum_opt (Inr x) = Some x" "sum_opt (Inl e) = None"
  by (simp_all add: sum_opt_def)

definition cm_pop :: "nat \<Rightarrow> CircularBufferManager \<times> Heap \<Rightarrow> (CircularBufferManager \<times> Heap) option" where
  "cm_pop n s = sum_opt (Circular_pop n s)"

definition cm_push :: "nat list \<Rightarrow> nat \<Rightarrow> CircularBufferManager \<times> Heap \<Rightarrow> (CircularBufferManager \<times> Heap) option" where
  "cm_push ids i s = sum_opt (Circular_push (Some (ids ! i)) s)"

lemma setCircFront_ok:
  assumes "circular circ" "cm_circBuff m = circ" "cm_bufferSize m = B" "B \<le> sb_length circ"
    and "sb_address circ \<le> cm_frontAddress m" "cm_frontAddress m < sb_address circ + sb_length circ"
    and "slots_ok ids h" "c < length ids"
  shows "\<exists>h'. setCircFrontBuffer (Some (ids ! c)) (m, h) =
      Inr (m\<lparr>cm_frontBuffer := \<lparr>bc_address = cm_frontAddress m, bc_length = B, bc_dtype = DType_default,
                bc_managed = Some (ids ! c), bc_nextBuffers = 0\<rparr>\<rparr>, h')
      \<and> slots_ok ids h' \<and> hp_fresh h' = hp_fresh h"
proof -
  let ?b = "\<lparr>sb_address = cm_frontAddress m, sb_length = B, sb_alias = cm_frontAddress m + sb_length circ, sb_container = sb_container circ\<rparr>"
  have "cm_frontAddress m + B < SIZE_MAX1" using assms(1,4,6) by (auto simp: circular_def)
  then have sub: "SharedBuffer_sub (cm_frontAddress m) B circ = Inr ?b"
    using sub_circular [OF assms(1), of "cm_frontAddress m" B] assms(4-6) by auto
  obtain im where im: "hp_impl h (ids ! c) = Some im" "im_slabIndex im = c" using assms(7,8) by (auto simp: slots_ok_def)
  let ?im = "im\<lparr>im_buffer := ?b, im_slabIndex := c, im_weakManager := Some (cm_self m)\<rparr>"
  let ?h = "h\<lparr>hp_impl := (hp_impl h)(ids ! c \<mapsto> ?im)\<rparr>"
  have "setCircFrontBuffer (Some (ids ! c)) (m, h) = Inr (m\<lparr>cm_frontBuffer := managed_chunk (Some (ids ! c)) ?b\<rparr>, ?h)"
    using sub im assms(2,3) by (simp add: setCircFrontBuffer_def ManagedBuffer_getSlabIndex_def
        ManagedBuffer_reset_manager_def heap_modify_def ManagedBuffer_getBuffer_def)
  moreover have "slots_ok ids ?h"
    unfolding slots_ok_def
  proof (intro allI impI)
    fix i assume "i < length ids"
    then obtain im' where "hp_impl h (ids ! i) = Some im'" "im_slabIndex im' = i" using assms(7) by (auto simp: slots_ok_def)
    then show "\<exists>im. hp_impl ?h (ids ! i) = Some im \<and> im_slabIndex im = i"
      using im by (cases "ids ! i = ids ! c") auto
  qed
  ultimately show ?thesis by (simp add: managed_chunk_def)
qed

lemma cm_push_step:
  assumes "cm_inv circ ids B (m, h)" "i < length ids" "i \<notin> dom (oq_held (cm_readyBuffs m))"
  shows "\<exists>s'. cm_push ids i (m, h) = Some s' \<and> cm_inv circ ids B s' \<and> cm_pos circ s' = cm_pos circ (m, h)
    \<and> cm_abs s' = (oq_next (cm_readyBuffs m), insert i (dom (oq_held (cm_readyBuffs m))), cm_bytesToPop m)"
proof -
  let ?q = "cm_readyBuffs m"
  have I: "oq_inv ?q" "oq_size ?q = length ids" "slots_ok ids h" "circular circ" "cm_circBuff m = circ" "cm_bufferSize m = B"
    "B \<le> sb_length circ" "sb_address circ \<le> cm_frontAddress m" "cm_frontAddress m < sb_address circ + sb_length circ"
    using assms(1) by (auto simp: cm_inv_def Let_def)
  have slab: "ManagedBuffer_getSlabIndex (Some (ids ! i)) h = Some i"
    using I(3) assms(2) by (auto simp: slots_ok_def ManagedBuffer_getSlabIndex_def)
  obtain q' where q': "OrderedQueue_push ?q (Some (ids ! i)) i = Some q'" "oq_inv q'" "oq_next q' = oq_next ?q"
    "oq_held q' = (oq_held ?q)(i \<mapsto> Some (ids ! i))" "oq_size q' = oq_size ?q"
    using oq.push_law [OF I(1), of i "Some (ids ! i)"] assms(2,3) I(2) by auto
  let ?m = "m\<lparr>cm_readyBuffs := q'\<rparr>"
  show ?thesis
  proof (cases "\<not> OrderedQueue_empty q' \<and> OrderedQueue_empty ?q")
    case True
    have e: "oq_held ?q (oq_next ?q) = None" "oq_held q' (oq_next ?q) \<noteq> None"
      using True oq.empty_iff [OF I(1)] oq.empty_iff [OF q'(2)] q'(3) by auto
    then have c: "i = oq_next ?q" using q'(4) by (auto split: if_splits)
    have f: "OrderedQueue_front q' = Some (Some (ids ! i))"
      using oq.front_held [OF q'(2)] True q'(3,4) c by simp
    obtain h' where h': "setCircFrontBuffer (Some (ids ! i)) (?m, h) =
      Inr (?m\<lparr>cm_frontBuffer := \<lparr>bc_address = cm_frontAddress m, bc_length = B, bc_dtype = DType_default,
                bc_managed = Some (ids ! i), bc_nextBuffers = 0\<rparr>\<rparr>, h')" "slots_ok ids h'"
      using setCircFront_ok [of circ ?m B ids h i] I assms(2) by auto
    have "cm_bytesToPop m = 0" using assms(1) e(1) by (auto simp: cm_inv_def Let_def)
    then show ?thesis
      using True slab q' f h' assms(1) c
      by (auto simp: cm_push_def Circular_push_def Let_def cm_inv_def cm_pos_def cm_abs_def)
  next
    case False
    have same: "oq_held q' (oq_next ?q) \<noteq> None \<longleftrightarrow> oq_held ?q (oq_next ?q) \<noteq> None"
      using False oq.empty_iff [OF I(1)] oq.empty_iff [OF q'(2)] q'(3,4) by (auto split: if_splits)
    have "cm_push ids i (m, h) = Some (?m, h)"
      using False slab q'(1) by (auto simp: cm_push_def Circular_push_def Let_def)
    moreover have "cm_inv circ ids B (?m, h)"
      using assms q' same by (auto simp: cm_inv_def Let_def split: if_splits)
    ultimately show ?thesis using q' by (auto simp: cm_pos_def cm_abs_def)
  qed
qed

lemma cm_pop_step:
  assumes "cm_inv circ ids B (m, h)" "oq_held (cm_readyBuffs m) (oq_next (cm_readyBuffs m)) \<noteq> None"
    and "n \<le> B - cm_bytesToPop m"
  shows "\<exists>s'. cm_pop n (m, h) = Some s' \<and> cm_inv circ ids B s'
    \<and> cm_pos circ s' = (cm_pos circ (m, h) + n) mod sb_length circ
    \<and> cm_abs s' = (if (cm_bytesToPop m + n) * 2 < B
         then (oq_next (cm_readyBuffs m), dom (oq_held (cm_readyBuffs m)), cm_bytesToPop m + n)
         else ((oq_next (cm_readyBuffs m) + 1) mod length ids,
               dom (oq_held (cm_readyBuffs m)) - {oq_next (cm_readyBuffs m)}, 0))"
proof -
  let ?q = "cm_readyBuffs m" let ?c = "oq_next ?q" and ?p = "cm_bytesToPop m" and ?fa = "cm_frontAddress m"
  let ?base = "sb_address circ" and ?L = "sb_length circ"
  have I: "oq_inv ?q" "oq_size ?q = length ids" "slots_ok ids h" "circular circ" "cm_circBuff m = circ" "cm_bufferSize m = B"
    "B \<le> ?L" "?base \<le> ?fa" "?fa < ?base + ?L" "?p = 0 \<or> 2 * ?p < B"
    "cm_frontBuffer m = \<lparr>bc_address = ?fa + ?p, bc_length = B - ?p, bc_dtype = DType_default,
       bc_managed = Some (ids ! ?c), bc_nextBuffers = 0\<rparr>"
    using assms(1,2) by (auto simp: cm_inv_def Let_def)
  have top: "?base + 3 * ?L < SIZE_MAX1" "0 < ?L" using I(4) by (auto simp: circular_def)
  have ne: "\<not> OrderedQueue_empty ?q" using oq.empty_iff [OF I(1)] assms(2) by simp
  have pB: "?p + n \<le> B" "?p \<le> B" using assms(3) I(10) by auto
  have sums: "sz_add ?p n = ?p + n" "sz_mul (?p + n) 2 = (?p + n) * 2"
    using top I(7) pB by (auto simp: sz_add_def sz_mul_def)
  show ?thesis
  proof (cases "(?p + n) * 2 < B")
    case True
    have a: "sz_add (?fa + ?p) n = ?fa + (?p + n)" "sz_sub (B - ?p) n = B - (?p + n)"
      using top I(7,9) pB sz_sub_small [of n "B - ?p"] by (auto simp: sz_add_def)
    let ?m = "m\<lparr>cm_bytesToPop := ?p + n, cm_frontBuffer := \<lparr>bc_address = ?fa + (?p + n), bc_length = B - (?p + n),
           bc_dtype = DType_default, bc_managed = Some (ids ! ?c), bc_nextBuffers = 0\<rparr>\<rparr>"
    have "cm_pop n (m, h) = Some (?m, h)"
      using True sums a I(6,11) by (simp add: cm_pop_def Circular_pop_def Let_def)
    moreover have "cm_inv circ ids B (?m, h)" using assms(1,2) True by (auto simp: cm_inv_def Let_def)
    moreover have "cm_pos circ (?m, h) = (cm_pos circ (m, h) + n) mod ?L"
      by (simp add: cm_pos_def mod_simps add.assoc)
    ultimately show ?thesis using True by (auto simp: cm_abs_def)
  next
    case False
    let ?q' = "OrderedQueue_pop ?q" let ?c' = "oq_next ?q'"
    have p: "oq_inv ?q'" "?c' = (?c + 1) mod length ids" "oq_held ?q' = (oq_held ?q)(?c := None)" "oq_size ?q' = length ids"
      using oq.pop_law [OF I(1) ne] I(2) by auto
    have c': "?c' < length ids" using oq.cursor_less [OF p(1)] p(4) by simp
    let ?fa' = "?base + (?fa - ?base + (?p + n)) mod ?L"
    have fa: "(if SharedBuffer_getEnd circ \<le> sz_add ?fa (?p + n) then sz_sub (sz_add ?fa (?p + n)) ?L else sz_add ?fa (?p + n)) = ?fa'"
    proof -
      have s: "sz_add ?fa (?p + n) = ?fa + (?p + n)" "SharedBuffer_getEnd circ = ?base + ?L"
        using top I(7,9) pB by (auto simp: sz_add_def SharedBuffer_getEnd_def)
      have m: "x < 2 * ?L \<Longrightarrow> x mod ?L = (if ?L \<le> x then x - ?L else x)" for x by (auto simp: le_mod_geq mod_if)
      show ?thesis unfolding s using m [of "?fa - ?base + (?p + n)"] I(7-9) pB top
        by (auto simp: sz_sub_small)
    qed
    let ?m = "m\<lparr>cm_readyBuffs := ?q', cm_frontAddress := ?fa', cm_bytesToPop := 0\<rparr>"
    have comm: "m\<lparr>cm_readyBuffs := ?q', cm_bytesToPop := 0, cm_frontAddress := y\<rparr>
        = m\<lparr>cm_readyBuffs := ?q', cm_frontAddress := y, cm_bytesToPop := 0\<rparr>" for y by simp
    have fa_in: "?base \<le> ?fa'" "?fa' < ?base + ?L" using top(2) by auto
    have pos: "cm_pos circ (?m\<lparr>cm_frontBuffer := b\<rparr>, h') = (cm_pos circ (m, h) + n) mod ?L" for b h'
      by (simp add: cm_pos_def mod_simps add.assoc)
    show ?thesis
    proof (cases "OrderedQueue_empty ?q'")
      case True
      have "cm_pop n (m, h) = Some (?m\<lparr>cm_frontBuffer := BufferChunk_null\<rparr>, h)"
        using False sums I(5,6) True fa by (auto simp: cm_pop_def Circular_pop_def Let_def)
      moreover have "cm_inv circ ids B (?m\<lparr>cm_frontBuffer := BufferChunk_null\<rparr>, h)"
        using assms(1) p oq.empty_iff [OF p(1)] True fa_in by (auto simp: cm_inv_def Let_def)
      ultimately show ?thesis using False p pos by (auto simp: cm_abs_def)
    next
      case ne': False
      then obtain x where x: "OrderedQueue_front ?q' = Some x" "oq_held ?q' ?c' = Some x"
        using oq.front_held [OF p(1)] oq.empty_iff [OF p(1)] by auto
      have "oq_held ?q ?c' = Some x" using x(2) p(3) by (auto split: if_splits)
      then have xi: "x = Some (ids ! ?c')" using assms(1) by (auto simp: cm_inv_def Let_def)
      let ?b = "\<lparr>bc_address = ?fa', bc_length = B, bc_dtype = DType_default, bc_managed = Some (ids ! ?c'), bc_nextBuffers = 0\<rparr>"
      obtain h' where h': "setCircFrontBuffer (Some (ids ! ?c')) (?m, h) = Inr (?m\<lparr>cm_frontBuffer := ?b\<rparr>, h')" "slots_ok ids h'"
        using setCircFront_ok [of circ ?m B ids h ?c'] I c' fa_in by auto
      have "cm_pop n (m, h) = Some (?m\<lparr>cm_frontBuffer := ?b\<rparr>, h')"
        using False sums I(5,6) ne' fa x(1) xi h'(1) by (auto simp: cm_pop_def Circular_pop_def Let_def comm)
      moreover have "cm_inv circ ids B (?m\<lparr>cm_frontBuffer := ?b\<rparr>, h')"
        using assms(1) p x(2) xi h'(2) fa_in by (auto simp: cm_inv_def Let_def split: if_splits)
      ultimately show ?thesis using False p pos by (auto simp: cm_abs_def)
    qed
  qed
qed

lemma cm_step:
  assumes "cm_inv circ ids B s" "bm_spec_step (length ids) B call (cm_abs s) = Some a"
  shows "\<exists>s'. bm_impl_step cm_pop (cm_push ids) call s = Some s' \<and> cm_inv circ ids B s' \<and> cm_abs s' = a
    \<and> cm_pos circ s' = (cm_pos circ s + bm_bytes [call]) mod sb_length circ"
proof -
  obtain m h where s: "s = (m, h)" by fastforce
  have L: "cm_pos circ s mod sb_length circ = cm_pos circ s" by (simp add: cm_pos_def split: prod.splits)
  show ?thesis
  proof (cases call)
    case (BmPop n)
    then show ?thesis using cm_pop_step [of circ ids B m h n] assms s by (auto simp: cm_abs_def split: if_splits)
  next
    case (BmPush i)
    then show ?thesis using cm_push_step [of circ ids B m h i] assms s L by (auto simp: cm_abs_def split: if_splits)
  qed
qed

interpretation cm: circular_manager "cm_inv circ ids B" "length ids" B cm_abs cm_pop "cm_push ids" "cm_pos circ" "sb_length circ"
  for circ ids B
proof (unfold_locales, goal_cases)
  case (1 s call a) then show ?case using cm_step by blast
next
  case (2 s call s') then show ?case using cm_step [of circ ids B s call] by (auto simp del: bm_bytes.simps)
next
  case (3 s) then show ?case by (auto simp: cm_inv_def cm_pos_def circular_def Let_def)
qed

definition cm_init_inv :: "SharedBuffer \<Rightarrow> nat \<Rightarrow> nat \<Rightarrow> nat list \<Rightarrow> CircularBufferManager \<Rightarrow> Heap \<Rightarrow> bool" where
  "cm_init_inv circ N B ids m h \<longleftrightarrow> (let q = cm_readyBuffs m in
     oq_inv q \<and> oq_size q = N \<and> oq_next q = 0 \<and> cm_bufferSize m = B \<and> cm_bytesToPop m = 0
     \<and> cm_circBuff m = circ \<and> cm_frontAddress m = sb_address circ
     \<and> slots_ok ids h \<and> distinct ids \<and> (\<forall>p \<in> set ids. p < hp_fresh h)
     \<and> oq_held q = (\<lambda>j. if j < length ids then Some (Some (ids ! j)) else None)
     \<and> (ids \<noteq> [] \<longrightarrow> cm_frontBuffer m = \<lparr>bc_address = sb_address circ, bc_length = B, bc_dtype = DType_default,
          bc_managed = Some (ids ! 0), bc_nextBuffers = 0\<rparr>))"

lemma cm_init_body_ok:
  assumes I: "cm_init_inv circ N B ids m h" and len: "length ids = i" "i < N"
    and circ: "circular circ" "B \<le> sb_length circ"
  shows "\<exists>p m' h'. Circular_init_body i (m, map Some ids @ replicate (N - i) None, h)
       = Inr (m', map Some (ids @ [p]) @ replicate (N - Suc i) None, h') \<and> cm_init_inv circ N B (ids @ [p]) m' h'"
proof -
  let ?q = "cm_readyBuffs m" and ?p = "hp_fresh h"
  let ?im = "Impl_new\<lparr>im_buffer := circ, im_slabIndex := i, im_weakManager := Some (cm_self m)\<rparr>"
  let ?h = "h\<lparr>hp_impl := (hp_impl h)(?p \<mapsto> ?im), hp_fresh := Suc ?p\<rparr>"
  have J: "oq_inv ?q" "oq_size ?q = N" "oq_next ?q = 0" "slots_ok ids h" "\<forall>p \<in> set ids. p < ?p" "cm_circBuff m = circ"
    "oq_held ?q = (\<lambda>j. if j < length ids then Some (Some (ids ! j)) else None)" "cm_bufferSize m = B"
    "cm_frontAddress m = sb_address circ"
    using I by (auto simp: cm_init_inv_def Let_def)
  have nth: "(map Some ids @ replicate (N - i) None) ! i = None" using len by (simp add: nth_append)
  have rs: "ManagedBuffer_reset_manager None (cm_self m) circ i h = Some (Some ?p, ?h)"
    by (simp add: ManagedBuffer_reset_manager_def heap_new_def heap_modify_def)
  obtain q' where q': "OrderedQueue_push ?q (Some ?p) i = Some q'" "oq_inv q'" "oq_next q' = oq_next ?q"
    "oq_held q' = (oq_held ?q)(i \<mapsto> Some ?p)" "oq_size q' = oq_size ?q"
    using oq.push_law [OF J(1), of i "Some ?p"] J(2,7) len by auto
  have slots: "slots_ok (ids @ [?p]) ?h"
    using J(4,5) len unfolding slots_ok_def by (auto simp: nth_append less_Suc_eq) (metis nth_mem order_less_irrefl)
  have upd: "(map Some ids @ replicate (N - i) None)[i := Some ?p] = map Some (ids @ [?p]) @ replicate (N - Suc i) None"
  proof -
    have "replicate (N - i) None = (None :: ManagedBuffer) # replicate (N - Suc i) None"
      using len(2) by (metis Suc_diff_Suc replicate_Suc)
    then show ?thesis using len(1) by (simp add: list_update_append)
  qed
  have slab: "ManagedBuffer_getSlabIndex (Some ?p) ?h = Some i" by (simp add: ManagedBuffer_getSlabIndex_def)
  have e: "OrderedQueue_empty ?q \<longleftrightarrow> ids = []" "\<not> OrderedQueue_empty q'"
    using oq.empty_iff [OF J(1)] oq.empty_iff [OF q'(2)] q'(3,4) J(3,7) len by (auto split: if_splits)
  let ?m = "m\<lparr>cm_readyBuffs := q'\<rparr>"
  have held: "oq_held q' = (\<lambda>j. if j < length (ids @ [?p]) then Some (Some ((ids @ [?p]) ! j)) else None)"
    using q'(4) J(7) len by (auto simp: fun_eq_iff nth_append less_Suc_eq)
  show ?thesis
  proof (cases "ids = []")
    case True
    have "OrderedQueue_front q' = Some (Some ?p)" using oq.front_held [OF q'(2) e(2)] held q'(3) J(3) True by simp
    moreover obtain h' where h': "setCircFrontBuffer (Some ?p) (?m, ?h) =
      Inr (?m\<lparr>cm_frontBuffer := \<lparr>bc_address = sb_address circ, bc_length = B, bc_dtype = DType_default,
                bc_managed = Some ?p, bc_nextBuffers = 0\<rparr>\<rparr>, h')" "slots_ok (ids @ [?p]) h'" "hp_fresh h' = Suc ?p"
      using setCircFront_ok [of circ ?m B "ids @ [?p]" ?h 0] circ J True slots by (auto simp: circular_def)
    ultimately have "Circular_init_body i (m, map Some ids @ replicate (N - i) None, h)
        = Inr (?m\<lparr>cm_frontBuffer := \<lparr>bc_address = sb_address circ, bc_length = B, bc_dtype = DType_default,
                bc_managed = Some ?p, bc_nextBuffers = 0\<rparr>\<rparr>, map Some (ids @ [?p]) @ replicate (N - Suc i) None, h')"
      using nth rs slab q'(1) e True upd J(6) by (simp add: Circular_init_body_def Circular_push_def Let_def)
    moreover have "cm_init_inv circ N B (ids @ [?p]) (?m\<lparr>cm_frontBuffer := \<lparr>bc_address = sb_address circ, bc_length = B,
         bc_dtype = DType_default, bc_managed = Some ?p, bc_nextBuffers = 0\<rparr>\<rparr>) h'"
      using I h'(2,3) True held q' J by (auto simp: cm_init_inv_def Let_def)
    ultimately show ?thesis by blast
  next
    case False
    then have "Circular_init_body i (m, map Some ids @ replicate (N - i) None, h)
        = Inr (?m, map Some (ids @ [?p]) @ replicate (N - Suc i) None, ?h)"
      using nth rs slab q'(1) e upd J(6) by (simp add: Circular_init_body_def Circular_push_def Let_def)
    moreover have "cm_init_inv circ N B (ids @ [?p]) ?m ?h"
      using I slots held q' J False by (auto simp: cm_init_inv_def Let_def nth_append)
    ultimately show ?thesis by blast
  qed
qed

lemma cm_init_loop_ok:
  assumes I: "cm_init_inv circ N B [] m h" and circ: "circular circ" "B \<le> sb_length circ"
  shows "\<exists>ids m' h'. for_loop Circular_init_body [0..<N] (m, replicate N None, h)
     = Inr (m', map Some ids, h') \<and> length ids = N \<and> cm_init_inv circ N B ids m' h'"
proof -
  let ?P = "\<lambda>i s. \<exists>ids. length ids = i \<and> fst (snd s) = map Some ids @ replicate (N - i) None
    \<and> cm_init_inv circ N B ids (fst s) (snd (snd s))"
  have "\<exists>s'. for_loop Circular_init_body [0..<N] (m, replicate N None, h) = Inr s' \<and> ?P N s'"
  proof (rule for_loop_inv [where P = ?P])
    show "?P 0 (m, replicate N None, h)" using I by simp
  next
    fix i s assume i: "i < N" "?P i s"
    then obtain m1 h1 ids where s: "s = (m1, map Some ids @ replicate (N - i) None, h1)" "length ids = i"
      "cm_init_inv circ N B ids m1 h1" by (cases s) auto
    from cm_init_body_ok [OF s(3,2) i(1) circ]
    obtain p m2 h2 where r: "Circular_init_body i s = Inr (m2, map Some (ids @ [p]) @ replicate (N - Suc i) None, h2)"
      "cm_init_inv circ N B (ids @ [p]) m2 h2" unfolding s(1) by blast
    show "\<exists>s'. Circular_init_body i s = Inr s' \<and> ?P (Suc i) s'"
      by (intro exI conjI) (rule r(1), use r(2) s(2) in \<open>auto intro!: exI [of _ "ids @ [p]"]\<close>)
  qed
  then show ?thesis by fastforce
qed

lemma slots_ok_same_but_next:
  assumes "slots_ok ids h" "same_but_next h h'"
  shows "slots_ok ids h'"
  unfolding slots_ok_def
proof (intro allI impI)
  fix i assume "i < length ids"
  then obtain im where im: "hp_impl h (ids ! i) = Some im" "im_slabIndex im = i" using assms(1) by (auto simp: slots_ok_def)
  then obtain im' where im': "hp_impl h' (ids ! i) = Some im'" "im'\<lparr>im_nextBuffer := None\<rparr> = im\<lparr>im_nextBuffer := None\<rparr>"
    using assms(2) [unfolded same_but_next_def, rule_format, of "ids ! i"] by (cases "hp_impl h' (ids ! i)") auto
  have "im_slabIndex im' = im_slabIndex im" using arg_cong [OF im'(2), of im_slabIndex] by simp
  then show "\<exists>im. hp_impl h' (ids ! i) = Some im \<and> im_slabIndex im = i" using im im'(1) by simp
qed

lemma circular_init_ok:
  assumes "0 < N" "N \<le> 2 ^ 63" "\<not> cm_initialized m" "cm_bytesToPop m = 0"
    and circ: "circular circ" "B \<le> sb_length circ"
    and args: "numBuffers args = N" "bufferSize args = B" "alloc args = circ"
  shows "\<exists>ids m' h'. Circular_init args alloc (m, h) = Inr (m', map Some ids, h') \<and> length ids = N \<and> distinct ids
     \<and> cm_inv circ ids B (m', h') \<and> cm_abs (m', h') = (0, {..<N}, 0) \<and> cm_pos circ (m', h') = 0
     \<and> (\<forall>i < N. next_of h' (ids ! i) = Some (ids ! ((i + 1) mod N)))"
proof -
  obtain q :: "ManagedBuffer OrderedQueue" where q: "OrderedQueue_new None N = Some q" "oq_inv q" "oq_next q = 0"
    "oq_held q = Map.empty" "oq_size q = N"
    using assms(1,2) by (rule oq_new_inv)
  let ?m = "m\<lparr>cm_initialized := True, cm_circBuff := circ, cm_frontAddress := sb_address circ, cm_bufferSize := B, cm_readyBuffs := q\<rparr>"
  have "cm_init_inv circ N B [] ?m h"
    using q assms(4) by (simp add: cm_init_inv_def Let_def slots_ok_def)
  then obtain ids m' h1 where l: "for_loop Circular_init_body [0..<N] (?m, replicate N None, h) = Inr (m', map Some ids, h1)"
    "length ids = N" "cm_init_inv circ N B ids m' h1"
    using cm_init_loop_ok [OF _ circ] by blast
  have J: "slots_ok ids h1" "distinct ids" "ids \<noteq> []" using l(2,3) assms(1) by (auto simp: cm_init_inv_def Let_def)
  have "\<forall>p \<in> set ids. hp_impl h1 p \<noteq> None" using J(1) by (fastforce simp: slots_ok_def in_set_conv_nth)
  then obtain h2 where h2: "for_loop (set_next_body (map Some ids)) [0..<length ids - 1] h1 = Inr h2"
    "same_but_next h1 h2" "next_linked ids (length ids - 1) h2"
    using set_next_loop_ok J by blast
  have s2: "slots_ok ids h2" by (rule slots_ok_same_but_next [OF J(1) h2(2)])
  then have "hp_impl h2 (last ids) \<noteq> None"
    using J(3) by (auto simp: slots_ok_def last_conv_nth dest: spec [of _ "length ids - 1"])
  then obtain h3 where h3: "ManagedBuffer_setNextBuffer (Some (last ids)) (Some (hd ids)) h2 = Some h3" "same_but_next h2 h3"
    "\<forall>r. next_of h3 r = (if r = last ids then Some (hd ids) else next_of h2 r)"
    using setNext_ok by blast
  have "Circular_init args alloc (m, h) = Inr (m', map Some ids, h3)"
    using assms(3) args q(1) l(1,2) h2(1) h3(1) J(3)
    by (simp add: Circular_init_def BufferManager_init_def Let_def last_map hd_map)
  moreover have "cm_inv circ ids B (m', h3)"
    using l(2,3) J(3) slots_ok_same_but_next [OF s2 h3(2)] assms(1) circ
    by (auto simp: cm_init_inv_def cm_inv_def Let_def circular_def split: if_splits)
  moreover have "cm_abs (m', h3) = (0, {..<N}, 0)" "cm_pos circ (m', h3) = 0"
    using l(2,3) by (auto simp: cm_init_inv_def cm_abs_def cm_pos_def Let_def dom_def)
  moreover have "next_of h3 (ids ! i) = Some (ids ! ((i + 1) mod N))" if "i < N" for i
  proof (cases "i = N - 1")
    case True
    then show ?thesis using h3(3) l(2) J(3) assms(1) by (simp add: last_conv_nth hd_conv_nth)
  next
    case False
    then have "ids ! i \<noteq> last ids" using that l(2) J(2,3) by (simp add: last_conv_nth nth_eq_iff_index_eq)
    then show ?thesis using h2(3) h3(3) l(2) that False by (auto simp: next_linked_def)
  qed
  ultimately show ?thesis using l(2) J(2) by auto
qed

subsection \<open>Properties\<close>

text \<open>
  C15. The generic buffer manager hands out the slab in order. After \<open>init\<close> with a slab large enough,
  for every sequence of pops (of no more bytes than the front buffer has left) and returns of
  outstanding buffers in any order, the manager works without error, is empty exactly when the
  next buffer of the slab in cyclic order has not been returned yet, and otherwise its front is that buffer
  from the bytes already used to its end; so what is handed out never overlaps an outstanding buffer.
\<close>

theorem generic_manager_in_slab_order:
  assumes "0 < N" "N \<le> 2 ^ 63" "2 * B < SIZE_MAX1" "\<not> gm_initialized m" "gm_bytesPopped m = 0"
    and "sb_alias slab = 0" "N * B \<le> sb_length slab" "sb_address slab + sb_length slab < SIZE_MAX1"
    and "numBuffers args = N" "bufferSize args = B" "alloc args = slab"
    and "bm_spec_run N B calls (0, {..<N}, 0) = Some (c, A, off)"
  shows "\<exists>m0 ids h0 m1 h1. Generic_init self args alloc (m, h) = Inr (m0, map Some ids, h0)
    \<and> length ids = N \<and> distinct ids
    \<and> bm_impl_run gm_pop (gm_push ids) calls (m0, h0) = Some (m1, h1)
    \<and> (Generic_empty m1 \<longleftrightarrow> c \<notin> A)
    \<and> (c \<in> A \<longrightarrow> gm_frontBuffer m1 = \<lparr>bc_address = sb_address slab + c * B + off, bc_length = B - off,
          bc_dtype = DType_default, bc_managed = Some (ids ! c), bc_nextBuffers = 0\<rparr>)"
proof -
  obtain ids m0 h0 where i: "Generic_init self args alloc (m, h) = Inr (m0, map Some ids, h0)" "length ids = N" "distinct ids"
    "gm_inv (sb_address slab) ids B (m0, h0)" "gm_abs (m0, h0) = (0, {..<N}, 0)"
    using generic_init_ok [where base = "sb_address slab" and alloc = alloc, OF assms(1-6) refl assms(7-11), of self h] by blast
  obtain m1 h1 where r: "bm_impl_run gm_pop (gm_push ids) calls (m0, h0) = Some (m1, h1)"
    "gm_inv (sb_address slab) ids B (m1, h1)" "gm_abs (m1, h1) = (c, A, off)"
    using gm.run_refines [OF i(4), of calls "(c, A, off)"] i(2,5) assms(12) by auto
  have I: "oq_inv (gm_readyBuffs m1)" using r(2) by (simp add: gm_inv_def Let_def)
  have a: "oq_next (gm_readyBuffs m1) = c" "dom (oq_held (gm_readyBuffs m1)) = A" "gm_bytesPopped m1 = off"
    using r(3) by (auto simp: gm_abs_def)
  have "Generic_empty m1 \<longleftrightarrow> c \<notin> A"
    using oq.empty_iff [OF I] a by (auto simp: Generic_empty_def)
  moreover have "c \<in> A \<longrightarrow> gm_frontBuffer m1 = \<lparr>bc_address = sb_address slab + c * B + off, bc_length = B - off,
          bc_dtype = DType_default, bc_managed = Some (ids ! c), bc_nextBuffers = 0\<rparr>"
    using r(2) a by (auto simp: gm_inv_def Let_def)
  ultimately show ?thesis using i(1-3) r(1) by blast
qed

theorem generic_manager_in_slab_order_witness:
  "\<exists>m0 ids h0 m1 h1.
     Generic_init 7 \<lparr>numBuffers = 2, bufferSize = 8, nodeAffinity = - 1\<rparr> (\<lambda>_. SharedBuffer_new 4096 16 (Some 1))
       (the GenericBufferManager_new, heap_empty) = Inr (m0, map Some ids, h0)
     \<and> bm_impl_run gm_pop (gm_push ids) [BmPop 8, BmPop 2, BmPush 0] (m0, h0) = Some (m1, h1)
     \<and> bc_address (gm_frontBuffer m1) = 4106"
proof -
  obtain r :: "ManagedBuffer RingDeque" where r: "RingDeque_new 1 = Some r" by (rule new_inv [of 1]) auto
  then obtain q where q: "(OrderedQueue_default :: ManagedBuffer OrderedQueue option) = Some q"
    by (auto simp: OrderedQueue_default_def)
  have g: "GenericBufferManager_new = Some \<lparr>gm_initialized = False, gm_frontBuffer = BufferChunk_null, gm_bufferSize = 0,
           gm_bytesPopped = 0, gm_readyBuffs = q\<rparr>"
    by (simp add: GenericBufferManager_new_def q)
  have "bm_spec_run 2 8 [BmPop 8, BmPop 2, BmPush 0] (0, {..<2}, 0) = Some (1, {0, 1}, 2)"
    by auto
  then show ?thesis
    using generic_manager_in_slab_order [of 2 8 "the GenericBufferManager_new" "SharedBuffer_new 4096 16 (Some 1)"
        "\<lparr>numBuffers = 2, bufferSize = 8, nodeAffinity = - 1\<rparr>" "\<lambda>_. SharedBuffer_new 4096 16 (Some 1)"
        "[BmPop 8, BmPop 2, BmPush 0]" 1 "{0, 1}" 2 7 heap_empty]
    by (auto simp: g SharedBuffer_new_def simp del: bm_spec_run.simps bm_impl_run.simps)
qed

text \<open>
  C16. The circular buffer manager hands out contiguous circular memory. Under the same call
  sequences the manager never throws, the front buffer starts exactly where the bytes popped so
  far end (modulo the length of the circular buffer), and always lies inside the double mapping.
\<close>

theorem circular_manager_contiguous:
  assumes "0 < N" "N \<le> 2 ^ 63" "\<not> cm_initialized m" "cm_bytesToPop m = 0"
    and "circular circ" "B \<le> sb_length circ"
    and "numBuffers args = N" "bufferSize args = B" "alloc args = circ"
    and "bm_spec_run N B calls (0, {..<N}, 0) = Some (c, A, off)"
  shows "\<exists>m0 ids h0 m1 h1. Circular_init args alloc (m, h) = Inr (m0, map Some ids, h0)
    \<and> length ids = N \<and> distinct ids
    \<and> bm_impl_run cm_pop (cm_push ids) calls (m0, h0) = Some (m1, h1)
    \<and> (Circular_empty m1 \<longleftrightarrow> c \<notin> A)
    \<and> (c \<in> A \<longrightarrow> (let f = cm_frontBuffer m1 in
          bc_managed f = Some (ids ! c) \<and> bc_length f = B - off
          \<and> (bc_address f - sb_address circ) mod sb_length circ = bm_bytes calls mod sb_length circ
          \<and> sb_address circ \<le> bc_address f
          \<and> bc_address f + bc_length f \<le> sb_address circ + 2 * sb_length circ))"
proof -
  obtain ids m0 h0 where i: "Circular_init args alloc (m, h) = Inr (m0, map Some ids, h0)" "length ids = N" "distinct ids"
    "cm_inv circ ids B (m0, h0)" "cm_abs (m0, h0) = (0, {..<N}, 0)" "cm_pos circ (m0, h0) = 0"
    using circular_init_ok [where alloc = alloc, OF assms(1-9), of h] by blast
  obtain m1 h1 where r: "bm_impl_run cm_pop (cm_push ids) calls (m0, h0) = Some (m1, h1)"
    "cm_inv circ ids B (m1, h1)" "cm_abs (m1, h1) = (c, A, off)"
    using cm.run_refines [OF i(4), of calls "(c, A, off)"] i(2,5) assms(10) by auto
  have p: "cm_pos circ (m1, h1) = bm_bytes calls mod sb_length circ"
    using cm.run_position [OF i(4) _ r(1)] i(2,5,6) assms(10) by simp
  have I: "oq_inv (cm_readyBuffs m1)" using r(2) by (simp add: cm_inv_def Let_def)
  have a: "oq_next (cm_readyBuffs m1) = c" "dom (oq_held (cm_readyBuffs m1)) = A" "cm_bytesToPop m1 = off"
    using r(3) by (auto simp: cm_abs_def)
  have "Circular_empty m1 \<longleftrightarrow> c \<notin> A"
    using oq.empty_iff [OF I] a by (auto simp: Circular_empty_def)
  moreover have "c \<in> A \<longrightarrow> (let f = cm_frontBuffer m1 in
          bc_managed f = Some (ids ! c) \<and> bc_length f = B - off
          \<and> (bc_address f - sb_address circ) mod sb_length circ = bm_bytes calls mod sb_length circ
          \<and> sb_address circ \<le> bc_address f
          \<and> bc_address f + bc_length f \<le> sb_address circ + 2 * sb_length circ)"
    using r(2) a p by (auto simp: cm_inv_def cm_pos_def Let_def)
  ultimately show ?thesis using i(1-3) r(1) by blast
qed

theorem circular_manager_contiguous_witness:
  "\<exists>m0 ids h0 m1 h1.
     Circular_init \<lparr>numBuffers = 2, bufferSize = 8, nodeAffinity = - 1\<rparr>
       (\<lambda>_. \<lparr>sb_address = 4096, sb_length = 16, sb_alias = 4112, sb_container = Some 1\<rparr>)
       (the (CircularBufferManager_new 3), heap_empty) = Inr (m0, map Some ids, h0)
     \<and> bm_impl_run cm_pop (cm_push ids) [BmPop 5, BmPop 6, BmPush 0] (m0, h0) = Some (m1, h1)
     \<and> (bc_address (cm_frontBuffer m1) - 4096) mod 16 = 11"
proof -
  obtain r :: "ManagedBuffer RingDeque" where r: "RingDeque_new 1 = Some r" by (rule new_inv [of 1]) auto
  then obtain q where q: "(OrderedQueue_default :: ManagedBuffer OrderedQueue option) = Some q"
    by (auto simp: OrderedQueue_default_def)
  have "CircularBufferManager_new 3 = Some \<lparr>cm_initialized = False, cm_frontBuffer = BufferChunk_null, cm_frontAddress = 0, cm_bufferSize = 0,
           cm_bytesToPop = 0, cm_circBuff = SharedBuffer_null, cm_readyBuffs = q, cm_self = 3\<rparr>"
    by (simp add: CircularBufferManager_new_def q)
  moreover have "bm_spec_run 2 8 [BmPop 5, BmPop 6, BmPush 0] (0, {..<2}, 0) = Some (0, {0}, 0)"
    by auto
  ultimately show ?thesis
    using circular_manager_contiguous [of 2 "the (CircularBufferManager_new 3)"
        "\<lparr>sb_address = 4096, sb_length = 16, sb_alias = 4112, sb_container = Some 1\<rparr>" 8
        "\<lparr>numBuffers = 2, bufferSize = 8, nodeAffinity = - 1\<rparr>"
        "\<lambda>_. \<lparr>sb_address = 4096, sb_length = 16, sb_alias = 4112, sb_container = Some 1\<rparr>"
        "[BmPop 5, BmPop 6, BmPush 0]" 0 "{0}" 0 heap_empty]
    by (auto simp: circular_def Let_def simp del: bm_spec_run.simps bm_impl_run.simps)
qed

text \<open>
  A manager is initialised at most once: a second call of \<open>init\<close> throws and changes nothing, for both managers.
\<close>

theorem second_init_throws:
  "gm_initialized m \<Longrightarrow> Generic_init self args alloc (m, h) = Inl AlreadyInitialized"
  by (simp add: Generic_init_def BufferManager_init_def)

theorem second_init_throws_witness:
  "Generic_init 1 BufferManagerArgs_default (\<lambda>_. SharedBuffer_null)
     ((the GenericBufferManager_new)\<lparr>gm_initialized := True\<rparr>, heap_empty) = Inl AlreadyInitialized"
  by (rule second_init_throws) simp

end
