(* ===== verification/BufferAccumulator.thy ===== *)
theory BufferAccumulator
  imports BufferManager
begin

section \<open>Buffer pool and buffer accumulator: BufferPool.cpp, BufferAccumulator.cpp\<close>

text \<open>
  The accumulator turns a sequence of chunks into a byte stream: \<open>push\<close> appends a chunk and merges
  contiguous ones towards the front, \<open>pop\<close> consumes bytes of the front chunk, \<open>require\<close> copies chunks
  together into a buffer of the pool when the front is too short.

  \<^item> The deque of chunks is given by its contents, a list: theory \<open>RingDeque\<close> shows that the ring
    buffer refines the list, and the capacity is doubled before a push into a full deque.
  \<^item> The operations read the \<open>Impl\<close> objects of the heap \<open>h\<close> (the memory range of a chunk's buffer, its
    alias, the next pointer); a live chunk holds a reference, so the object exists (theory
    \<open>ManagedBuffer\<close>). The reference counts enter only through \<open>uniq\<close>, which tells whether the pool
    holds the only reference to one of its chunks.
  \<^item> The bytes are those of the memory \<open>mem\<close>; \<open>require\<close> writes to it.
  \<^item> The \<open>assert\<close>s are preconditions: a release build does not check them.
\<close>

subsection \<open>The pool\<close>

record BufferPool =
  bp_minBuffSize :: size_t
  bp_buffs :: "BufferChunk list"

definition defaultSize :: size_t where
  "defaultSize = 8 * 1024"

definition BufferPool_new :: BufferPool where
  "BufferPool_new = \<lparr>bp_minBuffSize = defaultSize, bp_buffs = []\<rparr>"

definition BufferPool_clear :: "BufferPool \<Rightarrow> BufferPool" where
  "BufferPool_clear pool = pool\<lparr>bp_minBuffSize := defaultSize, bp_buffs := []\<rparr>"

text \<open>\<open>newChunk n\<close> is the chunk that \<open>BufferChunk(n)\<close> allocates.\<close>

definition BufferPool_get ::
  "(BufferChunk \<Rightarrow> bool) \<Rightarrow> (size_t \<Rightarrow> BufferChunk) \<Rightarrow> size_t \<Rightarrow> BufferPool \<Rightarrow> BufferChunk \<times> BufferPool" where
  "BufferPool_get uniq newChunk numBytes pool =
     (let pool = (if bp_minBuffSize pool < numBytes then pool\<lparr>bp_buffs := [], bp_minBuffSize := numBytes\<rparr> else pool)
      in case find uniq (bp_buffs pool) of
           Some c \<Rightarrow> (c, pool)
         | None \<Rightarrow> (let c = newChunk (bp_minBuffSize pool) in (c, pool\<lparr>bp_buffs := bp_buffs pool @ [c]\<rparr>)))"

subsection \<open>The accumulator\<close>

record BufferAccumulator =
  ba_queue :: "BufferChunk list"
  ba_bytesAvailable :: size_t
  ba_inPoolBuffer :: bool
  ba_pool :: BufferPool

definition BufferAccumulator_new :: BufferAccumulator where
  "BufferAccumulator_new = \<lparr>ba_queue = [BufferChunk_null], ba_bytesAvailable = 0, ba_inPoolBuffer = False, ba_pool = BufferPool_new\<rparr>"

definition BufferAccumulator_clear :: "BufferAccumulator \<Rightarrow> BufferAccumulator" where
  "BufferAccumulator_clear a = a\<lparr>ba_queue := [BufferChunk_null], ba_bytesAvailable := 0, ba_inPoolBuffer := False,
     ba_pool := BufferPool_clear (ba_pool a)\<rparr>"

definition BufferAccumulator_empty :: "BufferAccumulator \<Rightarrow> bool" where
  "BufferAccumulator_empty a \<longleftrightarrow> ba_bytesAvailable a = 0"

definition BufferAccumulator_front :: "BufferAccumulator \<Rightarrow> BufferChunk" where
  "BufferAccumulator_front a = hd (ba_queue a)"

definition impl_buffer :: "Heap \<Rightarrow> ManagedBuffer \<Rightarrow> SharedBuffer" where
  "impl_buffer h mb = (case ManagedBuffer_getBuffer mb h of Some b \<Rightarrow> b | None \<Rightarrow> SharedBuffer_null)"

definition chunk_buffer :: "Heap \<Rightarrow> BufferChunk \<Rightarrow> SharedBuffer" where
  "chunk_buffer h c = impl_buffer h (bc_managed c)"

definition chunk_alias :: "Heap \<Rightarrow> BufferChunk \<Rightarrow> size_t" where
  "chunk_alias h c = alias_of (bc_address c) (chunk_buffer h c)"

text \<open>
  The merging loop of \<open>push\<close>, from the back: the list is given in reverse, its head is \<open>queue[i]\<close>.
\<close>

fun amalgamate :: "Heap \<Rightarrow> BufferChunk list \<Rightarrow> BufferChunk list" where
  "amalgamate h (b # f # rest) =
     (let fEnd = BufferChunk_getEnd f in
      if bc_address b = fEnd \<or> chunk_alias h b = fEnd then
        b\<lparr>bc_address := sz_add (bc_address b) (bc_length b), bc_length := 0\<rparr>
          # amalgamate h (f\<lparr>bc_length := sz_add (bc_length f) (bc_length b)\<rparr> # rest)
      else b # f # rest)"
| "amalgamate h q = q"

text \<open>Removal of an empty back chunk of the same managed buffer, again on the reversed queue.\<close>

definition drop_empty_back :: "BufferChunk list \<Rightarrow> BufferChunk list" where
  "drop_empty_back q =
     (case q of
        b # f # rest \<Rightarrow> if bc_managed b = bc_managed f \<and> bc_length b = 0 then f # rest else q
      | _ \<Rightarrow> q)"

fun restoreNext :: "Heap \<Rightarrow> nat option \<Rightarrow> nat \<Rightarrow> BufferChunk list" where
  "restoreNext h mb 0 = []"
| "restoreNext h mb (Suc n) =
     (let next = (case mb of None \<Rightarrow> None | Some p \<Rightarrow> next_of h p)
      in (managed_chunk next (impl_buffer h next))\<lparr>bc_length := 0\<rparr> # restoreNext h next n)"

definition BufferAccumulator_push :: "Heap \<Rightarrow> BufferChunk \<Rightarrow> BufferAccumulator \<Rightarrow> BufferAccumulator" where
  "BufferAccumulator_push h buffer a =
     (let q = ba_queue a;
          q = (if bc_length (hd q) = 0 then tl q else q) @ [buffer];
          q = (if length q < 2 then q else rev (drop_empty_back (amalgamate h (rev q))));
          q = q @ restoreNext h (bc_managed buffer) (bc_nextBuffers buffer)
      in a\<lparr>ba_bytesAvailable := sz_add (ba_bytesAvailable a) (bc_length buffer), ba_queue := q\<rparr>)"

text \<open>Moving the rest of the front chunk into the start of the next one.\<close>

definition move_into :: "BufferChunk \<Rightarrow> BufferChunk \<Rightarrow> BufferChunk" where
  "move_into f b = b\<lparr>bc_address := sz_sub (bc_address b) (bc_length f), bc_length := sz_add (bc_length b) (bc_length f)\<rparr>"

definition pop_merge :: "Heap \<Rightarrow> bool \<Rightarrow> BufferChunk list \<Rightarrow> BufferChunk list" where
  "pop_merge h inPool q =
     (case q of
        [] \<Rightarrow> []
      | [f] \<Rightarrow> if bc_length f = 0 then [] else [f]
      | f # b # rest \<Rightarrow>
          if inPool \<and> bc_length f \<le> sz_sub (bc_address b) (sb_address (chunk_buffer h b)) then move_into f b # rest
          else if bc_length f = 0 then b # rest
          else if SharedBuffer_getEnd (chunk_buffer h f) \<le> bc_address f \<and> BufferChunk_getEnd f = bc_address b
          then move_into f b # rest
          else q)"

definition BufferAccumulator_pop :: "Heap \<Rightarrow> size_t \<Rightarrow> BufferAccumulator \<Rightarrow> BufferAccumulator" where
  "BufferAccumulator_pop h numBytes a =
     (let f = hd (ba_queue a);
          f = f\<lparr>bc_address := sz_add (bc_address f) numBytes, bc_length := sz_sub (bc_length f) numBytes\<rparr>;
          q = f # tl (ba_queue a);
          queueSize = length q;
          q = pop_merge h (ba_inPoolBuffer a) q;
          inPool = (ba_inPoolBuffer a \<and> queueSize = length q);
          q = dropWhile (\<lambda>c. bc_length c = 0) q;
          q = (if q = [] then [BufferChunk_null] else q)
      in a\<lparr>ba_bytesAvailable := sz_sub (ba_bytesAvailable a) numBytes, ba_queue := q, ba_inPoolBuffer := inPool\<rparr>)"

primrec require_copy :: "BufferChunk list \<Rightarrow> BufferChunk \<Rightarrow> size_t \<Rightarrow> Mem \<Rightarrow> BufferChunk \<times> BufferChunk list \<times> Mem" where
  "require_copy [] newBuffer newBuffBytes mem = (newBuffer, [], mem)"
| "require_copy (f # q) newBuffer newBuffBytes mem =
     (let copyBytes = min newBuffBytes (bc_length f);
          mem = memcpy (sz_add (bc_address newBuffer) (bc_length newBuffer)) (bc_address f) copyBytes mem;
          newBuffBytes = sz_sub newBuffBytes copyBytes;
          newBuffer = newBuffer\<lparr>bc_length := sz_add (bc_length newBuffer) copyBytes\<rparr>
      in if bc_length f = copyBytes then require_copy q newBuffer newBuffBytes mem
         else (newBuffer,
               f\<lparr>bc_length := sz_sub (bc_length f) copyBytes, bc_address := sz_add (bc_address f) copyBytes\<rparr> # q,
               mem))"

definition BufferAccumulator_require ::
  "Heap \<Rightarrow> (BufferChunk \<Rightarrow> bool) \<Rightarrow> (size_t \<Rightarrow> BufferChunk) \<Rightarrow> size_t \<Rightarrow> BufferAccumulator \<times> Mem \<Rightarrow> BufferAccumulator \<times> Mem" where
  "BufferAccumulator_require h uniq newChunk numBytes = (\<lambda>(a, mem).
     let q = ba_queue a; f = hd q in
     if numBytes \<le> bc_length f then (a, mem)
     else if ba_bytesAvailable a < numBytes \<and> length q = 1 \<and> numBytes \<le> sb_length (chunk_buffer h f) then (a, mem)
     else
       (let (newBuffer, pool) = BufferPool_get uniq newChunk numBytes (ba_pool a);
            (newBuffer, q, mem) =
              require_copy q (newBuffer\<lparr>bc_dtype := bc_dtype f, bc_length := 0\<rparr>) (bc_length newBuffer) mem
        in (a\<lparr>ba_pool := pool, ba_inPoolBuffer := True, ba_queue := newBuffer # q\<rparr>, mem)))"

definition BufferAccumulator_getUniqueManagedBufferCount :: "BufferAccumulator \<Rightarrow> nat" where
  "BufferAccumulator_getUniqueManagedBufferCount a =
     length (remdups (filter (\<lambda>mb. mb \<noteq> None) (map bc_managed (ba_queue a))))"

subsection \<open>The byte stream\<close>

definition chunk_bytes :: "Mem \<Rightarrow> BufferChunk \<Rightarrow> 8 word list" where
  "chunk_bytes mem c = bytes mem (bc_address c) (bc_length c)"

definition stream :: "Mem \<Rightarrow> BufferChunk list \<Rightarrow> 8 word list" where
  "stream mem q = concat (map (chunk_bytes mem) q)"

definition total_bytes :: "BufferChunk list \<Rightarrow> nat" where
  "total_bytes q = sum_list (map bc_length q)"

lemma stream_simps [simp]:
  "stream mem [] = []" "stream mem (c # q) = chunk_bytes mem c @ stream mem q"
  "stream mem (p @ q) = stream mem p @ stream mem q"
  by (simp_all add: stream_def)

lemma total_bytes_simps [simp]:
  "total_bytes [] = 0" "total_bytes (c # q) = bc_length c + total_bytes q" "total_bytes (p @ q) = total_bytes p + total_bytes q" "total_bytes (rev q) = total_bytes q"
  by (simp_all add: total_bytes_def rev_map [symmetric])

lemma length_stream: "length (stream mem q) = total_bytes q"
  by (induction q) (simp_all add: chunk_bytes_def)

lemma hd_bytes: "0 < n \<Longrightarrow> hd (bytes m a n) = m a" "0 < n \<Longrightarrow> bytes m a n \<noteq> []"
  by (simp_all add: bytes_def upt_conv_Cons)

lemma chunk_bytes_Nil [simp]: "bc_length c = 0 \<Longrightarrow> chunk_bytes mem c = []"
  by (simp add: chunk_bytes_def bytes_def)

text \<open>
  The bytes behind the alias of a chunk are the bytes of the chunk, as far as the chunk can be
  extended: what \<open>SharedBuffer.hpp\<close> documents for circular buffers.
\<close>

definition alias_coherent :: "Heap \<Rightarrow> Mem \<Rightarrow> nat \<Rightarrow> BufferChunk \<Rightarrow> bool" where
  "alias_coherent h mem n c \<longleftrightarrow> (chunk_alias h c \<noteq> 0 \<longrightarrow> (\<forall>k < n. mem (chunk_alias h c + k) = mem (bc_address c + k)))"

text \<open>A chunk of a queue that never holds more than \<open>N\<close> bytes: not null, and no address in it wraps.\<close>

definition chunk_ok :: "Heap \<Rightarrow> Mem \<Rightarrow> nat \<Rightarrow> BufferChunk \<Rightarrow> bool" where
  "chunk_ok h mem N c \<longleftrightarrow> 0 < bc_address c \<and> bc_address c + N < SIZE_MAX1 \<and> alias_coherent h mem N c"

lemma alias_coherent_bytes:
  "alias_coherent h mem n c \<Longrightarrow> chunk_alias h c \<noteq> 0 \<Longrightarrow> bc_length c \<le> n \<Longrightarrow>
     bytes mem (chunk_alias h c) (bc_length c) = chunk_bytes mem c"
  by (auto simp: alias_coherent_def chunk_bytes_def intro: nth_equalityI)

lemma chunk_alias_upd [simp]: "chunk_alias h (c\<lparr>bc_length := n\<rparr>) = chunk_alias h c"
  by (simp add: chunk_alias_def chunk_buffer_def)

lemma alias_coherent_upd [simp]: "alias_coherent h mem n (c\<lparr>bc_length := k\<rparr>) = alias_coherent h mem n c"
  by (simp add: alias_coherent_def)

lemma amalgamate_stream:
  assumes "\<forall>c \<in> set rq. chunk_ok h mem N c" "total_bytes rq \<le> N"
  shows "stream mem (rev (amalgamate h rq)) = stream mem (rev rq) \<and> total_bytes (amalgamate h rq) = total_bytes rq"
  using assms
proof (induction h rq rule: amalgamate.induct)
  case (1 h b f rest)
  let ?f = "f\<lparr>bc_length := sz_add (bc_length f) (bc_length b)\<rparr>"
  let ?b = "b\<lparr>bc_address := sz_add (bc_address b) (bc_length b), bc_length := 0\<rparr>"
  have fEnd: "BufferChunk_getEnd f = bc_address f + bc_length f"
    using "1.prems" by (simp add: BufferChunk_getEnd_def chunk_ok_def sz_add_def)
  have len: "sz_add (bc_length f) (bc_length b) = bc_length f + bc_length b"
    using "1.prems" by (simp add: sz_add_def chunk_ok_def)
  show ?case
  proof (cases "bc_address b = BufferChunk_getEnd f \<or> chunk_alias h b = BufferChunk_getEnd f")
    case True
    have "bytes mem (bc_address f + bc_length f) (bc_length b) = chunk_bytes mem b"
    proof (cases "bc_address b = BufferChunk_getEnd f")
      case True
      then show ?thesis by (simp add: chunk_bytes_def fEnd)
    next
      case False
      then have "chunk_alias h b = bc_address f + bc_length f" "chunk_alias h b \<noteq> 0"
        using True fEnd "1.prems"(1) by (auto simp: chunk_ok_def)
      then show ?thesis using alias_coherent_bytes [of h mem N b] "1.prems" by (simp add: chunk_ok_def)
    qed
    then have ext: "chunk_bytes mem ?f = chunk_bytes mem f @ chunk_bytes mem b"
      by (simp add: chunk_bytes_def len bytes_split)
    have am: "amalgamate h (b # f # rest) = ?b # amalgamate h (?f # rest)" using True by (simp add: Let_def)
    have "stream mem (rev (amalgamate h (?f # rest))) = stream mem (rev (?f # rest)) \<and> total_bytes (amalgamate h (?f # rest)) = total_bytes (?f # rest)"
      using "1.IH" [OF refl True] "1.prems" by (simp add: chunk_ok_def len)
    then show ?thesis using ext unfolding am by (simp add: len)
  next
    case False
    then show ?thesis by (simp add: Let_def)
  qed
qed simp_all

lemma drop_empty_back_stream:
  "stream mem (rev (drop_empty_back rq)) = stream mem (rev rq) \<and> total_bytes (drop_empty_back rq) = total_bytes rq"
  by (auto simp: drop_empty_back_def split: list.splits)

lemma restoreNext_stream [simp]: "stream mem (restoreNext h mb n) = [] \<and> total_bytes (restoreNext h mb n) = 0"
  by (induction n arbitrary: mb) (simp_all add: Let_def)

definition ba_inv :: "BufferAccumulator \<Rightarrow> bool" where
  "ba_inv a \<longleftrightarrow> ba_queue a \<noteq> [] \<and> ba_bytesAvailable a = total_bytes (ba_queue a)"

lemma move_into_stream:
  assumes "bytes mem (bc_address b - bc_length f) (bc_length f) = chunk_bytes mem f"
    and "bc_length f \<le> bc_address b" "bc_address b < SIZE_MAX1" "bc_length f + bc_length b < SIZE_MAX1"
  shows "chunk_bytes mem (move_into f b) = chunk_bytes mem f @ chunk_bytes mem b"
    and "bc_length (move_into f b) = bc_length f + bc_length b"
proof -
  have "sz_sub (bc_address b) (bc_length f) = bc_address b - bc_length f" "sz_add (bc_length b) (bc_length f) = bc_length f + bc_length b"
    using assms(2-4) by (auto simp: sz_simps add.commute)
  then show "chunk_bytes mem (move_into f b) = chunk_bytes mem f @ chunk_bytes mem b" "bc_length (move_into f b) = bc_length f + bc_length b"
    using assms(1,2) by (simp_all add: move_into_def chunk_bytes_def bytes_split)
qed

lemma dropWhile_stream:
  "stream mem (dropWhile (\<lambda>c. bc_length c = 0) q) = stream mem q \<and> total_bytes (dropWhile (\<lambda>c. bc_length c = 0) q) = total_bytes q"
  by (induction q) auto

lemma require_copy_stream:
  assumes "bc_length nb + left = cap" "bc_address nb + cap < SIZE_MAX1"
    and "\<forall>c \<in> set q. disjoint_range (bc_address nb) cap (bc_address c) (bc_length c) \<and> bc_address c + bc_length c < SIZE_MAX1"
    and "require_copy q nb left mem = (nb', q', mem')"
  shows "chunk_bytes mem' nb' @ stream mem' q' = chunk_bytes mem nb @ stream mem q
    \<and> bc_length nb' = bc_length nb + min left (total_bytes q) \<and> bc_length nb' + total_bytes q' = bc_length nb + total_bytes q
    \<and> bc_address nb' = bc_address nb"
  using assms
proof (induction q arbitrary: nb left mem)
  case (Cons f q)
  let ?n = "min left (bc_length f)"
  let ?nb = "nb\<lparr>bc_length := bc_length nb + ?n\<rparr>"
  let ?m = "memcpy (bc_address nb + bc_length nb) (bc_address f) ?n mem"
  have s: "sz_add (bc_address nb) (bc_length nb) = bc_address nb + bc_length nb" "sz_sub left ?n = left - ?n"
    "sz_add (bc_length nb) ?n = bc_length nb + ?n"
    using Cons.prems(1,2) by (auto simp: sz_add_def sz_sub_small)
  have keep: "chunk_bytes ?m c = chunk_bytes mem c" if "c \<in> set (f # q)" for c
    using Cons.prems(1,3) that unfolding chunk_bytes_def
    by (intro bytes_memcpy_other) (fastforce simp: disjoint_range_def)
  have keep_q: "stream ?m q = stream mem q"
    using keep by (simp add: stream_def cong: map_cong)
  have new: "chunk_bytes ?m ?nb = chunk_bytes mem nb @ bytes mem (bc_address f) ?n"
  proof -
    have "chunk_bytes ?m nb = chunk_bytes mem nb"
      unfolding chunk_bytes_def by (rule bytes_memcpy_other) (simp add: disjoint_range_def)
    then show ?thesis by (simp add: chunk_bytes_def bytes_split bytes_memcpy)
  qed
  show ?case
  proof (cases "bc_length f = ?n")
    case True
    then have eq: "require_copy q ?nb (left - ?n) ?m = (nb', q', mem')" using Cons.prems(4) s by (simp add: Let_def)
    have "chunk_bytes mem' nb' @ stream mem' q' = chunk_bytes ?m ?nb @ stream ?m q
      \<and> bc_length nb' = bc_length ?nb + min (left - ?n) (total_bytes q) \<and> bc_length nb' + total_bytes q' = bc_length ?nb + total_bytes q
      \<and> bc_address nb' = bc_address ?nb"
      using Cons.prems(1-3) by (intro Cons.IH [OF _ _ _ eq]) auto
    moreover have "bytes mem (bc_address f) ?n = chunk_bytes mem f" using True by (simp add: chunk_bytes_def)
    ultimately show ?thesis using new keep_q True by auto
  next
    case False
    then have l: "left < bc_length f" "?n = left" by auto
    let ?f = "f\<lparr>bc_length := bc_length f - left, bc_address := bc_address f + left\<rparr>"
    have sf: "sz_sub (bc_length f) left = bc_length f - left" "sz_add (bc_address f) left = bc_address f + left"
      using Cons.prems(3) l by (auto simp: sz_add_def sz_sub_small)
    have r: "nb' = ?nb" "q' = ?f # q" "mem' = ?m" using Cons.prems(4) False s sf l by (auto simp: Let_def)
    have "disjoint_range (bc_address nb + bc_length nb) ?n (bc_address f + left) (bc_length f - left)"
      using Cons.prems(1,3) l by (auto simp: disjoint_range_def)
    then have "chunk_bytes ?m ?f = bytes mem (bc_address f + left) (bc_length f - left)"
      unfolding chunk_bytes_def by (simp add: bytes_memcpy_other)
    moreover have "chunk_bytes mem f = bytes mem (bc_address f) left @ bytes mem (bc_address f + left) (bc_length f - left)"
      using bytes_split [of mem "bc_address f" left "bc_length f - left"] l(1) by (simp add: chunk_bytes_def)
    ultimately show ?thesis using r new keep_q l by simp
  qed
qed (auto simp: stream_def)

lemma BufferPool_get_length:
  assumes "\<forall>c \<in> set (bp_buffs pool). bc_length c = bp_minBuffSize pool" "\<And>n. bc_length (newChunk n) = n"
    and "BufferPool_get uniq newChunk n pool = (c, pool')"
  shows "bc_length c = bp_minBuffSize pool'" "n \<le> bc_length c"
    "\<forall>c \<in> set (bp_buffs pool'). bc_length c = bp_minBuffSize pool'"
  using assms by (auto simp: BufferPool_get_def Let_def find_Some_iff split: option.splits if_splits)

subsection \<open>Properties\<close>

text \<open>
  C18. Pushing appends. Pushing a chunk appends its bytes to the stream, whatever merging takes
  place, and the number of available bytes is kept exact. The chunks are not null, no address
  wraps, and alias addresses show the same bytes (circular buffers).
\<close>

theorem accumulator_push_appends:
  assumes "ba_inv a" "N = total_bytes (ba_queue a) + bc_length buffer"
    and "\<forall>c \<in> set (if bc_length (hd (ba_queue a)) = 0 then tl (ba_queue a) else ba_queue a) \<union> {buffer}. chunk_ok h mem N c"
  shows "stream mem (ba_queue (BufferAccumulator_push h buffer a)) = stream mem (ba_queue a) @ chunk_bytes mem buffer
    \<and> ba_inv (BufferAccumulator_push h buffer a)
    \<and> ba_bytesAvailable (BufferAccumulator_push h buffer a) = ba_bytesAvailable a + bc_length buffer"
proof -
  let ?qa = "if bc_length (hd (ba_queue a)) = 0 then tl (ba_queue a) else ba_queue a"
  let ?q = "?qa @ [buffer]"
  obtain f q where fq: "ba_queue a = f # q" using assms(1) by (cases "ba_queue a") (auto simp: ba_inv_def)
  have q0: "stream mem ?qa = stream mem (ba_queue a)" "total_bytes ?qa = total_bytes (ba_queue a)"
    unfolding fq by simp_all
  have am: "stream mem (rev (drop_empty_back (amalgamate h (rev ?q)))) = stream mem ?q"
    "total_bytes (rev (drop_empty_back (amalgamate h (rev ?q)))) = total_bytes ?q"
    using amalgamate_stream [of "rev ?q" h mem N] drop_empty_back_stream [of mem "amalgamate h (rev ?q)"] assms(2,3) q0 by auto
  have avail: "sz_add (ba_bytesAvailable a) (bc_length buffer) = total_bytes (ba_queue a) + bc_length buffer"
    using assms by (auto simp: ba_inv_def sz_add_def chunk_ok_def)
  define r where "r = (if length ?q < 2 then ?q else rev (drop_empty_back (amalgamate h (rev ?q))))"
  have r: "stream mem r = stream mem ?q" "total_bytes r = total_bytes ?q" using am by (auto simp: r_def)
  have "drop_empty_back (amalgamate h (rev ?q)) \<noteq> []" if m: "\<not> length ?q < 2"
  proof -
    have "\<not> length xs < 2 \<Longrightarrow> \<exists>x y zs. xs = x # y # zs" for xs :: "BufferChunk list"
      by (cases xs; cases "tl xs") auto
    from this [of "rev ?q"] obtain x y zs where "rev ?q = x # y # zs" using m unfolding length_rev by blast
    then show ?thesis by (auto simp: drop_empty_back_def Let_def split: list.splits)
  qed
  then have "r \<noteq> []" by (auto simp: r_def)
  moreover have "ba_queue (BufferAccumulator_push h buffer a) = r @ restoreNext h (bc_managed buffer) (bc_nextBuffers buffer)"
    by (simp add: BufferAccumulator_push_def Let_def r_def)
  moreover have "ba_bytesAvailable (BufferAccumulator_push h buffer a) = total_bytes (ba_queue a) + bc_length buffer"
    by (simp add: BufferAccumulator_push_def Let_def avail)
  ultimately show ?thesis using r q0 assms(1) by (simp add: ba_inv_def)
qed

theorem accumulator_push_appends_witness:
  "stream (\<lambda>a. of_nat a)
     (ba_queue (BufferAccumulator_push heap_empty (BufferChunk_null\<lparr>bc_address := 100, bc_length := 2\<rparr>) BufferAccumulator_new)) = [100, 101]"
  using accumulator_push_appends [of BufferAccumulator_new 2 "BufferChunk_null\<lparr>bc_address := 100, bc_length := 2\<rparr>" heap_empty "\<lambda>a. of_nat a"]
  by (simp add: ba_inv_def BufferAccumulator_new_def BufferChunk_null_def chunk_ok_def alias_coherent_def chunk_alias_def
      chunk_buffer_def impl_buffer_def ManagedBuffer_getBuffer_def SharedBuffer_null_def alias_of_def chunk_bytes_def bytes_def upt_rec)

text \<open>
  Popping consumes. Popping at most the bytes of the front chunk drops exactly these bytes from
  the stream and keeps the count of available bytes, provided that, when the front chunk is the
  copy made by \<open>require\<close> and the rest of it would fit before the next chunk in that chunk's buffer,
  the bytes there are the ones that were copied.
\<close>

theorem accumulator_pop_drops:
  assumes "ba_inv a" "numBytes \<le> bc_length (hd (ba_queue a))"
    and "\<forall>c \<in> set (ba_queue a). bc_address c + total_bytes (ba_queue a) < SIZE_MAX1 \<and> sb_address (chunk_buffer h c) \<le> bc_address c"
    and "\<forall>f b rest. ba_queue a = f # b # rest \<and> ba_inPoolBuffer a
           \<and> bc_length f - numBytes \<le> bc_address b - sb_address (chunk_buffer h b) \<longrightarrow>
           bytes mem (bc_address b - (bc_length f - numBytes)) (bc_length f - numBytes)
             = bytes mem (bc_address f + numBytes) (bc_length f - numBytes)"
  shows "stream mem (ba_queue (BufferAccumulator_pop h numBytes a)) = drop numBytes (stream mem (ba_queue a))
    \<and> ba_inv (BufferAccumulator_pop h numBytes a)
    \<and> ba_bytesAvailable (BufferAccumulator_pop h numBytes a) = ba_bytesAvailable a - numBytes"
proof -
  obtain f q where fq: "ba_queue a = f # q" using assms(1) by (cases "ba_queue a") (auto simp: ba_inv_def)
  let ?f = "f\<lparr>bc_address := bc_address f + numBytes, bc_length := bc_length f - numBytes\<rparr>"
  have bnd: "bc_address f + bc_length f < SIZE_MAX1" "bc_length f \<le> total_bytes (ba_queue a)" "numBytes \<le> bc_length f"
    "total_bytes (ba_queue a) < SIZE_MAX1"
    using assms(2,3) fq by auto
  have s: "sz_add (bc_address f) numBytes = bc_address f + numBytes" "sz_sub (bc_length f) numBytes = bc_length f - numBytes"
    "sz_sub (ba_bytesAvailable a) numBytes = ba_bytesAvailable a - numBytes"
    using bnd assms(1) by (auto simp: sz_simps ba_inv_def)
  have f1: "chunk_bytes mem f = bytes mem (bc_address f) numBytes @ chunk_bytes mem ?f"
    using bytes_split [of mem "bc_address f" numBytes "bc_length f - numBytes"] bnd(3) by (simp add: chunk_bytes_def)
  have drop: "drop numBytes (stream mem (ba_queue a)) = stream mem (?f # q)" by (simp add: fq f1)
  let ?m = "pop_merge h (ba_inPoolBuffer a) (?f # q)"
  have merge: "stream mem ?m = stream mem (?f # q) \<and> total_bytes ?m = total_bytes (?f # q)"
  proof (cases q)
    case Nil
    then show ?thesis by (simp add: pop_merge_def)
  next
    case (Cons b rest)
    have b: "bc_address b < SIZE_MAX1" "bc_length f + bc_length b < SIZE_MAX1" "sb_address (chunk_buffer h b) \<le> bc_address b"
      using assms(3) fq Cons by auto
    have off: "sz_sub (bc_address b) (sb_address (chunk_buffer h b)) = bc_address b - sb_address (chunk_buffer h b)"
      using b by (simp add: sz_sub_small)
    have cb: "chunk_buffer h ?f = chunk_buffer h f" by (simp add: chunk_buffer_def)
    have move: "stream mem (move_into ?f b # rest) = stream mem (?f # q) \<and> total_bytes (move_into ?f b # rest) = total_bytes (?f # q)"
      if "bytes mem (bc_address b - bc_length ?f) (bc_length ?f) = chunk_bytes mem ?f" "bc_length ?f \<le> bc_address b"
      using move_into_stream [OF that] b Cons by simp
    show ?thesis
    proof (cases "ba_inPoolBuffer a \<and> bc_length ?f \<le> bc_address b - sb_address (chunk_buffer h b)")
      case True
      then have "bytes mem (bc_address b - bc_length ?f) (bc_length ?f) = chunk_bytes mem ?f" "bc_length ?f \<le> bc_address b"
        using assms(4) fq Cons by (auto simp: chunk_bytes_def)
      from move [OF this] show ?thesis using True off Cons by (simp add: pop_merge_def)
    next
      case no: False
      show ?thesis
      proof (cases "bc_length ?f \<noteq> 0 \<and> SharedBuffer_getEnd (chunk_buffer h ?f) \<le> bc_address ?f \<and> BufferChunk_getEnd ?f = bc_address b")
        case True
        then have "bc_address b = bc_address ?f + bc_length ?f" using bnd by (simp add: BufferChunk_getEnd_def sz_add_def)
        then have "bytes mem (bc_address b - bc_length ?f) (bc_length ?f) = chunk_bytes mem ?f" "bc_length ?f \<le> bc_address b"
          by (simp_all add: chunk_bytes_def)
        from move [OF this] show ?thesis using True no off Cons by (auto simp: pop_merge_def)
      next
        case False
        then show ?thesis using no off Cons by (auto simp: pop_merge_def)
      qed
    qed
  qed
  define d where "d = dropWhile (\<lambda>c. bc_length c = 0) ?m"
  have d: "stream mem d = stream mem (?f # q)" "total_bytes d = total_bytes (?f # q)"
    using dropWhile_stream [of mem ?m] merge by (auto simp: d_def)
  have "ba_queue (BufferAccumulator_pop h numBytes a) = (if d = [] then [BufferChunk_null] else d)"
    "ba_bytesAvailable (BufferAccumulator_pop h numBytes a) = ba_bytesAvailable a - numBytes"
    unfolding BufferAccumulator_pop_def Let_def fq list.sel s d_def [symmetric] by simp_all
  moreover have "stream mem (if d = [] then [BufferChunk_null] else d) = stream mem d"
    "total_bytes (if d = [] then [BufferChunk_null] else d) = total_bytes d"
    by (simp_all add: BufferChunk_null_def)
  moreover have "total_bytes d = ba_bytesAvailable a - numBytes"
    using assms(1) bnd(3) d(2) by (simp add: ba_inv_def fq)
  ultimately show ?thesis
    unfolding drop ba_inv_def using d(1) by (simp only: if_False if_True) simp
qed

theorem accumulator_pop_drops_witness:
  "stream (\<lambda>a. of_nat a) (ba_queue (BufferAccumulator_pop heap_empty 1
     (BufferAccumulator_new\<lparr>ba_queue := [BufferChunk_null\<lparr>bc_address := 100, bc_length := 2\<rparr>], ba_bytesAvailable := 2\<rparr>))) = [101]"
  using accumulator_pop_drops [of "BufferAccumulator_new\<lparr>ba_queue := [BufferChunk_null\<lparr>bc_address := 100, bc_length := 2\<rparr>], ba_bytesAvailable := 2\<rparr>"
      1 heap_empty "\<lambda>a. of_nat a"]
  by (simp add: ba_inv_def BufferChunk_null_def chunk_buffer_def impl_buffer_def ManagedBuffer_getBuffer_def SharedBuffer_null_def
      chunk_bytes_def bytes_def upt_rec)

text \<open>
  \<open>require\<close> changes the arrangement and not the stream: the bytes in the accumulator stay the
  same (while the copy into the pool buffer writes memory apart from the chunks), and when the
  accumulator has the required number of bytes, the front chunk has them afterwards.
\<close>

theorem accumulator_require_contiguous:
  assumes "ba_inv a" "\<forall>c \<in> set (bp_buffs (ba_pool a)). bc_length c = bp_minBuffSize (ba_pool a)" "\<And>n. bc_length (newChunk n) = n"
    and "BufferPool_get uniq newChunk numBytes (ba_pool a) = (nb, pool)" "bc_address nb + bc_length nb < SIZE_MAX1"
    and "\<forall>c \<in> set (ba_queue a). disjoint_range (bc_address nb) (bc_length nb) (bc_address c) (bc_length c) \<and> bc_address c + bc_length c < SIZE_MAX1"
    and "BufferAccumulator_require h uniq newChunk numBytes (a, mem) = (a', mem')"
  shows "stream mem' (ba_queue a') = stream mem (ba_queue a) \<and> ba_inv a' \<and> ba_bytesAvailable a' = ba_bytesAvailable a
    \<and> (numBytes \<le> ba_bytesAvailable a \<longrightarrow> numBytes \<le> bc_length (BufferAccumulator_front a'))"
proof -
  let ?f = "hd (ba_queue a)"
  let ?stay = "numBytes \<le> bc_length ?f \<or> ba_bytesAvailable a < numBytes \<and> length (ba_queue a) = 1 \<and> numBytes \<le> sb_length (chunk_buffer h ?f)"
  show ?thesis
  proof (cases ?stay)
    case True
    then show ?thesis using assms(1,7) by (auto simp: BufferAccumulator_require_def BufferAccumulator_front_def Let_def split: if_splits)
  next
    case False
    note len = BufferPool_get_length [OF assms(2-4)]
    let ?nb = "nb\<lparr>bc_dtype := bc_dtype ?f, bc_length := 0\<rparr>"
    obtain nb' q' m' where c: "require_copy (ba_queue a) ?nb (bc_length nb) mem = (nb', q', m')" by (rule prod_cases3)
    have "\<not> numBytes \<le> bc_length ?f"
      "\<not> (ba_bytesAvailable a < numBytes \<and> length (ba_queue a) = 1 \<and> numBytes \<le> sb_length (chunk_buffer h ?f))"
      using False by simp_all
    then have "BufferAccumulator_require h uniq newChunk numBytes (a, mem) =
        (a\<lparr>ba_pool := pool, ba_inPoolBuffer := True, ba_queue := nb' # q'\<rparr>, m')"
      unfolding BufferAccumulator_require_def Let_def prod.case assms(4) c by (simp only: if_False)
    then have r: "require_copy (ba_queue a) ?nb (bc_length nb) mem = (nb', q', mem')"
      "a' = a\<lparr>ba_pool := pool, ba_inPoolBuffer := True, ba_queue := nb' # q'\<rparr>"
      using assms(7) c by simp_all
    have "chunk_bytes mem' nb' @ stream mem' q' = chunk_bytes mem ?nb @ stream mem (ba_queue a)
      \<and> bc_length nb' = bc_length ?nb + min (bc_length nb) (total_bytes (ba_queue a))
      \<and> bc_length nb' + total_bytes q' = bc_length ?nb + total_bytes (ba_queue a) \<and> bc_address nb' = bc_address ?nb"
      using assms(5,6) by (intro require_copy_stream [OF _ _ _ r(1), of "bc_length nb"]) auto
    then show ?thesis using r(2) len(2) assms(1) by (auto simp: ba_inv_def BufferAccumulator_front_def)
  qed
qed

theorem accumulator_require_contiguous_witness:
  "stream (snd (BufferAccumulator_require heap_empty (\<lambda>_. False)
        (\<lambda>n. BufferChunk_null\<lparr>bc_address := 65536, bc_length := n\<rparr>) 3
        (BufferAccumulator_new\<lparr>ba_queue := [BufferChunk_null\<lparr>bc_address := 100, bc_length := 2\<rparr>, BufferChunk_null\<lparr>bc_address := 200, bc_length := 2\<rparr>],
           ba_bytesAvailable := 4\<rparr>, \<lambda>a. of_nat a)))
     (ba_queue (fst (BufferAccumulator_require heap_empty (\<lambda>_. False)
        (\<lambda>n. BufferChunk_null\<lparr>bc_address := 65536, bc_length := n\<rparr>) 3
        (BufferAccumulator_new\<lparr>ba_queue := [BufferChunk_null\<lparr>bc_address := 100, bc_length := 2\<rparr>, BufferChunk_null\<lparr>bc_address := 200, bc_length := 2\<rparr>],
           ba_bytesAvailable := 4\<rparr>, \<lambda>a. of_nat a)))) = [100, 101, 200, 201]"
proof -
  let ?a = "BufferAccumulator_new\<lparr>ba_queue := [BufferChunk_null\<lparr>bc_address := 100, bc_length := 2\<rparr>, BufferChunk_null\<lparr>bc_address := 200, bc_length := 2\<rparr>],
           ba_bytesAvailable := 4\<rparr>"
  let ?new = "\<lambda>n. BufferChunk_null\<lparr>bc_address := 65536, bc_length := n\<rparr>"
  let ?pool = "\<lparr>bp_minBuffSize = 8192, bp_buffs = [?new 8192]\<rparr>"
  have inv: "ba_inv ?a" by (simp add: ba_inv_def)
  have pool: "\<forall>c \<in> set (bp_buffs (ba_pool ?a)). bc_length c = bp_minBuffSize (ba_pool ?a)"
    by (simp add: BufferAccumulator_new_def BufferPool_new_def)
  have new: "\<And>n. bc_length (?new n) = n" by simp
  have get: "BufferPool_get (\<lambda>_. False) ?new 3 (ba_pool ?a) = (?new 8192, ?pool)"
    by (simp add: BufferAccumulator_new_def BufferPool_new_def BufferPool_get_def defaultSize_def Let_def)
  have dis: "\<forall>c \<in> set (ba_queue ?a). disjoint_range (bc_address (?new 8192)) (bc_length (?new 8192)) (bc_address c) (bc_length c) \<and> bc_address c + bc_length c < SIZE_MAX1"
    by (simp add: disjoint_range_def)
  have low: "bc_address (?new 8192) + bc_length (?new 8192) < SIZE_MAX1" by simp
  show ?thesis
    using accumulator_require_contiguous [OF inv pool new get low dis surjective_pairing, of heap_empty "\<lambda>a. of_nat a"]
    by (simp add: chunk_bytes_def bytes_def upt_rec)
qed

text \<open>
  The shortcut of \<open>pop\<close> can return wrong bytes. The test that the rest of the pool buffer came
  from the next chunk compares lengths with the offset of that chunk in its buffer, not with what was
  copied from it: with a 10 byte chunk followed by a chunk that starts 100 bytes into its buffer,
  \<open>require(12)\<close> followed by \<open>pop(1)\<close> continues with a byte that was never pushed.
\<close>

definition corrupt_heap :: Heap where
  "corrupt_heap = heap_empty\<lparr>hp_fresh := 2, hp_impl := [0 \<mapsto> Impl_new\<lparr>im_buffer := SharedBuffer_new 1000 10 None\<rparr>,
     1 \<mapsto> Impl_new\<lparr>im_buffer := SharedBuffer_new 20000 12000 None\<rparr>]\<rparr>"

definition corrupt_run :: "Mem \<Rightarrow> BufferAccumulator \<times> Mem" where
  "corrupt_run mem =
     (let a = BufferAccumulator_push corrupt_heap (BufferChunk_null\<lparr>bc_address := 1000, bc_length := 10, bc_managed := Some 0\<rparr>) BufferAccumulator_new;
          a = BufferAccumulator_push corrupt_heap (BufferChunk_null\<lparr>bc_address := 20100, bc_length := 10000, bc_managed := Some 1\<rparr>) a
      in BufferAccumulator_require corrupt_heap (\<lambda>_. False) (\<lambda>n. BufferChunk_null\<lparr>bc_address := 50000, bc_length := n\<rparr>) 12 (a, mem))"

theorem accumulator_pop_corrupts_after_require:
  "\<exists>mem a mem'. corrupt_run mem = (a, mem')
     \<and> take 10 (stream mem' (ba_queue a)) = bytes mem 1000 10
     \<and> hd (stream mem' (ba_queue (BufferAccumulator_pop corrupt_heap 1 a))) \<noteq> mem 1001"
proof -
  let ?mem = "\<lambda>a. of_nat a :: 8 word"
  let ?nb = "BufferChunk_null\<lparr>bc_address := 50000, bc_length := 8192\<rparr>"
  let ?b = "BufferChunk_null\<lparr>bc_address := 28282, bc_length := 1818, bc_managed := Some 1\<rparr>"
  let ?m = "memcpy 50010 20100 8182 (memcpy 50000 1000 10 ?mem)"
  have run: "corrupt_run ?mem = (\<lparr>ba_queue = [?nb, ?b], ba_bytesAvailable = 10010, ba_inPoolBuffer = True,
      ba_pool = \<lparr>bp_minBuffSize = 8192, bp_buffs = [?nb]\<rparr>\<rparr>, ?m)"
    by (simp add: corrupt_run_def Let_def BufferAccumulator_push_def BufferAccumulator_new_def BufferChunk_null_def
        amalgamate.simps drop_empty_back_def BufferChunk_getEnd_def sz_add_def sz_sub_def chunk_alias_def chunk_buffer_def impl_buffer_def
        ManagedBuffer_getBuffer_def corrupt_heap_def SharedBuffer_new_def alias_of_def BufferAccumulator_require_def
        BufferPool_get_def BufferPool_new_def defaultSize_def)
  have pop: "ba_queue (BufferAccumulator_pop corrupt_heap 1 (fst (corrupt_run ?mem)))
      = [BufferChunk_null\<lparr>bc_address := 20091, bc_length := 10009, bc_managed := Some 1\<rparr>]"
    unfolding run by (simp add: BufferAccumulator_pop_def Let_def pop_merge_def move_into_def BufferChunk_null_def sz_add_def sz_sub_def
        chunk_buffer_def impl_buffer_def ManagedBuffer_getBuffer_def corrupt_heap_def SharedBuffer_new_def)
  have "bytes ?m 50000 10 = bytes ?mem 1000 10"
    using bytes_memcpy_other [of 50010 8182 50000 10 20100 "memcpy 50000 1000 10 ?mem"] bytes_memcpy [of 50000 1000 10 ?mem]
    by (simp add: disjoint_range_def)
  then have first: "take 10 (stream ?m (ba_queue (fst (corrupt_run ?mem)))) = bytes ?mem 1000 10"
    unfolding run using bytes_split [of ?m 50000 10 8182] by (simp add: chunk_bytes_def)
  have "hd (stream ?m (ba_queue (BufferAccumulator_pop corrupt_heap 1 (fst (corrupt_run ?mem))))) = ?mem 20091"
    unfolding pop by (simp add: chunk_bytes_def hd_bytes memcpy_def)
  moreover have "?mem 20091 \<noteq> ?mem 1001" by simp
  ultimately show ?thesis using first run by (metis fst_conv)
qed

end
