(* ===== verification/Ports.thy ===== *)
theory Ports
  imports BufferAccumulator
begin

section \<open>Labels, input ports and output ports\<close>

text \<open>
  \<open>Label.hpp\<close>, \<open>InputPort.cpp\<close>, \<open>InputPortImpl.hpp\<close>, \<open>OutputPort.cpp\<close>, \<open>OutputPortImpl.hpp\<close>.

  An input port queues stream bytes (a \<open>BufferAccumulator\<close>), labels attached to byte offsets of the
  stream, asynchronous messages and slot calls; an output port holds the buffers and labels posted
  during a call of \<open>work\<close> and the managers it gets buffers and message tokens from.

  \<^item> \<open>Object\<close>, the data of labels and messages, is the type parameter \<open>'o\<close>.
  \<^item> The spin locks make each member function atomic; one step of the model is one such function.
  \<^item> Message and slot queues are \<open>RingDeque\<close>s with their capacity, since the overflow rule depends on
    it; vectors and the deque of inline messages, which grows on demand, are lists.
  \<^item> \<open>flagExternalChange\<close> of the owning actor is counted in \<open>ip_externalChanges\<close>.
  \<^item> Addresses of ports are numbers: subscriber lists hold the addresses of ports of other blocks.
\<close>

subsection \<open>Labels\<close>

record 'o Label =
  lb_id :: string
  lb_data :: 'o
  lb_index :: size_t
  lb_width :: size_t

definition Label_new :: "string \<Rightarrow> 'o \<Rightarrow> size_t \<Rightarrow> size_t \<Rightarrow> 'o Label" where
  "Label_new i data index width = \<lparr>lb_id = i, lb_data = data, lb_index = index, lb_width = width\<rparr>"

text \<open>\<open>adjust\<close> with integer factors; \<open>div\<close> is not zero.\<close>

definition Label_adjust :: "size_t \<Rightarrow> size_t \<Rightarrow> 'o Label \<Rightarrow> 'o Label" where
  "Label_adjust mult d l =
     (let l = l\<lparr>lb_index := sz_mul (lb_index l) mult, lb_width := sz_mul (lb_width l) mult\<rparr>
      in l\<lparr>lb_index := lb_index l div d, lb_width := lb_width l div d\<rparr>)"

definition Label_toAdjusted :: "size_t \<Rightarrow> size_t \<Rightarrow> 'o Label \<Rightarrow> 'o Label" where
  "Label_toAdjusted mult d l = Label_adjust mult d l"

definition Label_less :: "'o Label \<Rightarrow> 'o Label \<Rightarrow> bool" where
  "Label_less a b \<longleftrightarrow> lb_index a < lb_index b"

definition Label_eq :: "'o Label \<Rightarrow> 'o Label \<Rightarrow> bool" where
  "Label_eq a b \<longleftrightarrow> lb_index a = lb_index b \<and> lb_width a = lb_width b \<and> lb_id a = lb_id b \<and> lb_data a = lb_data b"

subsection \<open>Input ports\<close>

type_synonym 'o message = "'o \<times> BufferChunk"

record 'o InputPort =
  ip_isSlot :: bool
  ip_index :: int
  ip_name :: string
  ip_alias :: string
  ip_dtype :: DType
  ip_domain :: string
  ip_buffer :: BufferChunk
  ip_elements :: size_t
  ip_labelIter :: "'o Label list"
  ip_totalElements :: size_t
  ip_totalBuffers :: size_t
  ip_totalLabels :: size_t
  ip_totalMessages :: size_t
  ip_pendingElements :: size_t
  ip_reserveElements :: size_t
  ip_workEvents :: size_t
  ip_asyncMessages :: "'o message RingDeque"
  ip_slotCalls :: "'o message RingDeque"
  ip_inlineMessages :: "'o Label list"
  ip_inputInlineMessages :: "'o Label list"
  ip_accumulator :: BufferAccumulator
  ip_subscribers :: "nat list"
  ip_externalChanges :: nat

definition MaxQueueCapacity :: nat where [simp]: "MaxQueueCapacity = 1024"

definition InputPort_new :: "'o message RingDeque \<Rightarrow> 'o InputPort" where
  "InputPort_new empty_deque =
     \<lparr>ip_isSlot = False, ip_index = - 1, ip_name = '''', ip_alias = '''', ip_dtype = DType_default, ip_domain = '''',
      ip_buffer = BufferChunk_null, ip_elements = 0, ip_labelIter = [], ip_totalElements = 0, ip_totalBuffers = 0,
      ip_totalLabels = 0, ip_totalMessages = 0, ip_pendingElements = 0, ip_reserveElements = 0, ip_workEvents = 0,
      ip_asyncMessages = empty_deque, ip_slotCalls = empty_deque, ip_inlineMessages = [], ip_inputInlineMessages = [],
      ip_accumulator = BufferAccumulator_new, ip_subscribers = [], ip_externalChanges = 0\<rparr>"

definition InputPort_alias :: "'o InputPort \<Rightarrow> string" where
  "InputPort_alias p = (if ip_alias p = '''' then ip_name p else ip_alias p)"

definition flagExternalChange :: "'o InputPort \<Rightarrow> 'o InputPort" where
  "flagExternalChange p = p\<lparr>ip_externalChanges := ip_externalChanges p + 1\<rparr>"

text \<open>The bounded queue of messages and slot calls: doubled when full, emptied at 1024 entries.\<close>

definition message_queue_push :: "'o message \<Rightarrow> 'o message RingDeque \<Rightarrow> 'o message RingDeque option" where
  "message_queue_push m q = do {
     q \<leftarrow> (if RingDeque_full q then
              (if MaxQueueCapacity \<le> rd_numElements q then Some (RingDeque_clear q)
               else RingDeque_set_capacity q (sz_mul (rd_capacity q) 2))
            else Some q);
     Some (RingDeque_emplace_back q m) }"

definition asyncMessagesPush :: "'o \<Rightarrow> BufferChunk \<Rightarrow> 'o InputPort \<Rightarrow> 'o InputPort option" where
  "asyncMessagesPush m token p = do {
     q \<leftarrow> message_queue_push (m, token) (ip_asyncMessages p);
     Some (flagExternalChange (p\<lparr>ip_asyncMessages := q\<rparr>)) }"

definition asyncMessagesEmpty :: "'o InputPort \<Rightarrow> bool" where
  "asyncMessagesEmpty p = RingDeque_empty (ip_asyncMessages p)"

definition asyncMessagesPop :: "'o InputPort \<Rightarrow> 'o option \<times> 'o InputPort" where
  "asyncMessagesPop p =
     (if RingDeque_empty (ip_asyncMessages p) then (None, p)
      else (map_option fst (RingDeque_front (ip_asyncMessages p)),
            p\<lparr>ip_asyncMessages := RingDeque_pop_front (ip_asyncMessages p)\<rparr>))"

definition asyncMessagesPeek :: "'o InputPort \<Rightarrow> 'o option" where
  "asyncMessagesPeek p =
     (if RingDeque_empty (ip_asyncMessages p) then None else map_option fst (RingDeque_front (ip_asyncMessages p)))"

definition asyncMessagesClear :: "'o InputPort \<Rightarrow> 'o InputPort" where
  "asyncMessagesClear p = p\<lparr>ip_asyncMessages := RingDeque_clear (ip_asyncMessages p)\<rparr>"

definition slotCallsPush :: "'o \<Rightarrow> BufferChunk \<Rightarrow> 'o InputPort \<Rightarrow> 'o InputPort option" where
  "slotCallsPush args token p = do {
     q \<leftarrow> message_queue_push (args, token) (ip_slotCalls p);
     Some (flagExternalChange (p\<lparr>ip_slotCalls := q\<rparr>)) }"

definition slotCallsEmpty :: "'o InputPort \<Rightarrow> bool" where
  "slotCallsEmpty p = RingDeque_empty (ip_slotCalls p)"

definition slotCallsPop :: "'o InputPort \<Rightarrow> ('o \<times> 'o InputPort) option" where
  "slotCallsPop p = do {
     (args, token) \<leftarrow> RingDeque_front (ip_slotCalls p);
     Some (args, p\<lparr>ip_slotCalls := RingDeque_pop_front (ip_slotCalls p)\<rparr>) }"

definition slotCallsClear :: "'o InputPort \<Rightarrow> 'o InputPort" where
  "slotCallsClear p = p\<lparr>ip_slotCalls := RingDeque_clear (ip_slotCalls p)\<rparr>"

definition bufferAccumulatorPushNoLock :: "Heap \<Rightarrow> BufferChunk \<Rightarrow> 'o InputPort \<Rightarrow> 'o InputPort" where
  "bufferAccumulatorPushNoLock h buffer p =
     (if \<not> DType_bool (bc_dtype buffer) \<or> \<not> DType_bool (ip_dtype p) \<or> DType_size (ip_dtype p) = DType_size (bc_dtype buffer)
      then (let buffer = (if \<not> DType_bool (bc_dtype buffer) then buffer\<lparr>bc_dtype := ip_dtype p\<rparr> else buffer)
            in p\<lparr>ip_accumulator := BufferAccumulator_push h buffer (ip_accumulator p),
                 ip_totalBuffers := sz_add (ip_totalBuffers p) 1\<rparr>)
      else p)"

definition bufferAccumulatorPush :: "Heap \<Rightarrow> BufferChunk \<Rightarrow> 'o InputPort \<Rightarrow> 'o InputPort" where
  "bufferAccumulatorPush h buffer p = bufferAccumulatorPushNoLock h buffer p"

definition bufferAccumulatorPop :: "Heap \<Rightarrow> size_t \<Rightarrow> 'o InputPort \<Rightarrow> 'o InputPort" where
  "bufferAccumulatorPop h numBytes p =
     (if ba_bytesAvailable (ip_accumulator p) < numBytes then p
      else p\<lparr>ip_accumulator := BufferAccumulator_pop h numBytes (ip_accumulator p),
             ip_inputInlineMessages := map (\<lambda>l. l\<lparr>lb_index := sz_sub (lb_index l) numBytes\<rparr>) (ip_inputInlineMessages p),
             ip_workEvents := sz_add (ip_workEvents p) 1\<rparr>)"

definition bufferAccumulatorRequire ::
  "Heap \<Rightarrow> (BufferChunk \<Rightarrow> bool) \<Rightarrow> (size_t \<Rightarrow> BufferChunk) \<Rightarrow> size_t \<Rightarrow> 'o InputPort \<times> Mem \<Rightarrow> 'o InputPort \<times> Mem" where
  "bufferAccumulatorRequire h uniq newChunk numBytes = (\<lambda>(p, mem).
     let (a, mem) = BufferAccumulator_require h uniq newChunk numBytes (ip_accumulator p, mem)
     in (p\<lparr>ip_accumulator := a\<rparr>, mem))"

text \<open>\<open>bufferAccumulatorFront\<close> moves the queued labels to the user's list, in elements, and returns the front chunk.\<close>

definition bufferAccumulatorFront :: "'o InputPort \<Rightarrow> BufferChunk \<times> 'o InputPort" where
  "bufferAccumulatorFront p =
     (BufferAccumulator_front (ip_accumulator p),
      p\<lparr>ip_inlineMessages := ip_inlineMessages p @ map (Label_adjust 1 (DType_size (ip_dtype p))) (ip_inputInlineMessages p),
        ip_inputInlineMessages := []\<rparr>)"

definition bufferAccumulatorClear :: "'o InputPort \<Rightarrow> 'o InputPort" where
  "bufferAccumulatorClear p = p\<lparr>ip_accumulator := BufferAccumulator_new\<rparr>"

definition inlineMessagesPush :: "'o Label \<Rightarrow> 'o InputPort \<Rightarrow> 'o InputPort" where
  "inlineMessagesPush l p = p\<lparr>ip_inputInlineMessages := ip_inputInlineMessages p @ [l]\<rparr>"

definition inlineMessagesClear :: "'o InputPort \<Rightarrow> 'o InputPort" where
  "inlineMessagesClear p = p\<lparr>ip_inputInlineMessages := [], ip_inlineMessages := []\<rparr>"

text \<open>
  \<open>bufferLabelPush\<close> delivers the posted labels and buffers; with \<open>enableMove\<close> the caller's containers
  are emptied. The result is the port and the containers.
\<close>

definition bufferLabelPush ::
  "Heap \<Rightarrow> bool \<Rightarrow> 'o Label list \<Rightarrow> BufferChunk list \<Rightarrow> 'o InputPort \<Rightarrow> 'o InputPort \<times> 'o Label list \<times> BufferChunk list" where
  "bufferLabelPush h enableMove postedLabels postedBuffers p =
     (let currentBytes = ba_bytesAvailable (ip_accumulator p);
          p = p\<lparr>ip_inputInlineMessages := ip_inputInlineMessages p @
                   map (\<lambda>l. l\<lparr>lb_index := sz_add (lb_index l) currentBytes\<rparr>) postedLabels\<rparr>;
          p = fold (bufferAccumulatorPushNoLock h) postedBuffers p
      in (flagExternalChange p, if enableMove then ([], []) else (postedLabels, postedBuffers)))"

definition InputPort_pushBuffer :: "Heap \<Rightarrow> BufferChunk \<Rightarrow> 'o InputPort \<Rightarrow> 'o InputPort" where
  "InputPort_pushBuffer h buffer p = flagExternalChange (bufferAccumulatorPush h buffer p)"

definition InputPort_pushLabel :: "'o Label \<Rightarrow> 'o InputPort \<Rightarrow> 'o InputPort" where
  "InputPort_pushLabel l p = flagExternalChange (inlineMessagesPush l p)"

definition InputPort_pushMessage :: "'o \<Rightarrow> 'o InputPort \<Rightarrow> 'o InputPort option" where
  "InputPort_pushMessage m p = asyncMessagesPush m BufferChunk_null p"

definition InputPort_clear :: "'o InputPort \<Rightarrow> 'o InputPort" where
  "InputPort_clear p = slotCallsClear (asyncMessagesClear (inlineMessagesClear (bufferAccumulatorClear p)))"

definition InputPort_consume :: "size_t \<Rightarrow> 'o InputPort \<Rightarrow> 'o InputPort" where
  "InputPort_consume n p = p\<lparr>ip_pendingElements := sz_add (ip_pendingElements p) n\<rparr>"

definition InputPort_takeBuffer :: "'o InputPort \<Rightarrow> BufferChunk \<times> 'o InputPort" where
  "InputPort_takeBuffer p = (ip_buffer p, p\<lparr>ip_buffer := BufferChunk_moved_from (ip_buffer p)\<rparr>)"

definition InputPort_hasMessage :: "'o InputPort \<Rightarrow> bool" where
  "InputPort_hasMessage p \<longleftrightarrow> \<not> asyncMessagesEmpty p"

definition InputPort_popMessage :: "'o InputPort \<Rightarrow> 'o option \<times> 'o InputPort" where
  "InputPort_popMessage p =
     (let (msg, p) = asyncMessagesPop p
      in (msg, p\<lparr>ip_totalMessages := sz_add (ip_totalMessages p) 1, ip_workEvents := sz_add (ip_workEvents p) 1\<rparr>))"

definition InputPort_peekMessage :: "'o InputPort \<Rightarrow> 'o option" where
  "InputPort_peekMessage p = asyncMessagesPeek p"

fun remove_label_from :: "'o Label \<Rightarrow> 'o Label list \<Rightarrow> 'o Label list option" where
  "remove_label_from l [] = None"
| "remove_label_from l (x # xs) = (if Label_eq x l then Some xs else map_option ((#) x) (remove_label_from l xs))"

definition InputPort_removeLabel :: "'o Label \<Rightarrow> 'o InputPort \<Rightarrow> 'o InputPort" where
  "InputPort_removeLabel l p =
     (case remove_label_from l (ip_inlineMessages p) of
        None \<Rightarrow> p
      | Some ls \<Rightarrow> p\<lparr>ip_inlineMessages := ls, ip_labelIter := ls,
                     ip_totalLabels := sz_add (ip_totalLabels p) 1, ip_workEvents := sz_add (ip_workEvents p) 1\<rparr>)"

definition InputPort_setReserve :: "size_t \<Rightarrow> 'o InputPort \<Rightarrow> 'o InputPort" where
  "InputPort_setReserve n p =
     (let p = (if ip_reserveElements p < n then p\<lparr>ip_workEvents := sz_add (ip_workEvents p) 1\<rparr> else p)
      in p\<lparr>ip_reserveElements := n\<rparr>)"

subsection \<open>Output ports\<close>

datatype Manager = GenericManager GenericBufferManager | CircularManager CircularBufferManager

fun Manager_empty :: "Manager \<Rightarrow> bool" where
  "Manager_empty (GenericManager m) = Generic_empty m"
| "Manager_empty (CircularManager m) = Circular_empty m"

fun Manager_front :: "Manager \<Rightarrow> BufferChunk" where
  "Manager_front (GenericManager m) = gm_frontBuffer m"
| "Manager_front (CircularManager m) = cm_frontBuffer m"

fun Manager_pop :: "size_t \<Rightarrow> Manager \<times> Heap \<Rightarrow> (Manager \<times> Heap) option" where
  "Manager_pop n (GenericManager m, h) = map_option (\<lambda>m. (GenericManager m, h)) (Generic_pop m n h)"
| "Manager_pop n (CircularManager m, h) =
     (case Circular_pop n (m, h) of Inl _ \<Rightarrow> None | Inr (m, h) \<Rightarrow> Some (CircularManager m, h))"

record 'o OutputPort =
  op_isSignal :: bool
  op_index :: int
  op_name :: string
  op_alias :: string
  op_dtype :: DType
  op_domain :: string
  op_buffer :: BufferChunk
  op_elements :: size_t
  op_totalElements :: size_t
  op_totalBuffers :: size_t
  op_totalLabels :: size_t
  op_totalMessages :: size_t
  op_pendingElements :: size_t
  op_reserveElements :: size_t
  op_postedLabels :: "'o Label list"
  op_postedBuffers :: "BufferChunk list"
  op_workEvents :: size_t
  op_bufferManager :: "Manager option"
  op_tokenManager :: "Manager option"
  op_subscribers :: "nat list"
  op_readBeforeWritePort :: "nat option"
  op_bufferFromManager :: bool
  op_bufferPool :: BufferPool

text \<open>The constructor; \<open>tokenManager\<close> is the manager that \<open>tokenManagerInit\<close> makes.\<close>

definition OutputPort_new :: "Manager option \<Rightarrow> 'o OutputPort" where
  "OutputPort_new tokenManager =
     \<lparr>op_isSignal = False, op_index = - 1, op_name = '''', op_alias = '''', op_dtype = DType_default, op_domain = '''',
      op_buffer = BufferChunk_null, op_elements = 0, op_totalElements = 0, op_totalBuffers = 0, op_totalLabels = 0,
      op_totalMessages = 0, op_pendingElements = 0, op_reserveElements = 0, op_postedLabels = [], op_postedBuffers = [],
      op_workEvents = 0, op_bufferManager = None, op_tokenManager = tokenManager, op_subscribers = [],
      op_readBeforeWritePort = None, op_bufferFromManager = False, op_bufferPool = BufferPool_new\<rparr>"

definition OutputPort_alias :: "'o OutputPort \<Rightarrow> string" where
  "OutputPort_alias p = (if op_alias p = '''' then op_name p else op_alias p)"

definition OutputPort_produce :: "size_t \<Rightarrow> 'o OutputPort \<Rightarrow> 'o OutputPort" where
  "OutputPort_produce n p = p\<lparr>op_pendingElements := sz_add (op_pendingElements p) n\<rparr>"

definition bufferManagerEmpty :: "'o OutputPort \<Rightarrow> bool" where
  "bufferManagerEmpty p = (case op_bufferManager p of None \<Rightarrow> True | Some m \<Rightarrow> Manager_empty m)"

definition bufferManagerFront :: "'o OutputPort \<Rightarrow> BufferChunk" where
  "bufferManagerFront p = (case op_bufferManager p of None \<Rightarrow> BufferChunk_null | Some m \<Rightarrow> Manager_front m)"

definition bufferManagerPop :: "size_t \<Rightarrow> 'o OutputPort \<times> Heap \<Rightarrow> ('o OutputPort \<times> Heap) option" where
  "bufferManagerPop n = (\<lambda>(p, h). do {
     m \<leftarrow> op_bufferManager p;
     (m, h) \<leftarrow> Manager_pop n (m, h);
     Some (p\<lparr>op_bufferManager := Some m\<rparr>, h) })"

definition tokenManagerEmpty :: "'o OutputPort \<Rightarrow> bool" where
  "tokenManagerEmpty p = (case op_tokenManager p of None \<Rightarrow> True | Some m \<Rightarrow> Manager_empty m)"

definition tokenManagerPop :: "'o OutputPort \<times> Heap \<Rightarrow> (BufferChunk \<times> 'o OutputPort \<times> Heap) option" where
  "tokenManagerPop = (\<lambda>(p, h). do {
     m \<leftarrow> op_tokenManager p;
     if Manager_empty m then Some (BufferChunk_null, p, h)
     else do {
       (m', h) \<leftarrow> Manager_pop 0 (m, h);
       Some (Manager_front m, p\<lparr>op_tokenManager := Some m'\<rparr>, h) } })"

definition OutputPort_popElements :: "size_t \<Rightarrow> 'o OutputPort \<times> Heap \<Rightarrow> ('o OutputPort \<times> Heap) option" where
  "OutputPort_popElements n = (\<lambda>(p, h). do {
     (p, h) \<leftarrow> bufferManagerPop (sz_mul n (DType_size (op_dtype p))) (p, h);
     Some (p\<lparr>op_workEvents := sz_add (op_workEvents p) 1\<rparr>, h) })"

definition OutputPort_postBuffer :: "BufferChunk \<Rightarrow> 'o OutputPort \<Rightarrow> 'o OutputPort option" where
  "OutputPort_postBuffer buffer p =
     (let r = (if \<not> DType_bool (bc_dtype buffer) then buffer\<lparr>bc_dtype := op_dtype p\<rparr> else buffer) in do {
        n \<leftarrow> BufferChunk_elements r;
        Some (p\<lparr>op_postedBuffers := op_postedBuffers p @ [r], op_totalElements := sz_add (op_totalElements p) n,
                op_totalBuffers := sz_add (op_totalBuffers p) 1, op_workEvents := sz_add (op_workEvents p) 1\<rparr>) })"

definition OutputPort_postLabel :: "'o Label \<Rightarrow> 'o OutputPort \<Rightarrow> 'o OutputPort" where
  "OutputPort_postLabel l p =
     p\<lparr>op_postedLabels := op_postedLabels p @ [Label_adjust (DType_size (op_dtype p)) 1 l],
       op_totalLabels := sz_add (op_totalLabels p) 1, op_workEvents := sz_add (op_workEvents p) 1\<rparr>"

definition OutputPort_setReserve :: "size_t \<Rightarrow> 'o OutputPort \<Rightarrow> 'o OutputPort" where
  "OutputPort_setReserve n p =
     (let p = (if op_reserveElements p < n then p\<lparr>op_workEvents := sz_add (op_workEvents p) 1\<rparr> else p)
      in p\<lparr>op_reserveElements := n\<rparr>)"

definition OutputPort_getBuffer ::
  "(BufferChunk \<Rightarrow> bool) \<Rightarrow> (size_t \<Rightarrow> BufferChunk) \<Rightarrow> DType \<Rightarrow> size_t \<Rightarrow> 'o OutputPort \<times> Heap
     \<Rightarrow> (BufferChunk \<times> 'o OutputPort \<times> Heap) option" where
  "OutputPort_getBuffer uniq newChunk dtype numElements = (\<lambda>(p, h).
     let numBytes = sz_mul numElements (DType_size dtype) in
     if numBytes \<le> bc_length (op_buffer p) then do {
       let p = p\<lparr>op_buffer := (op_buffer p)\<lparr>bc_length := numBytes\<rparr>\<rparr>;
       (p, h) \<leftarrow> (if op_bufferFromManager p then bufferManagerPop (bc_length (op_buffer p)) (p, h) else Some (p, h));
       Some (op_buffer p, p\<lparr>op_buffer := BufferChunk_moved_from (op_buffer p)\<rparr>, h) }
     else
       (let (out, pool) = BufferPool_get uniq newChunk numBytes (op_bufferPool p)
        in Some (out\<lparr>bc_length := numBytes, bc_dtype := dtype\<rparr>, p\<lparr>op_bufferPool := pool\<rparr>, h)))"

text \<open>
  \<open>_postMessage\<close> over the store \<open>ins\<close> of input ports; \<open>isVector\<close> tells whether an object holds an
  \<open>ObjectVector\<close>.
\<close>

fun post_to :: "bool \<Rightarrow> 'o \<Rightarrow> BufferChunk \<Rightarrow> nat list \<Rightarrow> (nat \<Rightarrow> 'o InputPort) \<Rightarrow> (nat \<Rightarrow> 'o InputPort) option" where
  "post_to isVec m token [] ins = Some ins"
| "post_to isVec m token (s # ss) ins = do {
     q \<leftarrow> (if ip_isSlot (ins s) \<and> isVec then slotCallsPush m token (ins s) else asyncMessagesPush m token (ins s));
     post_to isVec m token ss (ins(s := q)) }"

definition OutputPort_postMessage ::
  "('o \<Rightarrow> bool) \<Rightarrow> 'o \<Rightarrow> 'o OutputPort \<times> Heap \<times> (nat \<Rightarrow> 'o InputPort)
     \<Rightarrow> ('o OutputPort \<times> Heap \<times> (nat \<Rightarrow> 'o InputPort)) option" where
  "OutputPort_postMessage isVector m = (\<lambda>(p, h, ins). do {
     (token, p, h) \<leftarrow> tokenManagerPop (p, h);
     ins \<leftarrow> post_to (isVector m) m token (op_subscribers p) ins;
     Some (p\<lparr>op_totalMessages := sz_add (op_totalMessages p) 1, op_workEvents := sz_add (op_workEvents p) 1\<rparr>, h, ins) })"

subsection \<open>Counting lemmas\<close>

lemma message_queue_push_ok:
  assumes "rd_inv q" "rd_capacity q = 2 ^ k" "k \<le> 10"
  obtains q' k' where "message_queue_push m q = Some q'" "rd_inv q'" "rd_capacity q' = 2 ^ k'" "k' \<le> 10"
    "rd_list q' = (if length (rd_list q) = 1024 then [m] else rd_list q @ [m])"
proof -
  have cap: "(2::nat) ^ k \<le> 2 ^ 10" using assms(3) by (intro power_increasing) auto
  have n: "rd_numElements q \<le> 2 ^ k" using rd_inv_bounds(1) [OF assms(1)] assms(2) by simp
  show thesis
  proof (cases "rd_numElements q = 2 ^ k")
    case False
    have "message_queue_push m q = Some (RingDeque_push_back q m)"
      using False assms(2) by (simp add: message_queue_push_def RingDeque_full_def RingDeque_push_back_def)
    then show thesis
      using False n cap assms push_back_inv [OF assms(1), of m] by (intro that [of _ k]) auto
  next
    case full: True
    show thesis
    proof (cases "k = 10")
      case True
      let ?q = "RingDeque_clear q"
      have c: "rd_inv ?q" "rd_list ?q = []" "rd_capacity ?q = 2 ^ k" "rd_numElements ?q = 0"
        using clear_inv [OF assms(1)] assms(2) by auto
      have "message_queue_push m q = Some (RingDeque_push_back ?q m)"
        using True full assms(2) by (simp add: message_queue_push_def RingDeque_full_def RingDeque_push_back_def)
      then show thesis
        using True full c push_back_inv [OF c(1), of m] by (intro that [of _ k]) auto
    next
      case False
      then have k: "k \<le> 9" using assms(3) by simp
      have "(2::nat) ^ k \<le> 2 ^ 9" using k by (intro power_increasing) auto
      then have dbl: "sz_mul (rd_capacity q) 2 = 2 ^ Suc k" "(2::nat) ^ Suc k \<le> 2 ^ 63" "rd_numElements q < 1024"
        using assms(2) full by (auto simp: sz_mul_def)
      obtain q' where q': "RingDeque_set_capacity q (2 ^ Suc k) = Some q'" "rd_inv q'" "rd_list q' = rd_list q"
        "rd_capacity q' = (if rd_numElements q \<le> 2 ^ Suc k then 2 ^ Suc k else rd_capacity q)" "rd_numElements q' = rd_numElements q"
        using assms(1) dbl(2) by (rule set_capacity_inv)
      have "message_queue_push m q = Some (RingDeque_push_back q' m)"
        using full assms(2) dbl q'(1) by (simp add: message_queue_push_def RingDeque_full_def RingDeque_push_back_def)
      then show thesis
        using full dbl(3) k q' push_back_inv [OF q'(2), of m] by (intro that [of _ "Suc k"]) auto
    qed
  qed
qed

lemma amalgamate_total: "total_bytes rq < SIZE_MAX1 \<Longrightarrow> total_bytes (amalgamate h rq) = total_bytes rq"
proof (induction h rq rule: amalgamate.induct)
  case (1 h b f rest)
  then show ?case by (auto simp: Let_def sz_add_def)
qed simp_all

lemma amalgamate_not_Nil: "rq \<noteq> [] \<Longrightarrow> amalgamate h rq \<noteq> []"
  by (cases "(h, rq)" rule: amalgamate.cases) (auto simp: Let_def)

lemma push_total:
  assumes "ba_inv a" "ba_bytesAvailable a + bc_length b < SIZE_MAX1"
  shows "ba_inv (BufferAccumulator_push h b a)"
    and "ba_bytesAvailable (BufferAccumulator_push h b a) = ba_bytesAvailable a + bc_length b"
proof -
  obtain f q where fq: "ba_queue a = f # q" using assms(1) by (cases "ba_queue a") (auto simp: ba_inv_def)
  define r where "r = (if bc_length (hd (ba_queue a)) = 0 then tl (ba_queue a) else ba_queue a) @ [b]"
  define s where "s = (if length r < 2 then r else rev (drop_empty_back (amalgamate h (rev r))))"
  have r: "total_bytes r = ba_bytesAvailable a + bc_length b" "r \<noteq> []"
    using assms(1) by (auto simp: r_def fq ba_inv_def)
  have "total_bytes (rev r) < SIZE_MAX1" using r(1) assms(2) by simp
  then have s: "total_bytes s = total_bytes r"
    using amalgamate_total [of "rev r" h] drop_empty_back_stream [of "\<lambda>_. 0" "amalgamate h (rev r)"] by (simp add: s_def)
  have "drop_empty_back (amalgamate h (rev r)) \<noteq> []"
    using amalgamate_not_Nil [of "rev r" h] r(2) by (auto simp: drop_empty_back_def split: list.splits)
  then have "s \<noteq> []" using r(2) by (simp add: s_def)
  then show "ba_inv (BufferAccumulator_push h b a)"
    "ba_bytesAvailable (BufferAccumulator_push h b a) = ba_bytesAvailable a + bc_length b"
    using s r(1) assms(2) unfolding BufferAccumulator_push_def Let_def r_def [symmetric] s_def [symmetric]
    by (simp_all add: ba_inv_def sz_add_def)
qed

lemma pop_merge_total:
  "total_bytes q < SIZE_MAX1 \<Longrightarrow> total_bytes (pop_merge h inPool q) = total_bytes q"
  by (auto simp: pop_merge_def move_into_def sz_add_def split: list.splits)

lemma pop_total:
  assumes "ba_inv a" "n \<le> bc_length (hd (ba_queue a))" "ba_bytesAvailable a < SIZE_MAX1"
  shows "ba_inv (BufferAccumulator_pop h n a)"
    and "ba_bytesAvailable (BufferAccumulator_pop h n a) = ba_bytesAvailable a - n"
proof -
  obtain f q where fq: "ba_queue a = f # q" using assms(1) by (cases "ba_queue a") (auto simp: ba_inv_def)
  let ?f = "f\<lparr>bc_address := sz_add (bc_address f) n, bc_length := sz_sub (bc_length f) n\<rparr>"
  define d where "d = dropWhile (\<lambda>c. bc_length c = 0) (pop_merge h (ba_inPoolBuffer a) (?f # q))"
  have s: "sz_sub (bc_length f) n = bc_length f - n" "sz_sub (ba_bytesAvailable a) n = ba_bytesAvailable a - n" "n \<le> bc_length f"
    using assms fq by (auto simp: sz_sub_small ba_inv_def)
  have "total_bytes (?f # q) = ba_bytesAvailable a - n" using assms(1) s fq by (simp add: ba_inv_def)
  then have d: "total_bytes d = ba_bytesAvailable a - n"
    using pop_merge_total [of "?f # q" h "ba_inPoolBuffer a"] dropWhile_stream [of "\<lambda>_. 0"] assms(3) by (simp add: d_def)
  have "ba_queue (BufferAccumulator_pop h n a) = (if d = [] then [BufferChunk_null] else d)"
    "ba_bytesAvailable (BufferAccumulator_pop h n a) = ba_bytesAvailable a - n"
    unfolding BufferAccumulator_pop_def Let_def fq list.sel d_def [symmetric] by (simp_all add: s)
  moreover have "total_bytes (if d = [] then [BufferChunk_null] else d) = total_bytes d" by (simp add: BufferChunk_null_def)
  ultimately show "ba_inv (BufferAccumulator_pop h n a)" "ba_bytesAvailable (BufferAccumulator_pop h n a) = ba_bytesAvailable a - n"
    using d by (simp_all add: ba_inv_def)
qed

definition accepts :: "'o InputPort \<Rightarrow> BufferChunk \<Rightarrow> bool" where
  "accepts p b \<longleftrightarrow> \<not> DType_bool (bc_dtype b) \<or> \<not> DType_bool (ip_dtype p) \<or> DType_size (ip_dtype p) = DType_size (bc_dtype b)"

lemma push_all_total:
  assumes "ba_inv (ip_accumulator p)" "ba_bytesAvailable (ip_accumulator p) + total_bytes bs < SIZE_MAX1"
  shows "ba_inv (ip_accumulator (fold (bufferAccumulatorPushNoLock h) bs p))
    \<and> ba_bytesAvailable (ip_accumulator (fold (bufferAccumulatorPushNoLock h) bs p))
        = ba_bytesAvailable (ip_accumulator p) + total_bytes (filter (accepts p) bs)
    \<and> ip_inputInlineMessages (fold (bufferAccumulatorPushNoLock h) bs p) = ip_inputInlineMessages p
    \<and> ip_dtype (fold (bufferAccumulatorPushNoLock h) bs p) = ip_dtype p"
  using assms
proof (induction bs arbitrary: p)
  case (Cons b bs)
  let ?p = "bufferAccumulatorPushNoLock h b p"
  have st: "ba_inv (ip_accumulator ?p)" "ip_inputInlineMessages ?p = ip_inputInlineMessages p" "ip_dtype ?p = ip_dtype p"
    "ba_bytesAvailable (ip_accumulator ?p) = ba_bytesAvailable (ip_accumulator p) + (if accepts p b then bc_length b else 0)"
    using Cons.prems push_total [of "ip_accumulator p"]
    by (auto simp: bufferAccumulatorPushNoLock_def accepts_def Let_def)
  have "accepts ?p = accepts p" using st(3) by (simp add: accepts_def fun_eq_iff)
  moreover have "ba_bytesAvailable (ip_accumulator ?p) + total_bytes bs < SIZE_MAX1" using Cons.prems(2) st(4) by (auto split: if_splits)
  ultimately show ?case using Cons.IH [OF st(1)] st by (auto split: if_splits)
qed simp

lemma Label_adjust_div: "0 < s \<Longrightarrow> lb_index l < SIZE_MAX1 \<Longrightarrow> lb_width l < SIZE_MAX1 \<Longrightarrow>
   Label_adjust 1 s l = l\<lparr>lb_index := lb_index l div s, lb_width := lb_width l div s\<rparr>"
  by (simp add: Label_adjust_def Let_def sz_mul_def)

subsection \<open>Properties\<close>

text \<open>
  The message queue of a port is a bounded FIFO. Its capacity stays a power of two up to 1024,
  pushing always succeeds and appends, except that a push into a queue of 1024 messages discards
  all of them first.
\<close>

theorem message_queue_bounded_fifo:
  assumes "rd_inv (ip_asyncMessages p)" "rd_capacity (ip_asyncMessages p) = 2 ^ k" "k \<le> 10"
  shows "\<exists>p' k'. asyncMessagesPush m token p = Some p' \<and> rd_inv (ip_asyncMessages p')
    \<and> rd_capacity (ip_asyncMessages p') = 2 ^ k' \<and> k' \<le> 10
    \<and> rd_list (ip_asyncMessages p') =
        (if length (rd_list (ip_asyncMessages p)) = 1024 then [(m, token)] else rd_list (ip_asyncMessages p) @ [(m, token)])
    \<and> ip_externalChanges p' = ip_externalChanges p + 1"
proof -
  obtain q' k' where "message_queue_push (m, token) (ip_asyncMessages p) = Some q'" "rd_inv q'" "rd_capacity q' = 2 ^ k'" "k' \<le> 10"
    "rd_list q' = (if length (rd_list (ip_asyncMessages p)) = 1024 then [(m, token)] else rd_list (ip_asyncMessages p) @ [(m, token)])"
    using message_queue_push_ok [OF assms] by blast
  then show ?thesis by (auto simp: asyncMessagesPush_def flagExternalChange_def simp del: length_rd_list)
qed

theorem message_queue_bounded_fifo_witness:
  "\<exists>p' :: nat InputPort. asyncMessagesPush 7 BufferChunk_null (InputPort_new (the (RingDeque_new 1))) = Some p'
     \<and> rd_list (ip_asyncMessages p') = [(7, BufferChunk_null)]"
proof -
  obtain d :: "nat message RingDeque" where d: "RingDeque_new 1 = Some d" "rd_inv d" "rd_list d = []"
    "rd_capacity d = 1" "rd_numElements d = 0" by (rule new_inv [of 1]) auto
  then show ?thesis
    using message_queue_bounded_fifo [of "InputPort_new d" 0 7 BufferChunk_null] by (auto simp: InputPort_new_def)
qed

text \<open>
  C23. Labels stay attached to their elements. A label posted on element \<open>i\<close> of an output port, whose
  data type has the size \<open>s\<close>, arrives in the user's label list of an input port of the same element
  size at position \<open>i\<close> after the elements that were in the accumulator when the buffers were delivered, and the
  delivered buffers (those the port accepts) extend the accumulator by exactly their bytes.
\<close>

theorem label_arrives_at_its_element:
  assumes "ba_inv (ip_accumulator inp)" "0 < s" "DType_size (op_dtype outp) = s" "DType_size (ip_dtype inp) = s"
    and "ba_bytesAvailable (ip_accumulator inp) = e * s" "op_postedLabels outp = []" "ip_inputInlineMessages inp = []"
    and "(lb_index l + e) * s < SIZE_MAX1" "lb_width l * s < SIZE_MAX1"
    and "e * s + total_bytes bs < SIZE_MAX1"
    and "inp' = snd (bufferAccumulatorFront (fst (bufferLabelPush h True (op_postedLabels (OutputPort_postLabel l outp)) bs inp)))"
  shows "ip_inlineMessages inp' = ip_inlineMessages inp @ [l\<lparr>lb_index := lb_index l + e\<rparr>]
    \<and> ba_bytesAvailable (ip_accumulator inp') = e * s + total_bytes (filter (accepts inp) bs)
    \<and> ba_inv (ip_accumulator inp')"
proof -
  let ?l = "Label_adjust s 1 l"
  have le: "lb_index l * s < SIZE_MAX1" using assms(8) by (simp add: algebra_simps)
  have l: "?l = l\<lparr>lb_index := lb_index l * s, lb_width := lb_width l * s\<rparr>"
    using assms(8,9) le by (simp add: Label_adjust_def Let_def sz_mul_def)
  have posted: "op_postedLabels (OutputPort_postLabel l outp) = [?l]" using assms(3,6) by (simp add: OutputPort_postLabel_def)
  let ?l2 = "?l\<lparr>lb_index := sz_add (lb_index ?l) (e * s)\<rparr>"
  have l2: "?l2 = l\<lparr>lb_index := (lb_index l + e) * s, lb_width := lb_width l * s\<rparr>"
    using assms(8) unfolding l by (simp add: sz_add_def algebra_simps)
  let ?p = "inp\<lparr>ip_inputInlineMessages := [?l2]\<rparr>"
  let ?q = "fold (bufferAccumulatorPushNoLock h) bs ?p"
  have acc: "accepts ?p = accepts inp" by (simp add: accepts_def fun_eq_iff)
  have q: "ba_inv (ip_accumulator ?q)" "ba_bytesAvailable (ip_accumulator ?q) = e * s + total_bytes (filter (accepts inp) bs)"
    "ip_inputInlineMessages ?q = [?l2]" "ip_dtype ?q = ip_dtype inp"
    using push_all_total [of ?p bs h] assms(1,5,10) acc by simp_all
  have keep: "ip_inlineMessages (fold (bufferAccumulatorPushNoLock h) bs p) = ip_inlineMessages p" for p :: "'a InputPort"
    by (induction bs arbitrary: p) (simp_all add: bufferAccumulatorPushNoLock_def Let_def)
  have fin: "fst (bufferLabelPush h True [?l] bs inp) = flagExternalChange ?q"
    using assms(5,7) by (simp add: bufferLabelPush_def Let_def)
  have "Label_adjust 1 s ?l2 = l\<lparr>lb_index := lb_index l + e\<rparr>"
    using assms(2,8,9) unfolding l2 by (subst Label_adjust_div) simp_all
  then show ?thesis
    using assms(4,11) q keep unfolding posted fin
    by (simp add: bufferAccumulatorFront_def flagExternalChange_def)
qed

theorem label_arrives_at_its_element_witness:
  "ip_inlineMessages (snd (bufferAccumulatorFront (fst (bufferLabelPush heap_empty True
      (op_postedLabels (OutputPort_postLabel (Label_new ''x'' (5 :: nat) 3 1) (OutputPort_new None)))
      [] (InputPort_new (the (RingDeque_new 1)))))))
   = [Label_new ''x'' 5 3 1]"
  using label_arrives_at_its_element [of "InputPort_new (the (RingDeque_new 1))" 1
      "OutputPort_new None" 0 "Label_new ''x'' (5 :: nat) 3 1" "[]" _ heap_empty]
  by (simp add: InputPort_new_def OutputPort_new_def DType_size_def DType_default_def ba_inv_def BufferAccumulator_new_def
      BufferChunk_null_def Label_new_def sz_mul_def)

text \<open>
  The overconsumption check is not sufficient. \<open>bufferAccumulatorPop\<close> refuses only more bytes than
  are enqueued in total; a request between the size of the front chunk and the total passes the
  check, and the length of the front chunk wraps around.
\<close>

theorem overconsume_check_insufficient:
  assumes "ba_queue a = f # b # rest" "ba_inv a" "\<not> ba_inPoolBuffer a"
    and "bc_length f < n" "n \<le> ba_bytesAvailable a" "ba_bytesAvailable a < SIZE_MAX1"
    and "bc_address f + n < SharedBuffer_getEnd (chunk_buffer h f)" "SharedBuffer_getEnd (chunk_buffer h f) < SIZE_MAX1"
    and "ip_accumulator p = a"
  shows "bc_length (BufferAccumulator_front (ip_accumulator (bufferAccumulatorPop h n p))) = SIZE_MAX1 - (n - bc_length f)"
proof -
  let ?f = "f\<lparr>bc_address := bc_address f + n, bc_length := SIZE_MAX1 - (n - bc_length f)\<rparr>"
  have s: "sz_add (bc_address f) n = bc_address f + n" "sz_sub (bc_length f) n = SIZE_MAX1 - (n - bc_length f)"
    using assms(4-8) by (auto simp: sz_add_def sz_sub_def)
  have nz: "bc_length ?f \<noteq> 0" using assms(4-6) by simp
  have "pop_merge h False (?f # b # rest) = ?f # b # rest"
    using nz assms(7) by (simp add: pop_merge_def chunk_buffer_def)
  then have "ba_queue (BufferAccumulator_pop h n a) = ?f # b # rest"
    using nz assms(1,3) by (simp add: BufferAccumulator_pop_def Let_def s)
  then show ?thesis
    using assms(5,9) by (simp add: bufferAccumulatorPop_def BufferAccumulator_front_def)
qed

theorem overconsume_check_insufficient_witness:
  "bc_length (BufferAccumulator_front (ip_accumulator (bufferAccumulatorPop corrupt_heap 6
     ((InputPort_new (the (RingDeque_new 1)) :: nat InputPort)\<lparr>ip_accumulator := BufferAccumulator_new
        \<lparr>ba_queue := [BufferChunk_null\<lparr>bc_address := 1000, bc_length := 4, bc_managed := Some 0\<rparr>,
                     BufferChunk_null\<lparr>bc_address := 20100, bc_length := 4, bc_managed := Some 1\<rparr>],
         ba_bytesAvailable := 8\<rparr>\<rparr>)))) = SIZE_MAX1 - 2"
  by (subst overconsume_check_insufficient [where b = "BufferChunk_null\<lparr>bc_address := 20100, bc_length := 4, bc_managed := Some 1\<rparr>"
        and rest = "[]" and f = "BufferChunk_null\<lparr>bc_address := 1000, bc_length := 4, bc_managed := Some 0\<rparr>"
        and a = "BufferAccumulator_new
          \<lparr>ba_queue := [BufferChunk_null\<lparr>bc_address := 1000, bc_length := 4, bc_managed := Some 0\<rparr>,
                       BufferChunk_null\<lparr>bc_address := 20100, bc_length := 4, bc_managed := Some 1\<rparr>],
           ba_bytesAvailable := 8\<rparr>"])
    (simp_all add: ba_inv_def BufferAccumulator_new_def SharedBuffer_getEnd_def chunk_buffer_def impl_buffer_def
      ManagedBuffer_getBuffer_def corrupt_heap_def SharedBuffer_new_def sz_add_def)

end
