(* ===== verification/StringMap.thy ===== *)
theory StringMap
  imports Main "HOL-Library.List_Lexorder" "HOL-Library.Char_ord"
begin

section \<open>std::map with string keys\<close>

text \<open>
  A \<open>std::map\<close> with string keys is an association list sorted by key, since the code iterates over it in that order:
  \<open>map_put\<close> is the assignment \<open>m[k] = v\<close>, \<open>map_erase\<close> the erasure of a key and \<open>map_of\<close> the lookup.
\<close>

fun map_put :: "string \<Rightarrow> 'v \<Rightarrow> (string \<times> 'v) list \<Rightarrow> (string \<times> 'v) list" where
  "map_put k v [] = [(k, v)]"
| "map_put k v ((k', v') # m) =
     (if k < k' then (k, v) # (k', v') # m else if k = k' then (k, v) # m else (k', v') # map_put k v m)"

definition map_erase :: "string \<Rightarrow> (string \<times> 'v) list \<Rightarrow> (string \<times> 'v) list" where
  "map_erase k m = filter (\<lambda>(k', _). k' \<noteq> k) m"

lemma map_of_map_put [simp]: "map_of (map_put k v m) = (map_of m)(k \<mapsto> v)"
  by (induction k v m rule: map_put.induct) (auto simp: fun_eq_iff)

lemma keys_map_put [simp]: "fst ` set (map_put k v m) = insert k (fst ` set m)"
  by (induction k v m rule: map_put.induct) auto

lemma sorted_map_put: "sorted_wrt (<) (map fst m) \<Longrightarrow> sorted_wrt (<) (map fst (map_put k v m))"
proof (induction k v m rule: map_put.induct)
  case (2 k v k' v' m)
  have "fst ` set (map_put k v m) = insert k (fst ` set m)" by simp
  then show ?case using 2 by (auto simp: image_iff)
qed simp

lemma sorted_map_erase: "sorted_wrt (<) (map fst m) \<Longrightarrow> sorted_wrt (<) (map fst (map_erase k m))"
  unfolding map_erase_def by (induction m) auto

lemma map_of_map_erase [simp]: "map_of (map_erase k m) = (map_of m)(k := None)"
  unfolding map_erase_def by (induction m) (auto simp: fun_eq_iff)

lemma map_erase_put: "map_of m k = None \<Longrightarrow> map_erase k (map_put k v m) = m"
proof (induction k v m rule: map_put.induct)
  case (2 k v k' v' m)
  have "map_of m k = None \<Longrightarrow> filter (\<lambda>(k', _). k' \<noteq> k) m = m" for m :: "(string \<times> 'a) list"
    by (induction m) (auto split: if_splits)
  then show ?case using 2 by (auto simp: map_erase_def split: if_splits)
qed (simp add: map_erase_def)

lemma map_put_values: "set (map_put k v m) \<subseteq> insert (k, v) (set m)"
  by (induction k v m rule: map_put.induct) auto

end
