(* ===== verification/PortAllocation.thy ===== *)
theory PortAllocation
  imports Ports StringMap
begin

section \<open>Blocks and the allocation of their ports: WorkerActorPortAllocation.cpp, Block.cpp\<close>

text \<open>
  The state of a block and of its actor, and the port tables. A block knows each of its ports in four
  ways: by the owning map \<open>inputs\<close> (or \<open>outputs\<close>) of the actor, by name, by index when the name is a number,
  and in the order of allocation.

  \<^item> \<open>std::map\<close> with string keys is an association list sorted by key (\<open>map_put\<close>); the order matters
    since the actor visits the ports in it. A pointer to a port is its address in the \<open>World\<close>.
  \<^item> The templates \<open>allocatePort\<close>, \<open>autoAllocatePort\<close>, \<open>autoDeletePort\<close> are instantiated for inputs
    and for outputs; what they use of the port type and of the tables is the record \<open>PortClass\<close>, the
    laws of which are the locale \<open>port_class\<close>, interpreted for both.
  \<^item> \<open>automaticPorts\<close>, one set of addresses in the code, is split into the addresses of inputs and of
    outputs, which never coincide.
  \<^item> An exception leaves the state changed up to the throw, so the functions return the
    exception, if any, together with the state. The address of a new port is an argument.
\<close>

subsection \<open>State\<close>

record WorkInfo =
  wi_inputPointers :: "size_t list"
  wi_outputPointers :: "size_t list"
  wi_minElements :: size_t
  wi_minInElements :: size_t
  wi_minOutElements :: size_t
  wi_minAllElements :: size_t
  wi_minAllInElements :: size_t
  wi_minAllOutElements :: size_t
  wi_maxTimeoutNs :: int

definition WorkInfo_new :: WorkInfo where
  "WorkInfo_new = \<lparr>wi_inputPointers = [], wi_outputPointers = [], wi_minElements = 0, wi_minInElements = 0,
     wi_minOutElements = 0, wi_minAllElements = 0, wi_minAllInElements = 0, wi_minAllOutElements = 0, wi_maxTimeoutNs = 0\<rparr>"

record PortTable =
  pt_ports :: "(string \<times> nat) list"
  pt_named :: "string \<rightharpoonup> nat"
  pt_indexed :: "nat option list"
  pt_names :: "string list"
  pt_automatic :: "nat set"

definition PortTable_new :: PortTable where
  "PortTable_new = \<lparr>pt_ports = [], pt_named = Map.empty, pt_indexed = [], pt_names = [], pt_automatic = {}\<rparr>"

record 'c WorkerActor =
  wa_activeState :: bool
  wa_activityIndicator :: "32 word"
  wa_automaticSlots :: "string set"
  wa_inputs :: PortTable
  wa_outputs :: PortTable
  wa_numTaskCalls :: size_t
  wa_numWorkCalls :: size_t
  wa_workInfo :: WorkInfo
  wa_calls :: "(string \<times> 'c) list"
  wa_probes :: "string \<rightharpoonup> string \<times> string"
  wa_changeFlagged :: bool

definition WorkerActor_new :: "'c WorkerActor" where
  "WorkerActor_new = \<lparr>wa_activeState = False, wa_activityIndicator = 0, wa_automaticSlots = {}, wa_inputs = PortTable_new,
     wa_outputs = PortTable_new, wa_numTaskCalls = 0, wa_numWorkCalls = 0, wa_workInfo = WorkInfo_new, wa_calls = [],
     wa_probes = Map.empty, wa_changeFlagged = False\<rparr>"

record 'o World =
  w_in :: "nat \<Rightarrow> 'o InputPort"
  w_out :: "nat \<Rightarrow> 'o OutputPort"
  w_heap :: Heap
  w_mem :: Mem

record ('c, 'o) PortClass =
  pc_table :: "'c WorkerActor \<Rightarrow> PortTable"
  pc_set :: "PortTable \<Rightarrow> 'c WorkerActor \<Rightarrow> 'c WorkerActor"
  pc_pointers :: "'c WorkerActor \<Rightarrow> size_t list"
  pc_make :: "nat \<Rightarrow> DType \<Rightarrow> string \<Rightarrow> string \<Rightarrow> int \<Rightarrow> 'o World \<Rightarrow> 'o World"
  pc_index :: "'o World \<Rightarrow> nat \<Rightarrow> int"
  pc_name :: "'o World \<Rightarrow> nat \<Rightarrow> string"
  pc_dtype :: "'o World \<Rightarrow> nat \<Rightarrow> DType"
  pc_domain :: "'o World \<Rightarrow> nat \<Rightarrow> string"
  pc_subscribers :: "'o World \<Rightarrow> nat \<Rightarrow> nat list"

text \<open>The two instances; \<open>emptyDeque\<close> and \<open>tokens\<close> are the initial queue and token manager of a new port.\<close>

definition InputClass :: "'o message RingDeque \<Rightarrow> ('c, 'o) PortClass" where
  "InputClass emptyDeque =
     \<lparr>pc_table = wa_inputs, pc_set = (\<lambda>t wa. wa\<lparr>wa_inputs := t\<rparr>), pc_pointers = (\<lambda>wa. wi_inputPointers (wa_workInfo wa)),
      pc_make = (\<lambda>a dtype domain name idx w. w\<lparr>w_in := (w_in w)(a := (InputPort_new emptyDeque)
         \<lparr>ip_dtype := dtype, ip_domain := domain, ip_name := name, ip_index := idx\<rparr>)\<rparr>),
      pc_index = (\<lambda>w a. ip_index (w_in w a)), pc_name = (\<lambda>w a. ip_name (w_in w a)), pc_dtype = (\<lambda>w a. ip_dtype (w_in w a)),
      pc_domain = (\<lambda>w a. ip_domain (w_in w a)), pc_subscribers = (\<lambda>w a. ip_subscribers (w_in w a))\<rparr>"

definition OutputClass :: "Manager option \<Rightarrow> ('c, 'o) PortClass" where
  "OutputClass tokens =
     \<lparr>pc_table = wa_outputs, pc_set = (\<lambda>t wa. wa\<lparr>wa_outputs := t\<rparr>), pc_pointers = (\<lambda>wa. wi_outputPointers (wa_workInfo wa)),
      pc_make = (\<lambda>a dtype domain name idx w. w\<lparr>w_out := (w_out w)(a := (OutputPort_new tokens)
         \<lparr>op_dtype := dtype, op_domain := domain, op_name := name, op_index := idx\<rparr>)\<rparr>),
      pc_index = (\<lambda>w a. op_index (w_out w a)), pc_name = (\<lambda>w a. op_name (w_out w a)), pc_dtype = (\<lambda>w a. op_dtype (w_out w a)),
      pc_domain = (\<lambda>w a. op_domain (w_out w a)), pc_subscribers = (\<lambda>w a. op_subscribers (w_out w a))\<rparr>"

subsection \<open>Vectors\<close>

definition vec_resize :: "nat \<Rightarrow> 'a \<Rightarrow> 'a list \<Rightarrow> 'a list" where
  "vec_resize n x v = take n v @ replicate (n - length v) x"

definition strip_null :: "'a option list \<Rightarrow> 'a option list" where
  "strip_null v = rev (dropWhile (\<lambda>x. x = None) (rev v))"

subsection \<open>Allocation and deletion\<close>

datatype port_error = NumError num_error | PortAccessError | NullDereference

definition portNameToIndex :: "string \<Rightarrow> num_error + int" where
  "portNameToIndex name = (if \<exists>ch \<in> set name. \<not> is_digit ch then Inr (- 1) else stoi name)"

definition updatePorts :: "'c WorkerActor \<Rightarrow> 'c WorkerActor" where
  "updatePorts wa = wa\<lparr>wa_workInfo := (wa_workInfo wa)
     \<lparr>wi_inputPointers := vec_resize (length (pt_indexed (wa_inputs wa))) 0 (wi_inputPointers (wa_workInfo wa)),
      wi_outputPointers := vec_resize (length (pt_indexed (wa_outputs wa))) 0 (wi_outputPointers (wa_workInfo wa))\<rparr>\<rparr>"

definition install_port :: "nat \<Rightarrow> string \<Rightarrow> int \<Rightarrow> bool \<Rightarrow> PortTable \<Rightarrow> PortTable" where
  "install_port a name idx automatic t =
     (let t = t\<lparr>pt_names := pt_names t @ [name], pt_named := (pt_named t)(name \<mapsto> a)\<rparr>;
          t = (if idx \<noteq> - 1 then
                 t\<lparr>pt_indexed := (vec_resize (max (nat idx + 1) (length (pt_indexed t))) None (pt_indexed t))[nat idx := Some a]\<rparr>
               else t)
      in if automatic then t\<lparr>pt_automatic := insert a (pt_automatic t)\<rparr> else t)"

definition allocatePort ::
  "('c, 'o) PortClass \<Rightarrow> nat \<Rightarrow> string \<Rightarrow> DType \<Rightarrow> string \<Rightarrow> bool \<Rightarrow> 'c WorkerActor \<times> 'o World
     \<Rightarrow> port_error option \<times> 'c WorkerActor \<times> 'o World" where
  "allocatePort pc a name dtype domain automatic = (\<lambda>(wa, w).
     let t = pc_table pc wa;
         t = t\<lparr>pt_ports := map_put name a (pt_ports t)\<rparr>
     in case portNameToIndex name of
          Inl e \<Rightarrow> (Some (NumError e), pc_set pc t wa, pc_make pc a dtype domain name (- 1) w)
        | Inr idx \<Rightarrow>
            (None, updatePorts (pc_set pc (install_port a name idx automatic t) wa), pc_make pc a dtype domain name idx w))"

text \<open>The loop of \<open>autoAllocatePort\<close> looks for the nearest lower index whose port exists.\<close>

definition autoAllocatePort ::
  "('c, 'o) PortClass \<Rightarrow> nat \<Rightarrow> string \<Rightarrow> 'c WorkerActor \<times> 'o World \<Rightarrow> port_error option \<times> 'c WorkerActor \<times> 'o World" where
  "autoAllocatePort pc a name = (\<lambda>(wa, w).
     case portNameToIndex name of
       Inl e \<Rightarrow> (Some (NumError e), wa, w)
     | Inr index \<Rightarrow>
         if index = - 1 \<or> map_of (pt_ports (pc_table pc wa)) name \<noteq> None then (None, wa, w)
         else case find (\<lambda>i. map_of (pt_ports (pc_table pc wa)) (to_string i) \<noteq> None) (rev [0..<nat index]) of
                None \<Rightarrow> (None, wa, w)
              | Some i \<Rightarrow>
                  (case (if i < length (pt_indexed (pc_table pc wa)) then pt_indexed (pc_table pc wa) ! i else None) of
                     None \<Rightarrow> (Some NullDereference, wa, w)
                   | Some p \<Rightarrow> allocatePort pc a name (pc_dtype pc w p) (pc_domain pc w p) True (wa, w)))"

definition autoDeletePort ::
  "('c, 'o) PortClass \<Rightarrow> string \<Rightarrow> 'c WorkerActor \<times> 'o World \<Rightarrow> 'c WorkerActor \<times> 'o World" where
  "autoDeletePort pc name = (\<lambda>(wa, w).
     let t = pc_table pc wa in
     case map_of (pt_ports t) name of
       None \<Rightarrow> (wa, w)
     | Some a \<Rightarrow>
         if pc_subscribers pc w a \<noteq> [] \<or> a \<notin> pt_automatic t then (wa, w)
         else
           (let idx = pc_index pc w a;
                t = t\<lparr>pt_automatic := pt_automatic t - {a}\<rparr>;
                t = (if 0 \<le> idx \<and> nat idx < length (pt_indexed t) then t\<lparr>pt_indexed := (pt_indexed t)[nat idx := None]\<rparr> else t);
                t = t\<lparr>pt_indexed := strip_null (pt_indexed t)\<rparr>;
                t = t\<lparr>pt_named := (pt_named t)(pc_name pc w a := None)\<rparr>;
                t = t\<lparr>pt_names := remove1 (pc_name pc w a) (pt_names t)\<rparr>;
                t = t\<lparr>pt_ports := map_erase name (pt_ports t)\<rparr>
            in (pc_set pc t wa, w)))"

definition allocateInput ::
  "'o message RingDeque \<Rightarrow> nat \<Rightarrow> string \<Rightarrow> DType \<Rightarrow> string \<Rightarrow> 'c WorkerActor \<times> 'o World \<Rightarrow> port_error option \<times> 'c WorkerActor \<times> 'o World" where
  "allocateInput emptyDeque a name dtype domain s = allocatePort (InputClass emptyDeque) a name dtype domain False s"

definition allocateOutput ::
  "Manager option \<Rightarrow> nat \<Rightarrow> string \<Rightarrow> DType \<Rightarrow> string \<Rightarrow> 'c WorkerActor \<times> 'o World \<Rightarrow> port_error option \<times> 'c WorkerActor \<times> 'o World" where
  "allocateOutput tokens a name dtype domain s = allocatePort (OutputClass tokens) a name dtype domain False s"

text \<open>The data type \<open>""\<close> is the default one. \<open>_isSignal\<close> and \<open>_isSlot\<close> are set only when the allocation returns.\<close>

definition allocateSignal ::
  "Manager option \<Rightarrow> nat \<Rightarrow> string \<Rightarrow> 'c WorkerActor \<times> 'o World \<Rightarrow> port_error option \<times> 'c WorkerActor \<times> 'o World" where
  "allocateSignal tokens a name s =
     (case allocateOutput tokens a name DType_default '''' s of
        (Some e, s) \<Rightarrow> (Some e, s)
      | (None, wa, w) \<Rightarrow> (None, wa, w\<lparr>w_out := (w_out w)(a := (w_out w a)\<lparr>op_isSignal := True\<rparr>)\<rparr>))"

definition allocateSlot ::
  "'o message RingDeque \<Rightarrow> nat \<Rightarrow> string \<Rightarrow> 'c WorkerActor \<times> 'o World \<Rightarrow> port_error option \<times> 'c WorkerActor \<times> 'o World" where
  "allocateSlot emptyDeque a name s =
     (case allocateInput emptyDeque a name DType_default '''' s of
        (Some e, s) \<Rightarrow> (Some e, s)
      | (None, wa, w) \<Rightarrow> (None, wa, w\<lparr>w_in := (w_in w)(a := (w_in w a)\<lparr>ip_isSlot := True\<rparr>)\<rparr>))"

definition autoAllocateInput where
  "autoAllocateInput emptyDeque a name s = autoAllocatePort (InputClass emptyDeque) a name s"

definition autoAllocateOutput where
  "autoAllocateOutput tokens a name s = autoAllocatePort (OutputClass tokens) a name s"

definition autoDeleteInput where
  "autoDeleteInput emptyDeque name s = autoDeletePort (InputClass emptyDeque) name s"

definition autoDeleteOutput where
  "autoDeleteOutput tokens name s = autoDeletePort (OutputClass tokens) name s"

subsection \<open>Registration: Block.cpp\<close>

text \<open>
  A call of a block is a value of the type parameter \<open>'c\<close>; \<open>returnsVoid\<close>, \<open>argTypes\<close>, \<open>canConvert\<close> and
  \<open>invoke\<close> are what the block uses of \<open>Callable\<close> and \<open>Object\<close>. \<open>_calls\<close> is a multimap: the calls of a
  name keep the order of their registration.
\<close>

definition Block_input :: "string \<Rightarrow> 'c WorkerActor \<Rightarrow> port_error + nat" where
  "Block_input name wa = of_opt PortAccessError (pt_named (wa_inputs wa) name)"

definition Block_output :: "string \<Rightarrow> 'c WorkerActor \<Rightarrow> port_error + nat" where
  "Block_output name wa = of_opt PortAccessError (pt_named (wa_outputs wa) name)"

definition Block_input_index :: "size_t \<Rightarrow> 'c WorkerActor \<Rightarrow> port_error + nat option" where
  "Block_input_index i wa =
     (if length (pt_indexed (wa_inputs wa)) \<le> i then Inl PortAccessError else Inr (pt_indexed (wa_inputs wa) ! i))"

definition Block_output_index :: "size_t \<Rightarrow> 'c WorkerActor \<Rightarrow> port_error + nat option" where
  "Block_output_index i wa =
     (if length (pt_indexed (wa_outputs wa)) \<le> i then Inl PortAccessError else Inr (pt_indexed (wa_outputs wa) ! i))"

definition setupInput ::
  "'o message RingDeque \<Rightarrow> nat \<Rightarrow> string \<Rightarrow> DType \<Rightarrow> string \<Rightarrow> 'c WorkerActor \<times> 'o World \<Rightarrow> port_error option \<times> 'c WorkerActor \<times> 'o World" where
  "setupInput emptyDeque a name dtype domain = (\<lambda>(wa, w).
     if name = '''' then (Some PortAccessError, wa, w)
     else if pt_named (wa_inputs wa) name \<noteq> None then (Some PortAccessError, wa, w)
     else allocateInput emptyDeque a name dtype domain (wa, w))"

definition setupOutput ::
  "Manager option \<Rightarrow> nat \<Rightarrow> string \<Rightarrow> DType \<Rightarrow> string \<Rightarrow> 'c WorkerActor \<times> 'o World \<Rightarrow> port_error option \<times> 'c WorkerActor \<times> 'o World" where
  "setupOutput tokens a name dtype domain = (\<lambda>(wa, w).
     if name = '''' then (Some PortAccessError, wa, w)
     else if pt_named (wa_outputs wa) name \<noteq> None then (Some PortAccessError, wa, w)
     else allocateOutput tokens a name dtype domain (wa, w))"

definition registerSignal ::
  "Manager option \<Rightarrow> nat \<Rightarrow> string \<Rightarrow> 'c WorkerActor \<times> 'o World \<Rightarrow> port_error option \<times> 'c WorkerActor \<times> 'o World" where
  "registerSignal tokens a name = (\<lambda>(wa, w).
     if name = '''' then (Some PortAccessError, wa, w)
     else if pt_named (wa_outputs wa) name \<noteq> None then (Some PortAccessError, wa, w)
     else allocateSignal tokens a name (wa, w))"

definition registerSlot ::
  "'o message RingDeque \<Rightarrow> nat \<Rightarrow> string \<Rightarrow> 'c WorkerActor \<times> 'o World \<Rightarrow> port_error option \<times> 'c WorkerActor \<times> 'o World" where
  "registerSlot emptyDeque a name = (\<lambda>(wa, w).
     if name = '''' then (Some PortAccessError, wa, w)
     else if name \<in> wa_automaticSlots wa then (None, wa, w)
     else if pt_named (wa_inputs wa) name \<noteq> None then (Some PortAccessError, wa, w)
     else allocateSlot emptyDeque a name (wa, w))"

definition registerCallable ::
  "('c \<Rightarrow> bool) \<Rightarrow> 'o message RingDeque \<Rightarrow> nat \<Rightarrow> string \<Rightarrow> 'c \<Rightarrow> 'c WorkerActor \<times> 'o World
     \<Rightarrow> port_error option \<times> 'c WorkerActor \<times> 'o World" where
  "registerCallable returnsVoid emptyDeque a name call = (\<lambda>(wa, w).
     let wa = wa\<lparr>wa_calls := wa_calls wa @ [(name, call)]\<rparr>;
         isPrivate = (name \<noteq> '''' \<and> hd name = CHR ''_'')
     in if \<not> isPrivate \<and> returnsVoid call \<and> pt_named (wa_inputs wa) name = None then
          (case registerSlot emptyDeque a name (wa, w) of
             (Some e, s) \<Rightarrow> (Some e, s)
           | (None, wa, w) \<Rightarrow> (None, wa\<lparr>wa_automaticSlots := insert name (wa_automaticSlots wa)\<rparr>, w))
        else (None, wa, w))"

definition registerProbe ::
  "(string \<Rightarrow> string) \<Rightarrow> 'o message RingDeque \<Rightarrow> Manager option \<Rightarrow> nat \<Rightarrow> nat \<Rightarrow> string \<Rightarrow> string \<Rightarrow> string
     \<Rightarrow> 'c WorkerActor \<times> 'o World \<Rightarrow> port_error option \<times> 'c WorkerActor \<times> 'o World" where
  "registerProbe toUpper emptyDeque tokens a b name signalName slotName s =
     (if name = '''' then (Some PortAccessError, s)
      else
        let signalName = (if signalName = '''' then name @ ''Triggered'' else signalName);
            slotName = (if slotName = '''' then ''probe'' @ toUpper (take 1 name) @ drop 1 name else slotName)
        in case registerSlot emptyDeque a slotName s of
             (Some e, s) \<Rightarrow> (Some e, s)
           | (None, s) \<Rightarrow>
               (case registerSignal tokens b signalName s of
                  (Some e, s) \<Rightarrow> (Some e, s)
                | (None, wa, w) \<Rightarrow> (None, wa\<lparr>wa_probes := (wa_probes wa)(slotName \<mapsto> (name, signalName))\<rparr>, w)))"

datatype 'e call_error = BlockCallNotFound | Thrown 'e

definition opaqueCallHandler ::
  "('c \<Rightarrow> 't list) \<Rightarrow> ('o \<Rightarrow> 't \<Rightarrow> bool) \<Rightarrow> ('c \<Rightarrow> 'o list \<Rightarrow> 's \<Rightarrow> ('e + 'o) \<times> 's) \<Rightarrow> (string \<times> 'c) list
     \<Rightarrow> string \<Rightarrow> 'o list \<Rightarrow> 's \<Rightarrow> ('e call_error + 'o) \<times> 's" where
  "opaqueCallHandler argTypes canConvert invoke calls name args s =
     (let matches = map snd (filter (\<lambda>(n, _). n = name) calls);
          run = (\<lambda>c. case invoke c args s of (Inl e, s) \<Rightarrow> (Inl (Thrown e), s) | (Inr r, s) \<Rightarrow> (Inr r, s))
      in case matches of
           [] \<Rightarrow> (Inl BlockCallNotFound, s)
         | [c] \<Rightarrow> run c
         | _ \<Rightarrow>
             (case find (\<lambda>c. length (argTypes c) = length args \<and> list_all2 canConvert args (argTypes c)) matches of
                None \<Rightarrow> (Inl BlockCallNotFound, s)
              | Some c \<Rightarrow> run c))"

subsection \<open>Consistency of a port table\<close>

text \<open>
  The four views agree: the maps by name are equal, the vector by index holds exactly the ports with
  numeric names and ends with a port, the list of names has each name once, and the pointer array of the
  work info covers every index. A numeric name is \<open>canonical\<close> when it is the decimal print of its index.
\<close>

definition canonical :: "string \<Rightarrow> bool" where
  "canonical name = (case portNameToIndex name of Inl _ \<Rightarrow> False | Inr i \<Rightarrow> i = - 1 \<or> name = to_string (nat i))"

definition table_ok :: "('c, 'o) PortClass \<Rightarrow> 'c WorkerActor \<times> 'o World \<Rightarrow> bool" where
  "table_ok pc s \<longleftrightarrow>
     (let t = pc_table pc (fst s); w = snd s; P = map_of (pt_ports t) in
      sorted_wrt (<) (map fst (pt_ports t)) \<and> pt_named t = P \<and> distinct (pt_names t) \<and> set (pt_names t) = dom P
      \<and> (\<forall>n a. P n = Some a \<longrightarrow> pc_name pc w a = n \<and> portNameToIndex n = Inr (pc_index pc w a) \<and> canonical n
           \<and> (pc_index pc w a \<noteq> - 1 \<longrightarrow> nat (pc_index pc w a) < length (pt_indexed t)))
      \<and> (\<forall>i < length (pt_indexed t). pt_indexed t ! i = P (to_string i))
      \<and> (pt_indexed t \<noteq> [] \<longrightarrow> last (pt_indexed t) \<noteq> None)
      \<and> pt_automatic t \<subseteq> ran P
      \<and> length (pt_indexed t) \<le> length (pc_pointers pc (fst s)))"

lemma length_vec_resize [simp]: "length (vec_resize n x v) = n"
  by (simp add: vec_resize_def)

lemma nth_vec_resize: "i < n \<Longrightarrow> vec_resize n x v ! i = (if i < length v then v ! i else x)"
  by (auto simp: vec_resize_def nth_append)

lemma strip_null_take:
  obtains k where "strip_null v = take k v" "k \<le> length v" "\<forall>i. k \<le> i \<longrightarrow> i < length v \<longrightarrow> v ! i = None"
    "k > 0 \<longrightarrow> v ! (k - 1) \<noteq> None"
proof -
  have "\<exists>k. strip_null v = take k v \<and> k \<le> length v \<and> (\<forall>i. k \<le> i \<longrightarrow> i < length v \<longrightarrow> v ! i = None) \<and> (k > 0 \<longrightarrow> v ! (k - 1) \<noteq> None)"
  proof (induction v rule: rev_induct)
    case Nil
    then show ?case by (simp add: strip_null_def)
  next
    case (snoc x v)
    show ?case
    proof (cases x)
      case None
      obtain k where k: "strip_null v = take k v" "k \<le> length v" "\<forall>i. k \<le> i \<longrightarrow> i < length v \<longrightarrow> v ! i = None" "k > 0 \<longrightarrow> v ! (k - 1) \<noteq> None"
        using snoc by blast
      have "strip_null (v @ [x]) = strip_null v" using None by (simp add: strip_null_def)
      moreover have "\<forall>i. k \<le> i \<longrightarrow> i < length (v @ [x]) \<longrightarrow> (v @ [x]) ! i = None"
        using k(3) None by (auto simp: nth_append)
      moreover have "k > 0 \<longrightarrow> (v @ [x]) ! (k - 1) \<noteq> None" using k(2,4) by (auto simp: nth_append)
      ultimately show ?thesis using k(1,2) by (intro exI [of _ k]) auto
    next
      case (Some y)
      then show ?thesis by (intro exI [of _ "Suc (length v)"]) (simp add: strip_null_def)
    qed
  qed
  then show thesis using that by blast
qed

lemma strip_null_replicate: "v \<noteq> [] \<longrightarrow> last v \<noteq> None \<Longrightarrow> strip_null (v @ replicate n None) = v"
proof -
  assume "v \<noteq> [] \<longrightarrow> last v \<noteq> None"
  then have "dropWhile (\<lambda>x. x = None) (rev v) = rev v" by (cases v rule: rev_cases) auto
  moreover have "dropWhile (\<lambda>x. x = None) (replicate n None @ rev v) = dropWhile (\<lambda>x. x = None) (rev v)"
    by (induction n) auto
  ultimately show ?thesis by (simp add: strip_null_def)
qed

lemma find_rev_upt: "P i \<Longrightarrow> i < n \<Longrightarrow> \<forall>j. i < j \<and> j < n \<longrightarrow> \<not> P j \<Longrightarrow> find P (rev [0..<n]) = Some i"
  by (induction n) (auto simp: less_Suc_eq)

lemma portNameToIndex_to_string: "i < 2 ^ 31 \<Longrightarrow> portNameToIndex (to_string i) = Inr (int i)"
  using to_string_digits stoi_to_string by (auto simp: portNameToIndex_def)

lemma not_numeric:
  assumes "portNameToIndex name = Inr (- 1)"
  shows "to_string j \<noteq> name"
proof
  assume n: "to_string j = name"
  then have "\<not> (\<exists>ch \<in> set name. \<not> is_digit ch)" using to_string_digits by auto
  then have "stoi name = Inr (- 1)" using assms by (auto simp: portNameToIndex_def split: if_splits)
  then show False using strto_to_string [of "[]" j] n by (auto simp: stoi_def Let_def split: if_splits)
qed

lemma canonical_index:
  assumes "canonical n" "portNameToIndex n = Inr i" "i \<noteq> - 1"
  shows "n = to_string (nat i)" "nat i < 2 ^ 31" "0 \<le> i"
proof -
  show n: "n = to_string (nat i)" using assms by (simp add: canonical_def)
  have "stoi n = Inr i" using assms(2,3) by (auto simp: portNameToIndex_def split: if_splits)
  moreover have "strto n = Some (False, nat i)" using strto_to_string [of "[]" "nat i"] n by simp
  ultimately show "nat i < 2 ^ 31" "0 \<le> i" by (auto simp: stoi_def Let_def split: if_splits)
qed

lemma table_okI:
  assumes "pc_table pc wa = t" "map_of (pt_ports t) = P"
    and "sorted_wrt (<) (map fst (pt_ports t))" "pt_named t = P" "distinct (pt_names t)" "set (pt_names t) = dom P"
    and "\<And>n a. P n = Some a \<Longrightarrow> pc_name pc w a = n \<and> portNameToIndex n = Inr (pc_index pc w a) \<and> canonical n
           \<and> (pc_index pc w a \<noteq> - 1 \<longrightarrow> nat (pc_index pc w a) < length (pt_indexed t))"
    and "\<And>i. i < length (pt_indexed t) \<Longrightarrow> pt_indexed t ! i = P (to_string i)"
    and "pt_indexed t \<noteq> [] \<longrightarrow> last (pt_indexed t) \<noteq> None" "pt_automatic t \<subseteq> ran P"
    and "length (pt_indexed t) \<le> length (pc_pointers pc wa)"
  shows "table_ok pc (wa, w)"
  using assms unfolding table_ok_def Let_def by simp

text \<open>The contract of a port class, and the proofs about the templates.\<close>

locale port_class =
  fixes pc :: "('c, 'o) PortClass"
  assumes get_set [simp]: "pc_table pc (pc_set pc t wa) = t"
    and set_get [simp]: "pc_set pc (pc_table pc wa) wa = wa"
    and set_set [simp]: "pc_set pc t (pc_set pc t' wa) = pc_set pc t wa"
    and pointers_set [simp]: "pc_pointers pc (pc_set pc t wa) = pc_pointers pc wa"
    and table_update [simp]: "pc_table pc (updatePorts wa) = pc_table pc wa"
    and pointers_update [simp]: "length (pc_pointers pc (updatePorts wa)) = length (pt_indexed (pc_table pc wa))"
    and make_name [simp]: "pc_name pc (pc_make pc a d dm n i w) b = (if b = a then n else pc_name pc w b)"
    and make_index [simp]: "pc_index pc (pc_make pc a d dm n i w) b = (if b = a then i else pc_index pc w b)"
    and make_dtype [simp]: "pc_dtype pc (pc_make pc a d dm n i w) b = (if b = a then d else pc_dtype pc w b)"
    and make_domain [simp]: "pc_domain pc (pc_make pc a d dm n i w) b = (if b = a then dm else pc_domain pc w b)"
    and make_subscribers [simp]: "pc_subscribers pc (pc_make pc a d dm n i w) b = (if b = a then [] else pc_subscribers pc w b)"
begin

lemma indexed_conv:
  assumes "table_ok pc (wa, w)" "j < 2 ^ 31" "length (pt_indexed (pc_table pc wa)) \<le> j"
  shows "map_of (pt_ports (pc_table pc wa)) (to_string j) = None"
proof (rule ccontr)
  assume "map_of (pt_ports (pc_table pc wa)) (to_string j) \<noteq> None"
  then obtain a where a: "map_of (pt_ports (pc_table pc wa)) (to_string j) = Some a" by auto
  then have "portNameToIndex (to_string j) = Inr (pc_index pc w a)"
    "pc_index pc w a \<noteq> - 1 \<longrightarrow> nat (pc_index pc w a) < length (pt_indexed (pc_table pc wa))"
    using assms(1) by (auto simp: table_ok_def Let_def)
  then show False using portNameToIndex_to_string [OF assms(2)] assms(3) by auto
qed

lemma allocate_ok:
  assumes ok: "table_ok pc (wa, w)" and can: "canonical name" and new: "map_of (pt_ports (pc_table pc wa)) name = None"
    and fresh: "a \<notin> ran (map_of (pt_ports (pc_table pc wa)))"
  obtains wa' w' where "allocatePort pc a name d dm automatic (wa, w) = (None, wa', w')" "table_ok pc (wa', w')"
    "map_of (pt_ports (pc_table pc wa')) = (map_of (pt_ports (pc_table pc wa)))(name \<mapsto> a)"
proof -
  let ?t = "pc_table pc wa" let ?P = "map_of (pt_ports ?t)"
  obtain idx where idx: "portNameToIndex name = Inr idx" using can by (auto simp: canonical_def split: sum.splits)
  let ?t1 = "?t\<lparr>pt_ports := map_put name a (pt_ports ?t)\<rparr>"
  let ?t' = "install_port a name idx automatic ?t1"
  let ?w' = "pc_make pc a d dm name idx w"
  let ?ix = "pt_indexed ?t" let ?ix' = "pt_indexed ?t'"
  have res: "allocatePort pc a name d dm automatic (wa, w) = (None, updatePorts (pc_set pc ?t' wa), ?w')"
    by (simp add: allocatePort_def idx Let_def)
  have fields: "pt_ports ?t' = map_put name a (pt_ports ?t)" "pt_named ?t' = (pt_named ?t)(name \<mapsto> a)"
    "pt_names ?t' = pt_names ?t @ [name]" "pt_automatic ?t' \<subseteq> insert a (pt_automatic ?t)"
    "?ix' = (if idx = - 1 then ?ix else (vec_resize (max (nat idx + 1) (length ?ix)) None ?ix)[nat idx := Some a])"
    by (auto simp: install_port_def Let_def)
  note okD = ok [unfolded table_ok_def Let_def, simplified]
  have names: "distinct (pt_names ?t')" "set (pt_names ?t') = dom (map_of (pt_ports ?t'))"
    using okD new unfolding fields by auto
  have other: "?P n = Some b \<Longrightarrow> b \<noteq> a \<and> n \<noteq> name" for n b using fresh new by (auto simp: ran_def)
  have len: "length ?ix' = (if idx = - 1 then length ?ix else max (nat idx + 1) (length ?ix))" unfolding fields by simp
  have nth: "?ix' ! j = (?P(name \<mapsto> a)) (to_string j)" if j: "j < length ?ix'" for j
  proof (cases "idx = - 1")
    case True
    have "j < length ?ix" "?ix ! j = ?P (to_string j)" using j True len okD by simp_all
    moreover have "to_string j \<noteq> name" using not_numeric idx True by simp
    ultimately show ?thesis using True unfolding fields by simp
  next
    case False
    note c = canonical_index [OF can idx False]
    have "j < 2 ^ 31" if "length ?ix \<le> j" using j that len c(2) False by simp
    then have "length ?ix \<le> j \<Longrightarrow> ?P (to_string j) = None" using indexed_conv [OF ok] by simp
    moreover have "j < length ?ix \<Longrightarrow> ?ix ! j = ?P (to_string j)" using okD by simp
    moreover have "to_string j = name \<longleftrightarrow> j = nat idx" using c(1) to_string_inj by metis
    ultimately show ?thesis using False j len unfolding fields by (auto simp: nth_list_update nth_vec_resize)
  qed
  have last: "?ix' \<noteq> [] \<longrightarrow> last ?ix' \<noteq> None"
  proof (cases "idx \<noteq> - 1 \<and> nat idx + 1 < length ?ix")
    case True
    then have ne: "?ix' \<noteq> []" "?ix \<noteq> []" "length ?ix' = length ?ix" using len by auto
    have "last ?ix' = last ?ix" unfolding last_conv_nth [OF ne(1)] last_conv_nth [OF ne(2)] ne(3)
      using True ne(2) unfolding fields by (auto simp: nth_list_update nth_vec_resize max_def)
    then show ?thesis using True okD by force
  next
    case False
    then show ?thesis using okD unfolding fields
      by (auto simp: last_conv_nth nth_list_update max_def)
  qed
  have ports: "pc_name pc ?w' b = n \<and> portNameToIndex n = Inr (pc_index pc ?w' b) \<and> canonical n
      \<and> (pc_index pc ?w' b \<noteq> - 1 \<longrightarrow> nat (pc_index pc ?w' b) < length ?ix')"
    if "map_of (pt_ports ?t') n = Some b" for n b
  proof (cases "n = name")
    case True
    then show ?thesis using that idx can len unfolding fields by auto
  next
    case False
    then have P: "?P n = Some b" using that unfolding fields by simp
    have "length ?ix \<le> length ?ix'" unfolding len by simp
    then show ?thesis using okD P other [OF P] by (fastforce)
  qed
  have "ran (map_of (pt_ports ?t')) = insert a (ran ?P)" unfolding fields(1) by (simp add: ran_map_upd new)
  then have auto': "pt_automatic ?t' \<subseteq> ran (map_of (pt_ports ?t'))" using fields(4) okD by blast
  have nth': "j < length ?ix' \<Longrightarrow> ?ix' ! j = map_of (pt_ports ?t') (to_string j)" for j
    unfolding fields(1) map_of_map_put by (rule nth)
  have "sorted_wrt (<) (map fst (pt_ports ?t))" using okD by simp
  then have sorted: "sorted_wrt (<) (map fst (pt_ports ?t'))" unfolding fields(1) by (rule sorted_map_put)
  have named: "pt_named ?t' = map_of (pt_ports ?t')" using okD unfolding fields(1,2) by simp
  have "table_ok pc (updatePorts (pc_set pc ?t' wa), ?w')"
    by (rule table_okI [OF _ refl sorted named names ports _ last auto']) (simp, assumption, erule nth', simp)
  then show thesis using that [OF res] by (simp add: fields)
qed

lemma autoAllocate_cases:
  assumes ok: "table_ok pc (wa, w)" and idx: "portNameToIndex name = Inr idx"
  obtains "autoAllocatePort pc a name (wa, w) = (None, wa, w)"
  | i p where "i < nat idx" "map_of (pt_ports (pc_table pc wa)) (to_string i) = Some p"
      "\<And>j. i < j \<Longrightarrow> j < nat idx \<Longrightarrow> map_of (pt_ports (pc_table pc wa)) (to_string j) = None"
      "idx \<noteq> - 1" "map_of (pt_ports (pc_table pc wa)) name = None"
      "autoAllocatePort pc a name (wa, w) = allocatePort pc a name (pc_dtype pc w p) (pc_domain pc w p) True (wa, w)"
proof (cases "idx = - 1 \<or> map_of (pt_ports (pc_table pc wa)) name \<noteq> None")
  case True
  then show thesis using that(1) idx by (auto simp: autoAllocatePort_def)
next
  case False
  let ?P = "map_of (pt_ports (pc_table pc wa))" let ?ix = "pt_indexed (pc_table pc wa)"
  let ?f = "find (\<lambda>i. ?P (to_string i) \<noteq> None) (rev [0..<nat idx])"
  show thesis
  proof (cases ?f)
    case None
    then show thesis using that(1) idx False by (simp add: autoAllocatePort_def)
  next
    case (Some i)
    then obtain k where k: "k < nat idx" "i = nat idx - Suc k" "?P (to_string i) \<noteq> None"
      "\<And>j. j < k \<Longrightarrow> ?P (to_string (nat idx - Suc j)) = None"
      by (auto simp: find_Some_iff rev_nth)
    obtain p where p: "?P (to_string i) = Some p" using k(3) by auto
    have none: "?P (to_string j) = None" if "i < j" "j < nat idx" for j
      using k(1,2) that k(4) [of "nat idx - Suc j"] by simp
    have "nat idx < 2 ^ 31" using idx
      by (auto simp: portNameToIndex_def stoi_def Let_def split: if_splits option.splits)
    then have "i < length ?ix" using indexed_conv [OF ok, of i] k(1,2) p by fastforce
    then have "(if i < length ?ix then ?ix ! i else None) = Some p" using ok p by (simp add: table_ok_def Let_def)
    then have "autoAllocatePort pc a name (wa, w) = allocatePort pc a name (pc_dtype pc w p) (pc_domain pc w p) True (wa, w)"
      using idx False Some by (simp add: autoAllocatePort_def)
    then show thesis using that(2) [OF _ p] k(1,2) none False by simp
  qed
qed

lemma delete_ok:
  assumes ok: "table_ok pc (wa, w)"
  shows "table_ok pc (autoDeletePort pc name (wa, w)) \<and> snd (autoDeletePort pc name (wa, w)) = w
    \<and> ran (map_of (pt_ports (pc_table pc (fst (autoDeletePort pc name (wa, w)))))) \<subseteq> ran (map_of (pt_ports (pc_table pc wa)))"
proof -
  let ?t = "pc_table pc wa" let ?P = "map_of (pt_ports ?t)" let ?ix = "pt_indexed ?t"
  note okD = ok [unfolded table_ok_def Let_def, simplified]
  show ?thesis
  proof (cases "\<exists>a. ?P name = Some a \<and> pc_subscribers pc w a = [] \<and> a \<in> pt_automatic ?t")
    case False
    then show ?thesis using ok by (auto simp: autoDeletePort_def Let_def split: option.splits)
  next
    case True
    then obtain a where a: "?P name = Some a" "pc_subscribers pc w a = []" "a \<in> pt_automatic ?t" by blast
    let ?idx = "pc_index pc w a"
    have na: "pc_name pc w a = name" "portNameToIndex name = Inr ?idx" "canonical name"
      "?idx \<noteq> - 1 \<Longrightarrow> nat ?idx < length ?ix" using okD a(1) by auto
    note ci = canonical_index [OF na(3,2)]
    define v where "v = (if 0 \<le> ?idx \<and> nat ?idx < length ?ix then ?ix[nat ?idx := None] else ?ix)"
    have lv: "length v = length ?ix" by (simp add: v_def)
    have vn: "v ! i = (?P(name := None)) (to_string i)" if "i < length ?ix" for i
    proof (cases "?idx = - 1")
      case True
      have "to_string i \<noteq> name" using not_numeric na(2) True by simp
      then show ?thesis using True that okD by (simp add: v_def)
    next
      case False
      have "to_string i = name \<longleftrightarrow> i = nat ?idx" using ci(1) [OF False] to_string_inj by metis
      then show ?thesis using False that okD na(4) ci(3) by (auto simp: nth_list_update v_def)
    qed
    obtain k where k: "strip_null v = take k v" "k \<le> length v" "\<forall>i. k \<le> i \<longrightarrow> i < length v \<longrightarrow> v ! i = None"
      "k > 0 \<longrightarrow> v ! (k - 1) \<noteq> None" by (rule strip_null_take [of v])
    have kl: "k \<le> length ?ix" using k(2) lv by simp
    let ?t' = "?t\<lparr>pt_automatic := pt_automatic ?t - {a}, pt_indexed := strip_null v, pt_named := (pt_named ?t)(name := None),
       pt_names := remove1 name (pt_names ?t), pt_ports := map_erase name (pt_ports ?t)\<rparr>"
    have res: "autoDeletePort pc name (wa, w) = (pc_set pc ?t' wa, w)"
      using a na(1) by (simp add: autoDeletePort_def Let_def v_def)
    have lens: "length (take k v) = k" using k(2) by simp
    have ports: "pc_name pc w b = n \<and> portNameToIndex n = Inr (pc_index pc w b) \<and> canonical n
      \<and> (pc_index pc w b \<noteq> - 1 \<longrightarrow> nat (pc_index pc w b) < length (pt_indexed ?t'))" if "(?P(name := None)) n = Some b" for n b
    proof -
      have P: "?P n = Some b" using that by (auto split: if_splits)
      then have b: "pc_name pc w b = n" "portNameToIndex n = Inr (pc_index pc w b)" "canonical n"
        "pc_index pc w b \<noteq> - 1 \<longrightarrow> nat (pc_index pc w b) < length ?ix" using okD by auto
      have "nat (pc_index pc w b) < k" if i: "pc_index pc w b \<noteq> - 1"
      proof (rule ccontr)
        assume "\<not> nat (pc_index pc w b) < k"
        then have "v ! nat (pc_index pc w b) = None" using k(3) b(4) i lv by simp
        then show False using vn [of "nat (pc_index pc w b)"] b(4) i canonical_index(1) [OF b(3,2) i] \<open>(?P(name := None)) n = Some b\<close> by simp
      qed
      then show ?thesis using b k(1) lens by simp
    qed
    have last: "take k v \<noteq> [] \<longrightarrow> last (take k v) \<noteq> None"
    proof
      assume ne: "take k v \<noteq> []"
      then have "k > 0" by (cases k) simp_all
      then show "last (take k v) \<noteq> None" using k(4) lens unfolding last_conv_nth [OF ne] by simp
    qed
    have auto': "pt_automatic ?t - {a} \<subseteq> ran (?P(name := None))"
    proof
      fix x assume x: "x \<in> pt_automatic ?t - {a}"
      have "pt_automatic ?t \<subseteq> ran ?P" using okD by simp
      then obtain n where "?P n = Some x" using x by (auto simp: ran_def)
      then have "(?P(name := None)) n = Some x" using x a(1) by auto
      then show "x \<in> ran (?P(name := None))" by (rule ranI)
    qed
    have nth: "\<forall>i < k. take k v ! i = (?P(name := None)) (to_string i)" using vn kl by simp
    have names: "distinct (remove1 name (pt_names ?t))" "set (remove1 name (pt_names ?t)) = dom (?P(name := None))" using okD by auto
    have "table_ok pc (pc_set pc ?t' wa, w)"
      by (rule table_okI [OF _ _ _ _ _ _ ports])
        (use names nth last auto' okD sorted_map_erase [of "pt_ports ?t"] kl lens in \<open>simp_all add: k(1) del: fun_upd_apply length_take\<close>)
    moreover have "ran (?P(name := None)) \<subseteq> ran ?P" by (auto simp: ran_def)
    ultimately show ?thesis unfolding res by simp
  qed
qed

lemma autoAllocate_ok:
  assumes ok: "table_ok pc (wa, w)" and can: "canonical name" and fresh: "a \<notin> ran (map_of (pt_ports (pc_table pc wa)))"
  obtains wa' w' where "autoAllocatePort pc a name (wa, w) = (None, wa', w')" "table_ok pc (wa', w')"
    "ran (map_of (pt_ports (pc_table pc wa'))) \<subseteq> insert a (ran (map_of (pt_ports (pc_table pc wa))))"
proof -
  obtain idx where idx: "portNameToIndex name = Inr idx" using can by (auto simp: canonical_def split: sum.splits)
  show thesis
  proof (rule autoAllocate_cases [OF ok idx, of a])
    assume "autoAllocatePort pc a name (wa, w) = (None, wa, w)"
    then show thesis using that ok by auto
  next
    fix i p
    assume none: "map_of (pt_ports (pc_table pc wa)) name = None"
      and eq: "autoAllocatePort pc a name (wa, w) = allocatePort pc a name (pc_dtype pc w p) (pc_domain pc w p) True (wa, w)"
    show thesis
      by (rule allocate_ok [OF ok can none fresh, of "pc_dtype pc w p" "pc_domain pc w p" True])
        (use that eq none in \<open>simp add: ran_map_upd\<close>)
  qed
qed

lemma auto_round_trip:
  assumes ok: "table_ok pc (wa, w)" and can: "canonical name" and fresh: "a \<notin> ran (map_of (pt_ports (pc_table pc wa)))"
    and none: "map_of (pt_ports (pc_table pc wa)) name = None" and idx: "portNameToIndex name = Inr (int n)" and i: "i < n"
    "map_of (pt_ports (pc_table pc wa)) (to_string i) = Some p"
    "\<forall>j. i < j \<and> j < n \<longrightarrow> map_of (pt_ports (pc_table pc wa)) (to_string j) = None"
  shows "\<exists>wa' w'. autoAllocatePort pc a name (wa, w) = (None, wa', w') \<and> map_of (pt_ports (pc_table pc wa')) name = Some a
    \<and> pc_dtype pc w' a = pc_dtype pc w p \<and> pc_domain pc w' a = pc_domain pc w p
    \<and> pc_table pc (fst (autoDeletePort pc name (wa', w'))) = pc_table pc wa"
proof -
  let ?t = "pc_table pc wa" let ?P = "map_of (pt_ports ?t)" let ?ix = "pt_indexed ?t"
  note okD = ok [unfolded table_ok_def Let_def, simplified]
  let ?t' = "install_port a name (int n) True (?t\<lparr>pt_ports := map_put name a (pt_ports ?t)\<rparr>)"
  let ?wa' = "updatePorts (pc_set pc ?t' wa)" let ?w' = "pc_make pc a (pc_dtype pc w p) (pc_domain pc w p) name (int n) w"
  have "n < 2 ^ 31" using idx by (auto simp: portNameToIndex_def stoi_def Let_def split: if_splits option.splits)
  then have "i < length ?ix" using indexed_conv [OF ok, of i] i(1,2) by fastforce
  then have "(if i < length ?ix then ?ix ! i else None) = Some p" using okD i(2) by simp
  moreover have "find (\<lambda>i. ?P (to_string i) \<noteq> None) (rev [0..<n]) = Some i" using i by (intro find_rev_upt) auto
  ultimately have res: "autoAllocatePort pc a name (wa, w) = (None, ?wa', ?w')"
    using idx none by (simp add: autoAllocatePort_def allocatePort_def Let_def)
  have t': "pt_ports ?t' = map_put name a (pt_ports ?t)" "pt_named ?t' = (pt_named ?t)(name \<mapsto> a)" "pt_names ?t' = pt_names ?t @ [name]"
    "pt_automatic ?t' = insert a (pt_automatic ?t)"
    "pt_indexed ?t' = (vec_resize (max (n + 1) (length ?ix)) None ?ix)[n := Some a]"
    by (simp_all add: install_port_def Let_def)
  have lenx: "n < length (pt_indexed ?t')" unfolding t' by simp
  have last: "?ix \<noteq> [] \<longrightarrow> last ?ix \<noteq> None" using okD by simp
  have strip: "strip_null ((pt_indexed ?t')[n := None]) = ?ix"
  proof (cases "n < length ?ix")
    case True
    have "to_string n = name" using canonical_index(1) [OF can idx] by simp
    then have "?ix ! n = None" using okD True none by simp
    then have "?ix[n := None] = ?ix" by (metis list_update_id)
    then have "(pt_indexed ?t')[n := None] = ?ix" using True unfolding t' by (simp add: vec_resize_def max_def)
    then show ?thesis using strip_null_replicate [OF last, of 0] by simp
  next
    case False
    have "(pt_indexed ?t')[n := None] = ?ix @ replicate (n + 1 - length ?ix) None"
      using False unfolding t' by (intro nth_equalityI) (auto simp: vec_resize_def max_def nth_append nth_list_update)
    then show ?thesis using strip_null_replicate [OF last] by simp
  qed
  have "a \<notin> pt_automatic ?t" using okD fresh by auto
  moreover have "name \<notin> set (pt_names ?t)" using okD none by auto
  moreover have "(pt_named ?t)(name := None) = pt_named ?t" using okD none by (simp add: fun_upd_idem)
  ultimately have "pc_table pc (fst (autoDeletePort pc name (?wa', ?w'))) = ?t"
    using lenx strip none by (simp add: autoDeletePort_def Let_def t' map_erase_put remove1_append)
  then show ?thesis using res by (simp add: t')
qed

end

text \<open>Two port classes of one actor: the operations of each leave the tables of the other alone.\<close>

locale two_port_classes = port_class pc for pc :: "('c, 'o) PortClass" +
  fixes other :: "('c, 'o) PortClass"
  assumes other_table [simp]: "pc_table other (pc_set pc t wa) = pc_table other wa"
    and other_table_update [simp]: "pc_table other (updatePorts wa) = pc_table other wa"
    and other_pointers [simp]: "pc_pointers other (pc_set pc t wa) = pc_pointers other wa"
    and other_pointers_update [simp]: "length (pc_pointers other (updatePorts wa)) = length (pt_indexed (pc_table other wa))"
    and other_name [simp]: "pc_name other (pc_make pc a d dm n i w) = pc_name other w"
    and other_index [simp]: "pc_index other (pc_make pc a d dm n i w) = pc_index other w"
begin

lemma frame:
  assumes "table_ok other (wa, w)" "pc_table other wa' = pc_table other wa" "pc_name other w' = pc_name other w"
    "pc_index other w' = pc_index other w" "length (pt_indexed (pc_table other wa)) \<le> length (pc_pointers other wa')"
  shows "table_ok other (wa', w')"
  using assms unfolding table_ok_def Let_def by simp

lemma other_allocate:
  assumes "table_ok other (wa, w)"
  shows "table_ok other (snd (allocatePort pc a name d dm automatic (wa, w)))
    \<and> pc_table other (fst (snd (allocatePort pc a name d dm automatic (wa, w)))) = pc_table other wa"
  using assms frame [OF assms] by (auto simp: allocatePort_def Let_def table_ok_def split: sum.splits)

lemma other_autoAllocate:
  assumes "table_ok other (wa, w)"
  shows "table_ok other (snd (autoAllocatePort pc a name (wa, w)))
    \<and> pc_table other (fst (snd (autoAllocatePort pc a name (wa, w)))) = pc_table other wa"
  using assms other_allocate [OF assms] by (auto simp: autoAllocatePort_def split: sum.splits option.splits)

lemma other_delete:
  assumes "table_ok other (wa, w)"
  shows "table_ok other (autoDeletePort pc name (wa, w)) \<and> pc_table other (fst (autoDeletePort pc name (wa, w))) = pc_table other wa"
  using assms frame [OF assms, of _ w] by (auto simp: autoDeletePort_def Let_def table_ok_def split: option.splits)

end

interpretation inports: two_port_classes "InputClass emptyDeque" "OutputClass tokens"
  by unfold_locales (simp_all add: InputClass_def OutputClass_def updatePorts_def InputPort_new_def OutputPort_new_def)

interpretation outports: two_port_classes "OutputClass tokens" "InputClass emptyDeque"
  by unfold_locales (simp_all add: InputClass_def OutputClass_def updatePorts_def InputPort_new_def OutputPort_new_def)

subsection \<open>Sequences of port operations\<close>

datatype port_op =
    SetupInput string DType string
  | SetupOutput string DType string
  | AutoAllocateInput string
  | AutoAllocateOutput string
  | AutoDeleteInput string
  | AutoDeleteOutput string

primrec op_port :: "port_op \<Rightarrow> string" where
  "op_port (SetupInput n _ _) = n"
| "op_port (SetupOutput n _ _) = n"
| "op_port (AutoAllocateInput n) = n"
| "op_port (AutoAllocateOutput n) = n"
| "op_port (AutoDeleteInput n) = n"
| "op_port (AutoDeleteOutput n) = n"

primrec port_step ::
  "'o message RingDeque \<Rightarrow> Manager option \<Rightarrow> nat \<Rightarrow> port_op \<Rightarrow> 'c WorkerActor \<times> 'o World \<Rightarrow> 'c WorkerActor \<times> 'o World" where
  "port_step dq tk a (SetupInput n d dm) s = snd (setupInput dq a n d dm s)"
| "port_step dq tk a (SetupOutput n d dm) s = snd (setupOutput tk a n d dm s)"
| "port_step dq tk a (AutoAllocateInput n) s = snd (autoAllocateInput dq a n s)"
| "port_step dq tk a (AutoAllocateOutput n) s = snd (autoAllocateOutput tk a n s)"
| "port_step dq tk a (AutoDeleteInput n) s = autoDeleteInput dq n s"
| "port_step dq tk a (AutoDeleteOutput n) s = autoDeleteOutput tk n s"

definition empty_world :: "'o World" where
  "empty_world = \<lparr>w_in = (\<lambda>_. InputPort_new (the (RingDeque_new 1))), w_out = (\<lambda>_. OutputPort_new None), w_heap = heap_empty, w_mem = (\<lambda>_. 0)\<rparr>"

text \<open>The caller catches the exceptions; operation number \<open>a\<close> gets the fresh address \<open>a\<close>.\<close>

fun run_ports ::
  "'o message RingDeque \<Rightarrow> Manager option \<Rightarrow> nat \<Rightarrow> port_op list \<Rightarrow> 'c WorkerActor \<times> 'o World \<Rightarrow> 'c WorkerActor \<times> 'o World" where
  "run_ports dq tk a [] s = s"
| "run_ports dq tk a (p # ps) s = run_ports dq tk (Suc a) ps (port_step dq tk a p s)"

definition tables_inv :: "'o message RingDeque \<Rightarrow> Manager option \<Rightarrow> nat \<Rightarrow> 'c WorkerActor \<times> 'o World \<Rightarrow> bool" where
  "tables_inv dq tk a s \<longleftrightarrow> table_ok (InputClass dq) s \<and> table_ok (OutputClass tk) s
     \<and> ran (map_of (pt_ports (wa_inputs (fst s)))) \<subseteq> {..<a} \<and> ran (map_of (pt_ports (wa_outputs (fst s)))) \<subseteq> {..<a}"

lemma class_table [simp]: "pc_table (InputClass dq) = wa_inputs" "pc_table (OutputClass tk) = wa_outputs"
  by (simp_all add: InputClass_def OutputClass_def)

lemma class_fields [simp]:
  "pc_dtype (InputClass dq) w a = ip_dtype (w_in w a)" "pc_domain (InputClass dq) w a = ip_domain (w_in w a)"
  by (simp_all add: InputClass_def)

lemma table_ok_named: "table_ok pc (wa, w) \<Longrightarrow> pt_named (pc_table pc wa) = map_of (pt_ports (pc_table pc wa))"
  by (simp add: table_ok_def Let_def)

lemma ran_upd_lessThan: "m n = None \<Longrightarrow> ran m \<subseteq> {..<a} \<Longrightarrow> ran (m(n \<mapsto> a)) \<subseteq> {..<Suc a}"
  by (auto simp: ran_map_upd)

lemma port_step_inv:
  assumes "tables_inv dq tk a s" "canonical (op_port p)"
  shows "tables_inv dq tk (Suc a) (port_step dq tk a p s)"
proof -
  obtain wa w where s: "s = (wa, w)" by (cases s)
  let ?PI = "map_of (pt_ports (wa_inputs wa))" let ?PO = "map_of (pt_ports (wa_outputs wa))"
  have I: "table_ok (InputClass dq) (wa, w)" and O: "table_ok (OutputClass tk) (wa, w)"
    and r: "ran ?PI \<subseteq> {..<a}" "ran ?PO \<subseteq> {..<a}" using assms(1) by (auto simp: tables_inv_def s)
  have sub: "{..<a} \<subseteq> {..<Suc a}" by auto
  have f: "a \<notin> ran ?PI" "a \<notin> ran ?PO" using r by auto
  have keep: "tables_inv dq tk (Suc a) (wa, w)" using I O r sub by (auto simp: tables_inv_def)
  have nI: "pt_named (wa_inputs wa) = ?PI" and nO: "pt_named (wa_outputs wa) = ?PO"
    using table_ok_named [OF I] table_ok_named [OF O] by simp_all
  show ?thesis
  proof (cases p)
    case (SetupInput n d dm)
    show ?thesis
    proof (cases "n = '''' \<or> ?PI n \<noteq> None")
      case True then show ?thesis using keep by (auto simp: SetupInput s setupInput_def nI)
    next
      case False
      obtain wa' w' where "allocatePort (InputClass dq) a n d dm False (wa, w) = (None, wa', w')" "table_ok (InputClass dq) (wa', w')"
        "map_of (pt_ports (wa_inputs wa')) = ?PI(n \<mapsto> a)"
        using inports.allocate_ok [OF I, of n a d dm False] False f assms(2) SetupInput by auto
      then show ?thesis using False inports.other_allocate [OF O, of dq a n d dm False] r sub ran_upd_lessThan [of ?PI n a]
        by (auto simp: SetupInput s setupInput_def nI tables_inv_def allocateInput_def)
    qed
  next
    case (SetupOutput n d dm)
    show ?thesis
    proof (cases "n = '''' \<or> ?PO n \<noteq> None")
      case True then show ?thesis using keep by (auto simp: SetupOutput s setupOutput_def nO)
    next
      case False
      obtain wa' w' where "allocatePort (OutputClass tk) a n d dm False (wa, w) = (None, wa', w')" "table_ok (OutputClass tk) (wa', w')"
        "map_of (pt_ports (wa_outputs wa')) = ?PO(n \<mapsto> a)"
        using outports.allocate_ok [OF O, of n a d dm False] False f assms(2) SetupOutput by auto
      then show ?thesis using False outports.other_allocate [OF I, of tk a n d dm False] r sub ran_upd_lessThan [of ?PO n a]
        by (auto simp: SetupOutput s setupOutput_def nO tables_inv_def allocateOutput_def)
    qed
  next
    case (AutoAllocateInput n)
    obtain wa' w' where "autoAllocatePort (InputClass dq) a n (wa, w) = (None, wa', w')" "table_ok (InputClass dq) (wa', w')"
      "ran (map_of (pt_ports (wa_inputs wa'))) \<subseteq> insert a (ran ?PI)"
      using inports.autoAllocate_ok [OF I, of n a] f assms(2) AutoAllocateInput by auto
    then show ?thesis using inports.other_autoAllocate [OF O, of dq a n] r sub
      by (auto simp: AutoAllocateInput s tables_inv_def autoAllocateInput_def)
  next
    case (AutoAllocateOutput n)
    obtain wa' w' where "autoAllocatePort (OutputClass tk) a n (wa, w) = (None, wa', w')" "table_ok (OutputClass tk) (wa', w')"
      "ran (map_of (pt_ports (wa_outputs wa'))) \<subseteq> insert a (ran ?PO)"
      using outports.autoAllocate_ok [OF O, of n a] f assms(2) AutoAllocateOutput by auto
    then show ?thesis using outports.other_autoAllocate [OF I, of tk a n] r sub
      by (auto simp: AutoAllocateOutput s tables_inv_def autoAllocateOutput_def)
  next
    case (AutoDeleteInput n)
    then show ?thesis using inports.delete_ok [OF I, of n] inports.other_delete [OF O, of dq n] r sub
      by (auto simp: s tables_inv_def autoDeleteInput_def)
  next
    case (AutoDeleteOutput n)
    then show ?thesis using outports.delete_ok [OF O, of n] outports.other_delete [OF I, of tk n] r sub
      by (auto simp: s tables_inv_def autoDeleteOutput_def)
  qed
qed

lemma tables_inv_new: "tables_inv dq tk 0 (WorkerActor_new, w)"
  by (simp add: tables_inv_def table_ok_def Let_def WorkerActor_new_def PortTable_new_def)

lemma run_ports_inv:
  "tables_inv dq tk a s \<Longrightarrow> \<forall>p \<in> set ops. canonical (op_port p) \<Longrightarrow> \<exists>b. tables_inv dq tk b (run_ports dq tk a ops s)"
proof (induction ops arbitrary: a s)
  case (Cons p ops)
  then show ?case using Cons.IH [OF port_step_inv [OF Cons.prems(1)]] by simp
qed auto

subsection \<open>Properties\<close>

text \<open>
  C25. Whatever sequence of port set-ups, automatic allocations and automatic deletions is run on a new block,
  with canonical names, the tables of its inputs and of its outputs stay consistent: the map by name,
  the vector by index and the list of names describe the same ports, and every index is inside the
  pointer array of the work info.
\<close>

theorem port_tables_consistent:
  assumes "\<forall>p \<in> set ops. canonical (op_port p)"
  shows "table_ok (InputClass dq) (run_ports dq tk 0 ops (WorkerActor_new :: 'c WorkerActor, w))
    \<and> table_ok (OutputClass tk) (run_ports dq tk 0 ops (WorkerActor_new :: 'c WorkerActor, w))"
proof -
  from run_ports_inv [OF tables_inv_new assms] show ?thesis by (auto simp: tables_inv_def)
qed

theorem port_tables_consistent_witness:
  "table_ok (InputClass (the (RingDeque_new 1)))
     (run_ports (the (RingDeque_new 1)) None 0 [SetupInput ''0'' DType_default '''', AutoAllocateInput ''2'', AutoDeleteInput ''2'']
      (WorkerActor_new :: nat WorkerActor, empty_world :: nat World))"
proof -
  have "canonical ''0''" "canonical ''2''" by code_simp+
  then show ?thesis
    using port_tables_consistent [where 'c = nat, of "[SetupInput ''0'' DType_default '''', AutoAllocateInput ''2'', AutoDeleteInput ''2'']"
        "the (RingDeque_new 1)" None "empty_world :: nat World"] by simp
qed

text \<open>
  An automatic port is undone by its deletion. Allocating the port of a canonical name that has a
  lower-indexed neighbour gives it the data type and the domain of the nearest such port; deleting it again,
  while it has no subscribers, restores the table of the ports exactly.
\<close>

theorem automatic_port_round_trip:
  assumes "table_ok (InputClass dq) (wa, w)" "canonical name" "a \<notin> ran (map_of (pt_ports (wa_inputs wa)))"
    and "map_of (pt_ports (wa_inputs wa)) name = None"
    and "portNameToIndex name = Inr (int n)" "i < n" "map_of (pt_ports (wa_inputs wa)) (to_string i) = Some p"
    and "\<forall>j. i < j \<and> j < n \<longrightarrow> map_of (pt_ports (wa_inputs wa)) (to_string j) = None"
  shows "\<exists>wa' w'. autoAllocateInput dq a name (wa, w) = (None, wa', w')
    \<and> map_of (pt_ports (wa_inputs wa')) name = Some a \<and> ip_dtype (w_in w' a) = ip_dtype (w_in w p)
    \<and> ip_domain (w_in w' a) = ip_domain (w_in w p) \<and> wa_inputs (fst (autoDeleteInput dq name (wa', w'))) = wa_inputs wa"
  using inports.auto_round_trip [of dq wa w name a n i p] assms by (simp add: autoAllocateInput_def autoDeleteInput_def)

theorem automatic_port_round_trip_witness:
  "\<exists>wa' w'. autoAllocateInput (the (RingDeque_new 1)) 1 ''2''
      (run_ports (the (RingDeque_new 1)) None 0 [SetupInput ''0'' DType_default ''D''] (WorkerActor_new :: nat WorkerActor, empty_world :: nat World))
      = (None, wa', w') \<and> ip_domain (w_in w' 1) = ''D''"
proof -
  let ?dq = "the (RingDeque_new 1) :: nat message RingDeque"
  let ?s = "run_ports ?dq None 0 [SetupInput ''0'' DType_default ''D''] (WorkerActor_new :: nat WorkerActor, empty_world :: nat World)"
  obtain wa w where s: "?s = (wa, w)" by (cases ?s)
  have can: "canonical ''0''" "canonical ''2''" "portNameToIndex ''2'' = Inr (int 2)" "to_string 0 = ''0''" "to_string 1 = ''1''" by code_simp+
  have ok: "table_ok (InputClass ?dq) (wa, w)"
    using run_ports_inv [OF tables_inv_new, of "[SetupInput ''0'' DType_default ''D'']" ?dq None "empty_world :: nat World"] can(1)
    unfolding tables_inv_def s [symmetric] by auto
  have "pt_ports (wa_inputs (fst ?s)) = [(''0'', 0)] \<and> ip_domain (w_in (snd ?s) 0) = ''D''" by code_simp
  then have "pt_ports (wa_inputs wa) = [(''0'', 0)]" "ip_domain (w_in w 0) = ''D''" using s by auto
  moreover have "to_string j \<noteq> ''0''" if "0 < j" for j using that to_string_inj [of j 0] can(4) by auto
  ultimately show ?thesis
    using automatic_port_round_trip [OF ok can(2), of 1 2 0 0] can unfolding s by auto
qed

text \<open>
  Names that are not canonical break the tables. A block with the inputs \<open>0\<close> and \<open>1\<close> that gets and loses
  an automatic port \<open>01\<close>, then gets a further port, has an input of index 1 and a pointer array of length one.
\<close>

theorem noncanonical_port_breaks_index:
  "let (wa, w) = run_ports (the (RingDeque_new 1)) None 0 [SetupInput ''0'' DType_default '''', SetupInput ''1'' DType_default '''', AutoAllocateInput ''01'',
       AutoDeleteInput ''01'', SetupInput ''x'' DType_default ''''] (WorkerActor_new :: nat WorkerActor, empty_world :: nat World)
   in map_of (pt_ports (wa_inputs wa)) ''1'' = Some 1 \<and> ip_index (w_in w 1) = 1 \<and> length (wi_inputPointers (wa_workInfo wa)) = 1"
  by code_simp

end
