(* ===== verification/Flows.thy ===== *)
theory Flows
  imports PortAllocation
begin

text \<open>
  Ports, flows and the flattening of a hierarchical topology: \<open>PortsAndFlows.hpp\<close>, \<open>TopologySquashFlows.cpp\<close>,
  \<open>TopologyImpl.hpp\<close> and \<open>completePassThroughFlows\<close> of \<open>TopologyCommit.cpp\<close>.

  \<^item> A port or flow is over the type \<open>'o\<close> of the proxies it refers to; \<open>None\<close> is the null proxy, which stands for
    the topology's own ports.
  \<^item> Flattening only reads the objects, so there an object is a value: a block, or a topology with the flows it
    has when the call is made. An object that contains itself, for which the code recurses without end, is not a
    value of the type. Futures are evaluated where their result is taken.
  \<^item> \<open>getInternalBlock\<close>, a call into the language binding of a block, is the parameter \<open>internal\<close>.
\<close>

section \<open>Ports and flows\<close>

datatype 'o Port = Port (p_obj: "'o option") (p_name: string) (p_uid: string) (p_objName: string)

definition Port_toString :: "'o Port \<Rightarrow> string" where
  "Port_toString p = p_objName p @ ''['' @ p_name p @ '']''"

definition Port_eq :: "'o Port \<Rightarrow> 'o Port \<Rightarrow> bool" where
  "Port_eq lhs rhs = (if p_uid lhs \<noteq> p_uid rhs then False else if p_name lhs \<noteq> p_name rhs then False else True)"

datatype 'o Flow = Flow (fl_src: "'o Port") (fl_dst: "'o Port")

definition Flow_toString :: "'o Flow \<Rightarrow> string" where
  "Flow_toString f = Port_toString (fl_src f) @ ''->'' @ Port_toString (fl_dst f)"

definition Flow_eq :: "'o Flow \<Rightarrow> 'o Flow \<Rightarrow> bool" where
  "Flow_eq lhs rhs =
     (if \<not> Port_eq (fl_src rhs) (fl_src lhs) then False else if \<not> Port_eq (fl_dst rhs) (fl_dst lhs) then False else True)"

text \<open>\<open>std::find\<close> over a vector of flows, as a test and as the erasure of the first hit.\<close>

definition flow_find :: "'o Flow list \<Rightarrow> 'o Flow \<Rightarrow> bool" where
  "flow_find flows f = list_ex (\<lambda>g. Flow_eq g f) flows"

fun flow_erase :: "'o Flow list \<Rightarrow> 'o Flow \<Rightarrow> 'o Flow list" where
  "flow_erase [] f = []"
| "flow_erase (g # gs) f = (if Flow_eq g f then gs else g # flow_erase gs f)"

section \<open>Objects of a flow list\<close>

definition put_obj :: "'o Port \<Rightarrow> (string \<times> 'o) list \<Rightarrow> (string \<times> 'o) list" where
  "put_obj p m = (case p_obj p of None \<Rightarrow> m | Some x \<Rightarrow> map_put (p_uid p) x m)"

definition uidToObj :: "'o Flow list \<Rightarrow> (string \<times> 'o) list" where
  "uidToObj flows = fold (\<lambda>flow m. put_obj (fl_dst flow) (put_obj (fl_src flow) m)) flows []"

definition getObjSetFromFlowList :: "'o Flow list \<Rightarrow> 'o Flow list \<Rightarrow> 'o list" where
  "getObjSetFromFlowList flows excludes =
     map snd (fold (\<lambda>flow m. map_erase (p_uid (fl_dst flow)) (map_erase (p_uid (fl_src flow)) m)) excludes (uidToObj flows))"

section \<open>Squashing\<close>

datatype Obj = BlockObj (o_uid: string) | TopologyObj (o_uid: string) (o_flows: "Obj Flow list")

definition flow_ports :: "'o Flow list \<Rightarrow> 'o Port set" where
  "flow_ports flows = fl_src ` set flows \<union> fl_dst ` set flows"

lemma flow_ports_simps [simp]:
  "flow_ports [] = {}" "flow_ports (f # fs) = insert (fl_src f) (insert (fl_dst f) (flow_ports fs))"
  by (auto simp: flow_ports_def)

lemma put_obj_values: "(u, x) \<in> set (put_obj p m) \<Longrightarrow> (u, x) \<in> set m \<or> p_uid p = u \<and> p_obj p = Some x"
  unfolding put_obj_def using map_put_values [of "p_uid p" _ m] by (auto split: option.splits)

lemma fold_put_obj_values:
  "(u, x) \<in> set (fold (\<lambda>flow m. put_obj (fl_dst flow) (put_obj (fl_src flow) m)) flows m) \<Longrightarrow>
   (u, x) \<in> set m \<or> (\<exists>p \<in> flow_ports flows. p_uid p = u \<and> p_obj p = Some x)"
  by (induction flows arbitrary: m) (fastforce dest: put_obj_values)+

lemma uidToObj_values:
  "(u, x) \<in> set (uidToObj flows) \<Longrightarrow> \<exists>p \<in> flow_ports flows. p_uid p = u \<and> p_obj p = Some x"
  unfolding uidToObj_def using fold_put_obj_values [of u x flows "[]"] by simp

lemma size_port_obj: "p_obj p = Some x \<Longrightarrow> size x < size_Port size p"
  by (cases p) simp

lemma size_flow_port: "p \<in> flow_ports flows \<Longrightarrow> size_Port size p < size_list (size_Flow size) flows"
proof (induction flows)
  case (Cons f fs) then show ?case by (cases f) auto
qed simp

lemma size_uidToObj: "(u, x) \<in> set (uidToObj flows) \<Longrightarrow> size x < size_list (size_Flow size) flows"
  using uidToObj_values [of u x flows] size_port_obj size_flow_port by fastforce

function (sequential) resolvePortsFromTopology :: "Obj Flow list \<Rightarrow> string \<Rightarrow> bool \<Rightarrow> Obj Port list"
  and resolvePorts :: "Obj Port \<Rightarrow> bool \<Rightarrow> Obj Port list"
where
  "resolvePortsFromTopology [] portName isSource = []"
| "resolvePortsFromTopology (flow # flows) portName isSource =
     (if isSource \<and> p_name (fl_dst flow) = portName \<and> p_obj (fl_dst flow) = None
      then (if p_obj (fl_src flow) \<noteq> None then resolvePorts (fl_src flow) isSource else [fl_src flow])
      else []) @
     (if \<not> isSource \<and> p_name (fl_src flow) = portName \<and> p_obj (fl_src flow) = None
      then (if p_obj (fl_dst flow) \<noteq> None then resolvePorts (fl_dst flow) isSource else [fl_dst flow])
      else []) @
     resolvePortsFromTopology flows portName isSource"
| "resolvePorts port isSource =
     (case p_obj port of
        Some (TopologyObj u flows) \<Rightarrow> resolvePortsFromTopology flows (p_name port) isSource
      | _ \<Rightarrow> [port])"
  by pat_completeness auto
termination
proof (relation "measure (\<lambda>x. case x of Inl (flows, _) \<Rightarrow> size_list (size_Flow size) flows | Inr (port, _) \<Rightarrow> size_Port size port)", goal_cases)
  case (2 flow flows portName isSource) then show ?case by (cases flow) auto
next
  case (3 flow flows portName isSource) then show ?case by (cases flow) auto
next
  case (5 port isSource u flows) then show ?case by (cases port) auto
qed auto

definition getInternalBlock :: "('o \<Rightarrow> 'o) \<Rightarrow> 'o Port \<Rightarrow> 'o Port" where
  "getInternalBlock internal p = Port (map_option internal (p_obj p)) (p_name p) (p_uid p) (p_objName p)"

function resolveFlows :: "(Obj \<Rightarrow> Obj) \<Rightarrow> Obj \<Rightarrow> Obj Flow list"
  and squashFlows :: "(Obj \<Rightarrow> Obj) \<Rightarrow> Obj Flow list \<Rightarrow> Obj Flow list"
where
  "resolveFlows internal (BlockObj u) = []"
| "resolveFlows internal (TopologyObj u flows) = squashFlows internal flows"
| "squashFlows internal flows =
     (let flatFlows =
            concat (map (\<lambda>flow.
              concat (map (\<lambda>src. map (\<lambda>dst. Flow src dst) (resolvePorts (fl_dst flow) False)) (resolvePorts (fl_src flow) True)))
              (filter (\<lambda>flow. p_obj (fl_src flow) \<noteq> None \<and> p_obj (fl_dst flow) \<noteq> None) flows));
          flatFlows = flatFlows @ concat (map (\<lambda>(uid, x). resolveFlows internal x) (uidToObj flows));
          flatFlows = flatFlows @ filter (\<lambda>flow. p_obj (fl_src flow) = None \<and> p_obj (fl_dst flow) = None) flows
      in map (\<lambda>flow. Flow (getInternalBlock internal (fl_src flow)) (getInternalBlock internal (fl_dst flow))) flatFlows)"
  by pat_completeness auto
termination
  by (relation "measure (\<lambda>x. case x of Inl (_, x) \<Rightarrow> 2 * size x | Inr (_, flows) \<Rightarrow> 2 * size_list (size_Flow size) flows + 1)")
     (auto dest: size_uidToObj)

section \<open>Pass-through flows\<close>

definition completePassThroughFlows :: "'o Flow list \<Rightarrow> 'o Flow list" where
  "completePassThroughFlows flows =
     concat (map (\<lambda>flow.
       if p_obj (fl_src flow) \<noteq> None \<or> p_obj (fl_dst flow) \<noteq> None then []
       else concat (map (\<lambda>flowTail.
         if p_obj (fl_dst flowTail) = None then []
         else concat (map (\<lambda>flowHead.
           if p_obj (fl_src flowHead) = None then []
           else if Port_eq (fl_src flow) (fl_src flowTail) \<and> Port_eq (fl_dst flow) (fl_dst flowHead)
           then [Flow (fl_src flowHead) (fl_dst flowTail)] else []) flows)) flows)) flows) @
     filter (\<lambda>flow. p_obj (fl_src flow) \<noteq> None \<and> p_obj (fl_dst flow) \<noteq> None) flows"

section \<open>The wiring of a hierarchy\<close>

text \<open>
  The abstract view of a hierarchy is its wiring: the nodes are the ports of blocks and topologies, each with the
  side it is on, and every flow at every level is a wire between two nodes. A topology's input is entered from the
  outside flow and left by an inside flow, so both flows name the same node. The flattened topology is meant to connect
  the block ports that a path of wires connects. A pass-through flow wires an input of a topology to one of its outputs.
\<close>

datatype side = In | Out

type_synonym node = "string \<times> string \<times> side"

definition src_node :: "'o Port \<Rightarrow> node" where
  "src_node p = (p_uid p, p_name p, if p_obj p = None then In else Out)"

definition dst_node :: "'o Port \<Rightarrow> node" where
  "dst_node p = (p_uid p, p_name p, if p_obj p = None then Out else In)"

lemma node_sides:
  "snd (snd (src_node p)) = In \<longleftrightarrow> p_obj p = None" "snd (snd (src_node p)) = Out \<longleftrightarrow> p_obj p \<noteq> None"
  "snd (snd (dst_node p)) = Out \<longleftrightarrow> p_obj p = None" "snd (snd (dst_node p)) = In \<longleftrightarrow> p_obj p \<noteq> None"
  by (simp_all add: src_node_def dst_node_def)

definition flow_nodes :: "'o Flow \<Rightarrow> node \<times> node" where
  "flow_nodes f = (src_node (fl_src f), dst_node (fl_dst f))"

inductive_set hierarchy :: "Obj \<Rightarrow> Obj set" for whole where
  hierarchy_whole: "whole \<in> hierarchy whole"
| hierarchy_sub: "TopologyObj u flows \<in> hierarchy whole \<Longrightarrow> p \<in> flow_ports flows \<Longrightarrow> p_obj p = Some x \<Longrightarrow> x \<in> hierarchy whole"

definition wires :: "Obj \<Rightarrow> (node \<times> node) set" where
  "wires whole = {flow_nodes f | u flows f. TopologyObj u flows \<in> hierarchy whole \<and> f \<in> set flows}"

definition block_uids :: "Obj \<Rightarrow> string set" where
  "block_uids whole = {u. BlockObj u \<in> hierarchy whole}"

definition pass_wires :: "Obj \<Rightarrow> (node \<times> node) set" where
  "pass_wires whole = {(a, b) \<in> wires whole. snd (snd a) = In \<and> snd (snd b) = Out}"

definition plain_wires :: "Obj \<Rightarrow> (node \<times> node) set" where
  "plain_wires whole = wires whole - pass_wires whole"

text \<open>A uid names one object of the hierarchy, and a port carries the uid of the object it belongs to (as \<open>makePort\<close> sets it).\<close>

definition uids_ok :: "Obj \<Rightarrow> bool" where
  "uids_ok whole \<longleftrightarrow> (\<forall>x \<in> hierarchy whole. \<forall>y \<in> hierarchy whole. o_uid x = o_uid y \<longrightarrow> x = y) \<and>
     (\<forall>u flows p. TopologyObj u flows \<in> hierarchy whole \<longrightarrow> p \<in> flow_ports flows \<longrightarrow>
        p_uid p = (case p_obj p of None \<Rightarrow> u | Some x \<Rightarrow> o_uid x))"

text \<open>
  Pass-through flows stay apart: no two of them share a port of a topology, and no path leads from one to another.
\<close>

definition passes_apart :: "Obj \<Rightarrow> bool" where
  "passes_apart whole \<longleftrightarrow>
     (\<forall>(i, o1) \<in> pass_wires whole. \<forall>(j, o2) \<in> pass_wires whole. i = j \<longleftrightarrow> o1 = o2)
     \<and> pass_wires whole O (plain_wires whole)\<^sup>+ O pass_wires whole = {}"

text \<open>
  What \<open>completePassThroughFlows\<close> joins, in terms of the wiring: flat flows end at blocks or at pass-through flows. A flow between
  two pass-through ports (one pass-through flow, or two with a path between them) is joined with every flow from a block that
  ends at the same output, and every flow to a block that begins at the same input.
\<close>

definition pass_spans :: "Obj \<Rightarrow> (node \<times> node) set" where
  "pass_spans whole = pass_wires whole \<union> pass_wires whole O (plain_wires whole)\<^sup>+ O pass_wires whole"

definition completed_wires :: "Obj \<Rightarrow> (node \<times> node) set" where
  "completed_wires whole =
     (plain_wires whole)\<^sup>+ O pass_wires whole O (pass_spans whole)\<inverse> O pass_wires whole O (plain_wires whole)\<^sup>+"

section \<open>Lemmas\<close>

lemma flow_ports_I [intro]: "f \<in> set flows \<Longrightarrow> fl_src f \<in> flow_ports flows" "f \<in> set flows \<Longrightarrow> fl_dst f \<in> flow_ports flows"
  by (auto simp: flow_ports_def)

lemma wires_I: "TopologyObj u flows \<in> hierarchy whole \<Longrightarrow> f \<in> set flows \<Longrightarrow> flow_nodes f \<in> wires whole"
  unfolding wires_def by blast

lemma uids_okD:
  assumes "uids_ok whole"
  shows "x \<in> hierarchy whole \<Longrightarrow> y \<in> hierarchy whole \<Longrightarrow> o_uid x = o_uid y \<Longrightarrow> x = y"
    and "TopologyObj u flows \<in> hierarchy whole \<Longrightarrow> p \<in> flow_ports flows \<Longrightarrow> p_obj p = Some x \<Longrightarrow> p_uid p = o_uid x"
    and "TopologyObj u flows \<in> hierarchy whole \<Longrightarrow> p \<in> flow_ports flows \<Longrightarrow> p_obj p = None \<Longrightarrow> p_uid p = u"
  using assms unfolding uids_ok_def by (blast, fastforce, fastforce)

text \<open>The wires that arrive at an output of an object, and those that leave one of its inputs, are its own flows.\<close>

lemma wires_into_Out:
  assumes ok: "uids_ok whole" and x: "x \<in> hierarchy whole"
  shows "(a, o_uid x, n, Out) \<in> wires whole \<longleftrightarrow>
    (\<exists>u flows f. x = TopologyObj u flows \<and> f \<in> set flows \<and> p_obj (fl_dst f) = None \<and> p_name (fl_dst f) = n \<and> a = src_node (fl_src f))"
proof
  assume "(a, o_uid x, n, Out) \<in> wires whole"
  then obtain u flows f where f: "TopologyObj u flows \<in> hierarchy whole" "f \<in> set flows" "a = src_node (fl_src f)"
      "dst_node (fl_dst f) = (o_uid x, n, Out)"
    unfolding wires_def flow_nodes_def by auto
  then have d: "p_obj (fl_dst f) = None" "p_name (fl_dst f) = n" "p_uid (fl_dst f) = o_uid x"
    by (auto simp: dst_node_def split: if_splits)
  then have "o_uid x = u" using uids_okD(3) [OF ok f(1)] f(2) by fastforce
  then have "x = TopologyObj u flows" using uids_okD(1) [OF ok x f(1)] by simp
  with f d show "\<exists>u flows f. x = TopologyObj u flows \<and> f \<in> set flows \<and> p_obj (fl_dst f) = None \<and> p_name (fl_dst f) = n \<and> a = src_node (fl_src f)"
    by blast
next
  assume "\<exists>u flows f. x = TopologyObj u flows \<and> f \<in> set flows \<and> p_obj (fl_dst f) = None \<and> p_name (fl_dst f) = n \<and> a = src_node (fl_src f)"
  then obtain u flows f where f: "x = TopologyObj u flows" "f \<in> set flows" "p_obj (fl_dst f) = None" "p_name (fl_dst f) = n"
      "a = src_node (fl_src f)" by blast
  then have "flow_nodes f = (a, o_uid x, n, Out)"
    using uids_okD(3) [OF ok, of u flows "fl_dst f"] x by (auto simp: flow_nodes_def dst_node_def)
  then show "(a, o_uid x, n, Out) \<in> wires whole" using wires_I [of u flows whole f] x f by simp
qed

lemma wires_from_In:
  assumes ok: "uids_ok whole" and x: "x \<in> hierarchy whole"
  shows "((o_uid x, n, In), b) \<in> wires whole \<longleftrightarrow>
    (\<exists>u flows f. x = TopologyObj u flows \<and> f \<in> set flows \<and> p_obj (fl_src f) = None \<and> p_name (fl_src f) = n \<and> b = dst_node (fl_dst f))"
proof
  assume "((o_uid x, n, In), b) \<in> wires whole"
  then obtain u flows f where f: "TopologyObj u flows \<in> hierarchy whole" "f \<in> set flows" "b = dst_node (fl_dst f)"
      "src_node (fl_src f) = (o_uid x, n, In)"
    unfolding wires_def flow_nodes_def by auto
  then have d: "p_obj (fl_src f) = None" "p_name (fl_src f) = n" "p_uid (fl_src f) = o_uid x"
    by (auto simp: src_node_def split: if_splits)
  then have "o_uid x = u" using uids_okD(3) [OF ok f(1)] f(2) by fastforce
  then have "x = TopologyObj u flows" using uids_okD(1) [OF ok x f(1)] by simp
  with f d show "\<exists>u flows f. x = TopologyObj u flows \<and> f \<in> set flows \<and> p_obj (fl_src f) = None \<and> p_name (fl_src f) = n \<and> b = dst_node (fl_dst f)"
    by blast
next
  assume "\<exists>u flows f. x = TopologyObj u flows \<and> f \<in> set flows \<and> p_obj (fl_src f) = None \<and> p_name (fl_src f) = n \<and> b = dst_node (fl_dst f)"
  then obtain u flows f where f: "x = TopologyObj u flows" "f \<in> set flows" "p_obj (fl_src f) = None" "p_name (fl_src f) = n"
      "b = dst_node (fl_dst f)" by blast
  then have "flow_nodes f = ((o_uid x, n, In), b)"
    using uids_okD(3) [OF ok, of u flows "fl_src f"] x by (auto simp: flow_nodes_def src_node_def)
  then show "((o_uid x, n, In), b) \<in> wires whole" using wires_I [of u flows whole f] x f by simp
qed

lemma set_resolvePortsFromTopology:
  "set (resolvePortsFromTopology flows n True) =
     (\<Union>f \<in> {f \<in> set flows. p_obj (fl_dst f) = None \<and> p_name (fl_dst f) = n}.
        if p_obj (fl_src f) = None then {fl_src f} else set (resolvePorts (fl_src f) True))"
  "set (resolvePortsFromTopology flows n False) =
     (\<Union>f \<in> {f \<in> set flows. p_obj (fl_src f) = None \<and> p_name (fl_src f) = n}.
        if p_obj (fl_dst f) = None then {fl_dst f} else set (resolvePorts (fl_dst f) False))"
  by (induction flows) (auto simp del: resolvePorts.simps split: if_splits)

text \<open>The ends of the flat flows upstream and downstream of a node: ports of blocks, and ports of pass-through flows.\<close>

definition up_ends :: "Obj \<Rightarrow> node \<Rightarrow> node set" where
  "up_ends whole c = {a. fst a \<in> block_uids whole \<and> (a, c) \<in> (plain_wires whole)\<^sup>*}
     \<union> {i. (i, c) \<in> pass_wires whole O (plain_wires whole)\<^sup>*}"

definition down_ends :: "Obj \<Rightarrow> node \<Rightarrow> node set" where
  "down_ends whole c = {b. fst b \<in> block_uids whole \<and> (c, b) \<in> (plain_wires whole)\<^sup>*}
     \<union> {q. (c, q) \<in> (plain_wires whole)\<^sup>* O pass_wires whole}"

lemma up_ends_step:
  assumes "fst c \<notin> block_uids whole"
  shows "up_ends whole c = (\<Union>b \<in> {b. (b, c) \<in> plain_wires whole}. up_ends whole b) \<union> {i. (i, c) \<in> pass_wires whole}"
proof (intro set_eqI iffI)
  fix a assume "a \<in> up_ends whole c"
  then consider "fst a \<in> block_uids whole" "(a, c) \<in> (plain_wires whole)\<^sup>*"
    | q where "(a, q) \<in> pass_wires whole" "(q, c) \<in> (plain_wires whole)\<^sup>*"
    by (auto simp: up_ends_def)
  then show "a \<in> (\<Union>b \<in> {b. (b, c) \<in> plain_wires whole}. up_ends whole b) \<union> {i. (i, c) \<in> pass_wires whole}"
  proof cases
    case 1
    then obtain b where "(a, b) \<in> (plain_wires whole)\<^sup>*" "(b, c) \<in> plain_wires whole" using assms by (auto elim: rtranclE)
    moreover from this have "a \<in> up_ends whole b" using 1(1) by (simp add: up_ends_def)
    ultimately show ?thesis by blast
  next
    case (2 q)
    then consider "q = c" | b where "(q, b) \<in> (plain_wires whole)\<^sup>*" "(b, c) \<in> plain_wires whole" by (auto elim: rtranclE)
    then show ?thesis
    proof cases
      case (2 b)
      then have "a \<in> up_ends whole b" using \<open>(a, q) \<in> pass_wires whole\<close> by (auto simp: up_ends_def)
      then show ?thesis using 2(2) by blast
    qed (use 2(1) in simp)
  qed
next
  fix a assume "a \<in> (\<Union>b \<in> {b. (b, c) \<in> plain_wires whole}. up_ends whole b) \<union> {i. (i, c) \<in> pass_wires whole}"
  then show "a \<in> up_ends whole c" by (auto simp: up_ends_def intro: rtrancl.rtrancl_into_rtrancl)
qed

lemma down_ends_step:
  assumes "fst c \<notin> block_uids whole"
  shows "down_ends whole c = (\<Union>b \<in> {b. (c, b) \<in> plain_wires whole}. down_ends whole b) \<union> {q. (c, q) \<in> pass_wires whole}"
proof (intro set_eqI iffI)
  fix b assume "b \<in> down_ends whole c"
  then consider "fst b \<in> block_uids whole" "(c, b) \<in> (plain_wires whole)\<^sup>*"
    | i where "(c, i) \<in> (plain_wires whole)\<^sup>*" "(i, b) \<in> pass_wires whole"
    by (auto simp: down_ends_def)
  then show "b \<in> (\<Union>b \<in> {b. (c, b) \<in> plain_wires whole}. down_ends whole b) \<union> {q. (c, q) \<in> pass_wires whole}"
  proof cases
    case 1
    then obtain d where "(c, d) \<in> plain_wires whole" "(d, b) \<in> (plain_wires whole)\<^sup>*" using assms by (auto elim: converse_rtranclE)
    moreover from this have "b \<in> down_ends whole d" using 1(1) by (simp add: down_ends_def)
    ultimately show ?thesis by blast
  next
    case (2 i)
    then consider "i = c" | d where "(c, d) \<in> plain_wires whole" "(d, i) \<in> (plain_wires whole)\<^sup>*" by (auto elim: converse_rtranclE)
    then show ?thesis
    proof cases
      case (2 d)
      then have "b \<in> down_ends whole d" using \<open>(i, b) \<in> pass_wires whole\<close> by (auto simp: down_ends_def)
      then show ?thesis using 2(1) by blast
    qed (use 2(2) in simp)
  qed
next
  fix b assume "b \<in> (\<Union>b \<in> {b. (c, b) \<in> plain_wires whole}. down_ends whole b) \<union> {q. (c, q) \<in> pass_wires whole}"
  then show "b \<in> down_ends whole c" by (auto simp: down_ends_def intro: converse_rtrancl_into_rtrancl)
qed

lemma wires_split: "wires whole = plain_wires whole \<union> pass_wires whole"
  by (auto simp: plain_wires_def pass_wires_def)

lemma up_ends_block: "fst c \<in> block_uids whole \<Longrightarrow> (\<And>b. (b, c) \<notin> wires whole) \<Longrightarrow> up_ends whole c = {c}"
  unfolding up_ends_def wires_split by (auto elim: rtranclE)

lemma down_ends_block: "fst c \<in> block_uids whole \<Longrightarrow> (\<And>b. (c, b) \<notin> wires whole) \<Longrightarrow> down_ends whole c = {c}"
  unfolding down_ends_def wires_split by (auto elim: converse_rtranclE)

lemma topology_not_block: "uids_ok whole \<Longrightarrow> TopologyObj u flows \<in> hierarchy whole \<Longrightarrow> u \<notin> block_uids whole"
  unfolding block_uids_def using uids_okD(1) by fastforce

text \<open>Resolving a port finds the ends behind it: upstream for a source, downstream for a destination.\<close>

abbreviation (input) to_port :: "Obj Flow list \<Rightarrow> string \<Rightarrow> Obj Flow set" where
  "to_port flows n \<equiv> {f \<in> set flows. p_obj (fl_dst f) = None \<and> p_name (fl_dst f) = n}"

abbreviation (input) from_port :: "Obj Flow list \<Rightarrow> string \<Rightarrow> Obj Flow set" where
  "from_port flows n \<equiv> {f \<in> set flows. p_obj (fl_src f) = None \<and> p_name (fl_src f) = n}"

lemma resolvePorts_topology:
  assumes "p_obj p = Some (TopologyObj u flows)"
  shows "src_node ` set (resolvePorts p True) = (\<Union>f \<in> to_port flows (p_name p).
      if p_obj (fl_src f) = None then {src_node (fl_src f)} else src_node ` set (resolvePorts (fl_src f) True))"
    "dst_node ` set (resolvePorts p False) = (\<Union>f \<in> from_port flows (p_name p).
      if p_obj (fl_dst f) = None then {dst_node (fl_dst f)} else dst_node ` set (resolvePorts (fl_dst f) False))"
proof -
  have rp: "resolvePorts p b = resolvePortsFromTopology flows (p_name p) b" for b using assms by simp
  show "src_node ` set (resolvePorts p True) = (\<Union>f \<in> to_port flows (p_name p).
      if p_obj (fl_src f) = None then {src_node (fl_src f)} else src_node ` set (resolvePorts (fl_src f) True))"
    unfolding rp set_resolvePortsFromTopology image_UN by (intro SUP_cong) auto
  show "dst_node ` set (resolvePorts p False) = (\<Union>f \<in> from_port flows (p_name p).
      if p_obj (fl_dst f) = None then {dst_node (fl_dst f)} else dst_node ` set (resolvePorts (fl_dst f) False))"
    unfolding rp set_resolvePortsFromTopology image_UN by (intro SUP_cong) auto
qed

lemma topology_port_steps:
  assumes ok: "uids_ok whole" and x: "TopologyObj u flows \<in> hierarchy whole"
  shows "up_ends whole (u, n, Out) = (\<Union>f \<in> to_port flows n.
      if p_obj (fl_src f) = None then {src_node (fl_src f)} else up_ends whole (src_node (fl_src f)))"
    "down_ends whole (u, n, In) = (\<Union>f \<in> from_port flows n.
      if p_obj (fl_dst f) = None then {dst_node (fl_dst f)} else down_ends whole (dst_node (fl_dst f)))"
proof -
  note nb = topology_not_block [OF ok x]
  note side = node_sides(1,3) [where 'a = Obj]
  have into: "(b, u, n, Out) \<in> wires whole \<longleftrightarrow> (\<exists>f \<in> to_port flows n. b = src_node (fl_src f))" for b
    using wires_into_Out [OF ok x] by auto
  have "{b. (b, u, n, Out) \<in> plain_wires whole} = (\<lambda>f. src_node (fl_src f)) ` {f \<in> to_port flows n. p_obj (fl_src f) \<noteq> None}"
    "{b. (b, u, n, Out) \<in> pass_wires whole} = (\<lambda>f. src_node (fl_src f)) ` {f \<in> to_port flows n. p_obj (fl_src f) = None}"
    using into side(1) by (auto simp: plain_wires_def pass_wires_def)
  then have "up_ends whole (u, n, Out) = (\<Union>f \<in> {f \<in> to_port flows n. p_obj (fl_src f) \<noteq> None}. up_ends whole (src_node (fl_src f)))
      \<union> (\<lambda>f. src_node (fl_src f)) ` {f \<in> to_port flows n. p_obj (fl_src f) = None}"
    using up_ends_step [of "(u, n, Out)" whole] nb by simp
  then show "up_ends whole (u, n, Out) = (\<Union>f \<in> to_port flows n.
      if p_obj (fl_src f) = None then {src_node (fl_src f)} else up_ends whole (src_node (fl_src f)))" by auto
  have outof: "((u, n, In), b) \<in> wires whole \<longleftrightarrow> (\<exists>f \<in> from_port flows n. b = dst_node (fl_dst f))" for b
    using wires_from_In [OF ok x] by auto
  have "{b. ((u, n, In), b) \<in> plain_wires whole} = (\<lambda>f. dst_node (fl_dst f)) ` {f \<in> from_port flows n. p_obj (fl_dst f) \<noteq> None}"
    "{b. ((u, n, In), b) \<in> pass_wires whole} = (\<lambda>f. dst_node (fl_dst f)) ` {f \<in> from_port flows n. p_obj (fl_dst f) = None}"
    using outof side(2) by (auto simp: plain_wires_def pass_wires_def)
  then have "down_ends whole (u, n, In) = (\<Union>f \<in> {f \<in> from_port flows n. p_obj (fl_dst f) \<noteq> None}. down_ends whole (dst_node (fl_dst f)))
      \<union> (\<lambda>f. dst_node (fl_dst f)) ` {f \<in> from_port flows n. p_obj (fl_dst f) = None}"
    using down_ends_step [of "(u, n, In)" whole] nb by simp
  then show "down_ends whole (u, n, In) = (\<Union>f \<in> from_port flows n.
      if p_obj (fl_dst f) = None then {dst_node (fl_dst f)} else down_ends whole (dst_node (fl_dst f)))" by auto
qed

lemma resolvePorts_nodes:
  assumes ok: "uids_ok whole"
  shows "x \<in> hierarchy whole \<Longrightarrow> p_obj p = Some x \<Longrightarrow> p_uid p = o_uid x \<Longrightarrow>
      src_node ` set (resolvePorts p True) = up_ends whole (src_node p) \<and>
      dst_node ` set (resolvePorts p False) = down_ends whole (dst_node p)"
proof (induction x arbitrary: p rule: measure_induct_rule [where f = size])
  case (less x)
  have nodes: "src_node p = (o_uid x, p_name p, Out)" "dst_node p = (o_uid x, p_name p, In)"
    using less.prems by (simp_all add: src_node_def dst_node_def)
  show ?case
  proof (cases x)
    case (BlockObj u)
    then have "u \<in> block_uids whole" using less.prems by (simp add: block_uids_def)
    then have "up_ends whole (src_node p) = {src_node p}" "down_ends whole (dst_node p) = {dst_node p}"
      using nodes BlockObj wires_into_Out [OF ok less.prems(1)] wires_from_In [OF ok less.prems(1)] by (auto intro!: up_ends_block down_ends_block)
    then show ?thesis using less.prems BlockObj by simp
  next
    case (TopologyObj u flows)
    have hier: "TopologyObj u flows \<in> hierarchy whole" using less.prems TopologyObj by simp
    have pobj: "p_obj p = Some (TopologyObj u flows)" using less.prems TopologyObj by simp
    note rt = resolvePorts_topology [OF pobj]
    have sub: "src_node ` set (resolvePorts q True) = up_ends whole (src_node q) \<and> dst_node ` set (resolvePorts q False) = down_ends whole (dst_node q)"
      if q: "q \<in> flow_ports flows" "p_obj q \<noteq> None" for q
    proof -
      obtain y where y: "p_obj q = Some y" using q(2) by blast
      have "size y < size x" using size_port_obj [OF y] size_flow_port [OF q(1)] TopologyObj by simp
      from less.IH [OF this hierarchy_sub [OF hier q(1) y] y uids_okD(2) [OF ok hier q(1) y]] show ?thesis .
    qed
    have "src_node ` set (resolvePorts p True) = (\<Union>f \<in> to_port flows (p_name p).
        if p_obj (fl_src f) = None then {src_node (fl_src f)} else up_ends whole (src_node (fl_src f)))"
      unfolding rt(1) by (intro SUP_cong refl if_cong sub [THEN conjunct1]) blast+
    moreover have "dst_node ` set (resolvePorts p False) = (\<Union>f \<in> from_port flows (p_name p).
        if p_obj (fl_dst f) = None then {dst_node (fl_dst f)} else down_ends whole (dst_node (fl_dst f)))"
      unfolding rt(2) by (intro SUP_cong refl if_cong sub [THEN conjunct2]) blast+
    ultimately show ?thesis using topology_port_steps [OF ok hier] nodes TopologyObj by simp
  qed
qed

lemma put_obj_keys: "fst ` set (put_obj p m) = fst ` set m \<union> (if p_obj p = None then {} else {p_uid p})"
  unfolding put_obj_def by (simp split: option.splits)

lemma uidToObj_keys: "fst ` set (uidToObj flows) = p_uid ` {p \<in> flow_ports flows. p_obj p \<noteq> None}"
proof -
  have "fst ` set (fold (\<lambda>flow m. put_obj (fl_dst flow) (put_obj (fl_src flow) m)) flows m) =
      fst ` set m \<union> p_uid ` {p \<in> flow_ports flows. p_obj p \<noteq> None}" for m
    by (induction flows arbitrary: m) (auto simp: put_obj_keys)
  from this [of "[]"] show ?thesis by (simp add: uidToObj_def)
qed

text \<open>Where uids are consistent, the map from uids to objects has every object of the flows.\<close>

lemma uidToObj_objs:
  assumes ok: "uids_ok whole" and hier: "TopologyObj u flows \<in> hierarchy whole"
  shows "snd ` set (uidToObj flows) = {x. \<exists>p \<in> flow_ports flows. p_obj p = Some x}"
proof (intro set_eqI iffI)
  fix x assume "x \<in> {x. \<exists>p \<in> flow_ports flows. p_obj p = Some x}"
  then obtain p where p: "p \<in> flow_ports flows" "p_obj p = Some x" by blast
  then have "p_uid p \<in> fst ` set (uidToObj flows)" by (auto simp: uidToObj_keys)
  then obtain y where y: "(p_uid p, y) \<in> set (uidToObj flows)" by auto
  then obtain q where q: "q \<in> flow_ports flows" "p_uid q = p_uid p" "p_obj q = Some y" using uidToObj_values by metis
  have "o_uid y = o_uid x" using uids_okD(2) [OF ok hier] p q by metis
  then have "y = x" using uids_okD(1) [OF ok] hierarchy_sub [OF hier] p q by metis
  then show "x \<in> snd ` set (uidToObj flows)" using y by force
qed (auto dest!: uidToObj_values)

definition crossings :: "Obj \<Rightarrow> Obj Flow set" where
  "crossings x = {f. \<exists>u flows. TopologyObj u flows \<in> hierarchy x \<and> f \<in> set flows \<and> p_obj (fl_src f) \<noteq> None \<and> p_obj (fl_dst f) \<noteq> None}"

lemma hierarchy_trans: "y \<in> hierarchy x \<Longrightarrow> x \<in> hierarchy whole \<Longrightarrow> y \<in> hierarchy whole"
  by (induction rule: hierarchy.induct) (auto intro: hierarchy_sub)

lemma hierarchy_block [simp]: "hierarchy (BlockObj u) = {BlockObj u}"
proof -
  have "y \<in> hierarchy (BlockObj u) \<Longrightarrow> y = BlockObj u" for y by (induction rule: hierarchy.induct) auto
  then show ?thesis by (auto intro: hierarchy_whole)
qed

lemma hierarchy_topology:
  "hierarchy (TopologyObj u flows) = insert (TopologyObj u flows) (\<Union>x \<in> {x. \<exists>p \<in> flow_ports flows. p_obj p = Some x}. hierarchy x)"
proof (intro set_eqI iffI)
  fix y assume "y \<in> hierarchy (TopologyObj u flows)"
  then show "y \<in> insert (TopologyObj u flows) (\<Union>x \<in> {x. \<exists>p \<in> flow_ports flows. p_obj p = Some x}. hierarchy x)"
    by (induction rule: hierarchy.induct) (auto intro: hierarchy.intros)
qed (auto intro: hierarchy_whole hierarchy_trans [OF _ hierarchy_sub [OF hierarchy_whole]])

lemma crossings_block [simp]: "crossings (BlockObj u) = {}"
  by (simp add: crossings_def)

lemma crossings_topology:
  "crossings (TopologyObj u flows) = {f \<in> set flows. p_obj (fl_src f) \<noteq> None \<and> p_obj (fl_dst f) \<noteq> None}
     \<union> (\<Union>x \<in> {x. \<exists>p \<in> flow_ports flows. p_obj p = Some x}. crossings x)"
  unfolding crossings_def hierarchy_topology by blast

lemma internal_nodes [simp]: "src_node (getInternalBlock internal p) = src_node p" "dst_node (getInternalBlock internal p) = dst_node p"
  by (simp_all add: src_node_def dst_node_def getInternalBlock_def)

lemma internal_flow_nodes:
  "flow_nodes ` set (map (\<lambda>flow. Flow (getInternalBlock internal (fl_src flow)) (getInternalBlock internal (fl_dst flow))) fs) =
   flow_nodes ` set fs"
  by (simp add: flow_nodes_def image_image)

lemma pairs_flow_nodes:
  "flow_nodes ` set (concat (map (\<lambda>src. map (\<lambda>dst. Flow src dst) ds) ss)) = (src_node ` set ss) \<times> (dst_node ` set ds)"
  by (auto simp: flow_nodes_def image_iff)

lemma set_squashFlows:
  "flow_nodes ` set (squashFlows internal flows) =
      (\<Union>f \<in> {f \<in> set flows. p_obj (fl_src f) \<noteq> None \<and> p_obj (fl_dst f) \<noteq> None}.
         (src_node ` set (resolvePorts (fl_src f) True)) \<times> (dst_node ` set (resolvePorts (fl_dst f) False)))
      \<union> (\<Union>x \<in> snd ` set (uidToObj flows). flow_nodes ` set (resolveFlows internal x))
      \<union> flow_nodes ` {f \<in> set flows. p_obj (fl_src f) = None \<and> p_obj (fl_dst f) = None}"
proof -
  let ?A = "concat (map (\<lambda>flow.
       concat (map (\<lambda>src. map (\<lambda>dst. Flow src dst) (resolvePorts (fl_dst flow) False)) (resolvePorts (fl_src flow) True)))
       (filter (\<lambda>flow. p_obj (fl_src flow) \<noteq> None \<and> p_obj (fl_dst flow) \<noteq> None) flows))"
  let ?B = "concat (map (\<lambda>(uid, x). resolveFlows internal x) (uidToObj flows))"
  let ?C = "filter (\<lambda>flow. p_obj (fl_src flow) = None \<and> p_obj (fl_dst flow) = None) flows"
  have "flow_nodes ` set (squashFlows internal flows) = flow_nodes ` set ((?A @ ?B) @ ?C)"
    unfolding squashFlows.simps [of internal flows] Let_def by (rule internal_flow_nodes)
  also have "\<dots> = flow_nodes ` set ?A \<union> flow_nodes ` set ?B \<union> flow_nodes ` set ?C" by (simp only: set_append image_Un)
  also have "flow_nodes ` set ?A = (\<Union>f \<in> {f \<in> set flows. p_obj (fl_src f) \<noteq> None \<and> p_obj (fl_dst f) \<noteq> None}.
         (src_node ` set (resolvePorts (fl_src f) True)) \<times> (dst_node ` set (resolvePorts (fl_dst f) False)))"
    unfolding set_concat set_map set_filter image_UN image_image pairs_flow_nodes [symmetric] by simp
  also have "flow_nodes ` set ?B = (\<Union>x \<in> snd ` set (uidToObj flows). flow_nodes ` set (resolveFlows internal x))"
    by (simp add: set_concat image_UN image_image case_prod_unfold del: squashFlows.simps)
  finally show ?thesis by simp
qed

definition passing :: "Obj \<Rightarrow> Obj Flow set" where
  "passing x = {f. \<exists>u flows. TopologyObj u flows \<in> hierarchy x \<and> f \<in> set flows \<and> p_obj (fl_src f) = None \<and> p_obj (fl_dst f) = None}"

lemma passing_block [simp]: "passing (BlockObj u) = {}"
  by (simp add: passing_def)

lemma passing_topology:
  "passing (TopologyObj u flows) = {f \<in> set flows. p_obj (fl_src f) = None \<and> p_obj (fl_dst f) = None}
     \<union> (\<Union>x \<in> {x. \<exists>p \<in> flow_ports flows. p_obj p = Some x}. passing x)"
  unfolding passing_def hierarchy_topology by blast

lemma passing_wires: "flow_nodes ` passing whole = pass_wires whole"
proof (rule set_eqI)
  fix ab :: "node \<times> node"
  have sides: "snd (snd (fst (flow_nodes f))) = In \<and> snd (snd (snd (flow_nodes f))) = Out \<longleftrightarrow> p_obj (fl_src f) = None \<and> p_obj (fl_dst f) = None"
    for f :: "Obj Flow"
    by (simp add: flow_nodes_def node_sides)
  have "ab \<in> pass_wires whole \<longleftrightarrow> (\<exists>u flows f. TopologyObj u flows \<in> hierarchy whole \<and> f \<in> set flows \<and> ab = flow_nodes f
      \<and> snd (snd (fst (flow_nodes f))) = In \<and> snd (snd (snd (flow_nodes f))) = Out)"
    unfolding pass_wires_def wires_def by (auto simp: case_prod_unfold)
  then show "ab \<in> flow_nodes ` passing whole \<longleftrightarrow> ab \<in> pass_wires whole" unfolding sides passing_def by blast
qed

text \<open>The flat flows: from end to end over each crossing, and the pass-through flows themselves.\<close>

lemma resolveFlows_nodes:
  assumes ok: "uids_ok whole"
  shows "x \<in> hierarchy whole \<Longrightarrow> flow_nodes ` set (resolveFlows internal x) =
     (\<Union>f \<in> crossings x. up_ends whole (src_node (fl_src f)) \<times> down_ends whole (dst_node (fl_dst f))) \<union> flow_nodes ` passing x"
proof (induction x rule: measure_induct_rule [where f = size])
  case (less x)
  show ?case
  proof (cases x)
    case (TopologyObj u flows)
    have hier: "TopologyObj u flows \<in> hierarchy whole" using less.prems TopologyObj by simp
    let ?subs = "{x. \<exists>p \<in> flow_ports flows. p_obj p = Some x}"
    let ?ends = "\<lambda>f. up_ends whole (src_node (fl_src f)) \<times> down_ends whole (dst_node (fl_dst f))"
    have here: "src_node ` set (resolvePorts p True) = up_ends whole (src_node p)"
        "dst_node ` set (resolvePorts p False) = down_ends whole (dst_node p)"
      if "p \<in> flow_ports flows" "p_obj p \<noteq> None" for p
      using that resolvePorts_nodes [OF ok hierarchy_sub [OF hier] _ uids_okD(2) [OF ok hier]] by blast+
    have sub: "flow_nodes ` set (resolveFlows internal y) = (\<Union>f \<in> crossings y. ?ends f) \<union> flow_nodes ` passing y" if y: "y \<in> ?subs" for y
    proof -
      obtain p where p: "p \<in> flow_ports flows" "p_obj p = Some y" using y by blast
      show ?thesis using less.IH [OF _ hierarchy_sub [OF hier p]] size_port_obj [OF p(2)] size_flow_port [OF p(1)] TopologyObj by simp
    qed
    have subs: "(\<Union>y \<in> ?subs. flow_nodes ` set (resolveFlows internal y)) =
        (\<Union>y \<in> ?subs. \<Union>f \<in> crossings y. ?ends f) \<union> flow_nodes ` (\<Union>y \<in> ?subs. passing y)"
      using sub by (simp add: UN_Un_distrib image_UN)
    have own: "(\<Union>f \<in> {f \<in> set flows. p_obj (fl_src f) \<noteq> None \<and> p_obj (fl_dst f) \<noteq> None}.
         (src_node ` set (resolvePorts (fl_src f) True)) \<times> (dst_node ` set (resolvePorts (fl_dst f) False)))
      = (\<Union>f \<in> {f \<in> set flows. p_obj (fl_src f) \<noteq> None \<and> p_obj (fl_dst f) \<noteq> None}. ?ends f)"
      by (intro SUP_cong refl arg_cong2 [of _ _ _ _ "(\<times>)"] here) auto
    have "(\<Union>f \<in> crossings x. ?ends f) = (\<Union>f \<in> {f \<in> set flows. p_obj (fl_src f) \<noteq> None \<and> p_obj (fl_dst f) \<noteq> None}. ?ends f)
        \<union> (\<Union>y \<in> ?subs. \<Union>f \<in> crossings y. ?ends f)"
      by (simp only: TopologyObj crossings_topology UN_Un UN_UN_flatten)
    moreover have "flow_nodes ` passing x = flow_nodes ` {f \<in> set flows. p_obj (fl_src f) = None \<and> p_obj (fl_dst f) = None}
        \<union> flow_nodes ` (\<Union>y \<in> ?subs. passing y)"
      by (simp only: TopologyObj passing_topology image_Un)
    moreover have "flow_nodes ` set (resolveFlows internal x) =
        (\<Union>f \<in> {f \<in> set flows. p_obj (fl_src f) \<noteq> None \<and> p_obj (fl_dst f) \<noteq> None}. ?ends f)
        \<union> ((\<Union>y \<in> ?subs. \<Union>f \<in> crossings y. ?ends f) \<union> flow_nodes ` (\<Union>y \<in> ?subs. passing y))
        \<union> flow_nodes ` {f \<in> set flows. p_obj (fl_src f) = None \<and> p_obj (fl_dst f) = None}"
      unfolding TopologyObj resolveFlows.simps set_squashFlows own uidToObj_objs [OF ok hier] subs by (rule refl)
    ultimately show ?thesis by (simp only: Un_ac)
  qed simp
qed

text \<open>Sides: a plain path between blocks climbs out of topologies, crosses once, and descends.\<close>

lemma plain_wire_cases:
  assumes "(a, b) \<in> plain_wires whole"
  obtains "snd (snd a) = Out" "snd (snd b) = Out" | "snd (snd a) = In" "snd (snd b) = In"
    | f where "f \<in> crossings whole" "a = src_node (fl_src f)" "b = dst_node (fl_dst f)"
proof -
  obtain u flows f where f: "TopologyObj u flows \<in> hierarchy whole" "f \<in> set flows" "a = src_node (fl_src f)" "b = dst_node (fl_dst f)"
    using assms by (auto simp: plain_wires_def wires_def flow_nodes_def)
  have "\<not> (snd (snd a) = In \<and> snd (snd b) = Out)" using assms by (auto simp: plain_wires_def pass_wires_def)
  then have "p_obj (fl_src f) \<noteq> None \<or> p_obj (fl_dst f) \<noteq> None" using f by (simp add: node_sides)
  then consider "p_obj (fl_src f) \<noteq> None" "p_obj (fl_dst f) = None" | "p_obj (fl_src f) = None" "p_obj (fl_dst f) \<noteq> None"
    | "p_obj (fl_src f) \<noteq> None" "p_obj (fl_dst f) \<noteq> None" by blast
  then show thesis
    by cases (use f that in \<open>auto simp: src_node_def dst_node_def crossings_def\<close>)
qed

lemma plain_path_crosses:
  "(a, b) \<in> (plain_wires whole)\<^sup>* \<Longrightarrow> snd (snd a) = Out \<Longrightarrow> snd (snd b) = Out \<or>
     (\<exists>f \<in> crossings whole. (a, src_node (fl_src f)) \<in> (plain_wires whole)\<^sup>* \<and> (dst_node (fl_dst f), b) \<in> (plain_wires whole)\<^sup>*)"
proof (induction rule: rtrancl_induct)
  case (step b c)
  from step.hyps(2) show ?case
  proof (cases rule: plain_wire_cases)
    case (3 f)
    then show ?thesis using step.hyps(1) by auto
  qed (use step in \<open>auto intro: rtrancl.rtrancl_into_rtrancl\<close>)
qed simp

lemma crossing_nodes:
  assumes "f \<in> crossings whole"
  shows "(src_node (fl_src f), dst_node (fl_dst f)) \<in> plain_wires whole" "snd (snd (src_node (fl_src f))) = Out" "snd (snd (dst_node (fl_dst f))) = In"
  using assms wires_I unfolding crossings_def by (fastforce simp: flow_nodes_def plain_wires_def pass_wires_def src_node_def dst_node_def)+

text \<open>An output is reached over plain wires from outputs only, and an input leads over plain wires to inputs only.\<close>

lemma plain_path_sides:
  assumes "(a, b) \<in> (plain_wires whole)\<^sup>*"
  shows "snd (snd b) = Out \<Longrightarrow> snd (snd a) = Out" "snd (snd a) = In \<Longrightarrow> snd (snd b) = In"
proof -
  have step: "snd (snd c) = In \<Longrightarrow> snd (snd d) = In" if cd: "(c, d) \<in> plain_wires whole" for c d
    by (rule plain_wire_cases [OF cd]) (auto dest: crossing_nodes(2))
  show "snd (snd a) = In \<Longrightarrow> snd (snd b) = In" using assms by (induction rule: rtrancl_induct) (auto dest: step)
  then show "snd (snd b) = Out \<Longrightarrow> snd (snd a) = Out" by (cases "snd (snd a)") auto
qed

lemma block_wire_sides:
  assumes ok: "uids_ok whole" and ab: "(a, b) \<in> wires whole"
  shows "fst a \<in> block_uids whole \<longrightarrow> snd (snd a) = Out" "fst b \<in> block_uids whole \<longrightarrow> snd (snd b) = In"
    "snd (snd a) = In \<longrightarrow> fst a \<notin> block_uids whole" "snd (snd b) = Out \<longrightarrow> fst b \<notin> block_uids whole"
proof -
  obtain u flows f where f: "TopologyObj u flows \<in> hierarchy whole" "f \<in> set flows" "a = src_node (fl_src f)" "b = dst_node (fl_dst f)"
    using ab by (auto simp: wires_def flow_nodes_def)
  have ports: "fl_src f \<in> flow_ports flows" "fl_dst f \<in> flow_ports flows" using f(2) by blast+
  have "fst a = p_uid (fl_src f)" "fst b = p_uid (fl_dst f)" using f by (simp_all add: src_node_def dst_node_def)
  then have "p_obj (fl_src f) = None \<Longrightarrow> fst a \<notin> block_uids whole" "p_obj (fl_dst f) = None \<Longrightarrow> fst b \<notin> block_uids whole"
    using uids_okD(3) [OF ok f(1) ports(1)] uids_okD(3) [OF ok f(1) ports(2)] topology_not_block [OF ok f(1)] by simp_all
  then show "fst a \<in> block_uids whole \<longrightarrow> snd (snd a) = Out" "fst b \<in> block_uids whole \<longrightarrow> snd (snd b) = In"
    "snd (snd a) = In \<longrightarrow> fst a \<notin> block_uids whole" "snd (snd b) = Out \<longrightarrow> fst b \<notin> block_uids whole"
    using node_sides [of "fl_src f"] node_sides [of "fl_dst f"] f(3,4) by auto
qed

lemma pass_sides: "(i, q) \<in> pass_wires whole \<Longrightarrow> snd (snd i) = In \<and> snd (snd q) = Out"
  by (auto simp: pass_wires_def)

lemma up_ends_sides:
  assumes "snd (snd c) = Out"
  shows "a \<in> up_ends whole c \<and> snd (snd a) = Out \<longleftrightarrow> fst a \<in> block_uids whole \<and> (a, c) \<in> (plain_wires whole)\<^sup>*"
    "a \<in> up_ends whole c \<and> snd (snd a) = In \<longleftrightarrow> (a, c) \<in> pass_wires whole O (plain_wires whole)\<^sup>*"
  using assms plain_path_sides(1) [of a c whole] by (auto simp: up_ends_def dest: pass_sides)

lemma down_ends_sides:
  assumes "snd (snd c) = In"
  shows "b \<in> down_ends whole c \<and> snd (snd b) = In \<longleftrightarrow> fst b \<in> block_uids whole \<and> (c, b) \<in> (plain_wires whole)\<^sup>*"
    "b \<in> down_ends whole c \<and> snd (snd b) = Out \<longleftrightarrow> (c, b) \<in> (plain_wires whole)\<^sup>* O pass_wires whole"
  using assms plain_path_sides(2) [of c b whole] by (auto simp: down_ends_def dest: pass_sides)

lemma crossing_paths:
  assumes "snd (snd a) = Out" "snd (snd b) = In"
  shows "(a, b) \<in> (plain_wires whole)\<^sup>+ \<longleftrightarrow>
    (\<exists>f \<in> crossings whole. (a, src_node (fl_src f)) \<in> (plain_wires whole)\<^sup>* \<and> (dst_node (fl_dst f), b) \<in> (plain_wires whole)\<^sup>*)"
proof
  assume "(a, b) \<in> (plain_wires whole)\<^sup>+"
  then show "\<exists>f \<in> crossings whole. (a, src_node (fl_src f)) \<in> (plain_wires whole)\<^sup>* \<and> (dst_node (fl_dst f), b) \<in> (plain_wires whole)\<^sup>*"
    using plain_path_crosses [of a b whole] assms by (auto dest: trancl_into_rtrancl)
next
  assume "\<exists>f \<in> crossings whole. (a, src_node (fl_src f)) \<in> (plain_wires whole)\<^sup>* \<and> (dst_node (fl_dst f), b) \<in> (plain_wires whole)\<^sup>*"
  then show "(a, b) \<in> (plain_wires whole)\<^sup>+"
    using crossing_nodes(1) by (meson rtrancl_into_trancl1 trancl_rtrancl_trancl)
qed

text \<open>The flat flows by the kinds of their ends: the direct ones, the heads and tails of pass-through flows, and the spans.\<close>

definition flat_nodes :: "Obj \<Rightarrow> (node \<times> node) set" where
  "flat_nodes whole =
     (\<Union>f \<in> crossings whole. up_ends whole (src_node (fl_src f)) \<times> down_ends whole (dst_node (fl_dst f))) \<union> pass_wires whole"

lemma flat_nodes_outer:
  assumes "snd (snd a) = Out \<or> snd (snd b) = In"
  shows "(a, b) \<in> flat_nodes whole \<longleftrightarrow>
    (\<exists>f \<in> crossings whole. a \<in> up_ends whole (src_node (fl_src f)) \<and> b \<in> down_ends whole (dst_node (fl_dst f)))"
  using assms by (auto simp: flat_nodes_def dest: pass_sides)

lemma ends_of_crossing:
  assumes "f \<in> crossings whole"
  shows "snd (snd a) = Out \<Longrightarrow> a \<in> up_ends whole (src_node (fl_src f)) \<longleftrightarrow> fst a \<in> block_uids whole \<and> (a, src_node (fl_src f)) \<in> (plain_wires whole)\<^sup>*"
    "snd (snd a) = In \<Longrightarrow> a \<in> up_ends whole (src_node (fl_src f)) \<longleftrightarrow> (a, src_node (fl_src f)) \<in> pass_wires whole O (plain_wires whole)\<^sup>*"
    "snd (snd b) = In \<Longrightarrow> b \<in> down_ends whole (dst_node (fl_dst f)) \<longleftrightarrow> fst b \<in> block_uids whole \<and> (dst_node (fl_dst f), b) \<in> (plain_wires whole)\<^sup>*"
    "snd (snd b) = Out \<Longrightarrow> b \<in> down_ends whole (dst_node (fl_dst f)) \<longleftrightarrow> (dst_node (fl_dst f), b) \<in> (plain_wires whole)\<^sup>* O pass_wires whole"
  using up_ends_sides [OF crossing_nodes(2) [OF assms], of a] down_ends_sides [OF crossing_nodes(3) [OF assms], of b] by blast+

lemma path_sides:
  assumes ok: "uids_ok whole"
  shows "(a, b) \<in> (plain_wires whole)\<^sup>+ \<Longrightarrow> fst a \<in> block_uids whole \<Longrightarrow> snd (snd a) = Out"
    "(a, b) \<in> (plain_wires whole)\<^sup>+ \<Longrightarrow> fst b \<in> block_uids whole \<Longrightarrow> snd (snd b) = In"
proof -
  have plain: "(c, d) \<in> plain_wires whole \<Longrightarrow> (c, d) \<in> wires whole" for c d by (simp add: plain_wires_def)
  show "snd (snd a) = Out" if p: "(a, b) \<in> (plain_wires whole)\<^sup>+" "fst a \<in> block_uids whole"
  proof -
    obtain c where "(a, c) \<in> plain_wires whole" using tranclD [OF p(1)] by blast
    from block_wire_sides(1) [OF ok plain [OF this]] p(2) show ?thesis by simp
  qed
  show "snd (snd b) = In" if p: "(a, b) \<in> (plain_wires whole)\<^sup>+" "fst b \<in> block_uids whole"
  proof -
    obtain c where "(c, b) \<in> plain_wires whole" using tranclD2 [OF p(1)] by blast
    from block_wire_sides(2) [OF ok plain [OF this]] p(2) show ?thesis by simp
  qed
qed

lemma flat_direct:
  assumes ok: "uids_ok whole"
  shows "(a, b) \<in> flat_nodes whole \<and> snd (snd a) = Out \<and> snd (snd b) = In \<longleftrightarrow>
      fst a \<in> block_uids whole \<and> fst b \<in> block_uids whole \<and> (a, b) \<in> (plain_wires whole)\<^sup>+" (is "?l \<longleftrightarrow> ?r")
proof (cases "snd (snd a) = Out \<and> snd (snd b) = In")
  case True
  then have sides: "snd (snd a) = Out" "snd (snd b) = In" by simp_all
  show ?thesis
    unfolding crossing_paths [OF sides] flat_nodes_outer [OF disjI1 [OF sides(1)]]
    using sides by (auto simp: ends_of_crossing)
next
  case False
  then show ?thesis using path_sides [OF ok, of a b] by blast
qed

lemma flat_head:
  assumes ok: "uids_ok whole"
  shows "(a, b) \<in> flat_nodes whole \<and> snd (snd a) = Out \<and> snd (snd b) = Out \<longleftrightarrow>
      fst a \<in> block_uids whole \<and> (a, b) \<in> (plain_wires whole)\<^sup>+ O pass_wires whole" (is "?l \<longleftrightarrow> ?r")
proof (cases "snd (snd a) = Out \<and> snd (snd b) = Out")
  case True
  then have sides: "snd (snd a) = Out" "snd (snd b) = Out" by simp_all
  have "?l \<longleftrightarrow> (\<exists>f \<in> crossings whole. fst a \<in> block_uids whole \<and> (a, src_node (fl_src f)) \<in> (plain_wires whole)\<^sup>*
      \<and> (dst_node (fl_dst f), b) \<in> (plain_wires whole)\<^sup>* O pass_wires whole)"
    unfolding flat_nodes_outer [OF disjI1 [OF sides(1)]]
    using sides by (simp add: ends_of_crossing(1,4) cong: bex_cong conj_cong)
  also have "\<dots> \<longleftrightarrow> (\<exists>i. snd (snd i) = In \<and> fst a \<in> block_uids whole \<and> (\<exists>f \<in> crossings whole. (a, src_node (fl_src f)) \<in> (plain_wires whole)\<^sup>*
      \<and> (dst_node (fl_dst f), i) \<in> (plain_wires whole)\<^sup>*) \<and> (i, b) \<in> pass_wires whole)"
    using pass_sides [of _ b whole] by blast
  also have "\<dots> \<longleftrightarrow> (\<exists>i. fst a \<in> block_uids whole \<and> (a, i) \<in> (plain_wires whole)\<^sup>+ \<and> (i, b) \<in> pass_wires whole)"
    using crossing_paths [OF sides(1), of _ whole] pass_sides [of _ b whole] by metis
  finally show ?thesis by blast
next
  case False
  have "snd (snd a) = Out \<and> snd (snd b) = Out" if r: ?r
  proof -
    obtain i where i: "(a, i) \<in> (plain_wires whole)\<^sup>+" "(i, b) \<in> pass_wires whole" using r by blast
    then show ?thesis using path_sides(1) [OF ok i(1)] pass_sides [OF i(2)] r by simp
  qed
  then show ?thesis using False by blast
qed

lemma flat_tail:
  assumes ok: "uids_ok whole"
  shows "(a, b) \<in> flat_nodes whole \<and> snd (snd a) = In \<and> snd (snd b) = In \<longleftrightarrow>
      fst b \<in> block_uids whole \<and> (a, b) \<in> pass_wires whole O (plain_wires whole)\<^sup>+" (is "?l \<longleftrightarrow> ?r")
proof (cases "snd (snd a) = In \<and> snd (snd b) = In")
  case True
  then have sides: "snd (snd a) = In" "snd (snd b) = In" by simp_all
  have "?l \<longleftrightarrow> (\<exists>f \<in> crossings whole. fst b \<in> block_uids whole \<and> (a, src_node (fl_src f)) \<in> pass_wires whole O (plain_wires whole)\<^sup>*
      \<and> (dst_node (fl_dst f), b) \<in> (plain_wires whole)\<^sup>*)"
    unfolding flat_nodes_outer [OF disjI2 [OF sides(2)]]
    using sides by (simp add: ends_of_crossing(2,3) cong: bex_cong conj_cong) blast
  also have "\<dots> \<longleftrightarrow> (\<exists>q. snd (snd q) = Out \<and> fst b \<in> block_uids whole \<and> (a, q) \<in> pass_wires whole \<and>
      (\<exists>f \<in> crossings whole. (q, src_node (fl_src f)) \<in> (plain_wires whole)\<^sup>* \<and> (dst_node (fl_dst f), b) \<in> (plain_wires whole)\<^sup>*))"
    using pass_sides [of a _ whole] by blast
  also have "\<dots> \<longleftrightarrow> (\<exists>q. fst b \<in> block_uids whole \<and> (a, q) \<in> pass_wires whole \<and> (q, b) \<in> (plain_wires whole)\<^sup>+)"
    using crossing_paths [OF _ sides(2), of _ whole] pass_sides [of a _ whole] by metis
  finally show ?thesis by blast
next
  case False
  have "snd (snd a) = In \<and> snd (snd b) = In" if r: ?r
  proof -
    obtain q where q: "(a, q) \<in> pass_wires whole" "(q, b) \<in> (plain_wires whole)\<^sup>+" using r by blast
    then show ?thesis using path_sides(2) [OF ok q(2)] pass_sides [OF q(1)] r by simp
  qed
  then show ?thesis using False by blast
qed

lemma flat_span: "(a, b) \<in> flat_nodes whole \<and> snd (snd a) = In \<and> snd (snd b) = Out \<longleftrightarrow> (a, b) \<in> pass_spans whole" (is "?l \<longleftrightarrow> ?r")
proof (cases "snd (snd a) = In \<and> snd (snd b) = Out")
  case True
  then have sides: "snd (snd a) = In" "snd (snd b) = Out" by simp_all
  have "?l \<longleftrightarrow> (a, b) \<in> pass_wires whole \<or> (\<exists>f \<in> crossings whole. (a, src_node (fl_src f)) \<in> pass_wires whole O (plain_wires whole)\<^sup>*
      \<and> (dst_node (fl_dst f), b) \<in> (plain_wires whole)\<^sup>* O pass_wires whole)"
    unfolding flat_nodes_def using sides ends_of_crossing by auto
  also have "\<dots> \<longleftrightarrow> (a, b) \<in> pass_wires whole \<or> (\<exists>q i. snd (snd q) = Out \<and> snd (snd i) = In \<and> (a, q) \<in> pass_wires whole \<and>
      (\<exists>f \<in> crossings whole. (q, src_node (fl_src f)) \<in> (plain_wires whole)\<^sup>* \<and> (dst_node (fl_dst f), i) \<in> (plain_wires whole)\<^sup>*)
      \<and> (i, b) \<in> pass_wires whole)"
    using pass_sides [of a _ whole] pass_sides [of _ b whole] by blast
  also have "\<dots> \<longleftrightarrow> (a, b) \<in> pass_wires whole \<or> (\<exists>q i. (a, q) \<in> pass_wires whole \<and> (q, i) \<in> (plain_wires whole)\<^sup>+ \<and> (i, b) \<in> pass_wires whole)"
    using crossing_paths [of _ _ whole] pass_sides [of a _ whole] pass_sides [of _ b whole] by metis
  finally show ?thesis unfolding pass_spans_def by blast
next
  case False
  then show ?thesis unfolding pass_spans_def by (auto dest: pass_sides)
qed

text \<open>\<open>completePassThroughFlows\<close> on nodes: the objects of the ends are null on the inner side of a topology, and \<open>==\<close> compares uid and name.\<close>

definition same_port :: "node \<Rightarrow> node \<Rightarrow> bool" where
  "same_port a b \<longleftrightarrow> fst a = fst b \<and> fst (snd a) = fst (snd b)"

definition joins :: "'o Flow list \<Rightarrow> 'o Flow \<Rightarrow> 'o Flow \<Rightarrow> 'o Flow \<Rightarrow> bool" where
  "joins fs f t h \<longleftrightarrow> f \<in> set fs \<and> t \<in> set fs \<and> h \<in> set fs \<and> p_obj (fl_src f) = None \<and> p_obj (fl_dst f) = None
     \<and> p_obj (fl_dst t) \<noteq> None \<and> p_obj (fl_src h) \<noteq> None \<and> Port_eq (fl_src f) (fl_src t) \<and> Port_eq (fl_dst f) (fl_dst h)"

lemma completed_flows:
  "g \<in> set (completePassThroughFlows fs) \<longleftrightarrow>
     (\<exists>f t h. joins fs f t h \<and> g = Flow (fl_src h) (fl_dst t)) \<or> g \<in> set fs \<and> p_obj (fl_src g) \<noteq> None \<and> p_obj (fl_dst g) \<noteq> None"
proof -
  have skip: "set (concat (map (\<lambda>f. if C f then [] else e f) fs)) = (\<Union>f \<in> {f \<in> set fs. \<not> C f}. set (e f))" for C and e :: "'a Flow \<Rightarrow> 'a Flow list"
    by auto
  have single: "set (if c then [x] else []) = {y. c \<and> y = x}" for c and x :: "'a Flow" by simp
  let ?new = "\<Union>f \<in> {f \<in> set fs. \<not> (p_obj (fl_src f) \<noteq> None \<or> p_obj (fl_dst f) \<noteq> None)}. \<Union>t \<in> {t \<in> set fs. p_obj (fl_dst t) \<noteq> None}.
      \<Union>h \<in> {h \<in> set fs. p_obj (fl_src h) \<noteq> None}. {y. (Port_eq (fl_src f) (fl_src t) \<and> Port_eq (fl_dst f) (fl_dst h)) \<and> y = Flow (fl_src h) (fl_dst t)}"
  have "g \<in> ?new \<longleftrightarrow> (\<exists>f t h. joins fs f t h \<and> g = Flow (fl_src h) (fl_dst t))"
  proof
    assume "g \<in> ?new"
    then obtain f t h where m: "f \<in> {f \<in> set fs. \<not> (p_obj (fl_src f) \<noteq> None \<or> p_obj (fl_dst f) \<noteq> None)}" "t \<in> {t \<in> set fs. p_obj (fl_dst t) \<noteq> None}"
        "h \<in> {h \<in> set fs. p_obj (fl_src h) \<noteq> None}"
        "g \<in> {y. (Port_eq (fl_src f) (fl_src t) \<and> Port_eq (fl_dst f) (fl_dst h)) \<and> y = Flow (fl_src h) (fl_dst t)}"
      by (elim UN_E) (rule that)
    then have "joins fs f t h \<and> g = Flow (fl_src h) (fl_dst t)" by (simp add: joins_def)
    then show "\<exists>f t h. joins fs f t h \<and> g = Flow (fl_src h) (fl_dst t)" by blast
  next
    assume "\<exists>f t h. joins fs f t h \<and> g = Flow (fl_src h) (fl_dst t)"
    then obtain f t h where j: "joins fs f t h" "g = Flow (fl_src h) (fl_dst t)" by blast
    show "g \<in> ?new"
      by (rule UN_I [of f], use j in \<open>simp add: joins_def\<close>, rule UN_I [of t], use j in \<open>simp add: joins_def\<close>, rule UN_I [of h])
        (use j in \<open>simp_all add: joins_def\<close>)
  qed
  then show ?thesis unfolding completePassThroughFlows_def set_append skip single set_filter by blast
qed

lemma completed_nodes:
  fixes fs :: "'o Flow list"
  defines "F \<equiv> flow_nodes ` set fs"
  shows "(a, b) \<in> flow_nodes ` set (completePassThroughFlows fs) \<longleftrightarrow>
    (\<exists>i j q r. (i, q) \<in> F \<and> snd (snd i) = In \<and> snd (snd q) = Out \<and> (j, b) \<in> F \<and> snd (snd b) = In \<and> (a, r) \<in> F \<and> snd (snd a) = Out
       \<and> same_port i j \<and> same_port q r)
    \<or> (a, b) \<in> F \<and> snd (snd a) = Out \<and> snd (snd b) = In"
proof -
  note side = node_sides [where 'a = 'o]
  have eq: "Port_eq p q \<longleftrightarrow> same_port (src_node p) (src_node q)" "Port_eq p q \<longleftrightarrow> same_port (dst_node p) (dst_node q)" for p q :: "'o Port"
    by (simp_all add: Port_eq_def same_port_def src_node_def dst_node_def)
  have joins: "joins fs f t h \<longleftrightarrow> f \<in> set fs \<and> t \<in> set fs \<and> h \<in> set fs \<and> snd (snd (src_node (fl_src f))) = In \<and> snd (snd (dst_node (fl_dst f))) = Out
      \<and> snd (snd (dst_node (fl_dst t))) = In \<and> snd (snd (src_node (fl_src h))) = Out
      \<and> same_port (src_node (fl_src f)) (src_node (fl_src t)) \<and> same_port (dst_node (fl_dst f)) (dst_node (fl_dst h))" for f t h
    by (simp add: joins_def side eq(1) [symmetric] eq(2) [symmetric])
  have F: "(c, d) \<in> F \<longleftrightarrow> (\<exists>f. f \<in> set fs \<and> c = src_node (fl_src f) \<and> d = dst_node (fl_dst f))" for c d
    unfolding F_def flow_nodes_def by blast
  have nodes: "(a, b) \<in> flow_nodes ` set gs \<longleftrightarrow> (\<exists>g. g \<in> set gs \<and> a = src_node (fl_src g) \<and> b = dst_node (fl_dst g))" for gs :: "'o Flow list"
    unfolding flow_nodes_def by blast
  have objs: "p_obj (fl_src g) \<noteq> None \<longleftrightarrow> snd (snd (src_node (fl_src g))) = Out" "p_obj (fl_dst g) \<noteq> None \<longleftrightarrow> snd (snd (dst_node (fl_dst g))) = In"
    for g :: "'o Flow" by (simp_all add: side)
  have new: "(\<exists>g. (\<exists>f t h. joins fs f t h \<and> g = Flow (fl_src h) (fl_dst t)) \<and> a = src_node (fl_src g) \<and> b = dst_node (fl_dst g)) \<longleftrightarrow>
      (\<exists>f t h. joins fs f t h \<and> a = src_node (fl_src h) \<and> b = dst_node (fl_dst t))"
    by (metis Flow.sel)
  have joined: "(\<exists>f t h. joins fs f t h \<and> a = src_node (fl_src h) \<and> b = dst_node (fl_dst t)) \<longleftrightarrow>
      (\<exists>i j q r. (i, q) \<in> F \<and> snd (snd i) = In \<and> snd (snd q) = Out \<and> (j, b) \<in> F \<and> snd (snd b) = In \<and> (a, r) \<in> F \<and> snd (snd a) = Out
       \<and> same_port i j \<and> same_port q r)"
    unfolding F joins by blast
  have "(\<exists>g. (g \<in> set fs \<and> p_obj (fl_src g) \<noteq> None \<and> p_obj (fl_dst g) \<noteq> None) \<and> a = src_node (fl_src g) \<and> b = dst_node (fl_dst g)) \<longleftrightarrow>
      (a, b) \<in> F \<and> snd (snd a) = Out \<and> snd (snd b) = In"
    unfolding F objs by blast
  then show ?thesis unfolding nodes completed_flows conj_disj_distribR ex_disj_distrib new joined by simp
qed

lemma node_eq: "same_port a b \<Longrightarrow> snd (snd a) = snd (snd b) \<Longrightarrow> a = b"
  by (simp add: same_port_def prod_eq_iff)

text \<open>A port of a pass-through flow is a port of a topology, so among the flat flows only ends at the same port compare equal to it.\<close>

lemma flat_ends_at_span:
  assumes ok: "uids_ok whole" and span: "(i, q) \<in> flat_nodes whole" "snd (snd i) = In" "snd (snd q) = Out"
  shows "(j, b) \<in> flat_nodes whole \<Longrightarrow> snd (snd b) = In \<Longrightarrow> same_port i j \<Longrightarrow> j = i"
    "(a, r) \<in> flat_nodes whole \<Longrightarrow> snd (snd a) = Out \<Longrightarrow> same_port q r \<Longrightarrow> r = q"
proof -
  have "(i, q) \<in> pass_spans whole" using flat_span span by blast
  then obtain q1 i1 where "(i, q1) \<in> pass_wires whole" "(i1, q) \<in> pass_wires whole" unfolding pass_spans_def by blast
  then have w: "(i, q1) \<in> wires whole" "(i1, q) \<in> wires whole" by (simp_all add: pass_wires_def)
  have i: "fst i \<notin> block_uids whole" "fst q \<notin> block_uids whole"
    using block_wire_sides(3) [OF ok w(1)] block_wire_sides(4) [OF ok w(2)] span(2,3) by simp_all
  show "j = i" if "(j, b) \<in> flat_nodes whole" "snd (snd b) = In" "same_port i j"
  proof (cases "snd (snd j)")
    case In
    then show ?thesis using node_eq [OF that(3)] span(2) by simp
  next
    case Out
    then have "fst j \<in> block_uids whole" using flat_direct [OF ok, of j b] that by blast
    then show ?thesis using i that(3) by (simp add: same_port_def)
  qed
  show "r = q" if "(a, r) \<in> flat_nodes whole" "snd (snd a) = Out" "same_port q r"
  proof (cases "snd (snd r)")
    case Out
    then show ?thesis using node_eq [OF that(3)] span(3) by simp
  next
    case In
    then have "fst r \<in> block_uids whole" using flat_direct [OF ok, of a r] that by blast
    then show ?thesis using i that(3) by (simp add: same_port_def)
  qed
qed

text \<open>Where pass-through flows stay apart, a path of wires between blocks uses at most one of them, and the code finds it.\<close>

lemma path_with_one_pass:
  assumes "Q O P\<^sup>+ O Q = {}" "Q O Q = {}" "(a, b) \<in> (P \<union> Q)\<^sup>*"
  shows "(a, b) \<in> P\<^sup>* \<union> P\<^sup>* O Q O P\<^sup>*"
  using assms(3)
proof (induction rule: rtrancl_induct)
  case (step b c)
  show ?case
  proof (cases "(b, c) \<in> P")
    case True
    then show ?thesis using step.IH by (auto intro: rtrancl.rtrancl_into_rtrancl)
  next
    case False
    then have bc: "(b, c) \<in> Q" using step.hyps(2) by simp
    have "(a, b) \<in> P\<^sup>*"
    proof (rule ccontr)
      assume "(a, b) \<notin> P\<^sup>*"
      then obtain i q where "(i, q) \<in> Q" "(q, b) \<in> P\<^sup>*" using step.IH by blast
      then have "(i, c) \<in> Q O P\<^sup>+ O Q \<union> Q O Q" using bc by (auto simp: rtrancl_eq_or_trancl)
      then show False using assms(1,2) by blast
    qed
    then show ?thesis using bc by blast
  qed
qed simp

lemma apart_paths:
  assumes apart: "passes_apart whole" and sides: "snd (snd a) = Out" "snd (snd b) = In"
  shows "(a, b) \<in> (wires whole)\<^sup>+ \<longleftrightarrow> (a, b) \<in> (plain_wires whole)\<^sup>+ \<union> completed_wires whole"
proof
  let ?P = "plain_wires whole" and ?Q = "pass_wires whole"
  have single: "(i, q) \<in> ?Q \<Longrightarrow> (j, r) \<in> ?Q \<Longrightarrow> i = j \<longleftrightarrow> q = r" for i j q r using apart unfolding passes_apart_def by blast
  have spans: "pass_spans whole = ?Q" using apart by (simp add: pass_spans_def passes_apart_def)
  {
    assume "(a, b) \<in> (wires whole)\<^sup>+"
    moreover have "?Q O ?Q = {}" by (auto dest!: pass_sides)
    ultimately have "(a, b) \<in> ?P\<^sup>* \<union> ?P\<^sup>* O ?Q O ?P\<^sup>*"
      using path_with_one_pass [of ?Q ?P a b] apart by (auto simp: passes_apart_def wires_split dest: trancl_into_rtrancl)
    then consider "(a, b) \<in> ?P\<^sup>*" | i q where "(a, i) \<in> ?P\<^sup>*" "(i, q) \<in> ?Q" "(q, b) \<in> ?P\<^sup>*" by blast
    then show "(a, b) \<in> ?P\<^sup>+ \<union> completed_wires whole"
    proof cases
      case 1
      then show ?thesis using sides by (auto simp: rtrancl_eq_or_trancl)
    next
      case (2 i q)
      then have "a \<noteq> i" "q \<noteq> b" using sides pass_sides [OF 2(2)] by auto
      then have "(a, i) \<in> ?P\<^sup>+" "(q, b) \<in> ?P\<^sup>+" using 2 by (auto simp: rtrancl_eq_or_trancl)
      then show ?thesis using 2(2) unfolding completed_wires_def spans by blast
    qed
  }
  assume "(a, b) \<in> ?P\<^sup>+ \<union> completed_wires whole"
  then show "(a, b) \<in> (wires whole)\<^sup>+"
  proof
    assume "(a, b) \<in> completed_wires whole"
    then obtain i q j r where c: "(a, j) \<in> ?P\<^sup>+" "(j, q) \<in> ?Q" "(i, q) \<in> ?Q" "(i, r) \<in> ?Q" "(r, b) \<in> ?P\<^sup>+"
      unfolding completed_wires_def spans by blast
    then have "r = q" using single [OF c(3,4)] by simp
    then have "(a, j) \<in> (wires whole)\<^sup>+" "(j, q) \<in> wires whole" "(q, b) \<in> (wires whole)\<^sup>+"
      using c unfolding wires_split by (auto intro: trancl_mono)
    then show ?thesis by (meson trancl_into_trancl trancl_trans)
  qed (auto simp: wires_split intro: trancl_mono)
qed

text \<open>
  C36. Flattening a hierarchy and completing its pass-through flows, for any hierarchy with consistent uids and any nesting. The block
  ports that are connected afterwards are those joined by a path of wires without pass-through flow, and those joined by
  \<open>completed_wires\<close>: from a block to an output of a pass-through flow, back to the input of a pass-through span that ends at this output
  and on, from a pass-through flow of that input, to a block. Where pass-through flows stay apart (no two share a port, no path leads
  from one to another), the connections are exactly the pairs of block ports that a path of wires joins. Elsewhere they are not:
  a path over two pass-through flows is lost, and pass-through flows that share ports connect blocks that no path joins (the two
  theorems below).
\<close>

theorem flattening_refines_wiring:
  fixes internal :: "Obj \<Rightarrow> Obj"
  assumes ok: "uids_ok (TopologyObj u flows)"
  defines "whole \<equiv> TopologyObj u flows"
  defines "connected \<equiv> flow_nodes ` set (completePassThroughFlows (squashFlows internal flows))"
  shows "connected = {(a, b) \<in> (plain_wires whole)\<^sup>+ \<union> completed_wires whole. fst a \<in> block_uids whole \<and> fst b \<in> block_uids whole}
    \<and> (passes_apart whole \<longrightarrow> connected = {(a, b) \<in> (wires whole)\<^sup>+. fst a \<in> block_uids whole \<and> fst b \<in> block_uids whole})"
proof -
  note ok = ok [folded whole_def]
  have flat: "flow_nodes ` set (squashFlows internal flows) = flat_nodes whole"
    using resolveFlows_nodes [OF ok hierarchy_whole, of internal] unfolding flat_nodes_def passing_wires
    by (simp only: whole_def resolveFlows.simps)
  have joined: "(\<exists>i j q r. (i, q) \<in> flat_nodes whole \<and> snd (snd i) = In \<and> snd (snd q) = Out \<and> (j, b) \<in> flat_nodes whole \<and> snd (snd b) = In
        \<and> (a, r) \<in> flat_nodes whole \<and> snd (snd a) = Out \<and> same_port i j \<and> same_port q r)
      \<longleftrightarrow> (a, b) \<in> completed_wires whole \<and> fst a \<in> block_uids whole \<and> fst b \<in> block_uids whole" (is "?l \<longleftrightarrow> _") for a b
  proof -
    have "?l \<longleftrightarrow> (\<exists>i q. ((i, q) \<in> flat_nodes whole \<and> snd (snd i) = In \<and> snd (snd q) = Out)
        \<and> ((i, b) \<in> flat_nodes whole \<and> snd (snd i) = In \<and> snd (snd b) = In)
        \<and> ((a, q) \<in> flat_nodes whole \<and> snd (snd a) = Out \<and> snd (snd q) = Out))"
    proof
      assume ?l
      then obtain i j q r where x: "(i, q) \<in> flat_nodes whole" "snd (snd i) = In" "snd (snd q) = Out" "(j, b) \<in> flat_nodes whole" "snd (snd b) = In"
          "(a, r) \<in> flat_nodes whole" "snd (snd a) = Out" "same_port i j" "same_port q r" by blast
      have "j = i" "r = q" using flat_ends_at_span [OF ok x(1,2,3)] x(4-9) by blast+
      then show "\<exists>i q. ((i, q) \<in> flat_nodes whole \<and> snd (snd i) = In \<and> snd (snd q) = Out)
        \<and> ((i, b) \<in> flat_nodes whole \<and> snd (snd i) = In \<and> snd (snd b) = In)
        \<and> ((a, q) \<in> flat_nodes whole \<and> snd (snd a) = Out \<and> snd (snd q) = Out)" using x by blast
    next
      have same: "same_port c c" for c by (simp add: same_port_def)
      assume "\<exists>i q. ((i, q) \<in> flat_nodes whole \<and> snd (snd i) = In \<and> snd (snd q) = Out)
        \<and> ((i, b) \<in> flat_nodes whole \<and> snd (snd i) = In \<and> snd (snd b) = In)
        \<and> ((a, q) \<in> flat_nodes whole \<and> snd (snd a) = Out \<and> snd (snd q) = Out)"
      then show ?l using same by blast
    qed
    also have "\<dots> \<longleftrightarrow> (\<exists>i q. (i, q) \<in> pass_spans whole \<and> (fst b \<in> block_uids whole \<and> (i, b) \<in> pass_wires whole O (plain_wires whole)\<^sup>+)
        \<and> (fst a \<in> block_uids whole \<and> (a, q) \<in> (plain_wires whole)\<^sup>+ O pass_wires whole))"
      unfolding flat_span flat_tail [OF ok] flat_head [OF ok] by (rule refl)
    also have "\<dots> \<longleftrightarrow> (a, b) \<in> completed_wires whole \<and> fst a \<in> block_uids whole \<and> fst b \<in> block_uids whole"
      unfolding completed_wires_def by blast
    finally show ?thesis .
  qed
  have exact: "connected = {(a, b) \<in> (plain_wires whole)\<^sup>+ \<union> completed_wires whole. fst a \<in> block_uids whole \<and> fst b \<in> block_uids whole}"
  proof (rule set_eqI)
    fix ab :: "node \<times> node"
    obtain a b where ab: "ab = (a, b)" by (cases ab)
    show "ab \<in> connected \<longleftrightarrow> ab \<in> {(a, b) \<in> (plain_wires whole)\<^sup>+ \<union> completed_wires whole. fst a \<in> block_uids whole \<and> fst b \<in> block_uids whole}"
      unfolding ab connected_def completed_nodes flat joined flat_direct [OF ok] by blast
  qed
  have "(a, b) \<in> (wires whole)\<^sup>+ \<longleftrightarrow> (a, b) \<in> (plain_wires whole)\<^sup>+ \<union> completed_wires whole"
    if "passes_apart whole" "fst a \<in> block_uids whole" "fst b \<in> block_uids whole" for a b
  proof (cases "\<exists>c d. (a, c) \<in> wires whole \<and> (d, b) \<in> wires whole")
    case True
    then have "snd (snd a) = Out" "snd (snd b) = In" using block_wire_sides [OF ok] that by blast+
    then show ?thesis by (rule apart_paths [OF that(1)])
  next
    case False
    then have "(a, b) \<notin> (wires whole)\<^sup>+" by (meson tranclD tranclD2)
    moreover have "(a, b) \<notin> (plain_wires whole)\<^sup>+ \<union> completed_wires whole"
      using False unfolding completed_wires_def wires_split by (auto dest: tranclD tranclD2)
    ultimately show ?thesis by blast
  qed
  then show ?thesis using exact by blast
qed

lemma hierarchy_eval:
  "hierarchy (TopologyObj u flows) = insert (TopologyObj u flows) (\<Union>p \<in> flow_ports flows. \<Union>x \<in> set_option (p_obj p). hierarchy x)"
  unfolding hierarchy_topology by (intro arg_cong [of _ _ "insert _"]) force

lemma wires_eval:
  "wires whole = (\<Union>x \<in> hierarchy whole. case x of BlockObj _ \<Rightarrow> {} | TopologyObj u flows \<Rightarrow> flow_nodes ` set flows)"
proof (intro set_eqI iffI)
  fix ab assume "ab \<in> wires whole"
  then obtain u flows f where f: "TopologyObj u flows \<in> hierarchy whole" "f \<in> set flows" "ab = flow_nodes f" unfolding wires_def by blast
  show "ab \<in> (\<Union>x \<in> hierarchy whole. case x of BlockObj _ \<Rightarrow> {} | TopologyObj u flows \<Rightarrow> flow_nodes ` set flows)"
    using f by (intro UN_I [OF f(1)]) simp
next
  fix ab assume "ab \<in> (\<Union>x \<in> hierarchy whole. case x of BlockObj _ \<Rightarrow> {} | TopologyObj u flows \<Rightarrow> flow_nodes ` set flows)"
  then obtain x where x: "x \<in> hierarchy whole" "ab \<in> (case x of BlockObj _ \<Rightarrow> {} | TopologyObj u flows \<Rightarrow> flow_nodes ` set flows)" by (rule UN_E)
  show "ab \<in> wires whole"
  proof (cases x)
    case (TopologyObj u flows)
    then obtain f where "f \<in> set flows" "ab = flow_nodes f" using x(2) by auto
    then show ?thesis using wires_I [of u flows whole f] x(1) TopologyObj by simp
  qed (use x(2) in simp)
qed

lemma pass_wires_filter: "pass_wires whole = {w \<in> wires whole. snd (snd (fst w)) = In \<and> snd (snd (snd w)) = Out}"
  by (auto simp: pass_wires_def)

lemma filter_insert: "{x \<in> insert a A. P x} = (if P a then insert a {x \<in> A. P x} else {x \<in> A. P x})"
  by auto

definition demo_inner :: Obj where
  "demo_inner = TopologyObj ''inner'' [Flow (Port None ''in'' ''inner'' []) (Port (Some (BlockObj ''sink'')) ''0'' ''sink'' [])]"

section \<open>Pass-through topologies\<close>

text \<open>A topology that only wires its input to its output, and a chain of objects connected port 0 to port 0.\<close>

definition pass_topology :: "string \<Rightarrow> Obj" where
  "pass_topology u = TopologyObj u [Flow (Port None ''0'' u []) (Port None ''0'' u [])]"

definition obj_port :: "Obj \<Rightarrow> Obj Port" where
  "obj_port x = Port (Some x) ''0'' (o_uid x) []"

fun chain :: "Obj list \<Rightarrow> Obj Flow list" where
  "chain (x # y # zs) = Flow (obj_port x) (obj_port y) # chain (y # zs)"
| "chain _ = []"

lemma wire_pass_topology:
  "pass_topology s \<in> hierarchy whole \<Longrightarrow> ((s, ''0'', In), (s, ''0'', Out)) \<in> wires whole"
  using wires_I [of s _ whole "Flow (Port None ''0'' s []) (Port None ''0'' s [])"]
  by (simp add: pass_topology_def flow_nodes_def src_node_def dst_node_def)

text \<open>A block that feeds a pass-through topology, and a nested topology behind it with the other block.\<close>

definition demo_outer :: "Obj Flow list" where
  "demo_outer = [Flow (obj_port (BlockObj ''source'')) (obj_port (pass_topology ''S'')),
                 Flow (obj_port (pass_topology ''S'')) (Port (Some demo_inner) ''in'' ''inner'' [])]"

lemma hierarchy_demo:
  "hierarchy (TopologyObj ''outer'' demo_outer) =
     {TopologyObj ''outer'' demo_outer, BlockObj ''source'', pass_topology ''S'', demo_inner, BlockObj ''sink''}"
  by (simp add: hierarchy_eval demo_outer_def demo_inner_def pass_topology_def obj_port_def insert_commute)

lemma wires_demo:
  "pass_wires (TopologyObj ''outer'' demo_outer) = {((''S'', ''0'', In), (''S'', ''0'', Out))}"
  "plain_wires (TopologyObj ''outer'' demo_outer) = {((''source'', ''0'', Out), (''S'', ''0'', In)), ((''S'', ''0'', Out), (''inner'', ''in'', In)),
     ((''inner'', ''in'', In), (''sink'', ''0'', In))}"
proof -
  have w: "wires (TopologyObj ''outer'' demo_outer) = {((''source'', ''0'', Out), (''S'', ''0'', In)), ((''S'', ''0'', In), (''S'', ''0'', Out)),
      ((''S'', ''0'', Out), (''inner'', ''in'', In)), ((''inner'', ''in'', In), (''sink'', ''0'', In))}"
    unfolding wires_eval hierarchy_demo
    by (simp add: demo_outer_def demo_inner_def pass_topology_def obj_port_def flow_nodes_def src_node_def dst_node_def insert_commute)
  have pass: "pass_wires (TopologyObj ''outer'' demo_outer) = {((''S'', ''0'', In), (''S'', ''0'', Out))}"
    unfolding pass_wires_filter w filter_insert by simp
  then show "pass_wires (TopologyObj ''outer'' demo_outer) = {((''S'', ''0'', In), (''S'', ''0'', Out))}"
    "plain_wires (TopologyObj ''outer'' demo_outer) = {((''source'', ''0'', Out), (''S'', ''0'', In)), ((''S'', ''0'', Out), (''inner'', ''in'', In)),
       ((''inner'', ''in'', In), (''sink'', ''0'', In))}"
    unfolding plain_wires_def pass w by (simp_all add: insert_Diff_if)
qed

lemma demo_apart: "passes_apart (TopologyObj ''outer'' demo_outer)"
proof -
  have "b \<in> {(''inner'', ''in'', In), (''sink'', ''0'', In)}" if "((''S'', ''0'', Out), b) \<in> (plain_wires (TopologyObj ''outer'' demo_outer))\<^sup>+" for b
    using that by (induction rule: trancl_induct) (auto simp: wires_demo)
  then have "((''S'', ''0'', Out), (''S'', ''0'', In)) \<notin> (plain_wires (TopologyObj ''outer'' demo_outer))\<^sup>+" by blast
  then show ?thesis unfolding passes_apart_def wires_demo(1) by auto
qed

theorem flattening_refines_wiring_witness:
  "flow_nodes ` set (completePassThroughFlows (squashFlows id demo_outer)) = {((''source'', ''0'', Out), (''sink'', ''0'', In))}
   \<and> flow_nodes ` set (completePassThroughFlows (squashFlows id demo_outer)) =
      {(a, b) \<in> (wires (TopologyObj ''outer'' demo_outer))\<^sup>+.
         fst a \<in> block_uids (TopologyObj ''outer'' demo_outer) \<and> fst b \<in> block_uids (TopologyObj ''outer'' demo_outer)}"
proof -
  have "uids_ok (TopologyObj ''outer'' demo_outer)"
    unfolding uids_ok_def hierarchy_demo by (auto simp: demo_outer_def demo_inner_def pass_topology_def obj_port_def)
  moreover have "completePassThroughFlows (squashFlows id demo_outer) = [Flow (obj_port (BlockObj ''source'')) (Port (Some (BlockObj ''sink'')) ''0'' ''sink'' [])]"
    by (simp add: completePassThroughFlows_def demo_outer_def demo_inner_def pass_topology_def obj_port_def uidToObj_def put_obj_def getInternalBlock_def Port_eq_def)
  then have "flow_nodes ` set (completePassThroughFlows (squashFlows id demo_outer)) = {((''source'', ''0'', Out), (''sink'', ''0'', In))}"
    by (simp add: flow_nodes_def src_node_def dst_node_def obj_port_def del: squashFlows.simps)
  ultimately show ?thesis
    using conjunct2 [OF flattening_refines_wiring [of "''outer''" demo_outer id]] demo_apart by blast
qed

text \<open>
  Pass-through topologies are completed only one at a time. One pass-through topology between two blocks gives
  the direct flow, but with two in a row the flattening loses the connection, although a path of wires joins the
  blocks: \<open>completePassThroughFlows\<close> needs a head that is a block output and a tail that is a block input.
\<close>

theorem cascaded_pass_through_lost:
  "let A = BlockObj ''A''; B = BlockObj ''B''; S = pass_topology ''S''; T = pass_topology ''T'' in
     completePassThroughFlows (squashFlows id (chain [A, S, B])) = [Flow (obj_port A) (obj_port B)]
     \<and> completePassThroughFlows (squashFlows id (chain [A, S, T, B])) = []
     \<and> ((''A'', ''0'', Out), (''B'', ''0'', In)) \<in> (wires (TopologyObj u (chain [A, S, T, B])))\<^sup>+"
proof -
  let ?A = "BlockObj ''A''" and ?B = "BlockObj ''B''" and ?S = "pass_topology ''S''" and ?T = "pass_topology ''T''"
  let ?fs = "chain [?A, ?S, ?T, ?B]"
  let ?w = "TopologyObj u ?fs"
  note eval = completePassThroughFlows_def pass_topology_def obj_port_def uidToObj_def put_obj_def getInternalBlock_def Port_eq_def
  have "completePassThroughFlows (squashFlows id (chain [?A, ?S, ?B])) = [Flow (obj_port ?A) (obj_port ?B)]"
    by (simp add: eval)
  moreover have "completePassThroughFlows (squashFlows id ?fs) = []"
    by (simp add: eval)
  moreover have "((''A'', ''0'', Out), (''B'', ''0'', In)) \<in> (wires ?w)\<^sup>+"
  proof -
    have "?S \<in> hierarchy ?w" "?T \<in> hierarchy ?w"
      by (auto simp: hierarchy_eval [of u] obj_port_def intro: hierarchy_whole)
    then have "((''S'', ''0'', In), (''S'', ''0'', Out)) \<in> wires ?w" "((''T'', ''0'', In), (''T'', ''0'', Out)) \<in> wires ?w"
      by (simp_all add: wire_pass_topology)
    moreover have "flow_nodes f \<in> wires ?w" if "f \<in> set ?fs" for f using that by (rule wires_I [OF hierarchy_whole])
    then have "((''A'', ''0'', Out), (''S'', ''0'', In)) \<in> wires ?w" "((''S'', ''0'', Out), (''T'', ''0'', In)) \<in> wires ?w"
        "((''T'', ''0'', Out), (''B'', ''0'', In)) \<in> wires ?w"
      by (fastforce simp: flow_nodes_def src_node_def dst_node_def obj_port_def pass_topology_def)+
    ultimately show ?thesis by (meson trancl.r_into_trancl trancl_into_trancl)
  qed
  ultimately show ?thesis by (simp only: Let_def simp_thms)
qed

text \<open>
  Pass-through flows that share ports are mixed up. The topology \<open>X\<close> wires its input 0 to its output 0, and its input 1 to both
  outputs; a block feeds input 0, and a block is fed by output 1, which input 1 alone leads to. The flattening connects these two
  blocks, which no path of wires joins: the pass-through flow from input 1 to output 0 is joined with the flow that ends at output 0
  through the first pass-through flow, and with the flow that begins at input 1 through the third.
\<close>

definition cross_topology :: Obj where
  "cross_topology = TopologyObj ''X'' (map (\<lambda>(i, q). Flow (Port None i ''X'' []) (Port None q ''X'' [])) [(''0'', ''0''), (''1'', ''0''), (''1'', ''1'')])"

definition cross_flows :: "Obj Flow list" where
  "cross_flows = [Flow (obj_port (BlockObj ''A'')) (Port (Some cross_topology) ''0'' ''X'' []),
                  Flow (Port (Some cross_topology) ''1'' ''X'' []) (obj_port (BlockObj ''B''))]"

lemma hierarchy_cross: "hierarchy (TopologyObj ''outer'' cross_flows) = {TopologyObj ''outer'' cross_flows, BlockObj ''A'', cross_topology, BlockObj ''B''}"
  by (simp add: hierarchy_eval cross_flows_def cross_topology_def obj_port_def insert_commute)

theorem shared_pass_through_misconnected:
  "completePassThroughFlows (squashFlows id cross_flows) = [Flow (obj_port (BlockObj ''A'')) (obj_port (BlockObj ''B''))]
   \<and> ((''A'', ''0'', Out), (''B'', ''0'', In)) \<notin> (wires (TopologyObj ''outer'' cross_flows))\<^sup>+"
proof
  show "completePassThroughFlows (squashFlows id cross_flows) = [Flow (obj_port (BlockObj ''A'')) (obj_port (BlockObj ''B''))]"
    by (simp add: completePassThroughFlows_def cross_flows_def cross_topology_def obj_port_def uidToObj_def put_obj_def getInternalBlock_def Port_eq_def)
  let ?w = "wires (TopologyObj ''outer'' cross_flows)"
  have wires: "?w = {((''A'', ''0'', Out), (''X'', ''0'', In)), ((''X'', ''1'', Out), (''B'', ''0'', In)), ((''X'', ''0'', In), (''X'', ''0'', Out)),
      ((''X'', ''1'', In), (''X'', ''0'', Out)), ((''X'', ''1'', In), (''X'', ''1'', Out))}"
    unfolding wires_eval hierarchy_cross
    by (simp add: cross_flows_def cross_topology_def obj_port_def flow_nodes_def src_node_def dst_node_def insert_commute)
  have "b \<in> {(''X'', ''0'', In), (''X'', ''0'', Out)}" if "((''A'', ''0'', Out), b) \<in> ?w\<^sup>+" for b
    using that by (induction rule: trancl_induct) (auto simp: wires)
  then show "((''A'', ''0'', Out), (''B'', ''0'', In)) \<notin> ?w\<^sup>+" by blast
qed

end
