(* ===== verification/Topology.thy ===== *)
theory Topology
  imports Flows
begin

text \<open>
  The state of a topology and its editing operations (\<open>Topology.cpp\<close>, \<open>TopologyImpl.hpp\<close>), and the two passes that
  replace flows the runtime cannot carry: network crossings (\<open>TopologyNetworkFlows.cpp\<close>) and domain crossings
  (\<open>TopologyDomainFlows.cpp\<close>).

  \<^item> \<open>Calls\<close> has the calls made on the connected objects through their proxies, over a state \<open>'s\<close> of those objects;
    a call whose exception the code swallows is the function to the state it leaves.
  \<^item> The port tables are \<open>std::map\<close>s (sorted association lists); an \<open>unordered_map\<close> keyed by ports is an association
    list in order of insertion, looked up with \<open>Port_eq\<close>. No statement below depends on that order.
  \<^item> \<open>newCopier isInput port\<close> is the copier block made for a port, \<open>createNetworkFlow flow\<close> the pair of network blocks.
  \<^item> Every operation returns the error it throws, if any, with the state it leaves behind.
\<close>

section \<open>State\<close>

record PortInfo =
  pi_name :: string
  pi_alias :: string
  pi_isSigSlot :: bool
  pi_dtype :: DType

definition PortInfo_new :: PortInfo where
  "PortInfo_new = \<lparr>pi_name = [], pi_alias = [], pi_isSigSlot = False, pi_dtype = DType_default\<rparr>"

record ('o, 'c) Topology =
  tp_uid :: string
  tp_flows :: "'o Flow list"
  tp_activeFlatFlows :: "'o Flow list"
  tp_srcToNetgressCache :: "('o Port \<times> 'o \<times> 'o) list"
  tp_inputPortNames :: "string list"
  tp_outputPortNames :: "string list"
  tp_inputPortInfo :: "(string \<times> PortInfo) list"
  tp_outputPortInfo :: "(string \<times> PortInfo) list"
  tp_calls :: "(string \<times> 'c) list"

definition Topology_new :: "string \<Rightarrow> ('o, 'c) Topology" where
  "Topology_new uid = \<lparr>tp_uid = uid, tp_flows = [], tp_activeFlatFlows = [], tp_srcToNetgressCache = [],
     tp_inputPortNames = [], tp_outputPortNames = [], tp_inputPortInfo = [], tp_outputPortInfo = [], tp_calls = []\<rparr>"

record ('o, 's) Calls =
  c_uid :: "'o \<Rightarrow> string option"
  c_getName :: "'o \<Rightarrow> string"
  c_internal :: "'o \<Rightarrow> 'o"
  c_autoAllocateInput :: "'o \<Rightarrow> string \<Rightarrow> 's \<Rightarrow> 's"
  c_autoAllocateOutput :: "'o \<Rightarrow> string \<Rightarrow> 's \<Rightarrow> 's"
  c_autoDeleteInput :: "'o \<Rightarrow> string \<Rightarrow> 's \<Rightarrow> 's"
  c_autoDeleteOutput :: "'o \<Rightarrow> string \<Rightarrow> 's \<Rightarrow> 's"
  c_inputPortInfo :: "'s \<Rightarrow> 'o \<Rightarrow> PortInfo list"
  c_outputPortInfo :: "'s \<Rightarrow> 'o \<Rightarrow> PortInfo list"
  c_disconnectAll :: "'o \<Rightarrow> 's \<Rightarrow> 's"

datatype topology_error = UnknownPort | SourceType | DestinationType | NoOutputPort | NoInputPort | FlowExists | FlowMissing
  | NoPortInfo | MethodNotFound

section \<open>Operations\<close>

definition makePort :: "('o, 's) Calls \<Rightarrow> ('o, 'c) Topology \<Rightarrow> 'o \<Rightarrow> string \<Rightarrow> 'o Port" where
  "makePort c t x name = (let uid = the (c_uid c x) in Port (if uid \<noteq> tp_uid t then Some x else None) name uid (c_getName c x))"

definition checkObj :: "('o, 's) Calls \<Rightarrow> 'o \<Rightarrow> bool" where
  "checkObj c x = (c_uid c x \<noteq> None)"

definition setInputAlias :: "string \<Rightarrow> string \<Rightarrow> ('o, 'c) Topology \<Rightarrow> topology_error option \<times> ('o, 'c) Topology" where
  "setInputAlias portName al t =
     (case map_of (tp_inputPortInfo t) portName of
        None \<Rightarrow> (Some UnknownPort, t)
      | Some info \<Rightarrow> (None, t\<lparr>tp_inputPortInfo := map_put portName (info\<lparr>pi_alias := al\<rparr>) (tp_inputPortInfo t)\<rparr>))"

definition setOutputAlias :: "string \<Rightarrow> string \<Rightarrow> ('o, 'c) Topology \<Rightarrow> topology_error option \<times> ('o, 'c) Topology" where
  "setOutputAlias portName al t =
     (case map_of (tp_outputPortInfo t) portName of
        None \<Rightarrow> (Some UnknownPort, t)
      | Some info \<Rightarrow> (None, t\<lparr>tp_outputPortInfo := map_put portName (info\<lparr>pi_alias := al\<rparr>) (tp_outputPortInfo t)\<rparr>))"

text \<open>The loop of \<open>inputPortInfo\<close> and \<open>outputPortInfo\<close>; \<open>None\<close> is the exception of \<open>at\<close>.\<close>

fun port_infos :: "string set \<Rightarrow> (string \<times> PortInfo) list \<Rightarrow> string list \<Rightarrow> PortInfo list option" where
  "port_infos names infos [] = Some []"
| "port_infos names infos (n # ns) =
     (if n \<in> names then port_infos names infos ns
      else (case map_of infos n of
              None \<Rightarrow> None
            | Some info \<Rightarrow> map_option ((#) info) (port_infos (insert n names) infos ns)))"

definition Topology_inputPortInfo :: "('o, 'c) Topology \<Rightarrow> PortInfo list option" where
  "Topology_inputPortInfo t = port_infos {} (tp_inputPortInfo t) (tp_inputPortNames t)"

definition Topology_outputPortInfo :: "('o, 'c) Topology \<Rightarrow> PortInfo list option" where
  "Topology_outputPortInfo t = port_infos {} (tp_outputPortInfo t) (tp_outputPortNames t)"

text \<open>\<open>Connectable::inputPortNames\<close> and \<open>outputPortNames\<close>, on another object or on the topology itself.\<close>

definition portNames :: "PortInfo list \<Rightarrow> string list" where
  "portNames infos = map pi_name infos"

definition own_info :: "string \<Rightarrow> (string \<times> PortInfo) list \<Rightarrow> PortInfo" where
  "own_info name m = (case map_of m name of None \<Rightarrow> PortInfo_new | Some i \<Rightarrow> i)"

text \<open>The entry of a port of the topology that is wired to ports of an object with the given infos.\<close>

definition store_info :: "string \<Rightarrow> string \<Rightarrow> PortInfo list \<Rightarrow> (string \<times> PortInfo) list \<Rightarrow> (string \<times> PortInfo) list" where
  "store_info own other infos m = fold (\<lambda>info m.
     if pi_name info = other
     then map_put own \<lparr>pi_name = own, pi_alias = own, pi_isSigSlot = pi_isSigSlot info, pi_dtype = pi_dtype info\<rparr> m
     else m) infos m"

definition topology_connect ::
  "('o, 's) Calls \<Rightarrow> 'o \<Rightarrow> string \<Rightarrow> 'o \<Rightarrow> string \<Rightarrow> ('o, 'c) Topology \<times> 's \<Rightarrow> topology_error option \<times> ('o, 'c) Topology \<times> 's" where
  "topology_connect c src srcName dst dstName = (\<lambda>(t, s).
     if \<not> checkObj c src then (Some SourceType, t, s)
     else if \<not> checkObj c dst then (Some DestinationType, t, s)
     else
       (let flow = Flow (makePort c t src srcName) (makePort c t dst dstName);
            srcObj = (p_obj (fl_src flow) \<noteq> None);
            dstObj = (p_obj (fl_dst flow) \<noteq> None);
            s = c_autoAllocateOutput c (c_internal c src) srcName s;
            s = c_autoAllocateInput c (c_internal c dst) dstName s
        in
        if srcObj \<and> srcName \<notin> set (portNames (c_outputPortInfo c s (c_internal c src))) then (Some NoOutputPort, t, s)
        else if dstObj \<and> dstName \<notin> set (portNames (c_inputPortInfo c s (c_internal c dst))) then (Some NoInputPort, t, s)
        else
          (let t = (if \<not> srcObj \<and> dstObj then
                      t\<lparr>tp_inputPortNames := tp_inputPortNames t @ [srcName],
                        tp_inputPortInfo := store_info srcName dstName (c_inputPortInfo c s (c_internal c dst)) (tp_inputPortInfo t)\<rparr>
                    else t);
               t = (if \<not> dstObj \<and> srcObj then
                      t\<lparr>tp_outputPortNames := tp_outputPortNames t @ [dstName],
                        tp_outputPortInfo := store_info dstName srcName (c_outputPortInfo c s (c_internal c src)) (tp_outputPortInfo t)\<rparr>
                    else t);
               t = (if \<not> srcObj \<and> \<not> dstObj then
                      t\<lparr>tp_inputPortNames := tp_inputPortNames t @ [srcName],
                        tp_inputPortInfo := map_put srcName ((own_info srcName (tp_inputPortInfo t))\<lparr>pi_name := srcName\<rparr>) (tp_inputPortInfo t),
                        tp_outputPortNames := tp_outputPortNames t @ [dstName],
                        tp_outputPortInfo := map_put dstName ((own_info dstName (tp_outputPortInfo t))\<lparr>pi_name := dstName\<rparr>) (tp_outputPortInfo t)\<rparr>
                    else t)
           in if flow_find (tp_flows t) flow then (Some FlowExists, t, s)
              else (None, t\<lparr>tp_flows := tp_flows t @ [flow]\<rparr>, s))))"

definition topology_disconnect ::
  "('o, 's) Calls \<Rightarrow> 'o \<Rightarrow> string \<Rightarrow> 'o \<Rightarrow> string \<Rightarrow> ('o, 'c) Topology \<times> 's \<Rightarrow> topology_error option \<times> ('o, 'c) Topology \<times> 's" where
  "topology_disconnect c src srcName dst dstName = (\<lambda>(t, s).
     if \<not> checkObj c src then (Some SourceType, t, s)
     else if \<not> checkObj c dst then (Some DestinationType, t, s)
     else
       (let flow = Flow (makePort c t src srcName) (makePort c t dst dstName);
            srcObj = (p_obj (fl_src flow) \<noteq> None);
            dstObj = (p_obj (fl_dst flow) \<noteq> None)
        in
        case (if srcObj then Some (c_outputPortInfo c s (c_internal c src)) else Topology_outputPortInfo t) of
          None \<Rightarrow> (Some NoPortInfo, t, s)
        | Some outs \<Rightarrow>
        if srcName \<notin> set (portNames outs) then (Some NoOutputPort, t, s)
        else
        (case (if dstObj then Some (c_inputPortInfo c s (c_internal c dst)) else Topology_inputPortInfo t) of
          None \<Rightarrow> (Some NoPortInfo, t, s)
        | Some ins \<Rightarrow>
        if dstName \<notin> set (portNames ins) then (Some NoInputPort, t, s)
        else
          (let t = (if \<not> srcObj then t\<lparr>tp_outputPortNames := remove1 srcName (tp_outputPortNames t)\<rparr> else t);
               t = (if \<not> dstObj then t\<lparr>tp_inputPortNames := remove1 dstName (tp_inputPortNames t)\<rparr> else t)
           in if \<not> flow_find (tp_flows t) flow then (Some FlowMissing, t, s)
              else
                (let s = c_autoDeleteOutput c (c_internal c src) srcName s;
                     s = c_autoDeleteInput c (c_internal c dst) dstName s
                 in (None, t\<lparr>tp_flows := flow_erase (tp_flows t) flow\<rparr>, s))))))"

definition on_obj :: "('o \<Rightarrow> 's \<Rightarrow> 's) \<Rightarrow> 'o Port \<Rightarrow> 's \<Rightarrow> 's" where
  "on_obj call p s = (case p_obj p of None \<Rightarrow> s | Some x \<Rightarrow> call x s)"

definition disconnectAll :: "('o, 's) Calls \<Rightarrow> bool \<Rightarrow> ('o, 'c) Topology \<times> 's \<Rightarrow> ('o, 'c) Topology \<times> 's" where
  "disconnectAll c recursive = (\<lambda>(t, s).
     (let s = (if recursive
               then fold (\<lambda>flow s. on_obj (c_disconnectAll c) (fl_dst flow) (on_obj (c_disconnectAll c) (fl_src flow) s)) (tp_flows t) s
               else s);
          s = fold (\<lambda>flow s.
                on_obj (\<lambda>x. c_autoDeleteInput c (c_internal c x) (p_name (fl_dst flow))) (fl_dst flow)
                  (on_obj (\<lambda>x. c_autoDeleteOutput c (c_internal c x) (p_name (fl_src flow))) (fl_src flow) s)) (tp_flows t) s
      in (t\<lparr>tp_flows := []\<rparr>, s)))"

definition Topology_registerCallable :: "string \<Rightarrow> 'c \<Rightarrow> ('o, 'c) Topology \<Rightarrow> ('o, 'c) Topology" where
  "Topology_registerCallable name call t = t\<lparr>tp_calls := map_put name call (tp_calls t)\<rparr>"

definition Topology_opaqueCallHandler :: "('c \<Rightarrow> 'a list \<Rightarrow> 'r) \<Rightarrow> string \<Rightarrow> 'a list \<Rightarrow> ('o, 'c) Topology \<Rightarrow> topology_error + 'r" where
  "Topology_opaqueCallHandler invoke name args t =
     (case map_of (tp_calls t) name of None \<Rightarrow> Inl MethodNotFound | Some call \<Rightarrow> Inr (invoke call args))"

section \<open>The port tables\<close>

text \<open>
  The tables of a topology's own ports agree: every name in use has an entry, and an entry carries its own name, as
  the assertions of \<open>inputPortInfo\<close> and \<open>outputPortInfo\<close> expect.
\<close>

definition info_table_ok :: "string list \<Rightarrow> (string \<times> PortInfo) list \<Rightarrow> bool" where
  "info_table_ok names infos \<longleftrightarrow> set names \<subseteq> fst ` set infos \<and> (\<forall>(n, i) \<in> set infos. pi_name i = n)"

definition topology_ports_ok :: "('o, 'c) Topology \<Rightarrow> bool" where
  "topology_ports_ok t \<longleftrightarrow> info_table_ok (tp_inputPortNames t) (tp_inputPortInfo t) \<and> info_table_ok (tp_outputPortNames t) (tp_outputPortInfo t)"

lemma port_infos_names:
  assumes "info_table_ok ns infos" shows "\<exists>r. port_infos seen infos ns = Some r \<and> set (portNames r) = set ns - seen"
  using assms
proof (induction ns arbitrary: seen)
  case (Cons n ns)
  have ok: "info_table_ok ns infos" using Cons.prems by (auto simp: info_table_ok_def)
  show ?case
  proof (cases "n \<in> seen")
    case True
    then show ?thesis using Cons.IH [OF ok, of seen] by auto
  next
    case False
    obtain i where i: "map_of infos n = Some i"
      using Cons.prems by (cases "map_of infos n") (auto simp: info_table_ok_def map_of_eq_None_iff)
    then have "pi_name i = n" using Cons.prems by (auto simp: info_table_ok_def dest!: map_of_SomeD)
    then show ?thesis using Cons.IH [OF ok, of "insert n seen"] False i by (auto simp: portNames_def)
  qed
qed (simp add: portNames_def)

lemma info_table_ok_put:
  assumes "info_table_ok ns m" "pi_name i = n" shows "info_table_ok ns (map_put n i m)"
proof -
  have "\<forall>(k, j) \<in> set (map_put n i m). pi_name j = k"
    using map_put_values [of n i m] assms unfolding info_table_ok_def by blast
  then show ?thesis using assms(1) unfolding info_table_ok_def keys_map_put by blast
qed

lemma store_info_simps [simp]:
  "store_info own other [] m = m"
  "store_info own other (i # infos) m = store_info own other infos
     (if pi_name i = other
      then map_put own \<lparr>pi_name = own, pi_alias = own, pi_isSigSlot = pi_isSigSlot i, pi_dtype = pi_dtype i\<rparr> m else m)"
  by (simp_all add: store_info_def)

lemma store_info_mono: "n \<in> fst ` set m \<Longrightarrow> n \<in> fst ` set (store_info own other infos m)"
proof (induction infos arbitrary: m)
  case (Cons i infos) then show ?case unfolding store_info_simps by (intro Cons.IH) (simp add: keys_map_put)
qed simp

lemma store_info_own: "other \<in> set (portNames infos) \<Longrightarrow> own \<in> fst ` set (store_info own other infos m)"
proof (induction infos arbitrary: m)
  case (Cons i infos)
  show ?case
  proof (cases "pi_name i = other")
    case True then show ?thesis unfolding store_info_simps by (intro store_info_mono) (simp add: keys_map_put)
  next
    case False then show ?thesis using Cons by (simp add: portNames_def)
  qed
qed (simp add: portNames_def)

lemma store_info_ok: "info_table_ok ns m \<Longrightarrow> info_table_ok ns (store_info own other infos m)"
proof (induction infos arbitrary: m)
  case (Cons i infos) then show ?case unfolding store_info_simps by (intro Cons.IH) (simp add: info_table_ok_put)
qed simp

lemma store_info_port:
  "info_table_ok ns m \<Longrightarrow> other \<in> set (portNames infos) \<Longrightarrow> info_table_ok (ns @ [own]) (store_info own other infos m)"
  using store_info_ok [of ns m own other infos] store_info_own [of other infos own m] by (auto simp: info_table_ok_def)

lemma info_table_ok_snoc: "info_table_ok ns m \<Longrightarrow> pi_name i = n \<Longrightarrow> info_table_ok (ns @ [n]) (map_put n i m)"
  using info_table_ok_put [of ns m i n] by (auto simp: info_table_ok_def keys_map_put)

lemma info_table_ok_remove1: "info_table_ok ns m \<Longrightarrow> info_table_ok (remove1 n ns) m"
  by (auto simp: info_table_ok_def dest: notin_set_remove1 [rotated])

lemma connect_ports_ok:
  "topology_ports_ok t \<Longrightarrow> topology_connect c src sn dst dn (t, s) = (e, t', s') \<Longrightarrow> topology_ports_ok t'"
  by (auto simp: topology_connect_def topology_ports_ok_def Let_def store_info_port info_table_ok_snoc split: if_splits)

lemma disconnect_ports_ok:
  "topology_ports_ok t \<Longrightarrow> topology_disconnect c src sn dst dn (t, s) = (e, t', s') \<Longrightarrow> topology_ports_ok t'"
  by (auto simp: topology_disconnect_def topology_ports_ok_def Let_def info_table_ok_remove1 split: if_splits option.splits)

lemma flow_erase_snoc: "\<not> flow_find fs f \<Longrightarrow> flow_erase (fs @ [f]) f = fs"
  by (induction fs) (auto simp: flow_find_def Flow_eq_def Port_eq_def)

lemma flow_find_snoc: "flow_find (fs @ [f]) f"
  by (simp add: flow_find_def Flow_eq_def Port_eq_def)

text \<open>
  What \<open>connect\<close> did, \<open>disconnect\<close> undoes for a flow between two other objects: it succeeds, and the topology is
  the one before the connection. For a flow that leaves the topology's own input it fails: \<open>disconnect\<close> looks for the
  name among the topology's outputs, so unless an output happens to have that name the flow cannot be removed.
\<close>

theorem connect_then_disconnect:
  assumes conn: "topology_connect c src srcName dst dstName (t, s) = (None, t', s')"
    and ok: "topology_ports_ok t" and dst: "c_uid c dst \<noteq> Some (tp_uid t)"
  shows "(c_uid c src \<noteq> Some (tp_uid t) \<longrightarrow>
      topology_disconnect c src srcName dst dstName (t', s') =
        (None, t, c_autoDeleteInput c (c_internal c dst) dstName (c_autoDeleteOutput c (c_internal c src) srcName s')))
    \<and> (c_uid c src = Some (tp_uid t) \<and> srcName \<notin> set (tp_outputPortNames t) \<longrightarrow>
      topology_disconnect c src srcName dst dstName (t', s') = (Some NoOutputPort, t', s'))"
proof (intro conjI impI)
  assume "c_uid c src \<noteq> Some (tp_uid t)"
  then show "topology_disconnect c src srcName dst dstName (t', s') =
        (None, t, c_autoDeleteInput c (c_internal c dst) dstName (c_autoDeleteOutput c (c_internal c src) srcName s'))"
    using conn dst
    by (auto simp: topology_connect_def topology_disconnect_def Let_def makePort_def checkObj_def flow_erase_snoc flow_find_snoc split: if_splits)
next
  assume src: "c_uid c src = Some (tp_uid t) \<and> srcName \<notin> set (tp_outputPortNames t)"
  have "Topology_outputPortInfo t' = Topology_outputPortInfo t" "tp_uid t' = tp_uid t" "checkObj c src" "checkObj c dst"
    using conn src dst by (auto simp: topology_connect_def Let_def makePort_def checkObj_def Topology_outputPortInfo_def split: if_splits)
  moreover obtain r where "Topology_outputPortInfo t = Some r" "srcName \<notin> set (portNames r)"
    using port_infos_names [of "tp_outputPortNames t" "tp_outputPortInfo t" "{}"] ok src
    unfolding topology_ports_ok_def Topology_outputPortInfo_def by auto
  ultimately show "topology_disconnect c src srcName dst dstName (t', s') = (Some NoOutputPort, t', s')"
    using src dst by (auto simp: topology_disconnect_def Let_def makePort_def)
qed

text \<open>Objects are their uids, every object has one input and one output named 0, and the calls do nothing.\<close>

definition demo_calls :: "(string, unit) Calls" where
  "demo_calls = \<lparr>c_uid = Some, c_getName = id, c_internal = id, c_autoAllocateInput = (\<lambda>_ _ s. s), c_autoAllocateOutput = (\<lambda>_ _ s. s),
     c_autoDeleteInput = (\<lambda>_ _ s. s), c_autoDeleteOutput = (\<lambda>_ _ s. s), c_inputPortInfo = (\<lambda>_ _. [PortInfo_new\<lparr>pi_name := ''0''\<rparr>]),
     c_outputPortInfo = (\<lambda>_ _. [PortInfo_new\<lparr>pi_name := ''0''\<rparr>]), c_disconnectAll = (\<lambda>_ s. s)\<rparr>"

definition demo_topology :: "(string, unit) Topology" where
  "demo_topology = Topology_new ''T''"

theorem connect_then_disconnect_witness:
  "(case topology_connect demo_calls ''A'' ''0'' ''B'' ''0'' (demo_topology, ()) of (e, t', s') \<Rightarrow>
      e = None \<and> t' \<noteq> demo_topology \<and> topology_disconnect demo_calls ''A'' ''0'' ''B'' ''0'' (t', s') = (None, demo_topology, ()))
   \<and> (case topology_connect demo_calls ''T'' ''in'' ''B'' ''0'' (demo_topology, ()) of (e, t', s') \<Rightarrow>
      e = None \<and> topology_disconnect demo_calls ''T'' ''in'' ''B'' ''0'' (t', s') = (Some NoOutputPort, t', s'))"
proof -
  have ok: "topology_ports_ok demo_topology" by (simp add: topology_ports_ok_def info_table_ok_def demo_topology_def Topology_new_def)
  have c: "c_uid demo_calls x = Some x" "c_autoDeleteInput demo_calls x n s = s" "c_autoDeleteOutput demo_calls x n s = s" for x n s
    by (simp_all add: demo_calls_def)
  have t: "tp_uid demo_topology = ''T''" "tp_outputPortNames demo_topology = []" "tp_flows demo_topology = []"
    by (simp_all add: demo_topology_def Topology_new_def)
  obtain t1 where "topology_connect demo_calls ''A'' ''0'' ''B'' ''0'' (demo_topology, ()) = (None, t1, ())" "tp_flows t1 \<noteq> []"
    using t by (simp add: topology_connect_def Let_def makePort_def checkObj_def demo_calls_def flow_find_def portNames_def PortInfo_new_def)
  moreover obtain t2 where "topology_connect demo_calls ''T'' ''in'' ''B'' ''0'' (demo_topology, ()) = (None, t2, ())"
    using t by (simp add: topology_connect_def Let_def makePort_def checkObj_def demo_calls_def flow_find_def portNames_def PortInfo_new_def)
  ultimately show ?thesis
    using connect_then_disconnect [OF _ ok, of demo_calls "''A''" "''0''" "''B''" "''0''" "()" t1 "()"]
      connect_then_disconnect [OF _ ok, of demo_calls "''T''" "''in''" "''B''" "''0''" "()" t2 "()"] c t by auto
qed

section \<open>Network crossings\<close>

text \<open>An \<open>unordered_map\<close> with ports as keys.\<close>

fun port_find :: "'o Port \<Rightarrow> ('o Port \<times> 'v) list \<Rightarrow> 'v option" where
  "port_find k [] = None"
| "port_find k ((k', v) # m) = (if Port_eq k' k then Some v else port_find k m)"

fun port_put :: "'o Port \<Rightarrow> 'v \<Rightarrow> ('o Port \<times> 'v) list \<Rightarrow> ('o Port \<times> 'v) list" where
  "port_put k v [] = [(k, v)]"
| "port_put k v ((k', v') # m) = (if Port_eq k' k then (k', v) # m else (k', v') # port_put k v m)"

definition port_push :: "'o Port \<Rightarrow> 'v \<Rightarrow> ('o Port \<times> 'v list) list \<Rightarrow> ('o Port \<times> 'v list) list" where
  "port_push k v m = port_put k ((case port_find k m of None \<Rightarrow> [] | Some vs \<Rightarrow> vs) @ [v]) m"

definition envTagPort :: "('o \<Rightarrow> string) \<Rightarrow> 'o Port \<Rightarrow> 'o Port \<Rightarrow> 'o Port" where
  "envTagPort upid port other = Port (p_obj port) (p_name port @ ''->'' @ upid (the (p_obj other))) (p_uid port) (p_objName port)"

definition crosses_network :: "('o \<Rightarrow> string) \<Rightarrow> 'o Flow \<Rightarrow> bool" where
  "crosses_network upid flow \<longleftrightarrow> upid (the (p_obj (fl_src flow))) \<noteq> upid (the (p_obj (fl_dst flow)))"

definition createNetworkFlows ::
  "('o, 's) Calls \<Rightarrow> ('o \<Rightarrow> string) \<Rightarrow> ('o Flow \<Rightarrow> 'o \<times> 'o) \<Rightarrow> 'o Flow list \<Rightarrow> ('o, 'c) Topology \<Rightarrow> 'o Flow list \<times> ('o, 'c) Topology" where
  "createNetworkFlows c upid createNetworkFlow flatFlows t =
     (let networkAwareFlows = filter (\<lambda>flow. \<not> crosses_network upid flow) flatFlows;
          srcToFlows = fold (\<lambda>flow m. port_push (envTagPort upid (fl_src flow) (fl_dst flow)) flow m)
            (filter (crosses_network upid) flatFlows) [];
          srcToFutures = map (\<lambda>(k, fs). (k, createNetworkFlow (hd fs)))
            (filter (\<lambda>(k, fs). port_find k (tp_srcToNetgressCache t) = None) srcToFlows);
          cache = fold (\<lambda>(k, v) m. port_put k v m) srcToFutures (tp_srcToNetgressCache t)
      in (networkAwareFlows @
          concat (map (\<lambda>(k, fs).
            (let netBlocks = the (port_find k cache)
             in Flow (fl_src (hd fs)) (makePort c t (snd netBlocks) ''0'')
                # map (\<lambda>flow. Flow (makePort c t (fst netBlocks) ''0'') (fl_dst flow)) fs)) srcToFlows),
          t\<lparr>tp_srcToNetgressCache := cache\<rparr>))"

section \<open>Domain crossings\<close>

record 'o Domains =
  d_domain :: "'o Port \<Rightarrow> bool \<Rightarrow> string"
  d_getBufferMode :: "'o Port \<Rightarrow> string \<Rightarrow> bool \<Rightarrow> string"

definition isDomainCrossingAcceptable :: "'o Domains \<Rightarrow> 'o Port \<Rightarrow> 'o Port list \<Rightarrow> bool \<Rightarrow> bool" where
  "isDomainCrossingAcceptable d mainPort subPorts isInput =
     (let mainDomain = d_domain d mainPort isInput;
          subDomains = remdups (map (\<lambda>subPort. d_domain d subPort (\<not> isInput)) subPorts);
          allOthersAbdicate = list_all (\<lambda>subPort. d_getBufferMode d subPort mainDomain (\<not> isInput) = ''ABDICATE'') subPorts
      in if length subDomains > 1 then False
         else
           (let mainMode = d_getBufferMode d mainPort (hd subDomains) isInput
            in if mainMode = ''ERROR'' then False
               else if mainMode = ''ABDICATE'' then True
               else if isInput \<and> mainMode = ''CUSTOM'' \<and> length subPorts > 1 then False
               else if mainMode = ''CUSTOM'' \<and> \<not> allOthersAbdicate then False
               else True))"

definition getCopierForDomainCrossing ::
  "'o Domains \<Rightarrow> (bool \<Rightarrow> 'o Port \<Rightarrow> 'o) \<Rightarrow> 'o Port \<Rightarrow> 'o Port list \<Rightarrow> bool \<Rightarrow> 'o option" where
  "getCopierForDomainCrossing d newCopier mainPort subPorts isInput =
     (if isDomainCrossingAcceptable d mainPort subPorts isInput then None else Some (newCopier isInput mainPort))"

definition domainInspection ::
  "'o Domains \<Rightarrow> (bool \<Rightarrow> 'o Port \<Rightarrow> 'o) \<Rightarrow> ('o Port \<times> 'o Port list) list \<Rightarrow> bool \<Rightarrow> ('o Port \<times> 'o option) list" where
  "domainInspection d newCopier ports isInput =
     fold (\<lambda>(k, subPorts) m. port_put k (getCopierForDomainCrossing d newCopier k subPorts isInput) m) ports []"

text \<open>The nested loop over the flows; an entry of the map repeats its list once for every flow of its port.\<close>

definition srcs_map :: "'o Flow list \<Rightarrow> ('o Port \<times> 'o Port list) list" where
  "srcs_map flows = fold (\<lambda>flow m.
     fold (\<lambda>subFlow m. if Port_eq (fl_src subFlow) (fl_src flow) then port_push (fl_src flow) (fl_dst subFlow) m else m) flows m) flows []"

definition dsts_map :: "'o Flow list \<Rightarrow> ('o Port \<times> 'o Port list) list" where
  "dsts_map flows = fold (\<lambda>flow m.
     fold (\<lambda>subFlow m. if Port_eq (fl_dst subFlow) (fl_dst flow) then port_push (fl_dst flow) (fl_src subFlow) m else m) flows m) flows []"

definition push_unless_found :: "'o Flow list \<Rightarrow> 'o Flow \<Rightarrow> 'o Flow list" where
  "push_unless_found flows f = (if flow_find flows f then flows else flows @ [f])"

definition rectifyDomainFlows ::
  "('o, 's) Calls \<Rightarrow> 'o Domains \<Rightarrow> (bool \<Rightarrow> 'o Port \<Rightarrow> 'o) \<Rightarrow> ('o, 'c) Topology \<Rightarrow> 'o Flow list \<Rightarrow> 'o Flow list" where
  "rectifyDomainFlows c d newCopier t flatFlows =
     (let badSrcsToCopier = domainInspection d newCopier (srcs_map flatFlows) False;
          badDstsToCopier = domainInspection d newCopier (dsts_map flatFlows) True
      in fold (\<lambda>flow domainSafeFlows.
           (let srcCopier = the (port_find (fl_src flow) badSrcsToCopier);
                dstCopier = the (port_find (fl_dst flow) badDstsToCopier);
                copier = (if dstCopier \<noteq> None then dstCopier else srcCopier)
            in case copier of
                 Some x \<Rightarrow>
                   push_unless_found
                     (push_unless_found domainSafeFlows (Flow (fl_src flow) (makePort c t x ''0'')))
                     (Flow (makePort c t x ''0'') (fl_dst flow))
               | None \<Rightarrow> domainSafeFlows @ [flow])) flatFlows [])"

section \<open>Domain crossings keep the connections\<close>

type_synonym key = "string \<times> string"

definition port_key :: "'o Port \<Rightarrow> key" where
  "port_key p = (p_uid p, p_name p)"

definition connections :: "'o Flow list \<Rightarrow> (key \<times> key) set" where
  "connections flows = (\<lambda>f. (port_key (fl_src f), port_key (fl_dst f))) ` set flows"

text \<open>The connections between other blocks, directly or through one of the blocks with a uid in \<open>U\<close>.\<close>

definition bridged :: "string set \<Rightarrow> (key \<times> key) set \<Rightarrow> (key \<times> key) set" where
  "bridged U C = {(a, b) \<in> C. fst a \<notin> U \<and> fst b \<notin> U} \<union> {(a, b). \<exists>k. fst k \<in> U \<and> (a, k) \<in> C \<and> (k, b) \<in> C}"

lemma bridged_cases:
  assumes "e \<in> bridged U C"
  obtains "e \<in> C" "fst (fst e) \<notin> U" "fst (snd e) \<notin> U" | k where "fst k \<in> U" "(fst e, k) \<in> C" "(k, snd e) \<in> C"
  using assms by (force simp: bridged_def)

lemma Port_eq_key: "Port_eq p q \<longleftrightarrow> port_key p = port_key q"
  by (simp add: Port_eq_def port_key_def)

lemma Flow_eq_key: "Flow_eq f g \<longleftrightarrow> port_key (fl_src f) = port_key (fl_src g) \<and> port_key (fl_dst f) = port_key (fl_dst g)"
  by (auto simp: Flow_eq_def Port_eq_key)

lemma connections_simps [simp]:
  "connections [] = {}" "connections (fs @ gs) = connections fs \<union> connections gs"
  "connections (f # fs) = insert (port_key (fl_src f), port_key (fl_dst f)) (connections fs)"
  by (auto simp: connections_def)

lemma connections_push [simp]:
  "connections (push_unless_found fs f) = insert (port_key (fl_src f), port_key (fl_dst f)) (connections fs)"
  by (auto simp: push_unless_found_def flow_find_def list_ex_iff Flow_eq_key connections_def image_iff) (metis (full_types))

lemma port_find_put: "port_find k (port_put k' v m) = (if Port_eq k' k then Some v else port_find k m)"
  by (induction k' v m rule: port_put.induct) (auto simp: Port_eq_key)

lemma port_find_SomeD: "port_find k m = Some v \<Longrightarrow> \<exists>k'. (k', v) \<in> set m \<and> Port_eq k' k"
  by (induction k m rule: port_find.induct) (auto split: if_splits)

lemma port_put_values: "(k', v') \<in> set (port_put k v m) \<Longrightarrow> (k', v') \<in> set m \<or> v' = v \<and> Port_eq k' k"
  by (induction k v m rule: port_put.induct) (auto simp: Port_eq_key split: if_splits)

lemma port_put_keys: "(k', v') \<in> set (port_put k v m) \<Longrightarrow> k' = k \<or> (\<exists>v. (k', v) \<in> set m)"
  by (induction k v m rule: port_put.induct) (auto split: if_splits)

lemma port_find_push: "port_find k (port_push k' v m) \<noteq> None \<longleftrightarrow> Port_eq k' k \<or> port_find k m \<noteq> None"
  by (auto simp: port_push_def port_find_put)

text \<open>What the inspection records for a port: no copier, or the copier made for a port with the same key.\<close>

lemma domainInspection_find:
  assumes "port_find p ports \<noteq> None" and keys: "\<And>k v. (k, v) \<in> set ports \<Longrightarrow> k \<in> K"
  shows "\<exists>r. port_find p (domainInspection d newCopier ports isInput) = Some r
     \<and> (\<forall>x. r = Some x \<longrightarrow> (\<exists>k \<in> K. Port_eq k p \<and> x = newCopier isInput k))"
proof -
  define step where "step = (\<lambda>(k, subPorts) m. port_put k (getCopierForDomainCrossing d newCopier k subPorts isInput) m)"
  define good where "good r \<longleftrightarrow> (\<exists>s. r = Some s \<and> (\<forall>x. s = Some x \<longrightarrow> (\<exists>k \<in> K. Port_eq k p \<and> x = newCopier isInput k)))" for r
  have "good (port_find p (fold step ports m))"
    if "good (port_find p m) \<or> port_find p ports \<noteq> None" "\<And>k v. (k, v) \<in> set ports \<Longrightarrow> k \<in> K" for m
    using that
  proof (induction ports arbitrary: m)
    case (Cons kv ports)
    obtain k v where kv: "kv = (k, v)" by fastforce
    have "good (port_find p (step kv m)) \<or> port_find p ports \<noteq> None"
      using Cons.prems kv by (auto simp: step_def port_find_put getCopierForDomainCrossing_def good_def split: if_splits)
    from Cons.IH [OF this] show ?case using Cons.prems(2) by fastforce
  qed simp
  from this [of "[]"] assms show ?thesis by (simp add: domainInspection_def step_def good_def)
qed

lemma port_push_keys: "(k', v') \<in> set (port_push k v m) \<Longrightarrow> k' = k \<or> (\<exists>v. (k', v) \<in> set m)"
  by (auto simp: port_push_def dest: port_put_keys)

text \<open>Both maps have an entry for every port of their side, and their keys are such ports.\<close>

lemma push_loop:
  fixes sel :: "'o Flow \<Rightarrow> 'o Port" and oth :: "'o Flow \<Rightarrow> 'o Port"
  defines "inner \<equiv> \<lambda>all flow m. fold (\<lambda>subFlow m. if Port_eq (sel subFlow) (sel flow) then port_push (sel flow) (oth subFlow) m else m) all m"
  shows "port_find k m \<noteq> None \<Longrightarrow> port_find k (inner all flow m) \<noteq> None"
    and "flow \<in> set all \<Longrightarrow> port_find (sel flow) (inner all flow m) \<noteq> None"
    and "(k, v) \<in> set (inner all flow m) \<Longrightarrow> k = sel flow \<or> (\<exists>v. (k, v) \<in> set m)"
proof -
  show mono: "port_find k m \<noteq> None \<Longrightarrow> port_find k (inner all flow m) \<noteq> None" for k m all
    unfolding inner_def by (induction all arbitrary: m) (simp_all add: port_find_push del: not_None_eq)
  show "flow \<in> set all \<Longrightarrow> port_find (sel flow) (inner all flow m) \<noteq> None"
    unfolding inner_def
  proof (induction all arbitrary: m)
    case (Cons g all)
    show ?case
    proof (cases "g = flow")
      case True
      have "port_find (sel flow) (port_push (sel flow) (oth g) m) \<noteq> None" by (simp add: port_find_push Port_eq_key del: not_None_eq)
      then show ?thesis using mono [of "sel flow" "port_push (sel flow) (oth g) m" all] True by (simp add: inner_def Port_eq_key)
    qed (use Cons in simp)
  qed simp
  show "(k, v) \<in> set (inner all flow m) \<Longrightarrow> k = sel flow \<or> (\<exists>v. (k, v) \<in> set m)"
    unfolding inner_def
  proof (induction all arbitrary: m)
    case (Cons g all) then show ?case by (fastforce dest: port_push_keys split: if_splits)
  qed auto
qed

lemma push_loops:
  fixes sel :: "'o Flow \<Rightarrow> 'o Port" and oth :: "'o Flow \<Rightarrow> 'o Port"
  defines "inner \<equiv> \<lambda>all flow m. fold (\<lambda>subFlow m. if Port_eq (sel subFlow) (sel flow) then port_push (sel flow) (oth subFlow) m else m) all m"
  shows "set fs \<subseteq> set all \<Longrightarrow> f \<in> set fs \<or> port_find (sel f) m \<noteq> None \<Longrightarrow> port_find (sel f) (fold (inner all) fs m) \<noteq> None"
    and "(k, v) \<in> set (fold (inner all) fs m) \<Longrightarrow> k \<in> sel ` set fs \<or> (\<exists>v. (k, v) \<in> set m)"
proof -
  note loop = push_loop [where sel = sel and oth = oth]
  show "set fs \<subseteq> set all \<Longrightarrow> f \<in> set fs \<or> port_find (sel f) m \<noteq> None \<Longrightarrow> port_find (sel f) (fold (inner all) fs m) \<noteq> None"
  proof (induction fs arbitrary: m)
    case (Cons g fs)
    have "f \<in> set fs \<or> port_find (sel f) (inner all g m) \<noteq> None" 
    proof (cases "f = g")
      case True then show ?thesis using loop(2) [where flow = g and m = m and all = all] Cons.prems(1) by (simp add: inner_def)
    next
      case False then show ?thesis using loop(1) [where k = "sel f" and flow = g and m = m and all = all] Cons.prems(2) by (auto simp: inner_def)
    qed
    from Cons.IH [OF _ this] show ?case using Cons.prems by simp
  qed simp
  show "(k, v) \<in> set (fold (inner all) fs m) \<Longrightarrow> k \<in> sel ` set fs \<or> (\<exists>v. (k, v) \<in> set m)"
  proof (induction fs arbitrary: m)
    case (Cons g fs)
    then have "k \<in> sel ` set fs \<or> (\<exists>v. (k, v) \<in> set (inner all g m))" by simp
    then show ?case using loop(3) [where k = k and flow = g and m = m and all = all] by (auto simp: inner_def)
  qed auto
qed

lemma srcs_map_keys:
  "f \<in> set flows \<Longrightarrow> port_find (fl_src f) (srcs_map flows) \<noteq> None"
  "(k, v) \<in> set (srcs_map flows) \<Longrightarrow> k \<in> flow_ports flows"
  using push_loops [where sel = fl_src and oth = fl_dst and all = flows and fs = flows and m = "[]"]
  unfolding srcs_map_def flow_ports_def by auto

lemma dsts_map_keys:
  "f \<in> set flows \<Longrightarrow> port_find (fl_dst f) (dsts_map flows) \<noteq> None"
  "(k, v) \<in> set (dsts_map flows) \<Longrightarrow> k \<in> flow_ports flows"
  using push_loops [where sel = fl_dst and oth = fl_src and all = flows and fs = flows and m = "[]"]
  unfolding dsts_map_def flow_ports_def by auto

text \<open>The copier of a flow, as a function; its two connections replace the flow's.\<close>

definition flow_edges :: "('o, 's) Calls \<Rightarrow> 'o option \<Rightarrow> 'o Flow \<Rightarrow> (key \<times> key) set" where
  "flow_edges c copier f =
     (case copier of None \<Rightarrow> {(port_key (fl_src f), port_key (fl_dst f))}
      | Some x \<Rightarrow> {(port_key (fl_src f), (the (c_uid c x), ''0'')), ((the (c_uid c x), ''0''), port_key (fl_dst f))})"

definition copier_of :: "(bool \<Rightarrow> 'o Port \<Rightarrow> 'o) \<Rightarrow> 'o Flow list \<Rightarrow> 'o Flow \<Rightarrow> 'o option \<Rightarrow> bool" where
  "copier_of newCopier flows f copier \<longleftrightarrow> (\<forall>x. copier = Some x \<longrightarrow>
     (\<exists>k \<in> flow_ports flows. Port_eq k (fl_src f) \<and> x = newCopier False k \<or> Port_eq k (fl_dst f) \<and> x = newCopier True k))"

lemma port_key_makePort [simp]: "port_key (makePort c t x n) = (the (c_uid c x), n)"
  by (simp add: makePort_def port_key_def Let_def)

lemma rectify_edges:
  "\<exists>copier. (\<forall>f \<in> set flows. copier_of newCopier flows f (copier f))
     \<and> connections (rectifyDomainFlows c d newCopier t flows) = (\<Union>f \<in> set flows. flow_edges c (copier f) f)"
proof -
  define srcCopier where "srcCopier f = the (port_find (fl_src f) (domainInspection d newCopier (srcs_map flows) False))" for f
  define dstCopier where "dstCopier f = the (port_find (fl_dst f) (domainInspection d newCopier (dsts_map flows) True))" for f
  define copier where "copier f = (if dstCopier f \<noteq> None then dstCopier f else srcCopier f)" for f
  have "copier_of newCopier flows f (copier f)" if "f \<in> set flows" for f
    using domainInspection_find [OF srcs_map_keys(1) [OF that] srcs_map_keys(2), where d = d and newCopier = newCopier and isInput = False]
      domainInspection_find [OF dsts_map_keys(1) [OF that] dsts_map_keys(2), where d = d and newCopier = newCopier and isInput = True]
    by (fastforce simp: copier_of_def copier_def srcCopier_def dstCopier_def)
  moreover have "connections (rectifyDomainFlows c d newCopier t flows) = (\<Union>f \<in> set flows. flow_edges c (copier f) f)"
  proof -
    define step where "step = (\<lambda>flow domainSafeFlows. case copier flow of
         Some x \<Rightarrow> push_unless_found (push_unless_found domainSafeFlows (Flow (fl_src flow) (makePort c t x ''0'')))
                     (Flow (makePort c t x ''0'') (fl_dst flow))
       | None \<Rightarrow> domainSafeFlows @ [flow])"
    have "rectifyDomainFlows c d newCopier t flows = fold step flows []"
      unfolding rectifyDomainFlows_def Let_def step_def copier_def srcCopier_def dstCopier_def by (rule refl)
    moreover have "connections (fold step fs acc) = connections acc \<union> (\<Union>f \<in> set fs. flow_edges c (copier f) f)" for fs acc
      by (induction fs arbitrary: acc) (auto simp: step_def flow_edges_def split: option.splits)
    ultimately show ?thesis by simp
  qed
  ultimately show ?thesis by blast
qed

lemma shared_copier:
  assumes uniq: "\<forall>b b'. \<forall>p \<in> flow_ports flows. \<forall>q \<in> flow_ports flows.
      the (c_uid c (newCopier b p)) = the (c_uid c (newCopier b' q)) \<longrightarrow> b = b' \<and> Port_eq p q"
    and "copier_of newCopier flows f (Some x)" "copier_of newCopier flows g (Some y)" "the (c_uid c x) = the (c_uid c y)"
  shows "port_key (fl_src f) = port_key (fl_src g) \<or> port_key (fl_dst f) = port_key (fl_dst g)"
proof -
  obtain b k where k: "k \<in> flow_ports flows" "x = newCopier b k" "Port_eq k (if b then fl_dst f else fl_src f)"
    using assms(2) unfolding copier_of_def by fastforce
  obtain b' k' where k': "k' \<in> flow_ports flows" "y = newCopier b' k'" "Port_eq k' (if b' then fl_dst g else fl_src g)"
    using assms(3) unfolding copier_of_def by fastforce
  have "b = b' \<and> Port_eq k k'" using uniq k k' assms(4) by blast
  then show ?thesis using k(3) k'(3) by (auto simp: Port_eq_key split: if_splits)
qed

text \<open>
  C39. Rectifying domain crossings keeps the connections exactly: two block ports are connected by the rectified
  flows, directly or through one inserted copier, if and only if they were connected before. The copiers are new
  blocks with uids of their own, one per port and side.
\<close>

theorem rectifyDomainFlows_keeps_connections:
  assumes new: "\<forall>b. \<forall>p \<in> flow_ports flows. \<forall>q \<in> flow_ports flows. the (c_uid c (newCopier b p)) \<noteq> p_uid q"
    and uniq: "\<forall>b b'. \<forall>p \<in> flow_ports flows. \<forall>q \<in> flow_ports flows.
      the (c_uid c (newCopier b p)) = the (c_uid c (newCopier b' q)) \<longrightarrow> b = b' \<and> Port_eq p q"
  shows "bridged {the (c_uid c (newCopier b p)) | b p. p \<in> flow_ports flows} (connections (rectifyDomainFlows c d newCopier t flows))
    = connections flows"
proof -
  define U where "U = {the (c_uid c (newCopier b p)) | b p. p \<in> flow_ports flows}"
  obtain copier where cop: "\<And>f. f \<in> set flows \<Longrightarrow> copier_of newCopier flows f (copier f)"
    and conn: "connections (rectifyDomainFlows c d newCopier t flows) = (\<Union>f \<in> set flows. flow_edges c (copier f) f)"
    using rectify_edges [of flows newCopier c d t] by blast
  let ?E = "\<Union>f \<in> set flows. flow_edges c (copier f) f"
  have out: "fst (port_key (fl_src f)) \<notin> U" "fst (port_key (fl_dst f)) \<notin> U" if "f \<in> set flows" for f
    unfolding U_def port_key_def fst_conv mem_Collect_eq using new flow_ports_I [OF that] by (metis, metis)
  have copU: "the (c_uid c x) \<in> U" if "f \<in> set flows" "copier f = Some x" for f x
    using cop [OF that(1)] that(2) unfolding copier_of_def U_def by blast
  show ?thesis unfolding conn U_def [symmetric]
  proof (intro set_eqI iffI)
    fix e assume "e \<in> connections flows"
    then obtain f where f: "f \<in> set flows" "e = (port_key (fl_src f), port_key (fl_dst f))" by (auto simp: connections_def)
    have sub: "flow_edges c (copier f) f \<subseteq> ?E" using f by blast
    show "e \<in> bridged U ?E"
    proof (cases "copier f")
      case None
      then have "e \<in> ?E" using sub f(2) by (simp add: flow_edges_def)
      then show ?thesis using out [OF f(1)] f(2) unfolding bridged_def by blast
    next
      case (Some x)
      then have "(fst e, (the (c_uid c x), ''0'')) \<in> ?E" "((the (c_uid c x), ''0''), snd e) \<in> ?E"
        using sub f(2) unfolding flow_edges_def by auto
      then have "(fst e, snd e) \<in> {(a, b). \<exists>k. fst k \<in> U \<and> (a, k) \<in> ?E \<and> (k, b) \<in> ?E}" using copU [OF f(1) Some] by force
      then show ?thesis unfolding bridged_def by simp
    qed
  next
    fix e assume "e \<in> bridged U ?E"
    then show "e \<in> connections flows"
    proof (cases rule: bridged_cases)
      case 1
      then obtain f where "f \<in> set flows" "e \<in> flow_edges c (copier f) f" by blast
      then show ?thesis using 1(2,3) copU by (cases "copier f") (auto simp: flow_edges_def connections_def)
    next
      case (2 k)
      then obtain f g where fg: "f \<in> set flows" "(fst e, k) \<in> flow_edges c (copier f) f" "g \<in> set flows" "(k, snd e) \<in> flow_edges c (copier g) g"
        by blast
      then have "\<exists>x. copier f = Some x \<and> k = (the (c_uid c x), ''0'') \<and> fst e = port_key (fl_src f)"
        using 2(1) out by (cases "copier f") (auto simp: flow_edges_def)
      moreover have "\<exists>y. copier g = Some y \<and> k = (the (c_uid c y), ''0'') \<and> snd e = port_key (fl_dst g)"
        using fg 2(1) out by (cases "copier g") (auto simp: flow_edges_def)
      ultimately obtain x y where xy: "copier f = Some x" "copier g = Some y" "the (c_uid c x) = the (c_uid c y)"
          "fst e = port_key (fl_src f)" "snd e = port_key (fl_dst g)" by auto
      then have "port_key (fl_src f) = port_key (fl_src g) \<or> port_key (fl_dst f) = port_key (fl_dst g)"
        using shared_copier [OF uniq] cop [OF fg(1)] cop [OF fg(3)] by simp
      then show ?thesis using fg xy by (auto simp: connections_def image_iff prod_eq_iff)
    qed
  qed
qed

definition demo_flows :: "string Flow list" where
  "demo_flows = [Flow (Port (Some ''A'') ''0'' ''A'' []) (Port (Some ''B'') ''0'' ''B'' [])]"

definition demo_copier :: "bool \<Rightarrow> string Port \<Rightarrow> string" where
  "demo_copier b p = (if b then ''to '' else ''from '') @ p_uid p"

definition demo_domains :: "string Domains" where
  "demo_domains = \<lparr>d_domain = (\<lambda>p b. []), d_getBufferMode = (\<lambda>p dom b. if b then ''ABDICATE'' else ''ERROR'')\<rparr>"

lemma demo_rectified:
  "rectifyDomainFlows demo_calls demo_domains demo_copier demo_topology demo_flows =
     [Flow (Port (Some ''A'') ''0'' ''A'' []) (Port (Some ''from A'') ''0'' ''from A'' ''from A''),
      Flow (Port (Some ''from A'') ''0'' ''from A'' ''from A'') (Port (Some ''B'') ''0'' ''B'' [])]"
  by (simp add: rectifyDomainFlows_def demo_flows_def srcs_map_def dsts_map_def port_push_def domainInspection_def
      getCopierForDomainCrossing_def isDomainCrossingAcceptable_def demo_domains_def demo_copier_def demo_calls_def
      demo_topology_def Topology_new_def push_unless_found_def flow_find_def makePort_def Flow_eq_def Port_eq_def Let_def)

theorem rectifyDomainFlows_keeps_connections_witness:
  "connections (rectifyDomainFlows demo_calls demo_domains demo_copier demo_topology demo_flows)
     = {((''A'', ''0''), (''from A'', ''0'')), ((''from A'', ''0''), (''B'', ''0''))}
   \<and> bridged {the (c_uid demo_calls (demo_copier b p)) | b p. p \<in> flow_ports demo_flows}
       (connections (rectifyDomainFlows demo_calls demo_domains demo_copier demo_topology demo_flows)) = {((''A'', ''0''), (''B'', ''0''))}"
proof -
  have "connections demo_flows = {((''A'', ''0''), (''B'', ''0''))}" by (simp add: demo_flows_def port_key_def)
  moreover have "\<forall>b. \<forall>p \<in> flow_ports demo_flows. \<forall>q \<in> flow_ports demo_flows. the (c_uid demo_calls (demo_copier b p)) \<noteq> p_uid q"
    by (simp add: demo_flows_def demo_calls_def demo_copier_def)
  moreover have "\<forall>b b'. \<forall>p \<in> flow_ports demo_flows. \<forall>q \<in> flow_ports demo_flows.
      the (c_uid demo_calls (demo_copier b p)) = the (c_uid demo_calls (demo_copier b' q)) \<longrightarrow> b = b' \<and> Port_eq p q"
    by (simp add: demo_flows_def demo_calls_def demo_copier_def Port_eq_def)
  ultimately show ?thesis
    using rectifyDomainFlows_keeps_connections [of demo_flows demo_calls demo_copier demo_domains demo_topology]
    by (simp add: demo_rectified port_key_def insert_commute)
qed

end
