(* ===== verification/WorkerActor.thy ===== *)
theory WorkerActor
  imports PortAllocation
begin

section \<open>The worker actor: WorkerActor.cpp, Block.cpp\<close>

text \<open>
  One turn of a block: \<open>preWorkTasks\<close> prepares the port state and decides whether to call \<open>work\<close>,
  \<open>postWorkTasks\<close> propagates labels, consumes input and delivers what was produced.

  \<^item> The state is the actor (with its block) and the \<open>World\<close> of ports, heap and memory. \<open>None\<close> stands for
    undefined behaviour (division by a zero element size, a pointer array index out of range, a null
    manager) and for slot handlers that call each other forever.
  \<^item> What a block overrides is in the record \<open>Env\<close>: \<open>prepare\<close>, \<open>work\<close>, \<open>propagateLabels\<close>, \<open>activate\<close>,
    \<open>deactivate\<close> and the registered calls. \<open>work\<close> and \<open>propagateLabels\<close> may throw; the actor logs the exception,
    so they are functions to the state they leave behind. \<open>Block_propagateLabels\<close> is the default.
  \<^item> \<open>std::sort\<close> on labels is a sort by index that keeps the order of equal indices, one of the results the
    standard allows. Statistics on time are not modelled.
\<close>

type_synonym ('c, 'o) state = "'c WorkerActor \<times> 'o World"

record ('c, 'o, 'e, 't) Env =
  env_uniq :: "BufferChunk \<Rightarrow> bool"
  env_newChunk :: "size_t \<Rightarrow> BufferChunk"
  env_useCount :: "BufferChunk \<Rightarrow> size_t"
  env_prepare :: "('c, 'o) state \<Rightarrow> bool \<times> ('c, 'o) state"
  env_work :: "('c, 'o) state \<Rightarrow> ('c, 'o) state"
  env_propagateLabels :: "nat \<Rightarrow> ('c, 'o) state \<Rightarrow> ('c, 'o) state"
  env_activate :: "('c, 'o) state \<Rightarrow> ('e + unit) \<times> ('c, 'o) state"
  env_deactivate :: "('c, 'o) state \<Rightarrow> ('e + unit) \<times> ('c, 'o) state"
  env_argTypes :: "'c \<Rightarrow> 't list"
  env_canConvert :: "'o \<Rightarrow> 't \<Rightarrow> bool"
  env_invoke :: "'c \<Rightarrow> 'o list \<Rightarrow> ('c, 'o) state \<Rightarrow> ('e + 'o) \<times> ('c, 'o) state"
  env_isNull :: "'o \<Rightarrow> bool"
  env_args :: "'o \<Rightarrow> 'o list option"
  env_vector :: "'o list \<Rightarrow> 'o"

subsection \<open>State access\<close>

definition upd_in :: "nat \<Rightarrow> 'o InputPort \<Rightarrow> 'o World \<Rightarrow> 'o World" where
  "upd_in a p w = w\<lparr>w_in := (w_in w)(a := p)\<rparr>"

definition upd_out :: "nat \<Rightarrow> 'o OutputPort \<Rightarrow> 'o World \<Rightarrow> 'o World" where
  "upd_out a p w = w\<lparr>w_out := (w_out w)(a := p)\<rparr>"

definition input_ports :: "'c WorkerActor \<Rightarrow> nat list" where
  "input_ports wa = map snd (pt_ports (wa_inputs wa))"

definition output_ports :: "'c WorkerActor \<Rightarrow> nat list" where
  "output_ports wa = map snd (pt_ports (wa_outputs wa))"

definition flagInternalChange :: "'c WorkerActor \<Rightarrow> 'c WorkerActor" where
  "flagInternalChange wa = wa\<lparr>wa_changeFlagged := True\<rparr>"

definition bumpActivity :: "'c WorkerActor \<Rightarrow> 'c WorkerActor" where
  "bumpActivity wa = wa\<lparr>wa_activityIndicator := wa_activityIndicator wa + 1\<rparr>"

subsection \<open>Slot calls\<close>

definition Block_handler ::
  "('c, 'o, 'e, 't) Env \<Rightarrow> string \<Rightarrow> 'o list \<Rightarrow> ('c, 'o) state \<Rightarrow> ('e call_error + 'o) \<times> ('c, 'o) state" where
  "Block_handler env name args s = opaqueCallHandler (env_argTypes env) (env_canConvert env) (env_invoke env) (wa_calls (fst s)) name args s"

text \<open>\<open>opaqueCallMethod\<close>: a call of a signal posts the arguments, anything else is a registered call.\<close>

definition opaqueCallMethod ::
  "('c, 'o, 'e, 't) Env \<Rightarrow> string \<Rightarrow> 'o list \<Rightarrow> ('c, 'o) state \<Rightarrow> (('e call_error + 'o option) \<times> ('c, 'o) state) option" where
  "opaqueCallMethod env name args = (\<lambda>(wa, w).
     case map_of (pt_ports (wa_outputs wa)) name of
       Some a \<Rightarrow>
         if op_isSignal (w_out w a) then do {
           (p, h, ins) \<leftarrow> OutputPort_postMessage (\<lambda>m. env_args env m \<noteq> None) (env_vector env args) (w_out w a, w_heap w, w_in w);
           Some (Inr None, wa, w\<lparr>w_out := (w_out w)(a := p), w_heap := h, w_in := ins\<rparr>) }
         else (case Block_handler env name args (wa, w) of (Inl e, s) \<Rightarrow> Some (Inl e, s) | (Inr r, s) \<Rightarrow> Some (Inr (Some r), s))
     | None \<Rightarrow>
         (case Block_handler env name args (wa, w) of (Inl e, s) \<Rightarrow> Some (Inl e, s) | (Inr r, s) \<Rightarrow> Some (Inr (Some r), s)))"

text \<open>The body of the loop of \<open>handleSlotCalls\<close>; an exception is logged and the loop goes on.\<close>

definition slot_effect :: "('c, 'o, 'e, 't) Env \<Rightarrow> string \<Rightarrow> 'o \<Rightarrow> ('c, 'o) state \<Rightarrow> ('c, 'o) state option" where
  "slot_effect env name call s =
     (case env_args env call of
        None \<Rightarrow> Some s
      | Some args \<Rightarrow>
          (case wa_probes (fst s) name of
             Some (callName, signalName) \<Rightarrow>
               (case Block_handler env callName args s of
                  (Inl e, s) \<Rightarrow> Some s
                | (Inr result, s) \<Rightarrow> map_option snd (opaqueCallMethod env signalName (if env_isNull env result then [] else [result]) s))
           | None \<Rightarrow>
               (case Block_handler env name args s of
                  (Inl e, s) \<Rightarrow> Some s
                | (Inr result, wa, w) \<Rightarrow> Some (bumpActivity (flagInternalChange wa), w))))"

definition slot_call_step :: "('c, 'o, 'e, 't) Env \<Rightarrow> nat \<Rightarrow> ('c, 'o) state \<Rightarrow> ('c, 'o) state option" where
  "slot_call_step env a = (\<lambda>(wa, w). do {
     (call, p) \<leftarrow> slotCallsPop (w_in w a);
     slot_effect env (ip_name p) call (wa, upd_in a p w) })"

partial_function (option) handleSlotCalls :: "('c, 'o, 'e, 't) Env \<Rightarrow> nat \<Rightarrow> ('c, 'o) state \<Rightarrow> ('c, 'o) state option" where
  "handleSlotCalls env a s =
     (if slotCallsEmpty (w_in (snd s) a) then Some s
      else Option.bind (slot_call_step env a s) (handleSlotCalls env a))"

subsection \<open>Before work\<close>

abbreviation (input) BIG :: nat where "BIG \<equiv> 1073741824"

text \<open>The choice of the output buffer: the input's own buffer when read-before-write allows it, or the manager's.\<close>

definition choose_buffer :: "('c, 'o, 'e, 't) Env \<Rightarrow> 'o OutputPort \<Rightarrow> 'o World \<Rightarrow> 'o OutputPort \<times> 'o World" where
  "choose_buffer env port w =
     (let tryRBW = (case op_readBeforeWritePort port of
                      None \<Rightarrow> False | Some q \<Rightarrow> DType_size (op_dtype port) = DType_size (ip_dtype (w_in w q)));
          (port, w) = (if tryRBW then
                         (let q = the (op_readBeforeWritePort port);
                              (front, inp) = bufferAccumulatorFront ((w_in w q)\<lparr>ip_buffer := BufferChunk_null\<rparr>)
                          in (port\<lparr>op_buffer := front\<rparr>, upd_in q inp w))
                       else (port, w));
          buf = op_buffer port
      in if tryRBW \<and> env_useCount env buf = 2 \<and> BufferChunk_getEnd buf \<le> SharedBuffer_getEnd (chunk_buffer (w_heap w) buf)
         then (port\<lparr>op_bufferFromManager := False\<rparr>, w)
         else if bufferManagerEmpty port then (port\<lparr>op_buffer := BufferChunk_null, op_bufferFromManager := False\<rparr>, w)
         else (port\<lparr>op_buffer := bufferManagerFront port, op_bufferFromManager := True\<rparr>, w))"

definition preWork_output :: "('c, 'o, 'e, 't) Env \<Rightarrow> nat \<Rightarrow> ('c, 'o) state \<Rightarrow> (bool \<times> ('c, 'o) state) option" where
  "preWork_output env a = (\<lambda>(wa, w).
     let port = (w_out w a)\<lparr>op_workEvents := 0\<rparr> in
     if tokenManagerEmpty port then Some (False, wa, upd_out a port w)
     else if op_isSignal port then Some (True, wa, upd_out a port w)
     else do {
       let (port, w) = choose_buffer env port w;
       let port = port\<lparr>op_buffer := (op_buffer port)\<lparr>bc_dtype := op_dtype port\<rparr>\<rparr>;
       n \<leftarrow> BufferChunk_elements (op_buffer port);
       let port = port\<lparr>op_elements := n\<rparr>;
       if n = 0 then Some (False, wa, upd_out a port w)
       else do {
         let port = port\<lparr>op_pendingElements := 0\<rparr>;
         let wi = wa_workInfo wa;
         wi \<leftarrow> (if op_index port \<noteq> - 1 then
                  (if nat (op_index port) < length (wi_outputPointers wi) then
                     Some (wi\<lparr>wi_outputPointers := (wi_outputPointers wi)[nat (op_index port) := bc_address (op_buffer port)],
                              wi_minOutElements := min (wi_minOutElements wi) n\<rparr>)
                   else None)
                else Some wi);
         let wi = wi\<lparr>wi_minAllOutElements := min (wi_minAllOutElements wi) n\<rparr>;
         Some (True, wa\<lparr>wa_workInfo := wi\<rparr>, upd_out a port w) } })"

fun preWork_outputs :: "('c, 'o, 'e, 't) Env \<Rightarrow> nat list \<Rightarrow> ('c, 'o) state \<Rightarrow> (bool \<times> ('c, 'o) state) option" where
  "preWork_outputs env [] s = Some (True, s)"
| "preWork_outputs env (a # as) s = do {
     (go, s) \<leftarrow> preWork_output env a s;
     if go then preWork_outputs env as s else Some (False, s) }"

record Decision =
  de_hasBufferedPorts :: bool
  de_reserveReached :: bool
  de_hasInputMessage :: bool

definition preWork_input :: "('c, 'o, 'e, 't) Env \<Rightarrow> nat \<Rightarrow> Decision \<times> ('c, 'o) state \<Rightarrow> (Decision \<times> ('c, 'o) state) option" where
  "preWork_input env a = (\<lambda>(de, wa, w).
     let port = (w_in w a)\<lparr>ip_workEvents := 0\<rparr>; w = upd_in a port w in
     if ip_isSlot port then map_option (Pair de) (handleSlotCalls env a (wa, w))
     else do {
       let size = DType_size (ip_dtype port);
       let requireElems = max 1 (ip_reserveElements port);
       let (port, mem) = bufferAccumulatorRequire (w_heap w) (env_uniq env) (env_newChunk env) (sz_mul requireElems size) (port, w_mem w);
       let w = w\<lparr>w_mem := mem\<rparr>;
       let (front, port) = bufferAccumulatorFront port;
       if size = 0 then None
       else do {
         let n = bc_length front div size;
         let port = port\<lparr>ip_buffer := front, ip_elements := n, ip_pendingElements := 0, ip_labelIter := ip_inlineMessages port\<rparr>;
         let de = \<lparr>de_hasBufferedPorts = True, de_reserveReached = (de_reserveReached de \<or> ip_reserveElements port \<le> n),
                   de_hasInputMessage = (de_hasInputMessage de \<or> \<not> asyncMessagesEmpty port)\<rparr>;
         let wi = wa_workInfo wa;
         wi \<leftarrow> (if ip_index port \<noteq> - 1 then
                  (if nat (ip_index port) < length (wi_inputPointers wi) then
                     Some (wi\<lparr>wi_inputPointers := (wi_inputPointers wi)[nat (ip_index port) := bc_address front],
                              wi_minInElements := min (wi_minInElements wi) n\<rparr>)
                   else None)
                else Some wi);
         let wi = wi\<lparr>wi_minAllInElements := min (wi_minAllInElements wi) n\<rparr>;
         Some (de, wa\<lparr>wa_workInfo := wi\<rparr>, upd_in a port w) } })"

definition preWorkTasks :: "('c, 'o, 'e, 't) Env \<Rightarrow> ('c, 'o) state \<Rightarrow> (bool \<times> ('c, 'o) state) option" where
  "preWorkTasks env = (\<lambda>(wa, w). do {
     let wa = wa\<lparr>wa_workInfo := (wa_workInfo wa)\<lparr>wi_minOutElements := BIG, wi_minAllOutElements := BIG\<rparr>\<rparr>;
     (go, wa, w) \<leftarrow> preWork_outputs env (output_ports wa) (wa, w);
     if \<not> go then Some (False, wa, w)
     else do {
       let wa = wa\<lparr>wa_workInfo := (wa_workInfo wa)\<lparr>wi_minInElements := BIG, wi_minAllInElements := BIG\<rparr>\<rparr>;
       (de, wa, w) \<leftarrow> fold_opt (preWork_input env) (input_ports wa)
          (\<lparr>de_hasBufferedPorts = False, de_reserveReached = False, de_hasInputMessage = False\<rparr>, wa, w);
       let wi = wa_workInfo wa;
       let wi = wi\<lparr>wi_minElements := min (wi_minInElements wi) (wi_minOutElements wi),
                   wi_minAllElements := min (wi_minAllInElements wi) (wi_minAllOutElements wi), wi_maxTimeoutNs := 1000000\<rparr>;
       Some (de_reserveReached de \<or> de_hasInputMessage de \<or> \<not> de_hasBufferedPorts de, wa\<lparr>wa_workInfo := wi\<rparr>, w) } })"

subsection \<open>After work\<close>

text \<open>Labels before the consumed position are counted; the others move to their new position.\<close>

definition shift_label :: "size_t \<Rightarrow> 'o Label \<Rightarrow> 'o Label" where
  "shift_label pending l = (if lb_index l < pending then l else l\<lparr>lb_index := sz_sub (lb_index l) pending\<rparr>)"

definition postWork_labels :: "('c, 'o, 'e, 't) Env \<Rightarrow> nat \<Rightarrow> ('c, 'o) state \<Rightarrow> ('c, 'o) state" where
  "postWork_labels env a = (\<lambda>(wa, w).
     let port = w_in w a;
         pending = ip_pendingElements port;
         numLabels = length (filter (\<lambda>l. lb_index l < pending) (ip_inlineMessages port));
         allLabels = map (shift_label pending) (ip_inlineMessages port);
         port = port\<lparr>ip_inlineMessages := allLabels\<rparr>
     in if numLabels = 0 then (wa, upd_in a port w)
        else
          (let (wa, w) = env_propagateLabels env a (wa, upd_in a (port\<lparr>ip_labelIter := take numLabels allLabels\<rparr>) w);
               port = w_in w a;
               port = port\<lparr>ip_inlineMessages := drop numLabels (ip_inlineMessages port),
                           ip_totalLabels := sz_add (ip_totalLabels port) numLabels\<rparr>
           in (wa, upd_in a port w)))"

definition postWork_input :: "('c, 'o, 'e, 't) Env \<Rightarrow> nat \<Rightarrow> size_t \<times> ('c, 'o) state \<Rightarrow> size_t \<times> ('c, 'o) state" where
  "postWork_input env a = (\<lambda>(events, wa, w).
     let bytes = sz_mul (ip_pendingElements (w_in w a)) (DType_size (ip_dtype (w_in w a)));
         (wa, w) = postWork_labels env a (wa, w);
         port = w_in w a;
         port = (if bytes \<noteq> 0 then bufferAccumulatorPop (w_heap w) bytes port else port);
         port = port\<lparr>ip_buffer := BufferChunk_null, ip_totalElements := sz_add (ip_totalElements port) (ip_pendingElements port)\<rparr>
     in (sz_add events (ip_workEvents port), wa, upd_in a port w))"

text \<open>Sending the produced part of the output buffer, and the reserve rule.\<close>

definition produce_buffer :: "'o OutputPort \<times> Heap \<Rightarrow> ('o OutputPort \<times> Heap) option" where
  "produce_buffer = (\<lambda>(port, h).
     let pendingBytes = sz_mul (op_pendingElements port) (DType_size (bc_dtype (op_buffer port))) in
     if pendingBytes \<noteq> 0 then do {
       let buffer = (op_buffer port)\<lparr>bc_length := pendingBytes\<rparr>;
       let port = port\<lparr>op_buffer := buffer\<rparr>;
       let capacity = sb_length (chunk_buffer h buffer);
       (port, h) \<leftarrow>
         (if \<not> op_bufferFromManager port then Some (port, h)
          else if capacity < bc_length buffer then Some (port, h)
          else if op_reserveElements port \<noteq> 0 \<and> chunk_alias h buffer = 0
                  \<and> sz_sub (op_elements port) (op_pendingElements port) < op_reserveElements port
          then bufferManagerPop capacity (port, h)
          else bufferManagerPop (bc_length buffer) (port, h));
       port \<leftarrow> OutputPort_postBuffer buffer port;
       Some (port\<lparr>op_buffer := BufferChunk_moved_from buffer\<rparr>, h) }
     else if op_workEvents port \<noteq> 0 \<and> op_reserveElements port \<noteq> 0 \<and> chunk_alias h (op_buffer port) = 0 then
       (let buffer = bufferManagerFront port in
        if bc_length buffer \<noteq> 0 \<and> bc_length buffer < sz_mul (op_reserveElements port) (DType_size (op_dtype port))
        then bufferManagerPop (bc_length buffer) (port, h)
        else Some (port, h))
     else Some (port, h))"

text \<open>The containers are moved into the last subscriber and copied to the others.\<close>

fun push_to_subscribers ::
  "Heap \<Rightarrow> nat list \<Rightarrow> 'o Label list \<Rightarrow> BufferChunk list \<Rightarrow> (nat \<Rightarrow> 'o InputPort) \<Rightarrow> (nat \<Rightarrow> 'o InputPort)" where
  "push_to_subscribers h [] labels buffers ins = ins"
| "push_to_subscribers h (s # ss) labels buffers ins =
     (let (p, labels, buffers) = bufferLabelPush h (ss = []) labels buffers (ins s)
      in push_to_subscribers h ss labels buffers (ins(s := p)))"

definition postWork_output :: "nat \<Rightarrow> size_t \<times> 'o World \<Rightarrow> (size_t \<times> 'o World) option" where
  "postWork_output a = (\<lambda>(events, w). do {
     (port, h) \<leftarrow> produce_buffer (w_out w a, w_heap w);
     let w = w\<lparr>w_heap := h\<rparr>;
     let port = port\<lparr>op_buffer := BufferChunk_null\<rparr>;
     let postedLabels = sort_key lb_index (op_postedLabels port);
     let w = (if postedLabels \<noteq> [] \<or> op_postedBuffers port \<noteq> [] then
                w\<lparr>w_in := push_to_subscribers h (op_subscribers port) postedLabels (op_postedBuffers port) (w_in w)\<rparr>
              else w);
     let port = port\<lparr>op_postedLabels := [], op_postedBuffers := []\<rparr>;
     Some (sz_add events (op_workEvents port), upd_out a port w) })"

definition postWorkTasks :: "('c, 'o, 'e, 't) Env \<Rightarrow> ('c, 'o) state \<Rightarrow> ('c, 'o) state option" where
  "postWorkTasks env = (\<lambda>(wa, w). do {
     let (inputWorkEvents, wa, w) = fold (postWork_input env) (input_ports wa) (0, wa, w);
     let wa = (if inputWorkEvents \<noteq> 0 then bumpActivity (flagInternalChange wa) else wa);
     (outputWorkEvents, w) \<leftarrow> fold_opt postWork_output (output_ports wa) (0, w);
     let wa = (if outputWorkEvents \<noteq> 0 then bumpActivity (flagInternalChange wa) else wa);
     Some (wa, w) })"

text \<open>The default of \<open>propagateLabels\<close>: post every consumed label on every output that is not a signal.\<close>

definition Block_propagateLabels :: "nat \<Rightarrow> ('c, 'o) state \<Rightarrow> ('c, 'o) state" where
  "Block_propagateLabels a = (\<lambda>(wa, w).
     (wa, fold (\<lambda>b w. if op_isSignal (w_out w b) then w
                      else upd_out b (fold OutputPort_postLabel (ip_labelIter (w_in w a)) (w_out w b)) w)
            (output_ports wa) w))"

subsection \<open>One turn\<close>

definition workTask :: "('c, 'o, 'e, 't) Env \<Rightarrow> ('c, 'o) state \<Rightarrow> ('c, 'o) state option" where
  "workTask env = (\<lambda>(wa, w).
     if \<not> wa_activeState wa then Some (wa, w)
     else let (ready, wa, w) = env_prepare env (wa, w) in
       if \<not> ready then Some (wa, w)
       else do {
         let wa = wa\<lparr>wa_numTaskCalls := sz_add (wa_numTaskCalls wa) 1\<rparr>;
         (go, wa, w) \<leftarrow> preWorkTasks env (wa, w);
         if \<not> go then Some (wa, w)
         else do {
           let wa = wa\<lparr>wa_numWorkCalls := sz_add (wa_numWorkCalls wa) 1\<rparr>;
           postWorkTasks env (env_work env (wa, w)) } })"

subsection \<open>Buffer managers, subscription and activation\<close>

text \<open>
  \<open>localManager name\<close> is the manager \<open>getBufferManagerNoLock(name, "", false)\<close> returns, or \<open>None\<close> when it throws.
  \<open>actor_error\<close> has the exceptions of these calls.
\<close>

datatype 'e actor_error = OutOfRangeAt | SubscriptionError | NoBufferManager | BlockThrew 'e

definition setOutputBufferManager ::
  "string \<Rightarrow> Manager option \<Rightarrow> ('c, 'o) state \<Rightarrow> 'e actor_error option \<times> ('c, 'o) state" where
  "setOutputBufferManager name manager = (\<lambda>(wa, w).
     case map_of (pt_ports (wa_outputs wa)) name of
       None \<Rightarrow> (Some OutOfRangeAt, wa, w)
     | Some a \<Rightarrow> (None, wa, upd_out a ((w_out w a)\<lparr>op_bufferManager := manager\<rparr>) w))"

definition ensureOutputBufferManager ::
  "(string \<Rightarrow> Manager option) \<Rightarrow> string \<Rightarrow> ('c, 'o) state \<Rightarrow> 'e actor_error option \<times> ('c, 'o) state" where
  "ensureOutputBufferManager localManager name = (\<lambda>(wa, w).
     case map_of (pt_ports (wa_outputs wa)) name of
       None \<Rightarrow> (Some OutOfRangeAt, wa, w)
     | Some a \<Rightarrow>
         if op_isSignal (w_out w a) then (None, wa, w)
         else
           (let w = (if op_subscribers (w_out w a) = [] then upd_out a ((w_out w a)\<lparr>op_bufferManager := localManager name\<rparr>) w else w)
            in (if op_bufferManager (w_out w a) = None then Some NoBufferManager else None, wa, w)))"

definition subscribe_list :: "string \<Rightarrow> 'p \<Rightarrow> 'p list \<Rightarrow> 'p list option" where
  "subscribe_list action p subscribers =
     (let found = (p \<in> set subscribers) in
      if action = ''add'' then (if found then None else Some (subscribers @ [p]))
      else if action = ''remove'' then (if found then Some (remove1 p subscribers) else None)
      else Some subscribers)"

definition subscribeInput ::
  "(string \<Rightarrow> Manager option) \<Rightarrow> string \<Rightarrow> string \<Rightarrow> nat \<Rightarrow> ('c, 'o) state \<Rightarrow> 'e actor_error option \<times> ('c, 'o) state" where
  "subscribeInput localManager action myPortName inputPort = (\<lambda>(wa, w).
     case map_of (pt_ports (wa_outputs wa)) myPortName of
       None \<Rightarrow> (Some OutOfRangeAt, wa, w)
     | Some a \<Rightarrow>
         (case subscribe_list action inputPort (op_subscribers (w_out w a)) of
            None \<Rightarrow> (Some SubscriptionError, wa, w)
          | Some subs \<Rightarrow>
              (let w = upd_out a ((w_out w a)\<lparr>op_subscribers := subs\<rparr>) w in
               if subs = [] then
                 (case ensureOutputBufferManager localManager myPortName (wa, w) of
                    (Some e, s) \<Rightarrow> (Some e, s)
                  | (None, wa, w) \<Rightarrow> (None, updatePorts wa, w))
               else (None, updatePorts wa, w))))"

definition subscribeOutput ::
  "string \<Rightarrow> string \<Rightarrow> nat \<Rightarrow> ('c, 'o) state \<Rightarrow> 'e actor_error option \<times> ('c, 'o) state" where
  "subscribeOutput action myPortName outputPort = (\<lambda>(wa, w).
     case map_of (pt_ports (wa_inputs wa)) myPortName of
       None \<Rightarrow> (Some OutOfRangeAt, wa, w)
     | Some a \<Rightarrow>
         (case subscribe_list action outputPort (ip_subscribers (w_in w a)) of
            None \<Rightarrow> (Some SubscriptionError, wa, w)
          | Some subs \<Rightarrow> (None, updatePorts wa, upd_in a ((w_in w a)\<lparr>ip_subscribers := subs\<rparr>) w)))"

fun ensure_all ::
  "(string \<Rightarrow> Manager option) \<Rightarrow> string list \<Rightarrow> ('c, 'o) state \<Rightarrow> 'e actor_error option \<times> ('c, 'o) state" where
  "ensure_all localManager [] s = (None, s)"
| "ensure_all localManager (n # ns) s =
     (case ensureOutputBufferManager localManager n s of
        (Some e, s) \<Rightarrow> (Some e, s)
      | (None, s) \<Rightarrow> ensure_all localManager ns s)"

definition setActiveStateOn ::
  "('c, 'o, 'e, 't) Env \<Rightarrow> (string \<Rightarrow> Manager option) \<Rightarrow> ('c, 'o) state \<Rightarrow> 'e actor_error option \<times> ('c, 'o) state" where
  "setActiveStateOn env localManager = (\<lambda>(wa, w).
     case ensure_all localManager (map fst (pt_ports (wa_outputs wa))) (wa, w) of
       (Some e, s) \<Rightarrow> (Some e, s)
     | (None, wa, w) \<Rightarrow>
         (case env_activate env (wa\<lparr>wa_activeState := True\<rparr>, w) of
            (Inl e, wa, w) \<Rightarrow> (Some (BlockThrew e), wa\<lparr>wa_activeState := False\<rparr>, w)
          | (Inr _, wa, w) \<Rightarrow> (None, bumpActivity wa, w)))"

definition setActiveStateOff :: "('c, 'o, 'e, 't) Env \<Rightarrow> ('c, 'o) state \<Rightarrow> 'e actor_error option \<times> ('c, 'o) state" where
  "setActiveStateOff env = (\<lambda>(wa, w).
     if \<not> wa_activeState wa then (None, wa, w)
     else (case env_deactivate env (wa\<lparr>wa_activeState := False\<rparr>, w) of
             (Inl e, wa, w) \<Rightarrow> (Some (BlockThrew e), wa, w)
           | (Inr _, wa, w) \<Rightarrow> (None, bumpActivity wa, w)))"

subsection \<open>What pre-work establishes\<close>

definition out_ready :: "'o OutputPort \<Rightarrow> bool" where
  "out_ready p \<longleftrightarrow> 1 \<le> op_elements p \<and> BufferChunk_elements (op_buffer p) = Some (op_elements p)
     \<and> bc_dtype (op_buffer p) = op_dtype p \<and> op_pendingElements p = 0"

definition in_ready :: "'o InputPort \<Rightarrow> bool" where
  "in_ready p \<longleftrightarrow> ip_elements p = bc_length (ip_buffer p) div DType_size (ip_dtype p) \<and> 0 < DType_size (ip_dtype p)
     \<and> ip_buffer p = BufferAccumulator_front (ip_accumulator p) \<and> ip_pendingElements p = 0
     \<and> ip_labelIter p = ip_inlineMessages p \<and> ip_inputInlineMessages p = []"

definition out_elems :: "bool \<Rightarrow> nat list \<Rightarrow> 'o World \<Rightarrow> nat set" where
  "out_elems indexed as w =
     set (map (\<lambda>a. op_elements (w_out w a)) (filter (\<lambda>a. \<not> op_isSignal (w_out w a) \<and> (indexed \<longrightarrow> op_index (w_out w a) \<noteq> - 1)) as))"

definition in_elems :: "bool \<Rightarrow> nat list \<Rightarrow> 'o World \<Rightarrow> nat set" where
  "in_elems indexed as w =
     set (map (\<lambda>a. ip_elements (w_in w a)) (filter (\<lambda>a. \<not> ip_isSlot (w_in w a) \<and> (indexed \<longrightarrow> ip_index (w_in w a) \<noteq> - 1)) as))"

lemma Min_insert_Min:
  assumes "finite A" "finite B"
  shows "Min (insert (Min (insert m A)) B) = Min (insert (m :: nat) (A \<union> B))"
proof (cases "B = {}")
  case False
  then show ?thesis using assms Min_Un [of "insert m A" B] by (simp flip: Un_insert_left)
qed simp

lemma upd_simps [simp]:
  "w_in (upd_in a p w) = (w_in w)(a := p)" "w_out (upd_in a p w) = w_out w" "w_heap (upd_in a p w) = w_heap w" "w_mem (upd_in a p w) = w_mem w"
  "w_out (upd_out a q w) = (w_out w)(a := q)" "w_in (upd_out a q w) = w_in w" "w_heap (upd_out a q w) = w_heap w" "w_mem (upd_out a q w) = w_mem w"
  by (simp_all add: upd_in_def upd_out_def)

text \<open>What choosing a buffer leaves alone.\<close>

definition same_slots :: "'o World \<Rightarrow> 'o World \<Rightarrow> bool" where
  "same_slots w w' \<longleftrightarrow> (\<forall>b. ip_isSlot (w_in w' b) = ip_isSlot (w_in w b) \<and> ip_slotCalls (w_in w' b) = ip_slotCalls (w_in w b))"

lemma choose_buffer_frame:
  assumes "choose_buffer env port w = (port', w')"
  shows "op_isSignal port' = op_isSignal port" "op_index port' = op_index port" "op_dtype port' = op_dtype port"
    "w_out w' = w_out w" "same_slots w w'" "op_subscribers port' = op_subscribers port"
  using assms by (auto simp: choose_buffer_def Let_def bufferAccumulatorFront_def same_slots_def split: if_splits option.splits)

definition ready_port :: "size_t \<Rightarrow> 'o OutputPort \<Rightarrow> 'o OutputPort" where
  "ready_port n p = p\<lparr>op_buffer := (op_buffer p)\<lparr>bc_dtype := op_dtype p\<rparr>, op_elements := n, op_pendingElements := 0\<rparr>"

definition note_out :: "int \<Rightarrow> size_t \<Rightarrow> size_t \<Rightarrow> WorkInfo \<Rightarrow> WorkInfo" where
  "note_out idx addr n wi =
     (let wi = (if idx = - 1 then wi else wi\<lparr>wi_outputPointers := (wi_outputPointers wi)[nat idx := addr], wi_minOutElements := min (wi_minOutElements wi) n\<rparr>)
      in wi\<lparr>wi_minAllOutElements := min (wi_minAllOutElements wi) n\<rparr>)"

lemma preWork_output_cases:
  assumes "preWork_output env a (wa, w) = Some (True, wa', w')" "\<not> op_isSignal (w_out w a)"
  obtains port w1 n where "choose_buffer env ((w_out w a)\<lparr>op_workEvents := 0\<rparr>) w = (port, w1)" "n \<noteq> 0"
    "BufferChunk_elements ((op_buffer port)\<lparr>bc_dtype := op_dtype port\<rparr>) = Some n" "w' = upd_out a (ready_port n port) w1"
    "wa' = wa\<lparr>wa_workInfo := note_out (op_index port) (bc_address (op_buffer port)) n (wa_workInfo wa)\<rparr>"
proof -
  obtain port w1 where c: "choose_buffer env ((w_out w a)\<lparr>op_workEvents := 0\<rparr>) w = (port, w1)" by force
  let ?b = "(op_buffer port)\<lparr>bc_dtype := op_dtype port\<rparr>"
  have nt: "\<not> tokenManagerEmpty ((w_out w a)\<lparr>op_workEvents := 0\<rparr>)"
    using assms by (auto simp: preWork_output_def Let_def split: if_splits)
  obtain n where n: "BufferChunk_elements ?b = Some n"
    using assms nt c by (cases "BufferChunk_elements ?b") (auto simp: preWork_output_def Let_def)
  show thesis
    using assms nt c n by (intro that [OF c _ n]) (auto simp: preWork_output_def Let_def ready_port_def note_out_def split: if_splits)
qed

text \<open>The effect of preparing the outputs \<open>as\<close>, and its composition along the list.\<close>

definition outs_done :: "nat list \<Rightarrow> ('c, 'o) state \<Rightarrow> ('c, 'o) state \<Rightarrow> bool" where
  "outs_done as s s' \<longleftrightarrow>
     (let w = snd s; w' = snd s' in
      (\<forall>b. b \<notin> set as \<longrightarrow> w_out w' b = w_out w b)
      \<and> (\<forall>a \<in> set as. op_isSignal (w_out w' a) = op_isSignal (w_out w a) \<and> op_index (w_out w' a) = op_index (w_out w a)
           \<and> (\<not> op_isSignal (w_out w' a) \<longrightarrow> out_ready (w_out w' a)))
      \<and> wa_inputs (fst s') = wa_inputs (fst s) \<and> same_slots w w'
      \<and> wi_minAllOutElements (wa_workInfo (fst s')) = Min (insert (wi_minAllOutElements (wa_workInfo (fst s))) (out_elems False as w'))
      \<and> wi_minOutElements (wa_workInfo (fst s')) = Min (insert (wi_minOutElements (wa_workInfo (fst s))) (out_elems True as w')))"

lemma finite_elems [simp]: "finite (out_elems i as w)" "finite (in_elems i as w)"
  by (simp_all add: out_elems_def in_elems_def)

lemma preWork_output_done:
  assumes "preWork_output env a (wa, w) = Some (True, wa', w')"
  shows "outs_done [a] (wa, w) (wa', w')"
proof (cases "op_isSignal (w_out w a)")
  case True
  then have "wa' = wa" "w' = upd_out a ((w_out w a)\<lparr>op_workEvents := 0\<rparr>) w"
    using assms by (auto simp: preWork_output_def Let_def split: if_splits)
  then show ?thesis using True by (simp add: same_slots_def outs_done_def out_elems_def)
next
  case False
  obtain port w1 n where p: "choose_buffer env ((w_out w a)\<lparr>op_workEvents := 0\<rparr>) w = (port, w1)" "n \<noteq> 0"
    "BufferChunk_elements ((op_buffer port)\<lparr>bc_dtype := op_dtype port\<rparr>) = Some n" "w' = upd_out a (ready_port n port) w1"
    "wa' = wa\<lparr>wa_workInfo := note_out (op_index port) (bc_address (op_buffer port)) n (wa_workInfo wa)\<rparr>"
    using preWork_output_cases [OF assms False] by blast
  note f = choose_buffer_frame [OF p(1), simplified]
  have el: "out_elems False [a] w' = {n}" "out_elems True [a] w' = (if op_index (w_out w a) = - 1 then {} else {n})"
    using f False by (auto simp: out_elems_def p(4) ready_port_def)
  show ?thesis using p(2,3) f False el unfolding p(4,5)
    by (simp add: ready_port_def note_out_def Let_def out_ready_def same_slots_def outs_done_def)
qed

lemma outs_done_Cons:
  assumes "outs_done [a] s s1" "outs_done as s1 s2" "a \<notin> set as"
  shows "outs_done (a # as) s s2"
proof -
  have a: "w_out (snd s2) a = w_out (snd s1) a" using assms(2,3) by (simp add: outs_done_def Let_def)
  have el: "out_elems i (a # as) (snd s2) = out_elems i [a] (snd s1) \<union> out_elems i as (snd s2)" for i
    using a by (simp add: out_elems_def)
  show ?thesis using assms a by (auto simp: outs_done_def Let_def same_slots_def el Min_insert_Min)
qed

lemma preWork_outputs_done:
  "preWork_outputs env as s = Some (True, s') \<Longrightarrow> distinct as \<Longrightarrow> outs_done as s s'"
proof (induction as arbitrary: s)
  case Nil
  then show ?case by (simp add: outs_done_def same_slots_def out_elems_def)
next
  case (Cons a as)
  obtain go s1 where "preWork_output env a s = Some (go, s1)" "(if go then preWork_outputs env as s1 else Some (False, s1)) = Some (True, s')"
    using Cons.prems(1) by (auto split: bind_splits)
  then have 1: "preWork_output env a s = Some (True, s1)" "preWork_outputs env as s1 = Some (True, s')"
    by (auto split: if_splits)
  have "outs_done [a] s s1" using preWork_output_done [of env a "fst s" "snd s" "fst s1" "snd s1"] 1(1) by simp
  from outs_done_Cons [OF this Cons.IH [OF 1(2)]] show ?case using Cons.prems(2) by simp
qed

text \<open>The same for the inputs, with the three flags that decide whether to work.\<close>

definition buffered :: "nat list \<Rightarrow> 'o World \<Rightarrow> nat set" where
  "buffered as w = {a \<in> set as. \<not> ip_isSlot (w_in w a)}"

definition quiet :: "nat list \<Rightarrow> 'o World \<Rightarrow> bool" where
  "quiet as w \<longleftrightarrow> (\<forall>a \<in> set as. ip_isSlot (w_in w a) \<longrightarrow> slotCallsEmpty (w_in w a))"

text \<open>
  The stream ports of a block are left alone, but for the inputs in \<open>A\<close>: what handling slot calls has to respect. A slot
  handler is code of the block, which can change any port.
\<close>

definition streams_kept :: "nat set \<Rightarrow> nat list \<Rightarrow> nat list \<Rightarrow> 'o World \<Rightarrow> 'o World \<Rightarrow> bool" where
  "streams_kept A ins outs w w' \<longleftrightarrow>
     (\<forall>b \<in> set ins. ip_isSlot (w_in w' b) = ip_isSlot (w_in w b) \<and> (b \<notin> A \<and> \<not> ip_isSlot (w_in w b) \<longrightarrow> w_in w' b = w_in w b))
     \<and> (\<forall>b \<in> set outs. op_isSignal (w_out w' b) = op_isSignal (w_out w b) \<and> (\<not> op_isSignal (w_out w b) \<longrightarrow> w_out w' b = w_out w b))"

definition call_keeps_streams :: "nat list \<Rightarrow> nat list \<Rightarrow> ('c, 'o) state \<Rightarrow> ('c, 'o) state \<Rightarrow> bool" where
  "call_keeps_streams ins outs s s' \<longleftrightarrow>
     streams_kept {} ins outs (snd s) (snd s') \<and> wa_workInfo (fst s') = wa_workInfo (fst s)"

text \<open>
  The handlers of a block keep its stream ports under an invariant \<open>I\<close> that they maintain themselves. Pre-work changes the work
  info of the actor and nothing of the wiring of outputs, which the invariant must not depend on otherwise.
\<close>

definition prework_frame :: "('c, 'o) state \<Rightarrow> ('c, 'o) state \<Rightarrow> bool" where
  "prework_frame s s' \<longleftrightarrow> (\<exists>wi. fst s' = (fst s)\<lparr>wa_workInfo := wi\<rparr>)
     \<and> (\<forall>b. op_isSignal (w_out (snd s') b) = op_isSignal (w_out (snd s) b) \<and> op_subscribers (w_out (snd s') b) = op_subscribers (w_out (snd s) b))"

definition slots_keep_streams :: "(('c, 'o) state \<Rightarrow> bool) \<Rightarrow> ('c, 'o, 'e, 't) Env \<Rightarrow> nat list \<Rightarrow> nat list \<Rightarrow> bool" where
  "slots_keep_streams I env ins outs \<longleftrightarrow>
     (\<forall>s s'. I s \<and> prework_frame s s' \<longrightarrow> I s')
     \<and> (\<forall>name call s s'. I s \<and> slot_effect env name call s = Some s' \<longrightarrow> I s' \<and> call_keeps_streams ins outs s s')"

lemma prework_frame_trans: "prework_frame s s1 \<Longrightarrow> prework_frame s1 s2 \<Longrightarrow> prework_frame s s2"
proof -
  assume a: "prework_frame s s1" "prework_frame s1 s2"
  then obtain wi wi' where "fst s1 = (fst s)\<lparr>wa_workInfo := wi\<rparr>" "fst s2 = (fst s1)\<lparr>wa_workInfo := wi'\<rparr>" by (auto simp: prework_frame_def)
  then have "fst s2 = (fst s)\<lparr>wa_workInfo := wi'\<rparr>" by simp
  then show ?thesis using a by (auto simp: prework_frame_def)
qed

lemma prework_frame_same: "w_out w' = w_out w \<Longrightarrow> prework_frame (wa, w) (wa, w')"
  unfolding prework_frame_def by (intro conjI exI [of _ "wa_workInfo wa"]) simp_all

lemma invariant_framed: "slots_keep_streams I env ins outs \<Longrightarrow> I s \<Longrightarrow> prework_frame s s' \<Longrightarrow> I s'"
  unfolding slots_keep_streams_def by blast

lemma preWork_output_frame:
  assumes "preWork_output env a (wa, w) = Some (True, wa', w')" shows "prework_frame (wa, w) (wa', w')"
proof (cases "op_isSignal (w_out w a)")
  case True
  then have "wa' = wa" "w' = upd_out a ((w_out w a)\<lparr>op_workEvents := 0\<rparr>) w"
    using assms by (auto simp: preWork_output_def Let_def split: if_splits)
  then show ?thesis unfolding prework_frame_def by (intro conjI exI [of _ "wa_workInfo wa"]) simp_all
next
  case False
  obtain port w1 n where p: "choose_buffer env ((w_out w a)\<lparr>op_workEvents := 0\<rparr>) w = (port, w1)" "w' = upd_out a (ready_port n port) w1"
    "wa' = wa\<lparr>wa_workInfo := note_out (op_index port) (bc_address (op_buffer port)) n (wa_workInfo wa)\<rparr>"
    using preWork_output_cases [OF assms False] by blast
  note f = choose_buffer_frame [OF p(1), simplified]
  show ?thesis unfolding prework_frame_def using f
    by (intro conjI exI [of _ "note_out (op_index port) (bc_address (op_buffer port)) n (wa_workInfo wa)"]) (simp_all add: p(2,3) ready_port_def)
qed

lemma preWork_outputs_frame: "preWork_outputs env as s = Some (True, s') \<Longrightarrow> prework_frame s s'"
proof (induction as arbitrary: s)
  case Nil
  then show ?case using prework_frame_same [of "snd s" "snd s" "fst s"] by simp
next
  case (Cons a as)
  obtain go s1 where "preWork_output env a s = Some (go, s1)" "(if go then preWork_outputs env as s1 else Some (False, s1)) = Some (True, s')"
    using Cons.prems by (auto split: bind_splits)
  then have 1: "preWork_output env a s = Some (True, s1)" "preWork_outputs env as s1 = Some (True, s')" by (auto split: if_splits)
  have "prework_frame s s1" using preWork_output_frame [of env a "fst s" "snd s" "fst s1" "snd s1"] 1(1) by simp
  then show ?case using Cons.IH [OF 1(2)] by (rule prework_frame_trans)
qed

lemma out_elems_kept:
  assumes "streams_kept A ins outs w w'" shows "out_elems i outs w' = out_elems i outs w"
proof -
  have "filter (\<lambda>a. \<not> op_isSignal (w_out w' a) \<and> (i \<longrightarrow> op_index (w_out w' a) \<noteq> - 1)) outs
      = filter (\<lambda>a. \<not> op_isSignal (w_out w a) \<and> (i \<longrightarrow> op_index (w_out w a) \<noteq> - 1)) outs"
    using assms by (intro filter_cong) (auto simp: streams_kept_def)
  then show ?thesis using assms by (auto simp: out_elems_def streams_kept_def)
qed

lemma call_keeps_trans: "call_keeps_streams ins outs s s1 \<Longrightarrow> call_keeps_streams ins outs s1 s2 \<Longrightarrow> call_keeps_streams ins outs s s2"
  by (auto simp: call_keeps_streams_def streams_kept_def)

lemma slot_call_step_keeps:
  assumes "slots_keep_streams I env ins outs" "slot_call_step env a s = Some s'" "ip_isSlot (w_in (snd s) a)" "I s"
  shows "I s' \<and> call_keeps_streams ins outs s s' \<and> (a \<in> set ins \<longrightarrow> ip_isSlot (w_in (snd s') a))"
proof -
  obtain wa w where s: "s = (wa, w)" by (cases s)
  obtain call q where pop: "slotCallsPop (w_in w a) = Some (call, q)" "slot_effect env (ip_name q) call (wa, upd_in a q w) = Some s'"
    using assms(2) by (auto simp: s slot_call_step_def split: bind_splits)
  have "ip_isSlot q" using pop(1) assms(3) by (auto simp: s slotCallsPop_def split: bind_splits option.splits)
  then have k: "call_keeps_streams ins outs s (wa, upd_in a q w)" using assms(3) by (simp add: s call_keeps_streams_def streams_kept_def)
  have "I (wa, upd_in a q w)" using assms(4) unfolding s by (rule invariant_framed [OF assms(1)]) (simp add: prework_frame_same)
  then have "I s' \<and> call_keeps_streams ins outs (wa, upd_in a q w) s'" using assms(1) pop(2) unfolding slots_keep_streams_def by blast
  then have "I s' \<and> call_keeps_streams ins outs s s'" using call_keeps_trans [OF k] by blast
  then show ?thesis using assms(3) by (auto simp: call_keeps_streams_def streams_kept_def)
qed

lemma handleSlotCalls_keeps:
  assumes "slots_keep_streams I env ins outs" "handleSlotCalls env a s = Some s'" "ip_isSlot (w_in (snd s) a)" "a \<in> set ins" "I s"
  shows "I s' \<and> call_keeps_streams ins outs s s'"
proof -
  have "slots_keep_streams I env ins outs \<longrightarrow> ip_isSlot (w_in (snd s) a) \<longrightarrow> a \<in> set ins \<longrightarrow> I s \<longrightarrow> I s' \<and> call_keeps_streams ins outs s s'"
  proof (rule handleSlotCalls.raw_induct [where P = "\<lambda>env a s s'. slots_keep_streams I env ins outs \<longrightarrow> ip_isSlot (w_in (snd s) a) \<longrightarrow>
      a \<in> set ins \<longrightarrow> I s \<longrightarrow> I s' \<and> call_keeps_streams ins outs s s'", OF _ assms(2)], intro impI)
    fix f and env :: "('a, 'b, 'c, 'd) Env" and a s s'
    assume IH: "\<And>env a s s'. f env a s = Some s' \<Longrightarrow> slots_keep_streams I env ins outs \<longrightarrow> ip_isSlot (w_in (snd s) a) \<longrightarrow>
        a \<in> set ins \<longrightarrow> I s \<longrightarrow> I s' \<and> call_keeps_streams ins outs s s'"
      and body: "(if slotCallsEmpty (w_in (snd s) a) then Some s else Option.bind (slot_call_step env a s) (f env a)) = Some s'"
      and a: "slots_keep_streams I env ins outs" "ip_isSlot (w_in (snd s) a)" "a \<in> set ins" "I s"
    show "I s' \<and> call_keeps_streams ins outs s s'"
    proof (cases "slotCallsEmpty (w_in (snd s) a)")
      case True
      then show ?thesis using body a(4) by (simp add: call_keeps_streams_def streams_kept_def)
    next
      case False
      then obtain s1 where s1: "slot_call_step env a s = Some s1" "f env a s1 = Some s'" using body by (auto split: bind_splits)
      note k = slot_call_step_keeps [OF a(1) s1(1) a(2,4)]
      then show ?thesis using IH [OF s1(2)] a call_keeps_trans by blast
    qed
  qed
  then show ?thesis using assms by blast
qed

definition ins_done :: "nat list \<Rightarrow> nat list \<Rightarrow> nat list \<Rightarrow> Decision \<times> ('c, 'o) state \<Rightarrow> Decision \<times> ('c, 'o) state \<Rightarrow> bool" where
  "ins_done ins outs as t t' \<longleftrightarrow>
     (let w = snd (snd t); w' = snd (snd t'); wi = wa_workInfo (fst (snd t)); wi' = wa_workInfo (fst (snd t')) in
      streams_kept (set as) ins outs w w'
      \<and> (\<forall>a \<in> set as. \<not> ip_isSlot (w_in w' a) \<longrightarrow> in_ready (w_in w' a))
      \<and> wi_minAllOutElements wi' = wi_minAllOutElements wi \<and> wi_minOutElements wi' = wi_minOutElements wi
      \<and> wi_minAllInElements wi' = Min (insert (wi_minAllInElements wi) (in_elems False as w'))
      \<and> wi_minInElements wi' = Min (insert (wi_minInElements wi) (in_elems True as w'))
      \<and> (de_hasBufferedPorts (fst t') \<longleftrightarrow> de_hasBufferedPorts (fst t) \<or> buffered as w' \<noteq> {})
      \<and> (de_reserveReached (fst t') \<longleftrightarrow> de_reserveReached (fst t) \<or> (\<exists>a \<in> buffered as w'. ip_reserveElements (w_in w' a) \<le> ip_elements (w_in w' a)))
      \<and> (de_hasInputMessage (fst t') \<longleftrightarrow> de_hasInputMessage (fst t) \<or> (\<exists>a \<in> buffered as w'. InputPort_hasMessage (w_in w' a))))"

definition ready_input :: "BufferChunk \<Rightarrow> 'o InputPort \<Rightarrow> 'o InputPort" where
  "ready_input front p = p\<lparr>ip_buffer := front, ip_elements := bc_length front div DType_size (ip_dtype p), ip_pendingElements := 0,
     ip_labelIter := ip_inlineMessages p\<rparr>"

definition note_in :: "int \<Rightarrow> size_t \<Rightarrow> size_t \<Rightarrow> WorkInfo \<Rightarrow> WorkInfo" where
  "note_in idx addr n wi =
     (let wi = (if idx = - 1 then wi else wi\<lparr>wi_inputPointers := (wi_inputPointers wi)[nat idx := addr], wi_minInElements := min (wi_minInElements wi) n\<rparr>)
      in wi\<lparr>wi_minAllInElements := min (wi_minAllInElements wi) n\<rparr>)"

lemma preWork_input_cases:
  assumes "preWork_input env a (de, wa, w) = Some (de', wa', w')" "\<not> ip_isSlot (w_in w a)"
  obtains acc mem port where "port = snd (bufferAccumulatorFront ((w_in w a)\<lparr>ip_workEvents := 0, ip_accumulator := acc\<rparr>))"
    "w' = upd_in a (ready_input (BufferAccumulator_front acc) port) (w\<lparr>w_mem := mem\<rparr>)" "DType_size (ip_dtype (w_in w a)) \<noteq> 0"
    "wa' = wa\<lparr>wa_workInfo := note_in (ip_index (w_in w a)) (bc_address (BufferAccumulator_front acc))
        (bc_length (BufferAccumulator_front acc) div DType_size (ip_dtype (w_in w a))) (wa_workInfo wa)\<rparr>"
    "de' = \<lparr>de_hasBufferedPorts = True,
       de_reserveReached = (de_reserveReached de \<or> ip_reserveElements (w_in w a) \<le> ip_elements (w_in w' a)),
       de_hasInputMessage = (de_hasInputMessage de \<or> InputPort_hasMessage (w_in w' a))\<rparr>"
proof -
  obtain acc mem where r: "BufferAccumulator_require (w_heap w) (env_uniq env) (env_newChunk env)
      (sz_mul (max 1 (ip_reserveElements (w_in w a))) (DType_size (ip_dtype (w_in w a)))) (ip_accumulator (w_in w a), w_mem w) = (acc, mem)"
    by force
  show thesis
    using assms r by (intro that [of _ acc mem])
      (auto simp: preWork_input_def Let_def bufferAccumulatorRequire_def bufferAccumulatorFront_def ready_input_def note_in_def
        asyncMessagesEmpty_def InputPort_hasMessage_def upd_in_def split: if_splits)
qed

lemma handleSlotCalls_empty: "slotCallsEmpty (w_in (snd s) a) \<Longrightarrow> handleSlotCalls env a s = Some s"
  by (subst handleSlotCalls.simps) simp

lemma preWork_input_slot:
  assumes "preWork_input env a (de, wa, w) = Some (de', wa', w')" "ip_isSlot (w_in w a)" "quiet [a] w"
  shows "de' = de \<and> wa' = wa \<and> w' = upd_in a ((w_in w a)\<lparr>ip_workEvents := 0\<rparr>) w"
proof -
  have "slotCallsEmpty ((w_in w a)\<lparr>ip_workEvents := 0\<rparr>)" using assms(2,3) by (simp add: quiet_def slotCallsEmpty_def)
  then show ?thesis using assms(1,2) by (auto simp: preWork_input_def Let_def handleSlotCalls_empty)
qed

lemma preWork_input_quiet:
  assumes "preWork_input env a (de, wa, w) = Some (de', wa', w')" "quiet [a] w" "b \<noteq> a"
  shows "w_in w' b = w_in w b"
proof (cases "ip_isSlot (w_in w a)")
  case True
  then show ?thesis using preWork_input_slot [OF assms(1) True assms(2)] assms(3) by simp
next
  case False
  show ?thesis by (rule preWork_input_cases [OF assms(1) False]) (simp add: assms(3))
qed

lemma preWork_input_done:
  assumes "preWork_input env a (de, wa, w) = Some (de', wa', w')" "quiet [a] w \<or> I (wa, w) \<and> slots_keep_streams I env ins outs" "a \<in> set ins"
  shows "ins_done ins outs [a] (de, wa, w) (de', wa', w')"
proof (cases "ip_isSlot (w_in w a)")
  case True
  let ?w0 = "upd_in a ((w_in w a)\<lparr>ip_workEvents := 0\<rparr>) w"
  have r: "de' = de" "handleSlotCalls env a (wa, ?w0) = Some (wa', w')" using assms(1) True by (auto simp: preWork_input_def Let_def)
  have "call_keeps_streams ins outs (wa, ?w0) (wa', w')"
    using assms(2)
  proof
    assume "quiet [a] w"
    then show ?thesis using preWork_input_slot [OF assms(1) True] by (simp add: call_keeps_streams_def streams_kept_def)
  next
    assume k: "I (wa, w) \<and> slots_keep_streams I env ins outs"
    then have "I (wa, ?w0)" using invariant_framed [of I env ins outs "(wa, w)"] by (simp add: prework_frame_same)
    with handleSlotCalls_keeps [OF conjunct2 [OF k] r(2) _ assms(3)] show ?thesis using True by simp
  qed
  then have k: "streams_kept {} ins outs w w'" "wa_workInfo wa' = wa_workInfo wa"
    using True by (auto simp: call_keeps_streams_def streams_kept_def)
  then have "ip_isSlot (w_in w' a)" using True assms(3) by (simp add: streams_kept_def)
  then show ?thesis using True k r(1) by (auto simp: ins_done_def in_elems_def buffered_def streams_kept_def)
next
  case False
  obtain acc mem port where p: "port = snd (bufferAccumulatorFront ((w_in w a)\<lparr>ip_workEvents := 0, ip_accumulator := acc\<rparr>))"
    "w' = upd_in a (ready_input (BufferAccumulator_front acc) port) (w\<lparr>w_mem := mem\<rparr>)" "DType_size (ip_dtype (w_in w a)) \<noteq> 0"
    "wa' = wa\<lparr>wa_workInfo := note_in (ip_index (w_in w a)) (bc_address (BufferAccumulator_front acc))
        (bc_length (BufferAccumulator_front acc) div DType_size (ip_dtype (w_in w a))) (wa_workInfo wa)\<rparr>"
    "de' = \<lparr>de_hasBufferedPorts = True,
       de_reserveReached = (de_reserveReached de \<or> ip_reserveElements (w_in w a) \<le> ip_elements (w_in w' a)),
       de_hasInputMessage = (de_hasInputMessage de \<or> InputPort_hasMessage (w_in w' a))\<rparr>"
    using preWork_input_cases [OF assms(1) False] by blast
  have port: "ip_isSlot port = ip_isSlot (w_in w a)" "ip_index port = ip_index (w_in w a)" "ip_dtype port = ip_dtype (w_in w a)"
    "ip_accumulator port = acc" "ip_inputInlineMessages port = []" "ip_reserveElements port = ip_reserveElements (w_in w a)"
    unfolding p(1) by (simp_all add: bufferAccumulatorFront_def)
  have el: "in_elems False [a] w' = {ip_elements (w_in w' a)}" "buffered [a] w' = {a}"
    "in_elems True [a] w' = (if ip_index (w_in w a) = - 1 then {} else {ip_elements (w_in w' a)})"
    using port False by (auto simp: in_elems_def buffered_def p(2) ready_input_def)
  show ?thesis
    using p(3) port False unfolding ins_done_def Let_def fst_conv snd_conv el p(4,5)
    by (auto simp: p(2) ready_input_def note_in_def Let_def in_ready_def streams_kept_def)
qed

lemma ins_done_Cons:
  assumes "ins_done ins outs [a] t t1" "ins_done ins outs as t1 t2" "a \<notin> set as" "set (a # as) \<subseteq> set ins"
  shows "ins_done ins outs (a # as) t t2"
proof -
  note A = assms(1) [unfolded ins_done_def Let_def] and B = assms(2) [unfolded ins_done_def Let_def]
  have slot: "ip_isSlot (w_in (snd (snd t2)) a) = ip_isSlot (w_in (snd (snd t1)) a)" using B assms(4) by (simp add: streams_kept_def)
  have a: "\<not> ip_isSlot (w_in (snd (snd t1)) a) \<Longrightarrow> w_in (snd (snd t2)) a = w_in (snd (snd t1)) a"
    using B assms(3,4) by (simp add: streams_kept_def)
  have el: "in_elems i (a # as) (snd (snd t2)) = in_elems i [a] (snd (snd t1)) \<union> in_elems i as (snd (snd t2))" for i
    using a slot by (auto simp: in_elems_def)
  have b: "buffered (a # as) (snd (snd t2)) = buffered [a] (snd (snd t1)) \<union> buffered as (snd (snd t2))"
    using slot by (auto simp: buffered_def)
  have ex: "(\<exists>x \<in> buffered [a] (snd (snd t1)). Q (w_in (snd (snd t2)) x)) = (\<exists>x \<in> buffered [a] (snd (snd t1)). Q (w_in (snd (snd t1)) x))" for Q
    using a by (auto simp: buffered_def)
  have kept: "streams_kept (set (a # as)) ins outs (snd (snd t)) (snd (snd t2))"
    using A B assms(4) by (auto simp: streams_kept_def)
  have ready: "\<forall>x \<in> set (a # as). \<not> ip_isSlot (w_in (snd (snd t2)) x) \<longrightarrow> in_ready (w_in (snd (snd t2)) x)"
    using A B a slot by simp
  note exs = ex [of "\<lambda>p. ip_reserveElements p \<le> ip_elements p"] ex [of InputPort_hasMessage]
  show ?thesis unfolding ins_done_def Let_def el b bex_Un exs
    using A B kept ready by (simp add: Min_insert_Min disj_assoc)
qed

lemma preWork_input_invariant:
  assumes "preWork_input env a (de, wa, w) = Some (de', wa', w')" "slots_keep_streams I env ins outs" "a \<in> set ins" "I (wa, w)"
  shows "I (wa', w')"
proof (cases "ip_isSlot (w_in w a)")
  case True
  let ?w0 = "upd_in a ((w_in w a)\<lparr>ip_workEvents := 0\<rparr>) w"
  have "handleSlotCalls env a (wa, ?w0) = Some (wa', w')" using assms(1) True by (auto simp: preWork_input_def Let_def)
  moreover have "I (wa, ?w0)" using assms(4) by (rule invariant_framed [OF assms(2)]) (simp add: prework_frame_same)
  ultimately show ?thesis using handleSlotCalls_keeps [OF assms(2) _ _ assms(3)] True by simp
next
  case False
  have "prework_frame (wa, w) (wa', w')"
    by (rule preWork_input_cases [OF assms(1) False]) (auto simp: prework_frame_def)
  then show ?thesis using assms(2,4) unfolding slots_keep_streams_def by blast
qed

lemma preWork_inputs_done:
  "fold_opt (preWork_input env) as t = Some t' \<Longrightarrow> distinct as \<Longrightarrow> set as \<subseteq> set ins \<Longrightarrow>
   quiet as (snd (snd t)) \<or> I (snd t) \<and> slots_keep_streams I env ins outs \<Longrightarrow> ins_done ins outs as t t'"
proof (induction as arbitrary: t)
  case Nil
  then show ?case by (simp add: ins_done_def Let_def in_elems_def buffered_def streams_kept_def)
next
  case (Cons a as)
  obtain t1 where t1: "preWork_input env a t = Some t1" "fold_opt (preWork_input env) as t1 = Some t'"
    using Cons.prems(1) by (auto split: bind_splits)
  have 1: "ins_done ins outs [a] t t1"
    using preWork_input_done [of env a "fst t" "fst (snd t)" "snd (snd t)" "fst t1" "fst (snd t1)" "snd (snd t1)" I ins outs] t1(1) Cons.prems(3,4)
    by (auto simp: quiet_def)
  have "quiet as (snd (snd t1)) \<or> I (snd t1) \<and> slots_keep_streams I env ins outs"
    using Cons.prems(4)
  proof
    assume q: "quiet (a # as) (snd (snd t))"
    have "w_in (snd (snd t1)) b = w_in (snd (snd t)) b" if "b \<in> set as" for b
      using preWork_input_quiet [of env a "fst t" "fst (snd t)" "snd (snd t)" "fst t1" "fst (snd t1)" "snd (snd t1)" b] t1(1) q Cons.prems(2) that
      by (auto simp: quiet_def)
    then show ?thesis using q by (simp add: quiet_def)
  next
    assume k: "I (snd t) \<and> slots_keep_streams I env ins outs"
    then show ?thesis
      using preWork_input_invariant [of env a "fst t" "fst (snd t)" "snd (snd t)" "fst t1" "fst (snd t1)" "snd (snd t1)" I ins outs] t1(1) Cons.prems(3)
      by simp
  qed
  from ins_done_Cons [OF 1 Cons.IH [OF t1(2) _ _ this]] show ?case using Cons.prems(2,3) by simp
qed

subsection \<open>A small block\<close>

text \<open>One stream input holding eight bytes, one stream output whose manager has a buffer of sixteen.\<close>

definition demo_chunk :: "size_t \<Rightarrow> BufferChunk" where
  "demo_chunk n = BufferChunk_null\<lparr>bc_address := 4096, bc_length := n\<rparr>"

definition demo_manager :: "size_t \<Rightarrow> Manager" where
  "demo_manager n = GenericManager \<lparr>gm_initialized = True, gm_frontBuffer = demo_chunk n, gm_bufferSize = n, gm_bytesPopped = 0,
     gm_readyBuffs = \<lparr>oq_indexToAck = 0, oq_pushedElems = [], oq_readyElems = RingDeque_emplace_back (the (RingDeque_new 1)) None\<rparr>\<rparr>"

definition demo_env :: "(nat, nat, nat, nat) Env" where
  "demo_env = \<lparr>env_uniq = (\<lambda>_. False), env_newChunk = demo_chunk, env_useCount = (\<lambda>_. 1), env_prepare = Pair True, env_work = id,
     env_propagateLabels = Block_propagateLabels, env_activate = Pair (Inr ()), env_deactivate = Pair (Inr ()), env_argTypes = (\<lambda>_. []),
     env_canConvert = (\<lambda>_ _. True), env_invoke = (\<lambda>_ _ s. (Inr 0, s)), env_isNull = (\<lambda>_. True), env_args = (\<lambda>_. Some []), env_vector = (\<lambda>_. 0)\<rparr>"

definition demo_actor :: "nat WorkerActor" where
  "demo_actor = WorkerActor_new\<lparr>wa_inputs := PortTable_new\<lparr>pt_ports := [(''0'', 0)]\<rparr>, wa_outputs := PortTable_new\<lparr>pt_ports := [(''0'', 1)]\<rparr>,
     wa_workInfo := WorkInfo_new\<lparr>wi_inputPointers := [0], wi_outputPointers := [0]\<rparr>\<rparr>"

definition demo_world :: "nat World" where
  "demo_world = empty_world\<lparr>
     w_in := (\<lambda>_. (InputPort_new (the (RingDeque_new 1)))\<lparr>ip_index := 0,
        ip_accumulator := BufferAccumulator_new\<lparr>ba_queue := [demo_chunk 8], ba_bytesAvailable := 8\<rparr>\<rparr>),
     w_out := (\<lambda>_. (OutputPort_new (Some (demo_manager 0)))\<lparr>op_index := 0, op_bufferManager := Some (demo_manager 16)\<rparr>)\<rparr>"

lemma demo_manager_simps [simp]:
  "Manager_empty (demo_manager n) = False" "Manager_front (demo_manager n) = demo_chunk n"
proof -
  obtain d :: "ManagedBuffer RingDeque" where "RingDeque_new 1 = Some d" "rd_inv d" "rd_list d = []" "rd_capacity d = 1" "rd_numElements d = 0"
    by (rule new_inv [of 1]) auto
  then have "RingDeque_empty (RingDeque_emplace_back (the (RingDeque_new 1)) (None :: ManagedBuffer)) = False"
    using push_back_inv(4) [of d None] by (simp add: RingDeque_empty_def RingDeque_push_back_def)
  then show "Manager_empty (demo_manager n) = False" "Manager_front (demo_manager n) = demo_chunk n"
    by (simp_all add: demo_manager_def Generic_empty_def OrderedQueue_empty_def)
qed

lemma demo_prework:
  "\<exists>wa' w'. preWorkTasks demo_env (demo_actor, demo_world) = Some (True, wa', w') \<and> wi_minElements (wa_workInfo wa') = 8
     \<and> \<not> op_isSignal (w_out w' 1)"
  by (simp add: preWorkTasks_def preWork_output_def preWork_input_def choose_buffer_def demo_actor_def demo_world_def demo_env_def
      output_ports_def input_ports_def WorkerActor_new_def PortTable_new_def WorkInfo_new_def OutputPort_new_def InputPort_new_def
      Let_def tokenManagerEmpty_def bufferManagerEmpty_def bufferManagerFront_def BufferChunk_elements_def DType_size_def DType_default_def
      sz_mul_def demo_chunk_def BufferChunk_null_def upd_in_def upd_out_def bufferAccumulatorRequire_def BufferAccumulator_require_def
      BufferAccumulator_new_def BufferAccumulator_front_def bufferAccumulatorFront_def empty_world_def)

lemma demo_handler: "snd (Block_handler demo_env name args s) = s"
  by (auto simp: Block_handler_def opaqueCallHandler_def demo_env_def Let_def split: list.splits option.splits)

lemma demo_slots_keep_streams: "slots_keep_streams (\<lambda>s. wa_probes (fst s) = (\<lambda>_. None)) demo_env ins outs"
proof -
  have "wa_probes (fst s') = (\<lambda>_. None) \<and> call_keeps_streams ins outs s s'"
    if free: "wa_probes (fst s) = (\<lambda>_. None)" and call: "slot_effect demo_env name call s = Some s'" for name call s s'
  proof -
    obtain r where h: "Block_handler demo_env name [] s = (r, s)" using demo_handler by (metis prod.collapse)
    have "env_args demo_env call = Some []" by (simp add: demo_env_def)
    then have "s' = s \<or> s' = (bumpActivity (flagInternalChange (fst s)), snd s)"
      using call free h by (cases s, cases r) (auto simp: slot_effect_def)
    then show ?thesis
      using free by (auto simp: call_keeps_streams_def streams_kept_def bumpActivity_def flagInternalChange_def)
  qed
  then show ?thesis by (auto simp: slots_keep_streams_def prework_frame_def)
qed

subsection \<open>Labels and delivery\<close>

lemma shift_sorted:
  assumes "sorted (map lb_index labels)" "\<forall>l \<in> set labels. lb_index l < SIZE_MAX1"
  shows "map (shift_label n) labels = filter (\<lambda>l. lb_index l < n) labels
    @ map (\<lambda>l. l\<lparr>lb_index := lb_index l - n\<rparr>) (filter (\<lambda>l. n \<le> lb_index l) labels)"
  using assms
proof (induction labels)
  case (Cons l ls)
  show ?case
  proof (cases "lb_index l < n")
    case True
    then show ?thesis using Cons by (simp add: shift_label_def)
  next
    case False
    then have "\<forall>x \<in> set ls. n \<le> lb_index x" using Cons.prems(1) by auto
    then have "filter (\<lambda>l. lb_index l < n) ls = []" "filter (\<lambda>l. n \<le> lb_index l) ls = ls" by (auto simp: filter_empty_conv)
    then show ?thesis using Cons False by (simp add: shift_label_def sz_sub_small)
  qed
qed simp

lemma post_labels: "op_postedLabels (fold OutputPort_postLabel ls p) = op_postedLabels p @ map (Label_adjust (DType_size (op_dtype p)) 1) ls"
  by (induction ls arbitrary: p) (simp_all add: OutputPort_postLabel_def)

definition propagate_step :: "nat \<Rightarrow> nat \<Rightarrow> 'o World \<Rightarrow> 'o World" where
  "propagate_step a b w = (if op_isSignal (w_out w b) then w else upd_out b (fold OutputPort_postLabel (ip_labelIter (w_in w a)) (w_out w b)) w)"

lemma propagate_step_simps:
  "w_in (propagate_step a b w) = w_in w" "c \<noteq> b \<Longrightarrow> w_out (propagate_step a b w) c = w_out w c"
  "\<not> op_isSignal (w_out w b) \<Longrightarrow> op_postedLabels (w_out (propagate_step a b w) b)
     = op_postedLabels (w_out w b) @ map (Label_adjust (DType_size (op_dtype (w_out w b))) 1) (ip_labelIter (w_in w a))"
  by (simp_all add: propagate_step_def post_labels)

lemma propagate_fold:
  assumes "distinct bs"
  shows "w_in (fold (propagate_step a) bs w) = w_in w \<and> (\<forall>b. b \<notin> set bs \<longrightarrow> w_out (fold (propagate_step a) bs w) b = w_out w b)
     \<and> (\<forall>b \<in> set bs. \<not> op_isSignal (w_out w b) \<longrightarrow> op_postedLabels (w_out (fold (propagate_step a) bs w) b)
          = op_postedLabels (w_out w b) @ map (Label_adjust (DType_size (op_dtype (w_out w b))) 1) (ip_labelIter (w_in w a)))"
  using assms
proof (induction bs arbitrary: w)
  case (Cons b bs)
  have "w_out (propagate_step a b w) c = w_out w c" if "c \<in> set bs" for c
    using that Cons.prems propagate_step_simps(2) by (metis distinct.simps(2))
  moreover have "w_out (fold (propagate_step a) bs (propagate_step a b w)) b = w_out (propagate_step a b w) b" using Cons by simp
  ultimately show ?case using Cons.IH [of "propagate_step a b w"] Cons.prems by (simp add: propagate_step_simps)
qed simp

lemma propagate_posts:
  assumes "Block_propagateLabels a (wa, w) = (wa, w')" "distinct (output_ports wa)"
  shows "w_in w' = w_in w" "\<forall>b \<in> set (output_ports wa). \<not> op_isSignal (w_out w b) \<longrightarrow>
    op_postedLabels (w_out w' b) = op_postedLabels (w_out w b) @ map (Label_adjust (DType_size (op_dtype (w_out w b))) 1) (ip_labelIter (w_in w a))"
proof -
  have "w' = fold (propagate_step a) (output_ports wa) w"
    using assms(1) by (simp add: Block_propagateLabels_def propagate_step_def [abs_def])
  then show "w_in w' = w_in w" "\<forall>b \<in> set (output_ports wa). \<not> op_isSignal (w_out w b) \<longrightarrow>
    op_postedLabels (w_out w' b) = op_postedLabels (w_out w b) @ map (Label_adjust (DType_size (op_dtype (w_out w b))) 1) (ip_labelIter (w_in w a))"
    using propagate_fold [OF assms(2), of a w] by simp_all
qed

lemma sort_key_Nil [simp]: "sort_key f xs = [] \<longleftrightarrow> xs = []"
  by (metis length_0_conv length_sort)

lemma bufferLabelPush_move:
  "bufferLabelPush h m labels buffers p
   = (fst (bufferLabelPush h True labels buffers p), if m then ([], []) else (labels, buffers))"
  by (simp add: bufferLabelPush_def Let_def)

lemma push_to_subscribers_spec:
  assumes "distinct subs"
  shows "(\<forall>s \<in> set subs. push_to_subscribers h subs labels buffers ins s = fst (bufferLabelPush h True labels buffers (ins s)))
    \<and> (\<forall>s. s \<notin> set subs \<longrightarrow> push_to_subscribers h subs labels buffers ins s = ins s)"
  using assms
proof (induction subs arbitrary: ins)
  case (Cons s ss)
  define p where "p = fst (bufferLabelPush h True labels buffers (ins s))"
  define ins' where "ins' = ins(s := p)"
  have eq: "push_to_subscribers h (s # ss) labels buffers ins = push_to_subscribers h ss labels buffers ins'"
    by (cases "ss = []") (simp_all add: bufferLabelPush_move [of h False] p_def ins'_def case_prod_unfold)
  have "ins' s = p" "\<And>x. x \<noteq> s \<Longrightarrow> ins' x = ins x" by (simp_all add: ins'_def)
  then show ?case using Cons.IH [of ins'] Cons.prems unfolding eq p_def by auto metis
qed simp

subsection \<open>Properties\<close>

text \<open>
  C28. What \<open>preWorkTasks\<close> guarantees when it lets the block work, provided that no slot calls are pending, or that the calls
  handled on the way leave the stream ports and the work info of the block alone, as they do under an invariant \<open>I\<close> of the block
  (a slot handler is code of the block that can change any port, also one that is already prepared). Every output that is not a signal has a buffer with at least one element,
  counted in the port's data type, and nothing pending; every stream input shows its front buffer, its element count and its
  labels; the minima of the work info are the minima over the ports (over the indexed ports, and over all of them), at most
  \<open>2^30\<close>; and a stream input has its reserve or a message, or there is no stream input. The last is the opposite of the comment
  at the return statement, which says that work is performed when there are buffered input ports: the code tests for none.
\<close>

theorem prework_contract:
  assumes "preWorkTasks env (wa, w) = Some (True, wa', w')" "distinct (output_ports wa)" "distinct (input_ports wa)"
    and "(\<forall>a \<in> set (input_ports wa). ip_isSlot (w_in w a) \<longrightarrow> slotCallsEmpty (w_in w a))
      \<or> I (wa, w) \<and> slots_keep_streams I env (input_ports wa) (output_ports wa)"
  shows "(\<forall>a \<in> set (output_ports wa). \<not> op_isSignal (w_out w' a) \<longrightarrow> out_ready (w_out w' a))
    \<and> (\<forall>a \<in> set (input_ports wa). \<not> ip_isSlot (w_in w' a) \<longrightarrow> in_ready (w_in w' a))
    \<and> wi_minAllElements (wa_workInfo wa') = Min (insert BIG (in_elems False (input_ports wa) w' \<union> out_elems False (output_ports wa) w'))
    \<and> wi_minElements (wa_workInfo wa') = Min (insert BIG (in_elems True (input_ports wa) w' \<union> out_elems True (output_ports wa) w'))
    \<and> ((\<exists>a \<in> buffered (input_ports wa) w'. ip_reserveElements (w_in w' a) \<le> ip_elements (w_in w' a))
       \<or> (\<exists>a \<in> buffered (input_ports wa) w'. InputPort_hasMessage (w_in w' a)) \<or> buffered (input_ports wa) w' = {})"
proof -
  let ?wa = "wa\<lparr>wa_workInfo := (wa_workInfo wa)\<lparr>wi_minOutElements := BIG, wi_minAllOutElements := BIG\<rparr>\<rparr>"
  let ?ins = "input_ports wa" and ?outs = "output_ports wa"
  have ports: "output_ports ?wa = ?outs" "wa_inputs wa = wa_inputs wa1 \<Longrightarrow> input_ports wa1 = ?ins" for wa1 :: "'a WorkerActor"
    by (simp_all add: output_ports_def input_ports_def)
  obtain wa1 w1 where outs: "preWork_outputs env ?outs (?wa, w) = Some (True, wa1, w1)"
    using assms(1) ports(1) by (auto simp: preWorkTasks_def Let_def split: bind_splits if_splits)
  have O: "outs_done ?outs (?wa, w) (wa1, w1)" using outs assms(2) by (rule preWork_outputs_done)
  let ?wb = "wa1\<lparr>wa_workInfo := (wa_workInfo wa1)\<lparr>wi_minInElements := BIG, wi_minAllInElements := BIG\<rparr>\<rparr>"
  let ?t = "(\<lparr>de_hasBufferedPorts = False, de_reserveReached = False, de_hasInputMessage = False\<rparr>, ?wb, w1)"
  have inp: "input_ports ?wb = ?ins" using O by (simp add: outs_done_def Let_def input_ports_def)
  obtain de wa2 w2 where ins: "fold_opt (preWork_input env) ?ins ?t = Some (de, wa2, w2)"
    using assms(1) ports(1) outs inp by (auto simp: preWorkTasks_def Let_def split: bind_splits)
  have "prework_frame (wa, w) (?wa, w)" by (auto simp: prework_frame_def)
  moreover have "prework_frame (wa1, w1) (?wb, w1)" by (auto simp: prework_frame_def)
  ultimately have "prework_frame (wa, w) (?wb, w1)" using preWork_outputs_frame [OF outs] prework_frame_trans by blast
  moreover have "quiet ?ins w1" if "\<forall>a \<in> set ?ins. ip_isSlot (w_in w a) \<longrightarrow> slotCallsEmpty (w_in w a)"
    using that O by (simp add: outs_done_def Let_def same_slots_def quiet_def slotCallsEmpty_def)
  ultimately have "quiet ?ins w1 \<or> I (?wb, w1) \<and> slots_keep_streams I env ?ins ?outs"
    using assms(4) unfolding slots_keep_streams_def by blast
  then have I: "ins_done ?ins ?outs ?ins ?t (de, wa2, w2)" using preWork_inputs_done [OF ins assms(3), of ?ins I ?outs] by simp
  have fin: "w' = w2" "de_reserveReached de \<or> de_hasInputMessage de \<or> \<not> de_hasBufferedPorts de"
    "wi_minElements (wa_workInfo wa') = min (wi_minInElements (wa_workInfo wa2)) (wi_minOutElements (wa_workInfo wa2))"
    "wi_minAllElements (wa_workInfo wa') = min (wi_minAllInElements (wa_workInfo wa2)) (wi_minAllOutElements (wa_workInfo wa2))"
    using assms(1) ports(1) outs ins inp by (auto simp: preWorkTasks_def Let_def)
  have kept: "streams_kept (set ?ins) ?ins ?outs w1 w2" using I by (simp add: ins_done_def Let_def)
  note oe = out_elems_kept [OF kept]
  have M: "min (Min (insert m A)) (Min (insert m B)) = Min (insert m (A \<union> B))" if "finite A" "finite B" for m :: nat and A B
    using that Min_Un [of "insert m A" "insert m B"] by simp
  have "\<forall>a \<in> set ?outs. \<not> op_isSignal (w_out w2 a) \<longrightarrow> out_ready (w_out w2 a)"
    using O kept by (simp add: outs_done_def Let_def streams_kept_def)
  then show ?thesis
    using O I fin(2) unfolding fin(1,3,4) outs_done_def ins_done_def Let_def oe by (simp add: M)
qed

theorem prework_contract_witness:
  "\<exists>wa' w'. preWorkTasks demo_env (demo_actor, demo_world) = Some (True, wa', w') \<and> out_ready (w_out w' 1)"
proof -
  obtain wa' w' where p: "preWorkTasks demo_env (demo_actor, demo_world) = Some (True, wa', w')" "\<not> op_isSignal (w_out w' 1)"
    using demo_prework by auto
  have "output_ports demo_actor = [1]" "input_ports demo_actor = [0]" "\<not> ip_isSlot (w_in demo_world 0)"
    by (simp_all add: output_ports_def input_ports_def demo_actor_def demo_world_def WorkerActor_new_def PortTable_new_def InputPort_new_def)
  moreover have "wa_probes demo_actor = (\<lambda>_. None)" by (simp add: demo_actor_def WorkerActor_new_def)
  ultimately have "out_ready (w_out w' 1)"
    using prework_contract [OF p(1) _ _ disjI2 [OF conjI [OF _ demo_slots_keep_streams]]] p(2) by simp
  then show ?thesis using p by auto
qed

text \<open>
  C29. Consumed labels are propagated and the others move. When the labels of an input are sorted by index, the labels
  before the consumed position are exactly the ones the default \<open>propagateLabels\<close> posts, in order, on every output that
  is not a signal; they leave the input, and the remaining labels keep their distance to the stream position.
\<close>

theorem consumed_labels_propagate:
  assumes "env_propagateLabels env = Block_propagateLabels" "ip_inlineMessages (w_in w a) = labels" "ip_pendingElements (w_in w a) = n"
    and "sorted (map lb_index labels)" "\<forall>l \<in> set labels. lb_index l < SIZE_MAX1" "distinct (output_ports wa)"
    and "postWork_labels env a (wa, w) = (wa', w')"
  shows "ip_inlineMessages (w_in w' a) = map (\<lambda>l. l\<lparr>lb_index := lb_index l - n\<rparr>) (filter (\<lambda>l. n \<le> lb_index l) labels)
    \<and> (\<forall>b \<in> set (output_ports wa). \<not> op_isSignal (w_out w b) \<longrightarrow>
         op_postedLabels (w_out w' b) = op_postedLabels (w_out w b)
           @ map (Label_adjust (DType_size (op_dtype (w_out w b))) 1) (filter (\<lambda>l. lb_index l < n) labels))"
proof -
  let ?c = "filter (\<lambda>l. lb_index l < n) labels" let ?r = "filter (\<lambda>l. n \<le> lb_index l) labels"
  let ?sh = "\<lambda>l. l\<lparr>lb_index := lb_index l - n\<rparr>"
  have split: "map (shift_label n) labels = ?c @ map ?sh ?r" using assms(4,5) by (rule shift_sorted)
  show ?thesis
  proof (cases "?c = []")
    case True
    then have "w' = upd_in a ((w_in w a)\<lparr>ip_inlineMessages := map ?sh ?r\<rparr>) w"
      using assms(2,3,7) split by (simp add: postWork_labels_def Let_def)
    then show ?thesis using True by simp
  next
    case False
    let ?p = "(w_in w a)\<lparr>ip_inlineMessages := ?c @ map ?sh ?r, ip_labelIter := ?c\<rparr>"
    obtain w1 where w1: "Block_propagateLabels a (wa, upd_in a ?p w) = (wa, w1)" by (simp add: Block_propagateLabels_def)
    have w': "w' = upd_in a ((w_in w1 a)\<lparr>ip_inlineMessages := drop (length ?c) (ip_inlineMessages (w_in w1 a)),
        ip_totalLabels := sz_add (ip_totalLabels (w_in w1 a)) (length ?c)\<rparr>) w1"
      using assms(1,2,3,7) split False w1 by (simp add: postWork_labels_def Let_def)
    have pr: "w_in w1 = w_in (upd_in a ?p w)" "\<forall>b \<in> set (output_ports wa). \<not> op_isSignal (w_out w b) \<longrightarrow>
        op_postedLabels (w_out w1 b) = op_postedLabels (w_out w b) @ map (Label_adjust (DType_size (op_dtype (w_out w b))) 1) ?c"
      using propagate_posts [OF w1 assms(6)] by simp_all
    then show ?thesis unfolding w' by simp
  qed
qed

theorem consumed_labels_propagate_witness:
  "let w = demo_world\<lparr>w_in := (\<lambda>_. (w_in demo_world 0)\<lparr>ip_inlineMessages := [Label_new ''a'' 0 1 1, Label_new ''b'' 0 5 1], ip_pendingElements := 2\<rparr>)\<rparr>
   in ip_inlineMessages (w_in (snd (postWork_labels demo_env 0 (demo_actor, w))) 0) = [Label_new ''b'' 0 3 1]"
proof -
  define w where "w = demo_world\<lparr>w_in := (\<lambda>_. (w_in demo_world 0)\<lparr>ip_inlineMessages := [Label_new ''a'' 0 1 1, Label_new ''b'' 0 5 1], ip_pendingElements := 2\<rparr>)\<rparr>"
  obtain wa' w' where r: "postWork_labels demo_env 0 (demo_actor, w) = (wa', w')" by force
  have "env_propagateLabels demo_env = Block_propagateLabels" "distinct (output_ports demo_actor)"
    by (simp_all add: demo_env_def demo_actor_def output_ports_def PortTable_new_def)
  then have "ip_inlineMessages (w_in w' 0) = [Label_new ''b'' 0 3 1]"
    using consumed_labels_propagate [OF _ refl refl _ _ _ r] by (simp add: w_def Label_new_def)
  then show ?thesis using r by (simp add: w_def)
qed

text \<open>
  The label bookkeeping relies on the order. With labels at the elements 5 and 1 and two elements consumed, the label
  of element 5, which was not reached, is propagated and removed, and the label of element 1, which was consumed, stays.
\<close>

theorem unsorted_labels_mixed_up:
  "let w = demo_world\<lparr>w_in := (\<lambda>_. (w_in demo_world 0)\<lparr>ip_inlineMessages := [Label_new ''five'' 0 5 1, Label_new ''one'' 0 1 1],
                                                     ip_pendingElements := 2\<rparr>)\<rparr>;
       w' = snd (postWork_labels demo_env 0 (demo_actor, w))
   in map lb_id (ip_inlineMessages (w_in w' 0)) = [''one''] \<and> map lb_id (op_postedLabels (w_out w' 1)) = [''five'']"
  by (simp add: postWork_labels_def demo_env_def demo_actor_def Label_new_def shift_label_def Block_propagateLabels_def output_ports_def
      WorkerActor_new_def PortTable_new_def demo_world_def OutputPort_new_def OutputPort_postLabel_def Let_def Label_adjust_def upd_in_def upd_out_def)

text \<open>
  C31. What an output posts reaches every subscriber. After \<open>postWork_output\<close>, each subscriber holds what
  \<open>bufferLabelPush\<close> makes of the posted buffers and of the labels sorted by index, although the containers are moved
  into the last subscriber; no other input changes and the output has nothing left to post.
\<close>

theorem posted_data_reaches_subscribers:
  assumes "postWork_output a (events, w) = Some (events', w')" "produce_buffer (w_out w a, w_heap w) = Some (port, h)"
    and "distinct (op_subscribers port)" "op_postedLabels port \<noteq> [] \<or> op_postedBuffers port \<noteq> []"
  shows "(\<forall>s \<in> set (op_subscribers port).
       w_in w' s = fst (bufferLabelPush h True (sort_key lb_index (op_postedLabels port)) (op_postedBuffers port) (w_in w s)))
    \<and> (\<forall>s. s \<notin> set (op_subscribers port) \<longrightarrow> w_in w' s = w_in w s)
    \<and> op_postedLabels (w_out w' a) = [] \<and> op_postedBuffers (w_out w' a) = [] \<and> w_heap w' = h"
proof -
  have "w' = upd_out a (port\<lparr>op_buffer := BufferChunk_null, op_postedLabels := [], op_postedBuffers := []\<rparr>) (w\<lparr>w_heap := h,
      w_in := push_to_subscribers h (op_subscribers port) (sort_key lb_index (op_postedLabels port)) (op_postedBuffers port) (w_in w)\<rparr>)"
    using assms(1,2,4) by (auto simp: postWork_output_def Let_def)
  then show ?thesis using push_to_subscribers_spec [OF assms(3)] by simp
qed

theorem posted_data_reaches_subscribers_witness:
  "let w = demo_world\<lparr>w_out := (\<lambda>_. (w_out demo_world 1)\<lparr>op_subscribers := [3, 5], op_postedLabels := [Label_new ''b'' 0 2 1, Label_new ''a'' 0 1 1]\<rparr>)\<rparr>
   in \<exists>events' w'. postWork_output 1 (0, w) = Some (events', w') \<and> map lb_id (ip_inputInlineMessages (w_in w' 3)) = [''a'', ''b'']
     \<and> map lb_id (ip_inputInlineMessages (w_in w' 5)) = [''a'', ''b'']"
proof -
  define port :: "nat OutputPort" where
    "port = (w_out demo_world 1)\<lparr>op_subscribers := [3, 5], op_postedLabels := [Label_new ''b'' 0 2 1, Label_new ''a'' 0 1 1]\<rparr>"
  define w where "w = demo_world\<lparr>w_out := (\<lambda>_. port)\<rparr>"
  have port: "op_subscribers port = [3, 5]" "op_postedLabels port = [Label_new ''b'' 0 2 1, Label_new ''a'' 0 1 1]"
    "op_pendingElements port = 0" "op_workEvents port = 0" "op_postedBuffers port = []"
    by (simp_all add: port_def demo_world_def OutputPort_new_def)
  have p: "produce_buffer (w_out w 1, w_heap w) = Some (port, w_heap w)"
    by (simp add: produce_buffer_def w_def port sz_mul_def)
  obtain events' w' where r: "postWork_output 1 (0, w) = Some (events', w')" using p by (simp add: postWork_output_def Let_def)
  have lab: "map lb_id (ip_inputInlineMessages (fst (bufferLabelPush (w_heap w) True (sort_key lb_index (op_postedLabels port)) (op_postedBuffers port) (w_in w x))))
     = [''a'', ''b'']" for x
    by (simp add: bufferLabelPush_def Let_def port Label_new_def w_def demo_world_def InputPort_new_def flagExternalChange_def sort_key_def insort_key.simps)
  have "map lb_id (ip_inputInlineMessages (w_in w' 3)) = [''a'', ''b'']" "map lb_id (ip_inputInlineMessages (w_in w' 5)) = [''a'', ''b'']"
    using posted_data_reaches_subscribers [OF r p] port(1,2) lab by simp_all
  then show ?thesis unfolding Let_def port_def [symmetric] w_def [symmetric] using r by auto
qed

text \<open>
  Slot calls run in the order they were made, each exactly once, and the loop ends. Let \<open>seen\<close> be any record of calls
  that the handlers extend by the call they run and that does not depend on the queue of the port. When, in the states
  the block can be in (\<open>I\<close>), no handler touches the queue of the port, \<open>handleSlotCalls\<close> returns with the queue empty and
  with the queued calls recorded in order.
\<close>

theorem slot_calls_run_in_order:
  assumes "rd_inv (ip_slotCalls (w_in (snd s) a))" "I s"
    and "\<forall>call s. I s \<longrightarrow> (\<exists>s'. slot_effect env (ip_name (w_in (snd s) a)) call s = Some s' \<and> I s'
           \<and> ip_slotCalls (w_in (snd s') a) = ip_slotCalls (w_in (snd s) a) \<and> seen s' = seen s @ [call])"
    and "\<forall>q wa w. let s = (wa, upd_in a ((w_in w a)\<lparr>ip_slotCalls := q\<rparr>) w) in seen s = seen (wa, w) \<and> I s = I (wa, w)"
  shows "\<exists>s'. handleSlotCalls env a s = Some s' \<and> slotCallsEmpty (w_in (snd s') a)
    \<and> seen s' = seen s @ map fst (rd_list (ip_slotCalls (w_in (snd s) a)))"
  using assms(1,2)
proof (induction "rd_numElements (ip_slotCalls (w_in (snd s) a))" arbitrary: s)
  case 0
  then have "rd_list (ip_slotCalls (w_in (snd s) a)) = []" by (simp flip: length_0_conv)
  then show ?case using 0 by (auto simp: handleSlotCalls_empty slotCallsEmpty_def RingDeque_empty_def)
next
  case (Suc n)
  obtain wa w where s: "s = (wa, w)" by (cases s)
  let ?q = "ip_slotCalls (w_in w a)"
  have ne: "rd_numElements ?q \<noteq> 0" using Suc.hyps(2) s by simp
  obtain args tok rest where l: "rd_list ?q = (args, tok) # rest"
    using ne length_rd_list [of ?q] by (cases "rd_list ?q") auto
  have front: "RingDeque_front ?q = Some (args, tok)" using rd.front_elems [of ?q] Suc.prems(1) l s by simp
  let ?p = "(w_in w a)\<lparr>ip_slotCalls := RingDeque_pop_front ?q\<rparr>"
  have "I (wa, upd_in a ?p w)" "seen (wa, upd_in a ?p w) = seen s" using assms(4) Suc.prems(2) s by (auto simp: Let_def)
  then obtain s1 where s1: "slot_effect env (ip_name ?p) args (wa, upd_in a ?p w) = Some s1" "I s1"
    "ip_slotCalls (w_in (snd s1) a) = RingDeque_pop_front ?q" "seen s1 = seen s @ [args]"
    using assms(3) [rule_format, of "(wa, upd_in a ?p w)" args] by auto
  have step: "slot_call_step env a s = Some s1" using front s1(1) by (simp add: slot_call_step_def slotCallsPop_def s)
  have "handleSlotCalls env a s = handleSlotCalls env a s1"
    using ne step s by (subst handleSlotCalls.simps) (simp add: slotCallsEmpty_def RingDeque_empty_def)
  then show ?case using Suc.hyps(1) [of s1] Suc.prems pop_front_inv [of ?q] ne s1 l Suc.hyps(2) s by simp
qed

text \<open>The witness has a block with one call \<open>f\<close> that posts its argument as a label, and two calls of the slot \<open>f\<close> in the queue.\<close>

definition slot_env :: "(nat, nat, nat, nat) Env" where
  "slot_env = demo_env\<lparr>env_args := (\<lambda>x. Some [x]),
     env_invoke := (\<lambda>_ args s. (Inr 0, fst s, upd_out 1 (OutputPort_postLabel (Label_new '''' (hd args) 0 0) (w_out (snd s) 1)) (snd s)))\<rparr>"

definition slot_queue2 :: "nat message RingDeque" where
  "slot_queue2 = RingDeque_push_back (RingDeque_push_back (the (RingDeque_new 2)) (7, BufferChunk_null)) (9, BufferChunk_null)"

lemma slot_queue2: "rd_inv slot_queue2" "rd_list slot_queue2 = [(7, BufferChunk_null), (9, BufferChunk_null)]"
proof -
  obtain d :: "nat message RingDeque" where d: "RingDeque_new 2 = Some d" "rd_inv d" "rd_list d = []" "rd_capacity d = 2" "rd_numElements d = 0"
    by (rule new_inv [of 2]) auto
  note p1 = push_back_inv [OF d(2), of "(7, BufferChunk_null)"]
  note p2 = push_back_inv [of "RingDeque_push_back d (7, BufferChunk_null)" "(9, BufferChunk_null)"]
  show "rd_inv slot_queue2" "rd_list slot_queue2 = [(7, BufferChunk_null), (9, BufferChunk_null)]"
    using d p1 p2 by (simp_all add: slot_queue2_def)
qed

theorem slot_calls_run_in_order_witness:
  "\<exists>s'. handleSlotCalls slot_env 0 (demo_actor\<lparr>wa_calls := [(''f'', 0)]\<rparr>,
      demo_world\<lparr>w_in := (\<lambda>_. (w_in demo_world 0)\<lparr>ip_name := ''f'', ip_slotCalls := slot_queue2\<rparr>)\<rparr>) = Some s'
    \<and> map lb_data (op_postedLabels (w_out (snd s') 1)) = [7, 9]"
proof -
  let ?s = "(demo_actor\<lparr>wa_calls := [(''f'', 0)]\<rparr>, demo_world\<lparr>w_in := (\<lambda>_. (w_in demo_world 0)\<lparr>ip_name := ''f'', ip_slotCalls := slot_queue2\<rparr>)\<rparr>)"
  let ?I = "\<lambda>s :: (nat, nat) state. wa_calls (fst s) = [(''f'', 0)] \<and> wa_probes (fst s) = Map.empty \<and> ip_name (w_in (snd s) 0) = ''f''"
  let ?seen = "\<lambda>s :: (nat, nat) state. map lb_data (op_postedLabels (w_out (snd s) 1))"
  have 1: "?I ?s" "?seen ?s = []" by (simp_all add: demo_actor_def WorkerActor_new_def demo_world_def OutputPort_new_def)
  have 2: "\<forall>call s. ?I s \<longrightarrow> (\<exists>s'. slot_effect slot_env (ip_name (w_in (snd s) 0)) call s = Some s' \<and> ?I s'
           \<and> ip_slotCalls (w_in (snd s') 0) = ip_slotCalls (w_in (snd s) 0) \<and> ?seen s' = ?seen s @ [call])"
    by (auto simp: slot_effect_def slot_env_def Block_handler_def opaqueCallHandler_def bumpActivity_def flagInternalChange_def
        OutputPort_postLabel_def Label_new_def Label_adjust_def Let_def)
  show ?thesis
    using slot_calls_run_in_order [of ?s 0 ?I slot_env ?seen, OF _ 1(1) 2] slot_queue2 1(2) by auto
qed

end
