(* ===== verification/TopologyCommit.thy ===== *)
theory TopologyCommit
  imports Topology WorkerActor
begin

text \<open>
  Committing a topology (\<open>TopologyCommit.cpp\<close>): the difference between the active and the wanted flows is turned into
  subscriptions, buffer managers and activations of the worker actors.

  \<^item> \<open>System\<close> has the actor of every block and the ports they share. \<open>Runtime\<close> has what the blocks answer: their
    environment, the domains and buffer modes of ports, and the buffer managers they provide.
  \<^item> The futures of one step run concurrently in the code, each on a locked actor; here they run in the order of their
    list, and their errors are collected the same way.
  \<^item> Thread pools and the text of error messages are not modelled.
\<close>

section \<open>Blocks and actors\<close>

record ('o, 'c, 'd) System =
  sy_actor :: "'o \<Rightarrow> 'c WorkerActor"
  sy_world :: "'d World"

record ('o, 'c, 'd, 'e, 't) Runtime =
  rt_env :: "'o \<Rightarrow> ('c, 'd, 'e, 't) Env"
  rt_localManager :: "'o \<Rightarrow> string \<Rightarrow> Manager option"
  rt_domains :: "'o Domains"
  rt_getBufferManager :: "'o Port \<Rightarrow> string \<Rightarrow> bool \<Rightarrow> Manager"

datatype 'e commit_error = ActorError "'e actor_error" | PortError port_error | MultipleCustom | ConnectError topology_error

abbreviation (input) obj :: "'o Port \<Rightarrow> 'o" where "obj p \<equiv> the (p_obj p)"

text \<open>A call on the actor of a block.\<close>

definition on_actor ::
  "'o \<Rightarrow> (('c, 'd) state \<Rightarrow> 'e actor_error option \<times> ('c, 'd) state) \<Rightarrow> ('o, 'c, 'd) System \<Rightarrow> 'e commit_error option \<times> ('o, 'c, 'd) System" where
  "on_actor x call sys = (case call (sy_actor sys x, sy_world sys) of
     (e, wa, w) \<Rightarrow> (map_option ActorError e, \<lparr>sy_actor = (sy_actor sys)(x := wa), sy_world = w\<rparr>))"

section \<open>Subscriptions\<close>

definition subscribePort ::
  "('o, 'c, 'd, 'e, 't) Runtime \<Rightarrow> 'o Port \<Rightarrow> 'o Port \<Rightarrow> string \<Rightarrow> ('o, 'c, 'd) System \<Rightarrow> 'e commit_error option \<times> ('o, 'c, 'd) System" where
  "subscribePort rt src dst action sys =
     (case Block_input (p_name dst) (sy_actor sys (obj dst)) of
        Inl e \<Rightarrow> (Some (PortError e), sys)
      | Inr inputPort \<Rightarrow>
          (case on_actor (obj src) (subscribeInput (rt_localManager rt (obj src)) action (p_name src) inputPort) sys of
             (Some e, sys) \<Rightarrow> (Some e, sys)
           | (None, sys) \<Rightarrow>
               (case Block_output (p_name src) (sy_actor sys (obj src)) of
                  Inl e \<Rightarrow> (Some (PortError e), sys)
                | Inr outputPort \<Rightarrow> on_actor (obj dst) (subscribeOutput action (p_name dst) outputPort) sys)))"

fun updateFlows ::
  "('o, 'c, 'd, 'e, 't) Runtime \<Rightarrow> 'o Flow list \<Rightarrow> string \<Rightarrow> ('o, 'c, 'd) System \<Rightarrow> 'e commit_error list \<times> ('o, 'c, 'd) System" where
  "updateFlows rt [] action sys = ([], sys)"
| "updateFlows rt (flow # flows) action sys =
     (case subscribePort rt (fl_src flow) (fl_dst flow) action sys of
        (e, sys) \<Rightarrow>
          (case updateFlows rt flows action sys of (es, sys) \<Rightarrow> ((case e of None \<Rightarrow> es | Some e \<Rightarrow> e # es), sys)))"

section \<open>Buffer managers\<close>

text \<open>The manager for one source port and its destinations, or the exception for several custom destinations.\<close>

definition chooseManager :: "('o, 'c, 'd, 'e, 't) Runtime \<Rightarrow> 'o Port \<Rightarrow> 'o Port list \<Rightarrow> Manager option" where
  "chooseManager rt src dsts =
     (let dst = hd dsts;
          d = rt_domains rt;
          srcDomain = d_domain d src False;
          dstDomain = d_domain d dst True;
          srcMode = d_getBufferMode d src dstDomain False;
          dstMode = d_getBufferMode d dst srcDomain True
      in if srcMode = ''CUSTOM'' then Some (rt_getBufferManager rt src dstDomain False)
         else if dstMode = ''CUSTOM'' then
           (if list_ex (\<lambda>otherDst. \<not> Port_eq otherDst dst \<and> d_getBufferMode d otherDst srcDomain True \<noteq> ''ABDICATE''
                          \<and> d_domain d otherDst True \<noteq> []) dsts
            then None
            else Some (rt_getBufferManager rt dst srcDomain True))
         else Some (rt_getBufferManager rt src dstDomain False))"

fun install_managers ::
  "('o, 'c, 'd, 'e, 't) Runtime \<Rightarrow> ('o Port \<times> 'o Port list) list \<Rightarrow> ('o, 'c, 'd) System \<Rightarrow> 'e commit_error list \<times> ('o, 'c, 'd) System" where
  "install_managers rt [] sys = ([], sys)"
| "install_managers rt ((src, dsts) # srcs) sys =
     (case chooseManager rt src dsts of
        None \<Rightarrow> ([MultipleCustom], sys)
      | Some manager \<Rightarrow>
          (case on_actor (obj src) (setOutputBufferManager (p_name src) (Some manager)) sys of
             (e, sys) \<Rightarrow> (case install_managers rt srcs sys of
                (es, sys) \<Rightarrow> ((case e of None \<Rightarrow> es | Some e \<Rightarrow> e # es), sys))))"

definition installBufferManagers ::
  "('o, 'c, 'd, 'e, 't) Runtime \<Rightarrow> 'o Flow list \<Rightarrow> ('o, 'c, 'd) System \<Rightarrow> 'e commit_error list \<times> ('o, 'c, 'd) System" where
  "installBufferManagers rt flatFlows = install_managers rt (srcs_map flatFlows)"

section \<open>Commit of flat flows\<close>

definition setActiveState ::
  "('o, 'c, 'd, 'e, 't) Runtime \<Rightarrow> bool \<Rightarrow> 'o \<Rightarrow> ('o, 'c, 'd) System \<Rightarrow> 'e commit_error option \<times> ('o, 'c, 'd) System" where
  "setActiveState rt state block =
     on_actor block (if state then setActiveStateOn (rt_env rt block) (rt_localManager rt block) else setActiveStateOff (rt_env rt block))"

fun set_active_states ::
  "('o, 'c, 'd, 'e, 't) Runtime \<Rightarrow> bool \<Rightarrow> 'o list \<Rightarrow> ('o, 'c, 'd) System \<Rightarrow> 'e commit_error list \<times> ('o, 'c, 'd) System" where
  "set_active_states rt state [] sys = ([], sys)"
| "set_active_states rt state (x # xs) sys =
     (case setActiveState rt state x sys of
        (e, sys) \<Rightarrow> (case set_active_states rt state xs sys of (es, sys) \<Rightarrow> ((case e of None \<Rightarrow> es | Some e \<Rightarrow> e # es), sys)))"

definition flows_minus :: "'o Flow list \<Rightarrow> 'o Flow list \<Rightarrow> 'o Flow list" where
  "flows_minus fs gs = filter (\<lambda>f. \<not> flow_find gs f) fs"

definition topologySubCommit ::
  "('o, 'c, 'd, 'e, 't) Runtime \<Rightarrow> ('o, 'k) Topology \<times> ('o, 'c, 'd) System \<Rightarrow> 'e commit_error list \<times> ('o, 'k) Topology \<times> ('o, 'c, 'd) System" where
  "topologySubCommit rt = (\<lambda>(t, sys).
     (let flatFlows = tp_flows t;
          newFlows = flows_minus flatFlows (tp_activeFlatFlows t);
          oldFlows = flows_minus (tp_activeFlatFlows t) flatFlows
      in case updateFlows rt newFlows ''add'' sys of
           (es, sys) \<Rightarrow> if es \<noteq> [] then (es, t, sys) else
        (case updateFlows rt oldFlows ''remove'' sys of
           (es, sys) \<Rightarrow> if es \<noteq> [] then (es, t, sys) else
        (case installBufferManagers rt newFlows sys of
           (es, sys) \<Rightarrow> if es \<noteq> [] then (es, t, sys) else
        (case set_active_states rt True (getObjSetFromFlowList newFlows (tp_activeFlatFlows t)) sys of
           (es, sys) \<Rightarrow>
             (let t = t\<lparr>tp_activeFlatFlows := flatFlows\<rparr>
              in case set_active_states rt False (getObjSetFromFlowList oldFlows (tp_activeFlatFlows t)) sys of
                   (es', sys) \<Rightarrow> (es @ es', t, sys)))))))"

section \<open>Commit of a topology\<close>

text \<open>
  The topologies that \<open>commit\<close> keeps in every process of the design, by the unique id of the process; \<open>newTopology\<close> is the
  constructor found there. The connections of a remote topology are made with the calls \<open>c\<close>.
\<close>

fun connect_all ::
  "('o, ('o, 'c, 'd) System) Calls \<Rightarrow> ('o \<Rightarrow> string) \<Rightarrow> 'o Flow list
     \<Rightarrow> (string \<times> ('o, 'k) Topology) list \<times> ('o, 'c, 'd) System
     \<Rightarrow> topology_error option \<times> (string \<times> ('o, 'k) Topology) list \<times> ('o, 'c, 'd) System" where
  "connect_all c upid [] (ts, sys) = (None, ts, sys)"
| "connect_all c upid (flow # flows) (ts, sys) =
     (case topology_connect c (obj (fl_src flow)) (p_name (fl_src flow)) (obj (fl_dst flow)) (p_name (fl_dst flow))
             (the (map_of ts (upid (obj (fl_src flow)))), sys) of
        (Some e, t, sys) \<Rightarrow> (Some e, map_put (upid (obj (fl_src flow))) t ts, sys)
      | (None, t, sys) \<Rightarrow> connect_all c upid flows (map_put (upid (obj (fl_src flow))) t ts, sys))"

fun disconnect_each ::
  "('o, ('o, 'c, 'd) System) Calls \<Rightarrow> (string \<times> ('o, 'k) Topology) list \<Rightarrow> ('o, 'c, 'd) System
     \<Rightarrow> (string \<times> ('o, 'k) Topology) list \<times> ('o, 'c, 'd) System" where
  "disconnect_each c [] sys = ([], sys)"
| "disconnect_each c ((u, t) # ts) sys =
     (case disconnectAll c False (t, sys) of (t, sys) \<Rightarrow> (case disconnect_each c ts sys of (ts, sys) \<Rightarrow> ((u, t) # ts, sys)))"

fun subCommit_each ::
  "('o, 'c, 'd, 'e, 't) Runtime \<Rightarrow> (string \<times> ('o, 'k) Topology) list \<Rightarrow> ('o, 'c, 'd) System
     \<Rightarrow> 'e commit_error list \<times> (string \<times> ('o, 'k) Topology) list \<times> ('o, 'c, 'd) System" where
  "subCommit_each rt [] sys = ([], [], sys)"
| "subCommit_each rt ((u, t) # ts) sys =
     (case topologySubCommit rt (t, sys) of
        (es, t, sys) \<Rightarrow> (case subCommit_each rt ts sys of (es', ts, sys) \<Rightarrow> (es @ es', (u, t) # ts, sys)))"

definition make_remotes ::
  "('o \<Rightarrow> string) \<Rightarrow> (string \<Rightarrow> ('o, 'k) Topology) \<Rightarrow> 'o Flow list \<Rightarrow> (string \<times> ('o, 'k) Topology) list \<Rightarrow> (string \<times> ('o, 'k) Topology) list" where
  "make_remotes upid newTopology flatFlows remotes =
     fold (\<lambda>x ts. if map_of ts (upid x) \<noteq> None then ts else map_put (upid x) (newTopology (upid x)) ts) (getObjSetFromFlowList flatFlows []) remotes"

definition keep_cached :: "('o \<Rightarrow> string) \<Rightarrow> 'o Flow list \<Rightarrow> ('o Port \<times> 'o \<times> 'o) list \<Rightarrow> ('o Port \<times> 'o \<times> 'o) list" where
  "keep_cached upid completeFlows cache = fold (\<lambda>flow m.
     (let port = envTagPort upid (fl_src flow) (fl_dst flow)
      in case port_find port cache of None \<Rightarrow> m | Some v \<Rightarrow> port_put port v m)) completeFlows []"

definition commit ::
  "(Obj, (Obj, 'c, 'd) System) Calls \<Rightarrow> (Obj \<Rightarrow> string) \<Rightarrow> (Obj Flow \<Rightarrow> Obj \<times> Obj) \<Rightarrow> (bool \<Rightarrow> Obj Port \<Rightarrow> Obj)
     \<Rightarrow> (string \<Rightarrow> (Obj, 'k) Topology) \<Rightarrow> (Obj, 'c, 'd, 'e, 't) Runtime
     \<Rightarrow> (Obj, 'k) Topology \<times> (string \<times> (Obj, 'k) Topology) list \<times> (Obj, 'c, 'd) System
     \<Rightarrow> 'e commit_error list \<times> (Obj, 'k) Topology \<times> (string \<times> (Obj, 'k) Topology) list \<times> (Obj, 'c, 'd) System" where
  "commit c upid createNetworkFlow newCopier newTopology rt = (\<lambda>(t, remotes, sys).
     (let squashedFlows = squashFlows (c_internal c) (tp_flows t);
          completeFlows = completePassThroughFlows squashedFlows;
          (flatFlows, t) = createNetworkFlows c upid createNetworkFlow completeFlows t;
          flatFlows = rectifyDomainFlows c (rt_domains rt) newCopier t flatFlows;
          remotes = make_remotes upid newTopology flatFlows remotes;
          (remotes, sys) = disconnect_each c remotes sys
      in case connect_all c upid flatFlows (remotes, sys) of
           (Some e, remotes, sys) \<Rightarrow> ([ConnectError e], t, remotes, sys)
         | (None, remotes, sys) \<Rightarrow>
             (case subCommit_each rt remotes sys of
                (es, remotes, sys) \<Rightarrow>
                  if es \<noteq> [] then (es, t, remotes, sys)
                  else ([], t\<lparr>tp_activeFlatFlows := flatFlows,
                              tp_srcToNetgressCache := keep_cached upid completeFlows (tp_srcToNetgressCache t)\<rparr>, remotes, sys))))"

section \<open>The view of a client: who is subscribed to whom\<close>

definition outs :: "('o, 'c, 'd) System \<Rightarrow> nat \<Rightarrow> nat list" where
  "outs sys a = op_subscribers (w_out (sy_world sys) a)"

definition ins :: "('o, 'c, 'd) System \<Rightarrow> nat \<Rightarrow> nat list" where
  "ins sys b = ip_subscribers (w_in (sy_world sys) b)"

definition tables :: "('o, 'c, 'd) System \<Rightarrow> 'o \<Rightarrow> PortTable \<times> PortTable" where
  "tables sys x = (wa_inputs (sy_actor sys x), wa_outputs (sy_actor sys x))"

definition out_addr :: "('o \<Rightarrow> PortTable \<times> PortTable) \<Rightarrow> 'o Port \<Rightarrow> nat option" where
  "out_addr tb p = map_of (pt_ports (snd (tb (obj p)))) (p_name p)"

definition in_addr :: "('o \<Rightarrow> PortTable \<times> PortTable) \<Rightarrow> 'o Port \<Rightarrow> nat option" where
  "in_addr tb p = map_of (pt_ports (fst (tb (obj p)))) (p_name p)"

definition tables_agree :: "('o \<Rightarrow> PortTable \<times> PortTable) \<Rightarrow> bool" where
  "tables_agree tb \<longleftrightarrow> (\<forall>x. pt_named (fst (tb x)) = map_of (pt_ports (fst (tb x))) \<and> pt_named (snd (tb x)) = map_of (pt_ports (snd (tb x))))"

definition flow_addrs :: "('o \<Rightarrow> PortTable \<times> PortTable) \<Rightarrow> 'o Flow \<Rightarrow> nat \<times> nat" where
  "flow_addrs tb f = (the (out_addr tb (fl_src f)), the (in_addr tb (fl_dst f)))"

definition ports_exist :: "('o \<Rightarrow> PortTable \<times> PortTable) \<Rightarrow> 'o Flow list \<Rightarrow> bool" where
  "ports_exist tb flows \<longleftrightarrow> (\<forall>f \<in> set flows. out_addr tb (fl_src f) \<noteq> None \<and> in_addr tb (fl_dst f) \<noteq> None)"

text \<open>The subscriptions are a set of address pairs: each output lists its inputs and each input its outputs, once.\<close>

definition wired :: "('o, 'c, 'd) System \<Rightarrow> (nat \<times> nat) set \<Rightarrow> bool" where
  "wired sys P \<longleftrightarrow> (\<forall>a. distinct (outs sys a) \<and> distinct (ins sys a) \<and> set (outs sys a) = {b. (a, b) \<in> P} \<and> set (ins sys a) = {b. (b, a) \<in> P})"

section \<open>Subscribing one flow\<close>

lemma subscribeInput_add:
  assumes "map_of (pt_ports (wa_outputs wa)) n = Some a" "b \<notin> set (op_subscribers (w_out w a))"
  shows "subscribeInput lm ''add'' n b (wa, w) =
    (None, updatePorts wa, upd_out a ((w_out w a)\<lparr>op_subscribers := op_subscribers (w_out w a) @ [b]\<rparr>) w)"
  using assms by (simp add: subscribeInput_def subscribe_list_def Let_def)

lemma subscribeOutput_action:
  assumes "map_of (pt_ports (wa_inputs wa)) n = Some b" "subscribe_list action a (ip_subscribers (w_in w b)) = Some subs"
  shows "subscribeOutput action n a (wa, w) = (None, updatePorts wa, upd_in b ((w_in w b)\<lparr>ip_subscribers := subs\<rparr>) w)"
  using assms by (simp add: subscribeOutput_def)

lemma updatePorts_tables [simp]: "wa_inputs (updatePorts wa) = wa_inputs wa" "wa_outputs (updatePorts wa) = wa_outputs wa"
  by (simp_all add: updatePorts_def)

lemma subscribeInput_remove:
  assumes "map_of (pt_ports (wa_outputs wa)) n = Some a" "b \<in> set (op_subscribers (w_out w a))" "lm n \<noteq> None"
  shows "\<exists>wa' w'. subscribeInput lm ''remove'' n b (wa, w) = (None, wa', w') \<and> wa_inputs wa' = wa_inputs wa \<and> wa_outputs wa' = wa_outputs wa
    \<and> w_in w' = w_in w \<and> (\<lambda>x. op_subscribers (w_out w' x)) = (\<lambda>x. op_subscribers (w_out w x))(a := remove1 b (op_subscribers (w_out w a)))"
  using assms
  by (auto simp: subscribeInput_def subscribe_list_def Let_def ensureOutputBufferManager_def upd_out_def fun_eq_iff split: if_splits)

lemma on_actor_run:
  assumes "call (sy_actor sys x, sy_world sys) = (None, wa', w')"
    and "wa_inputs wa' = wa_inputs (sy_actor sys x)" "wa_outputs wa' = wa_outputs (sy_actor sys x)"
  shows "\<exists>sys'. on_actor x call sys = (None, sys') \<and> tables sys' = tables sys \<and> sy_world sys' = w'"
  using assms by (simp add: on_actor_def tables_def fun_eq_iff)

lemma subscribePort_steps:
  fixes rt :: "('o, 'c, 'd, 'e, 't) Runtime"
  assumes "tables_agree (tables sys)" "out_addr (tables sys) src = Some a" "in_addr (tables sys) dst = Some b"
    and s1: "on_actor (obj src) (subscribeInput (rt_localManager rt (obj src)) action (p_name src) b) sys = (None :: 'e commit_error option, sys1)" "tables sys1 = tables sys"
    and s2: "on_actor (obj dst) (subscribeOutput action (p_name dst) a) sys1 = (None :: 'e commit_error option, sys2)"
  shows "subscribePort rt src dst action sys = (None, sys2)"
proof -
  have "Block_input (p_name dst) (sy_actor sys (obj dst)) = Inr b" "Block_output (p_name src) (sy_actor sys1 (obj src)) = Inr a"
    using assms(1-3) fun_cong [OF s1(2), of "obj src"]
    by (simp_all add: Block_input_def Block_output_def of_opt_def tables_agree_def out_addr_def in_addr_def tables_def)
  then show ?thesis using s1 s2 by (simp add: subscribePort_def)
qed

lemma subscribeOutput_run:
  assumes "in_addr (tables sys) dst = Some b" "subscribe_list action a (ins sys b) = Some subs"
  shows "\<exists>sys'. on_actor (obj dst) (subscribeOutput action (p_name dst) a) sys = (None, sys') \<and> tables sys' = tables sys
    \<and> outs sys' = outs sys \<and> ins sys' = (ins sys)(b := subs)"
proof -
  have "subscribeOutput action (p_name dst) a (sy_actor sys (obj dst), sy_world sys) =
      (None, updatePorts (sy_actor sys (obj dst)), upd_in b ((w_in (sy_world sys) b)\<lparr>ip_subscribers := subs\<rparr>) (sy_world sys))"
    using assms by (intro subscribeOutput_action) (simp_all add: in_addr_def tables_def ins_def)
  from on_actor_run [where call = "subscribeOutput action (p_name dst) a", OF this] show ?thesis
    by (auto simp: outs_def ins_def upd_in_def fun_eq_iff)
qed

lemma subscribeInput_run_add:
  assumes "out_addr (tables sys) src = Some a" "b \<notin> set (outs sys a)"
  shows "\<exists>sys'. on_actor (obj src) (subscribeInput lm ''add'' (p_name src) b) sys = (None, sys') \<and> tables sys' = tables sys
    \<and> outs sys' = (outs sys)(a := outs sys a @ [b]) \<and> ins sys' = ins sys"
proof -
  have "subscribeInput lm ''add'' (p_name src) b (sy_actor sys (obj src), sy_world sys) =
    (None, updatePorts (sy_actor sys (obj src)), upd_out a ((w_out (sy_world sys) a)\<lparr>op_subscribers := op_subscribers (w_out (sy_world sys) a) @ [b]\<rparr>) (sy_world sys))"
    using assms by (intro subscribeInput_add) (simp_all add: out_addr_def tables_def outs_def)
  from on_actor_run [where call = "subscribeInput lm ''add'' (p_name src) b", OF this] show ?thesis
    by (auto simp: outs_def ins_def upd_out_def fun_eq_iff)
qed

lemma subscribeInput_run_remove:
  assumes "out_addr (tables sys) src = Some a" "b \<in> set (outs sys a)" "lm (p_name src) \<noteq> None"
  shows "\<exists>sys'. on_actor (obj src) (subscribeInput lm ''remove'' (p_name src) b) sys = (None :: 'e commit_error option, sys') \<and> tables sys' = tables sys
    \<and> outs sys' = (outs sys)(a := remove1 b (outs sys a)) \<and> ins sys' = ins sys"
proof -
  obtain wa' w' where s: "subscribeInput lm ''remove'' (p_name src) b (sy_actor sys (obj src), sy_world sys) = (None :: 'e actor_error option, wa', w')"
      "wa_inputs wa' = wa_inputs (sy_actor sys (obj src))" "wa_outputs wa' = wa_outputs (sy_actor sys (obj src))"
      "w_in w' = w_in (sy_world sys)" "(\<lambda>x. op_subscribers (w_out w' x)) = (outs sys)(a := remove1 b (outs sys a))"
    using subscribeInput_remove [of "sy_actor sys (obj src)" "p_name src" a b "sy_world sys" lm] assms
    by (auto simp: out_addr_def tables_def outs_def [abs_def])
  from on_actor_run [where call = "subscribeInput lm ''remove'' (p_name src) b", OF s(1-3)] show ?thesis
    using s(4,5) by (auto simp: outs_def [abs_def] ins_def [abs_def])
qed

lemma wired_add:
  "wired sys P \<Longrightarrow> (a, b) \<notin> P \<Longrightarrow> outs sys' = (outs sys)(a := outs sys a @ [b]) \<Longrightarrow> ins sys' = (ins sys)(b := ins sys b @ [a]) \<Longrightarrow>
   wired sys' (insert (a, b) P)"
  unfolding wired_def by auto

lemma wired_remove:
  "wired sys P \<Longrightarrow> outs sys' = (outs sys)(a := remove1 b (outs sys a)) \<Longrightarrow> ins sys' = (ins sys)(b := remove1 a (ins sys b)) \<Longrightarrow>
   wired sys' (P - {(a, b)})"
  unfolding wired_def by auto

lemma subscribePort_add:
  fixes rt :: "('o, 'c, 'd, 'e, 't) Runtime"
  assumes agree: "tables_agree (tables sys)" and a: "out_addr (tables sys) src = Some a" and b: "in_addr (tables sys) dst = Some b"
    and w: "wired sys P" "(a, b) \<notin> P"
  shows "\<exists>sys'. subscribePort rt src dst ''add'' sys = (None, sys') \<and> tables sys' = tables sys \<and> wired sys' (insert (a, b) P)"
proof -
  have n: "b \<notin> set (outs sys a)" "a \<notin> set (ins sys b)" using w by (auto simp: wired_def)
  obtain sys1 where s1: "on_actor (obj src) (subscribeInput (rt_localManager rt (obj src)) ''add'' (p_name src) b) sys = (None :: 'e commit_error option, sys1)"
      "tables sys1 = tables sys" "outs sys1 = (outs sys)(a := outs sys a @ [b])" "ins sys1 = ins sys"
    using subscribeInput_run_add [OF a n(1)] by blast
  have "subscribe_list ''add'' a (ins sys1 b) = Some (ins sys b @ [a])" using n s1 by (simp add: subscribe_list_def)
  with b s1 obtain sys2 where s2: "on_actor (obj dst) (subscribeOutput ''add'' (p_name dst) a) sys1 = (None :: 'e commit_error option, sys2)"
      "tables sys2 = tables sys" "outs sys2 = outs sys1" "ins sys2 = (ins sys)(b := ins sys b @ [a])"
    using subscribeOutput_run [of sys1 dst b "''add''" a] by fastforce
  show ?thesis using subscribePort_steps [OF agree a b s1(1,2) s2(1)] s2 s1(3) wired_add [OF w] by simp
qed

lemma subscribePort_remove:
  fixes rt :: "('o, 'c, 'd, 'e, 't) Runtime"
  assumes agree: "tables_agree (tables sys)" and a: "out_addr (tables sys) src = Some a" and b: "in_addr (tables sys) dst = Some b"
    and w: "wired sys P" "(a, b) \<in> P" and lm: "\<And>x n. rt_localManager rt x n \<noteq> None"
  shows "\<exists>sys'. subscribePort rt src dst ''remove'' sys = (None, sys') \<and> tables sys' = tables sys \<and> wired sys' (P - {(a, b)})"
proof -
  have n: "b \<in> set (outs sys a)" "a \<in> set (ins sys b)" using w by (auto simp: wired_def)
  obtain sys1 where s1: "on_actor (obj src) (subscribeInput (rt_localManager rt (obj src)) ''remove'' (p_name src) b) sys = (None :: 'e commit_error option, sys1)"
      "tables sys1 = tables sys" "outs sys1 = (outs sys)(a := remove1 b (outs sys a))" "ins sys1 = ins sys"
    using subscribeInput_run_remove [OF a n(1), of "rt_localManager rt (obj src)"] lm by blast
  have "subscribe_list ''remove'' a (ins sys1 b) = Some (remove1 a (ins sys b))" using n s1 by (simp add: subscribe_list_def)
  with b s1 obtain sys2 where s2: "on_actor (obj dst) (subscribeOutput ''remove'' (p_name dst) a) sys1 = (None :: 'e commit_error option, sys2)"
      "tables sys2 = tables sys" "outs sys2 = outs sys1" "ins sys2 = (ins sys)(b := remove1 a (ins sys b))"
    using subscribeOutput_run [of sys1 dst b "''remove''" a] by fastforce
  show ?thesis using subscribePort_steps [OF agree a b s1(1,2) s2(1)] s2 s1(3) wired_remove [OF w(1)] by simp
qed

section \<open>Updating flows\<close>

lemma updateFlows_add:
  "tables_agree tb \<Longrightarrow> tables sys = tb \<Longrightarrow> ports_exist tb flows \<Longrightarrow> wired sys P \<Longrightarrow> distinct (map (flow_addrs tb) flows) \<Longrightarrow>
   flow_addrs tb ` set flows \<inter> P = {} \<Longrightarrow>
   \<exists>sys'. updateFlows rt flows ''add'' sys = ([], sys') \<and> tables sys' = tb \<and> wired sys' (P \<union> flow_addrs tb ` set flows)"
proof (induction flows arbitrary: sys P)
  case (Cons f flows)
  obtain a b where ab: "out_addr tb (fl_src f) = Some a" "in_addr tb (fl_dst f) = Some b" using Cons.prems by (auto simp: ports_exist_def)
  then have addrs: "flow_addrs tb f = (a, b)" by (simp add: flow_addrs_def)
  obtain sys1 where s1: "subscribePort rt (fl_src f) (fl_dst f) ''add'' sys = (None, sys1)" "tables sys1 = tb" "wired sys1 (insert (a, b) P)"
    using subscribePort_add [of sys "fl_src f" a "fl_dst f" b P rt] Cons.prems ab addrs by auto
  have "\<exists>sys'. updateFlows rt flows ''add'' sys1 = ([], sys') \<and> tables sys' = tb \<and> wired sys' (insert (a, b) P \<union> flow_addrs tb ` set flows)"
    using Cons.prems s1 addrs by (intro Cons.IH) (auto simp: ports_exist_def)
  then show ?case using s1 addrs by auto
qed simp

lemma updateFlows_remove:
  "tables_agree tb \<Longrightarrow> tables sys = tb \<Longrightarrow> ports_exist tb flows \<Longrightarrow> wired sys P \<Longrightarrow> distinct (map (flow_addrs tb) flows) \<Longrightarrow>
   flow_addrs tb ` set flows \<subseteq> P \<Longrightarrow> (\<And>x n. rt_localManager rt x n \<noteq> None) \<Longrightarrow>
   \<exists>sys'. updateFlows rt flows ''remove'' sys = ([], sys') \<and> tables sys' = tb \<and> wired sys' (P - flow_addrs tb ` set flows)"
proof (induction flows arbitrary: sys P)
  case (Cons f flows)
  obtain a b where ab: "out_addr tb (fl_src f) = Some a" "in_addr tb (fl_dst f) = Some b" using Cons.prems by (auto simp: ports_exist_def)
  then have addrs: "flow_addrs tb f = (a, b)" by (simp add: flow_addrs_def)
  obtain sys1 where s1: "subscribePort rt (fl_src f) (fl_dst f) ''remove'' sys = (None, sys1)" "tables sys1 = tb" "wired sys1 (P - {(a, b)})"
    using subscribePort_remove [of sys "fl_src f" a "fl_dst f" b P rt] Cons.prems ab addrs by auto
  have "\<exists>sys'. updateFlows rt flows ''remove'' sys1 = ([], sys') \<and> tables sys' = tb \<and> wired sys' (P - {(a, b)} - flow_addrs tb ` set flows)"
    using Cons.prems s1 addrs by (intro Cons.IH) (auto simp: ports_exist_def)
  moreover have "P - {(a, b)} - flow_addrs tb ` set flows = P - flow_addrs tb ` set (f # flows)" using addrs by auto
  ultimately show ?case using s1 by auto
qed simp

section \<open>Steps that keep the wiring\<close>

definition same_wiring :: "('o, 'c, 'd) System \<Rightarrow> ('o, 'c, 'd) System \<Rightarrow> bool" where
  "same_wiring sys sys' \<longleftrightarrow> tables sys' = tables sys \<and> outs sys' = outs sys \<and> ins sys' = ins sys"

text \<open>A step of one actor that changes no port table and no subscription.\<close>

definition keeps_wiring :: "(('c, 'd) state \<Rightarrow> 'r \<times> ('c, 'd) state) \<Rightarrow> bool" where
  "keeps_wiring call \<longleftrightarrow> (\<forall>wa w r wa' w'. call (wa, w) = (r, wa', w') \<longrightarrow> wa_inputs wa' = wa_inputs wa \<and> wa_outputs wa' = wa_outputs wa
     \<and> (\<forall>a. op_subscribers (w_out w' a) = op_subscribers (w_out w a)) \<and> (\<forall>a. ip_subscribers (w_in w' a) = ip_subscribers (w_in w a)))"

lemma same_wiring_trans: "same_wiring sys sys1 \<Longrightarrow> same_wiring sys1 sys2 \<Longrightarrow> same_wiring sys sys2"
  by (simp add: same_wiring_def)

lemma on_actor_same: "keeps_wiring call \<Longrightarrow> on_actor x call sys = (e, sys') \<Longrightarrow> same_wiring sys sys'"
  unfolding keeps_wiring_def on_actor_def same_wiring_def tables_def outs_def ins_def
  by (cases "call (sy_actor sys x, sy_world sys)") (auto simp: fun_eq_iff)

lemma ensureOutput_keeps: "keeps_wiring (ensureOutputBufferManager lm n)"
  by (auto simp: keeps_wiring_def ensureOutputBufferManager_def Let_def upd_out_def split: option.splits if_splits)

lemma keeps_wiringD:
  "keeps_wiring call \<Longrightarrow> call (wa, w) = (r, wa', w') \<Longrightarrow> wa_inputs wa' = wa_inputs wa \<and> wa_outputs wa' = wa_outputs wa
     \<and> (\<forall>a. op_subscribers (w_out w' a) = op_subscribers (w_out w a)) \<and> (\<forall>a. ip_subscribers (w_in w' a) = ip_subscribers (w_in w a))"
  unfolding keeps_wiring_def by blast

lemma ensure_all_keeps: "keeps_wiring (ensure_all lm ns :: ('c, 'd) state \<Rightarrow> 'e actor_error option \<times> ('c, 'd) state)"
proof (induction ns)
  case (Cons n ns)
  show ?case unfolding keeps_wiring_def
  proof (intro allI impI)
    fix wa wa' :: "'c WorkerActor" and w w' :: "'d World" and r :: "'e actor_error option"
    assume run: "ensure_all lm (n # ns) (wa, w) = (r, wa', w')"
    obtain e wa1 w1 where one: "ensureOutputBufferManager lm n (wa, w) = (e :: 'e actor_error option, wa1, w1)" by (metis prod_cases3)
    show "wa_inputs wa' = wa_inputs wa \<and> wa_outputs wa' = wa_outputs wa
     \<and> (\<forall>a. op_subscribers (w_out w' a) = op_subscribers (w_out w a)) \<and> (\<forall>a. ip_subscribers (w_in w' a) = ip_subscribers (w_in w a))"
      using run one keeps_wiringD [OF ensureOutput_keeps one] keeps_wiringD [OF Cons.IH, of wa1 w1 r wa' w'] by (cases e) auto
  qed
qed (simp add: keeps_wiring_def)

lemma setActiveStateOff_keeps: "keeps_wiring (env_deactivate env) \<Longrightarrow> keeps_wiring (setActiveStateOff env)"
  unfolding keeps_wiring_def setActiveStateOff_def
  by (auto simp: bumpActivity_def split: if_splits prod.splits sum.splits)

lemma setActiveStateOn_keeps:
  fixes env :: "('c, 'd, 'e, 't) Env"
  assumes act: "keeps_wiring (env_activate env)" shows "keeps_wiring (setActiveStateOn env lm)"
  unfolding keeps_wiring_def
proof (intro allI impI)
  fix wa wa' :: "'c WorkerActor" and w w' :: "'d World" and r :: "'e actor_error option"
  assume run: "setActiveStateOn env lm (wa, w) = (r, wa', w')"
  obtain e wa1 w1 where one: "ensure_all lm (map fst (pt_ports (wa_outputs wa))) (wa, w) = (e :: 'e actor_error option, wa1, w1)" by (metis prod_cases3)
  obtain r2 wa2 w2 where two: "env_activate env (wa1\<lparr>wa_activeState := True\<rparr>, w1) = (r2, wa2, w2)" by (metis prod_cases3)
  show "wa_inputs wa' = wa_inputs wa \<and> wa_outputs wa' = wa_outputs wa
     \<and> (\<forall>a. op_subscribers (w_out w' a) = op_subscribers (w_out w a)) \<and> (\<forall>a. ip_subscribers (w_in w' a) = ip_subscribers (w_in w a))"
    using run one two keeps_wiringD [OF ensure_all_keeps one] keeps_wiringD [OF act two]
    by (cases e; cases r2) (auto simp: setActiveStateOn_def bumpActivity_def)
qed

lemma set_active_states_same:
  assumes "\<And>x. keeps_wiring (env_activate (rt_env rt x))" "\<And>x. keeps_wiring (env_deactivate (rt_env rt x))"
  shows "set_active_states rt state xs sys = (es, sys') \<Longrightarrow> same_wiring sys sys'"
proof (induction xs arbitrary: sys es)
  case (Cons x xs)
  obtain e sys1 where one: "setActiveState rt state x sys = (e, sys1)" by fastforce
  obtain es1 sys2 where two: "set_active_states rt state xs sys1 = (es1, sys2)" by fastforce
  have "same_wiring sys sys1"
    using one assms setActiveStateOn_keeps [of "rt_env rt x"] setActiveStateOff_keeps [of "rt_env rt x"]
    unfolding setActiveState_def by (cases state) (auto intro: on_actor_same)
  then show ?case using Cons one two by (auto intro: same_wiring_trans)
qed (simp add: same_wiring_def)

lemma setOutputBufferManager_keeps: "keeps_wiring (setOutputBufferManager n m)"
  by (auto simp: keeps_wiring_def setOutputBufferManager_def upd_out_def split: option.splits)

lemma setOutputBufferManager_run:
  "out_addr (tables sys) p \<noteq> None \<Longrightarrow> \<exists>sys'. on_actor (obj p) (setOutputBufferManager (p_name p) m) sys = (None, sys')"
  by (auto simp: out_addr_def tables_def on_actor_def setOutputBufferManager_def)

lemma install_managers_same:
  fixes rt :: "('o, 'c, 'd, 'e, 't) Runtime"
  shows "tables sys = tb \<Longrightarrow> (\<And>k v. (k, v) \<in> set srcs \<Longrightarrow> out_addr tb k \<noteq> None \<and> chooseManager rt k v \<noteq> None) \<Longrightarrow>
   \<exists>sys'. install_managers rt srcs sys = ([], sys') \<and> same_wiring sys sys'"
proof (induction srcs arbitrary: sys)
  case (Cons kv srcs)
  obtain k v where kv: "kv = (k, v)" by fastforce
  obtain m where m: "chooseManager rt k v = Some m" using Cons.prems(2) [of k v] kv by auto
  obtain sys1 where one: "on_actor (obj k) (setOutputBufferManager (p_name k) (Some m)) sys = (None :: 'e commit_error option, sys1)"
    using setOutputBufferManager_run [of sys k] Cons.prems(1) Cons.prems(2) [of k v] kv by auto
  have same: "same_wiring sys sys1" using on_actor_same [OF setOutputBufferManager_keeps one] .
  then have "\<exists>sys'. install_managers rt srcs sys1 = ([], sys') \<and> same_wiring sys1 sys'"
    using Cons.prems by (intro Cons.IH) (auto simp: same_wiring_def)
  then show ?case using kv m one same same_wiring_trans by auto
qed (simp add: same_wiring_def)

lemma srcs_map_sources: "(k, v) \<in> set (srcs_map flows) \<Longrightarrow> k \<in> fl_src ` set flows"
  using push_loops(2) [where sel = fl_src and oth = fl_dst and all = flows and fs = flows and m = "[]"] unfolding srcs_map_def by auto

section \<open>What a commit establishes\<close>

text \<open>
  The flows of a topology and its active ones name existing ports, two of them have the same addresses exactly when
  the code takes them to be equal, and no list has a flow twice (\<open>connect\<close> refuses a second one).
\<close>

definition flows_addressed :: "('o \<Rightarrow> PortTable \<times> PortTable) \<Rightarrow> 'o Flow list \<Rightarrow> 'o Flow list \<Rightarrow> bool" where
  "flows_addressed tb flat active \<longleftrightarrow> ports_exist tb flat \<and> ports_exist tb active
     \<and> (\<forall>f \<in> set flat \<union> set active. \<forall>g \<in> set flat \<union> set active. Flow_eq f g \<longleftrightarrow> flow_addrs tb f = flow_addrs tb g)
     \<and> distinct (map (flow_addrs tb) flat) \<and> distinct (map (flow_addrs tb) active)"

lemma image_outside: "h ` {x \<in> A. h x \<notin> B} = h ` A - B"
  by auto

lemma flows_minus_addrs:
  assumes "\<forall>f \<in> set fs \<union> set gs. \<forall>g \<in> set fs \<union> set gs. Flow_eq f g \<longleftrightarrow> flow_addrs tb f = flow_addrs tb g"
  shows "flow_addrs tb ` set (flows_minus fs gs) = flow_addrs tb ` set fs - flow_addrs tb ` set gs"
proof -
  have "flow_find gs f \<longleftrightarrow> flow_addrs tb f \<in> flow_addrs tb ` set gs" if "f \<in> set fs" for f
  proof -
    have "flow_find gs f \<longleftrightarrow> (\<exists>g \<in> set gs. flow_addrs tb g = flow_addrs tb f)"
      unfolding flow_find_def list_ex_iff using assms that by blast
    then show ?thesis by (auto simp: image_iff eq_commute)
  qed
  then have "set (flows_minus fs gs) = {f \<in> set fs. flow_addrs tb f \<notin> flow_addrs tb ` set gs}"
    unfolding flows_minus_def set_filter by (intro Collect_cong) auto
  then show ?thesis by (simp only: image_outside)
qed

lemma flows_minus_exist: "ports_exist tb fs \<Longrightarrow> ports_exist tb (flows_minus fs gs)"
  by (simp add: ports_exist_def flows_minus_def)

lemma flows_minus_distinct: "distinct (map (flow_addrs tb) fs) \<Longrightarrow> distinct (map (flow_addrs tb) (flows_minus fs gs))"
  by (auto simp: flows_minus_def distinct_map intro: inj_on_subset)

text \<open>
  C40. A commit makes the subscriptions the wanted flows. When the subscriptions are those of the active flows, then
  after \<open>topologySubCommit\<close> every output lists exactly the inputs its flows lead to, and every input its outputs: no
  subscription is lost, doubled or left over, no subscribe call fails, and the active flows are recorded. Blocks are
  assumed to leave the subscriptions alone in \<open>activate\<close> and \<open>deactivate\<close> (whose errors are only collected), a local
  buffer manager always exists, and no source has several custom destinations.
\<close>

theorem topologySubCommit_wires_flows:
  fixes rt :: "('o, 'c, 'd, 'e, 't) Runtime"
  assumes agree: "tables_agree (tables sys)"
    and addressed: "flows_addressed (tables sys) (tp_flows t) (tp_activeFlatFlows t)"
    and w: "wired sys (flow_addrs (tables sys) ` set (tp_activeFlatFlows t))"
    and blocks: "\<And>x. keeps_wiring (env_activate (rt_env rt x))" "\<And>x. keeps_wiring (env_deactivate (rt_env rt x))"
    and lm: "\<And>x n. rt_localManager rt x n \<noteq> None"
    and managers: "\<And>k v. (k, v) \<in> set (srcs_map (flows_minus (tp_flows t) (tp_activeFlatFlows t))) \<Longrightarrow> chooseManager rt k v \<noteq> None"
  shows "\<exists>es t' sys'. topologySubCommit rt (t, sys) = (es, t', sys') \<and> wired sys' (flow_addrs (tables sys) ` set (tp_flows t))
     \<and> tables sys' = tables sys \<and> t' = t\<lparr>tp_activeFlatFlows := tp_flows t\<rparr>"
proof -
  define tb where "tb = tables sys"
  define new where "new = flows_minus (tp_flows t) (tp_activeFlatFlows t)"
  define old where "old = flows_minus (tp_activeFlatFlows t) (tp_flows t)"
  let ?F = "flow_addrs tb ` set (tp_flows t)" and ?A = "flow_addrs tb ` set (tp_activeFlatFlows t)"
  note ad = addressed [unfolded flows_addressed_def, folded tb_def]
  have agree': "tables_agree tb" and w': "wired sys ?A" using agree w by (simp_all add: tb_def)
  have N: "flow_addrs tb ` set new = ?F - ?A" and O: "flow_addrs tb ` set old = ?A - ?F"
    unfolding new_def old_def using ad by (auto intro!: flows_minus_addrs)
  have ex: "ports_exist tb new" "ports_exist tb old" and dis: "distinct (map (flow_addrs tb) new)" "distinct (map (flow_addrs tb) old)"
    unfolding new_def old_def using ad by (auto intro: flows_minus_exist flows_minus_distinct)
  obtain sys1 where s1: "updateFlows rt new ''add'' sys = ([], sys1)" "tables sys1 = tb" "wired sys1 (?A \<union> (?F - ?A))"
    using updateFlows_add [OF agree' tb_def [symmetric] ex(1) w' dis(1), of rt] unfolding N by blast
  obtain sys2 where s2: "updateFlows rt old ''remove'' sys1 = ([], sys2)" "tables sys2 = tb" "wired sys2 (?A \<union> (?F - ?A) - (?A - ?F))"
    using updateFlows_remove [OF agree' s1(2) ex(2) s1(3) dis(2) _ lm] unfolding O by blast
  have eq: "?A \<union> (?F - ?A) - (?A - ?F) = ?F" by blast
  have "out_addr tb k \<noteq> None" if "(k, v) \<in> set (srcs_map new)" for k v
    using srcs_map_sources [OF that] ex(1) by (auto simp: ports_exist_def)
  then obtain sys3 where s3: "installBufferManagers rt new sys2 = ([], sys3)" "same_wiring sys2 sys3"
    using install_managers_same [OF s2(2), of "srcs_map new" rt] managers unfolding installBufferManagers_def new_def by blast
  obtain es4 sys4 where s4: "set_active_states rt True (getObjSetFromFlowList new (tp_activeFlatFlows t)) sys3 = (es4, sys4)" by fastforce
  obtain es5 sys5 where s5: "set_active_states rt False (getObjSetFromFlowList old (tp_flows t)) sys4 = (es5, sys5)" by fastforce
  have same: "same_wiring sys2 sys5"
    using s3(2) set_active_states_same [OF blocks s4] set_active_states_same [OF blocks s5] same_wiring_trans by blast
  have "topologySubCommit rt (t, sys) = (es4 @ es5, t\<lparr>tp_activeFlatFlows := tp_flows t\<rparr>, sys5)"
    using s1 s2 s3 s4 s5 by (simp add: topologySubCommit_def Let_def new_def [symmetric] old_def [symmetric])
  moreover have "wired sys5 ?F" "tables sys5 = tb" 
    using s2(2) s2(3) [unfolded eq] same by (auto simp: same_wiring_def wired_def)
  ultimately show ?thesis by (simp add: tb_def)
qed

text \<open>Two blocks with one input and one output each, and one flow between them that is not active yet.\<close>

definition demo_block :: "nat \<Rightarrow> nat WorkerActor" where
  "demo_block a = WorkerActor_new\<lparr>
     wa_inputs := PortTable_new\<lparr>pt_ports := [(''0'', a)], pt_named := [''0'' \<mapsto> a]\<rparr>,
     wa_outputs := PortTable_new\<lparr>pt_ports := [(''0'', a)], pt_named := [''0'' \<mapsto> a]\<rparr>\<rparr>"

definition demo_system :: "(string, nat, nat) System" where
  "demo_system = \<lparr>sy_actor = (\<lambda>x. demo_block (if x = ''A'' then 1 else 2)),
     sy_world = demo_world\<lparr>w_in := (\<lambda>b. (w_in demo_world b)\<lparr>ip_subscribers := []\<rparr>), w_out := (\<lambda>a. (w_out demo_world a)\<lparr>op_subscribers := []\<rparr>)\<rparr>\<rparr>"

definition demo_runtime :: "(string, nat, nat, nat, nat) Runtime" where
  "demo_runtime = \<lparr>rt_env = (\<lambda>_. demo_env), rt_localManager = (\<lambda>_ _. Some (demo_manager 8)),
     rt_domains = \<lparr>d_domain = (\<lambda>_ _. []), d_getBufferMode = (\<lambda>_ _ _. ''ABDICATE'')\<rparr>, rt_getBufferManager = (\<lambda>_ _ _. demo_manager 8)\<rparr>"

lemma demo_env_keeps: "keeps_wiring (env_activate demo_env)" "keeps_wiring (env_deactivate demo_env)"
  by (simp_all add: keeps_wiring_def demo_env_def)

lemma demo_tables:
  "flow_addrs (tables demo_system) (hd demo_flows) = (1, 2)" "tables_agree (tables demo_system)"
  "flows_addressed (tables demo_system) demo_flows []"
  by (simp_all add: flow_addrs_def out_addr_def in_addr_def tables_def demo_system_def demo_block_def WorkerActor_new_def PortTable_new_def
      demo_flows_def tables_agree_def flows_addressed_def ports_exist_def Flow_eq_def Port_eq_def fun_eq_iff)

theorem topologySubCommit_wires_flows_witness:
  "\<exists>es t' sys'. topologySubCommit demo_runtime (demo_topology\<lparr>tp_flows := demo_flows\<rparr>, demo_system) = (es, t', sys')
     \<and> wired sys' {(1, 2)} \<and> tp_activeFlatFlows t' = demo_flows"
proof -
  let ?t = "demo_topology\<lparr>tp_flows := demo_flows\<rparr>"
  have active: "tp_activeFlatFlows ?t = []" by (simp add: demo_topology_def Topology_new_def)
  have w: "wired demo_system (flow_addrs (tables demo_system) ` set (tp_activeFlatFlows ?t))"
    unfolding active by (simp add: wired_def outs_def ins_def demo_system_def)
  have m: "chooseManager demo_runtime k v \<noteq> None" for k v by (simp add: chooseManager_def demo_runtime_def Let_def)
  have rt: "rt_env demo_runtime x = demo_env" "rt_localManager demo_runtime x n \<noteq> None" for x n by (simp_all add: demo_runtime_def)
  have F: "flow_addrs (tables demo_system) ` set (tp_flows ?t) = {(1, 2)}" using demo_tables(1) by (simp add: demo_flows_def)
  have ad: "flows_addressed (tables demo_system) (tp_flows ?t) (tp_activeFlatFlows ?t)" using demo_tables(3) active by simp
  show ?thesis
    using topologySubCommit_wires_flows [OF demo_tables(2) ad w, of demo_runtime] demo_env_keeps m unfolding rt(1) F by (auto simp: rt(2))
qed

end
