(* ===== verification/ActorInterface.thy ===== *)
theory ActorInterface
  imports Prelude
begin

section \<open>Locks and exclusive access to an actor: SpinLock.hpp, SpinLockRW.hpp, ActorInterface.hpp\<close>

text \<open>
  Threads interleave at the granularity of single atomic operations and of the mutex and condition variable calls
  (sequential consistency; the acquire and release orders of the code are not weakened further). A condition variable may
  wake at any time, by a notification or by its time-out of one millisecond, so \<open>notify\<close> has no effect of its own.

  \<^item> \<open>SpinLock\<close> is an atomic flag, \<open>SpinLockRW\<close> a 32-bit counter of readers with the value \<open>~0\<close> for a writer;
    \<open>compare_exchange_weak\<close> may fail spuriously (the argument \<open>spurious\<close>).
  \<^item> \<open>ai_step\<close> is one step of some thread inside \<open>externalCallAcquire\<close>, \<open>externalCallRelease\<close>, \<open>workerThreadAcquire\<close>,
    \<open>workerThreadRelease\<close> or \<open>flagExternalChange\<close>; the program counter says where in these functions a thread is.
    Any number of threads may call any of them.
  \<^item> \<open>ai_pending\<close> is a ghost: some change was flagged since a worker last got the actor.
\<close>

subsection \<open>Spin locks\<close>

type_synonym SpinLock = bool

definition SpinLock_new :: SpinLock where "SpinLock_new = False"

definition SpinLock_try_lock :: "SpinLock \<Rightarrow> bool \<times> SpinLock" where
  "SpinLock_try_lock l = (\<not> l, True)"

definition SpinLock_unlock :: "SpinLock \<Rightarrow> SpinLock" where
  "SpinLock_unlock l = False"

text \<open>What a client of a lock relies on, and mutual exclusion for any history of attempts and releases.\<close>

locale try_lock =
  fixes attempt :: "'l \<Rightarrow> bool \<times> 'l" and unlock :: "'l \<Rightarrow> 'l" and free :: "'l \<Rightarrow> bool"
  assumes try_free: "free l \<Longrightarrow> fst (attempt l)" and try_held: "\<not> free l \<Longrightarrow> \<not> fst (attempt l)"
    and held_after: "\<not> free (snd (attempt l))" and free_unlock: "free (unlock l)"
begin

lemma try_iff: "fst (attempt l) \<longleftrightarrow> free l"
  using try_free try_held by blast

fun history :: "nat list \<Rightarrow> nat set \<times> 'l \<Rightarrow> nat set \<times> 'l" where
  "history [] s = s"
| "history (t # ts) (H, l) =
     (if t \<in> H then history ts (H - {t}, unlock l)
      else if fst (attempt l) then history ts (insert t H, snd (attempt l)) else history ts (H, snd (attempt l)))"

lemma exclusive:
  "free l = (H = {}) \<Longrightarrow> (\<exists>t. H \<subseteq> {t}) \<Longrightarrow> history ts (H, l) = (H', l') \<Longrightarrow> free l' = (H' = {}) \<and> (\<exists>t. H' \<subseteq> {t})"
proof (induction ts "(H, l)" arbitrary: H l rule: history.induct)
  case (2 t ts H l)
  consider "t \<in> H" | "t \<notin> H" "free l" | "t \<notin> H" "\<not> free l" by blast
  then show ?case
  proof cases
    case 1
    have "H - {t} = {}" using 1 "2.prems"(2) by auto
    moreover have "history ts (H - {t}, unlock l) = (H', l')" using 1 "2.prems"(3) by simp
    ultimately show ?thesis using "2.hyps"(1) [OF 1] free_unlock by auto
  next
    case 2
    then show ?thesis using "2.hyps"(2) "2.prems" try_iff held_after by auto
  next
    case 3
    then show ?thesis using "2.hyps"(3) "2.prems" try_iff held_after by auto
  qed
qed auto

end

interpretation spin: try_lock SpinLock_try_lock SpinLock_unlock "\<lambda>l. \<not> l"
  by unfold_locales (simp_all add: SpinLock_try_lock_def SpinLock_unlock_def)

type_synonym SpinLockRW = "32 word"

abbreviation (input) WRITER_LOCK :: SpinLockRW where "WRITER_LOCK \<equiv> - 1"
abbreviation (input) UNLOCKED :: SpinLockRW where "UNLOCKED \<equiv> 0"

definition SpinLockRW_try_lock_shared :: "bool \<Rightarrow> SpinLockRW \<Rightarrow> bool \<times> SpinLockRW" where
  "SpinLockRW_try_lock_shared spurious l = (if l \<noteq> WRITER_LOCK \<and> \<not> spurious then (True, l + 1) else (False, l))"

definition SpinLockRW_unlock_shared :: "SpinLockRW \<Rightarrow> SpinLockRW" where
  "SpinLockRW_unlock_shared l = l - 1"

definition SpinLockRW_try_lock :: "bool \<Rightarrow> SpinLockRW \<Rightarrow> bool \<times> SpinLockRW" where
  "SpinLockRW_try_lock spurious l = (if l = UNLOCKED \<and> \<not> spurious then (True, WRITER_LOCK) else (False, l))"

definition SpinLockRW_unlock :: "SpinLockRW \<Rightarrow> SpinLockRW" where
  "SpinLockRW_unlock l = UNLOCKED"

text \<open>Threads that lock for reading or for writing; \<open>rw_readers\<close> and \<open>rw_writers\<close> count the holders.\<close>

record RW =
  rw_lock :: SpinLockRW
  rw_readers :: nat
  rw_writers :: nat

definition RW_new :: RW where "RW_new = \<lparr>rw_lock = SpinLockRW_unlock 0, rw_readers = 0, rw_writers = 0\<rparr>"

inductive rw_step :: "RW \<Rightarrow> RW \<Rightarrow> bool" where
  rw_shared: "SpinLockRW_try_lock_shared sp (rw_lock s) = (True, l) \<Longrightarrow> rw_step s (s\<lparr>rw_lock := l, rw_readers := rw_readers s + 1\<rparr>)"
| rw_shared_spin: "SpinLockRW_try_lock_shared sp (rw_lock s) = (False, l) \<Longrightarrow> rw_step s (s\<lparr>rw_lock := l\<rparr>)"
| rw_write: "SpinLockRW_try_lock sp (rw_lock s) = (True, l) \<Longrightarrow> rw_step s (s\<lparr>rw_lock := l, rw_writers := rw_writers s + 1\<rparr>)"
| rw_write_spin: "SpinLockRW_try_lock sp (rw_lock s) = (False, l) \<Longrightarrow> rw_step s (s\<lparr>rw_lock := l\<rparr>)"
| rw_unshare: "0 < rw_readers s \<Longrightarrow> rw_step s (s\<lparr>rw_lock := SpinLockRW_unlock_shared (rw_lock s), rw_readers := rw_readers s - 1\<rparr>)"
| rw_unwrite: "0 < rw_writers s \<Longrightarrow> rw_step s (s\<lparr>rw_lock := SpinLockRW_unlock (rw_lock s), rw_writers := rw_writers s - 1\<rparr>)"

inductive rw_reach :: "RW \<Rightarrow> bool" where
  rw_init: "rw_reach RW_new"
| rw_next: "rw_reach s \<Longrightarrow> rw_step s s' \<Longrightarrow> rw_reach s'"

definition rw_inv :: "RW \<Rightarrow> bool" where
  "rw_inv s \<longleftrightarrow> (if rw_writers s = 0 then unat (rw_lock s) = rw_readers s else rw_writers s = 1 \<and> rw_readers s = 0 \<and> rw_lock s = WRITER_LOCK)"

lemma unat_add_1: "l \<noteq> WRITER_LOCK \<Longrightarrow> unat (l + 1) = unat l + 1"
  using unatSuc [of l] by (simp add: add.commute [of l] add_eq_0_iff)

lemma rw_inv_step:
  assumes "rw_step s s'" "rw_inv s"
  shows "rw_inv s'"
  using assms
proof cases
  case (rw_shared sp l)
  then have l: "rw_lock s \<noteq> WRITER_LOCK" "l = rw_lock s + 1" by (auto simp: SpinLockRW_try_lock_shared_def split: if_splits)
  then have "rw_writers s = 0" "unat (rw_lock s) = rw_readers s" using assms(2) by (auto simp: rw_inv_def split: if_splits)
  then show ?thesis using l rw_shared unat_add_1 [of "rw_lock s"] by (simp add: rw_inv_def)
next
  case rw_unshare
  then have w: "rw_writers s = 0" "unat (rw_lock s) = rw_readers s" "rw_lock s \<noteq> 0" using assms(2) by (auto simp: rw_inv_def split: if_splits)
  then show ?thesis using rw_unshare unat_minus_one [of "rw_lock s"] by (simp add: rw_inv_def SpinLockRW_unlock_shared_def)
qed (auto simp: rw_inv_def SpinLockRW_try_lock_shared_def SpinLockRW_try_lock_def SpinLockRW_unlock_def split: if_splits)

lemma rw_reach_inv: "rw_reach s \<Longrightarrow> rw_inv s"
  by (induction rule: rw_reach.induct) (simp add: rw_inv_def RW_new_def SpinLockRW_unlock_def, blast intro: rw_inv_step)

subsection \<open>Exclusive access to the actor\<close>

datatype pc =
    Idle
  | ExtEnter | ExtTry | ExtSleep | ExtGot | External | ExtUnlock | ExtFlag
  | WrkTest bool | WrkStore | WrkLock | WrkCheck | WrkTest2 | WrkSleep | WrkStop bool | WrkLeave bool | WrkReady | WrkReflag | Working

record ActorInterface =
  ai_changeFlagged :: bool
  ai_externalAcquired :: nat
  ai_extCallLock :: SpinLock
  ai_acquireMutex :: "nat option"
  ai_aquireWaiting :: bool
  ai_pc :: "nat \<Rightarrow> pc"
  ai_pending :: bool

definition ActorInterface_new :: ActorInterface where
  "ActorInterface_new = \<lparr>ai_changeFlagged = True, ai_externalAcquired = 0, ai_extCallLock = SpinLock_new, ai_acquireMutex = None,
     ai_aquireWaiting = False, ai_pc = (\<lambda>_. Idle), ai_pending = False\<rparr>"

definition goto :: "nat \<Rightarrow> pc \<Rightarrow> ActorInterface \<Rightarrow> ActorInterface" where
  "goto t p s = s\<lparr>ai_pc := (ai_pc s)(t := p)\<rparr>"

text \<open>\<open>_changeFlagged.clear\<close>: the flag is clear when a change waits.\<close>

definition clear_flag :: "ActorInterface \<Rightarrow> ActorInterface" where
  "clear_flag s = s\<lparr>ai_changeFlagged := False, ai_pending := True\<rparr>"

inductive ai_step :: "ActorInterface \<Rightarrow> ActorInterface \<Rightarrow> bool" where
  \<comment> \<open>externalCallAcquire\<close>
  ext_lock: "ai_pc s t = Idle \<Longrightarrow> ai_acquireMutex s = None \<Longrightarrow> ai_step s (goto t ExtEnter (s\<lparr>ai_acquireMutex := Some t\<rparr>))"
| ext_count: "ai_pc s t = ExtEnter \<Longrightarrow> ai_step s (goto t ExtTry (s\<lparr>ai_externalAcquired := ai_externalAcquired s + 1\<rparr>))"
| ext_try: "ai_pc s t = ExtTry \<Longrightarrow> SpinLock_try_lock (ai_extCallLock s) = (True, l) \<Longrightarrow> ai_step s (goto t ExtGot (s\<lparr>ai_extCallLock := l\<rparr>))"
| ext_wait: "ai_pc s t = ExtTry \<Longrightarrow> SpinLock_try_lock (ai_extCallLock s) = (False, l) \<Longrightarrow>
     ai_step s (goto t ExtSleep (s\<lparr>ai_extCallLock := l, ai_acquireMutex := None\<rparr>))"
| ext_wake: "ai_pc s t = ExtSleep \<Longrightarrow> ai_acquireMutex s = None \<Longrightarrow> ai_step s (goto t ExtTry (s\<lparr>ai_acquireMutex := Some t\<rparr>))"
| ext_leave: "ai_pc s t = ExtGot \<Longrightarrow> ai_step s (goto t External (s\<lparr>ai_acquireMutex := None\<rparr>))"
  \<comment> \<open>externalCallRelease\<close>
| ext_uncount: "ai_pc s t = External \<Longrightarrow> ai_step s (goto t ExtUnlock (s\<lparr>ai_externalAcquired := ai_externalAcquired s - 1\<rparr>))"
| ext_unlock: "ai_pc s t = ExtUnlock \<Longrightarrow> ai_step s (goto t ExtFlag (s\<lparr>ai_extCallLock := SpinLock_unlock (ai_extCallLock s)\<rparr>))"
| ext_flag: "ai_pc s t = ExtFlag \<Longrightarrow> ai_step s (goto t Idle (clear_flag s))"
  \<comment> \<open>workerThreadAcquire(waitEnabled): the first isReady\<close>
| wrk_busy: "ai_pc s t = Idle \<Longrightarrow> ai_externalAcquired s \<noteq> 0 \<Longrightarrow> ai_step s (goto t (if waitEnabled then WrkStore else Idle) s)"
| wrk_check: "ai_pc s t = Idle \<Longrightarrow> ai_externalAcquired s = 0 \<Longrightarrow> ai_step s (goto t (WrkTest waitEnabled) s)"
| wrk_flag: "ai_pc s t = WrkTest waitEnabled \<Longrightarrow> \<not> ai_changeFlagged s \<Longrightarrow> ai_step s (goto t WrkReady (s\<lparr>ai_changeFlagged := True\<rparr>))"
| wrk_noflag: "ai_pc s t = WrkTest waitEnabled \<Longrightarrow> ai_changeFlagged s \<Longrightarrow> ai_step s (goto t (if waitEnabled then WrkStore else Idle) s)"
  \<comment> \<open>waiting on the condition variable with isReady as the predicate\<close>
| wrk_store: "ai_pc s t = WrkStore \<Longrightarrow> ai_step s (goto t WrkLock (s\<lparr>ai_aquireWaiting := True\<rparr>))"
| wrk_lock: "ai_pc s t = WrkLock \<Longrightarrow> ai_acquireMutex s = None \<Longrightarrow> ai_step s (goto t WrkCheck (s\<lparr>ai_acquireMutex := Some t\<rparr>))"
| wrk_recheck: "ai_pc s t = WrkCheck \<Longrightarrow> ai_externalAcquired s = 0 \<Longrightarrow> ai_step s (goto t WrkTest2 s)"
| wrk_flag2: "ai_pc s t = WrkTest2 \<Longrightarrow> \<not> ai_changeFlagged s \<Longrightarrow> ai_step s (goto t (WrkStop True) (s\<lparr>ai_changeFlagged := True\<rparr>))"
| wrk_sleep_busy: "ai_pc s t = WrkCheck \<Longrightarrow> ai_externalAcquired s \<noteq> 0 \<Longrightarrow> ai_step s (goto t WrkSleep (s\<lparr>ai_acquireMutex := None\<rparr>))"
| wrk_sleep_noflag: "ai_pc s t = WrkTest2 \<Longrightarrow> ai_changeFlagged s \<Longrightarrow> ai_step s (goto t WrkSleep (s\<lparr>ai_acquireMutex := None\<rparr>))"
| wrk_timeout_busy: "ai_pc s t = WrkCheck \<Longrightarrow> ai_externalAcquired s \<noteq> 0 \<Longrightarrow> ai_step s (goto t (WrkStop False) s)"
| wrk_timeout_noflag: "ai_pc s t = WrkTest2 \<Longrightarrow> ai_changeFlagged s \<Longrightarrow> ai_step s (goto t (WrkStop False) s)"
| wrk_wake: "ai_pc s t = WrkSleep \<Longrightarrow> ai_acquireMutex s = None \<Longrightarrow> ai_step s (goto t WrkCheck (s\<lparr>ai_acquireMutex := Some t\<rparr>))"
| wrk_unstore: "ai_pc s t = WrkStop rdy \<Longrightarrow> ai_step s (goto t (WrkLeave rdy) (s\<lparr>ai_aquireWaiting := False\<rparr>))"
| wrk_leave: "ai_pc s t = WrkLeave rdy \<Longrightarrow> ai_step s (goto t (if rdy then WrkReady else Idle) (s\<lparr>ai_acquireMutex := None\<rparr>))"
  \<comment> \<open>workerThreadAcquire: the lock\<close>
| wrk_try: "ai_pc s t = WrkReady \<Longrightarrow> SpinLock_try_lock (ai_extCallLock s) = (True, l) \<Longrightarrow>
     ai_step s (goto t Working (s\<lparr>ai_extCallLock := l, ai_pending := False\<rparr>))"
| wrk_fail: "ai_pc s t = WrkReady \<Longrightarrow> SpinLock_try_lock (ai_extCallLock s) = (False, l) \<Longrightarrow>
     ai_step s (goto t WrkReflag (s\<lparr>ai_extCallLock := l\<rparr>))"
| wrk_reflag: "ai_pc s t = WrkReflag \<Longrightarrow> ai_step s (goto t Idle (clear_flag s))"
  \<comment> \<open>workerThreadRelease\<close>
| wrk_release: "ai_pc s t = Working \<Longrightarrow> ai_step s (goto t Idle (s\<lparr>ai_extCallLock := SpinLock_unlock (ai_extCallLock s)\<rparr>))"
  \<comment> \<open>flagExternalChange from any thread, flagInternalChange from the worker\<close>
| flag_change: "ai_step s (clear_flag s)"

inductive ai_reach :: "ActorInterface \<Rightarrow> bool" where
  init: "ai_reach ActorInterface_new"
| step: "ai_reach s \<Longrightarrow> ai_step s s' \<Longrightarrow> ai_reach s'"

text \<open>Where a thread has the actor, has the mutex, is counted, or has taken a change it must still act on.\<close>

fun has_actor :: "pc \<Rightarrow> bool" where
  "has_actor ExtGot = True" | "has_actor External = True" | "has_actor ExtUnlock = True" | "has_actor Working = True" | "has_actor _ = False"

fun has_mutex :: "pc \<Rightarrow> bool" where
  "has_mutex ExtEnter = True" | "has_mutex ExtTry = True" | "has_mutex ExtGot = True" | "has_mutex WrkCheck = True"
| "has_mutex WrkTest2 = True" | "has_mutex (WrkStop _) = True" | "has_mutex (WrkLeave _) = True" | "has_mutex _ = False"

fun is_counted :: "pc \<Rightarrow> bool" where
  "is_counted ExtTry = True" | "is_counted ExtSleep = True" | "is_counted ExtGot = True" | "is_counted External = True" | "is_counted _ = False"

fun took_change :: "pc \<Rightarrow> bool" where
  "took_change (WrkStop r) = r" | "took_change (WrkLeave r) = r" | "took_change WrkReady = True" | "took_change WrkReflag = True" | "took_change _ = False"

definition threads :: "(pc \<Rightarrow> bool) \<Rightarrow> ActorInterface \<Rightarrow> nat set" where
  "threads P s = {t. P (ai_pc s t)}"

definition inv_actor :: "ActorInterface \<Rightarrow> bool" where
  "inv_actor s \<longleftrightarrow> (if ai_extCallLock s then \<exists>t. threads has_actor s = {t} else threads has_actor s = {})"

definition inv_mutex :: "ActorInterface \<Rightarrow> bool" where
  "inv_mutex s \<longleftrightarrow> (\<forall>t. has_mutex (ai_pc s t) \<longleftrightarrow> ai_acquireMutex s = Some t)"

definition inv_count :: "ActorInterface \<Rightarrow> bool" where
  "inv_count s \<longleftrightarrow> finite (threads is_counted s) \<and> ai_externalAcquired s = card (threads is_counted s)"

definition inv_change :: "ActorInterface \<Rightarrow> bool" where
  "inv_change s \<longleftrightarrow> (ai_pending s \<longrightarrow> \<not> ai_changeFlagged s \<or> threads took_change s \<noteq> {})"

lemma goto_simps [simp]:
  "ai_pc (goto t p s) = (ai_pc s)(t := p)" "ai_changeFlagged (goto t p s) = ai_changeFlagged s" "ai_externalAcquired (goto t p s) = ai_externalAcquired s"
  "ai_extCallLock (goto t p s) = ai_extCallLock s" "ai_acquireMutex (goto t p s) = ai_acquireMutex s" "ai_pending (goto t p s) = ai_pending s"
  by (simp_all add: goto_def)

lemma clear_simps [simp]:
  "ai_pc (clear_flag s) = ai_pc s" "ai_changeFlagged (clear_flag s) = False" "ai_externalAcquired (clear_flag s) = ai_externalAcquired s"
  "ai_extCallLock (clear_flag s) = ai_extCallLock s" "ai_acquireMutex (clear_flag s) = ai_acquireMutex s" "ai_pending (clear_flag s) = True"
  by (simp_all add: clear_flag_def)

lemma threads_goto [simp]: "threads P (goto t p s) = (if P p then insert t (threads P s) else threads P s - {t})"
  by (auto simp: threads_def)

lemma threads_iff [simp]: "t \<in> threads P s \<longleftrightarrow> P (ai_pc s t)"
  by (simp add: threads_def)

lemma threads_update [simp]:
  "threads P (s\<lparr>ai_acquireMutex := m\<rparr>) = threads P s" "threads P (s\<lparr>ai_externalAcquired := n\<rparr>) = threads P s"
  "threads P (s\<lparr>ai_extCallLock := l\<rparr>) = threads P s" "threads P (s\<lparr>ai_changeFlagged := c\<rparr>) = threads P s"
  "threads P (s\<lparr>ai_aquireWaiting := w\<rparr>) = threads P s" "threads P (clear_flag s) = threads P s"
  "threads P (s\<lparr>ai_extCallLock := l, ai_acquireMutex := m\<rparr>) = threads P s"
  "threads P (s\<lparr>ai_extCallLock := l, ai_pending := b\<rparr>) = threads P s"
  by (simp_all add: threads_def)

text \<open>A thread outside (or inside) a set is not in (or is in) it; the rules below use the position of the moving thread.\<close>

lemma threads_absorb: "P (ai_pc s t) \<Longrightarrow> insert t (threads P s) = threads P s" "\<not> P (ai_pc s t) \<Longrightarrow> threads P s - {t} = threads P s"
  by auto

lemma inv_actor_step: "ai_step s s' \<Longrightarrow> inv_actor s \<Longrightarrow> inv_actor s'"
proof (induction rule: ai_step.induct)
  case (ext_uncount s t)
  then have "t \<in> threads has_actor s" by simp
  then show ?case using ext_uncount by (auto simp: inv_actor_def simp del: threads_iff split: if_splits)
next
  case (ext_unlock s t)
  then have "t \<in> threads has_actor s" by simp
  then show ?case using ext_unlock by (auto simp: inv_actor_def SpinLock_unlock_def simp del: threads_iff split: if_splits)
next
  case (wrk_release s t)
  then have "t \<in> threads has_actor s" by simp
  then show ?case using wrk_release by (auto simp: inv_actor_def SpinLock_unlock_def simp del: threads_iff split: if_splits)
next
  case (ext_leave s t)
  then have "t \<in> threads has_actor s" by simp
  then show ?case using ext_leave by (auto simp: inv_actor_def simp del: threads_iff split: if_splits)
qed (auto simp: inv_actor_def SpinLock_try_lock_def threads_absorb)

lemma mutex_keep:
  "inv_mutex s \<Longrightarrow> ai_pc s' = ai_pc s \<Longrightarrow> ai_acquireMutex s' = ai_acquireMutex s \<Longrightarrow> has_mutex p = has_mutex (ai_pc s t) \<Longrightarrow> inv_mutex (goto t p s')"
  by (simp add: inv_mutex_def)

lemma mutex_take:
  "inv_mutex s \<Longrightarrow> ai_pc s' = ai_pc s \<Longrightarrow> ai_acquireMutex s = None \<Longrightarrow> ai_acquireMutex s' = Some t \<Longrightarrow> has_mutex p \<Longrightarrow> inv_mutex (goto t p s')"
  by (auto simp: inv_mutex_def)

lemma mutex_drop:
  "inv_mutex s \<Longrightarrow> ai_pc s' = ai_pc s \<Longrightarrow> has_mutex (ai_pc s t) \<Longrightarrow> ai_acquireMutex s' = None \<Longrightarrow> \<not> has_mutex p \<Longrightarrow> inv_mutex (goto t p s')"
  by (auto simp: inv_mutex_def)

lemma inv_mutex_step: "ai_step s s' \<Longrightarrow> inv_mutex s \<Longrightarrow> inv_mutex s'"
proof (induction rule: ai_step.induct)
  case (flag_change s)
  then show ?case by (simp add: inv_mutex_def)
qed (erule mutex_keep mutex_take mutex_drop; simp; fail)+

lemma inv_count_step: "ai_step s s' \<Longrightarrow> inv_count s \<Longrightarrow> inv_count s'"
  by (induction rule: ai_step.induct) (simp_all add: inv_count_def threads_absorb)

lemma inv_change_step: "ai_step s s' \<Longrightarrow> inv_change s \<Longrightarrow> inv_change s'"
proof (induction rule: ai_step.induct)
  case (wrk_leave s t rdy)
  then show ?case by (cases rdy) (simp_all add: inv_change_def threads_absorb)
qed (simp_all add: inv_change_def threads_absorb)

lemma ai_reach_inv: "ai_reach s \<Longrightarrow> inv_actor s \<and> inv_mutex s \<and> inv_count s \<and> inv_change s"
proof (induction rule: ai_reach.induct)
  case init
  then show ?case
    by (simp add: inv_actor_def inv_mutex_def inv_count_def inv_change_def ActorInterface_new_def SpinLock_new_def threads_def)
next
  case (step s s')
  then show ?case using inv_actor_step inv_mutex_step inv_count_step inv_change_step by blast
qed

subsection \<open>Properties\<close>

text \<open>
  C33. Readers and writers exclude each other, for any interleaving of threads: a reader-writer spin lock never has a writer
  together with a reader or with another writer, and without a writer its counter is the number of readers. The counter
  cannot overflow into the value of a writer: the reader that would make it so is the last one that gets the lock.
\<close>

theorem spin_lock_rw_exclusion:
  assumes "rw_reach s"
  shows "rw_writers s \<le> 1 \<and> (rw_writers s = 1 \<longrightarrow> rw_readers s = 0) \<and> (rw_writers s = 0 \<longrightarrow> unat (rw_lock s) = rw_readers s)
    \<and> rw_readers s < 2 ^ 32"
  using rw_reach_inv [OF assms] unsigned_less [of "rw_lock s", where ?'a = nat] by (auto simp: rw_inv_def split: if_splits)

theorem spin_lock_rw_exclusion_witness:
  "rw_reach \<lparr>rw_lock = 1, rw_readers = 1, rw_writers = 0\<rparr> \<and> unat (1 :: 32 word) = 1"
proof -
  have "rw_step RW_new \<lparr>rw_lock = 1, rw_readers = 1, rw_writers = 0\<rparr>"
    using rw_shared [of False RW_new 1] by (simp add: RW_new_def SpinLockRW_unlock_def SpinLockRW_try_lock_shared_def)
  then have r: "rw_reach \<lparr>rw_lock = 1, rw_readers = 1, rw_writers = 0\<rparr>" by (rule rw_next [OF rw_init])
  then show ?thesis using spin_lock_rw_exclusion [OF r] by simp
qed

text \<open>
  C34. At most one thread has the actor. In every reachable state of any number of threads, two threads are never both
  between acquiring and releasing it, whether as external callers or as workers; the call lock is taken exactly
  when some thread has the actor, and the count of external callers is exact.
\<close>

theorem actor_mutual_exclusion:
  assumes "ai_reach s"
  shows "(\<forall>t u. has_actor (ai_pc s t) \<and> has_actor (ai_pc s u) \<longrightarrow> t = u) \<and> (ai_extCallLock s \<longleftrightarrow> (\<exists>t. has_actor (ai_pc s t)))
    \<and> ai_externalAcquired s = card {t. is_counted (ai_pc s t)}"
proof -
  have inv: "inv_actor s" "inv_count s" using ai_reach_inv [OF assms] by auto
  have set: "has_actor (ai_pc s t) \<longleftrightarrow> t \<in> threads has_actor s" for t by simp
  have "(\<forall>t u. has_actor (ai_pc s t) \<and> has_actor (ai_pc s u) \<longrightarrow> t = u) \<and> (ai_extCallLock s \<longleftrightarrow> (\<exists>t. has_actor (ai_pc s t)))"
    using inv(1) unfolding set by (auto simp: inv_actor_def simp del: threads_iff split: if_splits)
  then show ?thesis using inv(2) by (simp add: inv_count_def threads_def)
qed

theorem actor_mutual_exclusion_witness:
  "ai_reach (goto 0 ExtEnter (ActorInterface_new\<lparr>ai_acquireMutex := Some 0\<rparr>))
   \<and> \<not> ai_extCallLock (goto 0 ExtEnter (ActorInterface_new\<lparr>ai_acquireMutex := Some 0\<rparr>))"
proof -
  have r: "ai_reach (goto 0 ExtEnter (ActorInterface_new\<lparr>ai_acquireMutex := Some 0\<rparr>))"
    by (rule ai_reach.step [OF ai_reach.init], rule ext_lock) (simp_all add: ActorInterface_new_def)
  then show ?thesis using actor_mutual_exclusion [OF r] by (auto simp: ActorInterface_new_def split: if_splits)
qed

text \<open>
  C35. No change is lost, and a flagged change can be worked on. While a change flagged since the last turn of a
  worker is unprocessed, the flag shows it or some worker has taken it and has still to work or to flag it again;
  and when all threads are outside the interface, a worker gets the actor by three steps of its own.
\<close>

theorem flagged_change_is_not_lost:
  assumes "ai_reach s" "ai_pending s"
  shows "(\<not> ai_changeFlagged s \<or> (\<exists>t. took_change (ai_pc s t)))
    \<and> ((\<forall>t. ai_pc s t = Idle) \<longrightarrow>
        (\<exists>s1 s2 s3. ai_step s s1 \<and> ai_step s1 s2 \<and> ai_step s2 s3 \<and> ai_pc s3 u = Working \<and> \<not> ai_pending s3))"
proof -
  have inv: "inv_actor s" "inv_count s" "inv_change s" using ai_reach_inv [OF assms(1)] by auto
  have change: "\<not> ai_changeFlagged s \<or> (\<exists>t. took_change (ai_pc s t))" using inv(3) assms(2) by (auto simp: inv_change_def threads_def)
  have "\<exists>s1 s2 s3. ai_step s s1 \<and> ai_step s1 s2 \<and> ai_step s2 s3 \<and> ai_pc s3 u = Working \<and> \<not> ai_pending s3" if idle: "\<forall>t. ai_pc s t = Idle"
  proof -
    have "\<not> ai_extCallLock s" "ai_externalAcquired s = 0" "\<not> ai_changeFlagged s"
      using inv idle change by (auto simp: inv_actor_def inv_count_def threads_def split: if_splits)
    then have free: "SpinLock_try_lock (ai_extCallLock s) = (True, True)" "ai_externalAcquired s = 0" "\<not> ai_changeFlagged s"
      by (simp_all add: SpinLock_try_lock_def)
    let ?s1 = "goto u (WrkTest False) s" let ?s2 = "goto u WrkReady (?s1\<lparr>ai_changeFlagged := True\<rparr>)"
    let ?s3 = "goto u Working (?s2\<lparr>ai_extCallLock := True, ai_pending := False\<rparr>)"
    have "ai_step s ?s1" using idle free(2) by (intro wrk_check) simp_all
    moreover have "ai_step ?s1 ?s2" using free(3) by (intro wrk_flag [where waitEnabled = False]) simp_all
    moreover have "ai_step ?s2 ?s3" using free(1) by (intro wrk_try) simp_all
    ultimately show ?thesis by (intro exI [of _ ?s1] exI [of _ ?s2] exI [of _ ?s3]) simp
  qed
  then show ?thesis using change by blast
qed

theorem flagged_change_is_not_lost_witness:
  "ai_reach (clear_flag ActorInterface_new) \<and> (\<exists>s1 s2 s3. ai_step (clear_flag ActorInterface_new) s1 \<and> ai_step s1 s2 \<and> ai_step s2 s3 \<and> ai_pc s3 7 = Working)"
proof -
  have r: "ai_reach (clear_flag ActorInterface_new)" by (rule ai_reach.step [OF ai_reach.init flag_change])
  then show ?thesis using flagged_change_is_not_lost [OF r, of 7] by (auto simp: ActorInterface_new_def)
qed

end
