(* ===== verification/PluginRegistry.thy ===== *)
theory PluginRegistry
  imports StringMap Prelude
begin

section \<open>Plugin paths and the plugin registry: src/lib/Plugin\<close>

text \<open>
  \<open>Path.cpp\<close>, \<open>Registry.cpp\<close>, \<open>ModulePaths.cpp\<close> and the load and unload of modules in \<open>Module.cpp\<close>.

  \<^item> \<open>tok\<close> and \<open>tokNonEmpty\<close> stand for the string tokenizer of the Poco library with separator \<open>/\<close>, without and with the
    option to drop empty tokens; what the code relies on is \<open>tokenizes\<close> and \<open>tokenizes_nonempty\<close>.
  \<^item> A node of the registry tree is a \<open>RegistryEntry\<close>; \<open>hasPlugin\<close> and \<open>plugin\<close> are one option. \<open>nodes[name]\<close> creates a
    missing node, also in the functions that only look, so these return the tree they leave behind.
  \<^item> The calls of event handlers are returned as a list, in the order in which they are made. A handler is assumed not
    to change the registry while it runs.
  \<^item> The dynamic linker is left out: loading a library is the list of plugins its static initializers register.
\<close>

section \<open>Paths\<close>

datatype path_error = NoRootSlash | EmptyName | BadCharacter

definition good_char :: "char \<Rightarrow> bool" where
  "good_char c \<longleftrightarrow> CHR ''A'' \<le> c \<and> c \<le> CHR ''Z'' \<or> CHR ''a'' \<le> c \<and> c \<le> CHR ''z'' \<or> CHR ''0'' \<le> c \<and> c \<le> CHR ''9''
     \<or> c = CHR ''_'' \<or> c = CHR ''-''"

fun validate_names :: "bool \<Rightarrow> string list \<Rightarrow> path_error option" where
  "validate_names first [] = None"
| "validate_names first (name # names) =
     (if first \<and> name \<noteq> [] then Some NoRootSlash
      else if \<not> first \<and> name = [] then Some EmptyName
      else if list_ex (\<lambda>c. \<not> good_char c) name then Some BadCharacter
      else validate_names False names)"

definition validatePathString :: "(string \<Rightarrow> string list) \<Rightarrow> string \<Rightarrow> path_error option" where
  "validatePathString tok path = (if path = ''/'' then None else validate_names True (tok path))"

definition PluginPath_new :: "(string \<Rightarrow> string list) \<Rightarrow> string \<Rightarrow> path_error + string" where
  "PluginPath_new tok path = (case validatePathString tok path of Some e \<Rightarrow> Inl e | None \<Rightarrow> Inr path)"

definition PluginPath_root :: string where
  "PluginPath_root = ''/''"

definition PluginPath_concat :: "(string \<Rightarrow> string list) \<Rightarrow> string \<Rightarrow> string \<Rightarrow> path_error + string" where
  "PluginPath_concat tok path0 path1 = PluginPath_new tok (path0 @ path1)"

definition PluginPath_join :: "(string \<Rightarrow> string list) \<Rightarrow> string \<Rightarrow> string \<Rightarrow> path_error + string" where
  "PluginPath_join tok path subPath =
     (let joiner = (if path = ''/'' then '''' else ''/'') in PluginPath_new tok (path @ joiner @ subPath))"

definition PluginPath_listNodes :: "(string \<Rightarrow> string list) \<Rightarrow> string \<Rightarrow> string list" where
  "PluginPath_listNodes tokNonEmpty path = tokNonEmpty path"

section \<open>The tree\<close>

datatype 'p RegistryEntry =
  RegistryEntry (re_plugin: "'p option") (re_names: "string list") (re_nodes: "(string \<times> 'p RegistryEntry) list")

definition RegistryEntry_new :: "'p RegistryEntry" where
  "RegistryEntry_new = RegistryEntry None [] []"

definition node_at :: "'p RegistryEntry \<Rightarrow> string \<Rightarrow> 'p RegistryEntry" where
  "node_at e n = (case map_of (re_nodes e) n of None \<Rightarrow> RegistryEntry_new | Some x \<Rightarrow> x)"

fun getNumPlugins :: "'p RegistryEntry \<Rightarrow> nat" where
  "getNumPlugins (RegistryEntry p names nodes) = (if p \<noteq> None then 1 else 0) + sum_list (map (\<lambda>(n, e). getNumPlugins e) nodes)"

text \<open>
  The walk from the root: \<open>modify_at\<close> follows a path, creating missing nodes, and changes the last one; \<open>insert_at\<close>
  also records the names. \<open>entry_at\<close> is the node the walk arrives at.
\<close>

fun modify_at :: "('p RegistryEntry \<Rightarrow> 'p RegistryEntry) \<Rightarrow> string list \<Rightarrow> 'p RegistryEntry \<Rightarrow> 'p RegistryEntry" where
  "modify_at f [] e = f e"
| "modify_at f (n # ns) e = RegistryEntry (re_plugin e) (re_names e) (map_put n (modify_at f ns (node_at e n)) (re_nodes e))"

fun insert_at :: "('p RegistryEntry \<Rightarrow> 'p RegistryEntry) \<Rightarrow> string list \<Rightarrow> 'p RegistryEntry \<Rightarrow> 'p RegistryEntry" where
  "insert_at f [] e = f e"
| "insert_at f (n # ns) e =
     RegistryEntry (re_plugin e) (if n \<in> set (re_names e) then re_names e else re_names e @ [n])
       (map_put n (insert_at f ns (node_at e n)) (re_nodes e))"

fun entry_at :: "string list \<Rightarrow> 'p RegistryEntry \<Rightarrow> 'p RegistryEntry" where
  "entry_at [] e = e"
| "entry_at (n # ns) e = entry_at ns (node_at e n)"

definition set_plugin :: "'p option \<Rightarrow> 'p RegistryEntry \<Rightarrow> 'p RegistryEntry" where
  "set_plugin p e = RegistryEntry p (re_names e) (re_nodes e)"

datatype registry_error = AlreadyRegistered | PathNotFound

definition tree_add :: "string list \<Rightarrow> 'p \<Rightarrow> 'p RegistryEntry \<Rightarrow> registry_error option \<times> 'p RegistryEntry" where
  "tree_add pathNodes p root =
     (if re_plugin (entry_at pathNodes root) \<noteq> None then (Some AlreadyRegistered, insert_at id pathNodes root)
      else (None, insert_at (set_plugin (Some p)) pathNodes root))"

definition tree_get :: "string list \<Rightarrow> 'p RegistryEntry \<Rightarrow> (registry_error + 'p) \<times> 'p RegistryEntry" where
  "tree_get pathNodes root =
     (case re_plugin (entry_at pathNodes root) of None \<Rightarrow> Inl PathNotFound | Some p \<Rightarrow> Inr p, modify_at id pathNodes root)"

definition tree_remove :: "string list \<Rightarrow> 'p RegistryEntry \<Rightarrow> (registry_error + 'p) \<times> 'p RegistryEntry" where
  "tree_remove pathNodes root =
     (case re_plugin (entry_at pathNodes root) of
        None \<Rightarrow> (Inl PathNotFound, modify_at id pathNodes root)
      | Some p \<Rightarrow> (Inr p, modify_at (set_plugin None) pathNodes root))"

definition tree_empty :: "string list \<Rightarrow> 'p RegistryEntry \<Rightarrow> bool \<times> 'p RegistryEntry" where
  "tree_empty pathNodes root = (re_plugin (entry_at pathNodes root) = None, modify_at id pathNodes root)"

definition tree_exists :: "string list \<Rightarrow> 'p RegistryEntry \<Rightarrow> bool \<times> 'p RegistryEntry" where
  "tree_exists pathNodes root = (getNumPlugins (entry_at pathNodes root) \<noteq> 0, modify_at id pathNodes root)"

definition touch_names :: "'p RegistryEntry \<Rightarrow> 'p RegistryEntry" where
  "touch_names e = fold (\<lambda>n e. RegistryEntry (re_plugin e) (re_names e) (map_put n (node_at e n) (re_nodes e))) (re_names e) e"

definition tree_list :: "string list \<Rightarrow> 'p RegistryEntry \<Rightarrow> string list \<times> 'p RegistryEntry" where
  "tree_list pathNodes root =
     (let e = entry_at pathNodes root
      in (filter (\<lambda>n. getNumPlugins (node_at e n) \<noteq> 0) (re_names e), modify_at touch_names pathNodes root))"

section \<open>Registry and modules\<close>

record 'o Plugin =
  pl_path :: string
  pl_object :: 'o
  pl_module :: string

record 'o Registry =
  rg_root :: "'o Plugin RegistryEntry"
  rg_modulePaths :: "string \<Rightarrow> string list"
  rg_active :: string

definition updatePluginAssociation :: "string \<Rightarrow> 'o Plugin \<Rightarrow> (string \<Rightarrow> string list) \<Rightarrow> string \<Rightarrow> string list" where
  "updatePluginAssociation action plugin m =
     (let v = m (pl_module plugin);
          v = (if action = ''add'' then v @ [pl_path plugin] else v);
          v = (if action = ''remove'' then remove1 (pl_path plugin) v else v)
      in m(pl_module plugin := v))"

text \<open>The plugins on the way to a path, the nearest first, without the last node itself.\<close>

fun parent_plugins :: "string list \<Rightarrow> 'p RegistryEntry \<Rightarrow> 'p option list" where
  "parent_plugins (n # m # ns) e = parent_plugins (m # ns) (node_at e n) @ [re_plugin e]"
| "parent_plugins _ e = [re_plugin e]"

definition handlePluginEvent ::
  "(string \<Rightarrow> string list) \<Rightarrow> ('o \<Rightarrow> bool) \<Rightarrow> 'o Plugin \<Rightarrow> string \<Rightarrow> 'o Plugin RegistryEntry \<Rightarrow> ('o \<times> 'o Plugin \<times> string) list" where
  "handlePluginEvent tokNonEmpty canHandle plugin event root =
     concat (map (\<lambda>p. case p of None \<Rightarrow> [] | Some h \<Rightarrow> if canHandle (pl_object h) then [(pl_object h, plugin, event)] else [])
       (parent_plugins (PluginPath_listNodes tokNonEmpty (pl_path plugin)) root))"

lemma size_node_at:
  assumes "map_of (re_nodes e) n = Some x" shows "size x < size e"
proof (cases e)
  case (RegistryEntry p names nodes)
  have "(n, x) \<in> set nodes \<Longrightarrow> size x < size_list (size_prod (\<lambda>_. 0) size) nodes" by (induction nodes) auto
  then show ?thesis using assms RegistryEntry by (auto dest!: map_of_SomeD)
qed

lemma node_at_cases: "node_at e n = RegistryEntry_new \<or> map_of (re_nodes e) n = Some (node_at e n)"
  by (auto simp: node_at_def split: option.splits)

text \<open>The events a new handler missed: the plugins of the tree below it, in the order \<open>list\<close> gives.\<close>

function missed_plugins :: "'p RegistryEntry \<Rightarrow> 'p list" where
  "missed_plugins e = concat (map (\<lambda>n.
     (case map_of (re_nodes e) n of
        None \<Rightarrow> []
      | Some x \<Rightarrow> (case re_plugin x of None \<Rightarrow> [] | Some p \<Rightarrow> [p]) @ missed_plugins x))
     (filter (\<lambda>n. getNumPlugins (node_at e n) \<noteq> 0) (re_names e)))"
  by auto
termination by (relation "measure size") (auto intro: size_node_at)

definition handleMissedSubTreeEvents :: "('o \<Rightarrow> bool) \<Rightarrow> 'o \<Rightarrow> 'o Plugin RegistryEntry \<Rightarrow> ('o \<times> 'o Plugin \<times> string) list" where
  "handleMissedSubTreeEvents canHandle handler e =
     (if canHandle handler then map (\<lambda>p. (handler, p, ''add'')) (missed_plugins e) else [])"

definition PluginRegistry_add ::
  "(string \<Rightarrow> string list) \<Rightarrow> ('o \<Rightarrow> bool) \<Rightarrow> 'o Plugin \<Rightarrow> 'o Registry
     \<Rightarrow> registry_error option \<times> ('o \<times> 'o Plugin \<times> string) list \<times> 'o Registry" where
  "PluginRegistry_add tokNonEmpty canHandle plugin r =
     (let pathNodes = PluginPath_listNodes tokNonEmpty (pl_path plugin);
          plugin = plugin\<lparr>pl_module := rg_active r\<rparr>
      in case tree_add pathNodes plugin (rg_root r) of
           (Some e, root) \<Rightarrow> (Some e, [], r\<lparr>rg_root := root\<rparr>)
         | (None, root) \<Rightarrow>
             (None,
              handlePluginEvent tokNonEmpty canHandle plugin ''add'' root
                @ handleMissedSubTreeEvents canHandle (pl_object plugin) (entry_at pathNodes root),
              r\<lparr>rg_root := root, rg_modulePaths := updatePluginAssociation ''add'' plugin (rg_modulePaths r)\<rparr>))"

definition PluginRegistry_remove ::
  "(string \<Rightarrow> string list) \<Rightarrow> ('o \<Rightarrow> bool) \<Rightarrow> string \<Rightarrow> 'o Registry
     \<Rightarrow> (registry_error + 'o Plugin) \<times> ('o \<times> 'o Plugin \<times> string) list \<times> 'o Registry" where
  "PluginRegistry_remove tokNonEmpty canHandle path r =
     (case tree_remove (PluginPath_listNodes tokNonEmpty path) (rg_root r) of
        (Inl e, root) \<Rightarrow> (Inl e, [], r\<lparr>rg_root := root\<rparr>)
      | (Inr plugin, root) \<Rightarrow>
          (Inr plugin, handlePluginEvent tokNonEmpty canHandle plugin ''remove'' root,
           r\<lparr>rg_root := root, rg_modulePaths := updatePluginAssociation ''remove'' plugin (rg_modulePaths r)\<rparr>))"

definition PluginRegistry_get :: "(string \<Rightarrow> string list) \<Rightarrow> string \<Rightarrow> 'o Registry \<Rightarrow> (registry_error + 'o Plugin) \<times> 'o Registry" where
  "PluginRegistry_get tokNonEmpty path r =
     (case tree_get (PluginPath_listNodes tokNonEmpty path) (rg_root r) of (x, root) \<Rightarrow> (x, r\<lparr>rg_root := root\<rparr>))"

text \<open>
  The load of a module: its static initializers register plugins while the module is the active one, each in a handler
  that logs the exception; then the paths registered for the module's file are remembered. The unload removes them; an
  exception there leaves the destructor, which ends the program (\<open>None\<close>).
\<close>

record PluginModule =
  pm_path :: string
  pm_pluginPaths :: "string list"

fun register_all :: "(string \<Rightarrow> string list) \<Rightarrow> ('o \<Rightarrow> bool) \<Rightarrow> 'o Plugin list \<Rightarrow> 'o Registry \<Rightarrow> 'o Registry" where
  "register_all tokNonEmpty canHandle [] r = r"
| "register_all tokNonEmpty canHandle (p # ps) r =
     (case PluginRegistry_add tokNonEmpty canHandle p r of (e, calls, r) \<Rightarrow> register_all tokNonEmpty canHandle ps r)"

definition PluginModule_load ::
  "(string \<Rightarrow> string list) \<Rightarrow> ('o \<Rightarrow> bool) \<Rightarrow> string \<Rightarrow> 'o Plugin list \<Rightarrow> 'o Registry \<Rightarrow> PluginModule \<times> 'o Registry" where
  "PluginModule_load tokNonEmpty canHandle path plugins r =
     (let r = r\<lparr>rg_active := path\<rparr>;
          r = register_all tokNonEmpty canHandle plugins r;
          r = r\<lparr>rg_active := ''''\<rparr>
      in (\<lparr>pm_path = path, pm_pluginPaths = rg_modulePaths r path\<rparr>, r))"

fun remove_all :: "(string \<Rightarrow> string list) \<Rightarrow> ('o \<Rightarrow> bool) \<Rightarrow> string list \<Rightarrow> 'o Registry \<Rightarrow> 'o Registry option" where
  "remove_all tokNonEmpty canHandle [] r = Some r"
| "remove_all tokNonEmpty canHandle (path # paths) r =
     (case PluginRegistry_remove tokNonEmpty canHandle path r of
        (Inl e, calls, r) \<Rightarrow> None
      | (Inr p, calls, r) \<Rightarrow> remove_all tokNonEmpty canHandle paths r)"

definition PluginModule_unload :: "(string \<Rightarrow> string list) \<Rightarrow> ('o \<Rightarrow> bool) \<Rightarrow> PluginModule \<Rightarrow> 'o Registry \<Rightarrow> 'o Registry option" where
  "PluginModule_unload tokNonEmpty canHandle m r = remove_all tokNonEmpty canHandle (pm_pluginPaths m) r"

section \<open>The registry as a map from paths to plugins\<close>

definition registry_map :: "'p RegistryEntry \<Rightarrow> string list \<rightharpoonup> 'p" where
  "registry_map e = (\<lambda>ns. re_plugin (entry_at ns e))"

text \<open>Every node has sorted children and lists, once each, the names below which there is a plugin.\<close>

definition node_ok :: "'p RegistryEntry \<Rightarrow> bool" where
  "node_ok e \<longleftrightarrow> sorted_wrt (<) (map fst (re_nodes e)) \<and> distinct (re_names e) \<and>
     (\<forall>n ms. registry_map e (n # ms) \<noteq> None \<longrightarrow> n \<in> set (re_names e))"

definition registry_ok :: "'p RegistryEntry \<Rightarrow> bool" where
  "registry_ok e \<longleftrightarrow> (\<forall>ns. node_ok (entry_at ns e))"

lemma registry_map_simps [simp]:
  "registry_map e [] = re_plugin e" "registry_map e (n # ns) = registry_map (node_at e n) ns"
  by (simp_all add: registry_map_def)

lemma registry_ok_iff: "registry_ok e \<longleftrightarrow> node_ok e \<and> (\<forall>n. registry_ok (node_at e n))"
  unfolding registry_ok_def by (metis entry_at.simps neq_Nil_conv)

lemma entry_at_append: "entry_at ms (entry_at ns e) = entry_at (ns @ ms) e"
  by (induction ns arbitrary: e) auto

lemma registry_ok_entry_at: "registry_ok e \<Longrightarrow> registry_ok (entry_at ns e)"
  by (simp add: registry_ok_def entry_at_append)

lemma registry_map_entry_at: "registry_map (entry_at ns e) ms = registry_map e (ns @ ms)"
  by (induction ns arbitrary: e) auto

lemma entry_at_new [simp]: "entry_at ns RegistryEntry_new = RegistryEntry_new"
  by (induction ns) (simp_all add: node_at_def RegistryEntry_new_def)

lemma registry_new: "registry_ok RegistryEntry_new" "registry_map RegistryEntry_new = Map.empty"
proof -
  have new: "re_plugin RegistryEntry_new = None" "re_names RegistryEntry_new = []" "re_nodes RegistryEntry_new = []"
    "node_at RegistryEntry_new n = RegistryEntry_new" for n
    by (simp_all add: RegistryEntry_new_def node_at_def)
  show map: "registry_map RegistryEntry_new = Map.empty" by (simp add: registry_map_def new fun_eq_iff)
  show "registry_ok RegistryEntry_new" by (simp add: registry_ok_def node_ok_def new map)
qed

lemma node_at_put [simp]: "node_at (RegistryEntry p names (map_put n x nodes)) m = (if m = n then x else node_at (RegistryEntry p names nodes) m)"
  by (simp add: node_at_def)

lemma node_at_nodes: "node_at (RegistryEntry p names (re_nodes e)) m = node_at e m"
  by (simp add: node_at_def)

lemmas node_simps = node_at_nodes

lemma registry_map_set_plugin: "registry_map (set_plugin p e) = (registry_map e)([] := p)"
proof
  fix ns show "registry_map (set_plugin p e) ns = ((registry_map e)([] := p)) ns"
    by (cases ns) (simp_all add: set_plugin_def node_simps)
qed

lemma set_plugin_ok: "registry_ok (set_plugin p e) \<longleftrightarrow> registry_ok e"
  unfolding registry_ok_iff [of "set_plugin p e"] registry_ok_iff [of e] node_ok_def
  by (simp add: set_plugin_def node_simps)

text \<open>Changing the node at a path.\<close>

definition local_change :: "('p RegistryEntry \<Rightarrow> 'p RegistryEntry) \<Rightarrow> bool" where
  "local_change f \<longleftrightarrow> (\<forall>e n ns. registry_map (f e) (n # ns) = registry_map e (n # ns)) \<and> (\<forall>e. registry_ok e \<longrightarrow> registry_ok (f e))"

lemma local_change_id: "local_change id"
  by (simp add: local_change_def)

lemma local_change_set_plugin: "local_change (set_plugin p)"
  by (simp add: local_change_def set_plugin_ok registry_map_set_plugin del: registry_map_simps)

lemma registry_map_change:
  assumes "local_change f"
  shows "registry_map (modify_at f ns e) = (registry_map e)(ns := re_plugin (f (entry_at ns e)))"
    and "registry_map (insert_at f ns e) = (registry_map e)(ns := re_plugin (f (entry_at ns e)))"
proof -
  have "registry_map (modify_at f ns e) ms = ((registry_map e)(ns := re_plugin (f (entry_at ns e)))) ms
    \<and> registry_map (insert_at f ns e) ms = ((registry_map e)(ns := re_plugin (f (entry_at ns e)))) ms" for ms
  proof (induction ns arbitrary: e ms)
    case Nil
    then show ?case using assms by (cases ms) (auto simp: local_change_def)
  next
    case (Cons n ns)
    then show ?case by (cases ms) (auto simp: node_simps)
  qed
  then show "registry_map (modify_at f ns e) = (registry_map e)(ns := re_plugin (f (entry_at ns e)))"
    "registry_map (insert_at f ns e) = (registry_map e)(ns := re_plugin (f (entry_at ns e)))" by (simp_all add: fun_eq_iff)
qed

lemma insert_at_ok:
  assumes f: "local_change f" shows "registry_ok e \<Longrightarrow> registry_ok (insert_at f ns e)"
proof (induction ns arbitrary: e)
  case (Cons n ns)
  have e: "node_ok e" "\<And>m. registry_ok (node_at e m)" using Cons.prems registry_ok_iff by blast+
  have "registry_ok (insert_at f ns (node_at e n))" using Cons.IH e(2) by blast
  moreover have "node_ok (insert_at f (n # ns) e)"
    using e(1) by (auto simp: node_ok_def sorted_map_put node_simps split: if_splits)
  ultimately show ?case using e(2) by (subst registry_ok_iff) (simp add: node_simps)
qed (use f in \<open>simp add: local_change_def\<close>)

lemma modify_at_ok:
  assumes f: "local_change f" and dom: "re_plugin (f (entry_at ns e)) \<noteq> None \<longrightarrow> registry_map e ns \<noteq> None"
  shows "registry_ok e \<Longrightarrow> registry_ok (modify_at f ns e)"
  using dom
proof (induction ns arbitrary: e)
  case (Cons n ns)
  have e: "node_ok e" "\<And>m. registry_ok (node_at e m)" using Cons.prems(1) registry_ok_iff by blast+
  have sub: "registry_map (modify_at f ns (node_at e n)) ms \<noteq> None \<Longrightarrow> registry_map (node_at e n) ms \<noteq> None" for ms
    using Cons.prems(2) unfolding registry_map_change [OF f] by (auto split: if_splits)
  have "node_ok (modify_at f (n # ns) e)"
    using e(1) sub by (auto simp: node_ok_def sorted_map_put node_simps)
  moreover have "registry_ok (modify_at f ns (node_at e n))" using Cons.IH e(2) Cons.prems(2) by simp
  ultimately show ?case using e(2) by (subst registry_ok_iff) (simp add: node_simps)
qed (use f in \<open>simp add: local_change_def\<close>)

lemma getNumPlugins_nodes:
  "getNumPlugins e \<noteq> 0 \<longleftrightarrow> re_plugin e \<noteq> None \<or> (\<exists>(n, x) \<in> set (re_nodes e). getNumPlugins x \<noteq> 0)"
  by (cases e) (force simp: sum_list_eq_0_iff split: prod.splits)

lemma node_at_member: "node_ok e \<Longrightarrow> (n, x) \<in> set (re_nodes e) \<Longrightarrow> node_at e n = x"
  unfolding node_ok_def node_at_def by (auto simp: strict_sorted_iff dest!: map_of_is_SomeI)

text \<open>The count of plugins is positive exactly when some path below leads to a plugin.\<close>

lemma getNumPlugins_pos: "registry_ok e \<Longrightarrow> getNumPlugins e \<noteq> 0 \<longleftrightarrow> (\<exists>ms. registry_map e ms \<noteq> None)"
proof (induction e rule: measure_induct_rule [where f = size])
  case (less e)
  have ok: "node_ok e" "registry_ok (node_at e n)" for n using less.prems registry_ok_iff by blast+
  have below: "(\<exists>(n, x) \<in> set (re_nodes e). getNumPlugins x \<noteq> 0) \<longleftrightarrow> (\<exists>n ms. registry_map (node_at e n) ms \<noteq> None)"
  proof
    assume "\<exists>(n, x) \<in> set (re_nodes e). getNumPlugins x \<noteq> 0"
    then obtain n x where x: "(n, x) \<in> set (re_nodes e)" "getNumPlugins x \<noteq> 0" by blast
    then have "node_at e n = x" "map_of (re_nodes e) n = Some x"
      using node_at_member [OF ok(1)] ok(1) by (auto simp: node_ok_def strict_sorted_iff)
    then show "\<exists>n ms. registry_map (node_at e n) ms \<noteq> None" using less.IH [OF size_node_at] ok(2) [of n] x(2) by blast
  next
    assume "\<exists>n ms. registry_map (node_at e n) ms \<noteq> None"
    then obtain n ms where m: "registry_map (node_at e n) ms \<noteq> None" by blast
    then have "map_of (re_nodes e) n = Some (node_at e n)" using node_at_cases [of e n] by (auto simp: registry_new)
    then show "\<exists>(n, x) \<in> set (re_nodes e). getNumPlugins x \<noteq> 0"
      using less.IH [OF size_node_at] ok(2) [of n] m map_of_SomeD by fast
  qed
  have "(\<exists>ms. registry_map e ms \<noteq> None) \<longleftrightarrow> re_plugin e \<noteq> None \<or> (\<exists>n ms. registry_map (node_at e n) ms \<noteq> None)"
    by (metis neq_Nil_conv registry_map_simps)
  then show ?case unfolding getNumPlugins_nodes [of e] below by blast
qed

lemma touch_names_same:
  "re_plugin (touch_names e) = re_plugin e" "re_names (touch_names e) = re_names e" "node_at (touch_names e) = node_at e"
  "sorted_wrt (<) (map fst (re_nodes e)) \<Longrightarrow> sorted_wrt (<) (map fst (re_nodes (touch_names e)))"
proof -
  define step :: "string \<Rightarrow> 'a RegistryEntry \<Rightarrow> 'a RegistryEntry"
    where "step = (\<lambda>n e. RegistryEntry (re_plugin e) (re_names e) (map_put n (node_at e n) (re_nodes e)))"
  have one: "re_plugin (step n e) = re_plugin e \<and> re_names (step n e) = re_names e \<and> node_at (step n e) = node_at e
      \<and> (sorted_wrt (<) (map fst (re_nodes e)) \<longrightarrow> sorted_wrt (<) (map fst (re_nodes (step n e))))" for n e
    by (auto simp: step_def node_simps sorted_map_put fun_eq_iff)
  have "re_plugin (fold step ns e) = re_plugin e \<and> re_names (fold step ns e) = re_names e \<and> node_at (fold step ns e) = node_at e
      \<and> (sorted_wrt (<) (map fst (re_nodes e)) \<longrightarrow> sorted_wrt (<) (map fst (re_nodes (fold step ns e))))" for ns
    by (induction ns arbitrary: e) (use one in simp_all)
  from this [of "re_names e"]
  show "re_plugin (touch_names e) = re_plugin e" "re_names (touch_names e) = re_names e" "node_at (touch_names e) = node_at e"
    "sorted_wrt (<) (map fst (re_nodes e)) \<Longrightarrow> sorted_wrt (<) (map fst (re_nodes (touch_names e)))"
    unfolding touch_names_def step_def [symmetric] by auto
qed

lemma local_change_touch_names: "local_change (touch_names :: 'p RegistryEntry \<Rightarrow> 'p RegistryEntry)"
proof -
  have "node_ok (touch_names e) \<and> (\<forall>n. registry_ok (node_at (touch_names e) n))" if "registry_ok e" for e :: "'p RegistryEntry"
    using that unfolding registry_ok_iff [of e] node_ok_def by (simp add: touch_names_same)
  then show ?thesis unfolding local_change_def registry_ok_iff [of "touch_names _"] by (simp add: touch_names_same)
qed

lemma modify_same:
  assumes "local_change f" "\<And>e. re_plugin (f e) = re_plugin e"
  shows "registry_map (modify_at f ns e) = registry_map e" "registry_ok e \<Longrightarrow> registry_ok (modify_at f ns e)"
  using assms registry_map_change [of f] modify_at_ok [of f] by (auto simp: registry_map_def [of e] fun_eq_iff)

lemma modify_id:
  "registry_map (modify_at id ns e) = registry_map e" "registry_ok e \<Longrightarrow> registry_ok (modify_at id ns e)"
  by (rule modify_same, rule local_change_id, simp)+

lemma modify_touch:
  "registry_map (modify_at touch_names ns e) = registry_map e" "registry_ok e \<Longrightarrow> registry_ok (modify_at touch_names ns e)"
  by (rule modify_same, rule local_change_touch_names, rule touch_names_same(1))+

section \<open>Operations refine the map\<close>

datatype 'p registry_op = OpAdd "string list" 'p | OpGet "string list" | OpRemove "string list" | OpEmpty "string list"
  | OpExists "string list" | OpList "string list"

datatype 'p registry_result = RError "registry_error option" | RPlugin "registry_error + 'p" | RBool bool | RNames "string list"

fun registry_step :: "'p registry_op \<Rightarrow> 'p RegistryEntry \<Rightarrow> 'p registry_result \<times> 'p RegistryEntry" where
  "registry_step (OpAdd ns p) e = map_prod RError id (tree_add ns p e)"
| "registry_step (OpGet ns) e = map_prod RPlugin id (tree_get ns e)"
| "registry_step (OpRemove ns) e = map_prod RPlugin id (tree_remove ns e)"
| "registry_step (OpEmpty ns) e = map_prod RBool id (tree_empty ns e)"
| "registry_step (OpExists ns) e = map_prod RBool id (tree_exists ns e)"
| "registry_step (OpList ns) e = map_prod RNames id (tree_list ns e)"

text \<open>The specification: a partial map from paths to plugins.\<close>

fun map_step :: "'p registry_op \<Rightarrow> (string list \<rightharpoonup> 'p) \<Rightarrow> (string list \<rightharpoonup> 'p)" where
  "map_step (OpAdd ns p) m = (if m ns = None then m(ns \<mapsto> p) else m)"
| "map_step (OpRemove ns) m = m(ns := None)"
| "map_step _ m = m"

fun map_result :: "'p registry_op \<Rightarrow> (string list \<rightharpoonup> 'p) \<Rightarrow> 'p registry_result \<Rightarrow> bool" where
  "map_result (OpAdd ns p) m r \<longleftrightarrow> r = RError (if m ns = None then None else Some AlreadyRegistered)"
| "map_result (OpGet ns) m r \<longleftrightarrow> r = RPlugin (case m ns of None \<Rightarrow> Inl PathNotFound | Some p \<Rightarrow> Inr p)"
| "map_result (OpRemove ns) m r \<longleftrightarrow> r = RPlugin (case m ns of None \<Rightarrow> Inl PathNotFound | Some p \<Rightarrow> Inr p)"
| "map_result (OpEmpty ns) m r \<longleftrightarrow> r = RBool (m ns = None)"
| "map_result (OpExists ns) m r \<longleftrightarrow> r = RBool (\<exists>ms. m (ns @ ms) \<noteq> None)"
| "map_result (OpList ns) m r \<longleftrightarrow> (\<exists>names. r = RNames names \<and> distinct names \<and> set names = {n. \<exists>ms. m (ns @ n # ms) \<noteq> None})"

fun registry_run :: "'p registry_op list \<Rightarrow> 'p RegistryEntry \<Rightarrow> 'p registry_result list \<times> 'p RegistryEntry" where
  "registry_run [] e = ([], e)"
| "registry_run (op # ops) e = (case registry_step op e of (r, e) \<Rightarrow> map_prod ((#) r) id (registry_run ops e))"

lemma tree_add_spec:
  assumes "registry_ok e"
  shows "registry_ok (snd (tree_add ns p e))" "registry_map (snd (tree_add ns p e)) = map_step (OpAdd ns p) (registry_map e)"
    "fst (tree_add ns p e) = (if registry_map e ns = None then None else Some AlreadyRegistered)"
  using assms registry_map_change(2) [OF local_change_id, of ns e] registry_map_change(2) [OF local_change_set_plugin, of "Some p" ns e]
  by (auto simp: tree_add_def insert_at_ok local_change_id local_change_set_plugin registry_map_def [of e] set_plugin_def fun_upd_idem)

lemma tree_remove_spec:
  assumes "registry_ok e"
  shows "registry_ok (snd (tree_remove ns e))" "registry_map (snd (tree_remove ns e)) = map_step (OpRemove ns) (registry_map e)"
    "fst (tree_remove ns e) = (case registry_map e ns of None \<Rightarrow> Inl PathNotFound | Some p \<Rightarrow> Inr p)"
  using assms modify_id [where ns = ns and e = e] registry_map_change(1) [OF local_change_set_plugin, of None ns e]
    modify_at_ok [OF local_change_set_plugin, of None ns e]
  by (auto simp: tree_remove_def set_plugin_def fun_upd_idem registry_map_def [of e] split: option.splits)

lemma tree_list_spec:
  assumes ok: "registry_ok e"
  shows "map_result (OpList ns) (registry_map e) (RNames (fst (tree_list ns e)))"
proof -
  let ?x = "entry_at ns e"
  have x: "registry_ok ?x" "node_ok ?x" using registry_ok_entry_at [OF ok] registry_ok_iff by blast+
  have "getNumPlugins (node_at ?x n) \<noteq> 0 \<longleftrightarrow> (\<exists>ms. registry_map e (ns @ n # ms) \<noteq> None)" for n
    using getNumPlugins_pos [of "node_at ?x n"] x registry_ok_iff [of ?x] registry_map_entry_at [of ns e] by (metis registry_map_simps(2))
  moreover have "(\<exists>ms. registry_map e (ns @ n # ms) \<noteq> None) \<Longrightarrow> n \<in> set (re_names ?x)" for n
    using x(2) unfolding node_ok_def registry_map_entry_at by blast
  ultimately show ?thesis using x(2) by (auto simp: tree_list_def Let_def node_ok_def)
qed

text \<open>One operation: the tree keeps its invariant, its map changes as the specification says, and so is the result.\<close>

lemma registry_step_refines:
  assumes ok: "registry_ok e" and run: "registry_step op e = (r, e')"
  shows "registry_ok e' \<and> registry_map e' = map_step op (registry_map e) \<and> map_result op (registry_map e) r"
proof (cases op)
  case (OpAdd ns p)
  then show ?thesis using run tree_add_spec [OF ok, of ns p] by (cases "tree_add ns p e") auto
next
  case (OpRemove ns)
  then show ?thesis using run tree_remove_spec [OF ok, of ns] by (cases "tree_remove ns e") auto
next
  case (OpList ns)
  then show ?thesis
    using run tree_list_spec [OF ok, of ns] modify_touch [where ns = ns and e = e] ok
    by (auto simp: tree_list_def Let_def simp del: map_result.simps(6))
next
  case (OpExists ns)
  then show ?thesis
    using run modify_id [where ns = ns and e = e] ok getNumPlugins_pos [OF registry_ok_entry_at [OF ok, of ns]]
    by (auto simp: tree_exists_def registry_map_entry_at)
qed (use run modify_id ok in \<open>auto simp: tree_get_def tree_empty_def registry_map_def\<close>)

lemma registry_run_refines:
  "registry_ok e \<Longrightarrow> registry_run ops e = (rs, e') \<Longrightarrow> registry_ok e' \<and> registry_map e' = fold map_step ops (registry_map e)
     \<and> length rs = length ops \<and> (\<forall>i < length ops. map_result (ops ! i) (fold map_step (take i ops) (registry_map e)) (rs ! i))"
proof (induction ops arbitrary: e rs e')
  case (Cons op ops)
  obtain r e1 where one: "registry_step op e = (r, e1)" by fastforce
  obtain rs1 e2 where rest: "registry_run ops e1 = (rs1, e2)" by fastforce
  have "registry_ok e1 \<and> registry_map e1 = map_step op (registry_map e) \<and> map_result op (registry_map e) r"
    using registry_step_refines [OF Cons.prems(1) one] .
  then show ?case using Cons.IH [OF _ rest] Cons.prems(2) one rest by (auto simp: nth_Cons' less_Suc_eq_0_disj)
qed simp

text \<open>
  C17. The registry is a map from paths to plugins. After any sequence of additions, removals and queries, starting
  from the empty registry, the tree stands for the map that the same sequence builds, and every result is the one of
  the map: an addition fails exactly when the path is taken, \<open>get\<close> and \<open>remove\<close> fail exactly when it is free, \<open>exists\<close>
  says whether a plugin is at or below the path, and \<open>list\<close> gives each name below which there is a plugin once.
\<close>

theorem plugin_registry_refines_map:
  assumes "registry_run ops RegistryEntry_new = (rs, e)"
  shows "registry_map e = fold map_step ops Map.empty \<and> length rs = length ops
    \<and> (\<forall>i < length ops. map_result (ops ! i) (fold map_step (take i ops) Map.empty) (rs ! i))"
  using registry_run_refines [OF registry_new(1) assms] unfolding registry_new(2) by blast

definition demo_ops :: "nat registry_op list" where
  "demo_ops = [OpAdd [''tests'', ''t0''] 10, OpAdd [''tests'', ''t1''] 11, OpAdd [''tests'', ''t0''] 12,
     OpRemove [''tests'', ''t1''], OpList [''tests''], OpExists [''tests''], OpGet [''tests'']]"

theorem plugin_registry_refines_map_witness:
  "fst (registry_run demo_ops RegistryEntry_new) =
     [RError None, RError None, RError (Some AlreadyRegistered), RPlugin (Inr 11), RNames [''t0''], RBool True, RPlugin (Inl PathNotFound)]
   \<and> registry_map (snd (registry_run demo_ops RegistryEntry_new)) = fold map_step demo_ops Map.empty"
proof
  show "fst (registry_run demo_ops RegistryEntry_new) =
     [RError None, RError None, RError (Some AlreadyRegistered), RPlugin (Inr 11), RNames [''t0''], RBool True, RPlugin (Inl PathNotFound)]"
    by code_simp
  show "registry_map (snd (registry_run demo_ops RegistryEntry_new)) = fold map_step demo_ops Map.empty"
    using plugin_registry_refines_map [of demo_ops "fst (registry_run demo_ops RegistryEntry_new)"] by simp
qed

section \<open>Loading and unloading modules\<close>

text \<open>What a module relies on: a store of plugins under keys that refuses a key twice and gives a plugin back on removal.\<close>

locale plugin_store =
  fixes ok :: "'s \<Rightarrow> bool" and contents :: "'s \<Rightarrow> 'k \<rightharpoonup> 'p"
    and add :: "'k \<Rightarrow> 'p \<Rightarrow> 's \<Rightarrow> registry_error option \<times> 's" and remove :: "'k \<Rightarrow> 's \<Rightarrow> (registry_error + 'p) \<times> 's"
  assumes add_ok: "ok s \<Longrightarrow> ok (snd (add k p s))"
    and add_contents: "ok s \<Longrightarrow> contents (snd (add k p s)) = (if contents s k = None then (contents s)(k \<mapsto> p) else contents s)"
    and add_error: "ok s \<Longrightarrow> fst (add k p s) = None \<longleftrightarrow> contents s k = None"
    and remove_ok: "ok s \<Longrightarrow> ok (snd (remove k s))"
    and remove_contents: "ok s \<Longrightarrow> contents (snd (remove k s)) = (contents s)(k := None)"
    and remove_result: "ok s \<Longrightarrow> fst (remove k s) = (case contents s k of None \<Rightarrow> Inl PathNotFound | Some p \<Rightarrow> Inr p)"
begin

primrec add_list :: "('k \<times> 'p) list \<Rightarrow> 's \<Rightarrow> 's" where
  "add_list [] s = s"
| "add_list (kp # kps) s = add_list kps (snd (add (fst kp) (snd kp) s))"

primrec remove_list :: "'k list \<Rightarrow> 's \<Rightarrow> 's option" where
  "remove_list [] s = Some s"
| "remove_list (k # ks) s = (case remove k s of (Inl e, s) \<Rightarrow> None | (Inr p, s) \<Rightarrow> remove_list ks s)"

lemma add_list_contents:
  "ok s \<Longrightarrow> distinct (map fst kps) \<Longrightarrow> set (map fst kps) \<inter> dom (contents s) = {} \<Longrightarrow>
   ok (add_list kps s) \<and> contents (add_list kps s) = contents s ++ map_of kps"
proof (induction kps arbitrary: s)
  case (Cons kp kps)
  let ?s = "snd (add (fst kp) (snd kp) s)"
  have c: "contents ?s = (contents s)(fst kp \<mapsto> snd kp)" using Cons.prems add_contents by (auto simp: domIff)
  have "ok (add_list kps ?s) \<and> contents (add_list kps ?s) = contents ?s ++ map_of kps"
  proof (rule Cons.IH)
    show "set (map fst kps) \<inter> dom (contents ?s) = {}" unfolding c using Cons.prems by (simp add: Int_commute)
  qed (use Cons.prems add_ok in auto)
  moreover have "fst kp \<notin> dom (map_of kps)" using Cons.prems by (auto simp: dom_map_of_conv_image_fst)
  ultimately show ?case using c by (auto simp: map_add_def fun_eq_iff domIff split: option.splits)
qed simp

lemma remove_list_contents:
  "ok s \<Longrightarrow> distinct ks \<Longrightarrow> set ks \<subseteq> dom (contents s) \<Longrightarrow>
   \<exists>s'. remove_list ks s = Some s' \<and> ok s' \<and> contents s' = contents s |` (- set ks)"
proof (induction ks arbitrary: s)
  case (Cons k ks)
  obtain p where p: "contents s k = Some p" using Cons.prems by auto
  then obtain s1 where s1: "remove k s = (Inr p, s1)" "ok s1" "contents s1 = (contents s)(k := None)"
    using remove_result [of s k] remove_ok [of s k] remove_contents [of s k] Cons.prems(1) by (cases "remove k s") auto
  have "\<exists>s'. remove_list ks s1 = Some s' \<and> ok s' \<and> contents s' = contents s1 |` (- set ks)"
    using Cons.prems s1 by (intro Cons.IH) auto
  then show ?case using s1 by (auto simp: restrict_map_def fun_eq_iff)
qed (simp add: restrict_map_def)

lemma remove_list_missing: "ok s \<Longrightarrow> k \<in> set ks \<Longrightarrow> k \<notin> dom (contents s) \<Longrightarrow> remove_list ks s = None"
proof (induction ks arbitrary: s)
  case (Cons j ks)
  show ?case
  proof (cases "contents s j")
    case None
    then show ?thesis using remove_result [of s j] Cons.prems(1) by (cases "remove j s") auto
  next
    case (Some p)
    then have "j \<noteq> k" using Cons.prems(3) by auto
    then have "remove_list ks (snd (remove j s)) = None"
      using Cons.prems remove_ok [of s j] remove_contents [of s j] by (intro Cons.IH) auto
    then show ?thesis using remove_result [of s j] Some Cons.prems(1) by (cases "remove j s") auto
  qed
qed simp

lemma add_remove_list:
  assumes "ok s" "distinct (map fst kps)" "set (map fst kps) \<inter> dom (contents s) = {}"
  shows "\<exists>s'. remove_list (map fst kps) (add_list kps s) = Some s' \<and> ok s' \<and> contents s' = contents s"
proof -
  have a: "ok (add_list kps s)" "contents (add_list kps s) = contents s ++ map_of kps" using add_list_contents [OF assms] by auto
  have "set (map fst kps) \<subseteq> dom (contents (add_list kps s))" unfolding a(2) by (auto simp: dom_map_of_conv_image_fst)
  moreover have "(contents s ++ map_of kps) |` (- set (map fst kps)) = contents s"
  proof
    fix x show "((contents s ++ map_of kps) |` (- set (map fst kps))) x = contents s x"
    proof (cases "x \<in> set (map fst kps)")
      case True
      then have "contents s x = None" using assms(3) by blast
      then show ?thesis using True by (simp add: restrict_map_def)
    next
      case False
      then have "map_of kps x = None" by (simp add: map_of_eq_None_iff)
      then show ?thesis using False by (simp add: restrict_map_def map_add_def)
    qed
  qed
  ultimately show ?thesis using remove_list_contents [OF a(1) assms(2)] a(2) by simp
qed

end

interpretation tree: plugin_store registry_ok registry_map tree_add tree_remove
  by unfold_locales (auto simp: tree_add_spec tree_remove_spec)

lemma PluginRegistry_add_effect:
  assumes "PluginRegistry_add tn ch p r = (e, calls, r')"
  shows "rg_root r' = snd (tree_add (PluginPath_listNodes tn (pl_path p)) (p\<lparr>pl_module := rg_active r\<rparr>) (rg_root r))"
    "e = fst (tree_add (PluginPath_listNodes tn (pl_path p)) (p\<lparr>pl_module := rg_active r\<rparr>) (rg_root r))"
    "rg_active r' = rg_active r" "e = None \<Longrightarrow> rg_modulePaths r' (rg_active r) = rg_modulePaths r (rg_active r) @ [pl_path p]"
  using assms by (auto simp: PluginRegistry_add_def Let_def updatePluginAssociation_def split: prod.splits option.splits)

lemma PluginRegistry_remove_effect:
  assumes "PluginRegistry_remove tn ch path r = (x, calls, r')"
  shows "tree_remove (PluginPath_listNodes tn path) (rg_root r) = (x, rg_root r')"
  using assms by (auto simp: PluginRegistry_remove_def split: prod.splits sum.splits)

text \<open>Registering the plugins of a module is adding them to the tree, and the paths are recorded when each addition succeeds.\<close>

lemma register_all_effect:
  assumes "registry_ok (rg_root r)" and "distinct (map (\<lambda>p. PluginPath_listNodes tn (pl_path p)) ps)"
    and "\<And>p. p \<in> set ps \<Longrightarrow> registry_map (rg_root r) (PluginPath_listNodes tn (pl_path p)) = None"
  shows "rg_root (register_all tn ch ps r) =
      tree.add_list (map (\<lambda>p. (PluginPath_listNodes tn (pl_path p), p\<lparr>pl_module := rg_active r\<rparr>)) ps) (rg_root r)
    \<and> rg_active (register_all tn ch ps r) = rg_active r
    \<and> rg_modulePaths (register_all tn ch ps r) (rg_active r) = rg_modulePaths r (rg_active r) @ map pl_path ps"
  using assms
proof (induction ps arbitrary: r)
  case (Cons p ps)
  let ?k = "PluginPath_listNodes tn (pl_path p)"
  obtain e calls r1 where one: "PluginRegistry_add tn ch p r = (e, calls, r1)" by (metis prod_cases3)
  note eff = PluginRegistry_add_effect [OF one]
  have e: "e = None" and ok: "registry_ok (rg_root r1)"
    and m: "registry_map (rg_root r1) = (registry_map (rg_root r))(?k \<mapsto> p\<lparr>pl_module := rg_active r\<rparr>)"
    using tree_add_spec [OF Cons.prems(1), of ?k "p\<lparr>pl_module := rg_active r\<rparr>"] Cons.prems(3) [of p] eff(1,2) by simp_all
  have "registry_map (rg_root r1) (PluginPath_listNodes tn (pl_path q)) = None" if "q \<in> set ps" for q
  proof -
    have "PluginPath_listNodes tn (pl_path q) \<noteq> ?k" using Cons.prems(2) that by (metis (no_types, lifting) distinct.simps(2) image_eqI list.simps(9) set_map)
    then show ?thesis using Cons.prems(3) [of q] that unfolding m by simp
  qed
  then show ?case using Cons.IH [OF ok] Cons.prems(2) one eff e by simp
qed simp

lemma remove_all_effect:
  "map_option rg_root (remove_all tn ch paths r) = tree.remove_list (map (PluginPath_listNodes tn) paths) (rg_root r)"
proof (induction paths arbitrary: r)
  case (Cons path paths)
  obtain x calls r1 where one: "PluginRegistry_remove tn ch path r = (x, calls, r1)" by (metis prod_cases3)
  then show ?case using PluginRegistry_remove_effect [OF one] Cons.IH [of r1] by (cases x) auto
qed simp

text \<open>
  C3. Unloading a module undoes its loading: when the plugins of a module have distinct free paths, the unload after the
  load succeeds and the registry has the same plugins as before. But if one of the module's plugins was removed in the
  meantime, the unload throws out of the destructor: the paths remembered at load time are not updated.
\<close>

theorem module_unload_undoes_load:
  assumes ok: "registry_ok (rg_root r)" and fresh: "rg_modulePaths r path = []"
    and dist: "distinct (map (\<lambda>p. PluginPath_listNodes tn (pl_path p)) plugins)"
    and free: "\<forall>p \<in> set plugins. registry_map (rg_root r) (PluginPath_listNodes tn (pl_path p)) = None"
    and load: "PluginModule_load tn ch path plugins r = (m, r1)"
  shows "(\<exists>r2. PluginModule_unload tn ch m r1 = Some r2 \<and> registry_map (rg_root r2) = registry_map (rg_root r))
    \<and> (\<forall>p \<in> set plugins. \<forall>r'. registry_ok (rg_root r') \<and> registry_map (rg_root r') (PluginPath_listNodes tn (pl_path p)) = None
         \<longrightarrow> PluginModule_unload tn ch m r' = None)"
proof -
  let ?kps = "map (\<lambda>p. (PluginPath_listNodes tn (pl_path p), p\<lparr>pl_module := path\<rparr>)) plugins"
  have eff: "rg_root r1 = tree.add_list ?kps (rg_root r)" "pm_pluginPaths m = map pl_path plugins"
    using register_all_effect [of "r\<lparr>rg_active := path\<rparr>" tn plugins ch] ok dist free fresh load by (auto simp: PluginModule_load_def Let_def)
  have keys: "map fst ?kps = map (PluginPath_listNodes tn) (pm_pluginPaths m)" unfolding eff(2) by simp
  have "set (map fst ?kps) \<inter> dom (registry_map (rg_root r)) = {}" "distinct (map fst ?kps)"
    using free dist by (auto simp: comp_def)
  then obtain e where e: "tree.remove_list (map (PluginPath_listNodes tn) (pm_pluginPaths m)) (rg_root r1) = Some e"
      "registry_map e = registry_map (rg_root r)"
    using tree.add_remove_list [OF ok, of ?kps] unfolding eff(1) keys by blast
  then have "\<exists>r2. PluginModule_unload tn ch m r1 = Some r2 \<and> registry_map (rg_root r2) = registry_map (rg_root r)"
    using remove_all_effect [of tn ch "pm_pluginPaths m" r1] by (auto simp: PluginModule_unload_def)
  moreover have "PluginModule_unload tn ch m r' = None"
    if "p \<in> set plugins" "registry_ok (rg_root r')" "registry_map (rg_root r') (PluginPath_listNodes tn (pl_path p)) = None" for p r'
    using tree.remove_list_missing [OF that(2), of "PluginPath_listNodes tn (pl_path p)" "map (PluginPath_listNodes tn) (pm_pluginPaths m)"]
      remove_all_effect [of tn ch "pm_pluginPaths m" r'] that(1,3) eff(2) by (auto simp: PluginModule_unload_def domIff)
  ultimately show ?thesis by blast
qed

section \<open>Paths and their names\<close>

fun slash_join :: "string list \<Rightarrow> string" where
  "slash_join [] = []"
| "slash_join [p] = p"
| "slash_join (p # ps) = p @ CHR ''/'' # slash_join ps"

text \<open>The documented behaviour of the tokenizer: the parts between slashes, empty ones kept or dropped.\<close>

definition tokenizes :: "(string \<Rightarrow> string list) \<Rightarrow> bool" where
  "tokenizes tok \<longleftrightarrow> (\<forall>ps. ps \<noteq> [] \<and> (\<forall>p \<in> set ps. CHR ''/'' \<notin> set p) \<and> last ps \<noteq> [] \<longrightarrow> tok (slash_join ps) = ps)"

definition tokenizes_nonempty :: "(string \<Rightarrow> string list) \<Rightarrow> bool" where
  "tokenizes_nonempty tok \<longleftrightarrow> (\<forall>ps. (\<forall>p \<in> set ps. CHR ''/'' \<notin> set p) \<longrightarrow> tok (slash_join ps) = filter (\<lambda>p. p \<noteq> []) ps)"

definition valid_name :: "string \<Rightarrow> bool" where
  "valid_name n \<longleftrightarrow> n \<noteq> [] \<and> list_all good_char n"

definition path_string :: "string list \<Rightarrow> string" where
  "path_string ns = (if ns = [] then ''/'' else slash_join ([] # ns))"

lemma good_char_slash: "\<not> good_char (CHR ''/'')"
  by (simp add: good_char_def less_eq_char_def)

lemma valid_name_slash: "valid_name n \<Longrightarrow> CHR ''/'' \<notin> set n"
  using good_char_slash by (auto simp: valid_name_def list_all_iff)

lemma validate_names_valid: "(\<forall>n \<in> set ns. valid_name n) \<Longrightarrow> validate_names False ns = None"
  by (induction ns) (auto simp: valid_name_def list_all_iff list_ex_iff)

lemma slash_join_snoc: "ps \<noteq> [] \<Longrightarrow> slash_join (ps @ [n]) = slash_join ps @ CHR ''/'' # n"
  by (induction ps rule: slash_join.induct) auto

lemma path_string_not_root: "ns \<noteq> [] \<Longrightarrow> \<forall>n \<in> set ns. valid_name n \<Longrightarrow> path_string ns \<noteq> ''/''"
  by (cases ns rule: slash_join.cases) (auto simp: path_string_def valid_name_def)

lemma PluginPath_new_valid:
  assumes "tokenizes tok" "\<forall>n \<in> set ns. valid_name n" shows "PluginPath_new tok (path_string ns) = Inr (path_string ns)"
proof (cases "ns = []")
  case True
  then show ?thesis by (simp add: PluginPath_new_def validatePathString_def path_string_def)
next
  case False
  have "valid_name (last ns)" using False assms(2) by auto
  then have "tok (path_string ns) = [] # ns"
    using assms False valid_name_slash unfolding tokenizes_def path_string_def by (fastforce simp: valid_name_def)
  then show ?thesis
    using validate_names_valid [OF assms(2)] path_string_not_root [OF False assms(2)] by (simp add: PluginPath_new_def validatePathString_def)
qed

text \<open>
  The names of a plugin path and its text determine each other: the text of valid names is accepted, splits back
  into the same names, and joining a name appends it. The concatenation of two valid paths is not always valid, though
  the constructor says so: the root followed by a path has an empty name and is refused.
\<close>

theorem plugin_path_round_trip:
  assumes tok: "tokenizes tok" and tn: "tokenizes_nonempty tn" and ns: "\<forall>m \<in> set ns. valid_name m" and n: "valid_name n"
  shows "PluginPath_new tok (path_string ns) = Inr (path_string ns)
    \<and> PluginPath_listNodes tn (path_string ns) = ns
    \<and> PluginPath_join tok (path_string ns) n = Inr (path_string (ns @ [n]))
    \<and> PluginPath_concat tok PluginPath_root (path_string [n]) = Inl EmptyName"
proof (intro conjI)
  show "PluginPath_new tok (path_string ns) = Inr (path_string ns)" using PluginPath_new_valid [OF tok ns] .
  have ne: "filter (\<lambda>p. p \<noteq> []) ns = ns" using ns by (auto simp: valid_name_def intro: filter_True)
  have "path_string ns = slash_join (if ns = [] then [[], []] else [] # ns)" by (simp add: path_string_def)
  moreover have "tn (slash_join (if ns = [] then [[], []] else [] # ns)) = ns"
    using tn ns valid_name_slash ne unfolding tokenizes_nonempty_def by auto
  ultimately show "PluginPath_listNodes tn (path_string ns) = ns" by (simp add: PluginPath_listNodes_def)
  have "path_string ns @ (if path_string ns = ''/'' then [] else ''/'') @ n = path_string (ns @ [n])"
    using path_string_not_root [OF _ ns] slash_join_snoc [of "[] # ns" n] by (auto simp: path_string_def)
  then show "PluginPath_join tok (path_string ns) n = Inr (path_string (ns @ [n]))"
    using PluginPath_new_valid [OF tok, of "ns @ [n]"] ns n by (simp add: PluginPath_join_def Let_def)
  have "tok (slash_join [[], [], n]) = [[], [], n]" 
    using spec [OF tok [unfolded tokenizes_def], of "[[], [], n]"] n valid_name_slash [OF n] by (simp add: valid_name_def)
  then show "PluginPath_concat tok PluginPath_root (path_string [n]) = Inl EmptyName"
    using n by (simp add: PluginPath_concat_def PluginPath_root_def path_string_def PluginPath_new_def validatePathString_def)
qed

fun split_slash :: "string \<Rightarrow> string list" where
  "split_slash [] = [[]]"
| "split_slash (c # cs) = (if c = CHR ''/'' then [] # split_slash cs else (case split_slash cs of [] \<Rightarrow> [[c]] | x # xs \<Rightarrow> (c # x) # xs))"

lemma split_slash_single: "CHR ''/'' \<notin> set p \<Longrightarrow> split_slash p = [p]"
  by (induction p) auto

lemma split_slash_cons: "CHR ''/'' \<notin> set p \<Longrightarrow> split_slash (p @ CHR ''/'' # s) = p # split_slash s"
  by (induction p) auto

lemma split_slash_join: "ps \<noteq> [] \<Longrightarrow> \<forall>p \<in> set ps. CHR ''/'' \<notin> set p \<Longrightarrow> split_slash (slash_join ps) = ps"
  by (induction ps rule: slash_join.induct) (auto simp: split_slash_single split_slash_cons)

definition split_names :: "string \<Rightarrow> string list" where
  "split_names s = filter (\<lambda>p. p \<noteq> []) (split_slash s)"

lemma split_tokenizes: "tokenizes split_slash" "tokenizes_nonempty split_names"
proof -
  show "tokenizes split_slash" by (simp add: tokenizes_def split_slash_join)
  have "split_names (slash_join ps) = filter (\<lambda>p. p \<noteq> []) ps" if "\<forall>p \<in> set ps. CHR ''/'' \<notin> set p" for ps
    using that by (cases "ps = []") (simp_all add: split_names_def split_slash_join)
  then show "tokenizes_nonempty split_names" by (simp add: tokenizes_nonempty_def)
qed

theorem plugin_path_round_trip_witness:
  "PluginPath_new split_slash ''/foo-bar/my_module'' = Inr ''/foo-bar/my_module''
   \<and> PluginPath_listNodes split_names ''/foo-bar/my_module'' = [''foo-bar'', ''my_module'']
   \<and> PluginPath_join split_slash ''/foo-bar/my_module'' ''x'' = Inr ''/foo-bar/my_module/x''
   \<and> PluginPath_concat split_slash PluginPath_root ''/x'' = Inl EmptyName"
proof -
  have v: "\<forall>m \<in> set [''foo-bar'', ''my_module'']. valid_name m" "valid_name ''x''" by code_simp+
  have s: "path_string [''foo-bar'', ''my_module''] = ''/foo-bar/my_module''"
      "path_string ([''foo-bar'', ''my_module''] @ [''x'']) = ''/foo-bar/my_module/x''" "path_string [''x''] = ''/x''" by code_simp+
  show ?thesis using plugin_path_round_trip [OF split_tokenizes v] unfolding s .
qed

definition demo_registry :: "nat Registry" where
  "demo_registry = \<lparr>rg_root = RegistryEntry_new, rg_modulePaths = (\<lambda>_. []), rg_active = []\<rparr>"

theorem module_unload_undoes_load_witness:
  "(case PluginModule_load split_names (\<lambda>_. False) ''mod.so'' [\<lparr>pl_path = ''/a/b'', pl_object = 1, pl_module = []\<rparr>] demo_registry of
     (m, r1) \<Rightarrow> pm_pluginPaths m = [''/a/b'']
       \<and> (\<exists>r2. PluginModule_unload split_names (\<lambda>_. False) m r1 = Some r2 \<and> registry_map (rg_root r2) = Map.empty)
       \<and> PluginModule_unload split_names (\<lambda>_. False) m demo_registry = None)"
proof -
  let ?p = "\<lparr>pl_path = ''/a/b'', pl_object = 1, pl_module = []\<rparr> :: nat Plugin"
  obtain m r1 where load: "PluginModule_load split_names (\<lambda>_. False) ''mod.so'' [?p] demo_registry = (m, r1)" by fastforce
  have root: "rg_root demo_registry = RegistryEntry_new" "rg_modulePaths demo_registry ''mod.so'' = []" by (simp_all add: demo_registry_def)
  have "pm_pluginPaths m = [''/a/b'']"
    using register_all_effect [of "demo_registry\<lparr>rg_active := ''mod.so''\<rparr>" split_names "[?p]" "\<lambda>_. False"] load
    by (auto simp: PluginModule_load_def Let_def demo_registry_def registry_new)
  then show ?thesis
    using module_unload_undoes_load [of demo_registry "''mod.so''" split_names "[?p]" "\<lambda>_. False" m r1] load
    by (simp add: root registry_new)
qed

end
