(* ===== verification/Archive.thy ===== *)
theory Archive
  imports Prelude
begin

section \<open>The archive: serialization of numbers and containers\<close>

text \<open>
  The byte format of \<open>Pothos/Archive\<close>: the stream archivers (\<open>StreamArchiver.cpp\<close>), the \<open>save\<close> and
  \<open>load\<close> functions of the number types (\<open>Numbers.hpp\<close>, with LEB128 for the 32 and 64 bit integers), of
  strings, vectors, maps, sets, pairs and complex numbers, and the registry of polymorphic types
  (\<open>ArchiveEntry.cpp\<close>, \<open>Polymorphic.hpp\<close>).

  \<^item> A \<open>save\<close> is a function to the bytes it writes, or the exception it throws; a \<open>load\<close> is a function
    of the input stream that returns the value and the rest of the stream, or an \<open>archive_error\<close>.
  \<^item> The stream keeps the bytes not yet read and its state bit: a read past the end delivers what is
    left and puts the stream into its failed state, which the archivers never look at. A variable that such a
    read leaves uninitialized, and a shift by the width of the type or more, are errors of the model since the
    code has no defined behaviour there.
  \<^item> The locale \<open>codec\<close> is the contract between the \<open>save\<close> and the \<open>load\<close> of one type; the
    containers are verified once over it, and every type of the format is an interpretation.
\<close>

subsection \<open>Streams\<close>

type_synonym byte = "8 word"

record istream =
  is_bytes :: "byte list"
  is_ok :: bool

abbreviation istream_of :: "byte list \<Rightarrow> istream" where
  "istream_of bs \<equiv> \<lparr>is_bytes = bs, is_ok = True\<rparr>"

datatype archive_error =
    Uninitialized
  | ShiftTooFar
  | RecursionLimit
  | ArchiveException string

type_synonym 'a saver = "'a \<Rightarrow> archive_error + byte list"
type_synonym 'a loader = "istream \<Rightarrow> archive_error + ('a \<times> istream)"

definition OStreamArchiver_writeBytes :: "byte list \<Rightarrow> byte list" where
  "OStreamArchiver_writeBytes buff = (if length buff = 0 then [] else buff)"

text \<open>\<open>istream::read\<close> returns the bytes that it stored at the beginning of the caller's buffer.\<close>

definition istream_read :: "nat \<Rightarrow> istream \<Rightarrow> byte list \<times> istream" where
  "istream_read n s =
     (if \<not> is_ok s then ([], s)
      else if n \<le> length (is_bytes s) then (take n (is_bytes s), s\<lparr>is_bytes := drop n (is_bytes s)\<rparr>)
      else (is_bytes s, \<lparr>is_bytes = [], is_ok = False\<rparr>))"

definition IStreamArchiver_readBytes :: "nat \<Rightarrow> istream \<Rightarrow> byte list \<times> istream" where
  "IStreamArchiver_readBytes n s = (if n = 0 then ([], s) else istream_read n s)"

lemma readBytes_append [simp]:
  "n = length bs \<Longrightarrow> IStreamArchiver_readBytes n (istream_of (bs @ rest)) = (bs, istream_of rest)"
  by (simp add: IStreamArchiver_readBytes_def istream_read_def)

lemma readBytes_Cons [simp]:
  "IStreamArchiver_readBytes (Suc 0) (istream_of (b # rest)) = ([b], istream_of rest)"
  by (simp add: IStreamArchiver_readBytes_def istream_read_def)

text \<open>A \<open>BinaryObject\<close> over the whole of a buffer whose content before the load is \<open>old\<close>.\<close>

definition BinaryObject_save :: "byte list saver" where
  "BinaryObject_save buff = Inr (OStreamArchiver_writeBytes buff)"

definition BinaryObject_load :: "byte list \<Rightarrow> byte list loader" where
  "BinaryObject_load old s =
     (let (bs, s) = IStreamArchiver_readBytes (length old) s in Inr (bs @ drop (length bs) old, s))"

lemma BinaryObject_load_Nil [simp]: "BinaryObject_load [] s = Inr ([], s)"
  by (simp add: BinaryObject_load_def IStreamArchiver_readBytes_def)

text \<open>The same into \<open>n\<close> bytes that were not initialized.\<close>

definition BinaryObject_load_raw :: "nat \<Rightarrow> byte list loader" where
  "BinaryObject_load_raw n s =
     (let (bs, s) = IStreamArchiver_readBytes n s in if length bs < n then Inl Uninitialized else Inr (bs, s))"

subsection \<open>Numbers\<close>

definition char_save :: "byte saver" where
  "char_save t = BinaryObject_save [t]"

definition char_load :: "byte option \<Rightarrow> byte loader" where
  "char_load old s =
     (case old of
        None \<Rightarrow> rbind (BinaryObject_load_raw 1 s) (\<lambda>(bs, s). Inr (hd bs, s))
      | Some b \<Rightarrow> rbind (BinaryObject_load [b] s) (\<lambda>(bs, s). Inr (hd bs, s)))"

definition bool_save :: "bool saver" where
  "bool_save t = char_save (if t then 1 else 0)"

definition bool_load :: "bool loader" where
  "bool_load s = rbind (char_load None s) (\<lambda>(value, s). Inr (if value = 0 then False else True, s))"

definition short_save :: "16 word saver" where
  "short_save v = BinaryObject_save [ucast (drop_bit 0 v), ucast (drop_bit 8 v)]"

definition short_load :: "16 word loader" where
  "short_load s =
     rbind (BinaryObject_load_raw 2 s)
       (\<lambda>(buff, s). Inr (push_bit 0 (ucast (buff ! 0)) OR push_bit 8 (ucast (buff ! 1)), s))"

text \<open>The unsigned LEB128 loops, for a type \<open>T\<close> of the width of \<open>'w\<close>.\<close>

definition uleb_byte :: "'w::len word \<Rightarrow> byte" where
  "uleb_byte v =
     (let byte = ucast v AND 0x7f in if drop_bit 7 v \<noteq> 0 then byte OR 0x80 else byte)"

lemma byte_masks: "(0x7f :: byte) = mask 7" "(0x80 :: byte) = push_bit 7 1" "(0x40 :: byte) = push_bit 6 1"
  by (simp_all add: mask_eq_exp_minus_1)

lemma byte_bits [simp]: "bit (128 :: byte) k = (k = 7)" "bit (64 :: byte) k = (k = 6)"
  unfolding byte_masks(2,3) bit_push_bit_iff bit_1_iff by auto

lemma num_bits [simp]:
  "bit (128 :: int) k = (k = 7)" "bit (64 :: int) k = (k = 6)" "bit (128 :: nat) k = (k = 7)" "bit (64 :: nat) k = (k = 6)"
  using bit_exp_iff [of 7 k, where 'a = int] bit_exp_iff [of 6 k, where 'a = int]
    bit_exp_iff [of 7 k, where 'a = nat] bit_exp_iff [of 6 k, where 'a = nat] by auto

lemma and_push_bit_1: "(b AND push_bit n 1 \<noteq> 0) = bit (b :: 'w::len word) n"
proof -
  have "b AND push_bit n 1 = (if bit b n then push_bit n 1 else 0)"
    by (rule bit_word_eqI) (auto simp: bit_simps)
  moreover have "push_bit n 1 \<noteq> (0 :: 'w word)" if "bit b n"
    using that bit_imp_le_length [of b n] by (simp add: push_bit_of_1)
  ultimately show ?thesis by auto
qed

lemma uleb_byte_more: "(uleb_byte v AND 0x80 \<noteq> 0) = (drop_bit 7 v \<noteq> 0)"
  unfolding uleb_byte_def Let_def byte_masks and_push_bit_1 by (auto simp: bit_simps)

lemma drop_bit_7_less: "drop_bit 7 v \<noteq> 0 \<Longrightarrow> unat (drop_bit 7 v) < unat (v :: 'w::len word)"
proof -
  assume "drop_bit 7 v \<noteq> 0"
  then have "v \<noteq> 0" by (rule contrapos_nn) simp
  then have "0 < unat v" by (simp add: unat_gt_0)
  then have "drop_bit 7 (unat v) < unat v" by (simp add: drop_bit_eq_div div_less_dividend)
  then show ?thesis by (simp only: unat_drop_bit_eq)
qed

function uleb_bytes :: "'w::len word \<Rightarrow> byte list" where
  "uleb_bytes v =
     (let byte = uleb_byte v; v' = drop_bit 7 v
      in byte # (if byte AND 0x80 \<noteq> 0 then uleb_bytes v' else []))"
  by auto
termination
  by (relation "measure unat") (simp_all only: uleb_byte_more in_measure drop_bit_7_less wf_measure not_False_eq_True)

declare uleb_bytes.simps [simp del]

lemma uleb_bytes_rec: "uleb_bytes v = uleb_byte v # (if drop_bit 7 v \<noteq> 0 then uleb_bytes (drop_bit 7 v) else [])"
  by (subst uleb_bytes.simps) (simp only: Let_def uleb_byte_more)

definition uleb_save :: "'w::len word saver" where
  "uleb_save t = Inr (uleb_bytes t)"

text \<open>The loop shared by the signed and the unsigned \<open>load\<close>: the variable \<open>byte\<close> keeps its value when
  the stream is at its end.\<close>

function leb_loop :: "byte option \<Rightarrow> 'w::len word \<Rightarrow> nat \<Rightarrow> ('w word \<times> byte \<times> nat) loader" where
  "leb_loop old t shift s =
     rbind (char_load old s) (\<lambda>(byte, s).
       if LENGTH('w) \<le> shift then Inl ShiftTooFar
       else let t' = t OR push_bit shift (ucast (byte AND 0x7f)) in
         if byte AND 0x80 \<noteq> 0 then leb_loop (Some byte) t' (shift + 7) s
         else Inr ((t', byte, shift + 7), s))"
  by auto
termination
  by (relation "measure (\<lambda>(_ :: byte option, _ :: 'w::len word, shift :: nat, _ :: istream). LENGTH('w) - shift)") auto

declare leb_loop.simps [simp del]

definition uleb_load :: "'w::len word loader" where
  "uleb_load s = rbind (leb_loop None 0 0 s) (\<lambda>((t, _, _), s). Inr (t, s))"

text \<open>What one round of the load loop adds.\<close>

lemma char_load_Cons [simp]: "char_load old (istream_of (b # rest)) = Inr (b, istream_of rest)"
  by (simp add: char_load_def BinaryObject_load_def BinaryObject_load_raw_def split: option.split)

lemma uleb_round:
  "t OR push_bit shift (ucast (uleb_byte v AND 0x7f)) OR push_bit (shift + 7) (drop_bit 7 v) =
   t OR push_bit shift (v :: 'w::len word)"
proof (rule bit_word_eqI)
  fix n assume n: "n < LENGTH('w)"
  have "bit (uleb_byte v) k = bit v k" if "k < 7" for k
    using that unfolding uleb_byte_def Let_def byte_masks(1) by (auto simp: bit_simps)
  then show "bit (t OR push_bit shift (ucast (uleb_byte v AND 0x7f)) OR push_bit (shift + 7) (drop_bit 7 v)) n =
             bit (t OR push_bit shift v) n"
    unfolding byte_masks using n bit_imp_le_length [of v "n - shift"]
    by (cases "shift + 7 \<le> n") (auto simp: bit_simps not_le less_diff_conv2)
qed

lemma uleb_last:
  assumes "drop_bit 7 v = 0"
  shows "t OR push_bit shift (ucast (uleb_byte v AND 0x7f)) = t OR push_bit shift (v :: 'w::len word)"
  using uleb_round [of t shift v] assms by simp

lemma leb_loop_uleb:
  assumes "shift < LENGTH('w)" "unat v * 2 ^ shift < 2 ^ LENGTH('w)"
  shows "\<exists>b n. leb_loop old t shift (istream_of (uleb_bytes v @ rest)) =
               Inr ((t OR push_bit shift (v :: 'w::len word), b, n), istream_of rest)"
  using assms
proof (induction v arbitrary: old t shift rule: uleb_bytes.induct)
  case (1 v)
  let ?t = "t OR push_bit shift (ucast (uleb_byte v AND 0x7f))"
  show ?case
  proof (cases "drop_bit 7 v = 0")
    case True
    then have "\<not> uleb_byte v AND 0x80 \<noteq> 0" by (simp only: uleb_byte_more)
    then show ?thesis using True 1(2) by (subst uleb_bytes_rec, subst leb_loop.simps) (simp add: uleb_last)
  next
    case False
    then have more: "uleb_byte v AND 0x80 \<noteq> 0" unfolding uleb_byte_more .
    have v: "unat (drop_bit 7 v) = unat v div 2 ^ 7" by (simp only: unat_drop_bit_eq) (simp only: drop_bit_eq_div)
    have "unat (drop_bit 7 v) * 2 ^ (shift + 7) = unat v div 2 ^ 7 * 2 ^ 7 * 2 ^ shift"
      unfolding v by (simp add: power_add)
    also have "\<dots> \<le> unat v * 2 ^ shift" by (intro mult_right_mono div_times_less_eq_dividend) simp_all
    finally have fits: "unat (drop_bit 7 v) * 2 ^ (shift + 7) < 2 ^ LENGTH('w)" using 1(3) by simp
    have "0 < unat (drop_bit 7 v)" using False iffD2 [OF unat_gt_0] by blast
    then have "1 * 2 ^ (shift + 7) \<le> unat (drop_bit 7 v) * 2 ^ (shift + 7)" by (intro mult_right_mono) simp_all
    then have "(2 :: nat) ^ (shift + 7) < 2 ^ LENGTH('w)" using fits by linarith
    then have "shift + 7 < LENGTH('w)" by simp
    from 1(1) [OF refl refl more this fits, of "Some (uleb_byte v)" ?t]
    show ?thesis using False more 1(2)
      by (subst uleb_bytes_rec, subst leb_loop.simps)
         (auto simp: Let_def uleb_round or.assoc)
  qed
qed

text \<open>The signed LEB128 loops. \<open>signed_drop_bit\<close> is the arithmetic shift.\<close>

definition sleb_byte :: "'w::len word \<Rightarrow> byte" where
  "sleb_byte v =
     (let byte = scast v AND 0x7f; v' = signed_drop_bit 7 v; signbit = byte AND 0x40
      in if (v' \<noteq> 0 \<or> signbit \<noteq> 0) \<and> (v' \<noteq> -1 \<or> signbit = 0) then byte OR 0x80 else byte)"

lemma bit_byte_of: "k < 8 \<Longrightarrow> bit (scast v :: byte) k = bit (sint v) k"
  by (simp add: bit_simps)

lemma sint_shift: "sint (signed_drop_bit 7 v) = sint v div 128"
  by (simp add: sint_signed_drop_bit_eq drop_bit_eq_div)

lemma leb_stop: "((q div 2 \<noteq> 0 \<or> odd q) \<and> (q div 2 \<noteq> -1 \<or> even q)) = (q \<noteq> 0 \<and> q \<noteq> (-1 :: int))"
  by presburger

lemma sleb_more: "(sleb_byte v AND 0x80 \<noteq> 0) = (sint v < -64 \<or> 64 \<le> sint v)"
proof -
  let ?v' = "signed_drop_bit 7 v" and ?q = "sint v div 64"
  have sign: "((scast v AND 0x7f :: byte) AND 0x40 \<noteq> 0) = odd ?q"
    unfolding byte_masks and_push_bit_1 using bit_byte_of [of 6 v] bit_iff_odd [of "sint v" 6]
    by (simp only: bit_and_iff bit_mask_iff) simp
  have half: "?q div 2 = sint v div 128" using zdiv_zmult2_eq [of 2 "sint v" 64] by simp
  have "(?v' = 0) = (sint ?v' = sint (0 :: 'a word))" by (metis signed_word_eqI)
  then have zero: "(?v' = 0) = (?q div 2 = 0)" by (simp add: sint_shift half)
  have "(?v' = -1) = (sint ?v' = sint (-1 :: 'a word))" by (metis signed_word_eqI)
  then have ones: "(?v' = -1) = (?q div 2 = -1)" by (simp add: sint_shift half)
  have more: "(sleb_byte v AND 0x80 \<noteq> 0) =
      ((?v' \<noteq> 0 \<or> (scast v AND 0x7f :: byte) AND 0x40 \<noteq> 0) \<and> (?v' \<noteq> -1 \<or> (scast v AND 0x7f :: byte) AND 0x40 = 0))"
    unfolding sleb_byte_def Let_def byte_masks(2) and_push_bit_1 by (auto simp: byte_masks(1) bit_simps)
  have "(sleb_byte v AND 0x80 \<noteq> 0) = ((?q div 2 \<noteq> 0 \<or> odd ?q) \<and> (?q div 2 \<noteq> -1 \<or> even ?q))"
    using more sign zero ones by auto
  also have "\<dots> = (?q \<noteq> 0 \<and> ?q \<noteq> -1)" by (rule leb_stop)
  also have "\<dots> = (sint v < -64 \<or> 64 \<le> sint v)" by auto
  finally show ?thesis .
qed

definition sleb_measure :: "int \<Rightarrow> nat" where
  "sleb_measure i = nat (if 0 \<le> i then i else - i - 1)"

lemma sleb_measure_less: "i < -64 \<or> 64 \<le> i \<Longrightarrow> sleb_measure (i div 128) < sleb_measure i"
  unfolding sleb_measure_def by auto

function sleb_bytes :: "'w::len word \<Rightarrow> byte list" where
  "sleb_bytes v =
     (let byte = sleb_byte v; v' = signed_drop_bit 7 v
      in byte # (if byte AND 0x80 \<noteq> 0 then sleb_bytes v' else []))"
  by auto
termination
  by (relation "measure (sleb_measure \<circ> sint)") (auto simp: sleb_more sint_shift intro: sleb_measure_less)

declare sleb_bytes.simps [simp del]

lemma sleb_bytes_rec:
  "sleb_bytes v =
     sleb_byte v # (if sint v < -64 \<or> 64 \<le> sint v then sleb_bytes (signed_drop_bit 7 v) else [])"
  by (subst sleb_bytes.simps) (simp only: Let_def sleb_more)

definition sleb_save :: "'w::len word saver" where
  "sleb_save t = Inr (sleb_bytes t)"

text \<open>The sign extension shifts the \<open>int\<close> literal 1, whatever the width of the type is.\<close>

definition sleb_load :: "'w::len word loader" where
  "sleb_load s =
     rbind (leb_loop None 0 0 s) (\<lambda>((t, byte, shift), s).
       if byte AND 0x40 \<noteq> 0 \<and> shift < LENGTH('w)
       then if 31 \<le> shift then Inl ShiftTooFar else Inr (t OR scast (- push_bit shift (1 :: 32 word)), s)
       else Inr (t, s))"

lemma sleb_length: "length (sleb_bytes v) \<le> Suc k \<longleftrightarrow> - (2 ^ (7 * k + 6)) \<le> sint v \<and> sint v < 2 ^ (7 * k + 6)"
proof (induction v arbitrary: k rule: sleb_bytes.induct)
  case (1 v)
  have small: "(64 :: int) \<le> 2 ^ (7 * k + 6)" by (simp add: power_add)
  show ?case
  proof (cases "sint v < -64 \<or> 64 \<le> sint v")
    case False
    then show ?thesis using small by (subst sleb_bytes_rec) auto
  next
    case True
    then have more: "sleb_byte v AND 0x80 \<noteq> 0" unfolding sleb_more .
    have nonempty: "sleb_bytes w \<noteq> []" for w :: "'a word" by (subst sleb_bytes_rec) simp
    show ?thesis
    proof (cases k)
      case 0
      then show ?thesis using True nonempty by (subst sleb_bytes_rec) auto
    next
      case (Suc j)
      let ?p = "2 ^ (7 * j + 6) :: int"
      have "(length (sleb_bytes v) \<le> Suc k) = (- ?p \<le> sint v div 128 \<and> sint v div 128 < ?p)"
        using True Suc 1 [OF refl refl more, of j] by (subst sleb_bytes_rec) (simp add: sint_shift)
      also have "\<dots> = (- (128 * ?p) \<le> sint v \<and> sint v < 128 * ?p)" by auto
      finally show ?thesis using Suc by (simp add: power_add)
    qed
  qed
qed

lemma bit_sleb_byte: "k < 7 \<Longrightarrow> bit (sleb_byte v) k = bit (sint v) k"
  unfolding sleb_byte_def Let_def byte_masks(1) by (simp add: bit_byte_of bit_and_iff bit_or_iff bit_mask_iff)

lemma sleb_round:
  "t OR push_bit shift (ucast (sleb_byte v AND 0x7f)) OR push_bit (shift + 7) (take_bit m (signed_drop_bit 7 v)) =
   t OR push_bit shift (take_bit (m + 7) (v :: 'w::len word))"
proof (rule bit_word_eqI)
  fix n assume n: "n < LENGTH('w)"
  then have "bit (sint v) (n - shift) = bit v (n - shift)" by (auto simp: bit_sint_iff)
  then show "bit (t OR push_bit shift (ucast (sleb_byte v AND 0x7f)) OR
                  push_bit (shift + 7) (take_bit m (signed_drop_bit 7 v))) n =
             bit (t OR push_bit shift (take_bit (m + 7) v)) n"
    unfolding byte_masks using n bit_sleb_byte [of "n - shift" v]
    by (cases "shift + 7 \<le> n") (auto simp: bit_simps not_le less_diff_conv2)
qed

lemma sleb_last_sign: "\<not> (sint v < -64 \<or> 64 \<le> sint v) \<Longrightarrow> (sleb_byte v AND 0x40 \<noteq> 0) = (sint v < 0)"
proof -
  assume "\<not> (sint v < -64 \<or> 64 \<le> sint v)"
  then have "odd (sint v div 64) = (sint v < 0)" by presburger
  then show ?thesis unfolding byte_masks and_push_bit_1 by (simp add: bit_sleb_byte bit_iff_odd [of "sint v"])
qed

lemma leb_loop_sleb:
  assumes "shift + 7 * length (sleb_bytes v) < LENGTH('w) + 7"
  shows "\<exists>b. leb_loop old t shift (istream_of (sleb_bytes v @ rest)) =
           Inr ((t OR push_bit shift (take_bit (7 * length (sleb_bytes v)) (v :: 'w::len word)), b,
                 shift + 7 * length (sleb_bytes v)), istream_of rest) \<and> (b AND 0x40 \<noteq> 0) = (sint v < 0)"
  using assms
proof (induction v arbitrary: old t shift rule: sleb_bytes.induct)
  case (1 v)
  let ?b = "sleb_byte v" and ?v' = "signed_drop_bit 7 v"
  show ?case
  proof (cases "sint v < -64 \<or> 64 \<le> sint v")
    case False
    then have "\<not> ?b AND 0x80 \<noteq> 0" unfolding sleb_more .
    then show ?thesis using False 1(2) sleb_round [of t shift v 0] sleb_last_sign [OF False]
      by (simp add: sleb_bytes_rec [of v] leb_loop.simps)
  next
    case True
    then have more: "?b AND 0x80 \<noteq> 0" unfolding sleb_more .
    have len: "length (sleb_bytes v) = Suc (length (sleb_bytes ?v'))"
      using True by (subst sleb_bytes_rec) simp
    have neg: "(sint v div 128 < 0) = (sint v < 0)" by presburger
    have "shift + 7 + 7 * length (sleb_bytes ?v') < LENGTH('w) + 7" using 1(2) len by simp
    from 1(1) [OF refl refl more this, of "Some ?b" "t OR push_bit shift (ucast (?b AND 0x7f))"]
    show ?thesis using True more 1(2) len sleb_round [of t shift v "7 * length (sleb_bytes ?v')"]
      by (simp add: sleb_bytes_rec [of v] leb_loop.simps [of old] or.assoc sint_shift neg algebra_simps)
  qed
qed

lemma uleb_load_save: "uleb_load (istream_of (uleb_bytes v @ rest)) = Inr (v :: 'w::len word, istream_of rest)"
  using leb_loop_uleb [of 0 v None 0 rest] unsigned_less [of v, where 'a = nat]
  by (auto simp: uleb_load_def)

lemma sleb_length_bound: "7 * length (sleb_bytes (v :: 'w::len word)) < LENGTH('w) + 7"
proof -
  define k where "k = (LENGTH('w) - 1) div 7"
  have "LENGTH('w) - 1 \<le> 7 * k + 6" unfolding k_def by linarith
  then have "(2 :: int) ^ (LENGTH('w) - 1) \<le> 2 ^ (7 * k + 6)" by (rule power_increasing) simp
  then have "length (sleb_bytes v) \<le> Suc k"
    using sint_ge [of v] sint_lt [of v] by (simp only: sleb_length) linarith
  moreover have "7 * Suc k < LENGTH('w) + 7" 
  proof -
    have "0 < l \<Longrightarrow> 7 * Suc ((l - 1) div 7) < l + 7" for l :: nat by presburger
    then show ?thesis unfolding k_def by simp
  qed
  ultimately show ?thesis by (meson le_less_trans mult_le_mono2)
qed

lemma sign_mask:
  assumes "shift < 31"
  shows "(scast (- push_bit shift (1 :: 32 word)) :: 'w::len word) = - (2 ^ shift)"
proof -
  have "sint (- push_bit shift (1 :: 32 word)) = - (2 ^ shift)"
  proof -
    have "(2 :: int) ^ shift \<le> 2 ^ 30" using assms by (intro power_increasing) simp_all
    moreover have pos: "(0 :: int) \<le> 2 ^ shift" by simp
    ultimately have "signed_take_bit 31 (- (2 ^ shift) :: int) = - (2 ^ shift)"
      unfolding signed_take_bit_int_eq_self_iff by simp (use pos in linarith)
    moreover have "- push_bit shift (1 :: 32 word) = word_of_int (- (2 ^ shift))" by simp
    ultimately show ?thesis using sint_sbintrunc' [of "- (2 ^ shift)", where 'a = 32] by (simp only:) simp
  qed
  then show ?thesis by (simp add: scast_eq)
qed

lemma sign_extend:
  assumes "n < LENGTH('w)" "0 < n" "- (2 ^ (n - 1)) \<le> sint v" "sint (v :: 'w::len word) < 0"
  shows "take_bit n v OR - (2 ^ n) = v"
proof (rule bit_word_eqI)
  fix j assume j: "j < LENGTH('w)"
  have "signed_take_bit (n - 1) (sint v) = sint v" using assms by (simp add: signed_take_bit_int_eq_self_iff)
  then have same: "bit (sint v) i = bit (sint v) (min i (n - 1))" for i
    using bit_signed_take_bit_iff [of "n - 1" "sint v" i] by (simp add: min.commute)
  have "bit (sint v) (LENGTH('w) - 1)" using assms(4) by (simp add: bit_last_iff bit_sint_iff)
  then have "bit (sint v) (n - 1)" using same [of "LENGTH('w) - 1"] assms by (simp add: min_def split: if_splits)
  then have "bit v j" if "n \<le> j" using same [of j] that j by (auto simp: bit_sint_iff min_def split: if_splits)
  then show "bit (take_bit n v OR - (2 ^ n)) j = bit v j"
    unfolding minus_exp_eq_not_mask using j by (auto simp: bit_simps)
qed

lemma sleb_load_save:
  "sleb_load (istream_of (sleb_bytes v @ rest)) =
     (if sint (v :: 'w::len word) < 0 \<and> 31 \<le> 7 * length (sleb_bytes v) \<and> 7 * length (sleb_bytes v) < LENGTH('w)
      then Inl ShiftTooFar else Inr (v, istream_of rest))"
proof -
  let ?n = "length (sleb_bytes v)"
  obtain k where n: "?n = Suc k" by (cases "sleb_bytes v") (auto simp: sleb_bytes_rec [of v])
  then have "- (2 ^ (7 * k + 6)) \<le> sint v" "sint v < 2 ^ (7 * k + 6)" using sleb_length [of v k] by simp_all
  moreover have "7 * ?n - 1 = 7 * k + 6" using n by simp
  ultimately have low: "- (2 ^ (7 * ?n - 1)) \<le> sint v" and high: "sint v < 2 ^ (7 * ?n - 1)" by simp_all
  have whole: "take_bit (7 * ?n) v = v" if "LENGTH('w) \<le> 7 * ?n"
    using that by (intro bit_word_eqI) (auto simp: bit_simps)
  have pos: "take_bit (7 * ?n) v = v" if "0 \<le> sint v" "7 * ?n < LENGTH('w)"
  proof -
    have "(2 :: int) ^ (7 * ?n - 1) \<le> 2 ^ (7 * ?n)" by (rule power_increasing) simp_all
    then have "sint v < 2 ^ (7 * ?n)" using high by linarith
    then have "take_bit (7 * ?n) (sint v) = sint v" using that(1) by (intro take_bit_int_eq_self) simp_all
    then have "j < 7 * ?n" if "bit v j" for j
      using that bit_take_bit_iff [of "7 * ?n" "sint v" j] by (simp add: bit_sint_iff)
    then show ?thesis by (intro bit_word_eqI) (auto simp: bit_simps)
  qed
  obtain b where "leb_loop None 0 0 (istream_of (sleb_bytes v @ rest)) =
      Inr ((take_bit (7 * ?n) v, b, 7 * ?n), istream_of rest)" "(b AND 0x40 \<noteq> 0) = (sint v < 0)"
    using leb_loop_sleb [of 0 v None 0 rest] sleb_length_bound [of v] by auto
  moreover have "take_bit (7 * ?n) v = v" if "\<not> (sint v < 0 \<and> 7 * ?n < LENGTH('w))"
    using that whole pos by linarith
  moreover have "take_bit (7 * ?n) v OR scast (- push_bit (7 * ?n) (1 :: 32 word)) = v"
    if "sint v < 0" "7 * ?n < LENGTH('w)" "7 * ?n < 31"
    using sign_extend [OF that(2) _ low that(1)] n unfolding sign_mask [OF that(3)] by simp
  ultimately show ?thesis
    by (cases "sint v < 0 \<and> 7 * ?n < LENGTH('w)") (auto simp: sleb_load_def not_le simp del: push_bit_of_1)
qed

text \<open>\<open>float\<close> and \<open>double\<close> are saved as the unsigned integer with the same bits.\<close>

type_synonym float_bits = "32 word"
type_synonym double_bits = "64 word"

definition float_save :: "float_bits saver" where
  "float_save t = uleb_save t"

definition float_load :: "float_bits loader" where
  "float_load s = uleb_load s"

definition double_save :: "double_bits saver" where
  "double_save t = uleb_save t"

definition double_load :: "double_bits loader" where
  "double_load s = uleb_load s"

subsection \<open>Containers\<close>

text \<open>The element count \<open>unsigned(t.size())\<close>.\<close>

definition size_save :: "'a list saver" where
  "size_save t = uleb_save (word_of_nat (length t) :: 32 word)"

definition size_load :: "nat loader" where
  "size_load s = rbind (uleb_load s) (\<lambda>(size :: 32 word, s). Inr (unat size, s))"

text \<open>Two writes in sequence, and the loops over the elements.\<close>

definition then_save :: "archive_error + byte list \<Rightarrow> archive_error + byte list \<Rightarrow> archive_error + byte list" where
  "then_save a b = rbind a (\<lambda>bs. rbind b (\<lambda>bs'. Inr (bs @ bs')))"

lemma then_save_simps [simp]: "then_save (Inr a) (Inr b) = Inr (a @ b)" "then_save (Inl e) m = Inl e"
  "then_save (Inr a) (Inl e) = Inl e"
  by (simp_all add: then_save_def)

primrec save_each :: "'a saver \<Rightarrow> 'a list saver" where
  "save_each save [] = Inr []"
| "save_each save (elem # t) = then_save (save elem) (save_each save t)"

primrec load_each :: "'a loader \<Rightarrow> ('a \<Rightarrow> 'c \<Rightarrow> 'c) \<Rightarrow> nat \<Rightarrow> 'c \<Rightarrow> 'c loader" where
  "load_each load put 0 t s = Inr (t, s)"
| "load_each load put (Suc n) t s = rbind (load s) (\<lambda>(elem, s). load_each load put n (put elem t) s)"

definition vector_save :: "'a saver \<Rightarrow> 'a list saver" where
  "vector_save save t = then_save (size_save t) (save_each save t)"

definition vector_load :: "'a loader \<Rightarrow> 'a list loader" where
  "vector_load load s =
     rbind (size_load s) (\<lambda>(size, s). load_each load (\<lambda>elem t. t @ [elem]) size [] s)"

text \<open>\<open>std::vector<bool>\<close> is resized first and then assigned by index.\<close>

definition vector_bool_save :: "bool list saver" where
  "vector_bool_save t = then_save (size_save t) (save_each bool_save t)"

definition vector_bool_load :: "bool list loader" where
  "vector_bool_load s =
     rbind (size_load s) (\<lambda>(size, s).
       rbind (load_each bool_load (\<lambda>elem (i, t). (Suc i, t[i := elem])) size (0, replicate size False) s)
         (\<lambda>((_, t), s). Inr (t, s)))"

text \<open>A \<open>basic_string\<close> whose characters have \<open>sz\<close> bytes, as the bytes of its character array: both functions
  pass the number of characters as the number of bytes.\<close>

definition basic_string_save :: "nat \<Rightarrow> byte list saver" where
  "basic_string_save sz mem =
     (let n = length mem div sz
      in then_save (uleb_save (word_of_nat n :: 32 word)) (BinaryObject_save (take n mem)))"

definition basic_string_load :: "nat \<Rightarrow> byte list loader" where
  "basic_string_load sz s =
     rbind (size_load s) (\<lambda>(size, s).
       let mem = replicate (size * sz) 0
       in rbind (BinaryObject_load (take size mem) s) (\<lambda>(bs, s). Inr (bs @ drop size mem, s)))"

definition char_byte :: "char \<Rightarrow> byte" where
  "char_byte c = word_of_nat (of_char c)"

definition byte_char :: "byte \<Rightarrow> char" where
  "byte_char b = char_of (unat b)"

lemma byte_char_byte [simp]: "byte_char (char_byte c) = c"
  by (simp add: byte_char_def char_byte_def unat_of_nat take_bit_nat_eq_self)

definition string_save :: "string saver" where
  "string_save t = basic_string_save 1 (map char_byte t)"

definition string_load :: "string loader" where
  "string_load s = rbind (basic_string_load 1 s) (\<lambda>(mem, s). Inr (map byte_char mem, s))"

definition pair_save :: "'a saver \<Rightarrow> 'b saver \<Rightarrow> ('a \<times> 'b) saver" where
  "pair_save save1 save2 t = then_save (save1 (fst t)) (save2 (snd t))"

definition pair_load :: "'a loader \<Rightarrow> 'b loader \<Rightarrow> ('a \<times> 'b) loader" where
  "pair_load load1 load2 s =
     rbind (load1 s) (\<lambda>(first, s). rbind (load2 s) (\<lambda>(second, s). Inr ((first, second), s)))"

definition complex_save :: "'a saver \<Rightarrow> ('a \<times> 'a) saver" where
  "complex_save save t = then_save (save (fst t)) (save (snd t))"

definition complex_load :: "'a loader \<Rightarrow> ('a \<times> 'a) loader" where
  "complex_load load s =
     rbind (load s) (\<lambda>(re, s). rbind (load s) (\<lambda>(im, s). Inr ((re, im), s)))"

text \<open>\<open>std::map\<close> and \<open>std::set\<close> as lists in increasing key order; \<open>emplace_hint\<close> leaves an existing
  key alone.\<close>

fun map_emplace :: "'k::linorder \<times> 'v \<Rightarrow> ('k \<times> 'v) list \<Rightarrow> ('k \<times> 'v) list" where
  "map_emplace p [] = [p]"
| "map_emplace p (q # m) =
     (if fst p < fst q then p # q # m else if fst p = fst q then q # m else q # map_emplace p m)"

fun set_emplace :: "'k::linorder \<Rightarrow> 'k list \<Rightarrow> 'k list" where
  "set_emplace x [] = [x]"
| "set_emplace x (y # t) = (if x < y then x # y # t else if x = y then y # t else y # set_emplace x t)"

definition map_save :: "'k::linorder saver \<Rightarrow> 'v saver \<Rightarrow> ('k \<times> 'v) list saver" where
  "map_save save1 save2 t = then_save (size_save t) (save_each (pair_save save1 save2) t)"

definition map_load :: "'k::linorder loader \<Rightarrow> 'v loader \<Rightarrow> ('k \<times> 'v) list loader" where
  "map_load load1 load2 s =
     rbind (size_load s) (\<lambda>(size, s). load_each (pair_load load1 load2) map_emplace size [] s)"

definition set_save :: "'k::linorder saver \<Rightarrow> 'k list saver" where
  "set_save save t = then_save (size_save t) (save_each save t)"

definition set_load :: "'k::linorder loader \<Rightarrow> 'k list loader" where
  "set_load load s = rbind (size_load s) (\<lambda>(size, s). load_each load set_emplace size [] s)"

text \<open>Reading one member after another.\<close>

definition bindl :: "'a loader \<Rightarrow> ('a \<Rightarrow> 'b loader) \<Rightarrow> 'b loader" where
  "bindl load f s = rbind (load s) (\<lambda>(x, s). f x s)"

definition retl :: "'a \<Rightarrow> 'a loader" where
  "retl x s = Inr (x, s)"

text \<open>The bytes written are there, and \<open>load\<close> makes the value \<open>x\<close> of them.\<close>

definition encodes :: "archive_error + byte list \<Rightarrow> 'a loader \<Rightarrow> 'a \<Rightarrow> bool" where
  "encodes out load x \<longleftrightarrow> (\<exists>bs. out = Inr bs \<and> (\<forall>rest. load (istream_of (bs @ rest)) = Inr (x, istream_of rest)))"

lemma encodes_then:
  assumes "encodes out load x" "encodes out' (f x) y"
  shows "encodes (then_save out out') (bindl load f) y"
proof -
  obtain bs bs' where "out = Inr bs" "\<forall>rest. load (istream_of (bs @ rest)) = Inr (x, istream_of rest)"
    "out' = Inr bs'" "\<forall>rest. f x (istream_of (bs' @ rest)) = Inr (y, istream_of rest)"
    using assms unfolding encodes_def by blast
  then show ?thesis unfolding encodes_def by (intro exI [of _ "bs @ bs'"]) (simp add: bindl_def)
qed

lemma encodes_last: "encodes out load x \<Longrightarrow> f x = retl y \<Longrightarrow> encodes out (bindl load f) y"
  unfolding encodes_def by (auto simp: bindl_def retl_def)

subsection \<open>The contract of a serializable type\<close>

text \<open>A valid value is written without an exception, and loading it back from a stream that goes on in any way
  returns it and leaves the stream right behind it.\<close>

locale codec =
  fixes save :: "'a saver" and load :: "'a loader" and valid :: "'a \<Rightarrow> bool"
  assumes round_trip:
    "valid x \<Longrightarrow> \<exists>bs. save x = Inr bs \<and> (\<forall>rest. load (istream_of (bs @ rest)) = Inr (x, istream_of rest))"
begin

lemma saved:
  assumes "valid x"
  obtains bs where "save x = Inr bs" "\<And>rest. load (istream_of (bs @ rest)) = Inr (x, istream_of rest)"
  using round_trip [OF assms] by blast

lemma loaded: "valid x \<Longrightarrow> save x = Inr bs \<Longrightarrow> load (istream_of (bs @ rest)) = Inr (x, istream_of rest)"
  by (drule round_trip) auto

lemma encoded: "valid x \<Longrightarrow> encodes (save x) load x"
  unfolding encodes_def by (rule round_trip)

lemma self_delimiting:
  assumes "valid x" "valid y" "save x = Inr bs" "save y = Inr (bs @ tl')"
  shows "x = y \<and> tl' = []"
proof -
  have "load (istream_of (bs @ tl')) = Inr (x, istream_of tl')" by (rule loaded [OF assms(1,3)])
  moreover have "load (istream_of ((bs @ tl') @ [])) = Inr (y, istream_of [])" by (rule loaded [OF assms(2,4)])
  ultimately show ?thesis by simp
qed

lemma each:
  assumes "\<forall>x \<in> set t. valid x"
  shows "\<exists>bs. save_each save t = Inr bs \<and>
    (\<forall>c rest. load_each load put (length t) c (istream_of (bs @ rest)) = Inr (fold put t c, istream_of rest))"
  using assms
proof (induction t)
  case (Cons x t)
  then obtain bs bs' where "save x = Inr bs" "\<And>rest. load (istream_of (bs @ rest)) = Inr (x, istream_of rest)"
    "save_each save t = Inr bs'"
    "\<And>c rest. load_each load put (length t) c (istream_of (bs' @ rest)) = Inr (fold put t c, istream_of rest)"
    by (metis list.set_intros saved)
  then show ?case by simp
qed simp

lemma counted:
  assumes "\<forall>x \<in> set t. valid x" "length t < 2 ^ 32"
  shows "\<exists>bs. then_save (size_save t) (save_each save t) = Inr bs \<and>
    (\<forall>c rest. rbind (size_load (istream_of (bs @ rest))) (\<lambda>(size, s). load_each load put size (c size) s) =
              Inr (fold put t (c (length t)), istream_of rest))"
  using each [OF assms(1), of put] assms(2)
  by (auto simp: size_save_def size_load_def uleb_save_def uleb_load_save unat_of_nat take_bit_nat_eq_self)

lemma vector_codec: "codec (vector_save save) (vector_load load) (\<lambda>t. length t < 2 ^ 32 \<and> (\<forall>x \<in> set t. valid x))"
proof
  fix t assume "length t < 2 ^ 32 \<and> (\<forall>x \<in> set t. valid x)"
  then obtain bs where "then_save (size_save t) (save_each save t) = Inr bs"
    "\<forall>c rest. rbind (size_load (istream_of (bs @ rest)))
        (\<lambda>(size, s). load_each load (\<lambda>elem t. t @ [elem]) size (c size) s) =
      Inr (fold (\<lambda>elem t. t @ [elem]) t (c (length t)), istream_of rest)"
    using counted [of t "\<lambda>elem t. t @ [elem]"] by blast
  moreover have "fold (\<lambda>elem t. t @ [elem]) t c = c @ t" for c :: "'a list" by (induction t arbitrary: c) simp_all
  ultimately show "\<exists>bs. vector_save save t = Inr bs \<and>
      (\<forall>rest. vector_load load (istream_of (bs @ rest)) = Inr (t, istream_of rest))"
    by (intro exI [of _ bs]) (simp add: vector_save_def vector_load_def)
qed

lemma complex_codec: "codec (complex_save save) (complex_load load) (\<lambda>(re, im). valid re \<and> valid im)"
proof
  fix t :: "'a \<times> 'a" assume "case t of (re, im) \<Rightarrow> valid re \<and> valid im"
  then obtain bs bs' where "save (fst t) = Inr bs" "\<And>rest. load (istream_of (bs @ rest)) = Inr (fst t, istream_of rest)"
    "save (snd t) = Inr bs'" "\<And>rest. load (istream_of (bs' @ rest)) = Inr (snd t, istream_of rest)"
    using saved [of "fst t" thesis] saved [of "snd t" thesis] by (auto split: prod.splits elim: saved)
  then show "\<exists>bs. complex_save save t = Inr bs \<and>
      (\<forall>rest. complex_load load (istream_of (bs @ rest)) = Inr (t, istream_of rest))"
    unfolding complex_save_def complex_load_def by simp
qed

end

text \<open>Two types saved one after the other.\<close>

locale codec_pair =
  first: codec save1 load1 valid1 + second: codec save2 load2 valid2
  for save1 :: "'a saver" and load1 valid1 and save2 :: "'b saver" and load2 valid2
begin

lemma in_sequence:
  assumes "valid1 x" "valid2 y"
  shows "\<exists>bs bs'. save1 x = Inr bs \<and> save2 y = Inr bs' \<and>
    (\<forall>rest. load1 (istream_of (bs @ bs' @ rest)) = Inr (x, istream_of (bs' @ rest)) \<and>
            load2 (istream_of (bs' @ rest)) = Inr (y, istream_of rest))"
  using first.round_trip [OF assms(1)] second.round_trip [OF assms(2)] by blast

end

sublocale codec_pair \<subseteq> pair: codec "pair_save save1 save2" "pair_load load1 load2" "\<lambda>(x, y). valid1 x \<and> valid2 y"
proof
  fix t assume "case t of (x, y) \<Rightarrow> valid1 x \<and> valid2 y"
  then show "\<exists>bs. pair_save save1 save2 t = Inr bs \<and>
      (\<forall>rest. pair_load load1 load2 (istream_of (bs @ rest)) = Inr (t, istream_of rest))"
    using in_sequence [of "fst t" "snd t"] by (auto simp: pair_save_def pair_load_def split: prod.splits)
qed

text \<open>Maps and sets, whose elements arrive in increasing order.\<close>

lemma map_emplace_last: "\<forall>q \<in> set m. fst q < fst p \<Longrightarrow> map_emplace p m = m @ [p]"
  by (induction m) auto

lemma set_emplace_last: "\<forall>y \<in> set t. y < x \<Longrightarrow> set_emplace x t = t @ [x]"
  by (induction t) auto

lemma fold_map_emplace: "sorted_wrt (<) (map fst (m @ m')) \<Longrightarrow> fold map_emplace m' m = m @ m'"
  by (induction m' arbitrary: m) (auto simp: map_emplace_last sorted_wrt_append)

lemma fold_set_emplace: "sorted_wrt (<) (t @ t') \<Longrightarrow> fold set_emplace t' t = t @ t'"
  by (induction t' arbitrary: t) (auto simp: set_emplace_last sorted_wrt_append)

lemma set_map_emplace: "fst ` set (map_emplace p m) = insert (fst p) (fst ` set m)"
  by (induction p m rule: map_emplace.induct) auto

lemma map_emplace_sorted: "sorted_wrt (<) (map fst m) \<Longrightarrow> sorted_wrt (<) (map fst (map_emplace p m))"
proof (induction p m rule: map_emplace.induct)
  case (2 p q m)
  have "fst q < k" if "k \<in> fst ` set (map_emplace p m)" "\<not> fst p < fst q" "fst p \<noteq> fst q" for k
    using that 2(2) unfolding set_map_emplace by auto
  then show ?case using 2 by auto
qed simp

lemma load_each_inv:
  assumes "load_each load put n c s = Inr (c', s')" "P c" "\<And>x c. P c \<Longrightarrow> P (put x c)"
  shows "P c'"
  using assms(1,2)
proof (induction n arbitrary: c s)
  case (Suc n)
  then obtain x s1 where "load_each load put n (put x c) s1 = Inr (c', s')" by (auto simp: rbind_Inr_conv)
  then show ?case by (rule Suc.IH) (rule assms(3) [OF Suc.prems(2)])
qed simp

locale codec_set = codec save load valid
  for save :: "'k::linorder saver" and load valid
begin

lemma set_codec:
  "codec (set_save save) (set_load load)
     (\<lambda>t. length t < 2 ^ 32 \<and> sorted_wrt (<) t \<and> (\<forall>x \<in> set t. valid x))"
proof
  fix t assume t: "length t < 2 ^ 32 \<and> sorted_wrt (<) t \<and> (\<forall>x \<in> set t. valid x)"
  then obtain bs where "then_save (size_save t) (save_each save t) = Inr bs"
    "\<forall>c rest. rbind (size_load (istream_of (bs @ rest)))
        (\<lambda>(size, s). load_each load set_emplace size (c size) s) =
      Inr (fold set_emplace t (c (length t)), istream_of rest)"
    using counted [of t set_emplace] by blast
  then show "\<exists>bs. set_save save t = Inr bs \<and>
      (\<forall>rest. set_load load (istream_of (bs @ rest)) = Inr (t, istream_of rest))"
    using t by (intro exI [of _ bs]) (simp add: set_save_def set_load_def fold_set_emplace)
qed

end

locale codec_map = codec_pair save1 load1 valid1 save2 load2 valid2
  for save1 :: "'k::linorder saver" and load1 valid1 and save2 :: "'v saver" and load2 valid2
begin

lemma map_codec:
  "codec (map_save save1 save2) (map_load load1 load2)
     (\<lambda>m. length m < 2 ^ 32 \<and> sorted_wrt (<) (map fst m) \<and> (\<forall>(x, y) \<in> set m. valid1 x \<and> valid2 y))"
proof
  fix m assume m: "length m < 2 ^ 32 \<and> sorted_wrt (<) (map fst m) \<and> (\<forall>(x, y) \<in> set m. valid1 x \<and> valid2 y)"
  then obtain bs where "then_save (size_save m) (save_each (pair_save save1 save2) m) = Inr bs"
    "\<forall>c rest. rbind (size_load (istream_of (bs @ rest)))
        (\<lambda>(size, s). load_each (pair_load load1 load2) map_emplace size (c size) s) =
      Inr (fold map_emplace m (c (length m)), istream_of rest)"
    using pair.counted [of m map_emplace] by blast
  then show "\<exists>bs. map_save save1 save2 m = Inr bs \<and>
      (\<forall>rest. map_load load1 load2 (istream_of (bs @ rest)) = Inr (m, istream_of rest))"
    using m by (intro exI [of _ bs]) (simp add: map_save_def map_load_def fold_map_emplace)
qed

end

subsection \<open>The types of the format\<close>

lemma codecI:
  assumes "\<And>x. valid x \<Longrightarrow> save x = Inr (enc x)"
    "\<And>x rest. valid x \<Longrightarrow> load (istream_of (enc x @ rest)) = Inr (x, istream_of rest)"
  shows "codec save load valid"
  using assms by (intro codec.intro) auto

lemma codec_encodes: "(\<And>x. valid x \<Longrightarrow> encodes (save x) load x) \<Longrightarrow> codec save load valid"
  unfolding encodes_def by (rule codec.intro)

interpretation char_codec: codec char_save "char_load old" "\<lambda>_. True"
  by (rule codecI [where enc = "\<lambda>b. [b]"]) (simp_all add: char_save_def BinaryObject_save_def OStreamArchiver_writeBytes_def)

interpretation bool_codec: codec bool_save bool_load "\<lambda>_. True"
  by (rule codecI [where enc = "\<lambda>t. [if t then 1 else 0]"])
     (simp_all add: bool_save_def char_save_def BinaryObject_save_def OStreamArchiver_writeBytes_def bool_load_def)

interpretation short_codec: codec short_save short_load "\<lambda>_. True"
proof (rule codecI [where enc = "\<lambda>v. [ucast v, ucast (drop_bit 8 v)]"])
  fix v :: "16 word" and rest
  have "ucast (ucast v :: byte) OR push_bit 8 (ucast (ucast (drop_bit 8 v) :: byte)) = v"
    by (rule bit_word_eqI) (auto simp: bit_simps not_less)
  then show "short_load (istream_of ([ucast v, ucast (drop_bit 8 v)] @ rest)) = Inr (v, istream_of rest)"
    using readBytes_append [of 2 "[ucast v, ucast (drop_bit 8 v)]" rest]
    by (simp add: short_load_def BinaryObject_load_raw_def)
qed (simp add: short_save_def BinaryObject_save_def OStreamArchiver_writeBytes_def)

interpretation unsigned_codec: codec uleb_save uleb_load "\<lambda>_. True"
  by (rule codecI [where enc = uleb_bytes]) (simp_all add: uleb_save_def uleb_load_save)

interpretation signed_codec: codec sleb_save sleb_load
    "\<lambda>v :: 'w::len word. \<not> (sint v < 0 \<and> 31 \<le> 7 * length (sleb_bytes v) \<and> 7 * length (sleb_bytes v) < LENGTH('w))"
  by (rule codecI [where enc = sleb_bytes]) (simp_all add: sleb_save_def sleb_load_save)

interpretation float_codec: codec float_save float_load "\<lambda>_. True"
  using unsigned_codec.codec_axioms unfolding float_save_def float_load_def .

interpretation double_codec: codec double_save double_load "\<lambda>_. True"
  using unsigned_codec.codec_axioms unfolding double_save_def double_load_def .

text \<open>\<open>size_t\<close> is \<open>unsigned long\<close>; a value of the model is the number itself.\<close>

definition sizet_save :: "size_t saver" where
  "sizet_save t = uleb_save (word_of_nat t :: 64 word)"

definition sizet_load :: "size_t loader" where
  "sizet_load s = rbind (uleb_load s) (\<lambda>(t :: 64 word, s). Inr (unat t, s))"

interpretation sizet_codec: codec sizet_save sizet_load "\<lambda>t. t < SIZE_MAX1"
  by (rule codecI [where enc = "\<lambda>t. uleb_bytes (word_of_nat t :: 64 word)"])
     (simp_all add: sizet_save_def uleb_save_def sizet_load_def uleb_load_save unat_of_nat take_bit_nat_eq_self)

lemma size_load_uleb:
  "n < 2 ^ 32 \<Longrightarrow> size_load (istream_of (uleb_bytes (word_of_nat n :: 32 word) @ rest)) = Inr (n, istream_of rest)"
  by (simp add: size_load_def uleb_load_save unat_of_nat take_bit_nat_eq_self)

text \<open>A string of one-byte characters comes back; of a wider string only the first \<open>n\<close> of its \<open>n * sz\<close> bytes do.\<close>

lemma basic_string_load_save:
  assumes "length mem = n * sz" "0 < sz" "n < 2 ^ 32"
  shows "\<exists>bs. basic_string_save sz mem = Inr bs \<and>
    (\<forall>rest. basic_string_load sz (istream_of (bs @ rest)) = Inr (take n mem @ replicate (n * sz - n) 0, istream_of rest))"
proof -
  have "n \<le> n * sz" using assms(2) by simp
  moreover have "BinaryObject_load (replicate n 0) (istream_of (take n mem @ rest)) = Inr (take n mem, istream_of rest)" for rest
    using assms \<open>n \<le> n * sz\<close> by (simp add: BinaryObject_load_def)
  ultimately show ?thesis
    using assms by (simp add: basic_string_save_def basic_string_load_def uleb_save_def BinaryObject_save_def
        OStreamArchiver_writeBytes_def size_load_uleb min_def)
qed

interpretation string_codec: codec string_save string_load "\<lambda>t. length t < 2 ^ 32"
proof
  fix t :: string assume "length t < 2 ^ 32"
  then show "\<exists>bs. string_save t = Inr bs \<and> (\<forall>rest. string_load (istream_of (bs @ rest)) = Inr (t, istream_of rest))"
    using basic_string_load_save [of "map char_byte t" "length t" 1]
    by (auto simp: string_save_def string_load_def comp_def)
qed

lemma fold_assign:
  "length xs = length t \<Longrightarrow> fold (\<lambda>elem (i, t). (Suc i, t[i := elem])) t (length pre, pre @ xs) = (length pre + length t, pre @ t)"
proof (induction t arbitrary: pre xs)
  case (Cons x t)
  then obtain y ys where "xs = y # ys" "length ys = length t" by (cases xs) auto
  then show ?case using Cons.IH [of ys "pre @ [x]"] by simp
qed simp

interpretation vector_bool_codec: codec vector_bool_save vector_bool_load "\<lambda>t. length t < 2 ^ 32"
proof
  fix t :: "bool list" assume "length t < 2 ^ 32"
  then obtain bs where "then_save (size_save t) (save_each bool_save t) = Inr bs"
    "\<forall>c rest. rbind (size_load (istream_of (bs @ rest)))
        (\<lambda>(size, s). load_each bool_load (\<lambda>elem (i, t). (Suc i, t[i := elem])) size (c size) s) =
      Inr (fold (\<lambda>elem (i, t). (Suc i, t[i := elem])) t (c (length t)), istream_of rest)"
    using bool_codec.counted [of t "\<lambda>elem (i, t). (Suc i, t[i := elem])"] by blast
  note saved = this(1) and loaded = this(2)
  have "vector_bool_load (istream_of (bs @ rest)) = Inr (t, istream_of rest)" for rest
  proof -
    have "vector_bool_load (istream_of (bs @ rest)) =
        rbind (rbind (size_load (istream_of (bs @ rest)))
          (\<lambda>(size, s). load_each bool_load (\<lambda>elem (i, t). (Suc i, t[i := elem])) size (0, replicate size False) s))
        (\<lambda>((_, t), s). Inr (t, s))"
      unfolding vector_bool_load_def by (cases "size_load (istream_of (bs @ rest))") (auto split: prod.splits)
    then show ?thesis
      using loaded [rule_format, of rest "\<lambda>size. (0, replicate size False)"]
        fold_assign [of "replicate (length t) False" t "[]"] by simp
  qed
  then show "\<exists>bs. vector_bool_save t = Inr bs \<and>
      (\<forall>rest. vector_bool_load (istream_of (bs @ rest)) = Inr (t, istream_of rest))"
    using saved unfolding vector_bool_save_def by blast
qed

interpretation sizet_set: codec_set sizet_save sizet_load "\<lambda>t. t < SIZE_MAX1" ..

subsection \<open>The stream archivers\<close>

text \<open>Both archivers begin with the version number of the format.\<close>

definition POTHOS_ARCHIVE_VERSION :: "32 word" where
  "POTHOS_ARCHIVE_VERSION = 2"

definition OStreamArchiver_new :: "archive_error + byte list" where
  "OStreamArchiver_new = uleb_save POTHOS_ARCHIVE_VERSION"

definition IStreamArchiver_new :: "32 word loader" where
  "IStreamArchiver_new s = uleb_load s"

subsection \<open>Polymorphic types\<close>

record 'v ArchiveEntry =
  ae_id :: string
  ae_hash :: "64 word"
  ae_save :: "'v saver"
  ae_load :: "'v loader"

type_synonym 'v entry_map = "64 word \<Rightarrow> 'v ArchiveEntry option"

definition hashString64 :: "string \<Rightarrow> 64 word" where
  "hashString64 str = foldl (\<lambda>h ch. (h * 0xf4243) XOR ucast (char_byte ch)) 0 str"

text \<open>\<open>type.hash_code()\<close> is an argument.\<close>

definition ArchiveEntry_new ::
  "64 word \<Rightarrow> string \<Rightarrow> 'v saver \<Rightarrow> 'v loader \<Rightarrow> 'v entry_map \<Rightarrow> 'v entry_map" where
  "ArchiveEntry_new type_hash i save load m =
     (let this = \<lparr>ae_id = i, ae_hash = hashString64 i, ae_save = save, ae_load = load\<rparr>
      in m(type_hash \<mapsto> this, ae_hash this \<mapsto> this))"

definition ArchiveEntry_find_type :: "'v entry_map \<Rightarrow> 64 word \<Rightarrow> archive_error + 'v ArchiveEntry" where
  "ArchiveEntry_find_type m type_hash =
     (case m type_hash of
        Some e \<Rightarrow> Inr e
      | None \<Rightarrow> Inl (ArchiveException ''no entry registered for type''))"

definition ArchiveEntry_find_id :: "'v entry_map \<Rightarrow> string \<Rightarrow> archive_error + 'v ArchiveEntry" where
  "ArchiveEntry_find_id m i =
     (case m (hashString64 i) of
        Some e \<Rightarrow> Inr e
      | None \<Rightarrow> Inl (ArchiveException ''no entry registered for GUID''))"

definition ArchiveEntry_find_hash :: "'v entry_map \<Rightarrow> 64 word \<Rightarrow> archive_error + 'v ArchiveEntry" where
  "ArchiveEntry_find_hash m hash =
     (case m hash of
        Some e \<Rightarrow> Inr e
      | None \<Rightarrow> Inl (ArchiveException ''no entry registered for hash''))"

definition polymorphic_save :: "'v entry_map \<Rightarrow> ('v \<Rightarrow> 64 word) \<Rightarrow> 'v saver" where
  "polymorphic_save m type_hash t =
     rbind (ArchiveEntry_find_type m (type_hash t)) (\<lambda>entry. then_save (uleb_save (ae_hash entry)) (ae_save entry t))"

definition polymorphic_load :: "'v entry_map \<Rightarrow> 'v loader" where
  "polymorphic_load m s =
     rbind (uleb_load s) (\<lambda>(idHash, s). rbind (ArchiveEntry_find_hash m idHash) (\<lambda>entry. ae_load entry s))"

text \<open>What the registry promises to a polymorphic value: the entry of its dynamic type is found both by the hash
  of the type and by the hash of the identifier, and is a codec for it.\<close>

locale type_registry =
  fixes entries :: "'v entry_map" and type_hash :: "'v \<Rightarrow> 64 word" and valid :: "'v \<Rightarrow> bool"
  assumes registered:
    "valid v \<Longrightarrow> \<exists>e. entries (type_hash v) = Some e \<and> entries (ae_hash e) = Some e \<and>
       (\<exists>bs. ae_save e v = Inr bs \<and> (\<forall>rest. ae_load e (istream_of (bs @ rest)) = Inr (v, istream_of rest)))"

sublocale type_registry \<subseteq> polymorphic: codec "polymorphic_save entries type_hash" "polymorphic_load entries" valid
proof
  fix v assume "valid v"
  then obtain e bs where "entries (type_hash v) = Some e" "entries (ae_hash e) = Some e" "ae_save e v = Inr bs"
    "\<forall>rest. ae_load e (istream_of (bs @ rest)) = Inr (v, istream_of rest)"
    using registered by blast
  then show "\<exists>bs. polymorphic_save entries type_hash v = Inr bs \<and>
      (\<forall>rest. polymorphic_load entries (istream_of (bs @ rest)) = Inr (v, istream_of rest))"
    by (simp add: polymorphic_save_def polymorphic_load_def ArchiveEntry_find_type_def ArchiveEntry_find_hash_def
        uleb_save_def uleb_load_save)
qed

text \<open>Registering the types of a list, in order.\<close>

definition register_types ::
  "('t \<Rightarrow> 64 word) \<Rightarrow> ('t \<times> string \<times> 'v saver \<times> 'v loader) list \<Rightarrow> 'v entry_map \<Rightarrow> 'v entry_map" where
  "register_types hash_code ts m = fold (\<lambda>(t, i, save, load). ArchiveEntry_new (hash_code t) i save load) ts m"

lemma register_types_simps [simp]:
  "register_types hash_code [] m = m"
  "register_types hash_code ((t, i, save, load) # ts) m =
     register_types hash_code ts (ArchiveEntry_new (hash_code t) i save load m)"
  by (simp_all add: register_types_def)

lemma register_untouched:
  "\<forall>(t, i, _) \<in> set ts. hash_code t \<noteq> h \<and> hashString64 i \<noteq> h \<Longrightarrow> register_types hash_code ts m h = m h"
  by (induction ts arbitrary: m) (auto simp: ArchiveEntry_new_def Let_def)

definition no_collision :: "('t \<Rightarrow> 64 word) \<Rightarrow> ('t \<times> string) list \<Rightarrow> bool" where
  "no_collision hash_code ts \<longleftrightarrow>
     distinct (map (hash_code \<circ> fst) ts) \<and> distinct (map (hashString64 \<circ> snd) ts) \<and>
     (\<forall>t \<in> fst ` set ts. \<forall>i \<in> snd ` set ts. hash_code t \<noteq> hashString64 i)"

lemma no_collision_Cons:
  "no_collision hash_code (p # ts) \<Longrightarrow>
   no_collision hash_code ts \<and> hash_code (fst p) \<noteq> hashString64 (snd p) \<and>
   (\<forall>q \<in> set ts. hash_code (fst q) \<noteq> hash_code (fst p) \<and> hashString64 (snd q) \<noteq> hash_code (fst p) \<and>
                 hash_code (fst q) \<noteq> hashString64 (snd p) \<and> hashString64 (snd q) \<noteq> hashString64 (snd p))"
  unfolding no_collision_def by (auto simp: image_iff)

lemma register_types_find:
  assumes "no_collision hash_code (map (\<lambda>(t, i, _). (t, i)) ts)" "(t, i, save, load) \<in> set ts"
  shows "\<exists>e. register_types hash_code ts m (hash_code t) = Some e \<and> register_types hash_code ts m (ae_hash e) = Some e \<and>
             ae_save e = save \<and> ae_load e = load"
  using assms
proof (induction ts arbitrary: m)
  case (Cons p ts)
  obtain t' i' save' load' where p: "p = (t', i', save', load')" by (cases p) auto
  have nc: "no_collision hash_code ((t', i') # map (\<lambda>(t, i, _). (t, i)) ts)" using Cons.prems(1) p by simp
  have away: "register_types hash_code ts m h = m h" if "h = hash_code t' \<or> h = hashString64 i'" for h m
    using no_collision_Cons [OF nc] that by (intro register_untouched) (auto simp: image_iff split: prod.splits)
  show ?case
  proof (cases "(t, i, save, load) = p")
    case True
    then show ?thesis using p no_collision_Cons [OF nc] by (simp add: away) (simp add: ArchiveEntry_new_def Let_def away)
  next
    case False
    then have "(t, i, save, load) \<in> set ts" using Cons.prems(2) by simp
    then show ?thesis using Cons.IH no_collision_Cons [OF nc] p by simp
  qed
qed simp

subsection \<open>Properties of the number formats\<close>

lemma uleb_length: "length (uleb_bytes v) \<le> Suc k \<longleftrightarrow> unat v < 2 ^ (7 * Suc k)"
proof (induction v arbitrary: k rule: uleb_bytes.induct)
  case (1 v)
  have quot: "unat (drop_bit 7 v) = unat v div 128" by (simp only: unat_drop_bit_eq) (simp add: drop_bit_eq_div)
  have zero: "(drop_bit 7 v = 0) = (unat v < 128)" using quot unat_eq_0 [of "drop_bit 7 v"] by auto
  have small: "(128 :: nat) \<le> 2 ^ (7 * Suc k)" by (simp add: power_add)
  have nonempty: "uleb_bytes w \<noteq> []" for w :: "'a word" by (subst uleb_bytes_rec) simp
  show ?case
  proof (cases "unat v < 128")
    case True
    then have "length (uleb_bytes v) = 1" by (subst uleb_bytes_rec) (simp only: zero, simp)
    then show ?thesis using True small by simp
  next
    case False
    then have more: "uleb_byte v AND 0x80 \<noteq> 0" unfolding uleb_byte_more zero .
    have len: "length (uleb_bytes v) = Suc (length (uleb_bytes (drop_bit 7 v)))"
      using False by (subst uleb_bytes_rec) (simp only: zero, simp)
    show ?thesis
    proof (cases k)
      case 0
      then show ?thesis using False len nonempty by simp
    next
      case (Suc j)
      have "(length (uleb_bytes v) \<le> Suc k) = (unat v div 128 < 2 ^ (7 * Suc j))"
        unfolding len Suc using 1 [OF refl refl more, of j] quot by simp
      also have "\<dots> = (unat v < 128 * 2 ^ (7 * Suc j))" by (simp add: div_less_iff_less_mult mult.commute)
      finally show ?thesis using Suc by (simp add: power_add)
    qed
  qed
qed

lemma uleb_length_bound: "7 * length (uleb_bytes (v :: 'w::len word)) < LENGTH('w) + 7"
proof -
  define k where "k = (LENGTH('w) - 1) div 7"
  have "l \<le> 7 * Suc ((l - 1) div 7)" "0 < l \<Longrightarrow> 7 * Suc ((l - 1) div 7) < l + 7" for l :: nat by presburger+
  then have k: "LENGTH('w) \<le> 7 * Suc k" "7 * Suc k < LENGTH('w) + 7" unfolding k_def by simp_all
  have "(2 :: nat) ^ LENGTH('w) \<le> 2 ^ (7 * Suc k)" by (rule power_increasing [OF k(1)]) simp
  then have "length (uleb_bytes v) \<le> Suc k"
    using unsigned_less [of v, where 'a = nat] unfolding uleb_length by linarith
  then show ?thesis using k(2) by (meson le_less_trans mult_le_mono2)
qed

text \<open>
  C9. Unsigned integers of any width, 32 and 64 bits among them, come back as they were saved, whatever follows
  them in the stream; the encoding has at most \<open>\<lceil>w/7\<rceil>\<close> bytes and is the shortest: it has at most \<open>k\<close> bytes
  exactly when the value is below \<open>2^(7k)\<close>.
\<close>

theorem unsigned_round_trip_shortest:
  "\<exists>bs. uleb_save (v :: 'w::len word) = Inr bs \<and>
     uleb_load (istream_of (bs @ rest)) = Inr (v, istream_of rest) \<and>
     length bs \<le> (LENGTH('w) + 6) div 7 \<and>
     (\<forall>k. length bs \<le> Suc k \<longleftrightarrow> unat v < 2 ^ (7 * Suc k))"
proof -
  have "7 * n < l + 7 \<Longrightarrow> n \<le> (l + 6) div 7" for n l :: nat by presburger
  then show ?thesis
    using uleb_length [of v] uleb_length_bound [of v] by (simp add: uleb_save_def uleb_load_save)
qed

lemma sleb_length_eq:
  "31 \<le> 7 * length (sleb_bytes v) \<and> 7 * length (sleb_bytes v) < 64 \<longleftrightarrow>
   \<not> (- (2 ^ 27) \<le> sint v \<and> sint v < 2 ^ 27) \<and> - (2 ^ 62) \<le> sint v \<and> sint v < 2 ^ 62"
  using sleb_length [of v 3] sleb_length [of v 8] by simp linarith

text \<open>
  C8. A signed 32-bit integer always comes back. A signed 64-bit integer comes back except for the negative values
  from \<open>-2^62\<close> up to and not including \<open>-2^27\<close>, whose encoding has five to nine bytes: there the sign
  extension of the load shifts the \<open>int\<close> literal 1 by 35 or more, which has no defined result.
\<close>

theorem signed_round_trip_exact:
  "(\<exists>bs. sleb_save (i :: 32 word) = Inr bs \<and> sleb_load (istream_of (bs @ rest)) = Inr (i, istream_of rest)) \<and>
   (\<exists>bs. sleb_save (l :: 64 word) = Inr bs \<and>
      sleb_load (istream_of (bs @ rest)) =
        (if - (2 ^ 62) \<le> sint l \<and> sint l < - (2 ^ 27) then Inl ShiftTooFar else Inr (l, istream_of rest)))"
proof -
  have "\<not> (31 \<le> 7 * n \<and> 7 * n < 32)" for n :: nat by presburger
  then have "sleb_load (istream_of (sleb_bytes i @ rest)) = Inr (i, istream_of rest)"
    unfolding sleb_load_save by simp
  moreover have "(sint l < 0 \<and> 31 \<le> 7 * length (sleb_bytes l) \<and> 7 * length (sleb_bytes l) < 64) =
      (- (2 ^ 62) \<le> sint l \<and> sint l < - (2 ^ 27))"
    unfolding sleb_length_eq by auto
  ultimately show ?thesis
    using sleb_load_save [of l rest] sleb_save_def [of i] sleb_save_def [of l] by simp
qed

text \<open>A stream that ends inside a number.\<close>

lemma char_load_end: "char_load (Some b) \<lparr>is_bytes = [], is_ok = ok\<rparr> = Inr (b, \<lparr>is_bytes = [], is_ok = False\<rparr>)"
  by (simp add: char_load_def BinaryObject_load_def IStreamArchiver_readBytes_def istream_read_def)

lemma leb_loop_end:
  "b AND 0x80 \<noteq> 0 \<Longrightarrow> leb_loop (Some b) t shift \<lparr>is_bytes = [], is_ok = ok\<rparr> = (Inl ShiftTooFar :: _ + ('w::len word \<times> _) \<times> _)"
proof (induction "LENGTH('w) - shift" arbitrary: t shift ok rule: less_induct)
  case less
  then show ?case by (subst leb_loop.simps) (simp add: char_load_end Let_def)
qed

text \<open>
  When the stream ends after bytes that all carry the continuation bit, the load does not notice: the variable
  keeps the last byte, the loop goes on with it and leaves the width of the type.
\<close>

theorem truncated_number_runs_past_the_width:
  assumes "bs \<noteq> []" "\<forall>b \<in> set bs. b AND 0x80 \<noteq> 0"
  shows "(uleb_load (istream_of bs) :: _ + ('w::len word \<times> istream)) = Inl ShiftTooFar \<and>
         (sleb_load (istream_of bs) :: _ + ('w word \<times> istream)) = Inl ShiftTooFar"
proof -
  have "leb_loop old t shift (istream_of (b # bs)) = (Inl ShiftTooFar :: _ + ('w::len word \<times> _) \<times> _)"
    if "\<forall>b \<in> set (b # bs). b AND 0x80 \<noteq> 0" for b bs old t shift
    using that
  proof (induction bs arbitrary: b old t shift)
    case Nil
    then show ?case by (subst leb_loop.simps) (simp add: leb_loop_end Let_def)
  next
    case (Cons b' bs)
    then show ?case by (subst leb_loop.simps) (simp add: Let_def)
  qed
  then show ?thesis using assms by (cases bs) (simp_all add: uleb_load_def sleb_load_def)
qed

theorem truncated_number_runs_past_the_width_witness:
  "(uleb_load (istream_of [0x80, 0xff]) :: _ + (32 word \<times> istream)) = Inl ShiftTooFar \<and>
   (sleb_load (istream_of [0x80, 0xff]) :: _ + (32 word \<times> istream)) = Inl ShiftTooFar"
  by (rule truncated_number_runs_past_the_width) simp_all

text \<open>
  Whatever bytes a map is loaded from, the result is a map: its keys are in strictly increasing order, so a
  key that the stream repeats is there once.
\<close>

theorem loaded_map_is_sorted:
  "map_load load1 load2 s = Inr (m, s') \<Longrightarrow> sorted_wrt (<) (map fst m)"
  unfolding map_load_def
  by (auto simp: rbind_Inr_conv
      intro: load_each_inv [where P = "\<lambda>m. sorted_wrt (<) (map fst m)"] map_emplace_sorted)

theorem loaded_map_is_sorted_witness:
  "sorted_wrt (<) (map fst [(2 :: size_t, True), (7, False)])"
proof -
  have "map_load sizet_load bool_load (istream_of [3, 7, 0, 2, 1, 7, 1]) =
      Inr ([(2, True), (7, False)], istream_of [])"
    by code_simp
  then show ?thesis by (rule loaded_map_is_sorted)
qed

end
