(* ===== verification/ObjectSerialize.thy ===== *)
theory ObjectSerialize
  imports Archive Topology "HOL-Library.List_Lexorder" "HOL-Library.Char_ord"
begin

section \<open>Serialization of the framework's types and of objects\<close>

text \<open>
  The \<open>serialize\<close> functions of the data that travels between hosts: \<open>DType\<close>, \<open>BufferChunk\<close>, \<open>PortInfo\<close>,
  \<open>ThreadPoolArgs\<close>, \<open>HostInfo\<close>, \<open>NumaInfo\<close>, \<open>Label\<close> and \<open>Packet\<close>, and of \<open>Object\<close>
  itself (\<open>Object/Serialize.hpp\<close>, \<open>lib/Object/Serialize.cpp\<close>) with the types that
  \<open>lib/Object/Builtin/Serialize.cpp\<close> registers.

  \<^item> A \<open>BufferChunk\<close> is what it refers to: nothing when it is null, else its bytes and its data type.
  \<^item> An \<open>Object\<close> is null or a container with a value of a registered type. \<open>ObjectSet\<close> and
    \<open>ObjectMap\<close>, whose key order is \<open>Object::compareTo\<close>, are not among the values.
  \<^item> Saving and loading an object recurses through the registry of types; \<open>Object_codec\<close> bounds
    the recursion by a depth, and the error \<open>RecursionLimit\<close> is a value that is nested more deeply. The
    theorems ask for the nesting depth of the value, at which the limit is never met.
\<close>

subsection \<open>Framework types\<close>

definition uchar_save :: "nat saver" where
  "uchar_save t = char_save (word_of_nat t)"

definition uchar_load :: "nat loader" where
  "uchar_load s = rbind (char_load None s) (\<lambda>(t, s). Inr (unat t, s))"

definition DType_save :: "DType saver" where
  "DType_save t =
     then_save (uchar_save (dt_elemType t)) (then_save (uchar_save (dt_elemSize t)) (sizet_save (dt_dimension t)))"

definition DType_load :: "DType loader" where
  "DType_load =
     bindl uchar_load (\<lambda>elemType. bindl uchar_load (\<lambda>elemSize. bindl sizet_load (\<lambda>dimension.
       retl \<lparr>dt_dimension = dimension, dt_elemType = elemType, dt_elemSize = elemSize\<rparr>)))"

type_synonym chunk_data = "(byte list \<times> DType) option"

definition BufferChunk_save :: "chunk_data saver" where
  "BufferChunk_save t =
     (case t of
        None \<Rightarrow> bool_save True
      | Some (buff, dtype) \<Rightarrow>
          then_save (bool_save False)
            (then_save (uleb_save (word_of_nat (length buff) :: 32 word))
              (then_save (BinaryObject_save buff) (DType_save dtype))))"

definition BufferChunk_load :: "chunk_data loader" where
  "BufferChunk_load =
     bindl bool_load (\<lambda>is_null.
       if is_null then retl None
       else bindl uleb_load (\<lambda>length :: 32 word. bindl (BinaryObject_load_raw (unat length)) (\<lambda>buff.
         bindl DType_load (\<lambda>dtype. retl (Some (buff, dtype))))))"

definition PortInfo_save :: "PortInfo saver" where
  "PortInfo_save t =
     then_save (string_save (pi_name t)) (then_save (string_save (pi_alias t))
       (then_save (bool_save (pi_isSigSlot t)) (DType_save (pi_dtype t))))"

definition PortInfo_load :: "PortInfo loader" where
  "PortInfo_load =
     bindl string_load (\<lambda>name. bindl string_load (\<lambda>alias. bindl bool_load (\<lambda>isSigSlot. bindl DType_load (\<lambda>dtype.
       retl \<lparr>pi_name = name, pi_alias = alias, pi_isSigSlot = isSigSlot, pi_dtype = dtype\<rparr>))))"

record ThreadPoolArgs =
  ta_numThreads :: size_t
  ta_priority :: double_bits
  ta_affinityMode :: string
  ta_affinity :: "size_t list"
  ta_yieldMode :: string

definition ThreadPoolArgs_save :: "ThreadPoolArgs saver" where
  "ThreadPoolArgs_save t =
     then_save (sizet_save (ta_numThreads t)) (then_save (double_save (ta_priority t))
       (then_save (string_save (ta_affinityMode t)) (then_save (vector_save sizet_save (ta_affinity t))
         (string_save (ta_yieldMode t)))))"

definition ThreadPoolArgs_load :: "ThreadPoolArgs loader" where
  "ThreadPoolArgs_load =
     bindl sizet_load (\<lambda>numThreads. bindl double_load (\<lambda>priority. bindl string_load (\<lambda>affinityMode.
       bindl (vector_load sizet_load) (\<lambda>affinity. bindl string_load (\<lambda>yieldMode.
         retl \<lparr>ta_numThreads = numThreads, ta_priority = priority, ta_affinityMode = affinityMode,
               ta_affinity = affinity, ta_yieldMode = yieldMode\<rparr>)))))"

record HostInfo =
  hi_osName :: string
  hi_osVersion :: string
  hi_osArchitecture :: string
  hi_nodeName :: string
  hi_nodeId :: string
  hi_processorCount :: size_t
  hi_pid :: string

definition HostInfo_save :: "HostInfo saver" where
  "HostInfo_save t =
     then_save (string_save (hi_osName t)) (then_save (string_save (hi_osVersion t))
       (then_save (string_save (hi_osArchitecture t)) (then_save (string_save (hi_nodeName t))
         (then_save (string_save (hi_nodeId t)) (then_save (sizet_save (hi_processorCount t))
           (string_save (hi_pid t)))))))"

definition HostInfo_load :: "HostInfo loader" where
  "HostInfo_load =
     bindl string_load (\<lambda>osName. bindl string_load (\<lambda>osVersion. bindl string_load (\<lambda>osArchitecture.
       bindl string_load (\<lambda>nodeName. bindl string_load (\<lambda>nodeId. bindl sizet_load (\<lambda>processorCount.
         bindl string_load (\<lambda>pid.
           retl \<lparr>hi_osName = osName, hi_osVersion = osVersion, hi_osArchitecture = osArchitecture,
                 hi_nodeName = nodeName, hi_nodeId = nodeId, hi_processorCount = processorCount,
                 hi_pid = pid\<rparr>)))))))"

record NumaInfo =
  ni_nodeNumber :: size_t
  ni_totalMemory :: size_t
  ni_freeMemory :: size_t
  ni_cpus :: "size_t list"

definition NumaInfo_save :: "NumaInfo saver" where
  "NumaInfo_save t =
     then_save (sizet_save (ni_nodeNumber t)) (then_save (sizet_save (ni_totalMemory t))
       (then_save (sizet_save (ni_freeMemory t)) (vector_save sizet_save (ni_cpus t))))"

definition NumaInfo_load :: "NumaInfo loader" where
  "NumaInfo_load =
     bindl sizet_load (\<lambda>nodeNumber. bindl sizet_load (\<lambda>totalMemory. bindl sizet_load (\<lambda>freeMemory.
       bindl (vector_load sizet_load) (\<lambda>cpus.
         retl \<lparr>ni_nodeNumber = nodeNumber, ni_totalMemory = totalMemory, ni_freeMemory = freeMemory,
               ni_cpus = cpus\<rparr>))))"

text \<open>Labels and packets hold objects; \<open>save\<close> and \<open>load\<close> are those of \<open>Object\<close>.\<close>

definition Label_save :: "'o saver \<Rightarrow> 'o Label saver" where
  "Label_save save t =
     then_save (string_save (lb_id t)) (then_save (save (lb_data t))
       (then_save (sizet_save (lb_index t)) (sizet_save (lb_width t))))"

definition Label_load :: "'o loader \<Rightarrow> 'o Label loader" where
  "Label_load load =
     bindl string_load (\<lambda>i. bindl load (\<lambda>data. bindl sizet_load (\<lambda>index. bindl sizet_load (\<lambda>width.
       retl \<lparr>lb_id = i, lb_data = data, lb_index = index, lb_width = width\<rparr>))))"

record 'o Packet =
  pk_payload :: chunk_data
  pk_metadata :: "(string \<times> 'o) list"
  pk_labels :: "'o Label list"

definition Packet_save :: "'o saver \<Rightarrow> 'o Packet saver" where
  "Packet_save save t =
     then_save (BufferChunk_save (pk_payload t))
       (then_save (map_save string_save save (pk_metadata t)) (vector_save (Label_save save) (pk_labels t)))"

definition Packet_load :: "'o loader \<Rightarrow> 'o Packet loader" where
  "Packet_load load =
     bindl BufferChunk_load (\<lambda>payload. bindl (map_load string_load load) (\<lambda>metadata.
       bindl (vector_load (Label_load load)) (\<lambda>labels.
         retl \<lparr>pk_payload = payload, pk_metadata = metadata, pk_labels = labels\<rparr>)))"

text \<open>The values that the formats can represent.\<close>

abbreviation str_ok :: "string \<Rightarrow> bool" where
  "str_ok t \<equiv> length t < 2 ^ 32"

definition DType_ok :: "DType \<Rightarrow> bool" where
  "DType_ok t \<longleftrightarrow> dt_elemType t < 256 \<and> dt_elemSize t < 256 \<and> dt_dimension t < SIZE_MAX1"

definition chunk_ok :: "chunk_data \<Rightarrow> bool" where
  "chunk_ok t = (case t of None \<Rightarrow> True | Some (buff, dtype) \<Rightarrow> length buff < 2 ^ 32 \<and> DType_ok dtype)"

definition Label_ok :: "('o \<Rightarrow> bool) \<Rightarrow> 'o Label \<Rightarrow> bool" where
  "Label_ok ok t \<longleftrightarrow> str_ok (lb_id t) \<and> ok (lb_data t) \<and> lb_index t < SIZE_MAX1 \<and> lb_width t < SIZE_MAX1"

definition Packet_ok :: "('o \<Rightarrow> bool) \<Rightarrow> 'o Packet \<Rightarrow> bool" where
  "Packet_ok ok t \<longleftrightarrow> chunk_ok (pk_payload t) \<and>
     length (pk_metadata t) < 2 ^ 32 \<and> sorted_wrt (<) (map fst (pk_metadata t)) \<and>
     (\<forall>(k, v) \<in> set (pk_metadata t). str_ok k \<and> ok v) \<and>
     length (pk_labels t) < 2 ^ 32 \<and> (\<forall>l \<in> set (pk_labels t). Label_ok ok l)"

text \<open>The \<open>encoded\<close> laws of the types, for the proofs that go through the members of a class.\<close>

named_theorems encodings \<open>what the save function of a type writes is read back by its load function\<close>

interpretation uchar_codec: codec uchar_save uchar_load "\<lambda>t. t < 256"
  by (rule codecI [where enc = "\<lambda>t. [word_of_nat t]"])
     (simp_all add: uchar_save_def uchar_load_def char_save_def BinaryObject_save_def OStreamArchiver_writeBytes_def
        unat_of_nat take_bit_nat_eq_self)

interpretation sizet_vector: codec "vector_save sizet_save" "vector_load sizet_load"
    "\<lambda>t. length t < 2 ^ 32 \<and> (\<forall>x \<in> set t. x < SIZE_MAX1)"
  by (rule sizet_codec.vector_codec)

lemmas number_encodings [encodings] =
  uchar_codec.encoded bool_codec.encoded unsigned_codec.encoded double_codec.encoded sizet_codec.encoded
  string_codec.encoded sizet_vector.encoded

interpretation dtype_codec: codec DType_save DType_load DType_ok
  by (rule codec_encodes, unfold DType_save_def DType_load_def DType_ok_def,
      (rule encodes_then encodes_last, rule encodings, simp)+,
      rule arg_cong [where f = retl], rule DType.equality) simp_all

lemma binary_encoded: "n = length buff \<Longrightarrow> encodes (BinaryObject_save buff) (BinaryObject_load_raw n) buff"
  by (simp add: encodes_def BinaryObject_save_def OStreamArchiver_writeBytes_def BinaryObject_load_raw_def)

lemmas dtype_encodings [encodings] = dtype_codec.encoded binary_encoded

interpretation chunk_codec: codec BufferChunk_save BufferChunk_load chunk_ok
proof (rule codec_encodes)
  fix t assume "chunk_ok t"
  show "encodes (BufferChunk_save t) BufferChunk_load t"
  proof (cases t)
    case None
    have "encodes (bool_save True) BufferChunk_load None"
      unfolding BufferChunk_load_def by (rule encodes_last, rule encodings) simp_all
    then show ?thesis using None by (simp add: BufferChunk_save_def)
  next
    case (Some p)
    obtain buff dtype where p: "p = (buff, dtype)" by (cases p) auto
    have ok: "length buff < 4294967296" "DType_ok dtype" using \<open>chunk_ok t\<close> Some p by (simp_all add: chunk_ok_def)
    then have len: "unat (word_of_nat (length buff) :: 32 word) = length buff"
      by (simp add: unat_of_nat take_bit_nat_eq_self)
    have "encodes (then_save (bool_save False) (then_save (uleb_save (word_of_nat (length buff) :: 32 word))
        (then_save (BinaryObject_save buff) (DType_save dtype)))) BufferChunk_load (Some (buff, dtype))"
      unfolding BufferChunk_load_def
      by (rule encodes_then, rule encodings, simp, simp only: if_False)
         ((rule encodes_then encodes_last, rule encodings, simp add: len ok)+, simp)
    then show ?thesis using Some p by (simp add: BufferChunk_save_def)
  qed
qed

interpretation port_info_codec: codec PortInfo_save PortInfo_load
    "\<lambda>t. str_ok (pi_name t) \<and> str_ok (pi_alias t) \<and> DType_ok (pi_dtype t)"
  by (rule codec_encodes, unfold PortInfo_save_def PortInfo_load_def,
      (rule encodes_then encodes_last, rule encodings, simp)+,
      rule arg_cong [where f = retl], rule PortInfo.equality) simp_all

interpretation thread_pool_args_codec: codec ThreadPoolArgs_save ThreadPoolArgs_load
    "\<lambda>t. ta_numThreads t < SIZE_MAX1 \<and> str_ok (ta_affinityMode t) \<and> str_ok (ta_yieldMode t) \<and>
         length (ta_affinity t) < 2 ^ 32 \<and> (\<forall>x \<in> set (ta_affinity t). x < SIZE_MAX1)"
  by (rule codec_encodes, unfold ThreadPoolArgs_save_def ThreadPoolArgs_load_def,
      (rule encodes_then encodes_last, rule encodings, simp)+,
      rule arg_cong [where f = retl], rule ThreadPoolArgs.equality) simp_all

interpretation host_info_codec: codec HostInfo_save HostInfo_load
    "\<lambda>t. str_ok (hi_osName t) \<and> str_ok (hi_osVersion t) \<and> str_ok (hi_osArchitecture t) \<and> str_ok (hi_nodeName t) \<and>
         str_ok (hi_nodeId t) \<and> hi_processorCount t < SIZE_MAX1 \<and> str_ok (hi_pid t)"
  by (rule codec_encodes, unfold HostInfo_save_def HostInfo_load_def,
      (rule encodes_then encodes_last, rule encodings, simp)+,
      rule arg_cong [where f = retl], rule HostInfo.equality) simp_all

interpretation numa_info_codec: codec NumaInfo_save NumaInfo_load
    "\<lambda>t. ni_nodeNumber t < SIZE_MAX1 \<and> ni_totalMemory t < SIZE_MAX1 \<and> ni_freeMemory t < SIZE_MAX1 \<and>
         length (ni_cpus t) < 2 ^ 32 \<and> (\<forall>x \<in> set (ni_cpus t). x < SIZE_MAX1)"
  by (rule codec_encodes, unfold NumaInfo_save_def NumaInfo_load_def,
      (rule encodes_then encodes_last, rule encodings, simp)+,
      rule arg_cong [where f = retl], rule NumaInfo.equality) simp_all

text \<open>Labels and packets over any codec of the objects they hold.\<close>

locale object_codec = codec save load valid
  for save :: "'o saver" and load valid
begin

lemma label_codec: "codec (Label_save save) (Label_load load) (Label_ok valid)"
  by (rule codec_encodes, unfold Label_save_def Label_load_def Label_ok_def,
      (rule encodes_then encodes_last, rule encodings encoded, simp)+,
      rule arg_cong [where f = retl], rule Label.equality) simp_all

lemma metadata_codec:
  "codec (map_save string_save save) (map_load string_load load)
     (\<lambda>m. length m < 2 ^ 32 \<and> sorted_wrt (<) (map fst m) \<and> (\<forall>(k, v) \<in> set m. str_ok k \<and> valid v))"
proof -
  have "codec_map string_save string_load (\<lambda>t. str_ok t) save load valid" ..
  then show ?thesis by (rule codec_map.map_codec)
qed

lemma packet_codec: "codec (Packet_save save) (Packet_load load) (Packet_ok valid)"
  by (rule codec_encodes, unfold Packet_save_def Packet_load_def Packet_ok_def,
      (rule encodes_then encodes_last, rule chunk_codec.encoded codec.encoded [OF metadata_codec]
         codec.encoded [OF codec.vector_codec [OF label_codec]], simp)+,
      rule arg_cong [where f = retl], rule Packet.equality) simp_all

end

subsection \<open>Objects\<close>

text \<open>The types of \<open>lib/Object/Builtin/Serialize.cpp\<close> that have a container of their own, and their values.\<close>

datatype stype = TBool | TChar | TSChar | TUChar | TShort | TUShort | TInt | TUInt | TLong | TULong | TLLong | TULLong
  | TFloat | TDouble | TCFloat | TCDouble | TString

datatype scalar =
    SBool bool | SChar byte | SSChar byte | SUChar byte
  | SShort "16 word" | SUShort "16 word" | SInt "32 word" | SUInt "32 word"
  | SLong "64 word" | SULong "64 word" | SLLong "64 word" | SULLong "64 word"
  | SFloat float_bits | SDouble double_bits
  | SCFloat "float_bits \<times> float_bits" | SCDouble "double_bits \<times> double_bits"
  | SString string

datatype ctype = Scalar stype | Vector stype | TObject | TObjectVector | TObjectKwargs

datatype ObjectContainer =
    CScalar scalar
  | CVector stype "scalar list"
  | CObject Object
  | CObjectVector "Object list"
  | CObjectKwargs "(string \<times> Object) list"
and Object = ObjectNull | ObjectOf ObjectContainer

fun stype_of :: "scalar \<Rightarrow> stype" where
  "stype_of (SBool _) = TBool" | "stype_of (SChar _) = TChar" | "stype_of (SSChar _) = TSChar"
| "stype_of (SUChar _) = TUChar" | "stype_of (SShort _) = TShort" | "stype_of (SUShort _) = TUShort"
| "stype_of (SInt _) = TInt" | "stype_of (SUInt _) = TUInt" | "stype_of (SLong _) = TLong"
| "stype_of (SULong _) = TULong" | "stype_of (SLLong _) = TLLong" | "stype_of (SULLong _) = TULLong"
| "stype_of (SFloat _) = TFloat" | "stype_of (SDouble _) = TDouble" | "stype_of (SCFloat _) = TCFloat"
| "stype_of (SCDouble _) = TCDouble" | "stype_of (SString _) = TString"

fun ctype_of :: "ObjectContainer \<Rightarrow> ctype" where
  "ctype_of (CScalar x) = Scalar (stype_of x)"
| "ctype_of (CVector t _) = Vector t"
| "ctype_of (CObject _) = TObject"
| "ctype_of (CObjectVector _) = TObjectVector"
| "ctype_of (CObjectKwargs _) = TObjectKwargs"

text \<open>The identifier \<open>"Pothos::Object<" #ValueType ">"\<close>.\<close>

fun stype_name :: "stype \<Rightarrow> string" where
  "stype_name TBool = ''bool''" | "stype_name TChar = ''char''" | "stype_name TSChar = ''signed char''"
| "stype_name TUChar = ''unsigned char''" | "stype_name TShort = ''signed short''"
| "stype_name TUShort = ''unsigned short''" | "stype_name TInt = ''signed int''"
| "stype_name TUInt = ''unsigned int''" | "stype_name TLong = ''signed long''"
| "stype_name TULong = ''unsigned long''" | "stype_name TLLong = ''signed long long''"
| "stype_name TULLong = ''unsigned long long''" | "stype_name TFloat = ''float''"
| "stype_name TDouble = ''double''" | "stype_name TCFloat = ''std::complex<float>''"
| "stype_name TCDouble = ''std::complex<double>''" | "stype_name TString = ''std::string''"

fun ctype_name :: "ctype \<Rightarrow> string" where
  "ctype_name (Scalar t) = stype_name t"
| "ctype_name (Vector t) = ''std::vector<'' @ stype_name t @ ''>''"
| "ctype_name TObject = ''Pothos::Object''"
| "ctype_name TObjectVector = ''Pothos::ObjectVector''"
| "ctype_name TObjectKwargs = ''Pothos::ObjectKwargs''"

definition ctype_guid :: "ctype \<Rightarrow> string" where
  "ctype_guid t = ''Pothos::Object<'' @ ctype_name t @ ''>''"

definition scalar_types :: "stype list" where
  "scalar_types = [TBool, TChar, TSChar, TUChar, TShort, TUShort, TInt, TUInt, TLong, TULong, TLLong, TULLong,
     TFloat, TDouble, TCFloat, TCDouble, TString]"

definition builtin_types :: "ctype list" where
  "builtin_types = concat (map (\<lambda>t. [Scalar t, Vector t]) scalar_types) @ [TObject, TObjectVector, TObjectKwargs]"

text \<open>The \<open>save\<close> of the type of the value, and the \<open>load\<close> of a type.\<close>

fun scalar_save :: "scalar saver" where
  "scalar_save (SBool x) = bool_save x"
| "scalar_save (SChar x) = char_save x"
| "scalar_save (SSChar x) = char_save x"
| "scalar_save (SUChar x) = char_save x"
| "scalar_save (SShort x) = short_save x"
| "scalar_save (SUShort x) = short_save x"
| "scalar_save (SInt x) = sleb_save x"
| "scalar_save (SUInt x) = uleb_save x"
| "scalar_save (SLong x) = sleb_save x"
| "scalar_save (SULong x) = uleb_save x"
| "scalar_save (SLLong x) = sleb_save x"
| "scalar_save (SULLong x) = uleb_save x"
| "scalar_save (SFloat x) = float_save x"
| "scalar_save (SDouble x) = double_save x"
| "scalar_save (SCFloat x) = complex_save float_save x"
| "scalar_save (SCDouble x) = complex_save double_save x"
| "scalar_save (SString x) = string_save x"

definition load_as :: "('a \<Rightarrow> 'b) \<Rightarrow> 'a loader \<Rightarrow> 'b loader" where
  "load_as f load = bindl load (\<lambda>x. retl (f x))"

fun scalar_load :: "stype \<Rightarrow> scalar loader" where
  "scalar_load TBool = load_as SBool bool_load"
| "scalar_load TChar = load_as SChar (char_load None)"
| "scalar_load TSChar = load_as SSChar (char_load None)"
| "scalar_load TUChar = load_as SUChar (char_load None)"
| "scalar_load TShort = load_as SShort short_load"
| "scalar_load TUShort = load_as SUShort short_load"
| "scalar_load TInt = load_as SInt sleb_load"
| "scalar_load TUInt = load_as SUInt uleb_load"
| "scalar_load TLong = load_as SLong sleb_load"
| "scalar_load TULong = load_as SULong uleb_load"
| "scalar_load TLLong = load_as SLLong sleb_load"
| "scalar_load TULLong = load_as SULLong uleb_load"
| "scalar_load TFloat = load_as SFloat float_load"
| "scalar_load TDouble = load_as SDouble double_load"
| "scalar_load TCFloat = load_as SCFloat (complex_load float_load)"
| "scalar_load TCDouble = load_as SCDouble (complex_load double_load)"
| "scalar_load TString = load_as SString string_load"

text \<open>\<open>std::vector<bool>\<close> has its own functions.\<close>

definition values_save :: "stype \<Rightarrow> scalar list saver" where
  "values_save t xs =
     (if t = TBool then vector_bool_save (map (\<lambda>x. x = SBool True) xs) else vector_save scalar_save xs)"

definition values_load :: "stype \<Rightarrow> scalar list loader" where
  "values_load t =
     (if t = TBool then load_as (map SBool) vector_bool_load else vector_load (scalar_load t))"

definition container_save :: "Object saver \<Rightarrow> ObjectContainer saver" where
  "container_save save c =
     (case c of
        CScalar x \<Rightarrow> scalar_save x
      | CVector t xs \<Rightarrow> values_save t xs
      | CObject x \<Rightarrow> save x
      | CObjectVector xs \<Rightarrow> vector_save save xs
      | CObjectKwargs m \<Rightarrow> map_save string_save save m)"

fun container_load :: "Object loader \<Rightarrow> ctype \<Rightarrow> ObjectContainer loader" where
  "container_load load (Scalar t) = load_as CScalar (scalar_load t)"
| "container_load load (Vector t) = load_as (CVector t) (values_load t)"
| "container_load load TObject = load_as CObject load"
| "container_load load TObjectVector = load_as CObjectVector (vector_load load)"
| "container_load load TObjectKwargs = load_as CObjectKwargs (map_load string_load load)"

definition object_registry :: "(ctype \<Rightarrow> 64 word) \<Rightarrow> Object saver \<Rightarrow> Object loader \<Rightarrow> ObjectContainer entry_map" where
  "object_registry hash_code save load =
     register_types hash_code
       (map (\<lambda>t. (t, ctype_guid t, container_save save, container_load load t)) builtin_types) (\<lambda>_. None)"

definition object_save :: "ObjectContainer entry_map \<Rightarrow> (ctype \<Rightarrow> 64 word) \<Rightarrow> Object saver" where
  "object_save m hash_code t =
     (case t of
        ObjectNull \<Rightarrow> bool_save True
      | ObjectOf c \<Rightarrow> then_save (bool_save False) (polymorphic_save m (hash_code \<circ> ctype_of) c))"

definition object_load :: "ObjectContainer entry_map \<Rightarrow> Object loader" where
  "object_load m =
     bindl bool_load (\<lambda>is_null. if is_null then retl ObjectNull else load_as ObjectOf (polymorphic_load m))"

primrec Object_codec :: "(ctype \<Rightarrow> 64 word) \<Rightarrow> nat \<Rightarrow> Object saver \<times> Object loader" where
  "Object_codec hash_code 0 = (\<lambda>_. Inl RecursionLimit, \<lambda>_. Inl RecursionLimit)"
| "Object_codec hash_code (Suc n) =
     (let m = object_registry hash_code (fst (Object_codec hash_code n)) (snd (Object_codec hash_code n))
      in (object_save m hash_code, object_load m))"

datatype object_error = ObjectSerializeError archive_error | Undefined archive_error

definition throw_serialize :: "archive_error \<Rightarrow> object_error" where
  "throw_serialize e = (case e of ArchiveException _ \<Rightarrow> ObjectSerializeError e | _ \<Rightarrow> Undefined e)"

definition Object_serialize :: "(ctype \<Rightarrow> 64 word) \<Rightarrow> nat \<Rightarrow> Object \<Rightarrow> object_error + byte list" where
  "Object_serialize hash_code n t =
     map_sum throw_serialize id (then_save OStreamArchiver_new (fst (Object_codec hash_code n) t))"

definition Object_deserialize :: "(ctype \<Rightarrow> 64 word) \<Rightarrow> nat \<Rightarrow> istream \<Rightarrow> object_error + (Object \<times> istream)" where
  "Object_deserialize hash_code n s =
     map_sum throw_serialize id (bindl IStreamArchiver_new (\<lambda>ver. snd (Object_codec hash_code n)) s)"

text \<open>The hashes of the identifiers: their last bytes are already different.\<close>

lemma ucast_mult_8: "ucast (x * y :: 64 word) = (ucast x * ucast y :: byte)"
proof -
  have low: "word_of_int (take_bit 64 k) = (word_of_int k :: byte)" for k
    by (rule bit_word_eqI) (auto simp: bit_simps)
  have "ucast (x * y) = (word_of_int (take_bit 64 (uint x * uint y)) :: byte)"
    by (simp only: ucast_eq uint_word_arith_bintrs) simp
  also have "\<dots> = word_of_int (uint x) * word_of_int (uint y)" by (simp only: low wi_hom_mult)
  finally show ?thesis by (simp only: ucast_eq)
qed

lemma hash_low: "ucast (hashString64 s) = foldl (\<lambda>h ch. h * 0x43 XOR char_byte ch) (0 :: byte) s"
proof (induction s rule: rev_induct)
  case (snoc c s)
  have low: "(0xf4243 :: byte) = 0x43" by simp
  have "ucast (ucast b :: 64 word) = b" for b :: byte by (rule bit_word_eqI) (auto simp: bit_simps)
  moreover have "ucast (x XOR y :: 64 word) = (ucast x XOR ucast y :: byte)" for x y
    by (rule bit_word_eqI) (auto simp: bit_simps)
  ultimately show ?case using snoc by (simp add: hashString64_def ucast_mult_8) (simp only: low)
qed (simp add: hashString64_def)

lemma guid_low_bytes:
  "map (foldl (\<lambda>h ch. h * 0x43 XOR char_byte ch) (0 :: byte)) (map ctype_guid builtin_types) =
    [74, 206, 166, 182, 6, 174, 247, 241, 216, 120, 215, 57, 75, 73, 108, 88, 228, 144, 225, 103,
     246, 130, 101, 35, 48, 132, 15, 157, 163, 69, 160, 104, 78, 198, 170, 125, 25]"
  by code_simp

lemma guid_hashes_distinct: "distinct (map (hashString64 \<circ> ctype_guid) builtin_types)"
proof -
  have "map (\<lambda>h. ucast h :: byte) (map (hashString64 \<circ> ctype_guid) builtin_types) =
      map (foldl (\<lambda>h ch. h * 0x43 XOR char_byte ch) 0) (map ctype_guid builtin_types)"
    by (simp add: hash_low comp_def)
  also have "distinct \<dots>" unfolding guid_low_bytes by simp
  finally show ?thesis by (simp only: distinct_map)
qed

subsection \<open>The codec of objects\<close>

definition long_ok :: "64 word \<Rightarrow> bool" where
  "long_ok v \<longleftrightarrow> \<not> (- (2 ^ 62) \<le> sint v \<and> sint v < - (2 ^ 27))"

definition scalar_ok :: "scalar \<Rightarrow> bool" where
  "scalar_ok x = (case x of SLong v \<Rightarrow> long_ok v | SLLong v \<Rightarrow> long_ok v | SString t \<Rightarrow> str_ok t | _ \<Rightarrow> True)"

lemma int_encoded [encodings]: "encodes (sleb_save (v :: 32 word)) sleb_load v"
proof -
  have "\<not> (31 \<le> 7 * n \<and> 7 * n < 32)" for n :: nat by presburger
  then show ?thesis by (auto intro!: signed_codec.encoded)
qed

lemma long_encoded [encodings]: "long_ok v \<Longrightarrow> encodes (sleb_save v) sleb_load v"
  using sleb_length_eq [of v] by (intro signed_codec.encoded) (auto simp: long_ok_def)

interpretation cfloat_codec: codec "complex_save float_save" "complex_load float_load" "\<lambda>(re, im). True \<and> True"
  by (rule float_codec.complex_codec)

interpretation cdouble_codec: codec "complex_save double_save" "complex_load double_load" "\<lambda>(re, im). True \<and> True"
  by (rule double_codec.complex_codec)

lemmas scalar_encodings [encodings] =
  char_codec.encoded short_codec.encoded float_codec.encoded cfloat_codec.encoded cdouble_codec.encoded
  vector_bool_codec.encoded

lemma encodes_as: "encodes out load x \<Longrightarrow> y = f x \<Longrightarrow> encodes out (load_as f load) y"
  unfolding load_as_def by (rule encodes_last) simp_all

interpretation scalar_codec: codec scalar_save "scalar_load t" "\<lambda>x. stype_of x = t \<and> scalar_ok x"
proof (rule codec_encodes)
  fix x assume "stype_of x = t \<and> scalar_ok x"
  then show "encodes (scalar_save x) (scalar_load t) x"
    by (cases x) (auto simp: scalar_ok_def intro!: encodes_as intro: encodings)
qed

definition values_ok :: "stype \<Rightarrow> scalar list \<Rightarrow> bool" where
  "values_ok t xs \<longleftrightarrow> length xs < 2 ^ 32 \<and> (\<forall>x \<in> set xs. stype_of x = t \<and> scalar_ok x)"

interpretation values_codec: codec "values_save t" "values_load t" "values_ok t"
proof (rule codec_encodes)
  fix xs assume ok: "values_ok t xs"
  show "encodes (values_save t xs) (values_load t) xs"
  proof (cases "t = TBool")
    case True
    then have "\<forall>x \<in> set xs. \<exists>b. x = SBool b" using ok by (auto simp: values_ok_def elim: stype_of.elims)
    then have "map SBool (map (\<lambda>x. x = SBool True) xs) = xs" by (auto intro!: map_idI)
    then show ?thesis using True ok unfolding values_save_def values_load_def values_ok_def
      by (auto intro!: encodes_as encodings)
  next
    case False
    then show ?thesis using ok codec.encoded [OF scalar_codec.vector_codec]
      by (simp add: values_save_def values_load_def values_ok_def)
  qed
qed

text \<open>The objects that can be represented, and how deeply they are nested.\<close>

primrec container_ok :: "ObjectContainer \<Rightarrow> bool" and object_ok :: "Object \<Rightarrow> bool" where
  "container_ok (CScalar x) = scalar_ok x"
| "container_ok (CVector t xs) = values_ok t xs"
| "container_ok (CObject x) = object_ok x"
| "container_ok (CObjectVector xs) = (length xs < 2 ^ 32 \<and> list_all id (map object_ok xs))"
| "container_ok (CObjectKwargs m) =
     (length m < 2 ^ 32 \<and> sorted_wrt (<) (map fst m) \<and>
      list_all (\<lambda>(k, ok). str_ok k \<and> ok) (map (map_prod id object_ok) m))"
| "object_ok ObjectNull = True"
| "object_ok (ObjectOf c) = container_ok c"

primrec container_depth :: "ObjectContainer \<Rightarrow> nat" and object_depth :: "Object \<Rightarrow> nat" where
  "container_depth (CScalar x) = 0"
| "container_depth (CVector t xs) = 0"
| "container_depth (CObject x) = object_depth x"
| "container_depth (CObjectVector xs) = fold max (map object_depth xs) 0"
| "container_depth (CObjectKwargs m) = fold max (map snd (map (map_prod id object_depth) m)) 0"
| "object_depth ObjectNull = 1"
| "object_depth (ObjectOf c) = Suc (container_depth c)"

lemma fold_max_le: "fold max ns k \<le> n \<longleftrightarrow> k \<le> n \<and> (\<forall>x \<in> set ns. x \<le> (n :: nat))"
  by (induction ns arbitrary: k) auto

context object_codec
begin

lemma vector_encoded: "length xs < 2 ^ 32 \<Longrightarrow> \<forall>x \<in> set xs. valid x \<Longrightarrow> encodes (vector_save save xs) (vector_load load) xs"
  using codec.encoded [OF vector_codec] by simp

lemma kwargs_encoded:
  "length m < 2 ^ 32 \<Longrightarrow> sorted_wrt (<) (map fst m) \<Longrightarrow> \<forall>(k, v) \<in> set m. str_ok k \<and> valid v \<Longrightarrow>
   encodes (map_save string_save save m) (map_load string_load load) m"
  using codec.encoded [OF metadata_codec] by simp

end

lemma container_encoded:
  assumes "object_codec save load (\<lambda>x. object_depth x \<le> n \<and> object_ok x)" "container_depth c \<le> n" "container_ok c"
  shows "encodes (container_save save c) (container_load load (ctype_of c)) c"
proof (cases c)
  case (CScalar x)
  then show ?thesis using assms(3) by (auto simp: container_save_def intro!: encodes_as scalar_codec.encoded)
next
  case (CVector t xs)
  then show ?thesis using assms(3) by (auto simp: container_save_def intro!: encodes_as values_codec.encoded)
next
  case (CObject x)
  then show ?thesis using assms(2,3) codec.encoded [OF object_codec.axioms [OF assms(1)]]
    by (auto simp: container_save_def intro!: encodes_as)
next
  case (CObjectVector xs)
  then show ?thesis using assms(2,3)
    by (auto simp: container_save_def fold_max_le list_all_iff intro!: encodes_as object_codec.vector_encoded [OF assms(1)])
next
  case (CObjectKwargs m)
  then show ?thesis using assms(2,3)
    by (auto simp: container_save_def fold_max_le list_all_iff intro!: encodes_as object_codec.kwargs_encoded [OF assms(1)])
qed

text \<open>What the code relies on of \<open>std::type_info::hash_code\<close>: no two registered types share a hash, and none
  has the hash of an identifier, since one map holds both.\<close>

definition hashes_ok :: "(ctype \<Rightarrow> 64 word) \<Rightarrow> bool" where
  "hashes_ok hash_code \<longleftrightarrow>
     distinct (map hash_code builtin_types) \<and>
     (\<forall>t \<in> set builtin_types. \<forall>u \<in> set builtin_types. hash_code t \<noteq> hashString64 (ctype_guid u))"

lemma ctype_builtin: "t \<in> set builtin_types"
proof -
  have "u \<in> set scalar_types" for u by (cases u) (simp_all add: scalar_types_def)
  then show ?thesis by (cases t) (auto simp: builtin_types_def)
qed

lemma object_registry_find:
  assumes "hashes_ok hash_code"
  shows "\<exists>e. object_registry hash_code save load (hash_code t) = Some e \<and>
             object_registry hash_code save load (ae_hash e) = Some e \<and>
             ae_save e = container_save save \<and> ae_load e = container_load load t"
proof -
  have "no_collision hash_code (map (\<lambda>t. (t, ctype_guid t)) builtin_types)"
    using assms guid_hashes_distinct unfolding no_collision_def hashes_ok_def by (auto simp: comp_def)
  then show ?thesis
    unfolding object_registry_def by (intro register_types_find) (auto simp: comp_def intro!: image_eqI ctype_builtin)
qed

context type_registry
begin

lemma polymorphic_encoded: "valid v \<Longrightarrow> encodes (polymorphic_save entries type_hash v) (polymorphic_load entries) v"
  by (rule polymorphic.encoded)

end

lemma object_encoded:
  assumes "hashes_ok hash_code" "object_codec save load (\<lambda>x. object_depth x \<le> n \<and> object_ok x)"
    "object_depth x \<le> Suc n" "object_ok x"
  shows "encodes (object_save (object_registry hash_code save load) hash_code x)
           (object_load (object_registry hash_code save load)) x"
proof (cases x)
  case ObjectNull
  then show ?thesis unfolding object_load_def by (auto simp: object_save_def intro!: encodes_last bool_codec.encoded)
next
  case (ObjectOf c)
  let ?m = "object_registry hash_code save load"
  obtain e where e: "?m (hash_code (ctype_of c)) = Some e" "?m (ae_hash e) = Some e"
      "ae_save e = container_save save" "ae_load e = container_load load (ctype_of c)"
    using object_registry_find [OF assms(1), of save load "ctype_of c"] by blast
  have "encodes (container_save save c) (container_load load (ctype_of c)) c"
    using assms(2-4) ObjectOf by (auto intro: container_encoded)
  then have "type_registry ?m (hash_code \<circ> ctype_of) (\<lambda>d. d = c)"
    using e by (intro type_registry.intro) (auto simp: encodes_def)
  then have "encodes (polymorphic_save ?m (hash_code \<circ> ctype_of) c) (polymorphic_load ?m) c"
    by (rule type_registry.polymorphic_encoded) simp
  then show ?thesis
    using ObjectOf unfolding object_load_def
    by (auto simp: object_save_def intro!: encodes_then [OF bool_codec.encoded] encodes_as)
qed

locale hashed_types =
  fixes hash_code :: "ctype \<Rightarrow> 64 word"
  assumes hashes: "hashes_ok hash_code"
begin

lemma objects_codec:
  "object_codec (fst (Object_codec hash_code n)) (snd (Object_codec hash_code n))
     (\<lambda>x. object_depth x \<le> n \<and> object_ok x)"
proof (induction n)
  case 0
  have "\<not> object_depth x \<le> 0" for x by (cases x) simp_all
  then show ?case by (intro object_codec.intro codec.intro) blast
next
  case (Suc n)
  then show ?case
    by (intro object_codec.intro codec_encodes) (auto simp: Let_def intro: object_encoded [OF hashes])
qed

end

sublocale hashed_types \<subseteq> objects: object_codec "fst (Object_codec hash_code n)" "snd (Object_codec hash_code n)"
    "\<lambda>x. object_depth x \<le> n \<and> object_ok x" for n
  by (rule objects_codec)

context hashed_types
begin

lemma deserialize_serialize:
  assumes "object_depth x \<le> n" "object_ok x"
  shows "\<exists>bs. Object_serialize hash_code n x = Inr bs \<and>
           (\<forall>rest. Object_deserialize hash_code n (istream_of (bs @ rest)) = Inr (x, istream_of rest))"
proof -
  have "encodes (then_save OStreamArchiver_new (fst (Object_codec hash_code n) x))
      (bindl IStreamArchiver_new (\<lambda>ver. snd (Object_codec hash_code n))) x"
    unfolding OStreamArchiver_new_def IStreamArchiver_new_def
    by (rule encodes_then, rule unsigned_codec.encoded, simp, rule objects.encoded) (simp add: assms)
  then show ?thesis unfolding encodes_def Object_serialize_def Object_deserialize_def by auto
qed

lemma packet_encoded:
  "Packet_ok (\<lambda>x. object_depth x \<le> n \<and> object_ok x) p \<Longrightarrow>
   encodes (Packet_save (fst (Object_codec hash_code n)) p) (Packet_load (snd (Object_codec hash_code n))) p"
  by (rule codec.encoded [OF objects.packet_codec])

end

text \<open>Hashes that satisfy the assumption: an index in the upper bits, and a last byte that no identifier's hash has.\<close>

definition demo_hash :: "ctype \<Rightarrow> 64 word" where
  "demo_hash t = word_of_nat (256 * length (takeWhile (\<lambda>u. u \<noteq> t) builtin_types) + 7)"

lemma demo_hashes_ok: "hashes_ok demo_hash"
proof -
  have index: "map (\<lambda>t. length (takeWhile (\<lambda>u. u \<noteq> t) builtin_types)) builtin_types = [0..<37]" by code_simp
  then have "map demo_hash builtin_types = map (\<lambda>i. word_of_nat (256 * i + 7)) [0..<37]"
    unfolding index [symmetric] demo_hash_def by simp
  moreover have "inj_on (\<lambda>i. word_of_nat (256 * i + 7) :: 64 word) {0..<37}"
  proof (rule inj_onI)
    fix i j :: nat
    assume ij: "i \<in> {0..<37}" "j \<in> {0..<37}" "(word_of_nat (256 * i + 7) :: 64 word) = word_of_nat (256 * j + 7)"
    have small: "unat (word_of_nat n :: 64 word) = n" if "n < 2 ^ 64" for n
      using that by (simp add: unat_of_nat take_bit_nat_eq_self)
    from ij(3) have "unat (word_of_nat (256 * i + 7) :: 64 word) = unat (word_of_nat (256 * j + 7) :: 64 word)"
      by (rule arg_cong)
    moreover have "256 * i + 7 < 2 ^ 64" "256 * j + 7 < 2 ^ 64" using ij(1,2) by simp_all
    ultimately have "256 * i + 7 = 256 * j + 7" by (simp only: small)
    then show "i = j" by simp
  qed
  ultimately have "distinct (map demo_hash builtin_types)" by (simp add: distinct_map)
  moreover have "demo_hash t \<noteq> hashString64 (ctype_guid u)" for t u
  proof
    assume "demo_hash t = hashString64 (ctype_guid u)"
    then have "ucast (demo_hash t) \<in> set (map (foldl (\<lambda>h ch. h * 0x43 XOR char_byte ch) (0 :: byte)) (map ctype_guid builtin_types))"
      using ctype_builtin [of u] by (simp add: hash_low)
    moreover have "ucast (word_of_nat n :: 64 word) = (word_of_nat n :: byte)" for n
      by (rule bit_word_eqI) (simp add: bit_simps)
    moreover have "(word_of_nat (256 * k + 7) :: byte) = word_of_nat 7" for k
      unfolding word_of_nat_eq_iff take_bit_eq_mod by simp
    ultimately have "(7 :: byte) \<in> set (map (foldl (\<lambda>h ch. h * 0x43 XOR char_byte ch) (0 :: byte)) (map ctype_guid builtin_types))"
      unfolding demo_hash_def by (simp only: of_nat_numeral)
    then show False unfolding guid_low_bytes by simp
  qed
  ultimately show ?thesis by (simp add: hashes_ok_def)
qed

interpretation demo_types: hashed_types demo_hash
  by unfold_locales (rule demo_hashes_ok)

subsection \<open>Properties\<close>

text \<open>
  C24. An object that is serialized and deserialized again is the same object, however its values are nested in
  containers, whatever follows it in the stream, and no call fails, as long as the hashes of the registered types and
  identifiers do not collide, strings and containers have fewer than \<open>2^32\<close> elements and no \<open>long\<close> is
  one of the negative values that the signed number format cannot load.
\<close>

theorem object_round_trip:
  assumes "hashes_ok hash_code" "object_depth x \<le> n" "object_ok x"
  shows "\<exists>bs. Object_serialize hash_code n x = Inr bs \<and>
           (\<forall>rest. Object_deserialize hash_code n (istream_of (bs @ rest)) = Inr (x, istream_of rest))"
proof -
  have "hashed_types hash_code" using assms(1) by (rule hashed_types.intro)
  then show ?thesis using assms(2,3) by (rule hashed_types.deserialize_serialize)
qed

definition demo_object :: Object where
  "demo_object = ObjectOf (CObjectKwargs
     [(''args'', ObjectOf (CObjectVector [ObjectOf (CVector TInt [SInt (-1), SInt 300]), ObjectNull])),
      (''name'', ObjectOf (CScalar (SString ''rx0'')))])"

theorem object_round_trip_witness:
  "\<exists>bs. Object_serialize demo_hash 3 demo_object = Inr bs \<and>
     (\<forall>rest. Object_deserialize demo_hash 3 (istream_of (bs @ rest)) = Inr (demo_object, istream_of rest))"
proof (rule object_round_trip [OF demo_hashes_ok])
  show "object_depth demo_object \<le> 3" by code_simp
  show "object_ok demo_object" by (simp add: demo_object_def values_ok_def scalar_ok_def)
qed

text \<open>
  A packet that is saved with its payload, its metadata and its labels is loaded back unchanged from the same bytes, the
  stream being left right behind it.
\<close>

theorem packet_round_trip:
  assumes "hashes_ok hash_code" "Packet_ok (\<lambda>x. object_depth x \<le> n \<and> object_ok x) p"
  shows "\<exists>bs. Packet_save (fst (Object_codec hash_code n)) p = Inr bs \<and>
           (\<forall>rest. Packet_load (snd (Object_codec hash_code n)) (istream_of (bs @ rest)) = Inr (p, istream_of rest))"
proof -
  have "hashed_types hash_code" using assms(1) by (rule hashed_types.intro)
  from hashed_types.packet_encoded [OF this assms(2)] show ?thesis unfolding encodes_def .
qed

definition demo_packet :: "Object Packet" where
  "demo_packet = \<lparr>pk_payload = Some ([1, 2, 3], DType_default), pk_metadata = [(''rate'', ObjectOf (CScalar (SInt (-5))))],
     pk_labels = [\<lparr>lb_id = ''rxTime'', lb_data = ObjectNull, lb_index = 2, lb_width = 1\<rparr>]\<rparr>"

theorem packet_round_trip_witness:
  "\<exists>bs. Packet_save (fst (Object_codec demo_hash 2)) demo_packet = Inr bs \<and>
     (\<forall>rest. Packet_load (snd (Object_codec demo_hash 2)) (istream_of (bs @ rest)) = Inr (demo_packet, istream_of rest))"
proof (rule packet_round_trip [OF demo_hashes_ok])
  show "Packet_ok (\<lambda>x. object_depth x \<le> 2 \<and> object_ok x) demo_packet"
    by (simp add: Packet_ok_def demo_packet_def chunk_ok_def DType_ok_def DType_default_def Label_ok_def scalar_ok_def)
qed

end
