(* ===== verification/Datagram.thy ===== *)
theory Datagram
  imports ObjectSerialize
begin

section \<open>The datagrams of the remote proxy protocol\<close>

text \<open>
  \<open>lib/Remote/RemoteProxyDatagram.cpp\<close>: a request or reply is an \<open>ObjectKwargs\<close>, serialized into a
  growing buffer and framed by a header (\<open>"PRPC"\<close> and the payload length, in network byte order) and a trailer
  (\<open>"CPRP"\<close>).

  \<^item> \<open>PRPCDatagramObuf\<close> is the stream buffer of the sender: \<open>ensureSize\<close>, \<open>overflow\<close> and \<open>xsputn\<close>
    fill \<open>_payloadData\<close>. The growth loop is a partial function, since it would not end on an empty buffer.
  \<^item> \<open>PRPCDatagramIbuf\<close> is the one of the receiver. What an \<open>istream\<close> over it does is shown to be what the
    stream of \<open>Archive\<close> does on the bytes that were not read yet.
  \<^item> In which pieces the archiver writes is not fixed: \<open>sendDatagram\<close> takes the pieces, and the theorems are
    about any pieces that make up the serialized object.
\<close>

subsection \<open>Sending\<close>

definition be32 :: "32 word \<Rightarrow> byte list" where
  "be32 w = [ucast (drop_bit 24 w), ucast (drop_bit 16 w), ucast (drop_bit 8 w), ucast w]"

definition from_be32 :: "byte list \<Rightarrow> 32 word" where
  "from_be32 bs = push_bit 24 (ucast (bs ! 0)) OR push_bit 16 (ucast (bs ! 1)) OR push_bit 8 (ucast (bs ! 2)) OR ucast (bs ! 3)"

definition POTHOS_PACKET_WORD32 :: "string \<Rightarrow> 32 word" where
  "POTHOS_PACKET_WORD32 str =
     push_bit 24 (ucast (char_byte (str ! 0))) OR push_bit 16 (ucast (char_byte (str ! 1))) OR
     push_bit 8 (ucast (char_byte (str ! 2))) OR push_bit 0 (ucast (char_byte (str ! 3)))"

definition PothosRPCHeaderWord :: "32 word" where
  "PothosRPCHeaderWord = POTHOS_PACKET_WORD32 ''PRPC''"

definition PothosRPCTrailerWord :: "32 word" where
  "PothosRPCTrailerWord = POTHOS_PACKET_WORD32 ''CPRP''"

record Obuf =
  ob_bytesWritten :: size_t
  ob_payloadData :: "byte list"

definition Obuf_new :: Obuf where
  "Obuf_new = \<lparr>ob_bytesWritten = 0, ob_payloadData = replicate 1024 0\<rparr>"

partial_function (option) ensureSize :: "nat \<Rightarrow> byte list \<Rightarrow> byte list option" where
  "ensureSize need data =
     (if length data < need then ensureSize need (data @ replicate (length data) 0) else Some data)"

text \<open>\<open>overflow\<close> gets \<open>None\<close> for the end-of-file value.\<close>

definition Obuf_overflow :: "byte option \<Rightarrow> Obuf \<Rightarrow> (byte option \<times> Obuf) option" where
  "Obuf_overflow c ob =
     (case c of
        None \<Rightarrow> Some (None, ob)
      | Some t \<Rightarrow> do {
          data \<leftarrow> ensureSize (ob_bytesWritten ob + 1) (ob_payloadData ob);
          Some (c, \<lparr>ob_bytesWritten = ob_bytesWritten ob + 1, ob_payloadData = data[ob_bytesWritten ob := t]\<rparr>)
        })"

definition Obuf_xsputn :: "byte list \<Rightarrow> Obuf \<Rightarrow> Obuf option" where
  "Obuf_xsputn s ob = do {
     data \<leftarrow> ensureSize (ob_bytesWritten ob + length s) (ob_payloadData ob);
     Some \<lparr>ob_bytesWritten = ob_bytesWritten ob + length s,
           ob_payloadData = take (ob_bytesWritten ob) data @ s @ drop (ob_bytesWritten ob + length s) data\<rparr>
   }"

definition PRPCDatagramObuf :: "byte list list \<Rightarrow> byte list option" where
  "PRPCDatagramObuf writes = do {
     ob \<leftarrow> fold_opt Obuf_xsputn writes Obuf_new;
     Some (be32 PothosRPCHeaderWord @ be32 (word_of_nat (ob_bytesWritten ob)) @
           take (ob_bytesWritten ob) (ob_payloadData ob) @ be32 PothosRPCTrailerWord)
   }"

subsection \<open>Receiving\<close>

record Ibuf =
  ib_bytesRead :: size_t
  ib_payloadData :: "byte list"

definition Ibuf_showmanyc :: "Ibuf \<Rightarrow> nat" where
  "Ibuf_showmanyc ib = length (ib_payloadData ib) - ib_bytesRead ib"

definition Ibuf_underflow :: "Ibuf \<Rightarrow> byte option" where
  "Ibuf_underflow ib = (if Ibuf_showmanyc ib = 0 then None else Some (ib_payloadData ib ! ib_bytesRead ib))"

definition Ibuf_uflow :: "Ibuf \<Rightarrow> byte option \<times> Ibuf" where
  "Ibuf_uflow ib =
     (if Ibuf_showmanyc ib = 0 then (None, ib)
      else (Some (ib_payloadData ib ! ib_bytesRead ib), ib\<lparr>ib_bytesRead := ib_bytesRead ib + 1\<rparr>))"

definition Ibuf_pbackfail :: "byte option \<Rightarrow> Ibuf \<Rightarrow> byte option \<times> Ibuf" where
  "Ibuf_pbackfail c ib =
     (case c of
        None \<Rightarrow> (None, ib)
      | Some t \<Rightarrow>
          if ib_bytesRead ib = 0 then (None, ib)
          else if t \<noteq> ib_payloadData ib ! (ib_bytesRead ib - 1) then (None, ib)
          else (Some t, ib\<lparr>ib_bytesRead := ib_bytesRead ib - 1\<rparr>))"

text \<open>The count is \<open>None\<close> for the end-of-file value that \<open>xsgetn\<close> returns at the end.\<close>

definition Ibuf_xsgetn :: "nat \<Rightarrow> Ibuf \<Rightarrow> (byte list \<times> nat option) \<times> Ibuf" where
  "Ibuf_xsgetn n ib =
     (let available = Ibuf_showmanyc ib
      in if available = 0 then (([], None), ib)
         else let n = min n available
              in ((take n (drop (ib_bytesRead ib) (ib_payloadData ib)), Some n),
                  ib\<lparr>ib_bytesRead := ib_bytesRead ib + n\<rparr>))"

text \<open>\<open>istream::read\<close> over this buffer: it fails when the count is not the one asked for.\<close>

definition Ibuf_read :: "nat \<Rightarrow> Ibuf \<times> bool \<Rightarrow> byte list \<times> (Ibuf \<times> bool)" where
  "Ibuf_read n s =
     (if \<not> snd s then ([], s)
      else let ((bs, count), ib) = Ibuf_xsgetn n (fst s) in (bs, (ib, count = Some n)))"

definition Ibuf_abs :: "Ibuf \<times> bool \<Rightarrow> istream" where
  "Ibuf_abs s = \<lparr>is_bytes = drop (ib_bytesRead (fst s)) (ib_payloadData (fst s)), is_ok = snd s\<rparr>"

datatype datagram_error = StreamEnd | HeaderWordFail | TrailerWordFail | Deserialize object_error | RefTypeMismatch

text \<open>A read of the underlying stream and the two tests behind it.\<close>

definition read_or_throw :: "nat \<Rightarrow> istream \<Rightarrow> datagram_error + (byte list \<times> istream)" where
  "read_or_throw n s = (let (bs, s) = istream_read n s in if \<not> is_ok s then Inl StreamEnd else Inr (bs, s))"

definition PRPCDatagramIbuf :: "istream \<Rightarrow> datagram_error + (Ibuf \<times> istream)" where
  "PRPCDatagramIbuf s =
     rbind (read_or_throw 8 s) (\<lambda>(header, s).
       if from_be32 (take 4 header) \<noteq> PothosRPCHeaderWord then Inl HeaderWordFail
       else rbind (read_or_throw (unat (from_be32 (drop 4 header))) s) (\<lambda>(payloadData, s).
         rbind (read_or_throw 4 s) (\<lambda>(trailer, s).
           if from_be32 trailer \<noteq> PothosRPCTrailerWord then Inl TrailerWordFail
           else Inr (\<lparr>ib_bytesRead = 0, ib_payloadData = payloadData\<rparr>, s))))"

subsection \<open>The calls of the datagram interface\<close>

definition sendDatagram ::
  "(ctype \<Rightarrow> 64 word) \<Rightarrow> nat \<Rightarrow> (byte list \<Rightarrow> byte list list) \<Rightarrow> (string \<times> Object) list \<Rightarrow> object_error + byte list option" where
  "sendDatagram hash_code n pieces reqArgs =
     rbind (Object_serialize hash_code n (ObjectOf (CObjectKwargs reqArgs)))
       (\<lambda>bs. Inr (PRPCDatagramObuf (pieces bs)))"

definition recvDatagram ::
  "(ctype \<Rightarrow> 64 word) \<Rightarrow> nat \<Rightarrow> istream \<Rightarrow> datagram_error + ((string \<times> Object) list \<times> istream)" where
  "recvDatagram hash_code n s =
     rbind (PRPCDatagramIbuf s) (\<lambda>(ib, s).
       rbind (map_sum Deserialize id (Object_deserialize hash_code n (Ibuf_abs (ib, True)))) (\<lambda>(reply, _).
         case reply of
           ObjectOf (CObjectKwargs m) \<Rightarrow> Inr (m, s)
         | _ \<Rightarrow> Inl RefTypeMismatch))"

subsection \<open>Lemmas\<close>

lemma be32_inverse [simp]: "from_be32 (be32 w) = w"
proof -
  have "push_bit 24 (ucast (ucast (drop_bit 24 w) :: byte)) OR push_bit 16 (ucast (ucast (drop_bit 16 w) :: byte)) OR
        push_bit 8 (ucast (ucast (drop_bit 8 w) :: byte)) OR ucast (ucast w :: byte) = w"
    (is "?word = w")
  proof (rule bit_word_eqI)
    fix n assume "n < LENGTH(32)"
    then show "bit ?word n = bit w n"
      by (cases "n < 8"; cases "n < 16"; cases "n < 24") (auto simp: bit_simps)
  qed
  then show ?thesis by (simp add: from_be32_def be32_def)
qed

lemma length_be32 [simp]: "length (be32 w) = 4"
  by (simp add: be32_def)

lemma ensureSize_grows:
  assumes "data \<noteq> []"
  shows "\<exists>data'. ensureSize need data = Some data' \<and> need \<le> length data' \<and> take (length data) data' = data"
  using assms
proof (induction "need - length data" arbitrary: data rule: less_induct)
  case less
  show ?case
  proof (cases "length data < need")
    case True
    let ?twice = "data @ replicate (length data) 0"
    have "need - length ?twice < need - length data" using True less.prems by (cases data) simp_all
    from less.hyps [OF this] less.prems obtain data' where
      "ensureSize need ?twice = Some data'" "need \<le> length data'" "take (length ?twice) data' = ?twice" by auto
    moreover have "take (length data) data' = data"
      using arg_cong [OF calculation(3), of "take (length data)"] by (simp add: min_def)
    ultimately show ?thesis using True by (subst ensureSize.simps) simp
  next
    case False
    then show ?thesis by (subst ensureSize.simps) simp
  qed
qed

definition obuf_holds :: "byte list \<Rightarrow> Obuf \<Rightarrow> bool" where
  "obuf_holds bs ob \<longleftrightarrow> ob_payloadData ob \<noteq> [] \<and> ob_bytesWritten ob = length bs \<and>
     take (length bs) (ob_payloadData ob) = bs"

lemma obuf_holds_room: "obuf_holds bs ob \<Longrightarrow> length bs \<le> length (ob_payloadData ob)"
  unfolding obuf_holds_def by (metis length_take min.cobounded1)

lemma ensureSize_room:
  assumes "obuf_holds bs ob"
  shows "\<exists>data. ensureSize (length bs + k) (ob_payloadData ob) = Some data \<and> length bs + k \<le> length data \<and>
           take (length bs) data = bs \<and> data \<noteq> []"
proof -
  obtain data where data: "ensureSize (length bs + k) (ob_payloadData ob) = Some data"
      "length bs + k \<le> length data" "take (length (ob_payloadData ob)) data = ob_payloadData ob"
    using assms ensureSize_grows unfolding obuf_holds_def by blast
  have "take (length bs) data = take (length bs) (take (length (ob_payloadData ob)) data)"
    using obuf_holds_room [OF assms] by (simp add: min_def)
  then show ?thesis using data assms by (auto simp: obuf_holds_def)
qed

lemma xsputn_appends: "obuf_holds bs ob \<Longrightarrow> \<exists>ob'. Obuf_xsputn s ob = Some ob' \<and> obuf_holds (bs @ s) ob'"
  using ensureSize_room [of bs ob "length s"] by (auto simp: Obuf_xsputn_def obuf_holds_def)

lemma overflow_appends:
  "obuf_holds bs ob \<Longrightarrow> \<exists>ob'. Obuf_overflow (Some c) ob = Some (Some c, ob') \<and> obuf_holds (bs @ [c]) ob'"
  using ensureSize_room [of bs ob 1]
  by (auto simp: Obuf_overflow_def obuf_holds_def take_Suc_conv_app_nth)

lemma writes_append:
  "obuf_holds bs ob \<Longrightarrow> \<exists>ob'. fold_opt Obuf_xsputn writes ob = Some ob' \<and> obuf_holds (bs @ concat writes) ob'"
proof (induction writes arbitrary: bs ob)
  case (Cons s writes)
  obtain ob1 where "Obuf_xsputn s ob = Some ob1" "obuf_holds (bs @ s) ob1" using xsputn_appends [OF Cons.prems] by blast
  then show ?case using Cons.IH [of "bs @ s" ob1] by auto
qed auto

definition frame :: "byte list \<Rightarrow> byte list" where
  "frame bs = be32 PothosRPCHeaderWord @ be32 (word_of_nat (length bs)) @ bs @ be32 PothosRPCTrailerWord"

lemma Obuf_frames: "PRPCDatagramObuf writes = Some (frame (concat writes))"
proof -
  have "obuf_holds [] Obuf_new" by (simp add: obuf_holds_def Obuf_new_def)
  from writes_append [OF this, of writes] show ?thesis
    by (auto simp: PRPCDatagramObuf_def obuf_holds_def frame_def)
qed

lemma read_or_throw_append: "n = length bs \<Longrightarrow> read_or_throw n (istream_of (bs @ rest)) = Inr (bs, istream_of rest)"
  by (simp add: read_or_throw_def istream_read_def)

lemma read_or_throw_short: "length bs < n \<Longrightarrow> read_or_throw n (istream_of bs) = Inl StreamEnd"
  by (simp add: read_or_throw_def istream_read_def)

lemma Ibuf_unframes:
  assumes "length bs < 2 ^ 32"
  shows "PRPCDatagramIbuf (istream_of (frame bs @ rest)) = Inr (\<lparr>ib_bytesRead = 0, ib_payloadData = bs\<rparr>, istream_of rest)"
proof -
  let ?header = "be32 PothosRPCHeaderWord @ be32 (word_of_nat (length bs))"
  have "unat (word_of_nat (length bs) :: 32 word) = length bs"
    using assms by (simp add: unat_of_nat take_bit_nat_eq_self)
  moreover have "read_or_throw 8 (istream_of (frame bs @ rest)) =
      Inr (?header, istream_of (bs @ be32 PothosRPCTrailerWord @ rest))"
    using read_or_throw_append [of 8 ?header "bs @ be32 PothosRPCTrailerWord @ rest"] by (simp add: frame_def)
  ultimately show ?thesis by (simp add: PRPCDatagramIbuf_def read_or_throw_append)
qed

lemma Ibuf_short_frame:
  assumes "length bs < 2 ^ 32" "k < length (frame bs)"
  shows "PRPCDatagramIbuf (istream_of (take k (frame bs))) = Inl StreamEnd"
proof -
  let ?header = "be32 PothosRPCHeaderWord @ be32 (word_of_nat (length bs))" and ?t = "be32 PothosRPCTrailerWord"
  have len: "unat (word_of_nat (length bs) :: 32 word) = length bs"
    using assms by (simp add: unat_of_nat take_bit_nat_eq_self)
  show ?thesis
  proof (cases "k < 8")
    case True
    then have "length (take k (frame bs)) < 8" by simp
    then show ?thesis unfolding PRPCDatagramIbuf_def by (simp only: read_or_throw_short) simp
  next
    case False
    then have "take k (frame bs) = ?header @ take (k - 8) (bs @ ?t)" by (simp add: frame_def)
    then have head: "read_or_throw 8 (istream_of (take k (frame bs))) = Inr (?header, istream_of (take (k - 8) (bs @ ?t)))"
      by (simp only:) (rule read_or_throw_append, simp)
    show ?thesis
    proof (cases "k - 8 < length bs")
      case True
      then show ?thesis using head len by (simp add: PRPCDatagramIbuf_def read_or_throw_short)
    next
      case False
      then have "take (k - 8) (bs @ ?t) = bs @ take (k - 8 - length bs) ?t" by simp
      moreover have "k - 8 - length bs < 4" using assms(2) False \<open>\<not> k < 8\<close> by (simp add: frame_def)
      ultimately show ?thesis using head len
        by (simp add: PRPCDatagramIbuf_def read_or_throw_append read_or_throw_short)
    qed
  qed
qed

text \<open>Reading through the receiver's stream buffer is reading the bytes behind its position.\<close>

lemma Ibuf_read_refines:
  assumes "0 < n" "ib_bytesRead (fst s) \<le> length (ib_payloadData (fst s))" "Ibuf_read n s = (bs, s')"
  shows "istream_read n (Ibuf_abs s) = (bs, Ibuf_abs s') \<and> ib_bytesRead (fst s') \<le> length (ib_payloadData (fst s'))"
  using assms by (cases s) (auto simp: Ibuf_read_def Ibuf_xsgetn_def Ibuf_showmanyc_def Ibuf_abs_def istream_read_def
      Let_def min_def add.commute split: if_splits)

lemma datagram_encoded:
  assumes "hashes_ok hash_code" "object_depth (ObjectOf (CObjectKwargs m)) \<le> n" "object_ok (ObjectOf (CObjectKwargs m))"
    "\<forall>bs. concat (pieces bs) = bs"
    "\<forall>bs. Object_serialize hash_code n (ObjectOf (CObjectKwargs m)) = Inr bs \<longrightarrow> length bs < 2 ^ 32"
  shows "\<exists>out. sendDatagram hash_code n pieces m = Inr (Some out) \<and>
           (\<forall>rest. recvDatagram hash_code n (istream_of (out @ rest)) = Inr (m, istream_of rest))"
proof -
  have "hashed_types hash_code" using assms(1) by (rule hashed_types.intro)
  from hashed_types.deserialize_serialize [OF this assms(2,3)] obtain bs
    where "Object_serialize hash_code n (ObjectOf (CObjectKwargs m)) = Inr bs"
      "Object_deserialize hash_code n (istream_of bs) = Inr (ObjectOf (CObjectKwargs m), istream_of [])"
    by (metis append.right_neutral)
  then show ?thesis using assms(4,5)
    by (simp add: sendDatagram_def recvDatagram_def Obuf_frames Ibuf_unframes Ibuf_abs_def)
qed

subsection \<open>Properties\<close>

text \<open>
  A request that is sent arrives: in whatever pieces the archiver writes the serialized object, the growing buffer of the
  sender takes them all and comes to an end, and the receiver gets the same arguments out of the stream and leaves it
  right behind the datagram.
\<close>

theorem datagram_round_trip:
  assumes "hashes_ok hash_code" "object_depth (ObjectOf (CObjectKwargs m)) \<le> n" "object_ok (ObjectOf (CObjectKwargs m))"
    "\<forall>bs. concat (pieces bs) = bs"
    "\<forall>bs. Object_serialize hash_code n (ObjectOf (CObjectKwargs m)) = Inr bs \<longrightarrow> length bs < 2 ^ 32"
  shows "\<exists>out. sendDatagram hash_code n pieces m = Inr (Some out) \<and>
           (\<forall>rest. recvDatagram hash_code n (istream_of (out @ rest)) = Inr (m, istream_of rest))"
  using datagram_encoded [OF assms] .

lemma demo_args: "\<exists>bs. Object_serialize demo_hash 1 (ObjectOf (CObjectKwargs [])) = Inr bs \<and> length bs < 100"
proof -
  let ?none = "\<lambda>_. Inl RecursionLimit"
  obtain e where e: "object_registry demo_hash ?none ?none (demo_hash TObjectKwargs) = Some e" "ae_save e = container_save ?none"
    using object_registry_find [OF demo_hashes_ok] by blast
  have "7 * length (uleb_bytes (ae_hash e)) < 64 + 7" using uleb_length_bound [of "ae_hash e"] by simp
  moreover have "7 * length (uleb_bytes (0 :: 32 word)) < 32 + 7" "7 * length (uleb_bytes POTHOS_ARCHIVE_VERSION) < 32 + 7"
    using uleb_length_bound [of "0 :: 32 word"] uleb_length_bound [of POTHOS_ARCHIVE_VERSION] by simp_all
  ultimately show ?thesis using e
    by (auto simp: Object_serialize_def OStreamArchiver_new_def Let_def object_save_def polymorphic_save_def
        ArchiveEntry_find_type_def container_save_def map_save_def size_save_def uleb_save_def bool_save_def char_save_def
        BinaryObject_save_def OStreamArchiver_writeBytes_def)
qed

theorem datagram_round_trip_witness:
  "\<exists>out. sendDatagram demo_hash 1 (map (\<lambda>b. [b])) [] = Inr (Some out) \<and>
     (\<forall>rest. recvDatagram demo_hash 1 (istream_of (out @ rest)) = Inr ([], istream_of rest))"
  by (rule datagram_round_trip [OF demo_hashes_ok]) (use demo_args in auto)

text \<open>
  A datagram that the connection cuts off anywhere, in the header, in the payload or in the trailer, is never taken for a
  request: the receiver throws the end-of-stream exception.
\<close>

theorem truncated_datagram_is_rejected:
  assumes "sendDatagram hash_code n pieces m = Inr (Some out)" "length out < 2 ^ 32" "k < length out"
  shows "recvDatagram hash_code n' (istream_of (take k out)) = Inl StreamEnd"
proof -
  obtain bs where "out = frame (concat (pieces bs))"
    using assms(1) by (auto simp: sendDatagram_def rbind_Inr_conv Obuf_frames)
  moreover have "length (concat (pieces bs)) < 2 ^ 32" using assms(2) calculation by (simp add: frame_def)
  ultimately show ?thesis using Ibuf_short_frame assms(3) unfolding recvDatagram_def by simp
qed

theorem truncated_datagram_is_rejected_witness:
  "\<exists>out. sendDatagram demo_hash 1 (map (\<lambda>b. [b])) [] = Inr (Some out) \<and>
     recvDatagram demo_hash 1 (istream_of (take 9 out)) = Inl StreamEnd"
proof -
  obtain bs where bs: "Object_serialize demo_hash 1 (ObjectOf (CObjectKwargs [])) = Inr bs" "length bs < 100"
    using demo_args by blast
  then have "sendDatagram demo_hash 1 (map (\<lambda>b. [b])) [] = Inr (Some (frame bs))"
    by (simp add: sendDatagram_def Obuf_frames)
  moreover from this have "recvDatagram demo_hash 1 (istream_of (take 9 (frame bs))) = Inl StreamEnd"
    by (rule truncated_datagram_is_rejected) (use bs(2) in \<open>simp_all add: frame_def\<close>)
  ultimately show ?thesis by blast
qed

end
