(* ===== verification/Remote.thy ===== *)
theory Remote
  imports Datagram CppStrings StringMap
begin

section \<open>Remote proxies\<close>

text \<open>
  \<open>lib/Remote/ServerHandler.cpp\<close>, \<open>lib/Remote/RemoteProxy.cpp\<close> and \<open>lib/Remote/RemoteProxyHandle.cpp\<close>: a client holds numbers that stand
  for objects in the process of the server, and every operation on them is a request and a reply.

  \<^item> Requests and replies are \<open>ObjectKwargs\<close>, sorted lists of names and objects; they pass as datagrams through the functions of
    the theory \<open>Datagram\<close>.
  \<^item> The objects of the server are environments and proxies. What the environments of the server's process do is the record
    \<open>Local\<close>, whose operations change a state \<open>'w\<close> and return a value or the text of the exception.
  \<^item> The functions of the server and of the client return a value or an exception together with the state they leave. In
    \<open>transact\<close> one thread of the client makes requests; several threads that share the connection are in the theory \<open>RemoteThreads\<close>.
\<close>

type_synonym kwargs = "(string \<times> Object) list"

type_synonym ('s, 'e, 'a) act = "'s \<Rightarrow> ('e + 'a) \<times> 's"

definition aret :: "'a \<Rightarrow> ('s, 'e, 'a) act" where
  "aret x s = (Inr x, s)"

definition afail :: "'e \<Rightarrow> ('s, 'e, 'a) act" where
  "afail e s = (Inl e, s)"

definition abind :: "('s, 'e, 'a) act \<Rightarrow> ('a \<Rightarrow> ('s, 'e, 'b) act) \<Rightarrow> ('s, 'e, 'b) act" where
  "abind m f s = (case m s of (Inl e, s) \<Rightarrow> (Inl e, s) | (Inr x, s) \<Rightarrow> f x s)"

lemma act_simps [simp]:
  "aret x s = (Inr x, s)" "afail e s = (Inl e, s)"
  "m s = (Inl e, s') \<Longrightarrow> abind m f s = (Inl e, s')"
  "m s = (Inr x, s') \<Longrightarrow> abind m f s = f x s'"
  by (simp_all add: aret_def afail_def abind_def)

definition str_object :: "string \<Rightarrow> Object" where
  "str_object s = ObjectOf (CScalar (SString s))"

definition size_object :: "nat \<Rightarrow> Object" where
  "size_object n = ObjectOf (CScalar (SULong (word_of_nat n)))"

definition int_object :: "32 word \<Rightarrow> Object" where
  "int_object n = ObjectOf (CScalar (SInt n))"

subsection \<open>The server\<close>

datatype ('e, 'p) served = ServedNull | ServedEnv 'e | ServedProxy 'p

record ('e, 'p) Server =
  sv_objects :: "nat \<rightharpoonup> ('e, 'p) served"
  sv_id :: nat

datatype call_throw = ThrowMessage string | ThrowError string

record ('e, 'p, 'w) Local =
  lo_make :: "string \<Rightarrow> (string \<times> string) list \<Rightarrow> 'w \<Rightarrow> (string + 'e) \<times> 'w"
  lo_findProxy :: "'e \<Rightarrow> string \<Rightarrow> 'w \<Rightarrow> (string + 'p) \<times> 'w"
  lo_convertObjectToProxy :: "'e \<Rightarrow> Object \<Rightarrow> 'w \<Rightarrow> (string + 'p) \<times> 'w"
  lo_convertProxyToObject :: "'e \<Rightarrow> 'p \<Rightarrow> 'w \<Rightarrow> (string + Object) \<times> 'w"
  lo_call :: "'p \<Rightarrow> string \<Rightarrow> 'p list \<Rightarrow> 'w \<Rightarrow> (call_throw + 'p) \<times> 'w"
  lo_compareTo :: "'p \<Rightarrow> 'p \<Rightarrow> 'w \<Rightarrow> (string + 32 word) \<times> 'w"
  lo_hashCode :: "'p \<Rightarrow> 'w \<Rightarrow> (string + nat) \<times> 'w"
  lo_toString :: "'p \<Rightarrow> 'w \<Rightarrow> (string + string) \<times> 'w"
  lo_getClassName :: "'p \<Rightarrow> 'w \<Rightarrow> (string + string) \<times> 'w"
  lo_toSize :: "Object \<Rightarrow> nat option"
  lo_upid :: string
  lo_nodeId :: string
  lo_peerAddr :: string

text \<open>Conversion to \<open>size_t\<close>: the value, or what the registered conversions do with another type.\<close>

definition to_size :: "(Object \<Rightarrow> nat option) \<Rightarrow> Object \<Rightarrow> string + nat" where
  "to_size other x =
     (case x of
        ObjectOf (CScalar (SULong w)) \<Rightarrow> Inr (unat w)
      | _ \<Rightarrow> (case other x of None \<Rightarrow> Inl ''Object Convert Error'' | Some n \<Rightarrow> Inr n))"

definition getNewObjectId :: "('e, 'p) served \<Rightarrow> (('e, 'p) Server \<times> 'w, string, Object) act" where
  "getNewObjectId obj = (\<lambda>(srv, w).
     let i = sz_add (sv_id srv) 1
     in (Inr (size_object i), (srv\<lparr>sv_objects := (sv_objects srv)(i \<mapsto> obj), sv_id := i\<rparr>, w)))"

text \<open>A number that is not in the map gets a null object there.\<close>

definition getObjectAtId :: "(Object \<Rightarrow> nat option) \<Rightarrow> Object \<Rightarrow> (('e, 'p) Server \<times> 'w, string, ('e, 'p) served) act" where
  "getObjectAtId other idObj = (\<lambda>(srv, w).
     case to_size other idObj of
       Inl e \<Rightarrow> (Inl e, (srv, w))
     | Inr key \<Rightarrow>
         (case sv_objects srv key of
            None \<Rightarrow> (Inr ServedNull, (srv\<lparr>sv_objects := (sv_objects srv)(key \<mapsto> ServedNull)\<rparr>, w))
          | Some x \<Rightarrow> (Inr x, (srv, w))))"

definition removeObjectAtId :: "(Object \<Rightarrow> nat option) \<Rightarrow> Object \<Rightarrow> (('e, 'p) Server \<times> 'w, string, unit) act" where
  "removeObjectAtId other idObj = (\<lambda>(srv, w).
     case to_size other idObj of
       Inl e \<Rightarrow> (Inl e, (srv, w))
     | Inr key \<Rightarrow> (Inr (), (srv\<lparr>sv_objects := (sv_objects srv)(key := None)\<rparr>, w)))"

definition arg_at :: "kwargs \<Rightarrow> string \<Rightarrow> ('s, string, Object) act" where
  "arg_at req key = (case map_of req key of None \<Rightarrow> afail ''map::at'' | Some x \<Rightarrow> aret x)"

definition extract_string :: "Object \<Rightarrow> ('s, string, string) act" where
  "extract_string x = (case x of ObjectOf (CScalar (SString s)) \<Rightarrow> aret s | _ \<Rightarrow> afail ''Object Convert Error'')"

definition extract_env :: "('e, 'p) served \<Rightarrow> ('s, string, 'e) act" where
  "extract_env x = (case x of ServedEnv e \<Rightarrow> aret e | _ \<Rightarrow> afail ''Object Convert Error'')"

definition extract_proxy :: "('e, 'p) served \<Rightarrow> ('s, string, 'p) act" where
  "extract_proxy x = (case x of ServedProxy p \<Rightarrow> aret p | _ \<Rightarrow> afail ''Object Convert Error'')"

definition on_world :: "('w \<Rightarrow> 'r \<times> 'w) \<Rightarrow> ('srv \<times> 'w \<Rightarrow> 'r \<times> ('srv \<times> 'w))" where
  "on_world f = (\<lambda>(srv, w). case f w of (r, w) \<Rightarrow> (r, (srv, w)))"

definition string_arg :: "kwargs \<Rightarrow> string \<Rightarrow> ('s, string, string) act" where
  "string_arg req key = abind (arg_at req key) extract_string"

definition env_arg :: "('e, 'p, 'w) Local \<Rightarrow> kwargs \<Rightarrow> (('e, 'p) Server \<times> 'w, string, 'e) act" where
  "env_arg L req = abind (arg_at req ''envID'') (\<lambda>i. abind (getObjectAtId (lo_toSize L) i) extract_env)"

definition proxy_arg :: "('e, 'p, 'w) Local \<Rightarrow> kwargs \<Rightarrow> string \<Rightarrow> (('e, 'p) Server \<times> 'w, string, 'p) act" where
  "proxy_arg L req key = abind (arg_at req key) (\<lambda>i. abind (getObjectAtId (lo_toSize L) i) extract_proxy)"

text \<open>The arguments of a call have the names \<open>0\<close>, \<open>1\<close> and so on; the first missing number ends the loop.\<close>

definition arg_numbers :: "kwargs \<Rightarrow> nat list" where
  "arg_numbers req = takeWhile (\<lambda>i. map_of req (to_string i) \<noteq> None) [0..<length req + 1]"

fun load_args :: "('e, 'p, 'w) Local \<Rightarrow> kwargs \<Rightarrow> nat list \<Rightarrow> (('e, 'p) Server \<times> 'w, string, 'p list) act" where
  "load_args L req [] = aret []"
| "load_args L req (i # is) = abind (proxy_arg L req (to_string i)) (\<lambda>p. abind (load_args L req is) (\<lambda>ps. aret (p # ps)))"

definition string_entries :: "kwargs \<Rightarrow> (string \<times> string) list" where
  "string_entries req =
     concat (map (\<lambda>(k, x). case x of ObjectOf (CScalar (SString s)) \<Rightarrow> [(k, s)] | _ \<Rightarrow> []) req)"

definition new_proxy :: "'p \<Rightarrow> (('e, 'p) Server \<times> 'w, string, (string \<times> Object) list \<times> bool) act" where
  "new_proxy p = abind (getNewObjectId (ServedProxy p)) (\<lambda>i. aret ([(''handleID'', i)], False))"

text \<open>A call that throws a message puts it into the reply; other exceptions are errors like those of the other actions.\<close>

definition call_action :: "('e, 'p, 'w) Local \<Rightarrow> kwargs \<Rightarrow> (('e, 'p) Server \<times> 'w, string, (string \<times> Object) list \<times> bool) act" where
  "call_action L req =
     abind (proxy_arg L req ''handleID'') (\<lambda>proxy.
     abind (load_args L req (arg_numbers req)) (\<lambda>args.
     abind (string_arg req ''name'') (\<lambda>name.
     \<lambda>s. case on_world (lo_call L proxy name args) s of
           (Inl (ThrowMessage m), s) \<Rightarrow> (Inr ([(''message'', str_object m)], False), s)
         | (Inl (ThrowError e), s) \<Rightarrow> (Inl e, s)
         | (Inr result, s) \<Rightarrow> new_proxy result s)))"

definition handle_action :: "('e, 'p, 'w) Local \<Rightarrow> kwargs \<Rightarrow> string \<Rightarrow> (('e, 'p) Server \<times> 'w, string, (string \<times> Object) list \<times> bool) act" where
  "handle_action L req action =
     (if action = ''RemoteProxyEnvironment'' then
        abind (string_arg req ''name'') (\<lambda>name.
        abind (on_world (lo_make L name (string_entries req))) (\<lambda>env.
        abind (getNewObjectId (ServedEnv env)) (\<lambda>i.
          aret ([(''envID'', i), (''upid'', str_object (lo_upid L)), (''nodeId'', str_object (lo_nodeId L)),
                 (''peerAddr'', str_object (lo_peerAddr L))], False))))
      else if action = ''~RemoteProxyEnvironment'' then
        abind (arg_at req ''envID'') (\<lambda>i. abind (removeObjectAtId (lo_toSize L) i) (\<lambda>_. aret ([], True)))
      else if action = ''findProxy'' then
        abind (env_arg L req) (\<lambda>env. abind (string_arg req ''name'') (\<lambda>name. abind (on_world (lo_findProxy L env name)) new_proxy))
      else if action = ''convertObjectToProxy'' then
        abind (env_arg L req) (\<lambda>env. abind (arg_at req ''local'') (\<lambda>x. abind (on_world (lo_convertObjectToProxy L env x)) new_proxy))
      else if action = ''convertProxyToObject'' then
        abind (env_arg L req) (\<lambda>env. abind (proxy_arg L req ''handleID'') (\<lambda>p.
        abind (on_world (lo_convertProxyToObject L env p)) (\<lambda>x. aret ([(''local'', x)], False))))
      else if action = ''~RemoteProxyHandle'' then
        abind (arg_at req ''handleID'') (\<lambda>i. abind (removeObjectAtId (lo_toSize L) i) (\<lambda>_. aret ([], False)))
      else if action = ''call'' then call_action L req
      else if action = ''compareTo'' then
        abind (proxy_arg L req ''handleID'') (\<lambda>p. abind (proxy_arg L req ''otherID'') (\<lambda>q.
        abind (on_world (lo_compareTo L p q)) (\<lambda>n. aret ([(''result'', int_object n)], False))))
      else if action = ''hashCode'' then
        abind (proxy_arg L req ''handleID'') (\<lambda>p. abind (on_world (lo_hashCode L p)) (\<lambda>n. aret ([(''result'', size_object n)], False)))
      else if action = ''toString'' then
        abind (proxy_arg L req ''handleID'') (\<lambda>p. abind (on_world (lo_toString L p)) (\<lambda>t. aret ([(''result'', str_object t)], False)))
      else if action = ''getClassName'' then
        abind (proxy_arg L req ''handleID'') (\<lambda>p. abind (on_world (lo_getClassName L p)) (\<lambda>t. aret ([(''result'', str_object t)], False)))
      else afail action)"

text \<open>A request without \<open>tid\<close> throws out of the handler (\<open>None\<close>); the result has the reply and whether the handler is done.\<close>

definition runHandlerOnce ::
  "('e, 'p, 'w) Local \<Rightarrow> kwargs \<Rightarrow> ('e, 'p) Server \<times> 'w \<Rightarrow> (kwargs \<times> bool \<times> ('e, 'p) Server \<times> 'w) option" where
  "runHandlerOnce L req s =
     (case map_of req ''tid'' of
        None \<Rightarrow> None
      | Some tid \<Rightarrow>
          (case abind (string_arg req ''action'') (handle_action L req) s of
             (Inr (entries, done), s) \<Rightarrow> Some (fold (\<lambda>(k, x). map_put k x) entries [(''tid'', tid)], done, s)
           | (Inl msg, s) \<Rightarrow> Some (map_put ''errorMsg'' (str_object msg) [(''tid'', tid)], False, s)))"

text \<open>\<open>runHandler\<close> on the requests that arrive: it ends when the last environment is gone, when a request throws out of the
  handler, or with the stream.\<close>

fun runHandler :: "('e, 'p, 'w) Local \<Rightarrow> kwargs list \<Rightarrow> ('e, 'p) Server \<times> 'w \<Rightarrow> kwargs list \<times> ('e, 'p) Server \<times> 'w" where
  "runHandler L [] s = ([], s)"
| "runHandler L (req # reqs) s =
     (case runHandlerOnce L req s of
        None \<Rightarrow> ([], s)
      | Some (reply, done, s) \<Rightarrow>
          if done then ([reply], s) else (case runHandler L reqs s of (replies, s) \<Rightarrow> (reply # replies, s)))"

subsection \<open>The client\<close>

record Link =
  ln_hash :: "ctype \<Rightarrow> 64 word"
  ln_depth :: nat
  ln_pieces :: "byte list \<Rightarrow> byte list list"
  ln_tid :: "32 word"

datatype client_error =
    IOException | WaitsForever
  | FactoryError string | FindError string | ConvertFailed string | CallFailed string | ExceptionMessage string | CompareFailed string
  | ReplyConvertError string | CallArgFailed nat client_error | CompareArgFailed client_error

text \<open>One datagram: what was sent at one end arrives at the other, or one of the calls throws.\<close>

definition deliver :: "Link \<Rightarrow> kwargs \<Rightarrow> kwargs option" where
  "deliver ln m =
     (case sendDatagram (ln_hash ln) (ln_depth ln) (ln_pieces ln) m of
        Inr (Some out) \<Rightarrow>
          (case recvDatagram (ln_hash ln) (ln_depth ln) (istream_of out) of Inr (m', _) \<Rightarrow> Some m' | Inl _ \<Rightarrow> None)
      | _ \<Rightarrow> None)"

type_synonym ('e, 'p, 'w) conn = "(('e, 'p) Server \<times> 'w) \<times> bool"

definition tid_object :: "Link \<Rightarrow> Object" where
  "tid_object ln = ObjectOf (CScalar (SUInt (ln_tid ln)))"

definition transact :: "Link \<Rightarrow> ('e, 'p, 'w) Local \<Rightarrow> kwargs \<Rightarrow> (('e, 'p, 'w) conn, client_error, kwargs) act" where
  "transact ln L reqArgs = (\<lambda>(s, connectionActive).
     if \<not> connectionActive then (Inl IOException, (s, False))
     else case deliver ln (map_put ''tid'' (tid_object ln) reqArgs) of
            None \<Rightarrow> (Inl IOException, (s, False))
          | Some req \<Rightarrow>
              (case runHandlerOnce L req s of
                 None \<Rightarrow> (Inl IOException, (s, False))
               | Some (reply, done, s) \<Rightarrow>
                   (case deliver ln reply of
                      None \<Rightarrow> (Inl IOException, (s, False))
                    | Some reply \<Rightarrow>
                        if map_of reply ''tid'' = Some (tid_object ln) then (Inr reply, (s, True)) else (Inl WaitsForever, (s, True)))))"

text \<open>The entry \<open>errorMsg\<close> of a reply becomes an exception of the operation; \<open>reply[key]\<close> of a missing entry is a null object.\<close>

definition check_error :: "(string \<Rightarrow> client_error) \<Rightarrow> kwargs \<Rightarrow> ('s, client_error, kwargs) act" where
  "check_error mk reply =
     (case map_of reply ''errorMsg'' of
        None \<Rightarrow> aret reply
      | Some (ObjectOf (CScalar (SString e))) \<Rightarrow> afail (mk e)
      | Some _ \<Rightarrow> afail (ReplyConvertError ''errorMsg''))"

definition reply_at :: "kwargs \<Rightarrow> string \<Rightarrow> Object" where
  "reply_at reply key = (case map_of reply key of None \<Rightarrow> ObjectNull | Some x \<Rightarrow> x)"

definition reply_size :: "('e, 'p, 'w) Local \<Rightarrow> kwargs \<Rightarrow> string \<Rightarrow> ('s, client_error, nat) act" where
  "reply_size L reply key = (case to_size (lo_toSize L) (reply_at reply key) of Inl e \<Rightarrow> afail (ReplyConvertError e) | Inr n \<Rightarrow> aret n)"

definition reply_string :: "kwargs \<Rightarrow> string \<Rightarrow> ('s, client_error, string) act" where
  "reply_string reply key =
     (case reply_at reply key of ObjectOf (CScalar (SString s)) \<Rightarrow> aret s | _ \<Rightarrow> afail (ReplyConvertError key))"

definition request :: "(string \<times> Object) list \<Rightarrow> kwargs" where
  "request entries = fold (\<lambda>(k, x). map_put k x) entries []"

definition RemoteProxyEnvironment_new ::
  "Link \<Rightarrow> ('e, 'p, 'w) Local \<Rightarrow> string \<Rightarrow> (string \<times> string) list \<Rightarrow> (('e, 'p, 'w) conn, client_error, nat \<times> string \<times> string \<times> string) act" where
  "RemoteProxyEnvironment_new ln L name args =
     abind (transact ln L (request (map (\<lambda>(k, v). (k, str_object v)) args @
       [(''action'', str_object ''RemoteProxyEnvironment''), (''name'', str_object name)]))) (\<lambda>reply.
     abind (check_error FactoryError reply) (\<lambda>reply.
     abind (reply_size L reply ''envID'') (\<lambda>i.
     abind (reply_string reply ''upid'') (\<lambda>upid. abind (reply_string reply ''nodeId'') (\<lambda>nodeId.
     abind (reply_string reply ''peerAddr'') (\<lambda>peerAddr. aret (i, upid, nodeId, peerAddr)))))))"

definition RemoteProxyEnvironment_findProxy :: "Link \<Rightarrow> ('e, 'p, 'w) Local \<Rightarrow> nat \<Rightarrow> string \<Rightarrow> (('e, 'p, 'w) conn, client_error, nat) act" where
  "RemoteProxyEnvironment_findProxy ln L env name =
     abind (transact ln L (request [(''action'', str_object ''findProxy''), (''envID'', size_object env), (''name'', str_object name)])) (\<lambda>reply.
     abind (check_error FindError reply) (\<lambda>reply. reply_size L reply ''handleID''))"

definition RemoteProxyEnvironment_convertObjectToProxy ::
  "Link \<Rightarrow> ('e, 'p, 'w) Local \<Rightarrow> nat \<Rightarrow> Object \<Rightarrow> (('e, 'p, 'w) conn, client_error, nat) act" where
  "RemoteProxyEnvironment_convertObjectToProxy ln L env x =
     abind (transact ln L (request [(''action'', str_object ''convertObjectToProxy''), (''envID'', size_object env), (''local'', x)])) (\<lambda>reply.
     abind (check_error ConvertFailed reply) (\<lambda>reply. reply_size L reply ''handleID''))"

text \<open>A proxy that is passed on: the server and the number of a remote handle, and what \<open>toObject\<close> gives or throws.\<close>

record passed_proxy =
  px_remote :: "(string \<times> nat) option"
  px_object :: "client_error + Object"

record RemoteEnv =
  rp_upid :: string
  rp_remoteID :: nat

definition RemoteProxyEnvironment_getHandle ::
  "Link \<Rightarrow> ('e, 'p, 'w) Local \<Rightarrow> RemoteEnv \<Rightarrow> passed_proxy \<Rightarrow> (('e, 'p, 'w) conn, client_error, nat) act" where
  "RemoteProxyEnvironment_getHandle ln L env proxy =
     (let convert = (case px_object proxy of Inl e \<Rightarrow> afail e | Inr x \<Rightarrow> RemoteProxyEnvironment_convertObjectToProxy ln L (rp_remoteID env) x)
      in case px_remote proxy of
           Some (upid, h) \<Rightarrow> if rp_upid env = upid then aret h else convert
         | None \<Rightarrow> convert)"

definition RemoteProxyEnvironment_convertProxyToObject ::
  "Link \<Rightarrow> ('e, 'p, 'w) Local \<Rightarrow> RemoteEnv \<Rightarrow> passed_proxy \<Rightarrow> (('e, 'p, 'w) conn, client_error, Object) act" where
  "RemoteProxyEnvironment_convertProxyToObject ln L env proxy =
     abind (RemoteProxyEnvironment_getHandle ln L env proxy) (\<lambda>handle.
     abind (transact ln L (request [(''action'', str_object ''convertProxyToObject''), (''envID'', size_object (rp_remoteID env)),
       (''handleID'', size_object handle)])) (\<lambda>reply.
     abind (check_error ConvertFailed reply) (\<lambda>reply. aret (reply_at reply ''local''))))"

text \<open>An exception of \<open>m\<close> is caught and another one thrown.\<close>

definition rethrow :: "('x \<Rightarrow> 'y) \<Rightarrow> ('s, 'x, 'a) act \<Rightarrow> ('s, 'y, 'a) act" where
  "rethrow f m s = (case m s of (Inl e, s) \<Rightarrow> (Inl (f e), s) | (Inr x, s) \<Rightarrow> (Inr x, s))"

fun arg_entries ::
  "Link \<Rightarrow> ('e, 'p, 'w) Local \<Rightarrow> RemoteEnv \<Rightarrow> nat \<Rightarrow> passed_proxy list \<Rightarrow> (('e, 'p, 'w) conn, client_error, (string \<times> Object) list) act" where
  "arg_entries ln L env i [] = aret []"
| "arg_entries ln L env i (arg # args) =
     abind (rethrow (CallArgFailed i) (RemoteProxyEnvironment_getHandle ln L env arg)) (\<lambda>h.
     abind (arg_entries ln L env (i + 1) args) (\<lambda>es. aret ((to_string i, size_object h) # es)))"

definition call_request :: "nat \<Rightarrow> string \<Rightarrow> (string \<times> Object) list \<Rightarrow> kwargs" where
  "call_request handle name entries =
     request ([(''action'', str_object ''call''), (''handleID'', size_object handle), (''name'', str_object name)] @ entries)"

definition call_reply :: "('e, 'p, 'w) Local \<Rightarrow> kwargs \<Rightarrow> ('s, client_error, nat) act" where
  "call_reply L reply =
     abind (check_error CallFailed reply) (\<lambda>reply.
       case map_of reply ''message'' of
         Some (ObjectOf (CScalar (SString m))) \<Rightarrow> afail (ExceptionMessage m)
       | Some _ \<Rightarrow> afail (ReplyConvertError ''message'')
       | None \<Rightarrow> reply_size L reply ''handleID'')"

definition RemoteProxyHandle_call ::
  "Link \<Rightarrow> ('e, 'p, 'w) Local \<Rightarrow> RemoteEnv \<Rightarrow> nat \<Rightarrow> string \<Rightarrow> passed_proxy list \<Rightarrow> (('e, 'p, 'w) conn, client_error, nat) act" where
  "RemoteProxyHandle_call ln L env handle name args =
     abind (arg_entries ln L env 0 args) (\<lambda>entries.
     abind (transact ln L (call_request handle name entries)) (call_reply L))"

definition RemoteProxyHandle_compareTo ::
  "Link \<Rightarrow> ('e, 'p, 'w) Local \<Rightarrow> RemoteEnv \<Rightarrow> nat \<Rightarrow> passed_proxy \<Rightarrow> (('e, 'p, 'w) conn, client_error, 32 word) act" where
  "RemoteProxyHandle_compareTo ln L env handle proxy =
     abind (rethrow CompareArgFailed (RemoteProxyEnvironment_getHandle ln L env proxy)) (\<lambda>other.
     abind (transact ln L (request [(''action'', str_object ''compareTo''), (''handleID'', size_object handle), (''otherID'', size_object other)])) (\<lambda>reply.
     abind (check_error CompareFailed reply) (\<lambda>reply.
       case reply_at reply ''result'' of ObjectOf (CScalar (SInt n)) \<Rightarrow> aret n | _ \<Rightarrow> afail (ReplyConvertError ''result''))))"

text \<open>These do not look for an error in the reply.\<close>

definition RemoteProxyHandle_hashCode :: "Link \<Rightarrow> ('e, 'p, 'w) Local \<Rightarrow> nat \<Rightarrow> (('e, 'p, 'w) conn, client_error, nat) act" where
  "RemoteProxyHandle_hashCode ln L handle =
     abind (transact ln L (request [(''action'', str_object ''hashCode''), (''handleID'', size_object handle)])) (\<lambda>reply. reply_size L reply ''result'')"

definition RemoteProxyHandle_toString :: "Link \<Rightarrow> ('e, 'p, 'w) Local \<Rightarrow> nat \<Rightarrow> (('e, 'p, 'w) conn, client_error, string) act" where
  "RemoteProxyHandle_toString ln L handle =
     abind (transact ln L (request [(''action'', str_object ''toString''), (''handleID'', size_object handle)])) (\<lambda>reply. reply_string reply ''result'')"

definition RemoteProxyHandle_getClassName :: "Link \<Rightarrow> ('e, 'p, 'w) Local \<Rightarrow> nat \<Rightarrow> (('e, 'p, 'w) conn, client_error, string) act" where
  "RemoteProxyHandle_getClassName ln L handle =
     abind (transact ln L (request [(''action'', str_object ''getClassName''), (''handleID'', size_object handle)])) (\<lambda>reply. reply_string reply ''result'')"

text \<open>The destructor ignores what is thrown.\<close>

definition RemoteProxyHandle_delete :: "Link \<Rightarrow> ('e, 'p, 'w) Local \<Rightarrow> nat \<Rightarrow> ('e, 'p, 'w) conn \<Rightarrow> ('e, 'p, 'w) conn" where
  "RemoteProxyHandle_delete ln L handle s =
     snd (transact ln L (request [(''action'', str_object ''~RemoteProxyHandle''), (''handleID'', size_object handle)]) s)"

definition RemoteProxyEnvironment_delete :: "Link \<Rightarrow> ('e, 'p, 'w) Local \<Rightarrow> nat \<Rightarrow> ('e, 'p, 'w) conn \<Rightarrow> ('e, 'p, 'w) conn" where
  "RemoteProxyEnvironment_delete ln L env s =
     snd (transact ln L (request [(''action'', str_object ''~RemoteProxyEnvironment''), (''envID'', size_object env)]) s)"

subsection \<open>Requests and replies that fit into a datagram\<close>

lemma map_of_fold_put: "map_of (fold (\<lambda>(k, x). map_put k x) es m) = map_of m ++ map_of (rev es)"
  by (induction es arbitrary: m) (auto simp: map_add_def fun_eq_iff split: option.splits)

lemma sorted_fold_put: "sorted_wrt (<) (map fst m) \<Longrightarrow> sorted_wrt (<) (map fst (fold (\<lambda>(k, x). map_put k x) es m))"
  by (induction es arbitrary: m) (auto simp: sorted_map_put)

lemma set_fold_put: "set (fold (\<lambda>(k, x). map_put k x) es m) \<subseteq> set es \<union> set m"
proof (induction es arbitrary: m)
  case (Cons e es)
  obtain k x where e: "e = (k, x)" by (cases e)
  then show ?case using Cons [of "map_put k x m"] map_put_values [of k x m] by auto
qed simp

text \<open>The values of all messages but those of the conversions are numbers and strings. How long the message gets is bounded by
  the lengths of its strings.\<close>

fun plain :: "Object \<Rightarrow> bool" where
  "plain (ObjectOf (CScalar (SULong _))) = True"
| "plain (ObjectOf (CScalar (SUInt _))) = True"
| "plain (ObjectOf (CScalar (SInt _))) = True"
| "plain (ObjectOf (CScalar (SString _))) = True"
| "plain _ = False"

fun text_size :: "Object \<Rightarrow> nat" where
  "text_size (ObjectOf (CScalar (SString t))) = length t"
| "text_size _ = 0"

definition message_size :: "kwargs \<Rightarrow> nat" where
  "message_size m = sum_list (map (\<lambda>(k, x). length k + text_size x + 31) m)"

lemma message_size_simps [simp]:
  "message_size [] = 0" "message_size ((k, x) # m) = length k + text_size x + 31 + message_size m"
  "message_size (m @ m') = message_size m + message_size m'"
  by (simp_all add: message_size_def)

lemma message_size_put: "message_size (map_put k x m) \<le> length k + text_size x + 31 + message_size m"
  by (induction k x m rule: map_put.induct) auto

lemma message_size_fold_put: "message_size (fold (\<lambda>(k, x). map_put k x) es m) \<le> message_size es + message_size m"
proof (induction es arbitrary: m)
  case (Cons e es)
  obtain k x where e: "e = (k, x)" by (cases e)
  show ?case using le_trans [OF Cons add_left_mono [OF message_size_put [of k x m]]] by (simp add: e add_ac)
qed simp

lemma message_size_member: "(k, x) \<in> set m \<Longrightarrow> length k + text_size x + 31 \<le> message_size m"
  by (induction m) auto

lemma message_size_length: "length m \<le> message_size m"
  by (induction m) auto

definition writes :: "nat \<Rightarrow> archive_error + byte list \<Rightarrow> bool" where
  "writes n out \<longleftrightarrow> (\<exists>bs. out = Inr bs \<and> length bs \<le> n)"

lemma writes_then: "writes a x \<Longrightarrow> writes b y \<Longrightarrow> a + b \<le> n \<Longrightarrow> writes n (then_save x y)"
  unfolding writes_def by auto

lemma writes_numbers:
  "writes 10 (uleb_save (v :: 64 word))" "writes 5 (uleb_save (u :: 32 word))" "writes 5 (sleb_save (i :: 32 word))"
  "writes 1 (bool_save b)"
proof -
  show "writes 10 (uleb_save (v :: 64 word))" "writes 5 (uleb_save (u :: 32 word))"
    using uleb_length_bound [of v] uleb_length_bound [of u] by (simp_all add: writes_def uleb_save_def)
  have "length (sleb_bytes i) \<le> Suc 4"
    unfolding sleb_length using sint_greater_eq [of i] sint_less [of i] by simp
  then show "writes 5 (sleb_save i)" by (simp add: writes_def sleb_save_def)
  show "writes 1 (bool_save b)"
    by (simp add: writes_def bool_save_def char_save_def BinaryObject_save_def OStreamArchiver_writeBytes_def)
qed

lemma writes_string: "writes (5 + length t) (string_save t)"
  unfolding string_save_def basic_string_save_def Let_def
  by (rule writes_then [OF writes_numbers(2), where b = "length t"])
     (simp_all add: writes_def BinaryObject_save_def OStreamArchiver_writeBytes_def)

lemma writes_polymorphic:
  assumes "hashes_ok hash_code" "writes n (container_save save c)"
  shows "writes (n + 11) (object_save (object_registry hash_code save load) hash_code (ObjectOf c))"
proof -
  obtain e where e: "object_registry hash_code save load (hash_code (ctype_of c)) = Some e" "ae_save e = container_save save"
    using object_registry_find [OF assms(1)] by blast
  then have "object_save (object_registry hash_code save load) hash_code (ObjectOf c) =
      then_save (bool_save False) (then_save (uleb_save (ae_hash e)) (container_save save c))"
    by (simp add: object_save_def polymorphic_save_def ArchiveEntry_find_type_def)
  then show ?thesis
    using writes_then [OF writes_numbers(4) writes_then [OF writes_numbers(1) assms(2) order.refl]] by simp
qed

lemma writes_plain:
  assumes "hashes_ok hash_code" "plain x"
  shows "writes (26 + text_size x) (fst (Object_codec hash_code (Suc n)) x)"
proof -
  obtain c where x: "x = ObjectOf c" using assms(2) by (cases x) simp_all
  then have "writes (15 + text_size x) (container_save (fst (Object_codec hash_code n)) c)"
    using assms(2) writes_numbers writes_string
    by (cases x rule: plain.cases)
       (force simp: container_save_def writes_def dest: le_trans [of _ 5] le_trans [of _ 10] intro: le_trans)+
  from writes_polymorphic [OF assms(1) this] show ?thesis using x by (simp add: Let_def add.commute)
qed

lemma writes_entries:
  assumes "hashes_ok hash_code" "\<forall>(k, x) \<in> set m. plain x"
  shows "writes (message_size m) (save_each (pair_save string_save (fst (Object_codec hash_code (Suc n)))) m)"
  using assms(2)
proof (induction m)
  case Nil
  then show ?case by (simp add: writes_def)
next
  case (Cons e m)
  obtain k x where e: "e = (k, x)" by (cases e)
  have "writes (length k + text_size x + 31) (pair_save string_save (fst (Object_codec hash_code (Suc n))) e)"
    unfolding pair_save_def using Cons.prems e
    by (auto intro: writes_then [OF writes_string writes_plain [OF assms(1)]] simp del: Object_codec.simps)
  from writes_then [OF this Cons.IH] Cons.prems e show ?case by (simp del: Object_codec.simps)
qed

lemma writes_message:
  assumes "hashes_ok hash_code" "\<forall>(k, x) \<in> set m. plain x"
  shows "\<exists>bs. Object_serialize hash_code (Suc (Suc n)) (ObjectOf (CObjectKwargs m)) = Inr bs \<and> length bs \<le> message_size m + 21"
proof -
  have "writes (message_size m + 5) (container_save (fst (Object_codec hash_code (Suc n))) (CObjectKwargs m))"
    unfolding container_save_def ObjectContainer.case map_save_def size_save_def
    by (rule writes_then [OF writes_numbers(2) writes_entries [OF assms]]) simp
  from writes_polymorphic [OF assms(1) this]
  have "writes (message_size m + 16) (fst (Object_codec hash_code (Suc (Suc n))) (ObjectOf (CObjectKwargs m)))"
    unfolding Object_codec.simps(2) [of _ "Suc n"] Let_def fst_conv by (simp add: add.assoc)
  from writes_then [OF writes_numbers(2) this, of "message_size m + 21"]
  have "writes (message_size m + 21) (then_save OStreamArchiver_new (fst (Object_codec hash_code (Suc (Suc n))) (ObjectOf (CObjectKwargs m))))"
    unfolding OStreamArchiver_new_def by simp
  then show ?thesis unfolding writes_def Object_serialize_def by (auto simp del: Object_codec.simps)
qed

text \<open>A connection that delivers: the hashes of the types are apart, the archiver writes all bytes, and messages are not
  deeper than the objects that are saved.\<close>

definition link_ok :: "Link \<Rightarrow> bool" where
  "link_ok ln \<longleftrightarrow> hashes_ok (ln_hash ln) \<and> (\<forall>bs. concat (ln_pieces ln bs) = bs) \<and> 2 \<le> ln_depth ln"

definition message_ok :: "kwargs \<Rightarrow> bool" where
  "message_ok m \<longleftrightarrow> sorted_wrt (<) (map fst m) \<and> (\<forall>(k, x) \<in> set m. plain x) \<and> message_size m + 21 < 2 ^ 32"

lemma plain_object: "plain x \<Longrightarrow> text_size x < 2 ^ 32 \<Longrightarrow> object_depth x = 1 \<and> object_ok x"
  by (cases x rule: plain.cases) (simp_all add: scalar_ok_def)

lemma message_delivered:
  assumes "link_ok ln" "message_ok m"
  shows "deliver ln m = Some m"
proof -
  obtain n where n: "ln_depth ln = Suc (Suc n)" using assms(1) unfolding link_ok_def by (metis Suc_le_D numeral_2_eq_2 Suc_le_mono)
  have entry: "length k < 2 ^ 32 \<and> object_depth x = 1 \<and> object_ok x" if "(k, x) \<in> set m" for k x
    using assms(2) message_size_member [OF that] plain_object [of x] that unfolding message_ok_def by fastforce
  have "object_depth (ObjectOf (CObjectKwargs m)) \<le> Suc (Suc n)"
    using entry by (force simp: fold_max_le)
  moreover have "object_ok (ObjectOf (CObjectKwargs m))"
    using assms(2) entry message_size_length [of m] by (fastforce simp: message_ok_def list_all_iff)
  moreover have "length bs < 2 ^ 32" if "Object_serialize (ln_hash ln) (Suc (Suc n)) (ObjectOf (CObjectKwargs m)) = Inr bs" for bs
    using writes_message [of "ln_hash ln" m n] assms that unfolding link_ok_def message_ok_def by fastforce
  ultimately obtain out where "sendDatagram (ln_hash ln) (ln_depth ln) (ln_pieces ln) m = Inr (Some out)"
    "\<forall>rest. recvDatagram (ln_hash ln) (ln_depth ln) (istream_of (out @ rest)) = Inr (m, istream_of rest)"
    using datagram_encoded [of "ln_hash ln" m "ln_depth ln" "ln_pieces ln"] assms(1) unfolding link_ok_def n by blast
  then show ?thesis unfolding deliver_def by (metis (no_types, lifting) append_Nil2 old.sum.simps(6) option.simps(5) case_prod_conv)
qed

lemma message_ok_fold:
  "\<forall>(k, x) \<in> set es. plain x \<Longrightarrow> message_size es + 21 < 2 ^ 32 \<Longrightarrow> message_ok (fold (\<lambda>(k, x). map_put k x) es [])"
  using sorted_fold_put [of "[]" es] set_fold_put [of es "[]"] message_size_fold_put [of es "[]"]
  unfolding message_ok_def by auto

lemma plain_objects [simp]:
  "plain (str_object t)" "plain (size_object n)" "plain (int_object i)" "plain (tid_object ln)"
  "text_size (str_object t) = length t" "text_size (size_object n) = 0" "text_size (int_object i) = 0" "text_size (tid_object ln) = 0"
  by (simp_all add: str_object_def size_object_def int_object_def tid_object_def)

lemma to_size_object [simp]: "n < 2 ^ 64 \<Longrightarrow> to_size other (size_object n) = Inr n"
  by (simp add: to_size_def size_object_def unat_of_nat take_bit_nat_eq_self)

lemma extract_str_object [simp]: "extract_string (str_object t) = aret t"
  by (simp add: extract_string_def str_object_def)

text \<open>A transaction of one thread: the request is answered by what the handler does with it.\<close>

definition with_tid :: "Link \<Rightarrow> (string \<times> Object) list \<Rightarrow> kwargs" where
  "with_tid ln entries = map_put ''tid'' (tid_object ln) (request entries)"

lemma map_of_with_tid: "map_of (with_tid ln entries) = (map_of (rev entries))(''tid'' \<mapsto> tid_object ln)"
  by (simp add: with_tid_def request_def map_of_fold_put)

lemma message_ok_with_tid:
  "\<forall>(k, x) \<in> set entries. plain x \<Longrightarrow> message_size entries + 55 < 2 ^ 32 \<Longrightarrow> message_ok (with_tid ln entries)"
  using message_ok_fold [of "entries @ [(''tid'', tid_object ln)]"] by (auto simp: with_tid_def request_def)

definition reply_of :: "Link \<Rightarrow> (string \<times> Object) list \<Rightarrow> kwargs" where
  "reply_of ln entries = fold (\<lambda>(k, x). map_put k x) entries [(''tid'', tid_object ln)]"

lemma map_of_reply: "map_of (reply_of ln entries) = [''tid'' \<mapsto> tid_object ln] ++ map_of (rev entries)"
  by (simp add: reply_of_def map_of_fold_put)

lemma message_ok_reply:
  "\<forall>(k, x) \<in> set entries. plain x \<Longrightarrow> message_size entries + 55 < 2 ^ 32 \<Longrightarrow> message_ok (reply_of ln entries)"
  using message_ok_fold [of "(''tid'', tid_object ln) # entries"] by (auto simp: reply_of_def)

lemma transact_answered:
  assumes "link_ok ln" "\<forall>(k, x) \<in> set entries. plain x" "message_size entries + 55 < 2 ^ 32"
    "map_of (rev entries) ''action'' = Some (str_object action)"
    "handle_action L (with_tid ln entries) action s = (res, s')"
    "case res of Inl e \<Rightarrow> reply = [(''errorMsg'', str_object e)] | Inr (es, _) \<Rightarrow> reply = es"
    "\<forall>(k, x) \<in> set reply. plain x \<and> k \<noteq> ''tid''" "message_size reply + 55 < 2 ^ 32"
  shows "transact ln L (request entries) (s, True) = (Inr (reply_of ln reply), (s', True))"
proof -
  have "map_of (with_tid ln entries) ''action'' = Some (str_object action)"
    using assms(4) by (simp add: map_of_with_tid)
  then have "string_arg (with_tid ln entries) ''action'' s = (Inr action, s)"
    by (simp add: string_arg_def arg_at_def)
  then have "\<exists>done. runHandlerOnce L (with_tid ln entries) s = Some (reply_of ln reply, done, s')"
    using assms(5,6) by (auto simp: runHandlerOnce_def map_of_with_tid reply_of_def split: sum.splits)
  moreover have "deliver ln (with_tid ln entries) = Some (with_tid ln entries)"
    using assms by (intro message_delivered message_ok_with_tid) auto
  moreover have "deliver ln (reply_of ln reply) = Some (reply_of ln reply)"
    using assms by (intro message_delivered message_ok_reply) auto
  moreover have "map_of (rev reply) ''tid'' = None" using assms(7) by (force simp: map_of_eq_None_iff)
  then have "map_of (reply_of ln reply) ''tid'' = Some (tid_object ln)" by (simp add: map_of_reply map_add_def)
  ultimately show ?thesis by (auto simp: transact_def with_tid_def [symmetric])
qed

subsection \<open>Arguments by number\<close>

lemma to_string_no_word: "\<not> is_digit (hd k) \<Longrightarrow> to_string i \<noteq> k"
  using to_string_digits [of "hd (to_string i)" i] by auto

text \<open>A remote proxy of the same server.\<close>

definition remote_arg :: "RemoteEnv \<Rightarrow> nat \<Rightarrow> passed_proxy" where
  "remote_arg env h = \<lparr>px_remote = Some (rp_upid env, h), px_object = Inl IOException\<rparr>"

lemma arg_entries_handles:
  "arg_entries ln L env k (map (remote_arg env) hs) s = (Inr (map (\<lambda>(i, h). (to_string i, size_object h)) (enumerate k hs)), s)"
  by (induction hs arbitrary: k s) (simp_all add: rethrow_def RemoteProxyEnvironment_getHandle_def remote_arg_def)

lemma to_string_eq_iff [simp]: "to_string m = to_string n \<longleftrightarrow> m = n"
  using to_string_inj by blast

lemma map_of_numbered:
  "map_of (map (\<lambda>(i, h). (to_string i, f h)) (enumerate k hs)) (to_string i) =
     (if k \<le> i \<and> i < k + length hs then Some (f (hs ! (i - k))) else None)"
  by (induction hs arbitrary: k) (auto simp: nth_Cons')

lemma map_of_numbered_word:
  "\<not> is_digit (hd w) \<Longrightarrow> map_of (map (\<lambda>(i, h). (to_string i, f h)) (enumerate k hs)) w = None"
  using to_string_no_word by (fastforce simp: map_of_eq_None_iff)

lemma map_of_rev:
  assumes "distinct (map fst xs)"
  shows "map_of (rev xs) = map_of xs"
proof (rule ext)
  fix k
  show "map_of (rev xs) k = map_of xs k"
  proof (cases "map_of xs k")
    case None
    then show ?thesis by (metis map_of_eq_None_iff set_rev)
  next
    case (Some v)
    then have "(k, v) \<in> set (rev xs)" by (simp add: map_of_SomeD)
    then show ?thesis using assms Some by (metis distinct_rev map_of_is_SomeI rev_map)
  qed
qed

lemma distinct_numbered: "distinct (map fst (map (\<lambda>(i, h). (to_string i, f h)) (enumerate k hs)))"
  by (induction hs arbitrary: k) (auto simp: in_set_enumerate_eq)

lemma arg_numbers_eq:
  assumes "\<And>i. map_of req (to_string i) \<noteq> None \<longleftrightarrow> i < n"
  shows "arg_numbers req = [0..<n]"
proof -
  have "to_string ` {0..<n} \<subseteq> fst ` set req"
    using assms by (auto simp: map_of_eq_None_iff)
  then have "card (to_string ` {0..<n}) \<le> card (set (map fst req))" by (intro card_mono) simp_all
  also have "\<dots> \<le> length req" using card_length [of "map fst req"] by simp
  finally have "n \<le> length req" by (simp add: card_image inj_on_def)
  then have "[0..<length req + 1] = [0..<n] @ n # [n + 1..<length req + 1]"
    using upt_add_eq_append [of 0 n "length req + 1 - n"] upt_conv_Cons [of n "length req + 1"] by simp
  then show ?thesis unfolding arg_numbers_def using assms by (simp add: takeWhile_append)
qed

subsection \<open>The handler on the handles of the client\<close>

text \<open>A handle of the client is the number of a proxy on the server.\<close>

definition holds :: "('e, 'p) Server \<Rightarrow> nat \<Rightarrow> 'p \<Rightarrow> bool" where
  "holds srv h p \<longleftrightarrow> h < 2 ^ 64 \<and> sv_objects srv h = Some (ServedProxy p)"

lemma proxy_arg_holds:
  "map_of req key = Some (size_object h) \<Longrightarrow> holds srv h p \<Longrightarrow> proxy_arg L req key (srv, w) = (Inr p, (srv, w))"
  by (simp add: proxy_arg_def arg_at_def getObjectAtId_def holds_def extract_proxy_def abind_def)

lemma load_args_holds:
  assumes "\<And>i. i < n \<Longrightarrow> map_of req (to_string i) = Some (size_object (hs ! i))" "\<And>i. i < n \<Longrightarrow> holds srv (hs ! i) (ps ! i)"
    "\<forall>i \<in> set is. i < n"
  shows "load_args L req is (srv, w) = (Inr (map (\<lambda>i. ps ! i) is), (srv, w))"
  using assms(3)
proof (induction "is")
  case (Cons i "is")
  then have "proxy_arg L req (to_string i) (srv, w) = (Inr (ps ! i), (srv, w))"
    using assms(1,2) by (intro proxy_arg_holds) auto
  then show ?case using Cons by simp
qed simp

definition call_entries :: "nat \<Rightarrow> string \<Rightarrow> nat list \<Rightarrow> (string \<times> Object) list" where
  "call_entries h name hs =
     [(''action'', str_object ''call''), (''handleID'', size_object h), (''name'', str_object name)] @
     map (\<lambda>(i, h). (to_string i, size_object h)) (enumerate 0 hs)"

lemma no_digits: "\<not> is_digit (hd ''action'')" "\<not> is_digit (hd ''handleID'')" "\<not> is_digit (hd ''name'')" "\<not> is_digit (hd ''tid'')"
  by (simp_all add: is_digit_def)

lemmas number_keys = no_digits [THEN to_string_no_word]

lemma call_entries_lookup:
  "map_of (rev (call_entries h name hs)) ''action'' = Some (str_object ''call'')"
  "map_of (with_tid ln (call_entries h name hs)) ''handleID'' = Some (size_object h)"
  "map_of (with_tid ln (call_entries h name hs)) ''name'' = Some (str_object name)"
  "map_of (with_tid ln (call_entries h name hs)) (to_string i) = (if i < length hs then Some (size_object (hs ! i)) else None)"
proof -
  let ?args = "map (\<lambda>(i, h). (to_string i, size_object h)) (enumerate 0 hs)"
  have "\<forall>k \<in> fst ` set ?args. \<exists>i. k = to_string i" by auto
  then have "distinct (map fst (call_entries h name hs))"
    using distinct_numbered [of size_object 0 hs] number_keys unfolding call_entries_def by (auto; metis)
  note rev = map_of_rev [OF this]
  show "map_of (rev (call_entries h name hs)) ''action'' = Some (str_object ''call'')"
    "map_of (with_tid ln (call_entries h name hs)) ''handleID'' = Some (size_object h)"
    "map_of (with_tid ln (call_entries h name hs)) ''name'' = Some (str_object name)"
    unfolding map_of_with_tid rev by (simp_all add: call_entries_def)
  show "map_of (with_tid ln (call_entries h name hs)) (to_string i) = (if i < length hs then Some (size_object (hs ! i)) else None)"
    unfolding map_of_with_tid rev
    using number_keys [of i] map_of_numbered [of size_object 0 hs i] by (simp add: call_entries_def)
qed

lemma call_action_holds:
  assumes "holds srv h p" "list_all2 (holds srv) hs ps"
  shows "call_action L (with_tid ln (call_entries h name hs)) (srv, w) =
    (case lo_call L p name ps w of
       (Inr q, w') \<Rightarrow> new_proxy q (srv, w')
     | (Inl (ThrowMessage m), w') \<Rightarrow> (Inr ([(''message'', str_object m)], False), (srv, w'))
     | (Inl (ThrowError e), w') \<Rightarrow> (Inl e, (srv, w')))"
proof -
  let ?req = "with_tid ln (call_entries h name hs)"
  have "arg_numbers ?req = [0..<length hs]" by (rule arg_numbers_eq) (simp add: call_entries_lookup)
  moreover have "load_args L ?req [0..<length hs] (srv, w) = (Inr (map (\<lambda>i. ps ! i) [0..<length hs]), (srv, w))"
    by (rule load_args_holds [where n = "length hs" and hs = hs])
       (use assms(2) in \<open>simp_all add: call_entries_lookup list_all2_conv_all_nth\<close>)
  moreover have "map (\<lambda>i. ps ! i) [0..<length hs] = ps" using assms(2) by (simp add: list_all2_lengthD map_nth)
  moreover have "proxy_arg L ?req ''handleID'' (srv, w) = (Inr p, (srv, w))"
    using assms(1) call_entries_lookup(2) by (rule_tac proxy_arg_holds) simp_all
  moreover have "string_arg ?req ''name'' (srv, w) = (Inr name, (srv, w))"
    by (simp add: string_arg_def arg_at_def call_entries_lookup)
  ultimately show ?thesis
    by (auto simp: call_action_def on_world_def split: prod.splits sum.splits call_throw.splits)
qed

lemma message_size_numbered:
  "(\<And>i. i < k + length hs \<Longrightarrow> length (to_string i) \<le> b) \<Longrightarrow>
   message_size (map (\<lambda>(i, h). (to_string i, size_object h)) (enumerate k hs)) \<le> (b + 31) * length hs"
  by (induction hs arbitrary: k) (auto simp: add_mult_distrib intro!: add_mono)

lemma to_string_length_pow: "n < 10 ^ Suc k \<Longrightarrow> length (to_string n) \<le> Suc k"
proof (induction k arbitrary: n)
  case 0
  then show ?case by (subst to_string.simps) simp
next
  case (Suc k)
  then show ?case using Suc.IH [of "n div 10"] by (subst to_string.simps) (auto simp: less_mult_imp_div_less)
qed

lemma call_entries_size:
  assumes "length hs < 10 ^ 10"
  shows "message_size (call_entries h name hs) \<le> 123 + length name + 41 * length hs"
proof -
  have "message_size (map (\<lambda>(i, h). (to_string i, size_object h)) (enumerate 0 hs)) \<le> (10 + 31) * length hs"
    using assms to_string_length_pow [of _ 9] by (intro message_size_numbered) simp
  then show ?thesis by (simp add: call_entries_def)
qed

lemma remote_call_answered:
  assumes "link_ok ln" "holds srv h p" "list_all2 (holds srv) hs ps" "length name + 65 * length hs < 2 ^ 31"
    "lo_call L p name ps w = (r, w')"
    "(case r of
        Inr q \<Rightarrow> new_proxy q (srv, w')
      | Inl (ThrowMessage m) \<Rightarrow> (Inr ([(''message'', str_object m)], False), (srv, w'))
      | Inl (ThrowError e) \<Rightarrow> (Inl e, (srv, w'))) = (res, s')"
    "case res of Inl e \<Rightarrow> reply = [(''errorMsg'', str_object e)] | Inr (es, _) \<Rightarrow> reply = es"
    "\<forall>(k, x) \<in> set reply. plain x \<and> k \<noteq> ''tid''" "message_size reply + 55 < 2 ^ 32"
  shows "RemoteProxyHandle_call ln L env h name (map (remote_arg env) hs) ((srv, w), True) = call_reply L (reply_of ln reply) (s', True)"
proof -
  let ?entries = "call_entries h name hs"
  have "handle_action L (with_tid ln ?entries) ''call'' (srv, w) = (res, s')"
    using assms(5,6) call_action_holds [OF assms(2,3), of L ln name w]
    by (simp add: handle_action_def split: sum.splits call_throw.splits)
  moreover have "\<forall>(k, x) \<in> set ?entries. plain x" "message_size ?entries + 55 < 2 ^ 32"
    using assms(4) call_entries_size [of hs h name] by (auto simp: call_entries_def)
  ultimately have "transact ln L (request ?entries) ((srv, w), True) = (Inr (reply_of ln reply), (s', True))"
    using assms(1,7,8,9) call_entries_lookup(1) by (intro transact_answered)
  then show ?thesis
    by (simp add: RemoteProxyHandle_call_def arg_entries_handles call_request_def call_entries_def)
qed

lemma call_reply_simps [simp]:
  "i < 2 ^ 64 \<Longrightarrow> call_reply L (reply_of ln [(''handleID'', size_object i)]) s = (Inr i, s)"
  "call_reply L (reply_of ln [(''message'', str_object m)]) s = (Inl (ExceptionMessage m), s)"
  "call_reply L (reply_of ln [(''errorMsg'', str_object m)]) s = (Inl (CallFailed m), s)"
  by (simp_all add: call_reply_def check_error_def map_of_reply reply_size_def reply_at_def)
     (simp_all add: str_object_def)

text \<open>
  C32. A call through a remote handle does what the call of the proxy on the server does: the arguments that the server finds are the
  proxies of the handles in their order, the state of the server's process is the one after the local call, a result gets
  a fresh number that stands for it from then on, and a message or an error of the local call is thrown on the client.
\<close>

theorem remote_call_is_local_call:
  assumes "link_ok ln" "holds srv h p" "list_all2 (holds srv) hs ps"
    "length name + 65 * length hs < 2 ^ 31" "sv_id srv + 1 < 2 ^ 64"
    "\<forall>e. fst (lo_call L p name ps w) = Inl (ThrowMessage e) \<or> fst (lo_call L p name ps w) = Inl (ThrowError e) \<longrightarrow> length e < 2 ^ 31"
  shows "RemoteProxyHandle_call ln L env h name (map (remote_arg env) hs) ((srv, w), True) =
    (case lo_call L p name ps w of
       (Inr q, w') \<Rightarrow>
         (Inr (sv_id srv + 1),
          ((srv\<lparr>sv_objects := (sv_objects srv)(sv_id srv + 1 \<mapsto> ServedProxy q), sv_id := sv_id srv + 1\<rparr>, w'), True))
     | (Inl (ThrowMessage m), w') \<Rightarrow> (Inl (ExceptionMessage m), ((srv, w'), True))
     | (Inl (ThrowError e), w') \<Rightarrow> (Inl (CallFailed e), ((srv, w'), True)))"
proof -
  obtain r w' where call: "lo_call L p name ps w = (r, w')" by (cases "lo_call L p name ps w")
  note answered = remote_call_answered [OF assms(1-4) call]
  show ?thesis
  proof (cases r)
    case (Inr q)
    let ?i = "sv_id srv + 1"
    let ?srv = "srv\<lparr>sv_objects := (sv_objects srv)(?i \<mapsto> ServedProxy q), sv_id := ?i\<rparr>"
    have "new_proxy q (srv, w') = (Inr ([(''handleID'', size_object ?i)], False), (?srv, w'))"
      using assms(5) by (simp add: new_proxy_def getNewObjectId_def sz_add_def Let_def)
    then show ?thesis using answered [where res = "Inr ([(''handleID'', size_object ?i)], False)"] call Inr assms(5) by simp
  next
    case (Inl t)
    show ?thesis
    proof (cases t)
      case (ThrowMessage m)
      then show ?thesis using answered [where res = "Inr ([(''message'', str_object m)], False)"] call Inl assms(6) by simp
    next
      case (ThrowError e)
      then show ?thesis using answered [where res = "Inl e"] call Inl assms(6) by simp
    qed
  qed
qed

definition demo_link :: Link where
  "demo_link = \<lparr>ln_hash = demo_hash, ln_depth = 2, ln_pieces = map (\<lambda>b. [b]), ln_tid = 7\<rparr>"

text \<open>A process whose proxies are numbers and whose state counts the calls; a call adds its arguments.\<close>

definition demo_local :: "(unit, nat, nat) Local" where
  "demo_local = \<lparr>
     lo_make = \<lambda>_ _ n. (Inr (), n),
     lo_findProxy = \<lambda>_ name n. (Inr (length name), n),
     lo_convertObjectToProxy = \<lambda>_ _ n. (Inl ''no conversion'', n),
     lo_convertProxyToObject = \<lambda>_ p n. (Inr (size_object p), n),
     lo_call = \<lambda>p name ps n. (if name = ''add'' then Inr (p + sum_list ps) else Inl (ThrowMessage ''no method''), n + 1),
     lo_compareTo = \<lambda>p q n. (Inr (word_of_int (int p - int q)), n),
     lo_hashCode = \<lambda>p n. (Inr p, n),
     lo_toString = \<lambda>p n. (Inr (to_string p), n),
     lo_getClassName = \<lambda>_ n. (Inr ''int'', n),
     lo_toSize = \<lambda>_. None, lo_upid = ''pid'', lo_nodeId = ''node'', lo_peerAddr = ''peer''\<rparr>"

definition demo_server :: "(unit, nat) Server" where
  "demo_server = \<lparr>sv_objects = [1 \<mapsto> ServedEnv (), 2 \<mapsto> ServedProxy 30, 3 \<mapsto> ServedProxy 12], sv_id = 3\<rparr>"

definition demo_env :: RemoteEnv where
  "demo_env = \<lparr>rp_upid = ''pid'', rp_remoteID = 1\<rparr>"

lemma demo_link_ok: "link_ok demo_link"
  by (simp add: link_ok_def demo_link_def demo_hashes_ok)

theorem remote_call_is_local_call_witness:
  "RemoteProxyHandle_call demo_link demo_local demo_env 2 ''add'' (map (remote_arg demo_env) [3, 2]) ((demo_server, 5), True) =
     (Inr 4, ((demo_server\<lparr>sv_objects := (sv_objects demo_server)(4 \<mapsto> ServedProxy 72), sv_id := 4\<rparr>, 6), True))"
  using remote_call_is_local_call [OF demo_link_ok, of demo_server 2 30 "[3, 2]" "[12, 30]" "''add''" demo_local 5 demo_env]
  by (simp add: demo_server_def demo_local_def holds_def)

subsection \<open>Handles stay valid\<close>

text \<open>The objects that the server holds, apart from the null objects of numbers it was only asked for, have numbers that were
  given out; an action gives out at most \<open>n\<close> more and keeps those objects.\<close>

definition live :: "('e, 'p) Server \<Rightarrow> (nat \<times> ('e, 'p) served) set" where
  "live srv = {(k, x). sv_objects srv k = Some x \<and> x \<noteq> ServedNull}"

definition ids_given :: "('e, 'p) Server \<Rightarrow> bool" where
  "ids_given srv \<longleftrightarrow> (\<forall>(k, x) \<in> live srv. k \<le> sv_id srv)"

definition gives :: "nat \<Rightarrow> ('e, 'p) Server \<Rightarrow> ('e, 'p) Server \<Rightarrow> bool" where
  "gives n srv srv' \<longleftrightarrow>
     (ids_given srv \<and> sv_id srv + n < 2 ^ 64 \<longrightarrow>
      ids_given srv' \<and> live srv \<subseteq> live srv' \<and> sv_id srv \<le> sv_id srv' \<and> sv_id srv' \<le> sv_id srv + n)"

definition allocates :: "nat \<Rightarrow> (('e, 'p) Server \<times> 'w, 'x, 'a) act \<Rightarrow> bool" where
  "allocates n m \<longleftrightarrow> (\<forall>srv w r srv' w'. m (srv, w) = (r, (srv', w')) \<longrightarrow> gives n srv srv')"

lemma gives_refl [simp]: "gives n srv srv"
  by (simp add: gives_def)

lemma gives_trans: "gives a s s' \<Longrightarrow> gives b s' s'' \<Longrightarrow> a + b \<le> n \<Longrightarrow> gives n s s''"
  by (auto simp: gives_def)

lemma allocatesD: "allocates n m \<Longrightarrow> m (srv, w) = (r, (srv', w')) \<Longrightarrow> gives n srv srv'"
  unfolding allocates_def by blast

lemma allocates_bind:
  assumes "allocates a m" "\<And>x. allocates b (f x)" "a + b \<le> n"
  shows "allocates n (abind m f)"
  unfolding allocates_def
proof (intro allI impI)
  fix srv w r srv' w'
  assume run: "abind m f (srv, w) = (r, (srv', w'))"
  obtain r1 srv1 w1 where first: "m (srv, w) = (r1, (srv1, w1))" by (metis surj_pair)
  note one = allocatesD [OF assms(1) first]
  show "gives n srv srv'"
  proof (cases r1)
    case (Inl e)
    then show ?thesis using run first gives_trans [OF one gives_refl assms(3)] by simp
  next
    case (Inr x)
    then have "f x (srv1, w1) = (r, (srv', w'))" using run first by simp
    from gives_trans [OF one allocatesD [OF assms(2) this] assms(3)] show ?thesis .
  qed
qed

named_theorems allocating

lemma allocates_pure [allocating]:
  "allocates n (aret x)" "allocates n (afail e)" "allocates n (arg_at req key)" "allocates n (extract_string o1)"
  "allocates n (extract_env o2)" "allocates n (extract_proxy o3)"
  by (simp_all add: allocates_def arg_at_def extract_string_def extract_env_def extract_proxy_def
      split: option.split Object.split ObjectContainer.split scalar.split served.split)

lemma allocates_world [allocating]: "allocates n (on_world f)"
  by (auto simp: allocates_def on_world_def split: prod.splits)

lemma allocates_get [allocating]: "allocates n (getObjectAtId other i)"
  by (auto simp: allocates_def getObjectAtId_def gives_def ids_given_def live_def split: sum.splits option.splits)

lemma allocates_new: "allocates (Suc 0) (getNewObjectId x)"
  by (force simp: allocates_def getNewObjectId_def gives_def ids_given_def live_def sz_add_def Let_def)

lemma allocates_bind_new: "(\<And>i. allocates 0 (f i)) \<Longrightarrow> allocates (Suc 0) (abind (getNewObjectId x) f)"
  by (rule allocates_bind [OF allocates_new]) simp_all

lemma allocates_bind_old:
  assumes "allocates 0 m" "\<And>x. allocates n (f x)"
  shows "allocates n (abind m f)"
  by (rule allocates_bind [OF assms]) simp

lemma allocates_if: "(b \<Longrightarrow> allocates n m) \<Longrightarrow> (\<not> b \<Longrightarrow> allocates n m') \<Longrightarrow> allocates n (if b then m else m')"
  by simp

lemma allocates_args [allocating]:
  "allocates n (string_arg req key)" "allocates n (env_arg L req)" "allocates n (proxy_arg L req key)"
  unfolding string_arg_def env_arg_def proxy_arg_def by (rule allocates_bind_old allocating)+

lemma allocates_load [allocating]: "allocates n (load_args L req is)"
  by (induction "is" arbitrary: n) (simp_all only: load_args.simps, (assumption | rule allocates_bind_old allocating)+)

lemma allocates_new_proxy [allocating]: "allocates (Suc 0) (new_proxy p)"
  unfolding new_proxy_def by (rule allocates_bind_new allocating)+

lemma allocates_call_action [allocating]: "allocates (Suc 0) (call_action L req)"
proof -
  have call: "allocates (Suc 0) (\<lambda>s. case on_world (lo_call L proxy name args) s of
           (Inl (ThrowMessage m), s) \<Rightarrow> (Inr ([(''message'', str_object m)], False), s)
         | (Inl (ThrowError e), s) \<Rightarrow> (Inl e, s)
         | (Inr result, s) \<Rightarrow> new_proxy result s)" for proxy name args
    using allocatesD [OF allocates_new_proxy] unfolding allocates_def on_world_def
    by (auto split: prod.splits sum.splits call_throw.splits)
  show ?thesis unfolding call_action_def by (rule allocates_bind_old allocating call)+
qed

lemma allocates_action:
  assumes "action \<noteq> ''~RemoteProxyEnvironment''" "action \<noteq> ''~RemoteProxyHandle''"
  shows "allocates (Suc 0) (handle_action L req action)"
  unfolding handle_action_def if_not_P [OF assms(1)] if_not_P [OF assms(2)]
  by (rule allocates_if allocates_bind_new allocates_bind_old allocating)+

text \<open>The destructors of the client remove the object of one number.\<close>

definition removes :: "(Object \<Rightarrow> nat option) \<Rightarrow> kwargs \<Rightarrow> nat \<Rightarrow> bool" where
  "removes other req h \<longleftrightarrow>
     (\<exists>(action, key) \<in> {(''~RemoteProxyEnvironment'', ''envID''), (''~RemoteProxyHandle'', ''handleID'')}. \<exists>i.
        map_of req ''action'' = Some (str_object action) \<and> map_of req key = Some i \<and> to_size other i = Inr h)"

definition served_step :: "(Object \<Rightarrow> nat option) \<Rightarrow> kwargs \<Rightarrow> ('e, 'p) Server \<Rightarrow> ('e, 'p) Server \<Rightarrow> bool" where
  "served_step other req srv srv' \<longleftrightarrow>
     (ids_given srv \<and> sv_id srv + 1 < 2 ^ 64 \<longrightarrow>
      ids_given srv' \<and> sv_id srv' \<le> sv_id srv + 1 \<and> (\<forall>(h, x) \<in> live srv. (h, x) \<in> live srv' \<or> removes other req h))"

lemma gives_served_step: "gives (Suc 0) srv srv' \<Longrightarrow> served_step other req srv srv'"
  by (auto simp: gives_def served_step_def)

lemma remove_served_step:
  assumes "removeObjectAtId other i (srv, w) = (r, (srv', w'))" "map_of req ''action'' = Some (str_object action)" "map_of req key = Some i"
    "(action, key) \<in> {(''~RemoteProxyEnvironment'', ''envID''), (''~RemoteProxyHandle'', ''handleID'')}"
  shows "served_step other req srv srv'"
proof (cases "to_size other i")
  case (Inr h)
  then have "removes other req h" using assms(2-4) unfolding removes_def by blast
  then show ?thesis using assms(1) Inr
    by (auto simp: removeObjectAtId_def served_step_def live_def ids_given_def split: if_splits)
qed (use assms(1) in \<open>auto simp: removeObjectAtId_def served_step_def\<close>)

lemma remove_action_step:
  assumes "abind (arg_at req key) (\<lambda>i. abind (removeObjectAtId other i) (\<lambda>_. aret x)) (srv, w) = (r, (srv', w'))"
    "map_of req ''action'' = Some (str_object action)"
    "(action, key) \<in> {(''~RemoteProxyEnvironment'', ''envID''), (''~RemoteProxyHandle'', ''handleID'')}"
  shows "served_step other req srv srv'"
proof (cases "map_of req key")
  case None
  then show ?thesis using assms(1) by (auto simp: arg_at_def abind_def served_step_def)
next
  case (Some i)
  obtain r1 srv1 w1 where rem: "removeObjectAtId other i (srv, w) = (r1, (srv1, w1))" by (metis surj_pair)
  then have "srv1 = srv'" using assms(1) Some by (cases r1) (simp_all add: arg_at_def abind_def)
  then show ?thesis using remove_served_step [OF rem assms(2) Some assms(3)] by simp
qed

lemma bind_string_arg:
  "abind (string_arg req key) f s = (case map_of req key of
     Some (ObjectOf (CScalar (SString t))) \<Rightarrow> f t s | Some _ \<Rightarrow> (Inl ''Object Convert Error'', s) | None \<Rightarrow> (Inl ''map::at'', s))"
  by (auto simp: string_arg_def arg_at_def abind_def extract_string_def
      split: option.split Object.split ObjectContainer.split scalar.split)

lemma action_served_step:
  assumes "abind (string_arg req ''action'') (handle_action L req) (srv, w) = (r, (srv', w'))"
  shows "served_step (lo_toSize L) req srv srv'"
proof (cases "\<exists>action. map_of req ''action'' = Some (str_object action)")
  case True
  then obtain action where action: "map_of req ''action'' = Some (str_object action)" by blast
  then have run: "handle_action L req action (srv, w) = (r, (srv', w'))"
    using assms by (simp add: bind_string_arg str_object_def)
  consider "action = ''~RemoteProxyEnvironment''" | "action = ''~RemoteProxyHandle''"
    | "action \<noteq> ''~RemoteProxyEnvironment''" "action \<noteq> ''~RemoteProxyHandle''" by blast
  then show ?thesis
  proof cases
    case 1
    then show ?thesis using run action by (intro remove_action_step [where key = "''envID''"]) (auto simp: handle_action_def)
  next
    case 2
    then show ?thesis using run action by (intro remove_action_step [where key = "''handleID''"]) (auto simp: handle_action_def)
  next
    case 3
    then show ?thesis using allocatesD [OF allocates_action run] by (rule_tac gives_served_step)
  qed
next
  case False
  then have "srv' = srv" using assms
    by (auto simp: bind_string_arg str_object_def split: option.splits Object.splits ObjectContainer.splits scalar.splits)
  then show ?thesis by (auto simp: served_step_def)
qed

lemma handler_served_step:
  assumes "runHandlerOnce L req (srv, w) = Some (reply, done, (srv', w'))"
  shows "served_step (lo_toSize L) req srv srv'"
proof -
  obtain r where "abind (string_arg req ''action'') (handle_action L req) (srv, w) = (r, (srv', w'))"
    using assms by (auto simp: runHandlerOnce_def split: option.splits sum.splits prod.splits)
  then show ?thesis by (rule action_served_step)
qed

text \<open>
  C27. A handle stays what it is: whatever requests the server handles, malformed ones and ones for numbers that it never gave out
  included, the object of a number is the same until a destructor names that number.
\<close>

theorem handles_stay_valid:
  assumes "ids_given srv" "sv_id srv + length reqs < 2 ^ 64" "(h, x) \<in> live srv" "\<forall>req \<in> set reqs. \<not> removes (lo_toSize L) req h"
  shows "(h, x) \<in> live (fst (snd (runHandler L reqs (srv, w))))"
  using assms
proof (induction reqs arbitrary: srv w)
  case (Cons req reqs)
  show ?case
  proof (cases "runHandlerOnce L req (srv, w)")
    case None
    then show ?thesis using Cons.prems by simp
  next
    case (Some res)
    obtain reply fin srv' w' where res: "res = (reply, fin, (srv', w'))" by (metis prod.exhaust)
    have "ids_given srv'" "sv_id srv' + length reqs < 2 ^ 64" "(h, x) \<in> live srv'"
      using handler_served_step [OF Some [unfolded res]] Cons.prems unfolding served_step_def by auto
    then have "(h, x) \<in> live (fst (snd (runHandler L reqs (srv', w'))))" using Cons by simp
    then show ?thesis using \<open>(h, x) \<in> live srv'\<close> Some res by (cases "runHandler L reqs (srv', w')") simp
  qed
qed simp

definition demo_requests :: "kwargs list" where
  "demo_requests = [
     request [(''tid'', size_object 1), (''action'', str_object ''hashCode''), (''handleID'', size_object 99)],
     request [(''tid'', size_object 1), (''action'', str_object ''~RemoteProxyHandle''), (''handleID'', size_object 3)],
     request [(''tid'', size_object 1), (''action'', str_object ''findProxy''), (''envID'', size_object 1), (''name'', str_object ''abc'')],
     request [(''action'', str_object ''toString'')]]"

theorem handles_stay_valid_witness:
  "(2, ServedProxy 30) \<in> live (fst (snd (runHandler demo_local demo_requests (demo_server, 0))))"
  by (rule handles_stay_valid)
     (auto simp: ids_given_def live_def demo_server_def demo_requests_def removes_def request_def str_object_def size_object_def
       to_size_def demo_local_def split: if_splits)

end
