(* ===== verification/RemoteThreads.thy ===== *)
theory RemoteThreads
  imports Remote
begin

section \<open>Threads that share a connection\<close>

text \<open>
  \<open>RemoteProxyEnvironment::transact\<close> in \<open>lib/Remote/RemoteProxy.cpp\<close>, for threads that make a request each over one connection: one of them
  blocks on the input stream and puts the replies of the others into a cache, the others wait for a condition.

  \<^item> A step is what one thread does between two accesses to shared state that others can see: a section under the lock is
    one step, except that waiting on the condition is a step of its own behind the test, and that the error path clears
    \<open>isBlocking\<close> and notifies without the lock. \<open>None\<close> says that the step cannot be made now.
  \<^item> The server is \<open>runHandlerOnce\<close> of the theory \<open>Remote\<close>; requests and replies are in order on their way.
  \<^item> \<open>FailEvent\<close> is an exception of \<open>recvDatagram\<close>, \<open>WakeEvent\<close> is a spurious wakeup.
\<close>

datatype phase =
    NotSent | LoopTop | MustWait | OnCond | OnStream | GotReply kwargs | MustNotify "kwargs option" | HasReply kwargs
  | Failing | Threw

record ('e, 'p, 'w) Client =
  cl_threads :: nat
  cl_tid :: "nat \<Rightarrow> 32 word"
  cl_request :: "nat \<Rightarrow> kwargs"
  cl_local :: "('e, 'p, 'w) Local"

record ('e, 'p, 'w) Conn =
  cn_active :: bool
  cn_blocking :: bool
  cn_lock :: "nat option"
  cn_cache :: "nat \<rightharpoonup> kwargs"
  cn_out :: "kwargs list"
  cn_in :: "kwargs list"
  cn_phase :: "nat \<Rightarrow> phase"
  cn_server :: "('e, 'p) Server \<times> 'w"
  cn_ended :: bool

definition tid_key :: "('e, 'p, 'w) Client \<Rightarrow> nat \<Rightarrow> nat" where
  "tid_key cl t = unat (cl_tid cl t)"

definition sent_request :: "('e, 'p, 'w) Client \<Rightarrow> nat \<Rightarrow> kwargs" where
  "sent_request cl t = map_put ''tid'' (ObjectOf (CScalar (SUInt (cl_tid cl t)))) (cl_request cl t)"

text \<open>The conversion of the reply's \<open>tid\<close> to \<open>size_t\<close>.\<close>

definition reply_tid :: "kwargs \<Rightarrow> nat option" where
  "reply_tid reply = (case map_of reply ''tid'' of Some (ObjectOf (CScalar (SUInt w))) \<Rightarrow> Some (unat w) | _ \<Rightarrow> None)"

definition Conn_new :: "('e, 'p) Server \<times> 'w \<Rightarrow> ('e, 'p, 'w) Conn" where
  "Conn_new srv =
     \<lparr>cn_active = True, cn_blocking = False, cn_lock = None, cn_cache = (\<lambda>_. None), cn_out = [], cn_in = [],
      cn_phase = (\<lambda>_. NotSent), cn_server = srv, cn_ended = False\<rparr>"

definition goto :: "nat \<Rightarrow> phase \<Rightarrow> ('e, 'p, 'w) Conn \<Rightarrow> ('e, 'p, 'w) Conn" where
  "goto t ph c = c\<lparr>cn_phase := (cn_phase c)(t := ph)\<rparr>"

text \<open>\<open>notify_all\<close> and the next phase of the thread.\<close>

definition notify_all :: "nat \<Rightarrow> phase \<Rightarrow> ('e, 'p, 'w) Conn \<Rightarrow> ('e, 'p, 'w) Conn" where
  "notify_all t ph c = c\<lparr>cn_phase := (\<lambda>t'. if cn_phase c t' = OnCond then LoopTop else cn_phase c t')(t := ph)\<rparr>"

definition send_request :: "('e, 'p, 'w) Client \<Rightarrow> nat \<Rightarrow> ('e, 'p, 'w) Conn \<Rightarrow> ('e, 'p, 'w) Conn option" where
  "send_request cl t c =
     (if cn_phase c t \<noteq> NotSent then None
      else if \<not> cn_active c then Some (goto t Threw c)
      else Some (goto t LoopTop (c\<lparr>cn_out := cn_out c @ [sent_request cl t]\<rparr>)))"

definition loop_top :: "('e, 'p, 'w) Client \<Rightarrow> nat \<Rightarrow> ('e, 'p, 'w) Conn \<Rightarrow> ('e, 'p, 'w) Conn option" where
  "loop_top cl t c =
     (if cn_phase c t \<noteq> LoopTop \<or> cn_lock c \<noteq> None then None
      else case cn_cache c (tid_key cl t) of
        Some reply \<Rightarrow> Some (goto t (MustNotify (Some reply)) (c\<lparr>cn_cache := (cn_cache c)(tid_key cl t := None)\<rparr>))
      | None \<Rightarrow>
          if cn_blocking c then Some (goto t MustWait (c\<lparr>cn_lock := Some t\<rparr>))
          else Some (goto t OnStream (c\<lparr>cn_blocking := True\<rparr>)))"

definition cond_wait :: "nat \<Rightarrow> ('e, 'p, 'w) Conn \<Rightarrow> ('e, 'p, 'w) Conn option" where
  "cond_wait t c = (if cn_phase c t \<noteq> MustWait then None else Some (goto t OnCond (c\<lparr>cn_lock := None\<rparr>)))"

definition read_stream :: "nat \<Rightarrow> ('e, 'p, 'w) Conn \<Rightarrow> ('e, 'p, 'w) Conn option" where
  "read_stream t c =
     (case cn_in c of
        reply # rest \<Rightarrow> if cn_phase c t \<noteq> OnStream then None else Some (goto t (GotReply reply) (c\<lparr>cn_in := rest\<rparr>))
      | [] \<Rightarrow> None)"

text \<open>A reply without \<open>tid\<close> throws; the destructor of the lock releases it, and nobody is notified.\<close>

definition store_reply :: "('e, 'p, 'w) Client \<Rightarrow> nat \<Rightarrow> ('e, 'p, 'w) Conn \<Rightarrow> ('e, 'p, 'w) Conn option" where
  "store_reply cl t c =
     (case cn_phase c t of
        GotReply reply \<Rightarrow>
          if cn_lock c \<noteq> None then None
          else let c = c\<lparr>cn_blocking := False\<rparr> in
            (case reply_tid reply of
               None \<Rightarrow> Some (goto t Threw c)
             | Some replyTid \<Rightarrow>
                 if replyTid = tid_key cl t then Some (goto t (MustNotify (Some reply)) c)
                 else Some (goto t (MustNotify None) (c\<lparr>cn_cache := (cn_cache c)(replyTid \<mapsto> reply)\<rparr>)))
      | _ \<Rightarrow> None)"

definition notify_step :: "nat \<Rightarrow> ('e, 'p, 'w) Conn \<Rightarrow> ('e, 'p, 'w) Conn option" where
  "notify_step t c =
     (case cn_phase c t of
        MustNotify None \<Rightarrow> Some (notify_all t LoopTop c)
      | MustNotify (Some reply) \<Rightarrow> Some (notify_all t (HasReply reply) c)
      | Failing \<Rightarrow> Some (notify_all t Threw (c\<lparr>cn_active := False\<rparr>))
      | _ \<Rightarrow> None)"

definition recv_failed :: "nat \<Rightarrow> ('e, 'p, 'w) Conn \<Rightarrow> ('e, 'p, 'w) Conn option" where
  "recv_failed t c = (if cn_phase c t \<noteq> OnStream then None else Some (goto t Failing (c\<lparr>cn_blocking := False\<rparr>)))"

definition spurious_wakeup :: "nat \<Rightarrow> ('e, 'p, 'w) Conn \<Rightarrow> ('e, 'p, 'w) Conn option" where
  "spurious_wakeup t c = (if cn_phase c t \<noteq> OnCond then None else Some (goto t LoopTop c))"

text \<open>The server handles the oldest request; an exception out of the handler ends it.\<close>

definition serve :: "('e, 'p, 'w) Client \<Rightarrow> ('e, 'p, 'w) Conn \<Rightarrow> ('e, 'p, 'w) Conn option" where
  "serve cl c =
     (case cn_out c of
        [] \<Rightarrow> None
      | req # rest \<Rightarrow>
          if cn_ended c then None
          else case runHandlerOnce (cl_local cl) req (cn_server c) of
            None \<Rightarrow> Some (c\<lparr>cn_out := rest, cn_ended := True\<rparr>)
          | Some (reply, done, s) \<Rightarrow> Some (c\<lparr>cn_out := rest, cn_in := cn_in c @ [reply], cn_server := s, cn_ended := done\<rparr>))"

datatype event = SendEvent nat | TopEvent nat | WaitEvent nat | ReadEvent nat | StoreEvent nat | NotifyEvent nat | ServeEvent
  | FailEvent nat | WakeEvent nat

fun conn_step :: "('e, 'p, 'w) Client \<Rightarrow> event \<Rightarrow> ('e, 'p, 'w) Conn \<Rightarrow> ('e, 'p, 'w) Conn option" where
  "conn_step cl (SendEvent t) c = (if t < cl_threads cl then send_request cl t c else None)"
| "conn_step cl (TopEvent t) c = (if t < cl_threads cl then loop_top cl t c else None)"
| "conn_step cl (WaitEvent t) c = (if t < cl_threads cl then cond_wait t c else None)"
| "conn_step cl (ReadEvent t) c = (if t < cl_threads cl then read_stream t c else None)"
| "conn_step cl (StoreEvent t) c = (if t < cl_threads cl then store_reply cl t c else None)"
| "conn_step cl (NotifyEvent t) c = (if t < cl_threads cl then notify_step t c else None)"
| "conn_step cl ServeEvent c = serve cl c"
| "conn_step cl (FailEvent t) c = (if t < cl_threads cl then recv_failed t c else None)"
| "conn_step cl (WakeEvent t) c = (if t < cl_threads cl then spurious_wakeup t c else None)"

fun conn_run :: "('e, 'p, 'w) Client \<Rightarrow> event list \<Rightarrow> ('e, 'p, 'w) Conn \<Rightarrow> ('e, 'p, 'w) Conn option" where
  "conn_run cl [] c = Some c"
| "conn_run cl (e # es) c = (case conn_step cl e c of None \<Rightarrow> None | Some c \<Rightarrow> conn_run cl es c)"

text \<open>Events of a connection that does not fail.\<close>

fun regular :: "event \<Rightarrow> bool" where
  "regular (FailEvent _) = False"
| "regular (WakeEvent _) = False"
| "regular _ = True"

subsection \<open>What the handler replies\<close>

text \<open>The reply has the \<open>tid\<close> of its request, and only the destructor of the environment ends the handler.\<close>

definition replies :: "string \<Rightarrow> ('s, string, (string \<times> Object) list \<times> bool) act \<Rightarrow> bool" where
  "replies action m \<longleftrightarrow>
     (\<forall>s entries fin s'. m s = (Inr (entries, fin), s') \<longrightarrow>
        map_of (rev entries) ''tid'' = None \<and> (fin \<longrightarrow> action = ''~RemoteProxyEnvironment''))"

named_theorems replying

lemma replies_bind [replying]:
  assumes "\<And>x. replies action (f x)"
  shows "replies action (abind m f)"
  using assms unfolding replies_def abind_def by (force split: prod.splits sum.splits)

lemma replies_pure [replying]:
  "map_of (rev entries) ''tid'' = None \<Longrightarrow> (fin \<Longrightarrow> action = ''~RemoteProxyEnvironment'') \<Longrightarrow> replies action (aret (entries, fin))"
  "replies action (afail e)"
  by (auto simp: replies_def)

lemma replies_new_proxy [replying]: "replies action (new_proxy p)"
  unfolding new_proxy_def by (rule replying | simp)+

lemma replies_call_action [replying]: "replies action (call_action L req)"
proof -
  have call: "replies action (\<lambda>s. case on_world (lo_call L proxy name args) s of
           (Inl (ThrowMessage m), s) \<Rightarrow> (Inr ([(''message'', str_object m)], False), s)
         | (Inl (ThrowError e), s) \<Rightarrow> (Inl e, s)
         | (Inr result, s) \<Rightarrow> new_proxy result s)" for proxy name args
    using replies_new_proxy [of action] unfolding replies_def on_world_def
    by (fastforce split: prod.splits sum.splits call_throw.splits)
  show ?thesis unfolding call_action_def by (rule replying call)+
qed

lemma replies_action: "replies action (handle_action L req action)"
proof -
  have if_rule: "(b \<Longrightarrow> replies action m) \<Longrightarrow> (\<not> b \<Longrightarrow> replies action m') \<Longrightarrow> replies action (if b then m else m')"
    for b and m m' :: "(('a, 'b) Server \<times> 'c, string, (string \<times> Object) list \<times> bool) act" by simp
  show ?thesis unfolding handle_action_def
    by (rule if_rule replies_bind replies_new_proxy replies_call_action replies_pure | simp)+
qed

text \<open>The replies that the handler can make to the request of a thread.\<close>

definition answers :: "('e, 'p, 'w) Client \<Rightarrow> nat \<Rightarrow> kwargs \<Rightarrow> bool" where
  "answers cl t reply \<longleftrightarrow> (\<exists>s fin s'. runHandlerOnce (cl_local cl) (sent_request cl t) s = Some (reply, fin, s'))"

definition client_ok :: "('e, 'p, 'w) Client \<Rightarrow> bool" where
  "client_ok cl \<longleftrightarrow>
     inj_on (tid_key cl) {..<cl_threads cl} \<and>
     (\<forall>t < cl_threads cl. map_of (cl_request cl t) ''action'' \<noteq> Some (str_object ''~RemoteProxyEnvironment''))"

lemma handled_request:
  "\<exists>reply fin s'. runHandlerOnce (cl_local cl) (sent_request cl t) s = Some (reply, fin, s') \<and>
     map_of reply ''tid'' = Some (ObjectOf (CScalar (SUInt (cl_tid cl t)))) \<and>
     (fin \<longrightarrow> map_of (cl_request cl t) ''action'' = Some (str_object ''~RemoteProxyEnvironment''))"
proof -
  have tid: "map_of (sent_request cl t) ''tid'' = Some (ObjectOf (CScalar (SUInt (cl_tid cl t))))"
    and action: "map_of (sent_request cl t) ''action'' = map_of (cl_request cl t) ''action''"
    by (simp_all add: sent_request_def)
  obtain r s' where r: "abind (string_arg (sent_request cl t) ''action'') (handle_action (cl_local cl) (sent_request cl t)) s = (r, s')"
    by (meson surj_pair)
  show ?thesis
  proof (cases r)
    case (Inl e)
    then show ?thesis using r tid by (auto simp: runHandlerOnce_def intro: exI [of _ False])
  next
    case (Inr res)
    obtain entries fin where res: "res = (entries, fin)" by fastforce
    obtain a s1 where a: "string_arg (sent_request cl t) ''action'' s = (Inr a, s1)"
      and run: "handle_action (cl_local cl) (sent_request cl t) a s1 = (Inr (entries, fin), s')"
      using r Inr res unfolding abind_def by (force split: prod.splits sum.splits)
    have "map_of (cl_request cl t) ''action'' = Some (str_object a)"
      using a action by (auto simp: string_arg_def arg_at_def abind_def extract_string_def str_object_def
          split: option.splits Object.splits ObjectContainer.splits scalar.splits)
    moreover have "map_of (rev entries) ''tid'' = None \<and> (fin \<longrightarrow> a = ''~RemoteProxyEnvironment'')"
      using replies_action [of a "cl_local cl" "sent_request cl t"] run unfolding replies_def by blast
    ultimately show ?thesis using r Inr res tid by (auto simp: runHandlerOnce_def map_of_fold_put map_add_def)
  qed
qed

lemma answers_tid:
  assumes "answers cl t reply"
  shows "reply_tid reply = Some (tid_key cl t)"
proof -
  obtain s fin s' where "runHandlerOnce (cl_local cl) (sent_request cl t) s = Some (reply, fin, s')"
    using assms unfolding answers_def by blast
  then show ?thesis using handled_request [of cl t s] by (auto simp: reply_tid_def tid_key_def)
qed

lemma serve_request:
  assumes "client_ok cl" "t < cl_threads cl"
  shows "\<exists>reply s'. runHandlerOnce (cl_local cl) (sent_request cl t) s = Some (reply, False, s') \<and> answers cl t reply"
proof -
  obtain reply fin s' where "runHandlerOnce (cl_local cl) (sent_request cl t) s = Some (reply, fin, s')"
      "fin \<longrightarrow> map_of (cl_request cl t) ''action'' = Some (str_object ''~RemoteProxyEnvironment'')"
    using handled_request [of cl t s] by blast
  moreover from this have "fin = False" using assms unfolding client_ok_def by blast
  ultimately show ?thesis unfolding answers_def by blast
qed

subsection \<open>The invariant\<close>

definition reader :: "phase \<Rightarrow> bool" where
  "reader ph \<longleftrightarrow> ph = OnStream \<or> (\<exists>r. ph = GotReply r)"

definition notifier :: "phase \<Rightarrow> bool" where
  "notifier ph \<longleftrightarrow> (\<exists>r. ph = MustNotify r)"

definition unanswered :: "phase \<Rightarrow> bool" where
  "unanswered ph \<longleftrightarrow> ph \<in> {LoopTop, MustWait, OnCond, OnStream, MustNotify None} \<or> (\<exists>r. ph = GotReply r)"

lemma phase_simps [simp]:
  "reader OnStream" "reader (GotReply r)" "\<not> reader NotSent" "\<not> reader LoopTop" "\<not> reader MustWait" "\<not> reader OnCond"
  "\<not> reader (MustNotify m)" "\<not> reader (HasReply r)"
  "notifier (MustNotify m)" "\<not> notifier NotSent" "\<not> notifier LoopTop" "\<not> notifier MustWait" "\<not> notifier OnCond" "\<not> notifier OnStream"
  "\<not> notifier (GotReply r)" "\<not> notifier (HasReply r)"
  "unanswered LoopTop" "unanswered MustWait" "unanswered OnCond" "unanswered OnStream" "unanswered (MustNotify None)"
  "unanswered (GotReply r)" "\<not> unanswered NotSent" "\<not> unanswered (HasReply r)" "\<not> unanswered (MustNotify (Some r))"
  by (simp_all add: reader_def notifier_def unanswered_def)

text \<open>The lock, and the thread \<open>rd\<close> that reads the stream: a thread that waits has someone to notify it.\<close>

definition locks_inv :: "nat \<Rightarrow> nat option \<Rightarrow> ('e, 'p, 'w) Conn \<Rightarrow> bool" where
  "locks_inv n rd c \<longleftrightarrow>
     (\<forall>t. cn_lock c = Some t \<longrightarrow> t < n) \<and> (\<forall>t. rd = Some t \<longrightarrow> t < n) \<and> (cn_blocking c \<longleftrightarrow> rd \<noteq> None) \<and>
     (\<forall>t < n. cn_phase c t = MustWait \<longleftrightarrow> cn_lock c = Some t) \<and>
     (\<forall>t < n. reader (cn_phase c t) \<longleftrightarrow> rd = Some t) \<and>
     (cn_lock c \<noteq> None \<longrightarrow> cn_blocking c) \<and>
     (cn_blocking c \<or> (\<exists>t < n. notifier (cn_phase c t)) \<or> (\<forall>t < n. cn_phase c t \<noteq> OnCond))"

text \<open>Every message belongs to a thread.\<close>

fun phase_ok :: "('e, 'p, 'w) Client \<Rightarrow> nat \<Rightarrow> phase \<Rightarrow> bool" where
  "phase_ok cl t (GotReply r) \<longleftrightarrow> (\<exists>t' < cl_threads cl. answers cl t' r)"
| "phase_ok cl t (MustNotify (Some r)) \<longleftrightarrow> answers cl t r"
| "phase_ok cl t (HasReply r) \<longleftrightarrow> answers cl t r"
| "phase_ok cl t Failing \<longleftrightarrow> False"
| "phase_ok cl t Threw \<longleftrightarrow> False"
| "phase_ok cl t _ \<longleftrightarrow> True"

definition messages_inv :: "('e, 'p, 'w) Client \<Rightarrow> ('e, 'p, 'w) Conn \<Rightarrow> bool" where
  "messages_inv cl c \<longleftrightarrow>
     cn_active c \<and> \<not> cn_ended c \<and>
     (\<forall>q \<in> set (cn_out c). \<exists>t < cl_threads cl. q = sent_request cl t) \<and>
     (\<forall>r \<in> set (cn_in c). \<exists>t < cl_threads cl. answers cl t r) \<and>
     (\<forall>k r. cn_cache c k = Some r \<longrightarrow> (\<exists>t < cl_threads cl. k = tid_key cl t \<and> answers cl t r)) \<and>
     (\<forall>t < cl_threads cl. phase_ok cl t (cn_phase c t))"

text \<open>The request or the reply of a thread that has no answer yet is somewhere, and not in the cache while the thread reads.\<close>

definition located :: "('e, 'p, 'w) Client \<Rightarrow> nat \<Rightarrow> ('e, 'p, 'w) Conn \<Rightarrow> bool" where
  "located cl t c \<longleftrightarrow>
     sent_request cl t \<in> set (cn_out c) \<or> (\<exists>r \<in> set (cn_in c). reply_tid r = Some (tid_key cl t)) \<or>
     cn_cache c (tid_key cl t) \<noteq> None \<or>
     (\<exists>t' < cl_threads cl. \<exists>r. cn_phase c t' = GotReply r \<and> reply_tid r = Some (tid_key cl t))"

definition located_inv :: "('e, 'p, 'w) Client \<Rightarrow> ('e, 'p, 'w) Conn \<Rightarrow> bool" where
  "located_inv cl c \<longleftrightarrow>
     (\<forall>t < cl_threads cl. (unanswered (cn_phase c t) \<longrightarrow> located cl t c) \<and>
                          (cn_phase c t = OnStream \<longrightarrow> cn_cache c (tid_key cl t) = None))"

text \<open>A thread that is not about to notify goes on to another phase.\<close>

lemma notifier_goto:
  "\<exists>t' < n. notifier (cn_phase c t') \<Longrightarrow> \<not> notifier (cn_phase c t) \<Longrightarrow> \<exists>t' < n. notifier (((cn_phase c)(t := ph)) t')"
  by auto

lemma locks_goto:
  assumes "locks_inv n rd c" "t < n" "\<not> notifier (cn_phase c t)"
    "cn_blocking c' \<longleftrightarrow> rd' \<noteq> None" "cn_phase c' = cn_phase c"
    "cn_lock c' = (if ph = MustWait then Some t else if cn_phase c t = MustWait then None else cn_lock c)"
    "rd' = (if reader ph then Some t else if reader (cn_phase c t) then None else rd)"
    "ph = MustWait \<longrightarrow> cn_lock c = None" "reader ph \<longrightarrow> rd = None \<or> rd = Some t" "cn_lock c' \<noteq> None \<longrightarrow> rd' \<noteq> None"
    "rd' \<noteq> None \<or> notifier ph \<or> \<not> cn_blocking c \<and> ph \<noteq> OnCond"
  shows "locks_inv n rd' (goto t ph c')"
proof -
  let ?phase = "(cn_phase c)(t := ph)"
  note inv = assms(1) [unfolded locks_inv_def]
  have "rd' \<noteq> None \<or> (\<exists>t' < n. notifier (?phase t')) \<or> (\<forall>t' < n. ?phase t' \<noteq> OnCond)"
  proof (cases "rd' \<noteq> None \<or> notifier ph")
    case True
    then show ?thesis using assms(2) by auto
  next
    case False
    then have "(\<exists>t' < n. notifier (cn_phase c t')) \<or> (\<forall>t' < n. cn_phase c t' \<noteq> OnCond)" "ph \<noteq> OnCond"
      using inv assms(11) by blast+
    then show ?thesis using notifier_goto [OF _ assms(3), of n ph] by (metis fun_upd_apply)
  qed
  moreover have "\<forall>t' < n. ?phase t' = MustWait \<longleftrightarrow> cn_lock c' = Some t'"
    using inv assms(2,6,8) by auto
  moreover have "\<forall>t' < n. reader (?phase t') \<longleftrightarrow> rd' = Some t'"
    using inv assms(2,7,9) by auto
  moreover have "\<forall>t'. cn_lock c' = Some t' \<longrightarrow> t' < n" "\<forall>t'. rd' = Some t' \<longrightarrow> t' < n"
    using inv assms(2,6,7) by (auto split: if_splits)
  ultimately show ?thesis using assms(4,5,10) by (simp add: locks_inv_def goto_def)
qed

lemma locks_facts:
  assumes "locks_inv n rd c"
  shows "cn_blocking c \<longleftrightarrow> rd \<noteq> None" "cn_lock c \<noteq> None \<Longrightarrow> rd \<noteq> None"
    "t < n \<Longrightarrow> cn_phase c t = MustWait \<Longrightarrow> cn_lock c = Some t" "t < n \<Longrightarrow> reader (cn_phase c t) \<Longrightarrow> rd = Some t"
  using assms by (auto simp: locks_inv_def)

lemma locks_notify:
  assumes "locks_inv n rd c" "t < n" "notifier (cn_phase c t)" "ph = LoopTop \<or> (\<exists>r. ph = HasReply r)"
  shows "locks_inv n rd (notify_all t ph c)"
proof -
  let ?phase = "(\<lambda>t'. if cn_phase c t' = OnCond then LoopTop else cn_phase c t')(t := ph)"
  note inv = assms(1) [unfolded locks_inv_def]
  have t: "cn_phase c t \<noteq> MustWait" "\<not> reader (cn_phase c t)" "ph \<noteq> MustWait" "\<not> reader ph" "ph \<noteq> OnCond"
    using assms(3,4) by (auto simp: notifier_def)
  have "\<forall>t' < n. ?phase t' = MustWait \<longleftrightarrow> cn_lock c = Some t'" using inv assms(2) t by auto
  moreover have "\<forall>t' < n. reader (?phase t') \<longleftrightarrow> rd = Some t'" using inv assms(2) t by (auto split: if_splits)
  moreover have "\<forall>t' < n. ?phase t' \<noteq> OnCond" using t by auto
  ultimately show ?thesis using inv by (simp add: locks_inv_def notify_all_def) blast
qed

definition answerable :: "('e, 'p, 'w) Client \<Rightarrow> ('e, 'p, 'w) Conn \<Rightarrow> bool" where
  "answerable cl c \<longleftrightarrow>
     cn_active c \<and>
     (\<forall>t < cl_threads cl. cn_phase c t \<noteq> Failing \<and> (\<forall>r. cn_phase c t = GotReply r \<longrightarrow> reply_tid r \<noteq> None))"

lemma locks_preserved:
  assumes inv: "locks_inv (cl_threads cl) rd c" and "regular e" "conn_step cl e c = Some c'" "answerable cl c"
  shows "\<exists>rd. locks_inv (cl_threads cl) rd c'"
proof (cases e)
  case (SendEvent t)
  then have c': "t < cl_threads cl" "cn_phase c t = NotSent" "c' = goto t LoopTop (c\<lparr>cn_out := cn_out c @ [sent_request cl t]\<rparr>)"
    using assms(3,4) by (auto simp: send_request_def answerable_def split: if_splits)
  then have "locks_inv (cl_threads cl) rd c'" unfolding c'(3)
    by (intro locks_goto [OF inv]) (use locks_facts [OF inv] in auto)
  then show ?thesis ..
next
  case (TopEvent t)
  then have t: "t < cl_threads cl" "cn_phase c t = LoopTop" "cn_lock c = None" using assms(3)
    by (auto simp: loop_top_def split: if_splits)
  then consider reply where "c' = goto t (MustNotify (Some reply)) (c\<lparr>cn_cache := (cn_cache c)(tid_key cl t := None)\<rparr>)"
    | "cn_blocking c" "c' = goto t MustWait (c\<lparr>cn_lock := Some t\<rparr>)"
    | "\<not> cn_blocking c" "c' = goto t OnStream (c\<lparr>cn_blocking := True\<rparr>)"
    using assms(3) TopEvent by (auto simp: loop_top_def split: if_splits option.splits)
  then show ?thesis
  proof cases
    case 1
    then have "locks_inv (cl_threads cl) rd c'" unfolding 1
      by (intro locks_goto [OF inv]) (use t locks_facts [OF inv] in simp_all)
    then show ?thesis ..
  next
    case 2
    then have "locks_inv (cl_threads cl) rd c'" unfolding 2(2)
      by (intro locks_goto [OF inv]) (use t 2(1) locks_facts [OF inv] in simp_all)
    then show ?thesis ..
  next
    case 3
    then have "locks_inv (cl_threads cl) (Some t) c'" unfolding 3(2)
      by (intro locks_goto [OF inv]) (use t 3(1) locks_facts [OF inv] in simp_all)
    then show ?thesis ..
  qed
next
  case (WaitEvent t)
  then have c': "t < cl_threads cl" "cn_phase c t = MustWait" "c' = goto t OnCond (c\<lparr>cn_lock := None\<rparr>)"
    using assms(3) by (auto simp: cond_wait_def split: if_splits)
  then have "locks_inv (cl_threads cl) rd c'" unfolding c'(3)
    by (intro locks_goto [OF inv]) (use locks_facts [OF inv] in simp_all)
  then show ?thesis ..
next
  case (ReadEvent t)
  then obtain reply rest where c': "t < cl_threads cl" "cn_phase c t = OnStream" "c' = goto t (GotReply reply) (c\<lparr>cn_in := rest\<rparr>)"
    using assms(3) by (auto simp: read_stream_def split: if_splits list.splits)
  moreover have "rd = Some t" using locks_facts(4) [OF inv] c' by simp
  ultimately have "locks_inv (cl_threads cl) rd c'" unfolding c'(3)
    by (intro locks_goto [OF inv]) (use locks_facts [OF inv] in simp_all)
  then show ?thesis ..
next
  case (StoreEvent t)
  then obtain reply replyTid where t: "t < cl_threads cl" "cn_phase c t = GotReply reply" "cn_lock c = None" "reply_tid reply = Some replyTid"
    using assms(3,4) by (auto simp: store_reply_def answerable_def Let_def split: if_splits phase.splits option.splits)
  then consider "c' = goto t (MustNotify (Some reply)) (c\<lparr>cn_blocking := False\<rparr>)"
    | "c' = goto t (MustNotify None) (c\<lparr>cn_blocking := False, cn_cache := (cn_cache c)(replyTid \<mapsto> reply)\<rparr>)"
    using assms(3) StoreEvent by (auto simp: store_reply_def Let_def split: if_splits)
  then have "locks_inv (cl_threads cl) None c'"
    by cases (simp_all only:, (intro locks_goto [OF inv], (use t in simp_all))+)
  then show ?thesis ..
next
  case (NotifyEvent t)
  then have t: "t < cl_threads cl" using assms(3) by (simp split: if_splits)
  obtain ph where "notifier (cn_phase c t)" "c' = notify_all t ph c" "ph = LoopTop \<or> (\<exists>r. ph = HasReply r)"
    using assms(3,4) NotifyEvent t by (auto simp: notify_step_def answerable_def split: phase.splits option.splits)
  then show ?thesis using locks_notify [OF inv t] by blast
next
  case ServeEvent
  then have "cn_lock c' = cn_lock c" "cn_blocking c' = cn_blocking c" "cn_phase c' = cn_phase c"
    using assms(3) by (auto simp: serve_def split: if_splits list.splits option.splits)
  then have "locks_inv (cl_threads cl) rd c' = locks_inv (cl_threads cl) rd c" by (simp only: locks_inv_def)
  then show ?thesis using inv by blast
qed (use assms(2) in simp_all)

lemma messages_phase: "messages_inv cl c \<Longrightarrow> t < cl_threads cl \<Longrightarrow> phase_ok cl t (cn_phase c t)"
  by (simp add: messages_inv_def)

lemma cached_own:
  assumes "client_ok cl" "messages_inv cl c" "t < cl_threads cl" "cn_cache c (tid_key cl t) = Some r"
  shows "answers cl t r"
  using assms unfolding client_ok_def messages_inv_def by (metis inj_onD lessThan_iff)

lemma answers_own: "client_ok cl \<Longrightarrow> t < cl_threads cl \<Longrightarrow> t' < cl_threads cl \<Longrightarrow> answers cl t' r \<Longrightarrow> reply_tid r = Some (tid_key cl t) \<Longrightarrow> answers cl t r"
  using answers_tid unfolding client_ok_def by (metis inj_onD lessThan_iff option.inject)

lemma messages_preserved:
  assumes ok: "client_ok cl" and inv: "messages_inv cl c" and "regular e" "conn_step cl e c = Some c'"
  shows "messages_inv cl c'"
proof (cases e)
  case (SendEvent t)
  then have "t < cl_threads cl" "c' = goto t LoopTop (c\<lparr>cn_out := cn_out c @ [sent_request cl t]\<rparr>)"
    using assms(4) inv by (auto simp: send_request_def messages_inv_def split: if_splits)
  then show ?thesis using inv by (auto simp: goto_def messages_inv_def)
next
  case (TopEvent t)
  then have t: "t < cl_threads cl" "cn_phase c t = LoopTop" "cn_lock c = None" using assms(4)
    by (auto simp: loop_top_def split: if_splits)
  then consider reply where "cn_cache c (tid_key cl t) = Some reply" "c' = goto t (MustNotify (Some reply)) (c\<lparr>cn_cache := (cn_cache c)(tid_key cl t := None)\<rparr>)"
    | "c' = goto t MustWait (c\<lparr>cn_lock := Some t\<rparr>)" | "c' = goto t OnStream (c\<lparr>cn_blocking := True\<rparr>)"
    using assms(4) TopEvent by (auto simp: loop_top_def split: if_splits option.splits)
  then show ?thesis
  proof cases
    case 1
    then show ?thesis using inv cached_own [OF ok inv t(1) 1(1)] by (auto simp: goto_def messages_inv_def)
  qed (use inv in \<open>auto simp: goto_def messages_inv_def\<close>)
next
  case (WaitEvent t)
  then show ?thesis using assms(4) inv by (auto simp: cond_wait_def goto_def messages_inv_def split: if_splits)
next
  case (ReadEvent t)
  then obtain reply rest where "cn_in c = reply # rest" "c' = goto t (GotReply reply) (c\<lparr>cn_in := rest\<rparr>)"
    using assms(4) by (auto simp: read_stream_def split: if_splits list.splits)
  then show ?thesis using inv by (auto simp: goto_def messages_inv_def)
next
  case (StoreEvent t)
  then obtain reply where t: "t < cl_threads cl" "cn_phase c t = GotReply reply"
    using assms(4) by (auto simp: store_reply_def split: if_splits phase.splits)
  then obtain t' where t': "t' < cl_threads cl" "answers cl t' reply" using messages_phase [OF inv t(1)] by auto
  then have tid: "reply_tid reply = Some (tid_key cl t')" by (simp add: answers_tid)
  show ?thesis
  proof (cases "tid_key cl t' = tid_key cl t")
    case True
    then have "c' = goto t (MustNotify (Some reply)) (c\<lparr>cn_blocking := False\<rparr>)"
      using assms(4) StoreEvent t tid by (auto simp: store_reply_def split: if_splits)
    then show ?thesis using inv answers_own [OF ok t(1) t'] True tid by (auto simp: goto_def messages_inv_def)
  next
    case False
    then have "c' = goto t (MustNotify None) (c\<lparr>cn_blocking := False, cn_cache := (cn_cache c)(tid_key cl t' \<mapsto> reply)\<rparr>)"
      using assms(4) StoreEvent t tid by (auto simp: store_reply_def split: if_splits)
    then show ?thesis using inv t' by (auto simp: goto_def messages_inv_def)
  qed
next
  case (NotifyEvent t)
  then have t: "t < cl_threads cl" using assms(4) by (simp split: if_splits)
  then consider "c' = notify_all t LoopTop c" | r where "answers cl t r" "c' = notify_all t (HasReply r) c"
    using assms(4) NotifyEvent messages_phase [OF inv t] by (auto simp: notify_step_def split: phase.splits option.splits)
  then show ?thesis using inv by cases (auto simp: messages_inv_def notify_all_def)
next
  case ServeEvent
  then obtain req rest where out: "cn_out c = req # rest" using assms(4) by (auto simp: serve_def split: list.splits)
  then obtain t where t: "t < cl_threads cl" "req = sent_request cl t" using inv by (auto simp: messages_inv_def)
  obtain reply s where "runHandlerOnce (cl_local cl) req (cn_server c) = Some (reply, False, s)" "answers cl t reply"
    using serve_request [OF ok t(1)] t(2) by blast
  then show ?thesis using assms(4) ServeEvent out inv t by (auto simp: serve_def messages_inv_def split: if_splits)
qed (use assms(3) in simp_all)

lemma located_goto:
  assumes "located cl t c" "set (cn_out c) \<subseteq> set (cn_out c')" "set (cn_in c) \<subseteq> set (cn_in c')"
    "cn_cache c' (tid_key cl t) = None \<longrightarrow> cn_cache c (tid_key cl t) = None" "cn_phase c' = cn_phase c"
    "\<forall>r. cn_phase c t' \<noteq> GotReply r"
  shows "located cl t (goto t' ph c')"
  using assms(1) unfolding located_def [of cl t c]
proof (elim disjE exE conjE bexE)
  fix t'' r assume got: "t'' < cl_threads cl" "cn_phase c t'' = GotReply r" "reply_tid r = Some (tid_key cl t)"
  then have "cn_phase (goto t' ph c') t'' = GotReply r" using assms(5,6) by (auto simp: goto_def)
  then show ?thesis using got unfolding located_def by blast
qed (use assms(2-4) in \<open>auto simp: located_def goto_def\<close>)

lemma located_inv_goto:
  assumes "client_ok cl" "located_inv cl c" "t < cl_threads cl" "set (cn_out c) \<subseteq> set (cn_out c')" "set (cn_in c) \<subseteq> set (cn_in c')"
    "\<forall>k. k \<noteq> tid_key cl t \<longrightarrow> cn_cache c' k = cn_cache c k" "cn_phase c' = cn_phase c" "\<forall>r. cn_phase c t \<noteq> GotReply r"
    "unanswered ph \<longrightarrow> located cl t (goto t ph c')" "ph = OnStream \<longrightarrow> cn_cache c' (tid_key cl t) = None"
  shows "located_inv cl (goto t ph c')"
  unfolding located_inv_def
proof (intro allI impI)
  fix t' assume t': "t' < cl_threads cl"
  show "(unanswered (cn_phase (goto t ph c') t') \<longrightarrow> located cl t' (goto t ph c')) \<and>
      (cn_phase (goto t ph c') t' = OnStream \<longrightarrow> cn_cache (goto t ph c') (tid_key cl t') = None)"
  proof (cases "t' = t")
    case True
    then show ?thesis using assms(9,10) by (simp add: goto_def)
  next
    case False
    then have "tid_key cl t' \<noteq> tid_key cl t" using assms(1,3) t' unfolding client_ok_def by (metis inj_onD lessThan_iff)
    then have "cn_cache c' (tid_key cl t') = cn_cache c (tid_key cl t')" using assms(6) by blast
    then show ?thesis using False assms(2,4,5,7,8) t' located_goto [of cl t' c c' t ph]
      unfolding located_inv_def by (simp add: goto_def)
  qed
qed

lemma located_preserved:
  assumes ok: "client_ok cl" and inv: "located_inv cl c" and msg: "messages_inv cl c" and locks: "locks_inv (cl_threads cl) rd c"
    and "regular e" "conn_step cl e c = Some c'"
  shows "located_inv cl c'"
proof (cases e)
  case (SendEvent t)
  then have c': "t < cl_threads cl" "cn_phase c t = NotSent" "c' = goto t LoopTop (c\<lparr>cn_out := cn_out c @ [sent_request cl t]\<rparr>)"
    using assms(6) msg by (auto simp: send_request_def messages_inv_def split: if_splits)
  show ?thesis unfolding c'(3)
    by (rule located_inv_goto [OF ok inv c'(1)]) (use c'(2) in \<open>auto simp: located_def goto_def\<close>)
next
  case (TopEvent t)
  then have t: "t < cl_threads cl" "cn_phase c t = LoopTop" "cn_lock c = None" using assms(6)
    by (auto simp: loop_top_def split: if_splits)
  then have loc: "located cl t c" using inv by (simp add: located_inv_def)
  consider reply where "c' = goto t (MustNotify (Some reply)) (c\<lparr>cn_cache := (cn_cache c)(tid_key cl t := None)\<rparr>)"
    | "c' = goto t MustWait (c\<lparr>cn_lock := Some t\<rparr>)" | "cn_cache c (tid_key cl t) = None" "c' = goto t OnStream (c\<lparr>cn_blocking := True\<rparr>)"
    using assms(6) TopEvent t by (auto simp: loop_top_def split: if_splits option.splits)
  then show ?thesis
  proof cases
    case 1
    show ?thesis unfolding 1 by (rule located_inv_goto [OF ok inv t(1)]) (use t(2) in auto)
  next
    case 2
    show ?thesis unfolding 2
      by (rule located_inv_goto [OF ok inv t(1)]) (use t(2) loc located_goto [OF loc] in auto)
  next
    case 3
    show ?thesis unfolding 3(2)
      by (rule located_inv_goto [OF ok inv t(1)]) (use t(2) 3(1) loc located_goto [OF loc] in auto)
  qed
next
  case (WaitEvent t)
  then have c': "t < cl_threads cl" "cn_phase c t = MustWait" "c' = goto t OnCond (c\<lparr>cn_lock := None\<rparr>)"
    using assms(6) by (auto simp: cond_wait_def split: if_splits)
  then have loc: "located cl t c" using inv by (simp add: located_inv_def)
  show ?thesis unfolding c'(3)
    by (rule located_inv_goto [OF ok inv c'(1)]) (use c'(2) loc located_goto [OF loc] in auto)
next
  case (ReadEvent t)
  then obtain reply rest where t: "t < cl_threads cl" "cn_phase c t = OnStream" "cn_in c = reply # rest"
    and c': "c' = goto t (GotReply reply) (c\<lparr>cn_in := rest\<rparr>)"
    using assms(6) by (auto simp: read_stream_def split: if_splits list.splits)
  have "located cl t' c'" if "located cl t' c" for t'
    using that unfolding located_def [of cl t' c]
  proof (elim disjE exE conjE bexE)
    fix r assume "r \<in> set (cn_in c)" "reply_tid r = Some (tid_key cl t')"
    then show ?thesis using t by (auto simp: located_def c' goto_def)
  next
    fix t'' r assume got: "t'' < cl_threads cl" "cn_phase c t'' = GotReply r" "reply_tid r = Some (tid_key cl t')"
    then have "cn_phase c' t'' = GotReply r" using t(2) by (auto simp: c' goto_def)
    then show ?thesis using got unfolding located_def by blast
  qed (simp_all add: located_def c' goto_def)
  then show ?thesis using inv t(1,2) unfolding located_inv_def by (auto simp: c' goto_def)
next
  case (StoreEvent t)
  then obtain reply where t: "t < cl_threads cl" "cn_phase c t = GotReply reply"
    using assms(6) by (auto simp: store_reply_def split: if_splits phase.splits)
  then obtain t0 where "answers cl t0 reply" using messages_phase [OF msg t(1)] by auto
  then have tid: "reply_tid reply = Some (tid_key cl t0)" by (simp add: answers_tid)
  have alone: "cn_phase c t' \<noteq> OnStream" if "t' < cl_threads cl" for t'
    using locks_facts(4) [OF locks that] locks_facts(4) [OF locks t(1)] t(2) by auto
  have moved: "cn_out c' = cn_out c" "cn_in c' = cn_in c" "cn_phase c' = (cn_phase c)(t := cn_phase c' t)"
    "\<forall>r. cn_phase c' t \<noteq> GotReply r" "cn_phase c' t \<noteq> OnStream" "\<forall>k. cn_cache c k \<noteq> None \<longrightarrow> cn_cache c' k \<noteq> None"
    "if tid_key cl t0 = tid_key cl t then \<not> unanswered (cn_phase c' t) else cn_cache c' (tid_key cl t0) \<noteq> None"
    using assms(6) StoreEvent t tid by (auto simp: store_reply_def goto_def Let_def split: if_splits)
  have "located cl t' c'" if "located cl t' c" "t' < cl_threads cl" "unanswered (cn_phase c' t')" for t'
    using that(1) unfolding located_def [of cl t' c]
  proof (elim disjE exE conjE bexE)
    fix t'' r assume got: "t'' < cl_threads cl" "cn_phase c t'' = GotReply r" "reply_tid r = Some (tid_key cl t')"
    show ?thesis
    proof (cases "t'' = t")
      case True
      then have key: "tid_key cl t' = tid_key cl t0" using got t(2) tid by simp
      have "tid_key cl t0 \<noteq> tid_key cl t"
      proof
        assume own: "tid_key cl t0 = tid_key cl t"
        then have "t' = t" using ok that(2) t(1) key unfolding client_ok_def by (metis inj_onD lessThan_iff)
        then show False using moved(7) own that(3) by simp
      qed
      then show ?thesis using moved(7) key by (simp add: located_def)
    next
      case False
      then have "cn_phase c' t'' = GotReply r" using got by (subst moved(3)) simp
      then show ?thesis using got unfolding located_def by blast
    qed
  qed (use moved in \<open>auto simp: located_def\<close>)
  moreover have "unanswered (cn_phase c t')" if "unanswered (cn_phase c' t')" for t'
    using that t(2) by (cases "t' = t") (simp_all, metis moved(3) fun_upd_other)
  moreover have "cn_phase c' t' \<noteq> OnStream" if "t' < cl_threads cl" for t'
    using alone [OF that] moved(5) by (cases "t' = t") (simp, metis moved(3) fun_upd_other)
  ultimately show ?thesis using inv unfolding located_inv_def by blast
next
  case (NotifyEvent t)
  then have t: "t < cl_threads cl" using assms(6) by (simp split: if_splits)
  then consider "cn_phase c t = MustNotify None" "c' = notify_all t LoopTop c"
    | r where "cn_phase c t = MustNotify (Some r)" "c' = notify_all t (HasReply r) c"
    using assms(6) NotifyEvent messages_phase [OF msg t] by (auto simp: notify_step_def split: phase.splits option.splits)
  then have same: "cn_out c' = cn_out c" "cn_in c' = cn_in c" "cn_cache c' = cn_cache c"
    "\<forall>t' r. cn_phase c' t' = GotReply r \<longleftrightarrow> cn_phase c t' = GotReply r" "\<forall>t'. cn_phase c' t' = OnStream \<longleftrightarrow> cn_phase c t' = OnStream"
    "\<forall>t'. unanswered (cn_phase c' t') \<longrightarrow> unanswered (cn_phase c t')"
    by (cases; auto simp: notify_all_def split: if_splits)+
  then have "located cl t' c' = located cl t' c" for t' by (simp add: located_def)
  then show ?thesis using inv same unfolding located_inv_def by simp
next
  case ServeEvent
  then obtain req rest where out: "cn_out c = req # rest" using assms(6) by (auto simp: serve_def split: list.splits)
  then obtain t where t: "t < cl_threads cl" "req = sent_request cl t" using msg by (auto simp: messages_inv_def)
  obtain reply s where run: "runHandlerOnce (cl_local cl) req (cn_server c) = Some (reply, False, s)"
    using serve_request [OF ok t(1)] t(2) by blast
  then have c': "c' = c\<lparr>cn_out := rest, cn_in := cn_in c @ [reply], cn_server := s, cn_ended := False\<rparr>"
    using assms(6) ServeEvent out by (auto simp: serve_def split: if_splits)
  have "reply_tid reply = Some (tid_key cl t')" if "req = sent_request cl t'" for t'
    by (rule answers_tid) (use run that in \<open>unfold answers_def, blast\<close>)
  then have "located cl t' c'" if "located cl t' c" for t' using that out unfolding located_def by (auto simp: c')
  then show ?thesis using inv unfolding located_inv_def by (simp add: c')
qed (use assms(5) in simp_all)

definition conn_inv :: "('e, 'p, 'w) Client \<Rightarrow> ('e, 'p, 'w) Conn \<Rightarrow> bool" where
  "conn_inv cl c \<longleftrightarrow> messages_inv cl c \<and> located_inv cl c \<and> (\<exists>rd. locks_inv (cl_threads cl) rd c)"

lemma conn_inv_start: "conn_inv cl (Conn_new srv)"
  by (auto simp: conn_inv_def messages_inv_def located_inv_def locks_inv_def Conn_new_def)

lemma messages_answerable:
  assumes "messages_inv cl c"
  shows "answerable cl c"
  unfolding answerable_def
proof (intro conjI allI impI)
  show "cn_active c" using assms by (simp add: messages_inv_def)
  fix t assume t: "t < cl_threads cl"
  show "cn_phase c t \<noteq> Failing" using messages_phase [OF assms t] by auto
  fix r assume "cn_phase c t = GotReply r"
  then obtain t' where "answers cl t' r" using messages_phase [OF assms t] by auto
  then show "reply_tid r \<noteq> None" by (simp add: answers_tid)
qed

lemma conn_inv_step: "client_ok cl \<Longrightarrow> conn_inv cl c \<Longrightarrow> regular e \<Longrightarrow> conn_step cl e c = Some c' \<Longrightarrow> conn_inv cl c'"
  unfolding conn_inv_def
  by (meson locks_preserved messages_answerable messages_preserved located_preserved)

lemma conn_inv_run: "client_ok cl \<Longrightarrow> conn_inv cl c \<Longrightarrow> list_all regular es \<Longrightarrow> conn_run cl es c = Some c' \<Longrightarrow> conn_inv cl c'"
  by (induction es arbitrary: c) (auto split: option.splits dest: conn_inv_step)

subsection \<open>Every thread gets its reply\<close>

lemma progress:
  assumes ok: "client_ok cl" and inv: "conn_inv cl c" and stuck: "\<forall>e. regular e \<longrightarrow> conn_step cl e c = None" and t: "t < cl_threads cl"
  shows "\<exists>r. cn_phase c t = HasReply r"
proof -
  obtain rd where locks: "locks_inv (cl_threads cl) rd c" and msg: "messages_inv cl c" and loc: "located_inv cl c"
    using inv unfolding conn_inv_def by blast
  note none = stuck [THEN spec, THEN mp]
  have wait: "cn_phase c t \<noteq> MustWait" if "t < cl_threads cl" for t
    using none [of "WaitEvent t"] that by (auto simp: cond_wait_def)
  then have unlocked: "cn_lock c = None" using locks unfolding locks_inv_def by (metis option.exhaust)
  have quiet: "\<not> notifier (cn_phase c t)" if "t < cl_threads cl" for t
    using none [of "NotifyEvent t"] that by (auto simp: notify_step_def notifier_def split: option.splits)
  have top: "cn_phase c t \<noteq> LoopTop" if "t < cl_threads cl" for t
    using none [of "TopEvent t"] that unlocked by (auto simp: loop_top_def split: option.splits if_splits)
  have sent: "cn_phase c t \<noteq> NotSent" if "t < cl_threads cl" for t
    using none [of "SendEvent t"] that by (auto simp: send_request_def split: if_splits)
  have got: "\<forall>r. cn_phase c t \<noteq> GotReply r" if "t < cl_threads cl" for t
    using none [of "StoreEvent t"] that unlocked by (auto simp: store_reply_def Let_def split: if_splits option.splits)
  have out: "cn_out c = []"
    using none [of ServeEvent] msg by (auto simp: serve_def messages_inv_def split: list.splits option.splits)
  have stream: "cn_phase c t \<noteq> OnStream" if "t < cl_threads cl" for t
  proof
    assume on: "cn_phase c t = OnStream"
    then have "cn_in c = []" using none [of "ReadEvent t"] that by (auto simp: read_stream_def split: list.splits)
    then show False using loc on that out got unfolding located_inv_def located_def by auto
  qed
  then have "\<not> cn_blocking c" using locks got unfolding locks_inv_def reader_def by (metis option.exhaust)
  then have "cn_phase c t \<noteq> OnCond" using locks quiet t unfolding locks_inv_def by blast
  then show ?thesis
    using t wait quiet top sent got stream messages_phase [OF msg t] by (cases "cn_phase c t") (auto simp: notifier_def)
qed

text \<open>Every event uses up some of this.\<close>

fun phase_rank :: "nat \<Rightarrow> phase \<Rightarrow> nat" where
  "phase_rank n NotSent = 4 * n + 13"
| "phase_rank n LoopTop = 2 * n + 6"
| "phase_rank n MustWait = 2 * n + 5"
| "phase_rank n OnCond = 2 * n + 4"
| "phase_rank n OnStream = 2 * n + 5"
| "phase_rank n (GotReply _) = 4 * n + 9"
| "phase_rank n (MustNotify None) = 4 * n + 8"
| "phase_rank n (MustNotify (Some _)) = 2 * n + 4"
| "phase_rank n (HasReply _) = 0"
| "phase_rank n Failing = 2 * n + 4"
| "phase_rank n Threw = 0"

definition energy :: "nat \<Rightarrow> ('e, 'p, 'w) Conn \<Rightarrow> nat" where
  "energy n c = (\<Sum>t < n. phase_rank n (cn_phase c t)) + (2 * n + 6) * length (cn_out c) + (2 * n + 5) * length (cn_in c)"

lemma sum_upd:
  fixes g :: "'a \<Rightarrow> nat"
  assumes "t < (n :: nat)"
  shows "(\<Sum>i < n. g ((f(t := x)) i)) + g (f t) = (\<Sum>i < n. g (f i)) + g x"
proof -
  have "(\<Sum>i \<in> {..<n} - {t}. g ((f(t := x)) i)) = (\<Sum>i \<in> {..<n} - {t}. g (f i))" by (rule sum.cong) simp_all
  then show ?thesis using sum.remove [of "{..<n}" t "\<lambda>i. g ((f(t := x)) i)"] sum.remove [of "{..<n}" t "\<lambda>i. g (f i)"] assms by simp
qed

lemma energy_goto: "t < n \<Longrightarrow> energy n (goto t ph c) + phase_rank n (cn_phase c t) = energy n c + phase_rank n ph"
  using sum_upd [of t n "phase_rank n" "cn_phase c" ph] by (simp add: energy_def goto_def)

lemma energy_notify:
  assumes "t < n" "cn_phase c t \<noteq> OnCond"
  shows "energy n (notify_all t ph c) + phase_rank n (cn_phase c t) + 2 \<le> energy n c + phase_rank n ph + 2 * n"
proof -
  let ?wake = "\<lambda>t'. if cn_phase c t' = OnCond then LoopTop else cn_phase c t'"
  have "(\<Sum>i \<in> {..<n} - {t}. phase_rank n (?wake i)) \<le> (\<Sum>i \<in> {..<n} - {t}. phase_rank n (cn_phase c i) + 2)"
    by (rule sum_mono) simp
  also have "\<dots> = (\<Sum>i \<in> {..<n} - {t}. phase_rank n (cn_phase c i)) + 2 * (n - 1)"
    unfolding sum.distrib using assms(1) by simp
  finally have "(\<Sum>i < n. phase_rank n (?wake i)) \<le> (\<Sum>i < n. phase_rank n (cn_phase c i)) + 2 * (n - 1)"
    using assms sum.remove [of "{..<n}" t "\<lambda>i. phase_rank n (?wake i)"] sum.remove [of "{..<n}" t "\<lambda>i. phase_rank n (cn_phase c i)"] by simp
  then show ?thesis
    using sum_upd [of t n "phase_rank n" ?wake ph] assms by (simp add: energy_def notify_all_def)
qed

lemma energy_decreases:
  assumes "regular e" "conn_step cl e c = Some c'"
  shows "energy (cl_threads cl) c' < energy (cl_threads cl) c"
proof (cases e)
  case (SendEvent t)
  then consider "t < cl_threads cl" "cn_phase c t = NotSent" "c' = goto t Threw c"
    | "t < cl_threads cl" "cn_phase c t = NotSent" "c' = goto t LoopTop (c\<lparr>cn_out := cn_out c @ [sent_request cl t]\<rparr>)"
    using assms(2) by (auto simp: send_request_def split: if_splits)
  then show ?thesis
  proof cases
    case 1
    then show ?thesis using energy_goto [of t "cl_threads cl" Threw c] by simp
  next
    case 2
    let ?c = "c\<lparr>cn_out := cn_out c @ [sent_request cl t]\<rparr>"
    have "energy (cl_threads cl) ?c = energy (cl_threads cl) c + (2 * cl_threads cl + 6)" by (simp add: energy_def)
    then show ?thesis using 2 energy_goto [of t "cl_threads cl" LoopTop ?c] by simp
  qed
next
  case (TopEvent t)
  then have t: "t < cl_threads cl" "cn_phase c t = LoopTop" using assms(2)
    by (auto simp: loop_top_def split: if_splits)
  obtain ph c1 where "c' = goto t ph c1" "cn_phase c1 = cn_phase c" "cn_out c1 = cn_out c" "cn_in c1 = cn_in c"
      "phase_rank (cl_threads cl) ph < 2 * cl_threads cl + 6"
    using assms(2) TopEvent t by (auto simp: loop_top_def split: if_splits option.splits)
  then show ?thesis using energy_goto [OF t(1), of ph c1] t(2) by (simp add: energy_def)
next
  case (WaitEvent t)
  then have "t < cl_threads cl" "cn_phase c t = MustWait" "c' = goto t OnCond (c\<lparr>cn_lock := None\<rparr>)"
    using assms(2) by (auto simp: cond_wait_def split: if_splits)
  then show ?thesis using energy_goto [of t "cl_threads cl" OnCond "c\<lparr>cn_lock := None\<rparr>"] by (simp add: energy_def)
next
  case (ReadEvent t)
  then obtain reply rest where "t < cl_threads cl" "cn_phase c t = OnStream" "cn_in c = reply # rest" "c' = goto t (GotReply reply) (c\<lparr>cn_in := rest\<rparr>)"
    using assms(2) by (auto simp: read_stream_def split: if_splits list.splits)
  then show ?thesis using energy_goto [of t "cl_threads cl" "GotReply reply" "c\<lparr>cn_in := rest\<rparr>"] by (simp add: energy_def)
next
  case (StoreEvent t)
  then obtain reply where t: "t < cl_threads cl" "cn_phase c t = GotReply reply"
    using assms(2) by (auto simp: store_reply_def split: if_splits phase.splits)
  obtain ph c1 where "c' = goto t ph c1" "cn_phase c1 = cn_phase c" "cn_out c1 = cn_out c" "cn_in c1 = cn_in c"
      "phase_rank (cl_threads cl) ph < 4 * cl_threads cl + 9"
    using assms(2) StoreEvent t by (auto simp: store_reply_def Let_def split: if_splits option.splits)
  then show ?thesis using energy_goto [OF t(1), of ph c1] t(2) by (simp add: energy_def)
next
  case (NotifyEvent t)
  then have t: "t < cl_threads cl" using assms(2) by (simp split: if_splits)
  obtain ph c1 where c1: "c' = notify_all t ph c1" "cn_phase c1 = cn_phase c" "cn_out c1 = cn_out c" "cn_in c1 = cn_in c"
      "phase_rank (cl_threads cl) ph + 2 * cl_threads cl < phase_rank (cl_threads cl) (cn_phase c t) + 2" "cn_phase c t \<noteq> OnCond"
    using assms(2) NotifyEvent t by (auto simp: notify_step_def split: phase.splits option.splits)
  then show ?thesis using energy_notify [OF t, of c1 ph] by (simp add: energy_def)
next
  case ServeEvent
  then show ?thesis using assms(2) by (auto simp: serve_def energy_def split: list.splits if_splits option.splits prod.splits)
qed (use assms(1) in simp_all)

lemma energy_run: "list_all regular es \<Longrightarrow> conn_run cl es c = Some c' \<Longrightarrow> length es + energy (cl_threads cl) c' \<le> energy (cl_threads cl) c"
proof (induction es arbitrary: c)
  case (Cons e es)
  then obtain c1 where c1: "conn_step cl e c = Some c1" "conn_run cl es c1 = Some c'" by (auto split: option.splits)
  then have "length es + energy (cl_threads cl) c' \<le> energy (cl_threads cl) c1" using Cons by simp
  then show ?case using Cons.prems(1) energy_decreases [of e cl c c1] c1(1) by simp
qed simp

subsection \<open>Properties\<close>

text \<open>
  C7. Threads that share a connection all get their own replies: with different thread numbers, and as long as the stream does
  not fail, every schedule of the threads and the server comes to an end, nothing is left to do only when every thread has
  its reply, and the reply that a thread has is what the handler answered to the request of that thread.
\<close>

theorem transactions_complete:
  assumes "client_ok cl" "list_all regular es" "conn_run cl es (Conn_new srv) = Some c"
  shows "length es \<le> cl_threads cl * (4 * cl_threads cl + 13) \<and>
    ((\<forall>e. regular e \<longrightarrow> conn_step cl e c = None) \<longrightarrow> (\<forall>t < cl_threads cl. \<exists>r. cn_phase c t = HasReply r)) \<and>
    (\<forall>t < cl_threads cl. \<forall>r. cn_phase c t = HasReply r \<longrightarrow> answers cl t r)"
proof -
  have inv: "conn_inv cl c" by (rule conn_inv_run [OF assms(1) conn_inv_start assms(2,3)])
  have "answers cl t r" if "t < cl_threads cl" "cn_phase c t = HasReply r" for t r
    using inv messages_phase [of cl c t] that unfolding conn_inv_def by simp
  moreover have "energy (cl_threads cl) (Conn_new srv) = cl_threads cl * (4 * cl_threads cl + 13)"
    by (simp add: energy_def Conn_new_def)
  ultimately show ?thesis using energy_run [OF assms(2,3)] progress [OF assms(1) inv] by auto
qed

definition demo_client :: "(unit, nat, nat) Client" where
  "demo_client = \<lparr>cl_threads = 2, cl_tid = (\<lambda>t. word_of_nat (t + 7)),
     cl_request = (\<lambda>t. [(''action'', str_object ''hashCode''), (''handleID'', size_object (t + 2))]), cl_local = demo_local\<rparr>"

definition demo_schedule :: "event list" where
  "demo_schedule = [SendEvent 0, SendEvent 1, TopEvent 0, TopEvent 1, WaitEvent 1, ServeEvent, ServeEvent, ReadEvent 0, StoreEvent 0,
     NotifyEvent 0, TopEvent 1, ReadEvent 1, StoreEvent 1, NotifyEvent 1]"

lemma demo_client_ok: "client_ok demo_client"
proof -
  have "inj_on (tid_key demo_client) {..<2}"
    by (rule inj_onI) (auto simp: tid_key_def demo_client_def less_2_cases_iff)
  then show ?thesis by (simp add: client_ok_def demo_client_def str_object_def)
qed

lemma demo_schedule_runs: "case conn_run demo_client demo_schedule (Conn_new (demo_server, 0)) of
    None \<Rightarrow> False
  | Some c \<Rightarrow> cn_phase c 0 = HasReply [(''result'', size_object 30), (''tid'', ObjectOf (CScalar (SUInt 7)))] \<and>
              cn_phase c 1 = HasReply [(''result'', size_object 12), (''tid'', ObjectOf (CScalar (SUInt 8)))]"
  by code_simp

theorem transactions_complete_witness:
  "\<exists>c. conn_run demo_client demo_schedule (Conn_new (demo_server, 0)) = Some c \<and> length demo_schedule \<le> 42 \<and>
     answers demo_client 1 [(''result'', size_object 12), (''tid'', ObjectOf (CScalar (SUInt 8)))]"
proof -
  obtain c where c: "conn_run demo_client demo_schedule (Conn_new (demo_server, 0)) = Some c"
      "cn_phase c 1 = HasReply [(''result'', size_object 12), (''tid'', ObjectOf (CScalar (SUInt 8)))]"
    using demo_schedule_runs by (auto split: option.splits)
  have "list_all regular demo_schedule" by (simp add: demo_schedule_def)
  from transactions_complete [OF demo_client_ok this c(1)] c show ?thesis by (auto simp: demo_client_def)
qed

definition lost_schedule :: "event list" where
  "lost_schedule = [SendEvent 0, SendEvent 1, TopEvent 0, TopEvent 1, FailEvent 0, NotifyEvent 0, WaitEvent 1, ServeEvent, ServeEvent]"

lemma lost_schedule_runs: "case conn_run demo_client lost_schedule (Conn_new (demo_server, 0)) of
    None \<Rightarrow> False
  | Some c \<Rightarrow> cn_phase c 0 = Threw \<and> cn_phase c 1 = OnCond \<and> cn_out c = [] \<and> length (cn_in c) = 2"
  by code_simp

text \<open>
  C12. The error path does not keep this up: \<open>isBlocking\<close> is cleared and the condition is notified without the lock, so another
  thread can have seen the flag before and start to wait after. It then waits for ever, with its reply in the stream: only
  a spurious wakeup could go on from there.
\<close>

theorem failed_receive_strands_a_thread:
  "\<exists>c. conn_run demo_client lost_schedule (Conn_new (demo_server, 0)) = Some c \<and>
     cn_phase c 1 = OnCond \<and> length (cn_in c) = 2 \<and> {e. conn_step demo_client e c \<noteq> None} = {WakeEvent 1}"
proof -
  obtain c where c: "conn_run demo_client lost_schedule (Conn_new (demo_server, 0)) = Some c"
      "cn_phase c 0 = Threw" "cn_phase c 1 = OnCond" "cn_out c = []" "length (cn_in c) = 2"
    using lost_schedule_runs by (auto split: option.splits)
  have "conn_step demo_client e c \<noteq> None \<longleftrightarrow> e = WakeEvent 1" for e
    using c(2-4)
    by (cases e) (auto simp: demo_client_def less_2_cases_iff send_request_def loop_top_def cond_wait_def read_stream_def store_reply_def
        notify_step_def recv_failed_def spurious_wakeup_def serve_def split: list.splits)
  then show ?thesis using c by auto
qed

end
