(* ===== verification/EvalEnvironment.thy ===== *)
theory EvalEnvironment
  imports Prelude CppStrings
begin

section \<open>Expression evaluation\<close>

text \<open>
  \<open>EvalEnvironment\<close> evaluates the expressions in which block arguments are written:
  \<open>lib/Util/EvalEnvironmentListParsers.cpp\<close> splits them at tokens and at containers, and
  \<open>lib/Util/EvalEnvironment.cpp\<close> evaluates lists and maps itself and gives everything else to the muParserX library.

  \<^item> \<open>splitExpr\<close> is a scan with a state; \<open>None\<close> is the undefined \<open>top()\<close> of an empty stack.
  \<^item> The parser library is the argument \<open>mup\<close>: from the constants and an expression it makes a value or
    throws. \<open>Poco::trim\<close> and the order of the keys of a \<open>ProxyMap\<close> are the arguments \<open>trim\<close> and
    \<open>lt\<close>, and \<open>toNumber\<close> is the numeric conversion of the objects the parser has no type for.
  \<^item> The constants are the state that \<open>eval\<close> threads; its recursion is bounded by a depth.
\<close>

subsection \<open>Splitting an expression\<close>

record SplitState =
  sp_tokens :: "string list"
  sp_specials :: "char list"
  sp_previousCh :: char
  sp_inQuotes :: bool
  sp_field :: string

definition NUL :: char where
  "NUL = CHR 0x00"

definition BACKSLASH :: char where
  "BACKSLASH = CHR 0x5C"

definition QUOTE :: char where
  "QUOTE = CHR 0x22"

definition isspace :: "char \<Rightarrow> bool" where
  "isspace c \<longleftrightarrow> c \<in> {CHR 0x20, CHR 0x09, CHR 0x0A, CHR 0x0B, CHR 0x0C, CHR 0x0D}"

definition end_field :: "SplitState \<Rightarrow> SplitState" where
  "end_field s =
     s\<lparr>sp_tokens := (if sp_field s \<noteq> [] then sp_tokens s @ [sp_field s] else sp_tokens s), sp_field := []\<rparr>"

definition push_char :: "char \<Rightarrow> SplitState \<Rightarrow> SplitState" where
  "push_char ch s = s\<lparr>sp_field := sp_field s @ [ch]\<rparr>"

definition matches :: "char \<Rightarrow> char \<Rightarrow> bool" where
  "matches t ch \<longleftrightarrow> t = CHR ''('' \<and> ch = CHR '')'' \<or> t = CHR ''{'' \<and> ch = CHR ''}'' \<or> t = CHR ''['' \<and> ch = CHR '']''"

definition splitExpr_step :: "char \<Rightarrow> char \<Rightarrow> SplitState \<Rightarrow> SplitState option" where
  "splitExpr_step tokenizer ch s =
     map_option (\<lambda>s. s\<lparr>sp_previousCh := ch\<rparr>)
      (if sp_inQuotes s then
         Some (let s = push_char ch s
               in if ch = QUOTE \<and> sp_previousCh s \<noteq> BACKSLASH then s\<lparr>sp_inQuotes := False\<rparr> else s)
       else if ch = CHR '')'' \<and> tokenizer \<noteq> NUL \<or> ch = CHR ''}'' \<or> ch = CHR '']'' then
         (case sp_specials s of
            [] \<Rightarrow> None
          | t # rest \<Rightarrow>
              Some (let s = push_char ch s; s = (if matches t ch then s\<lparr>sp_specials := rest\<rparr> else s)
                    in if sp_specials s = [] \<and> tokenizer = NUL then end_field s else s))
       else if ch = CHR ''('' \<and> tokenizer \<noteq> NUL \<or> ch = CHR ''{'' \<or> ch = CHR ''['' then
         Some (let s = (if sp_specials s = [] \<and> tokenizer = NUL then end_field s else s); s = push_char ch s
               in s\<lparr>sp_specials := ch # sp_specials s\<rparr>)
       else if ch = QUOTE then Some ((push_char ch s)\<lparr>sp_inQuotes := True\<rparr>)
       else if sp_specials s = [] \<and> ch = tokenizer then Some (end_field s)
       else Some (if sp_field s \<noteq> [] \<or> \<not> isspace ch then push_char ch s else s))"

definition SplitState_new :: SplitState where
  "SplitState_new = \<lparr>sp_tokens = [], sp_specials = [], sp_previousCh = NUL, sp_inQuotes = False, sp_field = []\<rparr>"

definition splitExpr :: "string \<Rightarrow> char \<Rightarrow> string list option" where
  "splitExpr expr tokenizer = do {
     s \<leftarrow> fold_opt (splitExpr_step tokenizer) expr SplitState_new;
     Some (sp_tokens (end_field s))
   }"

subsection \<open>Values of the parser and objects\<close>

datatype 'n prim = PNum 'n | PStr string

datatype 'n mup_value = MPrim "'n prim" | MArray "'n mup_value list"

datatype ('n, 'o) obj_value =
    OPrim "'n prim"
  | ONative 'o
  | OVector "('n, 'o) obj_value list"
  | OMap "(('n, 'o) obj_value \<times> ('n, 'o) obj_value) list"

datatype eval_error = EmptyExpression | NotKeyValue string | ParserError string | UnknownType | TopOfEmptyStack | OutOfFuel

definition mapTypeId :: string where
  "mapTypeId = ''__map__''"

definition tmpTypeId :: string where
  "tmpTypeId = ''__tmp__''"

text \<open>\<open>map[key] = val\<close> replaces, \<open>map.emplace(key, val)\<close> keeps.\<close>

fun proxy_map_put :: "bool \<Rightarrow> ('k \<Rightarrow> 'k \<Rightarrow> bool) \<Rightarrow> 'k \<Rightarrow> 'v \<Rightarrow> ('k \<times> 'v) list \<Rightarrow> ('k \<times> 'v) list" where
  "proxy_map_put replace lt k v [] = [(k, v)]"
| "proxy_map_put replace lt k v ((k', v') # m) =
     (if lt k k' then (k, v) # (k', v') # m
      else if lt k' k then (k', v') # proxy_map_put replace lt k v m
      else (k', if replace then v else v') # m)"

primrec map_results :: "('a \<Rightarrow> 'e + 'b) \<Rightarrow> 'a list \<Rightarrow> 'e + 'b list" where
  "map_results f [] = Inr []"
| "map_results f (x # xs) = rbind (f x) (\<lambda>y. rbind (map_results f xs) (\<lambda>ys. Inr (y # ys)))"

lemma map_results_cong [fundef_cong]:
  "xs = ys \<Longrightarrow> (\<And>x. x \<in> set ys \<Longrightarrow> f x = g x) \<Longrightarrow> map_results f xs = map_results g ys"
  by (induction ys arbitrary: xs) auto

fun pairs_of :: "'a list \<Rightarrow> ('a \<times> 'a) list" where
  "pairs_of (k # v # xs) = (k, v) # pairs_of xs"
| "pairs_of _ = []"

function mupValueToObject ::
  "(('n, 'o) obj_value \<Rightarrow> ('n, 'o) obj_value \<Rightarrow> bool) \<Rightarrow> 'n mup_value \<Rightarrow> ('n, 'o) obj_value" where
  "mupValueToObject lt (MPrim p) = OPrim p"
| "mupValueToObject lt (MArray vals) =
     (let isMap = odd (length vals) \<and> vals ! 0 = MPrim (PStr mapTypeId);
          vec = map (mupValueToObject lt) vals
      in if \<not> isMap then OVector vec
         else OMap (fold (\<lambda>(k, v) m. proxy_map_put True lt k v m) (pairs_of (tl vec)) []))"
  by pat_completeness auto
termination
  by (relation "measure (\<lambda>(_, v). size v)") (auto simp: less_Suc_eq_le size_list_estimation')

fun objectToMupValue :: "('o \<Rightarrow> 'n prim option) \<Rightarrow> ('n, 'o) obj_value \<Rightarrow> eval_error + 'n mup_value" where
  "objectToMupValue toNumber (OPrim p) = Inr (MPrim p)"
| "objectToMupValue toNumber (ONative x) = (case toNumber x of Some p \<Rightarrow> Inr (MPrim p) | None \<Rightarrow> Inl UnknownType)"
| "objectToMupValue toNumber (OVector vec) =
     rbind (map_results (objectToMupValue toNumber) vec) (\<lambda>arr. Inr (MArray arr))"
| "objectToMupValue toNumber (OMap m) =
     rbind (map_results (objectToMupValue toNumber) (concat (map (\<lambda>(k, v). [k, v]) m)))
       (\<lambda>arr. Inr (MArray (MPrim (PStr mapTypeId) # arr)))"

subsection \<open>Evaluation\<close>

type_synonym 'n constants = "string \<Rightarrow> 'n mup_value option"
type_synonym ('n, 'o) evaluator = "'n constants \<Rightarrow> string \<Rightarrow> (eval_error + ('n, 'o) obj_value) \<times> 'n constants"

definition unregisterConstant :: "string \<Rightarrow> 'n constants \<Rightarrow> 'n constants" where
  "unregisterConstant key c = (if c key \<noteq> None then c(key := None) else c)"

definition registerConstantObj ::
  "('o \<Rightarrow> 'n prim option) \<Rightarrow> string \<Rightarrow> ('n, 'o) obj_value \<Rightarrow> 'n constants \<Rightarrow> eval_error option \<times> 'n constants" where
  "registerConstantObj toNumber key x c =
     (case objectToMupValue toNumber x of
        Inl e \<Rightarrow> (Some e, c)
      | Inr result \<Rightarrow> (None, (unregisterConstant key c)(key \<mapsto> result)))"

definition registerConstantExpr ::
  "('o \<Rightarrow> 'n prim option) \<Rightarrow> ('n, 'o) evaluator \<Rightarrow> string \<Rightarrow> string \<Rightarrow> 'n constants \<Rightarrow> eval_error option \<times> 'n constants" where
  "registerConstantExpr toNumber eval key expr c =
     (case eval c expr of
        (Inl e, c) \<Rightarrow> (Some e, c)
      | (Inr x, c) \<Rightarrow> registerConstantObj toNumber key x c)"

text \<open>Several containers at the top level: each is evaluated and named by a temporary constant.\<close>

fun eval_tokens ::
  "('o \<Rightarrow> 'n prim option) \<Rightarrow> ('n, 'o) evaluator \<Rightarrow> nat \<Rightarrow> string \<Rightarrow> string list \<Rightarrow> 'n constants \<Rightarrow> (eval_error + string) \<times> 'n constants" where
  "eval_tokens toNumber eval index newExpr [] c = (Inr newExpr, c)"
| "eval_tokens toNumber eval index newExpr (tok # tokens) c =
     (if tok = [] then eval_tokens toNumber eval index newExpr tokens c
      else if hd tok = CHR ''['' \<or> hd tok = CHR ''{'' then
        (let key = tmpTypeId @ to_string index
         in case eval c tok of
              (Inl e, c) \<Rightarrow> (Inl e, c)
            | (Inr x, c) \<Rightarrow>
                (case registerConstantObj toNumber key x c of
                   (Some e, c) \<Rightarrow> (Inl e, c)
                 | (None, c) \<Rightarrow> eval_tokens toNumber eval (index + 1) (newExpr @ key) tokens c))
      else eval_tokens toNumber eval index (newExpr @ tok) tokens c)"

fun eval_each :: "('n, 'o) evaluator \<Rightarrow> string list \<Rightarrow> 'n constants \<Rightarrow> (eval_error + ('n, 'o) obj_value list) \<times> 'n constants" where
  "eval_each eval [] c = (Inr [], c)"
| "eval_each eval (tok # toks) c =
     (case eval c tok of
        (Inl e, c) \<Rightarrow> (Inl e, c)
      | (Inr x, c) \<Rightarrow>
          (case eval_each eval toks c of (Inl e, c) \<Rightarrow> (Inl e, c) | (Inr xs, c) \<Rightarrow> (Inr (x # xs), c)))"

definition evalList :: "('n, 'o) evaluator \<Rightarrow> 'n constants \<Rightarrow> string \<Rightarrow> (eval_error + ('n, 'o) obj_value) \<times> 'n constants" where
  "evalList eval c expr =
     (let noBrackets = butlast (tl expr)
      in case splitExpr noBrackets (CHR '','') of
           None \<Rightarrow> (Inl TopOfEmptyStack, c)
         | Some toks \<Rightarrow>
             (case eval_each eval toks c of (Inl e, c) \<Rightarrow> (Inl e, c) | (Inr vec, c) \<Rightarrow> (Inr (OVector vec), c)))"

fun eval_pairs ::
  "(('n, 'o) obj_value \<Rightarrow> ('n, 'o) obj_value \<Rightarrow> bool) \<Rightarrow> ('n, 'o) evaluator \<Rightarrow> string list \<Rightarrow>
   (('n, 'o) obj_value \<times> ('n, 'o) obj_value) list \<Rightarrow> 'n constants \<Rightarrow> (eval_error + ('n, 'o) obj_value) \<times> 'n constants" where
  "eval_pairs lt eval [] m c = (Inr (OMap m), c)"
| "eval_pairs lt eval (tok # toks) m c =
     (case splitExpr tok (CHR '':'') of
        None \<Rightarrow> (Inl TopOfEmptyStack, c)
      | Some [key, val] \<Rightarrow>
          (case eval_each eval [key, val] c of
             (Inr [k, v], c) \<Rightarrow> eval_pairs lt eval toks (proxy_map_put False lt k v m) c
           | (Inr _, c) \<Rightarrow> (Inl (NotKeyValue tok), c)
           | (Inl e, c) \<Rightarrow> (Inl e, c))
      | Some _ \<Rightarrow> (Inl (NotKeyValue tok), c))"

definition evalMap ::
  "(('n, 'o) obj_value \<Rightarrow> ('n, 'o) obj_value \<Rightarrow> bool) \<Rightarrow> ('n, 'o) evaluator \<Rightarrow> 'n constants \<Rightarrow> string \<Rightarrow>
   (eval_error + ('n, 'o) obj_value) \<times> 'n constants" where
  "evalMap lt eval c expr =
     (let noBrackets = butlast (tl expr)
      in case splitExpr noBrackets (CHR '','') of
           None \<Rightarrow> (Inl TopOfEmptyStack, c)
         | Some toks \<Rightarrow> eval_pairs lt eval toks [] c)"

record ('n, 'o) Externals =
  ex_trim :: "string \<Rightarrow> string"
  ex_less :: "('n, 'o) obj_value \<Rightarrow> ('n, 'o) obj_value \<Rightarrow> bool"
  ex_toNumber :: "'o \<Rightarrow> 'n prim option"
  ex_mup :: "'n constants \<Rightarrow> string \<Rightarrow> 'n mup_value option"

definition eval_body :: "('n, 'o) Externals \<Rightarrow> ('n, 'o) evaluator \<Rightarrow> ('n, 'o) evaluator" where
  "eval_body x eval c expr =
     (if ex_trim x expr = [] then (Inl EmptyExpression, c)
      else case splitExpr expr NUL of
        None \<Rightarrow> (Inl TopOfEmptyStack, c)
      | Some tokens \<Rightarrow>
          if length tokens > 1 then
            (case eval_tokens (ex_toNumber x) eval 0 [] tokens c of
               (Inl e, c) \<Rightarrow> (Inl e, c)
             | (Inr newExpr, c) \<Rightarrow> eval c newExpr)
          else if length expr \<ge> 2 \<and> hd expr = CHR ''['' \<and> last expr = CHR '']'' then evalList eval c expr
          else if length expr \<ge> 2 \<and> hd expr = CHR ''{'' \<and> last expr = CHR ''}'' then evalMap (ex_less x) eval c expr
          else (case ex_mup x c expr of
                  None \<Rightarrow> (Inl (ParserError expr), c)
                | Some result \<Rightarrow> (Inr (mupValueToObject (ex_less x) result), c)))"

primrec EvalEnvironment_eval :: "('n, 'o) Externals \<Rightarrow> nat \<Rightarrow> ('n, 'o) evaluator" where
  "EvalEnvironment_eval x 0 c expr = (Inl OutOfFuel, c)"
| "EvalEnvironment_eval x (Suc n) c expr = eval_body x (EvalEnvironment_eval x n) c expr"

subsection \<open>Lemmas on splitting\<close>

lemmas split_defs = splitExpr_step_def push_char_def end_field_def matches_def NUL_def QUOTE_def BACKSLASH_def Let_def

text \<open>The texts whose brackets match and whose quotes are closed; \<open>ok\<close> are the plain characters they may have outside of
  brackets. A quote inside quotes is one behind a backslash.\<close>

fun quote_body :: "char \<Rightarrow> string \<Rightarrow> bool" where
  "quote_body prev [] \<longleftrightarrow> prev \<noteq> BACKSLASH"
| "quote_body prev (c # cs) \<longleftrightarrow> (c = QUOTE \<longrightarrow> prev = BACKSLASH) \<and> quote_body c cs"

definition special_chars :: string where
  "special_chars = ''(){}[]'' @ [QUOTE]"

inductive balanced :: "(char \<Rightarrow> bool) \<Rightarrow> string \<Rightarrow> bool" where
  balanced_Nil: "balanced ok []"
| balanced_plain: "ok c \<Longrightarrow> c \<notin> set special_chars \<Longrightarrow> balanced ok s \<Longrightarrow> balanced ok (c # s)"
| balanced_quotes: "quote_body QUOTE q \<Longrightarrow> balanced ok s \<Longrightarrow> balanced ok (QUOTE # q @ QUOTE # s)"
| balanced_group: "matches a b \<Longrightarrow> balanced (\<lambda>_. True) inner \<Longrightarrow> balanced ok s \<Longrightarrow> balanced ok (a # inner @ b # s)"

lemma fold_quote:
  assumes "quote_body prev q" "sp_inQuotes s" "sp_previousCh s = prev"
  shows "fold_opt (splitExpr_step tok) (q @ [QUOTE]) s =
         Some (s\<lparr>sp_field := sp_field s @ q @ [QUOTE], sp_inQuotes := False, sp_previousCh := QUOTE\<rparr>)"
  using assms
proof (induction q arbitrary: prev s)
  case Nil
  then show ?case by (simp add: split_defs)
next
  case (Cons c q)
  let ?s = "s\<lparr>sp_field := sp_field s @ [c], sp_previousCh := c\<rparr>"
  have "splitExpr_step tok c s = Some ?s" using Cons.prems by (auto simp: split_defs)
  moreover have "quote_body c q" "sp_inQuotes ?s" "sp_previousCh ?s = c" using Cons.prems by simp_all
  note Cons.IH [OF this]
  ultimately show ?case by simp
qed

text \<open>Scanning a balanced text appends it to the field.\<close>

lemma fold_balanced:
  assumes "balanced ok s" "tok \<noteq> NUL" "tok \<notin> set special_chars"
    "\<not> sp_inQuotes st" "sp_specials st = [] \<longrightarrow> \<not> ok tok" "sp_field st \<noteq> [] \<or> s = [] \<or> \<not> isspace (hd s)"
  shows "\<exists>p. fold_opt (splitExpr_step tok) s st = Some (st\<lparr>sp_field := sp_field st @ s, sp_previousCh := p\<rparr>)"
  using assms
proof (induction arbitrary: st rule: balanced.induct)
  case (balanced_Nil ok)
  have "fold_opt (splitExpr_step tok) [] st = Some (st\<lparr>sp_field := sp_field st @ [], sp_previousCh := sp_previousCh st\<rparr>)"
    by simp
  then show ?case by blast
next
  case (balanced_plain ok c s)
  let ?st = "st\<lparr>sp_field := sp_field st @ [c], sp_previousCh := c\<rparr>"
  have "splitExpr_step tok c st = Some ?st"
    using balanced_plain.prems balanced_plain.hyps by (auto simp: split_defs special_chars_def)
  moreover obtain p where "fold_opt (splitExpr_step tok) s ?st = Some (?st\<lparr>sp_field := sp_field ?st @ s, sp_previousCh := p\<rparr>)"
    using balanced_plain.IH [of ?st] balanced_plain.prems by auto
  ultimately show ?case by auto
next
  case (balanced_quotes q ok s)
  let ?q = "st\<lparr>sp_field := sp_field st @ [QUOTE], sp_previousCh := QUOTE, sp_inQuotes := True\<rparr>"
  let ?st = "st\<lparr>sp_field := sp_field st @ QUOTE # q @ [QUOTE], sp_previousCh := QUOTE\<rparr>"
  have "splitExpr_step tok QUOTE st = Some ?q" using balanced_quotes.prems by (auto simp: split_defs special_chars_def)
  moreover have "fold_opt (splitExpr_step tok) (q @ [QUOTE]) ?q = Some ?st"
    using fold_quote [OF balanced_quotes.hyps(1), of ?q tok] balanced_quotes.prems by simp
  moreover obtain p where "fold_opt (splitExpr_step tok) s ?st = Some (?st\<lparr>sp_field := sp_field ?st @ s, sp_previousCh := p\<rparr>)"
    using balanced_quotes.IH [of ?st] balanced_quotes.prems by auto
  ultimately show ?case using fold_opt_append [of "splitExpr_step tok" "q @ [QUOTE]" s ?q] by auto
next
  case (balanced_group a b inner ok s)
  let ?in = "st\<lparr>sp_field := sp_field st @ [a], sp_specials := a # sp_specials st, sp_previousCh := a\<rparr>"
  let ?st = "st\<lparr>sp_field := sp_field st @ a # inner @ [b], sp_previousCh := b\<rparr>"
  have "splitExpr_step tok a st = Some ?in"
    using balanced_group.prems balanced_group.hyps(1) by (auto simp: split_defs special_chars_def)
  moreover obtain p where p: "fold_opt (splitExpr_step tok) inner ?in =
      Some (?in\<lparr>sp_field := sp_field ?in @ inner, sp_previousCh := p\<rparr>)"
    using balanced_group.IH(1) [of ?in] balanced_group.prems by auto
  moreover have "splitExpr_step tok b (?in\<lparr>sp_field := sp_field ?in @ inner, sp_previousCh := p\<rparr>) = Some ?st"
    using balanced_group.prems balanced_group.hyps(1) by (auto simp: split_defs special_chars_def)
  moreover obtain p' where "fold_opt (splitExpr_step tok) s ?st = Some (?st\<lparr>sp_field := sp_field ?st @ s, sp_previousCh := p'\<rparr>)"
    using balanced_group.IH(2) [of ?st] balanced_group.prems by auto
  ultimately show ?case by auto
qed

fun join_with :: "char \<Rightarrow> string list \<Rightarrow> string" where
  "join_with tok [] = []"
| "join_with tok [f] = f"
| "join_with tok (f # fs) = f @ tok # join_with tok fs"

definition field_ok :: "char \<Rightarrow> string \<Rightarrow> bool" where
  "field_ok tok f \<longleftrightarrow> f \<noteq> [] \<and> \<not> isspace (hd f) \<and> balanced (\<lambda>c. c \<noteq> tok) f"

lemma scan_fields:
  assumes "tok \<noteq> NUL" "tok \<notin> set special_chars" "\<forall>f \<in> set fs. field_ok tok f"
    "\<not> sp_inQuotes st" "sp_specials st = []" "sp_field st = []"
  shows "\<exists>st'. fold_opt (splitExpr_step tok) (join_with tok fs) st = Some st' \<and>
               sp_tokens (end_field st') = sp_tokens st @ fs"
  using assms
proof (induction tok fs arbitrary: st rule: join_with.induct)
  case (1 tok)
  then show ?case by (simp add: end_field_def)
next
  case (2 tok f)
  then obtain p where "fold_opt (splitExpr_step tok) f st = Some (st\<lparr>sp_field := f, sp_previousCh := p\<rparr>)" "f \<noteq> []"
    using fold_balanced [of "\<lambda>c. c \<noteq> tok" f tok st] by (auto simp: field_ok_def)
  then show ?case by (simp add: end_field_def)
next
  case (3 tok f g fs)
  obtain p where p: "fold_opt (splitExpr_step tok) f st = Some (st\<lparr>sp_field := f, sp_previousCh := p\<rparr>)"
    using fold_balanced [of "\<lambda>c. c \<noteq> tok" f tok st] 3(2-) by (auto simp: field_ok_def)
  let ?st = "st\<lparr>sp_tokens := sp_tokens st @ [f], sp_field := [], sp_previousCh := tok\<rparr>"
  have "splitExpr_step tok tok (st\<lparr>sp_field := f, sp_previousCh := p\<rparr>) = Some ?st"
    using 3(2-) by (auto simp: split_defs special_chars_def field_ok_def)
  moreover obtain st' where "fold_opt (splitExpr_step tok) (join_with tok (g # fs)) ?st = Some st'"
      "sp_tokens (end_field st') = sp_tokens ?st @ g # fs"
    using 3(1) [of ?st] 3(2-) by auto
  ultimately show ?case using p by auto
qed

subsection \<open>Properties\<close>

text \<open>
  C11. Splitting undoes joining: arguments that are written with a separator between them are split into exactly these
  arguments, also when the separator occurs in them inside brackets or quotes, as long as their brackets match, their
  quotes are closed, and none is empty or begins with a space. The scan never looks at the top of an empty stack.
\<close>

theorem split_undoes_join:
  assumes "tok \<noteq> NUL" "tok \<notin> set special_chars" "\<forall>f \<in> set fs. field_ok tok f"
  shows "splitExpr (join_with tok fs) tok = Some fs"
  using scan_fields [OF assms, of SplitState_new] by (auto simp: splitExpr_def SplitState_new_def)

definition demo_fields :: "string list" where
  "demo_fields = [''[1, 2]'', ''f(x, y)'', QUOTE # '','' @ [QUOTE]]"

theorem split_undoes_join_witness: "splitExpr (join_with (CHR '','') demo_fields) (CHR '','') = Some demo_fields"
proof (rule split_undoes_join)
  have "balanced (\<lambda>c. c \<noteq> CHR '','') (CHR ''['' # ''1, 2'' @ CHR '']'' # [])"
    "balanced (\<lambda>c. c \<noteq> CHR '','') (CHR ''f'' # CHR ''('' # ''x, y'' @ CHR '')'' # [])"
    "balanced (\<lambda>c. c \<noteq> CHR '','') (QUOTE # '','' @ QUOTE # [])"
    by ((intro balanced.intros; simp add: matches_def special_chars_def QUOTE_def BACKSLASH_def))+
  then show "\<forall>f \<in> set demo_fields. field_ok (CHR '','') f"
    by (simp add: demo_fields_def field_ok_def isspace_def QUOTE_def)
qed (simp_all add: NUL_def special_chars_def QUOTE_def)

subsection \<open>Constants through the parser\<close>

text \<open>The objects that the array form of the parser can represent: vectors that do not look like a flattened map, and maps in
  the order of their keys.\<close>

inductive value_ok :: "(('n, 'o) obj_value \<Rightarrow> ('n, 'o) obj_value \<Rightarrow> bool) \<Rightarrow> ('n, 'o) obj_value \<Rightarrow> bool"
  for lt :: "('n, 'o) obj_value \<Rightarrow> ('n, 'o) obj_value \<Rightarrow> bool" where
  ok_prim: "value_ok lt (OPrim p)"
| ok_vector: "\<forall>v \<in> set vec. value_ok lt v \<Longrightarrow> \<not> (odd (length vec) \<and> hd vec = OPrim (PStr mapTypeId)) \<Longrightarrow>
    value_ok lt (OVector vec)"
| ok_map: "\<forall>p \<in> set m. value_ok lt (fst p) \<and> value_ok lt (snd p) \<Longrightarrow>
    sorted_wrt (\<lambda>p q. lt (fst p) (fst q) \<and> \<not> lt (fst q) (fst p)) m \<Longrightarrow> value_ok lt (OMap m)"

lemma map_results_inverse:
  "\<forall>x \<in> set xs. \<exists>r. f x = Inr r \<and> g r = x \<Longrightarrow> \<exists>rs. map_results f xs = Inr rs \<and> map g rs = xs"
proof (induction xs)
  case (Cons x xs)
  then obtain r rs where "f x = Inr r" "g r = x" "map_results f xs = Inr rs" "map g rs = xs" by auto
  then show ?case by auto
qed simp

lemma proxy_map_put_last:
  "\<forall>p \<in> set m. lt (fst p) k \<and> \<not> lt k (fst p) \<Longrightarrow> proxy_map_put r lt k v m = m @ [(k, v)]"
  by (induction m) auto

lemma fold_proxy_map_put:
  "sorted_wrt (\<lambda>p q. lt (fst p) (fst q) \<and> \<not> lt (fst q) (fst p)) (m @ m') \<Longrightarrow>
   fold (\<lambda>(k, v) m. proxy_map_put r lt k v m) m' m = m @ m'"
proof (induction m' arbitrary: m)
  case (Cons p m')
  have "proxy_map_put r lt (fst p) (snd p) m = m @ [p]"
    using Cons.prems proxy_map_put_last [of m lt "fst p" r "snd p"] by (auto simp: sorted_wrt_append)
  then show ?case using Cons.IH [of "m @ [p]"] Cons.prems by (simp add: case_prod_unfold)
qed simp

lemma flat_pairs:
  "pairs_of (concat (map (\<lambda>(k, v). [k, v]) m)) = m" "even (length (concat (map (\<lambda>(k, v). [k, v]) m)))"
  "set (concat (map (\<lambda>(k, v). [k, v]) m)) = fst ` set m \<union> snd ` set m"
  by (induction m) auto

text \<open>
  A value that is registered as a constant and comes back from the parser unchanged is the value that was registered, for
  vectors and maps nested in any way, unless a vector of odd length begins with the string that marks a map.
\<close>

theorem constant_round_trip:
  assumes "value_ok lt v"
  shows "\<exists>r. objectToMupValue toNumber v = Inr r \<and> mupValueToObject lt r = v"
  using assms
proof induction
  case (ok_prim p)
  then show ?case by simp
next
  case (ok_vector vec)
  then obtain rs where rs: "map_results (objectToMupValue toNumber) vec = Inr rs" "map (mupValueToObject lt) rs = vec"
    using map_results_inverse [of vec "objectToMupValue toNumber" "mupValueToObject lt"] by auto
  then have "\<not> (odd (length rs) \<and> rs ! 0 = MPrim (PStr mapTypeId))"
    using ok_vector(2) by (cases rs) auto
  then show ?case using rs by auto
next
  case (ok_map m)
  let ?flat = "concat (map (\<lambda>(k, v). [k, v]) m)"
  have "\<forall>x \<in> set ?flat. \<exists>r. objectToMupValue toNumber x = Inr r \<and> mupValueToObject lt r = x"
    unfolding flat_pairs(3) using ok_map(1) by auto
  from map_results_inverse [OF this] obtain rs
    where rs: "map_results (objectToMupValue toNumber) ?flat = Inr rs" "map (mupValueToObject lt) rs = ?flat" by blast
  then have "even (length rs)" using flat_pairs(2) [of m] length_map [of "mupValueToObject lt" rs] by simp
  then show ?case using rs fold_proxy_map_put [of lt "[]" m True] ok_map(2) by (simp add: flat_pairs(1))
qed

theorem constant_round_trip_witness:
  "\<exists>r. objectToMupValue (\<lambda>_. None) (OMap [(OPrim (PNum 1), OVector [OPrim (PStr ''a'')])] :: (int, unit) obj_value) = Inr r \<and>
       mupValueToObject (\<lambda>_ _. False) r = (OMap [(OPrim (PNum 1), OVector [OPrim (PStr ''a'')])] :: (int, unit) obj_value)"
  by (rule constant_round_trip)
     (auto intro!: value_ok.intros simp: mapTypeId_def)

text \<open>The temporary constants of nested evaluations.\<close>

lemma demo_splits:
  "splitExpr ''[1]+[ [2]+[3]]'' NUL = Some [''[1]'', ''+'', ''[ [2]+[3]]'']"
  "splitExpr ''[2]+[3]'' NUL = Some [''[2]'', ''+'', ''[3]'']"
  "splitExpr ''__tmp__0+__tmp__1'' NUL = Some [''__tmp__0+__tmp__1'']"
  "splitExpr ''[1]'' NUL = Some [''[1]'']" "splitExpr ''[2]'' NUL = Some [''[2]'']" "splitExpr ''[3]'' NUL = Some [''[3]'']"
  "splitExpr ''[ [2]+[3]]'' NUL = Some [''[ [2]+[3]]'']"
  "splitExpr ''1'' NUL = Some [''1'']" "splitExpr ''2'' NUL = Some [''2'']" "splitExpr ''3'' NUL = Some [''3'']"
  "splitExpr ''1'' (CHR '','') = Some [''1'']" "splitExpr ''2'' (CHR '','') = Some [''2'']"
  "splitExpr ''3'' (CHR '','') = Some [''3'']" "splitExpr '' [2]+[3]'' (CHR '','') = Some [''[2]+[3]'']"
  by code_simp+

lemma define_constant: "(unregisterConstant key c)(key \<mapsto> r) = c(key \<mapsto> r)"
  by (auto simp: unregisterConstant_def)

lemma demo_keys: "tmpTypeId @ to_string 0 = ''__tmp__0''" "tmpTypeId @ to_string (Suc 0) = ''__tmp__1''"
  by code_simp+

text \<open>
  The temporary constants that stand for the containers of an expression are numbered from zero in every
  evaluation, nested ones too, so that an inner evaluation overwrites those of the outer one: in \<open>[1]+[ [2]+[3]]\<close>
  the parser is given \<open>[2]\<close> as the left operand of the outer sum, in place of \<open>[1]\<close>.
\<close>

theorem nested_containers_clobber_temporaries:
  assumes "\<forall>s. ex_trim x s = [] \<longrightarrow> (\<forall>ch \<in> set s. isspace ch)"
    "\<forall>c. ex_mup x c ''1'' = Some (MPrim one)" "\<forall>c. ex_mup x c ''2'' = Some (MPrim two)" "\<forall>c. ex_mup x c ''3'' = Some (MPrim three)"
    "ex_mup x [''__tmp__0'' \<mapsto> MArray [MPrim two], ''__tmp__1'' \<mapsto> MArray [MPrim three]] ''__tmp__0+__tmp__1'' = Some (MPrim inner)"
  shows "fst (EvalEnvironment_eval x 5 (\<lambda>_. None) ''[1]+[ [2]+[3]]'') =
    (case ex_mup x [''__tmp__0'' \<mapsto> MArray [MPrim two], ''__tmp__1'' \<mapsto> MArray [MPrim inner]] ''__tmp__0+__tmp__1'' of
       None \<Rightarrow> Inl (ParserError ''__tmp__0+__tmp__1'')
     | Some r \<Rightarrow> Inr (mupValueToObject (ex_less x) r))"
proof -
  have trim: "ex_trim x s \<noteq> []" if "\<not> isspace (hd s)" "s \<noteq> []" for s using assms(1) that by (cases s) auto
  note defs = eval_body_def evalList_def registerConstantObj_def define_constant demo_splits Let_def
  have num: "EvalEnvironment_eval x (Suc n) c ''1'' = (Inr (OPrim one), c)"
      "EvalEnvironment_eval x (Suc n) c ''2'' = (Inr (OPrim two), c)"
      "EvalEnvironment_eval x (Suc n) c ''3'' = (Inr (OPrim three), c)" for n c
    using trim [of "''1''"] trim [of "''2''"] trim [of "''3''"] assms(2-4) by (simp_all add: defs isspace_def)
  have list: "EvalEnvironment_eval x (Suc (Suc n)) c ''[1]'' = (Inr (OVector [OPrim one]), c)"
      "EvalEnvironment_eval x (Suc (Suc n)) c ''[2]'' = (Inr (OVector [OPrim two]), c)"
      "EvalEnvironment_eval x (Suc (Suc n)) c ''[3]'' = (Inr (OVector [OPrim three]), c)" for n c
    using trim [of "''[1]''"] trim [of "''[2]''"] trim [of "''[3]''"] num [of n]
    by (simp_all add: defs isspace_def del: EvalEnvironment_eval.simps(2)
        add: EvalEnvironment_eval.simps(2) [of x "Suc n"])
  let ?two = "MArray [MPrim two]"
  have call: "EvalEnvironment_eval x (Suc n) c ''__tmp__0+__tmp__1'' =
      ((case ex_mup x c ''__tmp__0+__tmp__1'' of
         None \<Rightarrow> Inl (ParserError ''__tmp__0+__tmp__1'')
       | Some r \<Rightarrow> Inr (mupValueToObject (ex_less x) r)), c)" for n c
    using trim [of "''__tmp__0+__tmp__1''"] by (simp add: defs isspace_def split: option.split)
  let ?c = "[''__tmp__0'' \<mapsto> ?two, ''__tmp__1'' \<mapsto> MArray [MPrim three]]"
  have inner: "EvalEnvironment_eval x 3 [''__tmp__0'' \<mapsto> r] ''[2]+[3]'' = (Inr (OPrim inner), ?c)" for r
    using trim [of "''[2]+[3]''"] list [of 0] call [of 1 ?c] assms(5)
    by (simp add: EvalEnvironment_eval.simps(2) [of x "Suc (Suc 0)"] eval_nat_numeral defs isspace_def demo_keys [simplified]
        del: EvalEnvironment_eval.simps)
  have outer: "EvalEnvironment_eval x 4 [''__tmp__0'' \<mapsto> r] ''[ [2]+[3]]'' = (Inr (OVector [OPrim inner]), ?c)" for r
    using trim [of "''[ [2]+[3]]''"] inner [of r]
    by (simp add: EvalEnvironment_eval.simps(2) [of x "Suc (Suc (Suc 0))"] eval_nat_numeral defs isspace_def
        del: EvalEnvironment_eval.simps)
  show ?thesis
    using trim [of "''[1]+[ [2]+[3]]''"] list(1) [of 2] outer call [of 3]
    by (simp add: EvalEnvironment_eval.simps(2) [of x "Suc (Suc (Suc (Suc 0)))"] eval_nat_numeral defs isspace_def
        demo_keys [simplified] del: EvalEnvironment_eval.simps)
qed

definition demo_mup :: "int constants \<Rightarrow> string \<Rightarrow> int mup_value option" where
  "demo_mup c s =
     (if s = ''1'' then Some (MPrim (PNum 1)) else if s = ''2'' then Some (MPrim (PNum 2))
      else if s = ''3'' then Some (MPrim (PNum 3))
      else case (c ''__tmp__0'', c ''__tmp__1'') of
             (Some (MArray [MPrim (PNum a)]), Some (MArray [MPrim (PNum b)])) \<Rightarrow> Some (MPrim (PNum (a + b)))
           | _ \<Rightarrow> None)"

definition demo_externals :: "(int, unit) Externals" where
  "demo_externals = \<lparr>ex_trim = filter (\<lambda>ch. \<not> isspace ch), ex_less = (\<lambda>_ _. False), ex_toNumber = (\<lambda>_. None), ex_mup = demo_mup\<rparr>"

theorem nested_containers_clobber_temporaries_witness:
  "fst (EvalEnvironment_eval demo_externals 5 (\<lambda>_. None) ''[1]+[ [2]+[3]]'') = Inr (OPrim (PNum (2 + (2 + 3))))"
  using nested_containers_clobber_temporaries [of demo_externals "PNum 1" "PNum 2" "PNum 3" "PNum 5"]
  by (simp add: demo_externals_def demo_mup_def filter_empty_conv)

end
