(* ===== verification/ThreadEnvironment.thy ===== *)
theory ThreadEnvironment
  imports ObjectSerialize
begin

section \<open>Thread pools\<close>

text \<open>
  \<open>lib/Framework/ThreadEnvironment.cpp\<close>: a pool runs the tasks that blocks register, with one thread per task or
  with a fixed number of threads that take turns over all tasks; \<open>lib/Framework/ThreadPool.cpp\<close> validates its arguments.

  \<^item> A \<open>TaskData\<close> is the pair of its handle and a serial number that no other task has, so that a task
    registered again under the same handle is another one.
  \<^item> Handles are addresses, of some linear order; a \<open>std::map\<close> over them is the list of its entries in that order.
  \<^item> The state has the registered tasks, their flags, the configuration signature, the threads with the
    variables of their process loops, and the call of \<open>registerTask\<close> or \<open>unregisterTask\<close> that has the registration
    mutex. A step is one access to the shared state: of that call, or of one of the threads.
  \<^item> Waiting is enabledness: a join waits for the thread to have returned, and the last loop of
    \<open>unregisterTask\<close> for its pointer to be the only one. What a task does is not modelled; it returns true or
    false. The \<open>wake\<close> functions only end the waiting inside of tasks and do not change this state.
\<close>

subsection \<open>State\<close>

type_synonym 'h TaskData = "'h \<times> nat"

datatype 'h pc =
    CheckSignature
  | TryTask
  | RunTask "'h TaskData" bool
  | WakeOthers "'h TaskData" bool "'h TaskData list" "'h TaskData option"
  | ReleaseTask "'h TaskData"
  | Returned

datatype 'h role = PoolThread nat | SingleThread 'h

record 'h Thread =
  th_role :: "'h role"
  th_pc :: "'h pc"
  th_failAcquireCount :: nat
  th_localSignature :: nat
  th_localTasks :: "'h TaskData list"
  th_it :: nat

datatype 'h call = NoCall | Registering 'h bool | Joining "'h TaskData" bool | Draining "'h TaskData" bool

record 'h PoolEnv =
  te_args :: ThreadPoolArgs
  te_waitModeEnabled :: bool
  te_handleToTask :: "'h TaskData list"
  te_configurationSignature :: nat
  te_flags :: "'h TaskData set"
  te_threads :: "'h Thread list"
  te_serial :: nat
  te_call :: "'h call"

definition ThreadEnvironment_new :: "ThreadPoolArgs \<Rightarrow> 'h PoolEnv" where
  "ThreadEnvironment_new args =
     \<lparr>te_args = args, te_waitModeEnabled = (ta_yieldMode args \<noteq> ''SPIN''), te_handleToTask = [],
      te_configurationSignature = 0, te_flags = {}, te_threads = [], te_serial = 0, te_call = NoCall\<rparr>"

datatype pool_error = UnknownAffinityMode | UnknownYieldMode | PriorityOutOfRange

text \<open>The comparison of the priority with -1.0 and 1.0 is an argument.\<close>

definition ThreadPool_new :: "(double_bits \<Rightarrow> bool) \<Rightarrow> ThreadPoolArgs \<Rightarrow> pool_error + 'h PoolEnv" where
  "ThreadPool_new outOfRange args =
     (if ta_affinityMode args \<notin> {[], ''ALL'', ''CPU'', ''NUMA''} then Inl UnknownAffinityMode
      else if ta_yieldMode args \<notin> {[], ''CONDITION'', ''HYBRID'', ''SPIN''} then Inl UnknownYieldMode
      else if outOfRange (ta_priority args) then Inl PriorityOutOfRange
      else Inr (ThreadEnvironment_new args))"

definition Thread_new :: "'h role \<Rightarrow> 'h Thread" where
  "Thread_new r = \<lparr>th_role = r, th_pc = CheckSignature, th_failAcquireCount = 0, th_localSignature = 0,
                  th_localTasks = [], th_it = 0\<rparr>"

subsection \<open>Registration\<close>

text \<open>\<open>registerTask\<close>: under the update mutex the task is stored and the signature bumped; then a thread may be
  started.\<close>

definition registerTask_store :: "'h::linorder \<Rightarrow> 'h PoolEnv \<Rightarrow> 'h PoolEnv" where
  "registerTask_store h s =
     s\<lparr>te_waitModeEnabled := False,
       te_handleToTask := insort_key fst (h, te_serial s) (filter (\<lambda>d. fst d \<noteq> h) (te_handleToTask s)),
       te_configurationSignature := te_configurationSignature s + 1,
       te_serial := te_serial s + 1,
       te_call := Registering h (te_waitModeEnabled s)\<rparr>"

definition registerTask_spawn :: "'h \<Rightarrow> bool \<Rightarrow> 'h PoolEnv \<Rightarrow> 'h PoolEnv" where
  "registerTask_spawn h waitMode s =
     s\<lparr>te_threads :=
         (if ta_numThreads (te_args s) = 0 then te_threads s @ [Thread_new (SingleThread h)]
          else if length (te_threads s) < ta_numThreads (te_args s)
          then te_threads s @ [Thread_new (PoolThread (length (te_threads s)))]
          else te_threads s),
       te_waitModeEnabled := waitMode, te_call := NoCall\<rparr>"

text \<open>\<open>unregisterTask\<close>: the task is taken out and the signature bumped; a thread may be joined; then the call
  waits until no thread has the task any more.\<close>

definition unregisterTask_remove :: "'h TaskData \<Rightarrow> 'h PoolEnv \<Rightarrow> 'h PoolEnv" where
  "unregisterTask_remove d s =
     s\<lparr>te_waitModeEnabled := False,
       te_handleToTask := filter (\<lambda>e. fst e \<noteq> fst d) (te_handleToTask s),
       te_configurationSignature := te_configurationSignature s + 1,
       te_call := Joining d (te_waitModeEnabled s)\<rparr>"

definition join_ready :: "'h TaskData \<Rightarrow> 'h PoolEnv \<Rightarrow> bool" where
  "join_ready d s =
     (if ta_numThreads (te_args s) = 0
      then list_all (\<lambda>th. th_role th = SingleThread (fst d) \<longrightarrow> th_pc th = Returned) (te_threads s)
      else length (te_threads s) > length (te_handleToTask s) \<longrightarrow> th_pc (last (te_threads s)) = Returned)"

definition unregisterTask_join :: "'h TaskData \<Rightarrow> bool \<Rightarrow> 'h PoolEnv \<Rightarrow> 'h PoolEnv" where
  "unregisterTask_join d waitMode s =
     s\<lparr>te_threads :=
         (if ta_numThreads (te_args s) = 0 then filter (\<lambda>th. th_role th \<noteq> SingleThread (fst d)) (te_threads s)
          else take (length (te_handleToTask s)) (te_threads s)),
       te_call := Draining d waitMode\<rparr>"

definition task_unique :: "'h TaskData \<Rightarrow> 'h PoolEnv \<Rightarrow> bool" where
  "task_unique d s = list_all (\<lambda>th. d \<notin> set (th_localTasks th)) (te_threads s)"

definition unregisterTask_return :: "bool \<Rightarrow> 'h PoolEnv \<Rightarrow> 'h PoolEnv" where
  "unregisterTask_return waitMode s = s\<lparr>te_waitModeEnabled := waitMode, te_call := NoCall\<rparr>"

subsection \<open>The process loops\<close>

text \<open>The check for a configuration change.\<close>

definition poolProcess_check :: "nat \<Rightarrow> 'h PoolEnv \<Rightarrow> 'h Thread \<Rightarrow> 'h Thread" where
  "poolProcess_check index s th =
     (if te_configurationSignature s \<noteq> th_localSignature th
      then th\<lparr>th_localTasks := te_handleToTask s, th_it := length (te_handleToTask s),
              th_localSignature := te_configurationSignature s, th_failAcquireCount := 0,
              th_pc := (if length (te_handleToTask s) \<le> index then Returned else TryTask)\<rparr>
      else th\<lparr>th_pc := TryTask\<rparr>)"

definition singleProcess_check :: "'h \<Rightarrow> 'h PoolEnv \<Rightarrow> 'h Thread \<Rightarrow> 'h Thread" where
  "singleProcess_check h s th =
     (if te_configurationSignature s \<noteq> th_localSignature th
      then th\<lparr>th_localTasks := te_handleToTask s, th_it := length (takeWhile (\<lambda>d. fst d \<noteq> h) (te_handleToTask s)),
              th_localSignature := te_configurationSignature s,
              th_pc := (if h \<notin> fst ` set (te_handleToTask s) then Returned else TryTask)\<rparr>
      else th\<lparr>th_pc := TryTask\<rparr>)"

text \<open>The next task of the round, and the attempt to take its flag.\<close>

definition current_it :: "'h Thread \<Rightarrow> nat" where
  "current_it th = (if th_it th = length (th_localTasks th) then 0 else th_it th)"

definition poolProcess_try :: "'h PoolEnv \<Rightarrow> 'h Thread \<Rightarrow> 'h TaskData set \<times> 'h Thread" where
  "poolProcess_try s th =
     (let it = current_it th; d = th_localTasks th ! it
      in if d \<notin> te_flags s
         then (insert d (te_flags s),
               th\<lparr>th_it := it,
                  th_pc := RunTask d (te_waitModeEnabled s \<and> length (th_localTasks th) \<le> th_failAcquireCount th)\<rparr>)
         else (te_flags s,
               th\<lparr>th_it := it + 1, th_failAcquireCount := th_failAcquireCount th + 1, th_pc := CheckSignature\<rparr>))"

text \<open>The task has returned \<open>ok\<close>.\<close>

definition poolProcess_ran :: "bool \<Rightarrow> 'h TaskData \<Rightarrow> bool \<Rightarrow> 'h PoolEnv \<Rightarrow> 'h Thread \<Rightarrow> 'h Thread" where
  "poolProcess_ran ok d waitOnce s th =
     (if ok
      then th\<lparr>th_pc := (if te_waitModeEnabled s
                        then WakeOthers d waitOnce (filter (\<lambda>e. fst e \<noteq> fst d) (th_localTasks th)) None
                        else ReleaseTask d),
              th_failAcquireCount := 0\<rparr>
      else th\<lparr>th_pc := ReleaseTask d,
              th_failAcquireCount := (if waitOnce then 0 else th_failAcquireCount th + 1)\<rparr>)"

text \<open>\<open>wakeAllBusyTasks\<close> takes the flag of every other task for a moment to see whether it is busy.\<close>

definition wakeAllBusyTasks_step ::
  "'h TaskData \<Rightarrow> bool \<Rightarrow> 'h TaskData list \<Rightarrow> 'h TaskData option \<Rightarrow> 'h PoolEnv \<Rightarrow> 'h Thread \<Rightarrow> 'h TaskData set \<times> 'h Thread" where
  "wakeAllBusyTasks_step d waitOnce todo probe s th =
     (case probe of
        Some e \<Rightarrow> (te_flags s - {e}, th\<lparr>th_pc := WakeOthers d waitOnce todo None\<rparr>)
      | None \<Rightarrow>
          (case todo of
             [] \<Rightarrow> (te_flags s, th\<lparr>th_failAcquireCount := 0, th_pc := ReleaseTask d\<rparr>)
           | e # rest \<Rightarrow>
               if e \<in> te_flags s then (te_flags s, th\<lparr>th_pc := WakeOthers d waitOnce rest None\<rparr>)
               else (insert e (te_flags s), th\<lparr>th_pc := WakeOthers d waitOnce rest (Some e)\<rparr>)))"

definition poolProcess_release :: "'h TaskData \<Rightarrow> 'h PoolEnv \<Rightarrow> 'h Thread \<Rightarrow> 'h TaskData set \<times> 'h Thread" where
  "poolProcess_release d s th = (te_flags s - {d}, th\<lparr>th_it := th_it th + 1, th_pc := CheckSignature\<rparr>)"

definition singleProcess_run :: "'h PoolEnv \<Rightarrow> 'h Thread \<Rightarrow> 'h Thread" where
  "singleProcess_run s th = th\<lparr>th_pc := RunTask (th_localTasks th ! th_it th) (te_waitModeEnabled s)\<rparr>"

definition thread_step :: "bool \<Rightarrow> 'h PoolEnv \<Rightarrow> 'h Thread \<Rightarrow> 'h TaskData set \<times> 'h Thread" where
  "thread_step ok s th =
     (case th_role th of
        PoolThread index \<Rightarrow>
          (case th_pc th of
             CheckSignature \<Rightarrow> (te_flags s, poolProcess_check index s th)
           | TryTask \<Rightarrow> poolProcess_try s th
           | RunTask d waitOnce \<Rightarrow> (te_flags s, poolProcess_ran ok d waitOnce s th)
           | WakeOthers d waitOnce todo probe \<Rightarrow> wakeAllBusyTasks_step d waitOnce todo probe s th
           | ReleaseTask d \<Rightarrow> poolProcess_release d s th
           | Returned \<Rightarrow> (te_flags s, th))
      | SingleThread h \<Rightarrow>
          (case th_pc th of
             CheckSignature \<Rightarrow> (te_flags s, singleProcess_check h s th)
           | TryTask \<Rightarrow> (te_flags s, singleProcess_run s th)
           | RunTask d waitOnce \<Rightarrow> (te_flags s, th\<lparr>th_pc := CheckSignature\<rparr>)
           | _ \<Rightarrow> (te_flags s, th)))"

text \<open>One step of the environment. The handles that are registered are distinct, as the documentation of
  \<open>registerTask\<close> asks for.\<close>

inductive te_step :: "'h::linorder PoolEnv \<Rightarrow> 'h PoolEnv \<Rightarrow> bool" where
  step_store: "te_call s = NoCall \<Longrightarrow> h \<notin> fst ` set (te_handleToTask s) \<Longrightarrow> te_step s (registerTask_store h s)"
| step_spawn: "te_call s = Registering h w \<Longrightarrow> te_step s (registerTask_spawn h w s)"
| step_remove: "te_call s = NoCall \<Longrightarrow> d \<in> set (te_handleToTask s) \<Longrightarrow> te_step s (unregisterTask_remove d s)"
| step_join: "te_call s = Joining d w \<Longrightarrow> join_ready d s \<Longrightarrow> te_step s (unregisterTask_join d w s)"
| step_return: "te_call s = Draining d w \<Longrightarrow> task_unique d s \<Longrightarrow> te_step s (unregisterTask_return w s)"
| step_thread: "k < length (te_threads s) \<Longrightarrow> thread_step ok s (te_threads s ! k) = (flags, th) \<Longrightarrow>
    te_step s (s\<lparr>te_flags := flags, te_threads := (te_threads s)[k := th]\<rparr>)"

inductive te_reach :: "ThreadPoolArgs \<Rightarrow> 'h::linorder PoolEnv \<Rightarrow> bool" for args where
  reach_new: "te_reach args (ThreadEnvironment_new args)"
| reach_step: "te_reach args s \<Longrightarrow> te_step s s' \<Longrightarrow> te_reach args s'"

subsection \<open>Invariants\<close>

text \<open>What a thread has of its own: its position is on a task of its copy of the map, from the first check on.\<close>

definition located :: "'h Thread \<Rightarrow> bool" where
  "located th =
     (case th_role th of
        PoolThread _ \<Rightarrow> th_localTasks th \<noteq> [] \<and> th_it th \<le> length (th_localTasks th)
      | SingleThread h \<Rightarrow> th_it th < length (th_localTasks th) \<and> fst (th_localTasks th ! th_it th) = h)"

definition on_task :: "'h TaskData \<Rightarrow> 'h Thread \<Rightarrow> bool" where
  "on_task d th \<longleftrightarrow> th_it th < length (th_localTasks th) \<and> th_localTasks th ! th_it th = d"

definition is_pool :: "'h Thread \<Rightarrow> bool" where
  "is_pool th = (case th_role th of PoolThread _ \<Rightarrow> True | SingleThread _ \<Rightarrow> False)"

definition pc_ok :: "'h Thread \<Rightarrow> bool" where
  "pc_ok th =
     (case th_pc th of
        CheckSignature \<Rightarrow> th_localSignature th = 0 \<or> located th
      | TryTask \<Rightarrow> located th
      | RunTask d _ \<Rightarrow> located th \<and> on_task d th
      | WakeOthers d _ todo probe \<Rightarrow> is_pool th \<and> located th \<and> on_task d th \<and>
          (\<forall>e \<in> set todo \<union> set_option probe. fst e \<noteq> fst d)
      | ReleaseTask d \<Rightarrow> is_pool th \<and> located th \<and> on_task d th
      | Returned \<Rightarrow> True)"

definition executes :: "'h Thread \<Rightarrow> 'h TaskData \<Rightarrow> bool" where
  "executes th d = (case th_pc th of RunTask e _ \<Rightarrow> e = d | _ \<Rightarrow> False)"

text \<open>The flags that a thread has set.\<close>

definition holds :: "'h Thread \<Rightarrow> 'h TaskData set" where
  "holds th =
     (if is_pool th then
        (case th_pc th of
           RunTask d _ \<Rightarrow> {d} | WakeOthers d _ _ probe \<Rightarrow> insert d (set_option probe) | ReleaseTask d \<Rightarrow> {d} | _ \<Rightarrow> {})
      else {})"

lemmas loop_defs = thread_step_def poolProcess_check_def singleProcess_check_def poolProcess_try_def poolProcess_ran_def
  wakeAllBusyTasks_step_def poolProcess_release_def singleProcess_run_def Let_def

lemma takeWhile_find:
  "h \<in> fst ` set ts \<Longrightarrow>
   length (takeWhile (\<lambda>d. fst d \<noteq> h) ts) < length ts \<and> fst (ts ! length (takeWhile (\<lambda>d. fst d \<noteq> h) ts)) = h"
  by (induction ts) auto

lemma current_it_less: "located th \<Longrightarrow> is_pool th \<Longrightarrow> current_it th < length (th_localTasks th)"
  by (auto simp: located_def is_pool_def current_it_def split: role.splits)

lemma thread_step_role: "thread_step ok s th = (f, th') \<Longrightarrow> th_role th' = th_role th"
  by (auto simp: loop_defs split: role.splits pc.splits if_splits option.splits list.splits)

lemma thread_step_local:
  "thread_step ok s th = (f, th') \<Longrightarrow> th_localTasks th' = th_localTasks th \<or> th_localTasks th' = te_handleToTask s"
  by (auto simp: loop_defs split: role.splits pc.splits if_splits option.splits list.splits)

lemma thread_step_pc_ok:
  assumes "thread_step ok s th = (f, th')" "pc_ok th" "te_configurationSignature s \<noteq> 0"
  shows "pc_ok th'"
proof (cases "th_role th")
  case (PoolThread index)
  show ?thesis
  proof (cases "th_pc th")
    case TryTask
    then have "current_it th < length (th_localTasks th)"
      using assms(2) PoolThread by (auto simp: pc_ok_def is_pool_def intro!: current_it_less)
    then show ?thesis using TryTask PoolThread assms
      by (auto simp: loop_defs pc_ok_def located_def on_task_def is_pool_def split: if_splits)
  qed (use PoolThread assms in \<open>auto simp: loop_defs pc_ok_def located_def on_task_def is_pool_def
      split: if_splits option.splits list.splits\<close>)
next
  case (SingleThread h)
  show ?thesis
  proof (cases "th_pc th")
    case CheckSignature
    then show ?thesis using SingleThread assms takeWhile_find [of h "te_handleToTask s"]
      by (auto simp: loop_defs pc_ok_def located_def split: if_splits)
  qed (use SingleThread assms in \<open>auto simp: loop_defs pc_ok_def located_def on_task_def is_pool_def\<close>)
qed

lemma thread_step_holds:
  assumes "thread_step ok s th = (f, th')" "pc_ok th" "holds th \<subseteq> te_flags s"
  shows "f = (te_flags s - holds th) \<union> holds th' \<and> holds th' \<inter> te_flags s \<subseteq> holds th"
proof (cases "th_role th")
  case (SingleThread h)
  then have "holds th = {}" "holds th' = {}"
    using thread_step_role [OF assms(1)] by (simp_all add: holds_def is_pool_def)
  moreover have "f = te_flags s" using assms(1) SingleThread by (cases "th_pc th") (auto simp: thread_step_def)
  ultimately show ?thesis by simp
next
  case (PoolThread index)
  define held_flags where "held_flags p = (case p of
      RunTask d _ \<Rightarrow> {d} | WakeOthers d _ _ probe \<Rightarrow> insert d (set_option probe) | ReleaseTask d \<Rightarrow> {d} | _ \<Rightarrow> {})"
    for p :: "'a pc"
  have pool: "holds th = held_flags (th_pc th)" "holds th' = held_flags (th_pc th')"
    using thread_step_role [OF assms(1)] PoolThread by (simp_all add: is_pool_def holds_def held_flags_def)
  show ?thesis
    using assms PoolThread unfolding pool
    by (cases "th_pc th")
       (auto simp: loop_defs held_flags_def pc_ok_def split: if_splits option.splits list.splits)
qed

text \<open>The tasks that a thread may still know: the registered ones, and the one that is being unregistered.\<close>

definition known :: "'h PoolEnv \<Rightarrow> 'h TaskData set" where
  "known s = set (te_handleToTask s) \<union> (case te_call s of Joining d _ \<Rightarrow> {d} | Draining d _ \<Rightarrow> {d} | _ \<Rightarrow> {})"

definition inv_tasks :: "'h PoolEnv \<Rightarrow> bool" where
  "inv_tasks s \<longleftrightarrow>
     distinct (map fst (te_handleToTask s)) \<and>
     (te_threads s \<noteq> [] \<or> te_handleToTask s \<noteq> [] \<longrightarrow> te_configurationSignature s \<noteq> 0) \<and>
     (\<forall>th \<in> set (te_threads s). pc_ok th \<and> set (th_localTasks th) \<subseteq> known s)"

definition flags_ok :: "'h TaskData set \<Rightarrow> 'h Thread list \<Rightarrow> bool" where
  "flags_ok flags ts \<longleftrightarrow>
     (\<forall>d. d \<in> flags \<longleftrightarrow> (\<exists>k < length ts. d \<in> holds (ts ! k))) \<and>
     (\<forall>i < length ts. \<forall>j < length ts. i \<noteq> j \<longrightarrow> holds (ts ! i) \<inter> holds (ts ! j) = {})"

definition inv_flags :: "'h PoolEnv \<Rightarrow> bool" where
  "inv_flags s = flags_ok (te_flags s) (te_threads s)"

text \<open>How many pool threads there are in which phase of a call, and of which tasks there are single threads.\<close>

definition expected_size :: "'h PoolEnv \<Rightarrow> nat" where
  "expected_size s =
     min (ta_numThreads (te_args s))
       (case te_call s of
          Registering _ _ \<Rightarrow> length (te_handleToTask s) - 1
        | Joining _ _ \<Rightarrow> length (te_handleToTask s) + 1
        | _ \<Rightarrow> length (te_handleToTask s))"

definition expected_handles :: "'h PoolEnv \<Rightarrow> 'h set" where
  "expected_handles s =
     (case te_call s of
        Registering h _ \<Rightarrow> fst ` set (te_handleToTask s) - {h}
      | Joining d _ \<Rightarrow> insert (fst d) (fst ` set (te_handleToTask s))
      | _ \<Rightarrow> fst ` set (te_handleToTask s))"

definition inv_pool :: "'h PoolEnv \<Rightarrow> bool" where
  "inv_pool s \<longleftrightarrow>
     map th_role (te_threads s) = map PoolThread [0..<length (te_threads s)] \<and>
     length (te_threads s) = expected_size s \<and>
     (\<forall>k < length (te_threads s). th_pc (te_threads s ! k) = Returned \<longrightarrow>
        (\<exists>d w. te_call s = Joining d w) \<and> length (te_handleToTask s) \<le> k)"

definition inv_single :: "'h PoolEnv \<Rightarrow> bool" where
  "inv_single s \<longleftrightarrow>
     distinct (map th_role (te_threads s)) \<and>
     th_role ` set (te_threads s) = SingleThread ` expected_handles s \<and>
     (\<forall>th \<in> set (te_threads s). th_pc th = Returned \<longrightarrow> (\<exists>d w. te_call s = Joining d w \<and> th_role th = SingleThread (fst d)))"

definition inv_call :: "'h PoolEnv \<Rightarrow> bool" where
  "inv_call s =
     (case te_call s of
        NoCall \<Rightarrow> True
      | Registering h _ \<Rightarrow> h \<in> fst ` set (te_handleToTask s)
      | Joining d _ \<Rightarrow> fst d \<notin> fst ` set (te_handleToTask s)
      | Draining d _ \<Rightarrow> fst d \<notin> fst ` set (te_handleToTask s))"

definition te_inv :: "'h PoolEnv \<Rightarrow> bool" where
  "te_inv s \<longleftrightarrow> inv_tasks s \<and> inv_call s \<and> inv_flags s \<and>
     (if ta_numThreads (te_args s) = 0 then inv_single s else inv_pool s)"

lemmas call_defs = registerTask_store_def registerTask_spawn_def unregisterTask_remove_def unregisterTask_join_def
  unregisterTask_return_def

lemma filter_key: "distinct (map fst ts) \<Longrightarrow> d \<in> set ts \<Longrightarrow> filter (\<lambda>e. fst e = fst d) ts = [d]"
proof (induction ts)
  case (Cons e ts)
  show ?case
  proof (cases "e = d")
    case True
    then have "fst d \<notin> fst ` set ts" using Cons.prems(1) by simp
    then have "filter (\<lambda>e. fst e = fst d) ts = []" by (intro filter_False) (auto simp: image_iff)
    then show ?thesis using True by simp
  next
    case False
    then have "d \<in> set ts" "fst e \<noteq> fst d" using Cons.prems by (auto simp: rev_image_eqI)
    then show ?thesis using Cons by simp
  qed
qed simp

lemma remove_handle:
  assumes "distinct (map fst ts)" "d \<in> set ts"
  shows "insert d (set (filter (\<lambda>e. fst e \<noteq> fst d) ts)) = set ts"
    "Suc (length (filter (\<lambda>e. fst e \<noteq> fst d) ts)) = length ts"
    "distinct (map fst (filter (\<lambda>e. fst e \<noteq> fst d) ts))"
proof -
  note key = filter_key [OF assms]
  have "set ts = set (filter (\<lambda>e. fst e = fst d) ts) \<union> set (filter (\<lambda>e. fst e \<noteq> fst d) ts)" by auto
  then show "insert d (set (filter (\<lambda>e. fst e \<noteq> fst d) ts)) = set ts" unfolding key by simp
  show "Suc (length (filter (\<lambda>e. fst e \<noteq> fst d) ts)) = length ts"
    using sum_length_filter_compl [of "\<lambda>e. fst e = fst d" ts] unfolding key by simp
  show "distinct (map fst (filter (\<lambda>e. fst e \<noteq> fst d) ts))" using assms(1) by (simp add: distinct_map_filter)
qed

lemma distinct_map_insort: "distinct (map f (insort_key f x xs)) = distinct (map f (x # xs))"
  by (induction xs) (auto simp: set_insort_key)

lemma filter_new: "h \<notin> fst ` set ts \<Longrightarrow> filter (\<lambda>d. fst d \<noteq> h) ts = ts"
  by (rule filter_True) (auto simp: image_iff)

lemma inv_tasks_step:
  assumes "te_step s s'" "inv_tasks s" "inv_call s"
  shows "inv_tasks s'"
  using assms(1)
proof cases
  case (step_store h)
  then show ?thesis using assms(2)
    by (auto simp: inv_tasks_def call_defs known_def filter_new distinct_map_insort set_insort_key)
next
  case (step_spawn h w)
  have "pc_ok (Thread_new r)" for r :: "'a role" by (simp add: Thread_new_def pc_ok_def)
  moreover have "te_handleToTask s \<noteq> []" using step_spawn assms(3) by (auto simp: inv_call_def)
  moreover have "th_localTasks (Thread_new r) = []" for r :: "'a role" by (simp add: Thread_new_def)
  ultimately show ?thesis using step_spawn assms(2)
    by (auto simp: inv_tasks_def call_defs known_def)
next
  case (step_remove d)
  then show ?thesis using assms(2) remove_handle(1,3) [of "te_handleToTask s" d]
    by (auto simp: inv_tasks_def call_defs known_def)
next
  case (step_join d w)
  then show ?thesis using assms(2) by (auto simp: inv_tasks_def call_defs known_def dest: in_set_takeD)
next
  case (step_return d w)
  then show ?thesis using assms(2) by (auto simp: inv_tasks_def call_defs known_def task_unique_def list_all_iff)
next
  case (step_thread k ok flags th)
  have old: "pc_ok (te_threads s ! k)" "set (th_localTasks (te_threads s ! k)) \<subseteq> known s" "te_configurationSignature s \<noteq> 0"
    using assms(2) step_thread(2) by (auto simp: inv_tasks_def)
  have "pc_ok th" using thread_step_pc_ok [OF step_thread(3) old(1,3)] .
  moreover have "set (th_localTasks th) \<subseteq> known s"
    using thread_step_local [OF step_thread(3)] old(2) by (auto simp: known_def)
  ultimately show ?thesis using assms(2) step_thread
    by (auto simp: inv_tasks_def known_def dest!: set_update_subset_insert [THEN subsetD])
qed

lemma inv_call_step: "te_step s s' \<Longrightarrow> inv_call s \<Longrightarrow> inv_call s'"
  by (induction rule: te_step.induct) (auto simp: inv_call_def call_defs set_insort_key image_iff split: call.splits)

lemma te_step_args: "te_step s s' \<Longrightarrow> te_args s' = te_args s"
  by (induction rule: te_step.induct) (simp_all add: call_defs)

text \<open>A thread returns only when its index, or its handle, is no longer there.\<close>

lemma thread_step_Returned:
  assumes "thread_step ok s th = (f, th')" "th_pc th' = Returned" "th_pc th \<noteq> Returned"
  shows "case th_role th of
      PoolThread index \<Rightarrow> length (te_handleToTask s) \<le> index
    | SingleThread h \<Rightarrow> h \<notin> fst ` set (te_handleToTask s)"
  using assms by (cases "th_pc th") (auto simp: loop_defs split: role.splits if_splits option.splits list.splits)

lemma map_role_update:
  "thread_step ok s (ts ! k) = (f, th) \<Longrightarrow> k < length ts \<Longrightarrow> map th_role (ts[k := th]) = map th_role ts"
  using thread_step_role [of ok s "ts ! k" f th] by (simp add: map_update list_update_same_conv)

lemma pool_role: "inv_pool s \<Longrightarrow> k < length (te_threads s) \<Longrightarrow> th_role (te_threads s ! k) = PoolThread k"
  unfolding inv_pool_def by (metis add_0 diff_zero length_upt nth_map nth_upt)

lemma inv_pool_step:
  assumes "te_step s s'" "inv_tasks s" "inv_call s" "inv_pool s" "ta_numThreads (te_args s) \<noteq> 0"
  shows "inv_pool s'"
  using assms(1)
proof cases
  case (step_store h)
  then show ?thesis using assms(4) by (auto simp: inv_pool_def call_defs expected_size_def filter_new)
next
  case (step_spawn h w)
  have "0 < length (te_handleToTask s)" using step_spawn assms(3) by (auto simp: inv_call_def intro: length_pos_if_in_set)
  then show ?thesis using step_spawn assms(4,5)
    by (auto simp: inv_pool_def call_defs expected_size_def Thread_new_def nth_append min_def split: if_splits)
next
  case (step_remove d)
  have "Suc (length (filter (\<lambda>e. fst e \<noteq> fst d) (te_handleToTask s))) = length (te_handleToTask s)"
    using remove_handle(2) [OF _ step_remove(3)] assms(2) by (simp add: inv_tasks_def)
  then show ?thesis using step_remove assms(4) by (auto simp: inv_pool_def call_defs expected_size_def)
next
  case (step_join d w)
  have "map th_role (take n (te_threads s)) = map PoolThread [0..<length (take n (te_threads s))]" for n
    by (rule nth_equalityI) (auto simp: pool_role [OF assms(4)])
  then show ?thesis using step_join assms(4,5)
    by (auto simp: inv_pool_def call_defs expected_size_def) (metis less_SucI not_less)
next
  case (step_return d w)
  then show ?thesis using assms(4) by (auto simp: inv_pool_def call_defs expected_size_def)
next
  case (step_thread k ok flags th)
  have "th_pc th = Returned \<Longrightarrow> (\<exists>d w. te_call s = Joining d w) \<and> length (te_handleToTask s) \<le> k"
  proof (cases "th_pc (te_threads s ! k) = Returned")
    case True
    then show ?thesis using assms(4) step_thread(2) by (auto simp: inv_pool_def)
  next
    case False
    assume "th_pc th = Returned"
    then have "length (te_handleToTask s) \<le> k"
      using thread_step_Returned [OF step_thread(3) _ False] pool_role [OF assms(4) step_thread(2)] by simp
    moreover from this have "\<exists>d w. te_call s = Joining d w"
      using assms(4) step_thread(2) by (cases "te_call s") (auto simp: inv_pool_def expected_size_def)
    ultimately show ?thesis by simp
  qed
  moreover have "expected_size s' = expected_size s" "te_call s' = te_call s"
    using step_thread(1) by (cases "te_call s"; simp add: expected_size_def)+
  ultimately show ?thesis using step_thread(1,2) assms(4) map_role_update [OF step_thread(3,2)]
    unfolding inv_pool_def by (auto simp: nth_list_update)
qed

lemma inv_single_step:
  assumes "te_step s s'" "inv_tasks s" "inv_call s" "inv_single s" "ta_numThreads (te_args s) = 0"
  shows "inv_single s'"
  using assms(1)
proof cases
  case (step_store h)
  then show ?thesis using assms(4) by (auto simp: inv_single_def call_defs expected_handles_def filter_new set_insort_key)
next
  case (step_spawn h w)
  have "h \<in> fst ` set (te_handleToTask s)" using step_spawn assms(3) by (simp add: inv_call_def)
  then show ?thesis using step_spawn assms(4,5)
    by (auto simp: inv_single_def call_defs expected_handles_def Thread_new_def)
next
  case (step_remove d)
  have "insert (fst d) (fst ` set (filter (\<lambda>e. fst e \<noteq> fst d) (te_handleToTask s))) = fst ` set (te_handleToTask s)"
    using remove_handle(1) [of "te_handleToTask s" d] assms(2) step_remove(3) by (metis inv_tasks_def image_insert)
  then show ?thesis using step_remove assms(4) by (auto simp: inv_single_def call_defs expected_handles_def)
next
  case (step_join d w)
  have "fst d \<notin> fst ` set (te_handleToTask s)" using step_join assms(3) by (simp add: inv_call_def)
  then have "SingleThread ` expected_handles s - {SingleThread (fst d)} = SingleThread ` fst ` set (te_handleToTask s)"
    using step_join(2) unfolding expected_handles_def by (simp add: insert_Diff_if image_iff)
  moreover have "th_role ` set (filter (\<lambda>th. th_role th \<noteq> SingleThread (fst d)) (te_threads s)) =
      th_role ` set (te_threads s) - {SingleThread (fst d)}" by auto
  ultimately have "th_role ` set (filter (\<lambda>th. th_role th \<noteq> SingleThread (fst d)) (te_threads s)) =
      SingleThread ` fst ` set (te_handleToTask s)"
    using assms(4) unfolding inv_single_def by simp
  then show ?thesis using step_join assms(4,5)
    by (auto simp: inv_single_def call_defs expected_handles_def distinct_map_filter)
next
  case (step_return d w)
  then show ?thesis using assms(4) by (auto simp: inv_single_def call_defs expected_handles_def)
next
  case (step_thread k ok flags th)
  let ?old = "te_threads s ! k"
  have role: "th_role th = th_role ?old" using thread_step_role [OF step_thread(3)] .
  have "th_pc th = Returned \<Longrightarrow> \<exists>d w. te_call s = Joining d w \<and> th_role th = SingleThread (fst d)"
  proof (cases "th_pc ?old = Returned")
    case True
    then show ?thesis using assms(4) step_thread(2) role by (auto simp: inv_single_def)
  next
    case False
    assume "th_pc th = Returned"
    moreover obtain h where h: "th_role ?old = SingleThread h" "h \<in> expected_handles s"
      using assms(4) step_thread(2) nth_mem unfolding inv_single_def by blast
    ultimately have "h \<notin> fst ` set (te_handleToTask s)"
      using thread_step_Returned [OF step_thread(3) _ False] by simp
    then show ?thesis using h role by (cases "te_call s") (auto simp: expected_handles_def)
  qed
  moreover have "set (map th_role ((te_threads s)[k := th])) = set (map th_role (te_threads s))"
    using map_role_update [OF step_thread(3,2)] by simp
  moreover have "expected_handles s' = expected_handles s" "te_call s' = te_call s"
    using step_thread(1) by (cases "te_call s"; simp add: expected_handles_def)+
  ultimately show ?thesis using step_thread(1) assms(4) map_role_update [OF step_thread(3,2)]
    unfolding inv_single_def list.set_map by (auto dest!: set_update_subset_insert [THEN subsetD])
qed

text \<open>A flag is set exactly while one thread, and only one, has it. A thread that has returned has none, so that
  joining it changes no flag.\<close>

lemma flags_ok_update:
  assumes "flags_ok old ts" "k < length ts"
    and "flags = (old - holds (ts ! k)) \<union> holds th"
    and "holds th \<inter> old \<subseteq> holds (ts ! k)"
  shows "flags_ok flags (ts[k := th])"
proof -
  have flag: "d \<in> old \<longleftrightarrow> (\<exists>j < length ts. d \<in> holds (ts ! j))" for d
    using assms(1) unfolding flags_ok_def by blast
  have other: "holds (ts ! j) \<subseteq> old" if "j < length ts" for j using flag that by auto
  have apart: "holds (ts ! i) \<inter> holds (ts ! j) = {}" if "i < length ts" "j < length ts" "i \<noteq> j" for i j
    using assms(1) that by (auto simp: flags_ok_def)
  have new: "holds th \<inter> holds (ts ! j) = {}" if "j < length ts" "j \<noteq> k" for j
    using apart [OF that(1) assms(2) that(2)] other [OF that(1)] assms(4) by blast
  have "d \<in> flags \<longleftrightarrow> (\<exists>j < length ts. d \<in> holds (ts[k := th] ! j))" for d
  proof
    assume "d \<in> flags"
    then consider "d \<in> holds th" | j where "j < length ts" "d \<in> holds (ts ! j)" "j \<noteq> k"
      using assms(3) flag by blast
    then show "\<exists>j < length ts. d \<in> holds (ts[k := th] ! j)"
      by cases (use assms(2) in \<open>auto simp: nth_list_update\<close>)
  next
    assume "\<exists>j < length ts. d \<in> holds (ts[k := th] ! j)"
    then obtain j where j: "j < length ts" "d \<in> holds (ts[k := th] ! j)" by blast
    then show "d \<in> flags"
      using assms(3) other [OF j(1)] apart [OF j(1) assms(2)] by (cases "j = k") auto
  qed
  moreover have "holds (ts[k := th] ! i) \<inter> holds (ts[k := th] ! j) = {}"
    if "i < length ts" "j < length ts" "i \<noteq> j" for i j
    using apart [OF that] new [of i] new [of j] that assms(2)
    by (cases "i = k"; cases "j = k") (simp_all add: Int_commute)
  ultimately show ?thesis by (auto simp: flags_ok_def)
qed


lemma flags_ok_append: "flags_ok flags ts \<Longrightarrow> holds th = {} \<Longrightarrow> flags_ok flags (ts @ [th])"
  by (auto simp: flags_ok_def nth_append less_Suc_eq)

lemma flags_ok_take:
  assumes "flags_ok flags ts" "\<And>k. n \<le> k \<Longrightarrow> k < length ts \<Longrightarrow> holds (ts ! k) = {}"
  shows "flags_ok flags (take n ts)"
proof -
  have "d \<in> flags \<longleftrightarrow> (\<exists>k < length (take n ts). d \<in> holds (take n ts ! k))" for d
  proof -
    have "d \<in> flags \<longleftrightarrow> (\<exists>k < length ts. d \<in> holds (ts ! k))"
      using assms(1) unfolding flags_ok_def by blast
    also have "\<dots> \<longleftrightarrow> (\<exists>k < length ts. k < n \<and> d \<in> holds (ts ! k))" using assms(2) by (metis empty_iff not_less)
    finally show ?thesis by auto
  qed
  then show ?thesis using assms(1) by (simp add: flags_ok_def)
qed

lemma flags_ok_none: "(\<forall>th \<in> set ts. holds th = {}) \<Longrightarrow> flags_ok flags ts \<longleftrightarrow> flags = {}"
  by (auto simp: flags_ok_def)

lemma inv_flags_step:
  assumes "te_step s s'" "te_inv s"
  shows "inv_flags s'"
  using assms(1)
proof cases
  case (step_spawn h w)
  have "holds (Thread_new r) = {}" for r :: "'a role" by (simp add: Thread_new_def holds_def)
  then show ?thesis using step_spawn assms(2)
    by (auto simp: te_inv_def inv_flags_def call_defs intro: flags_ok_append)
next
  case (step_join d w)
  show ?thesis
  proof (cases "ta_numThreads (te_args s) = 0")
    case True
    have "holds th = {}" if "th \<in> set (te_threads s)" for th
    proof -
      have "th_role th \<in> SingleThread ` expected_handles s"
        using True assms(2) that by (metis te_inv_def inv_single_def imageI)
      then show ?thesis by (auto simp: holds_def is_pool_def)
    qed
    then show ?thesis using True step_join assms(2)
      by (simp add: te_inv_def inv_flags_def call_defs flags_ok_none)
  next
    case False
    then have size: "length (te_threads s) \<le> Suc (length (te_handleToTask s))"
      using assms(2) step_join(2) by (simp add: te_inv_def inv_pool_def expected_size_def)
    have "holds (te_threads s ! k) = {}" if "length (te_handleToTask s) \<le> k" "k < length (te_threads s)" for k
    proof -
      have "k = length (te_threads s) - 1" using size that by simp
      moreover have "th_pc (last (te_threads s)) = Returned"
        using step_join(3) False that by (simp add: join_ready_def)
      ultimately show ?thesis using that(2) by (simp add: holds_def last_conv_nth flip: length_greater_0_conv)
    qed
    then show ?thesis using False step_join assms(2)
      by (auto simp: te_inv_def inv_flags_def call_defs intro: flags_ok_take)
  qed
next
  case (step_thread k ok flags th)
  have flags: "flags_ok (te_flags s) (te_threads s)" using assms(2) by (simp add: te_inv_def inv_flags_def)
  have "pc_ok (te_threads s ! k)" using assms(2) step_thread(2) by (simp add: te_inv_def inv_tasks_def)
  moreover have "holds (te_threads s ! k) \<subseteq> te_flags s" using flags step_thread(2) by (auto simp: flags_ok_def)
  ultimately show ?thesis
    using thread_step_holds [OF step_thread(3)] flags_ok_update [OF flags step_thread(2)] step_thread(1)
    by (simp add: inv_flags_def)
qed (use assms(2) in \<open>auto simp: te_inv_def inv_flags_def call_defs\<close>)

lemma te_inv_step: "te_step s s' \<Longrightarrow> te_inv s \<Longrightarrow> te_inv s'"
  using inv_flags_step inv_tasks_step inv_call_step inv_pool_step inv_single_step te_step_args
  unfolding te_inv_def by metis

lemma te_reach_inv: "te_reach args s \<Longrightarrow> te_inv s \<and> te_args s = args"
proof (induction rule: te_reach.induct)
  case reach_new
  show ?case by (simp add: ThreadEnvironment_new_def te_inv_def inv_tasks_def inv_call_def inv_flags_def flags_ok_def
    inv_single_def inv_pool_def expected_handles_def expected_size_def known_def)
next
  case (reach_step s s')
  then show ?case using te_inv_step te_step_args by metis
qed

text \<open>A thread that executes a task has it in its copy of the map; a pool thread has its flag, and a single thread
  executes the task of its own handle.\<close>

lemma executes_local: "executes th d \<Longrightarrow> pc_ok th \<Longrightarrow> d \<in> set (th_localTasks th)"
  by (auto simp: executes_def pc_ok_def on_task_def split: pc.splits) (metis nth_mem)

lemma executes_known: "te_inv s \<Longrightarrow> th \<in> set (te_threads s) \<Longrightarrow> executes th d \<Longrightarrow> d \<in> known s"
  unfolding te_inv_def inv_tasks_def using executes_local by blast

lemma executes_holds: "executes th d \<Longrightarrow> is_pool th \<Longrightarrow> d \<in> holds th"
  by (auto simp: executes_def holds_def split: pc.splits)

lemma executes_own: "executes th d \<Longrightarrow> pc_ok th \<Longrightarrow> th_role th = SingleThread h \<Longrightarrow> fst d = h"
  by (auto simp: executes_def pc_ok_def on_task_def located_def split: pc.splits)

lemma executes_unique:
  assumes "te_inv s" "i < length (te_threads s)" "j < length (te_threads s)"
    and "executes (te_threads s ! i) d" "executes (te_threads s ! j) d"
  shows "i = j"
proof (cases "ta_numThreads (te_args s) = 0")
  case True
  have own: "th_role (te_threads s ! k) = SingleThread (fst d)"
    if "k < length (te_threads s)" "executes (te_threads s ! k) d" for k
  proof -
    have "th_role (te_threads s ! k) \<in> SingleThread ` expected_handles s"
      using True assms(1) that(1) by (metis te_inv_def inv_single_def imageI nth_mem)
    moreover have "pc_ok (te_threads s ! k)" using assms(1) that(1) by (simp add: te_inv_def inv_tasks_def)
    ultimately show ?thesis using executes_own [OF that(2)] by auto
  qed
  have "distinct (map th_role (te_threads s))" using True assms(1) by (simp add: te_inv_def inv_single_def)
  then show ?thesis using own [OF assms(2,4)] own [OF assms(3,5)] assms(2,3) by (simp add: distinct_conv_nth) metis
next
  case False
  then have pool: "is_pool (te_threads s ! k)" if "k < length (te_threads s)" for k
    using pool_role [OF _ that] assms(1) by (simp add: te_inv_def is_pool_def)
  show ?thesis
  proof (rule ccontr)
    assume "i \<noteq> j"
    then have "holds (te_threads s ! i) \<inter> holds (te_threads s ! j) = {}"
      using assms(1-3) unfolding te_inv_def inv_flags_def flags_ok_def by blast
    then show False using executes_holds [OF assms(4) pool [OF assms(2)]] executes_holds [OF assms(5) pool [OF assms(3)]]
      by blast
  qed
qed

subsection \<open>A call of \<open>unregisterTask\<close> returns\<close>

text \<open>A thread that has seen the current configuration has a copy of the current map, and has returned when it has
  no task there.\<close>

definition has_task :: "'h PoolEnv \<Rightarrow> 'h Thread \<Rightarrow> bool" where
  "has_task s th =
     (case th_role th of
        PoolThread index \<Rightarrow> index < length (te_handleToTask s)
      | SingleThread h \<Rightarrow> h \<in> fst ` set (te_handleToTask s))"

definition refreshed :: "'h PoolEnv \<Rightarrow> 'h Thread \<Rightarrow> bool" where
  "refreshed s th \<longleftrightarrow> th_localSignature th = te_configurationSignature s"

definition fresh :: "'h PoolEnv \<Rightarrow> 'h Thread \<Rightarrow> bool" where
  "fresh s th \<longleftrightarrow>
     th_localSignature th \<le> te_configurationSignature s \<and>
     (refreshed s th \<longrightarrow> th_localTasks th = te_handleToTask s \<and> (th_pc th = Returned \<or> has_task s th)) \<and>
     (th_pc th = Returned \<longrightarrow> refreshed s th)"

definition thread_run :: "nat \<Rightarrow> 'h PoolEnv \<Rightarrow> 'h PoolEnv \<Rightarrow> bool" where
  "thread_run k s s' \<longleftrightarrow>
     (\<exists>ok flags th. k < length (te_threads s) \<and> thread_step ok s (te_threads s ! k) = (flags, th) \<and>
        s' = s\<lparr>te_flags := flags, te_threads := (te_threads s)[k := th]\<rparr>)"

lemma thread_run_step: "thread_run k s s' \<Longrightarrow> te_step s s'"
  unfolding thread_run_def by (blast intro: step_thread)

definition todo :: "'h PoolEnv \<Rightarrow> 'h Thread \<Rightarrow> nat" where
  "todo s th =
     (case th_pc th of
        CheckSignature \<Rightarrow> 1
      | ReleaseTask _ \<Rightarrow> 2
      | WakeOthers _ _ es probe \<Rightarrow> 3 + 2 * length es + (if probe = None then 0 else 1)
      | RunTask _ _ \<Rightarrow> 3
      | TryTask \<Rightarrow> 4
      | Returned \<Rightarrow> 0)"

text \<open>While it has not seen the current configuration, each step that a thread takes by itself, with the task
  returning false, brings it nearer to the check.\<close>

lemma thread_step_progress:
  assumes "thread_step False s th = (f, th')" "\<not> refreshed s th" "pc_ok th" "th_pc th \<noteq> Returned"
  shows "refreshed s th' \<or> (todo s th' < todo s th \<and> \<not> refreshed s th' \<and> th_pc th' \<noteq> Returned)"
proof (cases "th_role th")
  case (PoolThread index)
  then show ?thesis using assms
    by (cases "th_pc th")
       (auto simp: loop_defs refreshed_def todo_def split: if_splits option.splits list.splits)
next
  case (SingleThread h)
  then show ?thesis using assms
    by (cases "th_pc th") (auto simp: loop_defs refreshed_def todo_def pc_ok_def is_pool_def)
qed

lemma thread_step_fresh:
  assumes "thread_step ok s th = (f, th')" "fresh s th"
  shows "fresh s th'"
proof (cases "th_role th")
  case (PoolThread index)
  then show ?thesis using assms
    by (cases "th_pc th")
       (auto simp: loop_defs fresh_def refreshed_def has_task_def split: if_splits option.splits list.splits)
next
  case (SingleThread h)
  then show ?thesis using assms
    by (cases "th_pc th") (auto simp: loop_defs fresh_def refreshed_def has_task_def split: if_splits del: imageE)
qed

definition all_fresh :: "'h PoolEnv \<Rightarrow> bool" where
  "all_fresh s \<longleftrightarrow> (\<forall>th \<in> set (te_threads s). fresh s th)"

lemma fresh_new: "te_configurationSignature s \<noteq> 0 \<Longrightarrow> fresh s (Thread_new r)"
  by (simp add: fresh_def refreshed_def Thread_new_def)

lemma fresh_cong:
  "te_configurationSignature s' = te_configurationSignature s \<Longrightarrow> te_handleToTask s' = te_handleToTask s \<Longrightarrow>
   fresh s' th = fresh s th"
  by (simp add: fresh_def refreshed_def has_task_def cong: role.case_cong)

lemma fresh_bump:
  "fresh s th \<Longrightarrow> th_pc th \<noteq> Returned \<Longrightarrow> te_configurationSignature s' = te_configurationSignature s + 1 \<Longrightarrow> fresh s' th"
  by (simp add: fresh_def refreshed_def)

text \<open>Between two calls no thread has returned.\<close>

lemma idle_threads_run:
  assumes "te_inv s" "te_call s = NoCall" "th \<in> set (te_threads s)"
  shows "th_pc th \<noteq> Returned"
proof (cases "ta_numThreads (te_args s) = 0")
  case True
  then show ?thesis using assms by (auto simp: te_inv_def inv_single_def)
next
  case False
  then show ?thesis using assms by (auto simp: te_inv_def inv_pool_def in_set_conv_nth)
qed

lemma all_fresh_same:
  assumes "all_fresh s" "set (te_threads s') \<subseteq> set (te_threads s) \<union> T" "\<And>th. th \<in> T \<Longrightarrow> fresh s th"
    and "te_configurationSignature s' = te_configurationSignature s" "te_handleToTask s' = te_handleToTask s"
  shows "all_fresh s'"
  using assms(1-3) fresh_cong [OF assms(4,5)] unfolding all_fresh_def by blast

lemma all_fresh_bump:
  assumes "all_fresh s" "te_inv s" "te_call s = NoCall"
    and "te_configurationSignature s' = te_configurationSignature s + 1" "te_threads s' = te_threads s"
  shows "all_fresh s'"
  using assms(1,5) fresh_bump [OF _ idle_threads_run [OF assms(2,3)] assms(4)] unfolding all_fresh_def by simp

lemma all_fresh_step:
  assumes "te_step s s'" "te_inv s" "all_fresh s"
  shows "all_fresh s'"
  using assms(1)
proof cases
  case (step_store h)
  show ?thesis by (rule all_fresh_bump [OF assms(3,2) step_store(2)]) (simp_all add: step_store(1) call_defs)
next
  case (step_spawn h w)
  have "te_handleToTask s \<noteq> []" using step_spawn(2) assms(2) by (auto simp: te_inv_def inv_call_def)
  then have "fresh s (Thread_new r)" for r :: "'a role"
    using assms(2) by (intro fresh_new) (simp add: te_inv_def inv_tasks_def)
  then show ?thesis
    by (intro all_fresh_same [OF assms(3), where T = "range Thread_new"]) (auto simp: step_spawn(1) call_defs)
next
  case (step_remove d)
  show ?thesis by (rule all_fresh_bump [OF assms(3,2) step_remove(2)]) (simp_all add: step_remove(1) call_defs)
next
  case (step_join d w)
  show ?thesis by (rule all_fresh_same [OF assms(3), where T = "{}"])
    (auto simp: step_join(1) call_defs dest: in_set_takeD)
next
  case (step_return d w)
  show ?thesis by (rule all_fresh_same [OF assms(3), where T = "{}"]) (simp_all add: step_return(1) call_defs)
next
  case (step_thread k ok flags th)
  have "fresh s th" using thread_step_fresh [OF step_thread(3)] assms(3) step_thread(2) by (simp add: all_fresh_def)
  then show ?thesis
    by (intro all_fresh_same [OF assms(3), where T = "{th}"])
       (use set_update_subset_insert in \<open>fastforce simp: step_thread(1)\<close>)+
qed

lemma te_reach_fresh: "te_reach args s \<Longrightarrow> all_fresh s"
proof (induction rule: te_reach.induct)
  case reach_new
  show ?case by (simp add: ThreadEnvironment_new_def all_fresh_def)
next
  case (reach_step s s')
  then show ?case using all_fresh_step te_reach_inv by blast
qed

text \<open>The threads can all come to see the current configuration, without a step of a call.\<close>

definition quiet :: "'h PoolEnv \<Rightarrow> 'h PoolEnv \<Rightarrow> bool" where
  "quiet s s' \<longleftrightarrow>
     te_args s' = te_args s \<and> te_call s' = te_call s \<and> te_handleToTask s' = te_handleToTask s \<and>
     te_configurationSignature s' = te_configurationSignature s \<and> length (te_threads s') = length (te_threads s)"

lemma refreshed_quiet: "quiet s s' \<Longrightarrow> refreshed s' th = refreshed s th"
  by (simp add: quiet_def refreshed_def)

lemma steps_inv: "te_step\<^sup>*\<^sup>* s s' \<Longrightarrow> te_inv s \<Longrightarrow> all_fresh s \<Longrightarrow> te_inv s' \<and> all_fresh s'"
  by (induction rule: rtranclp.induct) (blast intro: te_inv_step all_fresh_step)+

lemma refresh_thread:
  assumes "te_inv s" "all_fresh s" "k < length (te_threads s)"
  shows "\<exists>s'. te_step\<^sup>*\<^sup>* s s' \<and> quiet s s' \<and> refreshed s' (te_threads s' ! k) \<and>
    (\<forall>j. j \<noteq> k \<longrightarrow> te_threads s' ! j = te_threads s ! j)"
  using assms
proof (induction "todo s (te_threads s ! k)" arbitrary: s rule: less_induct)
  case less
  let ?th = "te_threads s ! k"
  show ?case
  proof (cases "refreshed s ?th")
    case True
    then show ?thesis by (intro exI [of _ s]) (simp add: quiet_def)
  next
    case False
    then have running: "th_pc ?th \<noteq> Returned" using less.prems by (auto simp: all_fresh_def fresh_def)
    have ok: "pc_ok ?th" using less.prems by (simp add: te_inv_def inv_tasks_def)
    obtain f th where step: "thread_step False s ?th = (f, th)" by fastforce
    define s1 where "s1 = s\<lparr>te_flags := f, te_threads := (te_threads s)[k := th]\<rparr>"
    have s1: "te_step s s1" unfolding s1_def by (rule step_thread [OF less.prems(3) step])
    have same: "quiet s s1" "te_threads s1 ! k = th" "\<And>j. j \<noteq> k \<Longrightarrow> te_threads s1 ! j = te_threads s ! j"
      using less.prems(3) by (simp_all add: s1_def quiet_def)
    show ?thesis
    proof (cases "refreshed s th")
      case True
      then show ?thesis using s1 same refreshed_quiet [OF same(1)] by (intro exI [of _ s1]) auto
    next
      case False
      then have "todo s th < todo s ?th"
        using thread_step_progress [OF step \<open>\<not> refreshed s ?th\<close> ok running] by blast
      then have "todo s1 (te_threads s1 ! k) < todo s ?th" using same(2) by (simp add: todo_def)
      then obtain s2 where "te_step\<^sup>*\<^sup>* s1 s2" "quiet s1 s2" "refreshed s2 (te_threads s2 ! k)"
          "\<forall>j. j \<noteq> k \<longrightarrow> te_threads s2 ! j = te_threads s1 ! j"
        using less.hyps [of s1] te_inv_step [OF s1] all_fresh_step [OF s1] less.prems same(1) by (auto simp: quiet_def)
      then show ?thesis using s1 same
        by (intro exI [of _ s2]) (auto simp: quiet_def intro: converse_rtranclp_into_rtranclp)
    qed
  qed
qed

lemma refresh_threads:
  assumes "te_inv s" "all_fresh s" "n \<le> length (te_threads s)"
  shows "\<exists>s'. te_step\<^sup>*\<^sup>* s s' \<and> quiet s s' \<and> (\<forall>j < n. refreshed s' (te_threads s' ! j))"
  using assms(3)
proof (induction n)
  case 0
  show ?case by (intro exI [of _ s]) (simp add: quiet_def)
next
  case (Suc n)
  then obtain s1 where s1: "te_step\<^sup>*\<^sup>* s s1" "quiet s s1" "\<forall>j < n. refreshed s1 (te_threads s1 ! j)" by auto
  then have "n < length (te_threads s1)" using Suc.prems by (simp add: quiet_def)
  then obtain s2 where s2: "te_step\<^sup>*\<^sup>* s1 s2" "quiet s1 s2" "refreshed s2 (te_threads s2 ! n)"
      "\<forall>j. j \<noteq> n \<longrightarrow> te_threads s2 ! j = te_threads s1 ! j"
    using refresh_thread [of s1 n] steps_inv [OF s1(1) assms(1,2)] by blast
  then have "\<forall>j < Suc n. refreshed s2 (te_threads s2 ! j)"
    using s1(3) refreshed_quiet [OF s2(2)] by (auto simp: less_Suc_eq)
  then show ?case using s1 s2 by (intro exI [of _ s2]) (auto simp: quiet_def intro: rtranclp_trans)
qed

lemma all_refreshed:
  assumes "te_inv s" "all_fresh s"
  obtains s' where "te_step\<^sup>*\<^sup>* s s'" "quiet s s'" "te_inv s'" "all_fresh s'"
    "\<And>th. th \<in> set (te_threads s') \<Longrightarrow>
      th_localTasks th = te_handleToTask s' \<and> (th_pc th = Returned \<or> has_task s' th)"
proof -
  obtain s' where s': "te_step\<^sup>*\<^sup>* s s'" "quiet s s'" "\<forall>j < length (te_threads s). refreshed s' (te_threads s' ! j)"
    using refresh_threads [OF assms order_refl] by blast
  have inv: "te_inv s'" "all_fresh s'" using steps_inv [OF s'(1) assms] by simp_all
  have "th_localTasks th = te_handleToTask s' \<and> (th_pc th = Returned \<or> has_task s' th)"
    if "th \<in> set (te_threads s')" for th
  proof -
    have "refreshed s' th" using that s'(2,3) by (auto simp: in_set_conv_nth quiet_def)
    then show ?thesis using inv(2) that by (auto simp: all_fresh_def fresh_def)
  qed
  then show ?thesis using that s'(1,2) inv by blast
qed

lemma draining_returns:
  assumes "te_inv s" "all_fresh s" "te_call s = Draining d w"
  shows "\<exists>s'. te_step\<^sup>*\<^sup>* s s' \<and> te_call s' = NoCall \<and> te_handleToTask s' = te_handleToTask s"
proof -
  obtain s1 where s1: "te_step\<^sup>*\<^sup>* s s1" "quiet s s1" "te_inv s1"
      "\<And>th. th \<in> set (te_threads s1) \<Longrightarrow> th_localTasks th = te_handleToTask s1"
    using all_refreshed [OF assms(1,2)] by metis
  have call: "te_call s1 = Draining d w" using s1(2) assms(3) by (simp add: quiet_def)
  then have "fst d \<notin> fst ` set (te_handleToTask s1)" using s1(3) by (simp add: te_inv_def inv_call_def)
  then have "task_unique d s1" using s1(4) by (auto simp: task_unique_def list_all_iff)
  then have "te_step s1 (unregisterTask_return w s1)" by (rule step_return [OF call])
  then show ?thesis using s1(1,2)
    by (intro exI [of _ "unregisterTask_return w s1"]) (auto simp: unregisterTask_return_def quiet_def)
qed

lemma joining_returns:
  assumes "te_inv s" "all_fresh s" "te_call s = Joining d w"
  shows "\<exists>s'. te_step\<^sup>*\<^sup>* s s' \<and> te_call s' = NoCall \<and> te_handleToTask s' = te_handleToTask s"
proof -
  obtain s1 where s1: "te_step\<^sup>*\<^sup>* s s1" "quiet s s1" "te_inv s1" "all_fresh s1"
      and ended: "\<And>th. th \<in> set (te_threads s1) \<Longrightarrow> th_pc th = Returned \<or> has_task s1 th"
    using all_refreshed [OF assms(1,2)] by metis
  have call: "te_call s1 = Joining d w" using s1(2) assms(3) by (simp add: quiet_def)
  then have gone: "fst d \<notin> fst ` set (te_handleToTask s1)" using s1(3) by (simp add: te_inv_def inv_call_def)
  have "join_ready d s1"
  proof (cases "ta_numThreads (te_args s1) = 0")
    case True
    have "th_pc th = Returned" if "th \<in> set (te_threads s1)" "th_role th = SingleThread (fst d)" for th
      using ended [OF that(1)] that(2) gone by (simp add: has_task_def)
    then show ?thesis using True by (simp add: join_ready_def list_all_iff)
  next
    case False
    have "th_pc (last (te_threads s1)) = Returned" if more: "length (te_handleToTask s1) < length (te_threads s1)"
    proof -
      let ?k = "length (te_threads s1) - 1"
      have k: "?k < length (te_threads s1)" "last (te_threads s1) = te_threads s1 ! ?k"
        using more last_conv_nth [of "te_threads s1"] by force+
      then have "\<not> has_task s1 (last (te_threads s1))"
        using pool_role [of s1 ?k] False s1(3) more by (simp add: te_inv_def has_task_def)
      then show ?thesis using ended k nth_mem by metis
    qed
    then show ?thesis using False by (simp add: join_ready_def)
  qed
  then have step: "te_step s1 (unregisterTask_join d w s1)" by (rule step_join [OF call])
  define s2 where "s2 = unregisterTask_join d w s1"
  have "te_call s2 = Draining d w" "te_handleToTask s2 = te_handleToTask s"
    using s1(2) by (simp_all add: s2_def unregisterTask_join_def quiet_def)
  then obtain s3 where "te_step\<^sup>*\<^sup>* s2 s3" "te_call s3 = NoCall" "te_handleToTask s3 = te_handleToTask s"
    using draining_returns [of s2] te_inv_step [OF step s1(3)] all_fresh_step [OF step s1(3,4)]
    unfolding s2_def by auto
  moreover have "te_step\<^sup>*\<^sup>* s s2" using s1(1) step unfolding s2_def by (rule rtranclp.rtrancl_into_rtrancl)
  ultimately show ?thesis using rtranclp_trans by metis
qed

subsection \<open>The properties\<close>

text \<open>A reachable state: a pool of one thread is busy with the first of two tasks while the second one is being
  unregistered.\<close>

definition demo_args :: ThreadPoolArgs where
  "demo_args = \<lparr>ta_numThreads = 1, ta_priority = 0, ta_affinityMode = [], ta_affinity = [], ta_yieldMode = []\<rparr>"

definition run_thread :: "nat \<Rightarrow> 'h PoolEnv \<Rightarrow> 'h PoolEnv" where
  "run_thread k s =
     (case thread_step True s (te_threads s ! k) of
        (flags, th) \<Rightarrow> s\<lparr>te_flags := flags, te_threads := (te_threads s)[k := th]\<rparr>)"

definition demo_registered :: "nat PoolEnv" where
  "demo_registered =
     registerTask_spawn 7 True (registerTask_store 7
       (registerTask_spawn 5 True (registerTask_store 5 (ThreadEnvironment_new demo_args))))"

definition demo_busy :: "nat PoolEnv" where
  "demo_busy = unregisterTask_remove (7, 1) (run_thread 0 (run_thread 0 demo_registered))"

lemma run_thread_step: "k < length (te_threads s) \<Longrightarrow> te_step s (run_thread k s)"
  using step_thread [of k s True] by (cases "thread_step True s (te_threads s ! k)") (simp add: run_thread_def)

lemmas demo_defs = demo_busy_def demo_registered_def demo_args_def ThreadEnvironment_new_def Thread_new_def call_defs
  run_thread_def loop_defs current_it_def

lemma demo_reach: "te_reach demo_args demo_registered" "te_reach demo_args demo_busy"
proof -
  let ?s1 = "registerTask_store 5 (ThreadEnvironment_new demo_args) :: nat PoolEnv"
  let ?s2 = "registerTask_spawn 5 True ?s1"
  let ?s3 = "registerTask_store 7 ?s2"
  have "te_reach demo_args ?s1" by (rule reach_step [OF reach_new step_store]) (simp_all add: demo_defs)
  then have "te_reach demo_args ?s2" by (rule reach_step [OF _ step_spawn]) (simp_all add: demo_defs)
  then have "te_reach demo_args ?s3" by (rule reach_step [OF _ step_store]) (simp_all add: demo_defs)
  then show reg: "te_reach demo_args demo_registered"
    unfolding demo_registered_def by (rule reach_step [OF _ step_spawn]) (simp_all add: demo_defs)
  have "te_reach demo_args (run_thread 0 demo_registered)"
    by (rule reach_step [OF reg run_thread_step]) (simp add: demo_defs)
  then have "te_reach demo_args (run_thread 0 (run_thread 0 demo_registered))"
    by (rule reach_step [OF _ run_thread_step]) (simp add: demo_defs)
  then show "te_reach demo_args demo_busy"
    unfolding demo_busy_def by (rule reach_step [OF _ step_remove]) (simp_all add: demo_defs)
qed

text \<open>C37. No task is executed by two threads at the same time, with pool threads and with a thread of its own; and
  what a thread executes is a registered task, or the one that a call of \<open>unregisterTask\<close> is still waiting for.
  After \<open>unregisterTask\<close> has returned, its task is not executed any more.\<close>

theorem task_runs_in_one_thread:
  assumes "te_reach args s" "i < length (te_threads s)" "executes (te_threads s ! i) d"
  shows "(\<forall>j. j < length (te_threads s) \<and> executes (te_threads s ! j) d \<longrightarrow> j = i) \<and>
    d \<in> set (te_handleToTask s) \<union> (case te_call s of Joining e _ \<Rightarrow> {e} | Draining e _ \<Rightarrow> {e} | _ \<Rightarrow> {})"
  using te_reach_inv [OF assms(1)] executes_unique [OF _ _ assms(2) _ assms(3)]
    executes_known [OF _ nth_mem [OF assms(2)] assms(3)] by (auto simp: known_def)

theorem task_runs_in_one_thread_witness:
  "length (te_threads demo_busy) = 1 \<and> executes (te_threads demo_busy ! 0) (5, 0) \<and> (5, 0) \<in> set (te_handleToTask demo_busy) \<union>
     (case te_call demo_busy of Joining e _ \<Rightarrow> {e} | Draining e _ \<Rightarrow> {e} | _ \<Rightarrow> {})"
proof -
  have "length (te_threads demo_busy) = 1" "executes (te_threads demo_busy ! 0) (5, 0)"
    by (simp_all add: demo_defs executes_def)
  then show ?thesis using task_runs_in_one_thread [OF demo_reach(2), of 0 "(5, 0)"] by simp
qed

text \<open>C26. Between two calls the pool has one thread per task, or as many as configured but no more than tasks; none of
  them has ended, and none has a copy of a task that is no longer registered.\<close>

theorem pool_size_between_calls:
  assumes "te_reach args s" "te_call s = NoCall"
  shows "length (te_threads s) =
      (if ta_numThreads args = 0 then length (te_handleToTask s)
       else min (ta_numThreads args) (length (te_handleToTask s))) \<and>
    (\<forall>th \<in> set (te_threads s). th_pc th \<noteq> Returned \<and> set (th_localTasks th) \<subseteq> set (te_handleToTask s))"
proof -
  have inv: "te_inv s" "te_args s = args" using te_reach_inv [OF assms(1)] by simp_all
  have "length (te_threads s) = (if ta_numThreads args = 0 then length (te_handleToTask s)
       else min (ta_numThreads args) (length (te_handleToTask s)))"
  proof (cases "ta_numThreads args = 0")
    case True
    then have roles: "distinct (map th_role (te_threads s))"
        "set (map th_role (te_threads s)) = SingleThread ` set (map fst (te_handleToTask s))"
      using inv assms(2) by (simp_all add: te_inv_def inv_single_def expected_handles_def)
    have "length (map th_role (te_threads s)) = card (SingleThread ` set (map fst (te_handleToTask s)))"
      using distinct_card [OF roles(1)] roles(2) by simp
    also have "\<dots> = card (set (map fst (te_handleToTask s)))" by (rule card_image) (simp add: inj_on_def)
    also have "\<dots> = length (map fst (te_handleToTask s))"
      using inv(1) by (intro distinct_card) (simp add: te_inv_def inv_tasks_def)
    finally show ?thesis using True by simp
  next
    case False
    then show ?thesis using inv assms(2) by (simp add: te_inv_def inv_pool_def expected_size_def)
  qed
  moreover have "set (th_localTasks th) \<subseteq> set (te_handleToTask s)" if "th \<in> set (te_threads s)" for th
    using inv(1) assms(2) that by (simp add: te_inv_def inv_tasks_def known_def)
  ultimately show ?thesis using idle_threads_run [OF inv(1) assms(2)] by blast
qed

theorem pool_size_between_calls_witness:
  "length (te_handleToTask demo_registered) = 2 \<and> length (te_threads demo_registered) = 1"
proof -
  have "te_call demo_registered = NoCall" "ta_numThreads demo_args = 1" "length (te_handleToTask demo_registered) = 2"
    by (simp_all add: demo_defs)
  then show ?thesis using pool_size_between_calls [OF demo_reach(1)] by simp
qed

text \<open>C2. A call of \<open>registerTask\<close> or \<open>unregisterTask\<close> never ends in a deadlock: whatever the threads are doing, there
  are steps of the threads and of the call after which it has returned, without another call in between.\<close>

theorem call_can_return:
  assumes "te_reach args s"
  shows "\<exists>s'. te_step\<^sup>*\<^sup>* s s' \<and> te_call s' = NoCall \<and> te_handleToTask s' = te_handleToTask s"
proof (cases "te_call s")
  case (Registering h w)
  then have "te_step s (registerTask_spawn h w s)" by (rule step_spawn)
  then show ?thesis by (intro exI [of _ "registerTask_spawn h w s"]) (simp add: registerTask_spawn_def)
qed (use te_reach_inv [OF assms] te_reach_fresh [OF assms] joining_returns draining_returns in blast)+

theorem call_can_return_witness:
  "te_call demo_busy \<noteq> NoCall \<and>
   (\<exists>s'. te_step\<^sup>*\<^sup>* demo_busy s' \<and> te_call s' = NoCall \<and> te_handleToTask s' = [(5, 0)])"
proof -
  have "te_call demo_busy \<noteq> NoCall" "te_handleToTask demo_busy = [(5, 0)]" by (simp_all add: demo_defs)
  then show ?thesis using call_can_return [OF demo_reach(2)] by simp
qed

end
