(* ===== verification/Callables.thy ===== *)
theory Callables
  imports Prelude
begin

section \<open>Dynamic calls: Callable and the conversion of objects\<close>

text \<open>
  \<open>lib/Callable/Callable.cpp\<close>, \<open>lib/Object/Convert.cpp\<close> and \<open>lib/Object/TypesHashCombine.hpp\<close>.

  \<^item> An object holds a value with its type. The types that the code tests for are constructors of \<open>tinfo\<close>, the others are
    \<open>T t\<close>; an object with a type of the latter kind has a value of the type parameter \<open>'v\<close>. A pointer to the objects of an argument
    array is the list of them, a \<open>ManagedClass\<close> the address of its implementation.
  \<^item> \<open>CallImpl\<close> is a \<open>CallableContainer\<close>: the types of the parameters, that of the result, and the function, which throws or
    returns. The null object among the bound arguments is an argument that is not bound.
  \<^item> \<open>hash\<close> is \<open>std::type_info::hash_code\<close>. The tables of conversions are keyed by it, as in the code; an entry \<open>None\<close> is the
    null plugin that the removal of a conversion leaves.
  \<^item> A conversion calls a \<open>Callable\<close>, which converts its arguments: \<open>Object_convert\<close> bounds this recursion by a depth. Two levels are
    enough for converters that are registered under the types they have (\<open>convert_registered\<close>).
\<close>

subsection \<open>Objects and calls\<close>

datatype 't tinfo = TNull | TVoid | TObject | TObjectPtr | TSize | TString | TClass | T 't

datatype ('t, 'v) DynObject =
    ONull
  | OVal 't 'v
  | OObject "('t, 'v) DynObject"
  | OArgs "('t, 'v) DynObject list"
  | OSize nat
  | OString string
  | OClass nat

primrec Object_type :: "('t, 'v) DynObject \<Rightarrow> 't tinfo" where
  "Object_type ONull = TNull"
| "Object_type (OVal t v) = T t"
| "Object_type (OObject x) = TObject"
| "Object_type (OArgs xs) = TObjectPtr"
| "Object_type (OSize n) = TSize"
| "Object_type (OString s) = TString"
| "Object_type (OClass c) = TClass"

datatype call_error =
    CallableNullError
  | ExpectedInput nat
  | FailedToConvert nat
  | UnexpectedArgNo int
  | ObjectConvertError
  | DepthExceeded
  | ManagedClassTypeError
  | ManagedClassLookupError
  | ProxyHandleCallError
  | ProxyExceptionMessage call_error
  | OtherException string

record ('t, 'v) CallImpl =
  ci_params :: "'t tinfo list"
  ci_return :: "'t tinfo"
  ci_call :: "('t, 'v) DynObject list \<Rightarrow> call_error + ('t, 'v) DynObject"

record ('t, 'v) Callable =
  cl_impl :: "('t, 'v) CallImpl option"
  cl_boundArgs :: "('t, 'v) DynObject list"

definition Callable_null :: "('t, 'v) Callable" where
  "Callable_null = \<lparr>cl_impl = None, cl_boundArgs = []\<rparr>"

definition Callable_of :: "('t, 'v) CallImpl \<Rightarrow> ('t, 'v) Callable" where
  "Callable_of im = \<lparr>cl_impl = Some im, cl_boundArgs = []\<rparr>"

definition is_bound :: "('t, 'v) DynObject list \<Rightarrow> nat \<Rightarrow> bool" where
  "is_bound bound i \<longleftrightarrow> i < length bound \<and> bound ! i \<noteq> ONull"

text \<open>The loop of \<open>opaqueCall\<close> over the parameters from \<open>i\<close> on, with the index of the next input argument. A conversion error
  becomes an argument error, other exceptions pass.\<close>

fun callArgs ::
  "(('t, 'v) DynObject \<Rightarrow> 't tinfo \<Rightarrow> call_error + ('t, 'v) DynObject) \<Rightarrow> ('t, 'v) DynObject list \<Rightarrow> ('t, 'v) DynObject list \<Rightarrow>
   nat \<Rightarrow> nat \<Rightarrow> 't tinfo list \<Rightarrow> call_error + ('t, 'v) DynObject list" where
  "callArgs conv bound inputs i inputIndex [] = Inr []"
| "callArgs conv bound inputs i inputIndex (t # ts) =
     (if \<not> is_bound bound i \<and> length inputs \<le> inputIndex then Inl (ExpectedInput inputIndex)
      else let arg = (if is_bound bound i then bound ! i else inputs ! inputIndex);
               nextIndex = (if is_bound bound i then inputIndex else inputIndex + 1)
           in case conv arg t of
                Inl e \<Rightarrow> Inl (if e = ObjectConvertError then FailedToConvert i else e)
              | Inr a \<Rightarrow> rbind (callArgs conv bound inputs (i + 1) nextIndex ts) (\<lambda>as. Inr (a # as)))"

definition Callable_opaqueCall ::
  "(('t, 'v) DynObject \<Rightarrow> 't tinfo \<Rightarrow> call_error + ('t, 'v) DynObject) \<Rightarrow> ('t, 'v) Callable \<Rightarrow> ('t, 'v) DynObject list \<Rightarrow> call_error + ('t, 'v) DynObject" where
  "Callable_opaqueCall conv c inputs =
     (case cl_impl c of
        None \<Rightarrow> Inl CallableNullError
      | Some im \<Rightarrow> rbind (callArgs conv (cl_boundArgs c) inputs 0 0 (ci_params im)) (ci_call im))"

definition Callable_getNumArgs :: "('t, 'v) Callable \<Rightarrow> call_error + nat" where
  "Callable_getNumArgs c =
     (case cl_impl c of
        None \<Rightarrow> Inl CallableNullError
      | Some im \<Rightarrow>
          Inr (fold (\<lambda>i numArgs. if cl_boundArgs c ! i \<noteq> ONull then numArgs - 1 else numArgs)
                 [0..<min (length (ci_params im)) (length (cl_boundArgs c))] (length (ci_params im))))"

text \<open>The loop of \<open>type\<close> that adds the bound arguments before the wanted one.\<close>

fun skippedIndexes :: "nat \<Rightarrow> ('t, 'v) DynObject list \<Rightarrow> nat \<Rightarrow> nat \<Rightarrow> nat" where
  "skippedIndexes argNo [] i skipped = skipped"
| "skippedIndexes argNo (b # bs) i skipped =
     (if b \<noteq> ONull then skippedIndexes argNo bs (i + 1) (skipped + 1)
      else if i = argNo + skipped then skipped
      else skippedIndexes argNo bs (i + 1) skipped)"

definition Callable_type :: "('t, 'v) Callable \<Rightarrow> int \<Rightarrow> call_error + 't tinfo" where
  "Callable_type c argNo =
     (case cl_impl c of
        None \<Rightarrow> Inl CallableNullError
      | Some im \<Rightarrow>
          if argNo < -1 then Inl (UnexpectedArgNo argNo)
          else rbind (Callable_getNumArgs c) (\<lambda>numArgs.
            if argNo \<ge> int numArgs then Inl (UnexpectedArgNo argNo)
            else if argNo = -1 then Inr (ci_return im)
            else Inr (ci_params im ! (nat argNo + skippedIndexes (nat argNo) (cl_boundArgs c) 0 0))))"

definition Callable_bind :: "('t, 'v) DynObject \<Rightarrow> nat \<Rightarrow> ('t, 'v) Callable \<Rightarrow> ('t, 'v) Callable" where
  "Callable_bind val argNo c =
     (let args = cl_boundArgs c;
          args = (if length args \<le> argNo then args @ replicate (argNo + 1 - length args) ONull else args)
      in c\<lparr>cl_boundArgs := args[argNo := val]\<rparr>)"

definition Callable_unbind :: "nat \<Rightarrow> ('t, 'v) Callable \<Rightarrow> ('t, 'v) Callable" where
  "Callable_unbind argNo c = Callable_bind ONull argNo c"

text \<open>\<open>toString\<close>, over the names of types.\<close>

fun join_types :: "string list \<Rightarrow> string" where
  "join_types [] = []"
| "join_types [s] = s"
| "join_types (s # ss) = s @ '', '' @ join_types ss"

definition Callable_toString :: "('t tinfo \<Rightarrow> string) \<Rightarrow> ('t, 'v) Callable \<Rightarrow> call_error + string" where
  "Callable_toString typeInfoToString c =
     (if cl_impl c = None then Inr ''null''
      else rbind (Callable_type c (-1)) (\<lambda>ret.
           rbind (Callable_getNumArgs c) (\<lambda>n.
           rbind (fold (\<lambda>i acc. rbind acc (\<lambda>ss. rbind (Callable_type c (int i)) (\<lambda>t. Inr (ss @ [typeInfoToString t]))))
                    [0..<n] (Inr [])) (\<lambda>ss.
             Inr (typeInfoToString ret @ ''('' @ join_types ss @ '')'')))))"

subsection \<open>Conversions\<close>

definition typesHashCombine :: "64 word \<Rightarrow> 64 word \<Rightarrow> 64 word" where
  "typesHashCombine inTypeHash outTypeHash = inTypeHash + 0x9e3779b9 + push_bit 6 outTypeHash + drop_bit 2 outTypeHash"

record ('t, 'v) Converters =
  cv_map :: "64 word \<rightharpoonup> ('t, 'v) Callable option"
  cv_io :: "64 word \<Rightarrow> 64 word list"

definition Converters_new :: "('t, 'v) Converters" where
  "Converters_new = \<lparr>cv_map = (\<lambda>_. None), cv_io = (\<lambda>_. [])\<rparr>"

text \<open>The handler of plugin events below \<open>/object/convert\<close>; the object of the plugin is a \<open>Callable\<close> or another object. What is
  thrown is caught and logged.\<close>

definition handleConvertPluginEvent ::
  "('t tinfo \<Rightarrow> 64 word) \<Rightarrow> ('t, 'v) Callable option \<Rightarrow> string \<Rightarrow> ('t, 'v) Converters \<Rightarrow> ('t, 'v) Converters" where
  "handleConvertPluginEvent hash plugin event cv =
     (case plugin of
        None \<Rightarrow> cv
      | Some c \<Rightarrow>
          (case (Callable_type c (-1), Callable_getNumArgs c, Callable_type c 0) of
             (Inr outputType, Inr numArgs, input) \<Rightarrow>
               if outputType = TVoid \<or> numArgs \<noteq> 1 then cv
               else (case input of
                       Inl _ \<Rightarrow> cv
                     | Inr inputType \<Rightarrow>
                         let key = typesHashCombine (hash inputType) (hash outputType);
                             outs = cv_io cv (hash inputType)
                         in if event = ''add''
                            then cv\<lparr>cv_map := (cv_map cv)(key \<mapsto> Some c),
                                    cv_io := (cv_io cv)(hash inputType := insort_insert (hash outputType) outs)\<rparr>
                            else if event = ''remove''
                            then cv\<lparr>cv_map := (cv_map cv)(key \<mapsto> None),
                                    cv_io := (cv_io cv)(hash inputType := filter (\<lambda>k. k \<noteq> hash outputType) outs)\<rparr>
                            else cv)
           | _ \<Rightarrow> cv))"

text \<open>The first intermediate type, in the order of their hash codes, with both conversions in the map.\<close>

definition intermediate :: "('t, 'v) Converters \<Rightarrow> 64 word \<Rightarrow> 64 word \<Rightarrow> (('t, 'v) Callable option \<times> ('t, 'v) Callable option) option" where
  "intermediate cv src dst =
     (case filter (\<lambda>k. cv_map cv (typesHashCombine src k) \<noteq> None \<and> cv_map cv (typesHashCombine k dst) \<noteq> None) (cv_io cv src) of
        [] \<Rightarrow> None
      | k # _ \<Rightarrow> Some (the (cv_map cv (typesHashCombine src k)), the (cv_map cv (typesHashCombine k dst))))"

text \<open>\<open>extract\<close> of a \<open>Callable\<close> from a plugin throws when the plugin is null.\<close>

definition extract_callable :: "('t, 'v) Callable option \<Rightarrow> call_error + ('t, 'v) Callable" where
  "extract_callable p = (case p of None \<Rightarrow> Inl ObjectConvertError | Some c \<Rightarrow> Inr c)"

definition convertObject ::
  "(('t, 'v) Callable \<Rightarrow> ('t, 'v) DynObject list \<Rightarrow> call_error + ('t, 'v) DynObject) \<Rightarrow> ('t tinfo \<Rightarrow> 64 word) \<Rightarrow> ('t, 'v) Converters \<Rightarrow>
   ('t, 'v) DynObject \<Rightarrow> 't tinfo \<Rightarrow> call_error + ('t, 'v) DynObject" where
  "convertObject opaqueCall hash cv inputObj outputType =
     (case cv_map cv (typesHashCombine (hash (Object_type inputObj)) (hash outputType)) of
        None \<Rightarrow>
          (case intermediate cv (hash (Object_type inputObj)) (hash outputType) of
             None \<Rightarrow> Inl ObjectConvertError
           | Some (p1, p2) \<Rightarrow>
               rbind (extract_callable p1) (\<lambda>call1.
               rbind (extract_callable p2) (\<lambda>call2.
               rbind (opaqueCall call1 [inputObj]) (\<lambda>intermediate. opaqueCall call2 [intermediate]))))
      | Some p \<Rightarrow> rbind (extract_callable p) (\<lambda>call. opaqueCall call [inputObj]))"

primrec Object_convert ::
  "nat \<Rightarrow> ('t tinfo \<Rightarrow> 64 word) \<Rightarrow> ('t, 'v) Converters \<Rightarrow> ('t, 'v) DynObject \<Rightarrow> 't tinfo \<Rightarrow> call_error + ('t, 'v) DynObject" where
  "Object_convert 0 hash cv obj type = Inl DepthExceeded"
| "Object_convert (Suc n) hash cv obj type =
     (if Object_type obj = type then Inr obj
      else if type = TObject then Inr (OObject obj)
      else convertObject (Callable_opaqueCall (Object_convert n hash cv)) hash cv obj type)"

definition canConvert_types :: "('t tinfo \<Rightarrow> 64 word) \<Rightarrow> ('t, 'v) Converters \<Rightarrow> 't tinfo \<Rightarrow> 't tinfo \<Rightarrow> bool" where
  "canConvert_types hash cv srcType dstType \<longleftrightarrow>
     srcType = dstType \<or>
     cv_map cv (typesHashCombine (hash srcType) (hash dstType)) \<noteq> None \<or>
     intermediate cv (hash srcType) (hash dstType) \<noteq> None"

definition Object_canConvert :: "('t tinfo \<Rightarrow> 64 word) \<Rightarrow> ('t, 'v) Converters \<Rightarrow> ('t, 'v) DynObject \<Rightarrow> 't tinfo \<Rightarrow> bool" where
  "Object_canConvert hash cv obj type \<longleftrightarrow> type = TObject \<or> canConvert_types hash cv (Object_type obj) type"

subsection \<open>Bound arguments\<close>

text \<open>The parameters that a caller has to give, by their positions.\<close>

definition unbound_params :: "('t, 'v) DynObject list \<Rightarrow> nat \<Rightarrow> nat list" where
  "unbound_params bound n = filter (\<lambda>i. \<not> is_bound bound i) [0..<n]"

definition bound_below :: "('t, 'v) DynObject list \<Rightarrow> nat \<Rightarrow> nat" where
  "bound_below bound i = length (filter (is_bound bound) [0..<i])"

lemma bound_below_simps [simp]:
  "bound_below bound 0 = 0"
  "bound_below bound (Suc i) = bound_below bound i + (if is_bound bound i then 1 else 0)"
  by (simp_all add: bound_below_def)

lemma bound_below_le: "bound_below bound i \<le> i"
  by (induction i) auto

lemma length_unbound: "length (unbound_params bound n) = n - bound_below bound n"
  using sum_length_filter_compl [of "is_bound bound" "[0..<n]"]
  by (simp add: unbound_params_def bound_below_def)

lemma unbound_params_split:
  "i < n \<Longrightarrow> unbound_params bound n = unbound_params bound i @ filter (\<lambda>i. \<not> is_bound bound i) [i..<n]"
  unfolding unbound_params_def
  by (metis filter_append le_add_diff_inverse less_imp_le_nat upt_add_eq_append zero_le)

lemma nth_unbound:
  assumes "j < n" "\<not> is_bound bound j"
  shows "j - bound_below bound j < length (unbound_params bound n)"
    "unbound_params bound n ! (j - bound_below bound j) = j"
proof -
  have "unbound_params bound n = unbound_params bound j @ j # filter (\<lambda>i. \<not> is_bound bound i) [Suc j..<n]"
    using unbound_params_split [OF assms(1), of bound] assms upt_conv_Cons [OF assms(1)] by simp
  then show "j - bound_below bound j < length (unbound_params bound n)"
    "unbound_params bound n ! (j - bound_below bound j) = j"
    by (simp_all add: length_unbound nth_append)
qed

lemma fold_count_down:
  "fold (\<lambda>i (n :: nat). if P i then n - 1 else n) is n = n - length (filter P is)"
  by (induction "is" arbitrary: n) auto

lemma bound_below_beyond: "bound_below bound n = length (filter (\<lambda>i. bound ! i \<noteq> ONull) [0..<min n (length bound)])"
proof (induction n)
  case (Suc n)
  then show ?case by (cases "n < length bound") (auto simp: is_bound_def min_def)
qed simp

lemma getNumArgs_unbound:
  "cl_impl c = Some im \<Longrightarrow>
   Callable_getNumArgs c = Inr (length (unbound_params (cl_boundArgs c) (length (ci_params im))))"
  by (simp add: Callable_getNumArgs_def fold_count_down length_unbound bound_below_beyond)

lemma bound_below_end: "length bound \<le> m \<Longrightarrow> bound_below bound m = bound_below bound (length bound)"
  by (induction m rule: dec_induct) (simp_all add: is_bound_def)

lemma skippedIndexes_spec:
  assumes "drop i bound = bs" "i \<le> argNo + bound_below bound i" "i \<le> length bound"
    "j = argNo + skippedIndexes argNo bs i (bound_below bound i)"
  shows "\<not> is_bound bound j \<and> bound_below bound j = j - argNo"
  using assms
proof (induction bs arbitrary: i)
  case Nil
  then have "i = length bound" by simp
  then show ?case using Nil.prems(2,4) bound_below_end [of bound j] by (simp add: is_bound_def)
next
  case (Cons b bs)
  have "i < length bound" using Cons.prems(1) by (cases "i < length bound") simp_all
  moreover from Cons_nth_drop_Suc [OF this] have "bound ! i = b" "drop (Suc i) bound = bs"
    using Cons.prems(1) by simp_all
  ultimately have i: "i < length bound" "bound ! i = b" "drop (Suc i) bound = bs" by simp_all
  show ?case
  proof (cases "b \<noteq> ONull \<or> i \<noteq> argNo + bound_below bound i")
    case True
    have "Suc i \<le> argNo + bound_below bound (Suc i)" using True Cons.prems(2) i by (auto simp: is_bound_def)
    moreover have "j = argNo + skippedIndexes argNo bs (Suc i) (bound_below bound (Suc i))"
      using True Cons.prems(4) i by (auto simp: is_bound_def)
    ultimately show ?thesis using Cons.IH [OF i(3)] i(1) by simp
  next
    case False
    then have "j = i" using Cons.prems(4) by simp
    moreover have "bound_below bound i = i - argNo" using False by linarith
    ultimately show ?thesis using False i by (simp add: is_bound_def)
  qed
qed

text \<open>
  \<open>getNumArgs\<close> counts the parameters that are not bound, and \<open>type\<close> numbers them: the type of argument \<open>k\<close> is that of the
  parameter at the \<open>k\<close>-th position that is not bound, whatever is bound, before or after it or beyond the last parameter.
\<close>

theorem callable_type_skips_bound:
  assumes "cl_impl c = Some im" "k < length (unbound_params (cl_boundArgs c) (length (ci_params im)))"
  shows "Callable_type c (int k) = Inr (ci_params im ! (unbound_params (cl_boundArgs c) (length (ci_params im)) ! k))"
proof -
  let ?bound = "cl_boundArgs c" and ?n = "length (ci_params im)"
  define j where "j = k + skippedIndexes k ?bound 0 0"
  have j: "\<not> is_bound ?bound j" "bound_below ?bound j = j - k" "k \<le> j"
    using skippedIndexes_spec [of 0 ?bound ?bound k j] by (simp_all add: j_def)
  have "j < ?n"
  proof (rule ccontr)
    assume "\<not> j < ?n"
    then have "length (unbound_params ?bound ?n) \<le> length (unbound_params ?bound j)"
      using unbound_params_split [of ?n j ?bound] by (cases "?n = j") auto
    also have "\<dots> = k" using j by (simp add: length_unbound)
    finally show False using assms(2) by simp
  qed
  then have "unbound_params ?bound ?n ! k = j" using nth_unbound(2) [of j ?n ?bound] j by simp
  then show ?thesis using assms getNumArgs_unbound [OF assms(1)] by (simp add: Callable_type_def j_def)
qed

definition demo_impl :: "(string, int) CallImpl" where
  "demo_impl = \<lparr>ci_params = [T ''int'', TString, T ''bool''], ci_return = T ''int'',
     ci_call = (\<lambda>args. case args of [OVal _ x, OString s, OVal _ y] \<Rightarrow> Inr (OVal ''int'' (x + int (length s) + y)) | _ \<Rightarrow> Inl ObjectConvertError)\<rparr>"

definition demo_bound :: "(string, int) Callable" where
  "demo_bound = Callable_bind (OString ''ab'') 1 (Callable_of demo_impl)"

theorem callable_type_skips_bound_witness: "Callable_type demo_bound 1 = Inr (T ''bool'')"
  using callable_type_skips_bound [of demo_bound demo_impl 1]
  by (simp add: demo_bound_def Callable_bind_def Callable_of_def demo_impl_def unbound_params_def is_bound_def upt_rec)

text \<open>Binding an argument that was not bound: the other ones keep their meaning.\<close>

lemma bind_boundArgs:
  assumes "v \<noteq> ONull"
  shows "is_bound (cl_boundArgs (Callable_bind v j c)) i \<longleftrightarrow> i = j \<or> is_bound (cl_boundArgs c) i"
    "i \<noteq> j \<Longrightarrow> is_bound (cl_boundArgs c) i \<Longrightarrow> cl_boundArgs (Callable_bind v j c) ! i = cl_boundArgs c ! i"
    "cl_boundArgs (Callable_bind v j c) ! j = v"
  using assms by (auto simp: Callable_bind_def is_bound_def Let_def nth_list_update nth_append)

lemma unbound_less: "x < y \<Longrightarrow> \<not> is_bound b x \<Longrightarrow> x - bound_below b x < y - bound_below b y"
  using unbound_params_split [of x y b] by (simp add: upt_conv_Cons flip: length_unbound)

lemma callArgs_bind:
  fixes v :: "('t, 'v) DynObject" and c :: "('t, 'v) Callable"
  assumes "v \<noteq> ONull" "\<not> is_bound (cl_boundArgs c) j" "k = j - bound_below (cl_boundArgs c) j" "k \<le> length args"
    and "if i \<le> j then m = i - bound_below (cl_boundArgs c) i else k \<le> m"
    and "m + length (filter (\<lambda>x. \<not> is_bound (cl_boundArgs (Callable_bind v j c)) x) [i..<i + length ts]) \<le> length args"
  shows "callArgs conv (cl_boundArgs (Callable_bind v j c)) args i m ts =
    callArgs conv (cl_boundArgs c) (take k args @ v # drop k args) i (if i \<le> j then m else m + 1) ts"
  using assms(5,6)
proof (induction ts arbitrary: i m)
  case (Cons t ts)
  let ?b = "cl_boundArgs c" and ?b' = "cl_boundArgs (Callable_bind v j c)" and ?args = "take k args @ v # drop k args"
  have split: "filter P [i..<i + length (t # ts)] = (if P i then [i] else []) @ filter P [Suc i..<Suc i + length ts]" for P
    by (subst upt_conv_Cons) (simp_all del: upt_Suc)
  note bind = bind_boundArgs [OF assms(1)]
  have le: "length ?args = Suc (length args)" using assms(4) by simp
  show ?case
  proof (cases "i = j")
    case True
    then have "m = k" using Cons.prems(1) assms(3) by simp
    moreover have "?args ! k = v" using assms(4) by (simp add: nth_append)
    moreover have "callArgs conv ?b' args (Suc i) k ts = callArgs conv ?b ?args (Suc i) (k + 1) ts"
      using Cons.IH [of "Suc i" k] Cons.prems True \<open>m = k\<close> split bind(1) by (simp del: upt_Suc)
    ultimately show ?thesis using True assms(2,4) bind by (simp split: sum.split)
  next
    case False
    show ?thesis
    proof (cases "is_bound ?b i")
      case True
      have "callArgs conv ?b' args (Suc i) m ts = callArgs conv ?b ?args (Suc i) (if Suc i \<le> j then m else m + 1) ts"
        using Cons.IH [of "Suc i" m] Cons.prems True False split bind(1) by (simp del: upt_Suc)
      moreover have "(if Suc i \<le> j then m else m + 1) = (if i \<le> j then m else m + 1)" using False by simp
      ultimately show ?thesis using True False bind by (simp add: Let_def split: sum.split)
    next
      case unbound: False
      let ?m = "if i \<le> j then m else m + 1"
      have "i \<le> j \<Longrightarrow> m < k" using unbound_less [of i j ?b] unbound False Cons.prems(1) assms(3) by simp
      then have "?args ! ?m = args ! m" "?m < length ?args" "m < length args"
        using Cons.prems split bind(1) False unbound le by (auto simp: nth_append min_def simp del: upt_Suc)
      moreover have "callArgs conv ?b' args (Suc i) (m + 1) ts = callArgs conv ?b ?args (Suc i) (?m + 1) ts"
        using Cons.IH [of "Suc i" "m + 1"] Cons.prems unbound False split bind(1)
          Suc_diff_le [OF bound_below_le [of ?b i]] by (auto simp del: upt_Suc)
      ultimately show ?thesis using unbound False bind by (simp add: Let_def split: sum.split)
    qed
  qed
qed simp

text \<open>
  C38. Binding is partial application: a call with argument \<open>j\<close> bound to \<open>v\<close> does the same, errors included, as a call without the
  binding that is given \<open>v\<close> at the position of that argument among the inputs, provided that the caller gives enough arguments.
\<close>

theorem bind_is_partial_application:
  assumes "cl_impl c = Some im" "j < length (ci_params im)" "\<not> is_bound (cl_boundArgs c) j" "v \<noteq> ONull"
    and "length (unbound_params (cl_boundArgs c) (length (ci_params im))) \<le> length args + 1"
  shows "Callable_opaqueCall conv (Callable_bind v j c) args =
    Callable_opaqueCall conv c
      (let k = length (unbound_params (cl_boundArgs c) j) in take k args @ v # drop k args)"
proof -
  let ?b = "cl_boundArgs c" and ?n = "length (ci_params im)"
  define k where "k = j - bound_below ?b j"
  have k: "k = length (unbound_params ?b j)" by (simp add: k_def length_unbound)
  have split: "unbound_params ?b ?n = unbound_params ?b j @ j # filter (\<lambda>i. \<not> is_bound ?b i) [Suc j..<?n]"
    using unbound_params_split [OF assms(2), of ?b] assms(3) upt_conv_Cons [OF assms(2)] by simp
  have "filter (\<lambda>x. \<not> is_bound (cl_boundArgs (Callable_bind v j c)) x) [0..<?n] = filter (\<lambda>x. x \<noteq> j) (unbound_params ?b ?n)"
    unfolding bind_boundArgs(1) [OF assms(4)] unbound_params_def by (auto simp: filter_filter intro: filter_cong)
  also have "\<dots> = unbound_params ?b j @ filter (\<lambda>i. \<not> is_bound ?b i) [Suc j..<?n]"
  proof -
    have "filter (\<lambda>x. x \<noteq> j) (unbound_params ?b j) = unbound_params ?b j"
      "filter (\<lambda>x. x \<noteq> j) (filter (\<lambda>i. \<not> is_bound ?b i) [Suc j..<?n]) = filter (\<lambda>i. \<not> is_bound ?b i) [Suc j..<?n]"
      by (rule filter_True; auto simp: unbound_params_def)+
    then show ?thesis unfolding split filter_append by simp
  qed
  finally have "length (filter (\<lambda>x. \<not> is_bound (cl_boundArgs (Callable_bind v j c)) x) [0..<?n]) \<le> length args"
    using assms(5) split by simp
  moreover have "k \<le> length args" using assms(5) split k by simp
  ultimately have "callArgs conv (cl_boundArgs (Callable_bind v j c)) args 0 0 (ci_params im) =
      callArgs conv ?b (take k args @ v # drop k args) 0 0 (ci_params im)"
    using callArgs_bind [OF assms(4,3) k_def, of args 0 0 "ci_params im" conv] by simp
  moreover have "cl_impl (Callable_bind v j c) = Some im" using assms(1) by (simp add: Callable_bind_def Let_def)
  ultimately show ?thesis using assms(1) unfolding Callable_opaqueCall_def Let_def k by simp
qed

theorem bind_is_partial_application_witness:
  "Callable_opaqueCall (\<lambda>x t. Inr x) demo_bound [OVal ''int'' 3, OVal ''bool'' 1] =
   Callable_opaqueCall (\<lambda>x t. Inr x) (Callable_of demo_impl) [OVal ''int'' 3, OString ''ab'', OVal ''bool'' 1]"
  using bind_is_partial_application [of "Callable_of demo_impl" demo_impl 1 "OString ''ab''" "[OVal ''int'' 3, OVal ''bool'' 1]" "\<lambda>x t. Inr x"]
  by (simp add: demo_bound_def Callable_of_def demo_impl_def unbound_params_def is_bound_def upt_rec)

subsection \<open>What a conversion does\<close>

text \<open>A converter as the code registers them: a function of one argument, nothing bound, whose results have its type.\<close>

definition conv_sig :: "('t, 'v) Callable \<Rightarrow> ('t tinfo \<times> 't tinfo) option" where
  "conv_sig c =
     (case cl_impl c of
        Some im \<Rightarrow> (case ci_params im of [s] \<Rightarrow> Some (s, ci_return im) | _ \<Rightarrow> None)
      | None \<Rightarrow> None)"

definition run_call :: "('t, 'v) Callable \<Rightarrow> ('t, 'v) DynObject list \<Rightarrow> call_error + ('t, 'v) DynObject" where
  "run_call c args = (case cl_impl c of None \<Rightarrow> Inl CallableNullError | Some im \<Rightarrow> ci_call im args)"

definition is_converter :: "('t, 'v) Callable \<Rightarrow> 't tinfo \<Rightarrow> 't tinfo \<Rightarrow> bool" where
  "is_converter c s d \<longleftrightarrow>
     conv_sig c = Some (s, d) \<and> cl_boundArgs c = [] \<and> d \<noteq> TVoid \<and>
     (\<forall>args r. run_call c args = Inr r \<longrightarrow> Object_type r = d)"

definition register_converters :: "('t tinfo \<Rightarrow> 64 word) \<Rightarrow> ('t, 'v) Callable list \<Rightarrow> ('t, 'v) Converters" where
  "register_converters hash cs = fold (\<lambda>c. handleConvertPluginEvent hash (Some c) ''add'') cs Converters_new"

text \<open>The conversions that the registered functions mean: the last one from \<open>s\<close> to \<open>d\<close>, or else two of them over the intermediate
  type that comes first in the order of hash codes.\<close>

definition last_conv :: "('t, 'v) Callable list \<Rightarrow> 't tinfo \<Rightarrow> 't tinfo \<Rightarrow> ('t, 'v) Callable option" where
  "last_conv cs s d = find (\<lambda>c. conv_sig c = Some (s, d)) (rev cs)"

definition bridges :: "('t tinfo \<Rightarrow> 64 word) \<Rightarrow> ('t, 'v) Callable list \<Rightarrow> 't tinfo \<Rightarrow> 't tinfo \<Rightarrow> 't tinfo list" where
  "bridges hash cs s d =
     sort_key hash (filter (\<lambda>m. last_conv cs m d \<noteq> None)
       (remdups (map (\<lambda>c. snd (the (conv_sig c))) (filter (\<lambda>c. fst (the (conv_sig c)) = s) cs))))"

definition convert_spec ::
  "('t tinfo \<Rightarrow> 64 word) \<Rightarrow> ('t, 'v) Callable list \<Rightarrow> ('t, 'v) DynObject \<Rightarrow> 't tinfo \<Rightarrow> (call_error + ('t, 'v) DynObject) option" where
  "convert_spec hash cs obj d =
     (let s = Object_type obj in
      case last_conv cs s d of
        Some c \<Rightarrow> Some (run_call c [obj])
      | None \<Rightarrow>
          (case bridges hash cs s d of
             [] \<Rightarrow> None
           | m # _ \<Rightarrow> Some (rbind (run_call (the (last_conv cs s m)) [obj]) (\<lambda>x. run_call (the (last_conv cs m d)) [x]))))"

text \<open>The tables are keyed by hash codes; this is what it takes to tell the types in \<open>A\<close> apart.\<close>

definition hashes_distinct :: "('t tinfo \<Rightarrow> 64 word) \<Rightarrow> 't tinfo set \<Rightarrow> bool" where
  "hashes_distinct hash A \<longleftrightarrow>
     inj_on hash A \<and>
     inj_on (\<lambda>(s, d). typesHashCombine (hash s) (hash d)) (A \<times> A)"

lemma find_append: "find P (xs @ ys) = (case find P xs of None \<Rightarrow> find P ys | Some x \<Rightarrow> Some x)"
  by (induction xs) auto

lemma last_conv_Some: "last_conv cs s d = Some c \<Longrightarrow> c \<in> set cs \<and> conv_sig c = Some (s, d)"
  unfolding last_conv_def find_Some_iff by (metis nth_mem set_rev)

lemma last_conv_None: "last_conv cs s d = None \<longleftrightarrow> (\<forall>c \<in> set cs. conv_sig c \<noteq> Some (s, d))"
  by (auto simp: last_conv_def find_None_iff)

lemma handle_add:
  assumes "is_converter c s d"
  shows "handleConvertPluginEvent hash (Some c) ''add'' cv =
    cv\<lparr>cv_map := (cv_map cv)(typesHashCombine (hash s) (hash d) \<mapsto> Some c),
       cv_io := (cv_io cv)(hash s := insort_insert (hash d) (cv_io cv (hash s)))\<rparr>"
proof -
  obtain im where im: "cl_impl c = Some im" "ci_params im = [s]" "ci_return im = d"
    using assms by (auto simp: is_converter_def conv_sig_def split: option.splits list.splits)
  have "Callable_getNumArgs c = Inr 1" "Callable_type c (-1) = Inr d" "Callable_type c 0 = Inr s"
    using assms im by (simp_all add: is_converter_def Callable_getNumArgs_def Callable_type_def)
  then show ?thesis using assms by (simp add: handleConvertPluginEvent_def is_converter_def Let_def)
qed

lemma register_snoc:
  "register_converters hash (cs @ [c]) = handleConvertPluginEvent hash (Some c) ''add'' (register_converters hash cs)"
  by (simp add: register_converters_def)

definition tables_ok :: "('t tinfo \<Rightarrow> 64 word) \<Rightarrow> 't tinfo set \<Rightarrow> ('t, 'v) Callable list \<Rightarrow> ('t, 'v) Converters \<Rightarrow> bool" where
  "tables_ok hash A cs cv \<longleftrightarrow>
     (\<forall>s \<in> A. \<forall>d \<in> A. cv_map cv (typesHashCombine (hash s) (hash d)) = map_option Some (last_conv cs s d)) \<and>
     (\<forall>s \<in> A. set (cv_io cv (hash s)) = {hash d | d. last_conv cs s d \<noteq> None}) \<and>
     (\<forall>k. sorted (cv_io cv k) \<and> distinct (cv_io cv k))"

lemma register_tables:
  assumes "\<forall>c \<in> set cs. \<exists>s \<in> A. \<exists>d \<in> A. is_converter c s d" "hashes_distinct hash A"
  shows "tables_ok hash A cs (register_converters hash cs)"
  using assms(1)
proof (induction cs rule: rev_induct)
  case Nil
  show ?case by (simp add: tables_ok_def register_converters_def Converters_new_def last_conv_def)
next
  case (snoc c cs)
  obtain s' d' where c: "s' \<in> A" "d' \<in> A" "is_converter c s' d'" "conv_sig c = Some (s', d')"
    using snoc.prems by (auto simp: is_converter_def)
  have IH: "tables_ok hash A cs (register_converters hash cs)" using snoc by simp
  have last: "last_conv (cs @ [c]) s d = (if s = s' \<and> d = d' then Some c else last_conv cs s d)" for s d
    using c(4) by (auto simp: last_conv_def)
  have key: "typesHashCombine (hash s) (hash d) = typesHashCombine (hash s') (hash d') \<longleftrightarrow> s = s' \<and> d = d'"
    if "s \<in> A" "d \<in> A" for s d
    using assms(2) that c(1,2) by (auto simp: hashes_distinct_def inj_on_def)
  have key': "hash s = hash s' \<longleftrightarrow> s = s'" if "s \<in> A" for s
    using assms(2) that c(1) by (auto simp: hashes_distinct_def inj_on_def)
  note reg = register_snoc handle_add [OF c(3)]
  have "\<forall>s \<in> A. \<forall>d \<in> A. cv_map (register_converters hash (cs @ [c])) (typesHashCombine (hash s) (hash d)) =
      map_option Some (last_conv (cs @ [c]) s d)"
    using IH key by (simp add: tables_ok_def reg last)
  moreover have "\<forall>s \<in> A. set (cv_io (register_converters hash (cs @ [c])) (hash s)) =
      {hash d | d. last_conv (cs @ [c]) s d \<noteq> None}"
  proof
    fix s assume s: "s \<in> A"
    then have "set (cv_io (register_converters hash cs) (hash s)) = {hash d | d. last_conv cs s d \<noteq> None}"
      using IH by (simp add: tables_ok_def)
    moreover have "last_conv (cs @ [c]) s d \<noteq> None \<longleftrightarrow> s = s' \<and> d = d' \<or> last_conv cs s d \<noteq> None" for d
      by (auto simp: last)
    then have "{hash d | d. last_conv (cs @ [c]) s d \<noteq> None} =
        (if s = s' then {hash d'} else {}) \<union> {hash d | d. last_conv cs s d \<noteq> None}" by auto
    ultimately show "set (cv_io (register_converters hash (cs @ [c])) (hash s)) = {hash d | d. last_conv (cs @ [c]) s d \<noteq> None}"
      using key' [OF s] by (cases "s = s'") (simp_all add: reg set_insort_insert)
  qed
  moreover have "\<forall>k. sorted (cv_io (register_converters hash (cs @ [c])) k) \<and> distinct (cv_io (register_converters hash (cs @ [c])) k)"
    using IH by (simp add: tables_ok_def reg sorted_insort_insert distinct_insort_insert)
  ultimately show ?case by (simp add: tables_ok_def)
qed

lemma opaqueCall_converter:
  assumes "is_converter c s d" "Object_type obj = s"
  shows "Callable_opaqueCall (Object_convert (Suc n) hash cv) c [obj] = run_call c [obj]"
  using assms
  by (auto simp: is_converter_def conv_sig_def run_call_def Callable_opaqueCall_def is_bound_def split: option.splits list.splits)

lemma bridges_types: "m \<in> set (bridges hash cs s d) \<Longrightarrow> \<forall>c \<in> set cs. conv_sig c \<noteq> None \<Longrightarrow>
   last_conv cs s m \<noteq> None \<and> last_conv cs m d \<noteq> None"
  unfolding bridges_def last_conv_None by force

lemma set_bridges:
  "\<forall>c \<in> set cs. conv_sig c \<noteq> None \<Longrightarrow>
   set (bridges hash cs s d) = {m. last_conv cs s m \<noteq> None \<and> last_conv cs m d \<noteq> None}"
proof -
  assume all: "\<forall>c \<in> set cs. conv_sig c \<noteq> None"
  have "m \<in> (\<lambda>c. snd (the (conv_sig c))) ` {c \<in> set cs. fst (the (conv_sig c)) = s} \<longleftrightarrow> last_conv cs s m \<noteq> None" for m
    using all unfolding last_conv_None by (force simp: image_iff)
  then show ?thesis by (auto simp: bridges_def)
qed

lemma intermediate_bridges:
  assumes conv: "\<forall>c \<in> set cs. \<exists>s \<in> A. \<exists>d \<in> A. is_converter c s d" and hashes: "hashes_distinct hash A"
    and "s \<in> A" "d \<in> A"
  defines "cv \<equiv> register_converters hash cs"
  shows "intermediate cv (hash s) (hash d) =
    (case bridges hash cs s d of [] \<Rightarrow> None | m # _ \<Rightarrow> Some (last_conv cs s m, last_conv cs m d))"
proof -
  have tables: "tables_ok hash A cs cv" unfolding cv_def by (rule register_tables [OF conv hashes])
  have sigs: "\<forall>c \<in> set cs. conv_sig c \<noteq> None" using conv by (auto simp: is_converter_def)
  have in_A: "m \<in> A" if "last_conv cs s m \<noteq> None" for s m
    using that conv last_conv_Some [of cs s m] by (fastforce simp: is_converter_def)
  let ?P = "\<lambda>k. cv_map cv (typesHashCombine (hash s) k) \<noteq> None \<and> cv_map cv (typesHashCombine k (hash d)) \<noteq> None"
  have P: "?P (hash m) \<longleftrightarrow> last_conv cs s m \<noteq> None \<and> last_conv cs m d \<noteq> None" if "m \<in> A" for m
    using tables that assms(3,4) by (simp add: tables_ok_def)
  have "set (filter ?P (cv_io cv (hash s))) = hash ` {m. last_conv cs s m \<noteq> None \<and> ?P (hash m)}"
    using tables assms(3) by (auto simp: tables_ok_def)
  also have "{m. last_conv cs s m \<noteq> None \<and> ?P (hash m)} = set (bridges hash cs s d)"
    unfolding set_bridges [OF sigs] using P in_A by blast
  finally have "set (filter ?P (cv_io cv (hash s))) = hash ` set (bridges hash cs s d)" .
  moreover have "sorted (filter ?P (cv_io cv (hash s)))" "distinct (filter ?P (cv_io cv (hash s)))"
    using tables by (simp_all add: tables_ok_def sorted_wrt_filter)
  moreover have "inj_on hash (set (bridges hash cs s d))"
    using hashes in_A unfolding set_bridges [OF sigs] by (auto simp: hashes_distinct_def intro: inj_on_subset)
  then have "distinct (map hash (bridges hash cs s d))" "sorted (map hash (bridges hash cs s d))"
    by (simp_all add: distinct_map bridges_def)
  ultimately have eq: "filter ?P (cv_io cv (hash s)) = map hash (bridges hash cs s d)"
    by (intro sorted_distinct_set_unique) simp_all
  show ?thesis
  proof (cases "bridges hash cs s d")
    case Nil
    then show ?thesis using eq by (simp add: intermediate_def)
  next
    case (Cons m ms)
    then have "last_conv cs s m \<noteq> None" "last_conv cs m d \<noteq> None" using set_bridges [OF sigs, of hash s d] by auto
    then show ?thesis using eq Cons in_A [of s m] tables assms(3,4) by (auto simp: intermediate_def tables_ok_def)
  qed
qed

text \<open>
  C20. Conversion between registered types does what the registered functions mean: \<open>convert\<close> runs the last function registered for
  the two types, or else two functions over an intermediate type, and throws exactly when there is neither; \<open>canConvert\<close> says which.
  This is for types that their hash codes tell apart, and while no conversion has been removed.
\<close>

theorem convert_registered:
  assumes "\<forall>c \<in> set cs. \<exists>s \<in> A. \<exists>d \<in> A. is_converter c s d" "hashes_distinct hash A"
    and "Object_type obj \<in> A" "d \<in> A" "Object_type obj \<noteq> d" "d \<noteq> TObject"
  shows "Object_convert (n + 2) hash (register_converters hash cs) obj d =
      (case convert_spec hash cs obj d of None \<Rightarrow> Inl ObjectConvertError | Some r \<Rightarrow> r) \<and>
    Object_canConvert hash (register_converters hash cs) obj d = (convert_spec hash cs obj d \<noteq> None)"
proof -
  let ?s = "Object_type obj" and ?cv = "register_converters hash cs"
  have tables: "tables_ok hash A cs ?cv" by (rule register_tables [OF assms(1,2)])
  have map: "cv_map ?cv (typesHashCombine (hash ?s) (hash d)) = map_option Some (last_conv cs ?s d)"
    using tables assms(3,4) by (simp add: tables_ok_def)
  note inter = intermediate_bridges [OF assms(1-4)]
  have conv: "is_converter c s' d'" if "last_conv cs s' d' = Some c" for c s' d'
    using last_conv_Some [OF that] assms(1) by (fastforce simp: is_converter_def)
  have run: "Callable_opaqueCall (Object_convert (Suc n) hash ?cv) c [x] = run_call c [x]"
    if "last_conv cs (Object_type x) d' = Some c" for c d' x
    by (rule opaqueCall_converter [OF conv [OF that] refl])
  have "Object_convert (n + 2) hash ?cv obj d = convertObject (Callable_opaqueCall (Object_convert (Suc n) hash ?cv)) hash ?cv obj d"
    using assms(5,6) by (simp add: add_2_eq_Suc')
  also have "\<dots> = (case convert_spec hash cs obj d of None \<Rightarrow> Inl ObjectConvertError | Some r \<Rightarrow> r)"
  proof (cases "last_conv cs ?s d")
    case (Some c)
    then show ?thesis using run [OF Some] by (simp add: convertObject_def map convert_spec_def extract_callable_def)
  next
    case None
    show ?thesis
    proof (cases "bridges hash cs ?s d")
      case Nil
      then show ?thesis using None by (simp add: convertObject_def map convert_spec_def inter)
    next
      case (Cons m ms)
      have "\<forall>c \<in> set cs. conv_sig c \<noteq> None" using assms(1) by (auto simp: is_converter_def)
      then obtain c1 c2 where c: "last_conv cs ?s m = Some c1" "last_conv cs m d = Some c2"
        using bridges_types [of m hash cs ?s d] Cons by auto
      have "run_call c1 [obj] = Inr x \<Longrightarrow> Object_type x = m" for x using conv [OF c(1)] by (auto simp: is_converter_def)
      then have "rbind (run_call c1 [obj]) (\<lambda>x. Callable_opaqueCall (Object_convert (Suc n) hash ?cv) c2 [x]) =
          rbind (run_call c1 [obj]) (\<lambda>x. run_call c2 [x])"
        using run [of _ d c2] c(2) by (cases "run_call c1 [obj]") auto
      then show ?thesis using None Cons c run [OF c(1)]
        by (simp add: convertObject_def map convert_spec_def inter extract_callable_def)
    qed
  qed
  finally show ?thesis
    using assms(5,6) map inter
    by (auto simp: Object_canConvert_def canConvert_types_def convert_spec_def Let_def split: option.splits list.splits)
qed

text \<open>Three types with a conversion from the first to the second and from there to the third.\<close>

definition demo_hash :: "nat tinfo \<Rightarrow> 64 word" where
  "demo_hash t = (case t of T n \<Rightarrow> word_of_nat n | TObject \<Rightarrow> 100 | _ \<Rightarrow> 200)"

definition demo_converter :: "nat \<Rightarrow> nat \<Rightarrow> (nat, int) Callable" where
  "demo_converter s d = Callable_of \<lparr>ci_params = [T s], ci_return = T d,
     ci_call = (\<lambda>args. case args of [OVal _ x] \<Rightarrow> Inr (OVal d (x + 1)) | _ \<Rightarrow> Inl ObjectConvertError)\<rparr>"

lemma demo_converter_ok: "is_converter (demo_converter s d) (T s) (T d)"
  by (auto simp: is_converter_def conv_sig_def demo_converter_def Callable_of_def run_call_def split: list.splits DynObject.splits)

lemma demo_hashes_distinct: "hashes_distinct demo_hash {T 1, T 2, T 3}"
  by (simp add: hashes_distinct_def demo_hash_def typesHashCombine_def inj_on_def)

theorem convert_registered_witness:
  "Object_convert 2 demo_hash (register_converters demo_hash [demo_converter 1 2, demo_converter 2 3]) (OVal 1 5) (T 3) = Inr (OVal 3 7)"
proof -
  have "bridges demo_hash [demo_converter 1 2, demo_converter 2 3] (T 1) (T 3) = [T 2]"
    by (simp add: bridges_def last_conv_def conv_sig_def demo_converter_def Callable_of_def)
  then have "convert_spec demo_hash [demo_converter 1 2, demo_converter 2 3] (OVal 1 5) (T 3) = Some (Inr (OVal 3 7))"
    by (simp add: convert_spec_def last_conv_def conv_sig_def demo_converter_def Callable_of_def run_call_def)
  moreover have all: "\<forall>c \<in> set [demo_converter 1 2, demo_converter 2 3]. \<exists>s \<in> {T 1, T 2, T 3}. \<exists>d \<in> {T 1, T 2, T 3}. is_converter c s d"
    using demo_converter_ok [of 1 2] demo_converter_ok [of 2 3] by (simp; blast)
  ultimately show ?thesis
    using convert_registered [OF all demo_hashes_distinct, of "OVal 1 5" "T 3" 0] by (simp add: numeral_2_eq_2 del: Object_convert.simps)
qed

text \<open>
  A conversion that is removed is not gone: the map keeps a null plugin for it. \<open>canConvert\<close> still says yes, and \<open>convert\<close> throws,
  also when other registered conversions lead from the one type to the other over an intermediate type.
\<close>

theorem removed_conversion_is_still_claimed:
  assumes "is_converter c (Object_type obj) d" "Object_type obj \<noteq> d" "d \<noteq> TObject"
  shows "let cv' = handleConvertPluginEvent hash (Some c) ''remove'' cv
    in Object_canConvert hash cv' obj d \<and> Object_convert (Suc n) hash cv' obj d = Inl ObjectConvertError"
proof -
  let ?s = "Object_type obj"
  obtain im where im: "cl_impl c = Some im" "ci_params im = [?s]" "ci_return im = d"
    using assms(1) by (auto simp: is_converter_def conv_sig_def split: option.splits list.splits)
  have "Callable_getNumArgs c = Inr 1" "Callable_type c (-1) = Inr d" "Callable_type c 0 = Inr ?s"
    using assms(1) im by (simp_all add: is_converter_def Callable_getNumArgs_def Callable_type_def)
  then have "cv_map (handleConvertPluginEvent hash (Some c) ''remove'' cv) (typesHashCombine (hash ?s) (hash d)) = Some None"
    using assms(1) by (simp add: handleConvertPluginEvent_def is_converter_def Let_def)
  then show ?thesis
    using assms(2,3) by (simp add: Object_canConvert_def canConvert_types_def convertObject_def extract_callable_def Let_def)
qed

theorem removed_conversion_is_still_claimed_witness:
  "let cv' = handleConvertPluginEvent demo_hash (Some (demo_converter 1 3)) ''remove''
               (register_converters demo_hash [demo_converter 1 2, demo_converter 2 3, demo_converter 1 3])
   in Object_canConvert demo_hash cv' (OVal 1 5) (T 3) \<and> Object_convert 2 demo_hash cv' (OVal 1 5) (T 3) = Inl ObjectConvertError"
  using removed_conversion_is_still_claimed [of "demo_converter 1 3" "OVal 1 5" "T 3" demo_hash _ 1] demo_converter_ok [of 1 3]
  by (simp add: numeral_2_eq_2)

text \<open>The combined hash is meant to differ for the two directions of a conversion; it does not for these hash codes.\<close>

theorem typesHashCombine_is_not_ordered:
  "typesHashCombine 7582851318837127940 3 = typesHashCombine 3 7582851318837127940"
  by (simp add: typesHashCombine_def)

end
