(* ===== verification/Managed.thy ===== *)
theory Managed
  imports Callables PluginRegistry
begin

section \<open>Managed classes and calls through their handles\<close>

text \<open>
  \<open>lib/Managed/Class.cpp\<close>, \<open>lib/Managed/Registry.cpp\<close> and \<open>lib/Managed/Builtin/ManagedHandle.cpp\<close>.

  \<^item> \<open>ClassImpl\<close> is \<open>ManagedClass::Impl\<close>; a register function returns the changed class or what it throws.
  \<^item> \<open>ManagedRuntime\<close> has what a call through a handle looks at: the conversions, the classes by their addresses and the map from hash codes
    of types to classes, where \<open>None\<close> is the null plugin left by a removal.
  \<^item> A proxy of the managed environment is the object in its handle. An argument of a call is the result of \<open>getHandle\<close>, which throws
    for a proxy of another environment that cannot be converted.
  \<^item> A call may go on in a base class: \<open>ManagedProxyHandle_call\<close> bounds this recursion by a depth, and \<open>call_depth_suffices\<close> shows that
    every depth above the height of the class hierarchy gives the same result.
\<close>

subsection \<open>Registration\<close>

record ('t, 'v) ClassImpl =
  mc_referenceToWrapper :: "('t, 'v) Callable"
  mc_pointerToWrapper :: "('t, 'v) Callable"
  mc_sharedToWrapper :: "('t, 'v) Callable"
  mc_baseConverters :: "('t, 'v) Callable list"
  mc_constructors :: "('t, 'v) Callable list"
  mc_staticMethods :: "string \<rightharpoonup> ('t, 'v) Callable list"
  mc_methods :: "string \<rightharpoonup> ('t, 'v) Callable list"
  mc_opaqueConstructor :: "('t, 'v) Callable"
  mc_opaqueStaticMethods :: "string \<rightharpoonup> ('t, 'v) Callable"
  mc_wildcardStaticMethod :: "('t, 'v) Callable"
  mc_opaqueMethods :: "string \<rightharpoonup> ('t, 'v) Callable"
  mc_wildcardMethod :: "('t, 'v) Callable"

definition ManagedClass_new :: "('t, 'v) ClassImpl" where
  "ManagedClass_new =
     \<lparr>mc_referenceToWrapper = Callable_null, mc_pointerToWrapper = Callable_null, mc_sharedToWrapper = Callable_null,
      mc_baseConverters = [], mc_constructors = [], mc_staticMethods = (\<lambda>_. None), mc_methods = (\<lambda>_. None),
      mc_opaqueConstructor = Callable_null, mc_opaqueStaticMethods = (\<lambda>_. None), mc_wildcardStaticMethod = Callable_null,
      mc_opaqueMethods = (\<lambda>_. None), mc_wildcardMethod = Callable_null\<rparr>"

abbreviation nonnull :: "('t, 'v) Callable \<Rightarrow> bool" where
  "nonnull c \<equiv> cl_impl c \<noteq> None"

definition wrapper_type :: "('t, 'v) Callable \<Rightarrow> call_error + 't tinfo" where
  "wrapper_type w = (if nonnull w then Callable_type w 0 else Inl ManagedClassTypeError)"

definition ManagedClass_type :: "('t, 'v) ClassImpl \<Rightarrow> call_error + 't tinfo" where
  "ManagedClass_type cls = wrapper_type (mc_referenceToWrapper cls)"

definition ManagedClass_pointerType :: "('t, 'v) ClassImpl \<Rightarrow> call_error + 't tinfo" where
  "ManagedClass_pointerType cls = wrapper_type (mc_pointerToWrapper cls)"

definition ManagedClass_sharedType :: "('t, 'v) ClassImpl \<Rightarrow> call_error + 't tinfo" where
  "ManagedClass_sharedType cls = wrapper_type (mc_sharedToWrapper cls)"

text \<open>The guard of the register functions: with a wrapper set, the type of the call at \<open>argNo\<close> has to be that of the class.\<close>

definition check_type :: "('t, 'v) Callable \<Rightarrow> ('t, 'v) Callable \<Rightarrow> int \<Rightarrow> call_error + unit" where
  "check_type wrapper c argNo =
     (if nonnull wrapper
      then rbind (Callable_type c argNo) (\<lambda>t. rbind (Callable_type wrapper 0) (\<lambda>u.
             if t \<noteq> u then Inl ManagedClassTypeError else Inr ()))
      else Inr ())"

definition check_method :: "('t, 'v) Callable \<Rightarrow> ('t, 'v) Callable \<Rightarrow> call_error + unit" where
  "check_method wrapper c =
     (if nonnull wrapper
      then rbind (Callable_getNumArgs c) (\<lambda>n. if n > 0 then check_type wrapper c 0 else Inr ())
      else Inr ())"

text \<open>The arguments of opaque and wildcard calls: parameter types from \<open>argNo\<close> on, compared one by one.\<close>

fun check_args :: "('t, 'v) Callable \<Rightarrow> nat \<Rightarrow> 't tinfo list \<Rightarrow> call_error + unit" where
  "check_args c argNo [] = Inr ()"
| "check_args c argNo (t # ts) =
     rbind (Callable_type c (int argNo)) (\<lambda>u. if u \<noteq> t then Inl ManagedClassTypeError else check_args c (argNo + 1) ts)"

definition check_signature :: "('t, 'v) Callable \<Rightarrow> nat \<Rightarrow> nat \<Rightarrow> 't tinfo list \<Rightarrow> call_error + unit" where
  "check_signature c numArgs argNo ts =
     rbind (Callable_getNumArgs c) (\<lambda>n. if n \<noteq> numArgs then Inl ManagedClassTypeError else check_args c argNo ts)"

definition check_returns_object :: "('t, 'v) Callable \<Rightarrow> call_error + unit" where
  "check_returns_object c = rbind (Callable_type c (-1)) (\<lambda>t. if t \<noteq> TObject then Inl ManagedClassTypeError else Inr ())"

definition registerReferenceToWrapper :: "('t, 'v) Callable \<Rightarrow> ('t, 'v) ClassImpl \<Rightarrow> call_error + ('t, 'v) ClassImpl" where
  "registerReferenceToWrapper c cls =
     rbind (check_type (mc_referenceToWrapper cls) c 0) (\<lambda>_. Inr (cls\<lparr>mc_referenceToWrapper := c\<rparr>))"

definition registerPointerToWrapper :: "('t, 'v) Callable \<Rightarrow> ('t, 'v) ClassImpl \<Rightarrow> call_error + ('t, 'v) ClassImpl" where
  "registerPointerToWrapper c cls =
     rbind (check_type (mc_pointerToWrapper cls) c 0) (\<lambda>_. Inr (cls\<lparr>mc_pointerToWrapper := c\<rparr>))"

definition registerSharedToWrapper :: "('t, 'v) Callable \<Rightarrow> ('t, 'v) ClassImpl \<Rightarrow> call_error + ('t, 'v) ClassImpl" where
  "registerSharedToWrapper c cls =
     rbind (check_type (mc_sharedToWrapper cls) c 0) (\<lambda>_. Inr (cls\<lparr>mc_sharedToWrapper := c\<rparr>))"

definition registerToBaseClass :: "('t, 'v) Callable \<Rightarrow> ('t, 'v) ClassImpl \<Rightarrow> call_error + ('t, 'v) ClassImpl" where
  "registerToBaseClass c cls =
     rbind (check_type (mc_referenceToWrapper cls) c 0) (\<lambda>_. Inr (cls\<lparr>mc_baseConverters := mc_baseConverters cls @ [c]\<rparr>))"

definition registerConstructor :: "('t, 'v) Callable \<Rightarrow> ('t, 'v) ClassImpl \<Rightarrow> call_error + ('t, 'v) ClassImpl" where
  "registerConstructor c cls =
     rbind (check_type (mc_referenceToWrapper cls) c (-1)) (\<lambda>_. Inr (cls\<lparr>mc_constructors := mc_constructors cls @ [c]\<rparr>))"

definition append_at :: "string \<Rightarrow> 'c \<Rightarrow> (string \<rightharpoonup> 'c list) \<Rightarrow> string \<rightharpoonup> 'c list" where
  "append_at name c m = m(name \<mapsto> (case m name of None \<Rightarrow> [] | Some cs \<Rightarrow> cs) @ [c])"

definition registerStaticMethod :: "string \<Rightarrow> ('t, 'v) Callable \<Rightarrow> ('t, 'v) ClassImpl \<Rightarrow> call_error + ('t, 'v) ClassImpl" where
  "registerStaticMethod name c cls = Inr (cls\<lparr>mc_staticMethods := append_at name c (mc_staticMethods cls)\<rparr>)"

definition registerMethod :: "string \<Rightarrow> ('t, 'v) Callable \<Rightarrow> ('t, 'v) ClassImpl \<Rightarrow> call_error + ('t, 'v) ClassImpl" where
  "registerMethod name c cls =
     rbind (check_method (mc_referenceToWrapper cls) c) (\<lambda>_. Inr (cls\<lparr>mc_methods := append_at name c (mc_methods cls)\<rparr>))"

definition registerOpaqueConstructor :: "('t, 'v) Callable \<Rightarrow> ('t, 'v) ClassImpl \<Rightarrow> call_error + ('t, 'v) ClassImpl" where
  "registerOpaqueConstructor c cls =
     rbind (check_type (mc_referenceToWrapper cls) c (-1)) (\<lambda>_.
     rbind (check_signature c 2 0 [TObjectPtr, TSize]) (\<lambda>_. Inr (cls\<lparr>mc_opaqueConstructor := c\<rparr>)))"

definition registerOpaqueStaticMethod :: "string \<Rightarrow> ('t, 'v) Callable \<Rightarrow> ('t, 'v) ClassImpl \<Rightarrow> call_error + ('t, 'v) ClassImpl" where
  "registerOpaqueStaticMethod name c cls =
     rbind (check_returns_object c) (\<lambda>_. rbind (check_signature c 2 0 [TObjectPtr, TSize]) (\<lambda>_.
       Inr (cls\<lparr>mc_opaqueStaticMethods := (mc_opaqueStaticMethods cls)(name \<mapsto> c)\<rparr>)))"

definition registerWildcardStaticMethod :: "('t, 'v) Callable \<Rightarrow> ('t, 'v) ClassImpl \<Rightarrow> call_error + ('t, 'v) ClassImpl" where
  "registerWildcardStaticMethod c cls =
     rbind (check_returns_object c) (\<lambda>_. rbind (check_signature c 3 0 [TString, TObjectPtr, TSize]) (\<lambda>_.
       Inr (cls\<lparr>mc_wildcardStaticMethod := c\<rparr>)))"

definition registerOpaqueMethod :: "string \<Rightarrow> ('t, 'v) Callable \<Rightarrow> ('t, 'v) ClassImpl \<Rightarrow> call_error + ('t, 'v) ClassImpl" where
  "registerOpaqueMethod name c cls =
     rbind (check_method (mc_referenceToWrapper cls) c) (\<lambda>_. rbind (check_returns_object c) (\<lambda>_.
     rbind (check_signature c 3 1 [TObjectPtr, TSize]) (\<lambda>_.
       Inr (cls\<lparr>mc_opaqueMethods := (mc_opaqueMethods cls)(name \<mapsto> c)\<rparr>))))"

definition registerWildcardMethod :: "('t, 'v) Callable \<Rightarrow> ('t, 'v) ClassImpl \<Rightarrow> call_error + ('t, 'v) ClassImpl" where
  "registerWildcardMethod c cls =
     rbind (check_method (mc_referenceToWrapper cls) c) (\<lambda>_. rbind (check_returns_object c) (\<lambda>_.
     rbind (check_signature c 4 1 [TString, TObjectPtr, TSize]) (\<lambda>_. Inr (cls\<lparr>mc_wildcardMethod := c\<rparr>))))"

text \<open>\<open>registerClass\<close> of the templates: the wrappers of a class are registered once, and its deletion as a method.\<close>

definition registerClass ::
  "('t, 'v) Callable \<Rightarrow> ('t, 'v) Callable \<Rightarrow> ('t, 'v) Callable \<Rightarrow> ('t, 'v) Callable \<Rightarrow> ('t, 'v) ClassImpl \<Rightarrow> call_error + ('t, 'v) ClassImpl" where
  "registerClass ref ptr shared deleteValue cls =
     (if \<not> nonnull (mc_referenceToWrapper cls) \<or> \<not> nonnull (mc_pointerToWrapper cls) \<or> \<not> nonnull (mc_sharedToWrapper cls)
      then rbind (registerReferenceToWrapper ref cls) (\<lambda>cls. rbind (registerPointerToWrapper ptr cls) (\<lambda>cls.
             rbind (registerSharedToWrapper shared cls) (registerMethod ''delete'' deleteValue)))
      else Inr cls)"

subsection \<open>The map of classes\<close>

record ('t, 'v) ManagedRuntime =
  rt_depth :: nat
  rt_hash :: "'t tinfo \<Rightarrow> 64 word"
  rt_converters :: "('t, 'v) Converters"
  rt_classes :: "nat \<Rightarrow> ('t, 'v) ClassImpl"
  rt_classMap :: "64 word \<rightharpoonup> nat option"

text \<open>The handler of plugin events below \<open>/managed\<close>; the plugin has a class or another object. The three entries are written one
  after the other, and what is thrown in between is caught, with the entries before it written.\<close>

definition put_type :: "('t tinfo \<Rightarrow> 64 word) \<Rightarrow> call_error + 't tinfo \<Rightarrow> nat option \<Rightarrow> (64 word \<rightharpoonup> nat option) \<Rightarrow> call_error + (64 word \<rightharpoonup> nat option)" where
  "put_type hash t p m = rbind t (\<lambda>t. Inr (m(hash t \<mapsto> p)))"

definition handleClassPluginEvent ::
  "('t tinfo \<Rightarrow> 64 word) \<Rightarrow> (nat \<Rightarrow> ('t, 'v) ClassImpl) \<Rightarrow> nat option \<Rightarrow> string \<Rightarrow> (64 word \<rightharpoonup> nat option) \<Rightarrow> (64 word \<rightharpoonup> nat option)" where
  "handleClassPluginEvent hash classes plugin event m =
     (case plugin of
        None \<Rightarrow> m
      | Some a \<Rightarrow>
          if event \<noteq> ''add'' \<and> event \<noteq> ''remove'' then m
          else let p = (if event = ''add'' then Some a else None); cls = classes a
               in case put_type hash (ManagedClass_type cls) p m of
                    Inl _ \<Rightarrow> m
                  | Inr m1 \<Rightarrow>
                      (case put_type hash (ManagedClass_pointerType cls) p m1 of
                         Inl _ \<Rightarrow> m1
                       | Inr m2 \<Rightarrow> (case put_type hash (ManagedClass_sharedType cls) p m2 of Inl _ \<Rightarrow> m2 | Inr m3 \<Rightarrow> m3)))"

definition ManagedClass_lookup :: "('t, 'v) ManagedRuntime \<Rightarrow> 't tinfo \<Rightarrow> call_error + ('t, 'v) ClassImpl" where
  "ManagedClass_lookup rt type =
     (case rt_classMap rt (rt_hash rt type) of
        None \<Rightarrow> Inl ManagedClassLookupError
      | Some None \<Rightarrow> Inl ObjectConvertError
      | Some (Some a) \<Rightarrow> Inr (rt_classes rt a))"

subsection \<open>Calls through a handle\<close>

abbreviation rt_convert :: "('t, 'v) ManagedRuntime \<Rightarrow> ('t, 'v) DynObject \<Rightarrow> 't tinfo \<Rightarrow> call_error + ('t, 'v) DynObject" where
  "rt_convert rt \<equiv> Object_convert (rt_depth rt) (rt_hash rt) (rt_converters rt)"

abbreviation rt_canConvert :: "('t, 'v) ManagedRuntime \<Rightarrow> ('t, 'v) DynObject \<Rightarrow> 't tinfo \<Rightarrow> bool" where
  "rt_canConvert rt \<equiv> Object_canConvert (rt_hash rt) (rt_converters rt)"

abbreviation rt_call :: "('t, 'v) ManagedRuntime \<Rightarrow> ('t, 'v) Callable \<Rightarrow> ('t, 'v) DynObject list \<Rightarrow> call_error + ('t, 'v) DynObject" where
  "rt_call rt \<equiv> Callable_opaqueCall (rt_convert rt)"

datatype call_kind = ConstructorCall | StaticCall | MethodCall

definition kind_of_call :: "('t, 'v) DynObject \<Rightarrow> string \<Rightarrow> call_kind" where
  "kind_of_call obj name =
     (if Object_type obj = TClass then if name = ''()'' then ConstructorCall else StaticCall else MethodCall)"

text \<open>Step 1 and 2: the class of the object, and its calls of the name. A name that is not registered is no error here.\<close>

definition class_of_handle :: "('t, 'v) ManagedRuntime \<Rightarrow> ('t, 'v) DynObject \<Rightarrow> call_error + ('t, 'v) ClassImpl" where
  "class_of_handle rt obj =
     (case obj of OClass a \<Rightarrow> Inr (rt_classes rt a) | _ \<Rightarrow> ManagedClass_lookup rt (Object_type obj))"

definition named :: "(string \<rightharpoonup> 'c) \<Rightarrow> string \<Rightarrow> 'c \<Rightarrow> 'c" where
  "named m name d = (case m name of None \<Rightarrow> d | Some c \<Rightarrow> c)"

definition calls_of :: "('t, 'v) ClassImpl \<Rightarrow> call_kind \<Rightarrow> string \<Rightarrow> ('t, 'v) Callable list" where
  "calls_of cls kind name =
     (case kind of
        ConstructorCall \<Rightarrow> mc_constructors cls
      | StaticCall \<Rightarrow> named (mc_staticMethods cls) name []
      | MethodCall \<Rightarrow> named (mc_methods cls) name [])"

definition opaque_of :: "('t, 'v) ClassImpl \<Rightarrow> call_kind \<Rightarrow> string \<Rightarrow> ('t, 'v) Callable" where
  "opaque_of cls kind name =
     (case kind of
        ConstructorCall \<Rightarrow> mc_opaqueConstructor cls
      | StaticCall \<Rightarrow> named (mc_opaqueStaticMethods cls) name Callable_null
      | MethodCall \<Rightarrow> named (mc_opaqueMethods cls) name Callable_null)"

definition wildcard_of :: "('t, 'v) ClassImpl \<Rightarrow> call_kind \<Rightarrow> ('t, 'v) Callable" where
  "wildcard_of cls kind =
     (case kind of ConstructorCall \<Rightarrow> Callable_null | StaticCall \<Rightarrow> mc_wildcardStaticMethod cls | MethodCall \<Rightarrow> mc_wildcardMethod cls)"

text \<open>Step 3: the instance, from a value, a shared pointer or a pointer, before the other arguments.\<close>

definition instance_arg :: "('t, 'v) ManagedRuntime \<Rightarrow> ('t, 'v) ClassImpl \<Rightarrow> ('t, 'v) DynObject \<Rightarrow> call_error + ('t, 'v) DynObject" where
  "instance_arg rt cls obj =
     rbind (ManagedClass_type cls) (\<lambda>t. if Object_type obj = t then Inr obj
     else rbind (ManagedClass_sharedType cls) (\<lambda>t. if Object_type obj = t then rt_call rt (mc_sharedToWrapper cls) [obj]
     else rbind (ManagedClass_pointerType cls) (\<lambda>t. if Object_type obj = t then rt_call rt (mc_pointerToWrapper cls) [obj]
     else Inl (OtherException ''assertion failed''))))"

fun handle_args :: "(call_error + ('t, 'v) DynObject) list \<Rightarrow> call_error + ('t, 'v) DynObject list" where
  "handle_args [] = Inr []"
| "handle_args (Inl e # args) = Inl ProxyHandleCallError"
| "handle_args (Inr x # args) = rbind (handle_args args) (\<lambda>xs. Inr (x # xs))"

text \<open>The search for a match; a later match replaces an earlier one.\<close>

fun args_match :: "('t, 'v) ManagedRuntime \<Rightarrow> ('t, 'v) Callable \<Rightarrow> nat \<Rightarrow> ('t, 'v) DynObject list \<Rightarrow> call_error + bool" where
  "args_match rt c a [] = Inr True"
| "args_match rt c a (x # xs) =
     rbind (Callable_type c (int a)) (\<lambda>t. if rt_canConvert rt x t then args_match rt c (a + 1) xs else Inr False)"

definition call_matches :: "('t, 'v) ManagedRuntime \<Rightarrow> ('t, 'v) DynObject list \<Rightarrow> ('t, 'v) Callable \<Rightarrow> call_error + bool" where
  "call_matches rt argObjs c =
     rbind (Callable_getNumArgs c) (\<lambda>n. if n \<noteq> length argObjs then Inr False else args_match rt c 0 argObjs)"

fun find_call :: "('t, 'v) ManagedRuntime \<Rightarrow> ('t, 'v) DynObject list \<Rightarrow> ('t, 'v) Callable list \<Rightarrow> ('t, 'v) Callable \<Rightarrow> call_error + ('t, 'v) Callable" where
  "find_call rt argObjs [] call = Inr call"
| "find_call rt argObjs (c # cs) call =
     rbind (call_matches rt argObjs c) (\<lambda>b. find_call rt argObjs cs (if b then c else call))"

text \<open>The attempts with base classes: only the failure to find a call there leads on to the next one.\<close>

fun try_bases ::
  "(('t, 'v) Callable \<Rightarrow> call_error + ('t, 'v) DynObject) \<Rightarrow> ('t, 'v) Callable list \<Rightarrow> (call_error + ('t, 'v) DynObject) option" where
  "try_bases call_on_base [] = None"
| "try_bases call_on_base (b # bs) =
     (case call_on_base b of Inl ProxyHandleCallError \<Rightarrow> try_bases call_on_base bs | r \<Rightarrow> Some r)"

text \<open>Step 4: an opaque call gets its arguments as an array, a wildcard call also the name. Exceptions become messages.\<close>

definition opaque_args :: "call_kind \<Rightarrow> bool \<Rightarrow> string \<Rightarrow> ('t, 'v) DynObject list \<Rightarrow> ('t, 'v) DynObject list" where
  "opaque_args kind wildcard name argObjs =
     (if kind = MethodCall then [hd argObjs] else []) @ (if wildcard then [OString name] else []) @
     (let rest = (if kind = MethodCall then tl argObjs else argObjs) in [OArgs rest, OSize (length rest)])"

definition unwrap_result :: "call_kind \<Rightarrow> ('t, 'v) DynObject \<Rightarrow> call_error + ('t, 'v) DynObject" where
  "unwrap_result kind r =
     (if kind = ConstructorCall then Inr r else case r of OObject x \<Rightarrow> Inr x | _ \<Rightarrow> Inl ObjectConvertError)"

definition as_message :: "call_error + 'a \<Rightarrow> call_error + 'a" where
  "as_message r = (case r of Inl e \<Rightarrow> Inl (ProxyExceptionMessage e) | Inr x \<Rightarrow> Inr x)"

definition select_call ::
  "('t, 'v) Callable \<Rightarrow> ('t, 'v) Callable \<Rightarrow> ('t, 'v) Callable \<Rightarrow> ('t, 'v) Callable \<times> bool \<times> bool" where
  "select_call match opaque wildcard =
     (if nonnull match then (match, False, False)
      else if nonnull opaque then (opaque, True, False)
      else if nonnull wildcard then (wildcard, False, True)
      else (match, False, False))"

primrec ManagedProxyHandle_call ::
  "nat \<Rightarrow> ('t, 'v) ManagedRuntime \<Rightarrow> ('t, 'v) DynObject \<Rightarrow> string \<Rightarrow> (call_error + ('t, 'v) DynObject) list \<Rightarrow> call_error + ('t, 'v) DynObject" where
  "ManagedProxyHandle_call 0 rt obj name args = Inl DepthExceeded"
| "ManagedProxyHandle_call (Suc n) rt obj name args =
     (let kind = kind_of_call obj name in
      rbind (class_of_handle rt obj) (\<lambda>cls.
      let calls = calls_of cls kind name; opaque = opaque_of cls kind name; wildcard = wildcard_of cls kind in
      rbind (if kind = MethodCall then rbind (instance_arg rt cls obj) (\<lambda>x. Inr [x]) else Inr []) (\<lambda>inst.
      rbind (handle_args args) (\<lambda>localArgs.
      let argObjs = inst @ localArgs in
      rbind (find_call rt argObjs calls Callable_null) (\<lambda>match.
      let (call, doOpaque, doWildcard) = select_call match opaque wildcard;
          base = (if kind = MethodCall \<and> (\<not> nonnull call \<or> nonnull wildcard)
                  then try_bases (\<lambda>toBase. rbind (rt_call rt toBase [hd argObjs]) (\<lambda>b. ManagedProxyHandle_call n rt b name (map Inr localArgs)))
                         (mc_baseConverters cls)
                  else None)
      in case base of
           Some r \<Rightarrow> r
         | None \<Rightarrow>
             if \<not> nonnull call then Inl ProxyHandleCallError
             else if doOpaque \<or> doWildcard
             then as_message (rbind (rt_call rt call (opaque_args kind doWildcard name argObjs)) (unwrap_result kind))
             else as_message (rt_call rt call argObjs))))))"

text \<open>\<open>commit\<close> and \<open>unload\<close>: the class and a conversion for each constructor of one argument are plugins.\<close>

datatype ('t, 'v) managed_plugin = ConstructorPlugin "('t, 'v) Callable" | ClassPlugin nat

definition typeToPluginPath :: "('t tinfo \<Rightarrow> string) \<Rightarrow> (char \<Rightarrow> bool) \<Rightarrow> (char \<Rightarrow> char) \<Rightarrow> 't tinfo \<Rightarrow> string" where
  "typeToPluginPath typeInfoToString isalnum tolower t =
     map (\<lambda>ch. if isalnum ch then tolower ch else CHR ''_'') (typeInfoToString t)"

definition constructor_path :: "('t tinfo \<Rightarrow> string) \<Rightarrow> ('t, 'v) Callable \<Rightarrow> call_error + string option" where
  "constructor_path tpath c =
     rbind (Callable_getNumArgs c) (\<lambda>n.
       if n \<noteq> 1 then Inr None
       else rbind (Callable_type c 0) (\<lambda>s. rbind (Callable_type c (-1)) (\<lambda>d.
              Inr (Some (''/object/convert/constructors/'' @ tpath s @ ''_to_'' @ tpath d)))))"

datatype commit_error = CommitConstructor call_error | CommitPath path_error | CommitRegistry registry_error | CommitClass

record Paths =
  pa_tok :: "string \<Rightarrow> string list"
  pa_tokNonEmpty :: "string \<Rightarrow> string list"

definition commit_plugin ::
  "Paths \<Rightarrow> ('o \<Rightarrow> bool) \<Rightarrow> path_error + string \<Rightarrow> 'o \<Rightarrow> 'o Registry \<Rightarrow> commit_error option \<times> 'o Registry" where
  "commit_plugin pa ch path obj r =
     (case path of
        Inl e \<Rightarrow> (Some (CommitPath e), r)
      | Inr path \<Rightarrow>
          (case PluginRegistry_add (pa_tokNonEmpty pa) ch \<lparr>pl_path = path, pl_object = obj, pl_module = ''''\<rparr> r of
             (e, _, r) \<Rightarrow> (map_option CommitRegistry e, r)))"

fun commit_constructors ::
  "Paths \<Rightarrow> (('t, 'v) managed_plugin \<Rightarrow> bool) \<Rightarrow> ('t tinfo \<Rightarrow> string) \<Rightarrow> ('t, 'v) Callable list \<Rightarrow>
   ('t, 'v) managed_plugin Registry \<Rightarrow> commit_error option \<times> ('t, 'v) managed_plugin Registry" where
  "commit_constructors pa ch tpath [] r = (None, r)"
| "commit_constructors pa ch tpath (c # cs) r =
     (case constructor_path tpath c of
        Inl e \<Rightarrow> (Some (CommitConstructor e), r)
      | Inr None \<Rightarrow> commit_constructors pa ch tpath cs r
      | Inr (Some path) \<Rightarrow>
          (case commit_plugin pa ch (PluginPath_new (pa_tok pa) path) (ConstructorPlugin c) r of
             (Some e, r) \<Rightarrow> (Some e, r)
           | (None, r) \<Rightarrow> commit_constructors pa ch tpath cs r))"

definition ManagedClass_commit ::
  "Paths \<Rightarrow> (('t, 'v) managed_plugin \<Rightarrow> bool) \<Rightarrow> ('t tinfo \<Rightarrow> string) \<Rightarrow> ('t, 'v) ClassImpl \<Rightarrow> nat \<Rightarrow> string \<Rightarrow>
   ('t, 'v) managed_plugin Registry \<Rightarrow> commit_error option \<times> ('t, 'v) managed_plugin Registry" where
  "ManagedClass_commit pa ch tpath cls a classPath r =
     (case commit_constructors pa ch tpath (mc_constructors cls) r of
        (Some e, r) \<Rightarrow> (Some e, r)
      | (None, r) \<Rightarrow> commit_plugin pa ch (PluginPath_join (pa_tok pa) ''/managed'' classPath) (ClassPlugin a) r)"

definition unload_plugin ::
  "Paths \<Rightarrow> ('o \<Rightarrow> bool) \<Rightarrow> path_error + string \<Rightarrow> 'o Registry \<Rightarrow> commit_error option \<times> 'o Registry" where
  "unload_plugin pa ch path r =
     (case path of
        Inl e \<Rightarrow> (Some (CommitPath e), r)
      | Inr path \<Rightarrow>
          (case PluginRegistry_remove (pa_tokNonEmpty pa) ch path r of
             (Inl e, _, r) \<Rightarrow> (Some (CommitRegistry e), r)
           | (Inr _, _, r) \<Rightarrow> (None, r)))"

fun unload_constructors ::
  "Paths \<Rightarrow> (('t, 'v) managed_plugin \<Rightarrow> bool) \<Rightarrow> ('t tinfo \<Rightarrow> string) \<Rightarrow> ('t, 'v) Callable list \<Rightarrow>
   ('t, 'v) managed_plugin Registry \<Rightarrow> commit_error option \<times> ('t, 'v) managed_plugin Registry" where
  "unload_constructors pa ch tpath [] r = (None, r)"
| "unload_constructors pa ch tpath (c # cs) r =
     (case constructor_path tpath c of
        Inl e \<Rightarrow> (Some (CommitConstructor e), r)
      | Inr None \<Rightarrow> unload_constructors pa ch tpath cs r
      | Inr (Some path) \<Rightarrow>
          (case unload_plugin pa ch (PluginPath_new (pa_tok pa) path) r of
             (Some e, r) \<Rightarrow> (Some e, r)
           | (None, r) \<Rightarrow> unload_constructors pa ch tpath cs r))"

definition ManagedClass_unload ::
  "Paths \<Rightarrow> (('t, 'v) managed_plugin \<Rightarrow> bool) \<Rightarrow> ('t tinfo \<Rightarrow> string) \<Rightarrow> (nat \<Rightarrow> ('t, 'v) ClassImpl) \<Rightarrow> string \<Rightarrow>
   ('t, 'v) managed_plugin Registry \<Rightarrow> commit_error option \<times> ('t, 'v) managed_plugin Registry" where
  "ManagedClass_unload pa ch tpath classes classPath r =
     (case PluginPath_join (pa_tok pa) ''/managed'' classPath of
        Inl e \<Rightarrow> (Some (CommitPath e), r)
      | Inr path \<Rightarrow>
          (case PluginRegistry_get (pa_tokNonEmpty pa) path r of
             (Inl e, r) \<Rightarrow> (Some (CommitRegistry e), r)
           | (Inr p, r) \<Rightarrow>
               (case pl_object p of
                  ConstructorPlugin _ \<Rightarrow> (Some CommitClass, r)
                | ClassPlugin a \<Rightarrow>
                    (case unload_constructors pa ch tpath (mc_constructors (classes a)) r of
                       (Some e, r) \<Rightarrow> (Some e, r)
                     | (None, r) \<Rightarrow> unload_plugin pa ch (Inr path) r))))"

subsection \<open>Registered calls have the type of the class\<close>

datatype ('t, 'v) class_op =
    RefWrapper "('t, 'v) Callable" | PtrWrapper "('t, 'v) Callable" | SharedWrapper "('t, 'v) Callable"
  | ToBase "('t, 'v) Callable" | Constructor "('t, 'v) Callable"
  | StaticMethod string "('t, 'v) Callable" | Method string "('t, 'v) Callable"
  | OpaqueConstructor "('t, 'v) Callable" | OpaqueStaticMethod string "('t, 'v) Callable"
  | WildcardStaticMethod "('t, 'v) Callable" | OpaqueMethod string "('t, 'v) Callable" | WildcardMethod "('t, 'v) Callable"

primrec class_step :: "('t, 'v) class_op \<Rightarrow> ('t, 'v) ClassImpl \<Rightarrow> call_error + ('t, 'v) ClassImpl" where
  "class_step (RefWrapper c) = registerReferenceToWrapper c"
| "class_step (PtrWrapper c) = registerPointerToWrapper c"
| "class_step (SharedWrapper c) = registerSharedToWrapper c"
| "class_step (ToBase c) = registerToBaseClass c"
| "class_step (Constructor c) = registerConstructor c"
| "class_step (StaticMethod name c) = registerStaticMethod name c"
| "class_step (Method name c) = registerMethod name c"
| "class_step (OpaqueConstructor c) = registerOpaqueConstructor c"
| "class_step (OpaqueStaticMethod name c) = registerOpaqueStaticMethod name c"
| "class_step (WildcardStaticMethod c) = registerWildcardStaticMethod c"
| "class_step (OpaqueMethod name c) = registerOpaqueMethod name c"
| "class_step (WildcardMethod c) = registerWildcardMethod c"

text \<open>A call that is rejected leaves the class as it was.\<close>

definition class_run :: "('t, 'v) class_op list \<Rightarrow> ('t, 'v) ClassImpl \<Rightarrow> ('t, 'v) ClassImpl" where
  "class_run = fold (\<lambda>oper cls. case class_step oper cls of Inl _ \<Rightarrow> cls | Inr cls' \<Rightarrow> cls')"

text \<open>What a class of type \<open>t\<close> has: constructors that return \<open>t\<close>, conversions to bases and methods that take it as their first
  argument, and opaque and wildcard calls with their fixed signatures.\<close>

definition method_of :: "'t tinfo \<Rightarrow> ('t, 'v) Callable \<Rightarrow> bool" where
  "method_of t c \<longleftrightarrow> nonnull c \<and> (Callable_getNumArgs c \<noteq> Inr 0 \<longrightarrow> Callable_type c 0 = Inr t)"

definition has_signature :: "('t, 'v) Callable \<Rightarrow> nat \<Rightarrow> nat \<Rightarrow> 't tinfo list \<Rightarrow> bool" where
  "has_signature c numArgs argNo ts \<longleftrightarrow>
     Callable_getNumArgs c = Inr numArgs \<and> (\<forall>i < length ts. Callable_type c (int (argNo + i)) = Inr (ts ! i))"

definition returns :: "'t tinfo \<Rightarrow> ('t, 'v) Callable \<Rightarrow> bool" where
  "returns t c \<longleftrightarrow> Callable_type c (-1) = Inr t"

definition takes :: "'t tinfo \<Rightarrow> ('t, 'v) Callable \<Rightarrow> bool" where
  "takes t c \<longleftrightarrow> Callable_type c 0 = Inr t"

definition unless_null :: "(('t, 'v) Callable \<Rightarrow> bool) \<Rightarrow> ('t, 'v) Callable \<Rightarrow> bool" where
  "unless_null P c \<longleftrightarrow> (nonnull c \<longrightarrow> P c)"

definition opaque_constructor_of :: "'t tinfo \<Rightarrow> ('t, 'v) Callable \<Rightarrow> bool" where
  "opaque_constructor_of t c \<longleftrightarrow> returns t c \<and> has_signature c 2 0 [TObjectPtr, TSize]"

definition opaque_static :: "('t, 'v) Callable \<Rightarrow> bool" where
  "opaque_static c \<longleftrightarrow> returns TObject c \<and> has_signature c 2 0 [TObjectPtr, TSize]"

definition wildcard_static :: "('t, 'v) Callable \<Rightarrow> bool" where
  "wildcard_static c \<longleftrightarrow> returns TObject c \<and> has_signature c 3 0 [TString, TObjectPtr, TSize]"

definition opaque_method_of :: "'t tinfo \<Rightarrow> ('t, 'v) Callable \<Rightarrow> bool" where
  "opaque_method_of t c \<longleftrightarrow> method_of t c \<and> returns TObject c \<and> has_signature c 3 1 [TObjectPtr, TSize]"

definition wildcard_method_of :: "'t tinfo \<Rightarrow> ('t, 'v) Callable \<Rightarrow> bool" where
  "wildcard_method_of t c \<longleftrightarrow> method_of t c \<and> returns TObject c \<and> has_signature c 4 1 [TString, TObjectPtr, TSize]"

definition class_typed :: "'t tinfo \<Rightarrow> ('t, 'v) ClassImpl \<Rightarrow> bool" where
  "class_typed t cls \<longleftrightarrow>
     ManagedClass_type cls = Inr t \<and>
     (\<forall>c \<in> set (mc_constructors cls). returns t c) \<and>
     (\<forall>c \<in> set (mc_baseConverters cls). takes t c) \<and>
     (\<forall>name. \<forall>c \<in> set (named (mc_methods cls) name []). method_of t c) \<and>
     unless_null (opaque_constructor_of t) (mc_opaqueConstructor cls) \<and>
     (\<forall>c \<in> ran (mc_opaqueStaticMethods cls). opaque_static c) \<and>
     unless_null wildcard_static (mc_wildcardStaticMethod cls) \<and>
     (\<forall>c \<in> ran (mc_opaqueMethods cls). opaque_method_of t c) \<and>
     unless_null (wildcard_method_of t) (mc_wildcardMethod cls)"

lemma check_type_Inr:
  "check_type w c k = Inr u \<longleftrightarrow> (nonnull w \<longrightarrow> (\<exists>t. Callable_type c k = Inr t \<and> Callable_type w 0 = Inr t))"
  by (auto simp: check_type_def rbind_Inr_conv)

lemma getNumArgs_nonnull: "Callable_getNumArgs c = Inr n \<Longrightarrow> nonnull c"
  by (auto simp: Callable_getNumArgs_def split: option.splits)

lemma type_nonnull: "Callable_type c k = Inr t \<Longrightarrow> nonnull c"
  by (cases "cl_impl c") (simp_all add: Callable_type_def)

lemma check_method_Inr:
  "check_method w c = Inr u \<Longrightarrow> Callable_type w 0 = Inr t \<Longrightarrow> nonnull w \<Longrightarrow> method_of t c"
  by (auto simp: check_method_def rbind_Inr_conv check_type_Inr method_of_def dest: getNumArgs_nonnull split: if_splits)

lemma check_args_Inr: "check_args c k ts = Inr u \<Longrightarrow> i < length ts \<Longrightarrow> Callable_type c (int (k + i)) = Inr (ts ! i)"
proof (induction c k ts arbitrary: i rule: check_args.induct)
  case (2 c k t ts)
  then show ?case by (cases i) (auto simp: rbind_Inr_conv split: if_splits)
qed simp

lemma check_signature_Inr: "check_signature c n k ts = Inr u \<Longrightarrow> has_signature c n k ts"
  unfolding check_signature_def has_signature_def
  by (auto simp: rbind_Inr_conv dest: check_args_Inr split: if_splits)

lemma class_typed_wrapper: "class_typed t cls \<Longrightarrow> nonnull (mc_referenceToWrapper cls) \<and> Callable_type (mc_referenceToWrapper cls) 0 = Inr t"
  by (auto simp: class_typed_def ManagedClass_type_def wrapper_type_def split: if_splits)

lemma check_returns_object_Inr: "check_returns_object c = Inr u \<Longrightarrow> returns TObject c"
  by (auto simp: check_returns_object_def returns_def rbind_Inr_conv split: if_splits)

lemma check_type_wrapper:
  assumes "class_typed t cls" "check_type (mc_referenceToWrapper cls) c k = Inr u"
  shows "Callable_type c k = Inr t"
  using class_typed_wrapper [OF assms(1)] assms(2) by (auto simp: check_type_Inr)

lemma check_method_wrapper:
  "class_typed t cls \<Longrightarrow> check_method (mc_referenceToWrapper cls) c = Inr u \<Longrightarrow> method_of t c"
  using class_typed_wrapper [of t cls] check_method_Inr by blast

lemma named_append_at: "set (named (append_at name c m) name' []) \<subseteq> insert c (set (named m name' []))"
  by (auto simp: named_def append_at_def split: option.splits)

lemma ran_put: "c \<in> ran (m(k \<mapsto> x)) \<Longrightarrow> c = x \<or> c \<in> ran m"
  by (auto simp: ran_def split: if_splits)

lemmas register_defs = registerReferenceToWrapper_def registerPointerToWrapper_def registerSharedToWrapper_def registerToBaseClass_def
  registerConstructor_def registerStaticMethod_def registerMethod_def registerOpaqueConstructor_def registerOpaqueStaticMethod_def
  registerWildcardStaticMethod_def registerOpaqueMethod_def registerWildcardMethod_def

lemmas check_dests = check_type_wrapper check_method_wrapper check_signature_Inr check_returns_object_Inr

lemma class_typed_fields:
  "class_typed t cls \<Longrightarrow> returns t c \<Longrightarrow> class_typed t (cls\<lparr>mc_constructors := mc_constructors cls @ [c]\<rparr>)"
  "class_typed t cls \<Longrightarrow> takes t c \<Longrightarrow> class_typed t (cls\<lparr>mc_baseConverters := mc_baseConverters cls @ [c]\<rparr>)"
  "class_typed t cls \<Longrightarrow> method_of t c \<Longrightarrow> class_typed t (cls\<lparr>mc_methods := append_at name c (mc_methods cls)\<rparr>)"
  "class_typed t cls \<Longrightarrow> opaque_constructor_of t c \<Longrightarrow> class_typed t (cls\<lparr>mc_opaqueConstructor := c\<rparr>)"
  "class_typed t cls \<Longrightarrow> opaque_static c \<Longrightarrow> class_typed t (cls\<lparr>mc_opaqueStaticMethods := (mc_opaqueStaticMethods cls)(name \<mapsto> c)\<rparr>)"
  "class_typed t cls \<Longrightarrow> wildcard_static c \<Longrightarrow> class_typed t (cls\<lparr>mc_wildcardStaticMethod := c\<rparr>)"
  "class_typed t cls \<Longrightarrow> opaque_method_of t c \<Longrightarrow> class_typed t (cls\<lparr>mc_opaqueMethods := (mc_opaqueMethods cls)(name \<mapsto> c)\<rparr>)"
  "class_typed t cls \<Longrightarrow> wildcard_method_of t c \<Longrightarrow> class_typed t (cls\<lparr>mc_wildcardMethod := c\<rparr>)"
  "class_typed t cls \<Longrightarrow> class_typed t (cls\<lparr>mc_staticMethods := sm\<rparr>)"
  "class_typed t cls \<Longrightarrow> class_typed t (cls\<lparr>mc_pointerToWrapper := p\<rparr>)"
  "class_typed t cls \<Longrightarrow> class_typed t (cls\<lparr>mc_sharedToWrapper := p\<rparr>)"
  "class_typed t cls \<Longrightarrow> takes t c \<Longrightarrow> class_typed t (cls\<lparr>mc_referenceToWrapper := c\<rparr>)"
  by (auto simp: class_typed_def ManagedClass_type_def wrapper_type_def unless_null_def takes_def
      dest: ran_put named_append_at [THEN subsetD] type_nonnull)

lemma class_step_typed:
  assumes "class_typed t cls" "class_step oper cls = Inr cls'"
  shows "class_typed t cls'"
  using assms
  by (cases oper)
     (auto simp: register_defs rbind_Inr_conv returns_def takes_def opaque_constructor_of_def opaque_static_def wildcard_static_def
        opaque_method_of_def wildcard_method_of_def intro!: class_typed_fields dest: check_dests [unfolded returns_def])

text \<open>
  C21. In a class that begins with its wrapper, whatever is registered afterwards and whatever of it is rejected, every constructor
  returns the type of the class, every method and conversion to a base class takes it, and the opaque and wildcard calls have
  the signatures with which they are called.
\<close>

theorem registered_calls_have_class_type:
  assumes "wrapper_type w = Inr t"
  shows "class_typed t (class_run (RefWrapper w # opers) ManagedClass_new)"
proof -
  have "class_typed t (ManagedClass_new\<lparr>mc_referenceToWrapper := w\<rparr>)"
    using assms by (simp add: class_typed_def ManagedClass_type_def ManagedClass_new_def Callable_null_def named_def unless_null_def)
  moreover have "class_typed t cls \<Longrightarrow> class_typed t (class_run opers cls)" for cls
    unfolding class_run_def
    by (induction opers arbitrary: cls) (auto dest: class_step_typed split: sum.splits)
  ultimately show ?thesis
    by (simp add: class_run_def registerReferenceToWrapper_def check_type_def ManagedClass_new_def Callable_null_def)
qed

definition demo_fun :: "nat tinfo list \<Rightarrow> nat tinfo \<Rightarrow> int \<Rightarrow> (nat, int) Callable" where
  "demo_fun params ret k = Callable_of \<lparr>ci_params = params, ci_return = ret,
     ci_call = (\<lambda>args. case (args, ret) of (OVal _ x # _, T r) \<Rightarrow> Inr (OVal r (x + k)) | _ \<Rightarrow> Inl ObjectConvertError)\<rparr>"

theorem registered_calls_have_class_type_witness:
  "class_typed (T 1) (class_run [RefWrapper (demo_fun [T 1] (T 1) 0), Method ''f'' (demo_fun [T 1, T 2] (T 2) 5),
     Method ''g'' (demo_fun [T 3] (T 2) 0)] ManagedClass_new)"
  by (rule registered_calls_have_class_type)
     (simp add: wrapper_type_def demo_fun_def Callable_of_def Callable_type_def Callable_getNumArgs_def)

subsection \<open>Dispatch\<close>

text \<open>Whether a call matches: as many arguments, each convertible to the type of its parameter.\<close>

definition fits :: "('t, 'v) ManagedRuntime \<Rightarrow> ('t, 'v) DynObject list \<Rightarrow> ('t, 'v) Callable \<Rightarrow> bool" where
  "fits rt argObjs c \<longleftrightarrow>
     Callable_getNumArgs c = Inr (length argObjs) \<and>
     (\<forall>i < length argObjs. \<exists>t. Callable_type c (int i) = Inr t \<and> rt_canConvert rt (argObjs ! i) t)"

lemma type_defined: "Callable_getNumArgs c = Inr n \<Longrightarrow> i < n \<Longrightarrow> \<exists>t. Callable_type c (int i) = Inr t"
  using getNumArgs_nonnull [of c n] by (auto simp: Callable_type_def)

lemma args_match_spec:
  assumes "Callable_getNumArgs c = Inr (a + length xs)"
  shows "args_match rt c a xs =
    Inr (\<forall>i < length xs. \<exists>t. Callable_type c (int (a + i)) = Inr t \<and> rt_canConvert rt (xs ! i) t)"
  using assms
proof (induction xs arbitrary: a)
  case (Cons x xs)
  obtain t where t: "Callable_type c (int a) = Inr t" using type_defined [OF Cons.prems, of a] by auto
  have split: "(\<forall>i < length (x # xs). P i) \<longleftrightarrow> P 0 \<and> (\<forall>i < length xs. P (Suc i))" for P
    by (auto simp: less_Suc_eq_0_disj)
  show ?case using Cons.IH [of "a + 1"] Cons.prems t unfolding split by simp
qed simp

lemma call_matches_spec: "nonnull c \<Longrightarrow> call_matches rt argObjs c = Inr (fits rt argObjs c)"
proof -
  assume "nonnull c"
  then obtain n where n: "Callable_getNumArgs c = Inr n" by (auto simp: Callable_getNumArgs_def)
  then show ?thesis using args_match_spec [of c 0 argObjs rt] by (auto simp: call_matches_def fits_def)
qed

lemma find_call_spec:
  assumes "\<forall>c \<in> set calls. nonnull c"
  shows "find_call rt argObjs calls call =
    Inr (case filter (fits rt argObjs) calls of [] \<Rightarrow> call | cs \<Rightarrow> last cs)"
  using assms
proof (induction calls arbitrary: call)
  case (Cons c cs)
  then show ?case by (auto simp: call_matches_spec split: list.splits)
qed simp

lemma typed_methods_nonnull: "class_typed t cls \<Longrightarrow> c \<in> set (calls_of cls MethodCall name) \<Longrightarrow> nonnull c"
  unfolding class_typed_def calls_of_def by (auto simp: method_of_def)

lemma find_call_typed:
  "class_typed t cls \<Longrightarrow> find_call rt argObjs (calls_of cls MethodCall name) call =
    Inr (case filter (fits rt argObjs) (calls_of cls MethodCall name) of [] \<Rightarrow> call | cs \<Rightarrow> last cs)"
  by (rule find_call_spec) (blast dest: typed_methods_nonnull)

lemma handle_args_Inr [simp]: "handle_args (map Inr xs) = Inr xs"
  by (induction xs) auto

lemma handle_args_cases:
  "handle_args args = (if \<exists>e. Inl e \<in> set args then Inl ProxyHandleCallError else Inr (map projr args))"
  by (induction args rule: handle_args.induct) auto

lemma try_bases_first:
  "try_bases f bs = (case filter (\<lambda>r. r \<noteq> Inl ProxyHandleCallError) (map f bs) of [] \<Rightarrow> None | r # _ \<Rightarrow> Some r)"
  by (induction bs) (auto split: sum.splits call_error.splits)

text \<open>
  C22. Which method a call on an object runs, the object being held by value or by a pointer that converts to the class. Among the
  methods of the name, it is the last one that was registered with as many parameters as there are arguments, the object included,
  and with types that the arguments convert to. It is not the best match that the comment in the source announces: the loop goes
  on after a match, so an earlier method that takes the very types of the arguments gives way to a later one that they convert to.
  Without a match it is the opaque method of the name, then the wildcard method. When none of them exists, and whenever the class
  has a wildcard method, the base classes are asked before, in the order of their registration, and the first one that does not
  fail to find a call determines the result, also when the result is another exception. What a method throws becomes a message. An
  argument that cannot be handled ends the call.
\<close>

theorem method_call_dispatch:
  assumes "class_of_handle rt obj = Inr cls" "class_typed t cls" "Object_type obj \<noteq> TClass" "instance_arg rt cls obj = Inr self"
  shows "ManagedProxyHandle_call (Suc n) rt obj name args =
    (if \<exists>e. Inl e \<in> set args then Inl ProxyHandleCallError
     else
       let xs = map projr args;
           matches = filter (fits rt (self # xs)) (named (mc_methods cls) name []);
           opaque = named (mc_opaqueMethods cls) name Callable_null;
           wildcard = mc_wildcardMethod cls;
           own = (if matches \<noteq> [] then as_message (rt_call rt (last matches) (self # xs))
                  else if nonnull opaque
                  then as_message (rbind (rt_call rt opaque [self, OArgs xs, OSize (length xs)]) (unwrap_result MethodCall))
                  else if nonnull wildcard
                  then as_message (rbind (rt_call rt wildcard [self, OString name, OArgs xs, OSize (length xs)]) (unwrap_result MethodCall))
                  else Inl ProxyHandleCallError);
           inherited = filter (\<lambda>r. r \<noteq> Inl ProxyHandleCallError)
             (map (\<lambda>toBase. rbind (rt_call rt toBase [self]) (\<lambda>b. ManagedProxyHandle_call n rt b name (map Inr xs))) (mc_baseConverters cls))
       in if nonnull wildcard \<or> matches = [] \<and> \<not> nonnull opaque
          then (case inherited of [] \<Rightarrow> own | r # _ \<Rightarrow> r)
          else own)"
proof (cases "\<exists>e. Inl e \<in> set args")
  case True
  then show ?thesis using assms(1,3,4) by (simp add: kind_of_call_def handle_args_cases)
next
  case False
  let ?xs = "map projr args"
  let ?all = "calls_of cls MethodCall name" and ?fit = "fits rt (self # ?xs)"
  have kind: "kind_of_call obj name = MethodCall" using assms(3) by (simp add: kind_of_call_def)
  have calls: "?all = named (mc_methods cls) name []" by (simp add: calls_of_def)
  have found: "find_call rt (self # ?xs) ?all Callable_null = Inr (case filter ?fit ?all of [] \<Rightarrow> Callable_null | cs \<Rightarrow> last cs)"
    by (rule find_call_typed [OF assms(2)])
  have match: "nonnull (last (filter ?fit ?all))" if "filter ?fit ?all \<noteq> []"
    using typed_methods_nonnull [OF assms(2)] last_in_set [OF that] by (metis filter_is_subset subsetD)
  have null: "\<not> nonnull (Callable_null :: ('a, 'b) Callable)" by (simp add: Callable_null_def)
  have args: "handle_args args = Inr ?xs" using False by (simp add: handle_args_cases)
  show ?thesis
  proof (cases "filter ?fit ?all = []")
    case True
    then have "find_call rt (self # ?xs) ?all Callable_null = Inr Callable_null" using found by simp
    then show ?thesis
      using False assms(1,4) kind args True null
      by (cases "cl_impl (named (mc_opaqueMethods cls) name Callable_null)"; cases "cl_impl (mc_wildcardMethod cls)")
        (simp_all add: calls wildcard_of_def opaque_of_def select_call_def opaque_args_def try_bases_first Let_def split: list.split)
  next
    case nonempty: False
    then have "find_call rt (self # ?xs) ?all Callable_null = Inr (last (filter ?fit ?all))"
      using found by (cases "filter ?fit ?all") auto
    moreover obtain y where impl: "cl_impl (last (filter ?fit ?all)) = Some y" using match [OF nonempty] by auto
    ultimately show ?thesis
      using False assms(1,4) kind args nonempty impl
      by (cases "cl_impl (mc_wildcardMethod cls)")
        (simp_all add: calls wildcard_of_def opaque_of_def select_call_def try_bases_first Let_def split: list.split)
  qed
qed

text \<open>A runtime with one class of values of type 1, with two methods of one name.\<close>

definition demo_class :: "(nat, int) ClassImpl" where
  "demo_class = class_run [RefWrapper (demo_fun [T 1] (T 1) 0), Method ''f'' (demo_fun [T 1, T 2] (T 2) 5),
     Method ''f'' (demo_fun [T 1, T 2] (T 2) 7)] ManagedClass_new"

definition demo_runtime :: "(nat, int) ManagedRuntime" where
  "demo_runtime = \<lparr>rt_depth = 1, rt_hash = demo_hash, rt_converters = Converters_new, rt_classes = (\<lambda>_. demo_class),
     rt_classMap = [1 \<mapsto> Some 0]\<rparr>"

lemmas demo_call_defs = demo_class_def class_run_def register_defs check_type_def check_method_def demo_fun_def Callable_of_def
  Callable_type_def Callable_getNumArgs_def ManagedClass_new_def Callable_null_def append_at_def named_def

theorem method_call_dispatch_witness:
  "ManagedProxyHandle_call 1 demo_runtime (OVal 1 10) ''f'' [Inr (OVal 2 0)] = Inr (OVal 2 17)"
proof -
  have cls: "class_of_handle demo_runtime (OVal 1 10) = Inr demo_class"
    by (simp add: class_of_handle_def ManagedClass_lookup_def demo_runtime_def demo_hash_def)
  have typed: "class_typed (T 1) demo_class"
    unfolding demo_class_def by (rule registered_calls_have_class_type)
      (simp add: wrapper_type_def demo_fun_def Callable_of_def Callable_type_def Callable_getNumArgs_def)
  have methods: "named (mc_methods demo_class) ''f'' [] = [demo_fun [T 1, T 2] (T 2) 5, demo_fun [T 1, T 2] (T 2) 7]"
    by (simp add: demo_call_defs)
  have fit: "fits demo_runtime [OVal 1 10, OVal 2 0] (demo_fun [T 1, T 2] (T 2) k)" for k
    by (auto simp: fits_def demo_fun_def Callable_of_def Callable_getNumArgs_def Callable_type_def Object_canConvert_def canConvert_types_def less_Suc_eq)
  have matches: "filter (fits demo_runtime [OVal 1 10, OVal 2 0]) (named (mc_methods demo_class) ''f'' []) =
      [demo_fun [T 1, T 2] (T 2) 5, demo_fun [T 1, T 2] (T 2) 7]" unfolding methods using fit [of 5] fit [of 7] by simp
  have "instance_arg demo_runtime demo_class (OVal 1 10) = Inr (OVal 1 10)" using typed by (simp add: instance_arg_def class_typed_def)
  moreover have "\<not> nonnull (mc_wildcardMethod demo_class)" by (simp add: demo_call_defs)
  ultimately have "ManagedProxyHandle_call (Suc 0) demo_runtime (OVal 1 10) ''f'' [Inr (OVal 2 0)] =
      as_message (rt_call demo_runtime (demo_fun [T 1, T 2] (T 2) 7) [OVal 1 10, OVal 2 0])"
    using method_call_dispatch [OF cls typed, of "OVal 1 10" 0 "''f''" "[Inr (OVal 2 0)]"] matches
    by (simp add: Let_def del: ManagedProxyHandle_call.simps)
  then show ?thesis
    by (simp add: as_message_def Callable_opaqueCall_def demo_fun_def Callable_of_def demo_runtime_def is_bound_def)
qed

text \<open>
  A method that the class does not have is looked for in its base classes, in the order of their registration: the first one that
  knows the call determines the result, also when the result is another exception.
\<close>

theorem inherited_method_call:
  assumes "class_of_handle rt obj = Inr cls" "class_typed t cls" "Object_type obj = t" "t \<noteq> TClass"
    and "\<not> nonnull (opaque_of cls MethodCall name)" "\<not> nonnull (mc_wildcardMethod cls)"
    and "filter (fits rt (obj # xs)) (named (mc_methods cls) name []) = []"
    and "mc_baseConverters cls = bs @ toBase # bs'"
    and "\<forall>b \<in> set bs. \<exists>y. rt_call rt b [obj] = Inr y \<and> ManagedProxyHandle_call n rt y name (map Inr xs) = Inl ProxyHandleCallError"
    and "rt_call rt toBase [obj] = Inr x" "ManagedProxyHandle_call n rt x name (map Inr xs) \<noteq> Inl ProxyHandleCallError"
  shows "ManagedProxyHandle_call (Suc n) rt obj name (map Inr xs) = ManagedProxyHandle_call n rt x name (map Inr xs)"
proof -
  have kind: "kind_of_call obj name = MethodCall" using assms(3,4) by (simp add: kind_of_call_def)
  have inst: "instance_arg rt cls obj = Inr obj" using assms(2,3) by (simp add: instance_arg_def class_typed_def)
  have "find_call rt (obj # xs) (calls_of cls MethodCall name) Callable_null = Inr Callable_null"
    using find_call_typed [OF assms(2), of rt "obj # xs" name] assms(7) by (simp add: calls_of_def)
  moreover have "try_bases (\<lambda>b. rbind (rt_call rt b [obj]) (\<lambda>y. ManagedProxyHandle_call n rt y name (map Inr xs))) (bs @ toBase # bs') =
      Some (ManagedProxyHandle_call n rt x name (map Inr xs))"
    using assms(9)
  proof (induction bs)
    case Nil
    then show ?case using assms(10,11) by (auto split: sum.splits call_error.splits)
  qed auto
  ultimately show ?thesis
    using kind assms(1,5,6,8) inst by (simp add: wildcard_of_def select_call_def Callable_null_def Let_def)
qed

text \<open>The height of a type in a class hierarchy: conversions to base classes lead to lower types.\<close>

definition hierarchy :: "('t, 'v) ManagedRuntime \<Rightarrow> ('t tinfo \<Rightarrow> nat) \<Rightarrow> bool" where
  "hierarchy rt height \<longleftrightarrow>
     (\<forall>obj cls. Object_type obj \<noteq> TClass \<and> class_of_handle rt obj = Inr cls \<longrightarrow>
        (\<forall>toBase \<in> set (mc_baseConverters cls). \<forall>x y. rt_call rt toBase [x] = Inr y \<longrightarrow> height (Object_type y) < height (Object_type obj)))"

lemma try_bases_cong: "(\<And>b. b \<in> set bs \<Longrightarrow> f b = g b) \<Longrightarrow> try_bases f bs = try_bases g bs"
proof (induction bs)
  case (Cons b bs)
  have "try_bases f bs = try_bases g bs" using Cons by simp
  then show ?case using Cons.prems [of b] by (simp split: sum.split call_error.split)
qed simp

text \<open>
  C19. A call through a handle ends: with a hierarchy of classes in which the conversions to base classes go down, every depth above
  the height of the object's type gives the same result, so the recursion over base classes is never cut off.
\<close>

theorem call_depth_suffices:
  assumes "hierarchy rt height" "height (Object_type obj) < n"
  shows "ManagedProxyHandle_call (n + k) rt obj name args = ManagedProxyHandle_call n rt obj name args"
  using assms(2)
proof (induction n arbitrary: obj args)
  case (Suc n)
  have rec: "rbind (rt_call rt b [x]) (\<lambda>y. ManagedProxyHandle_call (n + k) rt y name as) =
      rbind (rt_call rt b [x]) (\<lambda>y. ManagedProxyHandle_call n rt y name as)"
    if "Object_type obj \<noteq> TClass" "class_of_handle rt obj = Inr cls" "b \<in> set (mc_baseConverters cls)" for cls b x as
  proof (cases "rt_call rt b [x]")
    case (Inr y)
    then have "height (Object_type y) < height (Object_type obj)" using assms(1) that unfolding hierarchy_def by blast
    then have "height (Object_type y) < n" using Suc.prems by simp
    then show ?thesis using Suc.IH Inr by simp
  qed simp
  have bases: "try_bases (\<lambda>b. rbind (rt_call rt b [x]) (\<lambda>y. ManagedProxyHandle_call (n + k) rt y name as)) (mc_baseConverters cls) =
      try_bases (\<lambda>b. rbind (rt_call rt b [x]) (\<lambda>y. ManagedProxyHandle_call n rt y name as)) (mc_baseConverters cls)"
    if "Object_type obj \<noteq> TClass" "class_of_handle rt obj = Inr cls" for cls x as
    by (rule try_bases_cong) (rule rec [OF that])
  show ?case
  proof (cases "class_of_handle rt obj")
    case (Inl e)
    then show ?thesis by simp
  next
    case (Inr cls)
    show ?thesis
    proof (cases "Object_type obj = TClass")
      case True
      then have "kind_of_call obj name \<noteq> MethodCall" by (simp add: kind_of_call_def)
      then show ?thesis by simp
    next
      case False
      show ?thesis unfolding add_Suc ManagedProxyHandle_call.simps Inr Let_def rbind_simps bases [OF False Inr] by (rule refl)
    qed
  qed
qed simp

text \<open>A derived class of type 2 without methods of its own, whose values convert to the class above.\<close>

definition demo_derived :: "(nat, int) ClassImpl" where
  "demo_derived = class_run [RefWrapper (demo_fun [T 2] (T 2) 0), ToBase (demo_fun [T 2] (T 1) 0)] ManagedClass_new"

definition demo_runtime2 :: "(nat, int) ManagedRuntime" where
  "demo_runtime2 = demo_runtime\<lparr>rt_classes := (\<lambda>a. if a = 0 then demo_class else demo_derived),
     rt_classMap := [1 \<mapsto> Some 0, 2 \<mapsto> Some 1]\<rparr>"

definition demo_height :: "nat tinfo \<Rightarrow> nat" where
  "demo_height t = (if demo_hash t = 2 then 2 else 1)"

lemma demo_derived_bases: "mc_baseConverters demo_derived = [demo_fun [T 2] (T 1) 0]" "mc_baseConverters demo_class = []"
  by (simp_all add: demo_derived_def demo_call_defs)

lemma demo_to_base: "rt_call rt (demo_fun [T 2] (T 1) 0) [x] = Inr y \<Longrightarrow> Object_type y = T 1"
proof -
  let ?f = "\<lambda>args :: (nat, int) DynObject list. case (args, T 1) of (OVal _ x # _, T r) \<Rightarrow> Inr (OVal r (x + 0)) | _ \<Rightarrow> Inl ObjectConvertError"
  assume "rt_call rt (demo_fun [T 2] (T 1) 0) [x] = Inr y"
  then obtain args where "?f args = Inr y"
    unfolding Callable_opaqueCall_def demo_fun_def Callable_of_def by (auto simp: rbind_Inr_conv simp del: callArgs.simps)
  then show ?thesis by (cases args; cases "hd args") auto
qed

lemma demo_hierarchy: "hierarchy demo_runtime2 demo_height"
  unfolding hierarchy_def
proof (intro allI impI ballI)
  fix obj cls toBase x y
  assume a: "Object_type obj \<noteq> TClass \<and> class_of_handle demo_runtime2 obj = Inr cls" "toBase \<in> set (mc_baseConverters cls)"
    "rt_call demo_runtime2 toBase [x] = Inr y"
  have "ManagedClass_lookup demo_runtime2 (Object_type obj) = Inr cls"
    using a(1) by (cases obj) (simp_all add: class_of_handle_def)
  then have "demo_hash (Object_type obj) = 2 \<and> cls = demo_derived \<or> cls = demo_class"
    by (auto simp: ManagedClass_lookup_def demo_runtime2_def demo_runtime_def split: option.splits if_splits)
  then have "demo_hash (Object_type obj) = 2" "toBase = demo_fun [T 2] (T 1) 0" using a(2) by (auto simp: demo_derived_bases)
  then show "demo_height (Object_type y) < demo_height (Object_type obj)"
    using demo_to_base [of demo_runtime2 x y] a(3) by (simp add: demo_height_def demo_hash_def)
qed

theorem call_depth_suffices_witness:
  "ManagedProxyHandle_call 100 demo_runtime2 (OVal 2 10) ''f'' [Inr (OVal 2 0)] =
   ManagedProxyHandle_call 3 demo_runtime2 (OVal 2 10) ''f'' [Inr (OVal 2 0)]"
  using call_depth_suffices [OF demo_hierarchy, of "OVal 2 10" 3 97 "''f''" "[Inr (OVal 2 0)]"] by (simp add: demo_height_def)

theorem inherited_method_call_witness:
  "ManagedProxyHandle_call 2 demo_runtime2 (OVal 2 10) ''f'' [Inr (OVal 2 0)] =
   ManagedProxyHandle_call 1 demo_runtime2 (OVal 1 10) ''f'' [Inr (OVal 2 0)] \<and>
   ManagedProxyHandle_call 1 demo_runtime2 (OVal 1 10) ''f'' [Inr (OVal 2 0)] \<noteq> Inl ProxyHandleCallError"
proof -
  have cls: "class_of_handle demo_runtime2 (OVal 2 10) = Inr demo_derived" "class_of_handle demo_runtime2 (OVal 1 10) = Inr demo_class"
    by (simp_all add: class_of_handle_def ManagedClass_lookup_def demo_runtime2_def demo_runtime_def demo_hash_def)
  have typed: "class_typed (T 2) demo_derived"
    unfolding demo_derived_def by (rule registered_calls_have_class_type)
      (simp add: wrapper_type_def demo_fun_def Callable_of_def Callable_type_def Callable_getNumArgs_def)
  have base: "rt_call demo_runtime2 (demo_fun [T 2] (T 1) 0) [OVal 2 10] = Inr (OVal 1 10)"
    by (simp add: Callable_opaqueCall_def demo_fun_def Callable_of_def demo_runtime2_def demo_runtime_def is_bound_def)
  have result: "ManagedProxyHandle_call (Suc 0) demo_runtime2 (OVal 1 10) ''f'' [Inr (OVal 2 0)] \<noteq> Inl ProxyHandleCallError"
    using cls(2) by (auto simp: kind_of_call_def calls_of_def opaque_of_def wildcard_of_def instance_arg_def ManagedClass_type_def wrapper_type_def
      call_matches_def select_call_def Object_canConvert_def canConvert_types_def as_message_def demo_call_defs Let_def split: sum.splits)
  have "ManagedProxyHandle_call (Suc (Suc 0)) demo_runtime2 (OVal 2 10) ''f'' (map Inr [OVal 2 0]) =
      ManagedProxyHandle_call (Suc 0) demo_runtime2 (OVal 1 10) ''f'' (map Inr [OVal 2 0])"
    by (rule inherited_method_call [OF cls(1) typed, where bs = "[]" and bs' = "[]" and toBase = "demo_fun [T 2] (T 1) 0"])
       (use base result in \<open>simp_all add: demo_derived_bases opaque_of_def del: ManagedProxyHandle_call.simps,
          simp_all add: demo_derived_def demo_call_defs\<close>)
  then show ?thesis using result by (simp add: numeral_2_eq_2 del: ManagedProxyHandle_call.simps)
qed

end
