(* ===== verification/BlockDescriptions.thy ===== *)
theory BlockDescriptions
  imports PluginRegistry CppStrings "HOL-Library.Sublist"
begin

section \<open>Descriptions of blocks in source comments\<close>

text \<open>
  \<open>lib/Util/BlockDescription.cpp\<close>: comments are extracted from a source file, and those with a \<open>|PothosDoc\<close> line become
  descriptions of blocks.

  \<^item> A description is a record; a key that is missing in the JSON object is \<open>None\<close> or the empty list. Only values that the
    JSON library parses have the type parameter \<open>'j\<close>; text that it does not parse is kept as text.
  \<^item> The functions of the Poco and JSON libraries are the fields of \<open>Library\<close>.
  \<^item> The regular expressions are functions: each returns the fields of the match that the backtracking search finds first, with
    greedy repetitions. A dot does not match the ends of lines.
\<close>

record 'j Library =
  lib_trim :: "string \<Rightarrow> string"
  lib_trimLeft :: "string \<Rightarrow> string"
  lib_toUpper :: "string \<Rightarrow> string"
  lib_tokensEq :: "string \<Rightarrow> string list"
  lib_tokensBlank :: "string \<Rightarrow> string list"
  lib_tokensSlash :: "string \<Rightarrow> string list"
  lib_replace :: "string \<Rightarrow> string \<Rightarrow> string \<Rightarrow> string"
  lib_parse :: "string \<Rightarrow> 'j option"

record CodeLine =
  cd_text :: string
  cd_lineNo :: nat

datatype syntax_error =
    BracketMismatch string
  | SyntaxAt string CodeLine
  | SyntaxIn CodeLine syntax_error
  | MissingFactory

datatype 'j jvalue = JText string | JParsed 'j

subsection \<open>Arguments\<close>

definition titleCase :: "'j Library \<Rightarrow> string \<Rightarrow> string" where
  "titleCase lib input = (if input = [] then input else lib_toUpper lib (take 1 input) @ drop 1 input)"

definition bracket_depth :: "char \<Rightarrow> int \<Rightarrow> int" where
  "bracket_depth ch depth =
     (if ch \<in> {CHR ''{'', CHR ''['', CHR ''(''} then depth + 1 else if ch \<in> {CHR ''}'', CHR '']'', CHR '')''} then depth - 1 else depth)"

text \<open>The loop of \<open>splitCommaArgs\<close>: the finished arguments, the last one, and the depth of brackets.\<close>

fun split_args :: "string \<Rightarrow> string list \<Rightarrow> string \<Rightarrow> int \<Rightarrow> (string list \<times> string) option" where
  "split_args [] args back depth = Some (args, back)"
| "split_args (ch # s) args back depth =
     (if bracket_depth ch depth < 0 then None
      else if ch = CHR '','' \<and> bracket_depth ch depth = 0 then split_args s (args @ [back]) [] (bracket_depth ch depth)
      else split_args s args (back @ [ch]) (bracket_depth ch depth))"

definition splitCommaArgs :: "'j Library \<Rightarrow> string \<Rightarrow> syntax_error + string list" where
  "splitCommaArgs lib argsStr =
     (case split_args argsStr [] [] 0 of
        None \<Rightarrow> Inl (BracketMismatch argsStr)
      | Some (args, back) \<Rightarrow> Inr (map (lib_trim lib) (if back = [] then args else args @ [back])))"

definition exprToJSON :: "'j Library \<Rightarrow> string \<Rightarrow> 'j jvalue" where
  "exprToJSON lib expr = (case lib_parse lib expr of None \<Rightarrow> JText expr | Some j \<Rightarrow> JParsed j)"

fun extract_each :: "'j Library \<Rightarrow> string list \<Rightarrow> 'j jvalue list \<Rightarrow> (string \<times> 'j jvalue) list \<Rightarrow> 'j jvalue list \<times> (string \<times> 'j jvalue) list" where
  "extract_each lib [] args kwargs = (args, kwargs)"
| "extract_each lib (a # as) args kwargs =
     (case lib_tokensEq lib a of
        [k, v] \<Rightarrow> extract_each lib as args (map_put k (exprToJSON lib v) kwargs)
      | _ \<Rightarrow> extract_each lib as (args @ [exprToJSON lib a]) kwargs)"

definition extractArgs :: "'j Library \<Rightarrow> string \<Rightarrow> syntax_error + 'j jvalue list \<times> (string \<times> 'j jvalue) list" where
  "extractArgs lib argsStr = rbind (splitCommaArgs lib argsStr) (\<lambda>as. Inr (extract_each lib as [] []))"

definition loadArgs :: "'j Library \<Rightarrow> CodeLine \<Rightarrow> string \<Rightarrow> syntax_error + 'j jvalue list \<times> (string \<times> 'j jvalue) list" where
  "loadArgs lib codeLine argsStr = map_sum (SyntaxIn codeLine) id (extractArgs lib argsStr)"

definition backslash :: string where
  "backslash = [CHR 0x5C]"

definition bracketEscapeEncode :: "'j Library \<Rightarrow> string \<Rightarrow> string" where
  "bracketEscapeEncode lib payload =
     lib_replace lib (backslash @ '']'') (backslash @ ''x5d'') (lib_replace lib (backslash @ ''['') (backslash @ ''x5b'') payload)"

definition bracketEscapeDecode :: "'j Library \<Rightarrow> string \<Rightarrow> string" where
  "bracketEscapeDecode lib payload = lib_replace lib (backslash @ ''x5d'') '']'' (lib_replace lib (backslash @ ''x5b'') ''['' payload)"

subsection \<open>Blocks of comments\<close>

text \<open>\<open>find\<close> of two characters.\<close>

fun find_two :: "char \<Rightarrow> char \<Rightarrow> string \<Rightarrow> nat option" where
  "find_two a b (x # y # s) = (if x = a \<and> y = b then Some 0 else map_option Suc (find_two a b (y # s)))"
| "find_two a b _ = None"

definition openMulti :: "string \<Rightarrow> nat option" where
  "openMulti line = find_two (CHR ''/'') (CHR ''*'') line"

definition closeMulti :: "string \<Rightarrow> nat option" where
  "closeMulti line = find_two (CHR ''*'') (CHR ''/'') line"

lemma find_two_less: "find_two a b s = Some i \<Longrightarrow> i + 2 \<le> length s"
  by (induction a b s arbitrary: i rule: find_two.induct) (auto split: if_splits)

record Extract =
  ex_inMulti :: bool
  ex_current :: "CodeLine list"
  ex_blocks :: "CodeLine list list"

definition push_line :: "string \<Rightarrow> nat \<Rightarrow> Extract \<Rightarrow> Extract" where
  "push_line text lineNo s = s\<lparr>ex_current := ex_current s @ [\<lparr>cd_text = text, cd_lineNo = lineNo\<rparr>]\<rparr>"

definition end_block :: "Extract \<Rightarrow> Extract" where
  "end_block s = (if ex_current s = [] then s else s\<lparr>ex_blocks := ex_blocks s @ [ex_current s], ex_current := []\<rparr>)"

text \<open>One line, and what is left of it for the next round.\<close>

definition extract_line :: "'j Library \<Rightarrow> string \<Rightarrow> nat \<Rightarrow> Extract \<Rightarrow> Extract \<times> string" where
  "extract_line lib line lineNo s =
     (if line = [] then (s, [])
      else let lineTrim = lib_trimLeft lib line
      in if \<not> ex_inMulti s \<and> length lineTrim \<ge> 2 \<and> take 2 lineTrim = ''//'' then (push_line line lineNo s, [])
         else if \<not> ex_inMulti s \<and> openMulti line \<noteq> None
         then (push_line (drop (the (openMulti line)) line) lineNo (s\<lparr>ex_inMulti := True\<rparr>), [])
         else if ex_inMulti s \<and> closeMulti line \<noteq> None
         then (push_line (take (the (closeMulti line)) line) lineNo (s\<lparr>ex_inMulti := False\<rparr>), drop (the (closeMulti line) + 2) line)
         else if ex_inMulti s then (push_line line lineNo s, [])
         else (end_block s, []))"

lemma extract_line_shorter: "line \<noteq> [] \<Longrightarrow> length (snd (extract_line lib line n s)) < length line"
  using find_two_less [of "CHR ''*''" "CHR ''/''" line] by (auto simp: extract_line_def Let_def closeMulti_def)

text \<open>A carriage return at the end of a line is dropped.\<close>

definition chomp :: "string \<Rightarrow> string" where
  "chomp line = (if line \<noteq> [] \<and> last line = CHR 0x0D then butlast line else line)"

text \<open>The lines are the pieces between newlines; with the last one the stream is at its end.\<close>

function extract_loop :: "'j Library \<Rightarrow> string \<Rightarrow> nat \<Rightarrow> string list \<Rightarrow> Extract \<Rightarrow> Extract" where
  "extract_loop lib partial lineNo [] s = s"
| "extract_loop lib partial lineNo (l # ls) s =
     (if partial \<noteq> [] then case extract_line lib partial lineNo s of (s, partial) \<Rightarrow> extract_loop lib partial lineNo (l # ls) s
      else case extract_line lib (chomp l) (lineNo + 1) s of (s, partial) \<Rightarrow> extract_loop lib partial (lineNo + 1) ls s)"
  by pat_completeness auto
termination
  by (relation "measures [\<lambda>(lib, partial, n, ls, s). length ls, \<lambda>(lib, partial, n, ls, s). length partial]")
     (use extract_line_shorter in \<open>auto dest!: arg_cong [where f = snd]\<close>)

fun split_lines :: "string \<Rightarrow> string list" where
  "split_lines [] = [[]]"
| "split_lines (c # cs) = (if c = CHR 0x0A then [] # split_lines cs else case split_lines cs of [] \<Rightarrow> [[c]] | x # xs \<Rightarrow> (c # x) # xs)"

definition extractContiguousBlocks :: "'j Library \<Rightarrow> string \<Rightarrow> CodeLine list list" where
  "extractContiguousBlocks lib text =
     ex_blocks (end_block (extract_loop lib [] 0 (split_lines text) \<lparr>ex_inMulti = False, ex_current = [], ex_blocks = []\<rparr>))"

subsection \<open>Documentation\<close>

fun strip_each :: "string list \<Rightarrow> string list \<Rightarrow> string list" where
  "strip_each [] out = out"
| "strip_each (line # ls) out =
     (let lastLine = (if out = [] then [] else last out)
      in strip_each ls (if lastLine \<noteq> [] \<or> line \<noteq> [] then out @ [line] else out))"

definition stripDocArray :: "string list \<Rightarrow> string list" where
  "stripDocArray ls = (let out = strip_each ls [] in if out \<noteq> [] \<and> last out = [] then butlast out else out)"

subsection \<open>Regular expressions\<close>

definition re_word :: "char \<Rightarrow> bool" where
  "re_word c \<longleftrightarrow> is_digit c \<or> c = CHR ''_'' \<or> (let code = of_char c :: nat in 65 \<le> code \<and> code \<le> 90 \<or> 97 \<le> code \<and> code \<le> 122)"

definition re_dot :: "char \<Rightarrow> bool" where
  "re_dot c \<longleftrightarrow> c \<noteq> CHR 0x0A \<and> c \<noteq> CHR 0x0D"

definition skip_space :: "string \<Rightarrow> string" where
  "skip_space s = dropWhile is_space s"

definition cut_space :: "string \<Rightarrow> string" where
  "cut_space s = rev (dropWhile is_space (rev s))"

text \<open>\<open>\s*(.*\S)\s*\<close> up to the end.\<close>

definition re_text :: "string \<Rightarrow> string option" where
  "re_text s = (let b = cut_space (skip_space s) in if b \<noteq> [] \<and> list_all re_dot b then Some b else None)"

text \<open>\<open>\s+(.*\S)\s*$\<close>\<close>

definition re_spaced_text :: "string \<Rightarrow> string option" where
  "re_spaced_text s = (if s \<noteq> [] \<and> is_space (hd s) then re_text s else None)"

text \<open>\<open>^\|(\w+)\s+(.*\S)\s*$\<close>\<close>

definition re_instruction :: "string \<Rightarrow> (string \<times> string) option" where
  "re_instruction line =
     (if line = [] \<or> hd line \<noteq> CHR ''|'' then None
      else let w = takeWhile re_word (tl line)
           in if w = [] then None else map_option (Pair w) (re_spaced_text (dropWhile re_word (tl line))))"

text \<open>The last position at which the rest of the text matches.\<close>

definition last_match :: "(nat \<Rightarrow> 'a option) \<Rightarrow> nat \<Rightarrow> 'a option" where
  "last_match f n = (case filter (\<lambda>i. f i \<noteq> None) (rev [0..<n]) of [] \<Rightarrow> None | i # _ \<Rightarrow> f i)"

text \<open>\<open>^(.*)\|PothosDoc\s+(.*\S)\s*$\<close>\<close>

definition re_pothosDoc :: "string \<Rightarrow> (string \<times> string) option" where
  "re_pothosDoc line =
     last_match (\<lambda>i. if list_all re_dot (take i line) \<and> take 10 (drop i line) = ''|PothosDoc''
                     then map_option (Pair (take i line)) (re_spaced_text (drop (i + 10) line)) else None) (length line)"

text \<open>\<open>\[\s*(.*\S)\s*\]\s*(.*)$\<close>, up to the last bracket that can be the closing one.\<close>

definition re_bracketed :: "string \<Rightarrow> (string \<times> string) option" where
  "re_bracketed s =
     (if s = [] \<or> hd s \<noteq> CHR ''['' then None
      else let t = tl s in
        last_match (\<lambda>i. if t ! i = CHR '']'' \<and> list_all re_dot (skip_space (drop (i + 1) t))
                        then map_option (\<lambda>b. (b, skip_space (drop (i + 1) t))) (re_text (take i t)) else None) (length t))"

text \<open>\<open>(\[\s*(.*\S)\s*\])?\s*(.*)$\<close>: the name is empty without brackets.\<close>

definition re_named :: "string \<Rightarrow> (string \<times> string) option" where
  "re_named s =
     (case re_bracketed (skip_space s) of
        Some p \<Rightarrow> Some p
      | None \<Rightarrow> if list_all re_dot (skip_space s) then Some ([], skip_space s) else None)"

text \<open>\<open>^\s*(\w+)\s*(\[\s*(.*\S)\s*\])?\s*(.*)$\<close>\<close>

definition re_param :: "string \<Rightarrow> (string \<times> string \<times> string) option" where
  "re_param payload =
     (let s = skip_space payload; w = takeWhile re_word s
      in if w = [] then None else map_option (Pair w) (re_named (dropWhile re_word s)))"

text \<open>\<open>\s*\((.*)\)$\<close>\<close>

definition re_parens :: "string \<Rightarrow> string option" where
  "re_parens s =
     (let t = skip_space s
      in if 2 \<le> length t \<and> hd t = CHR ''('' \<and> last t = CHR '')'' \<and> list_all re_dot (butlast (tl t)) then Some (butlast (tl t)) else None)"

text \<open>\<open>^\s*(\w+)\s*\((.*)\)$\<close>\<close>

definition re_call :: "string \<Rightarrow> (string \<times> string) option" where
  "re_call payload =
     (let s = skip_space payload; w = takeWhile re_word s
      in if w = [] then None else map_option (Pair w) (re_parens (dropWhile re_word s)))"

text \<open>\<open>^\s*(\w+)(\s*\((.*)\))?$\<close>\<close>

definition re_preview :: "string \<Rightarrow> (string \<times> string) option" where
  "re_preview payload =
     (let s = skip_space payload; w = takeWhile re_word s
      in if w = [] then None else if dropWhile re_word s = [] then Some (w, [])
         else map_option (Pair w) (re_parens (dropWhile re_word s)))"

text \<open>\<open>^\s*(/.*)\s*\((.*)\)$\<close>: the first group is greedy, so it goes up to the last opening parenthesis.\<close>

definition re_factory :: "string \<Rightarrow> (string \<times> string) option" where
  "re_factory payload =
     (let s = skip_space payload
      in if s = [] \<or> hd s \<noteq> CHR ''/'' \<or> last s \<noteq> CHR '')'' \<or> \<not> list_all re_dot (butlast s) then None
         else last_match (\<lambda>i. if s ! i = CHR ''('' then Some (take i s, butlast (drop (i + 1) s)) else None) (length s - 1))"

subsection \<open>The parser of a block\<close>

record 'j Call =
  ca_type :: string
  ca_name :: string
  ca_args :: "'j jvalue list"
  ca_kwargs :: "(string \<times> 'j jvalue) list"

record 'j Param =
  pa_key :: string
  pa_name :: string
  pa_desc :: "string list"
  pa_default :: "string option"
  pa_units :: "string option"
  pa_widgetType :: "string option"
  pa_widgetArgs :: "'j jvalue list"
  pa_widgetKwargs :: "(string \<times> 'j jvalue) list"
  pa_tab :: "string option"
  pa_preview :: "string option"
  pa_previewArgs :: "'j jvalue list"
  pa_previewKwargs :: "(string \<times> 'j jvalue) list"
  pa_options :: "(string \<times> string) list"

record 'j Desc =
  de_name :: string
  de_docs :: "string list"
  de_params :: "'j Param list"
  de_categories :: "string list"
  de_keywords :: "string list"
  de_aliases :: "string list"
  de_path :: "string option"
  de_args :: "'j jvalue list"
  de_kwargs :: "(string \<times> 'j jvalue) list"
  de_calls :: "'j Call list"
  de_mode :: "string option"

datatype doc_state = DocState | ParamState

record 'j Markup =
  mk_state :: doc_state
  mk_indent :: string
  mk_desc :: "'j Desc"

definition Desc_new :: "string \<Rightarrow> 'j Desc" where
  "Desc_new name = \<lparr>de_name = name, de_docs = [], de_params = [], de_categories = [], de_keywords = [], de_aliases = [], de_path = None,
     de_args = [], de_kwargs = [], de_calls = [], de_mode = None\<rparr>"

definition Param_new :: "string \<Rightarrow> string \<Rightarrow> string \<Rightarrow> 'j Param" where
  "Param_new key name desc = \<lparr>pa_key = key, pa_name = name, pa_desc = [desc], pa_default = None, pa_units = None, pa_widgetType = None,
     pa_widgetArgs = [], pa_widgetKwargs = [], pa_tab = None, pa_preview = None, pa_previewArgs = [], pa_previewKwargs = [], pa_options = []\<rparr>"

text \<open>\<open>params.back()\<close>\<close>

definition last_param :: "'j Markup \<Rightarrow> 'j Param" where
  "last_param mk = last (de_params (mk_desc mk))"

definition set_desc :: "('j Desc \<Rightarrow> 'j Desc) \<Rightarrow> 'j Markup \<Rightarrow> 'j Markup" where
  "set_desc f mk = mk\<lparr>mk_desc := f (mk_desc mk)\<rparr>"

definition set_param :: "('j Param \<Rightarrow> 'j Param) \<Rightarrow> 'j Markup \<Rightarrow> 'j Markup" where
  "set_param f mk = set_desc (\<lambda>d. d\<lparr>de_params := butlast (de_params d) @ [f (last (de_params d))]\<rparr>) mk"

type_synonym 'j instruction = "'j Library \<Rightarrow> CodeLine \<Rightarrow> string \<Rightarrow> 'j Markup \<Rightarrow> syntax_error + 'j Markup"

definition throw_at :: "string \<Rightarrow> CodeLine \<Rightarrow> syntax_error + 'a" where
  "throw_at msg codeLine = Inl (SyntaxAt msg codeLine)"

definition alias_instruction :: "'j instruction" where
  "alias_instruction lib codeLine payload mk =
     (case PluginPath_new (lib_tokensSlash lib) payload of
        Inl _ \<Rightarrow> throw_at ''Invalid alias path'' codeLine
      | Inr _ \<Rightarrow> Inr (set_desc (\<lambda>d. d\<lparr>de_aliases := de_aliases d @ [payload]\<rparr>) mk))"

definition param_instruction :: "'j instruction" where
  "param_instruction lib codeLine payload mk =
     (case re_param (bracketEscapeEncode lib payload) of
        None \<Rightarrow> throw_at ''Expected |param key[name] description'' codeLine
      | Some (f1, f3, f4) \<Rightarrow>
          let key = bracketEscapeDecode lib f1; name = bracketEscapeDecode lib f3;
              name = (if name = [] then titleCase lib key else name)
          in Inr ((set_desc (\<lambda>d. d\<lparr>de_params := de_params d @ [Param_new key name (bracketEscapeDecode lib f4)]\<rparr>) mk)\<lparr>mk_state := ParamState\<rparr>))"

text \<open>The entries that a parameter can have once.\<close>

definition once :: "string \<Rightarrow> ('j Param \<Rightarrow> string option) \<Rightarrow> CodeLine \<Rightarrow> 'j Markup \<Rightarrow> (syntax_error + 'a) \<Rightarrow> syntax_error + 'a" where
  "once msg field codeLine mk r = (if field (last_param mk) \<noteq> None then throw_at msg codeLine else r)"

definition default_instruction :: "'j instruction" where
  "default_instruction lib codeLine payload mk =
     once ''Multiple occurrence of |default for param'' pa_default codeLine mk (Inr (set_param (\<lambda>p. p\<lparr>pa_default := Some payload\<rparr>) mk))"

definition units_instruction :: "'j instruction" where
  "units_instruction lib codeLine payload mk =
     once ''Multiple occurrence of |units for param'' pa_units codeLine mk (Inr (set_param (\<lambda>p. p\<lparr>pa_units := Some payload\<rparr>) mk))"

definition widget_instruction :: "'j instruction" where
  "widget_instruction lib codeLine payload mk =
     once ''Multiple occurrence of |widget for param'' pa_widgetType codeLine mk
       (case re_call payload of
          None \<Rightarrow> throw_at ''Expected |widget SpinBox(args...)'' codeLine
        | Some (widgetType, argsStr) \<Rightarrow>
            rbind (loadArgs lib codeLine argsStr) (\<lambda>(args, kwargs).
              Inr (set_param (\<lambda>p. p\<lparr>pa_widgetType := Some widgetType, pa_widgetArgs := args, pa_widgetKwargs := kwargs\<rparr>) mk)))"

definition tab_instruction :: "'j instruction" where
  "tab_instruction lib codeLine payload mk =
     once ''Multiple occurrence of |tab for param'' pa_tab codeLine mk (Inr (set_param (\<lambda>p. p\<lparr>pa_tab := Some payload\<rparr>) mk))"

definition preview_instruction :: "'j instruction" where
  "preview_instruction lib codeLine payload mk =
     once ''Multiple occurrence of preview for param'' pa_preview codeLine mk
       (case re_preview payload of
          None \<Rightarrow> throw_at ''Expected |preview previewType(args...)'' codeLine
        | Some (previewType, argsStr) \<Rightarrow>
            if previewType \<notin> {''disable'', ''enable'', ''valid'', ''invalid'', ''when''}
            then throw_at ''Only supports enable/disable/valid/invalid/when as value for preview option of param'' codeLine
            else rbind (loadArgs lib codeLine argsStr) (\<lambda>(args, kwargs).
              Inr (set_param (\<lambda>p. p\<lparr>pa_preview := Some previewType, pa_previewArgs := args, pa_previewKwargs := kwargs\<rparr>) mk)))"

definition option_instruction :: "'j instruction" where
  "option_instruction lib codeLine payload mk =
     (case re_named (bracketEscapeEncode lib payload) of
        None \<Rightarrow> throw_at ''Expected |option [name] value'' codeLine
      | Some (f2, f3) \<Rightarrow>
          let value = bracketEscapeDecode lib f3; name = bracketEscapeDecode lib f2;
              name = (if name = [] then titleCase lib value else name)
          in Inr (set_param (\<lambda>p. p\<lparr>pa_options := pa_options p @ [(value, name)]\<rparr>) mk))"

definition factory_instruction :: "'j instruction" where
  "factory_instruction lib codeLine payload mk =
     (case re_factory payload of
        None \<Rightarrow> throw_at ''Expected |factory /registry/path(args...)'' codeLine
      | Some (path, argsStr) \<Rightarrow>
          (case PluginPath_new (lib_tokensSlash lib) path of
             Inl _ \<Rightarrow> throw_at ''Invalid factory path'' codeLine
           | Inr _ \<Rightarrow>
               if de_path (mk_desc mk) \<noteq> None then throw_at ''Multiple occurrence of |factory'' codeLine
               else rbind (loadArgs lib codeLine argsStr) (\<lambda>(args, kwargs).
                 Inr ((set_desc (\<lambda>d. d\<lparr>de_path := Some path, de_args := args, de_kwargs := kwargs\<rparr>) mk)\<lparr>mk_state := DocState\<rparr>))))"

definition call_instruction :: "string \<Rightarrow> 'j instruction" where
  "call_instruction instruction lib codeLine payload mk =
     (case re_call payload of
        None \<Rightarrow> throw_at (''Expected |'' @ instruction @ '' setFooBar(args...)'') codeLine
      | Some (callName, argsStr) \<Rightarrow>
          rbind (loadArgs lib codeLine argsStr) (\<lambda>(args, kwargs).
            Inr ((set_desc (\<lambda>d. d\<lparr>de_calls := de_calls d @
              [\<lparr>ca_type = instruction, ca_name = callName, ca_args = args, ca_kwargs = kwargs\<rparr>]\<rparr>) mk)\<lparr>mk_state := DocState\<rparr>)))"

definition mode_instruction :: "'j instruction" where
  "mode_instruction lib codeLine payload mk =
     (if de_mode (mk_desc mk) \<noteq> None then throw_at ''Multiple occurrence of |mode'' codeLine
      else Inr (set_desc (\<lambda>d. d\<lparr>de_mode := Some payload\<rparr>) mk))"

text \<open>An instruction that is unknown, or out of place, is ignored.\<close>

definition instruct :: "string \<Rightarrow> 'j instruction" where
  "instruct instruction lib codeLine payload mk =
     (let doc = (mk_state mk = DocState); param = (mk_state mk = ParamState) in
      if instruction = ''category'' \<and> doc then Inr (set_desc (\<lambda>d. d\<lparr>de_categories := de_categories d @ [payload]\<rparr>) mk)
      else if instruction = ''keywords'' \<and> doc then Inr (set_desc (\<lambda>d. d\<lparr>de_keywords := de_keywords d @ lib_tokensBlank lib payload\<rparr>) mk)
      else if instruction = ''alias'' \<and> doc then alias_instruction lib codeLine payload mk
      else if instruction = ''param'' then param_instruction lib codeLine payload mk
      else if instruction = ''default'' \<and> param then default_instruction lib codeLine payload mk
      else if instruction = ''units'' \<and> param then units_instruction lib codeLine payload mk
      else if instruction = ''widget'' \<and> param then widget_instruction lib codeLine payload mk
      else if instruction = ''tab'' \<and> param then tab_instruction lib codeLine payload mk
      else if instruction = ''preview'' \<and> param then preview_instruction lib codeLine payload mk
      else if instruction = ''option'' \<and> param then option_instruction lib codeLine payload mk
      else if instruction = ''factory'' then factory_instruction lib codeLine payload mk
      else if instruction = ''setter'' \<or> instruction = ''initializer'' then call_instruction instruction lib codeLine payload mk
      else if instruction = ''mode'' then mode_instruction lib codeLine payload mk
      else Inr mk)"

text \<open>A line without the indent of the first one is an error, but for the last line of the block, which is then empty.\<close>

definition strip_indent :: "nat \<Rightarrow> string \<Rightarrow> CodeLine \<Rightarrow> syntax_error + string" where
  "strip_indent lastNo indent codeLine =
     (let line = cd_text codeLine in
      if length indent \<le> length line \<and> take (length indent) line \<noteq> indent then
        (if cd_lineNo codeLine = lastNo then Inr (drop (length indent) []) else throw_at ''Inconsistent indentation'' codeLine)
      else Inr (drop (length indent) line))"

definition markup_line :: "'j Library \<Rightarrow> nat \<Rightarrow> CodeLine \<Rightarrow> 'j Markup option \<Rightarrow> syntax_error + 'j Markup option" where
  "markup_line lib lastNo codeLine st =
     (case st of
        None \<Rightarrow>
          (case re_pothosDoc (cd_text codeLine) of
             None \<Rightarrow> Inr None
           | Some (indent, name) \<Rightarrow> Inr (Some \<lparr>mk_state = DocState, mk_indent = indent, mk_desc = Desc_new name\<rparr>))
      | Some mk \<Rightarrow>
          rbind (strip_indent lastNo (mk_indent mk) codeLine) (\<lambda>line.
            case re_instruction line of
              None \<Rightarrow>
                Inr (Some (case mk_state mk of
                   DocState \<Rightarrow> set_desc (\<lambda>d. d\<lparr>de_docs := de_docs d @ [line]\<rparr>) mk
                 | ParamState \<Rightarrow> set_param (\<lambda>p. p\<lparr>pa_desc := pa_desc p @ [line]\<rparr>) mk))
            | Some (instruction, payload) \<Rightarrow> map_sum id Some (instruct instruction lib codeLine payload mk)))"

fun markup_lines :: "'j Library \<Rightarrow> nat \<Rightarrow> CodeLine list \<Rightarrow> 'j Markup option \<Rightarrow> syntax_error + 'j Markup option" where
  "markup_lines lib lastNo [] st = Inr st"
| "markup_lines lib lastNo (l # ls) st = rbind (markup_line lib lastNo l st) (markup_lines lib lastNo ls)"

definition parseCommentBlockForMarkup :: "'j Library \<Rightarrow> CodeLine list \<Rightarrow> syntax_error + 'j Desc option" where
  "parseCommentBlockForMarkup lib commentBlock =
     rbind (markup_lines lib (cd_lineNo (last commentBlock)) commentBlock None) (\<lambda>st.
       case st of
         None \<Rightarrow> Inr None
       | Some mk \<Rightarrow>
           let d = (mk_desc mk)\<lparr>de_docs := stripDocArray (de_docs (mk_desc mk)),
                                de_params := map (\<lambda>p. p\<lparr>pa_desc := stripDocArray (pa_desc p)\<rparr>) (de_params (mk_desc mk))\<rparr>
           in if de_path d = None then Inl MissingFactory else Inr (Some d))"

subsection \<open>The interface\<close>

record 'j BlockDescriptionParser =
  bp_objects :: "string \<rightharpoonup> 'j Desc"
  bp_array :: "'j Desc list"
  bp_factories :: "string list"

definition BlockDescriptionParser_new :: "'j BlockDescriptionParser" where
  "BlockDescriptionParser_new = \<lparr>bp_objects = (\<lambda>_. None), bp_array = [], bp_factories = []\<rparr>"

definition store_desc :: "'j Desc \<Rightarrow> 'j BlockDescriptionParser \<Rightarrow> 'j BlockDescriptionParser" where
  "store_desc obj bp =
     fold (\<lambda>path bp. bp\<lparr>bp_factories := bp_factories bp @ [path], bp_objects := (bp_objects bp)(path \<mapsto> obj)\<rparr>)
       (the (de_path obj) # de_aliases obj) (bp\<lparr>bp_array := bp_array bp @ [obj]\<rparr>)"

fun feed_blocks :: "'j Library \<Rightarrow> CodeLine list list \<Rightarrow> 'j BlockDescriptionParser \<Rightarrow> (syntax_error + unit) \<times> 'j BlockDescriptionParser" where
  "feed_blocks lib [] bp = (Inr (), bp)"
| "feed_blocks lib (b # bs) bp =
     (case parseCommentBlockForMarkup lib b of
        Inl e \<Rightarrow> (Inl e, bp)
      | Inr None \<Rightarrow> feed_blocks lib bs bp
      | Inr (Some obj) \<Rightarrow> feed_blocks lib bs (store_desc obj bp))"

definition feedStream :: "'j Library \<Rightarrow> string \<Rightarrow> 'j BlockDescriptionParser \<Rightarrow> (syntax_error + unit) \<times> 'j BlockDescriptionParser" where
  "feedStream lib text bp = feed_blocks lib (extractContiguousBlocks lib text) bp"

text \<open>A file that does not exist, or cannot be opened, is \<open>None\<close> inside or outside.\<close>

datatype feed_error = FileExists string | OpenFile string | SyntaxInFile string syntax_error

definition feedFilePath ::
  "'j Library \<Rightarrow> (string \<Rightarrow> string option option) \<Rightarrow> string \<Rightarrow> 'j BlockDescriptionParser \<Rightarrow> (feed_error + unit) \<times> 'j BlockDescriptionParser" where
  "feedFilePath lib files filePath bp =
     (case files filePath of
        None \<Rightarrow> (Inl (FileExists filePath), bp)
      | Some None \<Rightarrow> (Inl (OpenFile filePath), bp)
      | Some (Some text) \<Rightarrow> map_prod (map_sum (SyntaxInFile filePath) id) id (feedStream lib text bp))"

definition listFactories :: "'j BlockDescriptionParser \<Rightarrow> string list" where
  "listFactories bp = bp_factories bp"

text \<open>\<open>at\<close> throws for a path that is not there; the text of the object is left to the JSON library.\<close>

definition getJSONArray :: "('j Desc list \<Rightarrow> string) \<Rightarrow> 'j BlockDescriptionParser \<Rightarrow> string" where
  "getJSONArray dump bp = dump (bp_array bp)"

definition getJSONObject :: "('j Desc \<Rightarrow> string) \<Rightarrow> 'j BlockDescriptionParser \<Rightarrow> string \<Rightarrow> string option" where
  "getJSONObject dump bp factoryPath = map_option dump (bp_objects bp factoryPath)"

subsection \<open>Documentation has no needless empty lines\<close>

text \<open>No empty line at the beginning, and no two of them.\<close>

definition tidy :: "string list \<Rightarrow> bool" where
  "tidy out \<longleftrightarrow> successively (\<lambda>a b. a \<noteq> [] \<or> b \<noteq> []) ([] # out)"

lemma tidy_Nil: "tidy []"
  by (simp add: tidy_def)

lemma tidy_append: "tidy (out @ ls) \<Longrightarrow> tidy out"
  by (simp add: tidy_def successively_append_iff flip: append_Cons)

lemma tidy_snoc: "tidy (out @ [line]) \<longleftrightarrow> tidy out \<and> ((if out = [] then [] else last out) \<noteq> [] \<or> line \<noteq> [])"
  by (simp add: tidy_def successively_append_iff flip: append_Cons)

lemma strip_each_tidy:
  "tidy out \<Longrightarrow> tidy (strip_each ls out) \<and> filter (\<lambda>l. l \<noteq> []) (strip_each ls out) = filter (\<lambda>l. l \<noteq> []) (out @ ls)"
  by (induction ls arbitrary: out) (auto simp: Let_def tidy_snoc)

lemma strip_each_id: "tidy (out @ ls) \<Longrightarrow> strip_each ls out = out @ ls"
proof (induction ls arbitrary: out)
  case (Cons l ls)
  have "tidy (out @ [l])" using tidy_append [of "out @ [l]" ls] Cons.prems by simp
  then show ?case using Cons by (auto simp: tidy_snoc Let_def)
qed simp

definition stripped :: "string list \<Rightarrow> bool" where
  "stripped out \<longleftrightarrow> tidy out \<and> (out = [] \<or> last out \<noteq> [])"

lemma tidy_butlast:
  assumes "tidy out" "out \<noteq> []" "last out = []"
  shows "stripped (butlast out)" "filter (\<lambda>l. l \<noteq> []) (butlast out) = filter (\<lambda>l. l \<noteq> []) out"
proof -
  have out: "butlast out @ [[]] = out" using assms(2,3) append_butlast_last_id [of out] by simp
  then have "tidy (butlast out @ [[]])" using assms(1) by simp
  then show "stripped (butlast out)" by (auto simp: tidy_snoc stripped_def split: if_splits)
  show "filter (\<lambda>l. l \<noteq> []) (butlast out) = filter (\<lambda>l. l \<noteq> []) out"
    using arg_cong [OF out, of "filter (\<lambda>l. l \<noteq> [])"] by simp
qed

lemma documentation_strip:
  "stripped (stripDocArray ls) \<and> filter (\<lambda>l. l \<noteq> []) (stripDocArray ls) = filter (\<lambda>l. l \<noteq> []) ls \<and>
   stripDocArray (stripDocArray ls) = stripDocArray ls"
proof -
  have start: "tidy (strip_each ls [])" "filter (\<lambda>l. l \<noteq> []) (strip_each ls []) = filter (\<lambda>l. l \<noteq> []) ls"
    using strip_each_tidy [OF tidy_Nil, of ls] by simp_all
  then have one: "stripped (stripDocArray ls)" "filter (\<lambda>l. l \<noteq> []) (stripDocArray ls) = filter (\<lambda>l. l \<noteq> []) ls"
    using tidy_butlast [OF start(1)] by (simp_all add: stripDocArray_def Let_def stripped_def)
  then have "strip_each (stripDocArray ls) [] = stripDocArray ls" using strip_each_id [of "[]"] by (simp add: stripped_def)
  then show ?thesis using one by (auto simp: stripped_def stripDocArray_def [of "stripDocArray ls"])
qed

subsection \<open>Descriptions are well formed\<close>

definition path_ok :: "'j Library \<Rightarrow> string \<Rightarrow> bool" where
  "path_ok lib path \<longleftrightarrow> PluginPath_new (lib_tokensSlash lib) path = Inr path"

text \<open>What holds while a block is parsed: the paths are valid, and there is a parameter where the instructions need one.\<close>

definition markup_ok :: "'j Library \<Rightarrow> 'j Markup \<Rightarrow> bool" where
  "markup_ok lib mk \<longleftrightarrow>
     (\<forall>path. de_path (mk_desc mk) = Some path \<longrightarrow> path_ok lib path) \<and> list_all (path_ok lib) (de_aliases (mk_desc mk)) \<and>
     (mk_state mk = ParamState \<longrightarrow> de_params (mk_desc mk) \<noteq> [])"

text \<open>An instruction leaves the entries alone that come once, and adds to the others at the end.\<close>

definition extends :: "'j Markup \<Rightarrow> 'j Markup \<Rightarrow> bool" where
  "extends mk mk' \<longleftrightarrow>
     mk_indent mk' = mk_indent mk \<and> de_name (mk_desc mk') = de_name (mk_desc mk) \<and>
     (de_path (mk_desc mk) \<noteq> None \<longrightarrow> de_path (mk_desc mk') = de_path (mk_desc mk)) \<and>
     (de_mode (mk_desc mk) \<noteq> None \<longrightarrow> de_mode (mk_desc mk') = de_mode (mk_desc mk)) \<and>
     prefix (de_aliases (mk_desc mk)) (de_aliases (mk_desc mk')) \<and>
     prefix (map ca_name (de_calls (mk_desc mk))) (map ca_name (de_calls (mk_desc mk'))) \<and>
     prefix (map pa_key (de_params (mk_desc mk))) (map pa_key (de_params (mk_desc mk')))"

definition good_step :: "'j Library \<Rightarrow> 'j Markup \<Rightarrow> syntax_error + 'j Markup \<Rightarrow> bool" where
  "good_step lib mk r \<longleftrightarrow> (\<forall>mk'. r = Inr mk' \<longrightarrow> markup_ok lib mk \<longrightarrow> markup_ok lib mk' \<and> extends mk mk')"

named_theorems good_steps

lemma good_step_throw [good_steps]: "good_step lib mk (throw_at msg codeLine)" "good_step lib mk (Inl e)"
  by (simp_all add: good_step_def throw_at_def)

lemma good_step_rbind:
  "(\<And>x. r = Inr x \<Longrightarrow> good_step lib mk (f x)) \<Longrightarrow> good_step lib mk (rbind r f)"
  by (cases r) (simp_all add: good_step_def)

lemma good_step_once: "good_step lib mk r \<Longrightarrow> good_step lib mk (once msg field codeLine mk r)"
  by (simp add: once_def good_step_throw)

lemma good_step_param:
  assumes "mk_state mk = ParamState" "\<And>p. pa_key (f p) = pa_key p"
  shows "good_step lib mk (Inr (set_param f mk))"
proof -
  have "map pa_key (butlast ps @ [f (last ps)]) = map pa_key ps" if "ps \<noteq> []" for ps
    using that assms(2) by (simp add: map_butlast) (metis append_butlast_last_id last_map map_is_Nil_conv)
  then show ?thesis using assms(1)
    by (auto simp: good_step_def markup_ok_def extends_def set_param_def set_desc_def)
qed

lemma good_step_desc:
  assumes "de_name (f (mk_desc mk)) = de_name (mk_desc mk)" "de_path (f (mk_desc mk)) = de_path (mk_desc mk)"
    "de_mode (mk_desc mk) \<noteq> None \<longrightarrow> de_mode (f (mk_desc mk)) = de_mode (mk_desc mk)"
    "de_params (f (mk_desc mk)) = de_params (mk_desc mk)" "de_calls (f (mk_desc mk)) = de_calls (mk_desc mk) @ calls"
    "de_aliases (f (mk_desc mk)) = de_aliases (mk_desc mk) @ aliases" "list_all (path_ok lib) aliases" "st = mk_state mk \<or> st = DocState"
  shows "good_step lib mk (Inr ((set_desc f mk)\<lparr>mk_state := st\<rparr>))"
  using assms by (auto simp: good_step_def markup_ok_def extends_def set_desc_def)

lemma set_desc_state: "set_desc f mk = (set_desc f mk)\<lparr>mk_state := mk_state mk\<rparr>"
  by (simp add: set_desc_def)

lemma good_alias: "good_step lib mk (alias_instruction lib codeLine payload mk)"
proof (cases "PluginPath_new (lib_tokensSlash lib) payload")
  case (Inr path)
  then have "path_ok lib payload" by (auto simp: path_ok_def PluginPath_new_def split: option.splits)
  then show ?thesis using Inr
    by (simp add: alias_instruction_def, subst set_desc_state) (rule good_step_desc [where calls = "[]" and aliases = "[payload]"], simp_all)
qed (simp add: alias_instruction_def good_step_throw)

lemma good_param: "good_step lib mk (param_instruction lib codeLine payload mk)"
  by (auto simp: param_instruction_def good_step_throw Let_def good_step_def markup_ok_def extends_def set_desc_def Param_new_def throw_at_def
      split: option.splits)

lemma good_factory: "good_step lib mk (factory_instruction lib codeLine payload mk)"
proof -
  have "path_ok lib path" if "PluginPath_new (lib_tokensSlash lib) path = Inr x" for path x
    using that by (auto simp: path_ok_def PluginPath_new_def split: option.splits)
  then show ?thesis
    unfolding factory_instruction_def
    by (auto simp: good_step_throw good_step_def markup_ok_def extends_def set_desc_def throw_at_def rbind_Inr_conv
        split: option.splits sum.splits)
qed

lemma good_calls: "good_step lib mk (call_instruction instruction lib codeLine payload mk)"
  unfolding call_instruction_def
  by (auto simp: good_step_throw good_step_def markup_ok_def extends_def set_desc_def throw_at_def rbind_Inr_conv split: option.splits)

lemma good_mode: "good_step lib mk (mode_instruction lib codeLine payload mk)"
  by (auto simp: mode_instruction_def good_step_def markup_ok_def extends_def set_desc_def throw_at_def)

lemma good_in_param:
  assumes "mk_state mk = ParamState"
  shows "good_step lib mk (default_instruction lib codeLine payload mk)" "good_step lib mk (units_instruction lib codeLine payload mk)"
    "good_step lib mk (tab_instruction lib codeLine payload mk)" "good_step lib mk (widget_instruction lib codeLine payload mk)"
    "good_step lib mk (preview_instruction lib codeLine payload mk)" "good_step lib mk (option_instruction lib codeLine payload mk)"
proof -
  note set = good_step_param [OF assms]
  show "good_step lib mk (default_instruction lib codeLine payload mk)" "good_step lib mk (units_instruction lib codeLine payload mk)"
    "good_step lib mk (tab_instruction lib codeLine payload mk)"
    unfolding default_instruction_def units_instruction_def tab_instruction_def by (rule good_step_once, rule set, simp)+
  show "good_step lib mk (widget_instruction lib codeLine payload mk)"
    unfolding widget_instruction_def
    by (rule good_step_once) (auto simp: good_step_throw split: option.splits intro!: good_step_rbind set)
  show "good_step lib mk (preview_instruction lib codeLine payload mk)"
    unfolding preview_instruction_def
    by (rule good_step_once) (auto simp: good_step_throw split: option.splits intro!: good_step_rbind set)
  show "good_step lib mk (option_instruction lib codeLine payload mk)"
    unfolding option_instruction_def by (auto simp: good_step_throw Let_def split: option.splits intro!: set)
qed

lemma good_instruct: "good_step lib mk (instruct instruction lib codeLine payload mk)"
proof -
  have keep: "good_step lib mk (Inr mk)" by (simp add: good_step_def extends_def)
  have desc: "good_step lib mk (Inr (set_desc (\<lambda>d. d\<lparr>de_categories := de_categories d @ [payload]\<rparr>) mk))"
    "good_step lib mk (Inr (set_desc (\<lambda>d. d\<lparr>de_keywords := de_keywords d @ lib_tokensBlank lib payload\<rparr>) mk))"
    by (subst set_desc_state, rule good_step_desc [where calls = "[]" and aliases = "[]"], simp_all)+
  have if_rule: "(b \<Longrightarrow> good_step lib mk r) \<Longrightarrow> (\<not> b \<Longrightarrow> good_step lib mk r') \<Longrightarrow> good_step lib mk (if b then r else r')"
    for b r r' by simp
  show ?thesis unfolding instruct_def Let_def
    by (rule if_rule desc good_alias good_param good_in_param good_factory good_calls good_mode keep | erule conjunct2)+
qed

definition desc_ok :: "'j Library \<Rightarrow> 'j Desc \<Rightarrow> bool" where
  "desc_ok lib d \<longleftrightarrow>
     (\<exists>path. de_path d = Some path \<and> path_ok lib path) \<and> list_all (path_ok lib) (de_aliases d) \<and>
     stripped (de_docs d) \<and> list_all (\<lambda>p. stripped (pa_desc p)) (de_params d)"

lemma markup_line_ok:
  assumes "markup_line lib lastNo codeLine st = Inr st'" "pred_option (markup_ok lib) st"
  shows "pred_option (markup_ok lib) st'"
proof (cases st)
  case None
  then show ?thesis using assms by (auto simp: markup_line_def markup_ok_def Desc_new_def split: option.splits)
next
  case (Some mk)
  then obtain line where line: "strip_indent lastNo (mk_indent mk) codeLine = Inr line"
    using assms(1) by (auto simp: markup_line_def rbind_Inr_conv)
  show ?thesis
  proof (cases "re_instruction line")
    case None
    then show ?thesis using assms Some line
      by (auto simp: markup_line_def markup_ok_def set_desc_def set_param_def split: doc_state.splits)
  next
    case (Some ip)
    then obtain i payload where "re_instruction line = Some (i, payload)" by (cases ip) simp
    then show ?thesis using assms \<open>st = Some mk\<close> line good_instruct [of lib mk i codeLine payload]
      by (cases "instruct i lib codeLine payload mk") (auto simp: markup_line_def good_step_def)
  qed
qed

lemma markup_lines_ok:
  "markup_lines lib lastNo ls st = Inr st' \<Longrightarrow> pred_option (markup_ok lib) st \<Longrightarrow> pred_option (markup_ok lib) st'"
  by (induction ls arbitrary: st) (auto simp: rbind_Inr_conv dest: markup_line_ok)

lemma parsed_desc_ok:
  assumes "parseCommentBlockForMarkup lib b = Inr (Some d)"
  shows "desc_ok lib d"
proof -
  obtain mk where mk: "markup_lines lib (cd_lineNo (last b)) b None = Inr (Some mk)"
    and d: "d = (mk_desc mk)\<lparr>de_docs := stripDocArray (de_docs (mk_desc mk)),
                                de_params := map (\<lambda>p. p\<lparr>pa_desc := stripDocArray (pa_desc p)\<rparr>) (de_params (mk_desc mk))\<rparr>"
    and path: "de_path d \<noteq> None"
    using assms by (auto simp: parseCommentBlockForMarkup_def rbind_Inr_conv Let_def split: option.splits if_splits)
  have "markup_ok lib mk" using markup_lines_ok [OF mk] by simp
  then show ?thesis using path documentation_strip
    by (auto simp: desc_ok_def d markup_ok_def list_all_iff)
qed

definition desc_paths :: "'j Desc \<Rightarrow> string list" where
  "desc_paths d = the (de_path d) # de_aliases d"

definition tables_ok :: "'j Library \<Rightarrow> 'j BlockDescriptionParser \<Rightarrow> bool" where
  "tables_ok lib bp \<longleftrightarrow>
     list_all (desc_ok lib) (bp_array bp) \<and> listFactories bp = concat (map desc_paths (bp_array bp)) \<and>
     (\<forall>path. bp_objects bp path = find (\<lambda>d. path \<in> set (desc_paths d)) (rev (bp_array bp)))"

lemma store_paths:
  "fold (\<lambda>path bp. bp\<lparr>bp_factories := bp_factories bp @ [path], bp_objects := (bp_objects bp)(path \<mapsto> obj)\<rparr>) paths bp =
   bp\<lparr>bp_factories := bp_factories bp @ paths, bp_objects := (\<lambda>path. if path \<in> set paths then Some obj else bp_objects bp path)\<rparr>"
  by (induction paths arbitrary: bp) (auto simp: fun_eq_iff)

lemma store_desc_ok: "tables_ok lib bp \<Longrightarrow> desc_ok lib d \<Longrightarrow> tables_ok lib (store_desc d bp)"
  unfolding store_desc_def store_paths desc_paths_def [symmetric] by (simp add: tables_ok_def listFactories_def)

lemma feed_blocks_ok: "tables_ok lib bp \<Longrightarrow> tables_ok lib (snd (feed_blocks lib bs bp))"
  by (induction bs arbitrary: bp) (auto split: sum.splits option.splits intro: store_desc_ok dest: parsed_desc_ok)

text \<open>
  C30. Whatever is fed, also when some of it is rejected: every description has a valid path, valid aliases and documentation without
  needless empty lines; the list of factories has the paths and aliases of all descriptions in order; and a path is looked up
  as the last description that has it.
\<close>

theorem description_tables_consistent:
  "tables_ok lib (fold (\<lambda>text bp. snd (feedStream lib text bp)) texts BlockDescriptionParser_new)"
proof -
  have "tables_ok lib bp \<Longrightarrow> tables_ok lib (fold (\<lambda>text bp. snd (feedStream lib text bp)) texts bp)" for bp
    by (induction texts arbitrary: bp) (simp_all add: feedStream_def feed_blocks_ok)
  then show ?thesis by (simp add: tables_ok_def BlockDescriptionParser_new_def listFactories_def)
qed

subsection \<open>Blocks of line comments\<close>

text \<open>The lines that are not empty, with their numbers; and the groups of neighbours that have a property.\<close>

fun numbered :: "nat \<Rightarrow> string list \<Rightarrow> CodeLine list" where
  "numbered n [] = []"
| "numbered n (l # ls) = (if chomp l = [] then numbered (n + 1) ls else \<lparr>cd_text = chomp l, cd_lineNo = n + 1\<rparr> # numbered (n + 1) ls)"

function groups :: "('a \<Rightarrow> bool) \<Rightarrow> 'a list \<Rightarrow> 'a list list" where
  "groups P [] = []"
| "groups P (x # xs) = (if P x then (x # takeWhile P xs) # groups P (dropWhile P xs) else groups P xs)"
  by pat_completeness auto
termination
  by (relation "measure (length \<circ> snd)") (auto simp: less_Suc_eq_le length_dropWhile_le)

definition is_line_comment :: "'j Library \<Rightarrow> CodeLine \<Rightarrow> bool" where
  "is_line_comment lib l \<longleftrightarrow> 2 \<le> length (lib_trimLeft lib (cd_text l)) \<and> take 2 (lib_trimLeft lib (cd_text l)) = ''//''"

definition blocks_after :: "('a \<Rightarrow> bool) \<Rightarrow> 'a list list \<Rightarrow> 'a list \<Rightarrow> 'a list \<Rightarrow> 'a list list" where
  "blocks_after P blocks cur ls =
     blocks @ (if cur = [] then groups P ls else (cur @ takeWhile P ls) # groups P (dropWhile P ls))"

lemma blocks_after_Cons:
  "blocks_after P blocks cur (x # xs) =
     (if P x then blocks_after P blocks (cur @ [x]) xs else blocks_after P (if cur = [] then blocks else blocks @ [cur]) [] xs)"
  by (simp add: blocks_after_def)

lemma extract_line_comments:
  assumes "\<forall>l \<in> set ls. openMulti (chomp l) = None" "\<not> ex_inMulti s"
  shows "ex_blocks (end_block (extract_loop lib [] n ls s)) =
    blocks_after (is_line_comment lib) (ex_blocks s) (ex_current s) (numbered n ls)"
  using assms
proof (induction ls arbitrary: n s)
  case Nil
  then show ?case by (simp add: end_block_def blocks_after_def)
next
  case (Cons l ls)
  let ?line = "\<lparr>cd_text = chomp l, cd_lineNo = n + 1\<rparr>"
  let ?s = "if chomp l = [] then s else if is_line_comment lib ?line then push_line (chomp l) (n + 1) s else end_block s"
  have "extract_line lib (chomp l) (n + 1) s = (?s, [])"
    using Cons.prems by (auto simp: extract_line_def is_line_comment_def Let_def)
  moreover have "\<not> ex_inMulti ?s" using Cons.prems(2) by (simp add: push_line_def end_block_def)
  ultimately show ?case using Cons.IH [of ?s "n + 1"] Cons.prems(1)
    by (simp add: push_line_def end_block_def blocks_after_Cons)
qed

theorem line_comments_are_grouped:
  assumes "\<forall>l \<in> set (split_lines text). openMulti (chomp l) = None"
  shows "extractContiguousBlocks lib text = groups (is_line_comment lib) (numbered 0 (split_lines text))"
  unfolding extractContiguousBlocks_def using extract_line_comments [OF assms, of "\<lparr>ex_inMulti = False, ex_current = [], ex_blocks = []\<rparr>" lib 0]
  by (simp add: blocks_after_def)

text \<open>
  A comment that is opened and closed on one line is not closed: all that follows, up to the next end of a comment, is taken for
  a part of it.
\<close>

lemma extract_in_multi:
  assumes "\<forall>l \<in> set ls. closeMulti (chomp l) = None" "ex_inMulti s"
  shows "ex_blocks (end_block (extract_loop lib [] n ls s)) = ex_blocks (end_block (s\<lparr>ex_current := ex_current s @ numbered n ls\<rparr>))"
  using assms
proof (induction ls arbitrary: n s)
  case (Cons l ls)
  let ?s = "if chomp l = [] then s else push_line (chomp l) (n + 1) s"
  have "extract_line lib (chomp l) (n + 1) s = (?s, [])"
    using Cons.prems by (auto simp: extract_line_def Let_def)
  moreover have "ex_inMulti ?s" using Cons.prems(2) by (simp add: push_line_def)
  ultimately show ?case using Cons.IH [of ?s "n + 1"] Cons.prems(1) by (simp add: push_line_def)
qed simp

theorem one_line_comment_is_not_closed:
  assumes "split_lines text = l # ls" "openMulti (chomp l) = Some i" "take 2 (lib_trimLeft lib (chomp l)) \<noteq> ''//''"
    "\<forall>l \<in> set ls. closeMulti (chomp l) = None"
  shows "extractContiguousBlocks lib text = [\<lparr>cd_text = drop i (chomp l), cd_lineNo = 1\<rparr> # numbered 1 ls]"
proof -
  have "chomp l \<noteq> []" using assms(2) by (auto simp: openMulti_def)
  then show ?thesis
    using assms extract_in_multi [OF assms(4), of "push_line (drop i (chomp l)) 1 \<lparr>ex_inMulti = True, ex_current = [], ex_blocks = []\<rparr>" lib 1]
    by (simp add: extractContiguousBlocks_def extract_line_def push_line_def end_block_def)
qed

definition demo_library :: "unit Library" where
  "demo_library = \<lparr>lib_trim = cut_space \<circ> skip_space, lib_trimLeft = skip_space, lib_toUpper = id, lib_tokensEq = (\<lambda>s. [s]),
     lib_tokensBlank = (\<lambda>s. [s]), lib_tokensSlash = split_slash, lib_replace = (\<lambda>_ _ s. s), lib_parse = (\<lambda>_. None)\<rparr>"

theorem one_line_comment_is_not_closed_witness:
  "extractContiguousBlocks demo_library (''/* a */'' @ [CHR 0x0A] @ ''int x;'') =
     [[\<lparr>cd_text = ''/* a */'', cd_lineNo = 1\<rparr>, \<lparr>cd_text = ''int x;'', cd_lineNo = 2\<rparr>]]"
proof -
  have "split_lines (''/* a */'' @ [CHR 0x0A] @ ''int x;'') = [''/* a */'', ''int x;'']" by simp
  from one_line_comment_is_not_closed [OF this, of 0 demo_library] show ?thesis
    by (simp add: openMulti_def closeMulti_def chomp_def demo_library_def skip_space_def is_space_def)
qed

theorem line_comments_are_grouped_witness:
  "extractContiguousBlocks demo_library (''// a'' @ [CHR 0x0A, CHR 0x0A] @ ''// b'' @ [CHR 0x0A] @ ''x'') =
     [[\<lparr>cd_text = ''// a'', cd_lineNo = 1\<rparr>, \<lparr>cd_text = ''// b'', cd_lineNo = 3\<rparr>]]"
proof -
  have "split_lines (''// a'' @ [CHR 0x0A, CHR 0x0A] @ ''// b'' @ [CHR 0x0A] @ ''x'') = [''// a'', [], ''// b'', ''x'']" by simp
  then show ?thesis using line_comments_are_grouped [of "''// a'' @ [CHR 0x0A, CHR 0x0A] @ ''// b'' @ [CHR 0x0A] @ ''x''" demo_library]
    by (simp add: openMulti_def chomp_def demo_library_def skip_space_def is_space_def is_line_comment_def)
qed

subsection \<open>Arguments of a factory\<close>

text \<open>
  The first group of the expression for factories is greedy: with a parenthesis inside of the arguments the path gets everything up
  to the last one, and is not a valid path.
\<close>

theorem nested_parentheses_are_rejected:
  "factory_instruction demo_library codeLine ''/blocks/x(f(1))'' mk = Inl (SyntaxAt ''Invalid factory path'' codeLine)"
proof -
  have "re_factory ''/blocks/x(f(1))'' = Some (''/blocks/x(f'', ''1)'')" by code_simp
  moreover have "PluginPath_new split_slash ''/blocks/x(f'' = Inl BadCharacter" by code_simp
  ultimately show ?thesis by (simp add: factory_instruction_def demo_library_def throw_at_def)
qed

subsection \<open>Splitting at commas\<close>

text \<open>Brackets are balanced, and commas are inside of them.\<close>

fun closed_arg :: "string \<Rightarrow> int \<Rightarrow> bool" where
  "closed_arg [] depth \<longleftrightarrow> depth = 0"
| "closed_arg (ch # s) depth \<longleftrightarrow>
     0 \<le> bracket_depth ch depth \<and> \<not> (ch = CHR '','' \<and> bracket_depth ch depth = 0) \<and> closed_arg s (bracket_depth ch depth)"

fun comma_join :: "string list \<Rightarrow> string" where
  "comma_join [] = []"
| "comma_join [a] = a"
| "comma_join (a # as) = a @ CHR '','' # comma_join as"

lemma split_closed: "closed_arg s depth \<Longrightarrow> split_args (s @ rest) args bk depth = split_args rest args (bk @ s) 0"
  by (induction s arbitrary: bk depth) auto

lemma split_joined:
  "\<forall>a \<in> set as. closed_arg a 0 \<Longrightarrow> as \<noteq> [] \<Longrightarrow> split_args (comma_join as) args [] 0 = Some (args @ butlast as, last as)"
proof (induction as arbitrary: args rule: comma_join.induct)
  case (2 a)
  then show ?case using split_closed [of a 0 "[]"] by simp
next
  case (3 a b as)
  then show ?case using split_closed [of a 0 "CHR '','' # comma_join (b # as)" args "[]"] by (simp add: bracket_depth_def)
qed simp

theorem comma_split_undoes_join:
  assumes "\<forall>a \<in> set as. closed_arg a 0" "as = [] \<or> last as \<noteq> []"
  shows "splitCommaArgs lib (comma_join as) = Inr (map (lib_trim lib) as)"
  using assms split_joined [OF assms(1), of "[]"] by (cases "as = []") (auto simp: splitCommaArgs_def)

theorem comma_split_undoes_join_witness:
  "splitCommaArgs demo_library (comma_join [''a'', '' f(x, y)'', '' [1, 2]'']) = Inr [''a'', ''f(x, y)'', ''[1, 2]'']"
proof -
  have "splitCommaArgs demo_library (comma_join [''a'', '' f(x, y)'', '' [1, 2]'']) =
      Inr (map (lib_trim demo_library) [''a'', '' f(x, y)'', '' [1, 2]''])"
    by (rule comma_split_undoes_join) (simp_all add: bracket_depth_def)
  then show ?thesis by (simp add: demo_library_def skip_space_def cut_space_def is_space_def)
qed

definition demo_source :: string where
  "demo_source = concat (map (\<lambda>l. l @ [CHR 0x0A])
     [''// |PothosDoc Demo'', ''//'', ''// text'', ''//'', ''//'', ''// |category /Demo'', ''// |param rate[Sample Rate] the rate'', ''// |default 1.0'',
      ''// |option [One] 1'', ''// |factory /blocks/demo(rate, mode=fast)'', ''// |alias /blocks/old'', ''int x;'', ''// plain''])"

theorem demo_source_is_parsed:
  "case feedStream demo_library demo_source BlockDescriptionParser_new of (r, bp) \<Rightarrow>
     r = Inr () \<and> listFactories bp = [''/blocks/demo'', ''/blocks/old''] \<and> map de_docs (bp_array bp) = [[''text'']] \<and>
     map pa_name (concat (map de_params (bp_array bp))) = [''Sample Rate''] \<and> map (length \<circ> de_args) (bp_array bp) = [2]"
  by code_simp

end
