(* ===== verification/BlockRegistries.thy ===== *)
theory BlockRegistries
  imports PluginRegistry Callables
begin

section \<open>The registry of block factories\<close>

text \<open>
  \<open>lib/Framework/BlockRegistry.cpp\<close>: factories are plugins below \<open>/blocks\<close>, and \<open>blockRegistryMake\<close> calls them.

  \<^item> The object of a plugin is a \<open>Callable\<close> or something else. The four types that a factory returns are the fields of
    \<open>BlockTypes\<close>; \<open>getName\<close> of what it returns is an argument.
  \<^item> \<open>BlockRegistry_new\<close> logs what it rejects and returns; only the questions about a null factory throw. Event
    handlers of the plugin registry are not part of this; their calls are dropped.
\<close>

record 't BlockTypes =
  bt_Block :: 't
  bt_BlockSptr :: 't
  bt_Topology :: 't
  bt_TopologySptr :: 't

definition isOpaqueFactory :: "('t, 'v) Callable \<Rightarrow> call_error + bool" where
  "isOpaqueFactory factory =
     rbind (Callable_getNumArgs factory) (\<lambda>n. if n \<noteq> 2 then Inr False else
     rbind (Callable_type factory (-1)) (\<lambda>ret. if ret \<noteq> TObject then Inr False else
     rbind (Callable_type factory 0) (\<lambda>t0. if t0 \<noteq> TObjectPtr then Inr False else
     rbind (Callable_type factory 1) (\<lambda>t1. Inr (t1 = TSize)))))"

definition returns_element :: "'t BlockTypes \<Rightarrow> 't tinfo \<Rightarrow> bool" where
  "returns_element bt ret \<longleftrightarrow> ret \<in> T ` {bt_Block bt, bt_BlockSptr bt, bt_Topology bt, bt_TopologySptr bt}"

definition BlockRegistry_new ::
  "(string \<Rightarrow> string list) \<Rightarrow> (string \<Rightarrow> string list) \<Rightarrow> (('t, 'v) Callable + 'x \<Rightarrow> bool) \<Rightarrow> 't BlockTypes \<Rightarrow> string \<Rightarrow> ('t, 'v) Callable \<Rightarrow>
   (('t, 'v) Callable + 'x) Registry \<Rightarrow> call_error + (('t, 'v) Callable + 'x) Registry" where
  "BlockRegistry_new tok tokNonEmpty canHandle bt path factory r =
     (if path = [] \<or> hd path \<noteq> CHR ''/'' then Inr r
      else case PluginPath_concat tok ''/blocks'' path of
        Inl _ \<Rightarrow> Inr r
      | Inr fullPath \<Rightarrow>
          rbind (Callable_type factory (-1)) (\<lambda>ret.
          rbind (if returns_element bt ret then Inr True else isOpaqueFactory factory) (\<lambda>good.
            if good
            then (case PluginRegistry_add tokNonEmpty canHandle \<lparr>pl_path = fullPath, pl_object = Inl factory, pl_module = ''''\<rparr> r of
                    (e, calls, r) \<Rightarrow> Inr r)
            else Inr r)))"

datatype make_error = BadPath path_error | NoPlugin registry_error | MakeCallError call_error | WrongNumArgs nat nat | BadFactory

text \<open>\<open>call<Object>\<close> unwraps an object in an object and gives any other result as it is. What is made: the object that an opaque factory returns, or an element with its name and the module that it holds.\<close>

datatype ('t, 'v) made = MadeOpaque "('t, 'v) DynObject" | MadeElement "('t, 'v) DynObject" string string

definition as_object :: "('t, 'v) DynObject \<Rightarrow> ('t, 'v) DynObject" where
  "as_object x = (case x of OObject y \<Rightarrow> y | _ \<Rightarrow> x)"

definition call_factory ::
  "(('t, 'v) DynObject \<Rightarrow> 't tinfo \<Rightarrow> call_error + ('t, 'v) DynObject) \<Rightarrow> 't BlockTypes \<Rightarrow> (('t, 'v) DynObject \<Rightarrow> string) \<Rightarrow> string \<Rightarrow> string \<Rightarrow>
   ('t, 'v) Callable \<Rightarrow> ('t, 'v) DynObject list \<Rightarrow> make_error + ('t, 'v) made" where
  "call_factory conv bt getName path module factory args =
     rbind (map_sum MakeCallError id (isOpaqueFactory factory)) (\<lambda>opaque.
       if opaque then
         map_sum MakeCallError (\<lambda>x. MadeOpaque (as_object x)) (Callable_opaqueCall conv factory [OArgs args, OSize (length args)])
       else
         rbind (map_sum MakeCallError id (Callable_getNumArgs factory)) (\<lambda>n.
           if length args \<noteq> n then Inl (WrongNumArgs n (length args))
           else rbind (map_sum MakeCallError id (Callable_type factory (-1))) (\<lambda>ret.
             if returns_element bt ret then
               map_sum MakeCallError (\<lambda>element. MadeElement element (if getName element = [] then path else getName element) module)
                 (rbind (Callable_opaqueCall conv factory args) (\<lambda>x. conv x ret))
             else Inl BadFactory)))"

definition blockRegistryMake ::
  "(string \<Rightarrow> string list) \<Rightarrow> (string \<Rightarrow> string list) \<Rightarrow> (('t, 'v) DynObject \<Rightarrow> 't tinfo \<Rightarrow> call_error + ('t, 'v) DynObject) \<Rightarrow> 't BlockTypes \<Rightarrow>
   (('t, 'v) DynObject \<Rightarrow> string) \<Rightarrow> string \<Rightarrow> ('t, 'v) DynObject list \<Rightarrow> (('t, 'v) Callable + 'x) Registry \<Rightarrow>
   (make_error + ('t, 'v) made) \<times> (('t, 'v) Callable + 'x) Registry" where
  "blockRegistryMake tok tokNonEmpty conv bt getName path args r =
     (case PluginPath_concat tok ''/blocks'' path of
        Inl e \<Rightarrow> (Inl (BadPath e), r)
      | Inr pluginPath \<Rightarrow>
          (case PluginRegistry_get tokNonEmpty pluginPath r of
             (Inl e, r) \<Rightarrow> (Inl (NoPlugin e), r)
           | (Inr plugin, r) \<Rightarrow>
               (case pl_object plugin of
                  Inr _ \<Rightarrow> Inl (MakeCallError ObjectConvertError)
                | Inl factory \<Rightarrow> call_factory conv bt getName path (pl_module plugin) factory args, r)))"

definition doesBlockExist ::
  "(string \<Rightarrow> string list) \<Rightarrow> (string \<Rightarrow> string list) \<Rightarrow> string \<Rightarrow> 'o Registry \<Rightarrow> (path_error + bool) \<times> 'o Registry" where
  "doesBlockExist tok tokNonEmpty path r =
     (case PluginPath_new tok (''/blocks'' @ path) of
        Inl e \<Rightarrow> (Inl e, r)
      | Inr p \<Rightarrow> (case tree_exists (PluginPath_listNodes tokNonEmpty p) (rg_root r) of (b, root) \<Rightarrow> (Inr b, r\<lparr>rg_root := root\<rparr>)))"


text \<open>
  What the constructor registers, \<open>blockRegistryMake\<close> makes: a factory of an element that is registered on a free path is
  called by \<open>make\<close> on that path, and gives the element, named after the path when it has no name of its own, with the
  module that was loading. \<open>doesBlockExist\<close> says so, and the rest of the registry keeps its plugins.
\<close>

lemma blocks_path: "ns \<noteq> [] \<Longrightarrow> ''/blocks'' @ path_string ns = path_string (''blocks'' # ns)"
  by (cases ns) (simp_all add: path_string_def)

lemma path_nodes:
  assumes tn: "tokenizes_nonempty tn" and ns: "ns \<noteq> []" "\<forall>n \<in> set ns. valid_name n"
  shows "PluginPath_listNodes tn (path_string ns) = ns"
proof -
  have ne: "filter (\<lambda>p. p \<noteq> []) ns = ns" using ns(2) by (auto simp: valid_name_def intro: filter_True)
  have "tn (slash_join ([] # ns)) = ns"
    using tn [unfolded tokenizes_nonempty_def, rule_format, of "[] # ns"] ns(2) valid_name_slash ne by fastforce
  then show ?thesis using ns(1) by (simp add: PluginPath_listNodes_def path_string_def)
qed

theorem registered_block_is_made:
  assumes tok: "tokenizes tok" and tn: "tokenizes_nonempty tn" and ns: "ns \<noteq> []" "\<forall>n \<in> set ns. valid_name n"
    and ok: "registry_ok (rg_root r)" and free: "registry_map (rg_root r) (''blocks'' # ns) = None"
    and ret: "Callable_type factory (-1) = Inr ret" "returns_element bt ret" and opaque: "isOpaqueFactory factory = Inr False"
    and num: "Callable_getNumArgs factory = Inr (length args)"
    and call: "Callable_opaqueCall conv factory args = Inr x" "conv x ret = Inr element"
    and new: "BlockRegistry_new tok tn ch bt (path_string ns) factory r = Inr r'"
  shows "fst (blockRegistryMake tok tn conv bt getName (path_string ns) args r') =
      Inr (MadeElement element (if getName element = [] then path_string ns else getName element) (rg_active r))
    \<and> fst (doesBlockExist tok tn (path_string ns) r') = Inr True
    \<and> registry_map (rg_root r') = (registry_map (rg_root r))(''blocks'' # ns \<mapsto>
        \<lparr>pl_path = path_string (''blocks'' # ns), pl_object = Inl factory, pl_module = rg_active r\<rparr>)"
proof -
  let ?p = "path_string (''blocks'' # ns)"
  let ?plugin = "\<lparr>pl_path = ?p, pl_object = Inl factory, pl_module = ''''\<rparr>"
  have v: "\<forall>n \<in> set (''blocks'' # ns). valid_name n" using ns(2) by (simp add: valid_name_def good_char_def less_eq_char_def)
  have path: "PluginPath_new tok ?p = Inr ?p" using PluginPath_new_valid [OF tok v] .
  then have concat: "PluginPath_concat tok ''/blocks'' (path_string ns) = Inr ?p"
    unfolding PluginPath_concat_def blocks_path [OF ns(1)] .
  have nodes: "PluginPath_listNodes tn ?p = ''blocks'' # ns" using path_nodes [OF tn _ v] by simp
  obtain e calls r1 where add: "PluginRegistry_add tn ch ?plugin r = (e, calls, r1)" by (metis prod_cases3)
  have "path_string ns \<noteq> [] \<and> hd (path_string ns) = CHR ''/''" using ns(1) by (cases ns) (simp_all add: path_string_def)
  then have "r' = r1" using new add concat ret by (simp add: BlockRegistry_new_def)
  then have root: "registry_ok (rg_root r')"
      "registry_map (rg_root r') = (registry_map (rg_root r))(''blocks'' # ns \<mapsto> ?plugin\<lparr>pl_module := rg_active r\<rparr>)"
    using PluginRegistry_add_effect [OF add] tree_add_spec [OF ok] free nodes by simp_all
  have "registry_step (OpExists (''blocks'' # ns)) (rg_root r') =
      (RBool (fst (tree_exists (''blocks'' # ns) (rg_root r'))), snd (tree_exists (''blocks'' # ns) (rg_root r')))" by (simp add: prod.expand)
  from registry_step_refines [OF root(1) this] have "fst (tree_exists (''blocks'' # ns) (rg_root r'))"
    using root(2) by (auto intro!: exI [of _ "[]"])
  then have "fst (doesBlockExist tok tn (path_string ns) r') = Inr True"
    using concat by (cases "tree_exists (''blocks'' # ns) (rg_root r')") (simp add: doesBlockExist_def nodes PluginPath_concat_def)
  moreover have "fst (tree_get (''blocks'' # ns) (rg_root r')) = Inr (?plugin\<lparr>pl_module := rg_active r\<rparr>)"
    using fun_cong [OF root(2), of "''blocks'' # ns"] by (simp add: tree_get_def registry_map_def del: entry_at.simps)
  moreover have "call_factory conv bt getName (path_string ns) (rg_active r) factory args =
      Inr (MadeElement element (if getName element = [] then path_string ns else getName element) (rg_active r))"
    using ret opaque num call by (simp add: call_factory_def)
  ultimately show ?thesis using root(2) concat
    by (cases "tree_get (''blocks'' # ns) (rg_root r')") (simp add: blockRegistryMake_def nodes PluginRegistry_get_def)
qed

end
