(* ===== verification/BlockEvaluation.thy ===== *)
theory BlockEvaluation
  imports EvalEnvironment StringMap
begin

section \<open>Evaluation of a block description\<close>

text \<open>
  \<open>lib/Util/Builtin/BlockEval\<close>: \<open>ProxyBlockEval\<close> makes a block from its description, whose arguments are expressions over
  properties, and makes the calls that the description lists.

  \<^item> The description is what the code reads of the JSON of \<open>DocUtils\<close>. An argument is a JSON string, which holds an expression,
    or another JSON value, which is known by its text.
  \<^item> The calls through the managed proxy environment are the record \<open>BlockCalls\<close> over a world \<open>'w\<close>; \<open>ev\<close> is the evaluator of
    \<open>EvalEnvironment\<close>. A call on a null block, which the code dereferences, is the error \<open>NullBlock\<close>.
\<close>

datatype json_arg = JString string | JNative string

record CallDesc =
  cd_name :: string
  cd_args :: "json_arg list"

record BlockDesc =
  bd_args :: "json_arg list"
  bd_calls :: "CallDesc list"

record ('a, 'p, 'w, 'x) BlockCalls =
  kc_toProxy :: "'a \<Rightarrow> 'x + 'p"
  kc_make :: "string \<Rightarrow> 'p list \<Rightarrow> 'w \<Rightarrow> ('x + 'p) \<times> 'w"
  kc_call :: "'p \<Rightarrow> string \<Rightarrow> 'p list \<Rightarrow> 'w \<Rightarrow> 'x option \<times> 'w"

datatype 'x block_eval_error = ArgError eval_error | ToProxyError 'x | FactoryError string 'x | SetNameError 'x | CallError string 'x | NullBlock

record ('n, 'o, 'p) BlockEval =
  be_properties :: "(string \<times> ('n, 'o) obj_value) list"
  be_proxyBlock :: "'p option"
  be_path :: string
  be_evalEnv :: "'n constants"
  be_blockDesc :: BlockDesc

definition ProxyBlockEval_new :: "(string \<Rightarrow> BlockDesc) \<Rightarrow> string \<Rightarrow> 'n constants \<Rightarrow> ('n, 'o, 'p) BlockEval" where
  "ProxyBlockEval_new dumpJsonAt path evalEnv =
     \<lparr>be_properties = [], be_proxyBlock = None, be_path = path, be_evalEnv = evalEnv, be_blockDesc = dumpJsonAt path\<rparr>"

definition applyConstant ::
  "('o \<Rightarrow> 'n prim option) \<Rightarrow> ('n, 'o) evaluator \<Rightarrow> string \<Rightarrow> string \<Rightarrow> ('n, 'o, 'p) BlockEval \<Rightarrow> eval_error option \<times> ('n, 'o, 'p) BlockEval" where
  "applyConstant toNumber ev name expr b =
     (case registerConstantExpr toNumber ev name expr (be_evalEnv b) of (e, c) \<Rightarrow> (e, b\<lparr>be_evalEnv := c\<rparr>))"

definition removeConstant :: "string \<Rightarrow> ('n, 'o, 'p) BlockEval \<Rightarrow> ('n, 'o, 'p) BlockEval" where
  "removeConstant name b = b\<lparr>be_evalEnv := unregisterConstant name (be_evalEnv b)\<rparr>"

definition setProperty :: "string \<Rightarrow> ('n, 'o) obj_value \<Rightarrow> ('n, 'o, 'p) BlockEval \<Rightarrow> ('n, 'o, 'p) BlockEval" where
  "setProperty key val b = b\<lparr>be_properties := map_put key val (be_properties b)\<rparr>"

definition evalProperty ::
  "('n, 'o) evaluator \<Rightarrow> string \<Rightarrow> string \<Rightarrow> ('n, 'o, 'p) BlockEval \<Rightarrow> (eval_error + ('n, 'o) obj_value) \<times> ('n, 'o, 'p) BlockEval" where
  "evalProperty ev key expr b =
     (case ev (be_evalEnv b) expr of
        (Inl e, c) \<Rightarrow> (Inl e, b\<lparr>be_evalEnv := c\<rparr>)
      | (Inr val, c) \<Rightarrow> (Inr val, setProperty key val (b\<lparr>be_evalEnv := c\<rparr>)))"

text \<open>A string is evaluated in a new environment, with the properties that can be registered as its constants.\<close>

definition property_constants :: "('o \<Rightarrow> 'n prim option) \<Rightarrow> (string \<times> ('n, 'o) obj_value) list \<Rightarrow> 'n constants" where
  "property_constants toNumber properties = fold (\<lambda>(k, v) c. snd (registerConstantObj toNumber k v c)) properties Map.empty"

definition lookupOrEvalAsType ::
  "('o \<Rightarrow> 'n prim option) \<Rightarrow> ('n, 'o) evaluator \<Rightarrow> json_arg \<Rightarrow> ('n, 'o, 'p) BlockEval \<Rightarrow>
   (eval_error + ('n, 'o) obj_value) \<times> ('n, 'o, 'p) BlockEval" where
  "lookupOrEvalAsType toNumber ev arg b =
     (case arg of
        JNative text \<Rightarrow> (case ev (be_evalEnv b) text of (r, c) \<Rightarrow> (r, b\<lparr>be_evalEnv := c\<rparr>))
      | JString expr \<Rightarrow>
          (case map_of (be_properties b) expr of
             Some v \<Rightarrow> (Inr v, b)
           | None \<Rightarrow> (fst (ev (property_constants toNumber (be_properties b)) expr), b)))"

fun eval_args ::
  "('o \<Rightarrow> 'n prim option) \<Rightarrow> ('n, 'o) evaluator \<Rightarrow> (('n, 'o) obj_value \<Rightarrow> 'x + 'p) \<Rightarrow> json_arg list \<Rightarrow> ('n, 'o, 'p) BlockEval \<Rightarrow>
   ('x block_eval_error + 'p list) \<times> ('n, 'o, 'p) BlockEval" where
  "eval_args toNumber ev toProxy [] b = (Inr [], b)"
| "eval_args toNumber ev toProxy (arg # args) b =
     (case lookupOrEvalAsType toNumber ev arg b of
        (Inl e, b) \<Rightarrow> (Inl (ArgError e), b)
      | (Inr obj, b) \<Rightarrow>
          (case toProxy obj of
             Inl x \<Rightarrow> (Inl (ToProxyError x), b)
           | Inr p \<Rightarrow> (case eval_args toNumber ev toProxy args b of (r, b) \<Rightarrow> (map_sum id ((#) p) r, b))))"

text \<open>\<open>_handleCall\<close>, and the calls of a list one after the other until one throws.\<close>

definition handle_one ::
  "('o \<Rightarrow> 'n prim option) \<Rightarrow> ('n, 'o) evaluator \<Rightarrow> (('n, 'o) obj_value, 'p, 'w, 'x) BlockCalls \<Rightarrow> CallDesc \<Rightarrow>
   ('n, 'o, 'p) BlockEval \<times> 'w \<Rightarrow> 'x block_eval_error option \<times> ('n, 'o, 'p) BlockEval \<times> 'w" where
  "handle_one toNumber ev k call = (\<lambda>(b, w).
     (case eval_args toNumber ev (kc_toProxy k) (cd_args call) b of
        (Inl e, b) \<Rightarrow> (Some e, b, w)
      | (Inr args, b) \<Rightarrow>
          (case be_proxyBlock b of
             None \<Rightarrow> (Some NullBlock, b, w)
           | Some p \<Rightarrow> (case kc_call k p (cd_name call) args w of (x, w) \<Rightarrow> (map_option (CallError (cd_name call)) x, b, w)))))"

fun handle_calls ::
  "('o \<Rightarrow> 'n prim option) \<Rightarrow> ('n, 'o) evaluator \<Rightarrow> (('n, 'o) obj_value, 'p, 'w, 'x) BlockCalls \<Rightarrow> (CallDesc \<Rightarrow> bool) \<Rightarrow> CallDesc list \<Rightarrow>
   ('n, 'o, 'p) BlockEval \<times> 'w \<Rightarrow> 'x block_eval_error option \<times> ('n, 'o, 'p) BlockEval \<times> 'w" where
  "handle_calls toNumber ev k wanted [] s = (None, s)"
| "handle_calls toNumber ev k wanted (call # calls) s =
     (if \<not> wanted call then handle_calls toNumber ev k wanted calls s
      else case handle_one toNumber ev k call s of
             (Some e, s) \<Rightarrow> (Some e, s)
           | (None, s) \<Rightarrow> handle_calls toNumber ev k wanted calls s)"

definition handleCall ::
  "('o \<Rightarrow> 'n prim option) \<Rightarrow> ('n, 'o) evaluator \<Rightarrow> (('n, 'o) obj_value, 'p, 'w, 'x) BlockCalls \<Rightarrow> string \<Rightarrow>
   ('n, 'o, 'p) BlockEval \<times> 'w \<Rightarrow> 'x block_eval_error option \<times> ('n, 'o, 'p) BlockEval \<times> 'w" where
  "handleCall toNumber ev k callName s =
     handle_calls toNumber ev k (\<lambda>call. cd_name call = callName) (bd_calls (be_blockDesc (fst s))) s"

definition ProxyBlockEval_eval ::
  "('o \<Rightarrow> 'n prim option) \<Rightarrow> ('n, 'o) evaluator \<Rightarrow> (('n, 'o) obj_value, 'p, 'w, 'x) BlockCalls \<Rightarrow> string \<Rightarrow>
   ('n, 'o, 'p) BlockEval \<times> 'w \<Rightarrow> 'x block_eval_error option \<times> ('n, 'o, 'p) BlockEval \<times> 'w" where
  "ProxyBlockEval_eval toNumber ev k blockId = (\<lambda>(b, w).
     (case eval_args toNumber ev (kc_toProxy k) (bd_args (be_blockDesc b)) (b\<lparr>be_proxyBlock := None\<rparr>) of
        (Inl e, b) \<Rightarrow> (Some e, b, w)
      | (Inr args, b) \<Rightarrow>
          (case kc_make k (be_path b) args w of
             (Inl x, w) \<Rightarrow> (Some (FactoryError (be_path b) x), b, w)
           | (Inr p, w) \<Rightarrow>
               (case kc_toProxy k (OPrim (PStr blockId)) of
                  Inl x \<Rightarrow> (Some (ToProxyError x), b\<lparr>be_proxyBlock := Some p\<rparr>, w)
                | Inr name \<Rightarrow>
                    (case kc_call k p ''setName'' [name] w of
                       (Some x, w) \<Rightarrow> (Some (SetNameError x), b\<lparr>be_proxyBlock := Some p\<rparr>, w)
                     | (None, w) \<Rightarrow>
                         handle_calls toNumber ev k (\<lambda>_. True) (bd_calls (be_blockDesc b)) (b\<lparr>be_proxyBlock := Some p\<rparr>, w))))))"

subsection \<open>Arguments see the properties and nothing else\<close>

text \<open>
  \<open>lookupOrEvalAsType\<close> evaluates in a new environment so as not to poison the globals. The other direction holds too: when all
  arguments of the description are strings, the constants of the block's environment do not matter, and they stay as they are.
\<close>

definition strings_only :: "BlockDesc \<Rightarrow> bool" where
  "strings_only d \<longleftrightarrow> (\<forall>args \<in> insert (bd_args d) (cd_args ` set (bd_calls d)). \<forall>arg \<in> set args. \<exists>s. arg = JString s)"

definition with_env :: "'n constants \<Rightarrow> 'r \<times> ('n, 'o, 'p) BlockEval \<times> 'w \<Rightarrow> 'r \<times> ('n, 'o, 'p) BlockEval \<times> 'w" where
  "with_env c = (\<lambda>(r, b, w). (r, b\<lparr>be_evalEnv := c\<rparr>, w))"

lemma eval_args_env:
  "\<forall>arg \<in> set args. \<exists>s. arg = JString s \<Longrightarrow>
   eval_args toNumber ev toProxy args (b\<lparr>be_evalEnv := c\<rparr>) =
     (case eval_args toNumber ev toProxy args b of (r, b') \<Rightarrow> (r, b'\<lparr>be_evalEnv := c\<rparr>)) \<and> snd (eval_args toNumber ev toProxy args b) = b"
  by (induction args) (auto simp: lookupOrEvalAsType_def split: prod.splits sum.splits option.splits)

lemma handle_one_env:
  assumes "\<forall>arg \<in> set (cd_args call). \<exists>s. arg = JString s"
  shows "handle_one toNumber ev k call (b\<lparr>be_evalEnv := c\<rparr>, w) = with_env c (handle_one toNumber ev k call (b, w))"
    "fst (snd (handle_one toNumber ev k call (b, w))) = b"
  using eval_args_env [OF assms, where toNumber = toNumber and ev = ev and toProxy = "kc_toProxy k" and b = b and c = c]
  by (auto simp: handle_one_def with_env_def split: prod.splits sum.splits option.splits)

lemma handle_calls_env:
  "\<forall>call \<in> set calls. \<forall>arg \<in> set (cd_args call). \<exists>s. arg = JString s \<Longrightarrow>
   handle_calls toNumber ev k wanted calls (b\<lparr>be_evalEnv := c\<rparr>, w) = with_env c (handle_calls toNumber ev k wanted calls (b, w))
   \<and> fst (snd (handle_calls toNumber ev k wanted calls (b, w))) = b"
proof (induction calls arbitrary: w)
  case (Cons call calls)
  obtain r b' w' where one: "handle_one toNumber ev k call (b, w) = (r, b', w')" by (metis prod_cases3)
  have args: "\<forall>arg \<in> set (cd_args call). \<exists>s. arg = JString s" using Cons.prems by simp
  have "b' = b" using handle_one_env(2) [OF args, where toNumber = toNumber and ev = ev and k = k and b = b and w = w] one by simp
  then show ?case
    using Cons.IH [of w] Cons.IH [of w'] Cons.prems handle_one_env(1) [OF args, where toNumber = toNumber and ev = ev and k = k and b = b and c = c and w = w] one
    by (cases r) (auto simp: with_env_def split: prod.splits)
qed (simp add: with_env_def)

theorem constants_do_not_reach_arguments:
  assumes "strings_only (be_blockDesc b)"
  shows "ProxyBlockEval_eval toNumber ev k blockId (b\<lparr>be_evalEnv := c\<rparr>, w) = with_env c (ProxyBlockEval_eval toNumber ev k blockId (b, w))"
proof -
  have args: "\<forall>arg \<in> set (bd_args (be_blockDesc b)). \<exists>s. arg = JString s"
    and calls: "\<forall>call \<in> set (bd_calls (be_blockDesc b)). \<forall>arg \<in> set (cd_args call). \<exists>s. arg = JString s"
    using assms by (auto simp: strings_only_def)
  let ?b = "b\<lparr>be_proxyBlock := None\<rparr>"
  have swap: "b\<lparr>be_evalEnv := c, be_proxyBlock := q\<rparr> = b\<lparr>be_proxyBlock := q, be_evalEnv := c\<rparr>" for q by simp
  obtain r where r: "eval_args toNumber ev (kc_toProxy k) (bd_args (be_blockDesc b)) ?b = (r, ?b)"
    using eval_args_env [OF args, where toNumber = toNumber and ev = ev and toProxy = "kc_toProxy k" and b = ?b and c = c] by (metis prod.collapse)
  have "handle_calls toNumber ev k (\<lambda>_. True) (bd_calls (be_blockDesc b)) (b\<lparr>be_proxyBlock := Some p, be_evalEnv := c\<rparr>, w') =
      with_env c (handle_calls toNumber ev k (\<lambda>_. True) (bd_calls (be_blockDesc b)) (b\<lparr>be_proxyBlock := Some p\<rparr>, w'))" for p w'
    by (rule conjunct1 [OF handle_calls_env [OF calls]])
  then show ?thesis
    using eval_args_env [OF args, where toNumber = toNumber and ev = ev and toProxy = "kc_toProxy k" and b = ?b and c = c] r
    by (auto simp: ProxyBlockEval_eval_def swap with_env_def split: prod.splits sum.splits option.splits)
qed

text \<open>\<open>handleCall\<close> makes the calls of that name, in the order of the description, and no other.\<close>

theorem handleCall_makes_the_named_calls:
  "handleCall toNumber ev k n (b, w) =
   handle_calls toNumber ev k (\<lambda>_. True) (filter (\<lambda>call. cd_name call = n) (bd_calls (be_blockDesc b))) (b, w)"
proof -
  have "handle_calls toNumber ev k wanted calls s = handle_calls toNumber ev k (\<lambda>_. True) (filter wanted calls) s" for wanted calls s
    by (induction calls arbitrary: s) (auto split: prod.splits option.splits)
  then show ?thesis by (simp add: handleCall_def)
qed

text \<open>A property is found before it is evaluated: an argument that is the name of a property is its value, whatever the text would mean.\<close>

theorem property_is_used_as_it_is:
  "lookupOrEvalAsType toNumber ev (JString key) (setProperty key val b) = (Inr val, setProperty key val b)"
  by (simp add: lookupOrEvalAsType_def setProperty_def)

end
