(* ===== verification/BufferConversion.thy ===== *)
theory BufferConversion
  imports BufferChunk
begin

section \<open>Conversion of the elements of buffers\<close>

text \<open>
  \<open>lib/Framework/BufferConvert.cpp\<close> and \<open>lib/SIMD/SIMDConvert.cpp\<close>: the tables of converters, the loops over elements, the
  dispatch to vector registers and the four conversions of a \<open>BufferChunk\<close>.

  \<^item> Scalars are little-endian bytes in memory. A cast between integers is written out; casts from and to floating point numbers
    are the argument \<open>fc\<close>, of which only the sizes, and that a cast to the same type changes nothing, are used.
  \<^item> The vector library is the record \<open>Simd\<close>: which types and conversions the instruction set has, how many elements fit a
    register, and what the conversion of a register does.
  \<^item> \<open>None\<close> is the division by a size of zero.
\<close>

subsection \<open>Scalars\<close>

definition convert_types :: "elem_type list" where
  "convert_types = [Int8, UInt8, Int16, UInt16, Int32, UInt32, Int64, UInt64, Float32, Float64]"

definition complex_type :: "elem_type \<Rightarrow> elem_type" where
  "complex_type c = (Complex_flag OR c)"

definition elem_size :: "elem_type \<Rightarrow> nat" where
  "elem_size c = (case map_of elemTable c of Some (_, s) \<Rightarrow> s | None \<Rightarrow> 0)"

definition is_floating :: "elem_type \<Rightarrow> bool" where
  "is_floating c \<longleftrightarrow> c AND Float_flag \<noteq> 0"

fun le_value :: "8 word list \<Rightarrow> int" where
  "le_value [] = 0"
| "le_value (b # bs) = uint b + 256 * le_value bs"

fun le_bytes :: "nat \<Rightarrow> int \<Rightarrow> 8 word list" where
  "le_bytes 0 x = []"
| "le_bytes (Suc n) x = word_of_int x # le_bytes n (x div 256)"

definition int_of_bytes :: "bool \<Rightarrow> 8 word list \<Rightarrow> int" where
  "int_of_bytes isSigned bs =
     (let u = le_value bs in if isSigned \<and> 2 * u \<ge> 256 ^ length bs then u - 256 ^ length bs else u)"

type_synonym float_cast = "elem_type \<Rightarrow> elem_type \<Rightarrow> 8 word list \<Rightarrow> 8 word list"

definition static_cast :: "float_cast \<Rightarrow> elem_type \<Rightarrow> elem_type \<Rightarrow> 8 word list \<Rightarrow> 8 word list" where
  "static_cast fc i out bs =
     (if is_floating i \<or> is_floating out then fc i out bs
      else le_bytes (elem_size out) (int_of_bytes (i AND Signed_flag \<noteq> 0) bs))"

subsection \<open>Loops over elements\<close>

definition store :: "size_t \<Rightarrow> 8 word list \<Rightarrow> Mem \<Rightarrow> Mem" where
  "store dst bs m = (\<lambda>a. if dst \<le> a \<and> a < dst + length bs then bs ! (a - dst) else m a)"

text \<open>One iteration reads an element of \<open>si\<close> bytes and writes one of \<open>so\<close> bytes.\<close>

definition elem_step :: "nat \<Rightarrow> nat \<Rightarrow> (8 word list \<Rightarrow> 8 word list) \<Rightarrow> size_t \<Rightarrow> size_t \<Rightarrow> nat \<Rightarrow> Mem \<Rightarrow> Mem" where
  "elem_step si so g inp outp k m = store (outp + k * so) (g (bytes m (inp + k * si) si)) m"

definition elem_loop :: "nat \<Rightarrow> nat \<Rightarrow> (8 word list \<Rightarrow> 8 word list) \<Rightarrow> size_t \<Rightarrow> size_t \<Rightarrow> nat list \<Rightarrow> Mem \<Rightarrow> Mem" where
  "elem_loop si so g inp outp ks m = fold (elem_step si so g inp outp) ks m"

definition rawConvertRealToComplex :: "float_cast \<Rightarrow> elem_type \<Rightarrow> elem_type \<Rightarrow> size_t \<Rightarrow> size_t \<Rightarrow> nat \<Rightarrow> Mem \<Rightarrow> Mem" where
  "rawConvertRealToComplex fc i out inp outp num m =
     elem_loop (elem_size i) (2 * elem_size out) (\<lambda>bs. static_cast fc i out bs @ replicate (elem_size out) 0) inp outp [0..<num] m"

definition rawConvertComponents :: "float_cast \<Rightarrow> elem_type \<Rightarrow> elem_type \<Rightarrow> size_t \<Rightarrow> size_t \<Rightarrow> size_t \<Rightarrow> nat \<Rightarrow> Mem \<Rightarrow> Mem" where
  "rawConvertComponents fc i out inp outRe outIm num m =
     fold (\<lambda>k m.
       let m = store (outRe + k * elem_size out) (static_cast fc i out (bytes m (inp + k * (2 * elem_size i)) (elem_size i))) m
       in store (outIm + k * elem_size out) (static_cast fc i out (bytes m (inp + k * (2 * elem_size i) + elem_size i) (elem_size i))) m)
     [0..<num] m"

subsection \<open>Vector registers\<close>

record Simd =
  sm_supported :: "elem_type \<Rightarrow> bool"
  sm_has :: "elem_type \<Rightarrow> elem_type \<Rightarrow> bool"
  sm_fastSize :: "elem_type \<Rightarrow> nat"
  sm_convert :: "elem_type \<Rightarrow> elem_type \<Rightarrow> 8 word list \<Rightarrow> 8 word list"

definition canConvertTo :: "Simd \<Rightarrow> elem_type \<Rightarrow> elem_type \<Rightarrow> bool" where
  "canConvertTo simd i out \<longleftrightarrow>
     (if i = Int32 \<or> i = UInt32 then out \<noteq> Int8 \<and> out \<noteq> UInt8
      else if i = Int64 \<or> i = UInt64 then (out = Float32 \<or> out = Float64) \<and> sm_has simd i out
      else if i = Float32 then (if out = Int64 \<or> out = UInt64 then sm_has simd i out else True)
      else if i = Float64 then (if out = Int64 \<or> out = UInt32 \<or> out = UInt64 then sm_has simd i out else True)
      else True)"

definition CanInstructionSetConvert :: "Simd \<Rightarrow> elem_type \<Rightarrow> elem_type \<Rightarrow> bool" where
  "CanInstructionSetConvert simd i out \<longleftrightarrow>
     i \<noteq> out \<and> \<not> (is_floating i \<and> \<not> is_floating out) \<and> sm_supported simd i \<and> sm_supported simd out \<and> canConvertTo simd i out"

definition simdConvertScalars :: "Simd \<Rightarrow> float_cast \<Rightarrow> elem_type \<Rightarrow> elem_type \<Rightarrow> size_t \<Rightarrow> size_t \<Rightarrow> nat \<Rightarrow> Mem \<Rightarrow> Mem" where
  "simdConvertScalars simd fc i out inp outp bufferLen m =
     (if CanInstructionSetConvert simd i out then
        let frameSize = sm_fastSize simd i;
            numFrames = bufferLen div frameSize;
            m = elem_loop (frameSize * elem_size i) (frameSize * elem_size out) (sm_convert simd i out) inp outp [0..<numFrames] m
        in elem_loop (elem_size i) (elem_size out) (static_cast fc i out) inp outp [frameSize * numFrames..<bufferLen] m
      else if i = out then memcpy outp inp (bufferLen * elem_size i) m
      else elem_loop (elem_size i) (elem_size out) (static_cast fc i out) inp outp [0..<bufferLen] m)"

definition simdConvertComplex :: "Simd \<Rightarrow> float_cast \<Rightarrow> elem_type \<Rightarrow> elem_type \<Rightarrow> size_t \<Rightarrow> size_t \<Rightarrow> nat \<Rightarrow> Mem \<Rightarrow> Mem" where
  "simdConvertComplex simd fc i out inp outp bufferLen m = simdConvertScalars simd fc i out inp outp (bufferLen * 2) m"


subsection \<open>The tables of converters\<close>

definition dtypeIOToHash :: "elem_type \<Rightarrow> elem_type \<Rightarrow> nat" where
  "dtypeIOToHash i out = (i OR push_bit 16 out)"

datatype converter = SimdScalars elem_type elem_type | RealToComplex elem_type elem_type | SimdComplex elem_type elem_type

record BufferConvertImpl =
  convertMap :: "nat \<rightharpoonup> converter"
  convertComplexMap :: "nat \<rightharpoonup> elem_type \<times> elem_type"

definition registerConverter :: "elem_type \<times> elem_type \<Rightarrow> BufferConvertImpl \<Rightarrow> BufferConvertImpl" where
  "registerConverter = (\<lambda>(i, out) t.
     t\<lparr>convertMap := (convertMap t)(dtypeIOToHash i out \<mapsto> SimdScalars i out,
                                    dtypeIOToHash i (complex_type out) \<mapsto> RealToComplex i out,
                                    dtypeIOToHash (complex_type i) (complex_type out) \<mapsto> SimdComplex i out),
       convertComplexMap := (convertComplexMap t)(dtypeIOToHash (complex_type i) out \<mapsto> (i, out))\<rparr>)"

definition getBufferConvertImpl :: BufferConvertImpl where
  "getBufferConvertImpl =
     fold registerConverter (List.product convert_types convert_types) \<lparr>convertMap = Map.empty, convertComplexMap = Map.empty\<rparr>"

definition run_converter :: "Simd \<Rightarrow> float_cast \<Rightarrow> converter \<Rightarrow> size_t \<Rightarrow> size_t \<Rightarrow> nat \<Rightarrow> Mem \<Rightarrow> Mem" where
  "run_converter simd fc conv inp outp num m =
     (case conv of
        SimdScalars i out \<Rightarrow> simdConvertScalars simd fc i out inp outp num m
      | RealToComplex i out \<Rightarrow> rawConvertRealToComplex fc i out inp outp num m
      | SimdComplex i out \<Rightarrow> simdConvertComplex simd fc i out inp outp num m)"

subsection \<open>Conversion of chunks\<close>

datatype convert_error = CannotConvert elem_type | InsufficientBuffer | DTypeMismatch

text \<open>The numbers of primitive elements to convert and of output elements; \<open>requested = 0\<close> is the whole chunk.\<close>

definition convert_counts :: "BufferChunk \<Rightarrow> DType \<Rightarrow> size_t \<Rightarrow> (size_t \<times> size_t) option" where
  "convert_counts c outDType requested = do {
     numElems \<leftarrow> (if requested = 0 then BufferChunk_elements c else Some requested);
     let sizes = (dt_elemSize (bc_dtype c), dt_elemSize outDType);
     if fst sizes = 0 \<or> snd sizes = 0 then None
     else do {
       let primElems = sz_mul numElems (DType_size (bc_dtype c)) div fst sizes;
       let outElems = sz_mul primElems (DType_size outDType) div snd sizes;
       Some (primElems, outElems) } }"

definition same_representation :: "DType \<Rightarrow> DType \<Rightarrow> bool" where
  "same_representation a b \<longleftrightarrow>
     dt_elemType a = dt_elemType b \<or>
     dt_elemSize a = dt_elemSize b \<and> DType_isInteger a = DType_isInteger b \<and> DType_isComplex a = DType_isComplex b"

definition BufferChunk_convert ::
  "(size_t \<Rightarrow> SharedBuffer) \<Rightarrow> Simd \<Rightarrow> float_cast \<Rightarrow> BufferChunk \<Rightarrow> DType \<Rightarrow> size_t \<Rightarrow> Heap \<times> Mem \<Rightarrow>
   ((convert_error + BufferChunk) \<times> Heap \<times> Mem) option" where
  "BufferChunk_convert sbMake simd fc c outDType requested = (\<lambda>(h, mem). do {
     (primElems, outElems) \<leftarrow> convert_counts c outDType requested;
     if same_representation outDType (bc_dtype c) then do {
       (out, h) \<leftarrow> BufferChunk_copy c h;
       Some (Inr (out\<lparr>bc_dtype := outDType, bc_length := sz_mul (DType_size outDType) outElems\<rparr>), h, mem) }
     else case convertMap getBufferConvertImpl (dtypeIOToHash (dt_elemType (bc_dtype c)) (dt_elemType outDType)) of
       None \<Rightarrow> Some (Inl (CannotConvert (dt_elemType (bc_dtype c))), h, mem)
     | Some conv \<Rightarrow> do {
         (out, h) \<leftarrow> BufferChunk_new_dtype sbMake outDType outElems h;
         Some (Inr out, h, run_converter simd fc conv (bc_address c) (bc_address out) primElems mem) } })"

definition BufferChunk_convertComplex ::
  "(size_t \<Rightarrow> SharedBuffer) \<Rightarrow> (size_t \<Rightarrow> SharedBuffer) \<Rightarrow> float_cast \<Rightarrow> BufferChunk \<Rightarrow> DType \<Rightarrow> size_t \<Rightarrow> Heap \<times> Mem \<Rightarrow>
   ((convert_error + BufferChunk \<times> BufferChunk) \<times> Heap \<times> Mem) option" where
  "BufferChunk_convertComplex sbMakeRe sbMakeIm fc c outDType requested = (\<lambda>(h, mem). do {
     (primElems, outElems) \<leftarrow> convert_counts c outDType requested;
     case convertComplexMap getBufferConvertImpl (dtypeIOToHash (dt_elemType (bc_dtype c)) (dt_elemType outDType)) of
       None \<Rightarrow> Some (Inl (CannotConvert (dt_elemType (bc_dtype c))), h, mem)
     | Some (i, out) \<Rightarrow> do {
         (outRe, h) \<leftarrow> BufferChunk_new_dtype sbMakeRe outDType outElems h;
         (outIm, h) \<leftarrow> BufferChunk_new_dtype sbMakeIm outDType outElems h;
         Some (Inr (outRe, outIm), h,
           rawConvertComponents fc i out (bc_address c) (bc_address outRe) (bc_address outIm) primElems mem) } })"

definition BufferChunk_convert_into ::
  "Simd \<Rightarrow> float_cast \<Rightarrow> BufferChunk \<Rightarrow> BufferChunk \<Rightarrow> size_t \<Rightarrow> Mem \<Rightarrow> ((convert_error + size_t) \<times> Mem) option" where
  "BufferChunk_convert_into simd fc c out requested mem = do {
     (primElems, outElems) \<leftarrow> convert_counts c (bc_dtype out) requested;
     room \<leftarrow> BufferChunk_elements out;
     if room < outElems then Some (Inl InsufficientBuffer, mem)
     else case convertMap getBufferConvertImpl (dtypeIOToHash (dt_elemType (bc_dtype c)) (dt_elemType (bc_dtype out))) of
       None \<Rightarrow> Some (Inl (CannotConvert (dt_elemType (bc_dtype c))), mem)
     | Some conv \<Rightarrow> Some (Inr outElems, run_converter simd fc conv (bc_address c) (bc_address out) primElems mem) }"

definition BufferChunk_convertComplex_into ::
  "float_cast \<Rightarrow> BufferChunk \<Rightarrow> BufferChunk \<Rightarrow> BufferChunk \<Rightarrow> size_t \<Rightarrow> Mem \<Rightarrow> ((convert_error + size_t) \<times> Mem) option" where
  "BufferChunk_convertComplex_into fc c outRe outIm requested mem = do {
     (primElems, outElems) \<leftarrow> convert_counts c (bc_dtype outRe) requested;
     if \<not> DType_eq (bc_dtype outRe) (bc_dtype outIm) then Some (Inl DTypeMismatch, mem)
     else do {
       roomRe \<leftarrow> BufferChunk_elements outRe;
       if roomRe < outElems then Some (Inl InsufficientBuffer, mem)
       else do {
         roomIm \<leftarrow> BufferChunk_elements outIm;
         if roomIm < outElems then Some (Inl InsufficientBuffer, mem)
         else case convertComplexMap getBufferConvertImpl (dtypeIOToHash (dt_elemType (bc_dtype c)) (dt_elemType (bc_dtype outRe))) of
           None \<Rightarrow> Some (Inl (CannotConvert (dt_elemType (bc_dtype c))), mem)
         | Some (i, out) \<Rightarrow>
             Some (Inr outElems, rawConvertComponents fc i out (bc_address c) (bc_address outRe) (bc_address outIm) primElems mem) } } }"

subsection \<open>Loops convert element by element\<close>

definition elems :: "Mem \<Rightarrow> size_t \<Rightarrow> nat \<Rightarrow> nat \<Rightarrow> 8 word list list" where
  "elems m a s n = map (\<lambda>k. bytes m (a + k * s) s) [0..<n]"

lemma bytes_cong: "(\<And>x. a \<le> x \<Longrightarrow> x < a + n \<Longrightarrow> m' x = m x) \<Longrightarrow> bytes m' a n = bytes m a n"
  by (simp add: bytes_def)

lemma bytes_store: "length bs = n \<Longrightarrow> bytes (store d bs m) d n = bs"
  by (rule nth_equalityI) (simp_all add: store_def)

lemma store_outside: "a < d \<or> d + length bs \<le> a \<Longrightarrow> store d bs m a = m a"
  by (auto simp: store_def)

lemma elem_loop_result:
  assumes "a \<le> b" "disjoint_range (outp + a * so) ((b - a) * so) inp (b * si)" "\<forall>bs. length bs = si \<longrightarrow> length (g bs) = so"
  shows "bytes (elem_loop si so g inp outp [a..<b] m) (outp + a * so) ((b - a) * so) =
      concat (map (\<lambda>k. g (bytes m (inp + k * si) si)) [a..<b])
    \<and> (\<forall>x. x < outp + a * so \<or> outp + b * so \<le> x \<longrightarrow> elem_loop si so g inp outp [a..<b] m x = m x)"
  using assms(1,2)
proof (induction "b - a" arbitrary: b)
  case 0
  then show ?case by (simp add: elem_loop_def bytes_def)
next
  case (Suc d)
  then obtain c where b: "b = Suc c" "a \<le> c" by (cases b) auto
  let ?m = "elem_loop si so g inp outp [a..<c] m" and ?w = "g (bytes m (inp + c * si) si)"
  have size: "(b - a) * so = (c - a) * so + so" using b by (simp add: Suc_diff_le)
  have place: "outp + a * so + (c - a) * so = outp + c * so" using b by (simp add: diff_mult_distrib)
  have dis: "disjoint_range (outp + a * so) ((c - a) * so) inp (c * si)"
    using Suc.prems(2) size b by (auto simp: disjoint_range_def)
  note IH = Suc.hyps(1) [of c, OF _ b(2) dis]
  have d: "d = c - a" using Suc.hyps(2) b by simp
  have res: "bytes ?m (outp + a * so) ((c - a) * so) = concat (map (\<lambda>k. g (bytes m (inp + k * si) si)) [a..<c])"
    and outside: "\<And>x. x < outp + a * so \<or> outp + c * so \<le> x \<Longrightarrow> ?m x = m x"
    using IH [OF d] by auto
  have "bytes ?m (inp + c * si) si = bytes m (inp + c * si) si"
    using Suc.prems(2) place size b by (intro bytes_cong outside) (auto simp: disjoint_range_def)
  then have loop: "elem_loop si so g inp outp [a..<b] m = store (outp + c * so) ?w ?m"
    using b by (simp add: elem_loop_def elem_step_def)
  have w: "length ?w = so" using assms(3) by simp
  have "bytes (store (outp + c * so) ?w ?m) (outp + a * so) ((c - a) * so) = bytes ?m (outp + a * so) ((c - a) * so)"
    using place by (intro bytes_cong store_outside) auto
  then have "bytes (elem_loop si so g inp outp [a..<b] m) (outp + a * so) ((b - a) * so) =
      concat (map (\<lambda>k. g (bytes m (inp + k * si) si)) [a..<b])"
    unfolding size bytes_split place loop using res bytes_store [OF w] b by simp
  moreover have "elem_loop si so g inp outp [a..<b] m x = m x" if "x < outp + a * so \<or> outp + b * so \<le> x" for x
  proof -
    have le: "outp + a * so \<le> outp + c * so" using b by simp
    have "x < outp + c * so \<or> outp + c * so + so \<le> x" "x < outp + a * so \<or> outp + c * so \<le> x"
      using that le unfolding b(1) mult_Suc by linarith+
    then show ?thesis unfolding loop using store_outside [of x "outp + c * so" ?w] outside unfolding w by metis
  qed
  ultimately show ?case by blast
qed


subsection \<open>Integers\<close>

lemma length_le_bytes [simp]: "length (le_bytes n x) = n"
  by (induction n x rule: le_bytes.induct) simp_all

lemma le_value_bounds: "0 \<le> le_value bs \<and> le_value bs < 256 ^ length bs"
proof (induction bs)
  case (Cons b bs)
  have "uint b \<le> 255" using uint_lt2p [of b] by simp
  then show ?case using Cons by simp
qed simp

lemma byte_add: "(word_of_int (x + 256 * z) :: 8 word) = word_of_int x"
  by (simp only: word_of_int_eq_iff take_bit_eq_mod) simp

lemma le_bytes_value: "le_bytes (length bs) (le_value bs) = bs"
proof (induction bs)
  case (Cons b bs)
  have "uint b < 256" "0 \<le> uint b" using uint_lt2p [of b] by simp_all
  then have "(uint b + 256 * le_value bs) div 256 = le_value bs" by simp
  then show ?case using Cons by (simp only: le_bytes.simps le_value.simps list.size add_0_right add_Suc_right byte_add word_of_int_uint)
qed simp

lemma le_bytes_add: "le_bytes n (x + 256 ^ n * y) = le_bytes n x"
proof (induction n arbitrary: x)
  case (Suc n)
  have "(x + 256 * (256 ^ n * y)) div 256 = x div 256 + 256 ^ n * y" by simp
  then show ?case by (simp only: le_bytes.simps power_Suc mult.assoc byte_add add.commute [of "x div 256"] Suc [of "x div 256", unfolded add.commute [of "x div 256"]])
qed simp

lemma le_bytes_int_of_bytes: "le_bytes (length bs) (int_of_bytes s bs) = bs"
  using le_bytes_add [of "length bs" "le_value bs" "- 1"] le_bytes_value [of bs] by (simp add: int_of_bytes_def Let_def)

lemma le_value_le_bytes: "le_value (le_bytes n x) = x mod 256 ^ n"
proof (induction n arbitrary: x)
  case (Suc n)
  have "uint (word_of_int x :: 8 word) = x mod 256" by (simp add: uint_word_of_int)
  then show ?case using Suc [of "x div 256"] mod_mult2_eq' [of x 256 "256 ^ n"] by (simp add: mod_mult2_eq' add.commute)
qed simp

text \<open>A cast to an integer type that has the value keeps it.\<close>

definition int_range :: "elem_type \<Rightarrow> int set" where
  "int_range c = (if c AND Signed_flag \<noteq> 0 then {- (256 ^ elem_size c div 2) ..< 256 ^ elem_size c div 2} else {0 ..< 256 ^ elem_size c})"

lemma int_cast_value:
  assumes "\<not> is_floating i" "\<not> is_floating out" "0 < elem_size out"
    and "int_of_bytes (i AND Signed_flag \<noteq> 0) bs \<in> int_range out"
  shows "int_of_bytes (out AND Signed_flag \<noteq> 0) (static_cast fc i out bs) = int_of_bytes (i AND Signed_flag \<noteq> 0) bs"
proof -
  let ?x = "int_of_bytes (i AND Signed_flag \<noteq> 0) bs" and ?n = "elem_size out"
  have even: "256 ^ ?n = 2 * (256 ^ ?n div 2 :: int)" using assms(3) by simp
  have range: "?x \<in> (if out AND Signed_flag \<noteq> 0 then {- (256 ^ ?n div 2) ..< 256 ^ ?n div 2} else {0 ..< 256 ^ ?n})"
    using assms(4) by (simp add: int_range_def)
  show ?thesis
  proof (cases "0 \<le> ?x")
    case True
    then have "?x mod 256 ^ ?n = ?x" using range even by (intro mod_pos_pos_trivial) (auto split: if_splits)
    then show ?thesis using assms(1,2) range even True
      by (auto simp: static_cast_def int_of_bytes_def [of _ "le_bytes _ _"] le_value_le_bytes Let_def split: if_splits)
  next
    case False
    then have "(?x + 256 ^ ?n) mod 256 ^ ?n = ?x + 256 ^ ?n" using range even by (intro mod_pos_pos_trivial) (auto split: if_splits)
    then have "?x mod 256 ^ ?n = ?x + 256 ^ ?n" by simp
    then show ?thesis using assms(1,2) range even False
      by (auto simp: static_cast_def int_of_bytes_def [of _ "le_bytes _ _"] le_value_le_bytes Let_def split: if_splits)
  qed
qed


subsection \<open>The vector path is the scalar loop\<close>

text \<open>What is relied on: the sizes of floating point casts, and that the vector library converts the elements of a register like casts.\<close>

definition casts_ok :: "float_cast \<Rightarrow> bool" where
  "casts_ok fc \<longleftrightarrow> (\<forall>i \<in> set convert_types. \<forall>out \<in> set convert_types. \<forall>bs. length bs = elem_size i \<longrightarrow>
     length (fc i out bs) = elem_size out \<and> (i = out \<longrightarrow> fc i out bs = bs))"

definition pieces :: "nat \<Rightarrow> nat \<Rightarrow> 8 word list \<Rightarrow> 8 word list list" where
  "pieces s n bs = map (\<lambda>k. take s (drop (k * s) bs)) [0..<n]"

definition simd_ok :: "Simd \<Rightarrow> float_cast \<Rightarrow> bool" where
  "simd_ok simd fc \<longleftrightarrow> (\<forall>i \<in> set convert_types. 0 < sm_fastSize simd i \<and> (\<forall>out \<in> set convert_types. \<forall>bs.
     length bs = sm_fastSize simd i * elem_size i \<longrightarrow>
     sm_convert simd i out bs = concat (map (static_cast fc i out) (pieces (elem_size i) (sm_fastSize simd i) bs))))"

lemma length_static_cast:
  assumes "casts_ok fc" "i \<in> set convert_types" "out \<in> set convert_types" "length bs = elem_size i"
  shows "length (static_cast fc i out bs) = elem_size out"
  using assms by (auto simp: static_cast_def casts_ok_def)

lemma static_cast_same:
  assumes "casts_ok fc" "i \<in> set convert_types" "length bs = elem_size i"
  shows "static_cast fc i i bs = bs"
  using assms le_bytes_int_of_bytes [of bs] by (simp add: static_cast_def casts_ok_def)

lemma pieces_bytes: "pieces s n (bytes m a (n * s)) = elems m a s n"
proof (rule nth_equalityI)
  fix k assume "k < length (pieces s n (bytes m a (n * s)))"
  then have k: "k < n" by (simp add: pieces_def)
  then have "k * s + s \<le> n * s" by (metis Suc_leI add.commute mult_Suc mult_le_mono1)
  then show "pieces s n (bytes m a (n * s)) ! k = elems m a s n ! k"
    using k by (intro nth_equalityI) (auto simp: pieces_def elems_def add.assoc)
qed (simp add: pieces_def elems_def)

lemma memcpy_outside: "x < d \<or> d + n \<le> x \<Longrightarrow> memcpy d s n m x = m x"
  by (auto simp: memcpy_def)

lemma concat_elems: "concat (elems m a s n) = bytes m a (n * s)"
proof (induction n)
  case (Suc n)
  have "bytes m a (Suc n * s) = bytes m a (n * s) @ bytes m (a + n * s) s" using bytes_split [of m a "n * s" s] by (simp add: add.commute)
  then show ?case using Suc by (simp add: elems_def)
qed (simp add: elems_def bytes_def)

lemma concat_frames: "concat (map (\<lambda>f. concat (map (\<lambda>k. h (F * f + k)) [0..<F])) [0..<N]) = concat (map h [0..<F * N])"
proof (induction N)
  case (Suc N)
  have *: "[0..<F * Suc N] = [0..<F * N] @ map (\<lambda>k. F * N + k) [0..<F]"
    by (rule nth_equalityI) (auto simp: nth_append)
  show ?case unfolding * using Suc by (simp add: comp_def)
qed simp

lemma length_concat_const: "(\<And>x. x \<in> set xs \<Longrightarrow> length x = s) \<Longrightarrow> length (concat xs) = length xs * s"
  by (induction xs) auto

lemma length_pieces [simp]: "length (pieces s n bs) = n"
  by (simp add: pieces_def)

lemma length_elem_pieces: "length bs = n * s \<Longrightarrow> x \<in> set (pieces s n bs) \<Longrightarrow> length x = s"
proof -
  assume bs: "length bs = n * s" and "x \<in> set (pieces s n bs)"
  then obtain k where k: "k < n" "x = take s (drop (k * s) bs)" by (auto simp: pieces_def)
  then have "k * s + s \<le> n * s" by (metis Suc_leI add.commute mult_Suc mult_le_mono1)
  then show ?thesis using k bs by auto
qed

theorem simd_convert_elementwise:
  assumes casts: "casts_ok fc" and simd: "simd_ok simd fc" and types: "i \<in> set convert_types" "out \<in> set convert_types"
    and dis: "disjoint_range outp (n * elem_size out) inp (n * elem_size i)"
  shows "bytes (simdConvertScalars simd fc i out inp outp n m) outp (n * elem_size out) =
      concat (map (static_cast fc i out) (elems m inp (elem_size i) n))
    \<and> (\<forall>x. x < outp \<or> outp + n * elem_size out \<le> x \<longrightarrow> simdConvertScalars simd fc i out inp outp n m x = m x)"
proof -
  let ?si = "elem_size i" and ?so = "elem_size out" and ?c = "static_cast fc i out"
  have size: "\<forall>bs. length bs = ?si \<longrightarrow> length (?c bs) = ?so" using length_static_cast [OF casts types] by blast
  have spec: "concat (map ?c (elems m inp ?si n)) = concat (map (\<lambda>k. ?c (bytes m (inp + k * ?si) ?si)) [0..<n])"
    by (simp add: elems_def comp_def)
  consider "CanInstructionSetConvert simd i out" | "\<not> CanInstructionSetConvert simd i out" "i = out"
    | "\<not> CanInstructionSetConvert simd i out" "i \<noteq> out" by blast
  then show ?thesis
  proof cases
    case 1
    define F where "F = sm_fastSize simd i"
    define N where "N = n div F"
    define m1 where "m1 = elem_loop (F * ?si) (F * ?so) (sm_convert simd i out) inp outp [0..<N] m"
    have F: "0 < F" and conv: "\<And>bs. length bs = F * ?si \<Longrightarrow> sm_convert simd i out bs = concat (map ?c (pieces ?si F bs))"
      using simd types by (auto simp: simd_ok_def F_def)
    have NF: "F * N \<le> n" by (simp add: N_def)
    have run: "simdConvertScalars simd fc i out inp outp n m = elem_loop ?si ?so ?c inp outp [F * N..<n] m1"
      using 1 by (simp add: simdConvertScalars_def Let_def m1_def F_def N_def)
    have "length (sm_convert simd i out bs) = F * ?so" if "length bs = F * ?si" for bs
      unfolding conv [OF that] using length_concat_const [of "map ?c (pieces ?si F bs)" ?so] size length_elem_pieces [OF that] by auto
    then have frames: "\<forall>bs. length bs = F * ?si \<longrightarrow> length (sm_convert simd i out bs) = F * ?so" by blast
    have "F * N * ?so \<le> n * ?so" "F * N * ?si \<le> n * ?si" using NF by (rule mult_le_mono1)+
    then have "disjoint_range outp (F * N * ?so) inp (F * N * ?si)" using dis unfolding disjoint_range_def by linarith
    then have "disjoint_range (outp + 0 * (F * ?so)) ((N - 0) * (F * ?so)) inp (N * (F * ?si))"
      by (simp only: mult_0 add_0_right diff_zero mult.assoc [symmetric] mult.commute [of N F])
    from elem_loop_result [where a = 0 and b = N and g = "sm_convert simd i out" and m = m, OF _ this frames]
    have r1: "bytes m1 outp (F * N * ?so) = concat (map (\<lambda>f. sm_convert simd i out (bytes m (inp + f * (F * ?si)) (F * ?si))) [0..<N])"
      and o1: "\<And>x. x < outp \<or> outp + F * N * ?so \<le> x \<Longrightarrow> m1 x = m x"
      by (auto simp: m1_def ac_simps)
    have "sm_convert simd i out (bytes m (inp + f * (F * ?si)) (F * ?si)) =
        concat (map (\<lambda>k. ?c (bytes m (inp + (F * f + k) * ?si) ?si)) [0..<F])" for f
      using conv [of "bytes m (inp + f * (F * ?si)) (F * ?si)"]
      by (simp add: pieces_bytes elems_def comp_def algebra_simps)
    then have r1: "bytes m1 outp (F * N * ?so) = concat (map (\<lambda>k. ?c (bytes m (inp + k * ?si) ?si)) [0..<F * N])"
      unfolding r1 using concat_frames [of "\<lambda>k. ?c (bytes m (inp + k * ?si) ?si)" F N] by simp
    have so: "(n - F * N) * ?so + F * N * ?so = n * ?so" using NF by (simp add: diff_mult_distrib)
    then have "disjoint_range (outp + F * N * ?so) ((n - F * N) * ?so) inp (n * ?si)"
      using dis by (auto simp: disjoint_range_def)
    note rest = elem_loop_result [where g = ?c and m = m1, OF NF this size]
    have in_same: "bytes m1 (inp + k * ?si) ?si = bytes m (inp + k * ?si) ?si" if "k < n" for k
    proof (intro bytes_cong o1)
      fix x assume "inp + k * ?si \<le> x" "x < inp + k * ?si + ?si"
      moreover have "k * ?si + ?si \<le> n * ?si" using that by (metis Suc_leI add.commute mult_Suc mult_le_mono1)
      ultimately show "x < outp \<or> outp + F * N * ?so \<le> x" using dis so by (auto simp: disjoint_range_def)
    qed
    have "bytes (elem_loop ?si ?so ?c inp outp [F * N..<n] m1) outp (F * N * ?so) = bytes m1 outp (F * N * ?so)"
      using rest by (intro bytes_cong) auto
    moreover have "bytes (elem_loop ?si ?so ?c inp outp [F * N..<n] m1) (outp + F * N * ?so) ((n - F * N) * ?so) =
        concat (map (\<lambda>k. ?c (bytes m (inp + k * ?si) ?si)) [F * N..<n])"
      by (rule trans [OF conjunct1 [OF rest]], intro arg_cong [where f = concat] map_cong) (use in_same in auto)
    moreover have "n * ?so = F * N * ?so + (n - F * N) * ?so" using so by simp
    ultimately have "bytes (elem_loop ?si ?so ?c inp outp [F * N..<n] m1) outp (n * ?so) =
        concat (map (\<lambda>k. ?c (bytes m (inp + k * ?si) ?si)) ([0..<F * N] @ [F * N..<n]))"
      using r1 by (simp add: bytes_split)
    moreover have "[0..<F * N] @ [F * N..<n] = [0..<n]" using upt_add_eq_append [of 0 "F * N" "n - F * N"] NF by simp
    moreover have "elem_loop ?si ?so ?c inp outp [F * N..<n] m1 x = m x" if "x < outp \<or> outp + n * ?so \<le> x" for x
      using that rest o1 [of x] so by auto
    ultimately show ?thesis unfolding run spec by auto
  next
    case 2
    have "concat (map ?c (elems m inp ?si n)) = bytes m inp (n * ?si)"
      using static_cast_same [OF casts types(1)] 2(2) by (simp add: elems_def comp_def concat_elems [unfolded elems_def])
    then show ?thesis using 2 by (auto simp: simdConvertScalars_def bytes_memcpy memcpy_outside)
  next
    case 3
    then show ?thesis using elem_loop_result [of 0 n outp ?so inp ?si ?c m] dis size
      by (simp add: simdConvertScalars_def spec)
  qed
qed


subsection \<open>The tables hold each pair of types once\<close>

lemma hash_sum:
  assumes "i < 65536" shows "dtypeIOToHash i out = i + out * 65536"
proof -
  have "take_bit 16 i = i" using assms by (simp add: take_bit_nat_eq_self)
  then have "\<not> bit i n \<or> \<not> bit (push_bit 16 out) n" for n by (metis bit_push_bit_iff bit_take_bit_iff not_le)
  then have "i + push_bit 16 out = (i OR push_bit 16 out)" by (rule disjunctive_add)
  then show ?thesis by (simp add: dtypeIOToHash_def push_bit_eq_mult)
qed

lemma hash_inject: "i < 65536 \<Longrightarrow> i' < 65536 \<Longrightarrow> dtypeIOToHash i out = dtypeIOToHash i' out' \<longleftrightarrow> i = i' \<and> out = out'"
proof -
  have "(c + d * 65536) mod 65536 = c \<and> (c + d * 65536) div 65536 = d" if "c < 65536" for c d :: nat using that by simp
  then show "i < 65536 \<Longrightarrow> i' < 65536 \<Longrightarrow> dtypeIOToHash i out = dtypeIOToHash i' out' \<longleftrightarrow> i = i' \<and> out = out'"
    unfolding hash_sum by metis
qed

lemma scalar_codes:
  "c \<in> set convert_types \<Longrightarrow> complex_type c = c + 16" "c \<in> set convert_types \<Longrightarrow> c < 200" "c \<in> set convert_types \<Longrightarrow> c + 16 \<notin> set convert_types"
  by (auto simp: convert_types_def complex_type_def)

text \<open>The entries for a pair of scalar types; there is none from a complex to a scalar type in the first table.\<close>

definition registered :: "BufferConvertImpl \<Rightarrow> elem_type \<Rightarrow> elem_type \<Rightarrow> bool" where
  "registered t i out \<longleftrightarrow>
     convertMap t (dtypeIOToHash i out) = Some (SimdScalars i out) \<and>
     convertMap t (dtypeIOToHash i (complex_type out)) = Some (RealToComplex i out) \<and>
     convertMap t (dtypeIOToHash (complex_type i) (complex_type out)) = Some (SimdComplex i out) \<and>
     convertComplexMap t (dtypeIOToHash (complex_type i) out) = Some (i, out)"

lemma registerConverter_entries:
  assumes "i \<in> set convert_types" "out \<in> set convert_types" "i' \<in> set convert_types" "out' \<in> set convert_types"
  shows "registered (registerConverter (i', out') t) i out \<longleftrightarrow> i' = i \<and> out' = out \<or> registered t i out"
    "convertMap (registerConverter (i', out') t) (dtypeIOToHash (complex_type i) out) = convertMap t (dtypeIOToHash (complex_type i) out)"
    "convertComplexMap (registerConverter (i', out') t) (dtypeIOToHash i out) = convertComplexMap t (dtypeIOToHash i out)"
proof -
  have ne: "c \<noteq> d + 16" "d + 16 \<noteq> c" if "c \<in> set convert_types" "d \<in> set convert_types" for c d
    using scalar_codes(3) [OF that(2)] that(1) by auto
  have lt: "c < 65536" "c + 16 < 65536" if "c \<in> set convert_types" for c using scalar_codes(2) [OF that] by auto
  show "registered (registerConverter (i', out') t) i out \<longleftrightarrow> i' = i \<and> out' = out \<or> registered t i out"
    "convertMap (registerConverter (i', out') t) (dtypeIOToHash (complex_type i) out) = convertMap t (dtypeIOToHash (complex_type i) out)"
    "convertComplexMap (registerConverter (i', out') t) (dtypeIOToHash i out) = convertComplexMap t (dtypeIOToHash i out)"
    using assms by (auto simp: registered_def registerConverter_def scalar_codes(1) hash_inject ne lt)
qed

lemma converters_registered:
  assumes "i \<in> set convert_types" "out \<in> set convert_types"
  shows "registered getBufferConvertImpl i out"
    "convertMap getBufferConvertImpl (dtypeIOToHash (complex_type i) out) = None"
    "convertComplexMap getBufferConvertImpl (dtypeIOToHash i out) = None"
proof -
  have *: "(registered (fold registerConverter ps t) i out \<longleftrightarrow> (i, out) \<in> set ps \<or> registered t i out)
      \<and> convertMap (fold registerConverter ps t) (dtypeIOToHash (complex_type i) out) = convertMap t (dtypeIOToHash (complex_type i) out)
      \<and> convertComplexMap (fold registerConverter ps t) (dtypeIOToHash i out) = convertComplexMap t (dtypeIOToHash i out)"
    if "set ps \<subseteq> set convert_types \<times> set convert_types" for ps t
    using that
  proof (induction ps arbitrary: t)
    case (Cons p ps)
    then show ?case using registerConverter_entries [OF assms, of "fst p" "snd p" t] by (cases p) auto
  qed simp
  let ?t = "\<lparr>convertMap = Map.empty, convertComplexMap = Map.empty\<rparr> :: BufferConvertImpl"
  have "set (List.product convert_types convert_types) = set convert_types \<times> set convert_types" by simp
  note * [of "List.product convert_types convert_types" ?t, folded getBufferConvertImpl_def, unfolded this]
  then show "registered getBufferConvertImpl i out" "convertMap getBufferConvertImpl (dtypeIOToHash (complex_type i) out) = None"
    "convertComplexMap getBufferConvertImpl (dtypeIOToHash i out) = None"
    using assms by auto
qed


subsection \<open>Conversion of a chunk\<close>

text \<open>What a converter does to one element, and the types it is registered for.\<close>

fun converted :: "float_cast \<Rightarrow> converter \<Rightarrow> 8 word list \<Rightarrow> 8 word list" where
  "converted fc (SimdScalars i out) bs = static_cast fc i out bs"
| "converted fc (RealToComplex i out) bs = static_cast fc i out bs @ replicate (elem_size out) 0"
| "converted fc (SimdComplex i out) bs = static_cast fc i out (take (elem_size i) bs) @ static_cast fc i out (drop (elem_size i) bs)"

fun conv_in :: "converter \<Rightarrow> elem_type" where
  "conv_in (SimdScalars i out) = i"
| "conv_in (RealToComplex i out) = i"
| "conv_in (SimdComplex i out) = complex_type i"

fun conv_out :: "converter \<Rightarrow> elem_type" where
  "conv_out (SimdScalars i out) = out"
| "conv_out (RealToComplex i out) = complex_type out"
| "conv_out (SimdComplex i out) = complex_type out"

fun conv_ok :: "converter \<Rightarrow> bool" where
  "conv_ok (SimdScalars i out) \<longleftrightarrow> i \<in> set convert_types \<and> out \<in> set convert_types"
| "conv_ok (RealToComplex i out) \<longleftrightarrow> i \<in> set convert_types \<and> out \<in> set convert_types"
| "conv_ok (SimdComplex i out) \<longleftrightarrow> i \<in> set convert_types \<and> out \<in> set convert_types"

lemma converter_lookup: "conv_ok conv \<Longrightarrow> convertMap getBufferConvertImpl (dtypeIOToHash (conv_in conv) (conv_out conv)) = Some conv"
  using converters_registered(1) by (cases conv) (auto simp: registered_def)

text \<open>The pairs of element types there is a converter for: all but those from a complex to a scalar type, and those of other types.\<close>

definition complex_types :: "elem_type list" where
  "complex_types = map complex_type convert_types"

definition convertible :: "elem_type \<Rightarrow> elem_type \<Rightarrow> bool" where
  "convertible i out \<longleftrightarrow>
     i \<in> set convert_types \<and> out \<in> set convert_types \<union> set complex_types \<or> i \<in> set complex_types \<and> out \<in> set complex_types"

lemma convertible_converter:
  assumes "convertible i out" shows "\<exists>conv. conv_ok conv \<and> conv_in conv = i \<and> conv_out conv = out"
proof -
  consider "i \<in> set convert_types" "out \<in> set convert_types"
    | q where "i \<in> set convert_types" "q \<in> set convert_types" "out = complex_type q"
    | j q where "j \<in> set convert_types" "i = complex_type j" "q \<in> set convert_types" "out = complex_type q"
    using assms by (auto simp: convertible_def complex_types_def)
  then show ?thesis
  proof cases
    case 1 then show ?thesis by (intro exI [of _ "SimdScalars i out"]) simp
  next
    case (2 q) then show ?thesis by (intro exI [of _ "RealToComplex i q"]) simp
  next
    case (3 j q) then show ?thesis by (intro exI [of _ "SimdComplex j q"]) simp
  qed
qed

lemma not_convertible_lookup:
  assumes "\<not> convertible i out" "i < 65536"
  shows "convertMap getBufferConvertImpl (dtypeIOToHash i out) = None"
proof -
  have step: "convertMap (registerConverter p t) (dtypeIOToHash i out) = convertMap t (dtypeIOToHash i out)"
    if p_in: "p \<in> set convert_types \<times> set convert_types" for p t
  proof -
    obtain j q where p: "p = (j, q)" "j \<in> set convert_types" "q \<in> set convert_types" using p_in by blast
    then have "(i, out) \<notin> {(j, q), (j, complex_type q), (complex_type j, complex_type q)}"
      using assms(1) by (auto simp: convertible_def complex_types_def)
    moreover have "j < 65536" "complex_type j < 65536" using scalar_codes(1,2) [OF p(2)] by simp_all
    ultimately show ?thesis using assms(2) p(1) by (auto simp: registerConverter_def hash_inject)
  qed
  have "convertMap (fold registerConverter ps t) (dtypeIOToHash i out) = convertMap t (dtypeIOToHash i out)"
    if "set ps \<subseteq> set convert_types \<times> set convert_types" for ps t
    using that by (induction ps arbitrary: t) (simp_all add: step)
  then show ?thesis by (simp add: getBufferConvertImpl_def)
qed

lemma scalar_sizes:
  "c \<in> set convert_types \<Longrightarrow> elem_size (complex_type c) = 2 * elem_size c" "c \<in> set convert_types \<Longrightarrow> 0 < elem_size c"
  "c \<in> set convert_types \<Longrightarrow> elem_size c \<le> 8"
proof -
  have "\<forall>c \<in> set convert_types. elem_size (complex_type c) = 2 * elem_size c \<and> 0 < elem_size c \<and> elem_size c \<le> 8" by code_simp
  then show "c \<in> set convert_types \<Longrightarrow> elem_size (complex_type c) = 2 * elem_size c" "c \<in> set convert_types \<Longrightarrow> 0 < elem_size c"
    "c \<in> set convert_types \<Longrightarrow> elem_size c \<le> 8"
    by blast+
qed

lemma conv_sizes: "conv_ok conv \<Longrightarrow> 0 < elem_size (conv_in conv) \<and> 0 < elem_size (conv_out conv) \<and> elem_size (conv_out conv) \<le> 16"
  using scalar_sizes by (cases conv) fastforce+

lemma elems_double:
  "concat (map g (elems m a s (n * 2))) = concat (map (\<lambda>k. g (bytes m (a + k * (2 * s)) s) @ g (bytes m (a + k * (2 * s) + s) s)) [0..<n])"
proof (induction n)
  case (Suc n)
  have "elems m a s (Suc n * 2) = elems m a s (n * 2) @ [bytes m (a + n * (2 * s)) s, bytes m (a + n * (2 * s) + s) s]"
    by (simp add: elems_def algebra_simps)
  then show ?case using Suc by simp
qed (simp add: elems_def)

lemma run_converter_elementwise:
  assumes casts: "casts_ok fc" and simd: "simd_ok simd fc" and conv: "conv_ok conv"
    and dis: "disjoint_range outp (n * elem_size (conv_out conv)) inp (n * elem_size (conv_in conv))"
  shows "bytes (run_converter simd fc conv inp outp n m) outp (n * elem_size (conv_out conv)) =
      concat (map (converted fc conv) (elems m inp (elem_size (conv_in conv)) n))
    \<and> (\<forall>x. x < outp \<or> outp + n * elem_size (conv_out conv) \<le> x \<longrightarrow> run_converter simd fc conv inp outp n m x = m x)"
proof (cases conv)
  case (SimdScalars i out)
  moreover have "converted fc (SimdScalars i out) = static_cast fc i out" by (rule ext) simp
  ultimately show ?thesis using simd_convert_elementwise [OF casts simd, of i out outp n inp m] conv dis
    by (simp add: run_converter_def)
next
  case (RealToComplex i out)
  have "\<forall>bs. length bs = elem_size i \<longrightarrow> length (static_cast fc i out bs @ replicate (elem_size out) 0) = 2 * elem_size out"
    using length_static_cast [OF casts] conv RealToComplex by simp
  then show ?thesis
    using elem_loop_result [of 0 n outp "2 * elem_size out" inp "elem_size i" "\<lambda>bs. static_cast fc i out bs @ replicate (elem_size out) 0" m]
      RealToComplex conv dis by (simp add: run_converter_def rawConvertRealToComplex_def scalar_sizes elems_def comp_def)
next
  case (SimdComplex i out)
  have "map (converted fc conv) (elems m inp (2 * elem_size i) n) =
      map (\<lambda>k. static_cast fc i out (bytes m (inp + k * (2 * elem_size i)) (elem_size i)) @
               static_cast fc i out (bytes m (inp + k * (2 * elem_size i) + elem_size i) (elem_size i))) [0..<n]"
    using SimdComplex by (simp add: elems_def mult_2 bytes_split)
  then have "concat (map (converted fc conv) (elems m inp (2 * elem_size i) n)) = concat (map (static_cast fc i out) (elems m inp (elem_size i) (n * 2)))"
    by (simp add: elems_double)
  then show ?thesis using simd_convert_elementwise [OF casts simd, of i out outp "n * 2" inp m] conv dis SimdComplex
    by (simp add: run_converter_def simdConvertComplex_def scalar_sizes mult.assoc)
qed


lemma convert_counts_whole:
  assumes "0 < s" "dt_elemSize (bc_dtype c) = s" "0 < dt_dimension (bc_dtype c)" "s * dt_dimension (bc_dtype c) < SIZE_MAX1"
    and "bc_length c = n * s" "dt_dimension (bc_dtype c) dvd n" "n * s < SIZE_MAX1"
    and "0 < dt_elemSize outD" "dt_elemSize outD * dt_dimension outD < SIZE_MAX1" "n * (dt_elemSize outD * dt_dimension outD) < SIZE_MAX1"
  shows "convert_counts c outD 0 = Some (n, n * dt_dimension outD)"
proof -
  obtain e where n: "n = e * dt_dimension (bc_dtype c)" using assms(6) by (metis dvd_def mult.commute)
  have size: "DType_size (bc_dtype c) = s * dt_dimension (bc_dtype c)" "DType_size outD = dt_elemSize outD * dt_dimension outD"
    using assms by (simp_all add: DType_size_def sz_mul_small)
  have "BufferChunk_elements c = Some e"
    using assms(1,3,5) n by (simp add: BufferChunk_elements_def size mult.assoc mult.left_commute [of s])
  moreover have "sz_mul e (s * dt_dimension (bc_dtype c)) = n * s" using assms(7) n by (simp add: sz_mul_small ac_simps)
  moreover have "sz_mul n (dt_elemSize outD * dt_dimension outD) div dt_elemSize outD = n * dt_dimension outD"
    using assms(8,10) by (simp add: sz_mul_small mult.left_commute [of n])
  ultimately show ?thesis using assms(1,2,8) by (simp add: convert_counts_def size)
qed

text \<open>
  Between types of one representation the result is the same memory under the new type. Its length is right for a dimension of one;
  otherwise the number of output elements is multiplied by the dimension twice: the chunk of a type with dimension two, converted to
  its own type, claims four times its bytes, and reaches beyond its buffer.
\<close>

theorem same_representation_length:
  assumes source: "0 < dt_elemSize (bc_dtype c)" "0 < dt_dimension (bc_dtype c)" "dt_elemSize (bc_dtype c) * dt_dimension (bc_dtype c) < SIZE_MAX1"
      "bc_length c = n * dt_elemSize (bc_dtype c)" "dt_dimension (bc_dtype c) dvd n" "n * dt_elemSize (bc_dtype c) < SIZE_MAX1"
    and target: "same_representation outD (bc_dtype c)" "0 < dt_elemSize outD" "dt_elemSize outD * dt_dimension outD < SIZE_MAX1"
      "n * (dt_elemSize outD * dt_dimension outD) * dt_dimension outD < SIZE_MAX1"
    and heap: "accounts h f" "next_closed h" "chunk_fits h c"
  shows "\<exists>out h'. BufferChunk_convert sbMake simd fc c outD 0 (h, m) = Some (Inr out, h', m)
    \<and> bc_address out = bc_address c \<and> bc_managed out = bc_managed c \<and> bc_dtype out = outD
    \<and> bc_length out = dt_dimension outD * dt_dimension outD * (n * dt_elemSize outD)"
proof -
  have "n * (dt_elemSize outD * dt_dimension outD) < SIZE_MAX1"
    using target(4) by (cases "dt_dimension outD = 0") (auto intro: le_less_trans [OF _ target(4)])
  then have counts: "convert_counts c outD 0 = Some (n, n * dt_dimension outD)" by (rule convert_counts_whole [OF source(1) refl source(2,3,4,5,6) target(2,3)])
  have "dt_elemSize outD * dt_dimension outD * (n * dt_dimension outD) < SIZE_MAX1" using target(4) by (simp add: ac_simps)
  then have "sz_mul (DType_size outD) (n * dt_dimension outD) = dt_dimension outD * dt_dimension outD * (n * dt_elemSize outD)"
    using target(3) by (simp add: DType_size_def sz_mul_small ac_simps)
  then show ?thesis using counts target(1) BufferChunk_copy_ok [OF heap] by (auto simp: BufferChunk_convert_def)
qed

text \<open>What the converter of a pair of types does to one element; the last case is that of two complex types.\<close>

definition scalar_of :: "elem_type \<Rightarrow> elem_type" where
  "scalar_of c = (if c \<in> set complex_types then c - 16 else c)"

definition convert_element :: "float_cast \<Rightarrow> elem_type \<Rightarrow> elem_type \<Rightarrow> 8 word list \<Rightarrow> 8 word list" where
  "convert_element fc i out bs =
     (let i1 = scalar_of i; out1 = scalar_of out in
      if out \<in> set convert_types then static_cast fc i1 out1 bs
      else if i \<in> set convert_types then static_cast fc i1 out1 bs @ replicate (elem_size out1) 0
      else static_cast fc i1 out1 (take (elem_size i1) bs) @ static_cast fc i1 out1 (drop (elem_size i1) bs))"

lemma scalar_of_complex: "c \<in> set convert_types \<Longrightarrow> scalar_of (complex_type c) = c \<and> scalar_of c = c"
proof -
  have "\<forall>c \<in> set convert_types. scalar_of (complex_type c) = c \<and> scalar_of c = c" by code_simp
  then show "c \<in> set convert_types \<Longrightarrow> scalar_of (complex_type c) = c \<and> scalar_of c = c" by blast
qed

lemma converted_element: "conv_ok conv \<Longrightarrow> converted fc conv = convert_element fc (conv_in conv) (conv_out conv)"
proof (rule ext)
  fix bs
  assume ok: "conv_ok conv"
  have ne: "complex_type d \<notin> set convert_types" if "d \<in> set convert_types" for d
    using scalar_codes(1,3) [OF that] by simp
  show "converted fc conv bs = convert_element fc (conv_in conv) (conv_out conv) bs"
    using ok by (cases conv) (simp_all add: convert_element_def scalar_of_complex ne)
qed

text \<open>The types of the table: their codes are small, and those that are converted have the size of the table.\<close>

lemma dtype_ok_sizes:
  assumes "dtype_ok d"
  shows "0 < dt_elemSize d" "dt_elemType d < 65536" "dt_elemSize d = elem_size (dt_elemType d)"
proof -
  obtain c n s where "(c, n, s) \<in> set elemTable" "dt_elemType d = c" "dt_elemSize d = s" using assms by (rule dtype_okD)
  then show "0 < dt_elemSize d" "dt_elemType d < 65536" "dt_elemSize d = elem_size (dt_elemType d)"
    using elemTableD [of c n s] by (simp_all add: elem_size_def)
qed

lemma convert_to_new_chunk:
  assumes casts: "casts_ok fc" and simd: "simd_ok simd fc" and conv: "conv_ok conv"
    and types: "dt_elemType (bc_dtype c) = conv_in conv" "dt_elemType outD = conv_out conv" "\<not> same_representation outD (bc_dtype c)"
    and counts: "convert_counts c outD 0 = Some (n, k)" "n * elem_size (conv_out conv) \<le> len" "len = sz_mul (DType_size outD) k"
    and heap: "accounts h f"
    and fresh: "disjoint_range (sb_address (sbMake len)) len (bc_address c) (n * elem_size (conv_in conv))"
  shows "\<exists>out h' m' p. BufferChunk_convert sbMake simd fc c outD 0 (h, m) = Some (Inr out, h', m')
    \<and> bc_dtype out = outD \<and> bc_address out = sb_address (sbMake len) \<and> bc_length out = len \<and> bc_managed out = Some p
    \<and> f p = 0 \<and> accounts h' (f(p := Suc (f p)))
    \<and> bytes m' (bc_address out) (n * elem_size (conv_out conv))
        = concat (map (converted fc conv) (elems m (bc_address c) (elem_size (conv_in conv)) n))
    \<and> (\<forall>x. x < bc_address out \<or> bc_address out + n * elem_size (conv_out conv) \<le> x \<longrightarrow> m' x = m x)"
proof -
  obtain p h' where new: "ManagedBuffer_new (sbMake len) h = Some (Some p, h')" "accounts h' (f(p := Suc (f p)))" "f p = 0"
    using ManagedBuffer_new_ok [OF heap, of "sbMake len"] by blast
  let ?out = "\<lparr>bc_address = sb_address (sbMake len), bc_length = len, bc_dtype = outD, bc_managed = Some p, bc_nextBuffers = 0\<rparr>"
  have "BufferChunk_new_dtype sbMake outD k h = Some (?out, h')"
    using new counts(3) by (simp add: BufferChunk_new_dtype_def Let_def)
  then have "BufferChunk_convert sbMake simd fc c outD 0 (h, m) =
      Some (Inr ?out, h', run_converter simd fc conv (bc_address c) (sb_address (sbMake len)) n m)"
    using counts types converter_lookup [OF conv] by (simp add: BufferChunk_convert_def)
  moreover have "disjoint_range (sb_address (sbMake len)) (n * elem_size (conv_out conv)) (bc_address c) (n * elem_size (conv_in conv))"
    using fresh counts(2) by (auto simp: disjoint_range_def)
  ultimately show ?thesis using new run_converter_elementwise [OF casts simd conv, of _ n "bc_address c" m]
    by (intro exI [of _ ?out] exI [of _ h'] exI [of _ "run_converter simd fc conv (bc_address c) (sb_address (sbMake len)) n m"] exI [of _ p]) simp
qed

text \<open>
  C6. Converting a whole chunk of \<open>n\<close> elements (counted over all dimensions), for every pair of element types and all dimensions.
  Types of one representation: the result is the same memory of the same buffer under the new type. No converter, which is so from
  complex to scalar types and for types that are not numbers: the call throws and changes nothing. Otherwise: the result is a new
  buffer with one reference that begins with the elements converted, in order, whatever instruction set runs, and no byte outside of
  them changes. In the first and the last case the length is that of \<open>n\<close> elements times the square of the output dimension, as the
  code multiplies by the dimension twice: it is right for the dimension one only. For others the memory claimed in the first case
  reaches beyond the chunk, and what is behind the elements in the last case is not written.
\<close>

theorem chunk_convert_converts_elements:
  assumes casts: "casts_ok fc" and simd: "simd_ok simd fc"
    and types: "dtype_ok (bc_dtype c)" "0 < dt_dimension (bc_dtype c)" "dt_elemSize (bc_dtype c) * dt_dimension (bc_dtype c) < SIZE_MAX1"
      "dtype_ok outD" "0 < dt_dimension outD" "dt_elemSize outD * dt_dimension outD < SIZE_MAX1"
    and count: "bc_length c = n * dt_elemSize (bc_dtype c)" "dt_dimension (bc_dtype c) dvd n" "n * dt_elemSize (bc_dtype c) < SIZE_MAX1"
      "len = dt_dimension outD * dt_dimension outD * (n * dt_elemSize outD)" "len < SIZE_MAX1"
    and heap: "accounts h f" "next_closed h" "chunk_fits h c"
    and fresh: "disjoint_range (sb_address (sbMake len)) len (bc_address c) (bc_length c)"
  shows "let i = dt_elemType (bc_dtype c); t = dt_elemType outD in
    if same_representation outD (bc_dtype c)
    then \<exists>out h'. BufferChunk_convert sbMake simd fc c outD 0 (h, m) = Some (Inr out, h', m)
      \<and> bc_dtype out = outD \<and> bc_address out = bc_address c \<and> bc_managed out = bc_managed c \<and> bc_length out = len
    else if \<not> convertible i t
    then BufferChunk_convert sbMake simd fc c outD 0 (h, m) = Some (Inl (CannotConvert i), h, m)
    else \<exists>out h' m' p. BufferChunk_convert sbMake simd fc c outD 0 (h, m) = Some (Inr out, h', m')
      \<and> bc_dtype out = outD \<and> bc_address out = sb_address (sbMake len) \<and> bc_length out = len \<and> bc_managed out = Some p
      \<and> f p = 0 \<and> accounts h' (f(p := Suc (f p)))
      \<and> bytes m' (bc_address out) (n * elem_size t) = concat (map (convert_element fc i t) (elems m (bc_address c) (elem_size i) n))
      \<and> (\<forall>x. x < bc_address out \<or> bc_address out + n * elem_size t \<le> x \<longrightarrow> m' x = m x)"
proof -
  note s = dtype_ok_sizes [OF types(1)] and o = dtype_ok_sizes [OF types(4)]
  have len: "n * (dt_elemSize outD * dt_dimension outD) * dt_dimension outD = len" using count(4) by (simp add: ac_simps)
  have "n * (dt_elemSize outD * dt_dimension outD) < SIZE_MAX1"
    using count(5) types(5) len by (metis le_less_trans le_add1 mult_Suc_right gr0_conv_Suc)
  then have counts: "convert_counts c outD 0 = Some (n, n * dt_dimension outD)"
    by (rule convert_counts_whole [OF s(1) refl types(2,3) count(1,2,3) o(1) types(6)])
  have size: "sz_mul (DType_size outD) (n * dt_dimension outD) = len"
    using types(6) count(5) len by (simp add: DType_size_def sz_mul_small ac_simps)
  have new: ?thesis if ns: "\<not> same_representation outD (bc_dtype c)" and ok: "convertible (dt_elemType (bc_dtype c)) (dt_elemType outD)"
  proof -
    obtain conv where conv: "conv_ok conv" "conv_in conv = dt_elemType (bc_dtype c)" "conv_out conv = dt_elemType outD"
      using convertible_converter [OF ok] by blast
    have fits: "n * elem_size (conv_out conv) \<le> len" using count(4) types(5) conv(3) o(3) by simp
    have "disjoint_range (sb_address (sbMake len)) len (bc_address c) (n * elem_size (conv_in conv))"
      using fresh count(1) conv(2) s(3) by simp
    then show ?thesis
      using convert_to_new_chunk [OF casts simd conv(1) conv(2) [symmetric] conv(3) [symmetric] ns counts fits size [symmetric] heap(1), of sbMake m]
       using ns ok converted_element [OF conv(1), of fc] conv(2,3) by (simp add: Let_def)
  qed
  have refused: ?thesis if "\<not> same_representation outD (bc_dtype c)" "\<not> convertible (dt_elemType (bc_dtype c)) (dt_elemType outD)"
    using that counts not_convertible_lookup [OF that(2) s(2)] by (simp add: BufferChunk_convert_def Let_def)
  have shared: ?thesis if "same_representation outD (bc_dtype c)"
    using same_representation_length [OF s(1) types(2,3) count(1,2,3) that o(1) types(6) _ heap, of sbMake simd fc m] count(4,5) len that
    by (fastforce simp: Let_def)
  show ?thesis using new refused shared by blast
qed


definition demo_simd :: "float_cast \<Rightarrow> Simd" where
  "demo_simd fc = \<lparr>sm_supported = (\<lambda>_. True), sm_has = (\<lambda>_ _. False), sm_fastSize = (\<lambda>_. 2),
     sm_convert = (\<lambda>i out bs. concat (map (static_cast fc i out) (pieces (elem_size i) 2 bs)))\<rparr>"

definition demo_fc :: float_cast where
  "demo_fc = (\<lambda>i out bs. if i = out then bs else replicate (elem_size out) 0)"

definition demo_chunk :: BufferChunk where
  "demo_chunk = BufferChunk_null\<lparr>bc_address := 100, bc_length := 6, bc_dtype := \<lparr>dt_dimension = 1, dt_elemType = Int16, dt_elemSize = 2\<rparr>\<rparr>"

definition demo_mem :: Mem where
  "demo_mem = store 100 [0xFF, 0xFF, 2, 0, 0x2C, 1] (\<lambda>_. 0)"

definition demo_heap :: Heap where
  "demo_heap = heap_empty\<lparr>hp_fresh := 1, hp_impl := [0 \<mapsto> Impl_new\<lparr>im_buffer := SharedBuffer_new 100 6 None\<rparr>]\<rparr>"

theorem chunk_convert_converts_elements_witness:
  "\<exists>out h' m' p. BufferChunk_convert (\<lambda>k. SharedBuffer_new 1000 k None) (demo_simd demo_fc) demo_fc demo_chunk
       \<lparr>dt_dimension = 1, dt_elemType = Int32, dt_elemSize = 4\<rparr> 0 (demo_heap, demo_mem) = Some (Inr out, h', m')
     \<and> bc_length out = 12 \<and> bc_managed out = Some p
     \<and> bytes m' (bc_address out) 12 = [0xFF, 0xFF, 0xFF, 0xFF, 2, 0, 0, 0, 0x2C, 1, 0, 0]"
proof -
  let ?out = "\<lparr>dt_dimension = 1, dt_elemType = Int32, dt_elemSize = 4\<rparr>"
  have casts: "casts_ok demo_fc" by (simp add: casts_ok_def demo_fc_def)
  have simd: "simd_ok (demo_simd demo_fc) demo_fc" by (simp add: simd_ok_def demo_simd_def)
  have size: "elem_size Int16 = 2" "elem_size Int32 = 4" "elem_size 38 = 2" "elem_size 70 = 4" by code_simp+
  have "\<not> same_representation ?out (bc_dtype demo_chunk)" by code_simp
  moreover have "convertible Int16 Int32" "dtype_ok (bc_dtype demo_chunk)" "dtype_ok ?out"
    by (simp_all add: convertible_def convert_types_def dtype_ok_def elemTable_def demo_chunk_def)
  ultimately have cases: "\<not> same_representation ?out (bc_dtype demo_chunk)" "convertible Int16 Int32" "dtype_ok (bc_dtype demo_chunk)"
      "dtype_ok ?out" .
  have data: "concat (map (convert_element demo_fc Int16 Int32) (elems demo_mem 100 2 3)) = [0xFF, 0xFF, 0xFF, 0xFF, 2, 0, 0, 0, 0x2C, 1, 0, 0]"
    by code_simp
  have heap: "accounts demo_heap (\<lambda>p. if p < 1 then 1 else 0)"
    by (auto simp: accounts_def demo_heap_def heap_empty_def home_count_def Impl_new_def)
  have closed: "next_closed demo_heap"
    by (auto simp: next_closed_def next_of_def buf_length_def demo_heap_def Impl_new_def SharedBuffer_new_def heap_empty_def split: if_splits)
  have fits: "chunk_fits demo_heap demo_chunk"
    by (simp add: chunk_fits_def Let_def demo_heap_def SharedBuffer_new_def demo_chunk_def BufferChunk_null_def)
  have fields: "bc_dtype demo_chunk = \<lparr>dt_dimension = 1, dt_elemType = Int16, dt_elemSize = 2\<rparr>" "bc_address demo_chunk = 100"
      "bc_length demo_chunk = 6" "sb_address (SharedBuffer_new 1000 12 None) = 1000"
    by (simp_all add: demo_chunk_def SharedBuffer_new_def)
  have fresh: "disjoint_range (sb_address (SharedBuffer_new 1000 12 None)) 12 (bc_address demo_chunk) (bc_length demo_chunk)"
    by (simp add: fields disjoint_range_def)
  note convert_elements = chunk_convert_converts_elements [OF casts simd cases(3) _ _ cases(4), of 3 12 demo_heap "\<lambda>p. if p < 1 then 1 else 0"
      "\<lambda>k. SharedBuffer_new 1000 k None" demo_mem, OF _ _ _ _ _ _ _ _ _ heap closed fits fresh, unfolded fields]
  show ?thesis using convert_elements cases(1,2) data unfolding fields by (simp add: size) blast
qed

definition pair_type :: DType where
  "pair_type = \<lparr>dt_dimension = 2, dt_elemType = Int32, dt_elemSize = 4\<rparr>"

theorem conversion_to_the_same_type_overruns:
  "\<exists>out h'. BufferChunk_convert sbMake simd fc (BufferChunk_null\<lparr>bc_address := 100, bc_length := 16, bc_managed := Some 0, bc_dtype := pair_type\<rparr>)
       pair_type 0 (heap_empty\<lparr>hp_fresh := 1, hp_impl := [0 \<mapsto> Impl_new\<lparr>im_buffer := SharedBuffer_new 100 16 None\<rparr>]\<rparr>, m) = Some (Inr out, h', m)
     \<and> bc_address out = 100 \<and> bc_managed out = Some 0 \<and> bc_length out = 64"
proof -
  let ?h = "heap_empty\<lparr>hp_fresh := 1, hp_impl := [0 \<mapsto> Impl_new\<lparr>im_buffer := SharedBuffer_new 100 16 None\<rparr>]\<rparr>"
  let ?c = "BufferChunk_null\<lparr>bc_address := 100, bc_length := 16, bc_managed := Some 0, bc_dtype := pair_type\<rparr>"
  have "accounts ?h (\<lambda>p. if p < 1 then 1 else 0)" by (auto simp: accounts_def heap_empty_def home_count_def Impl_new_def)
  moreover have "next_closed ?h"
    by (auto simp: next_closed_def next_of_def buf_length_def Impl_new_def SharedBuffer_new_def heap_empty_def split: if_splits)
  moreover have "chunk_fits ?h ?c" by (simp add: chunk_fits_def Let_def SharedBuffer_new_def BufferChunk_null_def)
  ultimately show ?thesis
    using same_representation_length [of ?c 4 pair_type ?h "\<lambda>p. if p < 1 then 1 else 0" sbMake simd fc m]
    by (simp add: pair_type_def BufferChunk_null_def same_representation_def) blast
qed


subsection \<open>Complex elements to two buffers, and conversion into a given buffer\<close>

theorem components_elementwise:
  assumes casts: "casts_ok fc" and types: "i \<in> set convert_types" "out \<in> set convert_types"
    and dis: "disjoint_range outRe (n * elem_size out) inp (n * (2 * elem_size i))"
      "disjoint_range outIm (n * elem_size out) inp (n * (2 * elem_size i))" "disjoint_range outRe (n * elem_size out) outIm (n * elem_size out)"
  shows "bytes (rawConvertComponents fc i out inp outRe outIm n m) outRe (n * elem_size out) =
      concat (map (\<lambda>bs. static_cast fc i out (take (elem_size i) bs)) (elems m inp (2 * elem_size i) n))
    \<and> bytes (rawConvertComponents fc i out inp outRe outIm n m) outIm (n * elem_size out) =
      concat (map (\<lambda>bs. static_cast fc i out (drop (elem_size i) bs)) (elems m inp (2 * elem_size i) n))
    \<and> (\<forall>x. (x < outRe \<or> outRe + n * elem_size out \<le> x) \<and> (x < outIm \<or> outIm + n * elem_size out \<le> x) \<longrightarrow>
         rawConvertComponents fc i out inp outRe outIm n m x = m x)"
  using dis
proof (induction n)
  case 0
  then show ?case by (simp add: rawConvertComponents_def bytes_def elems_def)
next
  case (Suc n)
  let ?s = "elem_size i" and ?o = "elem_size out" and ?c = "static_cast fc i out"
  let ?m = "rawConvertComponents fc i out inp outRe outIm n m"
  let ?re = "?c (bytes m (inp + n * (2 * ?s)) ?s)" and ?im = "?c (bytes m (inp + n * (2 * ?s) + ?s) ?s)"
  have len: "length ?re = ?o" "length ?im = ?o" using length_static_cast [OF casts types] by simp_all
  have IH: "bytes ?m outRe (n * ?o) = concat (map (\<lambda>bs. ?c (take ?s bs)) (elems m inp (2 * ?s) n))"
      "bytes ?m outIm (n * ?o) = concat (map (\<lambda>bs. ?c (drop ?s bs)) (elems m inp (2 * ?s) n))"
    and out: "\<And>x. (x < outRe \<or> outRe + n * ?o \<le> x) \<and> (x < outIm \<or> outIm + n * ?o \<le> x) \<Longrightarrow> ?m x = m x"
    using Suc by (auto simp: disjoint_range_def)
  have in_re: "bytes ?m (inp + n * (2 * ?s)) ?s = bytes m (inp + n * (2 * ?s)) ?s"
    using Suc.prems by (intro bytes_cong out) (auto simp: disjoint_range_def)
  have in_im: "bytes (store (outRe + n * ?o) ?re ?m) (inp + n * (2 * ?s) + ?s) ?s = bytes m (inp + n * (2 * ?s) + ?s) ?s"
  proof (intro bytes_cong)
    fix x assume x: "inp + n * (2 * ?s) + ?s \<le> x" "x < inp + n * (2 * ?s) + ?s + ?s"
    then have "x < outRe + n * ?o \<or> outRe + n * ?o + length ?re \<le> x" using Suc.prems len by (auto simp: disjoint_range_def)
    moreover have "?m x = m x" using x Suc.prems by (intro out) (auto simp: disjoint_range_def)
    ultimately show "store (outRe + n * ?o) ?re ?m x = m x" by (simp add: store_outside)
  qed
  have step: "rawConvertComponents fc i out inp outRe outIm (Suc n) m = store (outIm + n * ?o) ?im (store (outRe + n * ?o) ?re ?m)"
    using in_re in_im by (simp add: rawConvertComponents_def Let_def)
  have size: "Suc n * ?o = n * ?o + ?o" by simp
  let ?m' = "store (outIm + n * ?o) ?im (store (outRe + n * ?o) ?re ?m)"
  have "bytes ?m' outRe (n * ?o) = bytes ?m outRe (n * ?o)" "bytes ?m' outIm (n * ?o) = bytes ?m outIm (n * ?o)"
    by (intro bytes_cong; use Suc.prems len in \<open>auto simp: store_def disjoint_range_def\<close>)+
  moreover have "bytes ?m' (outRe + n * ?o) ?o = ?re"
  proof -
    have "bytes ?m' (outRe + n * ?o) ?o = bytes (store (outRe + n * ?o) ?re ?m) (outRe + n * ?o) ?o"
      using Suc.prems len by (intro bytes_cong store_outside) (auto simp: disjoint_range_def)
    then show ?thesis using bytes_store [OF len(1)] by simp
  qed
  moreover have "bytes ?m' (outIm + n * ?o) ?o = ?im" using bytes_store [OF len(2)] .
  moreover have "bytes m (inp + n * (2 * ?s)) (2 * ?s) = bytes m (inp + n * (2 * ?s)) ?s @ bytes m (inp + n * (2 * ?s) + ?s) ?s"
    by (simp only: mult_2 bytes_split)
  ultimately show ?case
    using IH out len unfolding step size bytes_split by (auto simp: elems_def store_outside)
qed

theorem convert_into_fills_the_buffer:
  assumes casts: "casts_ok fc" and simd: "simd_ok simd fc" and conv: "conv_ok conv"
    and source: "dt_elemType (bc_dtype c) = conv_in conv" "dt_elemSize (bc_dtype c) = elem_size (conv_in conv)"
      "0 < dt_dimension (bc_dtype c)" "elem_size (conv_in conv) * dt_dimension (bc_dtype c) < SIZE_MAX1"
    and target: "bc_dtype out = \<lparr>dt_dimension = 1, dt_elemType = conv_out conv, dt_elemSize = elem_size (conv_out conv)\<rparr>"
    and count: "bc_length c = n * elem_size (conv_in conv)" "dt_dimension (bc_dtype c) dvd n"
      "n * elem_size (conv_in conv) < SIZE_MAX1" "n * elem_size (conv_out conv) < SIZE_MAX1"
    and room: "BufferChunk_elements out = Some r"
    and dis: "disjoint_range (bc_address out) (n * elem_size (conv_out conv)) (bc_address c) (bc_length c)"
  shows "\<exists>m'. BufferChunk_convert_into simd fc c out 0 m = Some (if r < n then Inl InsufficientBuffer else Inr n, m')
    \<and> (if r < n then m' = m
       else bytes m' (bc_address out) (n * elem_size (conv_out conv)) =
              concat (map (converted fc conv) (elems m (bc_address c) (elem_size (conv_in conv)) n))
          \<and> (\<forall>x. x < bc_address out \<or> bc_address out + n * elem_size (conv_out conv) \<le> x \<longrightarrow> m' x = m x))"
proof -
  have "elem_size (conv_out conv) < SIZE_MAX1" using conv_sizes [OF conv] by simp
  then have counts: "convert_counts c (bc_dtype out) 0 = Some (n, n)"
    using convert_counts_whole [of "elem_size (conv_in conv)" c n "bc_dtype out"] conv_sizes [OF conv] source count target by simp
  then show ?thesis
    using room target source converter_lookup [OF conv] run_converter_elementwise [OF casts simd conv, of "bc_address out" n "bc_address c" m] dis count(1)
    by (simp add: BufferChunk_convert_into_def)
qed

end
