(* ===== verification/NumberConversion.thy ===== *)
theory NumberConversion
  imports Prelude
begin

section \<open>Conversion of numbers\<close>

text \<open>
  \<open>lib/Object/Builtin/ConvertCommonImpl.hpp\<close>, \<open>ConvertIntermediate.cpp\<close>, \<open>ConvertIntegers.cpp\<close>: the converters between integer types
  that objects are converted with, of single numbers and of vectors.

  \<^item> A number is an integer in the range of its type; \<open>char\<close> is signed and \<open>long\<close> has 64 bits, as on the usual targets.
  \<^item> The range check compares after conversion to \<open>double\<close>, which is written out: 53 bits, rounded to nearest, ties to even.
  \<^item> Conversions from and to floating point types use the same templates and are not modelled.
\<close>

subsection \<open>Types\<close>

datatype num_type = CChar | UChar | SChar | UShort | SShort | UInt | SInt | ULong | SLong | ULLong | SLLong

fun sizeof :: "num_type \<Rightarrow> nat" where
  "sizeof CChar = 1" | "sizeof UChar = 1" | "sizeof SChar = 1" | "sizeof UShort = 2" | "sizeof SShort = 2" | "sizeof UInt = 4"
| "sizeof SInt = 4" | "sizeof ULong = 8" | "sizeof SLong = 8" | "sizeof ULLong = 8" | "sizeof SLLong = 8"

definition is_unsigned :: "num_type \<Rightarrow> bool" where
  "is_unsigned t \<longleftrightarrow> t \<in> {UChar, UShort, UInt, ULong, ULLong}"

definition num_lowest :: "num_type \<Rightarrow> int" where
  "num_lowest t = (if is_unsigned t then 0 else - (2 ^ (8 * sizeof t - 1)))"

definition num_max :: "num_type \<Rightarrow> int" where
  "num_max t = (if is_unsigned t then 2 ^ (8 * sizeof t) - 1 else 2 ^ (8 * sizeof t - 1) - 1)"

definition in_range :: "num_type \<Rightarrow> int \<Rightarrow> bool" where
  "in_range t x \<longleftrightarrow> num_lowest t \<le> x \<and> x \<le> num_max t"

text \<open>A cast keeps the low bits.\<close>

definition num_cast :: "num_type \<Rightarrow> int \<Rightarrow> int" where
  "num_cast t x = (x - num_lowest t) mod 2 ^ (8 * sizeof t) + num_lowest t"

subsection \<open>The conversion to double\<close>

function shift_of :: "nat \<Rightarrow> nat" where
  "shift_of n = (if n < 2 ^ 53 then 0 else Suc (shift_of (n div 2)))"
  by pat_completeness auto
termination by (relation "measure id") auto

declare shift_of.simps [simp del]

definition round_bits :: "nat \<Rightarrow> nat" where
  "round_bits n =
     (let u = 2 ^ shift_of n; q = n div u; r = n mod u
      in if 2 * r > u \<or> 2 * r = u \<and> odd q then (q + 1) * u else q * u)"

definition to_double :: "int \<Rightarrow> int" where
  "to_double x = (if x < 0 then - int (round_bits (nat (- x))) else int (round_bits (nat x)))"

subsection \<open>Converters\<close>

datatype num_error = RangeError

definition convertNumCheck :: "num_type \<Rightarrow> int \<Rightarrow> num_error option" where
  "convertNumCheck out x =
     (if to_double x > to_double (num_max out) \<or> to_double x < to_double (num_lowest out) then Some RangeError else None)"

definition convertNum :: "num_type \<Rightarrow> int \<Rightarrow> num_error + int" where
  "convertNum out x = (case convertNumCheck out x of Some e \<Rightarrow> Inl e | None \<Rightarrow> Inr (num_cast out x))"

text \<open>Between complex numbers there is no check.\<close>

definition convertNum_complex :: "num_type \<Rightarrow> int \<times> int \<Rightarrow> int \<times> int" where
  "convertNum_complex out c = (num_cast out (fst c), num_cast out (snd c))"

definition convertNum_complex_to_real :: "num_type \<Rightarrow> int \<times> int \<Rightarrow> num_error + int" where
  "convertNum_complex_to_real out c = (if snd c \<noteq> 0 then Inl RangeError else convertNum out (fst c))"

fun manualConvertVec :: "num_type \<Rightarrow> int list \<Rightarrow> num_error + int list" where
  "manualConvertVec out [] = Inr []"
| "manualConvertVec out (x # xs) = rbind (convertNum out x) (\<lambda>y. rbind (manualConvertVec out xs) (\<lambda>ys. Inr (y # ys)))"

definition simdConvertVec :: "num_type \<Rightarrow> int list \<Rightarrow> int list" where
  "simdConvertVec out xs = map (num_cast out) xs"

definition CanConvertWithoutValidation :: "num_type \<Rightarrow> num_type \<Rightarrow> bool" where
  "CanConvertWithoutValidation i out \<longleftrightarrow>
     i \<noteq> out \<and> sizeof i < sizeof out \<and> (is_unsigned i \<and> \<not> is_unsigned out \<or> is_unsigned i = is_unsigned out)"

definition convertVec :: "num_type \<Rightarrow> num_type \<Rightarrow> int list \<Rightarrow> num_error + int list" where
  "convertVec i out xs =
     (if i = out then Inr xs
      else if CanConvertWithoutValidation i out then Inr (simdConvertVec out xs)
      else manualConvertVec out xs)"

text \<open>The registered pairs of integer types, and the two of the complex ones.\<close>

definition all_types :: "num_type list" where
  "all_types = [CChar, UChar, SChar, UShort, SShort, UInt, SInt, ULong, SLong, ULLong, SLLong]"

definition to_intermediate :: "(num_type \<times> num_type) list" where
  "to_intermediate = [(CChar, SLLong), (UChar, ULLong), (SChar, SLLong), (UShort, ULLong), (SShort, SLLong), (UInt, ULLong), (SInt, SLLong),
     (ULong, ULLong), (SLong, SLLong)]"

definition from_intermediate :: "(num_type \<times> num_type) list" where
  "from_intermediate = List.product [SLLong, ULLong] all_types"

definition complex_intermediate :: "(num_type \<times> num_type) list" where
  "complex_intermediate = [(SChar, SLLong), (SShort, SLLong), (SInt, SLLong), (SLong, SLLong)]"

subsection \<open>Rounding\<close>

lemma shift_of_bounds: "n < 2 ^ (53 + shift_of n) \<and> (shift_of n \<noteq> 0 \<longrightarrow> 2 ^ (52 + shift_of n) \<le> n)"
proof (induction n rule: shift_of.induct)
  case (1 n)
  show ?case
  proof (cases "n < 2 ^ 53")
    case True
    then show ?thesis by (simp add: shift_of.simps [of n])
  next
    case False
    let ?k = "shift_of (n div 2)"
    have k: "shift_of n = Suc ?k" using False by (simp add: shift_of.simps [of n])
    have IH: "n div 2 < 2 ^ (53 + ?k)" "?k \<noteq> 0 \<longrightarrow> 2 ^ (52 + ?k) \<le> n div 2" using 1 False by auto
    have "n < 2 * 2 ^ (53 + ?k)" using IH(1) by linarith
    moreover have "2 * 2 ^ (52 + ?k) \<le> n"
    proof (cases "?k = 0")
      case True
      then show ?thesis using False by simp
    next
      case False
      then have "2 ^ (52 + ?k) \<le> n div 2" using IH(2) by blast
      then show ?thesis by linarith
    qed
    ultimately show ?thesis unfolding k by (simp only: add_Suc_right power_Suc) simp
  qed
qed

lemma shift_of_eq:
  assumes "2 ^ (52 + k) \<le> n" "n < 2 ^ (53 + k)" "0 < k" shows "shift_of n = k"
proof -
  have "(2::nat) ^ (52 + k) < 2 ^ (53 + shift_of n)" using shift_of_bounds [of n] assms(1) by linarith
  then have "52 + k < 53 + shift_of n" by (rule power_less_imp_less_exp [rotated]) simp
  moreover then have "(2::nat) ^ (52 + shift_of n) < 2 ^ (53 + k)" using shift_of_bounds [of n] assms(2,3) by linarith
  then have "52 + shift_of n < 53 + k" by (rule power_less_imp_less_exp [rotated]) simp
  ultimately show ?thesis by simp
qed

lemma round_bits_small: "n < 2 ^ 53 \<Longrightarrow> round_bits n = n"
  by (simp add: round_bits_def shift_of.simps)

lemma round_bits_le:
  assumes "n < 2 ^ m" "53 \<le> m" shows "round_bits n \<le> 2 ^ m"
proof (cases "shift_of n = 0")
  case True
  then show ?thesis using assms(1) by (simp add: round_bits_def)
next
  case False
  let ?k = "shift_of n"
  have "(2::nat) ^ (52 + ?k) < 2 ^ m" using shift_of_bounds [of n] False assms(1) by linarith
  then have "52 + ?k < m" by (rule power_less_imp_less_exp [rotated]) simp
  then have km: "53 + ?k \<le> m" by simp
  have "n div 2 ^ ?k < 2 ^ 53"
    using shift_of_bounds [of n] by (intro less_mult_imp_div_less) (simp add: power_add)
  then have "n div 2 ^ ?k + 1 \<le> 2 ^ 53" by linarith
  then have "(n div 2 ^ ?k + 1) * 2 ^ ?k \<le> 2 ^ 53 * 2 ^ ?k" by (rule mult_le_mono1)
  moreover have "(2::nat) ^ 53 * 2 ^ ?k \<le> 2 ^ m" using power_increasing [OF km, of "2::nat"] unfolding power_add by simp
  moreover have "round_bits n \<le> (n div 2 ^ ?k + 1) * 2 ^ ?k" by (simp add: round_bits_def Let_def)
  ultimately show ?thesis by linarith
qed

lemma round_bits_ge:
  assumes "2 ^ m \<le> n" "53 \<le> m" shows "2 ^ m \<le> round_bits n"
proof -
  let ?k = "shift_of n"
  have "(2::nat) ^ m < 2 ^ (53 + ?k)" using shift_of_bounds [of n] assms(1) by linarith
  then have "m < 53 + ?k" by (rule power_less_imp_less_exp [rotated]) simp
  then have km: "m \<le> 52 + ?k" by simp
  then have "?k \<noteq> 0" using assms(2) by auto
  then have "2 ^ 52 * 2 ^ ?k \<le> n" using shift_of_bounds [of n] by (simp add: power_add)
  then have "2 ^ 52 \<le> n div 2 ^ ?k" by (simp add: less_eq_div_iff_mult_less_eq)
  then have "2 ^ 52 * 2 ^ ?k \<le> n div 2 ^ ?k * 2 ^ ?k" by (rule mult_le_mono1)
  moreover have "(2::nat) ^ m \<le> 2 ^ 52 * 2 ^ ?k" using power_increasing [OF km, of "2::nat"] unfolding power_add by simp
  moreover have "n div 2 ^ ?k * 2 ^ ?k \<le> round_bits n" by (simp add: round_bits_def Let_def)
  ultimately show ?thesis by linarith
qed


text \<open>The largest signed number, as a double, is one more than it is; numbers up to 1024 above are rounded to it.\<close>

lemma round_bits_gap:
  assumes "2 ^ 63 \<le> n" "n < 2 ^ 64" shows "round_bits n \<le> 2 ^ 63 \<longleftrightarrow> n \<le> 2 ^ 63 + 1024"
proof -
  have k: "shift_of n = 11" using assms by (intro shift_of_eq) simp_all
  define q r where "q = n div 2048" and "r = n mod 2048"
  have n: "n = 2048 * q + r" "r < 2048" by (simp_all add: q_def r_def)
  have q: "2 ^ 52 \<le> q" using assms(1) n by simp
  have b: "round_bits n = (if 2 * r > 2048 \<or> 2 * r = 2048 \<and> odd q then (q + 1) * 2048 else q * 2048)"
    by (simp add: round_bits_def k q_def r_def Let_def)
  show ?thesis
  proof (cases "q = 2 ^ 52")
    case True
    then show ?thesis using n b by auto
  next
    case False
    then have "2 ^ 52 + 1 \<le> q" using q by simp
    then show ?thesis using n b by auto
  qed
qed

subsection \<open>A number is converted exactly or refused\<close>

lemma to_double_nonneg: "0 \<le> x \<Longrightarrow> to_double x = int (round_bits (nat x))"
  by (simp add: to_double_def)

lemma to_double_neg: "x < 0 \<Longrightarrow> to_double x = - int (round_bits (nat (- x)))"
  by (simp add: to_double_def)

lemma to_double_small: "\<bar>x\<bar> < 2 ^ 53 \<Longrightarrow> to_double x = x"
proof -
  assume x: "\<bar>x\<bar> < 2 ^ 53"
  show ?thesis
  proof (cases "x < 0")
    case True
    then have "nat (- x) < 2 ^ 53" using x by (simp add: nat_less_iff)
    then show ?thesis using True by (simp add: to_double_neg round_bits_small)
  next
    case False
    then have "nat x < 2 ^ 53" using x by (simp add: nat_less_iff)
    then show ?thesis using False by (simp add: to_double_nonneg round_bits_small)
  qed
qed

lemma to_double_bound:
  assumes "53 \<le> m" shows "2 ^ m \<le> x \<Longrightarrow> 2 ^ m \<le> to_double x" "x < 2 ^ m \<Longrightarrow> to_double x \<le> 2 ^ m"
    "x \<le> - (2 ^ m) \<Longrightarrow> to_double x \<le> - (2 ^ m)" "- (2 ^ m) < x \<Longrightarrow> - (2 ^ m) \<le> to_double x"
proof -
  have int2: "(2::int) ^ m = int (2 ^ m)" by simp
  show "2 ^ m \<le> to_double x" if "2 ^ m \<le> x"
    using that round_bits_ge [of m "nat x"] assms order_trans [of 0 "2 ^ m" x] by (simp add: to_double_nonneg int2 le_nat_iff del: of_nat_power)
  show "to_double x \<le> 2 ^ m" if "x < 2 ^ m"
  proof (cases "0 \<le> x")
    case True
    then show ?thesis using that round_bits_le [of "nat x" m] assms by (simp add: to_double_nonneg int2 nat_less_iff del: of_nat_power)
  next
    case False
    then have "to_double x \<le> 0" by (simp add: to_double_neg)
    then show ?thesis by (rule order_trans) simp
  qed
  show "to_double x \<le> - (2 ^ m)" if "x \<le> - (2 ^ m)"
  proof -
    have "x < 0" using that less_le_trans [of "- (2 ^ m)" 0] le_less_trans [of x "- (2 ^ m)" 0] by simp
    moreover have "2 ^ m \<le> nat (- x)" using that by (simp add: int2 le_nat_iff del: of_nat_power)
    ultimately show ?thesis using round_bits_ge [of m "nat (- x)"] assms by (simp add: to_double_neg int2 del: of_nat_power)
  qed
  show "- (2 ^ m) \<le> to_double x" if "- (2 ^ m) < x"
  proof (cases "x < 0")
    case True
    then have "nat (- x) < 2 ^ m" using that by (simp add: int2 nat_less_iff del: of_nat_power)
    then show ?thesis using True round_bits_le [of "nat (- x)" m] assms by (simp add: to_double_neg int2 del: of_nat_power)
  next
    case False
    then have "0 \<le> to_double x" by (simp add: to_double_nonneg)
    then show ?thesis by (rule order_trans [rotated]) simp
  qed
qed


lemma num_cast_in_range: "in_range t x \<Longrightarrow> num_cast t x = x"
proof -
  assume x: "in_range t x"
  have "num_max t - num_lowest t < 2 ^ (8 * sizeof t)" by (cases t; simp add: num_max_def num_lowest_def is_unsigned_def)
  then have "(x - num_lowest t) mod 2 ^ (8 * sizeof t) = x - num_lowest t"
    using x by (intro mod_pos_pos_trivial) (auto simp: in_range_def)
  then show ?thesis by (simp add: num_cast_def)
qed

lemma check_narrow:
  assumes "sizeof out \<le> 4"
  shows "convertNumCheck out x = (if in_range out x then None else Some RangeError)"
proof -
  have b: "\<bar>num_max out\<bar> < 2 ^ 53" "\<bar>num_lowest out\<bar> < 2 ^ 53"
    using assms by (cases out; simp add: num_max_def num_lowest_def is_unsigned_def)+
  consider "\<bar>x\<bar> < 2 ^ 53" | "2 ^ 53 \<le> x" | "x \<le> - (2 ^ 53)" by linarith
  then show ?thesis
  proof cases
    case 1
    then show ?thesis using b by (auto simp: convertNumCheck_def in_range_def to_double_small)
  next
    case 2
    then have "2 ^ 53 \<le> to_double x" by (rule to_double_bound(1) [rotated]) simp
    then show ?thesis using 2 b by (auto simp: convertNumCheck_def in_range_def to_double_small)
  next
    case 3
    then have "to_double x \<le> - (2 ^ 53)" by (rule to_double_bound(3) [rotated]) simp
    then show ?thesis using 3 b by (auto simp: convertNumCheck_def in_range_def to_double_small)
  qed
qed

lemma to_double_limits: "to_double (2 ^ 64 - 1) = 2 ^ 64" "to_double (2 ^ 63 - 1) = 2 ^ 63" "to_double (- (2 ^ 63)) = - (2 ^ 63)" "to_double 0 = 0"
proof -
  have "shift_of (2 ^ 64 - 1) = 11" "shift_of (2 ^ 63 - 1) = 10" "shift_of (2 ^ 63) = 11" by (rule shift_of_eq; simp)+
  then show "to_double (2 ^ 64 - 1) = 2 ^ 64" "to_double (2 ^ 63 - 1) = 2 ^ 63" "to_double (- (2 ^ 63)) = - (2 ^ 63)"
    by (simp_all add: to_double_def round_bits_def)
qed (simp add: to_double_small)

lemma to_double_sign: "x < 0 \<Longrightarrow> to_double x < 0" "0 \<le> x \<Longrightarrow> 0 \<le> to_double x"
proof -
  show "to_double x < 0" if "x < 0"
  proof (cases "- (2 ^ 53) < x")
    case True
    then show ?thesis using that by (simp add: to_double_small)
  next
    case False
    then have "to_double x \<le> - (2 ^ 53)" by (intro to_double_bound(3)) simp_all
    then show ?thesis by simp
  qed
qed (simp add: to_double_nonneg)

lemma check_unsigned:
  assumes "sizeof out = 8" "is_unsigned out" "x < 2 ^ 64"
  shows "convertNumCheck out x = (if in_range out x then None else Some RangeError)"
proof -
  have "to_double x \<le> 2 ^ 64" using assms(3) by (intro to_double_bound(2)) simp_all
  then show ?thesis using assms to_double_sign [of x] to_double_limits
    by (auto simp: convertNumCheck_def in_range_def num_max_def num_lowest_def not_less)
qed

text \<open>The values for which the check passes although they are out of range.\<close>

definition rounding_gap :: "num_type \<Rightarrow> int \<Rightarrow> bool" where
  "rounding_gap out x \<longleftrightarrow> sizeof out = 8 \<and> \<not> is_unsigned out \<and> 2 ^ 63 \<le> x \<and> x \<le> 2 ^ 63 + 1024"

lemma check_signed:
  assumes "sizeof out = 8" "\<not> is_unsigned out" "- (2 ^ 63) \<le> x" "x < 2 ^ 64"
  shows "convertNumCheck out x = (if in_range out x \<or> rounding_gap out x then None else Some RangeError)"
proof -
  have low: "- (2 ^ 63) \<le> to_double x"
    using assms(3) to_double_limits(3) to_double_bound(4) [of 63 x] by (cases "x = - (2 ^ 63)") auto
  show ?thesis
  proof (cases "x < 2 ^ 63")
    case True
    then have "to_double x \<le> 2 ^ 63" by (intro to_double_bound(2)) simp_all
    then show ?thesis using assms True low to_double_limits
      by (auto simp: convertNumCheck_def in_range_def num_max_def num_lowest_def)
  next
    case False
    then have "2 ^ 63 \<le> nat x" "nat x < 2 ^ 64" using assms(4) by (simp_all add: le_nat_iff nat_less_iff)
    then have "round_bits (nat x) \<le> 2 ^ 63 \<longleftrightarrow> nat x \<le> 2 ^ 63 + 1024" by (rule round_bits_gap)
    then have "to_double x \<le> 2 ^ 63 \<longleftrightarrow> x \<le> 2 ^ 63 + 1024" using False by (simp add: to_double_nonneg nat_le_iff)
    then show ?thesis using assms False low to_double_limits
      by (auto simp: convertNumCheck_def in_range_def num_max_def num_lowest_def rounding_gap_def)
  qed
qed

text \<open>
  C14. A conversion between integer types gives the number when the type has it and throws otherwise, except that the numbers
  from \<open>2^63\<close> to \<open>2^63 + 1024\<close> pass the check for the signed 64-bit types, as \<open>double\<close> does not tell them from the largest
  signed number, and come out negative.
\<close>

theorem convert_num_exact_or_refused:
  assumes "in_range i x"
  shows "convertNum out x =
    (if in_range out x then Inr x else if rounding_gap out x then Inr (x - 2 ^ 64) else Inl RangeError)"
proof -
  have x: "- (2 ^ 63) \<le> x" "x < 2 ^ 64"
    using assms by (cases i; simp add: in_range_def num_max_def num_lowest_def is_unsigned_def)+
  have gap: "num_cast out x = x - 2 ^ 64" if "rounding_gap out x"
  proof -
    have "(x - num_lowest out) mod 2 ^ 64 = x - num_lowest out - 2 ^ 64"
    proof -
      have "(x - num_lowest out - 2 ^ 64) mod 2 ^ 64 = x - num_lowest out - 2 ^ 64"
        using that x by (intro mod_pos_pos_trivial) (auto simp: rounding_gap_def num_lowest_def)
      then show ?thesis by simp
    qed
    then show ?thesis using that by (simp add: num_cast_def rounding_gap_def)
  qed
  consider "sizeof out \<le> 4" | "sizeof out = 8" "is_unsigned out" | "sizeof out = 8" "\<not> is_unsigned out" by (cases out) auto
  then show ?thesis
  proof cases
    case 1
    then show ?thesis by (simp add: convertNum_def check_narrow num_cast_in_range rounding_gap_def)
  next
    case 2
    then show ?thesis using x by (simp add: convertNum_def check_unsigned num_cast_in_range rounding_gap_def)
  next
    case 3
    then show ?thesis using x gap by (simp add: convertNum_def check_signed num_cast_in_range)
  qed
qed

theorem convert_num_exact_or_refused_witness:
  "convertNum SInt (- 5) = Inr (- 5) \<and> convertNum UChar (- 5) = Inl RangeError \<and> convertNum SLLong (2 ^ 63 + 1024) = Inr (- 9223372036854774784)
   \<and> convertNum SLLong (2 ^ 63 + 1025) = Inl RangeError"
proof -
  have r: "in_range SLLong (- 5)" "in_range ULLong (2 ^ 63 + 1024)" "in_range ULLong (2 ^ 63 + 1025)" by code_simp+
  have eval: "in_range SInt (- 5)" "\<not> in_range UChar (- 5)" "\<not> rounding_gap UChar (- 5)"
    "\<not> in_range SLLong (2 ^ 63 + 1024)" "rounding_gap SLLong (2 ^ 63 + 1024)"
    "\<not> in_range SLLong (2 ^ 63 + 1025)" "\<not> rounding_gap SLLong (2 ^ 63 + 1025)" by code_simp+
  show ?thesis
    unfolding convert_num_exact_or_refused [OF r(1)] convert_num_exact_or_refused [OF r(2)] convert_num_exact_or_refused [OF r(3)]
    using eval by simp
qed

subsection \<open>Vectors\<close>

lemma no_validation_in_range: "CanConvertWithoutValidation i out \<Longrightarrow> in_range i x \<Longrightarrow> in_range out x"
  by (cases i; cases out; simp add: CanConvertWithoutValidation_def is_unsigned_def in_range_def num_max_def num_lowest_def)

text \<open>The conversion of a vector is the conversion of its elements one by one, also where it skips the checks.\<close>

theorem convertVec_is_elementwise:
  assumes "\<forall>x \<in> set xs. in_range i x"
  shows "convertVec i out xs = manualConvertVec out xs"
proof -
  have exact: "manualConvertVec out xs = Inr xs" if "\<forall>x \<in> set xs. in_range i x \<and> in_range out x" for xs
    using that by (induction xs) (auto simp: convert_num_exact_or_refused)
  have "simdConvertVec out xs = xs" if "\<forall>x \<in> set xs. in_range out x" 
    using that by (simp add: simdConvertVec_def num_cast_in_range map_idI)
  then show ?thesis using assms exact [of xs] no_validation_in_range [of i out] by (auto simp: convertVec_def)
qed

text \<open>Conversion through an intermediate type, as \<open>Object::convert\<close> does it, is the direct one; complex widening is exact.\<close>

theorem intermediate_is_exact:
  assumes "(i, m) \<in> set to_intermediate" "in_range i x" shows "convertNum m x = Inr x"
  using assms by (auto simp: to_intermediate_def convert_num_exact_or_refused [OF assms(2)] in_range_def num_max_def num_lowest_def is_unsigned_def)

theorem every_type_is_reached:
  "\<forall>i \<in> set all_types. i \<in> {SLLong, ULLong} \<or> (\<exists>m \<in> {SLLong, ULLong}. (i, m) \<in> set to_intermediate \<and> (\<forall>out \<in> set all_types. (m, out) \<in> set from_intermediate))"
  by code_simp

theorem complex_widening_is_exact:
  assumes "(i, m) \<in> set complex_intermediate" "in_range i (fst c)" "in_range i (snd c)" shows "convertNum_complex m c = c"
proof -
  have "in_range m (fst c)" "in_range m (snd c)"
    using assms by (auto simp: complex_intermediate_def in_range_def num_max_def num_lowest_def is_unsigned_def)
  then show ?thesis by (simp add: convertNum_complex_def num_cast_in_range)
qed

end
