(* ===== verification/Spec2Isabelle.thy ===== *)
theory Spec2Isabelle
  imports TopologyCommit ActorInterface PluginRegistry RemoteThreads EvalEnvironment ThreadEnvironment Managed BlockDescriptions
    BlockRegistries BlockEvaluation BufferConversion NumberConversion
begin

text \<open>
  \<^bold>\<open>A verification development for the core of PothosCore.\<close>

  PothosCore runs data flow designs. A design is a \<open>Topology\<close> of blocks and nested topologies connected by flows. Each
  \<open>Block\<close> is driven by a \<open>WorkerActor\<close>, which owns its input and output ports; a worker thread acquires the actor
  (\<open>ActorInterface\<close>), prepares buffers and labels, calls \<open>work\<close>, and hands what was produced to the subscribed inputs.
  Data moves in \<open>BufferChunk\<close>s, typed views of reference counted \<open>ManagedBuffer\<close>s, which return to the
  \<open>BufferManager\<close> of the output they came from when the last reference goes. Committing a topology flattens it,
  rewrites the flows that cross processes or memory domains, and turns the difference to the running design into
  subscriptions, buffer managers and activations. Blocks, converters and tests are found through the plugin registry.

  \<^bold>\<open>The theories,\<close> from the bottom up, with the code they model (under \<open>src/include/Pothos\<close> and \<open>src/lib\<close>):

  \<^item> \<open>Prelude\<close>: 64-bit unsigned arithmetic (\<open>sz_add\<close>, \<open>sz_sub\<close>, \<open>sz_mul\<close> wrap), masks, list facts.
    \<open>CppStrings\<close>: \<open>std::to_string\<close>, \<open>stoull\<close>, \<open>stoi\<close>. \<open>StringMap\<close>: \<open>std::map\<close> with string keys.
  \<^item> \<open>RingDeque\<close> (\<open>Util/RingDeque.hpp\<close>): the ring buffer with its power-of-two mask; it refines a list (C1), and the
    capacity loop ends with the next power of two.
  \<^item> \<open>OrderedQueue\<close> (\<open>Util/OrderedQueue.hpp\<close>): elements leave in slot order whatever the order of pushes (C4).
  \<^item> \<open>DType\<close> (\<open>Framework/DType.cpp\<close>): element types, markup parsing and printing (C5).
  \<^item> \<open>SharedBuffer\<close>, \<open>ManagedBuffer\<close>, \<open>BufferChunk\<close> (the files of the same names): bounds of sub buffers, an
    overflow they accept, the retries of a circular allocation; reference counts over an explicit heap, which are exact in every
    run that does not reach one of three undefined calls, a use after free among them (C10), and return of a buffer with its last
    reference; chunks hold their buffers (C13) and append bytes.
    \<open>BufferConversion\<close> (\<open>BufferConvert.cpp\<close>, \<open>SIMD/SIMDConvert.cpp\<close>): what converting a chunk does for every
    pair of types and dimensions: the elements are converted one by one, whatever the vector instructions, or the memory is shared, or
    the call throws, and lengths are wrong for output dimensions above one (C6).
  \<^item> \<open>BufferManager\<close> (\<open>BufferManager.cpp\<close>, \<open>Builtin/GenericBufferManager.cpp\<close>, \<open>Builtin/CircularBufferManager.cpp\<close>):
    both managers hand out their memory in order (C15, C16).
  \<^item> \<open>BufferAccumulator\<close> (\<open>BufferAccumulator.cpp\<close>, \<open>BufferPool.cpp\<close>): push appends, pop drops, require makes
    contiguous (C18); a pop after require that corrupts.
  \<^item> \<open>Ports\<close> (\<open>InputPort\<close>, \<open>OutputPort\<close>, \<open>Label\<close>): message queues, labels and their positions (C23), an
    insufficient consume check.
  \<^item> \<open>PortAllocation\<close> (\<open>WorkerActorPortAllocation.cpp\<close>, registration in \<open>Block.cpp\<close>): the four tables of ports agree
    after every operation (C25), automatic ports come and go, and a non-canonical name breaks the index. The
    locales \<open>port_class\<close> and \<open>two_port_classes\<close> state what the templates need, interpreted for inputs and outputs.
  \<^item> \<open>WorkerActor\<close> (\<open>WorkerActor.cpp\<close>): what holds before work when slot handlers respect the stream ports (C28), propagation of
    labels (C29), delivery to subscribers (C31), slot calls.
  \<^item> \<open>ActorInterface\<close> (\<open>ActorInterface.hpp\<close>, \<open>Util/SpinLock.hpp\<close>, \<open>Util/SpinLockRW.hpp\<close>): step relations of the
    locks and of the handover between external callers and workers; exclusion and no lost wake-up (C33 to C35). The
    locale \<open>try_lock\<close> is interpreted on the spin lock.
  \<^item> \<open>Flows\<close> (\<open>PortsAndFlows.hpp\<close>, \<open>TopologySquashFlows.cpp\<close>, \<open>completePassThroughFlows\<close>): the connections of the
    flattened and completed topology in terms of the wiring of the hierarchy, all flows at all levels; they are its transitive closure
    where pass-through flows stay apart (C36), while two pass-through topologies in a row lose their connection, and pass-through
    flows that share ports are mixed up.
  \<^item> \<open>Topology\<close> (\<open>Topology.cpp\<close>, \<open>TopologyNetworkFlows.cpp\<close>, \<open>TopologyDomainFlows.cpp\<close>): connect and disconnect
    flows, the port tables of a topology, and the insertion of copiers, which keeps the connections (C39).
  \<^item> \<open>TopologyCommit\<close> (\<open>TopologyCommit.cpp\<close>): after a commit the subscriptions are the wanted flows (C40).
  \<^item> \<open>PluginRegistry\<close> (\<open>lib/Plugin\<close>): paths and their names, the registry tree refines a map from paths to plugins
    (C17), unloading a module undoes its loading (C3). The locale \<open>plugin_store\<close>, what modules need of a registry, is
    interpreted on the tree. \<open>BlockRegistries\<close> (\<open>BlockRegistry.cpp\<close>): a factory that is registered as a block is what \<open>make\<close> calls.
  \<^item> \<open>Archive\<close> (\<open>include/Pothos/Archive\<close>, \<open>lib/Archive\<close>): the variable length numbers, which are read back exactly and
    written in the fewest bytes (C8, C9), with what a truncated number does; strings, pairs and containers, a
    loaded map being sorted; stream archivers, and the registry of types with their hash codes. The locale
    \<open>codec\<close> is the contract of a pair of save and load functions; \<open>codec_pair\<close>, \<open>codec_set\<close> and \<open>codec_map\<close> build codecs from
    codecs.
  \<^item> \<open>ObjectSerialize\<close> (\<open>lib/Object/Builtin/Serialize.cpp\<close> and the \<open>serialize\<close> functions of the framework types): objects
    nested to any depth come back from their bytes (C24). The locales \<open>object_codec\<close> and \<open>hashed_types\<close> state what the table of
    hash codes must satisfy.
  \<^item> \<open>Datagram\<close> (\<open>lib/Remote/RemoteProxyDatagram.cpp\<close>): the framed messages between processes; they round trip, and a
    truncated one is rejected.
  \<^item> \<open>EvalEnvironment\<close> (\<open>lib/Util/EvalEnvironment.cpp\<close>, \<open>EvalEnvironmentListParsers.cpp\<close>): splitting of expressions (C11), constants
    that pass through the parser, the recursive evaluation and its clobbered temporaries. \<open>BlockEvaluation\<close> (\<open>Util/Builtin/BlockEval.cpp\<close>): blocks are made from their descriptions, whose arguments see
    the properties and nothing else.
  \<^item> \<open>ThreadEnvironment\<close> (\<open>lib/Framework/ThreadEnvironment.cpp\<close>, \<open>ThreadPool.cpp\<close>): registration of tasks and the process
    loops as a step relation; a task is executed by one thread at a time and not after it is unregistered (C37), the number
    of threads (C26), and that a call can always return (C2).
  \<^item> \<open>Callables\<close> (\<open>lib/Callable\<close>, \<open>lib/Object/Convert.cpp\<close>): argument checks and bound arguments of a \<open>Callable\<close> (C38), the map of
    conversions, the search for two functions over an intermediate type (C20), and what a removal leaves behind.
  \<^item> \<open>NumberConversion\<close> (\<open>Object/Builtin/ConvertCommonImpl.hpp\<close>): integers are converted exactly or refused, but for a gap at \<open>2^63\<close>
    (C14); vectors are converted like their elements.
  \<^item> \<open>Managed\<close> (\<open>lib/Managed\<close>, \<open>lib/Proxy/Managed\<close>): registration of constructors and methods, which keeps the types of the
    class (C21), the class map, and the calls through a handle: which method or base class is called, the last registered match (C22), and going down to the
    base classes ends (C19).
  \<^item> \<open>Remote\<close> (\<open>lib/Remote/ServerHandler.cpp\<close>, \<open>RemoteProxy.cpp\<close>, \<open>RemoteProxyHandle.cpp\<close>): requests and replies over the datagrams. A
    call through a remote handle refines the call on the server (C32), and handles stay valid whatever is requested (C27).
    \<open>RemoteThreads\<close>: the threads that share a connection as a step function; all get their replies (C7), except that a failed
    receive can strand one (C12).
  \<^item> \<open>BlockDescriptions\<close> (\<open>lib/Util/BlockDescription.cpp\<close>): comments are grouped and parsed into descriptions of blocks, whose tables are
    consistent (C30); comments closed on their line, and nested parentheses in a factory, are not handled.

  \<^bold>\<open>How code becomes definitions.\<close> Classes are records, or datatypes where they nest; pointers are addresses into explicit
  heaps (\<open>Heap\<close>, \<open>World\<close>, \<open>System\<close>); exceptions are values returned with the state they leave; undefined behaviour and
  failed assertions that matter are the value \<open>None\<close>. \<open>size_t\<close> is a natural number with wrapping operations, other
  integers are words. Loops are recursive functions that terminate; the only loop that need not end, the draining of
  slot calls that may post to themselves, is a partial function to \<open>option\<close>, and \<open>slot_calls_run_in_order\<close> shows when it ends. Fuel stands
  only for nesting: of objects and of expressions, where C24 holds from the depth of the object on, and two levels are enough for
  the messages of remote proxies; of conversions, where C20 needs two levels; and of base classes, where C19 gives the depth.
  Concurrency is modelled where it is the subject, in \<open>ActorInterface\<close>, \<open>ThreadEnvironment\<close> and \<open>RemoteThreads\<close>, by interleaved atomic steps; elsewhere an
  operation runs under the lock the code takes. Futures run in the order of their list.

  \<^bold>\<open>Parameters.\<close> What a block does (\<open>Env\<close>), what objects answer to calls through proxies (\<open>Calls\<close>, \<open>Domains\<close>, \<open>Runtime\<close>),
  the operating system's allocations, the string tokenizer of the Poco library, and the copier and network blocks made
  by other modules, the string and JSON libraries (\<open>Library\<close>) are arguments of the definitions, with named hypotheses where a theorem relies on them. So are the vector library
  (\<open>Simd\<close>) and floating point casts of buffer conversion. For remote proxies they are the
  environments and proxies of the server's process (\<open>Local\<close>).

  \<^bold>\<open>Not modelled.\<close> Priority and affinity of operating system threads; the templates that make a
  type-erased \<open>Object\<close> or \<open>Callable\<close> of a C++ value or function (here they are values of a type and functions on them); remote
  processes and sockets (\<open>Remote/Server.cpp\<close>, \<open>Client.cpp\<close>); compilers, configuration files and JSON or DOT reports, which are front ends of third-party libraries;
  floating point arithmetic and what a vector instruction does; logging, paths, memory mapping and file locks; the statistics and time-outs of
  actors; \<open>waitInactive\<close>; the caches of buffer managers in \<open>WorkerActor.cpp\<close>; unit tests and applications.
\<close>

end
